(* ===== verification/Prelude.thy ===== *)
theory Prelude
  imports Main "HOL-Library.Word" "HOL-Library.Monad_Syntax"
begin

text \<open>
  Shared vocabulary of the development.

  Memory is a list of bytes, addressed by offsets.  A computation of the C code is a value of type
  \<open>'a option\<close>: \<^term>\<open>None\<close> stands for undefined behaviour (an access outside the allocated bytes,
  a null dereference, a failed assertion) and for a loop that does not end, so a theorem that an
  operation yields \<^term>\<open>Some\<close> is a statement of memory safety and of termination.

  The theory fixes the machine types, the byte-level accessors (\<open>rd\<close>, \<open>wr\<close>, \<open>zrealloc\<close>,
  \<open>memmove\<close>), the little-endian reading and writing of integers, and the lemmas on them that the
  component theories share.
\<close>

unbundle bit_operations_syntax

type_synonym byte = "8 word"
type_synonym u16 = "16 word"
type_synonym u32 = "32 word"
type_synonym u64 = "64 word"
type_synonym i32 = "32 word"
type_synonym i64 = "64 word"
type_synonym mem = "byte list"

text \<open>The bytes a fresh allocation holds are indeterminate: every operation that grows a buffer takes
  them as an argument, indexed by their offset in the buffer.\<close>

type_synonym fresh = "nat \<Rightarrow> byte"

text \<open>An allocator that may refuse: for a requested size, \<^term>\<open>None\<close> is the null pointer, otherwise the indeterminate bytes of
  the new block.\<close>

type_synonym allocator = "nat \<Rightarrow> fresh option"

named_theorems buf_simps \<open>lengths and contents of buffers after an access\<close>
named_theorems op_defs \<open>definitions of the modelled operations\<close>

section \<open>Guards and accessors\<close>

definition guard :: "bool \<Rightarrow> unit option" where
  "guard b = (if b then Some () else None)"

lemma guard_simps [simp]: "guard True = Some ()" "guard False = None"
  by (simp_all add: guard_def)

lemma guard_Some [simp]: "(guard b = Some u) = b"
  by (simp add: guard_def)

lemma bind_guard [simp]: "b \<Longrightarrow> Option.bind (guard b) f = f ()"
  by (simp add: guard_def)

text \<open>\<^term>\<open>rd\<close> reads \<^term>\<open>n\<close> bytes at an offset, \<^term>\<open>wr\<close> overwrites bytes in place.\<close>

definition rd :: "mem \<Rightarrow> nat \<Rightarrow> nat \<Rightarrow> mem option" where
  "rd m off n = (if off + n \<le> length m then Some (take n (drop off m)) else None)"

definition patch :: "mem \<Rightarrow> nat \<Rightarrow> mem \<Rightarrow> mem" where
  "patch m off bs = take off m @ bs @ drop (off + length bs) m"

definition wr :: "mem \<Rightarrow> nat \<Rightarrow> mem \<Rightarrow> mem option" where
  "wr m off bs = (if off + length bs \<le> length m then Some (patch m off bs) else None)"

definition zrealloc :: "fresh \<Rightarrow> mem \<Rightarrow> nat \<Rightarrow> mem" where
  "zrealloc f m n = take n m @ map f [length m..<n]"

definition memmove :: "mem \<Rightarrow> nat \<Rightarrow> nat \<Rightarrow> nat \<Rightarrow> mem option" where
  "memmove m dst src n = Option.bind (rd m src n) (wr m dst)"

definition getb :: "mem \<Rightarrow> nat \<Rightarrow> byte option" where
  "getb m i = (if i < length m then Some (m ! i) else None)"

definition setb :: "mem \<Rightarrow> nat \<Rightarrow> byte \<Rightarrow> mem option" where
  "setb m i b = (if i < length m then Some (m[i := b]) else None)"

text \<open>The result of a signed \<open>int\<close> operation: overflow is undefined.\<close>

definition c_int :: "int \<Rightarrow> int option" where
  "c_int x = (if - (2 ^ 31) \<le> x \<and> x < 2 ^ 31 then Some x else None)"

definition SIZE_MAX :: int where "SIZE_MAX = 2 ^ 64 - 1"

lemma c_int_Some: "- (2 ^ 31) \<le> x \<Longrightarrow> x < 2 ^ 31 \<Longrightarrow> c_int x = Some x"
  by (simp add: c_int_def)

lemma getb_Some [simp]: "i < length m \<Longrightarrow> getb m i = Some (m ! i)"
  by (simp add: getb_def)

lemma setb_Some [simp]: "i < length m \<Longrightarrow> setb m i b = Some (m[i := b])"
  by (simp add: setb_def)

lemma length_patch [buf_simps, simp]: "off + length bs \<le> length m \<Longrightarrow> length (patch m off bs) = length m"
  by (simp add: patch_def)

lemma length_zrealloc [buf_simps, simp]: "length (zrealloc f m n) = n"
  by (simp add: zrealloc_def)

lemma nth_patch:
  "off + length bs \<le> length m \<Longrightarrow>
   patch m off bs ! i = (if off \<le> i \<and> i < off + length bs then bs ! (i - off) else m ! i)"
  by (auto simp: patch_def nth_append)

lemma nth_zrealloc: "i < n \<Longrightarrow> zrealloc f m n ! i = (if i < length m then m ! i else f i)"
  by (auto simp: zrealloc_def nth_append)

lemma take_zrealloc: "k \<le> n \<Longrightarrow> k \<le> length m \<Longrightarrow> take k (zrealloc f m n) = take k m"
  by (simp add: zrealloc_def)

section \<open>Records of a fixed width inside a buffer\<close>

text \<open>\<^term>\<open>chunk e m i\<close> is the \<open>i\<close>-th record of width \<open>e\<close> in the buffer \<open>m\<close>.\<close>

definition chunk :: "nat \<Rightarrow> mem \<Rightarrow> nat \<Rightarrow> mem" where
  "chunk e m i = take e (drop (i * e) m)"

lemma chunk_in: "(i::nat) < n \<Longrightarrow> i * e + e \<le> n * e"
  by (metis Suc_leI add.commute mult_Suc mult_le_mono1)

lemma length_chunk [buf_simps]: "i < n \<Longrightarrow> n * e \<le> length m \<Longrightarrow> length (chunk e m i) = e"
  using chunk_in[of i n e] by (simp add: chunk_def)

lemma rd_chunk: "i < n \<Longrightarrow> n * e \<le> length m \<Longrightarrow> rd m (i * e) e = Some (chunk e m i)"
  using chunk_in[of i n e] by (simp add: rd_def chunk_def)

lemma chunk_cong: "(\<And>j. i * e \<le> j \<Longrightarrow> j < i * e + e \<Longrightarrow> m ! j = m' ! j) \<Longrightarrow>
   i * e + e \<le> length m \<Longrightarrow> i * e + e \<le> length m' \<Longrightarrow> chunk e m i = chunk e m' i"
  by (auto simp: chunk_def intro!: nth_equalityI)

lemma chunk_patch_same: "length bs = e \<Longrightarrow> i * e + e \<le> length m \<Longrightarrow> chunk e (patch m (i * e) bs) i = bs"
  by (simp add: chunk_def patch_def)

lemma mult_gap: "(i::nat) \<noteq> k \<Longrightarrow> i * e + e \<le> k * e \<or> k * e + e \<le> i * e"
  by (metis chunk_in linorder_neqE_nat)

lemma chunk_patch_other: "length bs = e \<Longrightarrow> k * e + e \<le> length m \<Longrightarrow> i * e + e \<le> length m \<Longrightarrow> i \<noteq> k \<Longrightarrow>
    chunk e (patch m (k * e) bs) i = chunk e m i"
  using mult_gap[of i k e] by (intro chunk_cong) (auto simp: nth_patch)

lemma chunk_zrealloc: "i * e + e \<le> length m \<Longrightarrow> i * e + e \<le> n \<Longrightarrow> chunk e (zrealloc f m n) i = chunk e m i"
  by (intro chunk_cong) (auto simp: nth_zrealloc)

lemma chunk_patch_slice:
  assumes "dst * e + length bs \<le> length m" "length bs = k * e" "dst \<le> i" "i < dst + k"
  shows "chunk e (patch m (dst * e) bs) i = chunk e bs (i - dst)"
proof -
  have 1: "(i - dst) * e + e \<le> k * e" using assms chunk_in[of "i - dst" k e] by linarith
  have 2: "i * e = dst * e + (i - dst) * e" using assms(3) by (simp flip: add_mult_distrib)
  have 3: "drop ((i - dst) * e) bs ! j = bs ! ((i - dst) * e + j)" for j
    using 1 assms(2) by (intro nth_drop) linarith
  show ?thesis unfolding chunk_def
    using assms(1,2) 1 2 by (auto intro!: nth_equalityI simp: nth_patch 3)
qed

lemma chunk_patch_outside:
  assumes "dst * e + length bs \<le> length m" "length bs = k * e" "i < dst \<or> dst + k \<le> i" "i * e + e \<le> length m"
  shows "chunk e (patch m (dst * e) bs) i = chunk e m i"
proof -
  have "i * e + e \<le> dst * e \<or> dst * e + k * e \<le> i * e"
    using assms(3) chunk_in[of i dst e] by (metis add_mult_distrib mult_le_mono1)
  then show ?thesis using assms(1,2,4) by (intro chunk_cong) (auto simp: nth_patch)
qed

lemma chunk_slice: "i < k \<Longrightarrow> src * e + k * e \<le> length m \<Longrightarrow>
   chunk e (take (k * e) (drop (src * e) m)) i = chunk e m (src + i)"
  using chunk_in[of i k e] by (simp add: chunk_def add_mult_distrib take_drop min_def add.commute add.left_commute)

section \<open>Little-endian integers\<close>

fun le_int :: "mem \<Rightarrow> int" where
  "le_int [] = 0"
| "le_int (b # bs) = uint b + 256 * le_int bs"

fun le_bytes :: "nat \<Rightarrow> int \<Rightarrow> mem" where
  "le_bytes 0 x = []"
| "le_bytes (Suc n) x = word_of_int x # le_bytes n (x div 256)"

lemma length_le_bytes [buf_simps, simp]: "length (le_bytes n x) = n"
  by (induction n arbitrary: x) auto

lemma uint_byte_bound [simp]: "uint (b::byte) < 256"
  using unsigned_less[of b] by simp

lemma le_int_ge0 [simp]: "0 \<le> le_int bs"
  by (induction bs) auto

lemma le_int_bound: "le_int bs < 256 ^ length bs"
proof (induction bs)
  case (Cons b bs)
  have "uint b < 256" by simp
  moreover have "256 * le_int bs + 256 \<le> 256 * 256 ^ length bs" using Cons by linarith
  ultimately show ?case by (simp only: le_int.simps list.size power_Suc add_Suc_right add_0_right)
qed simp

lemma uint_word_of_int_byte [simp]: "uint (word_of_int x :: byte) = x mod 256"
  by (simp add: uint_word_of_int)

lemma le_int_le_bytes: "le_int (le_bytes n x) = x mod 256 ^ n"
proof (induction n arbitrary: x)
  case (Suc n)
  then show ?case by (simp add: zmod_zmult2_eq)
qed simp

lemma byte_256_0 [simp]: "(256 :: byte) = 0"
  by (simp add: word_eq_iff_unsigned)

lemma le_bytes_le_int: "le_bytes (length bs) (le_int bs) = bs"
  by (induction bs) auto

lemma le_bytes_take: "k \<le> n \<Longrightarrow> take k (le_bytes n x) = le_bytes k x"
proof (induction k arbitrary: n x)
  case (Suc k)
  then show ?case by (cases n) auto
qed simp

section \<open>Signed readings of words\<close>

lemma sint_word_of_int_64: "- (2 ^ 63) \<le> x \<Longrightarrow> x < 2 ^ 63 \<Longrightarrow> sint (word_of_int x :: i64) = x"
  by (simp add: sint_sbintrunc' signed_take_bit_int_eq_self)

lemma sslt_iff: "(a <s b) = (sint a < sint b)" by (simp add: word_sless_alt)

lemma sint_small: "unat (w :: u32) < 2 ^ 31 \<Longrightarrow> sint w = int (unat w)"
proof -
  assume "unat w < 2 ^ 31"
  then have "uint w < 2 ^ 31" by (metis nat_less_numeral_power_cancel_iff unat_eq_nat_uint)
  then have "signed_take_bit 31 (uint w) = uint w"
    using uint_ge_0[of w] by (intro signed_take_bit_int_eq_self) linarith+
  then show ?thesis by (simp only: sint_uint len_of_numeral_defs) simp
qed


end
