(* ===== verification/Intset.thy ===== *)
theory Intset
  imports Prelude
begin

text \<open>
  Byte-order helpers (\<open>redislib-src/kernel/endianconv.c\<close>) and the integer set
  (\<open>redislib-src/kernel/intset.c\<close>): a sorted array of 16, 32 or 64 bit integers in one
  allocation, with binary search, insertion, removal and the in-place upgrade of the record width.

  The set is modelled byte by byte: \<open>contents\<close> is the allocated flexible array member, integers are
  stored in it little-endian (the build's \<open>BYTE_ORDER\<close>, under which the \<open>\<dots>ifbe\<close> macros do nothing),
  \<open>int\<close> variables are Isabelle integers with the conversions from \<open>uint32_t\<close> written out, and the
  lengths keep their 32 bit wrap-around.  \<open>int64_t\<close> values are 64 bit words compared as signed.
\<close>

section \<open>endianconv.c\<close>

definition memrev16 :: "mem \<Rightarrow> nat \<Rightarrow> mem option" where
  "memrev16 m p = do {
     t \<leftarrow> getb m p;
     x1 \<leftarrow> getb m (p + 1);
     m \<leftarrow> setb m p x1;
     setb m (p + 1) t }"

definition memrev32 :: "mem \<Rightarrow> nat \<Rightarrow> mem option" where
  "memrev32 m p = do {
     t \<leftarrow> getb m p;
     x3 \<leftarrow> getb m (p + 3);
     m \<leftarrow> setb m p x3;
     m \<leftarrow> setb m (p + 3) t;
     t \<leftarrow> getb m (p + 1);
     x2 \<leftarrow> getb m (p + 2);
     m \<leftarrow> setb m (p + 1) x2;
     setb m (p + 2) t }"

definition memrev64 :: "mem \<Rightarrow> nat \<Rightarrow> mem option" where
  "memrev64 m p = do {
     t \<leftarrow> getb m p;
     x7 \<leftarrow> getb m (p + 7);
     m \<leftarrow> setb m p x7;
     m \<leftarrow> setb m (p + 7) t;
     t \<leftarrow> getb m (p + 1);
     x6 \<leftarrow> getb m (p + 6);
     m \<leftarrow> setb m (p + 1) x6;
     m \<leftarrow> setb m (p + 6) t;
     t \<leftarrow> getb m (p + 2);
     x5 \<leftarrow> getb m (p + 5);
     m \<leftarrow> setb m (p + 2) x5;
     m \<leftarrow> setb m (p + 5) t;
     t \<leftarrow> getb m (p + 3);
     x4 \<leftarrow> getb m (p + 4);
     m \<leftarrow> setb m (p + 3) x4;
     setb m (p + 4) t }"

definition intrev16 :: "u16 \<Rightarrow> u16 option" where
  "intrev16 v = do { m \<leftarrow> memrev16 (le_bytes 2 (uint v)) 0; Some (word_of_int (le_int m)) }"

definition intrev32 :: "u32 \<Rightarrow> u32 option" where
  "intrev32 v = do { m \<leftarrow> memrev32 (le_bytes 4 (uint v)) 0; Some (word_of_int (le_int m)) }"

definition intrev64 :: "u64 \<Rightarrow> u64 option" where
  "intrev64 v = do { m \<leftarrow> memrev64 (le_bytes 8 (uint v)) 0; Some (word_of_int (le_int m)) }"

section \<open>intset.c: the data\<close>

record intset =
  encoding :: u32
  ilength :: u32
  contents :: mem

definition INTSET_ENC_INT16 :: nat where "INTSET_ENC_INT16 = 2"
definition INTSET_ENC_INT32 :: nat where "INTSET_ENC_INT32 = 4"
definition INTSET_ENC_INT64 :: nat where "INTSET_ENC_INT64 = 8"

lemmas enc_defs = INTSET_ENC_INT16_def INTSET_ENC_INT32_def INTSET_ENC_INT64_def

text \<open>\<^term>\<open>le_signed n bs\<close>: an \<open>n\<close>-byte signed integer loaded from memory and converted to \<open>int64_t\<close>;
  a store of an \<open>int64_t\<close> into an \<open>n\<close>-byte slot keeps its low \<open>n\<close> bytes.\<close>

definition le_signed :: "nat \<Rightarrow> mem \<Rightarrow> i64" where
  "le_signed n bs = word_of_int (signed_take_bit (8 * n - 1) (le_int bs))"

definition load_int :: "mem \<Rightarrow> nat \<Rightarrow> int \<Rightarrow> i64 option" where
  "load_int m n pos = do { guard (0 \<le> pos); bs \<leftarrow> rd m (nat pos * n) n; Some (le_signed n bs) }"

definition store_int :: "mem \<Rightarrow> nat \<Rightarrow> int \<Rightarrow> i64 \<Rightarrow> mem option" where
  "store_int m n pos v = do { guard (0 \<le> pos); wr m (nat pos * n) (le_bytes n (uint v)) }"

section \<open>intset.c: the operations\<close>

definition intsetValueEncoding :: "i64 \<Rightarrow> byte" where
  "intsetValueEncoding v =
     (if sint v < - (2 ^ 31) \<or> sint v > 2 ^ 31 - 1 then of_nat INTSET_ENC_INT64
      else if sint v < - (2 ^ 15) \<or> sint v > 2 ^ 15 - 1 then of_nat INTSET_ENC_INT32
      else of_nat INTSET_ENC_INT16)"

definition intsetGetEncoded :: "intset \<Rightarrow> int \<Rightarrow> byte \<Rightarrow> i64 option" where
  "intsetGetEncoded is pos enc =
     (if unat enc = INTSET_ENC_INT64 then load_int (contents is) 8 pos
      else if unat enc = INTSET_ENC_INT32 then load_int (contents is) 4 pos
      else load_int (contents is) 2 pos)"

definition intsetGet' :: "intset \<Rightarrow> int \<Rightarrow> i64 option" where
  "intsetGet' is pos = intsetGetEncoded is pos (ucast (encoding is))"

definition intsetSet :: "intset \<Rightarrow> int \<Rightarrow> i64 \<Rightarrow> intset option" where
  "intsetSet is pos value = (let enc = encoding is in do {
     c \<leftarrow> (if unat enc = INTSET_ENC_INT64 then store_int (contents is) 8 pos value
          else if unat enc = INTSET_ENC_INT32 then store_int (contents is) 4 pos value
          else store_int (contents is) 2 pos value);
     Some (is\<lparr>contents := c\<rparr>) })"

definition intsetNew :: intset where
  "intsetNew = \<lparr>encoding = of_nat INTSET_ENC_INT16, ilength = 0, contents = []\<rparr>"

definition sizeof_intset :: nat where "sizeof_intset = 8"

definition intsetAllocSize :: "intset \<Rightarrow> nat option" where
  "intsetAllocSize is = (let sz = unat (ilength is) * unat (encoding is) in do {
     guard (int sz \<le> SIZE_MAX - int sizeof_intset);
     Some (sizeof_intset + sz) })"

definition intsetResize :: "fresh \<Rightarrow> intset \<Rightarrow> u32 \<Rightarrow> intset option" where
  "intsetResize f is len = (let sz = unat len * unat (encoding is) in do {
     guard (int sz \<le> SIZE_MAX - int sizeof_intset);
     Some (is\<lparr>contents := zrealloc f (contents is) sz\<rparr>) })"

text \<open>The loop of \<open>intsetSearch\<close>; its state is \<open>min\<close>, \<open>max\<close>, \<open>mid\<close> and \<open>cur\<close>.\<close>

partial_function (option) intsetSearch_loop ::
  "intset \<Rightarrow> i64 \<Rightarrow> int \<Rightarrow> int \<Rightarrow> int \<Rightarrow> i64 \<Rightarrow> (int \<times> int \<times> i64) option" where
  "intsetSearch_loop is value mn mx mid cur =
     (if mx \<ge> mn then
        let mid = sint (drop_bit 1 (word_of_int mn + word_of_int mx :: u32)) in do {
          cur \<leftarrow> intsetGet' is mid;
          if cur <s value then do { mn \<leftarrow> c_int (mid + 1); intsetSearch_loop is value mn mx mid cur }
          else if value <s cur then do { mx \<leftarrow> c_int (mid - 1); intsetSearch_loop is value mn mx mid cur }
          else Some (mn, mid, cur) }
      else Some (mn, mid, cur))"

definition intsetSearch :: "intset \<Rightarrow> i64 \<Rightarrow> (bool \<times> u32) option" where
  "intsetSearch is value =
     (let mx = sint (ilength is - 1) in
      if ilength is = 0 then Some (False, 0)
      else do {
        hi \<leftarrow> intsetGet' is mx;
        if hi <s value then Some (False, ilength is)
        else do {
          lo \<leftarrow> intsetGet' is 0;
          if value <s lo then Some (False, 0)
          else do {
            (mn, mid, cur) \<leftarrow> intsetSearch_loop is value 0 mx (-1) (-1);
            if value = cur then Some (True, word_of_int mid) else Some (False, word_of_int mn) } } })"

text \<open>The loop \<open>while(length--)\<close> of \<open>intsetUpgradeAndAdd\<close>.\<close>

partial_function (option) intsetUpgrade_loop :: "intset \<Rightarrow> int \<Rightarrow> int \<Rightarrow> byte \<Rightarrow> intset option" where
  "intsetUpgrade_loop is len prepend curenc =
     (if len = 0 then Some is
      else do {
        len' \<leftarrow> c_int (len - 1);
        v \<leftarrow> intsetGetEncoded is len' curenc;
        is' \<leftarrow> intsetSet is (len' + prepend) v;
        intsetUpgrade_loop is' len' prepend curenc })"

definition intsetUpgradeAndAdd :: "fresh \<Rightarrow> intset \<Rightarrow> i64 \<Rightarrow> intset option" where
  "intsetUpgradeAndAdd f is value =
     (let curenc = (ucast (encoding is) :: byte);
          newenc = intsetValueEncoding value;
          len = sint (ilength is);
          prepend = (if value <s 0 then 1 else 0) in do {
        is \<leftarrow> intsetResize f (is\<lparr>encoding := ucast newenc\<rparr>) (ilength is + 1);
        is \<leftarrow> intsetUpgrade_loop is len prepend curenc;
        is \<leftarrow> (if prepend = 1 then intsetSet is 0 value else intsetSet is (sint (ilength is)) value);
        Some (is\<lparr>ilength := ilength is + 1\<rparr>) })"

text \<open>\<open>bytes\<close> is a \<open>uint32_t\<close>, so the product with the record size wraps.\<close>

definition intsetMoveTail :: "intset \<Rightarrow> u32 \<Rightarrow> u32 \<Rightarrow> intset option" where
  "intsetMoveTail is from to =
     (let bytes = ilength is - from; enc = encoding is;
          sz = (if unat enc = INTSET_ENC_INT64 then 8 else if unat enc = INTSET_ENC_INT32 then 4 else 2 :: nat);
          src = unat from * sz; dst = unat to * sz; bytes = bytes * of_nat sz in do {
        c \<leftarrow> memmove (contents is) dst src (unat bytes);
        Some (is\<lparr>contents := c\<rparr>) })"

definition intsetAdd :: "fresh \<Rightarrow> intset \<Rightarrow> i64 \<Rightarrow> (intset \<times> bool) option" where
  "intsetAdd f is value =
     (let valenc = intsetValueEncoding value in
      if unat valenc > unat (encoding is) then do {
        is \<leftarrow> intsetUpgradeAndAdd f is value;
        Some (is, True) }
      else do {
        (found, pos) \<leftarrow> intsetSearch is value;
        if found then Some (is, False)
        else do {
          is \<leftarrow> intsetResize f is (ilength is + 1);
          is \<leftarrow> (if pos < ilength is then intsetMoveTail is pos (pos + 1) else Some is);
          is \<leftarrow> intsetSet is (sint pos) value;
          Some (is\<lparr>ilength := ilength is + 1\<rparr>, True) } })"

definition intsetRemove :: "fresh \<Rightarrow> intset \<Rightarrow> i64 \<Rightarrow> (intset \<times> bool) option" where
  "intsetRemove f is value =
     (let valenc = intsetValueEncoding value in
      if unat valenc \<le> unat (encoding is) then do {
        (found, pos) \<leftarrow> intsetSearch is value;
        if found then do {
          let len = ilength is;
          is \<leftarrow> (if pos < len - 1 then intsetMoveTail is (pos + 1) pos else Some is);
          is \<leftarrow> intsetResize f is (len - 1);
          Some (is\<lparr>ilength := len - 1\<rparr>, True) }
        else Some (is, False) }
      else Some (is, False))"

definition intsetFind :: "intset \<Rightarrow> i64 \<Rightarrow> bool option" where
  "intsetFind is value =
     (if unat (intsetValueEncoding value) \<le> unat (encoding is)
      then do { (found, pos) \<leftarrow> intsetSearch is value; Some found }
      else Some False)"

text \<open>\<open>rand()\<close> is an argument.\<close>

definition intsetRandom :: "u32 \<Rightarrow> intset \<Rightarrow> i64 option" where
  "intsetRandom rand is = do {
     guard (ilength is \<noteq> 0);
     intsetGet' is (sint (rand mod ilength is)) }"

definition intsetMax :: "intset \<Rightarrow> i64 option" where
  "intsetMax is = intsetGet' is (sint (ilength is - 1))"

definition intsetMin :: "intset \<Rightarrow> i64 option" where
  "intsetMin is = intsetGet' is 0"

definition intsetGet :: "intset \<Rightarrow> u32 \<Rightarrow> i64 option option" where
  "intsetGet is pos =
     (if pos < ilength is then do { v \<leftarrow> intsetGet' is (sint pos); Some (Some v) } else Some None)"

definition intsetLen :: "intset \<Rightarrow> u32" where
  "intsetLen is = ilength is"

definition intsetBlobLen :: "intset \<Rightarrow> nat" where
  "intsetBlobLen is = sizeof_intset + unat (ilength is) * unat (encoding is)"

text \<open>The cast \<open>(intset*)p\<close>: the header and the flexible array of a byte buffer.\<close>

definition as_intset :: "mem \<Rightarrow> intset" where
  "as_intset p = \<lparr>encoding = word_of_int (le_int (take 4 p)), ilength = word_of_int (le_int (take 4 (drop 4 p))),
     contents = drop 8 p\<rparr>"

partial_function (option) intsetValidate_loop :: "intset \<Rightarrow> u32 \<Rightarrow> u32 \<Rightarrow> i64 \<Rightarrow> bool option" where
  "intsetValidate_loop is i count prev =
     (if i < count then do {
        cur \<leftarrow> intsetGet' is (sint i);
        if cur \<le>s prev then Some False
        else intsetValidate_loop is (i + 1) count cur }
      else Some True)"

definition intsetValidateIntegrity :: "mem \<Rightarrow> nat \<Rightarrow> bool \<Rightarrow> bool option" where
  "intsetValidateIntegrity p sz deep =
     (let is = as_intset p in
      if sz < sizeof_intset then Some False
      else do {
        guard (sizeof_intset \<le> length p);
        let enc = unat (encoding is);
        if enc \<noteq> INTSET_ENC_INT64 \<and> enc \<noteq> INTSET_ENC_INT32 \<and> enc \<noteq> INTSET_ENC_INT16 then Some False
        else do {
          let record_size = enc;
          let count = ilength is;
          if sizeof_intset + unat count * record_size \<noteq> sz then Some False
          else if count = 0 then Some False
          else if \<not> deep then Some True
          else do {
            prev \<leftarrow> intsetGet' is 0;
            intsetValidate_loop is 1 count prev } } })"

lemmas [op_defs] = intsetGetEncoded_def intsetGet'_def intsetSet_def intsetResize_def

declare intsetSearch_loop.simps [code] intsetUpgrade_loop.simps [code] intsetValidate_loop.simps [code]

section \<open>Byte order\<close>

lemma split_at: "p + n \<le> length m \<Longrightarrow> \<exists>us xs vs. m = us @ xs @ vs \<and> length us = p \<and> length xs = n"
  by (rule exI[of _ "take p m"], rule exI[of _ "take n (drop p m)"], rule exI[of _ "drop (p + n) m"])
     (simp add: take_drop append_take_drop_id flip: append_assoc, metis add.commute append_assoc append_take_drop_id take_add take_drop)

lemma length_4: "length xs = 4 \<Longrightarrow> \<exists>a b c d. xs = [a, b, c, d]"
  by (auto simp: numeral_eq_Suc length_Suc_conv)

lemma length_8: "length xs = 8 \<Longrightarrow> \<exists>a b c d a' b' c' d'. xs = [a, b, c, d, a', b', c', d']"
  by (auto simp: numeral_eq_Suc length_Suc_conv)

lemma memrev16_rev: "p + 2 \<le> length m \<Longrightarrow> memrev16 m p = Some (patch m p (rev (take 2 (drop p m))))"
  by (drule split_at) (auto simp: memrev16_def patch_def numeral_eq_Suc length_Suc_conv nth_append list_update_append)

lemma memrev32_rev: "p + 4 \<le> length m \<Longrightarrow> memrev32 m p = Some (patch m p (rev (take 4 (drop p m))))"
  by (drule split_at) (auto dest!: length_4 simp: memrev32_def patch_def nth_append list_update_append)

lemma memrev64_rev: "p + 8 \<le> length m \<Longrightarrow> memrev64 m p = Some (patch m p (rev (take 8 (drop p m))))"
  by (drule split_at) (auto dest!: length_8 simp: memrev64_def patch_def nth_append list_update_append)

section \<open>Signed loads and stores\<close>

lemma signed_take_bit_uint: "n < 64 \<Longrightarrow> signed_take_bit n (uint (v::i64)) = signed_take_bit n (sint v)"
  by (simp add: sint_uint  min_def)

lemma le_signed_le_bytes:
  assumes "0 < n" "n \<le> 8" "- (2 ^ (8 * n - 1)) \<le> sint v" "sint v < 2 ^ (8 * n - 1)"
  shows "le_signed n (le_bytes n (uint v)) = v"
proof -
  have "(256::int) ^ n = 2 ^ (8 * n)" by (simp add: power_mult)
  then have "signed_take_bit (8 * n - 1) (le_int (le_bytes n (uint v))) = signed_take_bit (8 * n - 1) (take_bit (8 * n) (uint v))"
    by (simp add: le_int_le_bytes take_bit_eq_mod)
  also have "\<dots> = signed_take_bit (8 * n - 1) (uint v)"
    using assms(1) by (auto simp: signed_take_bit_take_bit)
  also have "\<dots> = signed_take_bit (8 * n - 1) (sint v)" using assms by (intro signed_take_bit_uint) simp
  also have "\<dots> = sint v" using assms by (intro signed_take_bit_int_eq_self) 
  finally show ?thesis by (simp add: le_signed_def)
qed

lemma sint_le_signed_range:
  assumes "0 < n" "n \<le> 8"
  shows "- (2 ^ (8 * n - 1)) \<le> sint (le_signed n bs)" and "sint (le_signed n bs) < 2 ^ (8 * n - 1)"
proof -
  let ?x = "signed_take_bit (8 * n - 1) (le_int bs)"
  have r: "- (2 ^ (8 * n - 1)) \<le> ?x" "?x < 2 ^ (8 * n - 1)"
    by (simp_all add: signed_take_bit_int_greater_eq_minus_exp signed_take_bit_int_less_exp)
  moreover have "(2::int) ^ (8 * n - 1) \<le> 2 ^ 63" using assms by (intro power_increasing) auto
  ultimately have "sint (le_signed n bs) = ?x" 
    unfolding le_signed_def by (intro sint_word_of_int_64) linarith+
  with r show "- (2 ^ (8 * n - 1)) \<le> sint (le_signed n bs)" "sint (le_signed n bs) < 2 ^ (8 * n - 1)" by simp_all
qed

section \<open>The invariant and the abstraction\<close>

abbreviation esz :: "intset \<Rightarrow> nat" where "esz is \<equiv> unat (encoding is)"

definition ilen :: "intset \<Rightarrow> nat" where "ilen is = unat (ilength is)"

definition ivals :: "intset \<Rightarrow> int list" where
  "ivals is = map (\<lambda>i. sint (le_signed (esz is) (chunk (esz is) (contents is) i))) [0..<ilen is]"

definition intset_shape :: "intset \<Rightarrow> bool" where
  "intset_shape is \<longleftrightarrow> esz is \<in> {2, 4, 8} \<and> length (contents is) = ilen is * esz is"

definition intset_ok :: "intset \<Rightarrow> bool" where
  "intset_ok is \<longleftrightarrow> intset_shape is \<and> sorted_wrt (<) (ivals is)"

text \<open>The entries a set can hold before a 32 bit quantity of the code wraps.\<close>

definition INTSET_CAP :: nat where "INTSET_CAP = 2 ^ 28"

definition fits :: "nat \<Rightarrow> int \<Rightarrow> bool" where
  "fits e v \<longleftrightarrow> - (2 ^ (8 * e - 1)) \<le> v \<and> v < 2 ^ (8 * e - 1)"

lemma length_ivals [simp]: "length (ivals is) = ilen is"
  by (simp add: ivals_def)

lemma ivals_nth: "i < ilen is \<Longrightarrow> ivals is ! i = sint (le_signed (esz is) (chunk (esz is) (contents is) i))"
  by (simp add: ivals_def)

lemma le_signed_fits: "e \<in> {2, 4, 8} \<Longrightarrow> fits e (sint (le_signed e bs))"
  using sint_le_signed_range[of e bs] by (auto simp: fits_def)

lemma fits_mono: "fits e v \<Longrightarrow> e \<le> e' \<Longrightarrow> fits e' v"
proof -
  assume a: "fits e v" "e \<le> e'"
  then have "(2::int) ^ (8 * e - 1) \<le> 2 ^ (8 * e' - 1)" by (intro power_increasing) auto
  with a show ?thesis unfolding fits_def by linarith
qed

lemma ivals_fits: "intset_shape is \<Longrightarrow> x \<in> set (ivals is) \<Longrightarrow> fits (esz is) x"
  by (auto simp: ivals_def intset_shape_def le_signed_fits)

lemma le_signed_store: "e \<in> {2, 4, 8} \<Longrightarrow> fits e (sint v) \<Longrightarrow> le_signed e (le_bytes e (uint v)) = v"
  by (rule le_signed_le_bytes) (auto simp: fits_def)

lemma fits_8: "fits 8 (sint (v :: i64))"
  using sint_ge[of v] sint_lt[of v] by (simp add: fits_def)

lemma valenc_le: "e \<in> {2, 4, 8} \<Longrightarrow> unat (intsetValueEncoding v) \<le> e \<longleftrightarrow> fits e (sint v)"
  using fits_8[of v] by (auto simp: intsetValueEncoding_def enc_defs fits_def)

lemma valenc_mem: "unat (intsetValueEncoding v) \<in> {2, 4, 8}"
  by (auto simp: intsetValueEncoding_def enc_defs)

section \<open>Accessors on a well-shaped set\<close>

lemma getEncoded_chunk:
  "unat enc \<in> {2, 4, 8} \<Longrightarrow> i * unat enc + unat enc \<le> length (contents is) \<Longrightarrow>
   intsetGetEncoded is (int i) enc = Some (le_signed (unat enc) (chunk (unat enc) (contents is) i))"
  by (auto simp: intsetGetEncoded_def enc_defs load_int_def rd_def chunk_def)

lemma set_chunk:
  "esz is \<in> {2, 4, 8} \<Longrightarrow> i * esz is + esz is \<le> length (contents is) \<Longrightarrow>
   intsetSet is (int i) v = Some (is\<lparr>contents := patch (contents is) (i * esz is) (le_bytes (esz is) (uint v))\<rparr>)"
  by (auto simp: intsetSet_def enc_defs store_int_def wr_def Let_def)

lemma unat_ucast_enc: "esz is \<in> {2, 4, 8} \<Longrightarrow> unat (ucast (encoding is) :: byte) = esz is"
  by (auto simp: unsigned_ucast_eq)

lemma get_val:
  assumes "intset_shape is" "i < ilen is"
  shows "\<exists>w. intsetGet' is (int i) = Some w \<and> sint w = ivals is ! i"
proof -
  have "i * esz is + esz is \<le> length (contents is)"
    using assms chunk_in[of i "ilen is" "esz is"] by (simp add: intset_shape_def)
  then show ?thesis using assms
    by (simp add: intsetGet'_def getEncoded_chunk unat_ucast_enc intset_shape_def ivals_nth)
qed

section \<open>Sorted integer lists\<close>

definition below :: "int \<Rightarrow> int list \<Rightarrow> nat" where
  "below v xs = length (takeWhile (\<lambda>x. x < v) xs)"

lemma belowI:
  assumes "k \<le> length xs" "\<And>i. i < k \<Longrightarrow> xs ! i < v" "\<And>i. k \<le> i \<Longrightarrow> i < length xs \<Longrightarrow> v \<le> xs ! i"
  shows "below v xs = k"
proof -
  have "takeWhile (\<lambda>x. x < v) xs = take k xs"
    by (rule takeWhile_eq_take_P_nth) (use assms in \<open>auto simp: not_less\<close>)
  then show ?thesis using assms(1) by (simp add: below_def)
qed

lemma insort_take_drop:
  assumes "sorted xs" "\<forall>x \<in> set (take k xs). x < v" "\<forall>x \<in> set (drop k xs). v \<le> (x::int)"
  shows "insort v xs = take k xs @ v # drop k xs"
  using assms
proof (induction xs arbitrary: k)
  case (Cons x xs)
  show ?case
  proof (cases k)
    case 0
    then show ?thesis using Cons.prems by auto
  next
    case (Suc k')
    then have "x < v" using Cons.prems by simp
    with Suc Cons show ?thesis by simp
  qed
qed simp

lemma sorted_wrt_lt_nth: "sorted_wrt (<) (xs :: int list) \<Longrightarrow> i < j \<Longrightarrow> j < length xs \<Longrightarrow> xs ! i < xs ! j"
  by (rule sorted_wrt_nth_less)

lemma sorted_wrt_lt_le: "sorted_wrt (<) (xs :: int list) \<Longrightarrow> i \<le> j \<Longrightarrow> j < length xs \<Longrightarrow> xs ! i \<le> xs ! j"
  by (metis less_imp_le nat_less_le order_refl sorted_wrt_lt_nth)

section \<open>Binary search\<close>

lemma midpoint:
  assumes "0 \<le> mn" "mn \<le> mx" "mx < 2 ^ 31"
  shows "sint (drop_bit 1 (word_of_int mn + word_of_int mx :: u32)) = (mn + mx) div 2"
proof -
  have "(word_of_int mn + word_of_int mx :: u32) = word_of_int (mn + mx)" by simp
  moreover have "uint (word_of_int (mn + mx) :: u32) = mn + mx"
    using assms unfolding uint_word_of_int by (intro mod_pos_pos_trivial) auto
  ultimately have u: "uint (drop_bit 1 (word_of_int mn + word_of_int mx :: u32)) = (mn + mx) div 2"
    using assms by (simp only: unsigned_drop_bit_eq) (simp add: drop_bit_eq_div take_bit_int_eq_self)
  then have "unat (drop_bit 1 (word_of_int mn + word_of_int mx :: u32)) < 2 ^ 31"
    using assms by (simp add: unat_eq_nat_uint nat_less_iff)
  then show ?thesis using u by (metis sint_small uint_nat)
qed

lemma search_loop:
  assumes ok: "intset_ok is" "ilen is < 2 ^ 31"
  assumes "0 \<le> mn" "mx < int (ilen is)" "mn \<le> mx + 1"
    "\<And>i. int i < mn \<Longrightarrow> ivals is ! i < sint v"
    "\<And>i. mx < int i \<Longrightarrow> i < ilen is \<Longrightarrow> sint v < ivals is ! i"
    "mx < mn \<Longrightarrow> cur \<noteq> v"
  shows "\<exists>mn' mid' cur'. intsetSearch_loop is v mn mx mid0 cur = Some (mn', mid', cur') \<and>
     (if cur' = v then 0 \<le> mid' \<and> mid' < int (ilen is) \<and> ivals is ! nat mid' = sint v
      else 0 \<le> mn' \<and> mn' \<le> int (ilen is) \<and> (\<forall>i. int i < mn' \<longrightarrow> ivals is ! i < sint v) \<and>
        (\<forall>i. mn' \<le> int i \<longrightarrow> i < ilen is \<longrightarrow> sint v < ivals is ! i))"
  using assms(3-)
proof (induction "nat (mx - mn + 1)" arbitrary: mn mx mid0 cur rule: less_induct)
  case less
  let ?xs = "ivals is"
  show ?case
  proof (cases "mn \<le> mx")
    case False
    then have "mx + 1 = mn" using less.prems by linarith
    then show ?thesis using less.prems False
      by (subst intsetSearch_loop.simps) (auto simp: Let_def)
  next
    case True
    define mid where "mid = (mn + mx) div 2"
    have b: "mn \<le> mid" "mid \<le> mx" "0 \<le> mid" "nat mid < ilen is"
      using True less.prems by (auto simp: mid_def)
    have mid_eq: "sint (drop_bit 1 (word_of_int mn + word_of_int mx :: u32)) = mid"
      unfolding mid_def using True less.prems ok(2) by (intro midpoint) auto
    obtain w where w: "intsetGet' is mid = Some w" "sint w = ?xs ! nat mid"
      using get_val[of "is" "nat mid"] ok b by (auto simp: intset_ok_def)
    have ci: "c_int (mid + 1) = Some (mid + 1)" "c_int (mid - 1) = Some (mid - 1)"
      using b less.prems ok(2) by (auto intro!: c_int_Some)
    have srt: "sorted_wrt (<) ?xs" using ok by (simp add: intset_ok_def)
    consider (lt) "sint w < sint v" | (gt) "sint v < sint w" | (eq) "w = v"
      by (meson linorder_neqE signed_word_eqI)
    then show ?thesis
    proof cases
      case lt
      have "\<exists>mn' mid' cur'. intsetSearch_loop is v (mid + 1) mx mid w = Some (mn', mid', cur') \<and>
         (if cur' = v then 0 \<le> mid' \<and> mid' < int (ilen is) \<and> ivals is ! nat mid' = sint v
          else 0 \<le> mn' \<and> mn' \<le> int (ilen is) \<and> (\<forall>i. int i < mn' \<longrightarrow> ivals is ! i < sint v) \<and>
            (\<forall>i. mn' \<le> int i \<longrightarrow> i < ilen is \<longrightarrow> sint v < ivals is ! i))"
      proof (rule less.hyps)
        fix i assume "int i < mid + 1"
        then have "?xs ! i \<le> ?xs ! nat mid" using b srt by (intro sorted_wrt_lt_le) auto
        then show "?xs ! i < sint v" using lt w by simp
      qed (use b less.prems lt in auto)
      moreover have "intsetSearch_loop is v mn mx mid0 cur = intsetSearch_loop is v (mid + 1) mx mid w"
        using True lt w ci by (subst intsetSearch_loop.simps) (simp add: mid_eq[unfolded One_nat_def] Let_def sslt_iff)
      ultimately show ?thesis by (simp only:)
    next
      case gt
      have "\<exists>mn' mid' cur'. intsetSearch_loop is v mn (mid - 1) mid w = Some (mn', mid', cur') \<and>
         (if cur' = v then 0 \<le> mid' \<and> mid' < int (ilen is) \<and> ivals is ! nat mid' = sint v
          else 0 \<le> mn' \<and> mn' \<le> int (ilen is) \<and> (\<forall>i. int i < mn' \<longrightarrow> ivals is ! i < sint v) \<and>
            (\<forall>i. mn' \<le> int i \<longrightarrow> i < ilen is \<longrightarrow> sint v < ivals is ! i))"
      proof (rule less.hyps)
        fix i assume "mid - 1 < int i" "i < ilen is"
        then have "?xs ! nat mid \<le> ?xs ! i" using b srt by (intro sorted_wrt_lt_le) auto
        then show "sint v < ?xs ! i" using gt w by simp
      qed (use b less.prems gt in auto)
      moreover have "intsetSearch_loop is v mn mx mid0 cur = intsetSearch_loop is v mn (mid - 1) mid w"
        using True gt w ci by (subst intsetSearch_loop.simps) (simp add: mid_eq[unfolded One_nat_def] Let_def sslt_iff)
      ultimately show ?thesis by (simp only:)
    next
      case eq
      then show ?thesis using True w b
        by (subst intsetSearch_loop.simps) (auto simp: mid_eq[unfolded One_nat_def] Let_def sslt_iff)
    qed
  qed
qed


lemma ilen_small: "ilen is < 2 ^ 31 \<Longrightarrow> sint (ilength is) = int (ilen is)"
  by (simp add: sint_small ilen_def)

lemma sint_pred: 
  assumes "ilength is \<noteq> 0" "ilen is < 2 ^ 31"
  shows "sint (ilength is - 1) = int (ilen is) - 1"
proof -
  have "unat (ilength is - 1) = ilen is - 1" "ilen is \<noteq> 0"
    using assms by (simp_all add: ilen_def unat_minus_one unat_eq_0)
  then show ?thesis using assms sint_small[of "ilength is - 1"] by simp
qed

lemma search_found_below:
  assumes "sorted_wrt (<) (xs :: int list)" "k < length xs" "xs ! k = v"
  shows "below v xs = k"
  by (rule belowI) (use assms sorted_wrt_lt_nth[OF assms(1)] sorted_wrt_lt_le[OF assms(1)] in auto)

lemma intsetSearch_correct:
  assumes ok: "intset_ok is" and small: "ilen is < 2 ^ 31"
  shows "intsetSearch is v = Some (sint v \<in> set (ivals is), of_nat (below (sint v) (ivals is)))"
proof (cases "ilength is = 0")
  case True
  then show ?thesis by (simp add: intsetSearch_def ivals_def ilen_def below_def)
next
  case False
  let ?xs = "ivals is" and ?n = "ilen is"
  have n: "?n \<noteq> 0" using False by (simp add: ilen_def unat_eq_0)
  have srt: "sorted_wrt (<) ?xs" and sh: "intset_shape is" using ok by (simp_all add: intset_ok_def)
  obtain lo where lo: "intsetGet' is 0 = Some lo" "sint lo = ?xs ! 0"
    using get_val[OF sh, of 0] n by auto
  obtain hi where hi: "intsetGet' is (int ?n - 1) = Some hi" "sint hi = ?xs ! (?n - 1)"
    using get_val[OF sh, of "?n - 1"] n by (auto simp: of_nat_diff)
  consider (above) "sint hi < sint v" | (under) "\<not> sint hi < sint v" "sint v < sint lo"
    | (inside) "\<not> sint hi < sint v" "\<not> sint v < sint lo" by blast
  then show ?thesis
  proof cases
    case above
    have all: "x < sint v" if "x \<in> set ?xs" for x
    proof -
      from that obtain i where "i < ?n" "x = ?xs ! i" by (auto simp: in_set_conv_nth)
      then have "x \<le> ?xs ! (?n - 1)" using srt by (auto intro!: sorted_wrt_lt_le)
      then show ?thesis using above hi by simp
    qed
    then have "below (sint v) ?xs = ?n" by (intro belowI) auto
    then show ?thesis using all above hi False
      by (auto simp: intsetSearch_def sint_pred[OF False small] sslt_iff Let_def ilen_def)
  next
    case under
    have all: "sint v < x" if "x \<in> set ?xs" for x
    proof -
      from that obtain i where "i < ?n" "x = ?xs ! i" by (auto simp: in_set_conv_nth)
      then have "?xs ! 0 \<le> x" using srt by (auto intro!: sorted_wrt_lt_le)
      then show ?thesis using under lo by simp
    qed
    then have "below (sint v) ?xs = 0" by (intro belowI) (auto simp: less_imp_le)
    then show ?thesis using all under hi lo False
      by (auto simp: intsetSearch_def sint_pred[OF False small] sslt_iff Let_def)
  next
    case inside
    obtain mn mid cur where l: "intsetSearch_loop is v 0 (int ?n - 1) (-1) (-1) = Some (mn, mid, cur)"
      "if cur = v then 0 \<le> mid \<and> mid < int ?n \<and> ?xs ! nat mid = sint v
       else 0 \<le> mn \<and> mn \<le> int ?n \<and> (\<forall>i. int i < mn \<longrightarrow> ?xs ! i < sint v) \<and>
         (\<forall>i. mn \<le> int i \<longrightarrow> i < ?n \<longrightarrow> sint v < ?xs ! i)"
      using search_loop[OF ok small, of 0 "int ?n - 1" v "-1" "-1"] n by auto
    have run: "intsetSearch is v = (if v = cur then Some (True, word_of_int mid) else Some (False, word_of_int mn))"
      using inside l(1) hi lo False by (simp add: intsetSearch_def sint_pred[OF False small] sslt_iff Let_def)
    show ?thesis
    proof (cases "cur = v")
      case True
      then have m: "0 \<le> mid" "nat mid < ?n" "?xs ! nat mid = sint v" using l(2) by auto
      then have "below (sint v) ?xs = nat mid" by (intro search_found_below[OF srt]) auto
      moreover have "sint v \<in> set ?xs" using m by (metis length_ivals nth_mem)
      ultimately show ?thesis using run True m(1) by simp
    next
      case False
      then have m: "0 \<le> mn" "mn \<le> int ?n" "\<And>i. int i < mn \<Longrightarrow> ?xs ! i < sint v"
         "\<And>i. mn \<le> int i \<Longrightarrow> i < ?n \<Longrightarrow> sint v < ?xs ! i" using l(2) by auto
      then have "below (sint v) ?xs = nat mn" by (intro belowI) (auto simp: less_imp_le)
      moreover have "sint v \<notin> set ?xs"
      proof
        assume "sint v \<in> set ?xs"
        then obtain i where "i < ?n" "?xs ! i = sint v" by (auto simp: in_set_conv_nth)
        then show False using m(3)[of i] m(4)[of i] by fastforce
      qed
      ultimately show ?thesis using run False m(1) by auto
    qed
  qed
qed


section \<open>Insertion and removal\<close>

lemma ivals_eqI:
  "length ys = ilen is \<Longrightarrow>
   (\<And>i. i < ilen is \<Longrightarrow> sint (le_signed (esz is) (chunk (esz is) (contents is) i)) = ys ! i) \<Longrightarrow> ivals is = ys"
  by (auto intro!: nth_equalityI simp: ivals_nth)

lemma ilen_Suc: "ilen is < 2 ^ 32 - 1 \<Longrightarrow> unat (ilength is + 1) = Suc (ilen is)"
  unfolding ilen_def by (subst unat_word_ariths) simp

lemma moveTail_patch:
  assumes e: "esz is \<in> {2, 4, 8}" and "unat from \<le> ilen is" "(ilen is - unat from) * esz is < 2 ^ 32"
    "unat to * esz is + (ilen is - unat from) * esz is \<le> length (contents is)" "ilen is * esz is \<le> length (contents is)"
  shows "intsetMoveTail is from to = Some (is\<lparr>contents := patch (contents is) (unat to * esz is)
     (take ((ilen is - unat from) * esz is) (drop (unat from * esz is) (contents is)))\<rparr>)"
proof -
  let ?k = "(ilen is - unat from) * esz is"
  have sub: "unat (ilength is - from) = ilen is - unat from"
    using assms(2) by (simp add: unat_sub word_le_nat_alt ilen_def)
  define sz where "sz = (if unat (encoding is) = 8 then 8 else if unat (encoding is) = 4 then 4 else 2 :: nat)"
  have sz: "sz = esz is" using e by (auto simp: sz_def)
  have "unat ((ilength is - from) * encoding is) = ?k"
    using assms(3) unat_mult_lem[of "ilength is - from" "encoding is"] sub by simp
  moreover have "unat from * esz is + ?k \<le> length (contents is)"
    using assms(2,5) by (simp flip: add_mult_distrib)
  ultimately show ?thesis using assms(4)
    unfolding intsetMoveTail_def Let_def enc_defs sz_def[symmetric] sz
    by (simp add: memmove_def rd_def wr_def)
qed

lemma resize_eq: "e \<in> {2, 4, 8} \<Longrightarrow> esz is = e \<Longrightarrow>
   intsetResize f is len = Some (is\<lparr>contents := zrealloc f (contents is) (unat len * e)\<rparr>)"
proof -
  assume e: "e \<in> {2, 4, 8}" "esz is = e"
  have "int (unat len) < 2 ^ 32" using unsigned_less[of len] by simp
  then have "int (unat len * e) \<le> SIZE_MAX - int sizeof_intset"
    using e(1) by (auto simp: SIZE_MAX_def sizeof_intset_def)
  then show ?thesis using e by (simp add: intsetResize_def Let_def)
qed

lemma take_insert_nth:
  "k \<le> length xs \<Longrightarrow> (take k xs @ v # drop k xs) ! i = (if i < k then xs ! i else if i = k then v else xs ! (i - 1))"
  by (auto simp: nth_append nth_Cons' min_def)

lemma insert_chunks:
  assumes "k \<le> n" "length c = n * e" "length b = e" "e > 0"
    and c1: "c1 = zrealloc f c (Suc n * e)"
    and c2: "c2 = (if k < n then patch c1 (Suc k * e) (take ((n - k) * e) (drop (k * e) c1)) else c1)"
    and i: "i < Suc n"
  shows "chunk e (patch c2 (k * e) b) i = (if i < k then chunk e c i else if i = k then b else chunk e c (i - 1))"
proof -
  have l1: "length c1 = Suc n * e" by (simp add: c1)
  have g: "Suc k * e + (n - k) * e = Suc n * e" "k * e + (n - k) * e = n * e"
    using assms(1) by (simp_all flip: add_mult_distrib)
  have l2: "length c2 = Suc n * e" using g l1 assms(1) by (auto simp: c2)
  have b: "k * e + e \<le> Suc n * e" "i * e + e \<le> Suc n * e" using assms(1) i chunk_in[of k "Suc n" e] chunk_in[of i "Suc n" e] by simp_all
  show ?thesis
  proof (cases "i = k")
    case True
    then show ?thesis using b l2 assms(3) by (simp add: chunk_patch_same)
  next
    case False
    then have 1: "chunk e (patch c2 (k * e) b) i = chunk e c2 i"
      using b l2 assms(3) by (intro chunk_patch_other) auto
    show ?thesis
    proof (cases "i < k")
      case True
      have "chunk e (patch c1 (Suc k * e) (take ((n - k) * e) (drop (k * e) c1))) i = chunk e c1 i"
        by (rule chunk_patch_outside[where k = "n - k"]) (use True l1 g b in auto)
      then have "chunk e c2 i = chunk e c1 i" by (simp add: c2)
      also have "\<dots> = chunk e c i" unfolding c1 using True assms chunk_in[of i n e]
        by (intro chunk_zrealloc) auto
      finally show ?thesis using 1 True by simp
    next
      case ge: False
      then have kn: "k < n" "Suc k \<le> i" using False i assms(1) by auto
      have "chunk e (patch c1 (Suc k * e) (take ((n - k) * e) (drop (k * e) c1))) i
          = chunk e (take ((n - k) * e) (drop (k * e) c1)) (i - Suc k)"
        by (rule chunk_patch_slice[where k = "n - k"]) (use kn l1 g i in auto)
      then have "chunk e c2 i = chunk e (take ((n - k) * e) (drop (k * e) c1)) (i - Suc k)"
        using kn by (simp add: c2)
      also have "\<dots> = chunk e c1 (k + (i - Suc k))"
        using kn i l1 g by (intro chunk_slice) auto
      also have "k + (i - Suc k) = i - 1" using kn by simp
      also have "chunk e c1 (i - 1) = chunk e c (i - 1)" unfolding c1
        using kn i assms chunk_in[of "i - 1" n e] by (intro chunk_zrealloc) auto
      finally show ?thesis using 1 kn False by simp
    qed
  qed
qed

lemma below_le: "below v xs \<le> length xs"
  by (simp add: below_def length_takeWhile_le)

lemma below_split:
  assumes "sorted xs"
  shows "insort v xs = take (below v xs) xs @ v # drop (below v xs) xs"
proof (rule insort_take_drop[OF assms])
  show "\<forall>x\<in>set (take (below v xs) xs). x < v"
    unfolding below_def by (auto simp: takeWhile_eq_take[symmetric] dest: set_takeWhileD)
next
  have d: "drop (below v xs) xs = dropWhile (\<lambda>x. x < v) xs"
    by (simp add: below_def dropWhile_eq_drop)
  show "\<forall>x\<in>set (drop (below v xs) xs). v \<le> x"
  proof (cases "dropWhile (\<lambda>x. x < v) xs")
    case (Cons y ys)
    then have "\<not> y < v" using hd_dropWhile[of "\<lambda>x. x < v" xs] by simp
    moreover have "sorted (y # ys)" using assms Cons sorted_dropWhile[of xs "\<lambda>x. x < v"] by simp
    ultimately show ?thesis unfolding d Cons by auto
  next
    case Nil
    then show ?thesis by (simp only: d) simp
  qed
qed

lemma insort_strict: "sorted_wrt (<) (xs::int list) \<Longrightarrow> v \<notin> set xs \<Longrightarrow> sorted_wrt (<) (insort v xs)"
  by (simp add: strict_sorted_iff sorted_insort distinct_insort)


lemma INTSET_CAP_bounds:
  assumes "n < INTSET_CAP" "e \<in> {2, 4, 8 :: nat}"
  shows "n < 2 ^ 31" "n < 2 ^ 32 - 1" "Suc n * e < 2 ^ 32"
  using assms by (auto simp: INTSET_CAP_def)

lemma intset_ok_strict: "intset_ok is \<Longrightarrow> sorted_wrt (<) (ivals is)"
  by (simp add: intset_ok_def)

lemma strict_sorted: "sorted_wrt (<) (xs :: int list) \<Longrightarrow> sorted xs"
  by (simp add: strict_sorted_iff)

lemma intsetAdd_plain:
  assumes ok: "intset_ok is" and cap: "ilen is < INTSET_CAP" and fit: "fits (esz is) (sint v)"
    and new: "sint v \<notin> set (ivals is)"
  shows "\<exists>is'. intsetAdd f is v = Some (is', True) \<and> intset_shape is' \<and> ilen is' = Suc (ilen is) \<and>
     ivals is' = insort (sint v) (ivals is)"
proof -
  define e where "e = esz is"
  define n where "n = ilen is"
  define k where "k = below (sint v) (ivals is)"
  define c1 where "c1 = zrealloc f (contents is) (Suc n * e)"
  define c2 where "c2 = (if k < n then patch c1 (Suc k * e) (take ((n - k) * e) (drop (k * e) c1)) else c1)"
  define b where "b = le_bytes e (uint v)"
  let ?is' = "is\<lparr>contents := patch c2 (k * e) b, ilength := ilength is + 1\<rparr>"
  have e: "e \<in> {2, 4, 8}" and len: "length (contents is) = n * e"
    using ok by (auto simp: intset_ok_def intset_shape_def e_def n_def)
  note bnd = INTSET_CAP_bounds[OF cap[folded n_def] e]
  have k: "k \<le> n" using below_le[of "sint v" "ivals is"] by (simp add: k_def n_def)
  have ku: "unat (of_nat k :: u32) = k" using k bnd by (simp add: unat_of_nat)
  have ks: "unat (of_nat k + 1 :: u32) = Suc k" using k bnd
    by (subst unat_word_ariths) (simp add: ku)
  have nu: "unat (ilength is + 1) = Suc n" using ilen_Suc[of "is"] bnd by (simp add: n_def)
  have l1: "length c1 = Suc n * e" by (simp add: c1_def)
  have g: "Suc k * e + (n - k) * e = Suc n * e" using k by (simp flip: add_mult_distrib)
  have lt: "length (take ((n - k) * e) (drop (k * e) c1)) = (n - k) * e" using g l1 by simp
  have l2: "length c2 = Suc n * e" using l1 g length_patch[of "Suc k * e" "take ((n - k) * e) (drop (k * e) c1)" c1]
    by (simp only: c2_def lt) simp
  have kin: "k * e + e \<le> Suc n * e" using k chunk_in[of k "Suc n" e] by simp
  have mv: "(if of_nat k < ilength is then intsetMoveTail (is\<lparr>contents := c1\<rparr>) (of_nat k) (of_nat k + 1)
       else Some (is\<lparr>contents := c1\<rparr>)) = Some (is\<lparr>contents := c2\<rparr>)"
  proof (cases "k < n")
    case True
    have "(n - k) * e \<le> Suc n * e" by (intro mult_le_mono1) simp
    then have "intsetMoveTail (is\<lparr>contents := c1\<rparr>) (of_nat k) (of_nat k + 1) = Some (is\<lparr>contents := c2\<rparr>)"
      using True g l1 e bnd k
      by (subst moveTail_patch) (auto simp: ku ks c2_def e_def n_def ilen_def)
    then show ?thesis using True by (simp add: word_less_nat_alt ku n_def ilen_def)
  qed (simp add: word_less_nat_alt ku n_def ilen_def c2_def)
  have st: "intsetSet (is\<lparr>contents := c2\<rparr>) (sint (of_nat k :: u32)) v = Some (is\<lparr>contents := patch c2 (k * e) b\<rparr>)"
    using set_chunk[of "is\<lparr>contents := c2\<rparr>" k v] e kin l2 k bnd sint_small[of "of_nat k :: u32"]
    by (simp add: ku e_def b_def)
  have rs: "intsetResize f is (ilength is + 1) = Some (is\<lparr>contents := c1\<rparr>)"
    unfolding c1_def nu[symmetric] by (rule resize_eq[OF e]) (simp add: e_def)
  have sr: "intsetSearch is v = Some (False, of_nat k)"
    using intsetSearch_correct[OF ok bnd(1)[unfolded n_def], of v] new by (simp add: k_def)
  have le: "\<not> esz is < unat (intsetValueEncoding v)"
    using valenc_le[OF e, of v] fit by (simp add: e_def)
  have "intsetAdd f is v = Some (?is', True)"
    using le st by (simp add: intsetAdd_def Let_def sr rs mv split del: if_split)
  moreover have il: "ilen ?is' = Suc n" using nu by (simp add: ilen_def)
  moreover have "intset_shape ?is'"
    using l2 kin e il by (simp add: intset_shape_def b_def e_def)
  moreover have "ivals ?is' = insort (sint v) (ivals is)"
  proof (rule ivals_eqI)
    show "length (insort (sint v) (ivals is)) = ilen ?is'" using il by (simp add: n_def)
  next
    fix i assume "i < ilen ?is'"
    then have i: "i < Suc n" using il by simp
    have "chunk e (patch c2 (k * e) b) i = (if i < k then chunk e (contents is) i else if i = k then b else chunk e (contents is) (i - 1))"
      using k len e i by (intro insert_chunks[OF _ _ _ _ c1_def c2_def]) (auto simp: b_def)
    moreover have "insort (sint v) (ivals is) = take k (ivals is) @ sint v # drop k (ivals is)"
      unfolding k_def by (intro below_split strict_sorted intset_ok_strict ok)
    moreover have "le_signed e b = v" unfolding b_def using le_signed_store e fit by (simp add: e_def)
    ultimately show "sint (le_signed (esz ?is') (chunk (esz ?is') (contents ?is') i)) = insort (sint v) (ivals is) ! i"
      using i k by (auto simp: take_insert_nth n_def ivals_nth e_def[symmetric])
  qed
  ultimately show ?thesis by (auto simp: n_def)
qed


lemma upgrade_loop:
  assumes enc: "unat cur \<in> {2, 4, 8}" "esz is \<in> {2, 4, 8}" "unat cur \<le> esz is" "p \<in> {0, 1}"
    and "n < 2 ^ 31" "(n + p) * esz is \<le> length (contents is)"
  shows "\<exists>c'. intsetUpgrade_loop is (int n) (int p) cur = Some (is\<lparr>contents := c'\<rparr>) \<and>
     length c' = length (contents is) \<and>
     (\<forall>i<n. chunk (esz is) c' (i + p) =
        le_bytes (esz is) (uint (le_signed (unat cur) (chunk (unat cur) (contents is) i))))"
proof -
  define e where "e = unat cur"
  define e' where "e' = esz is"
  have ee: "e \<le> e'" using enc by (simp add: e_def e'_def)
  have "\<exists>c'. intsetUpgrade_loop (is\<lparr>contents := c\<rparr>) (int n) (int p) cur = Some (is\<lparr>contents := c'\<rparr>) \<and>
     length c' = length c \<and> (\<forall>j. (n + p) * e' \<le> j \<longrightarrow> j < length c \<longrightarrow> c' ! j = c ! j) \<and>
     (\<forall>i<n. chunk e' c' (i + p) = le_bytes e' (uint (le_signed e (chunk e c i))))"
    if "n < 2 ^ 31" "(n + p) * e' \<le> length c" for c
    using that
  proof (induction n arbitrary: c)
    case 0
    then show ?case by (subst intsetUpgrade_loop.simps) auto
  next
    case (Suc m)
    let ?v = "le_signed e (chunk e c m)"
    define c1 where "c1 = patch c ((m + p) * e') (le_bytes e' (uint ?v))"
    have in1: "(m + p) * e' + e' \<le> length c" using Suc.prems by (simp add: algebra_simps)
    have me: "m * e + e \<le> (m + p) * e' + e'" by (intro add_mono mult_le_mono ee) simp
    have l1: "length c1 = length c" using in1 by (simp add: c1_def)
    obtain c' where c': "intsetUpgrade_loop (is\<lparr>contents := c1\<rparr>) (int m) (int p) cur = Some (is\<lparr>contents := c'\<rparr>)"
      "length c' = length c1" "\<And>j. (m + p) * e' \<le> j \<Longrightarrow> j < length c1 \<Longrightarrow> c' ! j = c1 ! j"
      "\<And>i. i < m \<Longrightarrow> chunk e' c' (i + p) = le_bytes e' (uint (le_signed e (chunk e c1 i)))"
      using Suc.IH[of c1] Suc.prems l1 in1 by auto
    have step: "intsetUpgrade_loop (is\<lparr>contents := c\<rparr>) (int (Suc m)) (int p) cur = Some (is\<lparr>contents := c'\<rparr>)"
      using c'(1) in1 me enc Suc.prems(1) getEncoded_chunk[of cur m "is\<lparr>contents := c\<rparr>"]
        set_chunk[of "is\<lparr>contents := c\<rparr>" "m + p" ?v]
      by (subst intsetUpgrade_loop.simps) (simp add: c_int_def e_def[symmetric] e'_def[symmetric] c1_def)
    have low: "chunk e c1 i = chunk e c i" if "i < m" for i
    proof (rule chunk_cong)
      have x: "i * e + e \<le> m * e" using chunk_in[OF that] .
      moreover have "m * e \<le> (m + p) * e'" by (intro mult_le_mono ee) simp
      ultimately show "i * e + e \<le> length c" "i * e + e \<le> length c1" using in1 l1 by linarith+
      fix j assume "j < i * e + e"
      then have "j < (m + p) * e'" using x \<open>m * e \<le> (m + p) * e'\<close> by linarith
      then show "c1 ! j = c ! j" unfolding c1_def using in1 by (simp add: nth_patch)
    qed
    have top: "chunk e' c' (m + p) = le_bytes e' (uint ?v)"
    proof -
      have "chunk e' c' (m + p) = chunk e' c1 (m + p)"
        using c'(2,3) in1 l1 by (intro chunk_cong) auto
      also have "\<dots> = le_bytes e' (uint ?v)" unfolding c1_def using in1 by (intro chunk_patch_same) auto
      finally show ?thesis .
    qed
    have keep: "c' ! j = c ! j" if "(Suc m + p) * e' \<le> j" "j < length c" for j
    proof -
      have "(m + p) * e' + e' \<le> j" using that by (simp add: algebra_simps)
      then show ?thesis using c'(3)[of j] that l1 in1 unfolding c1_def by (simp add: nth_patch)
    qed
    show ?case
      using step c'(2) l1 keep top c'(4) low by (auto simp: less_Suc_eq)
  qed
  from this[of "contents is"] show ?thesis using assms(5,6) by (auto simp: e_def e'_def)
qed


lemma outside_range:
  assumes "\<not> fits e v" "fits e x"
  shows "if v < 0 then v < x else x < v"
  using assms by (auto simp: fits_def)

lemma insort_extreme:
  assumes "\<And>x. x \<in> set xs \<Longrightarrow> if v < 0 then v < x else x < (v::int)"
  shows "insort v xs = (if v < 0 then v # xs else xs @ [v])"
proof (cases "v < 0")
  case True
  then show ?thesis using assms by (cases xs) (auto simp: less_imp_le)
next
  case False
  then have "\<forall>x\<in>set xs. x < v" using assms by auto
  then show ?thesis using False by (induction xs) auto
qed

lemma intsetAdd_upgrade:
  assumes ok: "intset_ok is" and cap: "ilen is < INTSET_CAP" and nofit: "\<not> fits (esz is) (sint v)"
  shows "\<exists>is'. intsetAdd f is v = Some (is', True) \<and> intset_shape is' \<and> ilen is' = Suc (ilen is) \<and>
     ivals is' = insort (sint v) (ivals is)"
proof -
  define e where "e = esz is"
  define n where "n = ilen is"
  define ne where "ne = intsetValueEncoding v"
  define e' where "e' = unat ne"
  define p where "p = (if sint v < 0 then 1 else 0 :: nat)"
  define is1 where "is1 = is\<lparr>encoding := ucast ne, contents := zrealloc f (contents is) (Suc n * e')\<rparr>"
  have e: "e \<in> {2, 4, 8}" and len: "length (contents is) = n * e"
    using ok by (auto simp: intset_ok_def intset_shape_def e_def n_def)
  have e': "e' \<in> {2, 4, 8}" using valenc_mem[of v] by (simp add: e'_def ne_def)
  have lt: "e < e'" using valenc_le[of e v] e nofit by (simp add: e_def e'_def ne_def not_le)
  have fit': "fits e' (sint v)" using valenc_le[of e' v] e' by (simp add: e'_def ne_def)
  note bnd = INTSET_CAP_bounds[OF cap[folded n_def] e]
  have nu: "unat (ilength is + 1) = Suc n" using ilen_Suc[of "is"] bnd by (simp add: n_def)
  have ue: "unat (ucast ne :: u32) = e'" by (simp add: e'_def unsigned_ucast_eq take_bit_nat_eq_self_iff order.strict_trans2[OF unsigned_less])
  have s1: "esz is1 = e'" "length (contents is1) = Suc n * e'" "ilength is1 = ilength is" by (simp_all add: is1_def ue)
  have rs: "intsetResize f (is\<lparr>encoding := ucast ne\<rparr>) (ilength is + 1) = Some is1"
    using resize_eq[of e' "is\<lparr>encoding := ucast ne\<rparr>" f] e' ue nu by (simp add: is1_def)
  have cu: "unat (ucast (encoding is) :: byte) = e" using unat_ucast_enc[of "is"] e by (simp add: e_def)
  have pn: "(n + p) * e' \<le> length (contents is1)" unfolding s1 by (intro mult_le_mono1) (simp add: p_def)
  have pp: "p \<in> {0, 1}" by (simp add: p_def)
  obtain c' where c': "intsetUpgrade_loop is1 (int n) (int p) (ucast (encoding is)) = Some (is1\<lparr>contents := c'\<rparr>)"
    "length c' = Suc n * e'"
    "\<And>i. i < n \<Longrightarrow> chunk e' c' (i + p) = le_bytes e' (uint (le_signed e (chunk e (contents is1) i)))"
    using upgrade_loop[OF _ _ _ pp bnd(1) pn[folded s1(1)], of "ucast (encoding is)"] e e' lt
    unfolding cu s1 by auto
  define q where "q = (if p = 1 then 0 else n)"
  have qn: "q * e' + e' \<le> Suc n * e'" using chunk_in[of q "Suc n" e'] by (simp add: q_def)
  let ?c = "patch c' (q * e') (le_bytes e' (uint v))"
  let ?is' = "is1\<lparr>contents := ?c, ilength := ilength is + 1\<rparr>"
  have st: "intsetSet (is1\<lparr>contents := c'\<rparr>) (int q) v = Some (is1\<lparr>contents := ?c\<rparr>)"
    using set_chunk[of "is1\<lparr>contents := c'\<rparr>" q v] e' s1 c'(2) qn by simp
  have "intsetAdd f is v = Some (?is', True)"
    using lt rs c'(1) st ilen_small[of "is"] bnd
    by (auto simp: intsetAdd_def Let_def intsetUpgradeAndAdd_def ne_def[symmetric] e'_def[symmetric] e_def[symmetric]
        sslt_iff p_def q_def n_def[symmetric] s1(3))
  moreover have il: "ilen ?is' = Suc n" using nu by (simp add: ilen_def)
  moreover have "intset_shape ?is'" using e' s1 c'(2) qn il by (simp add: intset_shape_def)
  moreover have "ivals ?is' = insort (sint v) (ivals is)"
  proof (rule ivals_eqI)
    show "length (insort (sint v) (ivals is)) = ilen ?is'" using il by (simp add: n_def)
  next
    fix i assume "i < ilen ?is'"
    then have i: "i < Suc n" using il by simp
    have "insort (sint v) (ivals is) = (if sint v < 0 then sint v # ivals is else ivals is @ [sint v])"
      using outside_range[OF nofit] ivals_fits ok by (intro insort_extreme) (auto simp: intset_ok_def)
    then have ins: "insort (sint v) (ivals is) ! i = (if i = q then sint v else ivals is ! (i - p))"
      using i by (auto simp: q_def p_def nth_append n_def less_Suc_eq nth_Cons')
    have "sint (le_signed e' (chunk e' ?c i)) = (if i = q then sint v else ivals is ! (i - p))"
    proof (cases "i = q")
      case True
      then show ?thesis using qn c'(2) le_signed_store[OF e' fit'] by (simp add: chunk_patch_same)
    next
      case False
      then have j: "i - p < n" "i - p + p = i" using i by (auto simp: q_def p_def split: if_splits)
      have "chunk e' ?c i = chunk e' c' i"
        using False i qn c'(2) chunk_in[of i "Suc n" e'] by (intro chunk_patch_other) auto
      also have "\<dots> = le_bytes e' (uint (le_signed e (chunk e (contents is1) (i - p))))"
        using c'(3)[OF j(1)] j(2) by simp
      also have "chunk e (contents is1) (i - p) = chunk e (contents is) (i - p)"
      proof -
        have "(i - p) * e + e \<le> n * e" using chunk_in[OF j(1)] .
        moreover have "n * e \<le> Suc n * e'" using lt by (intro mult_le_mono) auto
        ultimately show ?thesis unfolding is1_def using len by (simp add: chunk_zrealloc)
      qed
      finally have "chunk e' ?c i = le_bytes e' (uint (le_signed e (chunk e (contents is) (i - p))))" .
      moreover have "fits e' (sint (le_signed e (chunk e (contents is) (i - p))))"
        by (rule fits_mono[OF le_signed_fits[OF e] less_imp_le[OF lt]])
      ultimately show ?thesis using False j(1) le_signed_store[OF e']
        by (simp add: ivals_nth n_def[symmetric] e_def[symmetric])
    qed
    then show "sint (le_signed (esz ?is') (chunk (esz ?is') (contents ?is') i)) = insort (sint v) (ivals is) ! i"
      using ins s1 by simp
  qed
  ultimately show ?thesis by (auto simp: n_def)
qed

lemma fits_of_mem: "intset_ok is \<Longrightarrow> sint v \<in> set (ivals is) \<Longrightarrow> fits (esz is) (sint v)"
  by (simp add: intset_ok_def ivals_fits)

lemma intsetAdd_correct:
  assumes ok: "intset_ok is" and cap: "ilen is < INTSET_CAP"
  shows "\<exists>is'. intsetAdd f is v = Some (is', sint v \<notin> set (ivals is)) \<and> intset_ok is' \<and>
     ivals is' = insort_insert (sint v) (ivals is)"
proof (cases "sint v \<in> set (ivals is)")
  case True
  have e: "esz is \<in> {2, 4, 8}" using ok by (simp add: intset_ok_def intset_shape_def)
  have "ilen is < 2 ^ 31" using INTSET_CAP_bounds[OF cap e] by simp
  then have "intsetAdd f is v = Some (is, False)"
    using True fits_of_mem[OF ok True] valenc_le[OF e, of v] intsetSearch_correct[OF ok, of v]
    by (simp add: intsetAdd_def Let_def not_less[symmetric])
  then show ?thesis using True ok by (simp add: insort_insert_key_def)
next
  case False
  then obtain is' where "intsetAdd f is v = Some (is', True)" "intset_shape is'" 
     "ivals is' = insort (sint v) (ivals is)"
    using intsetAdd_plain[OF ok cap _ False] intsetAdd_upgrade[OF ok cap] by blast
  then show ?thesis using False insort_strict[OF intset_ok_strict[OF ok] False]
    by (simp add: intset_ok_def insort_insert_key_def)
qed


lemma mult_split: "k < n \<Longrightarrow> Suc k * e + (n - Suc k) * e = n * (e::nat)"
  by (metis Suc_leI add_mult_distrib le_add_diff_inverse)

lemma remove_chunks:
  assumes "k < n" "length c = n * e" "e > 0"
    and c1: "c1 = (if k < n - 1 then patch c (k * e) (take ((n - Suc k) * e) (drop (Suc k * e) c)) else c)"
    and i: "i < n - 1"
  shows "chunk e (zrealloc f c1 ((n - 1) * e)) i = (if i < k then chunk e c i else chunk e c (Suc i))"
proof -
  let ?t = "take ((n - Suc k) * e) (drop (Suc k * e) c)"
  have g: "Suc k * e + (n - Suc k) * e = n * e" using mult_split[OF assms(1)] .
  have lt: "length ?t = (n - Suc k) * e" using g assms(2) by simp
  have kl: "k * e + (n - Suc k) * e \<le> length c" using g assms(2) by simp
  have l1: "length c1 = n * e" using kl lt length_patch[of "k * e" ?t c] assms(2) by (simp only: c1) simp
  have ie: "i * e + e \<le> (n - 1) * e" "i * e + e \<le> n * e"
    using i chunk_in[of i "n - 1" e] chunk_in[of i n e] by auto
  then have z: "chunk e (zrealloc f c1 ((n - 1) * e)) i = chunk e c1 i"
    using l1 by (intro chunk_zrealloc) auto
  show ?thesis
  proof (cases "i < k")
    case True
    have "chunk e (patch c (k * e) ?t) i = chunk e c i"
      by (rule chunk_patch_outside[where k = "n - Suc k"]) (use True kl lt ie assms(2) in auto)
    then show ?thesis using z True by (simp add: c1)
  next
    case False
    then have kn: "k < n - 1" using i by simp
    have "chunk e (patch c (k * e) ?t) i = chunk e ?t (i - k)"
      by (rule chunk_patch_slice[where k = "n - Suc k"]) (use False i kl lt in auto)
    also have "\<dots> = chunk e c (Suc k + (i - k))"
      using False i g assms(2) by (intro chunk_slice) auto
    finally show ?thesis using z False kn by (simp add: c1)
  qed
qed

lemma remove1_nth:
  assumes "distinct xs" "k < length xs" "xs ! k = v"
  shows "remove1 v xs = take k xs @ drop (Suc k) xs"
proof -
  have "v \<notin> set (take k xs)"
    using assms by (auto simp: in_set_conv_nth nth_eq_iff_index_eq)
  moreover have "xs = take k xs @ v # drop (Suc k) xs" using assms id_take_nth_drop by blast
  ultimately show ?thesis by (metis remove1.simps(2) remove1_append)
qed

lemma intsetRemove_correct:
  assumes ok: "intset_ok is" and cap: "ilen is < INTSET_CAP"
  shows "\<exists>is'. intsetRemove f is v = Some (is', sint v \<in> set (ivals is)) \<and> intset_ok is' \<and>
     ivals is' = remove1 (sint v) (ivals is)"
proof -
  define e where "e = esz is"
  define n where "n = ilen is"
  define k where "k = below (sint v) (ivals is)"
  have e: "e \<in> {2, 4, 8}" and len: "length (contents is) = n * e"
    using ok by (auto simp: intset_ok_def intset_shape_def e_def n_def)
  note bnd = INTSET_CAP_bounds[OF cap[folded n_def] e]
  have sr: "intsetSearch is v = Some (sint v \<in> set (ivals is), of_nat k)"
    unfolding k_def by (rule intsetSearch_correct[OF ok bnd(1)[unfolded n_def]])
  show ?thesis
  proof (cases "sint v \<in> set (ivals is)")
    case False
    then have "intsetRemove f is v = Some (is, False)" by (simp add: intsetRemove_def Let_def sr)
    then show ?thesis using False ok by (simp add: remove1_idem)
  next
    case True
    have srt: "sorted_wrt (<) (ivals is)" by (rule intset_ok_strict[OF ok])
    from True obtain j where j: "j < n" "ivals is ! j = sint v" by (auto simp: in_set_conv_nth n_def)
    then have kj: "k = j" unfolding k_def using srt by (intro search_found_below) (auto simp: n_def)
    have k: "k < n" "ivals is ! k = sint v" using j kj by auto
    have le: "unat (intsetValueEncoding v) \<le> esz is"
      using valenc_le[OF e, of v] fits_of_mem[OF ok True] by (simp add: e_def)
    define c1 where "c1 = (if k < n - 1 then patch (contents is) (k * e) (take ((n - Suc k) * e) (drop (Suc k * e) (contents is))) else contents is)"
    let ?is' = "is\<lparr>contents := zrealloc f c1 ((n - 1) * e), ilength := ilength is - 1\<rparr>"
    have nz: "ilength is \<noteq> 0" using k by (auto simp: n_def ilen_def)
    have nu: "unat (ilength is - 1) = n - 1" using nz by (simp add: unat_minus_one n_def ilen_def)
    have ku: "unat (of_nat k :: u32) = k" using k bnd by (simp add: unat_of_nat)
    have ks: "unat (of_nat k + 1 :: u32) = Suc k" using k bnd by (subst unat_word_ariths) (simp add: ku)
    have mv: "(if of_nat k < ilength is - 1 then intsetMoveTail is (of_nat k + 1) (of_nat k) else Some is)
        = Some (is\<lparr>contents := c1\<rparr>)"
    proof (cases "k < n - 1")
      case True
      have g: "Suc k * e + (n - Suc k) * e = n * e" using mult_split[OF k(1)] .
      have "intsetMoveTail is (of_nat k + 1) (of_nat k) = Some (is\<lparr>contents := c1\<rparr>)"
        by (subst moveTail_patch)
           (use True g len e bnd k in \<open>auto simp: ku ks c1_def e_def[symmetric] n_def[symmetric]\<close>)
      then show ?thesis using True by (simp add: word_less_nat_alt ku nu)
    qed (simp add: word_less_nat_alt ku nu c1_def)
    have rs: "intsetResize f (is\<lparr>contents := c1\<rparr>) (ilength is - 1) = Some (is\<lparr>contents := zrealloc f c1 ((n - 1) * e)\<rparr>)"
      using resize_eq[OF e, of "is\<lparr>contents := c1\<rparr>" f "ilength is - 1"] nu by (simp add: e_def)
    have "intsetRemove f is v = Some (?is', True)"
      using True le by (simp add: intsetRemove_def Let_def sr rs mv split del: if_split)
    moreover have il: "ilen ?is' = n - 1" using nu by (simp add: ilen_def)
    moreover have "intset_shape ?is'" using e il by (simp add: intset_shape_def e_def)
    moreover have iv: "ivals ?is' = remove1 (sint v) (ivals is)"
    proof (rule ivals_eqI)
      show "length (remove1 (sint v) (ivals is)) = ilen ?is'" using il True by (simp add: length_remove1 n_def)
    next
      fix i assume "i < ilen ?is'"
      then have i: "i < n - 1" using il by simp
      have "chunk e (zrealloc f c1 ((n - 1) * e)) i = (if i < k then chunk e (contents is) i else chunk e (contents is) (Suc i))"
        by (rule remove_chunks[OF k(1) len _ c1_def i]) (use e in auto)
      moreover have "remove1 (sint v) (ivals is) = take k (ivals is) @ drop (Suc k) (ivals is)"
        using k srt by (intro remove1_nth) (auto simp: strict_sorted_iff n_def)
      ultimately show "sint (le_signed (esz ?is') (chunk (esz ?is') (contents ?is') i)) = remove1 (sint v) (ivals is) ! i"
        using i k by (auto simp: nth_append ivals_nth e_def[symmetric] n_def)
    qed
    moreover have "sorted_wrt (<) (remove1 (sint v) (ivals is))"
      using srt by (simp add: strict_sorted_iff sorted_remove1)
    ultimately show ?thesis using True by (auto simp: intset_ok_def)
  qed
qed

lemma intsetFind_correct:
  assumes ok: "intset_ok is" and small: "ilen is < 2 ^ 31"
  shows "intsetFind is v = Some (sint v \<in> set (ivals is))"
proof -
  have e: "esz is \<in> {2, 4, 8}" using ok by (simp add: intset_ok_def intset_shape_def)
  then show ?thesis using valenc_le[OF e, of v] fits_of_mem[OF ok, of v]
    by (auto simp: intsetFind_def intsetSearch_correct[OF ok small])
qed

lemma intsetNew_ok: "intset_ok intsetNew" "ivals intsetNew = []" "ilen intsetNew = 0"
  by (simp_all add: intset_ok_def intset_shape_def intsetNew_def ivals_def enc_defs ilen_def)

lemma get_val_word:
  assumes "intset_shape is" "i < ilen is" shows "intsetGet' is (int i) = Some (word_of_int (ivals is ! i))"
proof -
  obtain w where "intsetGet' is (int i) = Some w" "sint w = ivals is ! i" using get_val[OF assms] by blast
  then show ?thesis by (simp flip: \<open>sint w = ivals is ! i\<close>)
qed

lemma intsetGet_correct:
  assumes "intset_shape is" "ilen is < 2 ^ 31"
  shows "intsetGet is pos = Some (if unat pos < ilen is then Some (word_of_int (ivals is ! unat pos)) else None)"
  using assms get_val_word[OF assms(1), of "unat pos"] sint_small[of pos]
  by (auto simp: intsetGet_def word_less_nat_alt ilen_def)

section \<open>Validation of a serialized set\<close>

text \<open>The bytes of a set as they lie in memory: the header and the records.\<close>

definition intset_blob :: "intset \<Rightarrow> mem" where
  "intset_blob is = le_bytes 4 (uint (encoding is)) @ le_bytes 4 (uint (ilength is)) @ contents is"

lemma word32_le_bytes: "(word_of_int (le_int (le_bytes 4 (uint (w::u32)))) :: u32) = w"
proof -
  have "uint w < 2 ^ 32" using unsigned_less[of w] by simp
  then have "uint w mod 256 ^ 4 = uint w" by (intro mod_pos_pos_trivial) auto
  then show ?thesis by (simp add: le_int_le_bytes)
qed

lemma as_intset_blob: "as_intset (intset_blob is) = is"
  by (simp add: as_intset_def intset_blob_def word32_le_bytes)

lemma validate_loop:
  assumes sh: "intset_shape is" "ilen is < 2 ^ 31" and i: "0 < i" "i \<le> ilen is"
  shows "intsetValidate_loop is (of_nat i) (ilength is) (word_of_int (ivals is ! (i - 1))) =
     Some (sorted_wrt (<) (drop (i - 1) (ivals is)))"
  using i
proof (induction "ilen is - i" arbitrary: i)
  case 0
  then have "i = ilen is" by simp
  then have "sorted_wrt (<) (drop (i - 1) (ivals is))" using 0 by (intro sorted_wrt01) simp
  then show ?case using \<open>i = ilen is\<close> by (subst intsetValidate_loop.simps) (simp add: ilen_def)
next
  case (Suc d)
  let ?xs = "ivals is"
  have il: "i < ilen is" using Suc.hyps(2) by simp
  have iu: "unat (of_nat i :: u32) = i" using il sh(2) by (simp add: unat_of_nat)
  have lt: "(of_nat i :: u32) < ilength is" using il by (simp add: word_less_nat_alt iu ilen_def)
  have gv: "intsetGet' is (sint (of_nat i :: u32)) = Some (word_of_int (?xs ! i))"
    using get_val_word[OF sh(1) il] sint_small[of "of_nat i :: u32"] iu il sh(2) by simp
  have r: "sint (word_of_int (?xs ! j) :: i64) = ?xs ! j" if "j < ilen is" for j
    using that by (simp add: ivals_nth)
  have d1: "drop (i - 1) ?xs = ?xs ! (i - 1) # drop i ?xs"
    using il Suc.prems by (metis Cons_nth_drop_Suc One_nat_def Suc_pred length_ivals less_imp_diff_less)
  have d2: "drop i ?xs = ?xs ! i # drop (Suc i) ?xs" using il by (simp add: Cons_nth_drop_Suc)
  have IH: "intsetValidate_loop is (of_nat (Suc i)) (ilength is) (word_of_int (?xs ! i)) = Some (sorted_wrt (<) (drop i ?xs))"
    using Suc.hyps(1)[of "Suc i"] Suc.hyps(2) il by simp
  have "sorted_wrt (<) (drop (i - 1) ?xs) \<longleftrightarrow> ?xs ! (i - 1) < ?xs ! i \<and> sorted_wrt (<) (drop i ?xs)"
    unfolding d1 using d2 by (auto intro: less_trans)
  then show ?case using lt gv IH r[OF il] r[of "i - 1"] il Suc.prems
    by (subst intsetValidate_loop.simps) (auto simp: word_sle_eq add.commute)
qed

lemma intsetValidate_blob:
  assumes "ilen is < 2 ^ 31"
  shows "intsetValidateIntegrity (intset_blob is) (length (intset_blob is)) deep =
     Some (intset_shape is \<and> ilen is \<noteq> 0 \<and> (deep \<longrightarrow> sorted_wrt (<) (ivals is)))"
proof -
  have len: "length (intset_blob is) = 8 + length (contents is)" by (simp add: intset_blob_def)
  let ?bad = "esz is \<noteq> 8 \<and> esz is \<noteq> 4 \<and> esz is \<noteq> 2"
  have sh: "intset_shape is \<longleftrightarrow> \<not> ?bad \<and> 8 + ilen is * esz is = 8 + length (contents is)"
    unfolding intset_shape_def by auto
  have nz: "ilength is = 0 \<longleftrightarrow> ilen is = 0" by (simp add: ilen_def unat_eq_0)
  have run: "intsetValidateIntegrity (intset_blob is) (length (intset_blob is)) deep =
     (if ?bad \<or> 8 + ilen is * esz is \<noteq> 8 + length (contents is) \<or> ilen is = 0 then Some False
      else if \<not> deep then Some True
      else do { prev \<leftarrow> intsetGet' is 0; intsetValidate_loop is 1 (ilength is) prev })"
    unfolding intsetValidateIntegrity_def as_intset_blob Let_def enc_defs sizeof_intset_def len nz ilen_def[symmetric]
    by simp
  show ?thesis
  proof (cases "intset_shape is \<and> ilen is \<noteq> 0")
    case True
    then have "intsetGet' is 0 = Some (word_of_int (ivals is ! 0))" using get_val_word[of "is" 0] by simp
    moreover have "intsetValidate_loop is 1 (ilength is) (word_of_int (ivals is ! 0)) = Some (sorted_wrt (<) (ivals is))"
      using validate_loop[of "is" 1] True assms by simp
    ultimately show ?thesis unfolding run using True sh by auto
  next
    case False
    then show ?thesis unfolding run sh by auto
  qed
qed


section \<open>The contract of an integer set\<close>

text \<open>What the set type relies on: the operations of a bounded set of 64 bit integers whose contents
  are an ascending list.\<close>

fun add_all :: "('s \<Rightarrow> i64 \<Rightarrow> ('s \<times> bool) option) \<Rightarrow> 's \<Rightarrow> i64 list \<Rightarrow> 's option" where
  "add_all add s [] = Some s"
| "add_all add s (v # vs) = do { (s', _) \<leftarrow> add s v; add_all add s' vs }"

locale int_set =
  fixes new :: 's
    and add :: "'s \<Rightarrow> i64 \<Rightarrow> ('s \<times> bool) option"
    and remove :: "'s \<Rightarrow> i64 \<Rightarrow> ('s \<times> bool) option"
    and find :: "'s \<Rightarrow> i64 \<Rightarrow> bool option"
    and elems :: "'s \<Rightarrow> int list"
    and ok :: "'s \<Rightarrow> bool"
    and cap :: nat
  assumes new_ok: "ok new" and elems_new: "elems new = []"
    and elems_sorted: "ok s \<Longrightarrow> sorted_wrt (<) (elems s)"
    and add_spec: "ok s \<Longrightarrow> length (elems s) < cap \<Longrightarrow>
      \<exists>s'. add s v = Some (s', sint v \<notin> set (elems s)) \<and> ok s' \<and> elems s' = insort_insert (sint v) (elems s)"
    and remove_spec: "ok s \<Longrightarrow> length (elems s) < cap \<Longrightarrow>
      \<exists>s'. remove s v = Some (s', sint v \<in> set (elems s)) \<and> ok s' \<and> elems s' = remove1 (sint v) (elems s)"
    and find_spec: "ok s \<Longrightarrow> length (elems s) \<le> cap \<Longrightarrow> find s v = Some (sint v \<in> set (elems s))"
begin

lemma length_insort_insert: "length (insort_insert x (xs::int list)) \<le> Suc (length xs)"
  by (simp add: insort_insert_key_def)

lemma add_all_spec:
  "ok s \<Longrightarrow> length (elems s) + length vs \<le> cap \<Longrightarrow>
   \<exists>s'. add_all add s vs = Some s' \<and> ok s' \<and> set (elems s') = set (elems s) \<union> sint ` set vs \<and>
     length (elems s') \<le> length (elems s) + length vs"
proof (induction vs arbitrary: s)
  case (Cons v vs)
  then obtain s1 where s1: "add s v = Some (s1, sint v \<notin> set (elems s))" "ok s1" "elems s1 = insort_insert (sint v) (elems s)"
    using add_spec[of s v] by auto
  have "length (elems s1) \<le> Suc (length (elems s))" using s1(3) length_insort_insert by simp
  then obtain s' where "add_all add s1 vs = Some s'" "ok s'" "set (elems s') = set (elems s1) \<union> sint ` set vs"
    "length (elems s') \<le> length (elems s1) + length vs"
    using Cons.IH[OF s1(2)] Cons.prems by fastforce
  then show ?case using s1 \<open>length (elems s1) \<le> _\<close> by (auto simp: set_insort_insert)
qed simp

lemma build_sorted:
  "length vs \<le> cap \<Longrightarrow> \<exists>s. add_all add new vs = Some s \<and> ok s \<and> elems s = sorted_list_of_set (sint ` set vs)"
proof -
  assume "length vs \<le> cap"
  then obtain s where s: "add_all add new vs = Some s" "ok s" "set (elems s) = sint ` set vs"
    using add_all_spec[OF new_ok, of vs] by (auto simp: elems_new)
  have "elems s = sorted_list_of_set (set (elems s))"
    using elems_sorted[OF s(2)] by (simp add: sorted_list_of_set.idem_if_sorted_distinct strict_sorted_iff)
  then show ?thesis using s by auto
qed

lemma find_after_add:
  assumes "ok s" "length (elems s) < cap" "add s v = Some (s', b)"
  shows "find s' w = Some (sint w = sint v \<or> sint w \<in> set (elems s))"
proof -
  obtain s1 where "add s v = Some (s1, sint v \<notin> set (elems s))" "ok s1" "elems s1 = insort_insert (sint v) (elems s)"
    using add_spec[OF assms(1,2)] by blast
  moreover have "length (insort_insert (sint v) (elems s)) \<le> cap" using assms(2) length_insort_insert[of "sint v" "elems s"] by simp
  ultimately show ?thesis using assms(3) find_spec[of s1 w] by (auto simp: set_insort_insert)
qed

end

interpretation iset: int_set intsetNew "intsetAdd f" "intsetRemove f" intsetFind ivals intset_ok INTSET_CAP for f
proof (unfold_locales, goal_cases)
  case (6 s v)
  then show ?case by (intro intsetFind_correct) (auto simp: INTSET_CAP_def)
qed (use intsetAdd_correct intsetRemove_correct in \<open>auto simp: intsetNew_ok intset_ok_strict\<close>)


section \<open>Properties\<close>

definition intset_example :: intset where
  "intset_example = \<lparr>encoding = 2, ilength = 2, contents = [249, 255, 5, 0]\<rparr>"

lemma intset_example_vals: "ivals intset_example = [-7, 5]"
  by (simp add: ivals_def ilen_def intset_example_def le_signed_def chunk_def upt_rec signed_take_bit_eq_if_negative)

lemma intset_example_ok: "intset_ok intset_example" "ilen intset_example = 2"
  by (simp_all add: intset_ok_def intset_example_vals) (simp_all add: intset_shape_def intset_example_def ilen_def)

text \<open>C6: On a well-formed set below the capacity, \<open>intsetAdd\<close> never reads or writes outside its
  allocation, ends, reports whether the value was new, keeps the set well-formed (one of the three
  record widths, exactly the allocated bytes, strictly ascending) and inserts the value at its place,
  whether or not the record width has to be upgraded, whatever bytes the grown allocation holds.\<close>

theorem intset_add_inserts:
  assumes "intset_ok is" and "ilen is < INTSET_CAP"
  shows "\<exists>is'. intsetAdd f is v = Some (is', sint v \<notin> set (ivals is)) \<and> intset_ok is' \<and>
     ivals is' = insort_insert (sint v) (ivals is)"
  by (rule intsetAdd_correct[OF assms])

theorem intset_add_inserts_witness:
  "\<exists>is'. intsetAdd (\<lambda>_. 170) intset_example 70000 = Some (is', True) \<and> intset_ok is' \<and> ivals is' = [-7, 5, 70000]"
proof -
  have "ilen intset_example < INTSET_CAP" by (simp add: intset_example_ok INTSET_CAP_def)
  from intset_add_inserts[OF intset_example_ok(1) this, of "\<lambda>_. 170" 70000]
  show ?thesis by (simp add: intset_example_vals insort_insert_key_def)
qed

text \<open>C15: On a well-formed set below the capacity, \<open>intsetRemove\<close> stays inside the allocation, reports
  whether the value was present, removes exactly that value and keeps the set well-formed.\<close>

theorem intset_remove_removes:
  assumes "intset_ok is" and "ilen is < INTSET_CAP"
  shows "\<exists>is'. intsetRemove f is v = Some (is', sint v \<in> set (ivals is)) \<and> intset_ok is' \<and>
     ivals is' = remove1 (sint v) (ivals is)"
  by (rule intsetRemove_correct[OF assms])

theorem intset_remove_removes_witness:
  "\<exists>is'. intsetRemove (\<lambda>_. 170) intset_example (-7) = Some (is', True) \<and> intset_ok is' \<and> ivals is' = [5]"
proof -
  have "ilen intset_example < INTSET_CAP" by (simp add: intset_example_ok INTSET_CAP_def)
  from intset_remove_removes[OF intset_example_ok(1) this, of "\<lambda>_. 170" "-7"]
  show ?thesis by (simp add: intset_example_vals)
qed

text \<open>The binary search of \<open>intsetSearch\<close> ends without an out-of-range access, tells whether the value is
  present, and yields the number of smaller elements as the position: the index of the value, or the place
  where it has to be inserted.\<close>

theorem intset_search_position:
  assumes "intset_ok is" and "ilen is < 2 ^ 31"
  shows "intsetSearch is v = Some (sint v \<in> set (ivals is), of_nat (length (takeWhile (\<lambda>x. x < sint v) (ivals is))))"
  using intsetSearch_correct[OF assms] by (simp add: below_def)

theorem intset_search_position_witness: "intsetSearch intset_example 3 = Some (False, 1)"
proof -
  have "ilen intset_example < 2 ^ 31" by (simp add: intset_example_ok)
  from intset_search_position[OF intset_example_ok(1) this, of 3]
  show ?thesis by (simp add: intset_example_vals)
qed

text \<open>C19: Adding any values one after the other to a new set gives exactly the set of these values in
  ascending order, by the contract of an integer set.\<close>

theorem intset_build_sorted:
  assumes "length vs \<le> INTSET_CAP"
  shows "\<exists>is. add_all (intsetAdd f) intsetNew vs = Some is \<and> intset_ok is \<and> ivals is = sorted_list_of_set (sint ` set vs)"
  by (rule iset.build_sorted[OF assms])

theorem intset_build_sorted_witness:
  "\<exists>is. add_all (intsetAdd (\<lambda>_. 0)) intsetNew [7, -1, 7] = Some is \<and> intset_ok is \<and> ivals is = [-1, 7]"
proof -
  have "length ([7, -1, 7] :: i64 list) \<le> INTSET_CAP" by (simp add: INTSET_CAP_def)
  moreover have "sint ` set ([7, -1, 7] :: i64 list) = set [-1, 7]" by auto
  moreover have "sorted_list_of_set (set [-1, 7 :: int]) = [-1, 7]"
    by (simp only: sorted_list_of_set_sort_remdups) simp
  ultimately show ?thesis using intset_build_sorted[of "[7, -1, 7]" "\<lambda>_. 0"] by (simp only: simp_thms)
qed

text \<open>C20: \<open>intsetValidateIntegrity\<close> accepts the bytes of a set exactly when it is non-empty and its header
  matches the buffer, and with \<open>deep\<close> also only when its records are strictly ascending; so a deep check
  accepts exactly the non-empty well-formed sets.\<close>

theorem intset_validate_exact:
  assumes "ilen is < 2 ^ 31"
  shows "intsetValidateIntegrity (intset_blob is) (length (intset_blob is)) deep =
     Some (ilen is \<noteq> 0 \<and> (if deep then intset_ok is else intset_shape is))"
  using intsetValidate_blob[OF assms, of deep] by (auto simp: intset_ok_def)

theorem intset_validate_exact_witness:
  "intsetValidateIntegrity (intset_blob intset_example) 12 True = Some True"
proof -
  have "ilen intset_example < 2 ^ 31" by (simp add: intset_example_ok)
  from intset_validate_exact[OF this, of True] show ?thesis
    by (simp add: intset_example_ok) (simp add: intset_blob_def intset_example_def)
qed

text \<open>The byte count of \<open>intsetMoveTail\<close> is a 32 bit product: moving a tail of exactly \<open>2^29\<close> 64 bit records
  moves nothing at all, although the set type admits up to \<open>2^30\<close> entries.\<close>

theorem intset_move_tail_wraps:
  assumes "encoding is = 8" and "ilength is - from = 2 ^ 29" and "unat from * 8 \<le> length (contents is)"
    and "unat to * 8 \<le> length (contents is)"
  shows "intsetMoveTail is from to = Some is"
proof -
  have "(2 ^ 29 :: u32) * 8 = 0" by simp
  then show ?thesis using assms
    by (simp add: intsetMoveTail_def Let_def enc_defs memmove_def rd_def wr_def patch_def)
qed

definition intset_huge :: intset where
  "intset_huge = \<lparr>encoding = 8, ilength = 2 ^ 29, contents = replicate (2 ^ 32 + 8) 0\<rparr>"

theorem intset_move_tail_wraps_witness: "intsetMoveTail intset_huge 0 1 = Some intset_huge"
proof (rule intset_move_tail_wraps)
  show "unat (1::u32) * 8 \<le> length (contents intset_huge)" unfolding intset_huge_def by (simp only: intset.simps length_replicate) simp
qed (simp_all add: intset_huge_def)

end
