(* ===== verification/Bitops.thy ===== *)
theory Bitops
  imports Prelude
begin

text \<open>
  The bit-level kernel (\<open>redislib-src/kernel/bitops.c\<close>): population counts, the search for the first
  set or clear bit, and integers of arbitrary width stored at arbitrary bit offsets with their overflow
  rules.  Bit 0 of a string is the most significant bit of its first byte.

  Pointers are offsets into the byte list; where the code looks at the alignment of a pointer, the
  address of the first byte is an argument, and so is what \<open>__builtin_cpu_supports\<close> answers. The vector
  instructions of the AVX-512 and the AArch64 routine act on lists of lanes.
  \<open>unsigned long\<close> has 64 bits.
\<close>

section \<open>Population counts\<close>

definition B2 :: "nat \<Rightarrow> nat list" where "B2 n = [n, n + 1, n + 1, n + 2]"
definition B4 :: "nat \<Rightarrow> nat list" where "B4 n = B2 n @ B2 (n + 1) @ B2 (n + 1) @ B2 (n + 2)"
definition B6 :: "nat \<Rightarrow> nat list" where "B6 n = B4 n @ B4 (n + 1) @ B4 (n + 1) @ B4 (n + 2)"

definition bitsinbyte :: "nat list" where
  "bitsinbyte = B6 0 @ B6 1 @ B6 1 @ B6 2"

text \<open>\<open>__builtin_popcountll\<close> of the compiler: the number of set bits of a 64 bit word.\<close>

definition popcountll :: "u64 \<Rightarrow> u64" where
  "popcountll w = of_nat (length (filter (bit w) [0..<64]))"

definition rd64 :: "mem \<Rightarrow> nat \<Rightarrow> u64 option" where
  "rd64 m p = do { bs \<leftarrow> rd m p 8; Some (word_of_int (le_int bs)) }"

definition rd32 :: "mem \<Rightarrow> nat \<Rightarrow> u32 option" where
  "rd32 m p = do { bs \<leftarrow> rd m p 4; Some (word_of_int (le_int bs)) }"

text \<open>\<open>while ((unsigned long)p & align && count) { bits += bitsinbyte[*p++]; count--; }\<close>\<close>

fun popcount_align :: "nat \<Rightarrow> nat \<Rightarrow> mem \<Rightarrow> u64 \<Rightarrow> nat \<Rightarrow> nat \<Rightarrow> (u64 \<times> nat \<times> nat) option" where
  "popcount_align addr align m bits p 0 = Some (bits, p, 0)"
| "popcount_align addr align m bits p (Suc count) =
     (if (addr + p) AND align \<noteq> 0
      then do { b \<leftarrow> getb m p; popcount_align addr align m (bits + of_nat (bitsinbyte ! unat b)) (p + 1) count }
      else Some (bits, p, Suc count))"

text \<open>\<open>while (count--) bits += bitsinbyte[*p++];\<close>\<close>

fun popcount_tail :: "mem \<Rightarrow> u64 \<Rightarrow> nat \<Rightarrow> nat \<Rightarrow> u64 option" where
  "popcount_tail m bits p 0 = Some bits"
| "popcount_tail m bits p (Suc count) =
     do { b \<leftarrow> getb m p; popcount_tail m (bits + of_nat (bitsinbyte ! unat b)) (p + 1) count }"

text \<open>The unrolled loop over 32 bytes with four counters.\<close>

function popcount_32 :: "mem \<Rightarrow> u64 \<times> u64 \<times> u64 \<times> u64 \<Rightarrow> nat \<Rightarrow> nat \<Rightarrow> ((u64 \<times> u64 \<times> u64 \<times> u64) \<times> nat \<times> nat) option" where
  "popcount_32 m (c0, c1, c2, c3) p count =
     (if count \<ge> 32 then do {
        w0 \<leftarrow> rd64 m p;
        w1 \<leftarrow> rd64 m (p + 8);
        w2 \<leftarrow> rd64 m (p + 16);
        w3 \<leftarrow> rd64 m (p + 24);
        popcount_32 m (c0 + popcountll w0, c1 + popcountll w1, c2 + popcountll w2, c3 + popcountll w3) (p + 32) (count - 32) }
      else Some ((c0, c1, c2, c3), p, count))"
  by pat_completeness auto
termination by (relation "measure (\<lambda>(m, c, p, count). count)") auto

text \<open>The portable loop over 28 bytes: seven words folded in parallel.\<close>

definition swar :: "u32 \<Rightarrow> u32" where
  "swar aux = (let aux = aux - (drop_bit 1 aux AND 0x55555555);
                   aux = (aux AND 0x33333333) + (drop_bit 2 aux AND 0x33333333)
               in (aux + drop_bit 4 aux) AND 0x0F0F0F0F)"

function popcount_28 :: "mem \<Rightarrow> u64 \<Rightarrow> nat \<Rightarrow> nat \<Rightarrow> (u64 \<times> nat \<times> nat) option" where
  "popcount_28 m bits p count =
     (if count \<ge> 28 then do {
        aux1 \<leftarrow> rd32 m p;
        aux2 \<leftarrow> rd32 m (p + 4);
        aux3 \<leftarrow> rd32 m (p + 8);
        aux4 \<leftarrow> rd32 m (p + 12);
        aux5 \<leftarrow> rd32 m (p + 16);
        aux6 \<leftarrow> rd32 m (p + 20);
        aux7 \<leftarrow> rd32 m (p + 24);
        popcount_28 m
          (bits + ucast (drop_bit 24 ((swar aux1 + swar aux2 + swar aux3 + swar aux4 + swar aux5 + swar aux6 + swar aux7)
             * 0x01010101)))
          (p + 28) (count - 28) }
      else Some (bits, p, count))"
  by pat_completeness auto
termination by (relation "measure (\<lambda>(m, b, p, count). count)") auto

definition redisPopcount :: "bool \<Rightarrow> nat \<Rightarrow> mem \<Rightarrow> nat \<Rightarrow> nat \<Rightarrow> u64 option" where
  "redisPopcount use_popcnt addr m p count = do {
     (bits, p, count) \<leftarrow> popcount_align addr (if use_popcnt then 7 else 3) m 0 p count;
     if use_popcnt then do {
       ((c0, c1, c2, c3), p, count) \<leftarrow> popcount_32 m (0, 0, 0, 0) p count;
       popcount_tail m (bits + (c0 + c1 + c2 + c3)) p count }
     else do {
       (bits, p, count) \<leftarrow> popcount_28 m bits p count;
       popcount_tail m bits p count } }"

text \<open>\<open>while (count >= 8) { bits += __builtin_popcountll(*(uint64_t*)p); p += 8; count -= 8; }\<close>\<close>

function popcount_8 :: "mem \<Rightarrow> u64 \<Rightarrow> nat \<Rightarrow> nat \<Rightarrow> (u64 \<times> nat \<times> nat) option" where
  "popcount_8 m bits p count =
     (if count \<ge> 8 then do { w \<leftarrow> rd64 m p; popcount_8 m (bits + popcountll w) (p + 8) (count - 8) }
      else Some (bits, p, count))"
  by pat_completeness auto
termination by (relation "measure (\<lambda>(m, b, p, count). count)") auto

definition redisPopCountAvx2 :: "nat \<Rightarrow> mem \<Rightarrow> nat \<Rightarrow> nat \<Rightarrow> u64 option" where
  "redisPopCountAvx2 addr m p count = do {
     (bits, p, count) \<leftarrow> popcount_align addr 7 m 0 p count;
     ((c0, c1, c2, c3), p, count) \<leftarrow> popcount_32 m (0, 0, 0, 0) p count;
     (bits, p, count) \<leftarrow> popcount_8 m (bits + (c0 + c1 + c2 + c3)) p count;
     popcount_tail m bits p count }"

text \<open>The AVX-512 routine. \<open>_mm512_loadu_si512\<close> reads eight words of 64 bits, \<open>_mm512_popcnt_epi64\<close> counts the bits of
  each of them and \<open>_mm512_reduce_add_epi64\<close> adds the eight counts.\<close>

definition mm512_loadu :: "mem \<Rightarrow> nat \<Rightarrow> u64 list option" where
  "mm512_loadu m p = those (map (\<lambda>i. rd64 m (p + 8 * i)) [0..<8])"

function popcount_64 :: "mem \<Rightarrow> u64 \<Rightarrow> nat \<Rightarrow> nat \<Rightarrow> (u64 \<times> nat \<times> nat) option" where
  "popcount_64 m bits p count =
     (if count \<ge> 64 then do {
        data \<leftarrow> mm512_loadu m p;
        popcount_64 m (bits + sum_list (map popcountll data)) (p + 64) (count - 64) }
      else Some (bits, p, count))"
  by pat_completeness auto
termination by (relation "measure (\<lambda>(m, b, p, count). count)") auto

definition redisPopCountAvx512 :: "nat \<Rightarrow> mem \<Rightarrow> nat \<Rightarrow> nat \<Rightarrow> u64 option" where
  "redisPopCountAvx512 addr m p count = do {
     (bits, p, count) \<leftarrow> popcount_align addr 63 m 0 p count;
     (bits, p, count) \<leftarrow> popcount_64 m bits p count;
     (bits, p, count) \<leftarrow> popcount_8 m bits p count;
     popcount_tail m bits p count }"

text \<open>The AArch64 routine. A NEON vector is the list of its lanes, lane 0 first: \<open>vcntq_u8\<close> counts the bits of every byte,
  \<open>vpaddlq\<close> adds neighbouring lanes into lanes of twice the width, \<open>vpadalq_u8\<close> adds them to an accumulator, \<open>vaddq\<close> adds
  lane by lane. All sums wrap at the width of their lanes.\<close>

type_synonym u8x16 = "8 word list"
type_synonym u16x8 = "16 word list"
type_synonym u32x4 = "32 word list"
type_synonym u64x2 = "64 word list"

definition vcntq_u8 :: "u8x16 \<Rightarrow> u8x16" where
  "vcntq_u8 = map (\<lambda>b. of_nat (length (filter (bit b) [0..<8])))"

fun vpaddl :: "'a::len word list \<Rightarrow> 'b::len word list" where
  "vpaddl (x # y # v) = (ucast x + ucast y) # vpaddl v"
| "vpaddl v = []"

definition vpaddlq_u8 :: "u8x16 \<Rightarrow> u16x8" where "vpaddlq_u8 = vpaddl"
definition vpaddlq_u16 :: "u16x8 \<Rightarrow> u32x4" where "vpaddlq_u16 = vpaddl"
definition vpaddlq_u32 :: "u32x4 \<Rightarrow> u64x2" where "vpaddlq_u32 = vpaddl"

definition vaddq :: "'a::len word list \<Rightarrow> 'a word list \<Rightarrow> 'a word list" where
  "vaddq = map2 (+)"

definition vpadalq_u8 :: "u16x8 \<Rightarrow> u8x16 \<Rightarrow> u16x8" where
  "vpadalq_u8 acc c = vaddq acc (vpaddlq_u8 c)"

text \<open>The loop over 128 bytes, with four accumulators of eight 16 bit lanes that are read only after the loop.\<close>

function neon_128 :: "mem \<Rightarrow> u16x8 \<times> u16x8 \<times> u16x8 \<times> u16x8 \<Rightarrow> nat \<Rightarrow> nat \<Rightarrow> ((u16x8 \<times> u16x8 \<times> u16x8 \<times> u16x8) \<times> nat \<times> nat) option" where
  "neon_128 m (acc0, acc1, acc2, acc3) p count =
     (if count \<ge> 128 then do {
        d0 \<leftarrow> rd m p 16;
        d1 \<leftarrow> rd m (p + 16) 16;
        d2 \<leftarrow> rd m (p + 32) 16;
        d3 \<leftarrow> rd m (p + 48) 16;
        d4 \<leftarrow> rd m (p + 64) 16;
        d5 \<leftarrow> rd m (p + 80) 16;
        d6 \<leftarrow> rd m (p + 96) 16;
        d7 \<leftarrow> rd m (p + 112) 16;
        neon_128 m
          (vpadalq_u8 (vpadalq_u8 acc0 (vcntq_u8 d0)) (vcntq_u8 d4),
           vpadalq_u8 (vpadalq_u8 acc1 (vcntq_u8 d1)) (vcntq_u8 d5),
           vpadalq_u8 (vpadalq_u8 acc2 (vcntq_u8 d2)) (vcntq_u8 d6),
           vpadalq_u8 (vpadalq_u8 acc3 (vcntq_u8 d3)) (vcntq_u8 d7))
          (p + 128) (count - 128) }
      else Some ((acc0, acc1, acc2, acc3), p, count))"
  by pat_completeness auto
termination by (relation "measure (\<lambda>(m, acc, p, count). count)") auto

definition neon_reduce :: "u16x8 \<times> u16x8 \<times> u16x8 \<times> u16x8 \<Rightarrow> u64" where
  "neon_reduce = (\<lambda>(acc0, acc1, acc2, acc3).
     let s0 = vpaddlq_u16 acc0; s1 = vpaddlq_u16 acc1; s2 = vpaddlq_u16 acc2; s3 = vpaddlq_u16 acc3;
         s01 = vaddq s0 s1; s23 = vaddq s2 s3; st = vaddq s01 s23;
         s64 = vpaddlq_u32 st
     in s64 ! 0 + s64 ! 1)"

definition neon_sum :: "u8x16 \<Rightarrow> u64x2" where
  "neon_sum d = vpaddlq_u32 (vpaddlq_u16 (vpaddlq_u8 (vcntq_u8 d)))"

text \<open>The loops over 64 and over 16 bytes reduce every vector to a scalar at once.\<close>

function neon_64 :: "mem \<Rightarrow> u64 \<Rightarrow> nat \<Rightarrow> nat \<Rightarrow> (u64 \<times> nat \<times> nat) option" where
  "neon_64 m bits p count =
     (if count \<ge> 64 then do {
        d0 \<leftarrow> rd m p 16;
        d1 \<leftarrow> rd m (p + 16) 16;
        d2 \<leftarrow> rd m (p + 32) 16;
        d3 \<leftarrow> rd m (p + 48) 16;
        let s = vaddq (vaddq (neon_sum d0) (neon_sum d1)) (vaddq (neon_sum d2) (neon_sum d3)) in
        neon_64 m (bits + (s ! 0 + s ! 1)) (p + 64) (count - 64) }
      else Some (bits, p, count))"
  by pat_completeness auto
termination by (relation "measure (\<lambda>(m, b, p, count). count)") auto

function neon_16 :: "mem \<Rightarrow> u64 \<Rightarrow> nat \<Rightarrow> nat \<Rightarrow> (u64 \<times> nat \<times> nat) option" where
  "neon_16 m bits p count =
     (if count \<ge> 16 then do {
        d \<leftarrow> rd m p 16;
        let s = neon_sum d in
        neon_16 m (bits + (s ! 0 + s ! 1)) (p + 16) (count - 16) }
      else Some (bits, p, count))"
  by pat_completeness auto
termination by (relation "measure (\<lambda>(m, b, p, count). count)") auto

definition redisPopCountAarch64 :: "nat \<Rightarrow> mem \<Rightarrow> nat \<Rightarrow> nat \<Rightarrow> u64 option" where
  "redisPopCountAarch64 addr m p count = do {
     (bits, p, count) \<leftarrow> popcount_align addr 15 m 0 p count;
     let z = replicate 8 0;
     (acc, p, count) \<leftarrow> neon_128 m (z, z, z, z) p count;
     (bits, p, count) \<leftarrow> neon_64 m (bits + neon_reduce acc) p count;
     (bits, p, count) \<leftarrow> neon_16 m bits p count;
     popcount_tail m bits p count }"

text \<open>\<open>redisPopcountAuto\<close>: \<open>use_avx512\<close> and \<open>use_avx2\<close> stand for the macros of that name (false when the routine is not compiled),
  \<open>have_neon\<close> for \<open>HAVE_AARCH64_NEON\<close>.\<close>

record cpu =
  cpu_popcnt :: bool
  use_avx2 :: bool
  use_avx512 :: bool
  have_neon :: bool

definition redisPopcountAuto :: "cpu \<Rightarrow> nat \<Rightarrow> mem \<Rightarrow> nat \<Rightarrow> nat \<Rightarrow> u64 option" where
  "redisPopcountAuto c addr m p count =
     (if use_avx512 c then redisPopCountAvx512 addr m p count
      else if use_avx2 c then redisPopCountAvx2 addr m p count
      else if have_neon c then redisPopCountAarch64 addr m p count
      else redisPopcount (cpu_popcnt c) addr m p count)"

section \<open>The first set or clear bit\<close>

fun bitpos_align :: "nat \<Rightarrow> mem \<Rightarrow> byte \<Rightarrow> nat \<Rightarrow> nat \<Rightarrow> int \<Rightarrow> (bool \<times> nat \<times> nat \<times> int) option" where
  "bitpos_align addr m skipval c 0 pos = Some (False, c, 0, pos)"
| "bitpos_align addr m skipval c (Suc count) pos =
     (if (addr + c) AND 7 \<noteq> 0
      then do {
        b \<leftarrow> getb m c;
        if b \<noteq> skipval then Some (True, c, Suc count, pos)
        else bitpos_align addr m skipval (c + 1) count (pos + 8) }
      else Some (False, c, Suc count, pos))"

function bitpos_words :: "mem \<Rightarrow> u64 \<Rightarrow> nat \<Rightarrow> nat \<Rightarrow> int \<Rightarrow> (nat \<times> nat \<times> int) option" where
  "bitpos_words m skipval l count pos =
     (if count \<ge> 8 then do {
        w \<leftarrow> rd64 m l;
        if w \<noteq> skipval then Some (l, count, pos)
        else bitpos_words m skipval (l + 8) (count - 8) (pos + 64) }
      else Some (l, count, pos))"
  by pat_completeness auto
termination by (relation "measure (\<lambda>(m, s, l, count, pos). count)") auto

fun bitpos_load :: "mem \<Rightarrow> nat \<Rightarrow> nat \<Rightarrow> nat \<Rightarrow> u64 \<Rightarrow> u64 option" where
  "bitpos_load m 0 c count word = Some word"
| "bitpos_load m (Suc j) c count word =
     (if count \<noteq> 0
      then do { b \<leftarrow> getb m c; bitpos_load m j (c + 1) (count - 1) (push_bit 8 word OR ucast b) }
      else bitpos_load m j c count (push_bit 8 word))"

text \<open>The final scan; falling out of the loop is \<open>serverPanic\<close>.\<close>

partial_function (option) bitpos_scan :: "u64 \<Rightarrow> int \<Rightarrow> u64 \<Rightarrow> int \<Rightarrow> int option" where
  "bitpos_scan word bt one pos =
     (if one = 0 then None
      else if of_bool (one AND word \<noteq> 0) = bt then Some pos
      else bitpos_scan word bt (drop_bit 1 one) (pos + 1))"

definition redisBitpos :: "nat \<Rightarrow> mem \<Rightarrow> nat \<Rightarrow> nat \<Rightarrow> int \<Rightarrow> int option" where
  "redisBitpos addr m s count bt = do {
     (found, c, count, pos) \<leftarrow> bitpos_align addr m (if bt \<noteq> 0 then 0 else 255) s count 0;
     (l, count, pos) \<leftarrow> (if \<not> found then bitpos_words m (if bt \<noteq> 0 then 0 else NOT 0) c count pos
                         else Some (c, count, pos));
     word \<leftarrow> bitpos_load m 8 l count 0;
     if bt = 1 \<and> word = 0 then Some (- 1)
     else bitpos_scan word bt (NOT (drop_bit 1 (NOT 0))) pos }"

section \<open>Bit fields\<close>

text \<open>The loop variable counts down: with \<open>Suc k\<close> bits left, bit \<open>k\<close> of the value is written.\<close>

fun setUnsignedBitfield_loop :: "mem \<Rightarrow> u64 \<Rightarrow> nat \<Rightarrow> u64 \<Rightarrow> mem option" where
  "setUnsignedBitfield_loop p offset 0 value = Some p"
| "setUnsignedBitfield_loop p offset (Suc k) value =
     (let bitval = (if value AND push_bit k 1 \<noteq> 0 then 1 else 0 :: u64);
          byte = unat (drop_bit 3 offset);
          bt = unat (7 - (offset AND 7)) in do {
        b \<leftarrow> getb p byte;
        let byteval = (ucast b :: u64);
        let byteval = byteval AND NOT (push_bit bt 1);
        let byteval = byteval OR push_bit bt bitval;
        p \<leftarrow> setb p byte (ucast (byteval AND 0xff));
        setUnsignedBitfield_loop p (offset + 1) k value })"

definition setUnsignedBitfield :: "mem \<Rightarrow> u64 \<Rightarrow> u64 \<Rightarrow> u64 \<Rightarrow> mem option" where
  "setUnsignedBitfield p offset bits value = setUnsignedBitfield_loop p offset (unat bits) value"

definition setSignedBitfield :: "mem \<Rightarrow> u64 \<Rightarrow> u64 \<Rightarrow> i64 \<Rightarrow> mem option" where
  "setSignedBitfield p offset bits value = (let uv = value in setUnsignedBitfield p offset bits uv)"

fun getUnsignedBitfield_loop :: "mem \<Rightarrow> u64 \<Rightarrow> nat \<Rightarrow> u64 \<Rightarrow> u64 option" where
  "getUnsignedBitfield_loop p offset 0 value = Some value"
| "getUnsignedBitfield_loop p offset (Suc k) value =
     (let byte = unat (drop_bit 3 offset);
          bt = unat (7 - (offset AND 7)) in do {
        b \<leftarrow> getb p byte;
        let byteval = (ucast b :: u64);
        let bitval = drop_bit bt byteval AND 1;
        getUnsignedBitfield_loop p (offset + 1) k (push_bit 1 value OR bitval) })"

definition getUnsignedBitfield :: "mem \<Rightarrow> u64 \<Rightarrow> u64 \<Rightarrow> u64 option" where
  "getUnsignedBitfield p offset bits = getUnsignedBitfield_loop p offset (unat bits) 0"

definition getSignedBitfield :: "mem \<Rightarrow> u64 \<Rightarrow> u64 \<Rightarrow> i64 option" where
  "getSignedBitfield p offset bits = do {
     value \<leftarrow> getUnsignedBitfield p offset bits;
     if bits < 64 \<and> value AND push_bit (unat (bits - 1)) 1 \<noteq> 0
     then Some (value OR push_bit (unat bits) (- 1))
     else Some value }"

datatype bfoverflow = BFOVERFLOW_WRAP | BFOVERFLOW_SAT | BFOVERFLOW_FAIL

text \<open>The overflow checks yield the return code and, when it is written, the new \<open>*limit\<close>; the flag
  tells whether \<open>limit\<close> is non-null.  Signed subtraction wraps as on two's complement hardware.\<close>

definition checkUnsignedBitfieldOverflow ::
  "u64 \<Rightarrow> i64 \<Rightarrow> u64 \<Rightarrow> bfoverflow \<Rightarrow> bool \<Rightarrow> int \<times> u64 option" where
  "checkUnsignedBitfieldOverflow value incr bits owtype limit =
     (let max = (if bits = 64 then NOT 0 else push_bit (unat bits) 1 - 1);
          maxincr = max - value;
          minincr = - value;
          handle_wrap = (let mask = push_bit (unat bits) (- 1); res = value + incr; res = res AND NOT mask
                         in (1, Some res)) in
      if value > max \<or> (0 <s incr \<and> maxincr <s incr) then
        (if limit \<and> owtype = BFOVERFLOW_WRAP then handle_wrap
         else if limit \<and> owtype = BFOVERFLOW_SAT then (1, Some max)
         else (1, None))
      else if incr <s 0 \<and> incr <s minincr then
        (if limit \<and> owtype = BFOVERFLOW_WRAP then handle_wrap
         else if limit \<and> owtype = BFOVERFLOW_SAT then (- 1, Some 0)
         else (- 1, None))
      else (0, None))"


declare bitpos_scan.simps [code]
declare popcount_32.simps [simp del] popcount_28.simps [simp del] popcount_8.simps [simp del] bitpos_words.simps [simp del]
declare popcount_64.simps [simp del] neon_128.simps [simp del] neon_64.simps [simp del] neon_16.simps [simp del]

section \<open>Bits of a string\<close>

definition mbit :: "mem \<Rightarrow> nat \<Rightarrow> bool" where
  "mbit m i = bit (m ! (i div 8)) (7 - i mod 8)"

lemma bitoff_byte: "unat (drop_bit 3 (off :: u64)) = unat off div 8"
  by (simp add: drop_bit_eq_div unat_div)

lemma bitoff_bit: "unat (7 - ((off :: u64) AND 7)) = 7 - unat off mod 8"
proof -
  have m: "off AND 7 = take_bit 3 off" using take_bit_eq_mask[of 3 off] by (simp add: mask_eq_exp_minus_1)
  have u: "unat (off AND 7) = unat off mod 8"
    unfolding m by (simp add: take_bit_eq_mod unat_mod)
  then have "off AND 7 \<le> 7" by (simp add: word_le_nat_alt)
  then show ?thesis using u by (simp add: unat_sub)
qed

lemma byte_update_bit:
  assumes "t < 8" "i < 8"
  shows "bit (ucast (((ucast (b::byte) :: u64) AND NOT (push_bit t 1) OR push_bit t (if v then 1 else 0)) AND 0xff) :: byte) i
     = (if i = t then v else bit b i)"
proof -
  have ff: "(0xff :: u64) = mask 8" by (simp add: mask_eq_exp_minus_1)
  show ?thesis unfolding ff using assms
    by (auto simp: bit_simps bit_ucast_iff bit_push_bit_iff bit_1_iff)
qed

lemma mbit_setb:
  assumes "i < 8 * length m" "j < 8 * length m"
    "\<And>k. k < 8 \<Longrightarrow> bit b k = (if k = 7 - i mod 8 then v else bit (m ! (i div 8)) k)"
  shows "mbit (m[i div 8 := b]) j = (if j = i then v else mbit m j)"
proof (cases "j div 8 = i div 8")
  case True
  then have "j = i \<longleftrightarrow> 7 - j mod 8 = 7 - i mod 8"
    by (metis (no_types, opaque_lifting) diff_diff_cancel div_mult_mod_eq less_Suc_eq_le mod_less_divisor numeral_eq_Suc pred_numeral_simps(2) semiring_norm(26,27,28) zero_less_numeral)
  moreover have "i div 8 < length m" using assms(1) by simp
  ultimately show ?thesis using True assms(3)[of "7 - j mod 8"] by (auto simp: mbit_def)
next
  case False
  then show ?thesis by (auto simp: mbit_def)
qed

lemma set_loop:
  assumes "unat off + n \<le> 8 * length m" "unat off + n < 2 ^ 64"
  shows "\<exists>m'. setUnsignedBitfield_loop m off n v = Some m' \<and> length m' = length m \<and>
    (\<forall>i < 8 * length m. mbit m' i = (if unat off \<le> i \<and> i < unat off + n then bit v (unat off + n - 1 - i) else mbit m i))"
  using assms
proof (induction n arbitrary: m off)
  case (Suc k)
  let ?o = "unat off"
  have o1: "unat (off + 1) = ?o + 1" using Suc.prems(2) by (subst unat_word_ariths) simp
  have lt: "?o div 8 < length m" using Suc.prems(1) by simp
  define b where "b = (ucast (((ucast (m ! (?o div 8)) :: u64) AND NOT (push_bit (7 - ?o mod 8) 1) OR
     push_bit (7 - ?o mod 8) (if v AND push_bit k 1 \<noteq> 0 then 1 else 0)) AND 0xff) :: byte)"
  have vk: "(v AND push_bit k 1 \<noteq> 0) = bit v k"
    by (simp add: and_exp_eq_0_iff_not_bit push_bit_eq_mult)
  have bb: "bit b i = (if i = 7 - ?o mod 8 then bit v k else bit (m ! (?o div 8)) i)" if "i < 8" for i
    unfolding b_def vk by (rule byte_update_bit) (use that in auto)
  let ?m1 = "m[?o div 8 := b]"
  have m1: "mbit ?m1 i = (if i = ?o then bit v k else mbit m i)" if "i < 8 * length m" for i
    using Suc.prems(1) that bb by (intro mbit_setb) auto
  obtain m' where m': "setUnsignedBitfield_loop ?m1 (off + 1) k v = Some m'" "length m' = length ?m1"
    "\<forall>i < 8 * length ?m1. mbit m' i = (if unat (off + 1) \<le> i \<and> i < unat (off + 1) + k then bit v (unat (off + 1) + k - 1 - i) else mbit ?m1 i)"
    using Suc.IH[of "off + 1" ?m1] Suc.prems o1 by auto
  have "setUnsignedBitfield_loop m off (Suc k) v = Some m'"
    using lt m'(1) by (simp add: Let_def bitoff_byte bitoff_bit b_def)
  moreover have "mbit m' i = (if ?o \<le> i \<and> i < ?o + Suc k then bit v (?o + Suc k - 1 - i) else mbit m i)" if "i < 8 * length m" for i
    using m'(3) m1[OF that] that o1 by (auto simp: le_Suc_eq not_le Suc_le_eq)
  ultimately show ?case using m'(2) by auto
qed auto

lemma get_loop:
  assumes "unat off + n \<le> 8 * length m" "unat off + n < 2 ^ 64"
  shows "\<exists>w. getUnsignedBitfield_loop m off n acc = Some w \<and>
    (\<forall>k < 64. bit w k = (if k < n then mbit m (unat off + n - 1 - k) else bit acc (k - n)))"
  using assms
proof (induction n arbitrary: off acc)
  case (Suc n)
  let ?o = "unat off"
  have o1: "unat (off + 1) = ?o + 1" using Suc.prems(2) by (subst unat_word_ariths) simp
  have lt: "?o div 8 < length m" using Suc.prems(1) by simp
  define acc' where "acc' = push_bit 1 acc OR (drop_bit (7 - ?o mod 8) (ucast (m ! (?o div 8)) :: u64) AND 1)"
  have a': "bit acc' k = (if k = 0 then mbit m ?o else bit acc (k - 1))" if "k < 64" for k
    using that unfolding acc'_def bit_or_iff bit_push_bit_iff
    by (auto simp: mbit_def bit_simps bit_ucast_iff bit_1_iff)
  obtain w where w: "getUnsignedBitfield_loop m (off + 1) n acc' = Some w"
    "\<forall>k < 64. bit w k = (if k < n then mbit m (unat (off + 1) + n - 1 - k) else bit acc' (k - n))"
    using Suc.IH[of "off + 1" acc'] Suc.prems o1 by auto
  have "getUnsignedBitfield_loop m off (Suc n) acc = Some w"
    using lt w(1) by (simp add: Let_def bitoff_byte bitoff_bit acc'_def)
  moreover have "bit w k = (if k < Suc n then mbit m (?o + Suc n - 1 - k) else bit acc (k - Suc n))" if "k < 64" for k
    using w(2) that o1 a'[of "k - n"] by (auto simp: less_Suc_eq)
  ultimately show ?case by auto
qed simp

lemma bits_unat: "unat (bits :: u64) \<le> 64 \<Longrightarrow> bits < 64 \<longleftrightarrow> unat bits < 64"
  by (simp add: word_less_nat_alt)

lemma set_get_unsigned:
  assumes "unat off + unat bits \<le> 8 * length m" "8 * length m < 2 ^ 64" "unat bits \<le> 64"
  shows "\<exists>m'. setUnsignedBitfield m off bits v = Some m' \<and> length m' = length m \<and>
    getUnsignedBitfield m' off bits = Some (take_bit (unat bits) v) \<and>
    (\<forall>i < 8 * length m. i < unat off \<or> unat off + unat bits \<le> i \<longrightarrow> mbit m' i = mbit m i)"
proof -
  let ?o = "unat off" and ?n = "unat bits"
  have b: "?o + ?n < 2 ^ 64" using assms by simp
  obtain m' where m': "setUnsignedBitfield_loop m off ?n v = Some m'" "length m' = length m"
    "\<And>i. i < 8 * length m \<Longrightarrow> mbit m' i = (if ?o \<le> i \<and> i < ?o + ?n then bit v (?o + ?n - 1 - i) else mbit m i)"
    using set_loop[OF assms(1) b, of v] by auto
  obtain w where w: "getUnsignedBitfield_loop m' off ?n 0 = Some w"
    "\<And>k. k < 64 \<Longrightarrow> bit w k = (if k < ?n then mbit m' (?o + ?n - 1 - k) else False)"
    using get_loop[of off ?n m' 0] assms(1) b m'(2) by auto
  have "w = take_bit ?n v"
  proof (rule bit_word_eqI)
    fix k assume "k < LENGTH(64)"
    then show "bit w k = bit (take_bit ?n v) k"
      using w(2)[of k] m'(3)[of "?o + ?n - 1 - k"] assms(1) by (auto simp: bit_take_bit_iff)
  qed
  then show ?thesis using m' w(1) by (auto simp: setUnsignedBitfield_def getUnsignedBitfield_def)
qed


lemma signed_take_bit_word_self:
  assumes "- (2 ^ k) \<le> sint v" "sint v < 2 ^ k"
  shows "signed_take_bit k (v :: i64) = v"
proof (rule bit_word_eqI)
  fix i assume i: "i < LENGTH(64)"
  have "signed_take_bit k (sint v) = sint v" using assms by (rule signed_take_bit_int_eq_self)
  then have "bit (signed_take_bit k (sint v)) i = bit (sint v) i" by simp
  then show "bit (signed_take_bit k v) i = bit v i" using i
    by (auto simp: bit_signed_take_bit_iff bit_sint_iff min_def not_le)
qed

lemma getSigned_eq:
  assumes "getUnsignedBitfield m off bits = Some (take_bit (unat bits) v)" "0 < unat bits" "unat bits \<le> 64"
  shows "getSignedBitfield m off bits = Some (signed_take_bit (unat bits - 1) v)"
proof -
  let ?n = "unat bits"
  have n1: "unat (bits - 1) = ?n - 1" using assms(2) by (metis unat_eq_0 less_numeral_extra(3) unat_minus_one)
  have lt: "bits < 64 \<longleftrightarrow> ?n < 64" by (rule bits_unat[OF assms(3)])
  have t: "(take_bit ?n v AND push_bit (?n - 1) 1 \<noteq> 0) = bit v (?n - 1)"
    using assms(2) by (simp add: push_bit_eq_mult and_exp_eq_0_iff_not_bit bit_take_bit_iff)
  have x: "i < 64 \<longleftrightarrow> i < 63 \<or> i = 63" for i :: nat by auto
  obtain k where k: "?n = Suc k" using assms(2) by (cases ?n) auto
  show ?thesis
  proof (cases "?n < 64 \<and> bit v (?n - 1)")
    case True
    have "take_bit ?n v OR push_bit ?n (- 1) = signed_take_bit (?n - 1) v"
      using True assms(2) by (intro bit_word_eqI)
        (auto simp: k bit_or_iff bit_take_bit_iff bit_not_iff bit_mask_iff bit_signed_take_bit_iff min_def less_Suc_eq)
    then show ?thesis using True assms(1) t by (simp add: getSignedBitfield_def lt n1)
  next
    case False
    have "take_bit ?n v = signed_take_bit (?n - 1) v"
    proof (cases "k = 63")
      case True
      then show ?thesis by (intro bit_word_eqI) (auto simp: k x bit_take_bit_iff bit_signed_take_bit_iff min_def)
    next
      case ne: False
      then have "\<not> bit v k" using False k assms(3) by simp
      then show ?thesis using False assms(3) ne
        by (intro bit_word_eqI) (auto simp: k bit_take_bit_iff bit_signed_take_bit_iff min_def not_less less_Suc_eq)
    qed
    then show ?thesis using False assms(1) t by (auto simp: getSignedBitfield_def lt n1)
  qed
qed

section \<open>Overflow rules\<close>

lemma exp_word: "(push_bit n 1 - 1 :: u64) = word_of_int (2 ^ n - 1)"
  by (simp add: push_bit_eq_mult)

lemma and_not_high: "(w :: u64) AND NOT (push_bit n (- 1)) = take_bit n w"
  by (simp add: take_bit_eq_mask mask_eq_exp_minus_1 push_bit_minus_one_eq_not_mask)

lemma take_bit_word_of_int: "take_bit n (word_of_int x :: 'a::len word) = word_of_int (take_bit n x)"
  by (rule bit_word_eqI) (auto simp: bit_take_bit_iff bit_word_of_int_iff)

lemma word_add_ints: "(a :: u64) + b = word_of_int (uint a + sint b)"
  by simp

lemma word_add_sints: "(a :: u64) + b = word_of_int (sint a + sint b)"
  by simp

lemma pow_le_63: "n \<le> 63 \<Longrightarrow> (2::int) ^ n \<le> 2 ^ 63"
  by (intro power_increasing) auto


lemma checkUnsigned_spec:
  assumes n: "0 < unat bits" "unat bits \<le> 63" and v: "uint value < 2 ^ unat bits"
  shows "checkUnsignedBitfieldOverflow value incr bits ow True =
    (let s = uint value + sint incr in
     if 0 \<le> s \<and> s < 2 ^ unat bits then (0, None)
     else case ow of
       BFOVERFLOW_WRAP \<Rightarrow> (1, Some (word_of_int (s mod 2 ^ unat bits)))
     | BFOVERFLOW_SAT \<Rightarrow> if s < 0 then (- 1, Some 0) else (1, Some (word_of_int (2 ^ unat bits - 1)))
     | BFOVERFLOW_FAIL \<Rightarrow> (if s < 0 then - 1 else 1, None))"
proof -
  define N where "N = (2::int) ^ unat bits"
  define V where "V = uint value"
  define I where "I = sint incr"
  have b64: "bits \<noteq> 64" using n by auto
  have N: "0 < N" "N \<le> 2 ^ 63" using pow_le_63[OF n(2)] by (simp_all add: N_def)
  have V: "0 \<le> V" "V < N" using v by (simp_all add: V_def N_def)
  have mx: "(push_bit (unat bits) 1 - 1 :: u64) = word_of_int (N - 1)" by (simp add: exp_word N_def)
  have umx: "uint (word_of_int (N - 1) :: u64) = N - 1"
    using N unfolding uint_word_of_int by (intro mod_pos_pos_trivial) auto
  have e1: "(word_of_int (N - 1) - value :: u64) = word_of_int (N - 1 - V)" by (simp add: V_def)
  have smax: "sint (word_of_int (N - 1) - value :: u64) = N - 1 - V"
    unfolding e1 by (rule sint_word_of_int_64) (use N V in linarith)+
  have e2: "(- value :: u64) = word_of_int (- V)" by (simp add: V_def)
  have smin: "sint (- value :: u64) = - V"
    unfolding e2 by (rule sint_word_of_int_64) (use N V in linarith)+
  have big: "\<not> value > word_of_int (N - 1)" using V umx by (simp add: word_less_def V_def)
  have wrap: "(value + incr) AND NOT (push_bit (unat bits) (- 1)) = word_of_int ((V + I) mod N)"
  proof -
    have "(value + incr) AND NOT (push_bit (unat bits) (- 1)) = take_bit (unat bits) (word_of_int (V + I) :: u64)"
      unfolding and_not_high by (simp add: V_def I_def)
    also have "\<dots> = word_of_int (take_bit (unat bits) (V + I))"
      by (rule take_bit_word_of_int)
    finally show ?thesis by (simp add: take_bit_eq_mod N_def)
  qed
  have over: "(0 <s incr \<and> (word_of_int (N - 1) - value) <s incr) \<longleftrightarrow> N \<le> V + I"
    unfolding sslt_iff smax I_def[symmetric] using V by auto
  have under: "(incr <s 0 \<and> incr <s - value) \<longleftrightarrow> V + I < 0"
    unfolding sslt_iff smin I_def[symmetric] using V by auto
  show ?thesis
    unfolding checkUnsignedBitfieldOverflow_def Let_def if_not_P[OF b64] mx wrap
      V_def[symmetric] I_def[symmetric] N_def[symmetric] over under
    using big V N by (auto split: bfoverflow.splits)
qed





section \<open>Population counts count bits\<close>

definition pop8 :: "byte \<Rightarrow> nat" where
  "pop8 b = length (filter (bit b) [0..<8])"

definition popn :: "mem \<Rightarrow> nat \<Rightarrow> nat \<Rightarrow> nat" where
  "popn m p n = (\<Sum>k<n. pop8 (m ! (p + k)))"

lemma popn_0 [simp]: "popn m p 0 = 0"
  by (simp add: popn_def)

lemma popn_add: "popn m p (a + b) = popn m p a + popn m (p + a) b"
  by (induction b) (simp_all add: popn_def add.assoc)

lemma popn_Suc: "popn m p (Suc n) = pop8 (m ! p) + popn m (p + 1) n"
  using popn_add[of m p 1 n] by (simp add: popn_def)

lemma bitsinbyte_ints: "map (\<lambda>n::int. length (filter (\<lambda>i. odd (n div 2 ^ i)) [0..<8])) [0..255] = bitsinbyte"
  by code_simp

lemma nth_0_255: "[0..255] ! unat (b :: byte) = uint b"
proof -
  have "0 + int (unat b) \<le> 255" using uint_byte_bound[of b] by (simp del: uint_byte_bound)
  from nth_upto[OF this] show ?thesis by simp
qed

lemma bitsinbyte_pop8: "bitsinbyte ! unat b = pop8 b"
proof -
  have b: "nat (uint b) = unat b" "unat b < 256" using unsigned_less[of b] by simp_all
  have bb: "bit b = (\<lambda>i. odd (uint b div 2 ^ i))"
    by (rule ext) (metis bit_iff_odd bit_imp_le_length bit_uint_iff)
  have "pop8 b = length (filter (\<lambda>i. odd (uint b div 2 ^ i)) [0..<8])" by (simp only: pop8_def bb)
  then show ?thesis using b unfolding bitsinbyte_ints[symmetric] by (subst nth_map) (simp_all only: nth_0_255, simp)
qed

lemma length_filter_upt_mult:
  "length (filter P [0..<8 * n]) = (\<Sum>k<n. length (filter (\<lambda>j. P (8 * k + j)) [0..<8]))"
proof (induction n)
  case (Suc n)
  have "[0..<8 * Suc n] = [0..<8 * n] @ map (\<lambda>j. 8 * n + j) [0..<8]"
    using upt_add_eq_append[of 0 "8 * n" 8] by (simp add: map_add_upt add.commute)
  then show ?case using Suc by (simp add: filter_map o_def)
qed simp

text \<open>The set bits of the bytes \<open>p\<close> to \<open>p + n - 1\<close>, counted one by one.\<close>

definition set_bits :: "mem \<Rightarrow> nat \<Rightarrow> nat \<Rightarrow> nat" where
  "set_bits m p n = length (filter (mbit m) [8 * p..<8 * (p + n)])"

lemma popn_mbit: "p + n \<le> length m \<Longrightarrow> popn m p n = length (filter (mbit m) [8 * p..<8 * (p + n)])"
proof -
  have r: "length (filter (\<lambda>j. mbit m (8 * p + (8 * k + j))) [0..<8]) = pop8 (m ! (p + k))" for k
  proof -
    have "mbit m (8 * p + (8 * k + j)) = bit (m ! (p + k)) (7 - j)" if "j < 8" for j
    proof -
      have "(8 * p + (8 * k + j)) div 8 = p + k" "(8 * p + (8 * k + j)) mod 8 = j" using that by auto
      then show ?thesis by (simp add: mbit_def)
    qed
    then have "filter (\<lambda>j. mbit m (8 * p + (8 * k + j))) [0..<8] = filter (\<lambda>j. bit (m ! (p + k)) (7 - j)) [0..<8]"
      by (intro filter_cong) auto
    moreover have "length (filter (\<lambda>j. P (7 - j)) [0..<8]) = length (filter P [0..<8])" for P :: "nat \<Rightarrow> bool"
    proof -
      have "map (\<lambda>j. 7 - j) [0..<8] = rev [0..<(8::nat)]" by (simp add: upt_rec)
      then have "length (filter P (map (\<lambda>j. 7 - j) [0..<8])) = length (filter P [0..<8])"
        by (simp only: rev_filter[symmetric] length_rev)
      then show ?thesis by (simp add: filter_map o_def)
    qed
    ultimately show ?thesis by (simp only: pop8_def)
  qed
  have "[8 * p..<8 * (p + n)] = map (\<lambda>i. 8 * p + i) [0..<8 * n]"
    by (simp add: map_add_upt add.commute)
  then show ?thesis by (simp add: filter_map o_def length_filter_upt_mult r popn_def)
qed

lemma bit_le_int: "bit (le_int bs) i = (i div 8 < length bs \<and> bit (bs ! (i div 8)) (i mod 8))"
proof (induction bs arbitrary: i)
  case (Cons b bs)
  have "uint b + 256 * le_int bs = uint b OR push_bit 8 (le_int bs)"
  proof (subst disjunctive_add[symmetric])
    fix n show "\<not> bit (uint b) n \<or> \<not> bit (push_bit 8 (le_int bs)) n"
      by (auto simp: bit_push_bit_iff bit_uint_iff)
  qed (simp add: push_bit_eq_mult)
  then have "bit (le_int (b # bs)) i = (bit (uint b) i \<or> 8 \<le> i \<and> bit (le_int bs) (i - 8))"
    by (auto simp: bit_or_iff bit_push_bit_iff)
  also have "\<dots> = (if i < 8 then bit b i else bit (le_int bs) (i - 8))"
    by (auto simp: bit_uint_iff)
  finally show ?case using Cons.IH[of "i - 8"]
    by (cases "i < 8") (auto simp: nth_Cons' div_if[of i 8] mod_if[of i 8] le_mod_geq)
qed simp

lemma popcountll_rd:
  assumes "p + 8 \<le> length m"
  shows "\<exists>w. rd64 m p = Some w \<and> popcountll w = of_nat (popn m p 8)"
proof -
  let ?bs = "take 8 (drop p m)"
  let ?w = "word_of_int (le_int ?bs) :: u64"
  have b: "bit ?w (8 * k + j) = bit (m ! (p + k)) j" if "k < 8" "j < 8" for k j
  proof -
    have d: "(8 * k + j) div 8 = k" "(8 * k + j) mod 8 = j" using that by auto
    show ?thesis using that assms by (simp add: bit_word_of_int_iff bit_le_int d)
  qed
  have "length (filter (bit ?w) [0..<64]) = (\<Sum>k<8. length (filter (\<lambda>j. bit ?w (8 * k + j)) [0..<8]))"
    using length_filter_upt_mult[of "bit ?w" 8] by simp
  also have "\<dots> = (\<Sum>k<8. pop8 (m ! (p + k)))"
    using b by (intro sum.cong) (auto simp: pop8_def intro!: arg_cong[where f = length] filter_cong)
  finally show ?thesis using assms by (simp add: rd64_def rd_def popcountll_def popn_def)
qed

lemma popcount_align_ok:
  "p + count \<le> length m \<Longrightarrow> \<exists>k \<le> count. popcount_align addr al m bits p count = Some (bits + of_nat (popn m p k), p + k, count - k)"
proof (induction count arbitrary: bits p)
  case (Suc c)
  show ?case
  proof (cases "(addr + p) AND al \<noteq> 0")
    case True
    obtain k where k: "k \<le> c" "popcount_align addr al m (bits + of_nat (pop8 (m ! p))) (p + 1) c
        = Some (bits + of_nat (pop8 (m ! p)) + of_nat (popn m (p + 1) k), p + 1 + k, c - k)"
      using Suc.IH[of "p + 1" "bits + of_nat (pop8 (m ! p))"] Suc.prems by auto
    show ?thesis using True Suc.prems k
      by (intro exI[of _ "Suc k"]) (simp add: bitsinbyte_pop8 popn_Suc add.assoc)
  qed (auto intro!: exI[of _ 0])
qed simp

lemma popcount_tail_ok:
  "p + count \<le> length m \<Longrightarrow> popcount_tail m bits p count = Some (bits + of_nat (popn m p count))"
  by (induction count arbitrary: bits p) (simp_all add: bitsinbyte_pop8 popn_Suc add.assoc)

lemma popcount_8_ok:
  "p + count \<le> length m \<Longrightarrow> \<exists>k \<le> count. popcount_8 m bits p count = Some (bits + of_nat (popn m p k), p + k, count - k)"
proof (induction m bits p count rule: popcount_8.induct)
  case (1 m bits p count)
  show ?case
  proof (cases "count \<ge> 8")
    case True
    obtain w where w: "rd64 m p = Some w" "popcountll w = of_nat (popn m p 8)"
      using popcountll_rd[of p m] 1(2) True by auto
    obtain k where "k \<le> count - 8" "popcount_8 m (bits + popcountll w) (p + 8) (count - 8) =
        Some (bits + popcountll w + of_nat (popn m (p + 8) k), p + 8 + k, count - 8 - k)"
      using 1(1)[OF True w(1)] 1(2) True by auto
    then show ?thesis using True w
      by (subst popcount_8.simps) (auto intro!: exI[of _ "8 + k"] simp: popn_add add.assoc)
  qed (subst popcount_8.simps, auto intro!: exI[of _ 0])
qed

lemma popcount_32_ok:
  "p + count \<le> length m \<Longrightarrow> \<exists>k d0 d1 d2 d3. k \<le> count \<and>
     popcount_32 m (c0, c1, c2, c3) p count = Some ((d0, d1, d2, d3), p + k, count - k) \<and>
     d0 + d1 + d2 + d3 = c0 + c1 + c2 + c3 + of_nat (popn m p k)"
proof (induction m "(c0, c1, c2, c3)" p count arbitrary: c0 c1 c2 c3 rule: popcount_32.induct)
  case (1 m c0 c1 c2 c3 p count)
  show ?case
  proof (cases "count \<ge> 32")
    case True
    obtain w0 w1 w2 w3 where w: "rd64 m p = Some w0" "popcountll w0 = of_nat (popn m p 8)"
      "rd64 m (p + 8) = Some w1" "popcountll w1 = of_nat (popn m (p + 8) 8)"
      "rd64 m (p + 16) = Some w2" "popcountll w2 = of_nat (popn m (p + 16) 8)"
      "rd64 m (p + 24) = Some w3" "popcountll w3 = of_nat (popn m (p + 24) 8)"
      using popcountll_rd[of p m] popcountll_rd[of "p + 8" m] popcountll_rd[of "p + 16" m]
        popcountll_rd[of "p + 24" m] 1(2) True by fastforce
    have pn: "popn m p (k + 32) = popn m p 8 + popn m (p + 8) 8 + popn m (p + 16) 8 + popn m (p + 24) 8 + popn m (p + 32) k" for k
      using popn_add[of m p 8 "24 + k"] popn_add[of m "p + 8" 8 "16 + k"] popn_add[of m "p + 16" 8 "8 + k"]
        popn_add[of m "p + 24" 8 k] by (simp add: add.assoc add.commute[of k])
    obtain k d0 d1 d2 d3 where k: "k \<le> count - 32"
      "popcount_32 m (c0 + popcountll w0, c1 + popcountll w1, c2 + popcountll w2, c3 + popcountll w3) (p + 32) (count - 32)
        = Some ((d0, d1, d2, d3), p + 32 + k, count - 32 - k)"
      "d0 + d1 + d2 + d3 = c0 + popcountll w0 + (c1 + popcountll w1) + (c2 + popcountll w2) + (c3 + popcountll w3) + of_nat (popn m (p + 32) k)"
      using 1(1)[OF True w(1,3,5,7)] 1(2) True by fastforce
    show ?thesis using True k w
      by (subst popcount_32.simps)
         (auto intro!: exI[of _ "32 + k"] simp: pn algebra_simps)
  qed (subst popcount_32.simps, auto intro!: exI[of _ 0])
qed


subsection \<open>The folded count of 32 bit words\<close>

text \<open>A word is read as four byte lanes; every step of the fold works on the lanes separately.\<close>

lemma lane_split:
  assumes "0 \<le> a" "a < 256"
  shows "bit (a + 256 * y) i = (if i < 8 then bit a i else bit (y :: int) (i - 8))"
proof -
  have a: "a = take_bit 8 a" using assms by (simp add: take_bit_eq_mod)
  have h: "bit a i \<Longrightarrow> i < 8" for i by (subst (asm) a) (simp add: bit_take_bit_iff)
  have "a + 256 * y = a OR push_bit 8 y"
  proof (subst disjunctive_add[symmetric])
    fix n show "\<not> bit a n \<or> \<not> bit (push_bit 8 y) n" using h[of n] by (auto simp: bit_push_bit_iff)
  qed (simp add: push_bit_eq_mult)
  then show ?thesis using h[of i] by (auto simp: bit_or_iff bit_push_bit_iff)
qed

lemma and_lane_range: "0 \<le> a \<Longrightarrow> a < 256 \<Longrightarrow> 0 \<le> m \<Longrightarrow> 0 \<le> a AND m \<and> a AND m < (256::int)"
  by (meson AND_lower AND_upper1 le_less_trans)

lemma lane_and:
  fixes a :: int assumes "0 \<le> a" "a < 256" "0 \<le> m" "m < 256"
  shows "(a + 256 * y) AND (m + 256 * z) = (a AND m) + 256 * (y AND z)"
  by (rule bit_eqI) (use assms and_lane_range[of a m] in \<open>simp add: bit_and_iff lane_split\<close>)

lemma lane_shift_and:
  fixes a :: int assumes "0 \<le> a" "a < 256" "0 \<le> m" "m < 2 ^ (8 - s)" "s \<le> 8"
  shows "drop_bit s (a + 256 * y) AND (m + 256 * z) = (drop_bit s a AND m) + 256 * (drop_bit s y AND z)"
proof (rule bit_eqI)
  fix i
  have m: "m < 256" using assms(4) power_increasing[of "8 - s" 8 "2::int"] by simp
  have mb: "bit m i \<Longrightarrow> i + s < 8"
  proof -
    assume "bit m i"
    moreover have "m = take_bit (8 - s) m" using assms(3,4) by (simp add: take_bit_int_eq_self)
    ultimately have "i < 8 - s" by (metis bit_take_bit_iff)
    then show ?thesis by simp
  qed
  have d: "0 \<le> drop_bit s a" "drop_bit s a < 256"
    using assms(1,2) zdiv_mono2[of a 1 "2 ^ s"] by (simp_all add: drop_bit_eq_div pos_imp_zdiv_nonneg_iff)
  have r: "0 \<le> drop_bit s a AND m" "drop_bit s a AND m < 256" using and_lane_range[OF d assms(3)] by auto
  show "bit (drop_bit s (a + 256 * y) AND (m + 256 * z)) i = bit ((drop_bit s a AND m) + 256 * (drop_bit s y AND z)) i"
    using mb by (auto simp: bit_and_iff bit_drop_bit_eq lane_split[OF assms(1,2)] lane_split[OF assms(3) m] lane_split[OF r] add.commute)
qed

definition lane1 :: "int \<Rightarrow> int" where "lane1 a = a - (drop_bit 1 a AND 0x55)"
definition lane2 :: "int \<Rightarrow> int" where "lane2 a = (lane1 a AND 0x33) + (drop_bit 2 (lane1 a) AND 0x33)"

lemma lane_table: "list_all (\<lambda>a. 0 \<le> lane1 a \<and> lane1 a < 256 \<and> 0 \<le> lane2 a \<and> lane2 a \<le> 0x44 \<and> lane2 a mod 16 \<le> 4 \<and>
    (lane2 a + lane2 a div 16) mod 16 = int (bitsinbyte ! nat a)) [0..255]"
  by code_simp


lemma lane_facts:
  assumes "0 \<le> a" "a < 256"
  shows "0 \<le> lane1 a" "lane1 a < 256" "0 \<le> lane2 a" "lane2 a \<le> 0x44" "lane2 a mod 16 \<le> 4"
    "(lane2 a + lane2 a div 16) mod 16 = int (bitsinbyte ! nat a)"
  using lane_table assms by (auto simp: list_all_iff)

lemma and_15: "x AND 15 = x mod (16 :: int)"
  using take_bit_eq_mask[of 4 x] by (simp add: take_bit_eq_mod mask_eq_exp_minus_1)

lemma lane_fold4:
  fixes l y z :: int
  assumes "0 \<le> l" "l \<le> 0x44" "y mod 16 \<le> 4" "0 \<le> z"
  shows "(l + 256 * y + drop_bit 4 (l + 256 * y)) AND (15 + 256 * z)
    = (l + l div 16) mod 16 + 256 * ((y + drop_bit 4 y) AND z)"
proof -
  define c where "c = l + l div 16 + 16 * (y mod 16)"
  have d: "drop_bit 4 (l + 256 * y) = l div 16 + 16 * y" "drop_bit 4 y = y div 16"
    by (simp_all add: drop_bit_eq_div)
  have c: "0 \<le> c" "c < 256" using assms by (auto simp: c_def)
  have "l + 256 * y + drop_bit 4 (l + 256 * y) = c + 256 * (y + drop_bit 4 y)"
  proof -
    have "y = 16 * q + r \<Longrightarrow> l + 256 * y + (k + 16 * y) = l + k + 16 * r + 256 * (y + q)" for q r k by simp
    from this[OF mult_div_mod_eq[symmetric]] show ?thesis unfolding d c_def .
  qed
  moreover have "c AND 15 = (l + l div 16) mod 16"
    by (simp add: and_15 c_def)
  ultimately show ?thesis using lane_and[OF c, of 15 "y + drop_bit 4 y" z] by (simp only:)
qed

definition lanes4 :: "int \<Rightarrow> int \<Rightarrow> int \<Rightarrow> int \<Rightarrow> int" where
  "lanes4 a b c d = a + 256 * (b + 256 * (c + 256 * d))"

definition swar_int :: "int \<Rightarrow> int" where
  "swar_int x = (let x = x - (drop_bit 1 x AND 0x55555555);
                     x = (x AND 0x33333333) + (drop_bit 2 x AND 0x33333333)
                 in (x + drop_bit 4 x) AND 0x0F0F0F0F)"

lemma lanes4_and:
  assumes "0 \<le> a" "a < 256" "0 \<le> b" "b < 256" "0 \<le> c" "c < 256" "0 \<le> m" "m < 256"
  shows "lanes4 a b c d AND lanes4 m m m m = lanes4 (a AND m) (b AND m) (c AND m) (d AND m)"
  using assms by (simp only: lanes4_def lane_and)

lemma lanes4_shift_and:
  assumes "0 \<le> a" "a < 256" "0 \<le> b" "b < 256" "0 \<le> c" "c < 256" "0 \<le> m" "m < 2 ^ (8 - s)" "s \<le> 8"
  shows "drop_bit s (lanes4 a b c d) AND lanes4 m m m m
    = lanes4 (drop_bit s a AND m) (drop_bit s b AND m) (drop_bit s c AND m) (drop_bit s d AND m)"
  using assms by (simp only: lanes4_def lane_shift_and)

lemma lanes4_arith:
  "lanes4 a b c d - lanes4 a' b' c' d' = lanes4 (a - a') (b - b') (c - c') (d - d')"
  "lanes4 a b c d + lanes4 a' b' c' d' = lanes4 (a + a') (b + b') (c + c') (d + d')"
  by (simp_all add: lanes4_def algebra_simps)

lemma lanes4_masks: "(0x55555555 :: int) = lanes4 0x55 0x55 0x55 0x55"
  "(0x33333333 :: int) = lanes4 0x33 0x33 0x33 0x33" "(0x0F0F0F0F :: int) = lanes4 15 15 15 15"
  by (simp_all add: lanes4_def)

lemma lanes4_fold4:
  assumes "0 \<le> a" "a \<le> 0x44" "0 \<le> b" "b \<le> 0x44" "0 \<le> c" "c \<le> 0x44"
    "b mod 16 \<le> 4" "c mod 16 \<le> 4" "d mod 16 \<le> 4"
  shows "(lanes4 a b c d + drop_bit 4 (lanes4 a b c d)) AND lanes4 15 15 15 15
    = lanes4 ((a + a div 16) mod 16) ((b + b div 16) mod 16) ((c + c div 16) mod 16) ((d + d div 16) mod 16)"
proof -
  have m: "(b + 256 * y) mod 16 \<le> 4" "(c + 256 * y) mod 16 \<le> 4" for y
    using assms(7,8) mod_mult_self2[of b 16 "16 * y"] mod_mult_self2[of c 16 "16 * y"] by simp_all
  have "(d + drop_bit 4 d) AND 15 = (d + d div 16) mod 16"
    by (simp add: and_15 drop_bit_eq_div)
  moreover have "0 \<le> (15 :: int)" "0 \<le> 15 + 256 * (15 :: int)" "0 \<le> 15 + 256 * (15 + 256 * 15 :: int)" by simp_all
  note lane_fold4[OF assms(1,2) m(1)[of "c + 256 * d"] this(3)]
    lane_fold4[OF assms(3,4) m(2)[of d] this(2)] lane_fold4[OF assms(5,6,9) this(1)]
  ultimately show ?thesis unfolding lanes4_def by (simp only:)
qed

lemma swar_steps:
  assumes "0 \<le> a" "a < 256" "0 \<le> b" "b < 256" "0 \<le> c" "c < 256" "0 \<le> d" "d < 256"
  shows "lanes4 a b c d - (drop_bit 1 (lanes4 a b c d) AND 0x55555555) = lanes4 (lane1 a) (lane1 b) (lane1 c) (lane1 d)"
    "(lanes4 (lane1 a) (lane1 b) (lane1 c) (lane1 d) AND 0x33333333) +
      (drop_bit 2 (lanes4 (lane1 a) (lane1 b) (lane1 c) (lane1 d)) AND 0x33333333)
      = lanes4 (lane2 a) (lane2 b) (lane2 c) (lane2 d)"
  unfolding lanes4_masks using assms
  by (subst lanes4_shift_and; simp add: lanes4_arith lane1_def)
     (simp add: lanes4_shift_and lanes4_and lanes4_arith lane_facts lane2_def assms)

lemma swar_int_lanes:
  assumes "0 \<le> a" "a < 256" "0 \<le> b" "b < 256" "0 \<le> c" "c < 256" "0 \<le> d" "d < 256"
  shows "swar_int (lanes4 a b c d)
    = lanes4 (int (bitsinbyte ! nat a)) (int (bitsinbyte ! nat b)) (int (bitsinbyte ! nat c)) (int (bitsinbyte ! nat d))"
  unfolding swar_int_def Let_def swar_steps[OF assms] lanes4_masks(3)
  by (simp add: lanes4_fold4 lane_facts assms)

lemma lanes4_range: "0 \<le> a \<Longrightarrow> a < 256 \<Longrightarrow> 0 \<le> b \<Longrightarrow> b < 256 \<Longrightarrow> 0 \<le> c \<Longrightarrow> c < 256 \<Longrightarrow> 0 \<le> d \<Longrightarrow> d < 256 \<Longrightarrow>
  0 \<le> lanes4 a b c d \<and> lanes4 a b c d < 2 ^ 32"
  by (simp add: lanes4_def)

lemma drop_bit_word_of_int:
  "0 \<le> x \<Longrightarrow> x < 2 ^ 32 \<Longrightarrow> drop_bit n (word_of_int x :: u32) = word_of_int (drop_bit n x)"
proof (rule bit_word_eqI)
  fix k assume x: "0 \<le> x" "x < 2 ^ 32" and k: "k < LENGTH(32)"
  have "bit x i \<Longrightarrow> i < 32" for i using x by (metis bit_take_bit_iff take_bit_int_eq_self)
  then show "bit (drop_bit n (word_of_int x :: u32)) k = bit (word_of_int (drop_bit n x) :: u32) k"
    using k by (auto simp: bit_drop_bit_eq bit_word_of_int_iff)
qed

lemma word_of_int_and: "(word_of_int x :: u32) AND word_of_int y = word_of_int (x AND y)"
  by (rule bit_word_eqI) (simp add: bit_and_iff bit_word_of_int_iff)

lemma swar_word:
  assumes "0 \<le> a" "a < 256" "0 \<le> b" "b < 256" "0 \<le> c" "c < 256" "0 \<le> d" "d < 256"
  shows "swar (word_of_int (lanes4 a b c d)) = word_of_int (swar_int (lanes4 a b c d))"
proof -
  let ?w = "word_of_int :: int \<Rightarrow> u32"
  have num: "(0x55555555 :: u32) = ?w 0x55555555" "(0x33333333 :: u32) = ?w 0x33333333" "(0x0F0F0F0F :: u32) = ?w 0x0F0F0F0F"
    by simp_all
  note lf = lane_facts[OF assms(1,2)] lane_facts[OF assms(3,4)] lane_facts[OF assms(5,6)] lane_facts[OF assms(7,8)]
  have l2: "x \<le> 0x44 \<Longrightarrow> x < 256" for x :: int by simp
  have r1: "0 \<le> lanes4 (lane1 a) (lane1 b) (lane1 c) (lane1 d)" "lanes4 (lane1 a) (lane1 b) (lane1 c) (lane1 d) < 2 ^ 32"
    using lanes4_range[OF lf(1,2,7,8,13,14,19,20)] by simp_all
  have r2: "0 \<le> lanes4 (lane2 a) (lane2 b) (lane2 c) (lane2 d)" "lanes4 (lane2 a) (lane2 b) (lane2 c) (lane2 d) < 2 ^ 32"
    using lanes4_range[OF lf(3) l2[OF lf(4)] lf(9) l2[OF lf(10)] lf(15) l2[OF lf(16)] lf(21) l2[OF lf(22)]] by simp_all
  have r0: "0 \<le> lanes4 a b c d" "lanes4 a b c d < 2 ^ 32" using lanes4_range[OF assms] by auto
  show ?thesis unfolding swar_def swar_int_def Let_def num
    unfolding drop_bit_word_of_int[OF r0] word_of_int_and wi_hom_sub swar_steps(1)[OF assms]
      drop_bit_word_of_int[OF r1] wi_hom_add swar_steps(2)[OF assms] drop_bit_word_of_int[OF r2] ..
qed

lemma uint_lt_256: "uint (b :: byte) < 256" "nat (uint b) = unat b" by simp_all

lemma le_int_4: "length bs = 4 \<Longrightarrow> le_int bs = lanes4 (uint (bs ! 0)) (uint (bs ! 1)) (uint (bs ! 2)) (uint (bs ! 3))"
  by (auto simp: lanes4_def length_Suc_conv numeral_eq_Suc)

lemma swar_rd32:
  assumes "p + 4 \<le> length m"
  shows "\<exists>w. rd32 m p = Some w \<and> swar w =
    word_of_int (lanes4 (int (pop8 (m ! p))) (int (pop8 (m ! (p + 1)))) (int (pop8 (m ! (p + 2)))) (int (pop8 (m ! (p + 3)))))"
proof -
  let ?bs = "take 4 (drop p m)"
  have n: "?bs ! k = m ! (p + k)" if "k < 4" for k using that assms by simp
  have l: "le_int ?bs = lanes4 (uint (m ! p)) (uint (m ! (p + 1))) (uint (m ! (p + 2))) (uint (m ! (p + 3)))"
    using le_int_4[of ?bs] assms n by simp
  have "swar (word_of_int (le_int ?bs)) = word_of_int (swar_int (le_int ?bs))"
    unfolding l by (rule swar_word) simp_all
  also have "swar_int (le_int ?bs) = lanes4 (int (pop8 (m ! p))) (int (pop8 (m ! (p + 1)))) (int (pop8 (m ! (p + 2)))) (int (pop8 (m ! (p + 3))))"
    unfolding l by (subst swar_int_lanes) (simp_all add: bitsinbyte_pop8 flip: unat_eq_nat_uint)
  finally show ?thesis using assms by (simp add: rd32_def rd_def)
qed

lemma pop8_le: "pop8 b \<le> 8"
  unfolding pop8_def using length_filter_le[of "bit b" "[0..<8]"] by simp

lemma lanes4_mult:
  assumes "0 \<le> a" "0 \<le> b" "0 \<le> c" "0 \<le> d" "a + b + c + d < 256"
  shows "uint (drop_bit 24 (word_of_int (lanes4 a b c d) * 0x01010101 :: u32)) = a + b + c + d"
proof -
  define h where "h = b + c + d + 256 * (c + d) + 65536 * d"
  define l where "l = a + 256 * (a + b) + 65536 * (a + b + c)"
  have e: "lanes4 a b c d * 0x01010101 = 2 ^ 32 * h + (2 ^ 24 * (a + b + c + d) + l)"
    by (simp add: lanes4_def h_def l_def algebra_simps)
  have l: "0 \<le> l" "l < 2 ^ 24" using assms by (auto simp: l_def)
  have r: "0 \<le> 2 ^ 24 * (a + b + c + d) + l" "2 ^ 24 * (a + b + c + d) + l < 2 ^ 32" using assms l by auto
  have w: "word_of_int (lanes4 a b c d) * 0x01010101 = (word_of_int (2 ^ 24 * (a + b + c + d) + l) :: u32)"
  proof -
    have "(0x01010101 :: u32) = word_of_int 0x01010101" by simp
    then have "word_of_int (lanes4 a b c d) * (0x01010101 :: u32) = word_of_int (2 ^ 32 * h + (2 ^ 24 * (a + b + c + d) + l))"
      by (simp only: wi_hom_mult e)
    then show ?thesis by (simp only: word_of_int_eq_iff) (simp add: take_bit_eq_mod)
  qed
  have "drop_bit 24 (2 ^ 24 * (a + b + c + d) + l) = a + b + c + d"
    using l by (simp add: drop_bit_eq_div)
  moreover have "0 \<le> a + b + c + d" using assms by simp
  ultimately show ?thesis unfolding w drop_bit_word_of_int[OF r] using assms(5)
    by (simp only: uint_word_of_int) simp
qed

lemma popn_28: "popn m p (28 + k) = popn m p 4 + popn m (p + 4) 4 + popn m (p + 8) 4 + popn m (p + 12) 4 +
   popn m (p + 16) 4 + popn m (p + 20) 4 + popn m (p + 24) 4 + popn m (p + 28) k"
  using popn_add[of m p 4 "24 + k"] popn_add[of m "p + 4" 4 "20 + k"] popn_add[of m "p + 8" 4 "16 + k"]
    popn_add[of m "p + 12" 4 "12 + k"] popn_add[of m "p + 16" 4 "8 + k"] popn_add[of m "p + 20" 4 "4 + k"]
    popn_add[of m "p + 24" 4 k]
  by (simp add: add.assoc)

lemma popn_4: "popn m p 4 = pop8 (m ! p) + pop8 (m ! (p + 1)) + pop8 (m ! (p + 2)) + pop8 (m ! (p + 3))"
  by (simp add: popn_def numeral_eq_Suc)

lemma fold7:
  assumes "p + 28 \<le> length m"
  shows "\<exists>w1 w2 w3 w4 w5 w6 w7. rd32 m p = Some w1 \<and> rd32 m (p + 4) = Some w2 \<and> rd32 m (p + 8) = Some w3 \<and>
    rd32 m (p + 12) = Some w4 \<and> rd32 m (p + 16) = Some w5 \<and> rd32 m (p + 20) = Some w6 \<and> rd32 m (p + 24) = Some w7 \<and>
    (ucast (drop_bit 24 ((swar w1 + swar w2 + swar w3 + swar w4 + swar w5 + swar w6 + swar w7) * 0x01010101)) :: u64)
      = of_nat (popn m p 28)"
proof -
  let ?P = "\<lambda>k. int (pop8 (m ! (p + k)))"
  have P: "?P k \<le> 8" for k using pop8_le[of "m ! (p + k)"] by simp
  have r: "\<exists>w. rd32 m (p + k) = Some w \<and> swar w = word_of_int (lanes4 (?P k) (?P (k + 1)) (?P (k + 2)) (?P (k + 3)))"
    if "k \<le> 24" for k using swar_rd32[of "p + k" m] assms that by (simp add: add.assoc)
  obtain w1 w2 w3 w4 w5 w6 w7 where w:
     "rd32 m p = Some w1" "rd32 m (p + 4) = Some w2" "rd32 m (p + 8) = Some w3"
     "rd32 m (p + 12) = Some w4" "rd32 m (p + 16) = Some w5" "rd32 m (p + 20) = Some w6" "rd32 m (p + 24) = Some w7"
     and s: "swar w1 = word_of_int (lanes4 (?P 0) (?P 1) (?P 2) (?P 3))"
     "swar w2 = word_of_int (lanes4 (?P 4) (?P 5) (?P 6) (?P 7))"
     "swar w3 = word_of_int (lanes4 (?P 8) (?P 9) (?P 10) (?P 11))"
     "swar w4 = word_of_int (lanes4 (?P 12) (?P 13) (?P 14) (?P 15))"
     "swar w5 = word_of_int (lanes4 (?P 16) (?P 17) (?P 18) (?P 19))"
     "swar w6 = word_of_int (lanes4 (?P 20) (?P 21) (?P 22) (?P 23))"
     "swar w7 = word_of_int (lanes4 (?P 24) (?P 25) (?P 26) (?P 27))"
    using r[of 0] r[of 4] r[of 8] r[of 12] r[of 16] r[of 20] r[of 24] by auto
  define a b c d where "a = ?P 0 + ?P 4 + ?P 8 + ?P 12 + ?P 16 + ?P 20 + ?P 24"
    and "b = ?P 1 + ?P 5 + ?P 9 + ?P 13 + ?P 17 + ?P 21 + ?P 25"
    and "c = ?P 2 + ?P 6 + ?P 10 + ?P 14 + ?P 18 + ?P 22 + ?P 26"
    and "d = ?P 3 + ?P 7 + ?P 11 + ?P 15 + ?P 19 + ?P 23 + ?P 27"
  have n: "0 \<le> a" "0 \<le> b" "0 \<le> c" "0 \<le> d" by (simp_all add: a_def b_def c_def d_def)
  have "a \<le> 56" "b \<le> 56" "c \<le> 56" "d \<le> 56" unfolding a_def b_def c_def d_def
    using P[of 0] P[of 4] P[of 8] P[of 12] P[of 16] P[of 20] P[of 24] apply linarith
    using P[of 1] P[of 5] P[of 9] P[of 13] P[of 17] P[of 21] P[of 25] apply linarith
    using P[of 2] P[of 6] P[of 10] P[of 14] P[of 18] P[of 22] P[of 26] apply linarith
    using P[of 3] P[of 7] P[of 11] P[of 15] P[of 19] P[of 23] P[of 27] by linarith
  then have lt: "a + b + c + d < 256" by simp
  have sm: "swar w1 + swar w2 + swar w3 + swar w4 + swar w5 + swar w6 + swar w7 = word_of_int (lanes4 a b c d)"
    unfolding s wi_hom_add lanes4_arith a_def b_def c_def d_def ..
  have "a + b + c + d = int (popn m p 28)"
    using popn_28[of m p 0] by (simp add: a_def b_def c_def d_def popn_4 add.assoc add.commute[of p])
  then have "uint (drop_bit 24 ((swar w1 + swar w2 + swar w3 + swar w4 + swar w5 + swar w6 + swar w7) * 0x01010101)) = int (popn m p 28)"
    unfolding sm using lanes4_mult[OF n lt] by simp
  then have "(ucast (drop_bit 24 ((swar w1 + swar w2 + swar w3 + swar w4 + swar w5 + swar w6 + swar w7) * 0x01010101)) :: u64)
      = of_nat (popn m p 28)"
    by (simp only: ucast_eq of_int_of_nat_eq)
  then show ?thesis using w by blast
qed

lemma popcount_28_ok:
  "p + count \<le> length m \<Longrightarrow> \<exists>k \<le> count. popcount_28 m bits p count = Some (bits + of_nat (popn m p k), p + k, count - k)"
proof (induction m bits p count rule: popcount_28.induct)
  case (1 m bits p count)
  show ?case
  proof (cases "count \<ge> 28")
    case True
    then have "p + 28 \<le> length m" using 1(2) by simp
    from fold7[OF this] obtain w1 w2 w3 w4 w5 w6 w7 where w:
      "rd32 m p = Some w1" "rd32 m (p + 4) = Some w2" "rd32 m (p + 8) = Some w3" "rd32 m (p + 12) = Some w4"
      "rd32 m (p + 16) = Some w5" "rd32 m (p + 20) = Some w6" "rd32 m (p + 24) = Some w7"
      and s: "(ucast (drop_bit 24 ((swar w1 + swar w2 + swar w3 + swar w4 + swar w5 + swar w6 + swar w7) * 0x01010101)) :: u64)
        = of_nat (popn m p 28)" by blast
    have "p + 28 + (count - 28) \<le> length m" using 1(2) True by simp
    from 1(1)[OF True w this] obtain k where "k \<le> count - 28" "popcount_28 m (bits + of_nat (popn m p 28)) (p + 28) (count - 28) =
        Some (bits + of_nat (popn m p 28) + of_nat (popn m (p + 28) k), p + 28 + k, count - 28 - k)"
      unfolding s by blast
    then show ?thesis using True w s
      by (subst popcount_28.simps) (auto intro!: exI[of _ "28 + k"] simp: popn_add add.assoc)
  qed (subst popcount_28.simps, auto intro!: exI[of _ 0])
qed

lemma popn_split: "k \<le> n \<Longrightarrow> popn m p n = popn m p k + popn m (p + k) (n - k)"
  using popn_add[of m p k "n - k"] by simp

theorem redisPopcount_popn:
  assumes "p + count \<le> length m"
  shows "redisPopcount use_popcnt addr m p count = Some (of_nat (popn m p count))"
proof -
  obtain k where k: "k \<le> count" "popcount_align addr (if use_popcnt then 7 else 3) m 0 p count = Some (of_nat (popn m p k), p + k, count - k)"
    using popcount_align_ok[OF assms, of addr "if use_popcnt then 7 else 3" 0] by auto
  have le: "p + k + (count - k) \<le> length m" using assms k by simp
  show ?thesis
  proof (cases use_popcnt)
    case True
    from popcount_32_ok[OF le, of 0 0 0 0] obtain j d0 d1 d2 d3 where j: "j \<le> count - k"
      "popcount_32 m (0, 0, 0, 0) (p + k) (count - k) = Some ((d0, d1, d2, d3), p + k + j, count - k - j)"
      "d0 + d1 + d2 + d3 = of_nat (popn m (p + k) j)" by auto
    have "popcount_tail m b (p + k + j) (count - k - j) = Some (b + of_nat (popn m (p + k + j) (count - k - j)))" for b
      using le j(1) by (intro popcount_tail_ok) simp
    then show ?thesis using True k j popn_split[OF k(1), of m p] popn_split[OF j(1), of m "p + k"]
      by (simp add: redisPopcount_def add.assoc)
  next
    case False
    from popcount_28_ok[OF le] obtain j where j: "j \<le> count - k"
      "popcount_28 m (of_nat (popn m p k)) (p + k) (count - k) = Some (of_nat (popn m p k) + of_nat (popn m (p + k) j), p + k + j, count - k - j)"
      by blast
    have "popcount_tail m b (p + k + j) (count - k - j) = Some (b + of_nat (popn m (p + k + j) (count - k - j)))" for b
      using le j(1) by (intro popcount_tail_ok) simp
    then show ?thesis using False k j popn_split[OF k(1), of m p] popn_split[OF j(1), of m "p + k"]
      by (simp add: redisPopcount_def add.assoc)
  qed
qed

theorem redisPopCountAvx2_popn:
  assumes "p + count \<le> length m"
  shows "redisPopCountAvx2 addr m p count = Some (of_nat (popn m p count))"
proof -
  obtain k where k: "k \<le> count" "popcount_align addr 7 m 0 p count = Some (of_nat (popn m p k), p + k, count - k)"
    using popcount_align_ok[OF assms, of addr 7 0] by auto
  have le: "p + k + (count - k) \<le> length m" using assms k by simp
  from popcount_32_ok[OF le, of 0 0 0 0] obtain j d0 d1 d2 d3 where j: "j \<le> count - k"
    "popcount_32 m (0, 0, 0, 0) (p + k) (count - k) = Some ((d0, d1, d2, d3), p + k + j, count - k - j)"
    "d0 + d1 + d2 + d3 = of_nat (popn m (p + k) j)" by auto
  have le2: "p + k + j + (count - k - j) \<le> length m" using le j(1) by simp
  from popcount_8_ok[OF le2] obtain i where i: "i \<le> count - k - j" "\<And>b. popcount_8 m (of_nat (popn m p k) + (d0 + d1 + d2 + d3)) (p + k + j) (count - k - j)
      = Some (of_nat (popn m p k) + (d0 + d1 + d2 + d3) + of_nat (popn m (p + k + j) i), p + k + j + i, count - k - j - i)" by blast
  have "popcount_tail m b (p + k + j + i) (count - k - j - i) = Some (b + of_nat (popn m (p + k + j + i) (count - k - j - i)))" for b
    using le2 i(1) by (intro popcount_tail_ok) simp
  then show ?thesis using k j i popn_split[OF k(1), of m p] popn_split[OF j(1), of m "p + k"] popn_split[OF i(1), of m "p + k + j"]
    by (simp add: redisPopCountAvx2_def add.assoc)
qed

lemma mm512_popcount:
  assumes "p + 64 \<le> length m"
  shows "\<exists>data. mm512_loadu m p = Some data \<and> sum_list (map popcountll data) = of_nat (popn m p 64)"
proof -
  have u: "[0..<8] = [0, 1, 2, 3, 4, 5, 6, 7 :: nat]" by (simp add: upt_rec)
  have r: "\<exists>w. rd64 m (p + 8 * i) = Some w \<and> popcountll w = of_nat (popn m (p + 8 * i) 8)" if "i < 8" for i
    using popcountll_rd[of "p + 8 * i" m] assms that by simp
  define w where "w i = (SOME w. rd64 m (p + 8 * i) = Some w)" for i
  have w: "rd64 m (p + 8 * i) = Some (w i)" "popcountll (w i) = of_nat (popn m (p + 8 * i) 8)" if "i < 8" for i
    using r[OF that] unfolding w_def by auto
  have "popn m p (8 * k) = (\<Sum>i<k. popn m (p + 8 * i) 8)" for k
  proof (induction k)
    case (Suc k)
    then show ?case using popn_add[of m p "8 * k" 8] by (simp add: add.commute)
  qed simp
  from this[of 8] have "popn m p 64 = (\<Sum>i<8. popn m (p + 8 * i) 8)" by simp
  also have "(of_nat \<dots> :: u64) = sum_list (map (\<lambda>i. popcountll (w i)) [0..<8])"
    by (simp add: sum_list_distinct_conv_sum_set atLeast0LessThan w(2))
  finally have "sum_list (map popcountll (map w [0..<8])) = of_nat (popn m p 64)" by (simp add: o_def)
  moreover have "mm512_loadu m p = Some (map w [0..<8])"
    unfolding mm512_loadu_def u using w(1)[of 0] w(1)[of 1] w(1)[of 2] w(1)[of 3] w(1)[of 4] w(1)[of 5] w(1)[of 6] w(1)[of 7] by simp
  ultimately show ?thesis by blast
qed

lemma popcount_64_ok:
  "p + count \<le> length m \<Longrightarrow> \<exists>k \<le> count. popcount_64 m bits p count = Some (bits + of_nat (popn m p k), p + k, count - k)"
proof (induction m bits p count rule: popcount_64.induct)
  case (1 m bits p count)
  show ?case
  proof (cases "count \<ge> 64")
    case True
    obtain d where d: "mm512_loadu m p = Some d" "sum_list (map popcountll d) = of_nat (popn m p 64)"
      using mm512_popcount[of p m] 1(2) True by auto
    obtain k where "k \<le> count - 64" "popcount_64 m (bits + of_nat (popn m p 64)) (p + 64) (count - 64) =
        Some (bits + of_nat (popn m p 64) + of_nat (popn m (p + 64) k), p + 64 + k, count - 64 - k)"
      using 1(1)[OF True d(1)] 1(2) True d(2) by auto
    then show ?thesis using True d
      by (subst popcount_64.simps) (auto intro!: exI[of _ "64 + k"] simp: popn_add add.assoc)
  qed (subst popcount_64.simps, auto intro!: exI[of _ 0])
qed

lemma redisPopCountAvx512_popn:
  assumes "p + count \<le> length m"
  shows "redisPopCountAvx512 addr m p count = Some (of_nat (popn m p count))"
proof -
  obtain k where k: "k \<le> count" "popcount_align addr 63 m 0 p count = Some (of_nat (popn m p k), p + k, count - k)"
    using popcount_align_ok[OF assms, of addr 63 0] by auto
  have le: "p + k + (count - k) \<le> length m" using assms k(1) by simp
  from popcount_64_ok[OF le] obtain j where j: "j \<le> count - k"
    "popcount_64 m (of_nat (popn m p k)) (p + k) (count - k) = Some (of_nat (popn m p k) + of_nat (popn m (p + k) j), p + k + j, count - k - j)"
    by blast
  have le2: "p + k + j + (count - k - j) \<le> length m" using le j(1) by simp
  from popcount_8_ok[OF le2] obtain i where i: "i \<le> count - k - j"
    "popcount_8 m (of_nat (popn m p k) + of_nat (popn m (p + k) j)) (p + k + j) (count - k - j)
      = Some (of_nat (popn m p k) + of_nat (popn m (p + k) j) + of_nat (popn m (p + k + j) i), p + k + j + i, count - k - j - i)"
    by blast
  have "popcount_tail m b (p + k + j + i) (count - k - j - i) = Some (b + of_nat (popn m (p + k + j + i) (count - k - j - i)))" for b
    using le2 i(1) by (intro popcount_tail_ok) simp
  then show ?thesis using k j i popn_split[OF k(1), of m p] popn_split[OF j(1), of m "p + k"] popn_split[OF i(1), of m "p + k + j"]
    by (simp add: redisPopCountAvx512_def add.assoc)
qed

subsection \<open>Vector lanes\<close>

definition lsum :: "'a::len word list \<Rightarrow> nat" where
  "lsum v = sum_list (map unat v)"

definition lanes :: "nat \<Rightarrow> nat \<Rightarrow> 'a::len word list \<Rightarrow> bool" where
  "lanes n B v \<longleftrightarrow> length v = n \<and> (\<forall>x \<in> set v. unat x \<le> B)"

lemma lanes_full: "length v = n \<Longrightarrow> lanes n (2 ^ LENGTH('a) - 1) (v :: 'a::len word list)"
  using unsigned_less by (fastforce simp: lanes_def less_eq_Suc_le[symmetric] le_diff_conv2 Suc_le_eq)

lemma vpaddl_lanes:
  fixes v :: "'a::len word list"
  assumes "lanes (2 * n) B v" "2 * B < 2 ^ LENGTH('b)"
  shows "lanes n (2 * B) (vpaddl v :: 'b::len word list) \<and> lsum (vpaddl v :: 'b word list) = lsum v"
  using assms(1)
proof (induction v arbitrary: n rule: vpaddl.induct)
  case (1 x y v)
  have xy: "unat x \<le> B" "unat y \<le> B" using 1(2) by (auto simp: lanes_def)
  have "unat (ucast x :: 'b word) = unat x" "unat (ucast y :: 'b word) = unat y"
    using xy assms(2) by (simp_all add: unsigned_ucast_eq take_bit_nat_eq_self)
  then have s: "unat (ucast x + ucast y :: 'b word) = unat x + unat y"
    using xy assms(2) by (simp add: unat_word_ariths)
  obtain k where k: "n = Suc k" using 1(2) by (cases n) (auto simp: lanes_def)
  show ?case using 1(1)[of k] 1(2) s xy by (auto simp: lanes_def lsum_def k)
qed (auto simp: lanes_def lsum_def)

lemma vaddq_lanes:
  fixes v w :: "'a::len word list"
  assumes "lanes n A v" "lanes n B w" "A + B < 2 ^ LENGTH('a)"
  shows "lanes n (A + B) (vaddq v w) \<and> lsum (vaddq v w) = lsum v + lsum w"
proof -
  have l: "length v = length w" "length v = n" using assms by (auto simp: lanes_def)
  have b: "\<forall>x \<in> set v. unat x \<le> A" "\<forall>x \<in> set w. unat x \<le> B" using assms by (auto simp: lanes_def)
  have s: "unat x \<le> A \<Longrightarrow> unat y \<le> B \<Longrightarrow> unat (x + y) = unat x + unat y" for x y :: "'a word"
    using assms(3) by (simp add: unat_word_ariths)
  have "(\<forall>x \<in> set (map2 (+) v w). unat x \<le> A + B) \<and> lsum (map2 (+) v w) = lsum v + lsum w"
    using l(1) b by (induction v w rule: list_induct2) (auto simp: lsum_def s)
  then show ?thesis using l by (simp add: lanes_def vaddq_def)
qed


lemma vcntq_lanes:
  assumes "p + 16 \<le> length m"
  obtains d where "rd m p 16 = Some d" "lanes 16 8 (vcntq_u8 d)" "lsum (vcntq_u8 d) = popn m p 16"
proof -
  define d where "d = take 16 (drop p m)"
  have p8: "pop8 b \<le> 8" for b using length_filter_le[of "bit b" "[0..<8]"] by (simp add: pop8_def)
  have u: "unat (of_nat (pop8 b) :: 8 word) = pop8 b" for b using p8[of b] by (simp add: unat_of_nat take_bit_nat_eq_self)
  have v: "vcntq_u8 d = map (\<lambda>b. of_nat (pop8 b)) d" by (simp add: vcntq_u8_def pop8_def)
  have l: "length d = 16" using assms by (simp add: d_def)
  have "lsum (vcntq_u8 d) = sum_list (map (\<lambda>k. pop8 (m ! (p + k))) [0..<16])"
    unfolding v lsum_def using assms l
    by (intro arg_cong[where f = sum_list] nth_equalityI) (simp_all add: u d_def)
  also have "\<dots> = popn m p 16" by (simp only: popn_def sum_list_distinct_conv_sum_set distinct_upt set_upt atLeast0LessThan)
  finally show thesis using assms l by (intro that[of d]) (auto simp: lanes_def v u p8 rd_def d_def[symmetric])
qed

lemma vpadalq_lanes:
  assumes "lanes 8 B acc" "lanes 16 8 c" "B + 16 < 65536"
  shows "lanes 8 (B + 16) (vpadalq_u8 acc c)" "lsum (vpadalq_u8 acc c) = lsum acc + lsum c"
proof -
  have "lanes 8 16 (vpaddlq_u8 c) \<and> lsum (vpaddlq_u8 c) = lsum c"
    using vpaddl_lanes[where 'b = 16, of 8 8 c] assms(2) by (simp add: vpaddlq_u8_def)
  then show "lanes 8 (B + 16) (vpadalq_u8 acc c)" "lsum (vpadalq_u8 acc c) = lsum acc + lsum c"
    using vaddq_lanes[of 8 B acc 16 "vpaddlq_u8 c"] assms(1,3) by (simp_all add: vpadalq_u8_def)
qed

lemma lane_pair: "lanes 2 B (v :: u64 list) \<Longrightarrow> v ! 0 + v ! 1 = of_nat (lsum v)"
  by (auto simp: lanes_def lsum_def length_Suc_conv numeral_2_eq_2)

lemma neon_reduce_sum:
  assumes "lanes 8 A a0" "lanes 8 A a1" "lanes 8 A a2" "lanes 8 A a3" "A < 65536"
  shows "neon_reduce (a0, a1, a2, a3) = of_nat (lsum a0 + lsum a1 + lsum a2 + lsum a3)"
proof -
  have s: "lanes 4 (2 * A) (vpaddlq_u16 a)" "lsum (vpaddlq_u16 a) = lsum a" if "lanes 8 A a" for a
    using vpaddl_lanes[where 'b = 32, of 4 A a] that assms(5) by (simp_all add: vpaddlq_u16_def)
  let ?s = vpaddlq_u16
  have p: "lanes 4 (2 * A + 2 * A) (vaddq (?s a) (?s b)) \<and> lsum (vaddq (?s a) (?s b)) = lsum a + lsum b"
    if "lanes 8 A a" "lanes 8 A b" for a b
    using vaddq_lanes[OF s(1)[OF that(1)] s(1)[OF that(2)]] s(2)[OF that(1)] s(2)[OF that(2)] assms(5) by simp
  let ?t = "vaddq (vaddq (?s a0) (?s a1)) (vaddq (?s a2) (?s a3))"
  have t: "lanes 4 (8 * A) ?t" "lsum ?t = lsum a0 + lsum a1 + lsum a2 + lsum a3"
    using vaddq_lanes[of 4 "2 * A + 2 * A" "vaddq (?s a0) (?s a1)" "2 * A + 2 * A" "vaddq (?s a2) (?s a3)"]
      p[OF assms(1,2)] p[OF assms(3,4)] assms(5) by simp_all
  have "lanes 2 (16 * A) (vpaddlq_u32 ?t)" "lsum (vpaddlq_u32 ?t) = lsum ?t"
    using vpaddl_lanes[where 'b = 64, of 2 "8 * A" ?t] t(1) assms(5) by (simp_all add: vpaddlq_u32_def)
  then show ?thesis using lane_pair[of "16 * A" "vpaddlq_u32 ?t"] t(2) by (simp add: neon_reduce_def Let_def)
qed

lemma neon_sum_lanes:
  assumes "lanes 16 8 (vcntq_u8 d)"
  shows "lanes 2 64 (neon_sum d)" "lsum (neon_sum d) = lsum (vcntq_u8 d)"
proof -
  have a: "lanes 8 16 (vpaddlq_u8 (vcntq_u8 d)) \<and> lsum (vpaddlq_u8 (vcntq_u8 d)) = lsum (vcntq_u8 d)"
    using vpaddl_lanes[where 'b = 16, of 8 8 "vcntq_u8 d"] assms by (simp add: vpaddlq_u8_def)
  then have b: "lanes 4 32 (vpaddlq_u16 (vpaddlq_u8 (vcntq_u8 d))) \<and> lsum (vpaddlq_u16 (vpaddlq_u8 (vcntq_u8 d))) = lsum (vcntq_u8 d)"
    using vpaddl_lanes[where 'b = 32, of 4 16 "vpaddlq_u8 (vcntq_u8 d)"] by (simp add: vpaddlq_u16_def)
  then show "lanes 2 64 (neon_sum d)" "lsum (neon_sum d) = lsum (vcntq_u8 d)"
    using vpaddl_lanes[where 'b = 64, of 2 32 "vpaddlq_u16 (vpaddlq_u8 (vcntq_u8 d))"]
    by (simp_all add: neon_sum_def vpaddlq_u32_def)
qed

lemma popn_16s: "popn m p (64 + k) = popn m p 16 + popn m (p + 16) 16 + popn m (p + 32) 16 + popn m (p + 48) 16 + popn m (p + 64) k"
  using popn_add[of m p 16 "48 + k"] popn_add[of m "p + 16" 16 "32 + k"] popn_add[of m "p + 32" 16 "16 + k"]
    popn_add[of m "p + 48" 16 k] by (simp add: add.assoc)

lemma neon_16_ok:
  "p + count \<le> length m \<Longrightarrow> \<exists>k \<le> count. neon_16 m bits p count = Some (bits + of_nat (popn m p k), p + k, count - k)"
proof (induction m bits p count rule: neon_16.induct)
  case (1 m bits p count)
  show ?case
  proof (cases "count \<ge> 16")
    case True
    obtain d where d: "rd m p 16 = Some d" "lanes 16 8 (vcntq_u8 d)" "lsum (vcntq_u8 d) = popn m p 16"
      using vcntq_lanes[of p m] 1(2) True by auto
    have s: "neon_sum d ! 0 + neon_sum d ! 1 = of_nat (popn m p 16)"
      using lane_pair[OF neon_sum_lanes(1)[OF d(2)]] neon_sum_lanes(2)[OF d(2)] d(3) by simp
    obtain k where "k \<le> count - 16" "neon_16 m (bits + of_nat (popn m p 16)) (p + 16) (count - 16) =
        Some (bits + of_nat (popn m p 16) + of_nat (popn m (p + 16) k), p + 16 + k, count - 16 - k)"
      using 1(1)[OF True d(1) refl] 1(2) True s by auto
    then show ?thesis using True d(1) s
      by (subst neon_16.simps) (auto intro!: exI[of _ "16 + k"] simp: popn_add add.assoc Let_def)
  qed (subst neon_16.simps, auto intro!: exI[of _ 0])
qed

lemma neon_64_ok:
  "p + count \<le> length m \<Longrightarrow> \<exists>k \<le> count. neon_64 m bits p count = Some (bits + of_nat (popn m p k), p + k, count - k)"
proof (induction m bits p count rule: neon_64.induct)
  case (1 m bits p count)
  show ?case
  proof (cases "count \<ge> 64")
    case True
    obtain d0 where d0: "rd m p 16 = Some d0" "lanes 16 8 (vcntq_u8 d0)" "lsum (vcntq_u8 d0) = popn m p 16"
      using vcntq_lanes[of p m] 1(2) True by auto
    obtain d1 where d1: "rd m (p + 16) 16 = Some d1" "lanes 16 8 (vcntq_u8 d1)" "lsum (vcntq_u8 d1) = popn m (p + 16) 16"
      using vcntq_lanes[of "p + 16" m] 1(2) True by auto
    obtain d2 where d2: "rd m (p + 32) 16 = Some d2" "lanes 16 8 (vcntq_u8 d2)" "lsum (vcntq_u8 d2) = popn m (p + 32) 16"
      using vcntq_lanes[of "p + 32" m] 1(2) True by auto
    obtain d3 where d3: "rd m (p + 48) 16 = Some d3" "lanes 16 8 (vcntq_u8 d3)" "lsum (vcntq_u8 d3) = popn m (p + 48) 16"
      using vcntq_lanes[of "p + 48" m] 1(2) True by auto
    let ?s = "vaddq (vaddq (neon_sum d0) (neon_sum d1)) (vaddq (neon_sum d2) (neon_sum d3))"
    note n = neon_sum_lanes[OF d0(2)] neon_sum_lanes[OF d1(2)] neon_sum_lanes[OF d2(2)] neon_sum_lanes[OF d3(2)]
    have a: "lanes 2 128 (vaddq (neon_sum d0) (neon_sum d1)) \<and> lsum (vaddq (neon_sum d0) (neon_sum d1)) = popn m p 16 + popn m (p + 16) 16"
      "lanes 2 128 (vaddq (neon_sum d2) (neon_sum d3)) \<and> lsum (vaddq (neon_sum d2) (neon_sum d3)) = popn m (p + 32) 16 + popn m (p + 48) 16"
      using vaddq_lanes[OF n(1,3)] vaddq_lanes[OF n(5,7)] n(2,4,6,8) d0(3) d1(3) d2(3) d3(3) by simp_all
    have f: "lanes 2 256 ?s" "lsum ?s = popn m p 64"
      using vaddq_lanes[OF conjunct1[OF a(1)] conjunct1[OF a(2)]] a popn_16s[of m p 0] by simp_all
    have s: "?s ! 0 + ?s ! 1 = of_nat (popn m p 64)" using lane_pair[OF f(1)] f(2) by simp
    obtain k where "k \<le> count - 64" "neon_64 m (bits + of_nat (popn m p 64)) (p + 64) (count - 64) =
        Some (bits + of_nat (popn m p 64) + of_nat (popn m (p + 64) k), p + 64 + k, count - 64 - k)"
      using 1(1)[OF True d0(1) d1(1) d2(1) d3(1) refl] 1(2) True unfolding s by auto
    then show ?thesis using True d0(1) d1(1) d2(1) d3(1) s
      by (subst neon_64.simps) (auto intro!: exI[of _ "64 + k"] simp: popn_add add.assoc Let_def)
  qed (subst neon_64.simps, auto intro!: exI[of _ 0])
qed

text \<open>Every round of the 128 byte loop adds at most 32 to a lane.\<close>

lemma neon_128_ok:
  assumes "p + count \<le> length m" "lanes 8 B a0" "lanes 8 B a1" "lanes 8 B a2" "lanes 8 B a3" "B + 32 * (count div 128) < 65536"
  shows "\<exists>k b0 b1 b2 b3 B'. k \<le> count \<and> neon_128 m (a0, a1, a2, a3) p count = Some ((b0, b1, b2, b3), p + k, count - k) \<and>
     lanes 8 B' b0 \<and> lanes 8 B' b1 \<and> lanes 8 B' b2 \<and> lanes 8 B' b3 \<and> B' < 65536 \<and>
     lsum b0 + lsum b1 + lsum b2 + lsum b3 = lsum a0 + lsum a1 + lsum a2 + lsum a3 + popn m p k"
  using assms
proof (induction m "(a0, a1, a2, a3)" p count arbitrary: a0 a1 a2 a3 B rule: neon_128.induct)
  case (1 m a0 a1 a2 a3 p count)
  note le = 1(2) and la = 1(3,4,5,6) and B = 1(7)
  show ?case
  proof (cases "count \<ge> 128")
    case True
    have "\<exists>d. rd m (p + j) 16 = Some d \<and> lanes 16 8 (vcntq_u8 d) \<and> lsum (vcntq_u8 d) = popn m (p + j) 16" if "j \<le> 112" for j
      using vcntq_lanes[of "p + j" m] le True that by auto
    note ex = this[of 0] this[of 16] this[of 32] this[of 48] this[of 64] this[of 80] this[of 96] this[of 112]
    obtain d0 d1 d2 d3 d4 d5 d6 d7 where
      d: "rd m p 16 = Some d0" "rd m (p + 16) 16 = Some d1" "rd m (p + 32) 16 = Some d2" "rd m (p + 48) 16 = Some d3"
        "rd m (p + 64) 16 = Some d4" "rd m (p + 80) 16 = Some d5" "rd m (p + 96) 16 = Some d6" "rd m (p + 112) 16 = Some d7"
      and dl: "lanes 16 8 (vcntq_u8 d0)" "lanes 16 8 (vcntq_u8 d1)" "lanes 16 8 (vcntq_u8 d2)" "lanes 16 8 (vcntq_u8 d3)"
        "lanes 16 8 (vcntq_u8 d4)" "lanes 16 8 (vcntq_u8 d5)" "lanes 16 8 (vcntq_u8 d6)" "lanes 16 8 (vcntq_u8 d7)"
      and ds: "lsum (vcntq_u8 d0) = popn m p 16" "lsum (vcntq_u8 d1) = popn m (p + 16) 16" "lsum (vcntq_u8 d2) = popn m (p + 32) 16"
        "lsum (vcntq_u8 d3) = popn m (p + 48) 16" "lsum (vcntq_u8 d4) = popn m (p + 64) 16" "lsum (vcntq_u8 d5) = popn m (p + 80) 16"
        "lsum (vcntq_u8 d6) = popn m (p + 96) 16" "lsum (vcntq_u8 d7) = popn m (p + 112) 16"
      using ex by auto
    let ?a = "\<lambda>acc x y. vpadalq_u8 (vpadalq_u8 acc (vcntq_u8 x)) (vcntq_u8 y)"
    have dv: "count div 128 = Suc ((count - 128) div 128)" using True by (simp add: div_if)
    have st: "lanes 8 (B + 32) (?a acc x y) \<and> lsum (?a acc x y) = lsum acc + lsum (vcntq_u8 x) + lsum (vcntq_u8 y)"
      if "lanes 8 B acc" "lanes 16 8 (vcntq_u8 x)" "lanes 16 8 (vcntq_u8 y)" for acc x y
    proof -
      have b: "B + 16 < 65536" "B + 16 + 16 < 65536" using B dv by simp_all
      note v = vpadalq_lanes[OF that(1,2) b(1)]
      show ?thesis using vpadalq_lanes[OF v(1) that(3) b(2)] v(2) by (simp add: add.commute)
    qed
    note s0 = st[OF la(1) dl(1,5)] and s1 = st[OF la(2) dl(2,6)] and s2 = st[OF la(3) dl(3,7)] and s3 = st[OF la(4) dl(4,8)]
    have ih: "p + 128 + (count - 128) \<le> length m" "B + 32 + 32 * ((count - 128) div 128) < 65536" using le True B dv by simp_all
    have pn: "popn m p (128 + k) = popn m p 16 + popn m (p + 16) 16 + popn m (p + 32) 16 + popn m (p + 48) 16 +
      (popn m (p + 64) 16 + popn m (p + 80) 16 + popn m (p + 96) 16 + popn m (p + 112) 16 + popn m (p + 128) k)" for k
      using popn_16s[of m p "64 + k"] popn_16s[of m "p + 64" k] by (simp add: add.commute[of p])
    obtain k b0 b1 b2 b3 B' where k: "k \<le> count - 128"
      "neon_128 m (?a a0 d0 d4, ?a a1 d1 d5, ?a a2 d2 d6, ?a a3 d3 d7) (p + 128) (count - 128) = Some ((b0, b1, b2, b3), p + 128 + k, count - 128 - k)"
      "lanes 8 B' b0" "lanes 8 B' b1" "lanes 8 B' b2" "lanes 8 B' b3" "B' < 65536"
      "lsum b0 + lsum b1 + lsum b2 + lsum b3 = lsum (?a a0 d0 d4) + lsum (?a a1 d1 d5) + lsum (?a a2 d2 d6) + lsum (?a a3 d3 d7) + popn m (p + 128) k"
      using 1(1)[OF True d ih(1) conjunct1[OF s0] conjunct1[OF s1] conjunct1[OF s2] conjunct1[OF s3] ih(2)] by blast
    have "neon_128 m (a0, a1, a2, a3) p count = Some ((b0, b1, b2, b3), p + (128 + k), count - (128 + k))"
      by (subst neon_128.simps) (use True d k(2) in \<open>simp add: add.assoc\<close>)
    moreover have "lsum b0 + lsum b1 + lsum b2 + lsum b3 = lsum a0 + lsum a1 + lsum a2 + lsum a3 + popn m p (128 + k)"
      using k(8) s0 s1 s2 s3 unfolding pn ds by simp
    moreover have "128 + k \<le> count" using k(1) True by simp
    ultimately show ?thesis using k(3-7) by blast
  next
    case False
    have "neon_128 m (a0, a1, a2, a3) p count = Some ((a0, a1, a2, a3), p + 0, count - 0)"
      by (subst neon_128.simps) (use False in simp)
    then show ?thesis using la B by (intro exI[of _ 0] exI[of _ a0] exI[of _ a1] exI[of _ a2] exI[of _ a3] exI[of _ B]) simp
  qed
qed

lemma redisPopCountAarch64_popn:
  assumes "p + count \<le> length m" "count < 262144"
  shows "redisPopCountAarch64 addr m p count = Some (of_nat (popn m p count))"
proof -
  obtain k where k: "k \<le> count" "popcount_align addr 15 m 0 p count = Some (of_nat (popn m p k), p + k, count - k)"
    using popcount_align_ok[OF assms(1), of addr 15 0] by auto
  define q n where "q = p + k" and "n = count - k"
  have le: "q + n \<le> length m" "n < 262144" using assms k(1) by (simp_all add: q_def n_def)
  have z: "lanes 8 0 (replicate 8 0 :: u16x8)" "lsum (replicate 8 0 :: u16x8) = 0" by (simp_all add: lanes_def lsum_def sum_list_replicate)
  have "0 + 32 * (n div 128) < 65536" using le(2) by (simp add: div_less_iff_less_mult)
  from neon_128_ok[OF le(1) z(1) z(1) z(1) z(1) this] obtain j b0 b1 b2 b3 B' where j: "j \<le> n"
    "neon_128 m (replicate 8 0, replicate 8 0, replicate 8 0, replicate 8 0) q n = Some ((b0, b1, b2, b3), q + j, n - j)"
    "lanes 8 B' b0" "lanes 8 B' b1" "lanes 8 B' b2" "lanes 8 B' b3" "B' < 65536" "lsum b0 + lsum b1 + lsum b2 + lsum b3 = popn m q j"
    using z(2) by auto
  have r: "neon_reduce (b0, b1, b2, b3) = of_nat (popn m q j)" using neon_reduce_sum[OF j(3-7)] j(8) by simp
  obtain i where i: "i \<le> n - j" "\<And>b. neon_64 m (of_nat (popn m p k) + of_nat (popn m q j)) (q + j) (n - j) =
      Some (of_nat (popn m p k) + of_nat (popn m q j) + of_nat (popn m (q + j) i), q + j + i, n - j - i)"
    using neon_64_ok[of "q + j" "n - j" m "of_nat (popn m p k) + of_nat (popn m q j)"] le j(1) by auto
  let ?b = "of_nat (popn m p k) + of_nat (popn m q j) + of_nat (popn m (q + j) i) :: u64"
  obtain h where h: "h \<le> n - j - i" "neon_16 m ?b (q + j + i) (n - j - i) =
      Some (?b + of_nat (popn m (q + j + i) h), q + j + i + h, n - j - i - h)"
    using neon_16_ok[of "q + j + i" "n - j - i" m ?b] le j(1) i(1) by auto
  have t: "popcount_tail m b (q + j + i + h) (n - j - i - h) = Some (b + of_nat (popn m (q + j + i + h) (n - j - i - h)))" for b
    using le j(1) i(1) h(1) by (intro popcount_tail_ok) simp
  have "popn m p count = popn m p k + (popn m q j + (popn m (q + j) i + (popn m (q + j + i) h + popn m (q + j + i + h) (n - j - i - h))))"
    using popn_split[OF k(1), of m p] popn_split[OF j(1), of m q] popn_split[OF i(1), of m "q + j"] popn_split[OF h(1), of m "q + j + i"]
    by (simp add: q_def n_def)
  then show ?thesis
    using k(2) j(2) i h t r unfolding redisPopCountAarch64_def q_def[symmetric] n_def[symmetric]
    by (simp add: Let_def q_def[symmetric] n_def[symmetric])
qed


text \<open>The lanes of the accumulators have 16 bits and are emptied only after the loop: on a run of
  2048 blocks of ones every lane wraps to zero, and the routine reports no bit at all.\<close>

lemma neon_128_ones:
  "p + 128 * k \<le> N \<Longrightarrow> neon_128 (replicate N 255) (replicate 8 a, replicate 8 a, replicate 8 a, replicate 8 a) p (128 * k)
     = Some ((replicate 8 (a + of_nat (32 * k)), replicate 8 (a + of_nat (32 * k)), replicate 8 (a + of_nat (32 * k)),
        replicate 8 (a + of_nat (32 * k))), p + 128 * k, 0)"
proof (induction k arbitrary: a p)
  case 0
  show ?case by (subst neon_128.simps) simp
next
  case (Suc k)
  have r: "rd (replicate N 255) q 16 = Some (replicate 16 (255 :: byte))" if "q + 16 \<le> N" for q
    using that by (simp add: rd_def min_def)
  have c: "vcntq_u8 (replicate 16 255) = replicate 16 8" by code_simp
  have r8: "replicate 8 x = [x, x, x, x, x, x, x, x]" for x :: "'x" by (simp add: numeral_eq_Suc)
  have r16: "replicate 16 x = [x, x, x, x, x, x, x, x, x, x, x, x, x, x, x, x]" for x :: "'x" by (simp add: numeral_eq_Suc)
  have pa: "vpadalq_u8 (replicate 8 x) (replicate 16 8) = replicate 8 (x + 16)" for x
    unfolding r16 r8 by (simp add: vpadalq_u8_def vaddq_def vpaddlq_u8_def)
  have "neon_128 (replicate N 255) (replicate 8 a, replicate 8 a, replicate 8 a, replicate 8 a) p (128 * Suc k)
    = neon_128 (replicate N 255) (replicate 8 (a + 32), replicate 8 (a + 32), replicate 8 (a + 32), replicate 8 (a + 32)) (p + 128) (128 * k)"
    by (subst neon_128.simps) (use Suc.prems in \<open>simp add: r c pa add.assoc\<close>)
  also have "\<dots> = Some ((replicate 8 (a + 32 + of_nat (32 * k)), replicate 8 (a + 32 + of_nat (32 * k)), replicate 8 (a + 32 + of_nat (32 * k)),
        replicate 8 (a + 32 + of_nat (32 * k))), p + 128 + 128 * k, 0)"
    by (rule Suc.IH) (use Suc.prems in simp)
  finally show ?case by (simp add: algebra_simps)
qed

lemma redisPopCountAarch64_wraps: "redisPopCountAarch64 0 (replicate 262144 255) 0 262144 = Some 0"
proof -
  have al: "popcount_align 0 15 (replicate N 255) 0 0 N = Some (0, 0, N)" for N
    by (cases N) simp_all
  have l: "neon_128 (replicate 262144 255) (replicate 8 0, replicate 8 0, replicate 8 0, replicate 8 0) 0 262144
      = Some ((replicate 8 0, replicate 8 0, replicate 8 0, replicate 8 0), 262144, 0)"
    using neon_128_ones[of 0 2048 262144 0] by simp
  have z: "neon_reduce (replicate 8 0, replicate 8 0, replicate 8 0, replicate 8 0) = 0" by code_simp
  show ?thesis unfolding redisPopCountAarch64_def Let_def al bind.simps prod.case l z
    by (subst neon_64.simps, simp, subst neon_16.simps, simp)
qed

section \<open>The position of the first bit\<close>

definition skipb :: "int \<Rightarrow> byte" where "skipb bt = (if bt \<noteq> 0 then 0 else 255)"
definition skipw :: "int \<Rightarrow> u64" where "skipw bt = (if bt \<noteq> 0 then 0 else NOT 0)"

text \<open>\<^term>\<open>hit m s bt i\<close>: the \<open>i\<close>-th bit from byte \<open>s\<close> on has the wanted value.\<close>

definition hit :: "mem \<Rightarrow> nat \<Rightarrow> int \<Rightarrow> nat \<Rightarrow> bool" where
  "hit m s bt i = (mbit m (8 * s + i) = (bt = 1))"

lemma skipb_iff: "bt = 0 \<or> bt = 1 \<Longrightarrow> (b = skipb bt) = (\<forall>j<8. bit b j \<noteq> (bt = 1))"
proof -
  assume "bt = 0 \<or> bt = 1"
  moreover have "bit (255 :: byte) j" if "j < 8" for j
  proof -
    have "(255 :: byte) = - 1" by simp
    then show ?thesis using that by (simp only:) simp
  qed
  ultimately show ?thesis unfolding skipb_def by (auto intro: bit_word_eqI)
qed

lemma skipw_iff: "bt = 0 \<or> bt = 1 \<Longrightarrow> (w = skipw bt) = (\<forall>j<64. bit w j \<noteq> (bt = 1))"
  unfolding skipw_def by (auto intro: bit_word_eqI simp: bit_not_iff)

lemma hit_byte: "j < 8 \<Longrightarrow> hit m s bt (8 * k + j) = (bit (m ! (s + k)) (7 - j) = (bt = 1))"
proof -
  assume "j < 8"
  then have "(8 * s + (8 * k + j)) div 8 = s + k" "(8 * s + (8 * k + j)) mod 8 = j" by auto
  then show ?thesis by (simp add: hit_def mbit_def)
qed

lemma hit_shift: "hit m (s + k) bt i = hit m s bt (8 * k + i)"
  by (simp add: hit_def algebra_simps)

lemma skipb_hit: "bt = 0 \<or> bt = 1 \<Longrightarrow> (m ! s = skipb bt) = (\<forall>i<8. \<not> hit m s bt i)"
proof -
  assume bt: "bt = 0 \<or> bt = 1"
  have "(\<forall>j<8. bit (m ! s) j \<noteq> (bt = 1)) = (\<forall>j<8. bit (m ! s) (7 - j) \<noteq> (bt = 1))"
  proof (intro iffI allI impI)
    fix j :: nat assume h: "\<forall>j<8. bit (m ! s) (7 - j) \<noteq> (bt = 1)" "j < 8"
    then have "7 - j < 8" "7 - (7 - j) = j" by auto
    then show "bit (m ! s) j \<noteq> (bt = 1)" using h(1) by metis
  qed auto
  then show ?thesis using skipb_iff[OF bt, of "m ! s"] hit_byte[of _ m s bt 0] by auto
qed

lemma rd64_bit:
  assumes "p + 8 \<le> length m"
  shows "\<exists>w. rd64 m p = Some w \<and> (\<forall>k<8. \<forall>j<8. bit w (8 * k + j) = bit (m ! (p + k)) j)"
proof -
  have "bit (word_of_int (le_int (take 8 (drop p m))) :: u64) (8 * k + j) = bit (m ! (p + k)) j" if "k < 8" "j < 8" for k j
  proof -
    have d: "(8 * k + j) div 8 = k" "(8 * k + j) mod 8 = j" using that by auto
    show ?thesis using that assms by (simp add: bit_word_of_int_iff bit_le_int d)
  qed
  then show ?thesis using assms by (simp add: rd64_def rd_def)
qed

lemma all_64: "(\<forall>i<64. P i) = (\<forall>k<8. \<forall>j<8. P (8 * k + j :: nat))"
proof safe
  fix i :: nat assume h: "\<forall>k<8. \<forall>j<8. P (8 * k + j)" "i < 64"
  then have "i div 8 < 8" "i mod 8 < 8" by auto
  then have "P (8 * (i div 8) + i mod 8)" using h by blast
  then show "P i" by simp
qed auto

lemma rd64_skip:
  assumes "p + 8 \<le> length m" "bt = 0 \<or> bt = 1"
  shows "\<exists>w. rd64 m p = Some w \<and> (w = skipw bt) = (\<forall>i<64. \<not> hit m p bt i)"
proof -
  obtain w where w: "rd64 m p = Some w" "\<forall>k<8. \<forall>j<8. bit w (8 * k + j) = bit (m ! (p + k)) j"
    using rd64_bit[OF assms(1)] by blast
  have "(w = skipw bt) = (\<forall>k<8. \<forall>j<8. bit w (8 * k + j) \<noteq> (bt = 1))"
    unfolding skipw_iff[OF assms(2)] all_64 ..
  also have "\<dots> = (\<forall>k<8. m ! (p + k) = skipb bt)"
    using w(2) unfolding skipb_iff[OF assms(2)] by auto
  also have "\<dots> = (\<forall>k<8. \<forall>j<8. \<not> hit m p bt (8 * k + j))"
    unfolding skipb_hit[OF assms(2)] hit_shift ..
  also have "\<dots> = (\<forall>i<64. \<not> hit m p bt i)" by (rule all_64[symmetric])
  finally show ?thesis using w(1) by blast
qed

lemma less_add_cases: "(\<forall>i < a + b. P i) = ((\<forall>i<a. P i) \<and> (\<forall>i<b. P (a + i :: nat)))"
  by (metis add_diff_inverse_nat nat_add_left_cancel_less trans_less_add1)

lemma bitpos_align_ok:
  assumes "c + count \<le> length m" "bt = 0 \<or> bt = 1"
  shows "\<exists>k f. k \<le> count \<and> bitpos_align addr m (skipb bt) c count pos = Some (f, c + k, count - k, pos + 8 * int k) \<and>
    (\<forall>i < 8 * k. \<not> hit m c bt i) \<and> (f \<longrightarrow> k < count \<and> (\<exists>i<8. hit m (c + k) bt i))"
  using assms(1)
proof (induction count arbitrary: c pos)
  case (Suc n)
  show ?case
  proof (cases "(addr + c) AND 7 \<noteq> 0 \<and> m ! c = skipb bt")
    case True
    have lt: "c < length m" using Suc.prems by simp
    from Suc.IH[of "c + 1" "pos + 8"] Suc.prems obtain k f where k: "k \<le> n"
      "bitpos_align addr m (skipb bt) (c + 1) n (pos + 8) = Some (f, c + 1 + k, n - k, pos + 8 + 8 * int k)"
      "\<forall>i < 8 * k. \<not> hit m (c + 1) bt i" "f \<longrightarrow> k < n \<and> (\<exists>i<8. hit m (c + 1 + k) bt i)" by auto
    have "\<forall>i<8. \<not> hit m c bt i" using True skipb_hit[OF assms(2)] by simp
    then have "\<forall>i < 8 * Suc k. \<not> hit m c bt i"
      using k(3) less_add_cases[of 8 "8 * k" "\<lambda>i. \<not> hit m c bt i"] hit_shift[of m c 1 bt] by simp
    then show ?thesis using True k lt by (intro exI[of _ "Suc k"] exI[of _ f]) (simp add: algebra_simps)
  next
    case False
    then show ?thesis using Suc.prems skipb_hit[OF assms(2), of m c]
      by (intro exI[of _ 0] exI[of _ "(addr + c) AND 7 \<noteq> 0"]) auto
  qed
qed (auto intro!: exI[of _ 0])

lemma bitpos_words_ok:
  assumes "l + count \<le> length m" "bt = 0 \<or> bt = 1"
  shows "\<exists>k. k \<le> count \<and> bitpos_words m (skipw bt) l count pos = Some (l + k, count - k, pos + 8 * int k) \<and>
    (\<forall>i < 8 * k. \<not> hit m l bt i) \<and> (count - k < 8 \<or> (\<exists>i<64. hit m (l + k) bt i))"
  using assms(1)
proof (induction count arbitrary: l pos rule: less_induct)
  case (less n)
  show ?case
  proof (cases "n \<ge> 8")
    case True
    then have "l + 8 \<le> length m" using less.prems by simp
    from rd64_skip[OF this assms(2)] obtain w where w: "rd64 m l = Some w" "(w = skipw bt) = (\<forall>i<64. \<not> hit m l bt i)" by blast
    show ?thesis
    proof (cases "w = skipw bt")
      case sk: True
      from less.IH[of "n - 8" "l + 8" "pos + 64"] less.prems True obtain k where k: "k \<le> n - 8"
        "bitpos_words m (skipw bt) (l + 8) (n - 8) (pos + 64) = Some (l + 8 + k, n - 8 - k, pos + 64 + 8 * int k)"
        "\<forall>i < 8 * k. \<not> hit m (l + 8) bt i" "n - 8 - k < 8 \<or> (\<exists>i<64. hit m (l + 8 + k) bt i)" by auto
      have "\<forall>i < 64 + 8 * k. \<not> hit m l bt i"
        using k(3) sk w(2) hit_shift[of m l 8 bt] unfolding less_add_cases by simp
      then show ?thesis using True sk w k
        by (intro exI[of _ "8 + k"], subst bitpos_words.simps) (simp add: algebra_simps)
    next
      case False
      then show ?thesis using True w less.prems by (intro exI[of _ 0], subst bitpos_words.simps) auto
    qed
  qed (intro exI[of _ 0], subst bitpos_words.simps, simp)
qed

lemma bitpos_load_ok:
  assumes "c + count \<le> length m" "j \<le> 8"
  shows "\<exists>w. bitpos_load m j c count word = Some w \<and>
    (\<forall>i<8 * j. bit w (8 * j - 1 - i) = (i < 8 * count \<and> hit m c 1 i)) \<and>
    (\<forall>i. 8 * j \<le> i \<and> i < 64 \<longrightarrow> bit w i = bit word (i - 8 * j))"
  using assms
proof (induction j arbitrary: c count word)
  case (Suc j)
  have ex: "\<exists>w. bitpos_load m j c' count' word' = Some w \<and>
      (\<forall>i<8 * j. bit w (8 * j - 1 - i) = (i < 8 * count' \<and> hit m c' 1 i)) \<and>
      (\<forall>i. 8 * j \<le> i \<and> i < 64 \<longrightarrow> bit w i = bit word' (i - 8 * j))" if "c' + count' \<le> length m" for c' count' word'
    using Suc that by simp
  have step: "bit w (8 * Suc j - 1 - i) = (i < 8 * count \<and> hit m c 1 i)"
    if i: "i < 8 * Suc j" and w: "\<forall>i<8 * j. bit w (8 * j - 1 - i) = (i < 8 * (count - 1) \<and> hit m (c + 1) 1 i)"
      "\<forall>i. 8 * j \<le> i \<and> i < 64 \<longrightarrow> bit w i = bit word' (i - 8 * j)"
      "\<forall>i<8. bit word' (7 - i) = (count \<noteq> 0 \<and> hit m c 1 i)" for w word' i
  proof (cases "i < 8")
    case True
    then have e: "8 * Suc j - 1 - i = 8 * j + (7 - i)" by simp
    have "bit w (8 * j + (7 - i)) = bit word' (7 - i)"
      using w(2)[rule_format, of "8 * j + (7 - i)"] Suc.prems(2) True by (simp del: add_diff_assoc)
    then show ?thesis unfolding e using w(3) True by auto
  next
    case False
    then have "8 * Suc j - 1 - i = 8 * j - 1 - (i - 8)" by simp
    moreover have "hit m (c + 1) 1 (i - 8) = hit m c 1 i" using hit_shift[of m c 1 1 "i - 8"] False by simp
    ultimately show ?thesis using w(1)[rule_format, of "i - 8"] i False by auto
  qed
  show ?case
  proof (cases "count = 0")
    case True
    from ex[of c 0 "push_bit 8 word"] Suc.prems obtain w where w: "bitpos_load m j c 0 (push_bit 8 word) = Some w"
      "\<forall>i<8 * j. \<not> bit w (8 * j - 1 - i)" "\<forall>i. 8 * j \<le> i \<and> i < 64 \<longrightarrow> bit w i = bit (push_bit 8 word) (i - 8 * j)" by auto
    have p: "\<forall>i<8. bit (push_bit 8 word) (7 - i) = (count \<noteq> 0 \<and> hit m c 1 i)" using True by (auto simp: bit_push_bit_iff)
    have "bit (push_bit 8 word) (i - 8 * j) = bit word (i - 8 * Suc j)" if "8 * Suc j \<le> i" "i < 64" for i
      using that by (auto simp: bit_push_bit_iff algebra_simps)
    moreover have "\<forall>i<8 * Suc j. bit w (8 * Suc j - 1 - i) = (i < 8 * count \<and> hit m c 1 i)"
      using step[OF _ _ w(3) p] w(2) True by simp
    ultimately show ?thesis using True w by (intro exI[of _ w]) auto
  next
    case False
    let ?w = "push_bit 8 word OR ucast (m ! c)"
    from ex[of "c + 1" "count - 1" ?w] Suc.prems False obtain w where w: "bitpos_load m j (c + 1) (count - 1) ?w = Some w"
      "\<forall>i<8 * j. bit w (8 * j - 1 - i) = (i < 8 * (count - 1) \<and> hit m (c + 1) 1 i)"
      "\<forall>i. 8 * j \<le> i \<and> i < 64 \<longrightarrow> bit w i = bit ?w (i - 8 * j)" by auto
    have p: "\<forall>i<8. bit ?w (7 - i) = (count \<noteq> 0 \<and> hit m c 1 i)"
      using False hit_byte[of _ m c 1 0] by (auto simp: bit_or_iff bit_push_bit_iff bit_ucast_iff)
    have "bit ?w (i - 8 * j) = bit word (i - 8 * Suc j)" if "8 * Suc j \<le> i" "i < 64" for i
      using that by (auto simp: bit_or_iff bit_push_bit_iff bit_ucast_iff algebra_simps dest: bit_imp_le_length)
    moreover have "\<forall>i<8 * Suc j. bit w (8 * Suc j - 1 - i) = (i < 8 * count \<and> hit m c 1 i)"
      using step[OF _ w(2,3) p] by blast
    ultimately show ?thesis using False w Suc.prems by (intro exI[of _ w]) auto
  qed
qed simp


lemma bitpos_scan_ok:
  assumes "i + d < 64" "bit word (63 - (i + d)) = (bt = 1)" "\<forall>e<d. bit word (63 - (i + e)) \<noteq> (bt = 1)" "bt = 0 \<or> bt = 1"
  shows "bitpos_scan word bt (push_bit (63 - i) 1) pos = Some (pos + int d)"
  using assms(1-3)
proof (induction d arbitrary: i pos)
  case 0
  have "push_bit (63 - i) (1::u64) \<noteq> 0" by (simp add: push_bit_eq_mult)
  moreover have "(push_bit (63 - i) 1 AND word \<noteq> 0) = bit word (63 - i)"
    by (simp add: and_exp_eq_0_iff_not_bit push_bit_eq_mult and.commute)
  ultimately show ?case using 0 assms(4) by (subst bitpos_scan.simps) auto
next
  case (Suc d)
  have nz: "push_bit (63 - i) (1::u64) \<noteq> 0" by (simp add: push_bit_eq_mult)
  have b: "(push_bit (63 - i) 1 AND word \<noteq> 0) = bit word (63 - i)"
    by (simp add: and_exp_eq_0_iff_not_bit push_bit_eq_mult and.commute)
  have sh: "drop_bit 1 (push_bit (63 - i) (1::u64)) = push_bit (63 - Suc i) 1"
    using Suc.prems(1) by (intro bit_word_eqI, unfold bit_drop_bit_eq bit_push_bit_iff bit_1_iff) auto
  have "bit word (63 - i) \<noteq> (bt = 1)" using Suc.prems(3) by force
  then have "bitpos_scan word bt (push_bit (63 - i) 1) pos = bitpos_scan word bt (push_bit (63 - Suc i) 1) (pos + 1)"
    using nz b assms(4) by (subst bitpos_scan.simps) (unfold sh, auto)
  also have "\<dots> = Some (pos + 1 + int d)"
  proof (rule Suc.IH)
    show "\<forall>e<d. bit word (63 - (Suc i + e)) \<noteq> (bt = 1)" using Suc.prems(3) by (metis Suc_mono add_Suc_shift)
  qed (use Suc.prems(1,2) in simp_all)
  finally show ?case by simp
qed

lemma bitpos_one: "NOT (drop_bit 1 (NOT 0)) = push_bit 63 (1 :: u64)"
  by (intro bit_word_eqI, unfold bit_drop_bit_eq bit_push_bit_iff bit_1_iff bit_not_iff) auto

lemma least_hit:
  assumes "\<forall>i < 8 * n. \<not> hit m s bt i" "\<forall>i < d. \<not> hit m (s + n) bt i" "hit m (s + n) bt d"
  shows "(LEAST i. hit m s bt i) = 8 * n + d"
proof (rule Least_equality)
  show "hit m s bt (8 * n + d)" using assms(3) by (simp add: hit_shift)
  fix i assume "hit m s bt i"
  moreover have "\<forall>i < 8 * n + d. \<not> hit m s bt i"
    using assms(1,2) unfolding less_add_cases by (simp add: hit_shift)
  ultimately show "8 * n + d \<le> i" using leI by blast
qed

lemma ex_hit:
  assumes "n \<le> count" "\<forall>i < 8 * n. \<not> hit m s bt i"
  shows "(\<exists>i < 8 * count. hit m s bt i) = (\<exists>i < 8 * (count - n). hit m (s + n) bt i)"
proof -
  have "8 * count = 8 * n + 8 * (count - n)" using assms(1) by simp
  then have "(\<forall>i < 8 * count. \<not> hit m s bt i) = (\<forall>i < 8 * (count - n). \<not> hit m (s + n) bt i)"
    using less_add_cases[of "8 * n" "8 * (count - n)" "\<lambda>i. \<not> hit m s bt i"] assms(2) by (simp only: hit_shift) simp
  then show ?thesis by blast
qed

lemma hit_window:
  assumes "t < 8 \<or> (\<exists>i<64. hit m s bt i)"
  obtains d where "d < 64" "d < 8 * t" "hit m s bt d" "\<forall>e<d. \<not> hit m s bt e"
    | "t < 8" "\<forall>i < 8 * t. \<not> hit m s bt i"
proof (cases "\<exists>i<64. i < 8 * t \<and> hit m s bt i")
  case True
  then obtain i where i: "i < 64" "i < 8 * t" "hit m s bt i" by blast
  have "(LEAST i. hit m s bt i) \<le> i" using i(3) by (rule Least_le)
  then have "(LEAST i. hit m s bt i) < 64" "(LEAST i. hit m s bt i) < 8 * t" using i(1,2) by linarith+
  then show ?thesis using that(1) LeastI[of "hit m s bt", OF i(3)] not_less_Least[of _ "hit m s bt"] by blast
next
  case False
  have "t < 8"
  proof (rule ccontr)
    assume "\<not> t < 8"
    moreover from this obtain i where "i < 64" "hit m s bt i" using assms by blast
    ultimately show False using False by auto
  qed
  moreover from this have "\<forall>i < 8 * t. \<not> hit m s bt i" using False by auto
  ultimately show ?thesis using that(2) by blast
qed

definition bitpos_tail :: "u64 \<Rightarrow> int \<Rightarrow> int \<Rightarrow> int option" where
  "bitpos_tail word bt pos = (if bt = 1 \<and> word = 0 then Some (- 1) else bitpos_scan word bt (NOT (drop_bit 1 (NOT 0))) pos)"

lemma bitpos_tail_hit:
  assumes "bt = 0 \<or> bt = 1" "\<And>i. i < 64 \<Longrightarrow> bit w (63 - i) = (i < 8 * t \<and> hit m s 1 i)"
    "d < 64" "d < 8 * t" "hit m s bt d" "\<forall>e<d. \<not> hit m s bt e"
  shows "bitpos_tail w bt pos = Some (pos + int d)"
proof -
  have b: "bit w (63 - e) = (bt = 1) \<longleftrightarrow> hit m s bt e" if "e \<le> d" for e
    using assms(2)[of e] assms(1,3,4) that by (auto simp: hit_def)
  have d: "bit w (63 - (0 + d)) = (bt = 1)" "\<forall>e<d. bit w (63 - (0 + e)) \<noteq> (bt = 1)" using b assms(5,6) by auto
  have "w \<noteq> 0" if "bt = 1"
  proof
    assume "w = 0" then show False using d(1) that by simp
  qed
  then show ?thesis using bitpos_scan_ok[OF _ d assms(1), of pos] assms(3)
    unfolding bitpos_tail_def bitpos_one by auto
qed

lemma bitpos_tail_none:
  assumes "bt = 0 \<or> bt = 1" "\<And>i. i < 64 \<Longrightarrow> bit w (63 - i) = (i < 8 * t \<and> hit m s 1 i)"
    "t < 8" "\<forall>i < 8 * t. \<not> hit m s bt i"
  shows "bitpos_tail w bt pos = Some (if bt = 1 then - 1 else pos + 8 * int t)"
proof (cases "bt = 1")
  case True
  have "w = 0"
  proof (rule bit_word_eqI)
    fix i assume "i < LENGTH(64)"
    then show "bit w i = bit (0 :: u64) i" using assms(2)[of "63 - i"] assms(4) True by simp
  qed
  then show ?thesis using True by (simp add: bitpos_tail_def)
next
  case False
  then have bt: "bt = 0" using assms(1) by simp
  have "bit w (63 - (0 + 8 * t)) = (bt = 1)" "\<forall>e < 8 * t. bit w (63 - (0 + e)) \<noteq> (bt = 1)"
    using assms(2,3,4) bt by (auto simp: hit_def)
  from bitpos_scan_ok[OF _ this assms(1), of pos] show ?thesis
    using assms(3) bt unfolding bitpos_tail_def bitpos_one by simp
qed

lemma bitpos_finish:
  assumes "s + count \<le> length m" "bt = 0 \<or> bt = 1" "n \<le> count" "\<forall>i < 8 * n. \<not> hit m s bt i"
    "count - n < 8 \<or> (\<exists>i<64. hit m (s + n) bt i)"
  shows "Option.bind (bitpos_load m 8 (s + n) (count - n) 0) (\<lambda>word. bitpos_tail word bt (8 * int n)) = Some
    (if \<exists>i < 8 * count. hit m s bt i then int (LEAST i. hit m s bt i)
     else if bt = 1 then - 1 else 8 * int count)"
proof -
  have "s + n + (count - n) \<le> length m" using assms by simp
  from bitpos_load_ok[OF this, of 8 0] obtain w where w: "bitpos_load m 8 (s + n) (count - n) 0 = Some w"
    "\<And>i. i < 64 \<Longrightarrow> bit w (63 - i) = (i < 8 * (count - n) \<and> hit m (s + n) 1 i)" by auto
  from assms(5) show ?thesis
  proof (cases rule: hit_window)
    case (1 d)
    then have "\<exists>i < 8 * count. hit m s bt i" using ex_hit[OF assms(3,4)] by blast
    then show ?thesis using w(1) bitpos_tail_hit[OF assms(2) w(2) 1] least_hit[OF assms(4) 1(4,3)] by simp
  next
    case 2
    then have "\<not> (\<exists>i < 8 * count. hit m s bt i)" using ex_hit[OF assms(3,4)] by blast
    then show ?thesis using w(1) bitpos_tail_none[OF assms(2) w(2) 2] assms(3) by (auto simp: of_nat_diff)
  qed
qed

theorem redisBitpos_correct:
  assumes "s + count \<le> length m" "bt = 0 \<or> bt = 1"
  shows "redisBitpos addr m s count bt = Some
    (if \<exists>i < 8 * count. hit m s bt i then int (LEAST i. hit m s bt i)
     else if bt = 1 then - 1 else 8 * int count)"
proof -
  from bitpos_align_ok[OF assms, of addr 0] obtain k f where k: "k \<le> count"
    "bitpos_align addr m (skipb bt) s count 0 = Some (f, s + k, count - k, 8 * int k)"
    "\<forall>i < 8 * k. \<not> hit m s bt i" "f \<longrightarrow> k < count \<and> (\<exists>i<8. hit m (s + k) bt i)" by auto
  have "s + k + (count - k) \<le> length m" using assms k by simp
  from bitpos_words_ok[OF this assms(2), of "8 * int k"] obtain j where j: "j \<le> count - k"
    "bitpos_words m (skipw bt) (s + k) (count - k) (8 * int k) = Some (s + k + j, count - k - j, 8 * int (k + j))"
    "\<forall>i < 8 * j. \<not> hit m (s + k) bt i" "count - k - j < 8 \<or> (\<exists>i<64. hit m (s + k + j) bt i)" by auto
  note e = redisBitpos_def bitpos_tail_def[symmetric] k(2)[unfolded skipb_def] j(2)[unfolded skipw_def]
  show ?thesis
  proof (cases f)
    case True
    have "count - k < 8 \<or> (\<exists>i<64. hit m (s + k) bt i)" using k(4) True by force
    from bitpos_finish[OF assms k(1,3) this] show ?thesis using True
      by (simp only: e bind.bind_lunit case_prod_conv not_True_eq_False if_False)
  next
    case False
    have "\<forall>i < 8 * (k + j). \<not> hit m s bt i"
      using k(3) j(3) less_add_cases[of "8 * k" "8 * j" "\<lambda>i. \<not> hit m s bt i"] hit_shift[of m s k bt] by (simp add: add_mult_distrib2)
    moreover have "k + j \<le> count" "count - (k + j) < 8 \<or> (\<exists>i<64. hit m (s + (k + j)) bt i)" using j(1,4) k(1) by (auto simp: add.assoc)
    ultimately show ?thesis using bitpos_finish[OF assms, of "k + j"] False
      by (simp only: e add.assoc bind.bind_lunit case_prod_conv not_False_eq_True if_True diff_diff_left)
  qed
qed

section \<open>Properties\<close>

text \<open>For a field inside the string, \<open>setUnsignedBitfield\<close> stays in bounds and keeps the length,
  \<open>getUnsignedBitfield\<close> then reads the value back reduced to the width of the field, and every bit
  outside the field is unchanged.\<close>
theorem bitfield_unsigned_roundtrip:
  assumes "unat off + unat bits \<le> 8 * length m" "8 * length m < 2 ^ 64" "unat bits \<le> 64"
  shows "\<exists>m'. setUnsignedBitfield m off bits v = Some m' \<and> length m' = length m \<and>
    getUnsignedBitfield m' off bits = Some (take_bit (unat bits) v) \<and>
    (\<forall>i < 8 * length m. i < unat off \<or> unat off + unat bits \<le> i \<longrightarrow> mbit m' i = mbit m i)"
  using assms by (rule set_get_unsigned)

theorem bitfield_unsigned_roundtrip_witness:
  "\<exists>m'. setUnsignedBitfield [0, 0xff, 0] 5 6 0x2a = Some m' \<and> length m' = 3 \<and>
    getUnsignedBitfield m' 5 6 = Some 0x2a"
  using bitfield_unsigned_roundtrip[of 5 6 "[0, 0xff, 0]" "0x2a"] by (auto simp: take_bit_eq_mod)

text \<open>C22: A value stored with \<open>setSignedBitfield\<close> is read back by \<open>getSignedBitfield\<close> as its low
  \<open>bits\<close> bits in two's complement; in particular a value that fits the field is read back unchanged.\<close>
theorem bitfield_signed_roundtrip:
  assumes "unat off + unat bits \<le> 8 * length m" "8 * length m < 2 ^ 64" "0 < unat bits" "unat bits \<le> 64"
  shows "\<exists>m'. setSignedBitfield m off bits v = Some m' \<and>
    getSignedBitfield m' off bits = Some (signed_take_bit (unat bits - 1) v) \<and>
    (- (2 ^ (unat bits - 1)) \<le> sint v \<and> sint v < 2 ^ (unat bits - 1) \<longrightarrow> getSignedBitfield m' off bits = Some v)"
proof -
  obtain m' where m': "setUnsignedBitfield m off bits v = Some m'"
    "getUnsignedBitfield m' off bits = Some (take_bit (unat bits) v)"
    using set_get_unsigned[OF assms(1,2,4), of v] by blast
  moreover note getSigned_eq[OF m'(2) assms(3,4)]
  moreover have "signed_take_bit (unat bits - 1) v = v"
    if "- (2 ^ (unat bits - 1)) \<le> sint v" "sint v < 2 ^ (unat bits - 1)"
    using that assms(3,4) by (intro signed_take_bit_word_self) auto
  ultimately show ?thesis by (auto simp: setSignedBitfield_def)
qed

theorem bitfield_signed_roundtrip_witness:
  "\<exists>m'. setSignedBitfield [0, 0] 3 5 (- 7) = Some m' \<and> getSignedBitfield m' 3 5 = Some (- 7)"
  using bitfield_signed_roundtrip[of 3 5 "[0, 0]" "- 7"] by auto

text \<open>\<open>checkUnsignedBitfieldOverflow\<close> on a value that fits an unsigned field of at most 63 bits:
  0 exactly when the exact sum fits; otherwise the wrapped sum, the nearest bound, or no value, according
  to the overflow mode.\<close>
theorem bitfield_unsigned_overflow:
  assumes "0 < unat bits" "unat bits \<le> 63" "uint value < 2 ^ unat bits"
  shows "checkUnsignedBitfieldOverflow value incr bits ow True =
    (let s = uint value + sint incr in
     if 0 \<le> s \<and> s < 2 ^ unat bits then (0, None)
     else case ow of
       BFOVERFLOW_WRAP \<Rightarrow> (1, Some (word_of_int (s mod 2 ^ unat bits)))
     | BFOVERFLOW_SAT \<Rightarrow> if s < 0 then (- 1, Some 0) else (1, Some (word_of_int (2 ^ unat bits - 1)))
     | BFOVERFLOW_FAIL \<Rightarrow> (if s < 0 then - 1 else 1, None))"
  using assms by (rule checkUnsigned_spec)

theorem bitfield_unsigned_overflow_witness:
  "checkUnsignedBitfieldOverflow 250 10 8 BFOVERFLOW_WRAP True = (1, Some 4) \<and>
   checkUnsignedBitfieldOverflow 250 10 8 BFOVERFLOW_SAT True = (1, Some 255)"
  using bitfield_unsigned_overflow[of 8 250 10 BFOVERFLOW_WRAP]
    bitfield_unsigned_overflow[of 8 250 10 BFOVERFLOW_SAT] by (simp add: Let_def)



text \<open>C11: The population count routines return the number of set bits of the range, whatever the alignment of the
  buffer, and read no byte outside it: the portable routine with and without the \<open>popcnt\<close> instruction, the AVX2 and
  the AVX-512 routine for any length, the AArch64 routine for less than 256 KB (beyond, its 16 bit lanes can wrap), and
  \<open>redisPopcountAuto\<close> for every processor, with the same bound where it runs the AArch64 routine.\<close>
theorem popcount_counts_bits:
  assumes "p + count \<le> length m"
  shows "redisPopcount use_popcnt addr m p count = Some (of_nat (set_bits m p count)) \<and>
    redisPopCountAvx2 addr m p count = Some (of_nat (set_bits m p count)) \<and>
    redisPopCountAvx512 addr m p count = Some (of_nat (set_bits m p count)) \<and>
    (count < 262144 \<longrightarrow> redisPopCountAarch64 addr m p count = Some (of_nat (set_bits m p count))) \<and>
    (use_avx512 c \<or> use_avx2 c \<or> \<not> have_neon c \<or> count < 262144 \<longrightarrow> redisPopcountAuto c addr m p count = Some (of_nat (set_bits m p count)))"
  unfolding set_bits_def popn_mbit[OF assms(1), symmetric] redisPopcountAuto_def
  using redisPopcount_popn[OF assms(1)] redisPopCountAvx2_popn[OF assms(1)] redisPopCountAvx512_popn[OF assms(1)]
    redisPopCountAarch64_popn[OF assms(1)] by simp

theorem popcount_counts_bits_witness:
  "redisPopcount False 1 [1, 3, 255, 0] 1 3 = Some 10 \<and> redisPopCountAvx2 1 [1, 3, 255, 0] 1 3 = Some 10 \<and>
   redisPopCountAvx512 1 [1, 3, 255, 0] 1 3 = Some 10 \<and> redisPopCountAarch64 1 [1, 3, 255, 0] 1 3 = Some 10 \<and>
   redisPopcountAuto \<lparr>cpu_popcnt = False, use_avx2 = False, use_avx512 = False, have_neon = True\<rparr> 1 [1, 3, 255, 0] 1 3 = Some 10"
proof -
  have n: "set_bits [1, 3, 255, 0] 1 3 = 10" by code_simp
  show ?thesis using popcount_counts_bits[of 1 3 "[1, 3, 255, 0]" False 1
      "\<lparr>cpu_popcnt = False, use_avx2 = False, use_avx512 = False, have_neon = True\<rparr>"] unfolding n by simp
qed

text \<open>C21: \<open>redisBitpos\<close> stays inside the range and returns the index of its first bit with the wanted
  value; when there is none it returns -1 for a search of 1 and the length in bits for a search of 0.\<close>
theorem bitpos_first_bit:
  assumes "s + count \<le> length m" "bt = 0 \<or> bt = 1"
  shows "redisBitpos addr m s count bt = Some
    (if \<exists>i < 8 * count. mbit m (8 * s + i) = (bt = 1) then int (LEAST i. mbit m (8 * s + i) = (bt = 1))
     else if bt = 1 then - 1 else 8 * int count)"
  using redisBitpos_correct[OF assms, of addr] unfolding hit_def .

theorem bitpos_first_bit_witness: "redisBitpos 3 [255, 255] 0 2 0 = Some 16"
proof -
  have "\<forall>i \<in> set [0..<16]. mbit [255, 255] i" by code_simp
  then have "\<not> (\<exists>i < 8 * 2. mbit [255, 255] (8 * 0 + i) = (0 = (1::int)))" by simp
  then show ?thesis using bitpos_first_bit[of 0 2 "[255, 255]" 0 3] by auto
qed

end
