(* ===== verification/Skiplist.thy ===== *)
theory Skiplist
  imports Prelude "HOL-Library.List_Lexorder" "HOL-Library.Product_Lexorder"
begin

text \<open>
  The ranked skip list (\<open>luaclib-src/zset/skiplist.c\<close>, \<open>skiplist.h\<close>).

  Nodes live in a heap from addresses to records; a pointer is an optional address and \<open>free\<close> takes
  the address out of the heap, so a dangling access is \<^term>\<open>None\<close>.  An object is the string of its
  bytes.  Scores are an ordered type: the code only compares them (NaN is outside the model).  Spans and
  the ranks of \<open>slInsert\<close> are 32 bit words, lengths and the other ranks 64 bit words.  \<open>random()\<close> is a
  stream of integers with a cursor, \<open>malloc\<close> hands in a fresh address and indeterminate contents, and
  the callback of \<open>slDeleteByRank\<close> is the list of the objects it was called with.
\<close>

section \<open>Data\<close>

type_synonym addr = nat

record 's skiplistNode =
  n_obj :: "mem option"
  n_score :: 's
  n_backward :: "addr option"
  n_level :: "(addr option \<times> u32) list"

record skiplist =
  header :: addr
  tail :: "addr option"
  slength :: u64
  slevel :: nat

type_synonym 's slheap = "addr \<rightharpoonup> 's skiplistNode"
type_synonym updates = "nat \<rightharpoonup> addr"
type_synonym ranks = "nat \<rightharpoonup> u32"

definition SKIPLIST_MAXLEVEL :: nat where "SKIPLIST_MAXLEVEL = 32"

section \<open>Access to the levels of a node\<close>

definition lv :: "'s slheap \<Rightarrow> addr \<Rightarrow> nat \<Rightarrow> (addr option \<times> u32) option" where
  "lv h x i = do { n \<leftarrow> h x; guard (i < length (n_level n)); Some (n_level n ! i) }"

definition set_lv :: "'s slheap \<Rightarrow> addr \<Rightarrow> nat \<Rightarrow> addr option \<times> u32 \<Rightarrow> 's slheap option" where
  "set_lv h x i v = do { n \<leftarrow> h x; guard (i < length (n_level n));
     Some (h(x \<mapsto> n\<lparr>n_level := (n_level n)[i := v]\<rparr>)) }"

definition set_backward :: "'s slheap \<Rightarrow> addr \<Rightarrow> addr option \<Rightarrow> 's slheap option" where
  "set_backward h x b = do { n \<leftarrow> h x; Some (h(x \<mapsto> n\<lparr>n_backward := b\<rparr>)) }"

section \<open>Creation and objects\<close>

definition slCreateNode :: "addr option \<Rightarrow> (nat \<Rightarrow> addr option \<times> u32) \<Rightarrow> nat \<Rightarrow> 's \<Rightarrow> mem option \<Rightarrow> 's skiplistNode" where
  "slCreateNode jb jl level score obj =
     \<lparr> n_obj = obj, n_score = score, n_backward = jb, n_level = map jl [0..<level] \<rparr>"

fun slCreate_loop :: "'s slheap \<Rightarrow> addr \<Rightarrow> nat \<Rightarrow> 's slheap option" where
  "slCreate_loop h x 0 = Some h"
| "slCreate_loop h x (Suc k) =
     do { h \<leftarrow> set_lv h x (SKIPLIST_MAXLEVEL - Suc k) (None, 0); slCreate_loop h x k }"

definition slCreate :: "addr \<Rightarrow> addr option \<Rightarrow> (nat \<Rightarrow> addr option \<times> u32) \<Rightarrow> 's::zero slheap \<Rightarrow> ('s slheap \<times> skiplist) option" where
  "slCreate new jb jl h = do {
     guard (h new = None);
     let h = h(new \<mapsto> slCreateNode jb jl SKIPLIST_MAXLEVEL 0 None);
     h \<leftarrow> slCreate_loop h new SKIPLIST_MAXLEVEL;
     h \<leftarrow> set_backward h new None;
     Some (h, \<lparr> header = new, tail = None, slength = 0, slevel = 1 \<rparr>) }"

text \<open>An object owns \<open>length + 1\<close> bytes, the last of them NUL; the model keeps the first \<open>length\<close>.\<close>

definition slCreateObj :: "fresh \<Rightarrow> mem option \<Rightarrow> nat \<Rightarrow> mem option" where
  "slCreateObj f ptr len = (case ptr of None \<Rightarrow> Some (map f [0..<len]) | Some p \<Rightarrow> rd p 0 len)"

fun memcmp :: "mem \<Rightarrow> mem \<Rightarrow> nat \<Rightarrow> int" where
  "memcmp (x # xs) (y # ys) (Suc n) = (if x = y then memcmp xs ys n else uint x - uint y)"
| "memcmp xs ys n = 0"

definition compareslObj :: "mem \<Rightarrow> mem \<Rightarrow> int" where
  "compareslObj a b =
     (let cmp = memcmp a b (if length a \<le> length b then length a else length b) in
      if cmp = 0 then sint (word_of_int (int (length a) - int (length b)) :: 32 word) else cmp)"

definition equalslObj :: "mem \<Rightarrow> mem \<Rightarrow> bool" where
  "equalslObj a b = (compareslObj a b = 0)"

text \<open>\<open>while((random() & 0xffff) < (SKIPLIST_P * 0xffff)) level += 1;\<close> where the bound is 16383.75.\<close>

partial_function (option) slRandomLevel_loop :: "(nat \<Rightarrow> int) \<Rightarrow> nat \<Rightarrow> nat \<Rightarrow> (nat \<times> nat) option" where
  "slRandomLevel_loop rnd c level =
     (if 100 * (rnd c AND 0xffff) < 25 * 0xffff then slRandomLevel_loop rnd (c + 1) (level + 1)
      else Some (level, c + 1))"

definition slRandomLevel :: "(nat \<Rightarrow> int) \<Rightarrow> nat \<Rightarrow> (nat \<times> nat) option" where
  "slRandomLevel rnd c = do {
     (level, c) \<leftarrow> slRandomLevel_loop rnd c 1;
     Some (if level < SKIPLIST_MAXLEVEL then level else SKIPLIST_MAXLEVEL, c) }"

section \<open>The descent\<close>

text \<open>One level: advance while the condition holds of the next node and of the rank it would be
  reached with; all searches of the file are this loop with their own condition.\<close>

partial_function (option) sl_walk :: "('s skiplistNode \<Rightarrow> 'r word \<Rightarrow> bool) \<Rightarrow> 's slheap \<Rightarrow> nat \<Rightarrow> addr \<Rightarrow> 'r::len word \<Rightarrow> (addr \<times> 'r word) option" where
  "sl_walk cond h i x acc = do {
     (fwd, span) \<leftarrow> lv h x i;
     case fwd of
       None \<Rightarrow> Some (x, acc)
     | Some f \<Rightarrow> do {
         n \<leftarrow> h f;
         if cond n (acc + ucast span) then sl_walk cond h i f (acc + ucast span) else Some (x, acc) } }"

text \<open>All levels from the top down, noting in \<open>update\<close> and \<open>rank\<close> where each one was left.\<close>

fun sl_descend :: "('s skiplistNode \<Rightarrow> 'r word \<Rightarrow> bool) \<Rightarrow> 's slheap \<Rightarrow> nat \<Rightarrow> addr \<Rightarrow> 'r::len word \<Rightarrow> updates \<Rightarrow> (nat \<rightharpoonup> 'r word)
    \<Rightarrow> (addr \<times> 'r word \<times> updates \<times> (nat \<rightharpoonup> 'r word)) option" where
  "sl_descend cond h 0 x acc upd rk = Some (x, acc, upd, rk)"
| "sl_descend cond h (Suc i) x acc upd rk = do {
     (x, acc) \<leftarrow> sl_walk cond h i x acc;
     guard (i < SKIPLIST_MAXLEVEL);
     sl_descend cond h i x acc (upd(i \<mapsto> x)) (rk(i \<mapsto> acc)) }"

definition before :: "'s::linorder \<Rightarrow> mem \<Rightarrow> 's skiplistNode \<Rightarrow> 'r::len word \<Rightarrow> bool" where
  "before score obj n r = (n_score n < score \<or> n_score n = score \<and>
     (case n_obj n of None \<Rightarrow> False | Some ob \<Rightarrow> compareslObj ob obj < 0))"

definition upto_key :: "'s::linorder \<Rightarrow> mem \<Rightarrow> 's skiplistNode \<Rightarrow> 'r::len word \<Rightarrow> bool" where
  "upto_key score obj n r = (n_score n < score \<or> n_score n = score \<and>
     (case n_obj n of None \<Rightarrow> False | Some ob \<Rightarrow> compareslObj ob obj \<le> 0))"

section \<open>Insertion\<close>

text \<open>\<open>for (i = sl->level; i < level; i++)\<close>: the levels the list did not have yet, \<open>k\<close> of them left.\<close>

fun slInsert_raise :: "skiplist \<Rightarrow> nat \<Rightarrow> nat \<Rightarrow> 's slheap \<Rightarrow> updates \<Rightarrow> ranks \<Rightarrow> ('s slheap \<times> updates \<times> ranks) option" where
  "slInsert_raise sl i 0 h upd rk = Some (h, upd, rk)"
| "slInsert_raise sl i (Suc k) h upd rk = do {
     guard (i < SKIPLIST_MAXLEVEL);
     (f, _) \<leftarrow> lv h (header sl) i;
     h \<leftarrow> set_lv h (header sl) i (f, ucast (slength sl));
     slInsert_raise sl (i + 1) k h (upd(i \<mapsto> header sl)) (rk(i \<mapsto> 0)) }"

text \<open>\<open>for (i = 0; i < level; i++)\<close>: splice the new node into its levels.\<close>

fun slInsert_link :: "addr \<Rightarrow> updates \<Rightarrow> ranks \<Rightarrow> nat \<Rightarrow> nat \<Rightarrow> 's slheap \<Rightarrow> 's slheap option" where
  "slInsert_link x upd rk i 0 h = Some h"
| "slInsert_link x upd rk i (Suc k) h = do {
     u \<leftarrow> upd i; r0 \<leftarrow> rk 0; r \<leftarrow> rk i;
     (f, s) \<leftarrow> lv h u i;
     h \<leftarrow> set_lv h x i (f, s - (r0 - r));
     h \<leftarrow> set_lv h u i (Some x, (r0 - r) + 1);
     slInsert_link x upd rk (i + 1) k h }"

text \<open>\<open>for (i = level; i < sl->level; i++) update[i]->level[i].span++;\<close>\<close>

fun slInsert_untouched :: "updates \<Rightarrow> nat \<Rightarrow> nat \<Rightarrow> 's slheap \<Rightarrow> 's slheap option" where
  "slInsert_untouched upd i 0 h = Some h"
| "slInsert_untouched upd i (Suc k) h = do {
     u \<leftarrow> upd i; (f, s) \<leftarrow> lv h u i; h \<leftarrow> set_lv h u i (f, s + 1);
     slInsert_untouched upd (i + 1) k h }"

definition slInsert :: "(nat \<Rightarrow> int) \<Rightarrow> nat \<Rightarrow> addr \<Rightarrow> addr option \<Rightarrow> (nat \<Rightarrow> addr option \<times> u32) \<Rightarrow>
    's::linorder slheap \<Rightarrow> skiplist \<Rightarrow> 's \<Rightarrow> mem \<Rightarrow> ('s slheap \<times> skiplist \<times> nat) option" where
  "slInsert rnd c new jb jl h sl score obj = do {
     (_, _, upd, rk) \<leftarrow> sl_descend (before score obj) h (slevel sl) (header sl) (0 :: u32) Map.empty Map.empty;
     (level, c) \<leftarrow> slRandomLevel rnd c;
     (h, upd, rk) \<leftarrow> (if level > slevel sl
                      then slInsert_raise sl (slevel sl) (level - slevel sl) h upd rk else Some (h, upd, rk));
     let sl = (if level > slevel sl then sl\<lparr>slevel := level\<rparr> else sl);
     guard (h new = None);
     let h = h(new \<mapsto> slCreateNode jb jl level score (Some obj));
     h \<leftarrow> slInsert_link new upd rk 0 level h;
     h \<leftarrow> slInsert_untouched upd level (slevel sl - level) h;
     u0 \<leftarrow> upd 0;
     h \<leftarrow> set_backward h new (if u0 = header sl then None else Some u0);
     (f, _) \<leftarrow> lv h new 0;
     (h, sl) \<leftarrow> (case f of Some y \<Rightarrow> do { h \<leftarrow> set_backward h y (Some new); Some (h, sl) }
                         | None \<Rightarrow> Some (h, sl\<lparr>tail := Some new\<rparr>));
     Some (h, sl\<lparr>slength := slength sl + 1\<rparr>, c) }"

section \<open>Deletion\<close>

fun slDeleteNode_loop :: "addr \<Rightarrow> updates \<Rightarrow> nat \<Rightarrow> nat \<Rightarrow> 's slheap \<Rightarrow> 's slheap option" where
  "slDeleteNode_loop x upd i 0 h = Some h"
| "slDeleteNode_loop x upd i (Suc k) h = do {
     u \<leftarrow> upd i;
     (f, s) \<leftarrow> lv h u i;
     h \<leftarrow> (if f = Some x then do { (fx, sx) \<leftarrow> lv h x i; set_lv h u i (fx, s + (sx - 1)) }
           else set_lv h u i (f, s - 1));
     slDeleteNode_loop x upd (i + 1) k h }"

text \<open>\<open>while(sl->level > 1 && sl->header->level[sl->level-1].forward == NULL) sl->level--;\<close>\<close>

fun slDeleteNode_lower :: "'s slheap \<Rightarrow> addr \<Rightarrow> nat \<Rightarrow> nat option" where
  "slDeleteNode_lower h hdr (Suc (Suc l)) = do {
     (f, _) \<leftarrow> lv h hdr (Suc l);
     if f = None then slDeleteNode_lower h hdr (Suc l) else Some (Suc (Suc l)) }"
| "slDeleteNode_lower h hdr l = Some l"

definition slDeleteNode :: "'s slheap \<Rightarrow> skiplist \<Rightarrow> addr \<Rightarrow> updates \<Rightarrow> ('s slheap \<times> skiplist) option" where
  "slDeleteNode h sl x upd = do {
     h \<leftarrow> slDeleteNode_loop x upd 0 (slevel sl) h;
     (f, _) \<leftarrow> lv h x 0;
     n \<leftarrow> h x;
     (h, sl) \<leftarrow> (case f of Some y \<Rightarrow> do { h \<leftarrow> set_backward h y (n_backward n); Some (h, sl) }
                         | None \<Rightarrow> Some (h, sl\<lparr>tail := n_backward n\<rparr>));
     l \<leftarrow> slDeleteNode_lower h (header sl) (slevel sl);
     Some (h, sl\<lparr>slevel := l, slength := slength sl - 1\<rparr>) }"

text \<open>\<open>slFreeNode\<close>: the object goes with the node.\<close>

definition slFreeNode :: "'s slheap \<Rightarrow> addr \<Rightarrow> 's slheap option" where
  "slFreeNode h x = do { _ \<leftarrow> h x; Some (h(x := None)) }"

definition slDelete :: "'s::linorder slheap \<Rightarrow> skiplist \<Rightarrow> 's \<Rightarrow> mem \<Rightarrow> (bool \<times> 's slheap \<times> skiplist) option" where
  "slDelete h sl score obj = do {
     (x, _, upd, _) \<leftarrow> sl_descend (before score obj) h (slevel sl) (header sl) (0 :: u64) Map.empty Map.empty;
     (f, _) \<leftarrow> lv h x 0;
     case f of
       None \<Rightarrow> Some (False, h, sl)
     | Some x \<Rightarrow> do {
         n \<leftarrow> h x;
         if score = n_score n \<and> (case n_obj n of None \<Rightarrow> False | Some ob \<Rightarrow> equalslObj ob obj)
         then do { (h, sl) \<leftarrow> slDeleteNode h sl x upd; h \<leftarrow> slFreeNode h x; Some (True, h, sl) }
         else Some (False, h, sl) } }"

partial_function (option) slDeleteByRank_loop ::
  "'s slheap \<Rightarrow> skiplist \<Rightarrow> addr option \<Rightarrow> updates \<Rightarrow> u64 \<Rightarrow> u32 \<Rightarrow> u64 \<Rightarrow> mem option list
    \<Rightarrow> (u64 \<times> mem option list \<times> 's slheap \<times> skiplist) option" where
  "slDeleteByRank_loop h sl x upd traversed fin removed cb =
     (case x of
        None \<Rightarrow> Some (removed, cb, h, sl)
      | Some x \<Rightarrow>
          if traversed \<le> ucast fin then do {
            (nx, _) \<leftarrow> lv h x 0;
            (h, sl) \<leftarrow> slDeleteNode h sl x upd;
            n \<leftarrow> h x;
            h \<leftarrow> slFreeNode h x;
            slDeleteByRank_loop h sl nx upd (traversed + 1) fin (removed + 1) (cb @ [n_obj n]) }
          else Some (removed, cb, h, sl))"

definition slDeleteByRank :: "'s slheap \<Rightarrow> skiplist \<Rightarrow> u32 \<Rightarrow> u32 \<Rightarrow> (u64 \<times> mem option list \<times> 's slheap \<times> skiplist) option" where
  "slDeleteByRank h sl start fin = do {
     (x, traversed, upd, _) \<leftarrow> sl_descend (\<lambda>n r. r < ucast start) h (slevel sl) (header sl) (0 :: u64) Map.empty Map.empty;
     (f, _) \<leftarrow> lv h x 0;
     slDeleteByRank_loop h sl f upd (traversed + 1) fin 0 [] }"

section \<open>Ranks and ranges\<close>

fun slGetRank_loop :: "'s::linorder slheap \<Rightarrow> 's \<Rightarrow> mem \<Rightarrow> nat \<Rightarrow> addr \<Rightarrow> u64 \<Rightarrow> u64 option" where
  "slGetRank_loop h score o' 0 x rank = Some 0"
| "slGetRank_loop h score o' (Suc i) x rank = do {
     (x, rank) \<leftarrow> sl_walk (upto_key score o') h i x rank;
     n \<leftarrow> h x;
     if (case n_obj n of None \<Rightarrow> False | Some ob \<Rightarrow> equalslObj ob o') then Some rank
     else slGetRank_loop h score o' i x rank }"

definition slGetRank :: "'s::linorder slheap \<Rightarrow> skiplist \<Rightarrow> 's \<Rightarrow> mem \<Rightarrow> u64 option" where
  "slGetRank h sl score o' = slGetRank_loop h score o' (slevel sl) (header sl) 0"

fun slGetNodeByRank_loop :: "'s slheap \<Rightarrow> u64 \<Rightarrow> nat \<Rightarrow> addr \<Rightarrow> u64 \<Rightarrow> addr option option" where
  "slGetNodeByRank_loop h rank 0 x traversed = Some None"
| "slGetNodeByRank_loop h rank (Suc i) x traversed = do {
     (x, traversed) \<leftarrow> sl_walk (\<lambda>n r. r \<le> rank) h i x traversed;
     if traversed = rank then Some (Some x) else slGetNodeByRank_loop h rank i x traversed }"

definition slGetNodeByRank :: "'s slheap \<Rightarrow> skiplist \<Rightarrow> u64 \<Rightarrow> addr option option" where
  "slGetNodeByRank h sl rank =
     (if rank = 0 \<or> rank > slength sl then Some None
      else slGetNodeByRank_loop h rank (slevel sl) (header sl) 0)"

definition slIsInRange :: "'s::linorder slheap \<Rightarrow> skiplist \<Rightarrow> 's \<Rightarrow> 's \<Rightarrow> bool option" where
  "slIsInRange h sl mn mx =
     (if mn > mx then Some False
      else case tail sl of
        None \<Rightarrow> Some False
      | Some x \<Rightarrow> do {
          n \<leftarrow> h x;
          if n_score n < mn then Some False
          else do {
            (f, _) \<leftarrow> lv h (header sl) 0;
            case f of
              None \<Rightarrow> Some False
            | Some x \<Rightarrow> do { n \<leftarrow> h x; Some (\<not> n_score n > mx) } } })"

definition slFirstInRange :: "'s::linorder slheap \<Rightarrow> skiplist \<Rightarrow> 's \<Rightarrow> 's \<Rightarrow> addr option option" where
  "slFirstInRange h sl mn mx = do {
     b \<leftarrow> slIsInRange h sl mn mx;
     if \<not> b then Some None
     else do {
       (x, _, _, _) \<leftarrow> sl_descend (\<lambda>n r. n_score n < mn) h (slevel sl) (header sl) (0 :: u64) Map.empty Map.empty;
       (f, _) \<leftarrow> lv h x 0;
       Some f } }"

definition slLastInRange :: "'s::linorder slheap \<Rightarrow> skiplist \<Rightarrow> 's \<Rightarrow> 's \<Rightarrow> addr option option" where
  "slLastInRange h sl mn mx = do {
     b \<leftarrow> slIsInRange h sl mn mx;
     if \<not> b then Some None
     else do {
       (x, _, _, _) \<leftarrow> sl_descend (\<lambda>n r. n_score n \<le> mx) h (slevel sl) (header sl) (0 :: u64) Map.empty Map.empty;
       Some (Some x) } }"

section \<open>Release\<close>

partial_function (option) slFree_loop :: "'s slheap \<Rightarrow> addr option \<Rightarrow> 's slheap option" where
  "slFree_loop h node =
     (case node of
        None \<Rightarrow> Some h
      | Some x \<Rightarrow> do { (nx, _) \<leftarrow> lv h x 0; h \<leftarrow> slFreeNode h x; slFree_loop h nx })"

definition slFree :: "'s slheap \<Rightarrow> skiplist \<Rightarrow> 's slheap option" where
  "slFree h sl = do {
     (node, _) \<leftarrow> lv h (header sl) 0;
     slFree_loop (h(header sl := None)) node }"

declare slRandomLevel_loop.simps [code] sl_walk.simps [code] slDeleteByRank_loop.simps [code] slFree_loop.simps [code]

section \<open>Heights, levels and the rest of a node\<close>

definition ht :: "'s slheap \<Rightarrow> addr \<Rightarrow> nat" where
  "ht h a = (case h a of None \<Rightarrow> 0 | Some n \<Rightarrow> length (n_level n))"

definition nb :: "'s slheap \<Rightarrow> addr \<Rightarrow> (mem option \<times> 's \<times> addr option) option" where
  "nb h a = map_option (\<lambda>n. (n_obj n, n_score n, n_backward n)) (h a)"

lemma lv_Some: "i < ht h a \<Longrightarrow> \<exists>v. lv h a i = Some v"
  by (auto simp: ht_def lv_def split: option.splits)

lemma nb_None [simp]: "nb h a = None \<longleftrightarrow> h a = None" by (simp add: nb_def)

lemma nb_Some: "nb h a = Some (ob, s, b) \<Longrightarrow> \<exists>n. h a = Some n \<and> n_obj n = ob \<and> n_score n = s \<and> n_backward n = b"
  by (auto simp: nb_def)

lemma set_lv_ok:
  assumes "i < ht h a"
  shows "\<exists>h'. set_lv h a i v = Some h' \<and> nb h' = nb h \<and> ht h' = ht h \<and>
    lv h' = (\<lambda>b j. if b = a \<and> j = i then Some v else lv h b j)"
proof -
  from assms obtain n where n: "h a = Some n" "i < length (n_level n)" by (auto simp: ht_def split: option.splits)
  let ?h = "h(a \<mapsto> n\<lparr>n_level := (n_level n)[i := v]\<rparr>)"
  have "nb ?h = nb h" "ht ?h = ht h" using n by (auto simp: nb_def ht_def fun_eq_iff)
  moreover have "lv ?h = (\<lambda>b j. if b = a \<and> j = i then Some v else lv h b j)"
    using n by (auto simp: lv_def fun_eq_iff nth_list_update guard_def)
  ultimately show ?thesis using n by (simp add: set_lv_def)
qed

lemma set_backward_ok:
  assumes "nb h a = Some (ob, s, b0)"
  shows "\<exists>h'. set_backward h a b = Some h' \<and> ht h' = ht h \<and> lv h' = lv h \<and> nb h' = (nb h)(a \<mapsto> (ob, s, b))"
proof -
  from assms obtain n where n: "h a = Some n" "n_obj n = ob" "n_score n = s" by (auto simp: nb_def)
  then show ?thesis by (intro exI[of _ "h(a \<mapsto> n\<lparr>n_backward := b\<rparr>)"])
    (auto simp: set_backward_def nb_def ht_def lv_def fun_eq_iff)
qed

section \<open>The next node of a level\<close>

fun fwd :: "(addr \<Rightarrow> nat) \<Rightarrow> nat \<Rightarrow> addr list \<Rightarrow> addr option" where
  "fwd t i [] = None"
| "fwd t i (a # ys) = (if i < t a then Some a else fwd t i ys)"

fun spn :: "(addr \<Rightarrow> nat) \<Rightarrow> nat \<Rightarrow> addr list \<Rightarrow> nat" where
  "spn t i [] = 0"
| "spn t i (a # ys) = (if i < t a then 1 else Suc (spn t i ys))"

lemma fwd_append: "fwd t i (us @ vs) = (if \<forall>a \<in> set us. t a \<le> i then fwd t i vs else fwd t i us)"
  by (induction us) auto

lemma spn_append: "spn t i (us @ vs) = (if \<forall>a \<in> set us. t a \<le> i then length us + spn t i vs else spn t i us)"
  by (induction us) auto

lemma fwd_None: "fwd t i ys = None \<longleftrightarrow> (\<forall>a \<in> set ys. t a \<le> i)"
  by (induction ys) auto

lemma fwd_Some: "fwd t i ys = Some f \<Longrightarrow>
   0 < spn t i ys \<and> spn t i ys \<le> length ys \<and> f = ys ! (spn t i ys - 1) \<and> i < t f \<and> (\<forall>j < spn t i ys - 1. t (ys ! j) \<le> i)"
proof (induction ys)
  case (Cons a ys)
  show ?case
  proof (cases "i < t a")
    case False
    then have "0 < spn t i ys" "spn t i ys \<le> length ys" "f = ys ! (spn t i ys - 1)" "i < t f"
      "\<forall>j < spn t i ys - 1. t (ys ! j) \<le> i" using Cons by auto
    then show ?thesis using False by (auto simp: nth_Cons split: nat.splits)
  qed (use Cons in auto)
qed simp

lemma fwd_cong: "(\<And>a. a \<in> set ys \<Longrightarrow> t a = t' a) \<Longrightarrow> fwd t i ys = fwd t' i ys"
  by (induction ys) auto

lemma spn_cong: "(\<And>a. a \<in> set ys \<Longrightarrow> t a = t' a) \<Longrightarrow> spn t i ys = spn t' i ys"
  by (induction ys) auto

text \<open>\<^term>\<open>lastpos t i ys N\<close>: the last of the positions \<open>0\<close> to \<open>N\<close> of \<open>ys\<close> whose node reaches level \<open>i\<close>;
  position 0 is the header.\<close>

fun lastpos :: "(addr \<Rightarrow> nat) \<Rightarrow> nat \<Rightarrow> addr list \<Rightarrow> nat \<Rightarrow> nat" where
  "lastpos t i ys 0 = 0"
| "lastpos t i ys (Suc N) = (if i < t (ys ! Suc N) then Suc N else lastpos t i ys N)"

lemma lastpos_le: "lastpos t i ys N \<le> N"
  by (induction N) auto

lemma lastpos_tall: "i < t (ys ! 0) \<Longrightarrow> i < t (ys ! lastpos t i ys N)"
  by (induction N) auto

lemma lastpos_gap: "lastpos t i ys N < r \<Longrightarrow> r \<le> N \<Longrightarrow> t (ys ! r) \<le> i"
  by (induction N) (auto split: if_splits simp: le_Suc_eq)

lemma lastpos_unique: "p \<le> N \<Longrightarrow> i < t (ys ! p) \<Longrightarrow> (\<And>r. p < r \<Longrightarrow> r \<le> N \<Longrightarrow> t (ys ! r) \<le> i) \<Longrightarrow> lastpos t i ys N = p"
proof (induction N)
  case (Suc N)
  show ?case
  proof (cases "p = Suc N")
    case False
    then have "t (ys ! Suc N) \<le> i" "lastpos t i ys N = p" using Suc by auto
    then show ?thesis by simp
  qed (use Suc in simp)
qed simp

lemma lastpos_0: "(\<And>r. 0 < r \<Longrightarrow> r \<le> N \<Longrightarrow> 0 < t (ys ! r)) \<Longrightarrow> 0 < t (ys ! 0) \<Longrightarrow> lastpos t 0 ys N = N"
  by (cases N) auto

lemma lastpos_cong: "(\<And>r. 0 < r \<Longrightarrow> r \<le> N \<Longrightarrow> t (ys ! r) = t' (ys' ! r)) \<Longrightarrow> lastpos t i ys N = lastpos t' i ys' N"
  by (induction N) auto

section \<open>The invariant\<close>

definition sl_inv :: "'s slheap \<Rightarrow> skiplist \<Rightarrow> addr list \<Rightarrow> bool" where
  "sl_inv h sl xs \<longleftrightarrow>
     distinct (header sl # xs) \<and> 1 \<le> slevel sl \<and> slevel sl \<le> 32 \<and> ht h (header sl) = 32 \<and>
     (\<forall>a \<in> set xs. 1 \<le> ht h a \<and> ht h a \<le> slevel sl) \<and>
     (\<forall>p \<le> length xs. \<forall>i < ht h ((header sl # xs) ! p). \<exists>s.
        lv h ((header sl # xs) ! p) i = Some (fwd (ht h) i (drop p xs), s) \<and>
        (i < slevel sl \<longrightarrow> s = of_nat (spn (ht h) i (drop p xs)))) \<and>
     (\<forall>p < length xs. \<exists>ob s. nb h (xs ! p) = Some (Some ob, s, if p = 0 then None else Some (xs ! (p - 1)))) \<and>
     (\<exists>s. nb h (header sl) = Some (None, s, None)) \<and>
     tail sl = (if xs = [] then None else Some (last xs)) \<and> slength sl = of_nat (length xs)"

lemma sl_invD:
  assumes "sl_inv h sl xs"
  shows "header sl \<notin> set xs" "distinct xs" "1 \<le> slevel sl" "slevel sl \<le> 32" "ht h (header sl) = 32"
    "\<And>a. a \<in> set xs \<Longrightarrow> 1 \<le> ht h a" "\<And>a. a \<in> set xs \<Longrightarrow> ht h a \<le> slevel sl"
    "\<And>p i. p \<le> length xs \<Longrightarrow> i < ht h ((header sl # xs) ! p) \<Longrightarrow> i < slevel sl \<Longrightarrow>
        lv h ((header sl # xs) ! p) i = Some (fwd (ht h) i (drop p xs), of_nat (spn (ht h) i (drop p xs)))"
    "\<And>i. slevel sl \<le> i \<Longrightarrow> i < 32 \<Longrightarrow> \<exists>s. lv h (header sl) i = Some (None, s)"
    "\<And>p. p < length xs \<Longrightarrow> \<exists>ob s. nb h (xs ! p) = Some (Some ob, s, if p = 0 then None else Some (xs ! (p - 1)))"
    "\<exists>s. nb h (header sl) = Some (None, s, None)"
    "tail sl = (if xs = [] then None else Some (last xs))" "slength sl = of_nat (length xs)"
proof -
  show "\<exists>s. lv h (header sl) i = Some (None, s)" if i: "slevel sl \<le> i" "i < 32" for i
  proof -
    have "fwd (ht h) i xs = None" using assms i unfolding fwd_None sl_inv_def by (meson le_trans)
    then show ?thesis using assms i unfolding sl_inv_def by (metis drop_0 le0 nth_Cons_0)
  qed
qed (use assms in \<open>unfold sl_inv_def, (fastforce simp del: fwd.simps spn.simps)+\<close>)


lemma inv_node: "sl_inv h sl xs \<Longrightarrow> p \<le> length xs \<Longrightarrow> \<exists>n. h ((header sl # xs) ! p) = Some n"
  using sl_invD(10,11)[of h sl xs] nb_Some by (cases p) (auto, metis nb_Some, metis less_eq_Suc_le nb_Some)

section \<open>The searches end at the last position of their prefix\<close>

text \<open>The conditions of the searches hold of a prefix of the positions, here of the first \<open>N\<close>.\<close>

definition prefix_cond :: "('s skiplistNode \<Rightarrow> 'r::len word \<Rightarrow> bool) \<Rightarrow> 's slheap \<Rightarrow> addr list \<Rightarrow> nat \<Rightarrow> bool" where
  "prefix_cond cond h xs N \<longleftrightarrow> N \<le> length xs \<and>
     (\<forall>q n. 0 < q \<longrightarrow> q \<le> length xs \<longrightarrow> h (xs ! (q - 1)) = Some n \<longrightarrow> cond n (of_nat q) = (q \<le> N))"

lemma nth_mem_drop: "p \<le> j \<Longrightarrow> j < length xs \<Longrightarrow> xs ! j \<in> set (drop p xs)"
  using nth_mem[of "j - p" "drop p xs"] by simp

lemma ucast_of_nat32: "k < 2 ^ 32 \<Longrightarrow> (ucast (of_nat k :: u32) :: 'r::len word) = of_nat k"
proof -
  assume "k < 2 ^ 32"
  then have "uint (of_nat k :: u32) = int k" by (simp add: uint_nat unat_of_nat take_bit_nat_eq_self del: of_nat_unat)
  then show ?thesis by (simp only: ucast_eq of_int_of_nat_eq)
qed

lemma upto_Suc_map: "(\<lambda>i. if i < k then F i else (g(k := F k)) i) = (\<lambda>i. if i < Suc k then F i else g i)"
  by (auto simp: fun_eq_iff less_Suc_eq)

lemma sl_walk_ok:
  fixes cond :: "'s skiplistNode \<Rightarrow> 'r::len word \<Rightarrow> bool"
  assumes inv: "sl_inv h sl xs" and c: "prefix_cond cond h xs N" and r: "LENGTH('r) \<le> 64" "length xs < 2 ^ 32"
    and "p \<le> N" "i < ht h ((header sl # xs) ! p)" "i < slevel sl"
  shows "sl_walk cond h i ((header sl # xs) ! p) (of_nat p) =
    Some ((header sl # xs) ! lastpos (ht h) i (header sl # xs) N, of_nat (lastpos (ht h) i (header sl # xs) N))"
  using assms(5-7)
proof (induction "N - p" arbitrary: p rule: less_induct)
  case less
  let ?A = "header sl # xs"
  have N: "N \<le> length xs" using c by (simp add: prefix_cond_def)
  note L = sl_invD(8)[OF inv _ less.prems(2,3)]
  show ?case
  proof (cases "fwd (ht h) i (drop p xs)")
    case None
    then have "ht h (?A ! r) \<le> i" if "p < r" "r \<le> N" for r
      using that N nth_mem_drop[of p "r - 1" xs] unfolding fwd_None by (auto simp: nth_Cons')
    then have "lastpos (ht h) i ?A N = p" using less.prems by (intro lastpos_unique) auto
    then show ?thesis using None L less.prems N by (subst sl_walk.simps) simp
  next
    case (Some f)
    let ?k = "spn (ht h) i (drop p xs)"
    from fwd_Some[OF Some] have k: "0 < ?k" "?k \<le> length xs - p" "f = drop p xs ! (?k - 1)" "i < ht h f"
      "\<forall>j < ?k - 1. ht h (drop p xs ! j) \<le> i" by auto
    define q where "q = p + ?k"
    have q: "q \<le> length xs" "f = ?A ! q" "p < q" "f = xs ! (q - 1)" using k less.prems(1) N by (auto simp: q_def nth_Cons')
    obtain n where n: "h f = Some n" using inv_node[OF inv q(1)] q(2) by auto
    have sp: "(of_nat p :: 'r word) + ucast (of_nat ?k :: u32) = of_nat q"
    proof -
      have "?k < 2 ^ 32" using k(2) r(2) by linarith
      then show ?thesis by (simp only: ucast_of_nat32 q_def of_nat_add)
    qed
    have cq: "cond n (of_nat q) = (q \<le> N)" using c n q by (auto simp: prefix_cond_def)
    show ?thesis
    proof (cases "q \<le> N")
      case True
      have "N - q < N - p" using True q by simp
      from less.hyps[OF this True] k(4) q(2) less.prems(3)
      have "sl_walk cond h i f (of_nat q) = Some (?A ! lastpos (ht h) i ?A N, of_nat (lastpos (ht h) i ?A N))" by simp
      then show ?thesis using L N less.prems(1) Some n cq True by (subst sl_walk.simps) (simp add: sp)
    next
      case False
      have "ht h (?A ! r) \<le> i" if "p < r" "r \<le> N" for r
        using k(5)[rule_format, of "r - Suc p"] that False N by (auto simp: q_def nth_Cons')
      then have "lastpos (ht h) i ?A N = p" using less.prems by (intro lastpos_unique) auto
      then show ?thesis using L N less.prems(1) Some n cq False by (subst sl_walk.simps) (simp add: sp)
    qed
  qed
qed

lemma sl_descend_ok:
  fixes cond :: "'s skiplistNode \<Rightarrow> 'r::len word \<Rightarrow> bool"
  assumes inv: "sl_inv h sl xs" and c: "prefix_cond cond h xs N" and r: "LENGTH('r) \<le> 64" "length xs < 2 ^ 32"
    and "p \<le> N" "k \<le> ht h ((header sl # xs) ! p)" "k \<le> slevel sl"
  shows "\<exists>q. sl_descend cond h k ((header sl # xs) ! p) (of_nat p) upd rk =
    Some ((header sl # xs) ! q, of_nat q,
      (\<lambda>i. if i < k then Some ((header sl # xs) ! lastpos (ht h) i (header sl # xs) N) else upd i),
      (\<lambda>i. if i < k then Some (of_nat (lastpos (ht h) i (header sl # xs) N)) else rk i)) \<and>
    q = (if k = 0 then p else lastpos (ht h) 0 (header sl # xs) N)"
  using assms(5-7)
proof (induction k arbitrary: p upd rk)
  case (Suc k)
  let ?A = "header sl # xs" and ?q = "lastpos (ht h) k (header sl # xs) N"
  have w: "sl_walk cond h k (?A ! p) (of_nat p) = Some (?A ! ?q, of_nat ?q)"
    using sl_walk_ok[OF inv c r Suc.prems(1), of k] Suc.prems by simp
  have h0: "k < ht h (?A ! 0)" using sl_invD(4,5)[OF inv] Suc.prems by simp
  have q: "?q \<le> N" "k < ht h (?A ! ?q)" using lastpos_le lastpos_tall[of k "ht h" ?A, OF h0] by auto
  have "k < 32" using Suc.prems(3) sl_invD(4)[OF inv] by simp
  then have "sl_descend cond h (Suc k) (?A ! p) (of_nat p) upd rk
      = sl_descend cond h k (?A ! ?q) (of_nat ?q) (upd(k \<mapsto> ?A ! ?q)) (rk(k \<mapsto> of_nat ?q))"
    using w by (simp add: SKIPLIST_MAXLEVEL_def)
  moreover have "(if k = 0 then ?q else lastpos (ht h) 0 ?A N) = lastpos (ht h) 0 ?A N" by simp
  ultimately show ?case
    using Suc.IH[OF q(1), of "upd(k \<mapsto> ?A ! ?q)" "rk(k \<mapsto> of_nat ?q)"] q Suc.prems(3)
    unfolding upto_Suc_map[of k "\<lambda>i. Some (?A ! lastpos (ht h) i ?A N)" upd]
      upto_Suc_map[of k "\<lambda>i. Some (of_nat (lastpos (ht h) i ?A N) :: 'r word)" rk]
    by (simp only: simp_thms nat.distinct if_False Suc_leD less_imp_le_nat)
qed (auto simp: fun_eq_iff)

section \<open>Splicing a node in\<close>

lemma in_segment: "a \<in> set (take (N - p) (drop p xs)) \<longleftrightarrow> (\<exists>r. p < r \<and> r \<le> N \<and> r \<le> length xs \<and> a = xs ! (r - 1))"
proof
  assume "a \<in> set (take (N - p) (drop p xs))"
  then obtain j where "j < N - p" "j < length xs - p" "a = xs ! (p + j)" by (auto simp: in_set_conv_nth)
  then show "\<exists>r. p < r \<and> r \<le> N \<and> r \<le> length xs \<and> a = xs ! (r - 1)" by (intro exI[of _ "Suc (p + j)"]) auto
next
  assume "\<exists>r. p < r \<and> r \<le> N \<and> r \<le> length xs \<and> a = xs ! (r - 1)"
  then obtain r where "p < r" "r \<le> N" "r \<le> length xs" "a = xs ! (r - 1)" by blast
  then show "a \<in> set (take (N - p) (drop p xs))" by (auto simp: in_set_conv_nth intro!: exI[of _ "r - Suc p"])
qed

lemma segment_short:
  assumes "p \<le> N" "N \<le> length xs" "i < t ((hh # xs) ! p)"
  shows "(\<forall>a \<in> set (take (N - p) (drop p xs)). t a \<le> i) \<longleftrightarrow> lastpos t i (hh # xs) N = p"
proof
  assume "\<forall>a \<in> set (take (N - p) (drop p xs)). t a \<le> i"
  then show "lastpos t i (hh # xs) N = p"
    using assms in_segment[of _ N p xs] by (intro lastpos_unique) (auto simp: nth_Cons', metis One_nat_def order_trans)
next
  assume "lastpos t i (hh # xs) N = p"
  then show "\<forall>a \<in> set (take (N - p) (drop p xs)). t a \<le> i"
    using lastpos_gap[of t i "hh # xs" N] by (auto simp: in_segment nth_Cons')
qed

lemma drop_split: "p \<le> N \<Longrightarrow> N \<le> length xs \<Longrightarrow> drop p xs = take (N - p) (drop p xs) @ drop N xs"
  by (metis append_take_drop_id drop_drop le_add_diff_inverse2)

lemma drop_inserted:
  "p \<le> N \<Longrightarrow> N \<le> length xs \<Longrightarrow> drop p (take N xs @ y # drop N xs) = take (N - p) (drop p xs) @ y # drop N xs"
  by (simp add: drop_take)

lemma drop_inserted_after: "N < p \<Longrightarrow> N \<le> length xs \<Longrightarrow> drop p (take N xs @ y # drop N xs) = drop (p - 1) xs"
  by (cases p) (simp_all add: Suc_diff_le)

lemma nth_inserted:
  "N \<le> length xs \<Longrightarrow> p \<le> length xs + 1 \<Longrightarrow> (hh # take N xs @ y # drop N xs) ! p = (if p \<le> N then (hh # xs) ! p else if p = N + 1 then y else (hh # xs) ! (p - 1))"
  by (auto simp: nth_Cons' nth_append min_def numeral_2_eq_2)

text \<open>How the next node and the span of a level change when \<open>y\<close> enters after position \<open>N\<close>.\<close>

lemma fwd_spn_inserted:
  assumes "p \<le> N" "N \<le> length xs" "i < t ((hh # xs) ! p)" "y \<notin> set xs"
    "\<forall>a. a \<noteq> y \<longrightarrow> t' a = t a"
  shows "fwd t' i (drop p (take N xs @ y # drop N xs)) =
      (if lastpos t i (hh # xs) N = p \<and> i < t' y then Some y else fwd t i (drop p xs))"
    "spn t' i (drop p (take N xs @ y # drop N xs)) =
      (if lastpos t i (hh # xs) N = p then if i < t' y then N - p + 1 else spn t i (drop p xs) + 1 else spn t i (drop p xs))"
proof -
  let ?u = "take (N - p) (drop p xs)"
  have y: "y \<notin> set ?u" "y \<notin> set (drop N xs)" using assms(4) by (auto dest: in_set_takeD in_set_dropD)
  then have c: "fwd t' i ?u = fwd t i ?u" "spn t' i ?u = spn t i ?u" "fwd t' i (drop N xs) = fwd t i (drop N xs)"
    "spn t' i (drop N xs) = spn t i (drop N xs)" "(\<forall>a \<in> set ?u. t' a \<le> i) = (\<forall>a \<in> set ?u. t a \<le> i)"
    using assms(5) by (metis fwd_cong spn_cong)+
  have l: "length ?u = N - p" using assms by simp
  note s = segment_short[of p N xs i t hh, OF assms(1-3)]
  have f: "fwd t i (drop p xs) = (if lastpos t i (hh # xs) N = p then fwd t i (drop N xs) else fwd t i ?u)"
    "spn t i (drop p xs) = (if lastpos t i (hh # xs) N = p then N - p + spn t i (drop N xs) else spn t i ?u)"
    using fwd_append[of t i ?u "drop N xs"] spn_append[of t i ?u "drop N xs"] drop_split[OF assms(1,2)] s l by simp_all
  show "fwd t' i (drop p (take N xs @ y # drop N xs)) =
      (if lastpos t i (hh # xs) N = p \<and> i < t' y then Some y else fwd t i (drop p xs))"
    unfolding drop_inserted[OF assms(1,2)] f(1) using c s by (simp add: fwd_append)
  show "spn t' i (drop p (take N xs @ y # drop N xs)) =
      (if lastpos t i (hh # xs) N = p then if i < t' y then N - p + 1 else spn t i (drop p xs) + 1 else spn t i (drop p xs))"
    unfolding drop_inserted[OF assms(1,2)] f(2) using c s l by (simp add: spn_append)
qed

section \<open>The loops of the insertion\<close>

lemma slInsert_raise_ok:
  assumes "i + k \<le> 32" "ht h (header sl) = 32"
  shows "\<exists>h'. slInsert_raise sl i k h upd rk =
      Some (h', (\<lambda>j. if i \<le> j \<and> j < i + k then Some (header sl) else upd j), (\<lambda>j. if i \<le> j \<and> j < i + k then Some 0 else rk j)) \<and>
    nb h' = nb h \<and> ht h' = ht h \<and>
    lv h' = (\<lambda>b j. if b = header sl \<and> i \<le> j \<and> j < i + k then map_option (\<lambda>(f, _). (f, ucast (slength sl))) (lv h b j) else lv h b j)"
  using assms
proof (induction k arbitrary: i h upd rk)
  case (Suc k)
  let ?H = "header sl"
  have "i < ht h ?H" using Suc.prems by simp
  then obtain f s where f: "lv h ?H i = Some (f, s)" using lv_Some by (metis surj_pair)
  obtain h1 where h1: "set_lv h ?H i (f, ucast (slength sl)) = Some h1" "nb h1 = nb h" "ht h1 = ht h"
    "lv h1 = (\<lambda>b j. if b = ?H \<and> j = i then Some (f, ucast (slength sl)) else lv h b j)"
    using set_lv_ok[OF \<open>i < ht h ?H\<close>] by blast
  have pr: "i + 1 + k \<le> 32" "ht h1 ?H = 32" using Suc.prems h1(3) by auto
  from Suc.IH[OF pr, of "upd(i \<mapsto> ?H)" "rk(i \<mapsto> 0)"] obtain h' where h':
    "slInsert_raise sl (i + 1) k h1 (upd(i \<mapsto> ?H)) (rk(i \<mapsto> 0)) =
      Some (h', (\<lambda>j. if i + 1 \<le> j \<and> j < i + 1 + k then Some ?H else (upd(i \<mapsto> ?H)) j), (\<lambda>j. if i + 1 \<le> j \<and> j < i + 1 + k then Some 0 else (rk(i \<mapsto> 0)) j))"
    "nb h' = nb h1" "ht h' = ht h1"
    "lv h' = (\<lambda>b j. if b = ?H \<and> i + 1 \<le> j \<and> j < i + 1 + k then map_option (\<lambda>(f, _). (f, ucast (slength sl))) (lv h1 b j) else lv h1 b j)" by blast
  have e: "(\<lambda>j. if i + 1 \<le> j \<and> j < i + 1 + k then a else (g(i := a)) j) = (\<lambda>j. if i \<le> j \<and> j < i + Suc k then a else g j)" for a and g :: "nat \<Rightarrow> 'z"
    by (auto simp: fun_eq_iff)
  have l: "lv h' = (\<lambda>b j. if b = ?H \<and> i \<le> j \<and> j < i + Suc k then map_option (\<lambda>(f, _). (f, ucast (slength sl))) (lv h b j) else lv h b j)"
    unfolding h'(4) h1(4) using f by (auto simp: fun_eq_iff)
  have "slInsert_raise sl i (Suc k) h upd rk = slInsert_raise sl (i + 1) k h1 (upd(i \<mapsto> ?H)) (rk(i \<mapsto> 0))"
    using f h1(1) Suc.prems by (simp add: SKIPLIST_MAXLEVEL_def)
  then show ?case using h'(1-3) h1(2,3) l unfolding e by (simp only:) blast
qed (auto simp: fun_eq_iff)

lemma slInsert_link_ok:
  assumes "\<And>j. i \<le> j \<Longrightarrow> j < i + k \<Longrightarrow> upd j = Some (U j) \<and> rk j = Some (R j) \<and> j < ht h (U j) \<and> j < ht h x \<and> U j \<noteq> x"
    "k = 0 \<or> rk 0 = Some r0"
  shows "\<exists>h'. slInsert_link x upd rk i k h = Some h' \<and> nb h' = nb h \<and> ht h' = ht h \<and>
    lv h' = (\<lambda>b j. if i \<le> j \<and> j < i + k then
       if b = x then map_option (\<lambda>(f, s). (f, s - (r0 - R j))) (lv h (U j) j)
       else if b = U j then Some (Some x, (r0 - R j) + 1) else lv h b j
      else lv h b j)"
  using assms
proof (induction k arbitrary: i h)
  case (Suc k)
  have u: "upd i = Some (U i)" "rk i = Some (R i)" "i < ht h (U i)" "i < ht h x" "U i \<noteq> x" "rk 0 = Some r0"
    using Suc.prems(1)[of i] Suc.prems(2) by auto
  then obtain f s where f: "lv h (U i) i = Some (f, s)" using lv_Some by (metis surj_pair)
  obtain h1 where h1: "set_lv h x i (f, s - (r0 - R i)) = Some h1" "nb h1 = nb h" "ht h1 = ht h"
    "lv h1 = (\<lambda>b j. if b = x \<and> j = i then Some (f, s - (r0 - R i)) else lv h b j)"
    using set_lv_ok[OF u(4)] by blast
  have "i < ht h1 (U i)" using u h1 by simp
  then obtain h2 where h2: "set_lv h1 (U i) i (Some x, (r0 - R i) + 1) = Some h2" "nb h2 = nb h1" "ht h2 = ht h1"
    "lv h2 = (\<lambda>b j. if b = U i \<and> j = i then Some (Some x, (r0 - R i) + 1) else lv h1 b j)"
    using set_lv_ok by blast
  from Suc.IH[of "i + 1" h2] Suc.prems h1(3) h2(3) obtain h' where h': "slInsert_link x upd rk (i + 1) k h2 = Some h'" "nb h' = nb h2" "ht h' = ht h2"
    "lv h' = (\<lambda>b j. if i + 1 \<le> j \<and> j < i + 1 + k then
       if b = x then map_option (\<lambda>(f, s). (f, s - (r0 - R j))) (lv h2 (U j) j)
       else if b = U j then Some (Some x, (r0 - R j) + 1) else lv h2 b j
      else lv h2 b j)" by auto
  have "slInsert_link x upd rk i (Suc k) h = Some h'" using u f h1(1) h2(1) h'(1) by simp
  moreover have "lv h' = (\<lambda>b j. if i \<le> j \<and> j < i + Suc k then
       if b = x then map_option (\<lambda>(f, s). (f, s - (r0 - R j))) (lv h (U j) j)
       else if b = U j then Some (Some x, (r0 - R j) + 1) else lv h b j
      else lv h b j)"
  proof (intro ext)
    fix b j
    have ne: "i + 1 \<le> j \<Longrightarrow> j < i + 1 + k \<Longrightarrow> U j \<noteq> x" using Suc.prems(1)[of j] by simp
    show "lv h' b j = (if i \<le> j \<and> j < i + Suc k then
       if b = x then map_option (\<lambda>(f, s). (f, s - (r0 - R j))) (lv h (U j) j)
       else if b = U j then Some (Some x, (r0 - R j) + 1) else lv h b j
      else lv h b j)"
      unfolding h'(4) h2(4) h1(4) using u f ne by (cases "j = i") auto
  qed
  ultimately show ?case using h' h2 h1 by auto
qed (auto simp: fun_eq_iff)

lemma slInsert_untouched_ok:
  assumes "\<And>j. i \<le> j \<Longrightarrow> j < i + k \<Longrightarrow> upd j = Some (U j) \<and> j < ht h (U j)"
  shows "\<exists>h'. slInsert_untouched upd i k h = Some h' \<and> nb h' = nb h \<and> ht h' = ht h \<and>
    lv h' = (\<lambda>b j. if i \<le> j \<and> j < i + k \<and> b = U j then map_option (\<lambda>(f, s). (f, s + 1)) (lv h b j) else lv h b j)"
  using assms
proof (induction k arbitrary: i h)
  case (Suc k)
  have u: "upd i = Some (U i)" "i < ht h (U i)" using Suc.prems[of i] by auto
  then obtain f s where f: "lv h (U i) i = Some (f, s)" using lv_Some by (metis surj_pair)
  obtain h1 where h1: "set_lv h (U i) i (f, s + 1) = Some h1" "nb h1 = nb h" "ht h1 = ht h"
    "lv h1 = (\<lambda>b j. if b = U i \<and> j = i then Some (f, s + 1) else lv h b j)"
    using set_lv_ok[OF u(2)] by blast
  from Suc.IH[of "i + 1" h1] Suc.prems h1(3) obtain h' where h': "slInsert_untouched upd (i + 1) k h1 = Some h'" "nb h' = nb h1" "ht h' = ht h1"
    "lv h' = (\<lambda>b j. if i + 1 \<le> j \<and> j < i + 1 + k \<and> b = U j then map_option (\<lambda>(f, s). (f, s + 1)) (lv h1 b j) else lv h1 b j)" by auto
  have "slInsert_untouched upd i (Suc k) h = Some h'" using u f h1(1) h'(1) by simp
  moreover have "lv h' = (\<lambda>b j. if i \<le> j \<and> j < i + Suc k \<and> b = U j then map_option (\<lambda>(f, s). (f, s + 1)) (lv h b j) else lv h b j)"
    unfolding h'(4) h1(4) using f by (intro ext) (auto simp: not_le le_less_Suc_eq dest!: antisym_conv2)
  ultimately show ?case using h' h1 by auto
qed (auto simp: fun_eq_iff)

lemma inv_tall: "sl_inv h sl xs \<Longrightarrow> i < slevel sl \<Longrightarrow> i < ht h ((header sl # xs) ! lastpos (ht h) i (header sl # xs) N)"
  using lastpos_tall[of i "ht h" "header sl # xs" N] sl_invD(4,5)[of h sl xs] by simp

lemma inv_lastpos_0:
  assumes "sl_inv h sl xs" "N \<le> length xs"
  shows "lastpos (ht h) 0 (header sl # xs) N = N"
proof (rule lastpos_0)
  show "0 < ht h ((header sl # xs) ! r)" if "0 < r" "r \<le> N" for r
    using sl_invD(6)[OF assms(1), of "xs ! (r - 1)"] that assms(2) by (auto simp: nth_Cons')
qed (use sl_invD(5)[OF assms(1)] in simp)

lemma inv_distinct: "sl_inv h sl xs \<Longrightarrow> p \<le> length xs \<Longrightarrow> q \<le> length xs \<Longrightarrow>
   ((header sl # xs) ! p = (header sl # xs) ! q) = (p = q)"
  using sl_invD(1,2)[of h sl xs] nth_eq_iff_index_eq[of "header sl # xs" p q] by (simp add: less_Suc_eq_le)

lemma inv_levels:
  assumes "sl_inv h sl xs" "p \<le> length xs" "i < ht h ((header sl # xs) ! p)"
  shows "\<exists>s. lv h ((header sl # xs) ! p) i = Some (fwd (ht h) i (drop p xs), s) \<and> (i < slevel sl \<longrightarrow> s = of_nat (spn (ht h) i (drop p xs)))"
  using assms by (simp add: sl_inv_def)

text \<open>The levels after an insertion behind position \<open>N\<close>.\<close>

lemma inserted_levels:
  fixes N level :: nat
  assumes inv: "sl_inv h sl xs" and N: "N \<le> length xs" and new: "new \<notin> set (header sl # xs)"
    and lev: "level \<le> slevel sl" and t': "t' = (ht h)(new := level)"
    and L: "\<And>b j. b \<noteq> new \<Longrightarrow> L b j = (if b = (header sl # xs) ! lastpos (ht h) j (header sl # xs) N \<and> j < slevel sl then
        if j < level then Some (Some new, of_nat N - of_nat (lastpos (ht h) j (header sl # xs) N) + 1)
        else map_option (\<lambda>(f, s). (f, s + 1)) (lv h b j) else lv h b j)"
    and Ln: "\<And>j. j < level \<Longrightarrow> L new j = map_option (\<lambda>(f, s). (f, s - (of_nat N - of_nat (lastpos (ht h) j (header sl # xs) N))))
        (lv h ((header sl # xs) ! lastpos (ht h) j (header sl # xs) N) j)"
    and p: "p \<le> length xs + 1" and i: "i < t' ((header sl # take N xs @ new # drop N xs) ! p)"
  shows "\<exists>s. L ((header sl # take N xs @ new # drop N xs) ! p) i = Some (fwd t' i (drop p (take N xs @ new # drop N xs)), s) \<and>
    (i < slevel sl \<longrightarrow> s = of_nat (spn t' i (drop p (take N xs @ new # drop N xs))))"
proof -
  let ?A = "header sl # xs" and ?t = "ht h" and ?P = "\<lambda>j. lastpos (ht h) j (header sl # xs) N"
  have P: "?P j \<le> N" for j by (rule lastpos_le)
  have nxs: "new \<notin> set xs" "\<forall>a. a \<noteq> new \<longrightarrow> t' a = ?t a" using new t' by auto
  have An: "?A ! q \<noteq> new" if "q \<le> length xs" for q using new that nth_mem[of q ?A] by (metis le_imp_less_Suc length_Cons)
  have cong: "fwd t' i (drop q xs) = fwd ?t i (drop q xs)" "spn t' i (drop q xs) = spn ?t i (drop q xs)" for q
    using nxs by (metis fwd_cong in_set_dropD, metis spn_cong in_set_dropD)
  note nth = nth_inserted[OF N p, of "header sl" new]
  consider "p \<le> N" | "p = N + 1" | "N + 1 < p" by linarith
  then show ?thesis
  proof cases
    case 1
    have b: "?A ! p \<noteq> new" "p \<le> length xs" using An 1 N by auto
    have it: "i < ?t (?A ! p)" using i b 1 by (simp add: nth t')
    obtain s where s: "lv h (?A ! p) i = Some (fwd ?t i (drop p xs), s)" "i < slevel sl \<longrightarrow> s = of_nat (spn ?t i (drop p xs))"
      using inv_levels[OF inv b(2) it] by blast
    have eq: "(?A ! p = ?A ! ?P i) = (?P i = p)" using inv_distinct[OF inv b(2), of "?P i"] P[of i] N by auto
    have w: "of_nat N - of_nat p + 1 = (of_nat (N - p + 1) :: u32)" using 1 by (simp add: of_nat_diff)
    have lt: "i < level \<longleftrightarrow> i < t' new" by (simp add: t')
    note fs = fwd_spn_inserted[of p N xs i ?t "header sl" new t', OF 1 N it nxs]
    have "\<exists>s. L (?A ! p) i = Some (fwd t' i (drop p (take N xs @ new # drop N xs)), s) \<and>
      (i < slevel sl \<longrightarrow> s = of_nat (spn t' i (drop p (take N xs @ new # drop N xs))))"
      unfolding fs L[OF b(1)] eq using s lev w by (simp add: lt[symmetric]) 
    then show ?thesis using 1 unfolding nth by simp
  next
    case 2
    have i': "i < level" using i 2 unfolding nth by (simp add: t')
    let ?q = "?P i"
    have q: "?q \<le> N" "i < ?t (?A ! ?q)" using P inv_tall[OF inv] i' lev by auto
    have sh: "\<forall>a \<in> set (take (N - ?q) (drop ?q xs)). ?t a \<le> i" using segment_short[of ?q N xs i ?t "header sl"] q N by simp
    have e: "fwd ?t i (drop ?q xs) = fwd ?t i (drop N xs)" "spn ?t i (drop ?q xs) = N - ?q + spn ?t i (drop N xs)"
      using sh fwd_append[of ?t i "take (N - ?q) (drop ?q xs)" "drop N xs"] spn_append[of ?t i "take (N - ?q) (drop ?q xs)" "drop N xs"]
        drop_split[OF q(1) N] N q(1) by simp_all
    have "lv h (?A ! ?q) i = Some (fwd ?t i (drop N xs), of_nat (N - ?q + spn ?t i (drop N xs)))"
      using sl_invD(8)[OF inv _ q(2)] q N i' lev e by simp
    then show ?thesis using 2 Ln[OF i'] N q(1) nxs unfolding nth by (simp add: cong of_nat_diff)
  next
    case 3
    have p1: "p - 1 \<le> length xs" "p - 1 \<noteq> ?P i" using 3 p P[of i] by auto
    then have b: "?A ! (p - 1) \<noteq> new" "?A ! (p - 1) \<noteq> ?A ! ?P i" using An inv_distinct[OF inv p1(1), of "?P i"] P[of i] N by auto
    have it: "i < ?t (?A ! (p - 1))" using i 3 b(1) by (simp add: nth t')
    have "drop p (take N xs @ new # drop N xs) = drop (p - 1) xs" using 3 N by (intro drop_inserted_after) auto
    then show ?thesis using inv_levels[OF inv p1(1) it] 3 L[OF b(1), of i] b(2) N
      unfolding nth by (simp only: cong if_False simp_thms) auto
  qed
qed

lemma inserted_links:
  assumes nb: "\<And>p. p < length xs \<Longrightarrow> \<exists>ob s. B (xs ! p) = Some (Some ob, s, if p = 0 then None else Some (xs ! (p - 1)))"
    and N: "N \<le> length xs" and new: "new \<notin> set xs" "distinct xs"
    and B': "B' = (\<lambda>a. if a = new then Some (Some ob, s, if N = 0 then None else Some (xs ! (N - 1)))
        else if N < length xs \<and> a = xs ! N then map_option (\<lambda>(ob, s, _). (ob, s, Some new)) (B a) else B a)"
    and p: "p < length xs + 1"
  shows "\<exists>ob s. B' ((take N xs @ new # drop N xs) ! p) = Some (Some ob, s, if p = 0 then None else Some ((take N xs @ new # drop N xs) ! (p - 1)))"
proof -
  have nth: "(take N xs @ new # drop N xs) ! q = (if q < N then xs ! q else if q = N then new else xs ! (q - 1))" if "q < length xs + 1" for q
    using N that by (auto simp: nth_append nth_Cons' min_def)
  have nn: "xs ! q \<noteq> new" if "q < length xs" for q using new that by auto
  have d: "(xs ! q = xs ! r) = (q = r)" if "q < length xs" "r < length xs" for q r using new(2) that by (simp add: nth_eq_iff_index_eq)
  show ?thesis
  proof (cases "p < N")
    case True
    then have "p - 1 < N" "p - 1 < length xs + 1" using N by auto
    then have e: "(take N xs @ new # drop N xs) ! (p - 1) = xs ! (p - 1)" "(take N xs @ new # drop N xs) ! p = xs ! p"
      using nth[of "p - 1"] nth[OF p] True by simp_all
    show ?thesis unfolding e using nb[of p] N nn[of p] d[of p N] True by (auto simp: B')
  next
    case False
    show ?thesis
    proof (cases "p = N")
      case True
      then show ?thesis using p N by (auto simp: nth B')
    next
      case F2: False
      then have q: "N < p" "p - 1 < length xs" "p - 1 < length xs + 1" using False p by auto
      have e: "(take N xs @ new # drop N xs) ! (p - 1) = (if p - 1 = N then new else xs ! (p - 1 - 1))"
        "(take N xs @ new # drop N xs) ! p = xs ! (p - 1)"
        using nth[OF q(3)] nth[OF p] q by auto
      show ?thesis unfolding e using nb[OF q(2)] nn[OF q(2)] d[of "p - 1" N] q N by (auto simp: B')
    qed
  qed
qed


lemma fwd_0:
  assumes "sl_inv h sl xs" "N \<le> length xs"
  shows "fwd (ht h) 0 (drop N xs) = (if N < length xs then Some (xs ! N) else None)"
proof (cases "drop N xs")
  case (Cons a ys)
  then have "a = xs ! N" "N < length xs" using assms(2) by (metis hd_drop_conv_nth list.sel(1) drop_eq_Nil le_neq_implies_less list.distinct(1))+
  then show ?thesis using Cons sl_invD(6)[OF assms(1), of a] by simp
qed (use assms(2) in simp)

text \<open>From the point where the update table covers all levels of the list.\<close>

definition sl_splice :: "addr \<Rightarrow> addr option \<Rightarrow> (nat \<Rightarrow> addr option \<times> u32) \<Rightarrow> 's slheap \<Rightarrow> skiplist \<Rightarrow> 's \<Rightarrow> mem \<Rightarrow> updates \<Rightarrow> ranks \<Rightarrow> nat \<Rightarrow> nat
    \<Rightarrow> ('s slheap \<times> skiplist \<times> nat) option" where
  "sl_splice new jb jl h sl score obj upd rk level c = do {
     guard (h new = None);
     let h = h(new \<mapsto> slCreateNode jb jl level score (Some obj));
     h \<leftarrow> slInsert_link new upd rk 0 level h;
     h \<leftarrow> slInsert_untouched upd level (slevel sl - level) h;
     u0 \<leftarrow> upd 0;
     h \<leftarrow> set_backward h new (if u0 = header sl then None else Some u0);
     (f, _) \<leftarrow> lv h new 0;
     (h, sl) \<leftarrow> (case f of Some y \<Rightarrow> do { h \<leftarrow> set_backward h y (Some new); Some (h, sl) }
                         | None \<Rightarrow> Some (h, sl\<lparr>tail := Some new\<rparr>));
     Some (h, sl\<lparr>slength := slength sl + 1\<rparr>, c) }"

lemma splice_levels:
  assumes inv: "sl_inv h sl xs" and N: "N \<le> length xs" and new: "h new = None" and lev: "1 \<le> level" "level \<le> slevel sl"
    and upd: "\<And>i. i < slevel sl \<Longrightarrow> upd i = Some ((header sl # xs) ! lastpos (ht h) i (header sl # xs) N)"
    and rk: "\<And>i. i < slevel sl \<Longrightarrow> rk i = Some (of_nat (lastpos (ht h) i (header sl # xs) N))"
    and h1_def: "h1 = h(new \<mapsto> slCreateNode jb jl level score (Some obj))"
  shows "\<exists>h2 h3. slInsert_link new upd rk 0 level h1 = Some h2 \<and> slInsert_untouched upd level (slevel sl - level) h2 = Some h3 \<and>
    nb h3 = (nb h)(new \<mapsto> (Some obj, score, jb)) \<and> ht h3 = (ht h)(new := level) \<and>
    (\<forall>b j. b \<noteq> new \<longrightarrow> lv h3 b j = (if b = (header sl # xs) ! lastpos (ht h) j (header sl # xs) N \<and> j < slevel sl then
        if j < level then Some (Some new, of_nat N - of_nat (lastpos (ht h) j (header sl # xs) N) + 1)
        else map_option (\<lambda>(f, s). (f, s + 1)) (lv h b j) else lv h b j)) \<and>
    (\<forall>j < level. lv h3 new j = map_option (\<lambda>(f, s). (f, s - (of_nat N - of_nat (lastpos (ht h) j (header sl # xs) N))))
        (lv h ((header sl # xs) ! lastpos (ht h) j (header sl # xs) N) j))"
proof -
  let ?P = "\<lambda>j. lastpos (ht h) j (header sl # xs) N" and ?U = "\<lambda>j. (header sl # xs) ! lastpos (ht h) j (header sl # xs) N"
  have U: "?U j \<noteq> new" for j
    using inv_node[OF inv, of "?P j"] lastpos_le[of "ht h" j "header sl # xs" N] N new by fastforce
  have b1: "nb h1 = (nb h)(new \<mapsto> (Some obj, score, jb))" "ht h1 = (ht h)(new := level)"
    "lv h1 b = lv h b" if "b \<noteq> new" for b
    using that by (auto simp: h1_def nb_def ht_def lv_def slCreateNode_def fun_eq_iff)
  have nn: "header sl \<noteq> new" using sl_invD(11)[OF inv] new nb_Some by fastforce
  have t1: "j < ht h1 (?U j)" if "j < slevel sl" for j using inv_tall[OF inv that] U b1(2)[OF nn] by simp
  have r0: "rk 0 = Some (of_nat N)" using rk[of 0] lev inv_lastpos_0[OF inv N] by simp
  obtain h2 where h2: "slInsert_link new upd rk 0 level h1 = Some h2" "nb h2 = nb h1" "ht h2 = ht h1"
    "lv h2 = (\<lambda>b j. if 0 \<le> j \<and> j < 0 + level then
       if b = new then map_option (\<lambda>(f, s). (f, s - (of_nat N - of_nat (?P j)))) (lv h1 (?U j) j)
       else if b = ?U j then Some (Some new, (of_nat N - of_nat (?P j)) + 1) else lv h1 b j
      else lv h1 b j)"
    using slInsert_link_ok[of 0 level upd ?U rk "\<lambda>j. of_nat (?P j)" h1 new "of_nat N"] upd rk lev t1 U b1(2)[OF nn] r0 by auto
  have u2: "level \<le> j \<Longrightarrow> j < level + (slevel sl - level) \<Longrightarrow> upd j = Some (?U j) \<and> j < ht h2 (?U j)" for j
    using upd t1 h2(3) lev by simp
  from slInsert_untouched_ok[of level "slevel sl - level" upd ?U h2, OF u2] obtain h3 where
    h3: "slInsert_untouched upd level (slevel sl - level) h2 = Some h3" "nb h3 = nb h2" "ht h3 = ht h2"
    "lv h3 = (\<lambda>b j. if level \<le> j \<and> j < level + (slevel sl - level) \<and> b = ?U j then map_option (\<lambda>(f, s). (f, s + 1)) (lv h2 b j) else lv h2 b j)" by blast
  have l3: "lv h3 b j = (if b = ?U j \<and> j < slevel sl then
        if j < level then Some (Some new, of_nat N - of_nat (?P j) + 1)
        else map_option (\<lambda>(f, s). (f, s + 1)) (lv h b j) else lv h b j)" if "b \<noteq> new" for b j
    unfolding h3(4) h2(4) using that lev b1(3) by auto
  have ln: "lv h3 new j = map_option (\<lambda>(f, s). (f, s - (of_nat N - of_nat (?P j)))) (lv h (?U j) j)" if "j < level" for j
    unfolding h3(4) h2(4) using that b1(3)[OF U] by simp
  have n3: "nb h3 = (nb h)(new \<mapsto> (Some obj, score, jb))" "ht h3 = (ht h)(new := level)"
    by (simp_all only: h3 h2 b1(1,2)[OF nn])
  show ?thesis
    by (intro exI[of _ h2] exI[of _ h3] conjI allI impI) (rule h2(1), rule h3(1), rule n3, rule n3, erule l3, erule ln)
qed

lemma splice_ok:
  assumes inv: "sl_inv h sl xs" and N: "N \<le> length xs" and new: "h new = None" and lev: "1 \<le> level" "level \<le> slevel sl"
    and upd: "\<And>i. i < slevel sl \<Longrightarrow> upd i = Some ((header sl # xs) ! lastpos (ht h) i (header sl # xs) N)"
    and rk: "\<And>i. i < slevel sl \<Longrightarrow> rk i = Some (of_nat (lastpos (ht h) i (header sl # xs) N))"
  shows "\<exists>h' sl'. sl_splice new jb jl h sl score obj upd rk level c = Some (h', sl', c) \<and>
    sl_inv h' sl' (take N xs @ new # drop N xs) \<and> header sl' = header sl \<and> slevel sl' = slevel sl \<and>
    (\<forall>a. map_option (\<lambda>(ob, s, _). (ob, s)) (nb h' a) =
      (if a = new then Some (Some obj, score) else map_option (\<lambda>(ob, s, _). (ob, s)) (nb h a)))"
proof -
  let ?A = "header sl # xs" and ?xs = "take N xs @ new # drop N xs"
  have nn: "new \<notin> set ?A"
  proof
    assume "new \<in> set ?A"
    then obtain q where "q \<le> length xs" "?A ! q = new" by (metis in_set_conv_nth length_Cons less_Suc_eq_le)
    then show False using inv_node[OF inv, of q] new by simp
  qed
  obtain h2 h3 where s: "slInsert_link new upd rk 0 level (h(new \<mapsto> slCreateNode jb jl level score (Some obj))) = Some h2"
    "slInsert_untouched upd level (slevel sl - level) h2 = Some h3"
    "nb h3 = (nb h)(new \<mapsto> (Some obj, score, jb))" "ht h3 = (ht h)(new := level)"
    "\<And>b j. b \<noteq> new \<Longrightarrow> lv h3 b j = (if b = ?A ! lastpos (ht h) j ?A N \<and> j < slevel sl then
        if j < level then Some (Some new, of_nat N - of_nat (lastpos (ht h) j ?A N) + 1)
        else map_option (\<lambda>(f, s). (f, s + 1)) (lv h b j) else lv h b j)"
    "\<And>j. j < level \<Longrightarrow> lv h3 new j = map_option (\<lambda>(f, s). (f, s - (of_nat N - of_nat (lastpos (ht h) j ?A N)))) (lv h (?A ! lastpos (ht h) j ?A N) j)"
    using splice_levels[OF inv N new lev upd rk refl, of jb jl score obj] by blast
  have lvls: "\<exists>s. lv h3 ((header sl # ?xs) ! p) i = Some (fwd (ht h3) i (drop p ?xs), s) \<and> (i < slevel sl \<longrightarrow> s = of_nat (spn (ht h3) i (drop p ?xs)))"
    if "p \<le> length xs + 1" "i < ht h3 ((header sl # ?xs) ! p)" for p i
    using inserted_levels[OF inv N nn lev(2) s(4) s(5,6) that] .
  have lA: "lastpos (ht h) 0 ?A N = N" by (rule inv_lastpos_0[OF inv N])
  have u0: "upd 0 = Some (?A ! N)" using upd[of 0] lev lA by simp
  have A0: "(?A ! N = header sl) = (N = 0)" using inv_distinct[OF inv N, of 0] by simp
  define bk where "bk = (if N = 0 then None else Some (xs ! (N - 1)))"
  have bke: "(if ?A ! N = header sl then None else Some (?A ! N)) = bk" using A0 by (auto simp: bk_def nth_Cons')
  obtain h4 where h4: "set_backward h3 new bk = Some h4" "ht h4 = ht h3" "lv h4 = lv h3" "nb h4 = (nb h3)(new \<mapsto> (Some obj, score, bk))"
    using set_backward_ok[of h3 new "Some obj" score jb bk] s(3) by auto
  define nx where "nx = (if N < length xs then Some (xs ! N) else None)"
  have "lv h (?A ! N) 0 = Some (fwd (ht h) 0 (drop N xs), of_nat (spn (ht h) 0 (drop N xs)))"
    using sl_invD(8)[OF inv N] inv_tall[OF inv, of 0 N] lA lev by simp
  then have f4: "\<exists>w. lv h4 new 0 = Some (nx, w)" unfolding h4(3) using s(6)[of 0] lev lA fwd_0[OF inv N] by (simp add: nx_def)
  define B where "B = (\<lambda>a. if a = new then Some (Some obj, score, bk)
        else if N < length xs \<and> a = xs ! N then map_option (\<lambda>(ob, s, _). (ob, s, Some new)) (nb h a) else nb h a)"
  have nN: "N < length xs \<Longrightarrow> xs ! N \<noteq> new" using nn by auto
  have "\<exists>h5. (case nx of Some y \<Rightarrow> do { h \<leftarrow> set_backward h4 y (Some new); Some (h, sl) } | None \<Rightarrow> Some (h4, sl\<lparr>tail := Some new\<rparr>))
      = Some (h5, if N < length xs then sl else sl\<lparr>tail := Some new\<rparr>) \<and> ht h5 = ht h3 \<and> lv h5 = lv h3 \<and> nb h5 = B"
  proof (cases "N < length xs")
    case True
    then obtain ob s' where o: "nb h (xs ! N) = Some (Some ob, s', if N = 0 then None else Some (xs ! (N - 1)))" using sl_invD(10)[OF inv True] by auto
    then have "nb h4 (xs ! N) = Some (Some ob, s', if N = 0 then None else Some (xs ! (N - 1)))" using h4(4) s(3) nN[OF True] by simp
    from set_backward_ok[OF this, of "Some new"] show ?thesis
      using True h4 s(3) nN[OF True] o by (auto simp: nx_def B_def fun_eq_iff)
  next
    case False
    then show ?thesis using h4 s(3) by (auto simp: nx_def B_def fun_eq_iff)
  qed
  then obtain h5 where h5: "(case nx of Some y \<Rightarrow> do { h \<leftarrow> set_backward h4 y (Some new); Some (h, sl) } | None \<Rightarrow> Some (h4, sl\<lparr>tail := Some new\<rparr>))
      = Some (h5, if N < length xs then sl else sl\<lparr>tail := Some new\<rparr>)" "ht h5 = ht h3" "lv h5 = lv h3" "nb h5 = B" by blast
  define sl' where "sl' = (if N < length xs then sl else sl\<lparr>tail := Some new\<rparr>)\<lparr>slength := slength sl + 1\<rparr>"
  have "sl_splice new jb jl h sl score obj upd rk level c = Some (h5, sl', c)"
    using s(1,2) u0 h4(1) f4 h5(1) new bke unfolding sl_splice_def sl'_def by (auto simp: Let_def)
  moreover have "sl_inv h5 sl' ?xs"
    unfolding sl_inv_def
  proof (intro conjI)
    show "\<forall>p < length ?xs. \<exists>ob s. nb h5 (?xs ! p) = Some (Some ob, s, if p = 0 then None else Some (?xs ! (p - 1)))"
      using inserted_links[OF sl_invD(10)[OF inv] N _ sl_invD(2)[OF inv] B_def[unfolded bk_def]] nn N h5(4) by simp
    show "\<forall>p \<le> length ?xs. \<forall>i < ht h5 ((header sl' # ?xs) ! p). \<exists>s. lv h5 ((header sl' # ?xs) ! p) i = Some (fwd (ht h5) i (drop p ?xs), s) \<and>
        (i < slevel sl' \<longrightarrow> s = of_nat (spn (ht h5) i (drop p ?xs)))"
    proof -
      have e: "length ?xs = length xs + 1" "header sl' = header sl" "slevel sl' = slevel sl" using N by (auto simp: sl'_def)
      show ?thesis unfolding h5 e using lvls by blast
    qed
  qed (use sl_invD(1-5,11-13)[OF inv] sl_invD(6,7)[OF inv] nn N lev h5(2,4) s(4) nth_mem[of N xs]
          set_take_disj_set_drop_if_distinct[OF sl_invD(2)[OF inv], of N N] in
        \<open>auto simp: sl'_def B_def dest: in_set_takeD in_set_dropD\<close>)
  moreover have "map_option (\<lambda>(ob, s, _). (ob, s)) (nb h5 a) =
      (if a = new then Some (Some obj, score) else map_option (\<lambda>(ob, s, _). (ob, s)) (nb h a))" for a
    unfolding h5(4) B_def by (auto simp: option.map_comp o_def split: prod.splits intro!: option.map_cong)
  ultimately show ?thesis by (auto simp: sl'_def)
qed

lemma slRandomLevel_loop_ge: "slRandomLevel_loop rnd c l = Some (l', c') \<Longrightarrow> l \<le> l'"
proof -
  have "slRandomLevel_loop rnd c l = Some r \<Longrightarrow> l \<le> fst r" for r
    by (rule slRandomLevel_loop.raw_induct[of "\<lambda>rnd c l r. l \<le> fst r"]) (fastforce split: if_splits)
  then show "slRandomLevel_loop rnd c l = Some (l', c') \<Longrightarrow> l \<le> l'" by fastforce
qed

lemma slRandomLevel_range: "slRandomLevel rnd c = Some (level, c') \<Longrightarrow> 1 \<le> level \<and> level \<le> 32"
  using slRandomLevel_loop_ge[of rnd c 1]
  by (fastforce simp: slRandomLevel_def SKIPLIST_MAXLEVEL_def split: bind_splits if_splits)

lemma slRandomLevel_ends:
  assumes "\<not> 100 * (rnd k AND 0xffff) < 25 * 0xffff" "c \<le> k"
  shows "\<exists>level c'. slRandomLevel rnd c = Some (level, c')"
proof -
  have "\<exists>l' c'. slRandomLevel_loop rnd c l = Some (l', c')" for l
    using assms(2)
  proof (induction "k - c" arbitrary: c l)
    case 0
    then show ?case using assms(1) by (subst slRandomLevel_loop.simps) auto
  next
    case (Suc d)
    then have "d = k - (c + 1)" "c + 1 \<le> k" by auto
    from Suc.hyps(1)[OF this] show ?case by (subst slRandomLevel_loop.simps) auto
  qed
  then obtain l' c' where "slRandomLevel_loop rnd c 1 = Some (l', c')" by blast
  then show ?thesis by (auto simp: slRandomLevel_def)
qed

lemma raise_ok:
  assumes inv: "sl_inv h sl xs" and lev: "slevel sl < level" "level \<le> 32" and len: "length xs < 2 ^ 32"
    and upd: "\<And>i. i < slevel sl \<Longrightarrow> upd i = Some ((header sl # xs) ! lastpos (ht h) i (header sl # xs) N)"
    and rk: "\<And>i. i < slevel sl \<Longrightarrow> rk i = Some (of_nat (lastpos (ht h) i (header sl # xs) N))"
    and N: "N \<le> length xs"
  shows "\<exists>h' upd' rk'. slInsert_raise sl (slevel sl) (level - slevel sl) h upd rk = Some (h', upd', rk') \<and>
    sl_inv h' (sl\<lparr>slevel := level\<rparr>) xs \<and> nb h' = nb h \<and> ht h' = ht h \<and>
    (\<forall>i < level. upd' i = Some ((header sl # xs) ! lastpos (ht h) i (header sl # xs) N) \<and>
       rk' i = Some (of_nat (lastpos (ht h) i (header sl # xs) N)))"
proof -
  let ?l = "slevel sl" and ?H = "header sl"
  have "?l + (level - ?l) \<le> 32" using lev by simp
  from slInsert_raise_ok[OF this sl_invD(5)[OF inv], of upd rk] obtain h' where h':
    "slInsert_raise sl ?l (level - ?l) h upd rk =
      Some (h', (\<lambda>j. if ?l \<le> j \<and> j < ?l + (level - ?l) then Some ?H else upd j), (\<lambda>j. if ?l \<le> j \<and> j < ?l + (level - ?l) then Some 0 else rk j))"
    "nb h' = nb h" "ht h' = ht h"
    "lv h' = (\<lambda>b j. if b = ?H \<and> ?l \<le> j \<and> j < ?l + (level - ?l) then map_option (\<lambda>(f, _). (f, ucast (slength sl))) (lv h b j) else lv h b j)"
    by blast
  have short: "ht h a \<le> i" if "a \<in> set xs" "?l \<le> i" for a i using sl_invD(7)[OF inv that(1)] that(2) by simp
  have lp: "lastpos (ht h) i (?H # xs) N = 0" if "?l \<le> i" "i < level" for i
  proof (rule lastpos_unique)
    show "ht h ((?H # xs) ! r) \<le> i" if "0 < r" "r \<le> N" for r using short[of "xs ! (r - 1)" i] \<open>?l \<le> i\<close> that N by (auto simp: nth_Cons')
  qed (use sl_invD(5)[OF inv] that lev in auto)
  have sp: "ucast (slength sl) = (of_nat (length xs) :: u32)"
    unfolding sl_invD(13)[OF inv] using len
    by (intro bit_word_eqI) (auto simp: bit_ucast_iff bit_of_nat_iff)
  have nofwd: "fwd (ht h) i xs = None" "spn (ht h) i xs = length xs" if "?l \<le> i" for i
    using short that spn_append[of "ht h" i xs "[]"] by (auto simp: fwd_None)
  let ?sl = "sl\<lparr>slevel := level\<rparr>"
  have "\<exists>s. lv h' ((?H # xs) ! p) i = Some (fwd (ht h) i (drop p xs), s) \<and> (i < level \<longrightarrow> s = of_nat (spn (ht h) i (drop p xs)))"
    if p: "p \<le> length xs" and i: "i < ht h ((?H # xs) ! p)" for p i
  proof (cases "i < ?l")
    case True
    then show ?thesis using sl_invD(8)[OF inv p i True] h'(4) by simp
  next
    case False
    then have "p = 0" using i p sl_invD(7)[OF inv, of "xs ! (p - 1)"] by (cases p) auto
    then show ?thesis using False i sl_invD(9)[OF inv, of i] sl_invD(5)[OF inv] h'(4) lev sp nofwd[of i] by auto
  qed
  then have "sl_inv h' ?sl xs"
    using sl_invD(1-5,10-13)[OF inv] sl_invD(6)[OF inv] short[of _ level] lev unfolding sl_inv_def h'(2,3)
    by auto
  then show ?thesis using h'(1-3) upd rk lp lev by fastforce
qed

theorem slInsert_ok:
  assumes inv: "sl_inv h sl xs" and N: "prefix_cond (before score obj :: _ \<Rightarrow> u32 \<Rightarrow> _) h xs N" and new: "h new = None"
    and len: "length xs < 2 ^ 32" and rnd: "slRandomLevel rnd c = Some (level, c')"
  shows "\<exists>h' sl'. slInsert rnd c new jb jl h sl score obj = Some (h', sl', c') \<and>
    sl_inv h' sl' (take N xs @ new # drop N xs) \<and> header sl' = header sl \<and>
    (\<forall>a. map_option (\<lambda>(ob, s, _). (ob, s)) (nb h' a) =
      (if a = new then Some (Some obj, score) else map_option (\<lambda>(ob, s, _). (ob, s)) (nb h a)))"
proof -
  let ?A = "header sl # xs"
  have N': "N \<le> length xs" using N by (simp add: prefix_cond_def)
  have lev: "1 \<le> level" "level \<le> 32" using slRandomLevel_range[OF rnd] by auto
  have "slevel sl \<le> ht h (?A ! 0)" using sl_invD(4,5)[OF inv] by simp
  from sl_descend_ok[OF inv N _ len le0 this order_refl, of Map.empty Map.empty] obtain x r upd rk where d:
    "sl_descend (before score obj) h (slevel sl) (header sl) (0 :: u32) Map.empty Map.empty = Some (x, r, upd, rk)"
    "\<And>i. i < slevel sl \<Longrightarrow> upd i = Some (?A ! lastpos (ht h) i ?A N)"
    "\<And>i. i < slevel sl \<Longrightarrow> rk i = Some (of_nat (lastpos (ht h) i ?A N))" by auto
  show ?thesis
  proof (cases "level > slevel sl")
    case True
    from raise_ok[OF inv True lev(2) len d(2,3) N'] obtain h1 upd1 rk1 where h1:
      "slInsert_raise sl (slevel sl) (level - slevel sl) h upd rk = Some (h1, upd1, rk1)"
      "sl_inv h1 (sl\<lparr>slevel := level\<rparr>) xs" "nb h1 = nb h" "ht h1 = ht h"
      "\<forall>i < level. upd1 i = Some (?A ! lastpos (ht h) i ?A N) \<and> rk1 i = Some (of_nat (lastpos (ht h) i ?A N))" by blast
    have n1: "h1 new = None" using h1(3) new by (metis nb_None)
    have "slInsert rnd c new jb jl h sl score obj = sl_splice new jb jl h1 (sl\<lparr>slevel := level\<rparr>) score obj upd1 rk1 level c'"
      using d(1) rnd h1(1) True by (simp add: slInsert_def sl_splice_def Let_def)
    moreover have "\<exists>h' sl'. sl_splice new jb jl h1 (sl\<lparr>slevel := level\<rparr>) score obj upd1 rk1 level c' = Some (h', sl', c') \<and>
      sl_inv h' sl' (take N xs @ new # drop N xs) \<and> header sl' = header (sl\<lparr>slevel := level\<rparr>) \<and> slevel sl' = slevel (sl\<lparr>slevel := level\<rparr>) \<and>
      (\<forall>a. map_option (\<lambda>(ob, s, _). (ob, s)) (nb h' a) = (if a = new then Some (Some obj, score) else map_option (\<lambda>(ob, s, _). (ob, s)) (nb h1 a)))"
      by (rule splice_ok[OF h1(2) N' n1 lev(1)]) (use h1(4,5) in simp_all)
    ultimately show ?thesis unfolding h1(3) by (auto simp del: map_option_eq_Some)
  next
    case False
    have "slInsert rnd c new jb jl h sl score obj = sl_splice new jb jl h sl score obj upd rk level c'"
      using d(1) rnd False by (simp add: slInsert_def sl_splice_def Let_def)
    moreover have "level \<le> slevel sl" using False by simp
    note splice_ok[OF inv N' new lev(1) this d(2,3), of jb jl score obj c']
    ultimately show ?thesis by (auto simp del: map_option_eq_Some)
  qed
qed

section \<open>Taking a node out\<close>

lemma slDeleteNode_loop_ok:
  assumes "\<And>j. i \<le> j \<Longrightarrow> j < i + k \<Longrightarrow> upd j = Some (U j) \<and> j < ht h (U j) \<and> U j \<noteq> x \<and>
      (\<exists>f s. lv h (U j) j = Some (f, s) \<and> (f = Some x \<longrightarrow> j < ht h x))"
  shows "\<exists>h'. slDeleteNode_loop x upd i k h = Some h' \<and> nb h' = nb h \<and> ht h' = ht h \<and>
    lv h' = (\<lambda>b j. if i \<le> j \<and> j < i + k \<and> b = U j then
       (case lv h b j of None \<Rightarrow> None | Some (f, s) \<Rightarrow>
          if f = Some x then map_option (\<lambda>(fx, sx). (fx, s + (sx - 1))) (lv h x j) else Some (f, s - 1))
      else lv h b j)"
  using assms
proof (induction k arbitrary: i h)
  case (Suc k)
  obtain f s where u: "upd i = Some (U i)" "i < ht h (U i)" "U i \<noteq> x" "lv h (U i) i = Some (f, s)" "f = Some x \<longrightarrow> i < ht h x"
    using Suc.prems[of i] by auto
  obtain fx sx where fx: "f = Some x \<longrightarrow> lv h x i = Some (fx, sx)" using u(5) lv_Some by (metis surj_pair)
  define v where "v = (if f = Some x then (fx, s + (sx - 1)) else (f, s - 1))"
  obtain h1 where h1: "set_lv h (U i) i v = Some h1" "nb h1 = nb h" "ht h1 = ht h"
    "lv h1 = (\<lambda>b j. if b = U i \<and> j = i then Some v else lv h b j)" using set_lv_ok[OF u(2)] by blast
  have pr: "upd j = Some (U j) \<and> j < ht h1 (U j) \<and> U j \<noteq> x \<and> (\<exists>f s. lv h1 (U j) j = Some (f, s) \<and> (f = Some x \<longrightarrow> j < ht h1 x))"
    if "i + 1 \<le> j" "j < i + 1 + k" for j using Suc.prems[of j] that h1(3,4) by auto
  from Suc.IH[of "i + 1" h1, OF pr] obtain h' where h': "slDeleteNode_loop x upd (i + 1) k h1 = Some h'" "nb h' = nb h1" "ht h' = ht h1"
    "lv h' = (\<lambda>b j. if i + 1 \<le> j \<and> j < i + 1 + k \<and> b = U j then
       (case lv h1 b j of None \<Rightarrow> None | Some (f, s) \<Rightarrow>
          if f = Some x then map_option (\<lambda>(fx, sx). (fx, s + (sx - 1))) (lv h1 x j) else Some (f, s - 1))
      else lv h1 b j)" by auto
  have "slDeleteNode_loop x upd i (Suc k) h = Some h'" using u h1(1) h'(1) fx by (auto simp: v_def)
  moreover have "lv h' = (\<lambda>b j. if i \<le> j \<and> j < i + Suc k \<and> b = U j then
       (case lv h b j of None \<Rightarrow> None | Some (f, s) \<Rightarrow>
          if f = Some x then map_option (\<lambda>(fx, sx). (fx, s + (sx - 1))) (lv h x j) else Some (f, s - 1))
      else lv h b j)"
  proof (intro ext)
    fix b j
    show "lv h' b j = (if i \<le> j \<and> j < i + Suc k \<and> b = U j then
       (case lv h b j of None \<Rightarrow> None | Some (f, s) \<Rightarrow>
          if f = Some x then map_option (\<lambda>(fx, sx). (fx, s + (sx - 1))) (lv h x j) else Some (f, s - 1))
      else lv h b j)"
      unfolding h'(4) h1(4) using u(3,4) fx by (cases "j = i") (auto simp: v_def)
  qed
  ultimately show ?case using h' h1 by auto
qed (auto simp: fun_eq_iff)

lemma drop_deleted: "p \<le> N \<Longrightarrow> N < length xs \<Longrightarrow> drop p (take N xs @ drop (Suc N) xs) = take (N - p) (drop p xs) @ drop (Suc N) xs"
  by (simp add: drop_take)

lemma drop_deleted_after: "N \<le> p \<Longrightarrow> N < length xs \<Longrightarrow> drop p (take N xs @ drop (Suc N) xs) = drop (Suc p) xs"
proof -
  assume a: "N \<le> p" "N < length xs"
  then have "length (take N xs) = N" "p - N + Suc N = Suc p" "drop p (take N xs) = []" by auto
  then show ?thesis by (simp only: drop_append drop_drop append_Nil)
qed

lemma nth_deleted: "N < length xs \<Longrightarrow> p < length xs \<Longrightarrow>
   (hh # take N xs @ drop (Suc N) xs) ! p = (if p \<le> N then (hh # xs) ! p else (hh # xs) ! Suc p)"
proof -
  assume a: "N < length xs" "p < length xs"
  show ?thesis
  proof (cases p)
    case (Suc q)
    then have "(take N xs @ drop (Suc N) xs) ! q = (if q < N then xs ! q else xs ! Suc q)"
      using a by (simp add: nth_append)
    then show ?thesis using Suc by simp
  qed simp
qed

lemma deleted_levels:
  assumes inv: "sl_inv h sl xs" and N: "N < length xs" and p: "p < length xs"
    and L: "\<And>b j. L b j = (if j < slevel sl \<and> b = (header sl # xs) ! lastpos (ht h) j (header sl # xs) N then
       (case lv h b j of None \<Rightarrow> None | Some (f, s) \<Rightarrow>
          if f = Some (xs ! N) then map_option (\<lambda>(fx, sx). (fx, s + (sx - 1))) (lv h (xs ! N) j) else Some (f, s - 1))
      else lv h b j)"
    and i: "i < ht h ((header sl # take N xs @ drop (Suc N) xs) ! p)"
  shows "\<exists>s. L ((header sl # take N xs @ drop (Suc N) xs) ! p) i = Some (fwd (ht h) i (drop p (take N xs @ drop (Suc N) xs)), s) \<and>
    (i < slevel sl \<longrightarrow> s = of_nat (spn (ht h) i (drop p (take N xs @ drop (Suc N) xs))))"
proof -
  let ?A = "header sl # xs" and ?t = "ht h" and ?P = "lastpos (ht h) i (header sl # xs) N" and ?ys = "take N xs @ drop (Suc N) xs" and ?x = "xs ! N"
  note nth = nth_deleted[OF N p, of "header sl"]
  have P: "?P \<le> N" by (rule lastpos_le)
  show ?thesis
  proof (cases "p \<le> N")
    case True
    have p': "p \<le> length xs" using p by simp
    have it: "i < ?t (?A ! p)" using i True by (simp add: nth)
    obtain s where s: "lv h (?A ! p) i = Some (fwd ?t i (drop p xs), s)" "i < slevel sl \<longrightarrow> s = of_nat (spn ?t i (drop p xs))"
      using inv_levels[OF inv p' it] by blast
    let ?u = "take (N - p) (drop p xs)" and ?v = "drop (Suc N) xs"
    have dx: "drop p xs = ?u @ ?x # ?v" using drop_split[OF True less_imp_le[OF N]] Cons_nth_drop_Suc[OF N] by (simp only:)
    have l: "length ?u = N - p" using N by simp
    note sh = segment_short[of p N xs i ?t "header sl", OF True less_imp_le[OF N] it]
    have fs: "fwd ?t i (drop p xs) = (if ?P = p then if i < ?t ?x then Some ?x else fwd ?t i ?v else fwd ?t i ?u)"
      "spn ?t i (drop p xs) = (if ?P = p then N - p + (if i < ?t ?x then 1 else Suc (spn ?t i ?v)) else spn ?t i ?u)"
      "fwd ?t i (drop p ?ys) = (if ?P = p then fwd ?t i ?v else fwd ?t i ?u)"
      "spn ?t i (drop p ?ys) = (if ?P = p then N - p + spn ?t i ?v else spn ?t i ?u)"
      unfolding drop_deleted[OF True N] arg_cong[OF dx, of "fwd ?t i"] arg_cong[OF dx, of "spn ?t i"]
      unfolding fwd_append spn_append sh l by (simp_all only: fwd.simps spn.simps split: if_split)
    have eq: "(?A ! p = ?A ! ?P) = (?P = p)" using inv_distinct[OF inv p', of ?P] P N by auto
    have nf: "fwd ?t i ?v \<noteq> Some ?x" using sl_invD(2)[OF inv] fwd_Some[of ?t i ?v ?x] N
      by (auto simp: nth_eq_iff_index_eq)
    have lx: "i < ?t ?x \<Longrightarrow> i < slevel sl \<Longrightarrow> lv h ?x i = Some (fwd ?t i ?v, of_nat (spn ?t i ?v))"
      using sl_invD(8)[OF inv, of "Suc N" i] N by simp
    have lt: "i < ?t ?x \<Longrightarrow> i < slevel sl" using sl_invD(7)[OF inv, of ?x] N by (auto intro: less_le_trans)
    have "\<exists>s. L (?A ! p) i = Some (fwd ?t i (drop p ?ys), s) \<and> (i < slevel sl \<longrightarrow> s = of_nat (spn ?t i (drop p ?ys)))"
      unfolding L eq s(1) fs(3,4) using fs(1,2) s(2) lx nf lt
      by (cases "?P = p"; cases "i < ?t ?x"; cases "i < slevel sl") simp_all
    then show ?thesis using True unfolding nth by simp
  next
    case False
    have p1: "Suc p \<le> length xs" "Suc p \<noteq> ?P" using False p P by auto
    have b: "?A ! Suc p \<noteq> ?A ! ?P" using inv_distinct[OF inv p1(1), of ?P] P N p1(2) by auto
    have it: "i < ?t (?A ! Suc p)" using i False by (simp add: nth)
    have "drop p ?ys = drop (Suc p) xs" using False N by (intro drop_deleted_after) auto
    then show ?thesis using inv_levels[OF inv p1(1) it] False b unfolding nth L by simp
  qed
qed

lemma slDeleteNode_lower_ok:
  assumes "\<And>i. i < l \<Longrightarrow> \<exists>s. lv h hdr i = Some (fwd t i ys, s)" "1 \<le> l" "\<forall>a \<in> set ys. t a \<le> l"
  shows "\<exists>l'. slDeleteNode_lower h hdr l = Some l' \<and> 1 \<le> l' \<and> l' \<le> l \<and> (\<forall>a \<in> set ys. t a \<le> l')"
  using assms
proof (induction h hdr l rule: slDeleteNode_lower.induct)
  case (1 h hdr l)
  obtain s where s: "lv h hdr (Suc l) = Some (fwd t (Suc l) ys, s)" using 1(2)[of "Suc l"] by auto
  show ?case
  proof (cases "fwd t (Suc l) ys = None")
    case True
    then have "\<forall>a \<in> set ys. t a \<le> Suc l" by (simp add: fwd_None)
    then show ?thesis using 1(1)[OF s refl True] 1(2) s True by (auto simp: le_SucI)
  qed (use 1(4) s in auto)
qed auto


lemma deleted_links:
  assumes nb: "\<And>p. p < length xs \<Longrightarrow> \<exists>ob s. B (xs ! p) = Some (Some ob, s, if p = 0 then None else Some (xs ! (p - 1)))"
    and N: "N < length xs" and d: "distinct xs"
    and B': "B' = (\<lambda>a. if Suc N < length xs \<and> a = xs ! Suc N then
         map_option (\<lambda>(ob, s, _). (ob, s, if N = 0 then None else Some (xs ! (N - 1)))) (B a) else B a)"
    and p: "p < length xs - 1"
  shows "\<exists>ob s. B' ((take N xs @ drop (Suc N) xs) ! p) = Some (Some ob, s, if p = 0 then None else Some ((take N xs @ drop (Suc N) xs) ! (p - 1)))"
proof -
  have nth: "(take N xs @ drop (Suc N) xs) ! q = (if q < N then xs ! q else xs ! Suc q)" if "q < length xs - 1" for q
    using N that by (simp add: nth_append)
  have d: "(xs ! q = xs ! r) = (q = r)" if "q < length xs" "r < length xs" for q r using d that by (simp add: nth_eq_iff_index_eq)
  have p1: "p - 1 < length xs - 1" using p by simp
  show ?thesis
  proof (cases "p < N")
    case True
    then have "p < length xs" "p \<noteq> Suc N" using N by auto
    then show ?thesis unfolding nth[OF p] nth[OF p1] using nb[of p] d[of p "Suc N"] True by (auto simp: B')
  next
    case False
    then show ?thesis unfolding nth[OF p] nth[OF p1] using nb[of "Suc p"] d[of "Suc p" "Suc N"] p by (cases p) (auto simp: B')
  qed
qed

definition objs :: "'s slheap \<Rightarrow> addr \<Rightarrow> (mem option \<times> 's) option" where
  "objs h a = map_option (\<lambda>n. (n_obj n, n_score n)) (h a)"

lemma objs_nb: "objs h a = map_option (\<lambda>(ob, s, _). (ob, s)) (nb h a)"
  by (simp add: objs_def nb_def option.map_comp o_def)

theorem slDeleteNode_ok:
  assumes inv: "sl_inv h sl xs" and N: "N < length xs"
    and upd: "\<And>i. i < slevel sl \<Longrightarrow> upd i = Some ((header sl # xs) ! lastpos (ht h) i (header sl # xs) N)"
  shows "\<exists>h' sl'. slDeleteNode h sl (xs ! N) upd = Some (h', sl') \<and> sl_inv h' sl' (take N xs @ drop (Suc N) xs) \<and>
    header sl' = header sl \<and> slevel sl' \<le> slevel sl \<and> objs h' = objs h \<and> ht h' = ht h"
proof -
  let ?A = "header sl # xs" and ?x = "xs ! N" and ?ys = "take N xs @ drop (Suc N) xs" and ?P = "\<lambda>j. lastpos (ht h) j (header sl # xs) N"
  have Nl: "N \<le> length xs" using N by simp
  have P: "?P j \<le> N" for j by (rule lastpos_le)
  have Ux: "?A ! ?P j \<noteq> ?x" for j
  proof -
    have "?A ! ?P j \<noteq> ?A ! Suc N" using inv_distinct[OF inv, of "?P j" "Suc N"] P[of j] N by auto
    then show ?thesis by simp
  qed
  have pr: "upd j = Some (?A ! ?P j) \<and> j < ht h (?A ! ?P j) \<and> ?A ! ?P j \<noteq> ?x \<and>
      (\<exists>f s. lv h (?A ! ?P j) j = Some (f, s) \<and> (f = Some ?x \<longrightarrow> j < ht h ?x))" if "0 \<le> j" "j < 0 + slevel sl" for j
  proof -
    have j: "j < slevel sl" using that by simp
    have l: "lv h (?A ! ?P j) j = Some (fwd (ht h) j (drop (?P j) xs), of_nat (spn (ht h) j (drop (?P j) xs)))"
      using sl_invD(8)[OF inv _ inv_tall[OF inv j] j] P[of j] Nl by simp
    then show ?thesis using upd[OF j] inv_tall[OF inv j] Ux fwd_Some by (intro conjI) (auto dest!: fwd_Some)
  qed
  from slDeleteNode_loop_ok[of 0 "slevel sl" upd "\<lambda>j. ?A ! ?P j" h ?x, OF pr] obtain h1 where h1:
    "slDeleteNode_loop ?x upd 0 (slevel sl) h = Some h1" "nb h1 = nb h" "ht h1 = ht h"
    "lv h1 = (\<lambda>b j. if 0 \<le> j \<and> j < 0 + slevel sl \<and> b = ?A ! ?P j then
       (case lv h b j of None \<Rightarrow> None | Some (f, s) \<Rightarrow>
          if f = Some ?x then map_option (\<lambda>(fx, sx). (fx, s + (sx - 1))) (lv h ?x j) else Some (f, s - 1))
      else lv h b j)" by blast
  have lvls: "\<exists>s. lv h1 ((header sl # ?ys) ! p) i = Some (fwd (ht h) i (drop p ?ys), s) \<and> (i < slevel sl \<longrightarrow> s = of_nat (spn (ht h) i (drop p ?ys)))"
    if "p < length xs" "i < ht h ((header sl # ?ys) ! p)" for p i
    using that by (intro deleted_levels[OF inv N]) (auto simp: h1(4))
  obtain ob sc where x: "nb h ?x = Some (Some ob, sc, if N = 0 then None else Some (xs ! (N - 1)))" using sl_invD(10)[OF inv N] by blast
  define nx where "nx = (if Suc N < length xs then Some (xs ! Suc N) else None)"
  define bk where "bk = (if N = 0 then None else Some (xs ! (N - 1)))"
  have "lv h ?x 0 = Some (nx, of_nat (spn (ht h) 0 (drop (Suc N) xs)))"
    using sl_invD(8)[OF inv, of "Suc N" 0] sl_invD(3)[OF inv] sl_invD(6)[OF inv, of ?x] N fwd_0[OF inv, of "Suc N"] by (simp add: nx_def)
  then have f1: "\<exists>w. lv h1 ?x 0 = Some (nx, w)" using Ux[of 0] by (auto simp: h1(4))
  obtain n where n: "h1 ?x = Some n" "n_backward n = bk" using x h1(2) nb_Some[of h1 ?x] by (auto simp: bk_def)
  define B where "B = (\<lambda>a. if Suc N < length xs \<and> a = xs ! Suc N then map_option (\<lambda>(ob, s, _). (ob, s, bk)) (nb h a) else nb h a)"
  have "\<exists>h2. (case nx of Some y \<Rightarrow> do { h \<leftarrow> set_backward h1 y (n_backward n); Some (h, sl) } | None \<Rightarrow> Some (h1, sl\<lparr>tail := n_backward n\<rparr>))
      = Some (h2, if Suc N < length xs then sl else sl\<lparr>tail := bk\<rparr>) \<and> ht h2 = ht h \<and> lv h2 = lv h1 \<and> nb h2 = B"
  proof (cases "Suc N < length xs")
    case True
    obtain ob' s' b' where o: "nb h (xs ! Suc N) = Some (ob', s', b')" using sl_invD(10)[OF inv True] by auto
    then have "nb h1 (xs ! Suc N) = Some (ob', s', b')" using h1(2) by simp
    from set_backward_ok[OF this, of bk] show ?thesis using True o h1(2,3) n by (auto simp: nx_def B_def fun_eq_iff)
  qed (use h1(2,3) n in \<open>auto simp: nx_def B_def fun_eq_iff\<close>)
  then obtain h2 where h2: "(case nx of Some y \<Rightarrow> do { h \<leftarrow> set_backward h1 y (n_backward n); Some (h, sl) } | None \<Rightarrow> Some (h1, sl\<lparr>tail := n_backward n\<rparr>))
      = Some (h2, if Suc N < length xs then sl else sl\<lparr>tail := bk\<rparr>)" "ht h2 = ht h" "lv h2 = lv h1" "nb h2 = B" by blast
  have ys: "set ?ys \<subseteq> set xs" "?x \<notin> set ?ys" "distinct ?ys" "length ?ys = length xs - 1"
    using sl_invD(2)[OF inv] N id_take_nth_drop[OF N] set_take_disj_set_drop_if_distinct[OF sl_invD(2)[OF inv], of N "Suc N"]
    by (auto dest: in_set_takeD in_set_dropD simp: in_set_conv_nth nth_eq_iff_index_eq)
  have hd0: "\<exists>s. lv h2 (header sl) i = Some (fwd (ht h) i ?ys, s)" if "i < slevel sl" for i
  proof -
    have "0 < length xs" using N by linarith
    from lvls[OF this, of i] show ?thesis using that sl_invD(4,5)[OF inv] h2(3) by auto
  qed
  obtain l where l: "slDeleteNode_lower h2 (header sl) (slevel sl) = Some l" "1 \<le> l" "l \<le> slevel sl" "\<forall>a \<in> set ?ys. ht h a \<le> l"
    using slDeleteNode_lower_ok[of "slevel sl" h2 "header sl" "ht h" ?ys, OF hd0] sl_invD(3)[OF inv] sl_invD(7)[OF inv] ys(1) by blast
  define sl' where "sl' = (if Suc N < length xs then sl else sl\<lparr>tail := bk\<rparr>)\<lparr>slevel := l, slength := slength sl - 1\<rparr>"
  have e: "header sl' = header sl" "slevel sl' = l" "slength sl' = slength sl - 1" by (auto simp: sl'_def)
  have "slDeleteNode h sl ?x upd = Some (h2, sl')"
    using h1(1) f1 n(1) h2(1) l(1) by (auto simp: slDeleteNode_def sl'_def)
  moreover have "sl_inv h2 sl' ?ys"
    unfolding sl_inv_def e h2(2)
  proof (intro conjI)
    show "\<forall>p < length ?ys. \<exists>ob s. nb h2 (?ys ! p) = Some (Some ob, s, if p = 0 then None else Some (?ys ! (p - 1)))"
      using deleted_links[OF sl_invD(10)[OF inv] N sl_invD(2)[OF inv] B_def[unfolded bk_def]] h2(4) ys(4) by simp
    show "\<forall>p \<le> length ?ys. \<forall>i < ht h ((header sl # ?ys) ! p). \<exists>s. lv h2 ((header sl # ?ys) ! p) i = Some (fwd (ht h) i (drop p ?ys), s) \<and>
        (i < l \<longrightarrow> s = of_nat (spn (ht h) i (drop p ?ys)))"
    proof (intro allI impI)
      fix p i assume "p \<le> length ?ys" "i < ht h ((header sl # ?ys) ! p)"
      then show "\<exists>s. lv h2 ((header sl # ?ys) ! p) i = Some (fwd (ht h) i (drop p ?ys), s) \<and> (i < l \<longrightarrow> s = of_nat (spn (ht h) i (drop p ?ys)))"
        using lvls[of p i] N ys(4) l(3) unfolding h2(3) by fastforce
    qed
    show "tail sl' = (if ?ys = [] then None else Some (last ?ys))"
    proof (cases "Suc N < length xs")
      case True
      then show ?thesis using sl_invD(12)[OF inv] by (auto simp: sl'_def last_append last_drop)
    next
      case False
      then have "drop (Suc N) xs = []" "length (take N xs) = N" using N by auto
      then show ?thesis using False N by (auto simp: sl'_def bk_def last_conv_nth)
    qed
    show "slength sl - 1 = of_nat (length ?ys)" using sl_invD(13)[OF inv] N ys(4) by (simp add: of_nat_diff)
    show "distinct (header sl # ?ys)" using ys sl_invD(1)[OF inv] by auto
    show "\<exists>s. nb h2 (header sl) = Some (None, s, None)" using sl_invD(1,11)[OF inv] nth_mem[of "Suc N" xs] by (auto simp: h2(4) B_def)
  qed (use l sl_invD(4,5)[OF inv] sl_invD(6)[OF inv] ys(1) in auto)
  moreover have "objs h2 = objs h"
    unfolding fun_eq_iff objs_nb h2(4) B_def by (auto simp: option.map_comp o_def split: prod.splits intro!: option.map_cong)
  ultimately show ?thesis using e l h2(2) by auto
qed

section \<open>The order of the objects and of the keys\<close>

lemma memcmp_sign: "memcmp a b n = 0 \<longleftrightarrow> take n a = take n b" "memcmp a b n < 0 \<longleftrightarrow> take n a < take n b"
  if "n \<le> length a" "n \<le> length b"
  using that
proof (induction a b n rule: memcmp.induct)
  case (1 x xs y ys n)
  {
    case 1 then show ?case using "1.IH"(1) by (auto dest: word_uint_eqI)
  next
    case 2 then show ?case using "1.IH"(2) by (auto simp: word_less_alt)
  }
qed (auto simp: Suc_length_conv)

lemma list_less_take:
  "(a :: byte list) < b \<longleftrightarrow> (let n = min (length a) (length b) in take n a < take n b \<or> take n a = take n b \<and> length a < length b)"
proof (induction a arbitrary: b)
  case Nil
  then show ?case by (cases b) auto
next
  case (Cons x xs)
  show ?case
  proof (cases b)
    case Nil then show ?thesis by simp
  next
    case (Cons y ys)
    then show ?thesis using Cons.IH[of ys] by (auto simp: Let_def)
  qed
qed

lemma compareslObj_sign:
  assumes "length a < 2 ^ 31" "length b < 2 ^ 31"
  shows "compareslObj a b < 0 \<longleftrightarrow> a < b" "compareslObj a b = 0 \<longleftrightarrow> a = b"
proof -
  let ?n = "min (length a) (length b)"
  have n: "(if length a \<le> length b then length a else length b) = ?n" by (simp add: min_def)
  let ?d = "int (length a) - int (length b)"
  have "- (2 ^ 31) \<le> ?d" "?d < 2 ^ 31" using assms by auto
  then have d: "sint (word_of_int ?d :: 32 word) = ?d"
    by (simp only: sint_sbintrunc' signed_take_bit_int_eq_self len_of_numeral_defs) (simp add: signed_take_bit_int_eq_self)
  note m = memcmp_sign[of ?n a b, simplified]
  show "compareslObj a b < 0 \<longleftrightarrow> a < b"
    unfolding compareslObj_def n Let_def d list_less_take[of a b] using m by auto
  show "compareslObj a b = 0 \<longleftrightarrow> a = b"
    unfolding compareslObj_def n Let_def d using m by (auto simp: min_def split: if_splits)
qed

definition key :: "'s slheap \<Rightarrow> addr \<Rightarrow> 's \<times> mem" where
  "key h a = (case h a of Some n \<Rightarrow> (n_score n, the (n_obj n)) | None \<Rightarrow> undefined)"

text \<open>The abstract content: the ordered list of the keys.\<close>

definition sl_rep :: "'s::linorder slheap \<Rightarrow> skiplist \<Rightarrow> addr list \<Rightarrow> ('s \<times> mem) list \<Rightarrow> bool" where
  "sl_rep h sl xs ks \<longleftrightarrow> sl_inv h sl xs \<and> ks = map (key h) xs \<and> sorted ks \<and>
     (\<forall>k \<in> set ks. length (snd k) < 2 ^ 31) \<and> length xs < 2 ^ 32"

lemma key_node: "sl_inv h sl xs \<Longrightarrow> q < length xs \<Longrightarrow> h (xs ! q) = Some n \<Longrightarrow> \<exists>ob. n_obj n = Some ob \<and> key h (xs ! q) = (n_score n, ob)"
  using sl_invD(10)[of h sl xs q] nb_Some[of h "xs ! q"] by (fastforce simp: key_def)

lemma key_objs: "objs h' a = objs h a \<Longrightarrow> key h' a = key h a"
  by (cases "h a"; cases "h' a") (auto simp: objs_def key_def)

text \<open>A downward closed condition on the keys holds of a prefix.\<close>

lemma sorted_prefix:
  assumes "sorted ks" "\<And>a b. a \<le> b \<Longrightarrow> Q b \<Longrightarrow> Q a" "q < length ks"
  shows "Q (ks ! q) \<longleftrightarrow> q < length (takeWhile Q ks)"
proof
  show "q < length (takeWhile Q ks)" if "Q (ks ! q)"
  proof (rule ccontr)
    let ?m = "length (takeWhile Q ks)"
    assume "\<not> q < ?m"
    then have "?m < length ks" "?m \<le> q" using assms(3) by auto
    then have "\<not> Q (ks ! ?m)" "ks ! ?m \<le> ks ! q" using nth_length_takeWhile[of Q ks] assms(1,3) by (auto intro: sorted_nth_mono)
    then show False using assms(2) that by blast
  qed
  show "Q (ks ! q)" if "q < length (takeWhile Q ks)" using that by (metis nth_mem set_takeWhileD takeWhile_nth)
qed

lemma prefix_condI:
  assumes rep: "sl_rep h sl xs ks" and "\<And>a b. a \<le> b \<Longrightarrow> Q b \<Longrightarrow> Q a"
    "\<And>n ob r. n_obj n = Some ob \<Longrightarrow> length ob < 2 ^ 31 \<Longrightarrow> cond n r = Q (n_score n, ob)"
  shows "prefix_cond cond h xs (length (takeWhile Q ks))"
  unfolding prefix_cond_def
proof (intro conjI allI impI)
  have inv: "sl_inv h sl xs" and ks: "ks = map (key h) xs" "sorted ks" "\<forall>k \<in> set ks. length (snd k) < 2 ^ 31"
    using rep by (auto simp: sl_rep_def)
  show "length (takeWhile Q ks) \<le> length xs" using length_takeWhile_le[of Q ks] ks(1) by simp
  fix q n assume q: "0 < q" "q \<le> length xs" "h (xs ! (q - 1)) = Some n"
  then have q1: "q - 1 < length xs" by simp
  from key_node[OF inv q1 q(3)] obtain ob where ob: "n_obj n = Some ob" "ks ! (q - 1) = (n_score n, ob)" using q1 ks(1) by (metis nth_map)
  have "ks ! (q - 1) \<in> set ks" using ks(1) q by simp
  then have "length ob < 2 ^ 31" using ks(3) ob(2) by (metis snd_conv)
  then have "cond n (of_nat q) = Q (ks ! (q - 1))" using assms(3)[OF ob(1)] ob(2) by simp
  also have "\<dots> = (q - 1 < length (takeWhile Q ks))"
  proof (rule sorted_prefix[OF ks(2)])
    show "q - 1 < length ks" using ks(1) q1 by simp
  qed (rule assms(2))
  finally show "cond n (of_nat q) = (q \<le> length (takeWhile Q ks))" using q(1) by (simp add: less_eq_Suc_le)
qed

lemma before_prefix:
  "sl_rep h sl xs ks \<Longrightarrow> length obj < 2 ^ 31 \<Longrightarrow>
   prefix_cond (before score obj) h xs (length (takeWhile (\<lambda>k. k < (score, obj)) ks))"
  by (erule prefix_condI) (auto simp: before_def compareslObj_sign)

lemma upto_prefix:
  "sl_rep h sl xs ks \<Longrightarrow> length obj < 2 ^ 31 \<Longrightarrow>
   prefix_cond (upto_key score obj) h xs (length (takeWhile (\<lambda>k. k \<le> (score, obj)) ks))"
proof (erule prefix_condI)
  fix n :: "'a skiplistNode" and ob and r :: "'b word" assume o: "length obj < 2 ^ 31" "n_obj n = Some ob" "length ob < 2 ^ 31"
  have "compareslObj ob obj \<le> 0 \<longleftrightarrow> ob \<le> obj" using compareslObj_sign[OF o(3,1)] by (auto simp: le_less)
  then show "upto_key score obj n r = ((n_score n, ob) \<le> (score, obj))" using o(2) by (auto simp: upto_key_def)
qed auto

section \<open>Insertion and deletion of keys\<close>

lemma insort_split: "take (length (takeWhile (\<lambda>y. y < x) ks)) ks @ x # drop (length (takeWhile (\<lambda>y. y < x) ks)) ks = insort x ks"
  by (induction ks) (auto simp: not_less)

lemma remove1_split:
  assumes "sorted ks" "x \<in> set ks"
  shows "length (takeWhile (\<lambda>y. y < x) ks) < length ks \<and> ks ! length (takeWhile (\<lambda>y. y < x) ks) = x \<and>
    take (length (takeWhile (\<lambda>y. y < x) ks)) ks @ drop (Suc (length (takeWhile (\<lambda>y. y < x) ks))) ks = remove1 x ks"
  using assms by (induction ks) (auto simp: not_less)

lemma sl_inv_cong:
  assumes "sl_inv h sl xs" "\<And>a. a \<in> set (header sl # xs) \<Longrightarrow> h' a = h a"
  shows "sl_inv h' sl xs"
proof -
  let ?A = "header sl # xs"
  have e: "ht h' a = ht h a" "nb h' a = nb h a" "lv h' a = lv h a" if "a \<in> set ?A" for a
    using assms(2)[OF that] by (simp_all add: ht_def nb_def lv_def fun_eq_iff)
  have m: "?A ! p \<in> set ?A" if "p \<le> length xs" for p using that nth_mem[of p ?A] by (simp add: less_Suc_eq_le)
  have f: "fwd (ht h') i (drop p xs) = fwd (ht h) i (drop p xs)" "spn (ht h') i (drop p xs) = spn (ht h) i (drop p xs)" for i p
    using e(1) by (auto intro!: fwd_cong spn_cong dest: in_set_dropD)
  have "\<exists>s. lv h' (?A ! p) i = Some (fwd (ht h') i (drop p xs), s) \<and> (i < slevel sl \<longrightarrow> s = of_nat (spn (ht h') i (drop p xs)))"
    if "p \<le> length xs" "i < ht h' (?A ! p)" for p i
    using inv_levels[OF assms(1) that(1)] that e[OF m[OF that(1)]] f by simp
  then show ?thesis using sl_invD(1-5,11-13)[OF assms(1)] sl_invD(6,7,10)[OF assms(1)] e
    unfolding sl_inv_def by simp
qed

lemma sl_repD:
  assumes "sl_rep h sl xs ks"
  shows "sl_inv h sl xs" "ks = map (key h) xs" "sorted ks" "\<And>k. k \<in> set ks \<Longrightarrow> length (snd k) < 2 ^ 31" "length xs < 2 ^ 32" "length ks = length xs"
  using assms by (auto simp: sl_rep_def)

lemma inv_mem: "sl_inv h sl xs \<Longrightarrow> a \<in> set xs \<Longrightarrow> \<exists>n. h a = Some n"
proof -
  assume inv: "sl_inv h sl xs" and "a \<in> set xs"
  then obtain q where "q < length xs" "a = xs ! q" by (auto simp: in_set_conv_nth)
  then show ?thesis using inv_node[OF inv, of "Suc q"] by simp
qed

lemma objs_dom: "dom h = {a. objs h a \<noteq> None}"
  by (auto simp: objs_def)

theorem slInsert_rep:
  assumes rep: "sl_rep h sl xs ks" and new: "h new = None" and ob: "length obj < 2 ^ 31" and len: "length ks + 1 < 2 ^ 32"
    and rnd: "slRandomLevel rnd c = Some (level, c')"
  shows "\<exists>h' sl' xs'. slInsert rnd c new jb jl h sl score obj = Some (h', sl', c') \<and>
    sl_rep h' sl' xs' (insort (score, obj) ks) \<and> set xs' = insert new (set xs) \<and> header sl' = header sl \<and>
    dom h' = insert new (dom h)"
proof -
  note r = sl_repD[OF rep]
  let ?N = "length (takeWhile (\<lambda>k. k < (score, obj)) ks)" and ?xs = "\<lambda>N. take N xs @ new # drop N xs"
  obtain h' sl' where h': "slInsert rnd c new jb jl h sl score obj = Some (h', sl', c')" "sl_inv h' sl' (?xs ?N)" "header sl' = header sl"
    "\<And>a. objs h' a = (if a = new then Some (Some obj, score) else objs h a)"
    using slInsert_ok[OF r(1) before_prefix[OF rep ob] new r(5) rnd, of jb jl] unfolding objs_nb[symmetric] by blast
  have dm: "dom h' = insert new (dom h)" using h'(4) by (auto simp: objs_dom split: if_splits)
  have "key h' new = (score, obj)" using h'(4)[of new] by (auto simp: objs_def key_def)
  moreover have "key h' a = key h a" if "a \<in> set xs" for a
  proof (rule key_objs)
    have "a \<noteq> new" using inv_mem[OF r(1) that] new by auto
    then show "objs h' a = objs h a" using h'(4) by simp
  qed
  ultimately have "map (key h') (?xs ?N) = take ?N ks @ (score, obj) # drop ?N ks"
    by (auto simp: r(2) take_map drop_map dest: in_set_takeD in_set_dropD)
  then have k: "insort (score, obj) ks = map (key h') (?xs ?N)" unfolding insort_split by simp
  have "sl_rep h' sl' (?xs ?N) (insort (score, obj) ks)"
    unfolding sl_rep_def
  proof (intro conjI)
    show "sorted (insort (score, obj) ks)" using r(3) by (simp add: sorted_insort)
    show "\<forall>k \<in> set (insort (score, obj) ks). length (snd k) < 2 ^ 31" using r(4) ob by (auto simp only: set_insort_key snd_conv)
    have "length (?xs ?N) = length xs + 1" by simp
    then show "length (?xs ?N) < 2 ^ 32" using len r(6) by simp
  qed (rule h'(2), rule k)
  moreover have "set (?xs ?N) = insert new (set xs)" using set_append[of "take ?N xs" "drop ?N xs"] by (simp only: append_take_drop_id set_append list.set Un_insert_right)
  ultimately show ?thesis using h' dm by blast
qed

lemma slFreeNode_rep:
  assumes "sl_inv h sl ys" "x \<notin> set (header sl # ys)" "h x = Some n"
  shows "slFreeNode h x = Some (h(x := None))" "sl_inv (h(x := None)) sl ys" "map (key (h(x := None))) ys = map (key h) ys"
  using assms(2,3) by (auto simp: slFreeNode_def key_def intro!: sl_inv_cong[OF assms(1)])

lemma sorted_deleted: "sorted ks \<Longrightarrow> N < length ks \<Longrightarrow> sorted (take N ks @ drop (Suc N) ks)"
  using id_take_nth_drop[of N ks] sorted_append[of "take N ks" "ks ! N # drop (Suc N) ks"] by (simp add: sorted_append)

lemma distinct_deleted: "distinct xs \<Longrightarrow> N < length xs \<Longrightarrow> xs ! N \<notin> set (take N xs @ drop (Suc N) xs)"
  using id_take_nth_drop[of N xs] distinct_append[of "take N xs" "xs ! N # drop (Suc N) xs"] by auto

lemma deleted_rep:
  assumes rep: "sl_rep h sl xs ks" and N: "N < length xs"
    and upd: "\<And>i. i < slevel sl \<Longrightarrow> upd i = Some ((header sl # xs) ! lastpos (ht h) i (header sl # xs) N)"
  shows "\<exists>h' sl' n. slDeleteNode h sl (xs ! N) upd = Some (h', sl') \<and> h' (xs ! N) = Some n \<and> n_obj n = Some (snd (ks ! N)) \<and>
    slFreeNode h' (xs ! N) = Some (h'(xs ! N := None)) \<and>
    sl_rep (h'(xs ! N := None)) sl' (take N xs @ drop (Suc N) xs) (take N ks @ drop (Suc N) ks) \<and>
    header sl' = header sl \<and> slevel sl' \<le> slevel sl \<and>
    (\<forall>a. a \<noteq> xs ! N \<longrightarrow> ht (h'(xs ! N := None)) a = ht h a) \<and> dom (h'(xs ! N := None)) \<subseteq> dom h"
proof -
  note r = sl_repD[OF rep]
  let ?x = "xs ! N" and ?ys = "take N xs @ drop (Suc N) xs"
  obtain h' sl' where d: "slDeleteNode h sl ?x upd = Some (h', sl')" "sl_inv h' sl' ?ys" "header sl' = header sl" "slevel sl' \<le> slevel sl" "objs h' = objs h" "ht h' = ht h"
    using slDeleteNode_ok[OF r(1) N upd] by blast
  obtain n0 where n0: "h ?x = Some n0" using inv_node[OF r(1), of "Suc N"] N by auto
  then obtain n where n: "h' ?x = Some n" using fun_cong[OF d(5), of ?x] by (cases "h' ?x") (auto simp: objs_def)
  have "n_obj n = n_obj n0" using n n0 fun_cong[OF d(5), of ?x] by (simp add: objs_def)
  then have on: "n_obj n = Some (snd (ks ! N))" using key_node[OF r(1) N n0] N by (auto simp: r(2))
  have x: "?x \<notin> set (header sl' # ?ys)"
    using sl_invD(1)[OF r(1)] distinct_deleted[OF sl_invD(2)[OF r(1)] N] nth_mem[OF N] unfolding d(3) by auto
  note f = slFreeNode_rep[OF d(2) x n]
  have k: "map (key (h'(?x := None))) ?ys = take N ks @ drop (Suc N) ks"
  proof -
    have "key h' = key h" using d(5) key_objs[of h' _ h] by (intro ext) simp
    then show ?thesis using f(3) by (simp only: r(2) take_map drop_map map_append)
  qed
  have "sl_rep (h'(?x := None)) sl' ?ys (take N ks @ drop (Suc N) ks)"
    unfolding sl_rep_def
  proof (intro conjI)
    show "sorted (take N ks @ drop (Suc N) ks)" using r(3,6) N by (intro sorted_deleted) auto
    show "\<forall>k \<in> set (take N ks @ drop (Suc N) ks). length (snd k) < 2 ^ 31" using r(4) by (auto simp only: set_append dest: in_set_takeD in_set_dropD)
    show "length ?ys < 2 ^ 32" using r(5) N by simp
  qed (rule f(2), rule k[symmetric])
  moreover have "ht (h'(?x := None)) a = ht h a" if "a \<noteq> ?x" for a using that d(6) by (auto simp: ht_def fun_eq_iff split: option.splits)
  moreover have "dom (h'(?x := None)) \<subseteq> dom h" unfolding objs_dom[of h] d(5)[symmetric] by (auto simp: objs_def split: if_splits)
  ultimately show ?thesis using d n on f(1) by blast
qed


text \<open>What a descent leaves in the update table.\<close>

lemma descend_rep:
  fixes cond :: "'s::linorder skiplistNode \<Rightarrow> 'r::len word \<Rightarrow> bool"
  assumes "sl_rep h sl xs ks" "prefix_cond cond h xs N" "LENGTH('r) \<le> 64"
  shows "\<exists>upd rk. sl_descend cond h (slevel sl) (header sl) 0 Map.empty Map.empty = Some ((header sl # xs) ! N, of_nat N, upd, rk) \<and>
    (\<forall>i < slevel sl. upd i = Some ((header sl # xs) ! lastpos (ht h) i (header sl # xs) N))"
proof -
  note inv = sl_repD(1)[OF assms(1)]
  have N: "N \<le> length xs" using assms(2) by (simp add: prefix_cond_def)
  have "slevel sl \<le> ht h ((header sl # xs) ! 0)" using sl_invD(4,5)[OF inv] by simp
  from sl_descend_ok[OF inv assms(2,3) sl_repD(5)[OF assms(1)] le0 this order_refl, of Map.empty Map.empty]
  show ?thesis using inv_lastpos_0[OF inv N] sl_invD(3)[OF inv] by auto
qed

lemma next_0:
  assumes "sl_inv h sl xs" "N \<le> length xs"
  shows "\<exists>s. lv h ((header sl # xs) ! N) 0 = Some (if N < length xs then Some (xs ! N) else None, s)"
proof -
  have "0 < slevel sl" using sl_invD(3)[OF assms(1)] by simp
  then show ?thesis using sl_invD(8)[OF assms(1,2), of 0] inv_tall[OF assms(1), of 0 N] inv_lastpos_0[OF assms] fwd_0[OF assms] by simp
qed

theorem slDelete_rep:
  assumes rep: "sl_rep h sl xs ks" and ob: "length obj < 2 ^ 31"
  shows "\<exists>h' sl' xs'. slDelete h sl score obj = Some ((score, obj) \<in> set ks, h', sl') \<and>
    sl_rep h' sl' xs' (remove1 (score, obj) ks) \<and> set xs' \<subseteq> set xs \<and> header sl' = header sl \<and> dom h' \<subseteq> dom h"
proof -
  note r = sl_repD[OF rep]
  let ?N = "length (takeWhile (\<lambda>k. k < (score, obj)) ks)" and ?A = "header sl # xs"
  have N: "?N \<le> length xs" using length_takeWhile_le r(6) by metis
  obtain upd rk where d: "sl_descend (before score obj) h (slevel sl) (header sl) (0 :: u64) Map.empty Map.empty = Some (?A ! ?N, of_nat ?N, upd, rk)"
    "\<And>i. i < slevel sl \<Longrightarrow> upd i = Some (?A ! lastpos (ht h) i ?A ?N)"
    using descend_rep[OF rep before_prefix[OF rep ob, of score], where 'r = 64] by auto
  obtain s where l: "lv h (?A ! ?N) 0 = Some (if ?N < length xs then Some (xs ! ?N) else None, s)" using next_0[OF r(1) N] by blast
  show ?thesis
  proof (cases "?N < length xs")
    case False
    then have "(score, obj) \<notin> set ks" using remove1_split[OF r(3)] r(6) by fastforce
    then show ?thesis using d(1) l False rep by (auto simp: slDelete_def remove1_idem)
  next
    case True
    obtain n where n: "h (xs ! ?N) = Some n" using inv_node[OF r(1), of "Suc ?N"] True by auto
    obtain ob' where o: "n_obj n = Some ob'" "ks ! ?N = (n_score n, ob')" using key_node[OF r(1) True n] True by (auto simp: r(2))
    have "ks ! ?N \<in> set ks" using True r(6) by simp
    then have "length ob' < 2 ^ 31" using r(4)[of "ks ! ?N"] o(2) by simp
    then have e: "equalslObj ob' obj = (ob' = obj)" using compareslObj_sign(2) ob by (simp add: equalslObj_def)
    show ?thesis
    proof (cases "ks ! ?N = (score, obj)")
      case eq: True
      then have mem: "(score, obj) \<in> set ks" using \<open>ks ! ?N \<in> set ks\<close> by simp
      have rm: "take ?N ks @ drop (Suc ?N) ks = remove1 (score, obj) ks" using remove1_split[OF r(3) mem] by blast
      obtain h' sl' n' where dl: "slDeleteNode h sl (xs ! ?N) upd = Some (h', sl')" "slFreeNode h' (xs ! ?N) = Some (h'(xs ! ?N := None))"
        "sl_rep (h'(xs ! ?N := None)) sl' (take ?N xs @ drop (Suc ?N) xs) (remove1 (score, obj) ks)" "header sl' = header sl"
        "dom (h'(xs ! ?N := None)) \<subseteq> dom h"
        using deleted_rep[OF rep True d(2)] unfolding rm by blast
      have "slDelete h sl score obj = Some ((score, obj) \<in> set ks, h'(xs ! ?N := None), sl')"
        using mem d(1) l True n o e eq dl(1,2) by (simp add: slDelete_def)
      moreover have "set (take ?N xs @ drop (Suc ?N) xs) \<subseteq> set xs" by (auto dest: in_set_takeD in_set_dropD)
      ultimately show ?thesis using dl(3,4,5) by blast
    next
      case ne: False
      then have nm: "(score, obj) \<notin> set ks" using remove1_split[OF r(3), of "(score, obj)"] by auto
      have "slDelete h sl score obj = Some (False, h, sl)"
        using d(1) l True n o e ne by (auto simp: slDelete_def)
      then show ?thesis using nm rep by (auto simp: remove1_idem)
    qed
  qed
qed


section \<open>Deletion by rank\<close>

lemma rank_prefix:
  assumes "sl_rep h sl xs ks" "\<And>q. q \<le> length xs \<Longrightarrow> 0 < q \<Longrightarrow> Q (of_nat q :: u64) = (q \<le> N)" "N \<le> length xs"
  shows "prefix_cond (\<lambda>n r. Q r) h xs N"
  using assms by (auto simp: prefix_cond_def)

lemma of_nat_less_64: "a < 2 ^ 64 \<Longrightarrow> b < 2 ^ 64 \<Longrightarrow> ((of_nat a :: u64) < of_nat b) = (a < b)"
  by (simp add: word_less_nat_alt unat_of_nat take_bit_nat_eq_self)

lemma of_nat_le_64: "a < 2 ^ 64 \<Longrightarrow> b < 2 ^ 64 \<Longrightarrow> ((of_nat a :: u64) \<le> of_nat b) = (a \<le> b)"
  by (simp add: word_le_nat_alt unat_of_nat take_bit_nat_eq_self)

lemma of_nat_eq_64: "a < 2 ^ 64 \<Longrightarrow> b < 2 ^ 64 \<Longrightarrow> ((of_nat a :: u64) = of_nat b) = (a = b)"
  by (simp add: word_of_nat_eq_iff take_bit_nat_eq_self)

lemma u32_of_nat: "(ucast (w :: u32) :: u64) = of_nat (unat w)"
  by simp

lemma slDeleteByRank_loop_ok:
  assumes "sl_rep h sl xs ks" "N \<le> length xs" "N \<le> e" "e < 2 ^ 32"
    and "\<And>i. i < slevel sl \<Longrightarrow> upd i = Some ((header sl # xs) ! lastpos (ht h) i (header sl # xs) N)"
    and "t + (length xs - N) < 2 ^ 33" "t \<le> e + 1"
  shows "\<exists>h' sl' xs'. slDeleteByRank_loop h sl (if N < length xs then Some (xs ! N) else None) upd (of_nat t) (of_nat e) rem cb =
      Some (rem + of_nat (min (length ks - N) (e + 1 - t)), cb @ map (\<lambda>k. Some (snd k)) (take (e + 1 - t) (drop N ks)), h', sl') \<and>
    sl_rep h' sl' xs' (take N ks @ drop (N + (e + 1 - t)) ks) \<and> header sl' = header sl \<and> set xs' \<subseteq> set xs"
  using assms
proof (induction "length xs - N" arbitrary: h sl xs ks t rem cb)
  case 0
  note r = sl_repD[OF 0(2)]
  have "N = length ks" using 0 r(6) by simp
  then show ?case using 0(2) r(6) by (subst slDeleteByRank_loop.simps) auto
next
  case (Suc d)
  note r = sl_repD[OF Suc.prems(1)]
  have N: "N < length xs" using Suc.hyps(2) by simp
  have te: "((of_nat t :: u64) \<le> ucast (of_nat e :: u32)) = (t \<le> e)"
    using Suc.prems(4,6,7) by (simp add: ucast_of_nat32 of_nat_le_64)
  show ?case
  proof (cases "t \<le> e")
    case False
    then have "e + 1 - t = 0" by simp
    then show ?thesis using Suc.prems(1) N False te by (subst slDeleteByRank_loop.simps) auto
  next
    case True
    let ?x = "xs ! N" and ?ys = "take N xs @ drop (Suc N) xs" and ?kt = "take N ks @ drop (Suc N) ks"
    obtain h' sl' n where d: "slDeleteNode h sl ?x upd = Some (h', sl')" "h' ?x = Some n" "n_obj n = Some (snd (ks ! N))"
      "slFreeNode h' ?x = Some (h'(?x := None))" "sl_rep (h'(?x := None)) sl' ?ys ?kt" "header sl' = header sl" "slevel sl' \<le> slevel sl"
      "\<forall>a. a \<noteq> ?x \<longrightarrow> ht (h'(?x := None)) a = ht h a"
      using deleted_rep[OF Suc.prems(1) N Suc.prems(5)] by blast
    obtain s where lx: "lv h ?x 0 = Some (if Suc N < length xs then Some (xs ! Suc N) else None, s)"
      using next_0[OF r(1), of "Suc N"] N by auto
    have nx: "(if Suc N < length xs then Some (xs ! Suc N) else None) = (if N < length ?ys then Some (?ys ! N) else None)"
      using N by (auto simp: nth_append)
    have lp: "upd i = Some ((header sl' # ?ys) ! lastpos (ht (h'(?x := None))) i (header sl' # ?ys) N)" if i: "i < slevel sl'" for i
    proof -
      have A: "(header sl' # ?ys) ! q = (header sl # xs) ! q" if "q \<le> N" for q using that N d(6) by (auto simp: nth_Cons' nth_append)
      have nex: "(header sl # xs) ! q \<noteq> ?x" if "q \<le> N" for q using inv_distinct[OF r(1), of q "Suc N"] that N by auto
      have "lastpos (ht (h'(?x := None))) i (header sl' # ?ys) N = lastpos (ht h) i (header sl # xs) N"
      proof (rule lastpos_cong)
        fix q assume "q \<le> N"
        then show "ht (h'(?x := None)) ((header sl' # ?ys) ! q) = ht h ((header sl # xs) ! q)"
          unfolding A[OF \<open>q \<le> N\<close>] using nex d(8) by blast
      qed
      then show ?thesis using Suc.prems(5)[of i] i d(7) A lastpos_le[of "ht h" i "header sl # xs" N] by simp
    qed
    have pr: "N \<le> length ?ys" "t + 1 + (length ?ys - N) < 2 ^ 33" "t + 1 \<le> e + 1" "d = length ?ys - N"
      using N True Suc.prems(6) Suc.hyps(2) by auto
    from Suc.hyps(1)[OF pr(4) d(5) pr(1) Suc.prems(3,4) lp pr(2,3), of "rem + 1" "cb @ [n_obj n]"]
    obtain h2 sl2 xs2 where ih: "slDeleteByRank_loop (h'(?x := None)) sl' (if N < length ?ys then Some (?ys ! N) else None) upd (of_nat (t + 1)) (of_nat e) (rem + 1) (cb @ [n_obj n]) =
      Some (rem + 1 + of_nat (min (length ?kt - N) (e + 1 - (t + 1))), (cb @ [n_obj n]) @ map (\<lambda>k. Some (snd k)) (take (e + 1 - (t + 1)) (drop N ?kt)), h2, sl2)"
      "sl_rep h2 sl2 xs2 (take N ?kt @ drop (N + (e + 1 - (t + 1))) ?kt)" "header sl2 = header sl'" "set xs2 \<subseteq> set ?ys" by blast
    have step: "slDeleteByRank_loop h sl (if N < length xs then Some ?x else None) upd (of_nat t) (of_nat e) rem cb =
       slDeleteByRank_loop (h'(?x := None)) sl' (if N < length ?ys then Some (?ys ! N) else None) upd (of_nat (t + 1)) (of_nat e) (rem + 1) (cb @ [n_obj n])"
      using N te True lx nx d(1,2,4) by (subst slDeleteByRank_loop.simps) (simp add: add.commute)
    have k: "N < length ks" using N r(6) by simp
    have e1: "e + 1 - t = Suc (e + 1 - (t + 1))" using True by simp
    have "take N ?kt = take N ks" "drop N ?kt = drop (Suc N) ks" using k by auto
    moreover have "drop (N + (e + 1 - (t + 1))) ?kt = drop (N + (e + 1 - t)) ks"
      unfolding e1 add_Suc_right by (rule drop_deleted_after[OF le_add1 k])
    moreover have "n_obj n # map (\<lambda>k. Some (snd k)) (take (e + 1 - (t + 1)) (drop (Suc N) ks)) = map (\<lambda>k. Some (snd k)) (take (e + 1 - t) (drop N ks))"
      unfolding e1 Cons_nth_drop_Suc[OF k, symmetric] take_Suc_Cons list.map d(3) ..
    moreover have "rem + 1 + of_nat (min (length ?kt - N) (e + 1 - (t + 1))) = rem + of_nat (min (length ks - N) (e + 1 - t))"
    proof -
      have "min (length ks - N) (e + 1 - t) = Suc (min (length ?kt - N) (e + 1 - (t + 1)))" using e1 k by auto
      then show ?thesis by (simp only: of_nat_Suc) simp
    qed
    moreover have "set xs2 \<subseteq> set xs" using ih(4) by (auto dest: in_set_takeD in_set_dropD)
    ultimately have "slDeleteByRank_loop h sl (if N < length xs then Some ?x else None) upd (of_nat t) (of_nat e) rem cb =
        Some (rem + of_nat (min (length ks - N) (e + 1 - t)), cb @ map (\<lambda>k. Some (snd k)) (take (e + 1 - t) (drop N ks)), h2, sl2)"
      "sl_rep h2 sl2 xs2 (take N ks @ drop (N + (e + 1 - t)) ks)" "header sl2 = header sl" "set xs2 \<subseteq> set xs"
      using ih(2,3) d(6) unfolding step ih(1) append_assoc append_Cons append_Nil by (simp_all only:)
    then show ?thesis by blast
  qed
qed


theorem slDeleteByRank_rep:
  assumes rep: "sl_rep h sl xs ks" and se: "1 \<le> unat start"
  defines "N \<equiv> min (unat start - 1) (length ks)"
  shows "\<exists>h' sl' xs'. slDeleteByRank h sl start fin =
      Some (of_nat (min (length ks - N) (unat fin - N)), map (\<lambda>k. Some (snd k)) (take (unat fin - N) (drop N ks)), h', sl') \<and>
    sl_rep h' sl' xs' (take N ks @ drop (N + (unat fin - N)) ks) \<and> header sl' = header sl \<and> set xs' \<subseteq> set xs"
proof -
  note r = sl_repD[OF rep]
  let ?A = "header sl # xs" and ?e = "unat fin"
  have N: "N \<le> length xs" using r(6) by (simp add: N_def)
  have u: "unat start < 2 ^ 32" "?e < 2 ^ 32" using unsigned_less[of start] unsigned_less[of fin] by simp_all
  have c: "prefix_cond (\<lambda>n rr. rr < (ucast start :: u64)) h xs N"
  proof (rule rank_prefix[OF rep _ N])
    fix q assume q: "q \<le> length xs" "0 < q"
    have "((of_nat q :: u64) < ucast start) = (q < unat start)"
      unfolding u32_of_nat using q r(5) u by (intro of_nat_less_64) auto
    then show "((of_nat q :: u64) < ucast start) = (q \<le> N)" using q r(6) by (auto simp: N_def)
  qed
  obtain upd rk where d: "sl_descend (\<lambda>n rr. rr < ucast start) h (slevel sl) (header sl) (0 :: u64) Map.empty Map.empty = Some (?A ! N, of_nat N, upd, rk)"
    "\<And>i. i < slevel sl \<Longrightarrow> upd i = Some (?A ! lastpos (ht h) i ?A N)"
    using descend_rep[OF rep c] by auto
  obtain s where l: "lv h (?A ! N) 0 = Some (if N < length xs then Some (xs ! N) else None, s)" using next_0[OF r(1) N] by blast
  have run: "slDeleteByRank h sl start fin = slDeleteByRank_loop h sl (if N < length xs then Some (xs ! N) else None) upd (of_nat (N + 1)) (of_nat ?e) 0 []"
    using d(1) l by (simp add: slDeleteByRank_def add.commute)
  show ?thesis
  proof (cases "N \<le> ?e")
    case True
    have "N + 1 + (length xs - N) < 2 ^ 33" "N + 1 \<le> ?e + 1" using N r(5) True by auto
    from slDeleteByRank_loop_ok[OF rep N True u(2) d(2) this, of 0 "[]"] show ?thesis unfolding run by simp
  next
    case False
    have "\<not> (of_nat (N + 1) :: u64) \<le> ucast (of_nat ?e :: u32)"
    proof -
      have "N + 1 < 2 ^ 64" "?e < 2 ^ 64" "\<not> N + 1 \<le> ?e" using False N r(5) u(2) by auto
      then show ?thesis unfolding ucast_of_nat32[OF u(2)] by (simp only: of_nat_le_64 simp_thms not_False_eq_True)
    qed
    then have "slDeleteByRank h sl start fin = Some (0, [], h, sl)"
      unfolding run by (subst slDeleteByRank_loop.simps) simp
    then show ?thesis using False rep by auto
  qed
qed

section \<open>Ranks\<close>

lemma slGetNodeByRank_loop_ok:
  assumes rep: "sl_rep h sl xs ks" and c: "prefix_cond (\<lambda>n r. r \<le> (of_nat N :: u64)) h xs N" and "0 < k" "k \<le> slevel sl" "p \<le> N" "k \<le> ht h ((header sl # xs) ! p)"
  shows "slGetNodeByRank_loop h (of_nat N) k ((header sl # xs) ! p) (of_nat p) = Some (Some ((header sl # xs) ! N))"
  using assms(3-6)
proof (induction k arbitrary: p)
  case (Suc k)
  note r = sl_repD[OF rep]
  let ?A = "header sl # xs" and ?q = "lastpos (ht h) k (header sl # xs) N"
  have N: "N \<le> length xs" using c by (simp add: prefix_cond_def)
  have w: "sl_walk (\<lambda>n r. r \<le> (of_nat N :: u64)) h k (?A ! p) (of_nat p) = Some (?A ! ?q, of_nat ?q)"
    using sl_walk_ok[OF r(1) c _ r(5) Suc.prems(3), of k] Suc.prems by simp
  have q: "?q \<le> N" "k < ht h (?A ! ?q)" using lastpos_le inv_tall[OF r(1), of k N] Suc.prems by auto
  have "((of_nat ?q :: u64) = of_nat N) = (?q = N)" using q(1) N r(5) by (intro of_nat_eq_64) auto
  moreover have "k = 0 \<Longrightarrow> ?q = N" using inv_lastpos_0[OF r(1) N] by simp
  ultimately show ?case using w Suc.IH[OF _ _ q(1)] q(2) Suc.prems(2) by (cases "?q = N") auto
qed simp

theorem slGetNodeByRank_rep:
  assumes rep: "sl_rep h sl xs ks" and that: "rank < 2 ^ 64"
  shows "slGetNodeByRank h sl (of_nat rank) = Some (if 0 < rank \<and> rank \<le> length ks then Some (xs ! (rank - 1)) else None)"
proof -
  note r = sl_repD[OF rep]
  have z: "((of_nat rank :: u64) = 0) = (rank = 0)" using of_nat_eq_64[of rank 0] that by simp
  have g: "((of_nat rank :: u64) > slength sl) = (rank > length ks)"
  proof -
    have "length xs < 2 ^ 64" using r(5) by simp
    from of_nat_less_64[OF this that] show ?thesis unfolding sl_invD(13)[OF r(1)] r(6) .
  qed
  show ?thesis
  proof (cases "0 < rank \<and> rank \<le> length ks")
    case True
    then have N: "rank \<le> length xs" using r(6) by simp
    have c: "prefix_cond (\<lambda>n rr. rr \<le> (of_nat rank :: u64)) h xs rank"
    proof (rule rank_prefix[OF rep _ N])
      fix q assume "q \<le> length xs"
      then have "q < 2 ^ 64" using r(5) by simp
      then show "((of_nat q :: u64) \<le> of_nat rank) = (q \<le> rank)" using that by (rule of_nat_le_64)
    qed
    have "slevel sl \<le> ht h ((header sl # xs) ! 0)" "0 < slevel sl" using sl_invD(3-5)[OF r(1)] by auto
    from slGetNodeByRank_loop_ok[OF rep c this(2) order_refl le0 this(1)] show ?thesis
      using True z g unfolding slGetNodeByRank_def by (simp add: nth_Cons' del: of_nat_Suc)
  qed (use z g in \<open>auto simp: slGetNodeByRank_def\<close>)
qed

lemma slGetRank_loop_ok:
  assumes rep: "sl_rep h sl xs ks" and c: "prefix_cond (upto_key score ob :: _ \<Rightarrow> u64 \<Rightarrow> _) h xs N"
    and ob: "length ob < 2 ^ 31"
    and hit: "\<And>q. 0 < q \<Longrightarrow> q \<le> N \<Longrightarrow> (snd (ks ! (q - 1)) = ob) = (found \<and> q = N)" and f: "found \<Longrightarrow> 0 < N"
    and "k \<le> slevel sl" "p \<le> N" "k \<le> ht h ((header sl # xs) ! p)"
  shows "slGetRank_loop h score ob k ((header sl # xs) ! p) (of_nat p) = Some (if found \<and> 0 < k then of_nat N else 0)"
  using assms(6-8)
proof (induction k arbitrary: p)
  case (Suc k)
  note r = sl_repD[OF rep]
  let ?A = "header sl # xs" and ?q = "lastpos (ht h) k (header sl # xs) N"
  have N: "N \<le> length xs" using c by (simp add: prefix_cond_def)
  have w: "sl_walk (upto_key score ob) h k (?A ! p) (of_nat p :: u64) = Some (?A ! ?q, of_nat ?q)"
    using sl_walk_ok[OF r(1) c _ r(5) Suc.prems(2), of k] Suc.prems by simp
  have q: "?q \<le> N" "k < ht h (?A ! ?q)" using lastpos_le inv_tall[OF r(1), of k N] Suc.prems by auto
  obtain n where n: "h (?A ! ?q) = Some n" using inv_node[OF r(1)] q N by fastforce
  have hq: "(case n_obj n of None \<Rightarrow> False | Some o' \<Rightarrow> equalslObj o' ob) = (found \<and> ?q = N)"
  proof (cases "?q = 0")
    case True
    then have "n_obj n = None" using sl_invD(11)[OF r(1)] n by (auto simp: nb_def)
    then show ?thesis using True f by auto
  next
    case False
    then have q1: "?q - 1 < length xs" "?A ! ?q = xs ! (?q - 1)" using q N by (auto simp: nth_Cons')
    from key_node[OF r(1) q1(1)] n q1(2) obtain o' where o: "n_obj n = Some o'" "ks ! (?q - 1) = (n_score n, o')" using q1(1) by (auto simp: r(2))
    have "ks ! (?q - 1) \<in> set ks" using q1(1) r(6) by simp
    then have "length o' < 2 ^ 31" using r(4)[of "ks ! (?q - 1)"] o(2) by simp
    then have "equalslObj o' ob = (o' = ob)" using compareslObj_sign(2) ob by (simp add: equalslObj_def)
    then show ?thesis using o hit[of ?q] False q(1) by simp
  qed
  have z: "k = 0 \<Longrightarrow> ?q = N" using inv_lastpos_0[OF r(1) N] by simp
  show ?case
  proof (cases "found \<and> ?q = N")
    case True
    then show ?thesis using w n hq by simp
  next
    case False
    have "slGetRank_loop h score ob k (?A ! ?q) (of_nat ?q) = Some (if found \<and> 0 < k then of_nat N else 0)"
      using Suc.IH[OF _ q(1)] q(2) Suc.prems(1) by simp
    then show ?thesis using w n hq False z by auto
  qed
qed simp

lemma slGetRank_rep:
  assumes rep: "sl_rep h sl xs ks" and ob: "length ob < 2 ^ 31" and d: "distinct (map snd ks)"
  shows "i < length ks \<Longrightarrow> ks ! i = (score, ob) \<Longrightarrow> slGetRank h sl score ob = Some (of_nat (i + 1))"
    "ob \<notin> snd ` set ks \<Longrightarrow> slGetRank h sl score ob = Some 0"
proof -
  note r = sl_repD[OF rep]
  let ?N = "length (takeWhile (\<lambda>k. k \<le> (score, ob)) ks)"
  have Nl: "?N \<le> length ks" by (rule length_takeWhile_le)
  have l: "slevel sl \<le> ht h ((header sl # xs) ! 0)" "0 < slevel sl" using sl_invD(3-5)[OF r(1)] by auto
  have le: "ks ! q \<le> (score, ob) \<longleftrightarrow> q < ?N" if "q < length ks" for q
    by (rule sorted_prefix[OF r(3) _ that]) auto
  have dn: "(snd (ks ! a) = snd (ks ! b)) = (a = b)" if "a < length ks" "b < length ks" for a b
    using nth_eq_iff_index_eq[OF d, of a b] that by simp
  show "slGetRank h sl score ob = Some (of_nat (i + 1))" if i: "i < length ks" "ks ! i = (score, ob)"
  proof -
    have "i < ?N" using le[OF i(1)] i(2) by simp
    moreover have "\<not> i + 1 < ?N"
    proof
      assume a: "i + 1 < ?N"
      then have "ks ! (i + 1) \<le> (score, ob)" "(score, ob) \<le> ks ! (i + 1)" using le[of "i + 1"] Nl i(2) sorted_nth_mono[OF r(3), of i "i + 1"] by auto
      then have "snd (ks ! (i + 1)) = snd (ks ! i)" using i(2) by simp
      then show False using dn[of "i + 1" i] a Nl i(1) by simp
    qed
    ultimately have N: "?N = i + 1" by simp
    have h1: "(snd (ks ! (q - 1)) = ob) = (True \<and> q = ?N)" if "0 < q" "q \<le> ?N" for q
      using dn[of "q - 1" i] i that N by auto
    show ?thesis
      using slGetRank_loop_ok[OF rep upto_prefix[OF rep ob] ob h1 _ order_refl le0 l(1)] l(2) N by (simp add: slGetRank_def)
  qed
  show "slGetRank h sl score ob = Some 0" if o: "ob \<notin> snd ` set ks"
  proof -
    have h0: "(snd (ks ! (q - 1)) = ob) = (False \<and> q = ?N)" if "0 < q" "q \<le> ?N" for q
      using o that Nl nth_mem[of "q - 1" ks] by (auto simp: image_iff)
    show ?thesis
      using slGetRank_loop_ok[OF rep upto_prefix[OF rep ob] ob h0 _ order_refl le0 l(1)] by (simp add: slGetRank_def)
  qed
qed

section \<open>Score ranges\<close>

lemma slIsInRange_rep:
  assumes rep: "sl_rep h sl xs ks"
  shows "slIsInRange h sl mn mx = Some (mn \<le> mx \<and> ks \<noteq> [] \<and> mn \<le> fst (last ks) \<and> fst (hd ks) \<le> mx)"
proof (cases "xs = []")
  case True
  then show ?thesis using sl_repD(2)[OF rep] sl_invD(12)[OF sl_repD(1)[OF rep]] by (simp add: slIsInRange_def)
next
  case False
  note r = sl_repD[OF rep]
  have len: "length xs - 1 < length xs" "0 < length xs" using False by auto
  obtain n where n: "h (last xs) = Some n" using inv_mem[OF r(1), of "last xs"] False by auto
  obtain n0 where n0: "h (xs ! 0) = Some n0" using inv_mem[OF r(1), of "xs ! 0"] False by auto
  have k: "fst (last ks) = n_score n" using key_node[OF r(1) len(1)] n False by (auto simp: r(2) last_map last_conv_nth)
  have k0: "fst (hd ks) = n_score n0" using key_node[OF r(1) len(2) n0] False by (auto simp: r(2) hd_map hd_conv_nth)
  obtain s where "lv h (header sl) 0 = Some (Some (xs ! 0), s)" using next_0[OF r(1), of 0] False by auto
  then show ?thesis using n n0 k k0 False sl_invD(12)[OF r(1)] by (auto simp: slIsInRange_def r(2))
qed

lemma score_prefix:
  "sl_rep h sl xs ks \<Longrightarrow> prefix_cond (\<lambda>n r. n_score n < mn) h xs (length (takeWhile (\<lambda>k. fst k < mn) ks))"
  "sl_rep h sl xs ks \<Longrightarrow> prefix_cond (\<lambda>n r. n_score n \<le> mn) h xs (length (takeWhile (\<lambda>k. fst k \<le> mn) ks))"
  by (erule prefix_condI, auto)+

lemma slFirstInRange_rep:
  assumes rep: "sl_rep h sl xs ks"
  shows "slFirstInRange h sl mn mx = Some (if mn \<le> mx \<and> ks \<noteq> [] \<and> mn \<le> fst (last ks) \<and> fst (hd ks) \<le> mx
     then Some (xs ! length (takeWhile (\<lambda>k. fst k < mn) ks)) else None)"
proof -
  note r = sl_repD[OF rep]
  let ?N = "length (takeWhile (\<lambda>k. fst k < mn) ks)"
  have N: "?N \<le> length xs" using length_takeWhile_le r(6) by metis
  have lt: "?N < length xs" if "ks \<noteq> []" "mn \<le> fst (last ks)"
  proof -
    have "takeWhile (\<lambda>k. fst k < mn) ks \<noteq> ks" using that by (metis last_in_set not_le takeWhile_eq_all_conv)
    then show ?thesis using N r(6) by (metis le_neq_implies_less length_takeWhile_le takeWhile_eq_take take_all_iff)
  qed
  obtain upd rk where d: "sl_descend (\<lambda>n rr. n_score n < mn) h (slevel sl) (header sl) (0 :: u64) Map.empty Map.empty = Some ((header sl # xs) ! ?N, of_nat ?N, upd, rk)"
    using descend_rep[OF rep score_prefix(1)[OF rep, of mn], where 'r = 64] by auto
  obtain s where "lv h ((header sl # xs) ! ?N) 0 = Some (if ?N < length xs then Some (xs ! ?N) else None, s)" using next_0[OF r(1) N] by blast
  then show ?thesis using d lt by (auto simp: slFirstInRange_def slIsInRange_rep[OF rep])
qed

lemma slLastInRange_rep:
  assumes rep: "sl_rep h sl xs ks"
  shows "slLastInRange h sl mn mx = Some (if mn \<le> mx \<and> ks \<noteq> [] \<and> mn \<le> fst (last ks) \<and> fst (hd ks) \<le> mx
     then Some (xs ! (length (takeWhile (\<lambda>k. fst k \<le> mx) ks) - 1)) else None)"
proof -
  let ?N = "length (takeWhile (\<lambda>k. fst k \<le> mx) ks)"
  have gt: "0 < ?N" if "ks \<noteq> []" "fst (hd ks) \<le> mx" using that by (cases ks) auto
  obtain upd rk where d: "sl_descend (\<lambda>n rr. n_score n \<le> mx) h (slevel sl) (header sl) (0 :: u64) Map.empty Map.empty = Some ((header sl # xs) ! ?N, of_nat ?N, upd, rk)"
    using descend_rep[OF rep score_prefix(2)[OF rep, of mx], where 'r = 64] by auto
  then show ?thesis using gt by (auto simp: slLastInRange_def slIsInRange_rep[OF rep] nth_Cons')
qed

section \<open>Creation and release\<close>

lemma slCreate_loop_ok:
  "k \<le> 32 \<Longrightarrow> ht h x = 32 \<Longrightarrow> \<exists>h'. slCreate_loop h x k = Some h' \<and> nb h' = nb h \<and> ht h' = ht h \<and>
     lv h' = (\<lambda>b j. if b = x \<and> 32 - k \<le> j \<and> j < 32 then Some (None, 0) else lv h b j)"
proof (induction k arbitrary: h)
  case (Suc k)
  have "32 - Suc k < ht h x" using Suc.prems by simp
  from set_lv_ok[OF this] obtain h1 where h1: "set_lv h x (32 - Suc k) (None, 0) = Some h1" "nb h1 = nb h" "ht h1 = ht h"
    "lv h1 = (\<lambda>b j. if b = x \<and> j = 32 - Suc k then Some (None, 0) else lv h b j)" by blast
  obtain h' where h': "slCreate_loop h1 x k = Some h'" "nb h' = nb h1" "ht h' = ht h1"
    "lv h' = (\<lambda>b j. if b = x \<and> 32 - k \<le> j \<and> j < 32 then Some (None, 0) else lv h1 b j)"
    using Suc.IH[of h1] Suc.prems h1(3) by auto
  have "lv h' = (\<lambda>b j. if b = x \<and> 32 - Suc k \<le> j \<and> j < 32 then Some (None, 0) else lv h b j)"
    unfolding h'(4) h1(4) using Suc.prems(1) by (intro ext) auto
  then show ?case using h' h1 by (auto simp: SKIPLIST_MAXLEVEL_def)
qed (auto simp: fun_eq_iff)

theorem slCreate_rep:
  assumes "h new = None"
  shows "\<exists>h' sl. slCreate new jb jl h = Some (h', sl) \<and> sl_rep h' sl [] [] \<and> header sl = new \<and> (\<forall>a. a \<noteq> new \<longrightarrow> (h' a = None) = (h a = None))"
proof -
  let ?h = "h(new \<mapsto> slCreateNode jb jl 32 0 None)"
  have "ht ?h new = 32" by (simp add: ht_def slCreateNode_def)
  from slCreate_loop_ok[OF order_refl this] obtain h1 where h1: "slCreate_loop ?h new 32 = Some h1" "nb h1 = nb ?h" "ht h1 = ht ?h"
    "lv h1 = (\<lambda>b j. if b = new \<and> 32 - 32 \<le> j \<and> j < 32 then Some (None, 0) else lv ?h b j)" by blast
  have "nb h1 new = Some (None, 0, jb)" using h1(2) by (simp add: nb_def slCreateNode_def)
  from set_backward_ok[OF this, of None] obtain h2 where h2: "set_backward h1 new None = Some h2" "ht h2 = ht h1" "lv h2 = lv h1" "nb h2 = (nb h1)(new \<mapsto> (None, 0, None))" by blast
  let ?sl = "\<lparr> header = new, tail = None, slength = 0, slevel = 1 \<rparr>"
  have "slCreate new jb jl h = Some (h2, ?sl)" using assms h1(1) h2(1) by (simp add: slCreate_def SKIPLIST_MAXLEVEL_def)
  moreover have "sl_rep h2 ?sl [] []" unfolding sl_rep_def sl_inv_def using h1 h2 \<open>ht ?h new = 32\<close> by auto
  moreover have "(h2 a = None) = (h a = None)" if "a \<noteq> new" for a
    using fun_cong[OF h2(4), of a] fun_cong[OF h1(2), of a] that nb_None by (metis fun_upd_other)
  ultimately show ?thesis by fastforce
qed

lemma slFree_loop_ok:
  assumes "\<And>p. p < length ys \<Longrightarrow> \<exists>s. lv h (ys ! p) 0 = Some (if Suc p < length ys then Some (ys ! Suc p) else None, s)" "distinct ys"
  shows "slFree_loop h (if ys = [] then None else Some (hd ys)) = Some (\<lambda>a. if a \<in> set ys then None else h a)"
  using assms
proof (induction ys arbitrary: h)
  case Nil
  then show ?case by (subst slFree_loop.simps) simp
next
  case (Cons y ys)
  obtain s where s: "lv h y 0 = Some (if ys = [] then None else Some (hd ys), s)" using Cons.prems(1)[of 0] by (auto simp: hd_conv_nth)
  then obtain n where n: "h y = Some n" by (cases "h y") (auto simp: lv_def)
  have "slFree_loop (h(y := None)) (if ys = [] then None else Some (hd ys)) = Some (\<lambda>a. if a \<in> set ys then None else (h(y := None)) a)"
  proof (rule Cons.IH)
    fix p assume p: "p < length ys"
    then have "ys ! p \<noteq> y" using Cons.prems(2) nth_mem by fastforce
    then have "lv (h(y := None)) (ys ! p) 0 = lv h (ys ! p) 0" by (simp add: lv_def)
    then show "\<exists>s. lv (h(y := None)) (ys ! p) 0 = Some (if Suc p < length ys then Some (ys ! Suc p) else None, s)"
      using Cons.prems(1)[of "Suc p"] p by auto
  qed (use Cons.prems(2) in simp)
  moreover have "(\<lambda>a. if a \<in> set ys then None else (h(y := None)) a) = (\<lambda>a. if a \<in> set (y # ys) then None else h a)" by auto
  ultimately show ?case using s n by (subst slFree_loop.simps) (simp add: slFreeNode_def)
qed

theorem slFree_rep:
  assumes rep: "sl_rep h sl xs ks"
  shows "slFree h sl = Some (\<lambda>a. if a \<in> set (header sl # xs) then None else h a)"
proof -
  note r = sl_repD[OF rep]
  let ?h = "h(header sl := None)"
  obtain s where s: "lv h (header sl) 0 = Some (if xs = [] then None else Some (hd xs), s)" using next_0[OF r(1), of 0] by (auto simp: hd_conv_nth)
  have "slFree_loop ?h (if xs = [] then None else Some (hd xs)) = Some (\<lambda>a. if a \<in> set xs then None else ?h a)"
  proof (rule slFree_loop_ok)
    fix p assume p: "p < length xs"
    then have "xs ! p \<noteq> header sl" using sl_invD(1)[OF r(1)] nth_mem by metis
    then have "lv ?h (xs ! p) 0 = lv h (xs ! p) 0" by (simp add: lv_def)
    then show "\<exists>s. lv ?h (xs ! p) 0 = Some (if Suc p < length xs then Some (xs ! Suc p) else None, s)"
      using next_0[OF r(1), of "Suc p"] p by simp
  qed (rule sl_invD(2)[OF r(1)])
  moreover have "(\<lambda>a. if a \<in> set xs then None else ?h a) = (\<lambda>a. if a \<in> set (header sl # xs) then None else h a)" by auto
  ultimately show ?thesis using s by (simp add: slFree_def)
qed


section \<open>The list as an ordered store\<close>

text \<open>The contract of an ordered store: a state represents an ordered list of keys, an insertion puts a
  key in order and a deletion takes one copy out, whatever the environment (the allocator and the random
  levels) contributes; both can always be carried out below the capacity.\<close>

locale ordered_store =
  fixes rep :: "'st \<Rightarrow> 'k::linorder list \<Rightarrow> bool"
    and ins :: "'st \<Rightarrow> 'k \<Rightarrow> 'st \<Rightarrow> bool"
    and del :: "'st \<Rightarrow> 'k \<Rightarrow> 'st \<Rightarrow> bool"
    and ok :: "'k \<Rightarrow> bool"
    and cap :: nat
  assumes ins_rep: "rep s ks \<Longrightarrow> ok k \<Longrightarrow> length ks < cap \<Longrightarrow> ins s k s' \<Longrightarrow> rep s' (insort k ks)"
    and ins_total: "rep s ks \<Longrightarrow> ok k \<Longrightarrow> length ks < cap \<Longrightarrow> \<exists>s'. ins s k s'"
    and del_rep: "rep s ks \<Longrightarrow> ok k \<Longrightarrow> del s k s' \<Longrightarrow> rep s' (remove1 k ks)"
    and del_total: "rep s ks \<Longrightarrow> ok k \<Longrightarrow> \<exists>s'. del s k s'"
begin

fun all :: "('st \<Rightarrow> 'k \<Rightarrow> 'st \<Rightarrow> bool) \<Rightarrow> 'st \<Rightarrow> 'k list \<Rightarrow> 'st \<Rightarrow> bool" where
  "all f s [] s' = (s' = s)"
| "all f s (k # ks) s' = (\<exists>t. f s k t \<and> all f t ks s')"

lemma ins_all_rep: "rep s ks \<Longrightarrow> \<forall>k \<in> set ys. ok k \<Longrightarrow> length ks + length ys \<le> cap \<Longrightarrow> all ins s ys s' \<Longrightarrow> rep s' (fold insort ys ks)"
proof (induction ys arbitrary: s ks)
  case (Cons y ys)
  obtain t where t: "ins s y t" "all ins t ys s'" using Cons.prems(4) by auto
  have "rep t (insort y ks)" using Cons.prems t(1) by (intro ins_rep) auto
  then show ?case using Cons.IH[of t "insort y ks"] Cons.prems t(2) by simp
qed simp

lemma ins_all_total: "rep s ks \<Longrightarrow> \<forall>k \<in> set ys. ok k \<Longrightarrow> length ks + length ys \<le> cap \<Longrightarrow> \<exists>s'. all ins s ys s'"
proof (induction ys arbitrary: s ks)
  case (Cons y ys)
  obtain t where t: "ins s y t" using ins_total[OF Cons.prems(1), of y] Cons.prems by auto
  have "rep t (insort y ks)" using Cons.prems t by (intro ins_rep) auto
  then show ?case using Cons.IH[of t "insort y ks"] Cons.prems t by auto
qed auto

lemma build_sorted: "rep s [] \<Longrightarrow> \<forall>k \<in> set ys. ok k \<Longrightarrow> length ys \<le> cap \<Longrightarrow> (\<exists>s'. all ins s ys s') \<and> (\<forall>s'. all ins s ys s' \<longrightarrow> rep s' (sort ys))"
  using ins_all_rep[of s "[]" ys] ins_all_total[of s "[]" ys] by (auto simp: sort_conv_fold)

lemma del_all_rep: "rep s ks \<Longrightarrow> \<forall>k \<in> set ys. ok k \<Longrightarrow> all del s ys s' \<Longrightarrow> rep s' (fold remove1 ys ks)"
proof (induction ys arbitrary: s ks)
  case (Cons y ys)
  obtain t where t: "del s y t" "all del t ys s'" using Cons.prems(3) by auto
  then show ?case using Cons.IH[of t "remove1 y ks"] Cons.prems del_rep by simp
qed simp

lemma ins_del: "rep s ks \<Longrightarrow> ok k \<Longrightarrow> length ks < cap \<Longrightarrow> ins s k t \<Longrightarrow> del t k u \<Longrightarrow> rep u ks"
  using del_rep[OF ins_rep] by (metis remove1_insort_key)

end

text \<open>A state of the skip list: its heap and its control block.\<close>

definition store_rep :: "'s::linorder slheap \<times> skiplist \<Rightarrow> ('s \<times> mem) list \<Rightarrow> bool" where
  "store_rep s ks \<longleftrightarrow> finite (dom (fst s)) \<and> (\<exists>xs. sl_rep (fst s) (snd s) xs ks)"

definition store_ins :: "'s::linorder slheap \<times> skiplist \<Rightarrow> 's \<times> mem \<Rightarrow> 's slheap \<times> skiplist \<Rightarrow> bool" where
  "store_ins s k s' \<longleftrightarrow> (\<exists>rnd c new jb jl c'. fst s new = None \<and> (\<exists>r. slRandomLevel rnd c = Some r) \<and>
     slInsert rnd c new jb jl (fst s) (snd s) (fst k) (snd k) = Some (fst s', snd s', c'))"

definition store_del :: "'s::linorder slheap \<times> skiplist \<Rightarrow> 's \<times> mem \<Rightarrow> 's slheap \<times> skiplist \<Rightarrow> bool" where
  "store_del s k s' \<longleftrightarrow> (\<exists>b. slDelete (fst s) (snd s) (fst k) (snd k) = Some (b, fst s', snd s'))"


definition store_ok :: "'s \<times> mem \<Rightarrow> bool" where
  "store_ok k \<longleftrightarrow> length (snd k) < 2 ^ 31"

lemma store_ins_step:
  assumes "store_rep s ks" "store_ok k" "length ks < 2 ^ 32 - 1" "store_ins s k s'"
  shows "store_rep s' (insort k ks)"
proof -
  obtain xs where xs: "finite (dom (fst s))" "sl_rep (fst s) (snd s) xs ks" using assms(1) by (auto simp: store_rep_def)
  obtain rnd c new jb jl c' l c1 where i: "fst s new = None" "slRandomLevel rnd c = Some (l, c1)"
    "slInsert rnd c new jb jl (fst s) (snd s) (fst k) (snd k) = Some (fst s', snd s', c')" using assms(4) by (auto simp: store_ins_def)
  have o: "length (snd k) < 2 ^ 31" "length ks + 1 < 2 ^ 32" using assms(2,3) by (auto simp: store_ok_def)
  from slInsert_rep[OF xs(2) i(1) o i(2), of jb jl "fst k"] i(3) xs(1) show ?thesis by (auto simp: store_rep_def)
qed

lemma store_ins_exists:
  assumes "store_rep s ks" "store_ok k" "length ks < 2 ^ 32 - 1"
  shows "\<exists>s'. store_ins s k s'"
proof -
  obtain xs where xs: "finite (dom (fst s))" "sl_rep (fst s) (snd s) xs ks" using assms(1) by (auto simp: store_rep_def)
  obtain new where "new \<notin> dom (fst s)" using ex_new_if_finite[OF infinite_UNIV_nat xs(1)] by blast
  then have new: "fst s new = None" by auto
  have rnd: "slRandomLevel (\<lambda>_. 0xffff) 0 = Some (1, 1)"
    unfolding slRandomLevel_def by (subst slRandomLevel_loop.simps) (simp add: SKIPLIST_MAXLEVEL_def)
  have o: "length (snd k) < 2 ^ 31" "length ks + 1 < 2 ^ 32" using assms(2,3) by (auto simp: store_ok_def)
  from slInsert_rep[OF xs(2) new o rnd, of None "\<lambda>_. (None, 0)" "fst k"] obtain h' sl' where
    "slInsert (\<lambda>_. 0xffff) 0 new None (\<lambda>_. (None, 0)) (fst s) (snd s) (fst k) (snd k) = Some (h', sl', 1)" by auto
  then show ?thesis unfolding store_ins_def using new rnd
    by (intro exI[of _ "(h', sl')"] exI[of _ "\<lambda>_. 0xffff"] exI[of _ 0] exI[of _ new] exI[of _ None] exI[of _ "\<lambda>_. (None, 0)"] exI[of _ 1]) auto
qed

interpretation slstore: ordered_store "store_rep :: _ \<Rightarrow> ('s::linorder \<times> mem) list \<Rightarrow> bool" store_ins store_del store_ok "2 ^ 32 - 1"
proof unfold_locales
  show "store_rep s ks \<Longrightarrow> store_ok k \<Longrightarrow> length ks < 2 ^ 32 - 1 \<Longrightarrow> store_ins s k s' \<Longrightarrow> store_rep s' (insort k ks)"
    for s s' :: "'s slheap \<times> skiplist" and ks and k :: "'s \<times> mem" by (rule store_ins_step)
  show "store_rep s ks \<Longrightarrow> store_ok k \<Longrightarrow> length ks < 2 ^ 32 - 1 \<Longrightarrow> \<exists>s'. store_ins s k s'"
    for s :: "'s slheap \<times> skiplist" and ks and k :: "'s \<times> mem" by (rule store_ins_exists)
next
  fix s s' :: "'s slheap \<times> skiplist" and ks and k :: "'s \<times> mem"
  assume "store_rep s ks" "store_ok k" "store_del s k s'"
  then show "store_rep s' (remove1 k ks)"
    using slDelete_rep[of "fst s" "snd s" _ ks "snd k" "fst k"] finite_subset by (fastforce simp: store_rep_def store_ok_def store_del_def)
next
  fix s :: "'s slheap \<times> skiplist" and ks and k :: "'s \<times> mem"
  assume "store_rep s ks" "store_ok k"
  then show "\<exists>s'. store_del s k s'"
    using slDelete_rep[of "fst s" "snd s" _ ks "snd k" "fst k"] by (fastforce simp: store_rep_def store_ok_def store_del_def)
qed


section \<open>Properties\<close>

text \<open>A list of one element, used by the witnesses.\<close>

lemma one_element:
  "\<exists>h sl xs. sl_rep h sl xs [(5 :: int, [7])] \<and> finite (dom h)"
proof -
  obtain h sl where c: "slCreate 0 None (\<lambda>_. (None, 0)) (Map.empty :: int slheap) = Some (h, sl)" "sl_rep h sl [] []"
    "\<forall>a. a \<noteq> 0 \<longrightarrow> h a = None" using slCreate_rep[of "Map.empty :: int slheap" 0 None "\<lambda>_. (None, 0)"] by auto
  have "dom h \<subseteq> {0}" using c(3) by auto
  then have f: "finite (dom h)" using finite_subset by blast
  have rnd: "slRandomLevel (\<lambda>_. 0xffff) 0 = Some (1, 1)"
    unfolding slRandomLevel_def by (subst slRandomLevel_loop.simps) (simp add: SKIPLIST_MAXLEVEL_def)
  obtain h' sl' xs' where "sl_rep h' sl' xs' (insort (5 :: int, [7]) [])" "dom h' = insert 1 (dom h)"
    using slInsert_rep[OF c(2) _ _ _ rnd, of 1 "[7]" None "\<lambda>_. (None, 0)" 5] c(3) by auto
  then have "sl_rep h' sl' xs' [(5, [7])] \<and> finite (dom h')" using f by simp
  then show ?thesis by blast
qed

text \<open>C7: \<open>slInsert\<close> on a well-formed list, with a fresh node and any random level, ends without a bad access
  and the list then holds its keys with the new one in order; all levels, spans, back links, the tail and
  the length are again consistent.\<close>
theorem sl_insert_sorted:
  assumes "sl_rep h sl xs ks" "h new = None" "length obj < 2 ^ 31" "length ks + 1 < 2 ^ 32"
    "slRandomLevel rnd c = Some (level, c')"
  shows "\<exists>h' sl' xs'. slInsert rnd c new jb jl h sl score obj = Some (h', sl', c') \<and>
    sl_rep h' sl' xs' (insort (score, obj) ks) \<and> set xs' = insert new (set xs)"
  using slInsert_rep[OF assms, of jb jl score] by blast

theorem sl_insert_sorted_witness:
  "\<exists>(h :: int slheap) sl h' sl' xs' new. slInsert (\<lambda>_. 0xffff) 0 new None (\<lambda>_. (None, 0)) h sl 3 [9] = Some (h', sl', 1) \<and>
     sl_rep h' sl' xs' [(3, [9]), (5, [7])]"
proof -
  obtain h sl xs where r: "sl_rep h sl xs [(5 :: int, [7])]" "finite (dom h)" using one_element by blast
  obtain new where new: "h new = None" using ex_new_if_finite[OF infinite_UNIV_nat r(2)] by auto
  have rnd: "slRandomLevel (\<lambda>_. 0xffff) 0 = Some (1, 1)"
    unfolding slRandomLevel_def by (subst slRandomLevel_loop.simps) (simp add: SKIPLIST_MAXLEVEL_def)
  have "insort (3 :: int, [9 :: byte]) [(5, [7])] = [(3, [9]), (5, [7])]" by simp
  then show ?thesis using sl_insert_sorted[OF r(1) new _ _ rnd, of "[9]" None "\<lambda>_. (None, 0)" 3] by fastforce
qed

text \<open>C16: \<open>slDelete\<close> reports whether the key is present and removes one copy of it, keeping the list well-formed;
  it ends without a bad access in every case.\<close>
theorem sl_delete_removes:
  assumes "sl_rep h sl xs ks" "length obj < 2 ^ 31"
  shows "\<exists>h' sl' xs'. slDelete h sl score obj = Some ((score, obj) \<in> set ks, h', sl') \<and>
    sl_rep h' sl' xs' (remove1 (score, obj) ks)"
  using slDelete_rep[OF assms, of score] by blast

theorem sl_delete_removes_witness:
  "\<exists>(h :: int slheap) sl h' sl' xs'. slDelete h sl 5 [7] = Some (True, h', sl') \<and> sl_rep h' sl' xs' []"
proof -
  obtain h sl xs where r: "sl_rep h sl xs [(5 :: int, [7])]" using one_element by blast
  obtain h' sl' xs' where "slDelete h sl 5 [7] = Some (True, h', sl')" "sl_rep h' sl' xs' []"
    using sl_delete_removes[OF r, of "[7]" 5] by auto
  then show ?thesis by blast
qed

text \<open>C24: \<open>slDeleteByRank\<close> with 1-based inclusive bounds removes exactly the keys of these ranks, calls back with
  their objects in order and returns their number; bounds past the end are cut off.\<close>
theorem sl_delete_by_rank:
  assumes "sl_rep h sl xs ks" "1 \<le> unat start" "unat start \<le> length ks" "unat start \<le> unat fin"
  shows "\<exists>h' sl' xs'. slDeleteByRank h sl start fin =
      Some (of_nat (length (take (unat fin - (unat start - 1)) (drop (unat start - 1) ks))),
        map (\<lambda>k. Some (snd k)) (take (unat fin - (unat start - 1)) (drop (unat start - 1) ks)), h', sl') \<and>
    sl_rep h' sl' xs' (take (unat start - 1) ks @ drop (unat fin) ks)"
proof -
  have m: "min (unat start - 1) (length ks) = unat start - 1" using assms(3) by simp
  have "unat start - 1 + (unat fin - (unat start - 1)) = unat fin" using assms(4) by simp
  then show ?thesis using slDeleteByRank_rep[OF assms(1,2), of fin] unfolding m by auto
qed

theorem sl_delete_by_rank_witness:
  "\<exists>(h :: int slheap) sl h' sl' xs'. slDeleteByRank h sl 1 4 = Some (1, [Some [7]], h', sl') \<and> sl_rep h' sl' xs' []"
proof -
  obtain h sl xs where r: "sl_rep h sl xs [(5 :: int, [7])]" using one_element by blast
  obtain h' sl' xs' where "slDeleteByRank h sl 1 4 = Some (1, [Some [7]], h', sl')" "sl_rep h' sl' xs' []"
    using sl_delete_by_rank[OF r, of 1 4] by auto
  then show ?thesis by blast
qed

text \<open>C25: Ranks and nodes are inverse to each other: when the objects are distinct, \<open>slGetRank\<close> of the \<open>i\<close>-th key is
  \<open>i + 1\<close>, and \<open>slGetNodeByRank\<close> of that rank is its node; an object that is not in the list has rank 0.\<close>
theorem sl_rank_roundtrip:
  assumes "sl_rep h sl xs ks" "distinct (map snd ks)"
  shows "(\<forall>i < length ks. slGetRank h sl (fst (ks ! i)) (snd (ks ! i)) = Some (of_nat (i + 1)) \<and>
      slGetNodeByRank h sl (of_nat (i + 1)) = Some (Some (xs ! i)) \<and> key h (xs ! i) = ks ! i) \<and>
    (\<forall>ob score. ob \<notin> snd ` set ks \<and> length ob < 2 ^ 31 \<longrightarrow> slGetRank h sl score ob = Some 0)"
proof (intro conjI allI impI)
  note r = sl_repD[OF assms(1)]
  fix i assume i: "i < length ks"
  have "length (snd (ks ! i)) < 2 ^ 31" using r(4)[OF nth_mem[OF i]] .
  from slGetRank_rep(1)[OF assms(1) this assms(2) i] show "slGetRank h sl (fst (ks ! i)) (snd (ks ! i)) = Some (of_nat (i + 1))" by simp
  have "i + 1 < 2 ^ 64" using i r(5,6) by simp
  from slGetNodeByRank_rep[OF assms(1) this] show "slGetNodeByRank h sl (of_nat (i + 1)) = Some (Some (xs ! i))" using i by simp
  show "key h (xs ! i) = ks ! i" using i r(2,6) by simp
next
  show "ob \<notin> snd ` set ks \<and> length ob < 2 ^ 31 \<Longrightarrow> slGetRank h sl score ob = Some 0" for ob score
    using slGetRank_rep(2)[OF assms(1) _ assms(2)] by blast
qed

theorem sl_rank_roundtrip_witness:
  "\<exists>(h :: int slheap) sl a. slGetRank h sl 5 [7] = Some 1 \<and> slGetNodeByRank h sl 1 = Some (Some a) \<and> slGetRank h sl 5 [8] = Some 0"
proof -
  obtain h sl xs where r: "sl_rep h sl xs [(5 :: int, [7])]" using one_element by blast
  have "slGetRank h sl 5 [7] = Some 1" "slGetNodeByRank h sl 1 = Some (Some (xs ! 0))" "slGetRank h sl 5 [8] = Some 0"
    using sl_rank_roundtrip[OF r] by auto
  then show ?thesis by blast
qed

text \<open>C26: When some key has a score in \<open>[mn, mx]\<close>, \<open>slFirstInRange\<close> and \<open>slLastInRange\<close> return the nodes of
  the first and of the last such key.\<close>
theorem sl_range_ends:
  assumes "sl_rep h sl xs ks" "i < length ks" "mn \<le> fst (ks ! i)" "fst (ks ! i) \<le> mx"
  shows "\<exists>a b. slFirstInRange h sl mn mx = Some (Some (xs ! a)) \<and> slLastInRange h sl mn mx = Some (Some (xs ! b)) \<and>
    a \<le> i \<and> i \<le> b \<and> b < length ks \<and> (\<forall>j < length ks. (mn \<le> fst (ks ! j) \<and> fst (ks ! j) \<le> mx) = (a \<le> j \<and> j \<le> b))"
proof -
  note r = sl_repD[OF assms(1)]
  let ?a = "length (takeWhile (\<lambda>k. fst k < mn) ks)" and ?b = "length (takeWhile (\<lambda>k. fst k \<le> mx) ks)"
  have a: "fst (ks ! j) < mn \<longleftrightarrow> j < ?a" if "j < length ks" for j by (rule sorted_prefix[OF r(3) _ that]) auto
  have b: "fst (ks ! j) \<le> mx \<longleftrightarrow> j < ?b" if "j < length ks" for j by (rule sorted_prefix[OF r(3) _ that]) auto
  have ne: "ks \<noteq> []" "0 < length ks" using assms(2) by auto
  have mono: "fst (ks ! x) \<le> fst (ks ! y)" if "x \<le> y" "y < length ks" for x y
    using sorted_nth_mono[OF r(3) that] by (cases "ks ! x"; cases "ks ! y") auto
  have "fst (hd ks) \<le> fst (ks ! i)" using mono[of 0 i] assms(2) ne by (simp add: hd_conv_nth)
  moreover have "fst (ks ! i) \<le> fst (last ks)" using mono[of i "length ks - 1"] assms(2) ne by (simp add: last_conv_nth)
  ultimately have "slFirstInRange h sl mn mx = Some (Some (xs ! ?a))" "slLastInRange h sl mn mx = Some (Some (xs ! (?b - 1)))"
    using slFirstInRange_rep[OF assms(1), of mn mx] slLastInRange_rep[OF assms(1), of mn mx] ne assms(3,4) by auto
  moreover have "?a \<le> i" "i < ?b" "?b \<le> length ks" using a[OF assms(2)] b[OF assms(2)] assms(3,4) length_takeWhile_le[of "\<lambda>k. fst k \<le> mx" ks] by auto
  moreover have "(mn \<le> fst (ks ! j) \<and> fst (ks ! j) \<le> mx) = (?a \<le> j \<and> j \<le> ?b - 1)" if "j < length ks" for j
    using a[OF that] b[OF that] \<open>i < ?b\<close> by auto
  ultimately show ?thesis by (intro exI[of _ ?a] exI[of _ "?b - 1"]) auto
qed

theorem sl_range_ends_witness:
  "\<exists>(h :: int slheap) sl a. slFirstInRange h sl 4 6 = Some (Some a) \<and> slLastInRange h sl 4 6 = Some (Some a)"
proof -
  obtain h sl xs where r: "sl_rep h sl xs [(5 :: int, [7])]" using one_element by blast
  show ?thesis using sl_range_ends[OF r, of 0 4 6] by fastforce
qed

text \<open>C27: From \<open>slCreate\<close> on, any sequence of insertions of keys, for every behaviour of the allocator and of the
  random levels, can be carried out and leaves the sorted list of the keys.\<close>
theorem sl_build_sorted:
  assumes "(h :: 's::{linorder,zero} slheap) new = None" "finite (dom h)" "\<forall>k \<in> set ys. length (snd k) < 2 ^ 31" "length ys \<le> 2 ^ 32 - 1"
  shows "\<exists>h0 sl. slCreate new jb jl h = Some (h0, sl) \<and> (\<exists>s'. slstore.all store_ins (h0, sl) ys s') \<and>
    (\<forall>h' sl'. slstore.all store_ins (h0, sl) ys (h', sl') \<longrightarrow> (\<exists>xs. sl_rep h' sl' xs (sort ys)))"
proof -
  obtain h0 sl where c: "slCreate new jb jl h = Some (h0, sl)" "sl_rep h0 sl [] []" "\<forall>a. a \<noteq> new \<longrightarrow> (h0 a = None) = (h a = None)"
    using slCreate_rep[of h new jb jl] assms(1) by blast
  have "dom h0 \<subseteq> insert new (dom h)" using c(3) by auto
  then have "store_rep (h0, sl) []" using c(2) assms(2) finite_subset by (auto simp: store_rep_def)
  from slstore.build_sorted[OF this _ assms(4)] assms(3) have
    "\<exists>s'. slstore.all store_ins (h0, sl) ys s'" "\<forall>s'. slstore.all store_ins (h0, sl) ys s' \<longrightarrow> store_rep s' (sort ys)"
    unfolding store_ok_def by blast+
  then show ?thesis using c(1) by (fastforce simp: store_rep_def)
qed

theorem sl_build_sorted_witness:
  "\<exists>(h0 :: int slheap) sl s' xs. slCreate 0 None (\<lambda>_. (None, 0)) Map.empty = Some (h0, sl) \<and>
     slstore.all store_ins (h0, sl) [(4, [1]), (2, [3])] s' \<and> sl_rep (fst s') (snd s') xs [(2, [3]), (4, [1])]"
proof -
  obtain h0 :: "int slheap" and sl where s: "slCreate 0 None (\<lambda>_. (None, 0)) Map.empty = Some (h0, sl)"
    "\<exists>s'. slstore.all store_ins (h0, sl) [(4, [1]), (2, [3])] s'"
    "\<forall>h' sl'. slstore.all store_ins (h0, sl) [(4, [1]), (2, [3])] (h', sl') \<longrightarrow> (\<exists>xs. sl_rep h' sl' xs (sort [(4, [1]), (2, [3])]))"
    using sl_build_sorted[of "Map.empty :: int slheap" 0 "[(4, [1]), (2, [3])]" None "\<lambda>_. (None, 0)"] by force
  obtain h' sl' where h': "slstore.all store_ins (h0, sl) [(4, [1]), (2, [3])] (h', sl')" using s(2) by (metis surj_pair)
  have "sort [(4 :: int, [1 :: byte]), (2, [3])] = [(2, [3]), (4, [1])]" by simp
  then obtain xs where "sl_rep h' sl' xs [(2, [3]), (4, [1])]" using s(3) h' by metis
  then show ?thesis using s(1) h' by (intro exI[of _ h0] exI[of _ sl] exI[of _ "(h', sl')"] exI[of _ xs]) simp
qed


section \<open>Where the comments and the code part\<close>

text \<open>\<open>slGetRank\<close> is said to search by score and key; it compares the object only, and finds an element under
  a score it does not have.\<close>

lemma slGetRank_wrong_score:
  assumes rep: "sl_rep h sl xs [(s, ob)]" and "s < s'"
  shows "slGetRank h sl s' ob = Some 1"
proof -
  note r = sl_repD[OF rep]
  have ob: "length ob < 2 ^ 31" using r(4)[of "(s, ob)"] by simp
  have N: "length (takeWhile (\<lambda>k. k \<le> (s', ob)) [(s, ob)]) = 1" using assms(2) by simp
  have l: "slevel sl \<le> ht h ((header sl # xs) ! 0)" "0 < slevel sl" using sl_invD(3-5)[OF r(1)] by auto
  have "(snd ([(s, ob)] ! (q - 1)) = ob) = (True \<and> q = 1)" if "0 < q" "q \<le> 1" for q using that by auto
  from slGetRank_loop_ok[OF rep upto_prefix[OF rep ob, of s', unfolded N] ob this _ order_refl le0 l(1)] show ?thesis
    using l(2) by (simp add: slGetRank_def)
qed

text \<open>\<open>slFirstInRange\<close> is said to return NULL when no element is in the range; when the range falls into a gap
  it returns the element after the gap.\<close>

lemma slFirstInRange_gap:
  assumes rep: "sl_rep h sl xs [(a, ob1), (b, ob2)]" and "a < mn" "mn \<le> mx" "mx < b"
  shows "slFirstInRange h sl mn mx = Some (Some (xs ! 1)) \<and> fst (key h (xs ! 1)) > mx"
proof -
  obtain x y where "xs = [x, y]" using sl_repD(6)[OF rep] by (cases xs; cases "tl xs") auto
  moreover have "key h y = (b, ob2)" using sl_repD(2)[OF rep] calculation by simp
  ultimately show ?thesis using slFirstInRange_rep[OF rep, of mn mx] assms(2-4) by auto
qed

end
