(* ===== verification/Util.thy ===== *)
theory Util
  imports Prelude
begin

text \<open>
  String helpers (\<open>redislib-src/kernel/util.c\<close>): glob matching, numbers to and from decimal text, memory
  sizes and byte sets.

  A counted string is the list of its bytes.  Where the code looks one byte past the counted part (the
  collapse of stars in a pattern, the hexadecimal reader) that byte is an argument.  \<open>char\<close> is signed, and
  \<open>tolower\<close> and \<open>isdigit\<close> are those of the C locale.
\<close>

section \<open>Glob matching\<close>

definition tolower :: "int \<Rightarrow> int" where
  "tolower c = (if 65 \<le> c \<and> c \<le> 90 then c + 32 else c)"

text \<open>The loop over a character class, from after the opening bracket and a \<open>^\<close>: does the class contain the
  character, and what is left of the pattern after the class.  A class that is not closed ends the pattern.\<close>

function sm_class :: "bool \<Rightarrow> byte \<Rightarrow> mem \<Rightarrow> bool \<Rightarrow> bool \<times> mem" where
  "sm_class nocase c p match =
     (if length p \<ge> 2 \<and> p ! 0 = 92 then sm_class nocase c (drop 2 p) (match \<or> p ! 1 = c)
      else if p = [] then (match, [])
      else if p ! 0 = 93 then (match, tl p)
      else if length p \<ge> 3 \<and> p ! 1 = 45 then
        (let start = sint (p ! 0); fin = sint (p ! 2); ch = sint c;
             (start, fin) = (if start > fin then (fin, start) else (start, fin));
             (start, fin, ch) = (if nocase then (tolower start, tolower fin, tolower ch) else (start, fin, ch))
         in sm_class nocase c (drop 3 p) (match \<or> ch \<ge> start \<and> ch \<le> fin))
      else sm_class nocase c (tl p)
             (match \<or> (if \<not> nocase then p ! 0 = c else tolower (sint (p ! 0)) = tolower (sint c))))"
  by pat_completeness auto
termination by (relation "measure (\<lambda>(n, c, p, m). length p)") (auto simp: neq_Nil_conv)

declare sm_class.simps [simp del]

lemma sm_class_length: "length (snd (sm_class nocase c p m)) \<le> length p"
proof (induction "length p" arbitrary: p m rule: less_induct)
  case less
  have d: "length (snd (sm_class nocase c (drop k p) m)) \<le> length p" if "0 < k" "p \<noteq> []" for k m
  proof -
    have "length (drop k p) < length p" using that by simp
    from less[OF this, of m] show ?thesis by simp
  qed
  show ?case
  proof (cases "p = []")
    case False
    then show ?thesis using d[of 2] d[of 3] d[of 1]
      by (simp add: sm_class.simps[of nocase c p m] Let_def split_def drop_Suc)
  qed (simp add: sm_class.simps)
qed

text \<open>\<open>while (patternLen && pattern[1] == '*') { pattern++; patternLen--; }\<close> with the byte after the pattern;
  when that is a star the length would reach 0 and the matcher leave the pattern.\<close>

fun sm_collapse :: "byte \<Rightarrow> mem \<Rightarrow> mem option" where
  "sm_collapse nul (x # y # p) = (if y = 42 then sm_collapse nul (y # p) else Some (x # y # p))"
| "sm_collapse nul [x] = (if nul = 42 then None else Some [x])"
| "sm_collapse nul [] = None"

lemma sm_collapse_length: "sm_collapse nul p = Some q \<Longrightarrow> q \<noteq> [] \<and> length q \<le> length p"
  by (induction nul p rule: sm_collapse.induct) (auto split: if_splits)

text \<open>The matcher: the entry with the limit of the nesting, the loop over the pattern, and the loop that
  tries the rest of the pattern behind a star at every position.  The flag is \<open>*skipLongerMatches\<close>.\<close>

function stringmatchlen_impl :: "byte \<Rightarrow> bool \<Rightarrow> nat \<Rightarrow> mem \<Rightarrow> mem \<Rightarrow> bool \<Rightarrow> (bool \<times> bool) option"
    and sm_loop :: "byte \<Rightarrow> bool \<Rightarrow> nat \<Rightarrow> mem \<Rightarrow> mem \<Rightarrow> bool \<Rightarrow> (bool \<times> bool) option"
    and sm_star :: "byte \<Rightarrow> bool \<Rightarrow> nat \<Rightarrow> mem \<Rightarrow> mem \<Rightarrow> bool \<Rightarrow> (bool \<times> bool) option" where
  "stringmatchlen_impl nul nocase nesting p s skip =
     (if nesting > 1000 then Some (False, skip) else sm_loop nul nocase nesting p s skip)"
| "sm_loop nul nocase nesting p s skip =
     (if p = [] \<or> s = [] then Some (p = [] \<and> s = [], skip)
      else if hd p = 42 then
        (case sm_collapse nul p of
           None \<Rightarrow> None
         | Some q \<Rightarrow> if length q = 1 then Some (True, skip) else sm_star nul nocase nesting (tl q) s skip)
      else if hd p = 63 then
        (if tl s = [] then Some (dropWhile (\<lambda>c. c = 42) (tl p) = [], skip)
         else sm_loop nul nocase nesting (tl p) (tl s) skip)
      else if hd p = 91 then
        (let p1 = tl p;
             neg = (p1 \<noteq> [] \<and> hd p1 = 94);
             (match, rest) = sm_class nocase (hd s) (if neg then tl p1 else p1) False in
         if match = neg then Some (False, skip)
         else if tl s = [] then Some (dropWhile (\<lambda>c. c = 42) rest = [], skip)
         else sm_loop nul nocase nesting rest (tl s) skip)
      else
        (let q = (if hd p = 92 \<and> length p \<ge> 2 then tl p else p) in
         if (if \<not> nocase then hd q \<noteq> hd s else tolower (sint (hd q)) \<noteq> tolower (sint (hd s))) then Some (False, skip)
         else if tl s = [] then Some (dropWhile (\<lambda>c. c = 42) (tl q) = [], skip)
         else sm_loop nul nocase nesting (tl q) (tl s) skip))"
| "sm_star nul nocase nesting p s skip =
     (if s = [] then Some (False, True)
      else case stringmatchlen_impl nul nocase (nesting + 1) p s skip of
        None \<Rightarrow> None
      | Some (r, skip) \<Rightarrow>
          if r then Some (True, skip)
          else if skip then Some (False, skip)
          else sm_star nul nocase nesting p (tl s) skip)"
  by pat_completeness auto


termination
proof (relation "measures [\<lambda>x. case x of Inl (_, _, _, p, _) \<Rightarrow> length p | Inr (Inl (_, _, _, p, _)) \<Rightarrow> length p | Inr (Inr (_, _, _, p, _)) \<Rightarrow> length p,
    \<lambda>x. case x of Inl _ \<Rightarrow> 1 | Inr (Inl _) \<Rightarrow> 0 | Inr (Inr _) \<Rightarrow> 2,
    \<lambda>x. case x of Inl (_, _, _, _, s, _) \<Rightarrow> length s | Inr (Inl (_, _, _, _, s, _)) \<Rightarrow> length s | Inr (Inr (_, _, _, _, s, _)) \<Rightarrow> length s]", goal_cases)
  case (3 nul nocase nesting p s skip q)
  then show ?case using sm_collapse_length[of nul p q] by (cases q) auto
next
  case (5 nul nocase nesting p s skip p1 neg u match rest)
  then have r: "rest = snd (sm_class nocase (hd s) (if neg then tl p1 else p1) False)" by (metis snd_conv)
  have "length (if neg then tl p1 else p1) < length p" using 5 by (cases p) auto
  then have "length rest < length p" using sm_class_length[of nocase "hd s" "if neg then tl p1 else p1" False] r by simp
  then show ?case by simp
qed auto


declare stringmatchlen_impl.simps [simp del] sm_loop.simps [simp del] sm_star.simps [simp del]

definition stringmatchlen :: "byte \<Rightarrow> mem \<Rightarrow> mem \<Rightarrow> bool \<Rightarrow> bool option" where
  "stringmatchlen nul pattern str nocase = map_option fst (stringmatchlen_impl nul nocase 0 pattern str False)"

text \<open>\<open>for (int i = patternLen - 2; i >= 0; i--)\<close>: count the backslashes before the last character, \<open>k\<close>
  characters left.\<close>

fun prefixmatch_count :: "mem \<Rightarrow> nat \<Rightarrow> nat" where
  "prefixmatch_count p 0 = 0"
| "prefixmatch_count p (Suc i) = (if p ! i = 92 then Suc (prefixmatch_count p i) else 0)"

definition prefixmatch :: "byte \<Rightarrow> mem \<Rightarrow> mem \<Rightarrow> bool \<Rightarrow> bool option" where
  "prefixmatch nul pattern str nocase = do {
     (m, _) \<leftarrow> stringmatchlen_impl nul nocase 0 pattern str False;
     if \<not> m then Some False
     else if pattern = [] \<or> last pattern \<noteq> 42 then Some False
     else Some (even (prefixmatch_count pattern (length pattern - 1))) }"

section \<open>The language of a pattern\<close>

text \<open>A pattern as a list of tokens: a star, or a test of one character.\<close>

datatype gtok = GStar | GOne "byte \<Rightarrow> bool"

fun gmatch :: "gtok list \<Rightarrow> mem \<Rightarrow> bool" where
  "gmatch [] s = (s = [])"
| "gmatch (GStar # ts) s = (\<exists>k \<le> length s. gmatch ts (drop k s))"
| "gmatch (GOne P # ts) s = (case s of [] \<Rightarrow> False | c # s' \<Rightarrow> P c \<and> gmatch ts s')"

text \<open>The items of a character class: an escaped character (compared exactly), a range, a character.\<close>

datatype citem = Esc byte | Rng byte byte | Chr byte

fun item_hit :: "bool \<Rightarrow> byte \<Rightarrow> citem \<Rightarrow> bool" where
  "item_hit nocase c (Esc x) = (x = c)"
| "item_hit nocase c (Rng x y) =
     (let a = min (sint x) (sint y); b = max (sint x) (sint y); f = (if nocase then tolower else id)
      in f a \<le> f (sint c) \<and> f (sint c) \<le> f b)"
| "item_hit nocase c (Chr x) = (if nocase then tolower (sint x) = tolower (sint c) else x = c)"

function class_items :: "mem \<Rightarrow> citem list \<times> mem" where
  "class_items p =
     (if length p \<ge> 2 \<and> p ! 0 = 92 then (Esc (p ! 1) # fst (class_items (drop 2 p)), snd (class_items (drop 2 p)))
      else if p = [] then ([], [])
      else if p ! 0 = 93 then ([], tl p)
      else if length p \<ge> 3 \<and> p ! 1 = 45 then (Rng (p ! 0) (p ! 2) # fst (class_items (drop 3 p)), snd (class_items (drop 3 p)))
      else (Chr (p ! 0) # fst (class_items (tl p)), snd (class_items (tl p))))"
  by pat_completeness auto
termination by (relation "measure length") (auto simp: neq_Nil_conv)

declare class_items.simps [simp del]

lemma sm_class_items: "sm_class nocase c p m = (m \<or> (\<exists>x \<in> set (fst (class_items p)). item_hit nocase c x), snd (class_items p))"
proof (induction "length p" arbitrary: p m rule: less_induct)
  case less
  have d: "sm_class nocase c (drop k p) m = (m \<or> (\<exists>x \<in> set (fst (class_items (drop k p))). item_hit nocase c x), snd (class_items (drop k p)))"
    if "0 < k" "p \<noteq> []" for k m
    using less[of "drop k p" m] that by simp
  show ?case
  proof (cases "p = []")
    case False
    then show ?thesis
      using d[of 2] d[of 3] d[of 1]
      by (simp add: sm_class.simps[of nocase c p m] class_items.simps[of p] Let_def split_def drop_Suc min_def max_def)
  qed (simp add: sm_class.simps class_items.simps)
qed

lemma class_items_length: "length (snd (class_items p)) \<le> length p"
  using sm_class_length[of False 0 p False] by (simp add: sm_class_items)

function gparse :: "bool \<Rightarrow> mem \<Rightarrow> gtok list" where
  "gparse nocase p =
     (if p = [] then []
      else if hd p = 42 then GStar # gparse nocase (tl p)
      else if hd p = 63 then GOne (\<lambda>c. True) # gparse nocase (tl p)
      else if hd p = 91 then
        (let neg = (tl p \<noteq> [] \<and> hd (tl p) = 94); q = (if neg then tl (tl p) else tl p) in
         GOne (\<lambda>c. (\<exists>x \<in> set (fst (class_items q)). item_hit nocase c x) \<noteq> neg) # gparse nocase (snd (class_items q)))
      else
        (let q = (if hd p = 92 \<and> length p \<ge> 2 then tl p else p) in
         GOne (\<lambda>c. if nocase then tolower (sint (hd q)) = tolower (sint c) else hd q = c) # gparse nocase (tl q)))"
  by pat_completeness auto
termination
proof (relation "measure (\<lambda>(n, p). length p)", goal_cases)
  case (4 nocase p neg q)
  then show ?case using class_items_length[of q] by (cases p; cases "tl p") (auto split: if_splits)
qed auto

declare gparse.simps [simp del]

abbreviation globs :: "bool \<Rightarrow> mem \<Rightarrow> mem \<Rightarrow> bool" where
  "globs nocase p s \<equiv> gmatch (gparse nocase p) s"

lemma globs_Nil: "globs nocase [] s = (s = [])"
  by (simp add: gparse.simps)

lemma globs_star: "globs nocase (42 # p) s = (\<exists>k \<le> length s. globs nocase p (drop k s))"
  by (subst gparse.simps) simp

lemma globs_empty: "globs nocase p [] = (dropWhile (\<lambda>c. c = 42) p = [])"
proof (induction p)
  case Nil
  then show ?case by (simp add: globs_Nil)
next
  case (Cons c p)
  show ?case
  proof (cases "c = 42")
    case True
    then show ?thesis using Cons by (simp add: globs_star)
  qed (simp add: gparse.simps[of _ "c # p"] Let_def)
qed

text \<open>A pattern that starts with neither a star nor its end tests one character.\<close>

lemma globs_one: "p \<noteq> [] \<Longrightarrow> hd p \<noteq> 42 \<Longrightarrow> \<exists>P r. gparse nocase p = GOne P # r"
  by (subst gparse.simps) (auto simp: Let_def)

lemma globs_collapse: "sm_collapse nul p = Some q \<Longrightarrow> hd p = 42 \<Longrightarrow> nul \<noteq> 42 \<Longrightarrow>
   \<exists>r. q = 42 # r \<and> (r = [] \<or> hd r \<noteq> 42) \<and> globs nocase p = globs nocase q \<and> (\<exists>n. p = replicate n 42 @ q)"
proof (induction nul p rule: sm_collapse.induct)
  case (1 nul x y p)
  show ?case
  proof (cases "y = 42")
    case True
    then obtain r where r: "q = 42 # r" "r = [] \<or> hd r \<noteq> 42" "globs nocase (y # p) = globs nocase q" "\<exists>n. y # p = replicate n 42 @ q"
      using 1 by auto
    have "globs nocase (x # y # p) s = globs nocase (y # p) s" for s
    proof -
      have "globs nocase (42 # 42 # p) s = globs nocase (42 # p) s"
      proof
        assume "globs nocase (42 # 42 # p) s"
        then obtain k j where "k \<le> length s" "j \<le> length (drop k s)" "globs nocase p (drop j (drop k s))"
          unfolding globs_star by blast
        then show "globs nocase (42 # p) s" unfolding globs_star by (intro exI[of _ "k + j"]) (auto simp: add.commute)
      next
        assume "globs nocase (42 # p) s"
        then show "globs nocase (42 # 42 # p) s" unfolding globs_star[of _ "42 # p"] by (intro exI[of _ 0]) auto
      qed
      then show ?thesis using True 1 by simp
    qed
    moreover obtain n where "y # p = replicate n 42 @ q" using r(4) by blast
    then have "x # y # p = replicate (Suc n) 42 @ q" using 1 by simp
    ultimately show ?thesis using r by (intro exI[of _ r] conjI exI[of _ "Suc n"]) (auto simp: fun_eq_iff)
  next
    case False
    then have "q = 42 # y # p" "x = 42" using 1 by auto
    then show ?thesis using False by (auto intro!: exI[of _ 0])
  qed
qed (auto intro!: exI[of _ 0])


section \<open>The matcher decides the language\<close>

definition stars :: "gtok list \<Rightarrow> nat" where
  "stars ts = length (filter (\<lambda>t. case t of GStar \<Rightarrow> True | _ \<Rightarrow> False) ts)"

lemma stars_simps [simp]: "stars [] = 0" "stars (GStar # ts) = Suc (stars ts)" "stars (GOne P # ts) = stars ts"
  by (simp_all add: stars_def)

lemma stars_star: "stars (gparse nocase (42 # p)) = Suc (stars (gparse nocase p))"
  by (subst gparse.simps) simp

lemma stars_replicate: "stars (gparse nocase p) \<le> stars (gparse nocase (replicate n 42 @ p))"
  by (induction n) (simp_all add: stars_star)

text \<open>What a call promises: the answer, and when it asks to skip longer matches, that no later start matches.\<close>

definition sm_post :: "bool \<Rightarrow> mem \<Rightarrow> mem \<Rightarrow> (bool \<times> bool) option \<Rightarrow> bool" where
  "sm_post nocase p s r \<longleftrightarrow> (\<exists>k. r = Some (globs nocase p s, k) \<and> (k \<longrightarrow> (\<forall>j. \<not> globs nocase p (drop j s))))"

definition sm_star_post :: "bool \<Rightarrow> mem \<Rightarrow> mem \<Rightarrow> (bool \<times> bool) option \<Rightarrow> bool" where
  "sm_star_post nocase p s r \<longleftrightarrow> (\<exists>k. r = Some (\<exists>j. globs nocase p (drop j s), k) \<and> (k \<longrightarrow> (\<forall>j. \<not> globs nocase p (drop j s))))"

text \<open>One character was tested and the loop goes on.\<close>

lemma sm_post_step:
  assumes "gparse nocase p = GOne P # gparse nocase q" "s \<noteq> []" "P (hd s)"
    "tl s \<noteq> [] \<Longrightarrow> sm_post nocase q (tl s) r"
  shows "sm_post nocase p s (if tl s = [] then Some (dropWhile (\<lambda>c. c = 42) q = [], False) else r)"
proof -
  obtain c t where s: "s = c # t" using assms(2) by (cases s) auto
  have g: "globs nocase p (drop j s) \<Longrightarrow> globs nocase q (drop j t)" for j
  proof -
    assume "globs nocase p (drop j s)"
    then have "globs nocase q (tl (drop j s))" using assms(1) by (cases "drop j s") simp_all
    then show "globs nocase q (drop j t)" by (simp add: s tl_drop)
  qed
  show ?thesis
  proof (cases "t = []")
    case True
    then show ?thesis using assms(1,3) by (auto simp: sm_post_def s globs_empty)
  next
    case False
    then obtain k where "r = Some (globs nocase q t, k)" "k \<longrightarrow> (\<forall>j. \<not> globs nocase q (drop j t))"
      using assms(4) by (auto simp: s sm_post_def)
    then show ?thesis using assms(1,3) False g by (auto simp: sm_post_def s)
  qed
qed

lemma sm_post_fail: "gparse nocase p = GOne P # ts \<Longrightarrow> s \<noteq> [] \<Longrightarrow> \<not> P (hd s) \<Longrightarrow> sm_post nocase p s (Some (False, False))"
  by (cases s) (auto simp: sm_post_def)

lemma sm_star_step:
  assumes "p \<noteq> []" "hd p \<noteq> 42" "sm_star_post nocase p s r"
  shows "sm_post nocase (42 # p) s r"
proof -
  obtain P t where P: "gparse nocase p = GOne P # t" using globs_one[OF assms(1,2)] by blast
  have e: "\<not> globs nocase p []" by (simp add: P)
  have g: "globs nocase (42 # p) u = (\<exists>j. globs nocase p (drop j u))" for u
  proof
    assume "\<exists>j. globs nocase p (drop j u)"
    then obtain j where j: "globs nocase p (drop j u)" by blast
    then have "j \<le> length u" using e by (cases "j \<le> length u") auto
    then show "globs nocase (42 # p) u" unfolding globs_star using j by blast
  qed (auto simp: globs_star)
  obtain k where k: "r = Some (\<exists>j. globs nocase p (drop j s), k)" "k \<longrightarrow> (\<forall>j. \<not> globs nocase p (drop j s))"
    using assms(3) unfolding sm_star_post_def by blast
  then have "k \<longrightarrow> (\<forall>j. \<not> globs nocase (42 # p) (drop j s))" unfolding g drop_drop by blast
  then show ?thesis using k(1) unfolding sm_post_def g by blast
qed


lemma sm_star_correct:
  assumes "\<And>s. s \<noteq> [] \<Longrightarrow> sm_post nocase p s (stringmatchlen_impl nul nocase (nesting + 1) p s False)" "\<not> globs nocase p []"
  shows "sm_star_post nocase p s (sm_star nul nocase nesting p s False)"
proof (induction s)
  case Nil
  then show ?case using assms(2) by (subst sm_star.simps) (auto simp: sm_star_post_def)
next
  case (Cons c t)
  obtain k where k: "stringmatchlen_impl nul nocase (nesting + 1) p (c # t) False = Some (globs nocase p (c # t), k)"
    "k \<longrightarrow> (\<forall>j. \<not> globs nocase p (drop j (c # t)))" using assms(1)[of "c # t"] by (auto simp: sm_post_def)
  obtain l where l: "sm_star nul nocase nesting p t False = Some (\<exists>j. globs nocase p (drop j t), l)"
    "l \<longrightarrow> (\<forall>j. \<not> globs nocase p (drop j t))" using Cons by (auto simp: sm_star_post_def)
  have ex: "(\<exists>j. globs nocase p (drop j (c # t))) = (globs nocase p (c # t) \<or> (\<exists>j. globs nocase p (drop j t)))"
  proof
    assume "\<exists>j. globs nocase p (drop j (c # t))"
    then obtain j where "globs nocase p (drop j (c # t))" by blast
    then show "globs nocase p (c # t) \<or> (\<exists>j. globs nocase p (drop j t))" by (cases j) auto
  next
    assume "globs nocase p (c # t) \<or> (\<exists>j. globs nocase p (drop j t))"
    then show "\<exists>j. globs nocase p (drop j (c # t))" by (metis drop_0 drop_Suc_Cons)
  qed
  show ?case
  proof (cases "globs nocase p (c # t)")
    case True
    then have "sm_star nul nocase nesting p (c # t) False = Some (True, k)" using k(1) by (subst sm_star.simps) simp
    moreover have "\<not> k" using k(2) True by (metis drop_0)
    ultimately show ?thesis using ex True by (auto simp: sm_star_post_def)
  next
    case False
    then have "sm_star nul nocase nesting p (c # t) False = (if k then Some (False, True) else sm_star nul nocase nesting p t False)"
      using k(1) by (subst sm_star.simps) simp
    then show ?thesis using k(2) l ex False unfolding sm_star_post_def by auto
  qed
qed

lemma sm_collapse_total: "nul \<noteq> 42 \<Longrightarrow> p \<noteq> [] \<Longrightarrow> \<exists>q. sm_collapse nul p = Some q"
  by (induction nul p rule: sm_collapse.induct) auto

lemma sm_loop_correct:
  assumes "nul \<noteq> 42" "s \<noteq> []" "nesting + stars (gparse nocase p) \<le> 1000"
  shows "sm_post nocase p s (sm_loop nul nocase nesting p s False)"
  using assms(2,3)
proof (induction "length p" arbitrary: p s nesting rule: less_induct)
  case less
  show ?case
  proof (cases "p = []")
    case True
    then show ?thesis using less.prems by (subst sm_loop.simps) (auto simp: sm_post_def globs_Nil)
  next
    case pne: False
    show ?thesis
    proof (cases "hd p = 42")
      case True
      obtain q where q: "sm_collapse nul p = Some q" using sm_collapse_total[OF assms(1) pne] by blast
      from globs_collapse[OF q True assms(1), of nocase] obtain r n where r: "q = 42 # r" "r = [] \<or> hd r \<noteq> 42" "globs nocase p = globs nocase q" "p = replicate n 42 @ q" by blast
      have eq: "sm_loop nul nocase nesting p s False = (if r = [] then Some (True, False) else sm_star nul nocase nesting r s False)"
        using pne less.prems(1) True q r(1) by (subst sm_loop.simps) simp
      show ?thesis
      proof (cases "r = []")
        case True
        have "globs nocase q s" using True r(1) by (auto simp: globs_star globs_Nil intro!: exI[of _ "length s"])
        then show ?thesis using eq True r(3) by (auto simp: sm_post_def)
      next
        case rne: False
        have st: "Suc (stars (gparse nocase r)) \<le> stars (gparse nocase p)" using stars_replicate[of nocase q n] r(1,4) by (simp add: stars_star)
        have lr: "length r < length p" using r(1,4) by simp
        have "sm_post nocase r u (stringmatchlen_impl nul nocase (nesting + 1) r u False)" if "u \<noteq> []" for u
          using less.hyps[OF lr that, of "nesting + 1"] st less.prems(2) by (subst stringmatchlen_impl.simps) simp
        moreover have "\<not> globs nocase r []" using r(2) rne by (cases r) (auto simp: globs_empty)
        ultimately have "sm_star_post nocase r s (sm_star nul nocase nesting r s False)" by (rule sm_star_correct)
        then have "sm_post nocase q s (sm_star nul nocase nesting r s False)" using sm_star_step[OF rne] r(1,2) rne by auto
        then show ?thesis using eq rne r(3) by (simp add: sm_post_def)
      qed
    next
      case F42: False
      have step: "sm_post nocase p s (sm_loop nul nocase nesting p s False)"
        if "gparse nocase p = GOne P # gparse nocase q" "length q < length p"
          "sm_loop nul nocase nesting p s False = (if P (hd s) then if tl s = [] then Some (dropWhile (\<lambda>c. c = 42) q = [], False) else sm_loop nul nocase nesting q (tl s) False else Some (False, False))" for P q
      proof (cases "P (hd s)")
        case True
        have "tl s \<noteq> [] \<Longrightarrow> sm_post nocase q (tl s) (sm_loop nul nocase nesting q (tl s) False)"
          using less.hyps[OF that(2), of "tl s" nesting] less.prems(2) that(1) by simp
        from sm_post_step[OF that(1) less.prems(1) True this] show ?thesis using that(3) True by simp
      qed (use that sm_post_fail[OF that(1) less.prems(1)] in simp)
      show ?thesis
      proof (cases "hd p = 91")
        case True
        define neg where "neg = (tl p \<noteq> [] \<and> hd (tl p) = 94)"
        define q where "q = (if neg then tl (tl p) else tl p)"
        have len: "length (snd (class_items q)) < length p" using class_items_length[of q] pne by (cases p) (auto simp: q_def split: if_splits)
        have e1: "gparse nocase p = GOne (\<lambda>c. (\<exists>x \<in> set (fst (class_items q)). item_hit nocase c x) \<noteq> neg) # gparse nocase (snd (class_items q))"
          using pne True by (subst gparse.simps) (simp add: Let_def neg_def q_def)
        have "sm_loop nul nocase nesting p s False = (if (\<exists>x \<in> set (fst (class_items q)). item_hit nocase (hd s) x) \<noteq> neg
           then if tl s = [] then Some (dropWhile (\<lambda>c. c = 42) (snd (class_items q)) = [], False) else sm_loop nul nocase nesting (snd (class_items q)) (tl s) False else Some (False, False))"
          using pne True less.prems(1) by (subst sm_loop.simps) (simp add: Let_def sm_class_items flip: neg_def q_def)
        from step[OF e1 len this] show ?thesis .
      next
        case F91: False
        show ?thesis
        proof (cases "hd p = 63")
          case True
          have "gparse nocase p = GOne (\<lambda>c. True) # gparse nocase (tl p)" using pne True by (subst gparse.simps) simp
          moreover have "length (tl p) < length p" using pne by simp
          ultimately show ?thesis using step[of "\<lambda>c. True" "tl p"] pne True less.prems(1) by (simp add: sm_loop.simps[of nul nocase nesting p s])
        next
          case F63: False
          define q where "q = (if hd p = 92 \<and> length p \<ge> 2 then tl p else p)"
          have e1: "gparse nocase p = GOne (\<lambda>c. if nocase then tolower (sint (hd q)) = tolower (sint c) else hd q = c) # gparse nocase (tl q)"
            using pne F42 F91 F63 by (subst gparse.simps) (simp add: Let_def q_def)
          have len: "length (tl q) < length p" using pne by (cases p) (auto simp: q_def)
          have "sm_loop nul nocase nesting p s False = (if (if nocase then tolower (sint (hd q)) = tolower (sint (hd s)) else hd q = hd s)
             then if tl s = [] then Some (dropWhile (\<lambda>c. c = 42) (tl q) = [], False) else sm_loop nul nocase nesting (tl q) (tl s) False else Some (False, False))"
            using pne F42 F91 F63 less.prems(1) by (subst sm_loop.simps) (simp add: Let_def flip: q_def)
          from step[OF e1 len this] show ?thesis .
        qed
      qed
    qed
  qed
qed

lemma stringmatchlen_globs:
  assumes "nul \<noteq> 42" "stars (gparse nocase p) \<le> 1000"
  shows "\<exists>k. stringmatchlen_impl nul nocase 0 p s False = Some (if s = [] then p = [] else globs nocase p s, k)"
proof (cases "s = []")
  case True
  then show ?thesis by (subst stringmatchlen_impl.simps, subst sm_loop.simps) auto
next
  case False
  then show ?thesis using sm_loop_correct[OF assms(1) False, of 0 nocase p] assms(2)
    by (subst stringmatchlen_impl.simps) (auto simp: sm_post_def)
qed


section \<open>Decimal text: the code\<close>

function digits10 :: "u64 \<Rightarrow> nat" where
  "digits10 v =
     (if v < 10 then 1
      else if v < 100 then 2
      else if v < 1000 then 3
      else if v < 1000000000000 then
        (if v < 100000000 then
           (if v < 1000000 then (if v < 10000 then 4 else 5 + of_bool (v \<ge> 100000))
            else 7 + of_bool (v \<ge> 10000000))
         else if v < 10000000000 then 9 + of_bool (v \<ge> 1000000000)
         else 11 + of_bool (v \<ge> 100000000000))
      else 12 + digits10 (v div 1000000000000))"
  by pat_completeness auto
termination
proof (relation "measure unat", simp)
  fix v :: u64 assume "\<not> v < 1000000000000"
  then have "0 < unat v" by (simp add: word_less_nat_alt)
  then show "(v div 1000000000000, v) \<in> measure unat" by (simp add: unat_div)
qed

declare digits10.simps [simp del]

definition sdigits10 :: "i64 \<Rightarrow> nat" where
  "sdigits10 v = (if v <s 0 then digits10 (if sint v \<noteq> - (2 ^ 63) then - v else 0x7FFFFFFFFFFFFFFF + 1) + 1 else digits10 v)"

text \<open>The table \<open>"0001...99"\<close> of digit pairs.\<close>

definition digits :: mem where
  "digits = concat (map (\<lambda>k. [word_of_int (48 + k div 10), word_of_int (48 + k mod 10)]) [0..99])"

text \<open>\<open>while (value >= 100)\<close>: two digits at a time from the end; \<open>dst\<close> is an offset into the buffer.
  The guard is that \<open>next\<close> does not wrap below 0, after which the next write would leave the buffer.\<close>

partial_function (option) ull2string_loop :: "mem \<Rightarrow> nat \<Rightarrow> nat \<Rightarrow> u64 \<Rightarrow> (mem \<times> nat \<times> u64) option" where
  "ull2string_loop m dst next value =
     (if value \<ge> 100 then do {
        let i = unat (value mod 100) * 2;
        let value = value div 100;
        a \<leftarrow> getb digits (i + 1);
        m \<leftarrow> setb m (dst + next) a;
        guard (next \<ge> 2);
        b \<leftarrow> getb digits i;
        m \<leftarrow> setb m (dst + (next - 1)) b;
        ull2string_loop m dst (next - 2) value }
      else Some (m, next, value))"

definition str_err :: "mem \<Rightarrow> nat \<Rightarrow> nat \<Rightarrow> (nat \<times> mem) option" where
  "str_err m dst dstlen = (if dstlen > 0 then do { m \<leftarrow> setb m dst 0; Some (0, m) } else Some (0, m))"

definition ull2string :: "mem \<Rightarrow> nat \<Rightarrow> nat \<Rightarrow> u64 \<Rightarrow> (nat \<times> mem) option" where
  "ull2string m dst dstlen value =
     (let len = digits10 value in
      if len \<ge> dstlen then str_err m dst dstlen
      else do {
        let next = len - 1;
        m \<leftarrow> setb m (dst + (next + 1)) 0;
        (m, next, value) \<leftarrow> ull2string_loop m dst next value;
        if value < 10 then do {
          m \<leftarrow> setb m (dst + next) (ucast (48 + value));
          Some (len, m) }
        else do {
          let i = unat value * 2;
          a \<leftarrow> getb digits (i + 1);
          m \<leftarrow> setb m (dst + next) a;
          guard (next \<ge> 1);
          b \<leftarrow> getb digits i;
          m \<leftarrow> setb m (dst + (next - 1)) b;
          Some (len, m) } })"

definition ll2string :: "mem \<Rightarrow> nat \<Rightarrow> i64 \<Rightarrow> (nat \<times> mem) option" where
  "ll2string m dstlen svalue =
     (if svalue <s 0 then
        (let value = (if sint svalue \<noteq> - (2 ^ 63) then - svalue else 0x7FFFFFFFFFFFFFFF + 1) in
         if dstlen < 2 then str_err m 0 dstlen
         else do {
           m \<leftarrow> setb m 0 45;
           (len, m) \<leftarrow> ull2string m 1 (dstlen - 1) value;
           if len = 0 then Some (0, m) else Some (len + 1, m) })
      else ull2string m 0 dstlen svalue)"

text \<open>The digit loop of \<open>string2ll\<close>: \<^term>\<open>None\<close> is an overflow, otherwise the value and the bytes not used.\<close>

fun string2ll_loop :: "u64 \<Rightarrow> mem \<Rightarrow> (u64 \<times> mem) option" where
  "string2ll_loop v [] = Some (v, [])"
| "string2ll_loop v (c # p) =
     (if 48 \<le> c \<and> c \<le> 57 then
        (if v > (- 1) div 10 then None
         else let v = v * 10 in
           if v > - 1 - ucast (c - 48) then None else string2ll_loop (v + ucast (c - 48)) p)
      else Some (v, c # p))"

definition LONG_STR_SIZE :: nat where "LONG_STR_SIZE = 21"

text \<open>\<^term>\<open>None\<close> is the return value 0.\<close>

definition string2ll :: "mem \<Rightarrow> i64 option" where
  "string2ll s =
     (if s = [] \<or> length s \<ge> LONG_STR_SIZE then None
      else if length s = 1 \<and> s ! 0 = 48 then Some 0
      else let negative = (s ! 0 = 45); p = (if negative then tl s else s) in
        if p = [] then None
        else if \<not> (49 \<le> p ! 0 \<and> p ! 0 \<le> 57) then None
        else case string2ll_loop (ucast (p ! 0 - 48)) (tl p) of
          None \<Rightarrow> None
        | Some (v, rest) \<Rightarrow>
            if rest \<noteq> [] then None
            else if negative then (if v > 0x8000000000000000 then None else Some (- v))
            else (if v > 0x7FFFFFFFFFFFFFFF then None else Some v))"

definition string2l :: "mem \<Rightarrow> i64 option" where
  "string2l s = (case string2ll s of None \<Rightarrow> None
     | Some v \<Rightarrow> if sint v < - (2 ^ 63) \<or> sint v > 2 ^ 63 - 1 then None else Some v)"

section \<open>Decimal text: its meaning\<close>

fun dec :: "nat \<Rightarrow> mem" where
  "dec n = (if n < 10 then [of_nat (48 + n)] else dec (n div 10) @ [of_nat (48 + n mod 10)])"

declare dec.simps [simp del]

definition idec :: "int \<Rightarrow> mem" where
  "idec x = (if x < 0 then 45 # dec (nat (- x)) else dec (nat x))"

definition isdig :: "byte \<Rightarrow> bool" where "isdig c \<longleftrightarrow> 48 \<le> c \<and> c \<le> 57"

definition dval :: "nat \<Rightarrow> mem \<Rightarrow> nat" where
  "dval a ds = foldl (\<lambda>a c. 10 * a + unat (c - 48)) a ds"

lemma dval_simps [simp]: "dval a [] = a" "dval a (c # ds) = dval (10 * a + unat (c - 48)) ds"
  "dval a (ds @ [c]) = 10 * dval a ds + unat (c - 48)"
  by (simp_all add: dval_def)

lemma unat_digit: "k < 10 \<Longrightarrow> unat (of_nat (48 + k) :: byte) = 48 + k"
proof -
  assume "k < 10"
  then have "48 + k < 2 ^ 8" by simp
  then show ?thesis by (simp only: unat_of_nat take_bit_nat_eq_self len_of_numeral_defs) (simp add: take_bit_nat_eq_self)
qed

lemma digit_of: "k < 10 \<Longrightarrow> isdig (of_nat (48 + k)) \<and> unat (of_nat (48 + k) - 48 :: byte) = k"
proof -
  assume k: "k < 10"
  have le: "(48 :: byte) \<le> of_nat (48 + k)" by (simp only: word_le_nat_alt unat_digit[OF k]) simp
  then have "unat (of_nat (48 + k) - 48 :: byte) = 48 + k - 48" by (simp only: unat_sub unat_digit[OF k]) simp
  then show ?thesis using le k unat_digit[OF k] by (simp add: isdig_def word_le_nat_alt)
qed

lemma of_digit: "isdig c \<Longrightarrow> unat (c - 48) < 10 \<and> of_nat (48 + unat (c - 48)) = c"
proof -
  assume "isdig c"
  then have c: "48 \<le> c" "c \<le> 57" by (auto simp: isdig_def)
  have u: "unat (c - 48) = unat c - 48" using c(1) by (simp add: unat_sub)
  have "48 \<le> unat c" "unat c \<le> 57" using c by (auto simp: word_le_nat_alt)
  moreover have "48 + unat (c - 48) = unat c" using u calculation by simp
  then have "(of_nat (48 + unat (c - 48)) :: byte) = of_nat (unat c)" by (simp only:)
  ultimately show ?thesis using u by simp
qed

lemma dec_digits: "list_all isdig (dec n)"
proof (induction n rule: dec.induct)
  case (1 n)
  then show ?case using digit_of[of n] digit_of[of "n mod 10"] by (subst dec.simps) auto
qed

lemma dval_dec: "dval 0 (dec n) = n"
proof (induction n rule: dec.induct)
  case (1 n)
  show ?case
  proof (cases "n < 10")
    case True
    then show ?thesis using digit_of[of n] by (subst dec.simps) simp
  next
    case False
    then show ?thesis using 1 digit_of[of "n mod 10"] by (subst dec.simps) simp
  qed
qed

lemma dec_ne: "dec n \<noteq> []" by (subst dec.simps) simp

lemma not_less_10: "10 ^ Suc k \<le> n \<Longrightarrow> \<not> n < (10 :: nat)"
proof -
  assume "10 ^ Suc k \<le> n"
  moreover have "(10 :: nat) \<le> 10 ^ Suc k" by simp
  ultimately show ?thesis by linarith
qed

lemma dec_length: "10 ^ k \<le> n \<Longrightarrow> n < 10 ^ (k + 1) \<Longrightarrow> length (dec n) = k + 1"
proof (induction k arbitrary: n)
  case 0
  then show ?case by (subst dec.simps) simp
next
  case (Suc k)
  have "10 ^ k \<le> n div 10" using Suc.prems(1) by (simp add: less_eq_div_iff_mult_less_eq)
  moreover have "n div 10 < 10 ^ (k + 1)" using Suc.prems(2) by (simp add: div_less_iff_less_mult)
  ultimately show ?case using Suc.IH not_less_10[OF Suc.prems(1)] by (subst dec.simps) simp
qed

lemma dec_length_div: "10 ^ k \<le> n \<Longrightarrow> length (dec n) = k + length (dec (n div 10 ^ k))"
proof (induction k arbitrary: n)
  case (Suc k)
  have "length (dec n) = Suc (length (dec (n div 10)))" using not_less_10[OF Suc.prems] by (subst dec.simps) simp
  moreover have "10 ^ k \<le> n div 10" using Suc.prems by (simp add: less_eq_div_iff_mult_less_eq)
  ultimately show ?case using Suc.IH[of "n div 10"] by (simp add: div_mult2_eq)
qed simp

lemma dec_lengths:
  "n < 10 \<Longrightarrow> length (dec n) = 1" "10 \<le> n \<Longrightarrow> n < 100 \<Longrightarrow> length (dec n) = 2"
  "100 \<le> n \<Longrightarrow> n < 1000 \<Longrightarrow> length (dec n) = 3" "1000 \<le> n \<Longrightarrow> n < 10000 \<Longrightarrow> length (dec n) = 4"
  "10000 \<le> n \<Longrightarrow> n < 100000 \<Longrightarrow> length (dec n) = 5" "100000 \<le> n \<Longrightarrow> n < 1000000 \<Longrightarrow> length (dec n) = 6"
  "1000000 \<le> n \<Longrightarrow> n < 10000000 \<Longrightarrow> length (dec n) = 7" "10000000 \<le> n \<Longrightarrow> n < 100000000 \<Longrightarrow> length (dec n) = 8"
  "100000000 \<le> n \<Longrightarrow> n < 1000000000 \<Longrightarrow> length (dec n) = 9" "1000000000 \<le> n \<Longrightarrow> n < 10000000000 \<Longrightarrow> length (dec n) = 10"
  "10000000000 \<le> n \<Longrightarrow> n < 100000000000 \<Longrightarrow> length (dec n) = 11" "100000000000 \<le> n \<Longrightarrow> n < 1000000000000 \<Longrightarrow> length (dec n) = 12"
  using dec_length[of 1 n] dec_length[of 2 n] dec_length[of 3 n] dec_length[of 4 n] dec_length[of 5 n] dec_length[of 6 n]
    dec_length[of 7 n] dec_length[of 8 n] dec_length[of 9 n] dec_length[of 10 n] dec_length[of 11 n]
  by (simp_all add: dec.simps)

lemma digits10_dec: "digits10 v = length (dec (unat v))"
proof (induction v rule: digits10.induct)
  case (1 v)
  let ?n = "unat v"
  show ?case
  proof (cases "?n < 1000000000000")
    case True
    then show ?thesis using dec_lengths[of ?n]
      by (subst digits10.simps) (simp add: word_less_nat_alt word_le_nat_alt)
  next
    case False
    then have "digits10 (v div 1000000000000) = length (dec (unat (v div 1000000000000)))"
      using 1 by (simp add: word_less_nat_alt)
    moreover have "unat (v div 1000000000000) = ?n div 10 ^ 12" by (simp add: unat_div)
    moreover have "length (dec ?n) = 12 + length (dec (?n div 10 ^ 12))" using dec_length_div[of 12 ?n] False by simp
    ultimately show ?thesis using False by (subst digits10.simps) (simp add: word_less_nat_alt)
  qed
qed

section \<open>Numbers to text\<close>

lemma nth_concat_pairs:
  "i < length xs \<Longrightarrow> concat (map (\<lambda>k. [f k, g k]) xs) ! (2 * i) = f (xs ! i)
     \<and> concat (map (\<lambda>k. [f k, g k]) xs) ! Suc (2 * i) = g (xs ! i)"
  by (induction xs arbitrary: i) (auto simp: nth_Cons' less_Suc_eq_0_disj)

lemma length_digits: "length digits = 200" unfolding digits_def by code_simp

lemma digits_at:
  assumes "k < 100"
  shows "getb digits (k * 2) = Some (of_nat (48 + k div 10))" "getb digits (k * 2 + 1) = Some (of_nat (48 + k mod 10))"
proof -
  define xs where "xs = [0::int..99]"
  define f g where "f x = (word_of_int (48 + x div 10) :: byte)" and "g x = (word_of_int (48 + x mod 10) :: byte)" for x :: int
  have "k < length xs" unfolding xs_def using assms by (simp only: length_upto)
  have x: "xs ! k = int k" unfolding xs_def using nth_upto[of 0 k 99] assms by linarith
  have d: "digits = concat (map (\<lambda>k. [f k, g k]) xs)" unfolding digits_def xs_def f_def g_def ..
  have p: "digits ! (2 * k) = f (int k)" "digits ! Suc (2 * k) = g (int k)"
    unfolding d using nth_concat_pairs[OF \<open>k < length xs\<close>, of f g] x by auto
  have "48 + int k div 10 = int (48 + k div 10)" "48 + int k mod 10 = int (48 + k mod 10)" by (simp_all add: zdiv_int zmod_int)
  then have "f (int k) = of_nat (48 + k div 10)" "g (int k) = of_nat (48 + k mod 10)"
    unfolding f_def g_def by (simp_all only: of_int_of_nat_eq)
  then show "getb digits (k * 2) = Some (of_nat (48 + k div 10))"
    "getb digits (k * 2 + 1) = Some (of_nat (48 + k mod 10))"
    using assms p by (simp_all add: getb_def length_digits mult.commute)
qed

lemma dec_ge: "10 \<le> n \<Longrightarrow> dec n = dec (n div 10) @ [of_nat (48 + n mod 10)]"
  by (subst dec.simps) (simp del: of_nat_add)

lemma dec_lt: "n < 10 \<Longrightarrow> dec n = [of_nat (48 + n)]"
  by (subst dec.simps) (simp del: of_nat_add)

lemma dec_100:
  assumes "100 \<le> n"
  shows "dec n = dec (n div 100) @ [of_nat (48 + n mod 100 div 10), of_nat (48 + n mod 100 mod 10)]"
proof -
  have d: "n div 10 div 10 = n div 100" by (simp add: div_mult2_eq[symmetric])
  have h: "n mod 100 = 10 * (n div 10 mod 10) + n mod 10" using mod_mult2_eq[of n 10 10] by simp
  have m: "n div 10 mod 10 = n mod 100 div 10" "n mod 10 = n mod 100 mod 10" unfolding h by simp_all
  have "10 \<le> n div 10" using assms by simp
  then have "dec n = (dec (n div 10 div 10) @ [of_nat (48 + n div 10 mod 10)]) @ [of_nat (48 + n mod 10)]"
    using assms dec_ge[of n] dec_ge[of "n div 10"] by (simp del: of_nat_add)
  then show ?thesis unfolding d m by (simp del: of_nat_add)
qed

lemma dec_10: "10 \<le> n \<Longrightarrow> n < 100 \<Longrightarrow> dec n = [of_nat (48 + n div 10), of_nat (48 + n mod 10)]"
  using dec_ge[of n] dec_lt[of "n div 10"] by (simp del: of_nat_add)

lemma patch_two:
  assumes "dst + Suc (length bs) < length m"
  shows "patch (m[dst + Suc (length bs) := b, dst + length bs := a]) dst bs = patch m dst (bs @ [a, b])"
  using assms by (intro nth_equalityI) (auto simp: nth_patch nth_append nth_list_update nth_Cons')

lemma patch_one: "dst < length m \<Longrightarrow> m[dst := b] = patch m dst [b]"
  by (simp add: patch_def upd_conv_take_nth_drop)

lemma dst_two: "dst + 1 < length m \<Longrightarrow> m[dst + 1 := b, dst := a] = patch m dst [a, b]"
  by (intro nth_equalityI) (auto simp: nth_patch nth_list_update nth_Cons')

declare ull2string_loop.simps [code]

lemma ull2string_loop_writes:
  "Suc next = length (dec (unat v)) \<Longrightarrow> dst + Suc next \<le> length m \<Longrightarrow>
   \<exists>m' next' v'. ull2string_loop m dst next v = Some (m', next', v') \<and> unat v' < 100 \<and> Suc next' = length (dec (unat v'))
     \<and> dst + Suc next' \<le> length m' \<and> length m' = length m \<and> patch m' dst (dec (unat v')) = patch m dst (dec (unat v))"
proof (induction "unat v" arbitrary: m "next" v rule: less_induct)
  case less
  let ?n = "unat v"
  show ?case
  proof (cases "v \<ge> 100")
    case True
    then have n: "100 \<le> ?n" by (simp add: word_le_nat_alt)
    have dv: "unat (v div 100) = ?n div 100" "unat (v mod 100) = ?n mod 100" by (simp_all add: unat_div unat_mod)
    let ?a = "of_nat (48 + ?n mod 100 div 10) :: byte" and ?b = "of_nat (48 + ?n mod 100 mod 10) :: byte"
    have d: "dec ?n = dec (?n div 100) @ [?a, ?b]" using dec_100[OF n] .
    have l: "next = Suc (length (dec (?n div 100)))" using less.prems(1) unfolding d by simp
    have g: "2 \<le> next" using l dec_ne[of "?n div 100"] by (cases "dec (?n div 100)") auto
    let ?m = "m[dst + next := ?b, dst + (next - 1) := ?a]"
    have lt: "unat (v div 100) < unat v" using n by (simp add: dv)
    have s1: "Suc (next - 2) = length (dec (unat (v div 100)))" using l g by (simp add: dv)
    have s2: "dst + Suc (next - 2) \<le> length ?m" using less.prems(2) by simp
    have p: "patch ?m dst (dec (?n div 100)) = patch m dst (dec ?n)"
      unfolding d using patch_two[of dst "dec (?n div 100)" m ?b ?a] l less.prems(2) by simp
    have "ull2string_loop m dst next v = ull2string_loop ?m dst (next - 2) (v div 100)"
      using True g less.prems(2) digits_at[of "?n mod 100"]
      by (subst ull2string_loop.simps) (simp add: Let_def dv del: of_nat_add)
    then show ?thesis using less.hyps[OF lt s1 s2] p by (simp add: dv)
  next
    case False
    then have "ull2string_loop m dst next v = Some (m, next, v)" by (subst ull2string_loop.simps) simp
    then show ?thesis using less.prems False by (simp add: word_less_nat_alt not_le)
  qed
qed

lemma length_dec_pos: "0 < length (dec n)" using dec_ne[of n] by simp

text \<open>The text and its terminating 0 are written, and nothing else.\<close>

lemma ull2string_writes:
  assumes "length (dec (unat v)) < dstlen" "dst + dstlen \<le> length m"
  shows "ull2string m dst dstlen v = Some (length (dec (unat v)), patch m dst (dec (unat v) @ [0]))"
proof -
  let ?l = "length (dec (unat v))"
  let ?m = "m[dst + ?l := 0]"
  have l: "Suc (?l - 1) = ?l" using length_dec_pos[of "unat v"] by simp
  obtain m' next' v' where r: "ull2string_loop ?m dst (?l - 1) v = Some (m', next', v')" "unat v' < 100"
      "Suc next' = length (dec (unat v'))" "dst + Suc next' \<le> length m'" "length m' = length m"
      "patch m' dst (dec (unat v')) = patch ?m dst (dec (unat v))"
    using ull2string_loop_writes[of "?l - 1" v dst ?m] assms l by auto
  have p: "patch ?m dst (dec (unat v)) = patch m dst (dec (unat v) @ [0])"
    using assms by (intro nth_equalityI) (auto simp: nth_patch nth_append nth_list_update)
  have e: "ull2string m dst dstlen v =
     (if v' < 10 then do { m \<leftarrow> setb m' (dst + next') (ucast (48 + v')); Some (?l, m) }
      else do {
          let i = unat v' * 2;
          a \<leftarrow> getb digits (i + 1);
          m \<leftarrow> setb m' (dst + next') a;
          guard (next' \<ge> 1);
          b \<leftarrow> getb digits i;
          m \<leftarrow> setb m (dst + (next' - 1)) b;
          Some (?l, m) })"
    using assms r(1) l by (simp add: ull2string_def digits10_dec Let_def del: add_Suc_right)
  show ?thesis
  proof (cases "unat v' < 10")
    case True
    have u: "(ucast (48 + v') :: byte) = of_nat (48 + unat v')"
    proof -
      have "unat (48 + v') = 48 + unat v'" using True by (subst unat_add_lem[THEN iffD1]) auto
      moreover have "(of_nat (unat (48 + v')) :: byte) = ucast (48 + v')" by simp
      ultimately show ?thesis by metis
    qed
    have "next' = 0" using r(3) dec_lt[OF True] by simp
    then show ?thesis using e True r p u patch_one[of dst m'] dec_lt[OF True]
      by (simp add: word_less_nat_alt del: of_nat_add)
  next
    case False
    then have d: "dec (unat v') = [of_nat (48 + unat v' div 10), of_nat (48 + unat v' mod 10)]" using dec_10 r(2) by simp
    have "next' = 1" using r(3) d by simp
    then show ?thesis using e False r p digits_at[OF r(2)] dst_two[of dst m'] d
      by (simp add: word_less_nat_alt Let_def del: of_nat_add)
  qed
qed

lemma ull2string_short:
  "dstlen \<le> length (dec (unat v)) \<Longrightarrow> ull2string m dst dstlen v = str_err m dst dstlen"
  by (simp add: ull2string_def digits10_dec Let_def)

lemma sint_u64: "sint (v :: i64) = (if uint v < 2 ^ 63 then uint v else uint v - 2 ^ 64)"
proof -
  have u: "0 \<le> uint v" "uint v < 2 ^ 64" using unsigned_less[of v] by auto
  have s: "sint v = signed_take_bit 63 (uint v)" by (simp add: sint_uint)
  show ?thesis
  proof (cases "uint v < 2 ^ 63")
    case True
    then show ?thesis using s u signed_take_bit_int_eq_self[of 63 "uint v"] by simp
  next
    case False
    have "signed_take_bit 63 (uint v) = signed_take_bit 63 (uint v - 2 ^ 64)"
      by (rule signed_take_bit_eq_iff_take_bit_eq[THEN iffD2]) (simp add: take_bit_eq_mod)
    also have "\<dots> = uint v - 2 ^ 64" using False u by (intro signed_take_bit_int_eq_self) auto
    finally show ?thesis using s False by simp
  qed
qed

lemma unat_neg: "v <s 0 \<Longrightarrow> unat (- (v :: i64)) = nat (- sint v)"
proof -
  assume "v <s 0"
  then have n: "sint v = uint v - 2 ^ 64" "2 ^ 63 \<le> uint v" using sint_u64[of v] by (auto simp: sslt_iff split: if_splits)
  have b: "uint v < 2 ^ 64" using unsigned_less[of v] by simp
  have "uint (- v) = (- uint v) mod 2 ^ 64" by (simp add: uint_word_ariths)
  also have "\<dots> = (- uint v + 2 ^ 64) mod 2 ^ 64" by (simp only: mod_add_self2)
  also have "\<dots> = 2 ^ 64 - uint v" using n b by (subst mod_pos_pos_trivial) auto
  finally have "uint (- v) = - sint v" using n(1) by simp
  then show ?thesis by (metis unat_eq_nat_uint)
qed

lemma unat_nonneg: "\<not> v <s 0 \<Longrightarrow> unat (v :: i64) = nat (sint v)"
proof -
  assume "\<not> v <s 0"
  then have n: "0 \<le> sint v" by (simp add: sslt_iff)
  have "uint v < 2 ^ 64" using unsigned_less[of v] by simp
  then have "sint v = uint v" using n sint_u64[of v] by (simp split: if_splits)
  then show ?thesis by (metis unat_eq_nat_uint)
qed

lemma unat_max: "unat (- 1 :: u64) = 2 ^ 64 - 1" by (simp add: unsigned_minus_1_eq_mask mask_eq_exp_minus_1)

lemma unat_ucast_byte: "unat (ucast (c :: byte) :: u64) = unat c"
proof -
  have "unat c < 2 ^ 64" using unsigned_less[of c, where ?'a = nat] by simp
  then show ?thesis by (simp add: unsigned_ucast_eq take_bit_nat_eq_self)
qed

lemma abs_min: "(if sint svalue \<noteq> - (2 ^ 63) then - svalue else 0x7FFFFFFFFFFFFFFF + 1) = - (svalue :: i64)"
proof (cases "sint svalue = - (2 ^ 63)")
  case True
  moreover have "word_of_int (sint svalue) = svalue" by simp
  ultimately have "svalue = word_of_int (- (2 ^ 63))" by metis
  then show ?thesis by simp
qed simp

lemma patch_Cons: "length bs < length m \<Longrightarrow> patch (m[0 := b]) 1 bs = patch m 0 (b # bs)"
  by (cases m) (auto simp: patch_def)

text \<open>\<open>ll2string\<close> writes the decimal text of the number with its terminating 0, or reports that the buffer is
  too small.\<close>

lemma ll2string_writes:
  assumes "length (idec (sint v)) < dstlen" "dstlen \<le> length m"
  shows "ll2string m dstlen v = Some (length (idec (sint v)), patch m 0 (idec (sint v) @ [0]))"
proof (cases "v <s 0")
  case True
  then have i: "idec (sint v) = 45 # dec (unat (- v))" by (simp add: idec_def sslt_iff unat_neg)
  have "ull2string (m[0 := 45]) 1 (dstlen - 1) (- v) =
     Some (length (dec (unat (- v))), patch (m[0 := 45]) 1 (dec (unat (- v)) @ [0]))"
    using assms unfolding i by (intro ull2string_writes) auto
  moreover have "patch (m[0 := 45]) 1 (dec (unat (- v)) @ [0]) = patch m 0 (45 # dec (unat (- v)) @ [0])"
    using assms unfolding i by (intro patch_Cons) simp
  moreover have "setb m 0 45 = Some (m[0 := 45])" using assms by (intro setb_Some) auto
  ultimately show ?thesis using True assms dec_ne[of "unat (- v)"] unfolding ll2string_def abs_min i
    by (auto simp: Let_def)
next
  case False
  then have i: "idec (sint v) = dec (unat v)" by (simp add: idec_def sslt_iff unat_nonneg)
  show ?thesis using False assms ull2string_writes[of v dstlen 0 m] unfolding ll2string_def i by simp
qed

lemma ll2string_short:
  assumes "dstlen \<le> length (idec (sint v))" "dstlen \<le> length m"
  shows "\<exists>m'. ll2string m dstlen v = Some (0, m') \<and> length m' = length m \<and> drop dstlen m' = drop dstlen m"
proof (cases "v <s 0")
  case True
  then have i: "idec (sint v) = 45 # dec (unat (- v))" by (simp add: idec_def sslt_iff unat_neg)
  show ?thesis
  proof (cases "dstlen < 2")
    case True
    then show ?thesis using \<open>v <s 0\<close> assms unfolding ll2string_def abs_min i by (auto simp: Let_def str_err_def setb_def)
  next
    case False
    then have "ull2string (m[0 := 45]) 1 (dstlen - 1) (- v) = Some (0, m[0 := 45, 1 := 0])"
      using assms ull2string_short[of "dstlen - 1" "- v" "m[0 := 45]" 1] by (auto simp: i str_err_def setb_def)
    moreover have "setb m 0 45 = Some (m[0 := 45])" using False assms by (intro setb_Some) linarith
    ultimately show ?thesis using \<open>v <s 0\<close> False unfolding ll2string_def abs_min i by (simp add: Let_def)
  qed
next
  case False
  then have i: "idec (sint v) = dec (unat v)" by (simp add: idec_def sslt_iff unat_nonneg)
  show ?thesis using False assms ull2string_short[of dstlen v m 0]
    unfolding ll2string_def i by (auto simp: str_err_def setb_def)
qed

section \<open>Text to numbers\<close>

lemma dval_mono: "a \<le> dval a ds"
proof (induction ds arbitrary: a)
  case (Cons c ds)
  show ?case using Cons[of "10 * a + unat (c - 48)"] by simp
qed simp

lemma dval_lin: "dval a ds = a * 10 ^ length ds + dval 0 ds"
proof (induction ds arbitrary: a)
  case (Cons c ds)
  show ?case using Cons[of "10 * a + unat (c - 48)"] Cons[of "unat (c - 48)"] by (simp add: algebra_simps)
qed simp

lemma string2ll_step:
  assumes "isdig c"
  shows "string2ll_loop v (c # p) =
    (if 10 * unat v + unat (c - 48) < 2 ^ 64 then string2ll_loop (of_nat (10 * unat v + unat (c - 48))) p else None)"
proof -
  have d: "unat (c - 48) < 10" using of_digit[OF assms] by simp
  have ud: "unat (ucast (c - 48) :: u64) = unat (c - 48)" by (rule unat_ucast_byte)
  have q: "v > (- 1) div 10 \<longleftrightarrow> 10 * unat v > 2 ^ 64 - 1"
  proof -
    have "unat ((- 1 :: u64) div 10) = (2 ^ 64 - 1) div 10" by (simp add: unat_div unat_max)
    then show ?thesis by (simp add: word_less_nat_alt) linarith
  qed
  show ?thesis
  proof (cases "10 * unat v > 2 ^ 64 - 1")
    case True
    then show ?thesis using assms q by (simp add: isdig_def)
  next
    case False
    then have m: "unat (v * 10) = 10 * unat v" by (subst unat_mult_lem[THEN iffD1]) auto
    have s: "unat (- 1 - ucast (c - 48) :: u64) = 2 ^ 64 - 1 - unat (c - 48)"
      by (subst unat_sub) (simp_all add: ud unat_max)
    have g: "v * 10 > - 1 - ucast (c - 48) \<longleftrightarrow> \<not> 10 * unat v + unat (c - 48) < 2 ^ 64"
      unfolding word_less_nat_alt m s using d by simp linarith
    have "v * 10 + ucast (c - 48) = of_nat (10 * unat v + unat (c - 48))"
      by (simp add: mult.commute ud[symmetric])
    then show ?thesis using assms q g False by (simp add: isdig_def Let_def mult.commute[of v 10])
  qed
qed

lemma string2ll_loop_iff:
  "string2ll_loop v p = Some (v', []) \<longleftrightarrow> list_all isdig p \<and> dval (unat v) p < 2 ^ 64 \<and> unat v' = dval (unat v) p"
proof (induction p arbitrary: v)
  case Nil
  have "unat v < 2 ^ 64" using unsigned_less[of v, where ?'a = nat] by simp
  then show ?case by (auto simp: word_unat_eq_iff)
next
  case (Cons c p)
  let ?w = "10 * unat v + unat (c - 48)"
  show ?case
  proof (cases "isdig c")
    case True
    show ?thesis
    proof (cases "?w < 2 ^ 64")
      case l: True
      then have "unat (of_nat ?w :: u64) = ?w" by (subst unat_of_nat) (simp add: take_bit_nat_eq_self)
      then show ?thesis using True l Cons[of "of_nat ?w"] unfolding string2ll_step[OF True] by simp
    next
      case False
      then show ?thesis using True dval_mono[of ?w p] unfolding string2ll_step[OF True] by simp
    qed
  next
    case False
    then show ?thesis by (auto simp: isdig_def)
  qed
qed

lemma dec_of_dval: "list_all isdig ds \<Longrightarrow> ds \<noteq> [] \<Longrightarrow> hd ds \<noteq> 48 \<Longrightarrow> dec (dval 0 ds) = ds \<and> 1 \<le> dval 0 ds"
proof (induction ds rule: rev_induct)
  case (snoc c ds)
  then have c: "unat (c - 48) < 10" "of_nat (48 + unat (c - 48)) = c" using of_digit[of c] by auto
  show ?case
  proof (cases "ds = []")
    case True
    then have "c \<noteq> 48" using snoc.prems by simp
    then have "unat (c - 48) \<noteq> 0" by (simp add: unat_eq_0)
    then show ?thesis using True c dec_lt[of "unat (c - 48)"] by (simp del: of_nat_add)
  next
    case False
    then have "dec (dval 0 ds) = ds" "1 \<le> dval 0 ds" using snoc by auto
    then show ?thesis using c dec_ge[of "dval 0 (ds @ [c])"] by (simp del: of_nat_add)
  qed
qed simp

lemma hd_dec: "0 < n \<Longrightarrow> 49 \<le> hd (dec n) \<and> hd (dec n) \<le> 57"
proof (induction n rule: dec.induct)
  case (1 n)
  show ?case
  proof (cases "n < 10")
    case True
    then show ?thesis using 1 unat_digit[of n] by (simp add: dec_lt word_le_nat_alt del: of_nat_add)
  next
    case False
    then show ?thesis using 1 dec_ge[of n] dec_ne[of "n div 10"] by (simp del: of_nat_add)
  qed
qed

lemma isdig_first: "isdig c \<Longrightarrow> c \<noteq> 48 \<longleftrightarrow> 49 \<le> c \<and> c \<le> 57"
proof -
  assume "isdig c"
  then have "48 \<le> unat c" "unat c \<le> 57" by (auto simp: isdig_def word_le_nat_alt)
  moreover have "c = 48 \<longleftrightarrow> unat c = 48" by (simp add: word_unat_eq_iff)
  ultimately show ?thesis by (auto simp: word_le_nat_alt)
qed

text \<open>A run of digits that does not start with 0 is the decimal text of exactly one positive number.\<close>

lemma positive_digits:
  "p \<noteq> [] \<and> (49 \<le> hd p \<and> hd p \<le> 57) \<and> string2ll_loop (ucast (hd p - 48)) (tl p) = Some (v, []) \<longleftrightarrow>
   0 < unat v \<and> p = dec (unat v)"
proof (cases p)
  case Nil
  then show ?thesis using dec_ne[of "unat v"] by auto
next
  case (Cons c ds)
  have b: "unat v < 2 ^ 64" using unsigned_less[of v, where ?'a = nat] by simp
  have "(49 \<le> c \<and> c \<le> 57) \<longleftrightarrow> isdig c \<and> c \<noteq> 48"
    using isdig_first[of c] by (auto simp: isdig_def word_le_nat_alt)
  moreover have "dval (unat (ucast (c - 48) :: u64)) ds = dval 0 (c # ds)" by (simp add: unat_ucast_byte)
  ultimately have l: "p \<noteq> [] \<and> (49 \<le> hd p \<and> hd p \<le> 57) \<and> string2ll_loop (ucast (hd p - 48)) (tl p) = Some (v, []) \<longleftrightarrow>
      hd p \<noteq> 48 \<and> list_all isdig p \<and> dval 0 p < 2 ^ 64 \<and> unat v = dval 0 p"
    unfolding Cons by (auto simp: string2ll_loop_iff)
  have ne: "p \<noteq> []" using Cons by simp
  show ?thesis unfolding l
  proof
    assume "hd p \<noteq> 48 \<and> list_all isdig p \<and> dval 0 p < 2 ^ 64 \<and> unat v = dval 0 p"
    then show "0 < unat v \<and> p = dec (unat v)" using dec_of_dval[of p] ne by simp
  next
    assume r: "0 < unat v \<and> p = dec (unat v)"
    then have "hd p \<noteq> 48" using hd_dec[of "unat v"] by (auto simp: word_le_nat_alt)
    then show "hd p \<noteq> 48 \<and> list_all isdig p \<and> dval 0 p < 2 ^ 64 \<and> unat v = dval 0 p"
      using r dval_dec[of "unat v"] dec_digits[of "unat v"] b by simp
  qed
qed

lemma uint_64: "uint (v :: u64) < 2 ^ 64" using unsigned_less[of v] by simp

lemma sint_range: "- (2 ^ 63) \<le> sint (v :: i64)" "sint (v :: i64) < 2 ^ 63"
proof -
  have "sint v = uint v \<and> uint v < 2 ^ 63 \<or> sint v = uint v - 2 ^ 64 \<and> 2 ^ 63 \<le> uint v"
    using sint_u64[of v] by (simp split: if_splits)
  then show "- (2 ^ 63) \<le> sint v" "sint v < 2 ^ 63" using uint_ge_0[of v] uint_64[of v]
    by (elim disjE; simp; linarith)+
qed

lemma dec_length_le: "n < 10 ^ Suc k \<Longrightarrow> length (dec n) \<le> Suc k"
proof (induction k arbitrary: n)
  case (Suc k)
  show ?case
  proof (cases "n < 10")
    case False
    then have "n div 10 < 10 ^ Suc k" using Suc.prems by (simp add: div_less_iff_less_mult)
    then show ?thesis using Suc.IH[of "n div 10"] False dec_ge[of n] by (simp del: of_nat_add)
  qed (simp add: dec_lt)
qed (simp add: dec_lt)

lemma idec_length: "length (idec (sint (v :: i64))) \<le> 20"
proof -
  have "length (dec n) \<le> 19" if "n \<le> 2 ^ 63" for n
    using that dec_length_le[of n 18] by simp
  moreover have "nat (sint v) \<le> 2 ^ 63" "nat (- sint v) \<le> 2 ^ 63" using sint_range[of v] by auto
  ultimately show ?thesis unfolding idec_def by fastforce
qed

lemma idec_zero: "idec 0 = [48]" by (simp add: idec_def dec_lt)

lemma sint_0_iff: "sint (v :: i64) = 0 \<longleftrightarrow> v = 0"
  using sint_u64[of v] uint_64[of v] by (auto split: if_splits simp: uint_0_iff)

lemma dec_hd_digit: "hd (dec n) \<noteq> 45"
  using dec_digits[of n] dec_ne[of n] by (cases "dec n") (auto simp: isdig_def word_le_nat_alt)

definition s2ll_pos :: "mem \<Rightarrow> u64 option" where
  "s2ll_pos p = (if p = [] then None else if \<not> (49 \<le> hd p \<and> hd p \<le> 57) then None
     else case string2ll_loop (ucast (hd p - 48)) (tl p) of None \<Rightarrow> None | Some (v, rest) \<Rightarrow> if rest \<noteq> [] then None else Some v)"

lemma s2ll_pos_iff: "s2ll_pos p = Some v \<longleftrightarrow> 0 < unat v \<and> p = dec (unat v)"
  unfolding positive_digits[symmetric] by (auto simp: s2ll_pos_def split: option.splits prod.splits if_splits)

lemma string2ll_pos:
  "string2ll s = (if s = [] \<or> length s \<ge> LONG_STR_SIZE then None else if s = [48] then Some 0
    else if hd s = 45 then (case s2ll_pos (tl s) of None \<Rightarrow> None | Some v \<Rightarrow> if v > 0x8000000000000000 then None else Some (- v))
    else (case s2ll_pos s of None \<Rightarrow> None | Some v \<Rightarrow> if v > 0x7FFFFFFFFFFFFFFF then None else Some v))"
proof (cases s)
  case (Cons c ds)
  then show ?thesis
    by (auto simp: string2ll_def s2ll_pos_def Let_def hd_conv_nth split: option.splits prod.splits)
qed (simp add: string2ll_def)

lemma neg_range: "v <s 0 \<longleftrightarrow> 0 < unat (- v) \<and> - v \<le> (0x8000000000000000 :: i64)"
proof -
  have "v <s 0 \<longleftrightarrow> 2 ^ 63 \<le> uint v" using sint_u64[of v] uint_ge_0[of v] uint_64[of v]
    by (simp add: sslt_iff)
  moreover have "uint (- v) = (if v = 0 then 0 else 2 ^ 64 - uint v)"
  proof (cases "v = 0")
    case False
    then have "uint v \<noteq> 0" by (simp add: uint_0_iff)
    have "uint (- v) = (- uint v) mod 2 ^ 64" by (simp add: uint_word_ariths)
    also have "\<dots> = (- uint v + 2 ^ 64) mod 2 ^ 64" by (simp only: mod_add_self2)
    also have "\<dots> = 2 ^ 64 - uint v" using \<open>uint v \<noteq> 0\<close> uint_ge_0[of v] uint_64[of v]
      by (subst mod_pos_pos_trivial) linarith+
    finally show ?thesis using False by simp
  qed simp
  ultimately show ?thesis by (auto simp: word_le_def unat_gt_0)
qed

lemma nonneg_range: "v \<le> (0x7FFFFFFFFFFFFFFF :: i64) \<longleftrightarrow> \<not> v <s 0"
  using sint_u64[of v] uint_ge_0[of v] uint_64[of v] by (simp add: sslt_iff word_le_def)

text \<open>The strict reader accepts exactly the canonical decimal text of a 64-bit signed integer.\<close>

lemma string2ll_canonical: "string2ll s = Some v \<longleftrightarrow> s = idec (sint v)"
proof (cases "v <s 0")
  case True
  then have i: "idec (sint v) = 45 # dec (unat (- v))" by (simp add: idec_def sslt_iff unat_neg)
  have v0: "v \<noteq> 0" using True by (auto simp: sslt_iff)
  have nv: "\<And>w. (- w = v) = (w = - v)" by (metis minus_minus)
  have "string2ll s = Some v \<longleftrightarrow> s \<noteq> [] \<and> length s < 21 \<and> hd s = 45 \<and> s2ll_pos (tl s) = Some (- v)"
    using v0 True neg_range[of v] nonneg_range[of v]
    by (auto simp: string2ll_pos LONG_STR_SIZE_def nv not_le split: option.splits if_splits)
  also have "\<dots> \<longleftrightarrow> s = 45 # dec (unat (- v))"
    using neg_range[of v] True idec_length[of v] unfolding s2ll_pos_iff i by (cases s) auto
  finally show ?thesis by (simp add: i)
next
  case False
  then have i: "idec (sint v) = dec (unat v)" by (simp add: idec_def sslt_iff unat_nonneg)
  show ?thesis
  proof (cases "v = 0")
    case True
    show ?thesis unfolding True
      by (auto simp: string2ll_pos LONG_STR_SIZE_def idec_zero s2ll_pos_iff split: option.splits if_splits)
  next
    case v0: False
    have nv: "\<And>w q. s2ll_pos q = Some w \<Longrightarrow> w \<le> 0x8000000000000000 \<Longrightarrow> - w \<noteq> v"
      using False neg_range[of v] unfolding s2ll_pos_iff by (metis minus_minus)
    have "string2ll s = Some v \<longleftrightarrow> s \<noteq> [] \<and> length s < 21 \<and> s \<noteq> [48] \<and> hd s \<noteq> 45 \<and> s2ll_pos s = Some v"
      using v0 False nonneg_range[of v] nv
      by (auto simp: string2ll_pos LONG_STR_SIZE_def not_le not_less split: option.splits if_splits)
    also have "\<dots> \<longleftrightarrow> s = dec (unat v)"
      using v0 idec_length[of v] dec_ne[of "unat v"] dec_hd_digit[of "unat v"] hd_dec[of "unat v"]
      unfolding s2ll_pos_iff i by (auto simp: unat_gt_0 word_le_nat_alt)
    finally show ?thesis by (simp add: i)
  qed
qed

section \<open>Reading unsigned numbers, sizes and hexadecimal text: the code\<close>

text \<open>\<open>strtoull(s, &endptr, 10)\<close> of the C library on the string \<open>s\<close> (without its terminating 0): the value,
  the offset of \<open>endptr\<close> and \<open>errno\<close>.  The standard lets an implementation report \<open>EINVAL\<close> when there is no
  digit; whether it does is the first argument.\<close>

datatype errno = EINVAL | ERANGE

definition isspace :: "byte \<Rightarrow> bool" where "isspace c \<longleftrightarrow> c = 32 \<or> 9 \<le> c \<and> c \<le> 13"

definition strtoull :: "bool \<Rightarrow> mem \<Rightarrow> u64 \<times> nat \<times> errno option" where
  "strtoull einval s =
     (let p = dropWhile isspace s;
          neg = (p \<noteq> [] \<and> hd p = 45);
          q = (if p \<noteq> [] \<and> (hd p = 45 \<or> hd p = 43) then tl p else p);
          ds = takeWhile isdig q;
          e = length s - length q + length ds
      in if ds = [] then (0, 0, if einval then Some EINVAL else None)
         else if dval 0 ds \<ge> 2 ^ 64 then (- 1, e, Some ERANGE)
         else (if neg then - of_nat (dval 0 ds) else of_nat (dval 0 ds), e, None))"

text \<open>The return value and the content of \<open>*value\<close>.\<close>

definition string2ull :: "bool \<Rightarrow> mem \<Rightarrow> u64 \<Rightarrow> bool \<times> u64" where
  "string2ull einval s value =
     (case string2ll s of
        Some ll \<Rightarrow> if ll <s 0 then (False, value) else (True, ll)
      | None \<Rightarrow>
          (let (v, endptr, errno) = strtoull einval s in
           if errno = Some EINVAL \<or> errno = Some ERANGE \<or> \<not> (s \<noteq> [] \<and> endptr = length s) then (False, v)
           else (True, v)))"

definition strcasecmp_eq :: "mem \<Rightarrow> mem \<Rightarrow> bool" where
  "strcasecmp_eq a b \<longleftrightarrow> map (\<lambda>c. tolower (sint c)) a = map (\<lambda>c. tolower (sint c)) b"

text \<open>The unit after the digits, and its factor; \<open>98\<close>, \<open>107\<close>, \<open>109\<close>, \<open>103\<close> are \<open>b\<close>, \<open>k\<close>, \<open>m\<close>, \<open>g\<close>.\<close>

definition memtoull_mul :: "mem \<Rightarrow> u64 option" where
  "memtoull_mul u =
     (if u = [] \<or> strcasecmp_eq u [98] then Some 1
      else if strcasecmp_eq u [107] then Some 1000
      else if strcasecmp_eq u [107, 98] then Some 1024
      else if strcasecmp_eq u [109] then Some (1000 * 1000)
      else if strcasecmp_eq u [109, 98] then Some (1024 * 1024)
      else if strcasecmp_eq u [103] then Some (1000 * 1000 * 1000)
      else if strcasecmp_eq u [103, 98] then Some (1024 * 1024 * 1024)
      else None)"

text \<open>The value and \<open>*err\<close>.\<close>

definition memtoull :: "bool \<Rightarrow> mem \<Rightarrow> u64 \<times> bool" where
  "memtoull einval p =
     (if p \<noteq> [] \<and> hd p = 45 then (0, True)
      else let u = dropWhile isdig p in
        case memtoull_mul u of
          None \<Rightarrow> (0, True)
        | Some mul \<Rightarrow>
            (let digits = length p - length u in
             if digits \<ge> 128 then (0, True)
             else let buf = take digits p; (val, endptr, errno) = strtoull einval buf in
               if val = 0 \<and> errno = Some EINVAL \<or> endptr \<noteq> length buf then (0, True)
               else if val > (- 1) div mul then (- 1, False)
               else (val * mul, False)))"

text \<open>The offset of the first byte that is in the set.\<close>

fun mempbrk_at :: "mem \<Rightarrow> nat \<Rightarrow> mem \<Rightarrow> nat option" where
  "mempbrk_at [] j chars = None"
| "mempbrk_at (c # s) j chars = (if \<exists>x \<in> set chars. c = x then Some j else mempbrk_at s (Suc j) chars)"

definition mempbrk :: "mem \<Rightarrow> mem \<Rightarrow> nat option" where
  "mempbrk s chars = mempbrk_at s 0 chars"

fun mapchar :: "byte \<Rightarrow> mem \<Rightarrow> mem \<Rightarrow> byte" where
  "mapchar c (f # from) (t # to) = (if c = f then t else mapchar c from to)"
| "mapchar c _ _ = c"

fun memmapchars :: "mem \<Rightarrow> mem \<Rightarrow> mem \<Rightarrow> mem" where
  "memmapchars [] from to = []"
| "memmapchars (c # s) from to = mapchar c from to # memmapchars s from to"

definition safe_is_c_in_range :: "byte \<Rightarrow> byte \<Rightarrow> byte \<Rightarrow> bool" where
  "safe_is_c_in_range c start fin \<longleftrightarrow> sint c \<ge> sint start \<and> sint c \<le> sint fin"

definition base_16_char_type :: "byte \<Rightarrow> int" where
  "base_16_char_type c =
     (if safe_is_c_in_range c 48 57 then 0
      else if safe_is_c_in_range c 97 102 then 1
      else if safe_is_c_in_range c 65 70 then 2
      else - 1)"

definition ascii_to_dec :: "byte list" where "ascii_to_dec = [48, 97 - 10, 65 - 10]"

text \<open>The loop reads \<open>src[curr_char_idx]\<close> before it compares the index with \<open>slen\<close>.  \<open>Inl ()\<close> is the return
  value -1.\<close>

function string2ul_loop :: "mem \<Rightarrow> nat \<Rightarrow> nat \<Rightarrow> u64 \<Rightarrow> (unit + u64) option" where
  "string2ul_loop src slen i result = do {
     c \<leftarrow> getb src i;
     let char_type = base_16_char_type c;
     if char_type \<noteq> - 1 \<and> i < slen then
       (let curr_val = ucast (c - ascii_to_dec ! nat char_type) in
        if result > (- 1) div 16 \<or> result > (- 1 - curr_val) div 16 then Some (Inl ())
        else string2ul_loop src slen (i + 1) (result * 16 + curr_val))
     else Some (Inr result) }"
  by pat_completeness auto
termination by (relation "measure (\<lambda>(src, slen, i, r). slen - i)") auto

declare string2ul_loop.simps [simp del]

definition string2ul_base16_async_signal_safe :: "mem \<Rightarrow> nat \<Rightarrow> (unit + u64) option" where
  "string2ul_base16_async_signal_safe src slen = string2ul_loop src slen 0 0"

section \<open>What they compute\<close>

lemma takeWhile_digits: "list_all isdig ds \<Longrightarrow> (rest \<noteq> [] \<Longrightarrow> \<not> isdig (hd rest)) \<Longrightarrow>
   takeWhile isdig (ds @ rest) = ds \<and> dropWhile isdig (ds @ rest) = rest"
  by (induction ds) (cases rest; auto)+

lemma dig_not_special: "isdig c \<Longrightarrow> \<not> isspace c \<and> c \<noteq> 45 \<and> c \<noteq> 43"
  by (auto simp: isdig_def isspace_def word_le_nat_alt)

lemma strtoull_digits:
  assumes "list_all isdig ds" "ds \<noteq> []"
  shows "strtoull einval ds = (if dval 0 ds \<ge> 2 ^ 64 then (- 1, length ds, Some ERANGE) else (of_nat (dval 0 ds), length ds, None))"
proof -
  obtain c ds' where d: "ds = c # ds'" "isdig c" using assms by (cases ds) auto
  then have "dropWhile isspace ds = ds" "hd ds \<noteq> 45" "hd ds \<noteq> 43" using dig_not_special[of c] by auto
  moreover have "takeWhile isdig ds = ds" using takeWhile_digits[OF assms(1), of "[]"] by simp
  ultimately show ?thesis using assms(2) by (simp add: strtoull_def Let_def del: takeWhile_eq_all_conv)
qed

lemma ull_text: "string2ull einval (dec (unat v)) w = (True, v)"
proof (cases "string2ll (dec (unat v))")
  case None
  have "unat v < 2 ^ 64" using unsigned_less[of v, where ?'a = nat] by simp
  then have "strtoull einval (dec (unat v)) = (v, length (dec (unat v)), None)"
    using strtoull_digits[OF dec_digits dec_ne, of einval "unat v"] by (simp add: dval_dec)
  then show ?thesis using None dec_ne[of "unat v"] by (simp add: string2ull_def)
next
  case (Some ll)
  then have "dec (unat v) = idec (sint ll)" by (simp add: string2ll_canonical)
  moreover have "\<not> ll <s 0" using calculation dec_hd_digit[of "unat v"] by (auto simp: idec_def sslt_iff)
  ultimately have "dec (unat v) = dec (unat ll)" by (simp add: idec_def sslt_iff unat_nonneg)
  then have "unat v = unat ll" by (metis dval_dec)
  then show ?thesis using Some \<open>\<not> ll <s 0\<close> by (simp add: string2ull_def word_unat_eq_iff)
qed

text \<open>The unit names start with a letter, and every factor fits.\<close>

lemma memtoull_mul_hd: "memtoull_mul u = Some mul \<Longrightarrow> (u = [] \<or> \<not> isdig (hd u)) \<and> 0 < unat mul"
proof -
  assume m: "memtoull_mul u = Some mul"
  have "u = [] \<or> (\<exists>c u'. u = c # u' \<and> tolower (sint c) \<in> {98, 107, 109, 103})"
    using m by (cases u) (auto simp: memtoull_mul_def strcasecmp_eq_def split: if_splits simp: tolower_def)
  moreover have "\<not> isdig c" if "tolower (sint c) \<in> {98, 107, 109, 103}" for c
  proof
    assume "isdig c"
    then have "48 \<le> uint c" "uint c \<le> 57" by (auto simp: isdig_def word_le_def)
    then have "sint c = uint c" by (simp add: sint_uint signed_take_bit_int_eq_self)
    then show False using that \<open>48 \<le> uint c\<close> \<open>uint c \<le> 57\<close> by (simp add: tolower_def split: if_splits)
  qed
  moreover have "0 < unat mul" using m by (auto simp: memtoull_mul_def split: if_splits)
  ultimately show ?thesis by auto
qed

lemma of_nat_max: "(of_nat (2 ^ 64 - 1) :: u64) = - 1" by simp

lemma clamp_mul:
  assumes k: "0 < unat (mul :: u64)"
  shows "(if of_nat (min n (2 ^ 64 - 1)) > (- 1) div mul then - 1 else of_nat (min n (2 ^ 64 - 1)) * mul) =
         (of_nat (min (n * unat mul) (2 ^ 64 - 1)) :: u64)"
proof -
  let ?M = "2 ^ 64 - 1 :: nat" and ?k = "unat mul"
  have gt: "of_nat x > (- 1 :: u64) div mul \<longleftrightarrow> ?M < x * ?k" if "x \<le> ?M" for x
  proof -
    have "unat (of_nat x :: u64) = x" using that by (subst unat_of_nat) (simp add: take_bit_nat_eq_self)
    then show ?thesis using k by (simp only: word_less_nat_alt unat_div unat_max div_less_iff_less_mult)
  qed
  show ?thesis
  proof (cases "n \<le> ?M")
    case True
    then have "min n ?M = n" by simp
    then show ?thesis using gt[OF True] of_nat_max by (simp only: min_def) (simp add: of_nat_max not_less)
  next
    case False
    then have m: "min n ?M = ?M" "min (n * ?k) ?M = ?M" using k less_le_trans[of ?M n "n * ?k"] by auto
    show ?thesis
    proof (cases "?k = 1")
      case True
      then have "mul = 1" by (simp add: word_unat_eq_iff)
      then show ?thesis unfolding m of_nat_max by simp
    next
      case False
      then have "2 \<le> ?k" using k by simp
      then have "?M * 2 \<le> ?M * ?k" by (rule mult_le_mono2)
      then show ?thesis unfolding m using gt[of ?M] of_nat_max by simp
    qed
  qed
qed

lemma strtoull_clamp:
  assumes "list_all isdig ds" "ds \<noteq> []"
  shows "\<exists>e. strtoull einval ds = (of_nat (min (dval 0 ds) (2 ^ 64 - 1)), length ds, e) \<and> e \<noteq> Some EINVAL"
  using strtoull_digits[OF assms, of einval] of_nat_max by (auto simp: min_def split: if_splits)

text \<open>A number with a unit is the product, clamped to the largest 64-bit value.\<close>

lemma memtoull_clamps:
  assumes "list_all isdig ds" "ds \<noteq> []" "length ds < 128" "memtoull_mul u = Some mul"
  shows "memtoull einval (ds @ u) = (of_nat (min (dval 0 ds * unat mul) (2 ^ 64 - 1)), False)"
proof -
  have h: "u \<noteq> [] \<Longrightarrow> \<not> isdig (hd u)" "0 < unat mul" using memtoull_mul_hd[OF assms(4)] by auto
  have d: "dropWhile isdig (ds @ u) = u" using takeWhile_digits[OF assms(1) h(1)] by simp
  have s: "hd (ds @ u) \<noteq> 45" using assms(1,2) dig_not_special by (cases ds) auto
  obtain e where "strtoull einval ds = (of_nat (min (dval 0 ds) (2 ^ 64 - 1)), length ds, e)" "e \<noteq> Some EINVAL"
    using strtoull_clamp[OF assms(1,2)] by blast
  then show ?thesis using clamp_mul[OF h(2), of "dval 0 ds"] s assms(3,4)
    unfolding memtoull_def d Let_def by (simp split: if_splits)
qed

lemma memtoull_rejects:
  "p \<noteq> [] \<and> hd p = 45 \<or> memtoull_mul (dropWhile isdig p) = None \<or> 128 \<le> length (takeWhile isdig p) \<Longrightarrow>
   memtoull einval p = (0, True)"
proof -
  have "length p - length (dropWhile isdig p) = length (takeWhile isdig p)"
    by (metis add_diff_cancel_right' length_append takeWhile_dropWhile_id)
  then show "p \<noteq> [] \<and> hd p = 45 \<or> memtoull_mul (dropWhile isdig p) = None \<or> 128 \<le> length (takeWhile isdig p) \<Longrightarrow> ?thesis"
    by (auto simp: memtoull_def Let_def split: option.splits)
qed

lemma mempbrk_at_spec: "mempbrk_at s j chars = (if \<exists>c \<in> set s. c \<in> set chars
     then Some (j + length (takeWhile (\<lambda>c. c \<notin> set chars) s)) else None)"
  by (induction s arbitrary: j) auto

lemma memmapchars_map: "length from = length to \<Longrightarrow>
   memmapchars s from to = map (\<lambda>c. case map_of (zip from to) c of Some t \<Rightarrow> t | None \<Rightarrow> c) s"
proof -
  assume l: "length from = length to"
  have "mapchar c from to = (case map_of (zip from to) c of Some t \<Rightarrow> t | None \<Rightarrow> c)" for c
    using l by (induction "from" "to" rule: list_induct2) auto
  then show ?thesis by (induction s) auto
qed

text \<open>Hexadecimal digits and their values.\<close>

definition hexval :: "byte \<Rightarrow> nat option" where
  "hexval c = (if 48 \<le> c \<and> c \<le> 57 then Some (unat c - 48) else if 97 \<le> c \<and> c \<le> 102 then Some (unat c - 87)
     else if 65 \<le> c \<and> c \<le> 70 then Some (unat c - 55) else None)"

definition hval :: "nat \<Rightarrow> mem \<Rightarrow> nat" where
  "hval a ds = foldl (\<lambda>a c. 16 * a + the (hexval c)) a ds"

definition hexrun :: "mem \<Rightarrow> mem" where "hexrun s = takeWhile (\<lambda>c. hexval c \<noteq> None) s"

lemma all_bytes: "list_all (\<lambda>n. P (word_of_int n :: byte)) [0..255] \<Longrightarrow> P c"
proof -
  assume "list_all (\<lambda>n. P (word_of_int n :: byte)) [0..255]"
  moreover have "uint c \<in> set [0..255]" using uint_byte_bound[of c] uint_ge_0[of c] unfolding set_upto atLeastAtMost_iff by linarith
  ultimately show ?thesis by (metis (no_types, lifting) list_all_iff word_of_int_uint)
qed

definition hex_ok :: "byte \<Rightarrow> bool" where
  "hex_ok c \<longleftrightarrow> (case hexval c of None \<Rightarrow> base_16_char_type c = - 1
     | Some d \<Rightarrow> base_16_char_type c \<noteq> - 1 \<and> unat (c - ascii_to_dec ! nat (base_16_char_type c)) = d \<and> d < 16)"

lemma hex_ok: "hex_ok c" by (rule all_bytes) code_simp

lemma hval_mono: "a \<le> hval a ds"
  unfolding hval_def
proof (induction ds arbitrary: a)
  case (Cons c ds)
  show ?case using Cons[of "16 * a + the (hexval c)"] by simp
qed simp

lemma hval_Cons: "hval a (c # ds) = hval (16 * a + the (hexval c)) ds" by (simp add: hval_def)

lemma hex_step:
  assumes "d < 16"
  shows "(result > (- 1) div 16 \<or> result > (- 1 - of_nat d) div 16) \<longleftrightarrow> \<not> 16 * unat (result :: u64) + d < 2 ^ 64"
proof -
  have d: "unat (of_nat d :: u64) = d" using assms by (subst unat_of_nat) (simp add: take_bit_nat_eq_self)
  have s: "unat (- 1 - of_nat d :: u64) = 2 ^ 64 - 1 - d" by (subst unat_sub) (simp_all only: d unat_max word_le_nat_alt, use assms in simp)
  have "(result > (- 1) div 16 \<or> result > (- 1 - of_nat d) div 16) \<longleftrightarrow>
      (2 ^ 64 - 1) div 16 < unat result \<or> (2 ^ 64 - 1 - d) div 16 < unat result"
    by (simp only: word_less_nat_alt unat_div s unat_max) simp
  also have "\<dots> \<longleftrightarrow> \<not> 16 * unat result + d < 2 ^ 64" using assms by simp linarith
  finally show ?thesis .
qed

lemma hexrun_drop: "i < slen \<Longrightarrow> i < length src \<Longrightarrow> hexrun (take (slen - i) (drop i src)) =
    (if hexval (src ! i) = None then [] else src ! i # hexrun (take (slen - Suc i) (drop (Suc i) src)))"
  by (simp add: hexrun_def Cons_nth_drop_Suc[symmetric] Suc_diff_Suc[symmetric])

definition hexres :: "nat \<Rightarrow> unit + u64" where "hexres n = (if n < 2 ^ 64 then Inr (of_nat n) else Inl ())"

lemma string2ul_loop_value:
  "i \<le> slen \<Longrightarrow> slen < length src \<Longrightarrow>
   string2ul_loop src slen i r = Some (hexres (hval (unat r) (hexrun (take (slen - i) (drop i src)))))"
proof (induction "slen - i" arbitrary: i r)
  case 0
  then have "i = slen" by simp
  moreover have "unat r < 2 ^ 64" using unsigned_less[of r, where ?'a = nat] by simp
  ultimately show ?case using 0 by (subst string2ul_loop.simps) (auto simp: hval_def hexres_def hexrun_def)
next
  case (Suc n)
  then have i: "i < slen" "i < length src" "n = slen - Suc i" "Suc i \<le> slen" by auto
  note IH = Suc.hyps(1)[OF i(3,4) Suc.prems(2)]
  let ?c = "src ! i"
  have r: "unat r < 2 ^ 64" using unsigned_less[of r, where ?'a = nat] by simp
  show ?case
  proof (cases "hexval ?c")
    case None
    then have "base_16_char_type ?c = - 1" using hex_ok[of ?c] by (simp add: hex_ok_def)
    then show ?thesis using i r None by (subst string2ul_loop.simps) (simp add: hexrun_drop hval_def hexres_def)
  next
    case (Some d)
    have t: "base_16_char_type ?c \<noteq> - 1" "unat (?c - ascii_to_dec ! nat (base_16_char_type ?c)) = d" "d < 16"
      using hex_ok[of ?c] Some by (auto simp: hex_ok_def)
    have u: "ucast (?c - ascii_to_dec ! nat (base_16_char_type ?c)) = (of_nat d :: u64)"
      using t(2) by (metis of_nat_unat)
    have e: "string2ul_loop src slen i r = (if 16 * unat r + d < 2 ^ 64 then string2ul_loop src slen (Suc i) (r * 16 + of_nat d) else Some (Inl ()))"
      using hex_step[OF t(3), of r] t(1) i by (subst string2ul_loop.simps) (simp add: Let_def u)
    have h: "hexrun (take (slen - i) (drop i src)) = ?c # hexrun (take (slen - Suc i) (drop (Suc i) src))"
      using hexrun_drop[OF i(1,2)] Some by simp
    show ?thesis
    proof (cases "16 * unat r + d < 2 ^ 64")
      case l: True
      have "unat (r * 16 + of_nat d) = 16 * unat r + d"
      proof -
        have "r * 16 + of_nat d = of_nat (16 * unat r + d)" by simp
        then show ?thesis using l by (simp only: unat_of_nat) (simp add: take_bit_nat_eq_self)
      qed
      then show ?thesis unfolding e h hval_Cons using l IH[of "r * 16 + of_nat d"] Some by simp
    next
      case False
      have "hexres (hval (16 * unat r + d) ds) = Inl ()" for ds
        using False hval_mono[of "16 * unat r + d" ds] by (simp add: hexres_def)
      then show ?thesis unfolding e h hval_Cons using False Some by simp
    qed
  qed
qed

section \<open>Properties\<close>

lemma gmatch_last_star: "gmatch (ts @ [GStar]) s \<Longrightarrow> gmatch (ts @ [GStar]) (s @ t)"
proof (induction ts arbitrary: s)
  case Nil
  have "\<exists>k \<le> length (s @ t). drop k (s @ t) = []" by (rule exI[of _ "length (s @ t)"]) simp
  then show ?case by simp
next
  case (Cons a ts)
  show ?case
  proof (cases a)
    case GStar
    then obtain k where "k \<le> length s" "gmatch (ts @ [GStar]) (drop k s)" using Cons.prems by auto
    then show ?thesis using Cons.IH[of "drop k s"] GStar by (auto intro!: exI[of _ k])
  next
    case (GOne P)
    then show ?thesis using Cons by (cases s) auto
  qed
qed

text \<open>C8: What the glob matcher answers on every string, for patterns with at most 1000 stars, with and without case. On a string that is not
  empty it decides the language of the pattern: the recursive search with its early termination (\<open>skipLongerMatches\<close>) answers whether the
  string is in the language that the tokens of the pattern denote, closed and unclosed classes included. The empty string is accepted by the empty
  pattern only, although a pattern of stars denotes it. The byte after the pattern, which the code may read, must not be a star.\<close>

theorem stringmatch_glob:
  assumes "nul \<noteq> 42" "stars (gparse nocase p) \<le> 1000"
  shows "stringmatchlen nul p s nocase = Some (if s = [] then p = [] else globs nocase p s)"
proof (cases "s = []")
  case True
  then show ?thesis by (simp add: stringmatchlen_def stringmatchlen_impl.simps sm_loop.simps)
next
  case False
  then show ?thesis using stringmatchlen_globs[OF assms, of s] by (auto simp: stringmatchlen_def)
qed

text \<open>\<open>a*[b-d]?\<close> on \<open>axcz\<close>.\<close>

theorem stringmatch_glob_witness:
  "(0 :: byte) \<noteq> 42 \<and> stars (gparse False [97, 42, 91, 98, 45, 100, 93, 63]) \<le> 1000 \<and>
   stringmatchlen 0 [97, 42, 91, 98, 45, 100, 93, 63] [97, 120, 99, 122] False
     = Some (globs False [97, 42, 91, 98, 45, 100, 93, 63] [97, 120, 99, 122])"
proof -
  have "stars (gparse False [97, 42, 91, 98, 45, 100, 93, 63]) \<le> 1000"
    by (simp add: gparse.simps class_items.simps Let_def)
  then show ?thesis using stringmatch_glob[of 0 False "[97, 42, 91, 98, 45, 100, 93, 63]" "[97, 120, 99, 122]"] by simp
qed

text \<open>When \<open>prefixmatch\<close> answers yes and the last token of the pattern is a star, the pattern matches every
  extension of the prefix.\<close>

theorem prefixmatch_extends:
  assumes "nul \<noteq> 42" "stars (gparse nocase p) \<le> 1000" "gparse nocase p = ts @ [GStar]" "s \<noteq> []"
    "prefixmatch nul p s nocase = Some True"
  shows "stringmatchlen nul p (s @ t) nocase = Some True"
proof -
  have "globs nocase p s"
    using assms(4,5) stringmatchlen_globs[OF assms(1,2), of s] by (auto simp: prefixmatch_def split: if_splits)
  then have "globs nocase p (s @ t)" unfolding assms(3) by (rule gmatch_last_star)
  then show ?thesis using stringmatchlen_globs[OF assms(1,2), of "s @ t"] assms(4) by (auto simp: stringmatchlen_def)
qed

theorem prefixmatch_extends_witness:
  "\<exists>ts. gparse False [97, 42] = ts @ [GStar] \<and> prefixmatch 0 [97, 42] [97] False = Some True \<and>
   stringmatchlen 0 [97, 42] ([97] @ [98, 99]) False = Some True"
proof -
  have g: "gparse False [97, 42] = [GOne (\<lambda>c. c = 97)] @ [GStar]" by (auto simp: gparse.simps)
  have p: "prefixmatch 0 [97, 42] [97] False = Some True" by code_simp
  show ?thesis
    using prefixmatch_extends[of 0 False "[97, 42]" "[GOne (\<lambda>c. c = 97)]" "[97]" "[98, 99]", OF _ _ g _ p] g p
    by (intro exI[of _ "[GOne (\<lambda>c. c = 97)]"]) (simp add: g)
qed

text \<open>A star inside a class that is not closed is not a wildcard, but the check at the end of \<open>prefixmatch\<close>
  takes it for one: \<open>[a*\<close> is said to cover every string that starts with \<open>a\<close>, and does not match \<open>ab\<close>.\<close>

lemma prefixmatch_unclosed_class:
  "prefixmatch 0 [91, 97, 42] [97] False = Some True \<and> stringmatchlen 0 [91, 97, 42] [97, 98] False = Some False"
  by code_simp

text \<open>A star does not match the empty string.\<close>

lemma stringmatch_star_empty: "stringmatchlen 0 [42] [] False = Some False \<and> globs False [42] []"
  by (simp add: stringmatchlen_def stringmatchlen_impl.simps sm_loop.simps gparse.simps)


text \<open>C28: The strict reader of integers accepts a string exactly when it is the canonical decimal text of a 64-bit
  signed integer, and yields that integer: no spaces, no leading zeros, no plus sign, no \<open>-0\<close>, no overflow.\<close>

theorem string2ll_exact: "string2ll s = Some v \<longleftrightarrow> s = idec (sint v)"
  by (rule string2ll_canonical)

text \<open>C29: Writing a signed integer and reading the text back gives the integer, for every 64-bit value and every
  buffer of at least 21 bytes; the text is terminated by a 0 byte.\<close>

theorem ll2string_roundtrip:
  assumes "LONG_STR_SIZE \<le> dstlen" "dstlen \<le> length m"
  shows "\<exists>len m'. ll2string m dstlen v = Some (len, m') \<and> m' ! len = 0 \<and> string2ll (take len m') = Some v
    \<and> drop (Suc len) m' = drop (Suc len) m"
proof -
  let ?t = "idec (sint v)"
  have l: "length ?t < dstlen" using idec_length[of v] assms(1) by (simp add: LONG_STR_SIZE_def)
  have w: "ll2string m dstlen v = Some (length ?t, patch m 0 (?t @ [0]))" using ll2string_writes[OF l assms(2)] .
  have "take (length ?t) (patch m 0 (?t @ [0])) = ?t" "patch m 0 (?t @ [0]) ! length ?t = 0"
    "drop (Suc (length ?t)) (patch m 0 (?t @ [0])) = drop (Suc (length ?t)) m" by (simp_all add: patch_def nth_append)
  then show ?thesis using w string2ll_canonical[of ?t v] by (metis (no_types, lifting))
qed

theorem ll2string_roundtrip_witness:
  "LONG_STR_SIZE \<le> 21 \<and> (21 :: nat) \<le> length (replicate 32 (7 :: byte)) \<and>
   (\<exists>len m'. ll2string (replicate 32 7) 21 0x8000000000000000 = Some (len, m') \<and> m' ! len = 0
     \<and> string2ll (take len m') = Some 0x8000000000000000 \<and> drop (Suc len) m' = drop (Suc len) (replicate 32 7))"
  using ll2string_roundtrip[of 21 "replicate 32 7" "0x8000000000000000"] by (simp add: LONG_STR_SIZE_def)

text \<open>When the text with its terminator does not fit, \<open>ll2string\<close> returns 0 and touches nothing past the
  given length.\<close>

theorem ll2string_too_small:
  assumes "dstlen \<le> length (idec (sint v))" "dstlen \<le> length m"
  shows "\<exists>m'. ll2string m dstlen v = Some (0, m') \<and> length m' = length m \<and> drop dstlen m' = drop dstlen m"
  using ll2string_short[OF assms] .

theorem ll2string_too_small_witness:
  "2 \<le> length (idec (sint (123 :: i64))) \<and>
   (\<exists>m'. ll2string [1, 2, 3, 4] 2 123 = Some (0, m') \<and> length m' = length [1, 2, 3, 4 :: byte] \<and> drop 2 m' = drop 2 [1, 2, 3, 4])"
proof -
  have "2 \<le> length (idec (sint (123 :: i64)))" by code_simp
  then show ?thesis using ll2string_too_small[of 2 123 "[1, 2, 3, 4]"] by simp
qed

text \<open>Writing an unsigned integer and reading it back with \<open>string2ull\<close> gives the integer, also above the
  signed range, whichever way the C library reports a missing number.\<close>

theorem ull2string_roundtrip:
  assumes "LONG_STR_SIZE \<le> dstlen" "dst + dstlen \<le> length m"
  shows "\<exists>len m'. ull2string m dst dstlen v = Some (len, m') \<and> string2ull einval (take len (drop dst m')) w = (True, v)"
proof -
  have "unat v < 10 ^ Suc 19" using unsigned_less[of v, where ?'a = nat] by simp
  then have l: "length (dec (unat v)) < dstlen" using dec_length_le[of "unat v" 19] assms(1) by (simp add: LONG_STR_SIZE_def)
  have "take (length (dec (unat v))) (drop dst (patch m dst (dec (unat v) @ [0]))) = dec (unat v)"
    using assms(2) l by (simp add: patch_def)
  then show ?thesis using ull2string_writes[OF l assms(2)] ull_text[of einval v w] by simp
qed

theorem ull2string_roundtrip_witness:
  "LONG_STR_SIZE \<le> 21 \<and>
   (\<exists>len m'. ull2string (replicate 30 7) 3 21 (- 1) = Some (len, m') \<and> string2ull True (take len (drop 3 m')) 0 = (True, - 1))"
  using ull2string_roundtrip[of 21 3 "replicate 30 7" "- 1" True 0] by (simp add: LONG_STR_SIZE_def)

text \<open>The reader of unsigned numbers falls back on \<open>strtoull\<close>, which takes blanks and a sign: \<open>-1\<close> is
  refused, and the same number after a blank is accepted, with its value modulo \<open>2 ^ 64\<close>.\<close>

lemma string2ull_negative:
  "string2ull False [45, 49] 7 = (False, 7) \<and> string2ull False [32, 45, 49] 7 = (True, - 1)"
proof -
  have "string2ll [45, 49] = Some (- 1)" "string2ll [32, 45, 49] = None" by code_simp+
  moreover have "strtoull False [32, 45, 49] = (- 1, 3, None)" by (simp add: strtoull_def isspace_def isdig_def Let_def)
  ultimately show ?thesis by (simp add: string2ull_def)
qed

text \<open>A memory size (at most 127 digits and a unit, in either case) is the product of the number and the
  factor of the unit, clamped to the largest 64-bit value, also when the number itself is too large.\<close>

theorem memtoull_value:
  assumes "list_all isdig ds" "ds \<noteq> []" "length ds < 128" "memtoull_mul u = Some mul"
  shows "memtoull einval (ds @ u) = (of_nat (min (dval 0 ds * unat mul) (2 ^ 64 - 1)), False)"
  using memtoull_clamps[OF assms] .

text \<open>\<open>3Gb\<close>.\<close>

theorem memtoull_value_witness:
  "list_all isdig [51] \<and> memtoull_mul [71, 98] = Some 1073741824 \<and>
   memtoull True ([51] @ [71, 98]) = (of_nat (min (dval 0 [51] * unat (1073741824 :: u64)) (2 ^ 64 - 1)), False)"
proof -
  have a: "list_all isdig [51]" by code_simp
  have b: "memtoull_mul [71, 98] = Some 1073741824" by code_simp
  show ?thesis using a b memtoull_value[OF a _ _ b, of True] by simp
qed

text \<open>The hexadecimal reader is safe on a buffer of more than \<open>slen\<close> bytes, ends, and yields the value of the
  longest run of hexadecimal digits among the first \<open>slen\<close> bytes, or reports that it does not fit 64 bits.\<close>

theorem string2ul_base16_value:
  assumes "slen < length src"
  shows "string2ul_base16_async_signal_safe src slen = Some (hexres (hval 0 (hexrun (take slen src))))"
  using string2ul_loop_value[of 0 slen src 0] assms by (simp add: string2ul_base16_async_signal_safe_def)

theorem string2ul_base16_value_witness:
  "3 < length [102, 70, 57, 0 :: byte] \<and>
   string2ul_base16_async_signal_safe [102, 70, 57, 0] 3 = Some (hexres (hval 0 (hexrun (take 3 [102, 70, 57, 0]))))"
  using string2ul_base16_value[of 3 "[102, 70, 57, 0]"] by simp

text \<open>On a buffer of exactly \<open>slen\<close> hexadecimal digits it reads one byte past the end.\<close>

lemma string2ul_base16_overread: "string2ul_base16_async_signal_safe [49, 50] 2 = None" by code_simp

end
