(* ===== verification/Listpack.thy ===== *)
theory Listpack
  imports Util
begin

text \<open>
  Listpacks (\<open>redislib-src/kernel/listpack.c\<close>): a list of strings and integers in one block of memory.

  The block is the list of its bytes and a pointer into it is an offset; a pointer that may be \<open>NULL\<close> is an
  option.  A result \<^term>\<open>None\<close> is an access outside the block, a failed assertion or the use of a null pointer.  The allocator is the one of
  the port (\<open>redislib_port.c\<close>), in which \<open>lp_malloc_size\<close> is always 0.  A C function with several results is a
  function that returns them all; a length argument is the length of the bytes it counts.

  The first sections are the code.  The later ones say what a block means (\<open>lp_wf\<close>: a header, the entries with
  their back lengths, the end byte) and prove that the operations implement the operations on lists of entries.
\<close>

section \<open>The code: header and allocation\<close>

definition LP_HDR_SIZE :: nat where "LP_HDR_SIZE = 6"
definition LP_HDR_NUMELE_UNKNOWN :: u32 where "LP_HDR_NUMELE_UNKNOWN = 0xFFFF"
definition LP_INTBUF_SIZE :: nat where "LP_INTBUF_SIZE = 21"

abbreviation LP_EOF :: byte where "LP_EOF \<equiv> 255"

definition le32 :: "byte \<Rightarrow> byte \<Rightarrow> byte \<Rightarrow> byte \<Rightarrow> u32" where
  "le32 a b c d = ucast a OR push_bit 8 (ucast b) OR push_bit 16 (ucast c) OR push_bit 24 (ucast d)"

definition lpGetTotalBytes :: "mem \<Rightarrow> u32 option" where
  "lpGetTotalBytes lp = do { a \<leftarrow> getb lp 0; b \<leftarrow> getb lp 1; c \<leftarrow> getb lp 2; d \<leftarrow> getb lp 3; Some (le32 a b c d) }"

definition lpGetNumElements :: "mem \<Rightarrow> u32 option" where
  "lpGetNumElements lp = do { a \<leftarrow> getb lp 4; b \<leftarrow> getb lp 5; Some (ucast a OR push_bit 8 (ucast b)) }"

definition lpSetTotalBytes :: "mem \<Rightarrow> u64 \<Rightarrow> mem option" where
  "lpSetTotalBytes lp v = do {
     lp \<leftarrow> setb lp 0 (ucast (v AND 255));
     lp \<leftarrow> setb lp 1 (ucast (drop_bit 8 v AND 255));
     lp \<leftarrow> setb lp 2 (ucast (drop_bit 16 v AND 255));
     setb lp 3 (ucast (drop_bit 24 v AND 255)) }"

definition lpSetNumElements :: "mem \<Rightarrow> u64 \<Rightarrow> mem option" where
  "lpSetNumElements lp v = do {
     lp \<leftarrow> setb lp 4 (ucast (v AND 255));
     setb lp 5 (ucast (drop_bit 8 v AND 255)) }"

definition lpBytes :: "mem \<Rightarrow> nat option" where
  "lpBytes lp = map_option unat (lpGetTotalBytes lp)"

definition ASSERT_INTEGRITY :: "mem \<Rightarrow> nat \<Rightarrow> unit option" where
  "ASSERT_INTEGRITY lp p = do { t \<leftarrow> lpGetTotalBytes lp; guard (p \<ge> LP_HDR_SIZE \<and> p < unat t) }"

definition ASSERT_INTEGRITY_LEN :: "mem \<Rightarrow> nat \<Rightarrow> nat \<Rightarrow> unit option" where
  "ASSERT_INTEGRITY_LEN lp p len = do { t \<leftarrow> lpGetTotalBytes lp; guard (p \<ge> LP_HDR_SIZE \<and> p + len < unat t) }"

definition lpSafeToAdd :: "mem option \<Rightarrow> u64 \<Rightarrow> bool option" where
  "lpSafeToAdd lp add = do {
     len \<leftarrow> (case lp of None \<Rightarrow> Some 0 | Some lp \<Rightarrow> map_option ucast (lpGetTotalBytes lp));
     if add > 2 ^ 30 \<or> len > 2 ^ 30 - add then Some False else Some True }"

text \<open>The allocator of the port: the usable size of every block is said to be 0.\<close>

definition zmalloc_usable_size :: "mem \<Rightarrow> nat" where
  "zmalloc_usable_size p = 0"

text \<open>\<open>lp_malloc\<close> and \<open>lp_realloc\<close> are arguments that may return \<open>NULL\<close>.\<close>

definition lp_malloc :: "allocator \<Rightarrow> nat \<Rightarrow> mem option" where
  "lp_malloc a n = map_option (\<lambda>f. map f [0..<n]) (a n)"

definition lp_realloc :: "allocator \<Rightarrow> mem \<Rightarrow> nat \<Rightarrow> mem option" where
  "lp_realloc a lp n = map_option (\<lambda>f. zrealloc f lp n) (a n)"

definition lpNew :: "allocator \<Rightarrow> nat \<Rightarrow> mem option option" where
  "lpNew a capacity = (case lp_malloc a (if capacity > LP_HDR_SIZE + 1 then capacity else LP_HDR_SIZE + 1) of
       None \<Rightarrow> Some None
     | Some lp \<Rightarrow> do {
         lp \<leftarrow> lpSetTotalBytes lp (of_nat (LP_HDR_SIZE + 1));
         lp \<leftarrow> lpSetNumElements lp 0;
         lp \<leftarrow> setb lp LP_HDR_SIZE LP_EOF;
         Some (Some lp) })"

text \<open>The callers of \<open>lpShrinkToFit\<close> use its result without a test: a \<open>NULL\<close> there counts as undefined.\<close>

definition lpShrinkToFit :: "allocator \<Rightarrow> mem \<Rightarrow> mem option" where
  "lpShrinkToFit a lp = do {
     size \<leftarrow> lpBytes lp;
     if size < zmalloc_usable_size lp then lp_realloc a lp size else Some lp }"

section \<open>The code: encoding an element\<close>

text \<open>The digit loop of \<open>lpStringToInt64\<close>: \<^term>\<open>None\<close> is an overflow.\<close>

fun lpStringToInt64_loop :: "u64 \<Rightarrow> mem \<Rightarrow> (u64 \<times> mem) option" where
  "lpStringToInt64_loop v [] = Some (v, [])"
| "lpStringToInt64_loop v (c # p) =
     (if 48 \<le> c \<and> c \<le> 57 then
        (if v > (- 1) div 10 then None
         else let v = v * 10 in
           if v > - 1 - ucast (c - 48) then None else lpStringToInt64_loop (v + ucast (c - 48)) p)
      else Some (v, c # p))"

definition lpStringToInt64 :: "mem \<Rightarrow> i64 option" where
  "lpStringToInt64 s =
     (if s = [] \<or> length s \<ge> LONG_STR_SIZE then None
      else if length s = 1 \<and> s ! 0 = 48 then Some 0
      else let negative = (s ! 0 = 45); p = (if negative then tl s else s) in
        if p = [] then None
        else if \<not> (49 \<le> p ! 0 \<and> p ! 0 \<le> 57) then None
        else case lpStringToInt64_loop (ucast (p ! 0 - 48)) (tl p) of
          None \<Rightarrow> None
        | Some (v, rest) \<Rightarrow>
            if rest \<noteq> [] then None
            else if negative then (if v > 0x8000000000000000 then None else Some (- v))
            else (if v > 0x7FFFFFFFFFFFFFFF then None else Some v))"

text \<open>The bytes stored in \<open>intenc\<close>; \<open>*enclen\<close> is their number.  The shifts are those of a value that is not
  negative any more, or of the unsigned copy \<open>uv\<close>.\<close>

definition lpEncodeIntegerGetType :: "i64 \<Rightarrow> mem" where
  "lpEncodeIntegerGetType v =
     (if sint v \<ge> 0 \<and> sint v \<le> 127 then [ucast v]
      else if sint v \<ge> - 4096 \<and> sint v \<le> 4095 then
        (let v = (if v <s 0 then push_bit 13 1 + v else v) in [ucast (drop_bit 8 v OR 0xC0), ucast (v AND 255)])
      else if sint v \<ge> - 32768 \<and> sint v \<le> 32767 then
        (let v = (if v <s 0 then push_bit 16 1 + v else v) in [0xF1, ucast (v AND 255), ucast (drop_bit 8 v)])
      else if sint v \<ge> - 8388608 \<and> sint v \<le> 8388607 then
        (let v = (if v <s 0 then push_bit 24 1 + v else v) in
         [0xF2, ucast (v AND 255), ucast (drop_bit 8 v AND 255), ucast (drop_bit 16 v)])
      else if sint v \<ge> - 2147483648 \<and> sint v \<le> 2147483647 then
        (let v = (if v <s 0 then push_bit 32 1 + v else v) in
         [0xF3, ucast (v AND 255), ucast (drop_bit 8 v AND 255), ucast (drop_bit 16 v AND 255), ucast (drop_bit 24 v)])
      else
        [0xF4, ucast (v AND 255), ucast (drop_bit 8 v AND 255), ucast (drop_bit 16 v AND 255), ucast (drop_bit 24 v AND 255),
         ucast (drop_bit 32 v AND 255), ucast (drop_bit 40 v AND 255), ucast (drop_bit 48 v AND 255), ucast (drop_bit 56 v)])"

datatype lp_enctype = LP_ENCODING_INT | LP_ENCODING_STRING

text \<open>The type, the bytes of \<open>intenc\<close> and \<open>*enclen\<close>.\<close>

definition lpEncodeGetType :: "mem \<Rightarrow> lp_enctype \<times> mem \<times> nat" where
  "lpEncodeGetType ele =
     (case lpStringToInt64 ele of
        Some v \<Rightarrow> (LP_ENCODING_INT, lpEncodeIntegerGetType v, length (lpEncodeIntegerGetType v))
      | None \<Rightarrow>
          (let size = length ele in
           (LP_ENCODING_STRING, [], if size < 64 then 1 + size else if size < 4096 then 2 + size else 5 + size)))"

text \<open>The bytes stored in \<open>buf\<close>; the function returns their number.\<close>

definition lpEncodeBacklen :: "u64 \<Rightarrow> mem" where
  "lpEncodeBacklen l =
     (if l \<le> 127 then [ucast l]
      else if l \<le> 16383 then [ucast (drop_bit 7 l), ucast (l AND 127 OR 128)]
      else if l \<le> 2097151 then
        [ucast (drop_bit 14 l), ucast (drop_bit 7 l AND 127 OR 128), ucast (l AND 127 OR 128)]
      else if l \<le> 268435455 then
        [ucast (drop_bit 21 l), ucast (drop_bit 14 l AND 127 OR 128), ucast (drop_bit 7 l AND 127 OR 128),
         ucast (l AND 127 OR 128)]
      else
        [ucast (drop_bit 28 l), ucast (drop_bit 21 l AND 127 OR 128), ucast (drop_bit 14 l AND 127 OR 128),
         ucast (drop_bit 7 l AND 127 OR 128), ucast (l AND 127 OR 128)])"

definition lpEncodeBacklenBytes :: "u64 \<Rightarrow> nat" where
  "lpEncodeBacklenBytes l =
     (if l \<le> 127 then 1 else if l \<le> 16383 then 2 else if l \<le> 2097151 then 3 else if l \<le> 268435455 then 4 else 5)"

text \<open>\<open>p[-k]\<close>.\<close>

definition getb_back :: "mem \<Rightarrow> nat \<Rightarrow> nat \<Rightarrow> byte option" where
  "getb_back lp p k = (if k \<le> p then getb lp (p - k) else None)"

definition lpDecodeBacklen :: "mem \<Rightarrow> nat \<Rightarrow> u64 option" where
  "lpDecodeBacklen lp p = do {
     a \<leftarrow> getb_back lp p 0;
     if a AND 128 = 0 then Some (ucast (a AND 127))
     else do {
       let val = ucast (a AND 127);
       b \<leftarrow> getb_back lp p 1;
       if b AND 128 = 0 then Some (val OR push_bit 7 (ucast (b AND 127)))
       else do {
         let val = val OR push_bit 7 (ucast (b AND 127));
         c \<leftarrow> getb_back lp p 2;
         if c AND 128 = 0 then Some (val OR push_bit 14 (ucast (c AND 127)))
         else do {
           let val = val OR push_bit 14 (ucast (c AND 127));
           d \<leftarrow> getb_back lp p 3;
           if d AND 128 = 0 then Some (val OR push_bit 21 (ucast (d AND 127)))
           else do {
             let val = val OR push_bit 21 (ucast (d AND 127));
             e \<leftarrow> getb_back lp p 4;
             if e AND 128 = 0 then Some (val OR push_bit 28 (ucast (e AND 127)))
             else Some (- 1) } } } } }"

text \<open>The buffer after the element is written at \<open>dst\<close>.\<close>

definition lpEncodeString :: "mem \<Rightarrow> nat \<Rightarrow> mem \<Rightarrow> mem option" where
  "lpEncodeString lp dst s =
     (let len = of_nat (length s) :: u32 in
      if len < 64 then do { lp \<leftarrow> setb lp dst (ucast (len OR 0x80)); wr lp (dst + 1) s }
      else if len < 4096 then do {
        lp \<leftarrow> setb lp dst (ucast (drop_bit 8 len OR 0xE0));
        lp \<leftarrow> setb lp (dst + 1) (ucast (len AND 255));
        wr lp (dst + 2) s }
      else do {
        lp \<leftarrow> setb lp dst 0xF0;
        lp \<leftarrow> setb lp (dst + 1) (ucast (len AND 255));
        lp \<leftarrow> setb lp (dst + 2) (ucast (drop_bit 8 len AND 255));
        lp \<leftarrow> setb lp (dst + 3) (ucast (drop_bit 16 len AND 255));
        lp \<leftarrow> setb lp (dst + 4) (ucast (drop_bit 24 len AND 255));
        wr lp (dst + 5) s })"

section \<open>The code: moving over entries\<close>

abbreviation LP_ENCODING_IS_7BIT_UINT :: "byte \<Rightarrow> bool" where "LP_ENCODING_IS_7BIT_UINT b \<equiv> b AND 0x80 = 0"
abbreviation LP_ENCODING_IS_6BIT_STR :: "byte \<Rightarrow> bool" where "LP_ENCODING_IS_6BIT_STR b \<equiv> b AND 0xC0 = 0x80"
abbreviation LP_ENCODING_IS_13BIT_INT :: "byte \<Rightarrow> bool" where "LP_ENCODING_IS_13BIT_INT b \<equiv> b AND 0xE0 = 0xC0"
abbreviation LP_ENCODING_IS_12BIT_STR :: "byte \<Rightarrow> bool" where "LP_ENCODING_IS_12BIT_STR b \<equiv> b AND 0xF0 = 0xE0"

definition LP_ENCODING_6BIT_STR_LEN :: "mem \<Rightarrow> nat \<Rightarrow> u32 option" where
  "LP_ENCODING_6BIT_STR_LEN lp p = do { a \<leftarrow> getb lp p; Some (ucast (a AND 0x3F)) }"

definition LP_ENCODING_12BIT_STR_LEN :: "mem \<Rightarrow> nat \<Rightarrow> u32 option" where
  "LP_ENCODING_12BIT_STR_LEN lp p = do {
     a \<leftarrow> getb lp p; b \<leftarrow> getb lp (p + 1);
     Some (push_bit 8 (ucast (a AND 0xF)) OR ucast b) }"

definition LP_ENCODING_32BIT_STR_LEN :: "mem \<Rightarrow> nat \<Rightarrow> u32 option" where
  "LP_ENCODING_32BIT_STR_LEN lp p = do {
     a \<leftarrow> getb lp (p + 1); b \<leftarrow> getb lp (p + 2); c \<leftarrow> getb lp (p + 3); d \<leftarrow> getb lp (p + 4);
     Some (le32 a b c d) }"

definition lpCurrentEncodedSizeUnsafe :: "mem \<Rightarrow> nat \<Rightarrow> u32 option" where
  "lpCurrentEncodedSizeUnsafe lp p = do {
     e \<leftarrow> getb lp p;
     if LP_ENCODING_IS_7BIT_UINT e then Some 1
     else if LP_ENCODING_IS_6BIT_STR e then do { l \<leftarrow> LP_ENCODING_6BIT_STR_LEN lp p; Some (1 + l) }
     else if LP_ENCODING_IS_13BIT_INT e then Some 2
     else if e = 0xF1 then Some 3
     else if e = 0xF2 then Some 4
     else if e = 0xF3 then Some 5
     else if e = 0xF4 then Some 9
     else if LP_ENCODING_IS_12BIT_STR e then do { l \<leftarrow> LP_ENCODING_12BIT_STR_LEN lp p; Some (2 + l) }
     else if e = 0xF0 then do { l \<leftarrow> LP_ENCODING_32BIT_STR_LEN lp p; Some (5 + l) }
     else if e = LP_EOF then Some 1
     else Some 0 }"

definition lpCurrentEncodedSizeBytes :: "byte \<Rightarrow> nat" where
  "lpCurrentEncodedSizeBytes e =
     (if LP_ENCODING_IS_7BIT_UINT e then 1
      else if LP_ENCODING_IS_6BIT_STR e then 1
      else if LP_ENCODING_IS_13BIT_INT e then 1
      else if e = 0xF1 then 1
      else if e = 0xF2 then 1
      else if e = 0xF3 then 1
      else if e = 0xF4 then 1
      else if LP_ENCODING_IS_12BIT_STR e then 2
      else if e = 0xF0 then 5
      else if e = LP_EOF then 1
      else 0)"

definition lpSkip :: "mem \<Rightarrow> nat \<Rightarrow> nat option" where
  "lpSkip lp p = do {
     entrylen \<leftarrow> lpCurrentEncodedSizeUnsafe lp p;
     Some (p + (unat entrylen + lpEncodeBacklenBytes (ucast entrylen))) }"

text \<open>The validation of one entry: the return value and the new content of \<open>*pp\<close>.\<close>

definition OUT_OF_RANGE :: "nat \<Rightarrow> nat \<Rightarrow> bool" where
  "OUT_OF_RANGE lpbytes p \<longleftrightarrow> p < LP_HDR_SIZE \<or> p + 1 > lpbytes"

definition lpValidateNext :: "mem \<Rightarrow> nat option \<Rightarrow> nat \<Rightarrow> (bool \<times> nat option) option" where
  "lpValidateNext lp pp lpbytes =
     (case pp of
        None \<Rightarrow> Some (False, pp)
      | Some p \<Rightarrow>
          if OUT_OF_RANGE lpbytes p then Some (False, pp)
          else do {
            e \<leftarrow> getb lp p;
            if e = LP_EOF then Some (True, None)
            else do {
              let lenbytes = lpCurrentEncodedSizeBytes e;
              if lenbytes = 0 then Some (False, pp)
              else if OUT_OF_RANGE lpbytes (p + lenbytes) then Some (False, pp)
              else do {
                size \<leftarrow> lpCurrentEncodedSizeUnsafe lp p;
                let encodedBacklen = lpEncodeBacklenBytes (ucast size);
                let entrylen = unat size + encodedBacklen;
                if OUT_OF_RANGE lpbytes (p + entrylen) then Some (False, pp)
                else do {
                  let p = p + entrylen;
                  prevlen \<leftarrow> lpDecodeBacklen lp (p - 1);
                  if prevlen + of_nat encodedBacklen \<noteq> of_nat entrylen then Some (False, pp)
                  else Some (True, Some p) } } } })"

definition lpAssertValidEntry :: "mem \<Rightarrow> nat \<Rightarrow> nat \<Rightarrow> unit option" where
  "lpAssertValidEntry lp lpbytes p = do { (ok, _) \<leftarrow> lpValidateNext lp (Some p) lpbytes; guard ok }"

definition lpNextWithBytes :: "mem \<Rightarrow> nat \<Rightarrow> nat \<Rightarrow> nat option option" where
  "lpNextWithBytes lp p lpbytes = do {
     p \<leftarrow> lpSkip lp p;
     e \<leftarrow> getb lp p;
     if e = LP_EOF then Some None
     else do { lpAssertValidEntry lp lpbytes p; Some (Some p) } }"

definition lpNext :: "mem \<Rightarrow> nat \<Rightarrow> nat option option" where
  "lpNext lp p = do {
     p \<leftarrow> lpSkip lp p;
     e \<leftarrow> getb lp p;
     if e = LP_EOF then Some None
     else do { lpbytes \<leftarrow> lpBytes lp; lpAssertValidEntry lp lpbytes p; Some (Some p) } }"

text \<open>The loop of \<open>lpNextN\<close>; the inner \<^term>\<open>None\<close> is the return of \<open>NULL\<close>.\<close>

fun lpNextN_loop :: "mem \<Rightarrow> nat \<Rightarrow> nat \<Rightarrow> bool \<Rightarrow> nat \<Rightarrow> (nat \<times> bool) option option" where
  "lpNextN_loop lp lpbytes p validated 0 = Some (Some (p, validated))"
| "lpNextN_loop lp lpbytes p validated (Suc n) = do {
     p \<leftarrow> lpSkip lp p;
     validated \<leftarrow> (if p + 5 \<ge> lpbytes then do { lpAssertValidEntry lp lpbytes p; Some True }
                   else do { guard (p \<ge> LP_HDR_SIZE \<and> p < lpbytes); Some False });
     e \<leftarrow> getb lp p;
     if e = LP_EOF then Some None else lpNextN_loop lp lpbytes p validated n }"

definition lpNextN :: "mem \<Rightarrow> nat option \<Rightarrow> nat \<Rightarrow> nat option option" where
  "lpNextN lp pp n = do {
     lpbytes \<leftarrow> lpBytes lp;
     case pp of
       None \<Rightarrow> Some None
     | Some p \<Rightarrow> do {
         r \<leftarrow> lpNextN_loop lp lpbytes p True n;
         case r of
           None \<Rightarrow> Some None
         | Some (p, validated) \<Rightarrow>
             if \<not> validated then do { lpAssertValidEntry lp lpbytes p; Some (Some p) } else Some (Some p) } }"

text \<open>\<open>prevlen\<close> is a 64-bit number; leaving the block at its front is undefined.\<close>

definition lpSkipPrev :: "mem \<Rightarrow> nat \<Rightarrow> nat option" where
  "lpSkipPrev lp p = do {
     guard (p \<ge> 1);
     let p = p - 1;
     prevlen \<leftarrow> lpDecodeBacklen lp p;
     let prevlen = prevlen + of_nat (lpEncodeBacklenBytes prevlen);
     guard (unat (prevlen - 1) \<le> p);
     Some (p - unat (prevlen - 1)) }"

definition lpPrev :: "mem \<Rightarrow> nat \<Rightarrow> nat option option" where
  "lpPrev lp p =
     (if p = LP_HDR_SIZE then Some None
      else do {
        p \<leftarrow> lpSkipPrev lp p;
        lpbytes \<leftarrow> lpBytes lp;
        lpAssertValidEntry lp lpbytes p;
        Some (Some p) })"

fun lpPrevN_loop :: "mem \<Rightarrow> nat \<Rightarrow> nat \<Rightarrow> bool \<Rightarrow> nat \<Rightarrow> (nat \<times> bool) option option" where
  "lpPrevN_loop lp lpbytes p validated 0 = Some (Some (p, validated))"
| "lpPrevN_loop lp lpbytes p validated (Suc n) =
     (if p = LP_HDR_SIZE then Some None
      else do {
        p \<leftarrow> lpSkipPrev lp p;
        guard (p \<ge> LP_HDR_SIZE \<and> p < lpbytes);
        lpPrevN_loop lp lpbytes p False n })"

definition lpPrevN :: "mem \<Rightarrow> nat option \<Rightarrow> nat \<Rightarrow> nat option option" where
  "lpPrevN lp pp n = do {
     lpbytes \<leftarrow> lpBytes lp;
     case pp of
       None \<Rightarrow> Some None
     | Some p \<Rightarrow> do {
         r \<leftarrow> lpPrevN_loop lp lpbytes p True n;
         case r of
           None \<Rightarrow> Some None
         | Some (p, validated) \<Rightarrow>
             if \<not> validated then do { lpAssertValidEntry lp lpbytes p; Some (Some p) } else Some (Some p) } }"

definition lpFirst :: "mem \<Rightarrow> nat option option" where
  "lpFirst lp = do {
     e \<leftarrow> getb lp LP_HDR_SIZE;
     if e = LP_EOF then Some None
     else do { lpbytes \<leftarrow> lpBytes lp; lpAssertValidEntry lp lpbytes LP_HDR_SIZE; Some (Some LP_HDR_SIZE) } }"

definition lpLast :: "mem \<Rightarrow> nat option option" where
  "lpLast lp = do { t \<leftarrow> lpBytes lp; guard (t \<ge> 1); lpPrev lp (t - 1) }"

text \<open>The scan of \<open>lpLength\<close>.\<close>

partial_function (option) lpLength_scan :: "mem \<Rightarrow> nat option \<Rightarrow> u32 \<Rightarrow> u32 option" where
  "lpLength_scan lp pp count =
     (case pp of None \<Rightarrow> Some count
      | Some p \<Rightarrow> do { q \<leftarrow> lpNext lp p; lpLength_scan lp q (count + 1) })"

definition lpLength :: "mem \<Rightarrow> (u32 \<times> mem) option" where
  "lpLength lp = do {
     numele \<leftarrow> lpGetNumElements lp;
     if numele \<noteq> LP_HDR_NUMELE_UNKNOWN then Some (numele, lp)
     else do {
       p \<leftarrow> lpFirst lp;
       count \<leftarrow> lpLength_scan lp p 0;
       if count < LP_HDR_NUMELE_UNKNOWN then do { lp \<leftarrow> lpSetNumElements lp (ucast count); Some (count, lp) }
       else Some (count, lp) } }"

text \<open>\<open>index\<close> is a \<open>long\<close>.\<close>

definition lpSeek :: "mem \<Rightarrow> int \<Rightarrow> nat option option" where
  "lpSeek lp index = do {
     numele \<leftarrow> lpGetNumElements lp;
     if numele \<noteq> LP_HDR_NUMELE_UNKNOWN then
       (let n = uint numele; index = (if index < 0 then n + index else index) in
        if index < 0 then Some None
        else if index \<ge> n then Some None
        else if index > n div 2 then do { p \<leftarrow> lpLast lp; lpPrevN lp p (nat (n - index - 1)) }
        else do { p \<leftarrow> lpFirst lp; lpNextN lp p (nat index) })
     else if index < 0 then do { p \<leftarrow> lpLast lp; lpPrevN lp p (nat (- index - 1)) }
     else do { p \<leftarrow> lpFirst lp; lpNextN lp p (nat index) } }"

definition lpValidateFirst :: "mem \<Rightarrow> nat option option" where
  "lpValidateFirst lp = do { e \<leftarrow> getb lp LP_HDR_SIZE; if e = LP_EOF then Some None else Some (Some LP_HDR_SIZE) }"

text \<open>The scan of \<open>lpValidateIntegrity\<close>, with the callback and its data; the result is the place where it stopped
  and the count, or \<^term>\<open>None\<close> for the return value 0.\<close>

partial_function (option) lpValidate_scan ::
    "(mem \<Rightarrow> nat \<Rightarrow> u32 \<Rightarrow> 'u \<Rightarrow> bool \<times> 'u) option \<Rightarrow> mem \<Rightarrow> nat \<Rightarrow> u32 \<Rightarrow> nat option \<Rightarrow> u32 \<Rightarrow> 'u \<Rightarrow> (nat option \<times> u32) option option" where
  "lpValidate_scan entry_cb lp bytes numele pp count u =
     (case pp of
        None \<Rightarrow> Some (Some (None, count))
      | Some p \<Rightarrow> do {
          e \<leftarrow> getb lp p;
          if e = LP_EOF then Some (Some (Some p, count))
          else do {
            (ok, q) \<leftarrow> lpValidateNext lp pp bytes;
            if \<not> ok then Some None
            else do {
              let (good, u) = (case entry_cb of None \<Rightarrow> (True, u) | Some cb \<Rightarrow> cb lp p numele u);
              if \<not> good then Some None
              else lpValidate_scan entry_cb lp bytes numele q (count + 1) u } } })"

definition lpValidateIntegrity ::
    "mem \<Rightarrow> nat \<Rightarrow> bool \<Rightarrow> (mem \<Rightarrow> nat \<Rightarrow> u32 \<Rightarrow> 'u \<Rightarrow> bool \<times> 'u) option \<Rightarrow> 'u \<Rightarrow> bool option" where
  "lpValidateIntegrity lp sz deep entry_cb cb_userdata =
     (if sz < LP_HDR_SIZE + 1 then Some False
      else do {
        bytes \<leftarrow> lpBytes lp;
        if bytes \<noteq> sz then Some False
        else do {
          e \<leftarrow> getb lp (sz - 1);
          if e \<noteq> LP_EOF then Some False
          else if \<not> deep then Some True
          else do {
            numele \<leftarrow> lpGetNumElements lp;
            r \<leftarrow> lpValidate_scan entry_cb lp bytes numele (Some LP_HDR_SIZE) 0 cb_userdata;
            case r of
              None \<Rightarrow> Some False
            | Some (p, count) \<Rightarrow>
                if p \<noteq> Some (sz - 1) then Some False
                else if numele \<noteq> LP_HDR_NUMELE_UNKNOWN \<and> numele \<noteq> count then Some False
                else Some True } } })"

section \<open>The code: reading an entry\<close>

text \<open>What a reader returns: a string inside the block (offset and length), an integer, or a text in the buffer
  of the caller (length and buffer).\<close>

datatype lpval = PStr nat nat | PInt i64 | PBuf nat mem

text \<open>The last steps of the readers: two's complement, and the text when there is a buffer.\<close>

definition lp_signed :: "u64 \<Rightarrow> u64 \<Rightarrow> u64 \<Rightarrow> i64" where
  "lp_signed uval negstart negmax = (if uval \<ge> negstart then - (negmax - uval) - 1 else uval)"

definition lp_deliver :: "i64 \<Rightarrow> mem option \<Rightarrow> lpval option" where
  "lp_deliver val intbuf =
     (case intbuf of
        None \<Rightarrow> Some (PInt val)
      | Some buf \<Rightarrow> do { (n, buf) \<leftarrow> ll2string buf LP_INTBUF_SIZE val; Some (PBuf n buf) })"

definition u64_at :: "mem \<Rightarrow> nat \<Rightarrow> nat \<Rightarrow> u64 option" where
  "u64_at lp p k = do { b \<leftarrow> getb lp (p + k + 1); Some (push_bit (8 * k) (ucast b)) }"

definition le16_at :: "mem \<Rightarrow> nat \<Rightarrow> u64 option" where
  "le16_at lp p = do { a \<leftarrow> u64_at lp p 0; b \<leftarrow> u64_at lp p 1; Some (a OR b) }"

definition le24_at :: "mem \<Rightarrow> nat \<Rightarrow> u64 option" where
  "le24_at lp p = do { a \<leftarrow> le16_at lp p; b \<leftarrow> u64_at lp p 2; Some (a OR b) }"

definition le32_at :: "mem \<Rightarrow> nat \<Rightarrow> u64 option" where
  "le32_at lp p = do { a \<leftarrow> le24_at lp p; b \<leftarrow> u64_at lp p 3; Some (a OR b) }"

definition le64_at :: "mem \<Rightarrow> nat \<Rightarrow> u64 option" where
  "le64_at lp p = do {
     a \<leftarrow> le32_at lp p; b \<leftarrow> u64_at lp p 4; c \<leftarrow> u64_at lp p 5; d \<leftarrow> u64_at lp p 6; e \<leftarrow> u64_at lp p 7;
     Some (a OR b OR c OR d OR e) }"

text \<open>\<open>lpGetWithSize\<close>: the value and \<open>*entry_size\<close>, which stays as it was when the encoding is unknown.\<close>

definition lpGetWithSize :: "mem \<Rightarrow> nat \<Rightarrow> mem option \<Rightarrow> u64 \<Rightarrow> (lpval \<times> u64) option" where
  "lpGetWithSize lp p intbuf entry_size = do {
     e \<leftarrow> getb lp p;
     if LP_ENCODING_IS_7BIT_UINT e then do {
       r \<leftarrow> lp_deliver (lp_signed (ucast (e AND 0x7F)) (- 1) 0) intbuf; Some (r, 2) }
     else if LP_ENCODING_IS_6BIT_STR e then do {
       n \<leftarrow> map_option unat (LP_ENCODING_6BIT_STR_LEN lp p);
       Some (PStr (p + 1) n, 1 + of_nat n + of_nat (lpEncodeBacklenBytes (of_nat n + 1))) }
     else if LP_ENCODING_IS_13BIT_INT e then do {
       b \<leftarrow> getb lp (p + 1);
       r \<leftarrow> lp_deliver (lp_signed (push_bit 8 (ucast (e AND 0x1F)) OR ucast b) (push_bit 12 1) 8191) intbuf; Some (r, 3) }
     else if e = 0xF1 then do {
       uval \<leftarrow> le16_at lp p; r \<leftarrow> lp_deliver (lp_signed uval (push_bit 15 1) 0xFFFF) intbuf; Some (r, 4) }
     else if e = 0xF2 then do {
       uval \<leftarrow> le24_at lp p; r \<leftarrow> lp_deliver (lp_signed uval (push_bit 23 1) (drop_bit 8 0xFFFFFFFF)) intbuf; Some (r, 5) }
     else if e = 0xF3 then do {
       uval \<leftarrow> le32_at lp p; r \<leftarrow> lp_deliver (lp_signed uval (push_bit 31 1) 0xFFFFFFFF) intbuf; Some (r, 6) }
     else if e = 0xF4 then do {
       uval \<leftarrow> le64_at lp p; r \<leftarrow> lp_deliver (lp_signed uval (push_bit 63 1) (- 1)) intbuf; Some (r, 10) }
     else if LP_ENCODING_IS_12BIT_STR e then do {
       n \<leftarrow> map_option unat (LP_ENCODING_12BIT_STR_LEN lp p);
       Some (PStr (p + 2) n, 2 + of_nat n + of_nat (lpEncodeBacklenBytes (of_nat n + 2))) }
     else if e = 0xF0 then do {
       n \<leftarrow> map_option unat (LP_ENCODING_32BIT_STR_LEN lp p);
       Some (PStr (p + 5) n, 5 + of_nat n + of_nat (lpEncodeBacklenBytes (of_nat n + 5))) }
     else do {
       r \<leftarrow> lp_deliver (lp_signed (12345678900000000 + ucast e) (- 1) 0) intbuf; Some (r, entry_size) } }"

definition lpGetWithBuf :: "mem \<Rightarrow> nat \<Rightarrow> mem option \<Rightarrow> lpval option" where
  "lpGetWithBuf lp p intbuf = do {
     e \<leftarrow> getb lp p;
     if LP_ENCODING_IS_6BIT_STR e then do { n \<leftarrow> map_option unat (LP_ENCODING_6BIT_STR_LEN lp p); Some (PStr (p + 1) n) }
     else if LP_ENCODING_IS_12BIT_STR e then do { n \<leftarrow> map_option unat (LP_ENCODING_12BIT_STR_LEN lp p); Some (PStr (p + 2) n) }
     else if e = 0xF0 then do { n \<leftarrow> map_option unat (LP_ENCODING_32BIT_STR_LEN lp p); Some (PStr (p + 5) n) }
     else do {
       (uval, negstart, negmax) \<leftarrow>
         (if LP_ENCODING_IS_7BIT_UINT e then Some (ucast (e AND 0x7F), - 1, 0)
          else if LP_ENCODING_IS_13BIT_INT e then do {
            b \<leftarrow> getb lp (p + 1); Some (push_bit 8 (ucast (e AND 0x1F)) OR ucast b, push_bit 12 1, 8191) }
          else if e = 0xF1 then do { uval \<leftarrow> le16_at lp p; Some (uval, push_bit 15 1, 0xFFFF) }
          else if e = 0xF2 then do { uval \<leftarrow> le24_at lp p; Some (uval, push_bit 23 1, drop_bit 8 0xFFFFFFFF) }
          else if e = 0xF3 then do { uval \<leftarrow> le32_at lp p; Some (uval, push_bit 31 1, 0xFFFFFFFF) }
          else if e = 0xF4 then do { uval \<leftarrow> le64_at lp p; Some (uval, push_bit 63 1, - 1) }
          else Some (12345678900000000 + ucast e, - 1, 0));
       lp_deliver (lp_signed uval negstart negmax) intbuf } }"

definition lpGet :: "mem \<Rightarrow> nat \<Rightarrow> mem option \<Rightarrow> lpval option" where
  "lpGet lp p intbuf = lpGetWithBuf lp p intbuf"

text \<open>A string (offset and length, cut to an \<open>unsigned int\<close>) or an integer.\<close>

definition lpGetValue :: "mem \<Rightarrow> nat \<Rightarrow> ((nat \<times> u32) + i64) option" where
  "lpGetValue lp p = do {
     r \<leftarrow> lpGet lp p None;
     case r of PStr off n \<Rightarrow> Some (Inl (off, of_nat n)) | PInt v \<Rightarrow> Some (Inr v) | PBuf n buf \<Rightarrow> None }"

definition lpGetIntegerValue :: "mem \<Rightarrow> nat \<Rightarrow> i64 option option" where
  "lpGetIntegerValue lp p = do {
     r \<leftarrow> lpGet lp p None;
     case r of PInt v \<Rightarrow> Some (Some v) | _ \<Rightarrow> Some None }"

text \<open>The search: the comparison gets the entry and the state of the caller, and answers \<^term>\<open>True\<close> for 0.\<close>

partial_function (option) lpFindCb_loop ::
    "mem \<Rightarrow> nat \<Rightarrow> (mem \<Rightarrow> nat \<Rightarrow> lpval \<Rightarrow> 'u \<Rightarrow> (bool \<times> 'u) option) \<Rightarrow> nat \<Rightarrow> nat \<Rightarrow> nat \<Rightarrow> u64 \<Rightarrow> 'u \<Rightarrow> nat option option" where
  "lpFindCb_loop lp lp_bytes cmp skip p skipcnt entry_size u = do {
     r \<leftarrow> (if skipcnt = 0 then do {
            (value, entry_size) \<leftarrow> lpGetWithSize lp p None entry_size;
            guard (case value of PStr _ _ \<Rightarrow> p \<ge> LP_HDR_SIZE \<and> p + unat entry_size < lp_bytes | _ \<Rightarrow> True);
            (hit, u) \<leftarrow> cmp lp p value u;
            if hit then Some (Inl p) else Some (Inr (p + unat entry_size, skip, entry_size, u)) }
          else do { q \<leftarrow> lpSkip lp p; Some (Inr (q, skipcnt - 1, entry_size, u)) });
     case r of
       Inl p \<Rightarrow> Some (Some p)
     | Inr (p, skipcnt, entry_size, u) \<Rightarrow> do {
         (if p + 8 \<ge> lp_bytes then lpAssertValidEntry lp lp_bytes p else guard (p \<ge> LP_HDR_SIZE \<and> p < lp_bytes));
         e \<leftarrow> getb lp p;
         if e = LP_EOF then Some None
         else lpFindCb_loop lp lp_bytes cmp skip p skipcnt entry_size u } }"

definition lpFindCbInternal ::
    "mem \<Rightarrow> nat option \<Rightarrow> 'u \<Rightarrow> (mem \<Rightarrow> nat \<Rightarrow> lpval \<Rightarrow> 'u \<Rightarrow> (bool \<times> 'u) option) \<Rightarrow> nat \<Rightarrow> nat option option" where
  "lpFindCbInternal lp pp user cmp skip = do {
     lp_bytes \<leftarrow> lpBytes lp;
     pp \<leftarrow> (case pp of None \<Rightarrow> lpFirst lp | Some p \<Rightarrow> Some (Some p));
     case pp of None \<Rightarrow> Some None
     | Some p \<Rightarrow> lpFindCb_loop lp lp_bytes cmp skip p 0 123456789 user }"

text \<open>\<open>struct lpFindArg\<close>: \<open>vencoding\<close> is 0 until the first integer entry is seen.\<close>

record lpFindArg =
  fa_s :: mem
  fa_vencoding :: nat
  fa_vll :: i64

definition lpFindCmp :: "mem \<Rightarrow> nat \<Rightarrow> lpval \<Rightarrow> lpFindArg \<Rightarrow> (bool \<times> lpFindArg) option" where
  "lpFindCmp lp p value arg =
     (case value of
        PStr off n \<Rightarrow>
          if n = length (fa_s arg) then do { bs \<leftarrow> rd lp off n; Some (fa_s arg = bs, arg) } else Some (False, arg)
      | PInt v \<Rightarrow>
          (let arg = (if fa_vencoding arg = 0 then
                        (if length (fa_s arg) \<ge> 32 \<or> length (fa_s arg) = 0 then arg\<lparr>fa_vencoding := 255\<rparr>
                         else case lpStringToInt64 (fa_s arg) of
                           None \<Rightarrow> arg\<lparr>fa_vencoding := 255\<rparr>
                         | Some vll \<Rightarrow> arg\<lparr>fa_vencoding := 1, fa_vll := vll\<rparr>)
                      else arg)
           in Some (fa_vencoding arg \<noteq> 255 \<and> v = fa_vll arg, arg))
      | PBuf _ _ \<Rightarrow> None)"

definition lpFind :: "mem \<Rightarrow> nat option \<Rightarrow> mem \<Rightarrow> nat \<Rightarrow> nat option option" where
  "lpFind lp pp s skip = lpFindCbInternal lp pp \<lparr>fa_s = s, fa_vencoding = 0, fa_vll = 0\<rparr> lpFindCmp skip"

text \<open>\<open>lpCompare\<close> with the cached conversion of the string (\<open>*cached_valid\<close> and \<open>*cached_longval\<close>), or without.\<close>

definition lpCompare :: "mem \<Rightarrow> nat \<Rightarrow> mem \<Rightarrow> (int \<times> i64) option \<Rightarrow> (bool \<times> (int \<times> i64) option) option" where
  "lpCompare lp p s cached = do {
     e \<leftarrow> getb lp p;
     if e = LP_EOF then Some (False, cached)
     else do {
       r \<leftarrow> lpGet lp p None;
       case r of
         PStr off n \<Rightarrow> if length s = n then do { bs \<leftarrow> rd lp off n; Some (bs = s, cached) } else Some (False, cached)
       | PInt sz \<Rightarrow>
           (case cached of
              Some (valid, longval) \<Rightarrow>
                (let (valid, longval) =
                   (if valid = 0 then (case lpStringToInt64 s of Some v \<Rightarrow> (1, v) | None \<Rightarrow> (- 1, longval)) else (valid, longval))
                 in Some (valid = 1 \<and> sz = longval, Some (valid, longval)))
            | None \<Rightarrow> Some (case lpStringToInt64 s of Some sval \<Rightarrow> sz = sval | None \<Rightarrow> False, None))
       | PBuf n buf \<Rightarrow> None } }"

section \<open>The code: insertion and deletion\<close>

datatype lpwhere = LP_BEFORE | LP_AFTER | LP_REPLACE

text \<open>The result is \<^term>\<open>None\<close> inside for the return of \<open>NULL\<close> (the size does not fit in the header, or a reallocation fails), otherwise the
  block and \<open>*newp\<close>.\<close>

definition lpInsert :: "allocator \<Rightarrow> mem \<Rightarrow> mem option \<Rightarrow> mem option \<Rightarrow> nat \<Rightarrow> lpwhere \<Rightarrow> (mem \<times> nat option) option option" where
  "lpInsert a lp elestr eleint p wh = do {
     let delete = (elestr = None \<and> eleint = None);
     let wh = (if delete then LP_REPLACE else wh);
     (p, wh) \<leftarrow>
       (if wh = LP_AFTER then do { p \<leftarrow> lpSkip lp p; ASSERT_INTEGRITY lp p; Some (p, LP_BEFORE) } else Some (p, wh));
     let poff = p;
     let (enctype, eleint, enclen) =
       (case elestr of
          Some s \<Rightarrow> (let (enctype, intenc, enclen) = lpEncodeGetType s in
             (enctype, if enctype = LP_ENCODING_INT then Some intenc else eleint, enclen))
        | None \<Rightarrow> (LP_ENCODING_INT, eleint, case eleint of Some b \<Rightarrow> length b | None \<Rightarrow> 0));
     let backlen = (if \<not> delete then lpEncodeBacklen (of_nat enclen) else []);
     old_listpack_bytes \<leftarrow> lpBytes lp;
     replaced_len \<leftarrow>
       (if wh = LP_REPLACE then do {
          r \<leftarrow> lpCurrentEncodedSizeUnsafe lp p;
          let r = r + of_nat (lpEncodeBacklenBytes (ucast r));
          ASSERT_INTEGRITY_LEN lp p (unat r);
          Some (unat r) }
        else Some 0);
     let new_listpack_bytes = old_listpack_bytes + enclen + length backlen - replaced_len;
     if int new_listpack_bytes > 2 ^ 32 - 1 then Some None
     else case (if new_listpack_bytes > old_listpack_bytes \<and> new_listpack_bytes > zmalloc_usable_size lp
                then lp_realloc a lp new_listpack_bytes else Some lp) of
       None \<Rightarrow> Some None
     | Some lp \<Rightarrow> do {
       lp \<leftarrow> (if wh = LP_BEFORE then memmove lp (poff + enclen + length backlen) poff (old_listpack_bytes - poff)
              else memmove lp (poff + enclen + length backlen) (poff + replaced_len) (old_listpack_bytes - poff - replaced_len));
       case (if new_listpack_bytes < old_listpack_bytes then lp_realloc a lp new_listpack_bytes else Some lp) of
         None \<Rightarrow> Some None
       | Some lp \<Rightarrow> do {
         newp \<leftarrow> (if delete then do { e \<leftarrow> getb lp poff; Some (if e = LP_EOF then None else Some poff) } else Some (Some poff));
         lp \<leftarrow> (if \<not> delete then do {
                  lp \<leftarrow> (if enctype = LP_ENCODING_INT then do { b \<leftarrow> eleint; wr lp poff b }
                         else do { s \<leftarrow> elestr; lpEncodeString lp poff s });
                  wr lp (poff + enclen) backlen }
                else Some lp);
         lp \<leftarrow> (if wh \<noteq> LP_REPLACE \<or> delete then do {
                  num_elements \<leftarrow> lpGetNumElements lp;
                  if num_elements \<noteq> LP_HDR_NUMELE_UNKNOWN then
                    lpSetNumElements lp (ucast (if \<not> delete then num_elements + 1 else num_elements - 1))
                  else Some lp }
                else Some lp);
         lp \<leftarrow> lpSetTotalBytes lp (of_nat new_listpack_bytes);
         Some (Some (lp, newp)) } } }"

definition lpInsertString :: "allocator \<Rightarrow> mem \<Rightarrow> mem \<Rightarrow> nat \<Rightarrow> lpwhere \<Rightarrow> (mem \<times> nat option) option option" where
  "lpInsertString a lp s p wh = lpInsert a lp (Some s) None p wh"

definition lpInsertInteger :: "allocator \<Rightarrow> mem \<Rightarrow> i64 \<Rightarrow> nat \<Rightarrow> lpwhere \<Rightarrow> (mem \<times> nat option) option option" where
  "lpInsertInteger a lp lval p wh = lpInsert a lp None (Some (lpEncodeIntegerGetType lval)) p wh"

definition lpAppend :: "allocator \<Rightarrow> mem \<Rightarrow> mem \<Rightarrow> mem option option" where
  "lpAppend a lp ele = do {
     listpack_bytes \<leftarrow> lpBytes lp;
     guard (listpack_bytes \<ge> 1);
     r \<leftarrow> lpInsert a lp (Some ele) None (listpack_bytes - 1) LP_BEFORE;
     Some (map_option fst r) }"

definition lpAppendInteger :: "allocator \<Rightarrow> mem \<Rightarrow> i64 \<Rightarrow> mem option option" where
  "lpAppendInteger a lp lval = do {
     listpack_bytes \<leftarrow> lpBytes lp;
     guard (listpack_bytes \<ge> 1);
     r \<leftarrow> lpInsertInteger a lp lval (listpack_bytes - 1) LP_BEFORE;
     Some (map_option fst r) }"

definition lpPrepend :: "allocator \<Rightarrow> mem \<Rightarrow> mem \<Rightarrow> mem option option" where
  "lpPrepend a lp s = do {
     pp \<leftarrow> lpFirst lp;
     case pp of
       None \<Rightarrow> lpAppend a lp s
     | Some p \<Rightarrow> do { r \<leftarrow> lpInsert a lp (Some s) None p LP_BEFORE; Some (map_option fst r) } }"

definition lpPrependInteger :: "allocator \<Rightarrow> mem \<Rightarrow> i64 \<Rightarrow> mem option option" where
  "lpPrependInteger a lp lval = do {
     pp \<leftarrow> lpFirst lp;
     case pp of
       None \<Rightarrow> lpAppendInteger a lp lval
     | Some p \<Rightarrow> do { r \<leftarrow> lpInsertInteger a lp lval p LP_BEFORE; Some (map_option fst r) } }"

definition lpReplace :: "allocator \<Rightarrow> mem \<Rightarrow> nat \<Rightarrow> mem \<Rightarrow> (mem \<times> nat option) option option" where
  "lpReplace a lp p s = lpInsert a lp (Some s) None p LP_REPLACE"

definition lpReplaceInteger :: "allocator \<Rightarrow> mem \<Rightarrow> nat \<Rightarrow> i64 \<Rightarrow> (mem \<times> nat option) option option" where
  "lpReplaceInteger a lp p lval = lpInsertInteger a lp lval p LP_REPLACE"

definition lpDelete :: "allocator \<Rightarrow> mem \<Rightarrow> nat \<Rightarrow> (mem \<times> nat option) option option" where
  "lpDelete a lp p = lpInsert a lp None None p LP_REPLACE"

text \<open>\<open>while (num--)\<close>: the place after the last entry to delete, and how many there are.\<close>

fun lpDeleteRange_loop :: "mem \<Rightarrow> nat \<Rightarrow> nat \<Rightarrow> nat \<Rightarrow> nat \<Rightarrow> (nat \<times> nat) option" where
  "lpDeleteRange_loop lp bytes tail deleted 0 = Some (tail, deleted)"
| "lpDeleteRange_loop lp bytes tail deleted (Suc num) = do {
     tail \<leftarrow> lpSkip lp tail;
     e \<leftarrow> getb lp tail;
     if e = LP_EOF then Some (tail, deleted + 1)
     else do { lpAssertValidEntry lp bytes tail; lpDeleteRange_loop lp bytes tail (deleted + 1) num } }"

definition lpDeleteRangeWithEntry :: "allocator \<Rightarrow> mem \<Rightarrow> nat \<Rightarrow> nat \<Rightarrow> (mem \<times> nat option) option" where
  "lpDeleteRangeWithEntry a lp p num = do {
     bytes \<leftarrow> lpBytes lp;
     guard (bytes \<ge> 1);
     let eofptr = bytes - 1;
     if num = 0 then Some (lp, Some p)
     else do {
       (tail, deleted) \<leftarrow> lpDeleteRange_loop lp bytes p 0 num;
       guard (tail \<le> eofptr);
       lp \<leftarrow> memmove lp p tail (eofptr - tail + 1);
       lp \<leftarrow> lpSetTotalBytes lp (of_nat (bytes - (tail - p)));
       numele \<leftarrow> lpGetNumElements lp;
       lp \<leftarrow> (if numele \<noteq> LP_HDR_NUMELE_UNKNOWN then lpSetNumElements lp (ucast numele - of_nat deleted) else Some lp);
       lp \<leftarrow> lpShrinkToFit a lp;
       e \<leftarrow> getb lp p;
       Some (lp, if e = LP_EOF then None else Some p) } }"

definition lpDeleteRange :: "allocator \<Rightarrow> mem \<Rightarrow> int \<Rightarrow> nat \<Rightarrow> mem option" where
  "lpDeleteRange a lp index num = do {
     numele \<leftarrow> lpGetNumElements lp;
     if num = 0 then Some lp
     else do {
       pp \<leftarrow> lpSeek lp index;
       case pp of
         None \<Rightarrow> Some lp
       | Some p \<Rightarrow>
           (let index = (if numele \<noteq> LP_HDR_NUMELE_UNKNOWN \<and> index < 0 then uint numele + index else index) in
            if numele \<noteq> LP_HDR_NUMELE_UNKNOWN \<and> (uint numele - index) mod 2 ^ 64 \<le> int num then do {
              lp \<leftarrow> setb lp p LP_EOF;
              lp \<leftarrow> lpSetTotalBytes lp (of_nat (p + 1));
              lp \<leftarrow> lpSetNumElements lp (word_of_int index);
              lpShrinkToFit a lp }
            else do { (lp, _) \<leftarrow> lpDeleteRangeWithEntry a lp p num; Some lp }) } }"

text \<open>The loop of \<open>lpBatchDelete\<close> over the pointers that are left.\<close>

fun lpBatchDelete_loop :: "mem \<Rightarrow> nat \<Rightarrow> nat \<Rightarrow> nat list \<Rightarrow> (mem \<times> nat) option" where
  "lpBatchDelete_loop lp lp_end dst [] = Some (lp, dst)"
| "lpBatchDelete_loop lp lp_end dst (p # ps) = do {
     e \<leftarrow> getb lp p;
     guard (e \<noteq> LP_EOF);
     keep_start \<leftarrow> lpSkip lp p;
     if ps \<noteq> [] \<and> keep_start = hd ps then lpBatchDelete_loop lp lp_end dst ps
     else do {
       let keep_end = (if ps \<noteq> [] then hd ps else lp_end);
       guard (keep_end > keep_start);
       lp \<leftarrow> memmove lp dst keep_start (keep_end - keep_start);
       lpBatchDelete_loop lp lp_end (dst + (keep_end - keep_start)) ps } }"

definition lpBatchDelete :: "allocator \<Rightarrow> mem \<Rightarrow> nat list \<Rightarrow> mem option" where
  "lpBatchDelete a lp ps =
     (if ps = [] then Some lp
      else do {
        total_bytes \<leftarrow> lpBytes lp;
        let lp_end = total_bytes;
        guard (lp_end \<ge> 1);
        e \<leftarrow> getb lp (lp_end - 1);
        guard (e = LP_EOF);
        (lp, dst) \<leftarrow> lpBatchDelete_loop lp lp_end (hd ps) ps;
        guard (dst \<le> lp_end);
        let total_bytes = total_bytes - (lp_end - dst);
        guard (total_bytes \<ge> 1);
        e \<leftarrow> getb lp (total_bytes - 1);
        guard (e = LP_EOF);
        lp \<leftarrow> lpSetTotalBytes lp (of_nat total_bytes);
        numele \<leftarrow> lpGetNumElements lp;
        lp \<leftarrow> (if numele \<noteq> LP_HDR_NUMELE_UNKNOWN then lpSetNumElements lp (ucast numele - of_nat (length ps)) else Some lp);
        lpShrinkToFit a lp })"

section \<open>The code: batches, merging, copying\<close>

record listpackEntry =
  sval :: "mem option"
  lval :: i64

text \<open>\<open>struct listpackInsertEntry\<close>; \<open>backlen_size\<close> is the length of \<open>ie_backlen\<close>.\<close>

record listpackInsertEntry =
  ie_enctype :: lp_enctype
  ie_enclen :: nat
  ie_intenc :: mem
  ie_backlen :: mem

fun lpEncodeEntries :: "listpackEntry list \<Rightarrow> listpackInsertEntry list \<times> nat" where
  "lpEncodeEntries [] = ([], 0)"
| "lpEncodeEntries (e # es) =
     (let (enctype, intenc, enclen) =
        (case sval e of
           Some s \<Rightarrow> lpEncodeGetType s
         | None \<Rightarrow> (LP_ENCODING_INT, lpEncodeIntegerGetType (lval e), length (lpEncodeIntegerGetType (lval e))));
          backlen = lpEncodeBacklen (of_nat enclen);
          (enc, addedlen) = lpEncodeEntries es
      in (\<lparr>ie_enctype = enctype, ie_enclen = enclen, ie_intenc = intenc, ie_backlen = backlen\<rparr> # enc,
          enclen + length backlen + addedlen))"

text \<open>The block, the end of what was written, and \<open>*newp\<close>. The array of encoded entries that \<open>lpBatchInsert\<close> and \<open>lpNewWithEntries\<close> keep for
  the time of the call (on the stack or, for many entries, allocated) is taken as granted.\<close>

fun lpWriteEntries :: "mem \<Rightarrow> nat \<Rightarrow> listpackEntry list \<Rightarrow> listpackInsertEntry list \<Rightarrow> nat option \<Rightarrow> (mem \<times> nat \<times> nat option) option" where
  "lpWriteEntries lp dst [] [] newp = Some (lp, dst, newp)"
| "lpWriteEntries lp dst (ent # es) (enc # encs) newp = do {
     let newp = Some dst;
     lp \<leftarrow> (if ie_enctype enc = LP_ENCODING_INT then wr lp dst (take (ie_enclen enc) (ie_intenc enc))
            else do { s \<leftarrow> sval ent; lpEncodeString lp dst s });
     let dst = dst + ie_enclen enc;
     lp \<leftarrow> wr lp dst (ie_backlen enc);
     lpWriteEntries lp (dst + length (ie_backlen enc)) es encs newp }"
| "lpWriteEntries lp dst _ _ newp = None"

definition lpBatchInsert :: "allocator \<Rightarrow> mem \<Rightarrow> nat \<Rightarrow> lpwhere \<Rightarrow> listpackEntry list \<Rightarrow> (mem \<times> nat option) option option" where
  "lpBatchInsert a lp p wh entries = do {
     guard (wh = LP_BEFORE \<or> wh = LP_AFTER);
     guard (entries \<noteq> []);
     p \<leftarrow> (if wh = LP_AFTER then do { p \<leftarrow> lpSkip lp p; ASSERT_INTEGRITY lp p; Some p } else Some p);
     let (enc, addedlen) = lpEncodeEntries entries;
     old_listpack_bytes \<leftarrow> lpBytes lp;
     let new_listpack_bytes = old_listpack_bytes + addedlen;
     if int new_listpack_bytes > 2 ^ 32 - 1 then Some None
     else let poff = p in
     case (if new_listpack_bytes > old_listpack_bytes \<and> new_listpack_bytes > zmalloc_usable_size lp
           then lp_realloc a lp new_listpack_bytes else Some lp) of
       None \<Rightarrow> Some None
     | Some lp \<Rightarrow> do {
       lp \<leftarrow> memmove lp (poff + addedlen) poff (old_listpack_bytes - poff);
       (lp, _, newp) \<leftarrow> lpWriteEntries lp poff entries enc None;
       num_elements \<leftarrow> lpGetNumElements lp;
       lp \<leftarrow> (if num_elements \<noteq> LP_HDR_NUMELE_UNKNOWN then
                (if int (length entries) > uint LP_HDR_NUMELE_UNKNOWN - uint num_elements
                 then lpSetNumElements lp (ucast LP_HDR_NUMELE_UNKNOWN)
                 else lpSetNumElements lp (ucast (num_elements + of_nat (length entries))))
              else Some lp);
       lp \<leftarrow> lpSetTotalBytes lp (of_nat new_listpack_bytes);
       Some (Some (lp, newp)) } }"

definition lpBatchAppend :: "allocator \<Rightarrow> mem \<Rightarrow> listpackEntry list \<Rightarrow> mem option option" where
  "lpBatchAppend a lp entries = do {
     listpack_bytes \<leftarrow> lpBytes lp;
     guard (listpack_bytes \<ge> 1);
     r \<leftarrow> lpBatchInsert a lp (listpack_bytes - 1) LP_BEFORE entries;
     Some (map_option fst r) }"

definition lpNewWithEntries :: "allocator \<Rightarrow> listpackEntry list \<Rightarrow> mem option option" where
  "lpNewWithEntries a entries = do {
     guard (entries \<noteq> []);
     let (enc, entries_len) = lpEncodeEntries entries;
     let listpack_bytes = LP_HDR_SIZE + entries_len + 1;
     if int listpack_bytes > 2 ^ 32 - 1 then Some None
     else do {
       lp \<leftarrow> lp_malloc a listpack_bytes;
       (lp, tail, _) \<leftarrow> lpWriteEntries lp LP_HDR_SIZE entries enc None;
       lp \<leftarrow> setb lp tail LP_EOF;
       let num_elements = (if int (length entries) \<ge> uint LP_HDR_NUMELE_UNKNOWN then LP_HDR_NUMELE_UNKNOWN else of_nat (length entries));
       lp \<leftarrow> lpSetNumElements lp (ucast num_elements);
       lp \<leftarrow> lpSetTotalBytes lp (of_nat listpack_bytes);
       Some (Some lp) } }"

text \<open>\<open>lpMerge\<close> of two blocks, which may be \<open>NULL\<close> or the same: \<open>NULL\<close>, or the merged block and whether it is the
  first one (the other one is freed). The result of \<open>lp_realloc\<close> is used without a test, so a refusal there is undefined, as in \<open>lpDup\<close>.\<close>

definition lpMerge :: "allocator \<Rightarrow> bool \<Rightarrow> mem option \<Rightarrow> mem option \<Rightarrow> (mem \<times> bool) option option" where
  "lpMerge a same pfirst psecond =
   (if pfirst = None \<or> psecond = None then Some None
    else if same then Some None
    else do {
     first \<leftarrow> pfirst;
     second \<leftarrow> psecond;
     first_bytes \<leftarrow> lpBytes first;
     (first_len, first) \<leftarrow> lpLength first;
     second_bytes \<leftarrow> lpBytes second;
     (second_len, second) \<leftarrow> lpLength second;
     let (target, target_bytes, source, source_bytes, append) =
       (if first_bytes \<ge> second_bytes then (first, first_bytes, second, second_bytes, True)
        else (second, second_bytes, first, first_bytes, False));
     guard (first_bytes + second_bytes \<ge> LP_HDR_SIZE + 1);
     let lpbytes = first_bytes + second_bytes - LP_HDR_SIZE - 1;
     guard (int lpbytes < 2 ^ 32 - 1);
     let lplength = unat first_len + unat second_len;
     let lplength = (if int lplength < 65535 then lplength else 65535);
     target \<leftarrow> lp_realloc a target lpbytes;
     target \<leftarrow>
       (if append then do {
          guard (target_bytes \<ge> 1 \<and> source_bytes \<ge> LP_HDR_SIZE);
          bs \<leftarrow> rd source LP_HDR_SIZE (source_bytes - LP_HDR_SIZE);
          wr target (target_bytes - 1) bs }
        else do {
          guard (source_bytes \<ge> 1 \<and> target_bytes \<ge> LP_HDR_SIZE);
          target \<leftarrow> memmove target (source_bytes - 1) LP_HDR_SIZE (target_bytes - LP_HDR_SIZE);
          bs \<leftarrow> rd source 0 (source_bytes - 1);
          wr target 0 bs });
     target \<leftarrow> lpSetNumElements target (of_nat lplength);
     target \<leftarrow> lpSetTotalBytes target (of_nat lpbytes);
     Some (Some (target, append)) })"

definition lpDup :: "allocator \<Rightarrow> mem \<Rightarrow> mem option" where
  "lpDup a lp = do {
     lpbytes \<leftarrow> lpBytes lp;
     newlp \<leftarrow> lp_malloc a lpbytes;
     bs \<leftarrow> rd lp 0 lpbytes;
     wr newlp 0 bs }"

definition lpEntrySizeInteger :: "i64 \<Rightarrow> nat" where
  "lpEntrySizeInteger v =
     (let enclen = length (lpEncodeIntegerGetType v) in enclen + lpEncodeBacklenBytes (of_nat enclen))"

definition lpEstimateBytesRepeatedInteger :: "i64 \<Rightarrow> nat \<Rightarrow> nat" where
  "lpEstimateBytesRepeatedInteger v rep = LP_HDR_SIZE + lpEntrySizeInteger v * rep + 1"

declare lpLength_scan.simps [code] lpValidate_scan.simps [code] lpFindCb_loop.simps [code]

end
