(* ===== verification/ListpackRep.thy ===== *)
theory ListpackRep
  imports Listpack
begin

text \<open>
  What a listpack block means (\<open>redislib-src/kernel/listpack.c\<close>).

  \<open>lp_wf m cs\<close> says that the block \<open>m\<close> holds the encoded elements \<open>cs\<close>: a header with the total size and the count
  (or the mark that the count is unknown), every element followed by its back length, the end byte, and any slack
  behind it.  The lemmas show how the code moves over such a block in both directions, what the encodings are and
  that decoding them gives back the element.
\<close>

section \<open>Bytes of words\<close>

lemma and_255: "v AND 255 = take_bit 8 (v :: 'a :: len word)"
  by (simp add: take_bit_eq_mask mask_eq_exp_minus_1)

lemma and_127: "v AND 127 = take_bit 7 (v :: 'a :: len word)"
  by (simp add: take_bit_eq_mask mask_eq_exp_minus_1)

lemma and_63: "v AND 63 = take_bit 6 (v :: 'a :: len word)"
  by (simp add: take_bit_eq_mask mask_eq_exp_minus_1)

lemma and_31: "v AND 31 = take_bit 5 (v :: 'a :: len word)"
  by (simp add: take_bit_eq_mask mask_eq_exp_minus_1)

lemma and_mask15: "v AND 15 = take_bit 4 (v :: 'a :: len word)"
  by (simp add: take_bit_eq_mask mask_eq_exp_minus_1)

lemma byte_and_255: "(ucast (v AND 255 :: 'a :: len word) :: byte) = ucast v"
  unfolding and_255 by (rule bit_word_eqI) (auto simp: bit_unsigned_iff bit_take_bit_iff dest: bit_imp_le_length)

lemmas bits = bit_or_iff bit_and_iff bit_push_bit_iff bit_unsigned_iff bit_drop_bit_eq bit_take_bit_iff

lemma bit_shift: "k \<le> n \<Longrightarrow> bit v (k + (n - k)) = bit v n" by simp

lemma le32_bytes: "le32 (ucast v) (ucast (drop_bit 8 v)) (ucast (drop_bit 16 v)) (ucast (drop_bit 24 v)) = ucast (v :: u64)"
  unfolding le32_def
proof (rule bit_word_eqI)
  fix n assume "n < LENGTH(32)"
  then consider "n < 8" | "8 \<le> n" "n < 16" | "16 \<le> n" "n < 24" | "24 \<le> n" "n < 32" by fastforce
  then show "bit (ucast (ucast v :: byte) OR push_bit 8 (ucast (ucast (drop_bit 8 v) :: byte)) OR push_bit 16 (ucast (ucast (drop_bit 16 v) :: byte)) OR push_bit 24 (ucast (ucast (drop_bit 24 v) :: byte)) :: u32) n = bit (ucast v :: u32) n"
    by cases (auto simp: bits bit_shift)
qed

lemma le16_bytes: "ucast (ucast v :: byte) OR push_bit 8 (ucast (ucast (drop_bit 8 v) :: byte)) = (take_bit 16 (ucast (v :: u64)) :: u32)"
proof (rule bit_word_eqI)
  fix n assume "n < LENGTH(32)"
  then consider "n < 8" | "8 \<le> n" "n < 16" | "16 \<le> n" "n < 32" by fastforce
  then show "bit (ucast (ucast v :: byte) OR push_bit 8 (ucast (ucast (drop_bit 8 v) :: byte)) :: u32) n = bit (take_bit 16 (ucast v) :: u32) n"
    by cases (auto simp: bits bit_shift)
qed

section \<open>The header\<close>

definition hdr :: "u64 \<Rightarrow> u64 \<Rightarrow> mem" where
  "hdr t n = [ucast t, ucast (drop_bit 8 t), ucast (drop_bit 16 t), ucast (drop_bit 24 t), ucast n, ucast (drop_bit 8 n)]"

lemma length_hdr [simp]: "length (hdr t n) = 6" by (simp add: hdr_def)

lemma hdr_sizes [simp]: "LP_HDR_SIZE = 6" "unat LP_HDR_NUMELE_UNKNOWN = 65535"
  by (simp_all add: LP_HDR_SIZE_def LP_HDR_NUMELE_UNKNOWN_def)

lemma get_total [simp]: "lpGetTotalBytes (hdr t n @ r) = Some (ucast t)"
  by (simp add: lpGetTotalBytes_def hdr_def getb_def le32_bytes)

lemma get_num [simp]: "lpGetNumElements (hdr t n @ r) = Some (take_bit 16 (ucast n))"
  by (simp add: lpGetNumElements_def hdr_def getb_def le16_bytes)

lemma set_total [simp]: "lpSetTotalBytes (hdr t n @ r) t' = Some (hdr t' n @ r)"
  by (simp add: lpSetTotalBytes_def hdr_def setb_def byte_and_255)

lemma set_num [simp]: "lpSetNumElements (hdr t n @ r) n' = Some (hdr t n' @ r)"
  by (simp add: lpSetNumElements_def hdr_def setb_def byte_and_255 eval_nat_numeral)

lemma bytes_hdr: "t < 2 ^ 32 \<Longrightarrow> lpBytes (hdr (of_nat t) n @ r) = Some t"
proof -
  assume t: "t < 2 ^ 32"
  have "unat (ucast (of_nat t :: u64) :: u32) = t"
    using t by (simp add: unsigned_ucast_eq unat_of_nat take_bit_nat_eq_self)
  then show ?thesis by (simp add: lpBytes_def)
qed

lemma u32_hdr: "t < 2 ^ 32 \<Longrightarrow> (ucast (of_nat t :: u64) :: u32) = of_nat t"
  by (simp add: word_unat_eq_iff unsigned_ucast_eq unat_of_nat take_bit_nat_eq_self)

lemma num_hdr: "n \<le> 65535 \<Longrightarrow> lpGetNumElements (hdr t (of_nat n) @ r) = Some (of_nat n)"
proof -
  assume n: "n \<le> 65535"
  then have "take_bit 16 (ucast (of_nat n :: u64)) = (of_nat n :: u32)"
    by (simp add: word_unat_eq_iff unsigned_ucast_eq unat_of_nat take_bit_nat_eq_self unsigned_take_bit_eq)
  then show ?thesis by simp
qed

lemma num_unknown: "n \<le> 65535 \<Longrightarrow> (of_nat n :: u32) = LP_HDR_NUMELE_UNKNOWN \<longleftrightarrow> n = 65535"
  by (simp add: LP_HDR_NUMELE_UNKNOWN_def word_unat_eq_iff unat_of_nat take_bit_nat_eq_self)

section \<open>Back lengths\<close>

lemma length_backlen [simp]: "length (lpEncodeBacklen l) = lpEncodeBacklenBytes l"
  by (simp add: lpEncodeBacklen_def lpEncodeBacklenBytes_def)

lemma backlen_bytes_bounds: "1 \<le> lpEncodeBacklenBytes l" "lpEncodeBacklenBytes l \<le> 5"
  by (simp_all add: lpEncodeBacklenBytes_def)

lemma byte_top: "(ucast (x AND 127 OR 128 :: u64) :: byte) AND 128 \<noteq> 0"
proof
  assume "(ucast (x AND 127 OR 128 :: u64) :: byte) AND 128 = 0"
  then have "\<not> bit ((ucast (x AND 127 OR 128 :: u64) :: byte) AND 128) 7" by simp
  moreover have "bit (128 :: u64) 7" "bit (128 :: byte) 7" by code_simp+
  ultimately show False by (simp add: bit_and_iff bit_or_iff bit_unsigned_iff)
qed

lemma byte_seven: "ucast ((ucast (x AND 127 OR 128 :: u64) :: byte) AND 127) = take_bit 7 x"
proof (rule bit_word_eqI)
  fix n
  have "\<not> bit (128 :: u64) n" if "n < 7" using that by (auto simp: less_Suc_eq eval_nat_numeral)
  then show "bit (ucast ((ucast (x AND 127 OR 128 :: u64) :: byte) AND 127) :: u64) n = bit (take_bit 7 x) n"
    unfolding and_127 by (auto simp: bits)
qed

lemma byte_small: "x \<le> 127 \<Longrightarrow> (ucast (x :: u64) :: byte) AND 128 = 0 \<and> ucast ((ucast x :: byte) AND 127) = x"
proof -
  assume "x \<le> 127"
  then have "unat x < 2 ^ 7" by (simp add: word_le_nat_alt)
  then have t: "take_bit 7 x = x" by (simp add: word_unat_eq_iff unsigned_take_bit_eq take_bit_nat_eq_self)
  have b: "bit x n \<Longrightarrow> n < 7" for n by (subst (asm) t[symmetric]) (simp add: bit_take_bit_iff)
  have "(ucast (x :: u64) :: byte) AND 128 = 0"
  proof (rule bit_word_eqI)
    fix n
    have "\<not> bit (128 :: byte) n" if "n < 7" using that by (auto simp: less_Suc_eq eval_nat_numeral)
    then show "bit ((ucast x :: byte) AND 128) n = bit 0 n" using b[of n] by (auto simp: bits)
  qed
  moreover have "ucast ((ucast x :: byte) AND 127) = x"
    unfolding and_127 by (rule bit_word_eqI) (use b in \<open>fastforce simp: bits\<close>)
  ultimately show ?thesis by simp
qed

lemma drop_small: "unat (x :: u64) < 2 ^ (k + 7) \<Longrightarrow> drop_bit k x \<le> 127"
proof -
  assume "unat x < 2 ^ (k + 7)"
  then have "unat x div 2 ^ k < 2 ^ 7" by (simp add: div_less_iff_less_mult power_add mult.commute)
  then show ?thesis by (simp add: word_le_nat_alt unat_drop_bit_eq drop_bit_nat_def)
qed

lemma bit_push_drop: "bit (push_bit k (drop_bit k (x :: 'a :: len word))) n \<longleftrightarrow> k \<le> n \<and> bit x n"
  by (auto simp: bits dest: bit_imp_le_length)

lemma bit_push_take_drop: "bit (push_bit k (take_bit j (drop_bit k (x :: 'a :: len word)))) n \<longleftrightarrow> k \<le> n \<and> n < k + j \<and> bit x n"
  by (auto simp: bits dest: bit_imp_le_length)

lemma seven_bits:
  "take_bit 7 x OR push_bit 7 (drop_bit 7 x) = (x :: u64)"
  "take_bit 7 x OR push_bit 7 (take_bit 7 (drop_bit 7 x)) OR push_bit 14 (drop_bit 14 x) = x"
  "take_bit 7 x OR push_bit 7 (take_bit 7 (drop_bit 7 x)) OR push_bit 14 (take_bit 7 (drop_bit 14 x)) OR push_bit 21 (drop_bit 21 x) = x"
  "take_bit 7 x OR push_bit 7 (take_bit 7 (drop_bit 7 x)) OR push_bit 14 (take_bit 7 (drop_bit 14 x))
     OR push_bit 21 (take_bit 7 (drop_bit 21 x)) OR push_bit 28 (drop_bit 28 x) = x"
  by (rule bit_word_eqI, auto simp: bit_or_iff bit_push_drop bit_push_take_drop bit_take_bit_iff)+

lemma getb_app: "getb (pre @ c) (length pre + i) = getb c i" by (simp add: getb_def nth_append)

lemma getb_lt: "getb c i = Some x \<Longrightarrow> i < length c" by (simp add: getb_def split: if_splits)

lemma getb_mono: "getb c i = Some x \<Longrightarrow> getb (c @ r) i = Some x" by (auto simp: getb_def nth_append split: if_splits)

lemma getb_back_app: "k < length b \<Longrightarrow> q = length pre + length b - 1 \<Longrightarrow> getb_back (pre @ b @ r) q k = Some (rev b ! k)"
  by (cases b rule: rev_cases) (auto simp: getb_back_def getb_def nth_append rev_nth nth_Cons' not_less)

text \<open>Reading a back length from its last byte.\<close>

lemma backlen_cases:
  assumes "unat (l :: u64) < 2 ^ 35"
  obtains "l \<le> 127" | "\<not> l \<le> 127" "l \<le> 16383" "drop_bit 7 l \<le> 127"
  | "\<not> l \<le> 127" "\<not> l \<le> 16383" "l \<le> 2097151" "drop_bit 14 l \<le> 127"
  | "\<not> l \<le> 127" "\<not> l \<le> 16383" "\<not> l \<le> 2097151" "l \<le> 268435455" "drop_bit 21 l \<le> 127"
  | "\<not> l \<le> 127" "\<not> l \<le> 16383" "\<not> l \<le> 2097151" "\<not> l \<le> 268435455" "drop_bit 28 l \<le> 127"
proof -
  have "l \<le> 16383 \<Longrightarrow> drop_bit 7 l \<le> 127" "l \<le> 2097151 \<Longrightarrow> drop_bit 14 l \<le> 127" "l \<le> 268435455 \<Longrightarrow> drop_bit 21 l \<le> 127"
    "drop_bit 28 l \<le> 127"
    using assms drop_small[of l 7] drop_small[of l 14] drop_small[of l 21] drop_small[of l 28]
    by (simp_all add: word_le_nat_alt)
  then show ?thesis using that by metis
qed

lemma decode_encode_backlen:
  assumes "unat l < 2 ^ 35"
  shows "lpDecodeBacklen (pre @ lpEncodeBacklen l @ r) (length pre + lpEncodeBacklenBytes l - 1) = Some l"
proof -
  let ?m = "pre @ lpEncodeBacklen l @ r" and ?q = "length pre + lpEncodeBacklenBytes l - 1"
  have g: "getb_back ?m ?q k = Some (rev (lpEncodeBacklen l) ! k)" if "k < lpEncodeBacklenBytes l" for k
    using that getb_back_app[of k "lpEncodeBacklen l" ?q pre r] by simp
  from assms show ?thesis
  proof (cases rule: backlen_cases)
    case 1
    then show ?thesis using g[of 0] byte_small[of l] by (simp add: lpDecodeBacklen_def lpEncodeBacklen_def lpEncodeBacklenBytes_def)
  next
    case 2
    then show ?thesis using g[of 0] g[of 1] byte_small[of "drop_bit 7 l"] seven_bits(1)[of l]
      by (simp add: lpDecodeBacklen_def lpEncodeBacklen_def lpEncodeBacklenBytes_def byte_top byte_seven Let_def)
  next
    case 3
    then show ?thesis using g[of 0] g[of 1] g[of 2] byte_small[of "drop_bit 14 l"] seven_bits(2)[of l]
      by (simp add: lpDecodeBacklen_def lpEncodeBacklen_def lpEncodeBacklenBytes_def byte_top byte_seven Let_def or.assoc)
  next
    case 4
    then show ?thesis using g[of 0] g[of 1] g[of 2] g[of 3] byte_small[of "drop_bit 21 l"] seven_bits(3)[of l]
      by (simp add: lpDecodeBacklen_def lpEncodeBacklen_def lpEncodeBacklenBytes_def byte_top byte_seven Let_def or.assoc eval_nat_numeral)
  next
    case 5
    then show ?thesis using g[of 0] g[of 1] g[of 2] g[of 3] g[of 4] byte_small[of "drop_bit 28 l"] seven_bits(4)[of l]
      by (simp add: lpDecodeBacklen_def lpEncodeBacklen_def lpEncodeBacklenBytes_def byte_top byte_seven Let_def or.assoc eval_nat_numeral)
  qed
qed

section \<open>Entries and blocks\<close>

text \<open>The encoding of an element is a run of bytes whose length is the one its first bytes announce; an entry is
  an element and its back length.\<close>

definition enc_ok :: "mem \<Rightarrow> bool" where
  "enc_ok c \<longleftrightarrow> c \<noteq> [] \<and> hd c \<noteq> LP_EOF \<and> int (length c) < 2 ^ 32 \<and> lpCurrentEncodedSizeUnsafe c 0 = Some (of_nat (length c))"

definition ent :: "mem \<Rightarrow> mem" where
  "ent c = c @ lpEncodeBacklen (of_nat (length c))"

definition body :: "mem list \<Rightarrow> mem" where
  "body cs = concat (map ent cs)"

text \<open>The block of the elements \<open>cs\<close>: header, entries, end byte and slack.\<close>

definition lpk :: "nat \<Rightarrow> mem list \<Rightarrow> mem \<Rightarrow> mem" where
  "lpk n cs slack = hdr (of_nat (7 + length (body cs))) (of_nat n) @ body cs @ LP_EOF # slack"

definition pos :: "mem list \<Rightarrow> nat" where "pos xs = 6 + length (body xs)"

text \<open>The invariant; the count in the header may be unknown.\<close>

definition lp_inv :: "nat \<Rightarrow> mem list \<Rightarrow> bool" where
  "lp_inv n cs \<longleftrightarrow> list_all enc_ok cs \<and> int (7 + length (body cs)) < 2 ^ 32 \<and> (n = 65535 \<or> n < 65535 \<and> n = length cs)"

definition lp_wf :: "mem \<Rightarrow> mem list \<Rightarrow> bool" where
  "lp_wf m cs \<longleftrightarrow> (\<exists>n slack. m = lpk n cs slack \<and> lp_inv n cs)"

lemma body_simps [simp]: "body [] = []" "body (c # cs) = ent c @ body cs" "body (xs @ ys) = body xs @ body ys"
  by (simp_all add: body_def)

lemma pos_simps [simp]: "pos [] = 6" "pos (xs @ ys) = pos xs + length (body ys)"
  by (simp_all add: pos_def)

lemma enc_ok_len: "enc_ok c \<Longrightarrow> 0 < length c \<and> length c < 2 ^ 32"
  by (auto simp: enc_ok_def)

lemma length_ent: "length (ent c) = length c + lpEncodeBacklenBytes (of_nat (length c))"
  by (simp add: ent_def)

lemma ent_ge2: "enc_ok c \<Longrightarrow> 2 \<le> length (ent c)"
proof -
  assume "enc_ok c"
  then have "1 \<le> length c" using enc_ok_len[of c] by linarith
  then show ?thesis using backlen_bytes_bounds(1)[of "of_nat (length c)"] unfolding length_ent by linarith
qed

text \<open>The kinds of encodings, in the order in which the code tests the first byte.\<close>

datatype ekind = K7 | K6S | K13 | K16 | K24 | K32 | K64 | K12S | K32S | KEof | KBad

definition ekind :: "byte \<Rightarrow> ekind" where
  "ekind e = (if LP_ENCODING_IS_7BIT_UINT e then K7 else if LP_ENCODING_IS_6BIT_STR e then K6S
     else if LP_ENCODING_IS_13BIT_INT e then K13 else if e = 0xF1 then K16 else if e = 0xF2 then K24 else if e = 0xF3 then K32
     else if e = 0xF4 then K64 else if LP_ENCODING_IS_12BIT_STR e then K12S else if e = 0xF0 then K32S
     else if e = LP_EOF then KEof else KBad)"

lemma encsize_kind: "lpCurrentEncodedSizeUnsafe lp p = do { e \<leftarrow> getb lp p; case ekind e of K7 \<Rightarrow> Some 1
    | K6S \<Rightarrow> map_option (\<lambda>l. 1 + l) (LP_ENCODING_6BIT_STR_LEN lp p) | K13 \<Rightarrow> Some 2 | K16 \<Rightarrow> Some 3 | K24 \<Rightarrow> Some 4
    | K32 \<Rightarrow> Some 5 | K64 \<Rightarrow> Some 9 | K12S \<Rightarrow> map_option (\<lambda>l. 2 + l) (LP_ENCODING_12BIT_STR_LEN lp p)
    | K32S \<Rightarrow> map_option (\<lambda>l. 5 + l) (LP_ENCODING_32BIT_STR_LEN lp p) | KEof \<Rightarrow> Some 1 | KBad \<Rightarrow> Some 0 }"
  by (cases "getb lp p") (simp_all add: lpCurrentEncodedSizeUnsafe_def ekind_def map_conv_bind_option comp_def)

lemma lenbytes_kind: "lpCurrentEncodedSizeBytes e = (case ekind e of K12S \<Rightarrow> 2 | K32S \<Rightarrow> 5 | KBad \<Rightarrow> 0 | _ \<Rightarrow> 1)"
  by (simp add: lpCurrentEncodedSizeBytes_def ekind_def)

lemma kind_Eof: "ekind e = KEof \<longleftrightarrow> e = LP_EOF"
  by (simp add: ekind_def)

lemma encsize_mono:
  assumes "lpCurrentEncodedSizeUnsafe c 0 = Some n"
  shows "lpCurrentEncodedSizeUnsafe (pre @ c @ r) (length pre) = Some n"
proof -
  have g: "getb c i = Some x \<Longrightarrow> getb (pre @ c @ r) (length pre + i) = Some x" for i x
    using getb_app[of pre "c @ r" i] getb_mono[of c i x r] by simp
  obtain e where e: "getb c 0 = Some e" using assms by (auto simp: encsize_kind split: bind_splits)
  have e': "getb (pre @ c @ r) (length pre) = Some e" using g[OF e] by simp
  show ?thesis using assms
    by (cases "ekind e") (auto simp: encsize_kind e e' LP_ENCODING_6BIT_STR_LEN_def LP_ENCODING_12BIT_STR_LEN_def
        LP_ENCODING_32BIT_STR_LEN_def split: bind_splits dest!: g)
qed

lemma encsize_lenbytes:
  assumes "enc_ok c"
  shows "lpCurrentEncodedSizeBytes (hd c) \<noteq> 0" "lpCurrentEncodedSizeBytes (hd c) \<le> length c"
proof -
  have l: "0 < length c" "length c < 2 ^ 32" using enc_ok_len[OF assms] by auto
  then have h: "getb c 0 = Some (hd c)" by (simp add: hd_conv_nth)
  have n: "(of_nat (length c) :: u32) \<noteq> 0" using l by (simp add: word_unat_eq_iff unat_of_nat take_bit_nat_eq_self)
  have l1: "Suc 0 \<le> length c" using l(1) by linarith
  have z: "lpCurrentEncodedSizeUnsafe c 0 = Some (of_nat (length c))" "hd c \<noteq> LP_EOF" using assms by (auto simp: enc_ok_def)
  show "lpCurrentEncodedSizeBytes (hd c) \<noteq> 0"
    using z n by (cases "ekind (hd c)") (auto simp: encsize_kind lenbytes_kind h)
  have "2 \<le> length c" if "ekind (hd c) = K12S"
    using z that by (auto simp: encsize_kind h LP_ENCODING_12BIT_STR_LEN_def split: bind_splits dest!: getb_lt)
  moreover have "5 \<le> length c" if "ekind (hd c) = K32S"
    using z that by (auto simp: encsize_kind h LP_ENCODING_32BIT_STR_LEN_def split: bind_splits dest!: getb_lt)
  ultimately show "lpCurrentEncodedSizeBytes (hd c) \<le> length c"
    using l1 by (cases "ekind (hd c)") (auto simp: lenbytes_kind)
qed

lemma skip_at:
  assumes "enc_ok c"
  shows "lpSkip (pre @ ent c @ r) (length pre) = Some (length pre + length (ent c))"
proof -
  have l: "length c < 2 ^ 32" using enc_ok_len[OF assms] by simp
  have "lpCurrentEncodedSizeUnsafe (pre @ ent c @ r) (length pre) = Some (of_nat (length c))"
    using encsize_mono[of c _ pre "lpEncodeBacklen (of_nat (length c)) @ r"] assms by (simp add: enc_ok_def ent_def)
  moreover have "unat (of_nat (length c) :: u32) = length c" using l by (simp add: unat_of_nat take_bit_nat_eq_self)
  moreover have "(ucast (of_nat (length c) :: u32) :: u64) = of_nat (length c)"
    using l by (simp add: word_unat_eq_iff unsigned_ucast_eq unat_of_nat take_bit_nat_eq_self)
  ultimately show ?thesis by (simp add: lpSkip_def length_ent)
qed

lemma decode_at:
  assumes "enc_ok c" "q + 1 = length pre + length (ent c)"
  shows "lpDecodeBacklen (pre @ ent c @ r) q = Some (of_nat (length c))"
proof -
  have l: "length c < 2 ^ 32" using enc_ok_len[OF assms(1)] by simp
  have "unat (of_nat (length c) :: u64) < 2 ^ 35" using l by (simp add: unat_of_nat take_bit_nat_eq_self)
  moreover have "q = length (pre @ c) + lpEncodeBacklenBytes (of_nat (length c)) - 1" using assms(2) by (simp add: length_ent)
  ultimately show ?thesis using decode_encode_backlen[of "of_nat (length c)" "pre @ c" r] by (simp add: ent_def)
qed

lemma u64_of_size: "length c < 2 ^ 32 \<Longrightarrow> (ucast (of_nat (length c) :: u32) :: u64) = of_nat (length c) \<and> unat (of_nat (length c) :: u32) = length c"
  by (simp add: word_unat_eq_iff unsigned_ucast_eq unat_of_nat take_bit_nat_eq_self)

lemma encsize_at:
  "enc_ok c \<Longrightarrow> lpCurrentEncodedSizeUnsafe (pre @ ent c @ r) (length pre) = Some (of_nat (length c))"
  using encsize_mono[of c _ pre "lpEncodeBacklen (of_nat (length c)) @ r"] by (simp add: enc_ok_def ent_def)

lemma getb_ent: "enc_ok c \<Longrightarrow> getb (pre @ ent c @ r) (length pre) = Some (hd c) \<and> hd c \<noteq> LP_EOF"
  using getb_app[of pre "ent c @ r" 0] by (auto simp: enc_ok_def ent_def getb_def nth_append hd_conv_nth)

lemma validate_at:
  assumes "enc_ok c" "6 \<le> length pre" "length pre + length (ent c) < lpbytes"
  shows "lpValidateNext (pre @ ent c @ r) (Some (length pre)) lpbytes = Some (True, Some (length pre + length (ent c)))"
proof -
  have l: "length c < 2 ^ 32" using enc_ok_len[OF assms(1)] by simp
  have le: "length c + lpEncodeBacklenBytes (of_nat (length c)) = length (ent c)" by (simp add: length_ent)
  have b: "lpCurrentEncodedSizeBytes (hd c) \<noteq> 0" "lpCurrentEncodedSizeBytes (hd c) \<le> length (ent c)"
    using encsize_lenbytes[OF assms(1)] by (auto simp: length_ent)
  have d: "lpDecodeBacklen (pre @ ent c @ r) (length pre + length (ent c) - 1) = Some (of_nat (length c))"
    using ent_ge2[OF assms(1)] by (intro decode_at[OF assms(1)]) simp
  have "of_nat (length c) + of_nat (lpEncodeBacklenBytes (of_nat (length c))) = (of_nat (length (ent c)) :: u64)"
    by (simp add: length_ent)
  then show ?thesis
    using assms(2,3) b getb_ent[OF assms(1), of pre r] encsize_at[OF assms(1), of pre r] u64_of_size[OF l] d le
    by (simp add: lpValidateNext_def OUT_OF_RANGE_def Let_def)
qed

text \<open>A block, cut at an entry.\<close>

definition front :: "nat \<Rightarrow> mem list \<Rightarrow> mem list \<Rightarrow> mem" where
  "front n cs xs = hdr (of_nat (7 + length (body cs))) (of_nat n) @ body xs"

lemma length_front [simp]: "length (front n cs xs) = pos xs" by (simp add: front_def pos_def)

lemma lpk_split: "lpk n (xs @ ys) sl = front n (xs @ ys) xs @ body ys @ LP_EOF # sl"
  by (simp add: lpk_def front_def)

lemma lpk_cut: "lpk n (xs @ c # ys) sl = front n (xs @ c # ys) xs @ ent c @ body ys @ LP_EOF # sl"
  by (simp add: lpk_split)

lemma lpk_bytes: "lp_inv n cs \<Longrightarrow> lpBytes (lpk n cs sl) = Some (7 + length (body cs))"
  unfolding lpk_def lp_inv_def by (intro bytes_hdr) simp

lemma inv_ok: "lp_inv n (xs @ c # ys) \<Longrightarrow> enc_ok c" by (simp add: lp_inv_def)

lemma pos_ge: "6 \<le> pos xs" by (simp add: pos_def)

lemma pos_total: "pos (xs @ ys) + 1 = 7 + length (body (xs @ ys))" by (simp add: pos_def)

lemma getb_eof: "getb (lpk n xs sl) (pos xs) = Some LP_EOF"
  using lpk_split[of n xs "[]" sl] getb_app[of "front n xs xs" "LP_EOF # sl" 0] by (simp add: getb_def)

lemma lpk_getb: "lp_inv n (xs @ c # ys) \<Longrightarrow> getb (lpk n (xs @ c # ys) sl) (pos xs) = Some (hd c) \<and> hd c \<noteq> LP_EOF"
  using getb_ent[OF inv_ok, of n xs c ys "front n (xs @ c # ys) xs" "body ys @ LP_EOF # sl"] by (simp add: lpk_cut)

lemma lpk_skip: "lp_inv n (xs @ c # ys) \<Longrightarrow> lpSkip (lpk n (xs @ c # ys) sl) (pos xs) = Some (pos (xs @ [c]))"
  using skip_at[OF inv_ok, of n xs c ys "front n (xs @ c # ys) xs" "body ys @ LP_EOF # sl"] by (simp add: lpk_cut)

lemma lpk_validate: "lp_inv n (xs @ c # ys) \<Longrightarrow>
    lpValidateNext (lpk n (xs @ c # ys) sl) (Some (pos xs)) (7 + length (body (xs @ c # ys))) = Some (True, Some (pos (xs @ [c])))"
  using validate_at[OF inv_ok, of n xs c ys "front n (xs @ c # ys) xs" "7 + length (body (xs @ c # ys))" "body ys @ LP_EOF # sl"]
  by (simp add: lpk_cut pos_def)

lemma lpk_assert: "lp_inv n (xs @ ys) \<Longrightarrow> lpAssertValidEntry (lpk n (xs @ ys) sl) (7 + length (body (xs @ ys))) (pos xs) = Some ()"
proof (cases ys)
  case Nil
  then show ?thesis using getb_eof[of n xs sl] by (simp add: lpAssertValidEntry_def lpValidateNext_def OUT_OF_RANGE_def pos_def)
next
  case (Cons c ys')
  assume "lp_inv n (xs @ ys)"
  then show ?thesis using lpk_validate[of n xs c ys' sl] Cons by (simp add: lpAssertValidEntry_def)
qed

lemma lpk_decode:
  assumes "lp_inv n ((xs @ [c]) @ ys)"
  shows "lpDecodeBacklen (lpk n ((xs @ [c]) @ ys) sl) (pos (xs @ [c]) - 1) = Some (of_nat (length c))"
proof -
  have ok: "enc_ok c" using assms by (simp add: lp_inv_def)
  have "pos (xs @ [c]) - 1 + 1 = length (front n (xs @ c # ys) xs) + length (ent c)" using pos_ge[of xs] by simp
  then show ?thesis using decode_at[OF ok, of "pos (xs @ [c]) - 1" "front n (xs @ c # ys) xs" "body ys @ LP_EOF # sl"]
    by (simp add: lpk_cut)
qed

lemma lpk_skipprev:
  assumes "lp_inv n ((xs @ [c]) @ ys)"
  shows "lpSkipPrev (lpk n ((xs @ [c]) @ ys) sl) (pos (xs @ [c])) = Some (pos xs)"
proof -
  have ok: "enc_ok c" using assms by (simp add: lp_inv_def)
  then have l: "length c < 2 ^ 32" using enc_ok_len by simp
  have e: "of_nat (length c) + of_nat (lpEncodeBacklenBytes (of_nat (length c))) = (of_nat (length (ent c)) :: u64)"
    by (simp add: length_ent)
  have b: "length (ent c) < 2 ^ 32 + 6" using l backlen_bytes_bounds(2)[of "of_nat (length c)"] by (simp add: length_ent)
  have u: "unat (of_nat (length (ent c)) - 1 :: u64) = length (ent c) - 1"
  proof -
    have "(of_nat (length (ent c)) - 1 :: u64) = of_nat (length (ent c) - 1)" using ent_ge2[OF ok] by (simp add: of_nat_diff)
    then show ?thesis using b by (simp add: unat_of_nat take_bit_nat_eq_self)
  qed
  have "lpDecodeBacklen (lpk n ((xs @ [c]) @ ys) sl) (pos xs + length (ent c) - Suc 0) = Some (of_nat (length c))"
    using lpk_decode[OF assms, of sl] by simp
  then show ?thesis using ent_ge2[OF ok] pos_ge[of xs]
    by (simp add: lpSkipPrev_def Let_def e u)
qed

section \<open>Moving over a block\<close>

text \<open>The place of element \<open>i\<close>, if there is one.\<close>

definition place :: "mem list \<Rightarrow> nat \<Rightarrow> nat option" where
  "place cs i = (if i < length cs then Some (pos (take i cs)) else None)"

lemma lpk_first: "lp_inv n cs \<Longrightarrow> lpFirst (lpk n cs sl) = Some (place cs 0)"
proof (cases cs)
  case Nil
  then show ?thesis using getb_eof[of n "[]" sl] by (simp add: lpFirst_def place_def)
next
  case (Cons c ys)
  assume i: "lp_inv n cs"
  have "getb (lpk n cs sl) 6 = Some (hd c) \<and> hd c \<noteq> LP_EOF" using lpk_getb[of n "[]" c ys sl] i Cons by simp
  moreover have "lpAssertValidEntry (lpk n cs sl) (7 + length (body cs)) 6 = Some ()" using lpk_assert[of n "[]" cs sl] i by simp
  ultimately show ?thesis using lpk_bytes[OF i, of sl] Cons by (simp add: lpFirst_def place_def)
qed

lemma lpk_next: "lp_inv n (xs @ c # ys) \<Longrightarrow>
   lpNext (lpk n (xs @ c # ys) sl) (pos xs) = Some (place (xs @ c # ys) (Suc (length xs)))"
proof -
  assume i: "lp_inv n (xs @ c # ys)"
  note s = lpk_skip[OF i, of sl]
  show ?thesis
  proof (cases ys)
    case Nil
    then show ?thesis using s getb_eof[of n "xs @ [c]" sl] by (simp add: lpNext_def place_def)
  next
    case (Cons d zs)
    have i': "lp_inv n ((xs @ [c]) @ d # zs)" using i Cons by simp
    have "lpAssertValidEntry (lpk n (xs @ c # ys) sl) (7 + length (body (xs @ c # ys))) (pos (xs @ [c])) = Some ()"
      using lpk_assert[OF i', of sl] Cons by simp
    then show ?thesis using s lpk_getb[OF i', of sl] lpk_bytes[OF i, of sl] Cons by (simp add: lpNext_def place_def)
  qed
qed

lemma lpk_prev: "lp_inv n ((xs @ [c]) @ ys) \<Longrightarrow> lpPrev (lpk n ((xs @ [c]) @ ys) sl) (pos (xs @ [c])) = Some (Some (pos xs))"
proof -
  assume i: "lp_inv n ((xs @ [c]) @ ys)"
  have "enc_ok c" using i by (simp add: lp_inv_def)
  then have "pos (xs @ [c]) \<noteq> 6" using ent_ge2[of c] pos_ge[of xs] by simp
  moreover have "lpAssertValidEntry (lpk n ((xs @ [c]) @ ys) sl) (7 + length (body ((xs @ [c]) @ ys))) (pos xs) = Some ()"
    using lpk_assert[of n xs "c # ys" sl] i by simp
  ultimately show ?thesis using lpk_skipprev[OF i, of sl] lpk_bytes[OF i, of sl] by (simp add: lpPrev_def)
qed

lemma lpk_last: "lp_inv n cs \<Longrightarrow> lpLast (lpk n cs sl) = Some (if cs = [] then None else Some (pos (butlast cs)))"
proof (cases cs rule: rev_cases)
  case Nil
  assume i: "lp_inv n cs"
  show ?thesis using lpk_bytes[OF i, of sl] Nil by (simp add: lpLast_def lpPrev_def)
next
  case (snoc xs c)
  assume i: "lp_inv n cs"
  have "lpPrev (lpk n cs sl) (pos cs) = Some (Some (pos xs))" using lpk_prev[of n xs c "[]" sl] i snoc by simp
  then show ?thesis using lpk_bytes[OF i, of sl] snoc by (simp add: lpLast_def pos_def add.assoc)
qed

lemma place_Some: "i < length cs \<Longrightarrow> place cs i = Some (pos (take i cs))" by (simp add: place_def)

lemma lpk_nextN_loop:
  "lp_inv n (xs @ c # ys) \<Longrightarrow>
   \<exists>v. lpNextN_loop (lpk n (xs @ c # ys) sl) (7 + length (body (xs @ c # ys))) (pos xs) w k =
     Some (map_option (\<lambda>p. (p, v)) (place (xs @ c # ys) (length xs + k)))"
proof (induction k arbitrary: xs c ys w)
  case 0
  show ?case by (rule exI[of _ w]) (simp add: place_def)
next
  case (Suc k)
  let ?m = "lpk n (xs @ c # ys) sl" and ?t = "7 + length (body (xs @ c # ys))"
  let ?p = "pos (xs @ [c])"
  have a: "lpAssertValidEntry ?m ?t ?p = Some ()" using lpk_assert[of n "xs @ [c]" ys sl] Suc.prems by simp
  have r: "6 \<le> ?p" "?p < ?t" using pos_ge[of xs] by (auto simp: pos_def)
  have v: "\<exists>v. (if ?p + 5 \<ge> ?t then do { lpAssertValidEntry ?m ?t ?p; Some True } else do { guard (?p \<ge> LP_HDR_SIZE \<and> ?p < ?t); Some False }) = Some v"
    using a r by auto
  then obtain v where v: "(if ?p + 5 \<ge> ?t then do { lpAssertValidEntry ?m ?t ?p; Some True } else do { guard (?p \<ge> LP_HDR_SIZE \<and> ?p < ?t); Some False }) = Some v"
    by blast
  have u: "lpNextN_loop ?m ?t (pos xs) w (Suc k) = do { e \<leftarrow> getb ?m ?p; if e = LP_EOF then Some None else lpNextN_loop ?m ?t ?p v k }"
    unfolding lpNextN_loop.simps lpk_skip[OF Suc.prems] bind.simps v ..
  show ?case
  proof (cases ys)
    case Nil
    have "getb ?m ?p = Some LP_EOF" using getb_eof[of n "xs @ [c]" sl] Nil by simp
    then show ?thesis unfolding u using Nil by (simp add: place_def)
  next
    case (Cons d zs)
    then have e: "xs @ c # ys = (xs @ [c]) @ d # zs" by simp
    have i: "lp_inv n ((xs @ [c]) @ d # zs)" using Suc.prems unfolding e .
    obtain v' where "lpNextN_loop ?m ?t ?p v k = Some (map_option (\<lambda>p. (p, v')) (place ((xs @ [c]) @ d # zs) (length (xs @ [c]) + k)))"
      using Suc.IH[OF i, of v] unfolding e by blast
    moreover have "getb ?m ?p = Some (hd d)" "hd d \<noteq> LP_EOF" using lpk_getb[OF i, of sl] unfolding e by auto
    ultimately show ?thesis unfolding u by (intro exI[of _ v']) (simp add: Cons)
  qed
qed

lemma inv_cut: "i < length cs \<Longrightarrow> cs = take i cs @ cs ! i # drop (Suc i) cs" by (simp add: id_take_nth_drop)

lemma place_cases: "place cs i = Some p \<Longrightarrow> \<exists>xs c ys. cs = xs @ c # ys \<and> length xs = i \<and> p = pos xs"
proof -
  assume p: "place cs i = Some p"
  then have i: "i < length cs" by (simp add: place_def split: if_splits)
  then have "length (take i cs) = i" "p = pos (take i cs)" using p by (simp_all add: place_def)
  then show ?thesis using inv_cut[OF i] by blast
qed

lemma lpk_assert_place: "lp_inv n cs \<Longrightarrow> place cs i = Some p \<Longrightarrow> lpAssertValidEntry (lpk n cs sl) (7 + length (body cs)) p = Some ()"
  using place_cases[of cs i p] lpk_assert by blast

lemma lpk_nextN:
  assumes "lp_inv n cs" "i < length cs"
  shows "lpNextN (lpk n cs sl) (Some (pos (take i cs))) k = Some (place cs (i + k))"
proof -
  let ?m = "lpk n cs sl"
  obtain xs c ys where c: "cs = xs @ c # ys" "length xs = i" "pos (take i cs) = pos xs"
    using inv_cut[OF assms(2)] assms(2) by (metis length_take min.absorb2 less_imp_le)
  obtain v where v: "lpNextN_loop ?m (7 + length (body cs)) (pos xs) True k = Some (map_option (\<lambda>p. (p, v)) (place cs (i + k)))"
    using lpk_nextN_loop[of n xs c ys sl True k] assms(1) c by auto
  show ?thesis using v lpk_bytes[OF assms(1), of sl] lpk_assert_place[OF assms(1), of "i + k" _ sl] c(3)
    by (cases "place cs (i + k)") (auto simp: lpNextN_def)
qed

lemma lpk_prevN_loop:
  "lp_inv n (xs @ ys) \<Longrightarrow> ys \<noteq> [] \<Longrightarrow>
   \<exists>v. lpPrevN_loop (lpk n (xs @ ys) sl) (7 + length (body (xs @ ys))) (pos xs) w k =
     Some (if k \<le> length xs then Some (pos (take (length xs - k) xs), v) else None)"
proof (induction k arbitrary: xs ys w)
  case 0
  show ?case by (rule exI[of _ w]) simp
next
  case (Suc k)
  show ?case
  proof (cases xs rule: rev_cases)
    case Nil
    then show ?thesis by simp
  next
    case (snoc us c)
    have i: "lp_inv n ((us @ [c]) @ ys)" using Suc.prems snoc by simp
    have ok: "enc_ok c" using i by (simp add: lp_inv_def)
    have "pos xs \<noteq> 6" using ent_ge2[OF ok] pos_ge[of us] snoc by simp
    moreover have "pos us < 7 + length (body (xs @ ys))" using snoc by (simp add: pos_def)
    moreover obtain v where "lpPrevN_loop (lpk n (us @ c # ys) sl) (7 + length (body (us @ c # ys))) (pos us) False k =
       Some (if k \<le> length us then Some (pos (take (length us - k) us), v) else None)"
      using Suc.IH[of us "c # ys" False] i by auto
    ultimately show ?thesis using lpk_skipprev[OF i, of sl] pos_ge[of us] snoc by (intro exI[of _ v]) simp
  qed
qed

lemma lpk_prevN:
  assumes "lp_inv n cs" "i < length cs"
  shows "lpPrevN (lpk n cs sl) (Some (pos (take i cs))) k = Some (if k \<le> i then Some (pos (take (i - k) cs)) else None)"
proof -
  let ?m = "lpk n cs sl"
  have e: "cs = take i cs @ drop i cs" "drop i cs \<noteq> []" "length (take i cs) = i" using assms(2) by auto
  have i: "lp_inv n (take i cs @ drop i cs)" using assms(1) by simp
  obtain v where v: "lpPrevN_loop ?m (7 + length (body cs)) (pos (take i cs)) True k =
      Some (if k \<le> i then Some (pos (take (i - k) (take i cs)), v) else None)"
    using lpk_prevN_loop[OF i e(2), of sl True k] unfolding e(3) append_take_drop_id by blast
  have t: "take (i - k) (take i cs) = take (i - k) cs" by simp
  have a: "lpAssertValidEntry ?m (7 + length (body cs)) (pos (take (i - k) cs)) = Some ()"
    using lpk_assert[of n "take (i - k) cs" "drop (i - k) cs" sl] assms(1) by simp
  show ?thesis using v a lpk_bytes[OF assms(1), of sl] unfolding t by (auto simp: lpPrevN_def)
qed

lemma lpk_num: "lp_inv n cs \<Longrightarrow> lpGetNumElements (lpk n cs sl) = Some (of_nat n) \<and> ((of_nat n :: u32) = LP_HDR_NUMELE_UNKNOWN \<longleftrightarrow> n = 65535)
    \<and> uint (of_nat n :: u32) = int n"
proof -
  assume "lp_inv n cs"
  then have n: "n \<le> 65535" by (auto simp: lp_inv_def)
  then have "uint (of_nat n :: u32) = int n" by (simp add: uint_nat unat_of_nat take_bit_nat_eq_self)
  then show ?thesis using num_hdr[OF n] num_unknown[OF n] unfolding lpk_def by blast
qed

lemma butlast_pos: "cs \<noteq> [] \<Longrightarrow> pos (butlast cs) = pos (take (length cs - 1) cs)"
  by (simp add: butlast_conv_take)

text \<open>\<open>lpSeek\<close> finds the element of an index, counted from either end.\<close>

lemma lpk_seek:
  assumes "lp_inv n cs"
  shows "lpSeek (lpk n cs sl) index = Some (if 0 \<le> index then place cs (nat index)
     else if - index \<le> int (length cs) then place cs (nat (int (length cs) + index)) else None)"
proof -
  let ?m = "lpk n cs sl" and ?l = "length cs"
  note num = lpk_num[OF assms, of sl]
  have fwd: "do { p \<leftarrow> lpFirst ?m; lpNextN ?m p k } = Some (place cs k)" for k
    using lpk_first[OF assms, of sl] lpk_nextN[OF assms, of 0 sl k] lpk_bytes[OF assms, of sl]
    by (cases cs) (auto simp: place_def lpNextN_def)
  have bwd: "do { p \<leftarrow> lpLast ?m; lpPrevN ?m p k } = Some (if k < ?l then place cs (?l - 1 - k) else None)" for k
  proof (cases "cs = []")
    case True
    then show ?thesis using lpk_last[OF assms, of sl] lpk_bytes[OF assms, of sl] by (simp add: lpPrevN_def)
  next
    case False
    then have "?l - 1 < ?l" by (cases cs) auto
    moreover have "k \<le> ?l - 1 \<longleftrightarrow> k < ?l" using False by (cases cs) auto
    ultimately show ?thesis
      using lpk_prevN[OF assms, of "?l - 1" sl k] lpk_last[OF assms, of sl] False by (auto simp: butlast_pos place_def)
  qed
  show ?thesis
  proof (cases "n = 65535")
    case True
    then show ?thesis using num fwd[of "nat index"] bwd[of "nat (- index - 1)"]
      by (auto simp: lpSeek_def nat_diff_distrib nat_add_distrib intro!: arg_cong[of _ _ "place cs"])
  next
    case False
    then have "n = ?l" using assms by (simp add: lp_inv_def)
    define j where "j = (if index < 0 then int ?l + index else index)"
    have "lpSeek ?m index = Some (if j < 0 \<or> j \<ge> int ?l then None
        else if j > int ?l div 2 then place cs (?l - 1 - nat (int ?l - j - 1)) else place cs (nat j))"
      using num False \<open>n = ?l\<close> fwd[of "nat j"] bwd[of "nat (int ?l - j - 1)"]
      by (auto simp: lpSeek_def Let_def j_def)
    moreover have "?l - 1 - nat (int ?l - j - 1) = nat j" if "0 \<le> j" "j < int ?l" using that by linarith
    ultimately have "lpSeek ?m index = Some (if j < 0 \<or> j \<ge> int ?l then None else place cs (nat j))" by simp
    then show ?thesis by (auto simp: j_def place_def)
  qed
qed

lemma lpk_scan:
  "lp_inv n (xs @ ys) \<Longrightarrow>
   lpLength_scan (lpk n (xs @ ys) sl) (place (xs @ ys) (length xs)) count = Some (count + of_nat (length ys))"
proof (induction ys arbitrary: xs count)
  case Nil
  show ?case by (subst lpLength_scan.simps) (simp add: place_def)
next
  case (Cons c ys)
  have "lpLength_scan (lpk n (xs @ c # ys) sl) (place (xs @ c # ys) (length (xs @ [c]))) (count + 1) = Some (count + 1 + of_nat (length ys))"
    using Cons.IH[of "xs @ [c]" "count + 1"] Cons.prems by simp
  then show ?case using lpk_next[OF Cons.prems, of sl]
    by (subst lpLength_scan.simps) (simp add: place_def add.assoc)
qed

lemma body_ge: "list_all enc_ok cs \<Longrightarrow> 2 * length cs \<le> length (body cs)"
proof (induction cs)
  case (Cons c cs)
  then show ?case using ent_ge2[of c] by simp
qed simp

lemma inv_len: "lp_inv n cs \<Longrightarrow> length cs < 2 ^ 31"
  using body_ge[of cs] by (simp add: lp_inv_def)

text \<open>\<open>lpLength\<close> counts the elements, and puts the count back into the header when it fits.\<close>

lemma lpk_length:
  assumes "lp_inv n cs"
  shows "\<exists>n'. lpLength (lpk n cs sl) = Some (of_nat (length cs), lpk n' cs sl) \<and> lp_inv n' cs
      \<and> (length cs < 65535 \<longrightarrow> n' = length cs)"
proof (cases "n = 65535")
  case False
  then have "n = length cs" using assms by (simp add: lp_inv_def)
  then show ?thesis using False lpk_num[OF assms, of sl] assms by (intro exI[of _ n]) (simp add: lpLength_def)
next
  case True
  have s: "lpLength_scan (lpk n cs sl) (place cs 0) 0 = Some (of_nat (length cs))"
    using lpk_scan[of n "[]" cs sl 0] assms by simp
  have l: "unat (of_nat (length cs) :: u32) = length cs" using inv_len[OF assms] by (simp add: unat_of_nat take_bit_nat_eq_self)
  have e: "lpLength (lpk n cs sl) = (if length cs < 65535 then do { lp \<leftarrow> lpSetNumElements (lpk n cs sl) (of_nat (length cs)); Some (of_nat (length cs), lp) }
      else Some (of_nat (length cs), lpk n cs sl))"
  proof -
    have "ucast (of_nat (length cs) :: u32) = (of_nat (length cs) :: u64)"
      using inv_len[OF assms] by (intro conjunct1[OF u64_of_size]) simp
    then show ?thesis using True lpk_num[OF assms, of sl] lpk_first[OF assms, of sl] s
      by (simp add: lpLength_def word_less_nat_alt l)
  qed
  show ?thesis
  proof (cases "length cs < 65535")
    case True
    then show ?thesis using e assms by (intro exI[of _ "length cs"]) (simp add: lpk_def lp_inv_def)
  next
    case False
    then show ?thesis using e assms by (intro exI[of _ n]) simp
  qed
qed

section \<open>Elements: encoding and value\<close>

text \<open>What an encoding stands for: an integer or a string; and its text.\<close>

datatype elem = EInt i64 | EStr mem

definition evalue :: "mem \<Rightarrow> elem" where
  "evalue c = (case lpGetWithBuf c 0 None of Some (PStr off n) \<Rightarrow> EStr (take n (drop off c)) | Some (PInt v) \<Rightarrow> EInt v | _ \<Rightarrow> EStr [])"

definition etext :: "mem \<Rightarrow> mem" where
  "etext c = (case evalue c of EInt v \<Rightarrow> idec (sint v) | EStr s \<Rightarrow> s)"

lemma lpString_loop: "lpStringToInt64_loop v p = string2ll_loop v p"
  by (induction v p rule: string2ll_loop.induct) (auto simp: Let_def)

text \<open>The two readers of integers in the library are the same function.\<close>

lemma lpStringToInt64_string2ll: "lpStringToInt64 s = string2ll s"
  unfolding lpStringToInt64_def string2ll_def lpString_loop ..

definition lp_str_bytes :: "mem \<Rightarrow> mem" where
  "lp_str_bytes s =
     (let len = of_nat (length s) :: u32 in
      if len < 64 then ucast (len OR 0x80) # s
      else if len < 4096 then ucast (drop_bit 8 len OR 0xE0) # ucast (len AND 255) # s
      else 0xF0 # ucast (len AND 255) # ucast (drop_bit 8 len AND 255) # ucast (drop_bit 16 len AND 255) # ucast (drop_bit 24 len AND 255) # s)"

definition lp_bytes :: "mem \<Rightarrow> mem" where
  "lp_bytes s = (case lpStringToInt64 s of Some v \<Rightarrow> lpEncodeIntegerGetType v | None \<Rightarrow> lp_str_bytes s)"

lemma setb_wr: "setb m i b = wr m i [b]"
  by (simp add: setb_def wr_def patch_def upd_conv_take_nth_drop)

lemma patch_patch: "d + length a + length b \<le> length m \<Longrightarrow> patch (patch m d a) (d + length a) b = patch m d (a @ b)"
  by (simp add: patch_def ac_simps)

lemma wr_wr: "Option.bind (wr m d a) (\<lambda>m. wr m (d + length a) b) = wr m d (a @ b)"
  by (auto simp: wr_def patch_patch split: bind_splits)

lemma wr_wr_Cons: "Option.bind (setb m d a) (\<lambda>m. wr m (Suc d) b) = wr m d (a # b)"
  using wr_wr[of m d "[a]" b] by (simp add: setb_wr)

lemma wr_steps:
  "Option.bind (setb m dst a) (\<lambda>m. wr m (dst + 1) b) = wr m dst (a # b)"
  "Option.bind (setb m (dst + 1) a) (\<lambda>m. wr m (dst + 2) b) = wr m (dst + 1) (a # b)"
  "Option.bind (setb m (dst + 2) a) (\<lambda>m. wr m (dst + 3) b) = wr m (dst + 2) (a # b)"
  "Option.bind (setb m (dst + 3) a) (\<lambda>m. wr m (dst + 4) b) = wr m (dst + 3) (a # b)"
  "Option.bind (setb m (dst + 4) a) (\<lambda>m. wr m (dst + 5) b) = wr m (dst + 4) (a # b)"
  using wr_wr_Cons[of m dst a b] wr_wr_Cons[of m "dst + 1" a b] wr_wr_Cons[of m "dst + 2" a b]
    wr_wr_Cons[of m "dst + 3" a b] wr_wr_Cons[of m "dst + 4" a b]
  by (simp_all add: numeral_eq_Suc)

lemma lpEncodeString_wr: "lpEncodeString m dst s = wr m dst (lp_str_bytes s)"
  by (simp only: lpEncodeString_def lp_str_bytes_def Let_def wr_steps split: if_split) simp

text \<open>The tests of the first byte are exclusive.\<close>

definition kinds_ok :: "byte \<Rightarrow> bool" where
  "kinds_ok e \<longleftrightarrow> (LP_ENCODING_IS_7BIT_UINT e = (ekind e = K7)) \<and> (LP_ENCODING_IS_6BIT_STR e = (ekind e = K6S)) \<and>
     (LP_ENCODING_IS_13BIT_INT e = (ekind e = K13)) \<and> (LP_ENCODING_IS_12BIT_STR e = (ekind e = K12S)) \<and> ((e = 0xF0) = (ekind e = K32S)) \<and>
     ((e = 0xF1) = (ekind e = K16)) \<and> ((e = 0xF2) = (ekind e = K24)) \<and> ((e = 0xF3) = (ekind e = K32)) \<and> ((e = 0xF4) = (ekind e = K64))"

lemma kinds_ok: "kinds_ok e" by (rule all_bytes) code_simp

lemmas kind_tests = kinds_ok[unfolded kinds_ok_def]

definition first_ok :: "byte \<Rightarrow> bool" where
  "first_ok x \<longleftrightarrow> (x < 128 \<longrightarrow> ekind x = K7 \<and> x AND 0x7F = x) \<and> (x < 64 \<longrightarrow> ekind (x OR 0x80) = K6S \<and> (x OR 0x80) AND 0x3F = x) \<and>
     (x < 32 \<longrightarrow> ekind (x OR 0xC0) = K13 \<and> (x OR 0xC0) AND 0x1F = x) \<and> (x < 16 \<longrightarrow> ekind (x OR 0xE0) = K12S \<and> (x OR 0xE0) AND 0xF = x)"

lemma first_ok: "first_ok x" by (rule all_bytes) code_simp

lemma ekind_eof [simp]: "ekind LP_EOF = KEof" by (simp add: kind_Eof)

lemma get_kind: "lpGetWithBuf lp p None = do { e \<leftarrow> getb lp p; case ekind e of
      K6S \<Rightarrow> map_option (\<lambda>n. PStr (p + 1) (unat n)) (LP_ENCODING_6BIT_STR_LEN lp p)
    | K12S \<Rightarrow> map_option (\<lambda>n. PStr (p + 2) (unat n)) (LP_ENCODING_12BIT_STR_LEN lp p)
    | K32S \<Rightarrow> map_option (\<lambda>n. PStr (p + 5) (unat n)) (LP_ENCODING_32BIT_STR_LEN lp p)
    | K7 \<Rightarrow> Some (PInt (lp_signed (ucast (e AND 0x7F)) (- 1) 0))
    | K13 \<Rightarrow> map_option (\<lambda>b. PInt (lp_signed (push_bit 8 (ucast (e AND 0x1F)) OR ucast b) (push_bit 12 1) 8191)) (getb lp (p + 1))
    | K16 \<Rightarrow> map_option (\<lambda>u. PInt (lp_signed u (push_bit 15 1) 0xFFFF)) (le16_at lp p)
    | K24 \<Rightarrow> map_option (\<lambda>u. PInt (lp_signed u (push_bit 23 1) (drop_bit 8 0xFFFFFFFF))) (le24_at lp p)
    | K32 \<Rightarrow> map_option (\<lambda>u. PInt (lp_signed u (push_bit 31 1) 0xFFFFFFFF)) (le32_at lp p)
    | K64 \<Rightarrow> map_option (\<lambda>u. PInt (lp_signed u (push_bit 63 1) (- 1))) (le64_at lp p)
    | _ \<Rightarrow> Some (PInt (lp_signed (12345678900000000 + ucast e) (- 1) 0)) }"
proof (cases "getb lp p")
  case (Some e)
  have k: "LP_ENCODING_IS_7BIT_UINT e = (ekind e = K7)" "LP_ENCODING_IS_6BIT_STR e = (ekind e = K6S)"
     "LP_ENCODING_IS_13BIT_INT e = (ekind e = K13)" "LP_ENCODING_IS_12BIT_STR e = (ekind e = K12S)" "(e = 0xF0) = (ekind e = K32S)"
     "(e = 0xF1) = (ekind e = K16)" "(e = 0xF2) = (ekind e = K24)" "(e = 0xF3) = (ekind e = K32)" "(e = 0xF4) = (ekind e = K64)"
    using kind_tests[of e] by simp_all
  show ?thesis unfolding lpGetWithBuf_def Some bind.simps k lp_deliver_def
    by (cases "ekind e") (simp_all add: map_conv_bind_option comp_def split: bind_split)
qed (simp add: lpGetWithBuf_def)

lemma ucast_or: "(ucast (a OR b :: 'a :: len word) :: 'b :: len word) = ucast a OR ucast b"
  by (rule bit_word_eqI) (auto simp: bits)

lemma byte_field: "(ucast (ucast (x :: 'a :: len word) :: byte) :: 'a word) = take_bit 8 x"
  by (rule bit_word_eqI) (auto simp: bits)

lemma take_bit_small: "unat (x :: 'a :: len word) < 2 ^ k \<Longrightarrow> take_bit k x = x"
  by (simp add: word_unat_eq_iff unsigned_take_bit_eq take_bit_nat_eq_self)

lemma ucast_byte_small: "unat (x :: 'a :: len word) < 2 ^ k \<Longrightarrow> k \<le> 8 \<Longrightarrow> unat (ucast x :: byte) = unat x"
proof -
  assume "unat x < 2 ^ k" "k \<le> 8"
  then have "unat x < 2 ^ 8" using power_increasing[of k 8 "2 :: nat"] by linarith
  then show ?thesis by (simp add: unsigned_ucast_eq take_bit_nat_eq_self)
qed

lemma len_le32: "le32 (ucast (v AND 255)) (ucast (drop_bit 8 v AND 255)) (ucast (drop_bit 16 v AND 255)) (ucast (drop_bit 24 v AND 255)) = (v :: u32)"
proof -
  have "ucast (drop_bit k v) = (ucast (drop_bit k (ucast v :: u64)) :: byte)" for k
    by (rule bit_word_eqI) (auto simp: bits dest: bit_imp_le_length)
  moreover have "(ucast v :: byte) = ucast (ucast v :: u64)" by (rule bit_word_eqI) (auto simp: bits)
  moreover have "(ucast (ucast v :: u64) :: u32) = v" by (rule bit_word_eqI) (auto simp: bits)
  ultimately show ?thesis using le32_bytes[of "ucast v"] by (simp add: byte_and_255)
qed

lemma getb_here [simp]: "getb (a # r) 0 = Some a" "getb (a # b # r) 1 = Some b" "getb (a # b # r) (Suc 0) = Some b"
  "getb (a # b # c # r) 2 = Some c" "getb (a # b # c # d # r) 3 = Some d" "getb (a # b # c # d # e # r) 4 = Some e"
  by (simp_all add: getb_def numeral_eq_Suc)

lemma enc_okI: "ekind e \<noteq> KEof \<Longrightarrow> Suc (length r) < 2 ^ 32 \<Longrightarrow> lpCurrentEncodedSizeUnsafe (e # r) 0 = Some (1 + of_nat (length r)) \<Longrightarrow> enc_ok (e # r)"
  by (auto simp: enc_ok_def)

lemma evalue_str: "lpGetWithBuf c 0 None = Some (PStr k (length s)) \<Longrightarrow> drop k c = s \<Longrightarrow> evalue c = EStr s"
  by (simp add: evalue_def)

text \<open>Strings: the length announced is the length, and the bytes come back.\<close>

lemma str_bytes_ok:
  assumes "length s + 5 < 2 ^ 32"
  shows "enc_ok (lp_str_bytes s) \<and> evalue (lp_str_bytes s) = EStr s"
proof -
  define len where "len = (of_nat (length s) :: u32)"
  have u: "unat len = length s" unfolding len_def using assms by (simp add: unat_of_nat take_bit_nat_eq_self)
  consider "len < 64" | "\<not> len < 64" "len < 4096" | "\<not> len < 64" "\<not> len < 4096" by blast
  then show ?thesis
  proof cases
    case 1
    then have b: "unat len < 2 ^ 6" by (simp add: word_less_nat_alt)
    then have x: "(ucast len :: byte) < 64" using ucast_byte_small[of len 6] by (simp add: word_less_nat_alt)
    then have k: "ekind (ucast len OR 0x80) = K6S" "(ucast len OR 0x80) AND 0x3F = (ucast len :: byte)"
      using first_ok[of "ucast len"] by (simp_all add: first_ok_def)
    have r: "ucast (ucast len :: byte) = len" using byte_field[of len] take_bit_small[of len 8] b by simp
    have e: "lp_str_bytes s = (ucast len OR 0x80) # s" using 1 by (simp add: lp_str_bytes_def Let_def len_def[symmetric] ucast_or)
    have l: "LP_ENCODING_6BIT_STR_LEN ((ucast len OR 0x80) # s) 0 = Some len" using k(2) r by (simp add: LP_ENCODING_6BIT_STR_LEN_def)
    have "enc_ok (lp_str_bytes s)" unfolding e
      by (rule enc_okI) (use assms in \<open>simp_all add: k(1) encsize_kind l len_def[symmetric]\<close>)
    moreover have "evalue (lp_str_bytes s) = EStr s" unfolding e
      by (rule evalue_str[where k = 1]) (simp_all add: get_kind k(1) l u)
    ultimately show ?thesis by simp
  next
    case 2
    then have b: "unat len < 2 ^ 12" by (simp add: word_less_nat_alt)
    then have d: "unat (drop_bit 8 len) < 2 ^ 4" by (simp add: unat_drop_bit_eq drop_bit_nat_def)
    then have x: "(ucast (drop_bit 8 len) :: byte) < 16" using ucast_byte_small[of "drop_bit 8 len" 4] by (simp add: word_less_nat_alt)
    then have k: "ekind (ucast (drop_bit 8 len) OR 0xE0) = K12S" "(ucast (drop_bit 8 len) OR 0xE0) AND 0xF = (ucast (drop_bit 8 len) :: byte)"
      using first_ok[of "ucast (drop_bit 8 len)"] by (simp_all add: first_ok_def)
    have r: "push_bit 8 (ucast (ucast (drop_bit 8 len) :: byte)) OR ucast (ucast len :: byte) = len"
    proof -
      have "ucast (ucast (drop_bit 8 len) :: byte) = drop_bit 8 len" using byte_field[of "drop_bit 8 len"] take_bit_small[of "drop_bit 8 len" 8] d by simp
      then show ?thesis unfolding byte_field by (intro bit_word_eqI) (auto simp: bit_or_iff bit_push_drop bit_take_bit_iff)
    qed
    have e: "lp_str_bytes s = (ucast (drop_bit 8 len) OR 0xE0) # ucast len # s"
      using 2 by (simp add: lp_str_bytes_def Let_def len_def[symmetric] ucast_or byte_and_255)
    have l: "LP_ENCODING_12BIT_STR_LEN ((ucast (drop_bit 8 len) OR 0xE0) # ucast len # s) 0 = Some len"
      using k(2) r by (simp add: LP_ENCODING_12BIT_STR_LEN_def)
    have "enc_ok (lp_str_bytes s)" unfolding e
      by (rule enc_okI) (use assms in \<open>simp_all add: k(1) encsize_kind l len_def[symmetric]\<close>)
    moreover have "evalue (lp_str_bytes s) = EStr s" unfolding e
      by (rule evalue_str[where k = 2]) (simp_all add: get_kind k(1) l u)
    ultimately show ?thesis by simp
  next
    case 3
    have k: "ekind 0xF0 = K32S" using kind_tests[of "0xF0"] by simp
    define h where "h = ([ucast (len AND 255), ucast (drop_bit 8 len AND 255), ucast (drop_bit 16 len AND 255), ucast (drop_bit 24 len AND 255)] :: mem)"
    have e: "lp_str_bytes s = 0xF0 # h @ s" using 3 by (simp add: lp_str_bytes_def Let_def len_def[symmetric] h_def)
    have l: "LP_ENCODING_32BIT_STR_LEN (0xF0 # h @ s) 0 = Some len"
      using len_le32[of len] by (simp add: LP_ENCODING_32BIT_STR_LEN_def h_def)
    have h: "length h = 4" by (simp add: h_def)
    have "enc_ok (lp_str_bytes s)" unfolding e
      by (rule enc_okI) (use assms in \<open>simp_all add: k encsize_kind l h len_def[symmetric]\<close>)
    moreover have "evalue (lp_str_bytes s) = EStr s" unfolding e
      by (rule evalue_str[where k = 5]) (simp_all add: get_kind k l u h)
    ultimately show ?thesis by simp
  qed
qed

text \<open>Integers of \<open>k\<close> bits in two's complement.\<close>

lemma uint_exp: "j < 64 \<Longrightarrow> uint (push_bit j 1 :: u64) = 2 ^ j"
proof -
  assume "j < 64"
  then have "(2 :: int) ^ j < 2 ^ 64" by (intro power_strict_increasing) auto
  moreover have "(push_bit j 1 :: u64) = word_of_int (2 ^ j)" by (simp add: push_bit_eq_mult)
  ultimately show ?thesis by (simp only: uint_word_of_int) (simp add: mod_pos_pos_trivial)
qed

lemma sext:
  assumes "0 < k" "k < 63" "- (2 ^ (k - 1)) \<le> sint v" "sint v < 2 ^ (k - 1)"
  defines "w \<equiv> (if v <s 0 then push_bit k 1 + v else v :: i64)"
  shows "unat w < 2 ^ k \<and> lp_signed w (push_bit (k - 1) 1) (push_bit k 1 - 1) = v"
proof -
  have k: "(2 :: int) ^ k = 2 * 2 ^ (k - 1)" using assms(1) by (cases k) auto
  have b: "(2 :: int) ^ k \<le> 2 ^ 62" using assms(2) by (intro power_increasing) auto
  have p: "uint (push_bit (k - 1) 1 :: u64) = 2 ^ (k - 1)"
    using assms(2) by (intro uint_exp) simp
  have v: "v = word_of_int (sint v)" by simp
  have ww: "w = word_of_int (if v <s 0 then 2 ^ k + sint v else sint v)" unfolding w_def
    by (cases "v <s 0") (simp_all add: push_bit_eq_mult)
  have r: "0 \<le> (if v <s 0 then 2 ^ k + sint v else sint v)" "(if v <s 0 then 2 ^ k + sint v else sint v) < 2 ^ k"
    using assms(3,4) k by (auto simp: sslt_iff)
  have u: "uint w = (if v <s 0 then 2 ^ k + sint v else sint v)"
    unfolding ww uint_word_of_int using r b by (intro mod_pos_pos_trivial) auto
  have "int (unat w) < int (2 ^ k)" using r(2) unfolding u[symmetric] by simp
  then have "unat w < 2 ^ k" by (simp only: of_nat_less_iff)
  moreover have "w \<ge> push_bit (k - 1) 1 \<longleftrightarrow> v <s 0"
    using u p assms(3,4) k by (auto simp: word_le_def sslt_iff)
  moreover have "- (push_bit k 1 - 1 - w) - 1 = w - push_bit k 1" by simp
  moreover have "v <s 0 \<Longrightarrow> w - push_bit k 1 = v" "\<not> v <s 0 \<Longrightarrow> w = v" by (simp_all add: w_def)
  ultimately show ?thesis by (auto simp: lp_signed_def)
qed

lemma bytes_join:
  "take_bit 8 w OR push_bit 8 (take_bit 8 (drop_bit 8 w)) = (take_bit 16 w :: u64)"
  "take_bit 16 w OR push_bit 16 (take_bit 8 (drop_bit 16 w)) = (take_bit 24 w :: u64)"
  "take_bit 24 w OR push_bit 24 (take_bit 8 (drop_bit 24 w)) = (take_bit 32 w :: u64)"
  "take_bit 32 w OR push_bit 32 (take_bit 8 (drop_bit 32 w)) OR push_bit 40 (take_bit 8 (drop_bit 40 w))
     OR push_bit 48 (take_bit 8 (drop_bit 48 w)) OR push_bit 56 (take_bit 8 (drop_bit 56 w)) = (w :: u64)"
  by (rule bit_word_eqI, auto simp: bit_or_iff bit_push_take_drop bit_take_bit_iff)+

lemma join16: "unat (w :: u64) < 2 ^ 16 \<Longrightarrow> push_bit 8 (ucast (ucast (drop_bit 8 w) :: byte)) OR ucast (ucast w :: byte) = w"
proof -
  assume "unat w < 2 ^ 16"
  then have "take_bit 16 w = w" by (rule take_bit_small)
  then show ?thesis unfolding byte_field using bytes_join(1)[of w] by (simp add: or.commute)
qed

lemma evalue_int: "lpGetWithBuf c 0 None = Some (PInt v) \<Longrightarrow> evalue c = EInt v"
  by (simp add: evalue_def)

lemma at_bytes: "le16_at (e # ucast w # ucast (drop_bit 8 w) # r) 0 = Some (take_bit 16 (w :: u64))"
   "le24_at (e # ucast w # ucast (drop_bit 8 w) # ucast (drop_bit 16 w) # r) 0 = Some (take_bit 24 (w :: u64))"
   "le32_at (e # ucast w # ucast (drop_bit 8 w) # ucast (drop_bit 16 w) # ucast (drop_bit 24 w) # r) 0 = Some (take_bit 32 (w :: u64))"
   "le64_at (e # ucast w # ucast (drop_bit 8 w) # ucast (drop_bit 16 w) # ucast (drop_bit 24 w) #
      [ucast (drop_bit 32 w), ucast (drop_bit 40 w), ucast (drop_bit 48 w), ucast (drop_bit 56 w)]) 0 = Some w"
proof -
  have 16: "le16_at (e # ucast w # ucast (drop_bit 8 w) # r) 0 = Some (take_bit 16 w)" for r
    using bytes_join(1)[of w] by (simp add: le16_at_def u64_at_def byte_field)
  have 24: "le24_at (e # ucast w # ucast (drop_bit 8 w) # ucast (drop_bit 16 w) # r) 0 = Some (take_bit 24 w)" for r
    using bytes_join(2)[of w] by (simp add: le24_at_def 16 u64_at_def byte_field)
  have 32: "le32_at (e # ucast w # ucast (drop_bit 8 w) # ucast (drop_bit 16 w) # ucast (drop_bit 24 w) # r) 0 = Some (take_bit 32 w)" for r
    using bytes_join(3)[of w] by (simp add: le32_at_def 24 u64_at_def byte_field)
  show "le16_at (e # ucast w # ucast (drop_bit 8 w) # r) 0 = Some (take_bit 16 w)"
    "le24_at (e # ucast w # ucast (drop_bit 8 w) # ucast (drop_bit 16 w) # r) 0 = Some (take_bit 24 w)"
    "le32_at (e # ucast w # ucast (drop_bit 8 w) # ucast (drop_bit 16 w) # ucast (drop_bit 24 w) # r) 0 = Some (take_bit 32 w)"
    by (rule 16, rule 24, rule 32)
  show "le64_at (e # ucast w # ucast (drop_bit 8 w) # ucast (drop_bit 16 w) # ucast (drop_bit 24 w) #
      [ucast (drop_bit 32 w), ucast (drop_bit 40 w), ucast (drop_bit 48 w), ucast (drop_bit 56 w)]) 0 = Some w"
    using bytes_join(4)[of w] by (simp add: le64_at_def 32 u64_at_def byte_field getb_def)
qed

lemma kind_consts: "ekind 0xF1 = K16" "ekind 0xF2 = K24" "ekind 0xF3 = K32" "ekind 0xF4 = K64"
  using kind_tests[of "0xF1"] kind_tests[of "0xF2"] kind_tests[of "0xF3"] kind_tests[of "0xF4"] by simp_all

text \<open>Integers: every 64-bit value is read back.\<close>

lemma int_bytes_ok: "enc_ok (lpEncodeIntegerGetType v) \<and> evalue (lpEncodeIntegerGetType v) = EInt v"
proof -
  consider (1) "0 \<le> sint v" "sint v \<le> 127"
    | (2) "\<not> (0 \<le> sint v \<and> sint v \<le> 127)" "- (2 ^ 12) \<le> sint v" "sint v < 2 ^ 12"
    | (3) "\<not> (- (2 ^ 12) \<le> sint v \<and> sint v < 2 ^ 12)" "- (2 ^ 15) \<le> sint v" "sint v < 2 ^ 15"
    | (4) "\<not> (- (2 ^ 15) \<le> sint v \<and> sint v < 2 ^ 15)" "- (2 ^ 23) \<le> sint v" "sint v < 2 ^ 23"
    | (5) "\<not> (- (2 ^ 23) \<le> sint v \<and> sint v < 2 ^ 23)" "- (2 ^ 31) \<le> sint v" "sint v < 2 ^ 31"
    | (6) "\<not> (- (2 ^ 31) \<le> sint v \<and> sint v < 2 ^ 31)" by linarith
  then show ?thesis
  proof cases
    case 1
    then have "\<not> v <s 0" by (simp add: sslt_iff)
    then have "unat v < 2 ^ 7" using 1 unat_nonneg[of v] by simp
    then have "(ucast v :: byte) < 128" "ucast (ucast v :: byte) = v"
      using ucast_byte_small[of v 7] byte_field[of v] take_bit_small[of v 8] by (simp_all add: word_less_nat_alt)
    then have k: "ekind (ucast v) = K7" "ucast (ucast v AND 0x7F :: byte) = v" using first_ok[of "ucast v"] by (simp_all add: first_ok_def)
    have e: "lpEncodeIntegerGetType v = [ucast v]" using 1 by (simp add: lpEncodeIntegerGetType_def)
    have "lp_signed v (- 1) 0 = v"
      using \<open>unat v < 2 ^ 7\<close> by (auto simp: lp_signed_def word_le_nat_alt unat_max)
    then show ?thesis unfolding e using k by (auto intro!: enc_okI evalue_int simp: encsize_kind get_kind)
  next
    case 2
    define w where "w = (if v <s 0 then push_bit 13 1 + v else v)"
    have s: "unat w < 2 ^ 13" "lp_signed w (push_bit 12 1) 8191 = v" using sext[of 13 v] 2 by (simp_all add: w_def)
    have d: "unat (drop_bit 8 w) < 2 ^ 5" using s(1) by (simp add: unat_drop_bit_eq drop_bit_nat_def)
    then have x: "(ucast (drop_bit 8 w) :: byte) < 32" using ucast_byte_small[of "drop_bit 8 w" 5] by (simp add: word_less_nat_alt)
    then have k: "ekind (ucast (drop_bit 8 w) OR 0xC0) = K13" "(ucast (drop_bit 8 w) OR 0xC0) AND 0x1F = (ucast (drop_bit 8 w) :: byte)"
      using first_ok[of "ucast (drop_bit 8 w)"] by (simp_all add: first_ok_def)
    have j: "push_bit 8 (ucast (ucast (drop_bit 8 w) :: byte)) OR ucast (ucast w :: byte) = w" using join16[of w] s(1) by simp
    have n: "\<not> (0 \<le> sint v \<and> sint v \<le> 127)" using 2 by (simp; linarith)+
    have y: "- 4096 \<le> sint v \<and> sint v \<le> 4095" using 2 by (simp; linarith)
    have e: "lpEncodeIntegerGetType v = [ucast (drop_bit 8 w) OR 0xC0, ucast w]"
      unfolding lpEncodeIntegerGetType_def if_not_P[OF n] if_P[OF y] by (simp add: Let_def w_def[symmetric] ucast_or byte_and_255)
    show ?thesis unfolding e using k j s(2) by (auto intro!: enc_okI evalue_int simp: encsize_kind get_kind)
  next
    case 3
    define w where "w = (if v <s 0 then push_bit 16 1 + v else v)"
    have s: "unat w < 2 ^ 16" "lp_signed w (push_bit 15 1) 0xFFFF = v" using sext[of 16 v] 3 by (simp_all add: w_def)
    have n: "\<not> (0 \<le> sint v \<and> sint v \<le> 127)" "\<not> (- 4096 \<le> sint v \<and> sint v \<le> 4095)" using 3 by (simp; linarith)+
    have y: "- 32768 \<le> sint v \<and> sint v \<le> 32767" using 3 by (simp; linarith)
    have e: "lpEncodeIntegerGetType v = 0xF1 # ucast w # ucast (drop_bit 8 w) # []"
      unfolding lpEncodeIntegerGetType_def if_not_P[OF n(1)] if_not_P[OF n(2)] if_P[OF y] by (simp add: Let_def w_def[symmetric] ucast_or byte_and_255)
    show ?thesis unfolding e using s(2) take_bit_small[OF s(1)]
      by (auto intro!: enc_okI evalue_int simp: encsize_kind get_kind kind_consts at_bytes)
  next
    case 4
    define w where "w = (if v <s 0 then push_bit 24 1 + v else v)"
    have s: "unat w < 2 ^ 24" "lp_signed w (push_bit 23 1) 0xFFFFFF = v" using sext[of 24 v] 4 by (simp_all add: w_def)
    have n: "\<not> (0 \<le> sint v \<and> sint v \<le> 127)" "\<not> (- 4096 \<le> sint v \<and> sint v \<le> 4095)" "\<not> (- 32768 \<le> sint v \<and> sint v \<le> 32767)" using 4 by (simp; linarith)+
    have y: "- 8388608 \<le> sint v \<and> sint v \<le> 8388607" using 4 by (simp; linarith)
    have e: "lpEncodeIntegerGetType v = 0xF2 # ucast w # ucast (drop_bit 8 w) # ucast (drop_bit 16 w) # []"
      unfolding lpEncodeIntegerGetType_def if_not_P[OF n(1)] if_not_P[OF n(2)] if_not_P[OF n(3)] if_P[OF y] by (simp add: Let_def w_def[symmetric] ucast_or byte_and_255)
    have c: "(drop_bit 8 0xFFFFFFFF :: u64) = 0xFFFFFF" by code_simp
    show ?thesis unfolding e using s(2) take_bit_small[OF s(1)]
      by (auto intro!: enc_okI evalue_int simp: encsize_kind get_kind kind_consts at_bytes c)
  next
    case 5
    define w where "w = (if v <s 0 then push_bit 32 1 + v else v)"
    have s: "unat w < 2 ^ 32" "lp_signed w (push_bit 31 1) 0xFFFFFFFF = v" using sext[of 32 v] 5 by (simp_all add: w_def)
    have n: "\<not> (0 \<le> sint v \<and> sint v \<le> 127)" "\<not> (- 4096 \<le> sint v \<and> sint v \<le> 4095)" "\<not> (- 32768 \<le> sint v \<and> sint v \<le> 32767)" "\<not> (- 8388608 \<le> sint v \<and> sint v \<le> 8388607)" using 5 by (simp; linarith)+
    have y: "- 2147483648 \<le> sint v \<and> sint v \<le> 2147483647" using 5 by (simp; linarith)
    have e: "lpEncodeIntegerGetType v = 0xF3 # ucast w # ucast (drop_bit 8 w) # ucast (drop_bit 16 w) # ucast (drop_bit 24 w) # []"
      unfolding lpEncodeIntegerGetType_def if_not_P[OF n(1)] if_not_P[OF n(2)] if_not_P[OF n(3)] if_not_P[OF n(4)] if_P[OF y] by (simp add: Let_def w_def[symmetric] ucast_or byte_and_255)
    show ?thesis unfolding e using s(2) take_bit_small[OF s(1)]
      by (auto intro!: enc_okI evalue_int simp: encsize_kind get_kind kind_consts at_bytes)
  next
    case 6
    have n: "\<not> (0 \<le> sint v \<and> sint v \<le> 127)" "\<not> (- 4096 \<le> sint v \<and> sint v \<le> 4095)" "\<not> (- 32768 \<le> sint v \<and> sint v \<le> 32767)" "\<not> (- 8388608 \<le> sint v \<and> sint v \<le> 8388607)" "\<not> (- 2147483648 \<le> sint v \<and> sint v \<le> 2147483647)" using 6 by (simp; linarith)+
    have e: "lpEncodeIntegerGetType v = 0xF4 # ucast v # ucast (drop_bit 8 v) # ucast (drop_bit 16 v) # ucast (drop_bit 24 v) #
        [ucast (drop_bit 32 v), ucast (drop_bit 40 v), ucast (drop_bit 48 v), ucast (drop_bit 56 v)]"
      unfolding lpEncodeIntegerGetType_def if_not_P[OF n(1)] if_not_P[OF n(2)] if_not_P[OF n(3)] if_not_P[OF n(4)] if_not_P[OF n(5)] by (simp add: Let_def ucast_or byte_and_255)
    have "lp_signed v (push_bit 63 1) (- 1) = v" by (simp add: lp_signed_def)
    then have "lpGetWithBuf (lpEncodeIntegerGetType v) 0 None = Some (PInt v)" unfolding e get_kind
      using at_bytes(4)[of "0xF4" v] kind_consts(4) by simp
    moreover have "enc_ok (lpEncodeIntegerGetType v)" unfolding e by (rule enc_okI) (simp_all add: encsize_kind kind_consts)
    ultimately show ?thesis by (simp add: evalue_int)
  qed
qed

text \<open>Whatever string is stored, its text comes back; integers are stored as integers.\<close>

lemma lp_bytes_ok:
  assumes "length s + 5 < 2 ^ 32"
  shows "enc_ok (lp_bytes s)" "etext (lp_bytes s) = s"
    "evalue (lp_bytes s) = (case lpStringToInt64 s of Some v \<Rightarrow> EInt v | None \<Rightarrow> EStr s)"
proof -
  show "enc_ok (lp_bytes s)" "evalue (lp_bytes s) = (case lpStringToInt64 s of Some v \<Rightarrow> EInt v | None \<Rightarrow> EStr s)"
    using str_bytes_ok[OF assms] int_bytes_ok by (auto simp: lp_bytes_def split: option.splits)
  then show "etext (lp_bytes s) = s"
    using string2ll_canonical[of s] by (auto simp: etext_def lpStringToInt64_string2ll split: option.splits)
qed

lemma int_text: "etext (lpEncodeIntegerGetType v) = idec (sint v)" using int_bytes_ok[of v] by (simp add: etext_def)

end
