(* ===== verification/ListpackOps.thy ===== *)
theory ListpackOps
  imports ListpackRep
begin

text \<open>
  The operations on listpacks implement the operations on lists of elements: insertion, replacement, deletion of
  one element, of a range and of a set of elements, batches, new blocks, merging, searching and validating.

  Every lemma starts from a block \<open>lpk n cs slack\<close> with the invariant \<open>lp_inv n cs\<close> and says that the operation does
  not leave the block, ends, and yields the block of the new list.
\<close>

section \<open>Insertion\<close>

lemma zrealloc_keep: "k \<le> length m \<Longrightarrow> k \<le> n \<Longrightarrow> take k (zrealloc f m n) = take k m"
  by (simp add: zrealloc_def)

lemma zrealloc_shrink: "n \<le> length m \<Longrightarrow> zrealloc f m n = take n m"
  by (simp add: zrealloc_def)

text \<open>The moves of an insertion: the bytes \<open>R\<close> make room for \<open>k\<close> bytes before \<open>T\<close>.\<close>

definition resize_up :: "allocator \<Rightarrow> mem \<Rightarrow> nat \<Rightarrow> nat \<Rightarrow> mem option" where
  "resize_up a m new old = (if new > old \<and> new > zmalloc_usable_size m then lp_realloc a m new else Some m)"

definition resize_down :: "allocator \<Rightarrow> mem \<Rightarrow> nat \<Rightarrow> nat \<Rightarrow> mem option" where
  "resize_down a m new old = (if new < old then lp_realloc a m new else Some m)"

text \<open>The request of a change of size is served; a block that keeps its size asks for nothing.\<close>

definition granted :: "allocator \<Rightarrow> nat \<Rightarrow> nat \<Rightarrow> bool" where
  "granted a new old \<longleftrightarrow> new = old \<or> a new \<noteq> None"

lemma resize_up_keeps:
  assumes "m = B @ S" "old = length B" "granted a new old"
  shows "\<exists>S1. resize_up a m new old = Some (B @ S1) \<and> new \<le> length (B @ S1) \<and> (new = old \<longrightarrow> S1 = S) \<and> (old < new \<longrightarrow> length (B @ S1) = new)"
proof (cases "new > old")
  case True
  then obtain f where f: "a new = Some f" using assms(3) by (auto simp: granted_def)
  have "zrealloc f m new = B @ take (new - old) S @ map f [length m..<new]"
    using assms True by (simp add: zrealloc_def)
  moreover have "length (zrealloc f m new) = new" by simp
  ultimately show ?thesis using True assms f by (auto simp: resize_up_def zmalloc_usable_size_def lp_realloc_def)
next
  case False
  then show ?thesis using assms by (auto simp: resize_up_def)
qed

lemma move_room:
  assumes m: "m = A @ R @ T @ S" and new: "new = length A + k + length T" and old: "old = length A + length R + length T" and gr: "granted a new old"
  shows "\<exists>m1 m2 G S'. resize_up a m new old = Some m1 \<and> memmove m1 (length A + k) (length A + length R) (length T) = Some m2 \<and>
     resize_down a m2 new old = Some (A @ G @ T @ S') \<and> length G = k \<and> (new = old \<longrightarrow> S' = S) \<and> (new \<noteq> old \<longrightarrow> S' = [])"
proof -
  obtain S1 where S1: "resize_up a m new old = Some (A @ R @ T @ S1)" "new \<le> length (A @ R @ T @ S1)" "new = old \<longrightarrow> S1 = S"
      "old < new \<longrightarrow> length (A @ R @ T @ S1) = new"
    using resize_up_keeps[of m "A @ R @ T" S old a new] m old gr by auto
  define X where "X = R @ T @ S1"
  let ?G = "take k X" and ?D = "drop (k + length T) X"
  have k: "k + length T \<le> length X" using S1(2) new by (simp add: X_def)
  then have G: "length ?G = k" by simp
  have "rd (A @ X) (length A + length R) (length T) = Some T" by (simp add: rd_def X_def)
  moreover have "wr (A @ X) (length A + k) T = Some (A @ ?G @ T @ ?D)" using k by (simp add: wr_def patch_def ac_simps)
  ultimately have mv: "memmove (A @ X) (length A + k) (length A + length R) (length T) = Some (A @ ?G @ T @ ?D)"
    by (simp add: memmove_def)
  have rz: "resize_down a (A @ ?G @ T @ ?D) new old = Some (A @ ?G @ T @ (if new < old then [] else ?D))"
    using new G gr by (auto simp: resize_down_def lp_realloc_def zrealloc_shrink granted_def)
  have d1: "?D = S" if "new = old" using that S1(3) new old by (simp add: X_def)
  have d2: "?D = []" if "old < new" using that S1(4) new by (simp add: X_def)
  show ?thesis
    by (rule exI[of _ "A @ X"], rule exI[of _ "A @ ?G @ T @ ?D"], rule exI[of _ ?G], rule exI[of _ "if new < old then [] else ?D"])
      (use mv rz G d1 d2 S1(1) in \<open>auto simp: X_def[symmetric]\<close>)
qed

text \<open>A refused request is found before the move or after it.\<close>

lemma move_refused:
  assumes m: "m = A @ R @ T @ S" and new: "new = length A + k + length T" and old: "old = length A + length R + length T" and gr: "\<not> granted a new old"
  shows "resize_up a m new old = None \<or>
    resize_up a m new old = Some m \<and> (\<exists>m2. memmove m (length A + k) (length A + length R) (length T) = Some m2 \<and> resize_down a m2 new old = None)"
proof (cases "old < new")
  case True
  then show ?thesis using gr by (simp add: resize_up_def zmalloc_usable_size_def lp_realloc_def granted_def)
next
  case False
  then have lt: "new < old" using gr by (auto simp: granted_def)
  then have "rd m (length A + length R) (length T) = Some T" "length A + k + length T \<le> length m"
    using m new old by (simp_all add: rd_def)
  then show ?thesis using gr lt False by (simp add: resize_up_def resize_down_def lp_realloc_def granted_def memmove_def wr_def)
qed

lemma wr_over: "length G = length E \<Longrightarrow> wr (A @ G @ T) (length A) E = Some (A @ E @ T)"
  by (simp add: wr_def patch_def)

text \<open>The element to insert, as the code prepares it.\<close>

definition elem_ok :: "mem option \<Rightarrow> mem option \<Rightarrow> mem \<Rightarrow> bool" where
  "elem_ok es ei c \<longleftrightarrow> enc_ok c \<and> (case es of Some s \<Rightarrow> c = lp_bytes s \<and> length s + 5 < 2 ^ 32 | None \<Rightarrow> ei = Some c)"

definition prep :: "mem option \<Rightarrow> mem option \<Rightarrow> lp_enctype \<times> mem option \<times> nat" where
  "prep es ei = (case es of
          Some s \<Rightarrow> (let (enctype, intenc, enclen) = lpEncodeGetType s in
             (enctype, if enctype = LP_ENCODING_INT then Some intenc else ei, enclen))
        | None \<Rightarrow> (LP_ENCODING_INT, ei, case ei of Some b \<Rightarrow> length b | None \<Rightarrow> 0))"

lemma str_bytes_length: "length s < 2 ^ 32 \<Longrightarrow>
    length (lp_str_bytes s) = (if length s < 64 then 1 + length s else if length s < 4096 then 2 + length s else 5 + length s)"
  by (simp add: lp_str_bytes_def Let_def word_less_nat_alt unat_of_nat take_bit_nat_eq_self)

lemma prep_ok:
  assumes "elem_ok es ei c"
  obtains enctype ei' where "prep es ei = (enctype, ei', length c)"
    "\<And>m d. (if enctype = LP_ENCODING_INT then do { b \<leftarrow> ei'; wr m d b } else do { s \<leftarrow> es; lpEncodeString m d s }) = wr m d c"
proof (cases es)
  case None
  then show ?thesis using assms that[of LP_ENCODING_INT "Some c"] by (simp add: prep_def elem_ok_def)
next
  case (Some s)
  then have c: "c = lp_bytes s" "length s < 2 ^ 32" using assms by (auto simp: elem_ok_def)
  show ?thesis
  proof (cases "lpStringToInt64 s")
    case None
    then show ?thesis using Some c str_bytes_length[OF c(2)] that[of LP_ENCODING_STRING ei]
      by (simp add: prep_def lpEncodeGetType_def lp_bytes_def lpEncodeString_wr Let_def)
  next
    case (Some v)
    then show ?thesis using \<open>es = Some s\<close> c that[of LP_ENCODING_INT "Some c"]
      by (simp add: prep_def lpEncodeGetType_def lp_bytes_def)
  qed
qed

lemma elem_some: "elem_ok es ei c \<Longrightarrow> \<not> (es = None \<and> ei = None)" by (auto simp: elem_ok_def split: option.splits)

text \<open>The count in the header after an insertion or a deletion.\<close>

definition num_up :: "nat \<Rightarrow> nat \<Rightarrow> nat" where "num_up k n = (if n = 65535 then 65535 else n + k)"
definition num_down :: "nat \<Rightarrow> nat \<Rightarrow> nat" where "num_down k n = (if n = 65535 then 65535 else n - k)"

lemma ucast_num: "n \<le> 65535 \<Longrightarrow> (ucast (of_nat n :: u32) :: u64) = of_nat n"
  by (simp add: word_unat_eq_iff unsigned_ucast_eq unat_of_nat take_bit_nat_eq_self)

lemma set_num_up:
  assumes "n = 65535 \<or> n < 65535"
  shows "do { num \<leftarrow> lpGetNumElements (hdr t (of_nat n) @ r); if num \<noteq> LP_HDR_NUMELE_UNKNOWN then lpSetNumElements (hdr t (of_nat n) @ r) (ucast (num + 1)) else Some (hdr t (of_nat n) @ r) }
     = Some (hdr t (of_nat (num_up 1 n)) @ r)"
proof -
  have n: "n \<le> 65535" using assms by auto
  have "n < 65535 \<Longrightarrow> (ucast (of_nat n + 1 :: u32) :: u64) = of_nat (n + 1)" using ucast_num[of "n + 1"] by (simp add: add.commute)
  then show ?thesis using assms num_hdr[OF n, of t r] num_unknown[OF n] by (auto simp: num_up_def)
qed

lemma set_num_down:
  assumes "n = 65535 \<or> n < 65535 \<and> 0 < n"
  shows "do { num \<leftarrow> lpGetNumElements (hdr t (of_nat n) @ r); if num \<noteq> LP_HDR_NUMELE_UNKNOWN then lpSetNumElements (hdr t (of_nat n) @ r) (ucast (num - 1)) else Some (hdr t (of_nat n) @ r) }
     = Some (hdr t (of_nat (num_down 1 n)) @ r)"
proof -
  have n: "n \<le> 65535" using assms by auto
  have "0 < n \<Longrightarrow> n < 65535 \<Longrightarrow> (ucast (of_nat n - 1 :: u32) :: u64) = of_nat (n - 1)" using ucast_num[of "n - 1"] by (simp add: of_nat_diff)
  then show ?thesis using assms num_hdr[OF n, of t r] num_unknown[OF n] by (auto simp: num_down_def)
qed

text \<open>\<open>lpInsert\<close> after the position and the element are prepared: \<open>rl\<close> bytes at \<open>p\<close> make place for the element.\<close>

definition ins_core :: "allocator \<Rightarrow> mem \<Rightarrow> (mem \<Rightarrow> nat \<Rightarrow> mem option) \<Rightarrow> nat \<Rightarrow> mem \<Rightarrow> nat \<Rightarrow> nat \<Rightarrow> nat \<Rightarrow> bool \<Rightarrow> (mem \<times> nat option) option option" where
  "ins_core a lp put enclen backlen old rl p up =
    (let new = old + enclen + length backlen - rl in
     if int new > 2 ^ 32 - 1 then Some None
     else case resize_up a lp new old of
       None \<Rightarrow> Some None
     | Some lp \<Rightarrow> do {
       lp \<leftarrow> memmove lp (p + enclen + length backlen) (p + rl) (old - p - rl);
       case resize_down a lp new old of
         None \<Rightarrow> Some None
       | Some lp \<Rightarrow> do {
         lp \<leftarrow> do { lp \<leftarrow> put lp p; wr lp (p + enclen) backlen };
         lp \<leftarrow> (if up then do {
                  num \<leftarrow> lpGetNumElements lp;
                  if num \<noteq> LP_HDR_NUMELE_UNKNOWN then lpSetNumElements lp (ucast (num + 1)) else Some lp }
                else Some lp);
         lp \<leftarrow> lpSetTotalBytes lp (of_nat new);
         Some (Some (lp, Some p)) } })"

lemma lpInsert_before:
  assumes "prep es ei = (enctype, ei', enclen)" "\<not> (es = None \<and> ei = None)" "lpBytes lp = Some old"
  shows "lpInsert a lp es ei p LP_BEFORE =
    ins_core a lp (\<lambda>m d. if enctype = LP_ENCODING_INT then do { b \<leftarrow> ei'; wr m d b } else do { s \<leftarrow> es; lpEncodeString m d s })
      enclen (lpEncodeBacklen (of_nat enclen)) old 0 p True"
proof -
  have d: "(es = None \<and> ei = None) = False" using assms(2) by simp
  show ?thesis unfolding lpInsert_def d prep_def[symmetric] assms(1)
    by (simp only: assms(3) ins_core_def resize_up_def resize_down_def Let_def if_False if_True not_False_eq_True prod.case bind.simps
        lpwhere.distinct simp_thms add_0_right diff_zero)
qed

lemma lpInsert_after:
  assumes "\<not> (es = None \<and> ei = None)" "lpSkip lp p = Some q" "ASSERT_INTEGRITY lp q = Some ()"
  shows "lpInsert a lp es ei p LP_AFTER = lpInsert a lp es ei q LP_BEFORE"
proof -
  have d: "(es = None \<and> ei = None) = False" using assms(1) by simp
  show ?thesis unfolding lpInsert_def Let_def d if_False assms(2) by (simp only: assms(3) bind.simps lpwhere.distinct if_True if_False prod.case refl)
qed

lemma lpInsert_replace:
  assumes "prep es ei = (enctype, ei', enclen)" "\<not> (es = None \<and> ei = None)" "lpBytes lp = Some old"
    "lpCurrentEncodedSizeUnsafe lp p = Some r" "rl = unat (r + of_nat (lpEncodeBacklenBytes (ucast r)))"
    "ASSERT_INTEGRITY_LEN lp p rl = Some ()"
  shows "lpInsert a lp es ei p LP_REPLACE =
    ins_core a lp (\<lambda>m d. if enctype = LP_ENCODING_INT then do { b \<leftarrow> ei'; wr m d b } else do { s \<leftarrow> es; lpEncodeString m d s })
      enclen (lpEncodeBacklen (of_nat enclen)) old rl p False"
proof -
  have d: "(es = None \<and> ei = None) = False" using assms(2) by simp
  show ?thesis using assms(6)[unfolded assms(5)] unfolding lpInsert_def d prep_def[symmetric] assms(1,5)
    by (simp only: assms(3,4) ins_core_def resize_up_def resize_down_def Let_def if_False if_True not_False_eq_True prod.case bind.simps
        lpwhere.distinct lpwhere.simps simp_thms)
qed

text \<open>The effect of \<open>ins_core\<close> on a block: the entries \<open>R\<close> (none or one) before \<open>T\<close> are replaced by the entry of \<open>c\<close>.\<close>

lemma ins_core_block:
  assumes m: "m = hdr t (of_nat n) @ body xs @ R @ T @ S"
    and put: "\<And>m d. put m d = wr m d c" and n: "n = 65535 \<or> n < 65535"
    and old: "old = 6 + length (body xs) + length R + length T"
    and new: "int (6 + length (body xs) + length (ent c) + length T) < 2 ^ 32"
    and gr: "granted a (6 + length (body xs) + length (ent c) + length T) old"
  shows "\<exists>S'. ins_core a m put (length c) (lpEncodeBacklen (of_nat (length c))) old (length R) (pos xs) up
     = Some (Some (hdr (of_nat (6 + length (body xs) + length (ent c) + length T)) (of_nat (if up then num_up 1 n else n)) @ body xs @ ent c @ T @ S', Some (pos xs)))"
proof -
  let ?A = "hdr t (of_nat n) @ body xs" and ?bl = "lpEncodeBacklen (of_nat (length c))"
  let ?new = "6 + length (body xs) + length (ent c) + length T"
  have A: "length ?A = pos xs" by (simp add: pos_def)
  have new': "old + length c + length ?bl - length R = ?new" using old by (simp add: length_ent)
  have e: "pos xs + length c + length ?bl = length ?A + length (ent c)" "old - pos xs - length R = length T" "pos xs + length R = length ?A + length R"
    using old by (simp_all add: length_ent pos_def)
  have m': "m = ?A @ R @ T @ S" and o: "old = length ?A + length R + length T" and nn: "?new = length ?A + length (ent c) + length T"
    using m old by simp_all
  obtain m1 m2 G S' where mv: "resize_up a m ?new old = Some m1" "memmove m1 (length ?A + length (ent c)) (length ?A + length R) (length T) = Some m2"
     "resize_down a m2 ?new old = Some (?A @ G @ T @ S')" "length G = length (ent c)"
    using move_room[OF m' nn o gr] by blast
  have w: "do { lp \<leftarrow> put (?A @ G @ T @ S') (pos xs); wr lp (pos xs + length c) ?bl } = Some (?A @ ent c @ T @ S')"
    using wr_wr[of "?A @ G @ T @ S'" "pos xs" c ?bl] wr_over[OF mv(4), of ?A "T @ S'"] unfolding put A[symmetric] ent_def by simp
  have num: "(if up then do { num \<leftarrow> lpGetNumElements (?A @ ent c @ T @ S'); if num \<noteq> LP_HDR_NUMELE_UNKNOWN then lpSetNumElements (?A @ ent c @ T @ S') (ucast (num + 1)) else Some (?A @ ent c @ T @ S') }
      else Some (?A @ ent c @ T @ S')) = Some (hdr t (of_nat (if up then num_up 1 n else n)) @ body xs @ ent c @ T @ S')"
    using set_num_up[OF n, of t "body xs @ ent c @ T @ S'"] by (cases up) (simp_all only: append.assoc if_True if_False)
  have sm: "\<not> int ?new > 2 ^ 32 - 1" using new by simp
  show ?thesis unfolding ins_core_def new' Let_def if_not_P[OF sm] e mv(1) option.case mv(2) bind.simps mv(3) w num
    by (intro exI[of _ S']) simp
qed

lemma ins_core_refused:
  assumes m: "m = hdr t (of_nat n) @ body xs @ R @ T @ S"
    and old: "old = 6 + length (body xs) + length R + length T"
    and new: "new = 6 + length (body xs) + length (ent c) + length T" and no: "\<not> (int new < 2 ^ 32 \<and> granted a new old)"
  shows "ins_core a m put (length c) (lpEncodeBacklen (of_nat (length c))) old (length R) (pos xs) up = Some None"
proof -
  let ?A = "hdr t (of_nat n) @ body xs" and ?bl = "lpEncodeBacklen (of_nat (length c))"
  have new': "old + length c + length ?bl - length R = new" using old new by (simp add: length_ent)
  have e: "pos xs + length c + length ?bl = length ?A + length (ent c)" "old - pos xs - length R = length T" "pos xs + length R = length ?A + length R"
    using old by (simp_all add: length_ent pos_def)
  show ?thesis
  proof (cases "int new > 2 ^ 32 - 1")
    case True
    then show ?thesis unfolding ins_core_def new' Let_def by simp
  next
    case False
    then have gr: "\<not> granted a new old" using no by linarith
    have m': "m = ?A @ R @ T @ S" and o: "old = length ?A + length R + length T" and nn: "new = length ?A + length (ent c) + length T"
      using m old new by simp_all
    from move_refused[OF m' nn o gr] show ?thesis unfolding ins_core_def new' Let_def if_not_P[OF False] e by auto
  qed
qed

lemma lpk_as_parts: "lpk n (xs @ ys) sl = hdr (of_nat (7 + length (body (xs @ ys)))) (of_nat n) @ body xs @ (body ys @ [LP_EOF]) @ sl"
  by (simp add: lpk_def)

lemma lp_inv_change:
  assumes "lp_inv n (xs @ zs @ ys)" "list_all enc_ok ws" "int (7 + length (body (xs @ ws @ ys))) < 2 ^ 32"
    "n' = 65535 \<or> n' < 65535 \<and> n' = length (xs @ ws @ ys)"
  shows "lp_inv n' (xs @ ws @ ys)"
  using assms by (simp add: lp_inv_def)

lemma num_up_inv: "lp_inv n cs \<Longrightarrow> length cs' = length cs + 1 \<Longrightarrow> num_up 1 n = 65535 \<or> num_up 1 n < 65535 \<and> num_up 1 n = length cs'"
  by (auto simp: lp_inv_def num_up_def)

lemma num_down_inv: "lp_inv n cs \<Longrightarrow> length cs = length cs' + k \<Longrightarrow> num_down k n = 65535 \<or> num_down k n < 65535 \<and> num_down k n = length cs'"
  by (auto simp: lp_inv_def num_down_def)

text \<open>Insertion before an element or at the end.\<close>

lemma lpk_insert_before:
  assumes inv: "lp_inv n (xs @ ys)" and el: "elem_ok es ei c" and fit: "int (7 + length (body (xs @ c # ys))) < 2 ^ 32"
    and gr: "granted a (7 + length (body (xs @ c # ys))) (7 + length (body (xs @ ys)))"
  shows "\<exists>sl'. lpInsert a (lpk n (xs @ ys) sl) es ei (pos xs) LP_BEFORE = Some (Some (lpk (num_up 1 n) (xs @ c # ys) sl', Some (pos xs)))
     \<and> lp_inv (num_up 1 n) (xs @ c # ys)"
proof -
  obtain enctype ei' where p: "prep es ei = (enctype, ei', length c)"
      "\<And>m d. (if enctype = LP_ENCODING_INT then do { b \<leftarrow> ei'; wr m d b } else do { s \<leftarrow> es; lpEncodeString m d s }) = wr m d c"
    using prep_ok[OF el] by blast
  have ok: "enc_ok c" using el by (simp add: elem_ok_def)
  have n: "n = 65535 \<or> n < 65535" using inv by (auto simp: lp_inv_def)
  have m: "lpk n (xs @ ys) sl = hdr (of_nat (7 + length (body (xs @ ys)))) (of_nat n) @ body xs @ [] @ (body ys @ [LP_EOF]) @ sl"
    by (simp add: lpk_def)
  have o: "7 + length (body (xs @ ys)) = 6 + length (body xs) + length ([] :: mem) + length (body ys @ [LP_EOF])" by simp
  have w: "int (6 + length (body xs) + length (ent c) + length (body ys @ [LP_EOF])) < 2 ^ 32" using fit by simp
  have t: "6 + length (body xs) + length (ent c) + length (body ys @ [LP_EOF]) = 7 + length (body (xs @ c # ys))" by simp
  obtain S' where "lpInsert a (lpk n (xs @ ys) sl) es ei (pos xs) LP_BEFORE =
     Some (Some (hdr (of_nat (7 + length (body (xs @ c # ys)))) (of_nat (num_up 1 n)) @ body xs @ ent c @ (body ys @ [LP_EOF]) @ S', Some (pos xs)))"
    using ins_core_block[OF m p(2) n o w, of a True] gr
    unfolding lpInsert_before[OF p(1) elem_some[OF el] lpk_bytes[OF inv], of a] t by auto
  moreover have "lp_inv (num_up 1 n) (xs @ c # ys)"
    using inv fit ok num_up_inv[OF inv, of "xs @ c # ys"] by (auto simp: lp_inv_def)
  ultimately show ?thesis by (intro exI[of _ S']) (simp add: lpk_def)
qed

lemma lpk_insert_refused:
  assumes inv: "lp_inv n (xs @ ys)" and el: "elem_ok es ei c"
    and no: "\<not> (int (7 + length (body (xs @ c # ys))) < 2 ^ 32 \<and> granted a (7 + length (body (xs @ c # ys))) (7 + length (body (xs @ ys))))"
  shows "lpInsert a (lpk n (xs @ ys) sl) es ei (pos xs) LP_BEFORE = Some None"
proof -
  obtain enctype ei' where p: "prep es ei = (enctype, ei', length c)" by (rule prep_ok[OF el])
  have m: "lpk n (xs @ ys) sl = hdr (of_nat (7 + length (body (xs @ ys)))) (of_nat n) @ body xs @ [] @ (body ys @ [LP_EOF]) @ sl"
    by (simp add: lpk_def)
  have o: "7 + length (body (xs @ ys)) = 6 + length (body xs) + length ([] :: mem) + length (body ys @ [LP_EOF])"
    "7 + length (body (xs @ c # ys)) = 6 + length (body xs) + length (ent c) + length (body ys @ [LP_EOF])" by simp_all
  from ins_core_refused[OF m o no] show ?thesis
    unfolding lpInsert_before[OF p elem_some[OF el] lpk_bytes[OF inv], of a] by simp
qed

lemma lpk_assert_integrity: "lp_inv n (xs @ ys) \<Longrightarrow> ASSERT_INTEGRITY (lpk n (xs @ ys) sl) (pos xs) = Some ()"
proof -
  assume i: "lp_inv n (xs @ ys)"
  obtain t where t: "lpGetTotalBytes (lpk n (xs @ ys) sl) = Some t" "unat t = 7 + length (body (xs @ ys))"
    using lpk_bytes[OF i, of sl] by (auto simp: lpBytes_def)
  then show ?thesis by (simp add: ASSERT_INTEGRITY_def pos_def)
qed

lemma lpk_insert_after:
  assumes inv: "lp_inv n (xs @ d # ys)" and el: "elem_ok es ei c"
  shows "lpInsert a (lpk n (xs @ d # ys) sl) es ei (pos xs) LP_AFTER = lpInsert a (lpk n (xs @ d # ys) sl) es ei (pos (xs @ [d])) LP_BEFORE"
proof -
  have "ASSERT_INTEGRITY (lpk n (xs @ d # ys) sl) (pos (xs @ [d])) = Some ()" using lpk_assert_integrity[of n "xs @ [d]" ys sl] inv by simp
  then show ?thesis using lpInsert_after[OF elem_some[OF el] lpk_skip[OF inv]] by simp
qed

lemma lpk_replaced:
  assumes inv: "lp_inv n (xs @ d # ys)"
  shows "lpCurrentEncodedSizeUnsafe (lpk n (xs @ d # ys) sl) (pos xs) = Some (of_nat (length d))"
    "unat (of_nat (length d) + of_nat (lpEncodeBacklenBytes (ucast (of_nat (length d) :: u32))) :: u32) = length (ent d)"
    "ASSERT_INTEGRITY_LEN (lpk n (xs @ d # ys) sl) (pos xs) (length (ent d)) = Some ()"
proof -
  have ok: "enc_ok d" using inv_ok[OF inv] .
  have l: "length d < 2 ^ 32" using enc_ok_len[OF ok] by simp
  show "lpCurrentEncodedSizeUnsafe (lpk n (xs @ d # ys) sl) (pos xs) = Some (of_nat (length d))"
    using encsize_at[OF ok, of "front n (xs @ d # ys) xs" "body ys @ LP_EOF # sl"] by (simp add: lpk_cut)
  have e: "length (ent d) < 2 ^ 32" using inv by (simp add: lp_inv_def)
  have "of_nat (length d) + of_nat (lpEncodeBacklenBytes (ucast (of_nat (length d) :: u32))) = (of_nat (length (ent d)) :: u32)"
    using u64_of_size[OF l] by (simp add: length_ent)
  then show "unat (of_nat (length d) + of_nat (lpEncodeBacklenBytes (ucast (of_nat (length d) :: u32))) :: u32) = length (ent d)"
    using e by (simp only:) (simp add: unat_of_nat take_bit_nat_eq_self)
  obtain t where t: "lpGetTotalBytes (lpk n (xs @ d # ys) sl) = Some t" "unat t = 7 + length (body (xs @ d # ys))"
    using lpk_bytes[OF inv, of sl] by (auto simp: lpBytes_def)
  then show "ASSERT_INTEGRITY_LEN (lpk n (xs @ d # ys) sl) (pos xs) (length (ent d)) = Some ()"
    by (simp add: ASSERT_INTEGRITY_LEN_def pos_def)
qed

text \<open>Replacement of an element.\<close>

lemma lpk_replace:
  assumes inv: "lp_inv n (xs @ d # ys)" and el: "elem_ok es ei c" and fit: "int (7 + length (body (xs @ c # ys))) < 2 ^ 32"
    and gr: "granted a (7 + length (body (xs @ c # ys))) (7 + length (body (xs @ d # ys)))"
  shows "\<exists>sl'. lpInsert a (lpk n (xs @ d # ys) sl) es ei (pos xs) LP_REPLACE = Some (Some (lpk n (xs @ c # ys) sl', Some (pos xs)))
     \<and> lp_inv n (xs @ c # ys)"
proof -
  obtain enctype ei' where p: "prep es ei = (enctype, ei', length c)"
      "\<And>m d. (if enctype = LP_ENCODING_INT then do { b \<leftarrow> ei'; wr m d b } else do { s \<leftarrow> es; lpEncodeString m d s }) = wr m d c"
    using prep_ok[OF el] by blast
  have ok: "enc_ok c" using el by (simp add: elem_ok_def)
  have n: "n = 65535 \<or> n < 65535" using inv by (auto simp: lp_inv_def)
  have m: "lpk n (xs @ d # ys) sl = hdr (of_nat (7 + length (body (xs @ d # ys)))) (of_nat n) @ body xs @ ent d @ (body ys @ [LP_EOF]) @ sl"
    by (simp add: lpk_def)
  have o: "7 + length (body (xs @ d # ys)) = 6 + length (body xs) + length (ent d) + length (body ys @ [LP_EOF])" by simp
  have w: "int (6 + length (body xs) + length (ent c) + length (body ys @ [LP_EOF])) < 2 ^ 32" using fit by simp
  have t: "6 + length (body xs) + length (ent c) + length (body ys @ [LP_EOF]) = 7 + length (body (xs @ c # ys))" by simp
  obtain S' where "lpInsert a (lpk n (xs @ d # ys) sl) es ei (pos xs) LP_REPLACE =
     Some (Some (hdr (of_nat (7 + length (body (xs @ c # ys)))) (of_nat n) @ body xs @ ent c @ (body ys @ [LP_EOF]) @ S', Some (pos xs)))"
    using ins_core_block[OF m p(2) n o w, of a False] gr
    unfolding lpInsert_replace[OF p(1) elem_some[OF el] lpk_bytes[OF inv] lpk_replaced(1)[OF inv] lpk_replaced(2)[OF inv, symmetric] lpk_replaced(3)[OF inv], of a] t
    by auto
  moreover have "lp_inv n (xs @ c # ys)" using inv fit ok by (auto simp: lp_inv_def)
  ultimately show ?thesis by (intro exI[of _ S']) (simp add: lpk_def)
qed

lemma lpk_replace_refused:
  assumes inv: "lp_inv n (xs @ d # ys)" and el: "elem_ok es ei c"
    and no: "\<not> (int (7 + length (body (xs @ c # ys))) < 2 ^ 32 \<and> granted a (7 + length (body (xs @ c # ys))) (7 + length (body (xs @ d # ys))))"
  shows "lpInsert a (lpk n (xs @ d # ys) sl) es ei (pos xs) LP_REPLACE = Some None"
proof -
  obtain enctype ei' where p: "prep es ei = (enctype, ei', length c)" by (rule prep_ok[OF el])
  have m: "lpk n (xs @ d # ys) sl = hdr (of_nat (7 + length (body (xs @ d # ys)))) (of_nat n) @ body xs @ ent d @ (body ys @ [LP_EOF]) @ sl"
    by (simp add: lpk_def)
  have o: "7 + length (body (xs @ d # ys)) = 6 + length (body xs) + length (ent d) + length (body ys @ [LP_EOF])"
    "7 + length (body (xs @ c # ys)) = 6 + length (body xs) + length (ent c) + length (body ys @ [LP_EOF])" by simp_all
  from ins_core_refused[OF m o no] show ?thesis
    unfolding lpInsert_replace[OF p elem_some[OF el] lpk_bytes[OF inv] lpk_replaced(1)[OF inv] lpk_replaced(2)[OF inv, symmetric] lpk_replaced(3)[OF inv], of a]
    by simp
qed

section \<open>Deletion\<close>

definition del_core :: "allocator \<Rightarrow> mem \<Rightarrow> nat \<Rightarrow> nat \<Rightarrow> nat \<Rightarrow> (mem \<times> nat option) option option" where
  "del_core a lp old rl p =
    (let new = old - rl in
     if int new > 2 ^ 32 - 1 then Some None
     else case resize_up a lp new old of
       None \<Rightarrow> Some None
     | Some lp \<Rightarrow> do {
       lp \<leftarrow> memmove lp p (p + rl) (old - p - rl);
       case resize_down a lp new old of
         None \<Rightarrow> Some None
       | Some lp \<Rightarrow> do {
         newp \<leftarrow> do { e \<leftarrow> getb lp p; Some (if e = LP_EOF then None else Some p) };
         lp \<leftarrow> do {
                  num \<leftarrow> lpGetNumElements lp;
                  if num \<noteq> LP_HDR_NUMELE_UNKNOWN then lpSetNumElements lp (ucast (num - 1)) else Some lp };
         lp \<leftarrow> lpSetTotalBytes lp (of_nat new);
         Some (Some (lp, newp)) } })"

lemma lpDelete_core:
  assumes "lpBytes lp = Some old"
    "lpCurrentEncodedSizeUnsafe lp p = Some r" "rl = unat (r + of_nat (lpEncodeBacklenBytes (ucast r)))"
    "ASSERT_INTEGRITY_LEN lp p rl = Some ()"
  shows "lpDelete a lp p = del_core a lp old rl p"
  using assms(4)[unfolded assms(3)]
  unfolding lpDelete_def lpInsert_def assms(3)
  by (simp only: assms(1,2) del_core_def resize_up_def resize_down_def Let_def if_False if_True not_True_eq_False not_False_eq_True prod.case bind.simps
        lpwhere.distinct lpwhere.simps simp_thms add_0_right diff_zero option.case list.size)

lemma lpk_delete:
  assumes inv: "lp_inv n (xs @ d # ys)" and gr: "a (7 + length (body (xs @ ys))) \<noteq> None"
  shows "lpDelete a (lpk n (xs @ d # ys) sl) (pos xs) =
     Some (Some (lpk (num_down 1 n) (xs @ ys) [], if ys = [] then None else Some (pos xs))) \<and> lp_inv (num_down 1 n) (xs @ ys)"
proof -
  let ?t = "7 + length (body (xs @ d # ys))" and ?T = "body ys @ [LP_EOF]"
  let ?A = "hdr (of_nat ?t) (of_nat n) @ body xs"
  let ?new = "7 + length (body (xs @ ys))"
  have m: "lpk n (xs @ d # ys) sl = ?A @ ent d @ ?T @ sl" by (simp add: lpk_def)
  have A: "length ?A = pos xs" by (simp add: pos_def)
  have nn: "?new = length ?A + 0 + length ?T" and o: "?t = length ?A + length (ent d) + length ?T" by simp_all
  have lt: "?new \<noteq> ?t" using ent_ge2[OF inv_ok[OF inv]] by auto
  have new': "?t - length (ent d) = ?new" by simp
  have gr': "granted a ?new ?t" using gr by (simp add: granted_def)
  obtain m1 m2 G S' where mv0: "resize_up a (lpk n (xs @ d # ys) sl) ?new ?t = Some m1" and
     mv: "memmove m1 (length ?A + 0) (length ?A + length (ent d)) (length ?T) = Some m2"
     "resize_down a m2 ?new ?t = Some (?A @ G @ ?T @ S')" "length G = 0" "S' = []"
    using move_room[OF m nn o gr'] lt by blast
  have e: "length ?A + 0 = pos xs" "?t - pos xs - length (ent d) = length ?T" using A by (simp_all add: pos_def)
  have r: "resize_down a m2 ?new ?t = Some (hdr (of_nat ?t) (of_nat n) @ body xs @ ?T)" using mv(2,3,4) by simp
  have g: "getb (hdr (of_nat ?t) (of_nat n) @ body xs @ ?T) (pos xs) = Some (hd ?T)"
  proof -
    have "getb (?A @ ?T) (length ?A + 0) = getb ?T 0" by (rule getb_app)
    then show ?thesis unfolding e(1) by (cases ?T) auto
  qed
  have h: "hd ?T = LP_EOF \<longleftrightarrow> ys = []"
  proof (cases ys)
    case (Cons y ys')
    then have "enc_ok y" using inv by (simp add: lp_inv_def)
    then show ?thesis using Cons by (auto simp: enc_ok_def ent_def)
  qed simp
  have n: "n = 65535 \<or> n < 65535 \<and> 0 < n" using inv by (auto simp: lp_inv_def)
  have sm: "\<not> int ?new > 2 ^ 32 - 1" using inv by (simp add: lp_inv_def)
  have "lpDelete a (lpk n (xs @ d # ys) sl) (pos xs) = del_core a (lpk n (xs @ d # ys) sl) ?t (length (ent d)) (pos xs)"
    by (rule lpDelete_core[OF lpk_bytes[OF inv] lpk_replaced(1)[OF inv] lpk_replaced(2)[OF inv, symmetric] lpk_replaced(3)[OF inv]])
  also have "\<dots> = Some (Some (lpk (num_down 1 n) (xs @ ys) [], if ys = [] then None else Some (pos xs)))"
    unfolding del_core_def new' Let_def if_not_P[OF sm] e(2) mv0 option.case mv(1)[unfolded e(1), unfolded A] bind.simps r g h set_num_down[OF n] set_total
    by (simp add: lpk_def)
  moreover have "lp_inv (num_down 1 n) (xs @ ys)"
    using inv num_down_inv[OF inv, of "xs @ ys" 1] by (auto simp: lp_inv_def)
  ultimately show ?thesis by simp
qed

lemma lpk_delete_refused:
  assumes inv: "lp_inv n (xs @ d # ys)" and no: "a (7 + length (body (xs @ ys))) = None"
  shows "lpDelete a (lpk n (xs @ d # ys) sl) (pos xs) = Some None"
proof -
  let ?t = "7 + length (body (xs @ d # ys))" and ?T = "body ys @ [LP_EOF]"
  let ?A = "hdr (of_nat ?t) (of_nat n) @ body xs"
  let ?new = "7 + length (body (xs @ ys))"
  have m: "lpk n (xs @ d # ys) sl = ?A @ ent d @ ?T @ sl" by (simp add: lpk_def)
  have A: "length ?A = pos xs" by (simp add: pos_def)
  have nn: "?new = length ?A + 0 + length ?T" and o: "?t = length ?A + length (ent d) + length ?T" by simp_all
  have "?new \<noteq> ?t" using ent_ge2[OF inv_ok[OF inv]] by auto
  then have gr: "\<not> granted a ?new ?t" using no by (simp add: granted_def)
  have new': "?t - length (ent d) = ?new" by simp
  have e: "length ?A + 0 = pos xs" "?t - pos xs - length (ent d) = length ?T" using A by (simp_all add: pos_def)
  have sm: "\<not> int ?new > 2 ^ 32 - 1" using inv by (simp add: lp_inv_def)
  have "lpDelete a (lpk n (xs @ d # ys) sl) (pos xs) = del_core a (lpk n (xs @ d # ys) sl) ?t (length (ent d)) (pos xs)"
    by (rule lpDelete_core[OF lpk_bytes[OF inv] lpk_replaced(1)[OF inv] lpk_replaced(2)[OF inv, symmetric] lpk_replaced(3)[OF inv]])
  also have "\<dots> = Some None"
    using move_refused[OF m nn o gr] unfolding del_core_def new' Let_def if_not_P[OF sm] e(1) A e(2) by auto
  finally show ?thesis .
qed

text \<open>The range deletion: the loop finds the end of the range.\<close>

lemma lpk_range_loop:
  "lp_inv n (xs @ ys) \<Longrightarrow> ys \<noteq> [] \<Longrightarrow> 0 < num \<Longrightarrow>
   lpDeleteRange_loop (lpk n (xs @ ys) sl) (7 + length (body (xs @ ys))) (pos xs) k num =
     Some (pos (xs @ take num ys), k + min num (length ys))"
proof (induction num arbitrary: xs ys k)
  case (Suc num)
  then obtain c zs where ys: "ys = c # zs" by (cases ys) auto
  have inv: "lp_inv n (xs @ c # zs)" using Suc.prems ys by simp
  note s = lpk_skip[OF inv, of sl]
  show ?case
  proof (cases zs)
    case Nil
    then show ?thesis using s getb_eof[of n "xs @ [c]" sl] ys by simp
  next
    case (Cons d us)
    have inv': "lp_inv n ((xs @ [c]) @ d # us)" using inv Cons by simp
    have g: "getb (lpk n (xs @ ys) sl) (pos (xs @ [c])) = Some (hd d)" "hd d \<noteq> LP_EOF" using lpk_getb[OF inv', of sl] ys Cons by simp_all
    have a: "lpAssertValidEntry (lpk n (xs @ ys) sl) (7 + length (body (xs @ ys))) (pos (xs @ [c])) = Some ()"
      using lpk_assert[OF inv', of sl] ys Cons by simp
    show ?thesis
    proof (cases num)
      case 0
      then show ?thesis using s g a ys by simp
    next
      case (Suc j)
      have "lpDeleteRange_loop (lpk n ((xs @ [c]) @ zs) sl) (7 + length (body ((xs @ [c]) @ zs))) (pos (xs @ [c])) (k + 1) num =
         Some (pos ((xs @ [c]) @ take num zs), k + 1 + min num (length zs))"
        using inv Cons Suc by (intro Suc.IH) auto
      then show ?thesis using s g a ys by simp
    qed
  qed
qed simp

lemma memmove_down:
  "\<exists>S'. memmove (A @ R @ T @ S) (length A) (length A + length R) (length T) = Some (A @ T @ S')"
  by (rule exI[of _ "drop (length T) (R @ T @ S)"]) (simp add: memmove_def rd_def wr_def patch_def)

lemma shrink_id: "lpBytes m = Some t \<Longrightarrow> lpShrinkToFit a m = Some m"
  by (simp add: lpShrinkToFit_def zmalloc_usable_size_def)

lemma bytes_any: "\<exists>t'. lpBytes (hdr t n @ r) = Some t'" by (simp add: lpBytes_def)

lemma set_num_downs:
  assumes "n = 65535 \<or> n < 65535 \<and> k \<le> n"
  shows "do { num \<leftarrow> lpGetNumElements (hdr t (of_nat n) @ r); if num \<noteq> LP_HDR_NUMELE_UNKNOWN then lpSetNumElements (hdr t (of_nat n) @ r) (ucast num - of_nat k) else Some (hdr t (of_nat n) @ r) }
     = Some (hdr t (of_nat (num_down k n)) @ r)"
proof -
  have n: "n \<le> 65535" using assms by auto
  have "k \<le> n \<Longrightarrow> (ucast (of_nat n :: u32) - of_nat k :: u64) = of_nat (n - k)" using ucast_num[OF n] by (simp add: of_nat_diff)
  then show ?thesis using assms num_hdr[OF n, of t r] num_unknown[OF n] by (auto simp: num_down_def)
qed

lemma lpk_delete_range_entry:
  assumes inv: "lp_inv n (xs @ ys)" and ne: "ys \<noteq> []" and num: "0 < num"
  shows "\<exists>sl'. lpDeleteRangeWithEntry a (lpk n (xs @ ys) sl) (pos xs) num =
     Some (lpk (num_down (min num (length ys)) n) (xs @ drop num ys) sl', if num < length ys then Some (pos xs) else None)
     \<and> lp_inv (num_down (min num (length ys)) n) (xs @ drop num ys)"
proof -
  let ?t = "7 + length (body (xs @ ys))" and ?T = "body (drop num ys) @ [LP_EOF]" and ?R = "body (take num ys)"
  let ?A = "hdr (of_nat ?t) (of_nat n) @ body xs" and ?k = "min num (length ys)"
  let ?new = "7 + length (body (xs @ drop num ys))"
  have b: "body ys = ?R @ body (drop num ys)" by (metis append_take_drop_id body_simps(3))
  have m: "lpk n (xs @ ys) sl = ?A @ ?R @ ?T @ sl" unfolding lpk_def by (simp add: b)
  have A: "length ?A = pos xs" by (simp add: pos_def)
  have tl: "pos (xs @ take num ys) = length ?A + length ?R" using A by simp
  have e: "?t - 1 - pos (xs @ take num ys) + 1 = length ?T" "?t - (pos (xs @ take num ys) - pos xs) = ?new" "pos (xs @ take num ys) \<le> ?t - 1"
    by (simp_all add: pos_def b)
  obtain S' where mv: "memmove (lpk n (xs @ ys) sl) (pos xs) (pos (xs @ take num ys)) (length ?T) = Some (?A @ ?T @ S')"
    using memmove_down[of ?A ?R ?T sl] unfolding m tl A by blast
  have n: "n = 65535 \<or> n < 65535 \<and> ?k \<le> n" using inv by (auto simp: lp_inv_def)
  have st: "lpSetTotalBytes (?A @ ?T @ S') (of_nat ?new) = Some (hdr (of_nat ?new) (of_nat n) @ body xs @ ?T @ S')" by simp
  let ?m = "hdr (of_nat ?new) (of_nat (num_down ?k n)) @ body xs @ ?T @ S'"
  have sh: "lpShrinkToFit a ?m = Some ?m" using shrink_id bytes_any by blast
  have g: "getb ?m (pos xs) = Some (hd ?T)"
    using getb_app[of "hdr (of_nat ?new) (of_nat (num_down ?k n)) @ body xs" "?T @ S'" 0] A by (cases ?T) auto
  have h: "hd ?T = LP_EOF \<longleftrightarrow> \<not> num < length ys"
  proof (cases "drop num ys")
    case (Cons y ys')
    then have "y \<in> set ys" by (metis in_set_dropD list.set_intros(1))
    then have "enc_ok y" using inv by (simp add: lp_inv_def list_all_iff)
    moreover have "num < length ys" using Cons by (metis drop_all leI list.distinct(1))
    ultimately show ?thesis using Cons by (auto simp: enc_ok_def ent_def)
  qed auto
  have nm: "do { num \<leftarrow> lpGetNumElements (hdr (of_nat ?new) (of_nat n) @ body xs @ ?T @ S');
       if num \<noteq> LP_HDR_NUMELE_UNKNOWN then lpSetNumElements (hdr (of_nat ?new) (of_nat n) @ body xs @ ?T @ S') (ucast num - of_nat ?k)
       else Some (hdr (of_nat ?new) (of_nat n) @ body xs @ ?T @ S') } = Some ?m" by (rule set_num_downs[OF n])
  have gt: "guard (?t \<ge> 1) = Some ()" "guard (pos (xs @ take num ys) \<le> ?t - 1) = Some ()" using e(3) by simp_all
  have nz: "\<not> num = 0" using num by simp
  have "lpDeleteRangeWithEntry a (lpk n (xs @ ys) sl) (pos xs) num = Some (?m, if num < length ys then Some (pos xs) else None)"
    unfolding lpDeleteRangeWithEntry_def lpk_bytes[OF inv] Let_def bind.simps gt if_not_P[OF nz] lpk_range_loop[OF inv ne num] prod.case add_0
      e mv st bind_assoc[symmetric] nm sh g h
    by simp
  moreover have "?m = lpk (num_down ?k n) (xs @ drop num ys) S'" by (simp add: lpk_def)
  moreover have "lp_inv (num_down ?k n) (xs @ drop num ys)"
  proof -
    have "list_all enc_ok (xs @ drop num ys)" using inv by (auto simp: lp_inv_def list_all_iff dest: in_set_dropD)
    moreover have "int ?new < 2 ^ 32" using inv by (simp add: lp_inv_def b)
    ultimately show ?thesis using num_down_inv[OF inv, of "xs @ drop num ys" ?k] by (auto simp: lp_inv_def)
  qed
  ultimately show ?thesis by (intro exI[of _ S']) auto
qed

text \<open>An index counted from either end.\<close>

definition resolve :: "nat \<Rightarrow> int \<Rightarrow> nat option" where
  "resolve l index = (let j = (if index < 0 then int l + index else index) in if 0 \<le> j \<and> j < int l then Some (nat j) else None)"

lemma lpk_seek_resolve:
  "lp_inv n cs \<Longrightarrow> lpSeek (lpk n cs sl) index = Some (map_option (\<lambda>i. pos (take i cs)) (resolve (length cs) index))"
  by (auto simp: lpk_seek resolve_def place_def Let_def)

lemma resolve_Some: "resolve l index = Some i \<Longrightarrow> i < l" by (auto simp: resolve_def Let_def split: if_splits)

lemma lpk_truncate:
  assumes "lp_inv n (xs @ ys)" "length xs < 65535"
  shows "\<exists>sl'. do { lp \<leftarrow> setb (lpk n (xs @ ys) sl) (pos xs) LP_EOF; lp \<leftarrow> lpSetTotalBytes lp (of_nat (pos xs + 1));
     lp \<leftarrow> lpSetNumElements lp (of_nat (length xs)); lpShrinkToFit a lp } = Some (lpk (length xs) xs sl') \<and> lp_inv (length xs) xs"
proof -
  let ?t = "7 + length (body (xs @ ys))"
  obtain x rest where r: "body ys @ LP_EOF # sl = x # rest" by (cases "body ys @ LP_EOF # sl") auto
  have "lpk n (xs @ ys) sl = hdr (of_nat ?t) (of_nat n) @ body xs @ x # rest" unfolding lpk_def using r by simp
  then have s: "setb (lpk n (xs @ ys) sl) (pos xs) LP_EOF = Some (hdr (of_nat ?t) (of_nat n) @ body xs @ LP_EOF # rest)"
    by (simp add: setb_def pos_def list_update_append)
  have p: "pos xs + 1 = 7 + length (body xs)" by (simp add: pos_def)
  let ?m = "hdr (of_nat (7 + length (body xs))) (of_nat (length xs)) @ body xs @ LP_EOF # rest"
  have sh: "lpShrinkToFit a ?m = Some ?m" using shrink_id bytes_any by blast
  show ?thesis unfolding s p bind.simps set_total set_num sh
    using assms by (intro exI[of _ rest]) (auto simp: lpk_def lp_inv_def)
qed

lemma lpk_delete_range:
  assumes inv: "lp_inv n cs" and i: "resolve (length cs) index = Some i" and num: "0 < num" "int num < 2 ^ 64"
  shows "\<exists>n' sl'. lpDeleteRange a (lpk n cs sl) index num = Some (lpk n' (take i cs @ drop (i + num) cs) sl') \<and> lp_inv n' (take i cs @ drop (i + num) cs)"
proof -
  let ?m = "lpk n cs sl" and ?l = "length cs"
  have il: "i < ?l" using resolve_Some[OF i] .
  have e: "cs = take i cs @ drop i cs" "drop i cs \<noteq> []" "length (take i cs) = i" using il by auto
  have inv': "lp_inv n (take i cs @ drop i cs)" using inv by simp
  note nm = lpk_num[OF inv, of sl]
  have sk: "lpSeek ?m index = Some (Some (pos (take i cs)))" using lpk_seek_resolve[OF inv, of sl index] i by simp
  define j where "j = (if of_nat n \<noteq> LP_HDR_NUMELE_UNKNOWN \<and> index < 0 then uint (of_nat n :: u32) + index else index)"
  have u: "lpDeleteRange a ?m index num = (if of_nat n \<noteq> LP_HDR_NUMELE_UNKNOWN \<and> (uint (of_nat n :: u32) - j) mod 2 ^ 64 \<le> int num then do {
              lp \<leftarrow> setb ?m (pos (take i cs)) LP_EOF;
              lp \<leftarrow> lpSetTotalBytes lp (of_nat (pos (take i cs) + 1));
              lp \<leftarrow> lpSetNumElements lp (word_of_int j);
              lpShrinkToFit a lp }
            else do { (lp, _) \<leftarrow> lpDeleteRangeWithEntry a ?m (pos (take i cs)) num; Some lp })"
    using nm num(1) unfolding lpDeleteRange_def j_def Let_def sk by simp
  obtain sl2 where r: "lpDeleteRangeWithEntry a ?m (pos (take i cs)) num =
     Some (lpk (num_down (min num (length (drop i cs))) n) (take i cs @ drop num (drop i cs)) sl2, if num < length (drop i cs) then Some (pos (take i cs)) else None)"
     "lp_inv (num_down (min num (length (drop i cs))) n) (take i cs @ drop num (drop i cs))"
    using lpk_delete_range_entry[OF inv' e(2) num(1), of a sl] by auto
  show ?thesis
  proof (cases "of_nat n \<noteq> LP_HDR_NUMELE_UNKNOWN \<and> (uint (of_nat n :: u32) - j) mod 2 ^ 64 \<le> int num")
    case False
    show ?thesis unfolding u if_not_P[OF False] using r
      by (intro exI[of _ "num_down (min num (length (drop i cs))) n"] exI[of _ sl2]) (simp add: add.commute)
  next
    case True
    then have nl: "n = ?l" "n < 65535" using inv nm by (auto simp: lp_inv_def)
    then have j: "j = int i" using i nm unfolding j_def resolve_def Let_def by (auto split: if_splits)
    have "(int n - int i) mod 2 ^ 64 = int (n - i)" using nl il by (simp add: of_nat_diff mod_pos_pos_trivial)
    then have "n - i \<le> num" using True nm j by simp
    then have d: "drop (i + num) cs = []" using nl by simp
    have wi: "(word_of_int j :: u64) = of_nat (length (take i cs))" using j il by simp
    obtain sl' where "do { lp \<leftarrow> setb ?m (pos (take i cs)) LP_EOF; lp \<leftarrow> lpSetTotalBytes lp (of_nat (pos (take i cs) + 1));
        lp \<leftarrow> lpSetNumElements lp (word_of_int j); lpShrinkToFit a lp } = Some (lpk i (take i cs) sl')" "lp_inv i (take i cs)"
      using lpk_truncate[OF inv', of sl a] e(3) nl il unfolding wi by auto
    then show ?thesis unfolding u if_P[OF True] d by (intro exI[of _ i] exI[of _ sl']) simp
  qed
qed

text \<open>The deletion of several elements at once: what is kept between them moves to the front.  \<open>keeps\<close> are the
  elements to delete, each with the elements kept after it.\<close>

definition drops :: "(mem \<times> mem list) list \<Rightarrow> mem list" where "drops ks = concat (map (\<lambda>(d, us). d # us) ks)"
definition keeps :: "(mem \<times> mem list) list \<Rightarrow> mem list" where "keeps ks = concat (map snd ks)"

fun offs :: "nat \<Rightarrow> (mem \<times> mem list) list \<Rightarrow> nat list" where
  "offs q [] = []"
| "offs q ((d, us) # ks) = q # offs (q + length (ent d) + length (body us)) ks"

lemma drops_simps [simp]: "drops [] = []" "drops ((d, us) # ks) = d # us @ drops ks" "keeps [] = []" "keeps ((d, us) # ks) = us @ keeps ks"
  by (simp_all add: drops_def keeps_def)

lemma offs_hd: "ks \<noteq> [] \<Longrightarrow> hd (offs q ks) = q \<and> offs q ks \<noteq> []" by (cases ks) auto

lemma length_offs [simp]: "length (offs q ks) = length ks" by (induction q ks rule: offs.induct) auto

lemma memmove_keep:
  "\<exists>W. memmove (P @ X @ Y @ Z) (length P) (length P + length X) (length Y) = Some (P @ Y @ W @ Z) \<and> length W = length X"
  by (rule exI[of _ "drop (length Y) (X @ Y)"]) (simp add: memmove_def rd_def wr_def patch_def)

lemma batch_loop:
  assumes "list_all enc_ok (drops ks)" "ks \<noteq> []"
    "lp_end = length P + length G + length (body (drops ks)) + 1"
  shows "\<exists>S'. lpBatchDelete_loop (P @ G @ body (drops ks) @ LP_EOF # sl) lp_end (length P) (offs (length P + length G) ks)
     = Some (P @ body (keeps ks) @ LP_EOF # S', length P + length (body (keeps ks)) + 1)"
  using assms
proof (induction ks arbitrary: P G)
  case (Cons k ks)
  obtain d us where k: "k = (d, us)" by (cases k)
  let ?m = "P @ G @ body (drops (k # ks)) @ LP_EOF # sl" and ?p = "length P + length G"
  let ?q = "?p + length (ent d)"
  have ok: "enc_ok d" using Cons.prems(1) k by simp
  have m: "?m = (P @ G) @ ent d @ (body us @ body (drops ks) @ LP_EOF # sl)" by (simp add: k)
  have pl: "length (P @ G) = ?p" by simp
  have g: "getb ?m ?p = Some (hd d)" "hd d \<noteq> LP_EOF" using getb_ent[OF ok, of "P @ G"] unfolding m by auto
  have s: "lpSkip ?m ?p = Some ?q" using skip_at[OF ok, of "P @ G"] unfolding m by simp
  have u: "lpBatchDelete_loop ?m lp_end (length P) (offs ?p (k # ks)) =
     (if ks \<noteq> [] \<and> us = [] then lpBatchDelete_loop ?m lp_end (length P) (offs ?q ks)
      else do {
        let keep_end = (if ks \<noteq> [] then ?q + length (body us) else lp_end);
        guard (keep_end > ?q);
        lp \<leftarrow> memmove ?m (length P) ?q (keep_end - ?q);
        lpBatchDelete_loop lp lp_end (length P + (keep_end - ?q)) (offs (?q + length (body us)) ks) })"
  proof -
    have us: "length (body us) = 0 \<longleftrightarrow> us = []"
      using Cons.prems(1) k body_ge[of us] by (cases us) auto
    have h: "ks \<noteq> [] \<Longrightarrow> hd (offs (?q + length (body us)) ks) = ?q + length (body us)" using offs_hd by blast
    have e: "offs (?q + length (body us)) ks \<noteq> [] \<longleftrightarrow> ks \<noteq> []" using offs_hd by (cases ks) auto
    show ?thesis
    proof (cases "ks \<noteq> []")
      case True
      then show ?thesis using g s us h e k by (auto simp: Let_def)
    next
      case False
      then show ?thesis using g s k by (simp add: Let_def)
    qed
  qed
  show ?case
  proof (cases "ks = []")
    case True
    then have le: "lp_end - ?q = length (body us @ [LP_EOF])" "lp_end > ?q" using Cons.prems(3) k by simp_all
    obtain W where "memmove (P @ (G @ ent d) @ (body us @ [LP_EOF]) @ sl) (length P) (length P + length (G @ ent d)) (length (body us @ [LP_EOF]))
        = Some (P @ (body us @ [LP_EOF]) @ W @ sl)" using memmove_keep by blast
    then have mv: "memmove ?m (length P) ?q (length (body us @ [LP_EOF])) = Some (P @ body us @ LP_EOF # (W @ sl))"
      using True k by (simp add: add.assoc)
    show ?thesis unfolding u using True le mv k by (intro exI[of _ "W @ sl"]) simp
  next
    case ks: False
    have okk: "list_all enc_ok (drops ks)" using Cons.prems(1) k by simp
    show ?thesis
    proof (cases "us = []")
      case True
      have "\<exists>S'. lpBatchDelete_loop (P @ (G @ ent d) @ body (drops ks) @ LP_EOF # sl) lp_end (length P) (offs (length P + length (G @ ent d)) ks)
         = Some (P @ body (keeps ks) @ LP_EOF # S', length P + length (body (keeps ks)) + 1)"
        using Cons.prems(3) k True by (intro Cons.IH[OF okk ks]) simp
      then show ?thesis unfolding u using ks True k by (simp add: add.assoc)
    next
      case False
      obtain W where W: "memmove (P @ (G @ ent d) @ body us @ (body (drops ks) @ LP_EOF # sl)) (length P) (length P + length (G @ ent d)) (length (body us))
        = Some (P @ body us @ W @ (body (drops ks) @ LP_EOF # sl))" "length W = length (G @ ent d)" using memmove_keep by blast
      then have mv: "memmove ?m (length P) ?q (length (body us)) = Some ((P @ body us) @ W @ body (drops ks) @ LP_EOF # sl)"
        using k by (simp add: add.assoc)
      have pos: "0 < length (body us)" using False Cons.prems(1) k body_ge[of us] by (cases us) auto
      then have gd: "guard (?q + length (body us) > ?q) = Some ()" by simp
      have IHr: "\<exists>S'. lpBatchDelete_loop ((P @ body us) @ W @ body (drops ks) @ LP_EOF # sl) lp_end (length (P @ body us)) (offs (length (P @ body us) + length W) ks)
         = Some ((P @ body us) @ body (keeps ks) @ LP_EOF # S', length (P @ body us) + length (body (keeps ks)) + 1)"
        using Cons.prems(3) k W(2) by (intro Cons.IH[OF okk ks]) simp
      have e: "length P + length (body us) + length W = ?q + length (body us)" using W(2) by simp
      obtain S' where L: "lpBatchDelete_loop ((P @ body us) @ W @ body (drops ks) @ LP_EOF # sl) lp_end (length P + length (body us)) (offs (?q + length (body us)) ks)
         = Some ((P @ body us) @ body (keeps ks) @ LP_EOF # S', length P + length (body us) + length (body (keeps ks)) + 1)"
        using IHr[unfolded length_append e] by blast
      have c: "\<not> (ks \<noteq> [] \<and> us = [])" "(ks \<noteq> []) = True" using ks False by simp_all
      have e1: "(?q + length (body us)) - ?q = length (body us)" by simp
      show ?thesis unfolding u if_not_P[OF c(1)] c(2) if_True Let_def gd bind.simps e1 mv L
        using False by (intro exI[of _ S']) (simp add: k)
    qed
  qed
qed simp

lemma lpk_batch_delete:
  assumes inv: "lp_inv n (xs @ drops ks)"
  shows "\<exists>sl'. lpBatchDelete a (lpk n (xs @ drops ks) sl) (offs (pos xs) ks) = Some (lpk (num_down (length ks) n) (xs @ keeps ks) sl')
     \<and> lp_inv (num_down (length ks) n) (xs @ keeps ks)"
proof (cases "ks = []")
  case True
  have "num_down 0 n = n" by (simp add: num_down_def)
  then show ?thesis using True inv by (auto simp: lpBatchDelete_def)
next
  case ne: False
  let ?cs = "xs @ drops ks" let ?t = "7 + length (body ?cs)" let ?new = "7 + length (body (xs @ keeps ks))"
  let ?A = "hdr (of_nat ?t) (of_nat n) @ body xs"
  have len: "length (body (keeps ks)) \<le> length (body (drops ks)) \<and> length (drops ks) = length (keeps ks) + length ks \<and> set (keeps ks) \<subseteq> set (drops ks)"
    by (induction ks) auto
  have m: "lpk n ?cs sl = ?A @ [] @ body (drops ks) @ LP_EOF # sl" by (simp add: lpk_def)
  have A: "length ?A = pos xs" by (simp add: pos_def)
  have ok: "list_all enc_ok (drops ks)" using inv by (simp add: lp_inv_def)
  have t: "?t = length ?A + length ([] :: mem) + length (body (drops ks)) + 1" by simp
  obtain S' where L: "lpBatchDelete_loop (lpk n ?cs sl) ?t (pos xs) (offs (pos xs) ks) = Some (?A @ body (keeps ks) @ LP_EOF # S', ?new)"
    using batch_loop[OF ok ne t, of sl] unfolding m[symmetric] A by (auto simp: pos_def)
  have o: "hd (offs (pos xs) ks) = pos xs" "\<not> offs (pos xs) ks = []" using offs_hd[OF ne] by auto
  have e1: "getb (lpk n ?cs sl) (?t - 1) = Some LP_EOF" using getb_eof[of n ?cs sl] by (simp add: pos_def)
  have e2: "getb (?A @ body (keeps ks) @ LP_EOF # S') (?new - 1) = Some LP_EOF"
    using getb_app[of "?A @ body (keeps ks)" "LP_EOF # S'" 0] len by (simp add: ac_simps)
  have nw: "?t - (?t - ?new) = ?new" "?new \<le> ?t" using len by simp_all
  have n: "n = 65535 \<or> n < 65535 \<and> length ks \<le> n" using inv len by (auto simp: lp_inv_def)
  let ?m1 = "hdr (of_nat ?new) (of_nat n) @ body xs @ body (keeps ks) @ LP_EOF # S'"
  let ?m = "hdr (of_nat ?new) (of_nat (num_down (length ks) n)) @ body xs @ body (keeps ks) @ LP_EOF # S'"
  have st: "lpSetTotalBytes (?A @ body (keeps ks) @ LP_EOF # S') (of_nat ?new) = Some ?m1" by simp
  have nm: "do { num \<leftarrow> lpGetNumElements ?m1; if num \<noteq> LP_HDR_NUMELE_UNKNOWN then lpSetNumElements ?m1 (ucast num - of_nat (length ks)) else Some ?m1 } = Some ?m"
    by (rule set_num_downs[OF n])
  have sh: "lpShrinkToFit a ?m = Some ?m" using shrink_id bytes_any by blast
  have nm2: "do { num \<leftarrow> lpGetNumElements ?m1; lp \<leftarrow> (if num \<noteq> LP_HDR_NUMELE_UNKNOWN then lpSetNumElements ?m1 (ucast num - of_nat (length ks)) else Some ?m1);
      lpShrinkToFit a lp } = Some ?m"
    using arg_cong[OF nm, of "\<lambda>r. Option.bind r (lpShrinkToFit a)"] sh by (simp only: bind_assoc bind.simps)
  have gs: "guard (?t \<ge> 1) = Some ()" "guard (LP_EOF = LP_EOF) = Some ()" "guard (?new \<le> ?t) = Some ()" "guard (?new \<ge> 1) = Some ()" using nw by simp_all
  have "lpBatchDelete a (lpk n ?cs sl) (offs (pos xs) ks) = Some ?m"
    unfolding lpBatchDelete_def if_not_P[OF o(2)] lpk_bytes[OF inv] Let_def bind.simps gs e1 o(1) L prod.case nw(1) e2 st length_offs nm2 ..
  moreover have "lp_inv (num_down (length ks) n) (xs @ keeps ks)"
    using inv len num_down_inv[OF inv, of "xs @ keeps ks" "length ks"] by (auto simp: lp_inv_def list_all_iff)
  ultimately show ?thesis by (intro exI[of _ S']) (simp add: lpk_def)
qed

section \<open>Batches\<close>

definition entry_bytes :: "listpackEntry \<Rightarrow> mem" where
  "entry_bytes e = (case sval e of Some s \<Rightarrow> lp_bytes s | None \<Rightarrow> lpEncodeIntegerGetType (lval e))"

definition entry_ok :: "listpackEntry \<Rightarrow> bool" where
  "entry_ok e \<longleftrightarrow> (case sval e of Some s \<Rightarrow> length s + 5 < 2 ^ 32 | None \<Rightarrow> True)"

definition entry_text :: "listpackEntry \<Rightarrow> mem" where
  "entry_text e = (case sval e of Some s \<Rightarrow> s | None \<Rightarrow> idec (sint (lval e)))"

lemma entry_bytes_ok: "entry_ok e \<Longrightarrow> enc_ok (entry_bytes e) \<and> etext (entry_bytes e) = entry_text e"
  using lp_bytes_ok int_bytes_ok int_text by (auto simp: entry_ok_def entry_bytes_def entry_text_def split: option.splits)

lemma encode_entry:
  assumes "entry_ok e"
  obtains enctype intenc where
    "(case sval e of Some s \<Rightarrow> lpEncodeGetType s
         | None \<Rightarrow> (LP_ENCODING_INT, lpEncodeIntegerGetType (lval e), length (lpEncodeIntegerGetType (lval e)))) = (enctype, intenc, length (entry_bytes e))"
    "\<And>m d. (if enctype = LP_ENCODING_INT then wr m d (take (length (entry_bytes e)) intenc)
            else do { s \<leftarrow> sval e; lpEncodeString m d s }) = wr m d (entry_bytes e)"
proof (cases "sval e")
  case None
  then show ?thesis using that[of LP_ENCODING_INT "lpEncodeIntegerGetType (lval e)"] by (simp add: entry_bytes_def)
next
  case (Some s)
  then have l: "length s < 2 ^ 32" using assms by (simp add: entry_ok_def)
  show ?thesis
  proof (cases "lpStringToInt64 s")
    case None
    then show ?thesis using Some str_bytes_length[OF l] that[of LP_ENCODING_STRING "[]"]
      by (simp add: lpEncodeGetType_def lp_bytes_def lpEncodeString_wr Let_def entry_bytes_def)
  next
    case (Some v)
    then show ?thesis using \<open>sval e = Some s\<close> that[of LP_ENCODING_INT "lpEncodeIntegerGetType v"]
      by (simp add: lpEncodeGetType_def lp_bytes_def entry_bytes_def)
  qed
qed

lemma encode_entries_len: "list_all entry_ok es \<Longrightarrow> snd (lpEncodeEntries es) = length (body (map entry_bytes es))"
proof (induction es)
  case (Cons e es)
  obtain enctype intenc where "(case sval e of Some s \<Rightarrow> lpEncodeGetType s
         | None \<Rightarrow> (LP_ENCODING_INT, lpEncodeIntegerGetType (lval e), length (lpEncodeIntegerGetType (lval e)))) = (enctype, intenc, length (entry_bytes e))"
    using Cons.prems by (auto intro: encode_entry[of e])
  then show ?case using Cons by (simp add: Let_def split_def length_ent)
qed simp

lemma write_entries:
  "list_all entry_ok es \<Longrightarrow> length G = length (body (map entry_bytes es)) \<Longrightarrow>
   lpWriteEntries (A @ G @ T) (length A) es (fst (lpEncodeEntries es)) newp =
     Some (A @ body (map entry_bytes es) @ T, length A + length (body (map entry_bytes es)),
       if es = [] then newp else Some (length A + length (body (map entry_bytes (butlast es)))))"
proof (induction es arbitrary: A G newp)
  case (Cons e es)
  let ?c = "entry_bytes e" and ?bl = "lpEncodeBacklen (of_nat (length (entry_bytes e)))"
  obtain enctype intenc where p: "(case sval e of Some s \<Rightarrow> lpEncodeGetType s
         | None \<Rightarrow> (LP_ENCODING_INT, lpEncodeIntegerGetType (lval e), length (lpEncodeIntegerGetType (lval e)))) = (enctype, intenc, length ?c)"
    "\<And>m d. (if enctype = LP_ENCODING_INT then wr m d (take (length ?c) intenc) else do { s \<leftarrow> sval e; lpEncodeString m d s }) = wr m d ?c"
    using Cons.prems by (auto intro: encode_entry[of e])
  have fe: "fst (lpEncodeEntries (e # es)) = \<lparr>ie_enctype = enctype, ie_enclen = length ?c, ie_intenc = intenc, ie_backlen = ?bl\<rparr> # fst (lpEncodeEntries es)"
    using p(1) by (simp add: Let_def split_def)
  define G1 G2 where "G1 = take (length (ent ?c)) G" and "G2 = drop (length (ent ?c)) G"
  have g: "G = G1 @ G2" "length G1 = length (ent ?c)" "length G2 = length (body (map entry_bytes es))"
    using Cons.prems(2) by (simp_all add: G1_def G2_def)
  have w: "do { lp \<leftarrow> wr (A @ G @ T) (length A) ?c; wr lp (length A + length ?c) ?bl } = Some ((A @ ent ?c) @ G2 @ T)"
    using wr_wr[of "A @ G @ T" "length A" ?c ?bl] wr_over[OF g(2), of A "G2 @ T"] by (simp add: g(1) ent_def)
  have "lpWriteEntries (A @ G @ T) (length A) (e # es) (fst (lpEncodeEntries (e # es))) newp =
     do { lp \<leftarrow> do { lp \<leftarrow> wr (A @ G @ T) (length A) ?c; wr lp (length A + length ?c) ?bl };
          lpWriteEntries lp (length A + length ?c + length ?bl) es (fst (lpEncodeEntries es)) (Some (length A)) }"
    unfolding fe lpWriteEntries.simps Let_def listpackInsertEntry.simps p(2) by (simp only: bind_assoc)
  also have "\<dots> = lpWriteEntries ((A @ ent ?c) @ G2 @ T) (length (A @ ent ?c)) es (fst (lpEncodeEntries es)) (Some (length A))"
    unfolding w bind.simps by (simp add: length_ent add.assoc)
  also have "\<dots> = Some ((A @ ent ?c) @ body (map entry_bytes es) @ T, length (A @ ent ?c) + length (body (map entry_bytes es)),
       if es = [] then Some (length A) else Some (length (A @ ent ?c) + length (body (map entry_bytes (butlast es)))))"
    using Cons.prems g(3) by (intro Cons.IH) auto
  finally show ?case by simp
qed simp

text \<open>The count of a batch.\<close>

definition num_batch :: "nat \<Rightarrow> nat \<Rightarrow> nat" where
  "num_batch k n = (if n = 65535 \<or> k > 65535 - n then 65535 else n + k)"

lemma set_num_batch:
  assumes "n \<le> 65535"
  shows "do { num \<leftarrow> lpGetNumElements (hdr t (of_nat n) @ r); if num \<noteq> LP_HDR_NUMELE_UNKNOWN then
      (if int k > uint LP_HDR_NUMELE_UNKNOWN - uint num then lpSetNumElements (hdr t (of_nat n) @ r) (ucast LP_HDR_NUMELE_UNKNOWN)
       else lpSetNumElements (hdr t (of_nat n) @ r) (ucast (num + of_nat k))) else Some (hdr t (of_nat n) @ r) }
     = Some (hdr t (of_nat (num_batch k n)) @ r)"
proof -
  have un: "uint (of_nat n :: u32) = int n" using assms by (simp add: uint_nat unat_of_nat take_bit_nat_eq_self)
  have m: "uint LP_HDR_NUMELE_UNKNOWN = 65535" "(ucast LP_HDR_NUMELE_UNKNOWN :: u64) = of_nat 65535" by (simp_all add: LP_HDR_NUMELE_UNKNOWN_def)
  have a: "(ucast (of_nat n + of_nat k :: u32) :: u64) = of_nat (n + k)" if "k \<le> 65535 - n"
    using that assms ucast_num[of "n + k"] by simp
  have c: "int k > 65535 - int n \<longleftrightarrow> k > 65535 - n" using assms by linarith
  show ?thesis
  proof (cases "n = 65535")
    case True
    then have q: "(of_nat n :: u32) = LP_HDR_NUMELE_UNKNOWN" using num_unknown[OF assms] by simp
    show ?thesis unfolding num_hdr[OF assms, of t r] bind.simps using q True by (simp add: num_batch_def)
  next
    case False
    then show ?thesis using num_hdr[OF assms, of t r] num_unknown[OF assms] a c by (simp only: un m bind.simps num_batch_def) auto
  qed
qed

lemma num_batch_inv: "lp_inv n cs \<Longrightarrow> length cs' = length cs + k \<Longrightarrow> num_batch k n = 65535 \<or> num_batch k n < 65535 \<and> num_batch k n = length cs'"
  by (auto simp: lp_inv_def num_batch_def)

lemma entries_ok: "list_all entry_ok es \<Longrightarrow> list_all enc_ok (map entry_bytes es)"
  using entry_bytes_ok by (induction es) auto

lemma lpk_batch_insert:
  assumes inv: "lp_inv n (xs @ ys)" and es: "list_all entry_ok es" "es \<noteq> []"
    and fit: "int (7 + length (body (xs @ map entry_bytes es @ ys))) < 2 ^ 32"
    and gr: "granted a (7 + length (body (xs @ map entry_bytes es @ ys))) (7 + length (body (xs @ ys)))"
  shows "\<exists>sl'. lpBatchInsert a (lpk n (xs @ ys) sl) (pos xs) LP_BEFORE es =
       Some (Some (lpk (num_batch (length es) n) (xs @ map entry_bytes es @ ys) sl', Some (pos (xs @ map entry_bytes (butlast es)))))
     \<and> lp_inv (num_batch (length es) n) (xs @ map entry_bytes es @ ys)"
proof -
  let ?B = "body (map entry_bytes es)" and ?T = "body ys @ [LP_EOF]" and ?old = "7 + length (body (xs @ ys))"
  let ?A = "hdr (of_nat ?old) (of_nat n) @ body xs" and ?new = "7 + length (body (xs @ map entry_bytes es @ ys))"
  have m: "lpk n (xs @ ys) sl = ?A @ [] @ ?T @ sl" by (simp add: lpk_def)
  have A: "length ?A = pos xs" by (simp add: pos_def)
  have nn: "?new = length ?A + length ?B + length ?T" and o: "?old = length ?A + length ([] :: mem) + length ?T" by simp_all
  obtain m1 m2 G S' where mv0: "resize_up a (lpk n (xs @ ys) sl) ?new ?old = Some m1" and
     mv1: "memmove m1 (length ?A + length ?B) (length ?A + length ([] :: mem)) (length ?T) = Some m2"
     "resize_down a m2 ?new ?old = Some (?A @ G @ ?T @ S')" and lg: "length G = length ?B"
    using move_room[OF m nn o gr] by blast
  have rd: "m2 = ?A @ G @ ?T @ S'" using mv1(2) by (simp add: resize_down_def)
  obtain encs where enc: "lpEncodeEntries es = (encs, length ?B)" using encode_entries_len[OF es(1)] by (cases "lpEncodeEntries es") auto
  have w: "lpWriteEntries m2 (pos xs) es encs None = Some (hdr (of_nat ?old) (of_nat n) @ body xs @ ?B @ ?T @ S', pos xs + length ?B, Some (pos (xs @ map entry_bytes (butlast es))))"
    using write_entries[OF es(1) lg, of ?A "?T @ S'" None] es(2) enc A unfolding rd by simp
  have n: "n \<le> 65535" using inv by (auto simp: lp_inv_def)
  have e: "?old + length ?B = ?new" "?old - pos xs = length ?T" by (simp_all add: pos_def)
  have sm: "\<not> int ?new > 2 ^ 32 - 1" using fit by simp
  let ?m3 = "hdr (of_nat ?old) (of_nat n) @ body xs @ ?B @ ?T @ S'"
  let ?m = "hdr (of_nat ?new) (of_nat (num_batch (length es) n)) @ body xs @ ?B @ ?T @ S'"
  have nm: "do { num_elements \<leftarrow> lpGetNumElements ?m3;
       lp \<leftarrow> (if num_elements \<noteq> LP_HDR_NUMELE_UNKNOWN then
                (if int (length es) > uint LP_HDR_NUMELE_UNKNOWN - uint num_elements
                 then lpSetNumElements ?m3 (ucast LP_HDR_NUMELE_UNKNOWN)
                 else lpSetNumElements ?m3 (ucast (num_elements + of_nat (length es))))
              else Some ?m3);
       lp \<leftarrow> lpSetTotalBytes lp (of_nat ?new);
       Some (Some (lp, Some (pos (xs @ map entry_bytes (butlast es))))) } = Some (Some (?m, Some (pos (xs @ map entry_bytes (butlast es)))))"
    using arg_cong[OF set_num_batch[OF n, of "of_nat ?old" "body xs @ ?B @ ?T @ S'" "length es"],
        of "\<lambda>r. Option.bind r (\<lambda>lp. Option.bind (lpSetTotalBytes lp (of_nat ?new)) (\<lambda>lp. Some (Some (lp, Some (pos (xs @ map entry_bytes (butlast es)))))))"]
    by (simp only: bind_assoc bind.simps set_total)
  have mv': "memmove m1 (pos xs + length ?B) (pos xs) (length ?T) = Some m2" using mv1(1) A by simp
  have nb: "(LP_BEFORE = LP_AFTER) = False" by simp
  have gs: "guard (LP_BEFORE = LP_BEFORE \<or> False) = Some ()" "guard (es \<noteq> []) = Some ()" using es(2) by simp_all
  have "lpBatchInsert a (lpk n (xs @ ys) sl) (pos xs) LP_BEFORE es = Some (Some (?m, Some (pos (xs @ map entry_bytes (butlast es)))))"
    unfolding lpBatchInsert_def gs bind.simps nb if_False enc Let_def prod.case lpk_bytes[OF inv] e if_not_P[OF sm] resize_up_def[symmetric] mv0 option.case mv' w
    by (rule nm)
  moreover have "lp_inv (num_batch (length es) n) (xs @ map entry_bytes es @ ys)"
    using inv fit entries_ok[OF es(1)] num_batch_inv[OF inv, of "xs @ map entry_bytes es @ ys" "length es"] by (auto simp: lp_inv_def)
  ultimately show ?thesis by (intro exI[of _ S']) (simp add: lpk_def)
qed

section \<open>New blocks, merging, copying\<close>

lemma six: "6 \<le> length m \<Longrightarrow> \<exists>a b c d e g. m = a # b # c # d # e # g # drop 6 m"
proof -
  assume "6 \<le> length m"
  then obtain a b c d e g r where "m = a # b # c # d # e # g # r"
    by (metis (no_types) Suc_le_length_iff eval_nat_numeral(3) numeral_eq_Suc pred_numeral_simps(1-3) semiring_norm(26-28))
  then show ?thesis by simp
qed

lemma set_total_num:
  assumes "6 \<le> length m"
  shows "do { m \<leftarrow> lpSetTotalBytes m t; lpSetNumElements m n } = Some (hdr t n @ drop 6 m)"
    "do { m \<leftarrow> lpSetNumElements m n; lpSetTotalBytes m t } = Some (hdr t n @ drop 6 m)"
proof -
  obtain a b c d e g where m: "m = a # b # c # d # e # g # drop 6 m" using six[OF assms] by blast
  have "do { m \<leftarrow> lpSetTotalBytes (a # b # c # d # e # g # r) t; lpSetNumElements m n } = Some (hdr t n @ r)"
    "do { m \<leftarrow> lpSetNumElements (a # b # c # d # e # g # r) n; lpSetTotalBytes m t } = Some (hdr t n @ r)" for r
    by (simp_all add: lpSetTotalBytes_def lpSetNumElements_def setb_def hdr_def byte_and_255 eval_nat_numeral)
  then show "do { m \<leftarrow> lpSetTotalBytes m t; lpSetNumElements m n } = Some (hdr t n @ drop 6 m)"
    "do { m \<leftarrow> lpSetNumElements m n; lpSetTotalBytes m t } = Some (hdr t n @ drop 6 m)" using m by metis+
qed

lemma lpk_new:
  assumes "a (max capacity 7) \<noteq> None" shows "\<exists>sl. lpNew a capacity = Some (Some (lpk 0 [] sl)) \<and> lp_inv 0 []"
proof -
  let ?n = "if capacity > LP_HDR_SIZE + 1 then capacity else LP_HDR_SIZE + 1"
  have n: "?n = max capacity 7" by simp
  obtain f where f: "a ?n = Some f" using assms unfolding n by blast
  let ?m = "map f [0..<?n]"
  have l: "7 \<le> length ?m" by simp
  then obtain x r where d: "drop 6 ?m = x # r" by (cases "drop 6 ?m") auto
  have "do { lp \<leftarrow> lpSetTotalBytes ?m (of_nat (LP_HDR_SIZE + 1)); lp \<leftarrow> lpSetNumElements lp 0; setb lp LP_HDR_SIZE LP_EOF }
     = do { lp \<leftarrow> Some (hdr (of_nat 7) 0 @ x # r); setb lp 6 LP_EOF }"
    using arg_cong[OF set_total_num(1)[of ?m "of_nat 7" 0], of "\<lambda>r. Option.bind r (\<lambda>lp. setb lp 6 LP_EOF)"] l d
    by (simp add: bind_assoc)
  then have e: "do { lp \<leftarrow> lpSetTotalBytes ?m (of_nat (LP_HDR_SIZE + 1)); lp \<leftarrow> lpSetNumElements lp 0; setb lp LP_HDR_SIZE LP_EOF }
     = Some (hdr (of_nat 7) 0 @ LP_EOF # r)" by (simp add: setb_def list_update_append)
  have "lpNew a capacity = Some (Some (hdr (of_nat 7) 0 @ LP_EOF # r))"
    using arg_cong[OF e, of "\<lambda>r. Option.bind r (\<lambda>lp. Some (Some lp))"] f unfolding lpNew_def lp_malloc_def
    by (simp only: bind_assoc bind.simps option.map option.case)
  then show ?thesis by (intro exI[of _ r]) (simp add: lpk_def lp_inv_def)
qed

lemma lpk_new_refused: "a (max capacity 7) = None \<Longrightarrow> lpNew a capacity = Some None"
proof -
  assume a: "a (max capacity 7) = None"
  have "(if capacity > LP_HDR_SIZE + 1 then capacity else LP_HDR_SIZE + 1) = max capacity 7" by simp
  then show ?thesis using a by (simp only: lpNew_def lp_malloc_def option.map option.case)
qed

lemma lpk_new_entries:
  assumes es: "list_all entry_ok es" "es \<noteq> []" and fit: "int (7 + length (body (map entry_bytes es))) < 2 ^ 32"
    and gr: "a (7 + length (body (map entry_bytes es))) = Some f"
  shows "\<exists>n. lpNewWithEntries a es = Some (Some (lpk n (map entry_bytes es) [])) \<and> lp_inv n (map entry_bytes es)"
proof -
  let ?B = "body (map entry_bytes es)" and ?t = "7 + length (body (map entry_bytes es))"
  define m where "m = map f [0..<?t]"
  have ml: "lp_malloc a ?t = Some m" using gr by (simp add: lp_malloc_def m_def)
  define G where "G = take (length ?B) (drop 6 m)"
  have l: "length m = ?t" by (simp add: m_def)
  have dl: "length (drop (6 + length ?B) m) = 1" using l by simp
  then obtain x where x: "drop (6 + length ?B) m = [x]" by (metis One_nat_def length_0_conv length_Suc_conv)
  have m: "m = take 6 m @ G @ [x]" unfolding G_def x[symmetric]
    by (metis add.commute append_take_drop_id drop_drop)
  have g: "length G = length ?B" "length (take 6 m) = 6" using l by (simp_all add: G_def)
  obtain encs where enc: "lpEncodeEntries es = (encs, length ?B)" using encode_entries_len[OF es(1)] by (cases "lpEncodeEntries es") auto
  obtain np where w: "lpWriteEntries m 6 es encs None = Some (take 6 m @ ?B @ [x], 6 + length ?B, np)"
    using write_entries[OF es(1) g(1), of "take 6 m" "[x]" None] enc g(2) m by auto
  define n where "n = (if int (length es) \<ge> 65535 then 65535 else length es)"
  have n: "ucast (if int (length es) \<ge> uint LP_HDR_NUMELE_UNKNOWN then LP_HDR_NUMELE_UNKNOWN else of_nat (length es)) = (of_nat n :: u64)"
    using ucast_num[of "length es"] by (auto simp: n_def LP_HDR_NUMELE_UNKNOWN_def)
  have sb: "setb (take 6 m @ ?B @ [x]) (6 + length ?B) LP_EOF = Some (take 6 m @ ?B @ [LP_EOF])"
    using g(2) by (simp add: setb_def list_update_append)
  have fin: "do { lp \<leftarrow> lpSetNumElements (take 6 m @ ?B @ [LP_EOF]) (of_nat n); lp \<leftarrow> lpSetTotalBytes lp (of_nat ?t); Some (Some lp) } =
      Some (Some (hdr (of_nat ?t) (of_nat n) @ ?B @ [LP_EOF]))"
  proof -
    have "do { lp \<leftarrow> lpSetNumElements (take 6 m @ ?B @ [LP_EOF]) (of_nat n); lpSetTotalBytes lp (of_nat ?t) } =
        Some (hdr (of_nat ?t) (of_nat n) @ ?B @ [LP_EOF])"
      using set_total_num(2)[of "take 6 m @ ?B @ [LP_EOF]" "of_nat n" "of_nat ?t"] g(2) by simp
    from arg_cong[OF this, of "\<lambda>r. Option.bind r (\<lambda>lp. Some (Some lp))"] show ?thesis by (simp only: bind_assoc bind.simps)
  qed
  have sm: "\<not> int ?t > 2 ^ 32 - 1" and t: "6 + length ?B + 1 = ?t" using fit by simp_all
  have ge: "guard (es \<noteq> []) = Some ()" using es(2) by simp
  have "lpNewWithEntries a es = Some (Some (hdr (of_nat ?t) (of_nat n) @ ?B @ [LP_EOF]))"
    unfolding lpNewWithEntries_def ge bind.simps enc Let_def prod.case hdr_sizes(1) t if_not_P[OF sm] ml w sb n
    by (rule fin)
  moreover have "lp_inv n (map entry_bytes es)" using fit entries_ok[OF es(1)] by (simp add: lp_inv_def n_def)
  ultimately show ?thesis by (intro exI[of _ n]) (simp add: lpk_def)
qed

lemma lpk_dup:
  assumes i: "lp_inv n cs" and gr: "a (7 + length (body cs)) \<noteq> None" shows "lpDup a (lpk n cs sl) = Some (lpk n cs [])"
proof -
  have "rd (lpk n cs sl) 0 (7 + length (body cs)) = Some (lpk n cs [])" by (simp add: lpk_def rd_def)
  moreover have "length m = 7 + length (body cs) \<Longrightarrow> wr m 0 (lpk n cs []) = Some (lpk n cs [])" for m by (simp add: wr_def patch_def lpk_def)
  ultimately show ?thesis using lpk_bytes[OF i, of sl] gr by (auto simp: lpDup_def lp_malloc_def)
qed

lemma realloc_extend: "length B \<le> N \<Longrightarrow> \<exists>X. zrealloc f (B @ S) N = B @ X \<and> length X = N - length B"
  by (rule exI[of _ "take (N - length B) S @ map f [length (B @ S)..<N]"]) (auto simp: zrealloc_def min_def)

lemma lpk_merge:
  assumes i1: "lp_inv n1 cs1" and i2: "lp_inv n2 cs2" and fit: "int (7 + length (body (cs1 @ cs2))) < 2 ^ 32 - 1"
    and gr: "a (7 + length (body (cs1 @ cs2))) = Some f"
  shows "\<exists>n. lpMerge a False (Some (lpk n1 cs1 sl1)) (Some (lpk n2 cs2 sl2)) =
     Some (Some (lpk n (cs1 @ cs2) [], length (body cs1) \<ge> length (body cs2))) \<and> lp_inv n (cs1 @ cs2)"
proof -
  let ?b1 = "body cs1" and ?b2 = "body cs2"
  obtain k1 where k1: "lpLength (lpk n1 cs1 sl1) = Some (of_nat (length cs1), lpk k1 cs1 sl1)" using lpk_length[OF i1, of sl1] by blast
  obtain k2 where k2: "lpLength (lpk n2 cs2 sl2) = Some (of_nat (length cs2), lpk k2 cs2 sl2)" using lpk_length[OF i2, of sl2] by blast
  have u: "unat (of_nat (length cs1) :: u32) = length cs1" "unat (of_nat (length cs2) :: u32) = length cs2"
    using inv_len[OF i1] inv_len[OF i2] by (simp_all add: unat_of_nat take_bit_nat_eq_self)
  define N where "N = 7 + length ?b1 + length ?b2"
  define n where "n = (if int (length cs1 + length cs2) < 65535 then length cs1 + length cs2 else 65535)"
  have e: "7 + length ?b1 + (7 + length ?b2) - 6 - 1 = N" "int N < 2 ^ 32 - 1" "N = 7 + length (body (cs1 @ cs2))"
    using fit by (simp_all add: N_def)
  have al: "a N = Some f" using gr e(3) by simp
  let ?res = "hdr (of_nat N) (of_nat n) @ ?b1 @ ?b2 @ [LP_EOF]"
  have fin: "do { target \<leftarrow> lpSetNumElements (hdr t k @ ?b1 @ ?b2 @ [LP_EOF]) (of_nat n); target \<leftarrow> lpSetTotalBytes target (of_nat N); Some (Some (target, b)) }
      = Some (Some (?res, b))" for t k b by simp
  have gs: "guard (7 + length ?b1 + (7 + length ?b2) \<ge> 6 + 1) = Some ()" "guard (int N < 2 ^ 32 - 1) = Some ()"
    "guard (7 + length ?b1 \<ge> 1 \<and> 7 + length ?b2 \<ge> 6) = Some ()" using e by simp_all
  have cond: "(Some (lpk n1 cs1 sl1) = None \<or> Some (lpk n2 cs2 sl2) = None) = False" "(7 + length ?b1 \<ge> 7 + length ?b2) = (length ?b1 \<ge> length ?b2)" by simp_all
  note step = lpMerge_def cond lpk_bytes[OF i1] lpk_bytes[OF i2] bind.simps k1 k2 prod.case u Let_def hdr_sizes(1) if_False
  have "lpMerge a False (Some (lpk n1 cs1 sl1)) (Some (lpk n2 cs2 sl2)) = Some (Some (?res, length ?b1 \<ge> length ?b2))"
  proof (cases "length ?b1 \<ge> length ?b2")
    case True
    let ?A = "hdr (of_nat (7 + length ?b1)) (of_nat k1) @ ?b1"
    obtain X where X: "zrealloc f (lpk k1 cs1 sl1) N = ?A @ X" "length X = length (?b2 @ [LP_EOF])"
      using realloc_extend[of ?A N f "LP_EOF # sl1"] unfolding lpk_def N_def by auto
    have r: "rd (lpk k2 cs2 sl2) 6 (7 + length ?b2 - 6) = Some (?b2 @ [LP_EOF])" by (simp add: lpk_def rd_def)
    have w: "wr (?A @ X) (7 + length ?b1 - 1) (?b2 @ [LP_EOF]) = Some (hdr (of_nat (7 + length ?b1)) (of_nat k1) @ ?b1 @ ?b2 @ [LP_EOF])"
      using wr_over[OF X(2), of ?A "[]"] by simp
    have c: "(length ?b1 \<ge> length ?b2) = True" using True by simp
    show ?thesis unfolding step c if_True e(1) gs n_def[symmetric] lp_realloc_def al option.map X(1) r w bind.simps by (rule fin)
  next
    case False
    let ?H = "hdr (of_nat (7 + length ?b2)) (of_nat k2)" and ?H1 = "hdr (of_nat (7 + length ?b1)) (of_nat k1)"
    obtain X where X: "zrealloc f (lpk k2 cs2 sl2) N = (?H @ ?b2 @ [LP_EOF]) @ X" "length X = length ?b1"
      using realloc_extend[of "?H @ ?b2 @ [LP_EOF]" N f sl2] unfolding lpk_def N_def by auto
    define Y where "Y = take (6 + length ?b1) ((?H @ ?b2 @ [LP_EOF]) @ X)"
    have ly: "length Y = length (?H1 @ ?b1)" using X(2) by (simp add: Y_def)
    have mv: "memmove ((?H @ ?b2 @ [LP_EOF]) @ X) (7 + length ?b1 - 1) 6 (7 + length ?b2 - 6) = Some (Y @ ?b2 @ [LP_EOF])"
      using X(2) by (simp add: memmove_def rd_def wr_def patch_def Y_def)
    have r: "rd (lpk k1 cs1 sl1) 0 (7 + length ?b1 - 1) = Some (?H1 @ ?b1)" by (simp add: lpk_def rd_def)
    have w: "wr (Y @ ?b2 @ [LP_EOF]) 0 (?H1 @ ?b1) = Some (?H1 @ ?b1 @ ?b2 @ [LP_EOF])"
      using wr_over[OF ly, of "[]" "?b2 @ [LP_EOF]"] by simp
    have c: "(length ?b1 \<ge> length ?b2) = False" using False by simp
    show ?thesis unfolding step c if_False e(1) gs n_def[symmetric] lp_realloc_def al option.map X(1) mv r w bind.simps by (rule fin)
  qed
  moreover have "lp_inv n (cs1 @ cs2)" using i1 i2 fit by (auto simp: lp_inv_def n_def)
  ultimately show ?thesis using e(3) by (intro exI[of _ n]) (simp add: lpk_def)
qed

section \<open>Reading and searching\<close>

text \<open>What \<open>lpGetWithSize\<close> computes, by the kind of the first byte.\<close>

lemma getsize_kind: "lpGetWithSize lp p None z = do { e \<leftarrow> getb lp p; v \<leftarrow> lpGetWithBuf lp p None; case ekind e of
      K6S \<Rightarrow> (case v of PStr off n \<Rightarrow> Some (v, 1 + of_nat n + of_nat (lpEncodeBacklenBytes (of_nat n + 1))) | _ \<Rightarrow> None)
    | K12S \<Rightarrow> (case v of PStr off n \<Rightarrow> Some (v, 2 + of_nat n + of_nat (lpEncodeBacklenBytes (of_nat n + 2))) | _ \<Rightarrow> None)
    | K32S \<Rightarrow> (case v of PStr off n \<Rightarrow> Some (v, 5 + of_nat n + of_nat (lpEncodeBacklenBytes (of_nat n + 5))) | _ \<Rightarrow> None)
    | K7 \<Rightarrow> Some (v, 2) | K13 \<Rightarrow> Some (v, 3) | K16 \<Rightarrow> Some (v, 4) | K24 \<Rightarrow> Some (v, 5) | K32 \<Rightarrow> Some (v, 6) | K64 \<Rightarrow> Some (v, 10)
    | _ \<Rightarrow> Some (v, z) }"
proof (cases "getb lp p")
  case (Some e)
  have k: "LP_ENCODING_IS_7BIT_UINT e = (ekind e = K7)" "LP_ENCODING_IS_6BIT_STR e = (ekind e = K6S)"
     "LP_ENCODING_IS_13BIT_INT e = (ekind e = K13)" "LP_ENCODING_IS_12BIT_STR e = (ekind e = K12S)" "(e = 0xF0) = (ekind e = K32S)"
     "(e = 0xF1) = (ekind e = K16)" "(e = 0xF2) = (ekind e = K24)" "(e = 0xF3) = (ekind e = K32)" "(e = 0xF4) = (ekind e = K64)"
    using kind_tests[of e] by simp_all
  show ?thesis unfolding lpGetWithSize_def get_kind Some bind.simps k lp_deliver_def
    by (cases "ekind e") (simp_all add: map_conv_bind_option comp_def bind_assoc)
qed (simp add: lpGetWithSize_def)

text \<open>Moving a reader: what it sees at the start of an encoding it sees inside a block.\<close>

fun shift :: "nat \<Rightarrow> lpval \<Rightarrow> lpval" where
  "shift d (PStr off n) = PStr (d + off) n"
| "shift d v = v"

lemma at_mono:
  assumes g: "\<And>i x. getb c i = Some x \<Longrightarrow> getb m (p + i) = Some x"
  shows "LP_ENCODING_6BIT_STR_LEN c 0 = Some l \<Longrightarrow> LP_ENCODING_6BIT_STR_LEN m p = Some l"
    "LP_ENCODING_12BIT_STR_LEN c 0 = Some l \<Longrightarrow> LP_ENCODING_12BIT_STR_LEN m p = Some l"
    "LP_ENCODING_32BIT_STR_LEN c 0 = Some l \<Longrightarrow> LP_ENCODING_32BIT_STR_LEN m p = Some l"
    "u64_at c 0 k = Some u \<Longrightarrow> u64_at m p k = Some u"
  using g[of 0] g[of 1] g[of 2] g[of 3] g[of 4] g[of "k + 1"]
  by (auto simp: LP_ENCODING_6BIT_STR_LEN_def LP_ENCODING_12BIT_STR_LEN_def LP_ENCODING_32BIT_STR_LEN_def u64_at_def numeral_2_eq_2 split: bind_splits)

lemma le_mono:
  assumes g: "\<And>k u. u64_at c 0 k = Some u \<Longrightarrow> u64_at m p k = Some u"
  shows "le16_at c 0 = Some u \<Longrightarrow> le16_at m p = Some u" "le24_at c 0 = Some u \<Longrightarrow> le24_at m p = Some u"
    "le32_at c 0 = Some u \<Longrightarrow> le32_at m p = Some u" "le64_at c 0 = Some u \<Longrightarrow> le64_at m p = Some u"
proof -
  have 16: "le16_at c 0 = Some u \<Longrightarrow> le16_at m p = Some u" for u
    using g[of 0] g[of 1] by (auto simp: le16_at_def split: bind_splits)
  have 24: "le24_at c 0 = Some u \<Longrightarrow> le24_at m p = Some u" for u
    using g[of 2] 16 by (auto simp: le24_at_def split: bind_splits)
  have 32: "le32_at c 0 = Some u \<Longrightarrow> le32_at m p = Some u" for u
    using g[of 3] 24 by (auto simp: le32_at_def split: bind_splits)
  have 64: "le64_at c 0 = Some u \<Longrightarrow> le64_at m p = Some u" for u
    using g[of 4] g[of 5] g[of 6] g[of 7] 32 by (auto simp: le64_at_def split: bind_splits)
  show "le16_at c 0 = Some u \<Longrightarrow> le16_at m p = Some u" "le24_at c 0 = Some u \<Longrightarrow> le24_at m p = Some u"
    "le32_at c 0 = Some u \<Longrightarrow> le32_at m p = Some u" "le64_at c 0 = Some u \<Longrightarrow> le64_at m p = Some u"
    using 16 24 32 64 by auto
qed

lemma get_mono:
  assumes "lpGetWithBuf c 0 None = Some v"
  shows "lpGetWithBuf (pre @ c @ r) (length pre) None = Some (shift (length pre) v)"
proof -
  have g: "getb c i = Some x \<Longrightarrow> getb (pre @ c @ r) (length pre + i) = Some x" for i x
    using getb_app[of pre "c @ r" i] getb_mono[of c i x r] by simp
  obtain e where e: "getb c 0 = Some e" using assms by (auto simp: get_kind split: bind_splits)
  have e': "getb (pre @ c @ r) (length pre) = Some e" using g[OF e] by simp
  let ?m = "pre @ c @ r" and ?p = "length pre"
  have u: "u64_at c 0 k = Some u \<Longrightarrow> u64_at ?m ?p k = Some u" for k u by (rule at_mono(4)[OF g])
  have s1: "getb c (Suc 0) = Some x \<Longrightarrow> getb ?m (Suc ?p) = Some x" for x using g[of 1 x] by simp
  have m1: "LP_ENCODING_6BIT_STR_LEN c 0 = Some l \<Longrightarrow> LP_ENCODING_6BIT_STR_LEN ?m ?p = Some l" for l by (rule at_mono(1)[OF g])
  have m2: "LP_ENCODING_12BIT_STR_LEN c 0 = Some l \<Longrightarrow> LP_ENCODING_12BIT_STR_LEN ?m ?p = Some l" for l by (rule at_mono(2)[OF g])
  have m3: "LP_ENCODING_32BIT_STR_LEN c 0 = Some l \<Longrightarrow> LP_ENCODING_32BIT_STR_LEN ?m ?p = Some l" for l by (rule at_mono(3)[OF g])
  have m4: "le16_at c 0 = Some l \<Longrightarrow> le16_at ?m ?p = Some l" for l by (rule le_mono(1)[OF u])
  have m5: "le24_at c 0 = Some l \<Longrightarrow> le24_at ?m ?p = Some l" for l by (rule le_mono(2)[OF u])
  have m6: "le32_at c 0 = Some l \<Longrightarrow> le32_at ?m ?p = Some l" for l by (rule le_mono(3)[OF u])
  have m7: "le64_at c 0 = Some l \<Longrightarrow> le64_at ?m ?p = Some l" for l by (rule le_mono(4)[OF u])
  show ?thesis using assms
    by (cases "ekind e") (auto simp: get_kind e e' dest!: m1 m2 m3 m4 m5 m6 m7 s1)
qed

lemma getb_total: "i < length c \<Longrightarrow> \<exists>x. getb c i = Some x" by simp

lemma u64_total: "k + 1 < length c \<Longrightarrow> \<exists>u. u64_at c 0 k = Some u" by (simp add: u64_at_def)

lemma le_total: "3 \<le> length c \<Longrightarrow> \<exists>u. le16_at c 0 = Some u" "4 \<le> length c \<Longrightarrow> \<exists>u. le24_at c 0 = Some u"
   "5 \<le> length c \<Longrightarrow> \<exists>u. le32_at c 0 = Some u" "9 \<le> length c \<Longrightarrow> \<exists>u. le64_at c 0 = Some u"
  by (simp_all add: le16_at_def le24_at_def le32_at_def le64_at_def u64_at_def)

text \<open>The value of an encoding, where its bytes are, and the size of the entry.\<close>

lemma of_nat_32: "n < 2 ^ 32 \<Longrightarrow> k < 2 ^ 32 \<Longrightarrow> (of_nat n :: u32) = of_nat k \<longleftrightarrow> n = k"
  by (simp add: word_unat_eq_iff unat_of_nat take_bit_nat_eq_self)

lemma len_32: "length c < 2 ^ 32 \<Longrightarrow> k \<le> length c \<Longrightarrow> (of_nat k :: u32) + l = of_nat (length c) \<Longrightarrow> k + unat l = length c"
proof -
  assume a: "length c < 2 ^ 32" "k \<le> length c" "(of_nat k :: u32) + l = of_nat (length c)"
  then have "l = of_nat (length c - k)" by (simp add: of_nat_diff algebra_simps)
  then have "unat l = length c - k" using a(1) by (simp only: unat_of_nat) (simp add: take_bit_nat_eq_self)
  then show ?thesis using a(2) by simp
qed

lemma enc_get:
  assumes "enc_ok c"
  obtains (int) v where "lpGetWithBuf c 0 None = Some (PInt v)" "evalue c = EInt v" "lpGetWithSize c 0 None z = Some (PInt v, of_nat (length (ent c)))"
  | (str) off n where "lpGetWithBuf c 0 None = Some (PStr off n)" "off + n = length c" "evalue c = EStr (drop off c)"
      "lpGetWithSize c 0 None z = Some (PStr off n, of_nat (length (ent c)))"
proof -
  have l: "0 < length c" "length c < 2 ^ 32" using enc_ok_len[OF assms] by auto
  define e where "e = hd c"
  have h: "getb c 0 = Some e" using l by (simp add: hd_conv_nth e_def)
  have z: "lpCurrentEncodedSizeUnsafe c 0 = Some (of_nat (length c))" "e \<noteq> LP_EOF" using assms by (auto simp: enc_ok_def e_def)
  have len0: "length c = unat w" if "lpCurrentEncodedSizeUnsafe c 0 = Some w" for w
  proof -
    have "w = of_nat (length c)" using z(1) that by simp
    then show ?thesis using l(2) by (simp only: unat_of_nat) (simp add: take_bit_nat_eq_self)
  qed
  have bl: "lpEncodeBacklenBytes (of_nat k) = 1" if "k \<le> 9" for k
    using that by (simp add: lpEncodeBacklenBytes_def word_le_nat_alt unat_of_nat take_bit_nat_eq_self)
  have e1: "length (ent c) = length c + 1" if "length c \<le> 9" using bl[OF that] by (simp add: length_ent)
  have I: thesis if k: "ekind e \<in> {K7, K13, K16, K24, K32, K64}"
  proof -
    have len: "length c = (case ekind e of K7 \<Rightarrow> 1 | K13 \<Rightarrow> 2 | K16 \<Rightarrow> 3 | K24 \<Rightarrow> 4 | K32 \<Rightarrow> 5 | _ \<Rightarrow> 9)"
      using k len0[of 1] len0[of 2] len0[of 3] len0[of 4] len0[of 5] len0[of 9] by (cases "ekind e") (simp_all add: encsize_kind h)
    then obtain v where v: "lpGetWithBuf c 0 None = Some (PInt v)"
      using k le_total[of c] getb_total[of 1 c] by (cases "ekind e") (auto simp: get_kind h)
    moreover have "lpGetWithSize c 0 None z' = Some (PInt v, of_nat (length (ent c)))" for z'
      using v k len e1 by (cases "ekind e") (simp_all add: getsize_kind h)
    ultimately show thesis using int[of v] by (simp add: evalue_def)
  qed
  have S: thesis if k: "ekind e \<in> {K6S, K12S, K32S}"
  proof -
    obtain off l where o: "lpGetWithBuf c 0 None = Some (PStr off (unat l))" "(of_nat off :: u32) + l = of_nat (length c)"
        "off = (case ekind e of K6S \<Rightarrow> 1 | K12S \<Rightarrow> 2 | _ \<Rightarrow> 5)"
      using k z(1) by (cases "ekind e") (auto simp: get_kind encsize_kind h)
    have "off \<le> length c" using encsize_lenbytes(2)[OF assms] o(3) k by (auto simp: lenbytes_kind e_def)
    then have n: "off + unat l = length c" using len_32[OF l(2)] o(2) by blast
    have w: "(of_nat off :: u64) + of_nat (unat l) = of_nat (length c)" using n by (metis of_nat_add)
    have "lpGetWithSize c 0 None z' = Some (PStr off (unat l), of_nat off + of_nat (unat l) + of_nat (lpEncodeBacklenBytes (of_nat (unat l) + of_nat off)))" for z'
      using o(1,3) k by (cases "ekind e") (simp_all add: getsize_kind h)
    then have "lpGetWithSize c 0 None z' = Some (PStr off (unat l), of_nat (length (ent c)))" for z'
      using w by (simp add: add.commute length_ent)
    then show thesis using str[of off "unat l"] o(1) n by (simp add: evalue_def)
  qed
  have "ekind e \<noteq> KEof" "ekind e \<noteq> KBad"
    using z(2) l(1) len0[of 0] by (auto simp: encsize_kind h kind_Eof)
  then show thesis using I S by (cases "ekind e") auto
qed

lemma getsize_mono:
  assumes "lpGetWithSize c 0 None z = Some (v, n)"
  shows "lpGetWithSize (pre @ c @ r) (length pre) None z = Some (shift (length pre) v, n)"
proof -
  obtain e where e: "getb c 0 = Some e" using assms by (auto simp: getsize_kind split: bind_splits)
  have e': "getb (pre @ c @ r) (length pre) = Some e" using getb_app[of pre "c @ r" 0] getb_mono[OF e, of r] by simp
  obtain w where w: "lpGetWithBuf c 0 None = Some w" using assms by (auto simp: getsize_kind split: bind_splits)
  show ?thesis using assms get_mono[OF w, of pre r]
    by (cases "ekind e"; cases w) (auto simp: getsize_kind e e' w)
qed

lemma rd_inner: "off + n = length c \<Longrightarrow> rd (pre @ c @ r) (length pre + off) n = Some (drop off c)"
  by (simp add: rd_def)

text \<open>The state of a search for \<open>s\<close>.\<close>

definition arg_ok :: "mem \<Rightarrow> lpFindArg \<Rightarrow> bool" where
  "arg_ok s arg \<longleftrightarrow> fa_s arg = s \<and> (fa_vencoding arg = 0 \<or> fa_vencoding arg = 255 \<and> string2ll s = None
     \<or> fa_vencoding arg = 1 \<and> string2ll s = Some (fa_vll arg))"

lemma string2ll_long: "length s \<ge> 32 \<or> length s = 0 \<Longrightarrow> string2ll s = None"
  by (auto simp: string2ll_def LONG_STR_SIZE_def)

lemma string2ll_is: "(case string2ll s of None \<Rightarrow> False | Some w \<Rightarrow> v = w) \<longleftrightarrow> s = idec (sint v)"
  using string2ll_canonical[of s v] by (auto split: option.splits)

lemma findcmp_int:
  assumes "arg_ok s arg"
  shows "\<exists>arg'. lpFindCmp m p (PInt v) arg = Some (s = idec (sint v), arg') \<and> arg_ok s arg'"
proof (cases "fa_vencoding arg = 0")
  case True
  then show ?thesis using assms string2ll_long[of s] string2ll_is[where s = s and v = v]
    by (cases "string2ll s") (auto simp: lpFindCmp_def arg_ok_def lpStringToInt64_string2ll Let_def)
next
  case False
  then show ?thesis using assms string2ll_is[where s = s and v = v] by (auto simp: lpFindCmp_def arg_ok_def)
qed

lemma findcmp_str:
  assumes "arg_ok s arg" "off + n = length c"
  shows "\<exists>arg'. lpFindCmp (pre @ c @ r) p (PStr (length pre + off) n) arg = Some (drop off c = s, arg') \<and> arg_ok s arg'"
proof -
  have s: "fa_s arg = s" using assms(1) by (simp add: arg_ok_def)
  have n: "length (drop off c) = n" using assms(2) by simp
  show ?thesis
  proof (cases "n = length s")
    case True
    then show ?thesis using assms(1) rd_inner[OF assms(2), of pre r] s by (intro exI[of _ arg]) (auto simp: lpFindCmp_def)
  next
    case False
    then have "drop off c \<noteq> s" using n by auto
    then show ?thesis using assms(1) False s by (intro exI[of _ arg]) (simp add: lpFindCmp_def)
  qed
qed

lemma findcmp_at:
  assumes c: "enc_ok c" and a: "arg_ok s arg" and g: "lpGetWithSize c 0 None z = Some (v, k)"
  shows "\<exists>arg'. lpFindCmp (pre @ c @ r) (length pre) (shift (length pre) v) arg = Some (etext c = s, arg') \<and> arg_ok s arg'"
proof -
  from c show ?thesis
  proof (cases rule: enc_get[of c z])
    case (int w)
    have "v = PInt w" using g int(3) by simp
    moreover have "(etext c = s) = (s = idec (sint w))" using int(2) by (auto simp: etext_def)
    ultimately show ?thesis using findcmp_int[OF a, of "pre @ c @ r" "length pre" w] by simp
  next
    case (str off n)
    have "v = PStr off n" using g str(4) by simp
    moreover have "etext c = drop off c" using str(3) by (simp add: etext_def)
    ultimately show ?thesis using findcmp_str[OF a str(2), of pre r "length pre"] by simp
  qed
qed

text \<open>The element that a search finds, counting from where it starts; \<open>k\<close> elements are passed over first.\<close>

fun find_idx :: "mem \<Rightarrow> nat \<Rightarrow> nat \<Rightarrow> mem list \<Rightarrow> nat option" where
  "find_idx s skip k [] = None"
| "find_idx s skip 0 (c # ys) = (if etext c = s then Some 0 else map_option Suc (find_idx s skip skip ys))"
| "find_idx s skip (Suc k) (c # ys) = map_option Suc (find_idx s skip k ys)"

lemma unat_ent: "lp_inv n (xs @ c # ys) \<Longrightarrow> unat (of_nat (length (ent c)) :: u64) = length (ent c)"
  by (simp add: lp_inv_def unat_of_nat take_bit_nat_eq_self)

lemma lpk_getsize:
  assumes inv: "lp_inv n (xs @ c # ys)"
  obtains v where "lpGetWithSize c 0 None z = Some (v, of_nat (length (ent c)))"
    "lpGetWithSize (lpk n (xs @ c # ys) sl) (pos xs) None z = Some (shift (pos xs) v, of_nat (length (ent c)))"
proof -
  have m: "lpk n (xs @ c # ys) sl = front n (xs @ c # ys) xs @ c @ (lpEncodeBacklen (of_nat (length c)) @ body ys @ LP_EOF # sl)"
    by (simp add: lpk_cut ent_def)
  obtain v where "lpGetWithSize c 0 None z = Some (v, of_nat (length (ent c)))"
    using inv_ok[OF inv] by (rule enc_get[where z = z]) auto
  then show ?thesis using that getsize_mono[of c z v _ "front n (xs @ c # ys) xs"] unfolding m by fastforce
qed

lemma lpk_find_step:
  assumes inv: "lp_inv n (xs @ c # ys)" and a: "arg_ok s arg"
  shows "\<exists>z' arg'. arg_ok s arg' \<and>
   lpFindCb_loop (lpk n (xs @ c # ys) sl) (7 + length (body (xs @ c # ys))) lpFindCmp skip (pos xs) k z arg =
     (if k = 0 \<and> etext c = s then Some (Some (pos xs))
      else do { e \<leftarrow> getb (lpk n (xs @ c # ys) sl) (pos (xs @ [c]));
        if e = LP_EOF then Some None
        else lpFindCb_loop (lpk n (xs @ c # ys) sl) (7 + length (body (xs @ c # ys))) lpFindCmp skip (pos (xs @ [c])) (if k = 0 then skip else k - 1) z' arg' })"
proof -
  let ?m = "lpk n (xs @ c # ys) sl" and ?t = "7 + length (body (xs @ c # ys))" and ?q = "pos (xs @ [c])"
  have m: "?m = front n (xs @ c # ys) xs @ c @ (lpEncodeBacklen (of_nat (length c)) @ body ys @ LP_EOF # sl)"
    by (simp add: lpk_cut ent_def)
  have q: "pos xs + length (ent c) = ?q" "?q < ?t" "6 \<le> ?q" "6 \<le> pos xs" using pos_ge[of xs] by (auto simp: pos_def)
  have chk: "(if ?q + 8 \<ge> ?t then lpAssertValidEntry ?m ?t ?q else guard (?q \<ge> LP_HDR_SIZE \<and> ?q < ?t)) = Some ()"
    using lpk_assert[of n "xs @ [c]" ys sl] inv q(2,3) by simp
  show ?thesis
  proof (cases "k = 0")
    case False
    then have k: "(k = 0) = False" by simp
    have L: "lpFindCb_loop ?m ?t lpFindCmp skip (pos xs) k z arg = do {
             (if ?q + 8 \<ge> ?t then lpAssertValidEntry ?m ?t ?q else guard (?q \<ge> LP_HDR_SIZE \<and> ?q < ?t));
             e \<leftarrow> getb ?m ?q;
             if e = LP_EOF then Some None
             else lpFindCb_loop ?m ?t lpFindCmp skip ?q (k - 1) z arg }"
      unfolding lpFindCb_loop.simps[of ?m ?t lpFindCmp skip "pos xs" k z arg] k if_False lpk_skip[OF inv, of sl] bind.simps sum.case prod.case ..
    show ?thesis unfolding L chk bind.simps k using a by (intro exI[of _ z] exI[of _ arg]) simp
  next
    case True
    obtain v where v: "lpGetWithSize c 0 None z = Some (v, of_nat (length (ent c)))"
        "lpGetWithSize ?m (pos xs) None z = Some (shift (pos xs) v, of_nat (length (ent c)))"
      by (rule lpk_getsize[OF inv])
    obtain arg' where c: "lpFindCmp ?m (pos xs) (shift (pos xs) v) arg = Some (etext c = s, arg')" "arg_ok s arg'"
      using findcmp_at[OF inv_ok[OF inv] a v(1), of "front n (xs @ c # ys) xs"] unfolding m by auto
    have gd: "guard (case shift (pos xs) v of PStr _ _ \<Rightarrow> pos xs \<ge> LP_HDR_SIZE \<and> pos xs + unat (of_nat (length (ent c)) :: u64) < ?t | _ \<Rightarrow> True) = Some ()"
      using q(2,4) unat_ent[OF inv] by (simp split: lpval.splits)
    have r: "do { (value, entry_size) \<leftarrow> lpGetWithSize ?m (pos xs) None z;
            guard (case value of PStr _ _ \<Rightarrow> pos xs \<ge> LP_HDR_SIZE \<and> pos xs + unat entry_size < ?t | _ \<Rightarrow> True);
            (hit, u) \<leftarrow> lpFindCmp ?m (pos xs) value arg;
            if hit then Some (Inl (pos xs)) else Some (Inr (pos xs + unat entry_size, skip, entry_size, u)) } =
        Some (if etext c = s then Inl (pos xs) else Inr (?q, skip, of_nat (length (ent c)), arg'))"
      unfolding v(2) bind.simps prod.case gd c(1) unfolding unat_ent[OF inv] q(1) by (cases "etext c = s") simp_all
    have L: "lpFindCb_loop ?m ?t lpFindCmp skip (pos xs) 0 z arg =
        (case (if etext c = s then Inl (pos xs) else Inr (?q, skip, of_nat (length (ent c)) :: u64, arg')) of
           Inl p \<Rightarrow> Some (Some p)
         | Inr (p, skipcnt, entry_size, u) \<Rightarrow> do {
             (if p + 8 \<ge> ?t then lpAssertValidEntry ?m ?t p else guard (p \<ge> LP_HDR_SIZE \<and> p < ?t));
             e \<leftarrow> getb ?m p;
             if e = LP_EOF then Some None
             else lpFindCb_loop ?m ?t lpFindCmp skip p skipcnt entry_size u })"
      unfolding lpFindCb_loop.simps[of ?m ?t lpFindCmp skip "pos xs" 0 z arg] simp_thms if_True r bind.simps ..
    show ?thesis unfolding True L using c(2) chk
      by (intro exI[of _ "of_nat (length (ent c))"] exI[of _ arg']) (cases "etext c = s"; simp only: sum.case prod.case if_True if_False bind.simps simp_thms)
  qed
qed

lemma lpk_find_loop:
  "lp_inv n (xs @ c # ys) \<Longrightarrow> arg_ok s arg \<Longrightarrow>
   lpFindCb_loop (lpk n (xs @ c # ys) sl) (7 + length (body (xs @ c # ys))) lpFindCmp skip (pos xs) k z arg =
     Some (map_option (\<lambda>i. pos (xs @ take i (c # ys))) (find_idx s skip k (c # ys)))"
proof (induction ys arbitrary: xs c k z arg)
  case Nil
  obtain z' arg' where u: "lpFindCb_loop (lpk n (xs @ [c]) sl) (7 + length (body (xs @ [c]))) lpFindCmp skip (pos xs) k z arg =
     (if k = 0 \<and> etext c = s then Some (Some (pos xs))
      else do { e \<leftarrow> getb (lpk n (xs @ [c]) sl) (pos (xs @ [c]));
        if e = LP_EOF then Some None
        else lpFindCb_loop (lpk n (xs @ [c]) sl) (7 + length (body (xs @ [c]))) lpFindCmp skip (pos (xs @ [c])) (if k = 0 then skip else k - 1) z' arg' })"
    using lpk_find_step[OF Nil] by blast
  show ?case unfolding u getb_eof by (cases k) auto
next
  case (Cons d ys)
  let ?k = "if k = 0 then skip else k - 1"
  obtain z' arg' where a: "arg_ok s arg'" and u: "lpFindCb_loop (lpk n (xs @ c # d # ys) sl) (7 + length (body (xs @ c # d # ys))) lpFindCmp skip (pos xs) k z arg =
     (if k = 0 \<and> etext c = s then Some (Some (pos xs))
      else do { e \<leftarrow> getb (lpk n (xs @ c # d # ys) sl) (pos (xs @ [c]));
        if e = LP_EOF then Some None
        else lpFindCb_loop (lpk n (xs @ c # d # ys) sl) (7 + length (body (xs @ c # d # ys))) lpFindCmp skip (pos (xs @ [c])) ?k z' arg' })"
    using lpk_find_step[OF Cons.prems] by blast
  have inv: "lp_inv n ((xs @ [c]) @ d # ys)" using Cons.prems(1) by simp
  have g: "getb (lpk n (xs @ c # d # ys) sl) (pos (xs @ [c])) = Some (hd d)" "hd d \<noteq> LP_EOF" using lpk_getb[OF inv, of sl] by simp_all
  have "lpFindCb_loop (lpk n (xs @ c # d # ys) sl) (7 + length (body (xs @ c # d # ys))) lpFindCmp skip (pos (xs @ [c])) ?k z' arg' =
     Some (map_option (\<lambda>i. pos ((xs @ [c]) @ take i (d # ys))) (find_idx s skip ?k (d # ys)))"
    using Cons.IH[OF inv a, of ?k z'] by simp
  then show ?case unfolding u g(1) using g(2) by (cases k) (auto simp: option.map_comp comp_def add.assoc)
qed

text \<open>The search from the first element.\<close>

lemma lpk_find:
  assumes inv: "lp_inv n cs"
  shows "lpFind (lpk n cs sl) None s skip = Some (map_option (\<lambda>i. pos (take i cs)) (find_idx s skip 0 cs))"
proof (cases cs)
  case Nil
  then show ?thesis using lpk_bytes[OF inv, of sl] lpk_first[OF inv, of sl] by (simp add: lpFind_def lpFindCbInternal_def place_def)
next
  case (Cons c ys)
  have "arg_ok s \<lparr>fa_s = s, fa_vencoding = 0, fa_vll = 0\<rparr>" by (simp add: arg_ok_def)
  from lpk_find_loop[of n "[]" c ys, OF _ this, of sl skip 0 123456789] show ?thesis
    using inv lpk_bytes[OF inv, of sl] lpk_first[OF inv, of sl] Cons by (simp add: lpFind_def lpFindCbInternal_def place_def)
qed

lemma lpk_compare:
  assumes inv: "lp_inv n (xs @ c # ys)"
  shows "lpCompare (lpk n (xs @ c # ys) sl) (pos xs) s None = Some (etext c = s, None)"
proof -
  let ?r = "lpEncodeBacklen (of_nat (length c)) @ body ys @ LP_EOF # sl" and ?pre = "front n (xs @ c # ys) xs"
  have m: "lpk n (xs @ c # ys) sl = ?pre @ c @ ?r" by (simp add: lpk_cut ent_def)
  have g: "getb (lpk n (xs @ c # ys) sl) (pos xs) = Some (hd c)" "hd c \<noteq> LP_EOF" using lpk_getb[OF inv, of sl] by simp_all
  from inv_ok[OF inv] show ?thesis
  proof (cases rule: enc_get[of c 0])
    case (int v)
    have "lpGetWithBuf (?pre @ c @ ?r) (pos xs) None = Some (PInt v)" using get_mono[OF int(1), of ?pre ?r] by simp
    then show ?thesis using g int
      string2ll_is[where s = s and v = v] by (auto simp: lpCompare_def lpGet_def m[symmetric] etext_def lpStringToInt64_string2ll)
  next
    case (str off n')
    have "lpGetWithBuf (?pre @ c @ ?r) (pos xs) None = Some (PStr (pos xs + off) n')" using get_mono[OF str(1), of ?pre ?r] by simp
    moreover have "rd (?pre @ c @ ?r) (pos xs + off) n' = Some (drop off c)" using rd_inner[OF str(2), of ?pre ?r] by simp
    moreover have "length (drop off c) = n'" using str(2) by simp
    ultimately show ?thesis using g str by (auto simp: lpCompare_def lpGet_def m[symmetric] etext_def)
  qed
qed

text \<open>Reading an element as text.\<close>

lemma lpk_get_text:
  assumes inv: "lp_inv n (xs @ c # ys)" and b: "LP_INTBUF_SIZE \<le> length buf"
  shows "(\<exists>off k. lpGet (lpk n (xs @ c # ys) sl) (pos xs) (Some buf) = Some (PStr off k) \<and> rd (lpk n (xs @ c # ys) sl) off k = Some (etext c))
     \<or> (\<exists>k buf'. lpGet (lpk n (xs @ c # ys) sl) (pos xs) (Some buf) = Some (PBuf k buf') \<and> take k buf' = etext c)"
proof -
  let ?m = "lpk n (xs @ c # ys) sl"
  let ?r = "lpEncodeBacklen (of_nat (length c)) @ body ys @ LP_EOF # sl" and ?pre = "front n (xs @ c # ys) xs"
  have m: "?m = ?pre @ c @ ?r" by (simp add: lpk_cut ent_def)
  have b: "lpGetWithBuf ?m (pos xs) (Some buf) = do { r \<leftarrow> lpGetWithBuf ?m (pos xs) None; case r of PInt v \<Rightarrow> lp_deliver v (Some buf) | _ \<Rightarrow> Some r }"
    by (auto simp: lpGetWithBuf_def lp_deliver_def bind_assoc split: bind_splits if_splits)
  from inv_ok[OF inv] show ?thesis
  proof (cases rule: enc_get[of c 0])
    case (int v)
    have l: "length (idec (sint v)) < LP_INTBUF_SIZE" using idec_length[of v] by (simp add: LP_INTBUF_SIZE_def)
    have "lpGetWithBuf ?m (pos xs) None = Some (PInt v)" using get_mono[OF int(1), of ?pre ?r] unfolding m by simp
    then have "lpGet ?m (pos xs) (Some buf) = Some (PBuf (length (idec (sint v))) (patch buf 0 (idec (sint v) @ [0])))"
      using ll2string_writes[OF l assms(2)] by (simp add: lpGet_def b lp_deliver_def)
    moreover have "take (length (idec (sint v))) (patch buf 0 (idec (sint v) @ [0])) = etext c" using int(2) by (simp add: etext_def patch_def)
    ultimately show ?thesis by blast
  next
    case (str off n')
    have "lpGetWithBuf ?m (pos xs) None = Some (PStr (pos xs + off) n')" using get_mono[OF str(1), of ?pre ?r] unfolding m by simp
    then have "lpGet ?m (pos xs) (Some buf) = Some (PStr (pos xs + off) n')" by (simp add: lpGet_def b)
    moreover have "rd ?m (pos xs + off) n' = Some (etext c)" using rd_inner[OF str(2), of ?pre ?r] str(3) unfolding m by (simp add: etext_def)
    ultimately show ?thesis by blast
  qed
qed

end
