(* ===== verification/Store.thy ===== *)
theory Store
  imports Prelude
begin

text \<open>
  The interface of a component that keeps a sequence. A command is run on the concrete state by \<open>step\<close> (\<^term>\<open>None\<close>
  outside for undefined behaviour or a failed assertion, \<^term>\<open>None\<close> inside for a command that the component refuses because
  the result would not fit or its memory is not granted: \<open>fits\<close> says, for the command and the list, when it is not refused) and on the abstract list by \<open>edit\<close>. The law of the locale is about one command; the lemma proved from it
  is about every sequence of commands.
\<close>

fun run_cmds :: "('c \<Rightarrow> 'm \<Rightarrow> 'm option option) \<Rightarrow> 'c list \<Rightarrow> 'm \<Rightarrow> 'm option option" where
  "run_cmds step [] m = Some (Some m)"
| "run_cmds step (c # cmds) m = (case step c m of Some (Some m') \<Rightarrow> run_cmds step cmds m' | r \<Rightarrow> r)"

fun run_edits :: "('c \<Rightarrow> 'e list \<Rightarrow> 'e list) \<Rightarrow> ('c \<Rightarrow> 'e list \<Rightarrow> bool) \<Rightarrow> 'c list \<Rightarrow> 'e list \<Rightarrow> 'e list option" where
  "run_edits edit fits [] ts = Some ts"
| "run_edits edit fits (c # cmds) ts = (if fits c ts then run_edits edit fits cmds (edit c ts) else None)"

definition holds_or_full :: "('m \<Rightarrow> 'e list \<Rightarrow> bool) \<Rightarrow> bool \<Rightarrow> 'm option option \<Rightarrow> 'e list \<Rightarrow> bool" where
  "holds_or_full rep served r ts \<longleftrightarrow> (if served then (\<exists>m'. r = Some (Some m') \<and> rep m' ts) else r = Some None)"

locale seq_store =
  fixes rep :: "'m \<Rightarrow> 'e list \<Rightarrow> bool"
    and step :: "'c \<Rightarrow> 'm \<Rightarrow> 'm option option"
    and edit :: "'c \<Rightarrow> 'e list \<Rightarrow> 'e list"
    and fits :: "'c \<Rightarrow> 'e list \<Rightarrow> bool"
    and ok :: "'c \<Rightarrow> bool"
  assumes step_edit: "rep m ts \<Longrightarrow> ok c \<Longrightarrow> holds_or_full rep (fits c ts) (step c m) (edit c ts)"
begin

lemma run_refines:
  "rep m ts \<Longrightarrow> list_all ok cmds \<Longrightarrow> \<exists>r. run_cmds step cmds m = Some r \<and> rel_option rep r (run_edits edit fits cmds ts)"
proof (induction cmds arbitrary: m ts)
  case (Cons c cmds)
  then have s: "holds_or_full rep (fits c ts) (step c m) (edit c ts)" using step_edit[of m ts c] by simp
  show ?case
  proof (cases "fits c ts")
    case True
    then obtain m' where "step c m = Some (Some m')" "rep m' (edit c ts)" using s by (auto simp: holds_or_full_def)
    then show ?thesis using Cons.IH[of m' "edit c ts"] Cons.prems True by simp
  qed (use s in \<open>simp add: holds_or_full_def\<close>)
qed simp

end

text \<open>A weaker contract, for a component that refuses a command for a reason that the list does not show (an allocator that returns
  \<open>NULL\<close>); the first contract gives it.\<close>

locale cmd_store =
  fixes rep :: "'m \<Rightarrow> 'e list \<Rightarrow> bool"
    and step :: "'c \<Rightarrow> 'm \<Rightarrow> 'm option option"
    and edit :: "'c \<Rightarrow> 'e list \<Rightarrow> 'e list"
    and ok :: "'c \<Rightarrow> bool"
    and refused :: "'m \<Rightarrow> 'c \<Rightarrow> bool"
  assumes step_cmd: "rep m ts \<Longrightarrow> ok c \<Longrightarrow> (\<exists>m'. step c m = Some (Some m') \<and> rep m' (edit c ts)) \<or> step c m = Some None \<and> refused m c"
begin

text \<open>Where a run stopped: the commands \<open>pre\<close> before it were done, and the next one is refused in the state they lead to.\<close>

lemma run_cmd_at:
  "rep m ts \<Longrightarrow> list_all ok cmds \<Longrightarrow>
    (\<exists>m'. run_cmds step cmds m = Some (Some m') \<and> rep m' (fold edit cmds ts)) \<or>
    run_cmds step cmds m = Some None \<and> (\<exists>pre c post m'. cmds = pre @ c # post \<and> run_cmds step pre m = Some (Some m') \<and>
      rep m' (fold edit pre ts) \<and> step c m' = Some None \<and> refused m' c)"
proof (induction cmds arbitrary: m ts)
  case (Cons c cmds)
  from step_cmd[of m ts c] Cons.prems consider m' where "step c m = Some (Some m')" "rep m' (edit c ts)" | "step c m = Some None" "refused m c" by auto
  then show ?case
  proof cases
    case 1
    have "list_all ok cmds" using Cons.prems by simp
    from Cons.IH[OF 1(2) this] consider (finished) m'' where "run_cmds step cmds m' = Some (Some m'')" "rep m'' (fold edit cmds (edit c ts))"
      | (stop) pre c' post m'' where "run_cmds step cmds m' = Some None" "cmds = pre @ c' # post" "run_cmds step pre m' = Some (Some m'')"
          "rep m'' (fold edit pre (edit c ts))" "step c' m'' = Some None" "refused m'' c'"
      by blast
    then show ?thesis
    proof cases
      case finished
      then show ?thesis using 1 by simp
    next
      case stop
      then show ?thesis using 1 by (intro disjI2 conjI exI[of _ "c # pre"] exI[of _ c'] exI[of _ post] exI[of _ m'']) auto
    qed
  next
    case 2
    then show ?thesis using Cons.prems by (intro disjI2 conjI exI[of _ "[]"] exI[of _ c] exI[of _ cmds] exI[of _ m]) auto
  qed
qed simp

end

sublocale seq_store \<subseteq> cmds: cmd_store rep step edit ok "\<lambda>m c. \<exists>ts. rep m ts \<and> \<not> fits c ts"
proof
  fix m ts c
  assume "rep m ts" "ok c"
  then show "(\<exists>m'. step c m = Some (Some m') \<and> rep m' (edit c ts)) \<or> step c m = Some None \<and> (\<exists>ts. rep m ts \<and> \<not> fits c ts)"
    using step_edit[of m ts c] by (auto simp: holds_or_full_def split: if_splits)
qed

fun run_ops :: "('c \<Rightarrow> 'm \<Rightarrow> ('r \<times> 'm) option) \<Rightarrow> 'c list \<Rightarrow> 'm \<Rightarrow> ('r list \<times> 'm) option" where
  "run_ops step [] m = Some ([], m)"
| "run_ops step (c # cs) m = do { (r, m) \<leftarrow> step c m; (rs, m) \<leftarrow> run_ops step cs m; Some (r # rs, m) }"

fun run_spec :: "('c \<Rightarrow> 'a \<Rightarrow> 'r \<times> 'a) \<Rightarrow> 'c list \<Rightarrow> 'a \<Rightarrow> 'r list \<times> 'a" where
  "run_spec spec [] a = ([], a)"
| "run_spec spec (c # cs) a = (let (r, a) = spec c a; (rs, a) = run_spec spec cs a in (r # rs, a))"

text \<open>The contract of an object whose operations return results: the result and the next state are those of an abstract machine, as
  long as there is room for one more command.\<close>

locale object_store =
  fixes rep :: "nat \<Rightarrow> 'm \<Rightarrow> 'a \<Rightarrow> bool"
    and step :: "'c \<Rightarrow> 'm \<Rightarrow> ('r \<times> 'm) option"
    and spec :: "'c \<Rightarrow> 'a \<Rightarrow> 'r \<times> 'a"
    and ok :: "'c \<Rightarrow> bool"
  assumes step_spec: "rep (Suc n) m a \<Longrightarrow> ok c \<Longrightarrow> \<exists>m'. step c m = Some (fst (spec c a), m') \<and> rep n m' (snd (spec c a))"
begin

lemma run_refines: "rep (length cs + n) m a \<Longrightarrow> list_all ok cs \<Longrightarrow> \<exists>m'. run_ops step cs m = Some (fst (run_spec spec cs a), m') \<and> rep n m' (snd (run_spec spec cs a))"
proof (induction cs arbitrary: m a)
  case (Cons c cs)
  obtain m1 where 1: "step c m = Some (fst (spec c a), m1)" "rep (length cs + n) m1 (snd (spec c a))" using step_spec[of "length cs + n" m a c] Cons.prems by auto
  obtain m2 where "run_ops step cs m1 = Some (fst (run_spec spec cs (snd (spec c a))), m2)" "rep n m2 (snd (run_spec spec cs (snd (spec c a))))" using Cons.IH[OF 1(2)] Cons.prems by auto
  then show ?case using 1(1) by (auto simp: case_prod_beta)
qed simp

end

end
