(* ===== verification/ListpackProps.thy ===== *)
theory ListpackProps
  imports ListpackOps Store
begin

text \<open>
  What the listpack of \<open>src/redislib-src/kernel/listpack.c\<close> promises to its callers: the validator is safe on arbitrary bytes, the
  block holds a sequence of texts (\<open>lp_holds\<close>), and every operation does on that sequence what the corresponding
  list operation does. The theorems of the last section are the properties of the component.
\<close>

section \<open>The validator on arbitrary bytes\<close>

lemma getb_some: "i < length m \<Longrightarrow> \<exists>x. getb m i = Some x" by simp

lemma encsize_total:
  assumes "getb m p = Some e" "e \<noteq> LP_EOF" "lpCurrentEncodedSizeBytes e \<noteq> 0" "p + lpCurrentEncodedSizeBytes e < length m"
  shows "\<exists>k. lpCurrentEncodedSizeUnsafe m p = Some k"
  using assms unfolding encsize_kind lenbytes_kind LP_ENCODING_6BIT_STR_LEN_def LP_ENCODING_12BIT_STR_LEN_def LP_ENCODING_32BIT_STR_LEN_def
  by (cases "ekind e") (auto simp: getb_def)

lemma decode_total: "4 \<le> p \<Longrightarrow> p < length m \<Longrightarrow> \<exists>v. lpDecodeBacklen m p = Some v"
proof -
  assume "4 \<le> p" "p < length m"
  then have "k \<le> 4 \<Longrightarrow> \<exists>x. getb_back m p k = Some x" for k by (simp add: getb_back_def getb_def)
  from this[of 0] this[of 1] this[of 2] this[of 3] this[of 4] show ?thesis
    by (auto simp: lpDecodeBacklen_def Let_def)
qed

text \<open>A step of the validator never reads outside the block, and a step that succeeds moves forward, inside the
  block, to where \<open>lpSkip\<close> goes.\<close>

lemma validate_next_total:
  assumes "t \<le> length m" shows "\<exists>r. lpValidateNext m pp t = Some r"
proof (cases pp)
  case None
  then show ?thesis by (intro exI[of _ "(False, pp)"]) (simp add: lpValidateNext_def)
next
  case (Some p)
  show ?thesis
  proof (cases "OUT_OF_RANGE t p")
    case True
    then show ?thesis using Some by (intro exI[of _ "(False, pp)"]) (simp add: lpValidateNext_def)
  next
    case False
    then have p: "6 \<le> p" "p < t" by (simp_all add: OUT_OF_RANGE_def)
    then obtain e where e: "getb m p = Some e" using assms getb_some[of p m] by auto
    show ?thesis
    proof (cases "e = LP_EOF \<or> lpCurrentEncodedSizeBytes e = 0 \<or> OUT_OF_RANGE t (p + lpCurrentEncodedSizeBytes e)")
      case True
      then show ?thesis using Some False e unfolding lpValidateNext_def by (auto simp: Let_def)
    next
      case c: False
      then obtain k where k: "lpCurrentEncodedSizeUnsafe m p = Some k"
        using encsize_total[OF e] assms p by (auto simp: OUT_OF_RANGE_def)
      let ?l = "unat k + lpEncodeBacklenBytes (ucast k)"
      show ?thesis
      proof (cases "OUT_OF_RANGE t (p + ?l)")
        case True
        then show ?thesis using Some False e c k unfolding lpValidateNext_def by (intro exI[of _ "(False, pp)"]) (simp add: Let_def)
      next
        case r: False
        then have "4 \<le> p + ?l - 1" "p + ?l - 1 < length m" using assms p by (simp_all add: OUT_OF_RANGE_def)
        then obtain v where "lpDecodeBacklen m (p + ?l - 1) = Some v" using decode_total by blast
        then show ?thesis using Some False e c k r unfolding lpValidateNext_def by (auto simp: Let_def)
      qed
    qed
  qed
qed

lemma validate_next_step:
  assumes "lpValidateNext m (Some p) t = Some (True, Some q)"
  shows "p < q" "q < t" "6 \<le> p" "lpSkip m p = Some q"
proof -
  have b: "lpEncodeBacklenBytes (ucast k) \<noteq> 0" for k :: u32 using backlen_bytes_bounds(1)[of "ucast k"] by linarith
  from assms show "p < q" "q < t" "6 \<le> p" "lpSkip m p = Some q"
    unfolding lpValidateNext_def lpSkip_def OUT_OF_RANGE_def by (auto simp: Let_def b split: if_splits bind_splits)
qed

lemma validate_next_None:
  assumes "lpValidateNext m (Some p) t = Some (True, None)" shows "getb m p = Some LP_EOF"
  using assms unfolding lpValidateNext_def
  by (auto simp: Let_def split: if_splits bind_splits)

text \<open>The scan ends, because the place grows and stays inside the block.\<close>

lemma scan_total:
  assumes t: "t \<le> length m"
  shows "p < t \<Longrightarrow> \<exists>r. lpValidate_scan cb m t num (Some p) count u = Some r"
proof (induction "t - p" arbitrary: p count u rule: less_induct)
  case less
  obtain e where e: "getb m p = Some e" using getb_some[of p m] less.prems t by auto
  obtain ok q where v: "lpValidateNext m (Some p) t = Some (ok, q)" using validate_next_total[OF t, of "Some p"] by auto
  have step: "lpValidate_scan cb m t num (Some p) count u =
      (if e = LP_EOF then Some (Some (Some p, count))
       else if \<not> ok then Some None
       else let (good, u) = (case cb of None \<Rightarrow> (True, u) | Some f \<Rightarrow> f m p num u) in
         if \<not> good then Some None else lpValidate_scan cb m t num q (count + 1) u)"
    by (subst lpValidate_scan.simps) (simp add: e v)
  show ?case
  proof (cases "e = LP_EOF \<or> \<not> ok")
    case True
    then show ?thesis unfolding step by auto
  next
    case False
    then obtain q' where q: "q = Some q'" using v e validate_next_None by (cases q) auto
    then have "p < q'" "q' < t" using v False validate_next_step[of m p t q'] by auto
    then have "\<exists>r. lpValidate_scan cb m t num q (count + 1) w = Some r" for w using less.hyps[of q'] q less.prems by auto
    then show ?thesis unfolding step using False by (simp split: prod.split)
  qed
qed

text \<open>What the scan accepts is walked by \<open>lpNext\<close> without a failed assertion, and counted.\<close>

lemma scan_walk:
  assumes t: "lpBytes m = Some t" "t \<le> length m"
  shows "p < t \<Longrightarrow> lpValidate_scan None m t num (Some p) count u = Some (Some (x, count')) \<Longrightarrow>
    (if getb m p = Some LP_EOF then x = Some p \<and> count' = count
     else lpAssertValidEntry m t p = Some () \<and> lpLength_scan m (Some p) count = Some count')"
proof (induction "t - p" arbitrary: p count u rule: less_induct)
  case less
  obtain e where e: "getb m p = Some e" using getb_some[of p m] less.prems t by auto
  obtain ok q where v: "lpValidateNext m (Some p) t = Some (ok, q)" using validate_next_total[OF t(2), of "Some p"] by auto
  have step: "lpValidate_scan None m t num (Some p) count u =
      (if e = LP_EOF then Some (Some (Some p, count)) else if \<not> ok then Some None else lpValidate_scan None m t num q (count + 1) u)"
    by (subst lpValidate_scan.simps) (simp add: e v)
  show ?case
  proof (cases "e = LP_EOF")
    case True
    then show ?thesis using step less.prems e by auto
  next
    case False
    then have ok: "ok" using step less.prems(2) by (cases ok) auto
    then obtain q' where q: "q = Some q'" using v e False validate_next_None by (cases q) auto
    have s: "p < q'" "q' < t" "lpSkip m p = Some q'" using v ok q validate_next_step[of m p t q'] by auto
    have sc: "lpValidate_scan None m t num (Some q') (count + 1) u = Some (Some (x, count'))" using step less.prems(2) False ok q by simp
    have ih: "if getb m q' = Some LP_EOF then x = Some q' \<and> count' = count + 1
       else lpAssertValidEntry m t q' = Some () \<and> lpLength_scan m (Some q') (count + 1) = Some count'"
      using less.hyps[OF _ s(2) sc] s(1) less.prems(1) by simp
    obtain e' where e': "getb m q' = Some e'" using getb_some[of q' m] s(2) t by auto
    have n: "lpNext m p = Some (if e' = LP_EOF then None else Some q')"
      using ih by (auto simp: lpNext_def s(3) e' t(1) split: if_splits)
    have a: "lpAssertValidEntry m t p = Some ()" by (simp add: lpAssertValidEntry_def v ok)
    have "lpLength_scan m (Some p) count = Some count'"
      using ih by (subst lpLength_scan.simps) (auto simp: n e' lpLength_scan.simps[of m None] split: if_splits)
    then show ?thesis using a e False by simp
  qed
qed

text \<open>A block of the library is accepted.\<close>

lemma lpk_scan_ok:
  "lp_inv n (xs @ ys) \<Longrightarrow> lpValidate_scan None (lpk n (xs @ ys) sl) (7 + length (body (xs @ ys))) num (Some (pos xs)) count u =
     Some (Some (Some (pos (xs @ ys)), count + of_nat (length ys)))"
proof (induction ys arbitrary: xs count)
  case Nil
  show ?case by (subst lpValidate_scan.simps) (simp add: getb_eof)
next
  case (Cons c ys)
  have inv: "lp_inv n ((xs @ [c]) @ ys)" using Cons.prems by simp
  have g: "getb (lpk n (xs @ c # ys) sl) (pos xs) = Some (hd c)" "hd c \<noteq> LP_EOF" using lpk_getb[OF Cons.prems, of sl] by simp_all
  have v: "lpValidateNext (lpk n (xs @ c # ys) sl) (Some (pos xs)) (7 + length (body (xs @ c # ys))) = Some (True, Some (pos (xs @ [c])))"
    by (rule lpk_validate[OF Cons.prems])
  show ?case
    unfolding lpValidate_scan.simps[of None "lpk n (xs @ c # ys) sl" _ num "Some (pos xs)"] option.case g(1) bind.simps v prod.case
    using g(2) Cons.IH[OF inv, of "count + 1"] by (simp add: add.assoc)
qed

lemma lpk_valid:
  assumes inv: "lp_inv n cs"
  shows "lpValidateIntegrity (lpk n cs sl) (7 + length (body cs)) deep None u = Some True"
proof -
  have e: "getb (lpk n cs sl) (7 + length (body cs) - 1) = Some LP_EOF" using getb_eof[of n cs sl] by (simp add: pos_def)
  have s: "lpValidate_scan None (lpk n cs sl) (7 + length (body cs)) (of_nat n) (Some 6) 0 u = Some (Some (Some (6 + length (body cs)), of_nat (length cs)))"
    using lpk_scan_ok[of n "[]" cs sl "of_nat n" 0 u] inv by (simp add: pos_def)
  have c: "n = 65535 \<or> n = length cs" using inv by (auto simp: lp_inv_def)
  have u: "n = 65535 \<Longrightarrow> (of_nat n :: u32) = LP_HDR_NUMELE_UNKNOWN" by (simp add: LP_HDR_NUMELE_UNKNOWN_def)
  show ?thesis unfolding lpValidateIntegrity_def using e c u
    by (auto simp: lpk_bytes[OF inv] lpk_num[OF inv] s)
qed

lemma validate_total:
  assumes "sz \<le> length m" shows "\<exists>b. lpValidateIntegrity m sz deep cb u = Some b"
proof (cases "sz < 7")
  case False
  then have l: "6 < length m" "m \<noteq> []" using assms by auto
  obtain t where t: "lpBytes m = Some t" using l by (auto simp: lpBytes_def lpGetTotalBytes_def getb_def)
  obtain k where k: "lpGetNumElements m = Some k" using l by (auto simp: lpGetNumElements_def getb_def)
  obtain e where e: "getb m (sz - 1) = Some e" using getb_some[of "sz - 1" m] False assms by auto
  obtain r where "lpValidate_scan cb m sz k (Some 6) 0 u = Some r" using scan_total[OF assms, of 6 cb k 0 u] False by auto
  then show ?thesis using False t k e by (auto simp: lpValidateIntegrity_def split: option.splits)
qed (auto simp: lpValidateIntegrity_def)

lemma validate_walk:
  assumes "lpValidateIntegrity m sz True None u = Some True" "sz \<le> length m"
  shows "\<exists>pp n. lpFirst m = Some pp \<and> lpLength_scan m pp 0 = Some n \<and> (lpGetNumElements m = Some LP_HDR_NUMELE_UNKNOWN \<or> lpGetNumElements m = Some n)"
proof -
  obtain t where t: "lpBytes m = Some t" using assms(1) by (auto simp: lpValidateIntegrity_def split: if_splits bind_splits)
  obtain k where k: "lpGetNumElements m = Some k" using assms(1) by (auto simp: lpValidateIntegrity_def split: if_splits bind_splits)
  have s: "t = sz" "7 \<le> sz" using assms(1) t by (auto simp: lpValidateIntegrity_def split: if_splits)
  obtain x n where r: "lpValidate_scan None m sz k (Some 6) 0 u = Some (Some (x, n))" "k = LP_HDR_NUMELE_UNKNOWN \<or> k = n"
    using assms(1) t k s by (auto simp: lpValidateIntegrity_def split: if_splits bind_splits option.splits)
  have w: "if getb m 6 = Some LP_EOF then x = Some 6 \<and> n = 0 else lpAssertValidEntry m sz 6 = Some () \<and> lpLength_scan m (Some 6) 0 = Some n"
    using scan_walk[OF t[unfolded s(1)] assms(2) _ r(1)] s(2) by simp
  obtain e where e: "getb m 6 = Some e" using getb_some[of 6 m] s assms(2) by auto
  show ?thesis
  proof (cases "e = LP_EOF")
    case True
    then show ?thesis using w e r(2) k by (auto simp: lpFirst_def lpLength_scan.simps[of m None])
  next
    case False
    then show ?thesis using w e r(2) k t s(1) by (auto simp: lpFirst_def)
  qed
qed

section \<open>The listpack as a sequence of texts\<close>

abbreviation encs :: "mem list \<Rightarrow> mem list" where "encs \<equiv> map lp_bytes"

definition str_ok :: "mem \<Rightarrow> bool" where "str_ok s \<longleftrightarrow> int (length s) + 5 < 2 ^ 32"

definition lp_size :: "mem list \<Rightarrow> nat" where "lp_size ts = 7 + length (body (encs ts))"

definition lp_fits :: "mem list \<Rightarrow> bool" where "lp_fits ts \<longleftrightarrow> int (lp_size ts) < 2 ^ 32"

definition lp_holds :: "mem \<Rightarrow> mem list \<Rightarrow> bool" where
  "lp_holds m ts \<longleftrightarrow> (\<exists>n sl. m = lpk n (encs ts) sl \<and> lp_inv n (encs ts)) \<and> list_all str_ok ts"

text \<open>When a change of the list \<open>ts\<close> to \<open>ts'\<close> is possible: the size of the new block fits in the header, and the allocator grants it unless the size
  stays the same.\<close>

definition lp_served :: "allocator \<Rightarrow> mem list \<Rightarrow> mem list \<Rightarrow> bool" where
  "lp_served a ts ts' \<longleftrightarrow> lp_fits ts' \<and> granted a (lp_size ts') (lp_size ts)"

abbreviation lp_result :: "allocator \<Rightarrow> mem list \<Rightarrow> mem option option \<Rightarrow> mem list \<Rightarrow> bool" where
  "lp_result a ts r ts' \<equiv> holds_or_full lp_holds (lp_served a ts ts') r ts'"

lemma holdsI: "lp_inv n (encs ts) \<Longrightarrow> list_all str_ok ts \<Longrightarrow> lp_holds (lpk n (encs ts) sl) ts"
  unfolding lp_holds_def by blast

lemma holdsE:
  assumes "lp_holds m ts" obtains n sl where "m = lpk n (encs ts) sl" "lp_inv n (encs ts)" "list_all str_ok ts"
  using assms unfolding lp_holds_def by blast

lemma inv_fits: "lp_inv n (encs ts) \<Longrightarrow> lp_fits ts" by (simp add: lp_inv_def lp_fits_def lp_size_def)

lemma inv_served: "lp_inv n (encs ts) \<Longrightarrow> lp_served a ts ts" by (simp add: lp_served_def granted_def inv_fits)

lemma str_ok_nat: "str_ok s \<Longrightarrow> length s + 5 < 2 ^ 32"
  unfolding str_ok_def by (metis (mono_tags) of_nat_add of_nat_less_imp_less of_nat_numeral of_nat_power)

lemma text_str: "str_ok s \<Longrightarrow> etext (lp_bytes s) = s"
  using lp_bytes_ok str_ok_nat by blast

lemma int_canon: "lpEncodeIntegerGetType v = lp_bytes (idec (sint v))"
  using string2ll_is[of v "idec (sint v)"] by (auto simp: lp_bytes_def lpStringToInt64_string2ll split: option.splits)

lemma str_ok_int: "str_ok (idec (sint (v :: i64)))"
  using idec_length[of v] by (simp add: str_ok_def)

lemma elem_str: "str_ok s \<Longrightarrow> elem_ok (Some s) None (lp_bytes s)"
  using lp_bytes_ok str_ok_nat by (simp add: elem_ok_def)

lemma elem_int: "elem_ok None (Some (lpEncodeIntegerGetType v)) (lp_bytes (idec (sint v)))"
  using int_bytes_ok[of v] int_canon[of v] by (simp add: elem_ok_def)

text \<open>What the callers of the file ask for, by index: the place is found with \<open>lpSeek\<close>; an index outside the list
  changes nothing.\<close>

datatype lp_cmd =
    Append mem | AppendInteger i64 | Prepend mem | PrependInteger i64
  | InsertString int mem lpwhere | InsertInteger int i64 lpwhere
  | Delete int | DeleteRange int nat

fun lp_step :: "allocator \<Rightarrow> lp_cmd \<Rightarrow> mem \<Rightarrow> mem option option" where
  "lp_step a (Append s) m = lpAppend a m s"
| "lp_step a (AppendInteger v) m = lpAppendInteger a m v"
| "lp_step a (Prepend s) m = lpPrepend a m s"
| "lp_step a (PrependInteger v) m = lpPrependInteger a m v"
| "lp_step a (InsertString i s wh) m = do {
     pp \<leftarrow> lpSeek m i;
     case pp of None \<Rightarrow> Some (Some m) | Some p \<Rightarrow> map_option (map_option fst) (lpInsertString a m s p wh) }"
| "lp_step a (InsertInteger i v wh) m = do {
     pp \<leftarrow> lpSeek m i;
     case pp of None \<Rightarrow> Some (Some m) | Some p \<Rightarrow> map_option (map_option fst) (lpInsertInteger a m v p wh) }"
| "lp_step a (Delete i) m = do {
     pp \<leftarrow> lpSeek m i;
     case pp of None \<Rightarrow> Some (Some m) | Some p \<Rightarrow> map_option (map_option fst) (lpDelete a m p) }"
| "lp_step a (DeleteRange i num) m = map_option Some (lpDeleteRange a m i num)"

fun put_at :: "lpwhere \<Rightarrow> 'e \<Rightarrow> nat \<Rightarrow> 'e list \<Rightarrow> 'e list" where
  "put_at LP_BEFORE x i ts = take i ts @ x # drop i ts"
| "put_at LP_AFTER x i ts = take (Suc i) ts @ x # drop (Suc i) ts"
| "put_at LP_REPLACE x i ts = ts[i := x]"

definition at_index :: "int \<Rightarrow> (nat \<Rightarrow> 'e list \<Rightarrow> 'e list) \<Rightarrow> 'e list \<Rightarrow> 'e list" where
  "at_index i g ts = (case resolve (length ts) i of None \<Rightarrow> ts | Some j \<Rightarrow> g j ts)"

fun lp_edit :: "lp_cmd \<Rightarrow> mem list \<Rightarrow> mem list" where
  "lp_edit (Append s) ts = ts @ [s]"
| "lp_edit (AppendInteger v) ts = ts @ [idec (sint v)]"
| "lp_edit (Prepend s) ts = s # ts"
| "lp_edit (PrependInteger v) ts = idec (sint v) # ts"
| "lp_edit (InsertString i s wh) ts = at_index i (put_at wh s) ts"
| "lp_edit (InsertInteger i v wh) ts = at_index i (put_at wh (idec (sint v))) ts"
| "lp_edit (Delete i) ts = at_index i (\<lambda>j ts. take j ts @ drop (Suc j) ts) ts"
| "lp_edit (DeleteRange i num) ts = at_index i (\<lambda>j ts. take j ts @ drop (j + num) ts) ts"

text \<open>The arguments that the types of the code allow: a length is a \<open>uint32_t\<close>, a number of elements an
  \<open>unsigned long\<close>.\<close>

fun lp_cmd_ok :: "lp_cmd \<Rightarrow> bool" where
  "lp_cmd_ok (Append s) = str_ok s"
| "lp_cmd_ok (Prepend s) = str_ok s"
| "lp_cmd_ok (InsertString i s wh) = str_ok s"
| "lp_cmd_ok (DeleteRange i num) = (int num < 2 ^ 64)"
| "lp_cmd_ok _ = True"

text \<open>What a command needs of the allocator; the deletion of a range asks for nothing.\<close>

fun lp_serves :: "allocator \<Rightarrow> lp_cmd \<Rightarrow> mem list \<Rightarrow> bool" where
  "lp_serves a (DeleteRange i num) ts = True"
| "lp_serves a c ts = lp_served a ts (lp_edit c ts)"

text \<open>An insertion before, after or over an element: the block holds the new list, or \<open>NULL\<close> is returned when its size
  does not fit in the header or is not granted.\<close>

lemma insert_at:
  assumes inv: "lp_inv n (encs (xs @ ys))" and el: "elem_ok es ei (lp_bytes t)" and ok: "list_all str_ok (xs @ t # ys)"
  shows "lp_result a (xs @ ys) (map_option (map_option fst) (lpInsert a (lpk n (encs (xs @ ys)) sl) es ei (pos (encs xs)) LP_BEFORE)) (xs @ t # ys)"
proof -
  have inv': "lp_inv n (encs xs @ encs ys)" using inv by simp
  have sv: "lp_served a (xs @ ys) (xs @ t # ys) \<longleftrightarrow> int (7 + length (body (encs xs @ lp_bytes t # encs ys))) < 2 ^ 32 \<and>
      granted a (7 + length (body (encs xs @ lp_bytes t # encs ys))) (7 + length (body (encs xs @ encs ys)))"
    by (simp add: lp_served_def lp_fits_def lp_size_def)
  show ?thesis
  proof (cases "lp_served a (xs @ ys) (xs @ t # ys)")
    case True
    obtain sl' where r: "lpInsert a (lpk n (encs (xs @ ys)) sl) es ei (pos (encs xs)) LP_BEFORE =
        Some (Some (lpk (num_up 1 n) (encs (xs @ t # ys)) sl', Some (pos (encs xs))))" "lp_inv (num_up 1 n) (encs (xs @ t # ys))"
      using lpk_insert_before[OF inv' el, of a sl] True sv by auto
    then show ?thesis using True holdsI[OF r(2) ok, of sl'] by (simp add: holds_or_full_def)
  next
    case False
    then show ?thesis using lpk_insert_refused[OF inv' el, of a sl] sv by (simp add: holds_or_full_def)
  qed
qed

lemma replace_at:
  assumes inv: "lp_inv n (encs (xs @ d # ys))" and el: "elem_ok es ei (lp_bytes t)" and ok: "list_all str_ok (xs @ t # ys)"
  shows "lp_result a (xs @ d # ys) (map_option (map_option fst) (lpInsert a (lpk n (encs (xs @ d # ys)) sl) es ei (pos (encs xs)) LP_REPLACE)) (xs @ t # ys)"
proof -
  have inv': "lp_inv n (encs xs @ lp_bytes d # encs ys)" using inv by simp
  have sv: "lp_served a (xs @ d # ys) (xs @ t # ys) \<longleftrightarrow> int (7 + length (body (encs xs @ lp_bytes t # encs ys))) < 2 ^ 32 \<and>
      granted a (7 + length (body (encs xs @ lp_bytes t # encs ys))) (7 + length (body (encs xs @ lp_bytes d # encs ys)))"
    by (simp add: lp_served_def lp_fits_def lp_size_def)
  show ?thesis
  proof (cases "lp_served a (xs @ d # ys) (xs @ t # ys)")
    case True
    obtain sl' where r: "lpInsert a (lpk n (encs (xs @ d # ys)) sl) es ei (pos (encs xs)) LP_REPLACE = Some (Some (lpk n (encs (xs @ t # ys)) sl', Some (pos (encs xs))))"
        "lp_inv n (encs (xs @ t # ys))"
      using lpk_replace[OF inv' el, of a sl] True sv by auto
    then show ?thesis using True holdsI[OF r(2) ok, of sl'] by (simp add: holds_or_full_def)
  next
    case False
    then show ?thesis using lpk_replace_refused[OF inv' el, of a sl] sv by (simp add: holds_or_full_def)
  qed
qed

lemma text_cut: "i < length ts \<Longrightarrow> ts = take i ts @ ts ! i # drop (Suc i) ts" by (rule inv_cut)

lemma pos_take: "pos (take i (encs ts)) = pos (encs (take i ts))" by (simp add: take_map)

lemma insert_any:
  assumes inv: "lp_inv n (encs ts)" and ok: "list_all str_ok ts" "str_ok t" and el: "elem_ok es ei (lp_bytes t)" and i: "i < length ts"
  shows "lp_result a ts (map_option (map_option fst) (lpInsert a (lpk n (encs ts) sl) es ei (pos (take i (encs ts))) wh)) (put_at wh t i ts)"
proof -
  let ?xs = "take i ts" and ?d = "ts ! i" and ?ys = "drop (Suc i) ts"
  have ts: "ts = ?xs @ ?d # ?ys" by (rule text_cut[OF i])
  have inv': "lp_inv n (encs (?xs @ ?d # ?ys))" "lp_inv n (encs ((?xs @ [?d]) @ ?ys))" "lp_inv n (encs ?xs @ lp_bytes ?d # encs ?ys)"
    using inv arg_cong[OF ts, of encs] by simp_all
  have "list_all str_ok (?xs @ ?d # ?ys)" using ok(1) ts by simp
  then have ok': "list_all str_ok ?xs" "str_ok ?d" "list_all str_ok ?ys" by simp_all
  have tk: "?xs @ [?d] = take (Suc i) ts" using i by (simp add: take_Suc_conv_app_nth)
  show ?thesis
  proof (cases wh)
    case LP_BEFORE
    have "lp_result a (?xs @ ?d # ?ys) (map_option (map_option fst) (lpInsert a (lpk n (encs (?xs @ ?d # ?ys)) sl) es ei (pos (encs ?xs)) LP_BEFORE)) (?xs @ t # ?d # ?ys)"
      by (rule insert_at[OF inv'(1) el]) (simp add: ok' ok(2))
    then show ?thesis unfolding LP_BEFORE pos_take put_at.simps ts[symmetric] using i by (simp add: Cons_nth_drop_Suc)
  next
    case LP_AFTER
    have a: "lpInsert a (lpk n (encs (?xs @ ?d # ?ys)) sl) es ei (pos (encs ?xs)) LP_AFTER = lpInsert a (lpk n (encs (?xs @ ?d # ?ys)) sl) es ei (pos (encs (?xs @ [?d]))) LP_BEFORE"
      using lpk_insert_after[OF inv'(3) el, of a sl] by simp
    have "lp_result a ((?xs @ [?d]) @ ?ys) (map_option (map_option fst) (lpInsert a (lpk n (encs ((?xs @ [?d]) @ ?ys)) sl) es ei (pos (encs (?xs @ [?d]))) LP_BEFORE)) ((?xs @ [?d]) @ t # ?ys)"
      by (rule insert_at[OF inv'(2) el]) (simp add: ok' ok(2))
    then show ?thesis using a unfolding LP_AFTER pos_take put_at.simps tk[symmetric] ts[symmetric] by (simp add: ts[symmetric])
  next
    case LP_REPLACE
    have "lp_result a (?xs @ ?d # ?ys) (map_option (map_option fst) (lpInsert a (lpk n (encs (?xs @ ?d # ?ys)) sl) es ei (pos (encs ?xs)) LP_REPLACE)) (?xs @ t # ?ys)"
      by (rule replace_at[OF inv'(1) el]) (simp add: ok' ok(2))
    then show ?thesis using i unfolding LP_REPLACE pos_take put_at.simps ts[symmetric] by (simp add: upd_conv_take_nth_drop)
  qed
qed

lemma fst_bind: "(r \<bind> (\<lambda>r. Some (map_option fst r))) = map_option (map_option fst) r"
  by (cases r) auto

lemma append_holds:
  assumes inv: "lp_inv n (encs ts)" and ok: "list_all str_ok ts" "str_ok t" and el: "elem_ok es ei (lp_bytes t)"
  shows "\<exists>b. lpBytes (lpk n (encs ts) sl) = Some b \<and> 1 \<le> b
    \<and> lp_result a ts (map_option (map_option fst) (lpInsert a (lpk n (encs ts) sl) es ei (b - 1) LP_BEFORE)) (ts @ [t])"
  using insert_at[of n ts "[]", OF _ el, of a sl] lpk_bytes[OF inv, of sl] inv ok by (simp add: pos_def)

lemma prepend_holds:
  assumes inv: "lp_inv n (encs ts)" and ok: "list_all str_ok ts" "str_ok t" and el: "elem_ok es ei (lp_bytes t)"
    and ne: "lpFirst (lpk n (encs ts) sl) = Some (Some p)"
  shows "lp_result a ts (map_option (map_option fst) (lpInsert a (lpk n (encs ts) sl) es ei p LP_BEFORE)) (t # ts)"
proof -
  have "p = pos []" using lpk_first[OF inv, of sl] ne by (auto simp: place_def split: if_splits)
  then show ?thesis using insert_at[of n "[]" ts, OF _ el, of a sl] inv ok by simp
qed

lemma first_none: "lp_inv n (encs ts) \<Longrightarrow> lpFirst (lpk n (encs ts) sl) = Some None \<Longrightarrow> ts = []"
  using lpk_first[of n "encs ts" sl] by (auto simp: place_def split: if_splits)

lemma lpAppend_holds:
  assumes "lp_holds m ts" "str_ok s" shows "lp_result a ts (lpAppend a m s) (ts @ [s])"
  using assms(1)
proof (rule holdsE)
  fix n sl assume h: "m = lpk n (encs ts) sl" "lp_inv n (encs ts)" "list_all str_ok ts"
  show ?thesis using append_holds[OF h(2,3) assms(2) elem_str[OF assms(2)], of sl a] unfolding lpAppend_def fst_bind h(1) by auto
qed

lemma lpAppendInteger_holds:
  assumes "lp_holds m ts" shows "lp_result a ts (lpAppendInteger a m v) (ts @ [idec (sint v)])"
  using assms(1)
proof (rule holdsE)
  fix n sl assume h: "m = lpk n (encs ts) sl" "lp_inv n (encs ts)" "list_all str_ok ts"
  show ?thesis using append_holds[OF h(2,3) str_ok_int elem_int[of v], of sl a]
    unfolding lpAppendInteger_def lpInsertInteger_def fst_bind h(1) by auto
qed

lemma lpPrepend_holds:
  assumes m: "lp_holds m ts" and s: "str_ok s" shows "lp_result a ts (lpPrepend a m s) (s # ts)"
  using m
proof (rule holdsE)
  fix n sl assume h: "m = lpk n (encs ts) sl" "lp_inv n (encs ts)" "list_all str_ok ts"
  obtain pp where p: "lpFirst m = Some pp" using lpk_first[OF h(2)] h(1) by auto
  show ?thesis
  proof (cases pp)
    case None
    then have "ts = []" using first_none[OF h(2), of sl] p h(1) by simp
    then show ?thesis using None lpAppend_holds[OF m s, of a] p by (simp add: lpPrepend_def)
  next
    case (Some q)
    then show ?thesis using prepend_holds[OF h(2,3) s elem_str[OF s], of sl q a] p unfolding lpPrepend_def fst_bind h(1) by simp
  qed
qed

lemma lpPrependInteger_holds:
  assumes m: "lp_holds m ts" shows "lp_result a ts (lpPrependInteger a m v) (idec (sint v) # ts)"
  using m
proof (rule holdsE)
  fix n sl assume h: "m = lpk n (encs ts) sl" "lp_inv n (encs ts)" "list_all str_ok ts"
  obtain pp where p: "lpFirst m = Some pp" using lpk_first[OF h(2)] h(1) by auto
  show ?thesis
  proof (cases pp)
    case None
    then have "ts = []" using first_none[OF h(2), of sl] p h(1) by simp
    then show ?thesis using None lpAppendInteger_holds[OF m, of a v] p by (simp add: lpPrependInteger_def)
  next
    case (Some q)
    then show ?thesis using prepend_holds[OF h(2,3) str_ok_int elem_int[of v], of sl q a] p
      unfolding lpPrependInteger_def lpInsertInteger_def fst_bind h(1) by simp
  qed
qed

text \<open>The commands by index.\<close>

lemma seek_at_index:
  assumes inv: "lp_inv n (encs ts)" and ok: "list_all str_ok ts"
    and g: "\<And>j. j < length ts \<Longrightarrow> lp_result a ts (map_option (map_option fst) (G (pos (take j (encs ts))))) (g j ts)"
  shows "lp_result a ts (do { pp \<leftarrow> lpSeek (lpk n (encs ts) sl) i;
      case pp of None \<Rightarrow> Some (Some (lpk n (encs ts) sl)) | Some p \<Rightarrow> map_option (map_option fst) (G p) }) (at_index i g ts)"
proof (cases "resolve (length ts) i")
  case None
  then show ?thesis using lpk_seek_resolve[OF inv, of sl i] holdsI[OF inv ok, of sl] inv_served[OF inv, of a] by (simp add: at_index_def holds_or_full_def)
next
  case (Some j)
  then show ?thesis using lpk_seek_resolve[OF inv, of sl i] g[OF resolve_Some[OF Some]] by (simp add: at_index_def)
qed

lemma cut_ok: "list_all str_ok ts \<Longrightarrow> list_all str_ok (take j ts @ drop k ts)"
  by (auto simp: list_all_iff dest: in_set_takeD in_set_dropD)

lemma cut_encs: "take j (encs ts) @ drop k (encs ts) = encs (take j ts @ drop k ts)" by (simp add: take_map drop_map)

lemma delete_at:
  assumes inv: "lp_inv n (encs ts)" and ok: "list_all str_ok ts" and j: "j < length ts"
  shows "lp_result a ts (map_option (map_option fst) (lpDelete a (lpk n (encs ts) sl) (pos (take j (encs ts))))) (take j ts @ drop (Suc j) ts)"
proof -
  let ?cs = "encs ts" and ?r = "take j ts @ drop (Suc j) ts"
  have cs: "?cs = take j ?cs @ ?cs ! j # drop (Suc j) ?cs" using inv_cut[of j ?cs] j by simp
  have inv': "lp_inv n (take j ?cs @ ?cs ! j # drop (Suc j) ?cs)" by (subst cs[symmetric]) (rule inv)
  have lt: "lp_size ?r \<noteq> lp_size ts"
  proof -
    have "length (body ?cs) = length (body (take j ?cs)) + length (ent (?cs ! j)) + length (body (drop (Suc j) ?cs))" by (subst cs) simp
    moreover have "length (body (encs ?r)) = length (body (take j ?cs)) + length (body (drop (Suc j) ?cs))" unfolding cut_encs[symmetric] by simp
    ultimately have "lp_size ts = lp_size ?r + length (ent (?cs ! j))" by (simp add: lp_size_def)
    moreover have "2 \<le> length (ent (?cs ! j))" by (rule ent_ge2[OF inv_ok[OF inv']])
    ultimately show ?thesis by linarith
  qed
  show ?thesis
  proof (cases "a (lp_size ?r)")
    case None
    then have "lpDelete a (lpk n ?cs sl) (pos (take j ?cs)) = Some None"
      using lpk_delete_refused[OF inv', of a sl] unfolding cs[symmetric] cut_encs lp_size_def by simp
    then show ?thesis using None lt by (simp add: holds_or_full_def lp_served_def granted_def)
  next
    case (Some f)
    then have gr: "a (7 + length (body (take j ?cs @ drop (Suc j) ?cs))) \<noteq> None" unfolding cut_encs lp_size_def by simp
    obtain q where d: "lpDelete a (lpk n ?cs sl) (pos (take j ?cs)) = Some (Some (lpk (num_down 1 n) (take j ?cs @ drop (Suc j) ?cs) [], q))"
      "lp_inv (num_down 1 n) (take j ?cs @ drop (Suc j) ?cs)" using lpk_delete[of n "take j ?cs" "?cs ! j" "drop (Suc j) ?cs" a sl, OF inv' gr] unfolding cs[symmetric] by blast
    show ?thesis using holdsI[OF d(2)[unfolded cut_encs] cut_ok[OF ok], of "[]"] inv_fits[OF d(2)[unfolded cut_encs]] Some
      unfolding d(1) cut_encs by (simp add: holds_or_full_def lp_served_def granted_def)
  qed
qed

lemma range_at:
  assumes inv: "lp_inv n (encs ts)" and ok: "list_all str_ok ts" and num: "int num < 2 ^ 64"
  shows "\<exists>m'. lpDeleteRange a (lpk n (encs ts) sl) i num = Some m' \<and> lp_holds m' (at_index i (\<lambda>j ts. take j ts @ drop (j + num) ts) ts)"
proof (cases "num = 0 \<or> resolve (length ts) i = None")
  case True
  have "lpDeleteRange a (lpk n (encs ts) sl) i num = Some (lpk n (encs ts) sl)"
    using True lpk_num[OF inv, of sl] lpk_seek_resolve[OF inv, of sl i] by (auto simp: lpDeleteRange_def)
  moreover have "at_index i (\<lambda>j ts. take j ts @ drop (j + num) ts) ts = ts"
    using True by (auto simp: at_index_def split: option.splits)
  ultimately show ?thesis using holdsI[OF inv ok, of sl] by simp
next
  case False
  let ?cs = "encs ts"
  obtain j where j: "resolve (length ts) i = Some j" using False by auto
  obtain n' sl' where d: "lpDeleteRange a (lpk n ?cs sl) i num = Some (lpk n' (take j ?cs @ drop (j + num) ?cs) sl')" "lp_inv n' (take j ?cs @ drop (j + num) ?cs)"
    using lpk_delete_range[OF inv _ _ num, of i j a sl] False j by auto
  show ?thesis using holdsI[OF d(2)[unfolded cut_encs] cut_ok[OF ok], of sl'] j
    unfolding d(1) cut_encs by (simp add: at_index_def)
qed

lemma lp_step_edit:
  assumes m: "lp_holds m ts" and ok: "lp_cmd_ok c" shows "holds_or_full lp_holds (lp_serves a c ts) (lp_step a c m) (lp_edit c ts)"
  using m
proof (rule holdsE)
  fix n sl assume h: "m = lpk n (encs ts) sl" "lp_inv n (encs ts)" "list_all str_ok ts"
  show ?thesis
  proof (cases c)
    case (InsertString i s wh)
    then have s: "str_ok s" using ok by simp
    show ?thesis unfolding InsertString h(1) lp_step.simps lp_edit.simps lp_serves.simps lpInsertString_def
      by (rule seek_at_index[OF h(2,3)]) (rule insert_any[OF h(2,3) s elem_str[OF s]])
  next
    case (InsertInteger i v wh)
    show ?thesis unfolding InsertInteger h(1) lp_step.simps lp_edit.simps lp_serves.simps lpInsertInteger_def
      by (rule seek_at_index[OF h(2,3)]) (rule insert_any[OF h(2,3) str_ok_int elem_int])
  next
    case (Delete i)
    show ?thesis unfolding Delete h(1) lp_step.simps lp_edit.simps lp_serves.simps by (rule seek_at_index[OF h(2,3)]) (rule delete_at[OF h(2,3)])
  next
    case (DeleteRange i num)
    then show ?thesis using range_at[OF h(2,3), of num a sl i] ok unfolding h(1) by (auto simp: holds_or_full_def)
  qed (use ok lpAppend_holds[OF m] lpAppendInteger_holds[OF m] lpPrepend_holds[OF m] lpPrependInteger_holds[OF m] in simp_all)
qed

interpretation lpstore: seq_store lp_holds "lp_step a" lp_edit "lp_serves a" lp_cmd_ok for a
  by unfold_locales (rule lp_step_edit)

section \<open>Batches, search and reading on texts\<close>

lemma lpNew_holds:
  "if a (max capacity 7) = None then lpNew a capacity = Some None else \<exists>m. lpNew a capacity = Some (Some m) \<and> lp_holds m []"
  using lpk_new[of a capacity] lpk_new_refused[of a capacity] holdsI[of 0 "[]"] by auto

lemma map_nth_upt: "b \<le> length ts \<Longrightarrow> map (nth ts) [a..<b] = take (b - a) (drop a ts)"
  by (rule nth_equalityI) auto

lemma upt_split: "a \<le> b \<Longrightarrow> b \<le> c \<Longrightarrow> [a..<c] = [a..<b] @ [b..<c]"
  using upt_add_eq_append[of a b "c - b"] by simp

text \<open>Indices in increasing order cut the list into elements to delete, each followed by elements to keep.\<close>

lemma indices_cut:
  "sorted_wrt (<) (i # is) \<Longrightarrow> last (i # is) < length cs \<Longrightarrow>
   \<exists>ks. drop i cs = drops ks \<and> offs (pos (take i cs)) ks = map (\<lambda>j. pos (take j cs)) (i # is)
      \<and> keeps ks = map (nth cs) (filter (\<lambda>j. j \<notin> set (i # is)) [i..<length cs])"
proof (induction "is" arbitrary: i)
  case Nil
  then have i: "i < length cs" by simp
  have "filter (\<lambda>j. j \<noteq> i) [i..<length cs] = [Suc i..<length cs]"
    using i by (simp add: upt_conv_Cons)
  then show ?case using i map_nth_upt[of "length cs" cs "Suc i"]
    by (intro exI[of _ "[(cs ! i, drop (Suc i) cs)]"]) (simp add: Cons_nth_drop_Suc)
next
  case (Cons i' "is")
  then have l: "i < i'" "\<forall>j\<in>set is. i' < j" by auto
  have b: "i' < length cs"
  proof (cases "is = []")
    case False
    then have "i' < last is" using l(2) last_in_set[OF False] by blast
    then show ?thesis using Cons.prems(2) False by simp
  qed (use Cons.prems(2) in simp)
  obtain ks where ks: "drop i' cs = drops ks" "offs (pos (take i' cs)) ks = map (\<lambda>j. pos (take j cs)) (i' # is)"
      "keeps ks = map (nth cs) (filter (\<lambda>j. j \<notin> set (i' # is)) [i'..<length cs])"
    using Cons.IH[of i'] Cons.prems by auto
  let ?us = "take (i' - Suc i) (drop (Suc i) cs)"
  have c: "drop i cs = cs ! i # drop (Suc i) cs" using l(1) b by (simp add: Cons_nth_drop_Suc)
  have e: "drop (Suc i) cs = ?us @ drop i' cs" using append_take_drop_id[of "i' - Suc i" "drop (Suc i) cs"] l(1) by simp
  have d: "drop i cs = cs ! i # ?us @ drop i' cs" unfolding c by (simp only: e[symmetric])
  have "take i' cs = take i cs @ take (i' - i) (drop i cs)" using take_add[of i "i' - i" cs] l(1) by simp
  moreover have "i' - i = Suc (i' - Suc i)" using l(1) by simp
  ultimately have t: "take i' cs = take i cs @ cs ! i # ?us" unfolding c by simp
  have u: "[i..<length cs] = i # [Suc i..<i'] @ [i'..<length cs]"
    using l(1) b upt_conv_Cons[of i "length cs"] upt_split[of "Suc i" i' "length cs"] by simp
  have k: "filter (\<lambda>j. j \<notin> set (i # i' # is)) [Suc i..<i'] = [Suc i..<i']" using l by (intro filter_True) auto
  have k': "filter (\<lambda>j. j \<notin> set (i # i' # is)) [i'..<length cs] = filter (\<lambda>j. j \<notin> set (i' # is)) [i'..<length cs]"
    using l by (intro filter_cong) auto
  have "keeps ((cs ! i, ?us) # ks) = map (nth cs) (filter (\<lambda>j. j \<notin> set (i # i' # is)) [i..<length cs])"
    unfolding u filter.simps filter_append k k' using map_nth_upt[of i' cs "Suc i"] b by (simp add: ks(3))
  moreover have "offs (pos (take i cs)) ((cs ! i, ?us) # ks) = map (\<lambda>j. pos (take j cs)) (i # i' # is)"
    using ks(2) unfolding t by (simp add: add.assoc)
  ultimately show ?case using d ks(1) by (intro exI[of _ "(cs ! i, ?us) # ks"]) simp
qed


definition lp_at :: "mem list \<Rightarrow> nat \<Rightarrow> nat" where "lp_at ts i = pos (encs (take i ts))"

lemma lp_at_pos: "lp_at ts i = pos (take i (encs ts))" by (simp add: lp_at_def take_map)

lemma lpSeek_at: "lp_holds m ts \<Longrightarrow> lpSeek m i = Some (map_option (lp_at ts) (resolve (length ts) i))"
  by (auto elim!: holdsE simp: lpk_seek_resolve lp_at_pos[abs_def] comp_def)

lemma batch_delete_holds:
  assumes "lp_holds m ts" and s: "sorted_wrt (<) is" "list_all (\<lambda>i. i < length ts) is"
  shows "\<exists>m'. lpBatchDelete a m (map (lp_at ts) is) = Some m' \<and> lp_holds m' (map (nth ts) (filter (\<lambda>j. j \<notin> set is) [0..<length ts]))"
  using assms(1)
proof (rule holdsE)
  fix n sl assume h: "m = lpk n (encs ts) sl" "lp_inv n (encs ts)" "list_all str_ok ts"
  show ?thesis
  proof (cases "is")
    case Nil
    then show ?thesis using assms(1) by (simp add: lpBatchDelete_def map_nth)
  next
    case (Cons i is')
    let ?cs = "encs ts" and ?keep = "filter (\<lambda>j. j \<notin> set is) [0..<length ts]"
    have b: "last (i # is') < length ?cs" "i < length ?cs" using s(2) Cons by (auto simp: list_all_iff)
    have mn: "i \<le> j" if "j \<in> set is" for j using s(1) Cons that by auto
    obtain ks where k: "drop i ?cs = drops ks" "offs (pos (take i ?cs)) ks = map (\<lambda>j. pos (take j ?cs)) is"
        "keeps ks = map (nth ?cs) (filter (\<lambda>j. j \<notin> set is) [i..<length ?cs])"
      using indices_cut[OF s(1)[unfolded Cons] b(1)] Cons by auto
    have cs: "take i ?cs @ drops ks = ?cs" using k(1) by (metis append_take_drop_id)
    have "filter (\<lambda>j. j \<notin> set is) [0..<i] = [0..<i]" using mn by (intro filter_True) force
    then have "?keep = [0..<i] @ filter (\<lambda>j. j \<notin> set is) [i..<length ts]"
      using upt_split[of 0 i "length ts"] b(2) by simp
    moreover have "take i ?cs = map (nth ?cs) [0..<i]" using map_nth_upt[of i ?cs 0] b(2) by simp
    ultimately have r: "take i ?cs @ keeps ks = encs (map (nth ts) ?keep)" using k(3) b(2) by (simp add: comp_def)
    have "\<exists>sl'. lpBatchDelete a m (map (lp_at ts) is) = Some (lpk (num_down (length ks) n) (encs (map (nth ts) ?keep)) sl')
        \<and> lp_inv (num_down (length ks) n) (encs (map (nth ts) ?keep))"
      using lpk_batch_delete[of n "take i ?cs" ks a sl] unfolding cs k(2) r h(1) lp_at_pos[abs_def] using h(2) by simp
    moreover have "list_all str_ok (map (nth ts) ?keep)" using h(3) by (auto simp: list_all_iff)
    ultimately show ?thesis using holdsI by blast
  qed
qed

lemma entries_canon: "map entry_bytes es = encs (map entry_text es)"
  by (auto simp: entry_bytes_def entry_text_def int_canon split: option.splits)

lemma entries_str_ok: "list_all entry_ok es \<Longrightarrow> list_all str_ok (map entry_text es)"
  using str_ok_int unfolding list_all_iff entry_ok_def entry_text_def by (auto simp: str_ok_def split: option.splits)

lemma batch_insert_holds:
  assumes "lp_holds m ts" and i: "i \<le> length ts" and es: "list_all entry_ok es" "es \<noteq> []"
    and fit: "lp_served a ts (take i ts @ map entry_text es @ drop i ts)"
  shows "\<exists>m'. lpBatchInsert a m (lp_at ts i) LP_BEFORE es = Some (Some (m', Some (lp_at (take i ts @ map entry_text es) (i + length es - 1))))
    \<and> lp_holds m' (take i ts @ map entry_text es @ drop i ts)"
  using assms(1)
proof (rule holdsE)
  fix n sl assume h: "m = lpk n (encs ts) sl" "lp_inv n (encs ts)" "list_all str_ok ts"
  let ?xs = "encs (take i ts)" and ?ys = "encs (drop i ts)" and ?r = "take i ts @ map entry_text es @ drop i ts"
  have c: "encs ts = ?xs @ ?ys" by (simp flip: map_append)
  have e: "?xs @ map entry_bytes es @ ?ys = encs ?r" unfolding entries_canon by simp
  have p: "pos (?xs @ map entry_bytes (butlast es)) = lp_at (take i ts @ map entry_text es) (i + length es - 1)"
    using i es(2) unfolding entries_canon lp_at_def by (cases "length es") (auto simp: take_map butlast_conv_take min_def)
  have "\<exists>n' sl'. lpBatchInsert a m (lp_at ts i) LP_BEFORE es = Some (Some (lpk n' (encs ?r) sl', Some (lp_at (take i ts @ map entry_text es) (i + length es - 1))))
     \<and> lp_inv n' (encs ?r)"
    using lpk_batch_insert[of n ?xs ?ys es a sl, unfolded e p] h(2) es fit unfolding h(1) c[symmetric] lp_at_def lp_served_def lp_fits_def lp_size_def by auto
  moreover have "list_all str_ok ?r" using entries_str_ok[OF es(1)] h(3) by (auto simp: list_all_iff dest: in_set_takeD in_set_dropD)
  ultimately show ?thesis using holdsI by blast
qed

lemma merge_holds:
  assumes m1: "lp_holds m1 ts1" and m2: "lp_holds m2 ts2" and fit: "int (7 + length (body (encs (ts1 @ ts2)))) < 2 ^ 32 - 1" "a (lp_size (ts1 @ ts2)) \<noteq> None"
  shows "\<exists>m. lpMerge a False (Some m1) (Some m2) = Some (Some (m, length (body (encs ts1)) \<ge> length (body (encs ts2)))) \<and> lp_holds m (ts1 @ ts2)"
proof -
  obtain n1 sl1 n2 sl2 where h: "m1 = lpk n1 (encs ts1) sl1" "lp_inv n1 (encs ts1)" "list_all str_ok ts1"
      "m2 = lpk n2 (encs ts2) sl2" "lp_inv n2 (encs ts2)" "list_all str_ok ts2"
    using m1 m2 by (auto elim!: holdsE)
  have "\<exists>n. lpMerge a False (Some m1) (Some m2) = Some (Some (lpk n (encs (ts1 @ ts2)) [], length (body (encs ts1)) \<ge> length (body (encs ts2)))) \<and> lp_inv n (encs (ts1 @ ts2))"
    using lpk_merge[OF h(2,5), of a _ sl1 sl2] fit unfolding h(1,4) lp_size_def by auto
  then show ?thesis using holdsI[of _ "ts1 @ ts2"] h(3,6) by auto
qed

fun find_text :: "mem \<Rightarrow> nat \<Rightarrow> nat \<Rightarrow> mem list \<Rightarrow> nat option" where
  "find_text s skip k [] = None"
| "find_text s skip 0 (t # ts) = (if t = s then Some 0 else map_option Suc (find_text s skip skip ts))"
| "find_text s skip (Suc k) (t # ts) = map_option Suc (find_text s skip k ts)"

lemma find_idx_text: "list_all str_ok ts \<Longrightarrow> find_idx s skip k (encs ts) = find_text s skip k ts"
  by (induction s skip k ts rule: find_text.induct) (auto simp: text_str)

lemma find_holds: "lp_holds m ts \<Longrightarrow> lpFind m None s skip = Some (map_option (lp_at ts) (find_text s skip 0 ts))"
  by (auto elim!: holdsE simp: lpk_find find_idx_text lp_at_pos[abs_def])

fun lp_text :: "mem \<Rightarrow> lpval \<Rightarrow> mem option" where
  "lp_text m (PStr off k) = rd m off k"
| "lp_text m (PBuf k buf) = Some (take k buf)"
| "lp_text m (PInt v) = None"

lemma get_holds:
  assumes "lp_holds m ts" and i: "i < length ts" and b: "LP_INTBUF_SIZE \<le> length buf"
  shows "do { v \<leftarrow> lpGet m (lp_at ts i) (Some buf); lp_text m v } = Some (ts ! i)"
  using assms(1)
proof (rule holdsE)
  fix n sl assume h: "m = lpk n (encs ts) sl" "lp_inv n (encs ts)" "list_all str_ok ts"
  let ?cs = "encs ts"
  have cs: "?cs = take i ?cs @ ?cs ! i # drop (Suc i) ?cs" using inv_cut[of i ?cs] i by simp
  have inv: "lp_inv n (take i ?cs @ ?cs ! i # drop (Suc i) ?cs)" by (subst cs[symmetric]) (rule h(2))
  have t: "etext (?cs ! i) = ts ! i" using h(3) i by (simp add: list_all_length text_str)
  from lpk_get_text[OF inv b, of sl] show ?thesis unfolding cs[symmetric] h(1) lp_at_pos t by auto
qed

lemma length_holds:
  assumes "lp_holds m ts" shows "\<exists>c m'. lpLength m = Some (c, m') \<and> unat c = length ts \<and> lp_holds m' ts"
  using assms
proof (rule holdsE)
  fix n sl assume h: "m = lpk n (encs ts) sl" "lp_inv n (encs ts)" "list_all str_ok ts"
  have "length ts < 2 ^ 31" using inv_len[OF h(2)] by simp
  then have "unat (of_nat (length ts) :: u32) = length ts" by (simp add: unat_of_nat take_bit_nat_eq_self)
  then show ?thesis using lpk_length[OF h(2), of sl] holdsI[OF _ h(3)] unfolding h(1) by fastforce
qed

lemma valid_holds: "lp_holds m ts \<Longrightarrow> \<exists>t. lpBytes m = Some t \<and> lpValidateIntegrity m t deep None u = Some True"
  by (auto elim!: holdsE simp: lpk_bytes lpk_valid)

section \<open>Properties\<close>

text \<open>A block for the examples: an integer, a string, a long string and a negative integer.\<close>

definition lp_demo_texts :: "mem list" where
  "lp_demo_texts = [[49, 50], [97, 98], replicate 70 120, [45, 53, 48, 48, 48]]"

definition lp_demo :: mem where "lp_demo = lpk 4 (map lp_bytes lp_demo_texts) []"

lemma lp_demo_holds: "lp_holds lp_demo lp_demo_texts"
proof -
  have "list_all enc_ok (encs lp_demo_texts)" "int (7 + length (body (encs lp_demo_texts))) < 2 ^ 32" "list_all str_ok lp_demo_texts" by code_simp+
  then show ?thesis unfolding lp_demo_def by (intro holdsI) (simp_all add: lp_inv_def lp_demo_texts_def)
qed

text \<open>C4: \<open>lpNew\<close> returns \<open>NULL\<close> exactly when the allocator refuses its request. From the new listpack, any sequence of \<open>lpAppend\<close>, \<open>lpPrepend\<close>,
  \<open>lpInsertString\<close> (before, after, replace), their integer variants, \<open>lpDelete\<close> and \<open>lpDeleteRange\<close> at indices given to \<open>lpSeek\<close> runs without a failed
  assertion or an access outside the block; it does on the stored texts what the same edits do on a list, and it stops with \<open>NULL\<close> exactly at the first
  command whose result does not fit in the 32-bit size of the header or whose change of size the allocator refuses.\<close>

theorem lp_commands_refine:
  assumes "list_all lp_cmd_ok cmds"
  shows "if a (max capacity 7) = None then lpNew a capacity = Some None
    else \<exists>m0 r. lpNew a capacity = Some (Some m0) \<and> run_cmds (lp_step a) cmds m0 = Some r \<and> rel_option lp_holds r (run_edits lp_edit (lp_serves a) cmds [])"
  using lpNew_holds[of a capacity] lpstore.run_refines[OF _ assms, of _ _ a] by (auto split: if_splits)

text \<open>An allocator with 60 bytes: the last command asks for more.\<close>

theorem lp_commands_refine_witness:
  "\<exists>m0 m. lpNew (\<lambda>n. if n \<le> 60 then Some (\<lambda>_. 7) else None) 0 = Some (Some m0) \<and>
     run_cmds (lp_step (\<lambda>n. if n \<le> 60 then Some (\<lambda>_. 7) else None)) [Append [97], PrependInteger 300, InsertString (- 1) [49, 50] LP_BEFORE, AppendInteger (- 1),
        InsertString 0 [122] LP_REPLACE, InsertInteger 1 8 LP_AFTER, Delete 3, DeleteRange 1 1, Prepend []] m0 = Some (Some m) \<and>
     lp_holds m [[], [122], [56], [45, 49]] \<and>
     run_cmds (lp_step (\<lambda>n. if n \<le> 60 then Some (\<lambda>_. 7) else None)) [Append [97], Append (replicate 60 98)] m0 = Some None"
proof -
  let ?a = "\<lambda>n :: nat. if n \<le> 60 then Some (\<lambda>_ :: nat. 7 :: byte) else None"
  let ?c = "[Append [97], PrependInteger 300, InsertString (- 1) [49, 50] LP_BEFORE, AppendInteger (- 1),
        InsertString 0 [122] LP_REPLACE, InsertInteger 1 8 LP_AFTER, Delete 3, DeleteRange 1 1, Prepend []]"
  let ?d = "[Append [97], Append (replicate 60 98)]"
  have ok: "list_all lp_cmd_ok ?c" "list_all lp_cmd_ok ?d" by code_simp+
  have r: "run_edits lp_edit (lp_serves ?a) ?c [] = Some [[], [122], [56], [45, 49]]" "run_edits lp_edit (lp_serves ?a) ?d [] = None" by code_simp+
  have n: "?a (max 0 7) \<noteq> None" by simp
  obtain m0 x where 1: "lpNew ?a 0 = Some (Some m0)" "run_cmds (lp_step ?a) ?c m0 = Some x" "rel_option lp_holds x (Some [[], [122], [56], [45, 49]])"
    using lp_commands_refine[OF ok(1), of ?a 0] n unfolding r by (auto simp del: run_cmds.simps)
  obtain m1 y where 2: "lpNew ?a 0 = Some (Some m1)" "run_cmds (lp_step ?a) ?d m1 = Some y" "rel_option lp_holds y None"
    using lp_commands_refine[OF ok(2), of ?a 0] n unfolding r by (auto simp del: run_cmds.simps)
  have "m1 = m0" using 1(1) 2(1) by simp
  then show ?thesis using 1 2(2,3) by (auto simp: option_rel_Some2 simp del: run_cmds.simps)
qed

text \<open>C12: Every block that these commands can build from \<open>lpNew\<close> is accepted by the deep check of \<open>lpValidateIntegrity\<close>
  at the size that its header states.\<close>

theorem lp_reachable_valid:
  assumes "list_all lp_cmd_ok cmds" "lpNew a capacity = Some (Some m0)" "run_cmds (lp_step a) cmds m0 = Some (Some m)"
  shows "\<exists>t. lpBytes m = Some t \<and> lpValidateIntegrity m t True None u = Some True"
proof -
  have "lp_holds m0 []" using lpNew_holds[of a capacity] assms(2) by (simp split: if_splits)
  from lpstore.run_refines[OF this assms(1), of a] obtain ts where "lp_holds m ts" using assms(3) by (auto simp: option_rel_Some1)
  then show ?thesis by (rule valid_holds)
qed

theorem lp_reachable_valid_witness:
  "\<exists>m t. run_cmds (lp_step (\<lambda>_. Some (\<lambda>_. 7))) [Append [97], AppendInteger 300, Delete 0] (lpk 0 [] []) = Some (Some m)
     \<and> lpBytes m = Some t \<and> lpValidateIntegrity m t True None () = Some True"
proof -
  have ok: "list_all lp_cmd_ok [Append [97], AppendInteger 300, Delete 0]" by code_simp
  have n: "lpNew (\<lambda>_. Some (\<lambda>_. 7)) 0 = Some (Some (lpk 0 [] []))" by code_simp
  have r: "run_cmds (lp_step (\<lambda>_. Some (\<lambda>_. 7))) [Append [97], AppendInteger 300, Delete 0] (lpk 0 [] []) = Some (Some (lpk 1 [lpEncodeIntegerGetType 300] []))"
    by code_simp
  show ?thesis using lp_reachable_valid[OF ok n r, of "()"] r by blast
qed

text \<open>\<open>lpLength\<close> returns the number of elements, whether or not the 16-bit count of the header is known, and leaves the
  elements as they are when it writes the count back.\<close>

theorem lp_length_counts:
  assumes "lp_holds m ts"
  shows "\<exists>c m'. lpLength m = Some (c, m') \<and> unat c = length ts \<and> lp_holds m' ts"
  using assms by (rule length_holds)

theorem lp_length_counts_witness: "\<exists>c m'. lpLength lp_demo = Some (c, m') \<and> unat c = 4 \<and> lp_holds m' lp_demo_texts"
proof -
  have "length lp_demo_texts = 4" by code_simp
  then show ?thesis using lp_length_counts[OF lp_demo_holds] by simp
qed

text \<open>C30: What was stored as the text \<open>ts ! i\<close>, under the shortest of nine encodings, is read back by \<open>lpSeek\<close>
  and \<open>lpGet\<close> with a buffer for integers as exactly that text.\<close>

theorem lp_get_roundtrip:
  assumes "lp_holds m ts" "i < length ts" "LP_INTBUF_SIZE \<le> length buf"
  shows "\<exists>p v. lpSeek m (int i) = Some (Some p) \<and> lpGet m p (Some buf) = Some v \<and> lp_text m v = Some (ts ! i)"
  using get_holds[OF assms] lpSeek_at[OF assms(1), of "int i"] assms(2) by (auto simp: resolve_def split: bind_splits)

theorem lp_get_roundtrip_witness:
  "\<exists>p v. lpSeek lp_demo 3 = Some (Some p) \<and> lpGet lp_demo p (Some (replicate 21 0)) = Some v \<and> lp_text lp_demo v = Some [45, 53, 48, 48, 48]"
  using lp_get_roundtrip[OF lp_demo_holds, of 3 "replicate 21 0"] by (simp add: lp_demo_texts_def LP_INTBUF_SIZE_def)

text \<open>C31: \<open>lpAppend\<close> returns \<open>NULL\<close> exactly when the list with the new element does not fit in \<open>UINT32_MAX\<close> bytes or the allocator refuses a block of
  its size; otherwise the block that it returns holds the list with the new element.\<close>

theorem lp_append_full:
  assumes "lp_holds m ts" "str_ok s"
  shows "if lp_fits (ts @ [s]) \<and> a (lp_size (ts @ [s])) \<noteq> None then \<exists>m'. lpAppend a m s = Some (Some m') \<and> lp_holds m' (ts @ [s])
    else lpAppend a m s = Some None"
proof -
  have "2 \<le> length (ent (lp_bytes s))" using lp_bytes_ok[OF str_ok_nat[OF assms(2)]] by (intro ent_ge2) simp
  then have "lp_size (ts @ [s]) \<noteq> lp_size ts" by (auto simp: lp_size_def)
  then show ?thesis using lpAppend_holds[OF assms, of a] by (auto simp: holds_or_full_def lp_served_def granted_def)
qed

lemma long_text: "n < 4294967291 \<Longrightarrow> 4096 \<le> n \<Longrightarrow> length (lp_bytes (replicate n x)) = n + 5"
  by (simp add: lp_bytes_def lpStringToInt64_string2ll string2ll_long lp_str_bytes_def Let_def word_less_nat_alt unat_of_nat take_bit_nat_eq_self)

theorem lp_append_full_witness:
  "lpAppend (\<lambda>_. Some (\<lambda>_. 7)) lp_demo (replicate 4294967290 65) = Some None \<and> lpAppend (\<lambda>_. None) lp_demo [65] = Some None \<and>
   (\<exists>m'. lpAppend (\<lambda>_. Some (\<lambda>_. 7)) lp_demo [65] = Some (Some m') \<and> lp_holds m' (lp_demo_texts @ [[65]]))"
proof -
  have a: "str_ok (replicate 4294967290 65)" by (simp add: str_ok_def)
  have b: "\<not> lp_fits (lp_demo_texts @ [replicate 4294967290 65])" using long_text[of 4294967290 65] by (simp add: lp_fits_def lp_size_def length_ent)
  have c: "str_ok [65]" "lp_fits (lp_demo_texts @ [[65]])" by code_simp+
  show ?thesis using lp_append_full[OF lp_demo_holds a, of "\<lambda>_. Some (\<lambda>_. 7)"] lp_append_full[OF lp_demo_holds c(1), of "\<lambda>_. Some (\<lambda>_. 7)"]
      lp_append_full[OF lp_demo_holds c(1), of "\<lambda>_. None"] b c(2) by simp
qed

text \<open>\<open>lpBatchDelete\<close> with the places of the elements at increasing indices removes these elements and keeps the others in order.\<close>

theorem lp_batch_delete:
  assumes "lp_holds m ts" "sorted_wrt (<) is" "list_all (\<lambda>i. i < length ts) is"
  shows "\<exists>m'. lpBatchDelete a m (map (lp_at ts) is) = Some m' \<and> lp_holds m' (map (nth ts) (filter (\<lambda>j. j \<notin> set is) [0..<length ts]))"
  by (rule batch_delete_holds[OF assms])

theorem lp_batch_delete_witness:
  "\<exists>m'. lpBatchDelete (\<lambda>_. Some (\<lambda>_. 7)) lp_demo (map (lp_at lp_demo_texts) [0, 2]) = Some m' \<and> lp_holds m' [[97, 98], [45, 53, 48, 48, 48]]"
  using lp_batch_delete[OF lp_demo_holds, of "[0, 2]" "\<lambda>_. Some (\<lambda>_. 7)"] by (simp add: lp_demo_texts_def upt_rec)

text \<open>\<open>lpBatchInsert\<close> before the element at index \<open>i\<close> (or at the end) inserts all the entries there in order,
  and its \<open>newp\<close> is the place of the last of them.\<close>

theorem lp_batch_insert:
  assumes "lp_holds m ts" "i \<le> length ts" "list_all entry_ok es" "es \<noteq> []" "lp_served a ts (take i ts @ map entry_text es @ drop i ts)"
  shows "\<exists>m'. lpBatchInsert a m (lp_at ts i) LP_BEFORE es = Some (Some (m', Some (lp_at (take i ts @ map entry_text es) (i + length es - 1))))
    \<and> lp_holds m' (take i ts @ map entry_text es @ drop i ts)"
  by (rule batch_insert_holds[OF assms])

theorem lp_batch_insert_witness:
  "\<exists>m' q. lpBatchInsert (\<lambda>_. Some (\<lambda>_. 7)) lp_demo (lp_at lp_demo_texts 2) LP_BEFORE [\<lparr>sval = Some [99], lval = 0\<rparr>, \<lparr>sval = None, lval = 5\<rparr>] = Some (Some (m', Some q))
    \<and> lp_holds m' [[49, 50], [97, 98], [99], [53], replicate 70 120, [45, 53, 48, 48, 48]]"
proof -
  let ?es = "[\<lparr>sval = Some [99], lval = 0\<rparr>, \<lparr>sval = None, lval = 5\<rparr>]"
  have t: "take 2 lp_demo_texts @ map entry_text ?es @ drop 2 lp_demo_texts = [[49, 50], [97, 98], [99], [53], replicate 70 120, [45, 53, 48, 48, 48]]"
    by code_simp
  have "lp_served (\<lambda>_. Some (\<lambda>_. 7)) lp_demo_texts [[49, 50], [97, 98], [99], [53], replicate 70 120, [45, 53, 48, 48, 48]]" by code_simp
  then show ?thesis using lp_batch_insert[OF lp_demo_holds, of 2 ?es "\<lambda>_. Some (\<lambda>_. 7)"] unfolding t by (auto simp: entry_ok_def lp_demo_texts_def)
qed

text \<open>\<open>lpMerge\<close> of two listpacks holds the elements of the first, then those of the second, in the block of the larger one.\<close>

theorem lp_merge_concat:
  assumes "lp_holds m1 ts1" "lp_holds m2 ts2" "int (7 + length (body (map lp_bytes (ts1 @ ts2)))) < 2 ^ 32 - 1" "a (lp_size (ts1 @ ts2)) \<noteq> None"
  shows "\<exists>m. lpMerge a False (Some m1) (Some m2) = Some (Some (m, length (body (map lp_bytes ts1)) \<ge> length (body (map lp_bytes ts2)))) \<and> lp_holds m (ts1 @ ts2)"
  by (rule merge_holds[of m1 ts1 m2 ts2 a, OF assms])

theorem lp_merge_concat_witness: "\<exists>m k. lpMerge (\<lambda>_. Some (\<lambda>_. 7)) False (Some lp_demo) (Some lp_demo) = Some (Some (m, k)) \<and> lp_holds m (lp_demo_texts @ lp_demo_texts)"
proof -
  have "int (7 + length (body (map lp_bytes (lp_demo_texts @ lp_demo_texts)))) < 2 ^ 32 - 1" by code_simp
  from lp_merge_concat[of lp_demo lp_demo_texts lp_demo lp_demo_texts "\<lambda>_. Some (\<lambda>_. 7)", OF lp_demo_holds lp_demo_holds this] show ?thesis by blast
qed

text \<open>C32: \<open>lpFind\<close> compares a text with the element where it starts and then with every element after \<open>skip\<close> others,
  and returns the place of the first equal one, integers and strings alike, or \<open>NULL\<close>.\<close>

theorem lp_find_first:
  assumes "lp_holds m ts"
  shows "lpFind m None s skip = Some (map_option (lp_at ts) (find_text s skip 0 ts))"
  using assms by (rule find_holds)

theorem lp_find_first_witness:
  "lpFind lp_demo None [45, 53, 48, 48, 48] 2 = Some (Some (lp_at lp_demo_texts 3)) \<and> lpFind lp_demo None [97, 98] 1 = Some None"
proof -
  have "find_text [45, 53, 48, 48, 48] 2 0 lp_demo_texts = Some 3" "find_text [97, 98] 1 0 lp_demo_texts = None" by code_simp+
  then show ?thesis using lp_find_first[OF lp_demo_holds] by simp
qed

text \<open>C33: \<open>lpValidateIntegrity\<close>, deep or not and with any callback, terminates on arbitrary bytes and reads nothing outside the
  \<open>size\<close> bytes that it is given.\<close>

theorem lp_validate_total:
  assumes "sz \<le> length m" shows "\<exists>b. lpValidateIntegrity m sz deep cb u = Some b"
  using assms by (rule validate_total)

theorem lp_validate_total_witness:
  "\<exists>b. lpValidateIntegrity [12, 0, 0, 0, 1, 0, 0xF0, 0xFF, 0xFF, 0xFF, 0xFF, 0xFF] 12 True None () = Some b"
  using lp_validate_total[of 12 "[12, 0, 0, 0, 1, 0, 0xF0, 0xFF, 0xFF, 0xFF, 0xFF, 0xFF]" True None "()"] by simp

text \<open>C13: A block of arbitrary bytes that the deep check accepts is walked by \<open>lpFirst\<close> and \<open>lpNext\<close> to its end without a failed
  assertion or an access outside the block, and the number of elements met is the count of the header, if that is known.\<close>

theorem lp_validated_walk:
  assumes "lpValidateIntegrity m sz True None u = Some True" "sz \<le> length m"
  shows "\<exists>pp n. lpFirst m = Some pp \<and> lpLength_scan m pp 0 = Some n \<and> (lpGetNumElements m = Some LP_HDR_NUMELE_UNKNOWN \<or> lpGetNumElements m = Some n)"
  by (rule validate_walk[OF assms])

theorem lp_validated_walk_witness:
  "\<exists>pp n. lpFirst [11, 0, 0, 0, 2, 0, 5, 1, 6, 1, 0xFF] = Some pp \<and> lpLength_scan [11, 0, 0, 0, 2, 0, 5, 1, 6, 1, 0xFF] pp 0 = Some n"
proof -
  have "lpValidateIntegrity [11, 0, 0, 0, 2, 0, 5, 1, 6, 1, 0xFF] 11 True None () = Some True" by code_simp
  from lp_validated_walk[OF this] show ?thesis by auto
qed

end
