(* ===== verification/Adlist.thy ===== *)
theory Adlist
  imports Store
begin

text \<open>
  The doubly linked list of \<open>src/redislib-src/kernel/adlist.c\<close> and \<open>adlist.h\<close>, on a heap of nodes: creation, insertion at both ends and
  beside a node, unlinking, deletion, release, iterators, duplication, search, indexing, rotation and concatenation. A pointer is an
  optional address; the null pointer and a freed address are undefined when followed. The \<open>dup\<close> and \<open>match\<close> methods are functions of the list, the
  \<open>free\<close> method is a flag, and the operations return the values it is called with, in order. \<open>zmalloc\<close> is a parameter, for the nodes and for
  the list headers, and may return \<open>NULL\<close>. The headers are in a store of their own: the operations that allocate or free a header
  (\<open>listCreate\<close>, \<open>listRelease\<close>, \<open>listDup\<close>) act on it, the others take the contents of the header and return its new contents.
\<close>

section \<open>The code\<close>

type_synonym lptr = "nat option"

record 'v listNode =
  prev :: lptr
  nxt :: lptr
  val :: 'v

type_synonym 'v nodes = "nat \<rightharpoonup> 'v listNode"

record 'v adlist =
  head :: lptr
  tail :: lptr
  dup :: "('v \<Rightarrow> 'v option) option"
  frees :: bool
  match :: "('v \<Rightarrow> 'v \<Rightarrow> bool) option"
  len :: u64

datatype direction = AL_START_HEAD | AL_START_TAIL

record listIter =
  iter_next :: lptr
  iter_direction :: direction

text \<open>Reads and writes through a pointer; the null pointer and a pointer to no node are undefined.\<close>

definition node_at :: "'v nodes \<Rightarrow> lptr \<Rightarrow> 'v listNode option" where
  "node_at h p = (case p of None \<Rightarrow> None | Some a \<Rightarrow> h a)"

definition set_prev :: "'v nodes \<Rightarrow> lptr \<Rightarrow> lptr \<Rightarrow> 'v nodes option" where
  "set_prev h p q = (case p of None \<Rightarrow> None | Some a \<Rightarrow> (case h a of None \<Rightarrow> None | Some n \<Rightarrow> Some (h(a \<mapsto> n\<lparr>prev := q\<rparr>))))"

definition set_next :: "'v nodes \<Rightarrow> lptr \<Rightarrow> lptr \<Rightarrow> 'v nodes option" where
  "set_next h p q = (case p of None \<Rightarrow> None | Some a \<Rightarrow> (case h a of None \<Rightarrow> None | Some n \<Rightarrow> Some (h(a \<mapsto> n\<lparr>nxt := q\<rparr>))))"

definition zfree :: "(nat \<rightharpoonup> 'b) \<Rightarrow> nat \<Rightarrow> (nat \<rightharpoonup> 'b) option" where
  "zfree h a = (if h a = None then None else Some (h(a := None)))"

text \<open>The list headers, and \<open>zmalloc\<close> for them: an address for the current headers, or \<open>NULL\<close>.\<close>

type_synonym 'v lists = "nat \<rightharpoonup> 'v adlist"
type_synonym 'v halloc = "'v lists \<Rightarrow> nat option"

definition empty_list :: "'v adlist" where
  "empty_list = \<lparr>head = None, tail = None, dup = None, frees = False, match = None, len = 0\<rparr>"

definition listCreate :: "'v halloc \<Rightarrow> 'v lists \<Rightarrow> (nat \<times> 'v lists) option" where
  "listCreate zmalloc hs = (case zmalloc hs of None \<Rightarrow> None | Some c \<Rightarrow> Some (c, hs(c \<mapsto> empty_list)))"

definition listInitNode :: "'v nodes \<Rightarrow> nat \<Rightarrow> 'v \<Rightarrow> 'v nodes" where
  "listInitNode h a v = h(a \<mapsto> \<lparr>prev = None, nxt = None, val = v\<rparr>)"

text \<open>The nodes are freed one by one; the last component collects the values given to the free method.\<close>

fun listEmpty_loop :: "'v nodes \<Rightarrow> bool \<Rightarrow> lptr \<Rightarrow> nat \<Rightarrow> 'v list \<Rightarrow> ('v nodes \<times> 'v list) option" where
  "listEmpty_loop h fr current 0 out = Some (h, out)"
| "listEmpty_loop h fr current (Suc n) out = do {
     a \<leftarrow> current;
     nd \<leftarrow> h a;
     h \<leftarrow> zfree h a;
     listEmpty_loop h fr (nxt nd) n (if fr then out @ [val nd] else out) }"

definition listEmpty :: "'v nodes \<Rightarrow> 'v adlist \<Rightarrow> ('v nodes \<times> 'v adlist \<times> 'v list) option" where
  "listEmpty h l = do {
     (h, out) \<leftarrow> listEmpty_loop h (frees l) (head l) (unat (len l)) [];
     Some (h, l\<lparr>head := None, tail := None, len := 0\<rparr>, out) }"

definition listRelease :: "'v nodes \<Rightarrow> 'v lists \<Rightarrow> lptr \<Rightarrow> ('v nodes \<times> 'v lists \<times> 'v list) option" where
  "listRelease h hs list = (case list of
       None \<Rightarrow> Some (h, hs, [])
     | Some c \<Rightarrow> do {
         l \<leftarrow> hs c;
         (h, l, out) \<leftarrow> listEmpty h l;
         hs \<leftarrow> zfree (hs(c \<mapsto> l)) c;
         Some (h, hs, out) })"

definition listLinkNodeHead :: "'v nodes \<Rightarrow> 'v adlist \<Rightarrow> nat \<Rightarrow> ('v nodes \<times> 'v adlist) option" where
  "listLinkNodeHead h l node = do {
     (h, l) \<leftarrow>
       (if len l = 0 then do {
          h \<leftarrow> set_prev h (Some node) None;
          h \<leftarrow> set_next h (Some node) None;
          Some (h, l\<lparr>head := Some node, tail := Some node\<rparr>) }
        else do {
          h \<leftarrow> set_prev h (Some node) None;
          h \<leftarrow> set_next h (Some node) (head l);
          h \<leftarrow> set_prev h (head l) (Some node);
          Some (h, l\<lparr>head := Some node\<rparr>) });
     Some (h, l\<lparr>len := len l + 1\<rparr>) }"

definition listLinkNodeTail :: "'v nodes \<Rightarrow> 'v adlist \<Rightarrow> nat \<Rightarrow> ('v nodes \<times> 'v adlist) option" where
  "listLinkNodeTail h l node = do {
     (h, l) \<leftarrow>
       (if len l = 0 then do {
          h \<leftarrow> set_prev h (Some node) None;
          h \<leftarrow> set_next h (Some node) None;
          Some (h, l\<lparr>head := Some node, tail := Some node\<rparr>) }
        else do {
          h \<leftarrow> set_prev h (Some node) (tail l);
          h \<leftarrow> set_next h (Some node) None;
          h \<leftarrow> set_next h (tail l) (Some node);
          Some (h, l\<lparr>tail := Some node\<rparr>) });
     Some (h, l\<lparr>len := len l + 1\<rparr>) }"

text \<open>\<open>zmalloc\<close> is a parameter: it gives an address for the current nodes or \<open>NULL\<close>. The two links of a new node hold whatever the
  memory held before; \<open>g\<close> stands for these contents.\<close>

type_synonym 'v alloc = "'v nodes \<Rightarrow> nat option"

definition new_node :: "lptr \<times> lptr \<Rightarrow> 'v nodes \<Rightarrow> nat \<Rightarrow> 'v \<Rightarrow> 'v nodes" where
  "new_node g h a v = h(a \<mapsto> \<lparr>prev = fst g, nxt = snd g, val = v\<rparr>)"

definition listAddNodeHead :: "'v alloc \<Rightarrow> lptr \<times> lptr \<Rightarrow> 'v nodes \<Rightarrow> 'v adlist \<Rightarrow> 'v \<Rightarrow> ('v nodes \<times> 'v adlist) option option" where
  "listAddNodeHead zmalloc g h l v = (case zmalloc h of None \<Rightarrow> Some None
     | Some a \<Rightarrow> do { r \<leftarrow> listLinkNodeHead (new_node g h a v) l a; Some (Some r) })"

definition listAddNodeTail :: "'v alloc \<Rightarrow> lptr \<times> lptr \<Rightarrow> 'v nodes \<Rightarrow> 'v adlist \<Rightarrow> 'v \<Rightarrow> ('v nodes \<times> 'v adlist) option option" where
  "listAddNodeTail zmalloc g h l v = (case zmalloc h of None \<Rightarrow> Some None
     | Some a \<Rightarrow> do { r \<leftarrow> listLinkNodeTail (new_node g h a v) l a; Some (Some r) })"

definition listInsertNode ::
    "'v alloc \<Rightarrow> lptr \<times> lptr \<Rightarrow> 'v nodes \<Rightarrow> 'v adlist \<Rightarrow> nat \<Rightarrow> 'v \<Rightarrow> bool \<Rightarrow> ('v nodes \<times> 'v adlist) option option" where
  "listInsertNode zmalloc g h l old_node v after = (case zmalloc h of None \<Rightarrow> Some None
     | Some node \<Rightarrow> do {
         let h = new_node g h node v;
         old \<leftarrow> h old_node;
         (h, l) \<leftarrow>
           (if after then do {
              h \<leftarrow> set_prev h (Some node) (Some old_node);
              h \<leftarrow> set_next h (Some node) (nxt old);
              Some (h, if tail l = Some old_node then l\<lparr>tail := Some node\<rparr> else l) }
            else do {
              h \<leftarrow> set_next h (Some node) (Some old_node);
              h \<leftarrow> set_prev h (Some node) (prev old);
              Some (h, if head l = Some old_node then l\<lparr>head := Some node\<rparr> else l) });
         nd \<leftarrow> h node;
         h \<leftarrow> (if prev nd \<noteq> None then set_next h (prev nd) (Some node) else Some h);
         nd \<leftarrow> h node;
         h \<leftarrow> (if nxt nd \<noteq> None then set_prev h (nxt nd) (Some node) else Some h);
         Some (Some (h, l\<lparr>len := len l + 1\<rparr>)) })"

definition listUnlinkNode :: "'v nodes \<Rightarrow> 'v adlist \<Rightarrow> nat \<Rightarrow> ('v nodes \<times> 'v adlist) option" where
  "listUnlinkNode h l node = do {
     nd \<leftarrow> h node;
     (h, l) \<leftarrow> (if prev nd \<noteq> None then do { h \<leftarrow> set_next h (prev nd) (nxt nd); Some (h, l) }
                else Some (h, l\<lparr>head := nxt nd\<rparr>));
     nd \<leftarrow> h node;
     (h, l) \<leftarrow> (if nxt nd \<noteq> None then do { h \<leftarrow> set_prev h (nxt nd) (prev nd); Some (h, l) }
                else Some (h, l\<lparr>tail := prev nd\<rparr>));
     h \<leftarrow> set_next h (Some node) None;
     h \<leftarrow> set_prev h (Some node) None;
     Some (h, l\<lparr>len := len l - 1\<rparr>) }"

definition listDelNode :: "'v nodes \<Rightarrow> 'v adlist \<Rightarrow> nat \<Rightarrow> ('v nodes \<times> 'v adlist \<times> 'v list) option" where
  "listDelNode h l node = do {
     (h, l) \<leftarrow> listUnlinkNode h l node;
     nd \<leftarrow> h node;
     h \<leftarrow> zfree h node;
     Some (h, l, if frees l then [val nd] else []) }"

definition listInitIterator :: "'v adlist \<Rightarrow> direction \<Rightarrow> listIter" where
  "listInitIterator l d = \<lparr>iter_next = (if d = AL_START_HEAD then head l else tail l), iter_direction = d\<rparr>"

definition listRewind :: "'v adlist \<Rightarrow> listIter" where
  "listRewind l = \<lparr>iter_next = head l, iter_direction = AL_START_HEAD\<rparr>"

definition listRewindTail :: "'v adlist \<Rightarrow> listIter" where
  "listRewindTail l = \<lparr>iter_next = tail l, iter_direction = AL_START_TAIL\<rparr>"

definition listNext :: "'v nodes \<Rightarrow> listIter \<Rightarrow> (lptr \<times> listIter) option" where
  "listNext h it = (case iter_next it of
       None \<Rightarrow> Some (None, it)
     | Some a \<Rightarrow> do { nd \<leftarrow> h a; Some (Some a, it\<lparr>iter_next := if iter_direction it = AL_START_HEAD then nxt nd else prev nd\<rparr>) })"

text \<open>The loop of \<open>listDup\<close>; the result is \<^term>\<open>None\<close> inside when the copy was released and \<open>NULL\<close> returned.\<close>

partial_function (option) listDup_loop ::
    "'v alloc \<Rightarrow> lptr \<times> lptr \<Rightarrow> 'v nodes \<Rightarrow> 'v lists \<Rightarrow> nat \<Rightarrow> listIter \<Rightarrow> ('v nodes \<times> 'v lists \<times> lptr \<times> 'v list) option" where
  "listDup_loop zmalloc g h hs c it = do {
     (node, it) \<leftarrow> listNext h it;
     case node of
       None \<Rightarrow> Some (h, hs, Some c, [])
     | Some a \<Rightarrow> do {
         nd \<leftarrow> h a;
         copy \<leftarrow> hs c;
         case (case dup copy of Some d \<Rightarrow> d (val nd) | None \<Rightarrow> Some (val nd)) of
           None \<Rightarrow> do { (h, hs, out) \<leftarrow> listRelease h hs (Some c); Some (h, hs, None, out) }
         | Some v \<Rightarrow> do {
             r \<leftarrow> listAddNodeTail zmalloc g h copy v;
             case r of
               None \<Rightarrow> do { (h, hs, out) \<leftarrow> listRelease h hs (Some c); Some (h, hs, None, if frees copy then v # out else out) }
             | Some (h, copy) \<Rightarrow> listDup_loop zmalloc g h (hs(c \<mapsto> copy)) c it } } }"

definition listDup ::
    "'v halloc \<Rightarrow> 'v alloc \<Rightarrow> lptr \<times> lptr \<Rightarrow> 'v nodes \<Rightarrow> 'v lists \<Rightarrow> nat \<Rightarrow> ('v nodes \<times> 'v lists \<times> lptr \<times> 'v list) option" where
  "listDup hzmalloc zmalloc g h hs orig = (case listCreate hzmalloc hs of
       None \<Rightarrow> Some (h, hs, None, [])
     | Some (c, hs) \<Rightarrow> do {
         l \<leftarrow> hs orig;
         copy \<leftarrow> hs c;
         let hs = hs(c \<mapsto> copy\<lparr>dup := dup l, frees := frees l, match := match l\<rparr>);
         listDup_loop zmalloc g h hs c (listRewind l) })"

partial_function (option) listSearchKey_loop :: "'v nodes \<Rightarrow> ('v \<Rightarrow> 'v \<Rightarrow> bool) option \<Rightarrow> 'v \<Rightarrow> listIter \<Rightarrow> lptr option" where
  "listSearchKey_loop h mt key it = do {
     (node, it) \<leftarrow> listNext h it;
     case node of
       None \<Rightarrow> Some None
     | Some a \<Rightarrow> do {
         nd \<leftarrow> h a;
         if (case mt of Some f \<Rightarrow> f (val nd) key | None \<Rightarrow> key = val nd) then Some (Some a)
         else listSearchKey_loop h mt key it } }"

definition listSearchKey :: "'v nodes \<Rightarrow> 'v adlist \<Rightarrow> 'v \<Rightarrow> lptr option" where
  "listSearchKey h l key = listSearchKey_loop h (match l) key (listRewind l)"

text \<open>\<open>while (index-- && n) n = n->prev\<close> (or \<open>next\<close>).\<close>

fun listIndex_loop :: "'v nodes \<Rightarrow> ('v listNode \<Rightarrow> lptr) \<Rightarrow> nat \<Rightarrow> lptr \<Rightarrow> lptr option" where
  "listIndex_loop h go 0 n = Some n"
| "listIndex_loop h go (Suc i) n = (case n of None \<Rightarrow> Some None | Some a \<Rightarrow> do { nd \<leftarrow> h a; listIndex_loop h go i (go nd) })"

text \<open>\<open>-index\<close> overflows for the smallest \<open>long\<close>.\<close>

definition listIndex :: "'v nodes \<Rightarrow> 'v adlist \<Rightarrow> int \<Rightarrow> lptr option" where
  "listIndex h l index =
     (if index < 0 then do { guard (index > - (2 ^ 63)); listIndex_loop h prev (nat (- index - 1)) (tail l) }
      else listIndex_loop h nxt (nat index) (head l))"

definition listRotateTailToHead :: "'v nodes \<Rightarrow> 'v adlist \<Rightarrow> ('v nodes \<times> 'v adlist) option" where
  "listRotateTailToHead h l =
     (if len l \<le> 1 then Some (h, l)
      else do {
        a \<leftarrow> tail l;
        nd \<leftarrow> h a;
        let l = l\<lparr>tail := prev nd\<rparr>;
        h \<leftarrow> set_next h (tail l) None;
        h \<leftarrow> set_prev h (head l) (Some a);
        h \<leftarrow> set_prev h (Some a) None;
        h \<leftarrow> set_next h (Some a) (head l);
        Some (h, l\<lparr>head := Some a\<rparr>) })"

definition listRotateHeadToTail :: "'v nodes \<Rightarrow> 'v adlist \<Rightarrow> ('v nodes \<times> 'v adlist) option" where
  "listRotateHeadToTail h l =
     (if len l \<le> 1 then Some (h, l)
      else do {
        a \<leftarrow> head l;
        nd \<leftarrow> h a;
        let l = l\<lparr>head := nxt nd\<rparr>;
        h \<leftarrow> set_prev h (head l) None;
        h \<leftarrow> set_next h (tail l) (Some a);
        h \<leftarrow> set_next h (Some a) None;
        h \<leftarrow> set_prev h (Some a) (tail l);
        Some (h, l\<lparr>tail := Some a\<rparr>) })"

definition listJoin :: "'v nodes \<Rightarrow> 'v adlist \<Rightarrow> 'v adlist \<Rightarrow> ('v nodes \<times> 'v adlist \<times> 'v adlist) option" where
  "listJoin h l ot =
     (if len ot = 0 then Some (h, l, ot)
      else do {
        h \<leftarrow> set_prev h (head ot) (tail l);
        (h, l) \<leftarrow> (if tail l \<noteq> None then do { h \<leftarrow> set_next h (tail l) (head ot); Some (h, l) } else Some (h, l\<lparr>head := head ot\<rparr>));
        Some (h, l\<lparr>tail := tail ot, len := len l + len ot\<rparr>, ot\<lparr>head := None, tail := None, len := 0\<rparr>) })"

declare listDup_loop.simps [code] listSearchKey_loop.simps [code]

section \<open>The invariant\<close>

text \<open>The nodes at \<open>ps\<close> are linked in both directions, after \<open>pv\<close> and before \<open>nx\<close>.\<close>

fun fst_of :: "nat list \<Rightarrow> lptr \<Rightarrow> lptr" where
  "fst_of [] nx = nx"
| "fst_of (p # ps) nx = Some p"

fun lst_of :: "lptr \<Rightarrow> nat list \<Rightarrow> lptr" where
  "lst_of pv [] = pv"
| "lst_of pv (p # ps) = lst_of (Some p) ps"

fun chain :: "'v nodes \<Rightarrow> lptr \<Rightarrow> nat list \<Rightarrow> lptr \<Rightarrow> 'v list \<Rightarrow> bool" where
  "chain h pv [] nx vs = (vs = [])"
| "chain h pv (p # ps) nx vs = (\<exists>v vs'. vs = v # vs' \<and> h p = Some \<lparr>prev = pv, nxt = fst_of ps nx, val = v\<rparr> \<and> chain h (Some p) ps nx vs')"

definition links :: "'v nodes \<Rightarrow> 'v adlist \<Rightarrow> nat list \<Rightarrow> 'v list \<Rightarrow> bool" where
  "links h l ps vs \<longleftrightarrow> chain h None ps None vs \<and> distinct ps \<and> head l = fst_of ps None \<and> tail l = lst_of None ps
     \<and> len l = of_nat (length ps) \<and> int (length ps) < 2 ^ 64"

lemma fst_of_append [simp]: "fst_of (xs @ ys) nx = fst_of xs (fst_of ys nx)" by (cases xs) auto
lemma lst_of_append [simp]: "lst_of pv (xs @ ys) = lst_of (lst_of pv xs) ys" by (induction xs arbitrary: pv) auto

lemma chain_append: "chain h pv (xs @ ys) nx vs \<longleftrightarrow>
    (\<exists>us ws. vs = us @ ws \<and> chain h pv xs (fst_of ys nx) us \<and> chain h (lst_of pv xs) ys nx ws)"
proof (induction xs arbitrary: pv vs)
  case (Cons x xs)
  show ?case
  proof
    assume "chain h pv ((x # xs) @ ys) nx vs"
    then obtain v us ws where "vs = (v # us) @ ws" "chain h pv (x # xs) (fst_of ys nx) (v # us)" "chain h (lst_of pv (x # xs)) ys nx ws"
      using Cons.IH[of "Some x"] by auto
    then show "\<exists>us ws. vs = us @ ws \<and> chain h pv (x # xs) (fst_of ys nx) us \<and> chain h (lst_of pv (x # xs)) ys nx ws" by blast
  next
    assume "\<exists>us ws. vs = us @ ws \<and> chain h pv (x # xs) (fst_of ys nx) us \<and> chain h (lst_of pv (x # xs)) ys nx ws"
    then show "chain h pv ((x # xs) @ ys) nx vs" using Cons.IH[of "Some x"] by auto blast
  qed
qed simp

lemma chainI: "chain h pv xs (fst_of ys nx) us \<Longrightarrow> chain h (lst_of pv xs) ys nx ws \<Longrightarrow> vs = us @ ws \<Longrightarrow> chain h pv (xs @ ys) nx vs"
  using chain_append by blast

lemma chain_length: "chain h pv ps nx vs \<Longrightarrow> length vs = length ps"
  by (induction ps arbitrary: pv vs) auto

lemma chain_frame: "\<forall>p\<in>set ps. h' p = h p \<Longrightarrow> chain h pv ps nx vs \<Longrightarrow> chain h' pv ps nx vs"
  by (induction ps arbitrary: pv vs) auto

lemma chain_upd [simp]: "a \<notin> set ps \<Longrightarrow> chain (h(a := n)) pv ps nx vs = chain h pv ps nx vs"
  by (induction ps arbitrary: pv vs) auto

text \<open>Changing the links at the two ends of a chain.\<close>

lemma chain_set_first: "chain h pv (p # ps) nx vs \<Longrightarrow> distinct (p # ps) \<Longrightarrow>
    \<exists>h'. set_prev h (Some p) q = Some h' \<and> chain h' q (p # ps) nx vs \<and> (\<forall>a. a \<noteq> p \<longrightarrow> h' a = h a)"
  by (auto simp: set_prev_def)

lemma chain_set_last: "chain h pv (ps @ [p]) nx vs \<Longrightarrow> distinct (ps @ [p]) \<Longrightarrow>
    \<exists>h'. set_next h (Some p) q = Some h' \<and> chain h' pv (ps @ [p]) q vs \<and> (\<forall>a. a \<noteq> p \<longrightarrow> h' a = h a)"
  by (auto simp: set_next_def chain_append)

lemma unat_len: "links h l ps vs \<Longrightarrow> unat (len l) = length ps"
proof -
  assume "links h l ps vs"
  then have "length ps < 2 ^ 64" "len l = of_nat (length ps)" by (simp_all add: links_def)
  then show ?thesis by (simp add: unat_of_nat take_bit_nat_eq_self)
qed

lemma len_0: "links h l ps vs \<Longrightarrow> len l = 0 \<longleftrightarrow> ps = []"
  using unat_len[of h l ps vs] by (auto simp: unat_eq_0[symmetric])

lemma len_1: "links h l ps vs \<Longrightarrow> len l \<le> 1 \<longleftrightarrow> length ps \<le> 1"
  using unat_len[of h l ps vs] by (simp add: word_le_nat_alt)

lemma links_length: "links h l ps vs \<Longrightarrow> length vs = length ps"
  unfolding links_def using chain_length by blast

section \<open>Adding and removing nodes\<close>

lemma set_links [simp]:
  "h a = Some n \<Longrightarrow> set_prev h (Some a) q = Some (h(a \<mapsto> n\<lparr>prev := q\<rparr>))"
  "h a = Some n \<Longrightarrow> set_next h (Some a) q = Some (h(a \<mapsto> n\<lparr>nxt := q\<rparr>))"
  by (simp_all add: set_prev_def set_next_def)

text \<open>What an operation leaves alone: the nodes outside \<open>ps\<close> and the methods of the list.\<close>

definition kept :: "nat set \<Rightarrow> 'v nodes \<Rightarrow> 'v adlist \<Rightarrow> 'v nodes \<Rightarrow> 'v adlist \<Rightarrow> bool" where
  "kept A h l h' l' \<longleftrightarrow> (\<forall>b. b \<notin> A \<longrightarrow> h' b = h b) \<and> dup l' = dup l \<and> frees l' = frees l \<and> match l' = match l"

lemma link_head:
  assumes i: "links h l ps vs" and a: "a \<notin> set ps" and n: "h a = Some nd" and b: "int (length ps) + 1 < 2 ^ 64"
  shows "\<exists>h' l'. listLinkNodeHead h l a = Some (h', l') \<and> links h' l' (a # ps) (val nd # vs) \<and> kept (set (a # ps)) h l h' l'"
proof (cases ps)
  case Nil
  let ?h = "h(a \<mapsto> nd\<lparr>prev := None, nxt := None\<rparr>)" and ?l = "l\<lparr>head := Some a, tail := Some a, len := len l + 1\<rparr>"
  have "listLinkNodeHead h l a = Some (?h, ?l)" using n len_0[OF i] Nil by (simp add: listLinkNodeHead_def)
  moreover have "links ?h ?l (a # ps) (val nd # vs)" using i Nil by (simp add: links_def)
  moreover have "kept (set (a # ps)) h l ?h ?l" by (simp add: kept_def)
  ultimately show ?thesis by blast
next
  case (Cons p qs)
  then obtain v vs' where v: "vs = v # vs'" "h p = Some \<lparr>prev = None, nxt = fst_of qs None, val = v\<rparr>" "chain h (Some p) qs None vs'" "head l = Some p"
    using i by (auto simp: links_def)
  let ?h = "h(a \<mapsto> nd\<lparr>prev := None, nxt := Some p\<rparr>, p \<mapsto> \<lparr>prev = Some a, nxt = fst_of qs None, val = v\<rparr>)" and ?l = "l\<lparr>head := Some a, len := len l + 1\<rparr>"
  have "listLinkNodeHead h l a = Some (?h, ?l)" using n len_0[OF i] Cons a v by (simp add: listLinkNodeHead_def)
  moreover have "links ?h ?l (a # ps) (val nd # vs)" using i Cons v a b by (simp add: links_def)
  moreover have "kept (set (a # ps)) h l ?h ?l" using Cons by (simp add: kept_def)
  ultimately show ?thesis by blast
qed

lemma chain_snoc: "chain h pv (ps @ [p]) nx vs \<longleftrightarrow>
    (\<exists>us v. vs = us @ [v] \<and> chain h pv ps (Some p) us \<and> h p = Some \<lparr>prev = lst_of pv ps, nxt = nx, val = v\<rparr>)"
  by (auto simp: chain_append)

lemma link_tail:
  assumes i: "links h l ps vs" and a: "a \<notin> set ps" and n: "h a = Some nd" and b: "int (length ps) + 1 < 2 ^ 64"
  shows "\<exists>h' l'. listLinkNodeTail h l a = Some (h', l') \<and> links h' l' (ps @ [a]) (vs @ [val nd]) \<and> kept (set (ps @ [a])) h l h' l'"
proof (cases ps rule: rev_cases)
  case Nil
  let ?h = "h(a \<mapsto> nd\<lparr>prev := None, nxt := None\<rparr>)" and ?l = "l\<lparr>head := Some a, tail := Some a, len := len l + 1\<rparr>"
  have "listLinkNodeTail h l a = Some (?h, ?l)" using n len_0[OF i] Nil by (simp add: listLinkNodeTail_def)
  moreover have "links ?h ?l (ps @ [a]) (vs @ [val nd])" using i Nil by (simp add: links_def)
  moreover have "kept (set (ps @ [a])) h l ?h ?l" by (simp add: kept_def)
  ultimately show ?thesis by blast
next
  case (snoc qs p)
  then obtain v vs' where v: "vs = vs' @ [v]" "h p = Some \<lparr>prev = lst_of None qs, nxt = None, val = v\<rparr>" "chain h None qs (Some p) vs'" "tail l = Some p"
    using i by (auto simp: links_def chain_snoc)
  let ?h = "h(a \<mapsto> nd\<lparr>prev := Some p, nxt := None\<rparr>, p \<mapsto> \<lparr>prev = lst_of None qs, nxt = Some a, val = v\<rparr>)" and ?l = "l\<lparr>tail := Some a, len := len l + 1\<rparr>"
  have "listLinkNodeTail h l a = Some (?h, ?l)" using n len_0[OF i] snoc a v by (simp add: listLinkNodeTail_def)
  moreover have "chain ?h None (qs @ [p, a]) None (vs' @ [v, val nd])" using i snoc v a by (intro chainI[where us = vs']) (auto simp: links_def)
  then have "links ?h ?l (ps @ [a]) (vs @ [val nd])" using i snoc v a b by (simp add: links_def)
  moreover have "kept (set (ps @ [a])) h l ?h ?l" using snoc by (simp add: kept_def)
  ultimately show ?thesis by blast
qed


text \<open>Writing a link through a pointer that may be null.\<close>

definition relink_next :: "'v nodes \<Rightarrow> lptr \<Rightarrow> lptr \<Rightarrow> 'v nodes" where
  "relink_next h p q = (case p of None \<Rightarrow> h | Some a \<Rightarrow> h(a := map_option (\<lambda>n. n\<lparr>nxt := q\<rparr>) (h a)))"

definition relink_prev :: "'v nodes \<Rightarrow> lptr \<Rightarrow> lptr \<Rightarrow> 'v nodes" where
  "relink_prev h p q = (case p of None \<Rightarrow> h | Some a \<Rightarrow> h(a := map_option (\<lambda>n. n\<lparr>prev := q\<rparr>) (h a)))"

lemma set_relink:
  "node_at h p \<noteq> None \<Longrightarrow> set_next h p q = Some (relink_next h p q)"
  "node_at h p \<noteq> None \<Longrightarrow> set_prev h p q = Some (relink_prev h p q)"
  by (auto simp: set_next_def set_prev_def relink_next_def relink_prev_def node_at_def split: option.splits)

lemma relink_None [simp]: "relink_next h None q = h" "relink_prev h None q = h" by (simp_all add: relink_next_def relink_prev_def)

lemma relink_other [simp]: "p \<noteq> Some b \<Longrightarrow> relink_next h p q b = h b" "p \<noteq> Some b \<Longrightarrow> relink_prev h p q b = h b"
  by (auto simp: relink_next_def relink_prev_def split: option.splits)

lemma relink_dom: "relink_next h p q b = None \<longleftrightarrow> h b = None" "relink_prev h p q b = None \<longleftrightarrow> h b = None"
  by (auto simp: relink_next_def relink_prev_def split: option.splits)

lemma fst_of_mem: "fst_of ps None = Some b \<Longrightarrow> b \<in> set ps" by (cases ps) auto
lemma lst_of_mem: "lst_of None ps = Some b \<Longrightarrow> b \<in> set ps" by (cases ps rule: rev_cases) auto

lemma chain_dom: "chain h pv ps nx vs \<Longrightarrow> b \<in> set ps \<Longrightarrow> h b \<noteq> None"
  by (induction ps arbitrary: pv vs) auto

lemma chain_relink_last:
  assumes "chain h None xs nx us" "distinct xs" shows "chain (relink_next h (lst_of None xs) q) None xs q us"
proof (cases xs rule: rev_cases)
  case (snoc ys y)
  then obtain us' v where "us = us' @ [v]" "chain h None ys (Some y) us'" "h y = Some \<lparr>prev = lst_of None ys, nxt = nx, val = v\<rparr>"
    using assms(1) by (auto simp: chain_snoc)
  then show ?thesis using assms(2) snoc by (simp add: chain_snoc relink_next_def)
qed (use assms in simp)

lemma chain_relink_first:
  assumes "chain h pv ys None ws" "distinct ys" shows "chain (relink_prev h (fst_of ys None) q) q ys None ws"
  using assms by (cases ys) (auto simp: relink_prev_def)

lemma chain_cong: "\<forall>p\<in>set ps. h' p = h p \<Longrightarrow> chain h' pv ps nx vs = chain h pv ps nx vs"
  by (metis chain_frame)

lemma chain_relink_other:
  "\<forall>b\<in>set ps. p \<noteq> Some b \<Longrightarrow> chain (relink_next h p q) pv ps nx vs = chain h pv ps nx vs"
  "\<forall>b\<in>set ps. p \<noteq> Some b \<Longrightarrow> chain (relink_prev h p q) pv ps nx vs = chain h pv ps nx vs"
  by (rule chain_cong; simp)+

text \<open>Two chains with a node between them, or without it.\<close>

lemma chain_join:
  assumes "chain h None xs nx us" "chain h pv ys None ws" "distinct (xs @ ys)"
  shows "chain (relink_prev (relink_next h (lst_of None xs) (fst_of ys None)) (fst_of ys None) (lst_of None xs)) None (xs @ ys) None (us @ ws)"
    (is "chain ?h _ _ _ _")
proof (rule chainI[OF _ _ refl])
  have d: "\<forall>b\<in>set xs. fst_of ys None \<noteq> Some b" "\<forall>b\<in>set ys. lst_of None xs \<noteq> Some b" using assms(3) by (auto dest!: fst_of_mem lst_of_mem)
  show "chain ?h None xs (fst_of ys None) us" using chain_relink_last[OF assms(1)] assms(3) by (simp add: chain_relink_other d)
  show "chain ?h (lst_of None xs) ys None ws" using chain_relink_first[of _ pv ys ws] assms(2,3) by (simp add: chain_relink_other d)
qed

lemma link_some: "p = None \<or> node_at h p \<noteq> None \<Longrightarrow> p = Some b \<longrightarrow> set_next h p q = Some (relink_next h p q)"
  "p = None \<or> node_at h p \<noteq> None \<Longrightarrow> p = Some b \<longrightarrow> set_prev h p q = Some (relink_prev h p q)"
  by (auto simp: set_relink)

lemma link_if: "p = None \<or> node_at h p \<noteq> None \<Longrightarrow> (if p \<noteq> None then set_next h p q else Some h) = Some (relink_next h p q)"
  "p = None \<or> node_at h p \<noteq> None \<Longrightarrow> (if p \<noteq> None then set_prev h p q else Some h) = Some (relink_prev h p q)"
  by (auto simp: set_relink)

lemma ends_live:
  assumes "chain h None xs nx us" "chain h pv ys None ws"
  shows "lst_of None xs = None \<or> node_at h (lst_of None xs) \<noteq> None" "fst_of ys None = None \<or> node_at h (fst_of ys None) \<noteq> None"
  using chain_dom[OF assms(1)] chain_dom[OF assms(2)] lst_of_mem[of xs] fst_of_mem[of ys] by (auto simp: node_at_def split: option.splits)

lemma node_at_relink [simp]: "node_at (relink_next h p q) r = None \<longleftrightarrow> node_at h r = None" "node_at (relink_prev h p q) r = None \<longleftrightarrow> node_at h r = None"
  by (auto simp: node_at_def relink_dom split: option.splits)

lemma node_at_upd: "r \<noteq> Some a \<Longrightarrow> node_at (h(a := n)) r = node_at h r"
  by (auto simp: node_at_def split: option.splits)

lemma lst_of_if: "lst_of pv ys = (if ys = [] then pv else Some (last ys))" by (cases ys rule: rev_cases) auto
lemma fst_of_if: "fst_of ys nx = (if ys = [] then nx else Some (hd ys))" by (cases ys) auto

lemma ends_not: "b \<notin> set ys \<Longrightarrow> fst_of ys None \<noteq> Some b" "b \<notin> set ys \<Longrightarrow> lst_of None ys \<noteq> Some b"
  by (auto dest: fst_of_mem lst_of_mem)

text \<open>A new node between two chains.\<close>

lemma chain_insert:
  assumes c: "chain h None xs nx us" "chain h pv ys None ws" and d: "distinct (xs @ a # ys)"
    and a: "h a = Some \<lparr>prev = lst_of None xs, nxt = fst_of ys None, val = v\<rparr>"
  shows "chain (relink_prev (relink_next h (lst_of None xs) (Some a)) (fst_of ys None) (Some a)) None (xs @ a # ys) None (us @ v # ws)"
    (is "chain ?h _ _ _ _")
proof (rule chainI[OF _ _ refl])
  have n: "\<forall>b\<in>set xs. fst_of ys None \<noteq> Some b" "\<forall>b\<in>set ys. lst_of None xs \<noteq> Some b" "lst_of None xs \<noteq> Some a" "fst_of ys None \<noteq> Some a"
    using d by (auto dest!: fst_of_mem lst_of_mem)
  show "chain ?h None xs (fst_of (a # ys) None) us" using chain_relink_last[OF c(1)] d by (simp add: chain_relink_other n)
  have "chain ?h (Some a) ys None ws" using chain_relink_first[of _ pv ys ws] c(2) d by (simp add: chain_relink_other n)
  then show "chain ?h (lst_of None xs) (a # ys) None (v # ws)" using a n by simp
qed

lemma insert_between:
  assumes i: "links h l (xs @ ys) (us @ ws)" and u: "length us = length xs" and b: "int (length (xs @ ys)) + 1 < 2 ^ 64"
    and a: "h' a = Some \<lparr>prev = lst_of None xs, nxt = fst_of ys None, val = v\<rparr>" "a \<notin> set (xs @ ys)" "\<forall>b. b \<noteq> a \<longrightarrow> h' b = h b"
    and l: "head l' = fst_of xs (Some a)" "tail l' = lst_of (Some a) ys" "len l' = len l + 1"
  shows "links (relink_prev (relink_next h' (lst_of None xs) (Some a)) (fst_of ys None) (Some a)) l' (xs @ a # ys) (us @ v # ws)"
proof -
  have d: "distinct (xs @ a # ys)" "distinct (xs @ ys)" using i a(2) by (auto simp: links_def)
  obtain us' ws' where c: "chain h None xs (fst_of ys None) us'" "chain h (lst_of None xs) ys None ws'" "us @ ws = us' @ ws'"
    using i unfolding links_def chain_append by blast
  have uw: "us' = us" "ws' = ws" using c u chain_length[OF c(1)] by auto
  have c': "chain h' None xs (fst_of ys None) us" "chain h' (lst_of None xs) ys None ws"
  proof -
    have "\<forall>p\<in>set xs. h' p = h p" "\<forall>p\<in>set ys. h' p = h p" using a(2,3) by auto
    from chain_frame[OF this(1) c(1)] chain_frame[OF this(2) c(2)]
    show "chain h' None xs (fst_of ys None) us" "chain h' (lst_of None xs) ys None ws" using uw by simp_all
  qed
  have "chain (relink_prev (relink_next h' (lst_of None xs) (Some a)) (fst_of ys None) (Some a)) None (xs @ a # ys) None (us @ v # ws)"
    by (rule chain_insert[OF c' d(1) a(1)])
  then show ?thesis using i d b l by (simp add: links_def)
qed

text \<open>What the allocator promises: a node of its own, and no more nodes than there are addresses of 64 bits.\<close>

definition alloc_ok :: "'v alloc \<Rightarrow> bool" where
  "alloc_ok zmalloc \<longleftrightarrow> (\<forall>h a. zmalloc h = Some a \<longrightarrow> h a = None \<and> int (card (dom h)) + 1 < 2 ^ 64)"

lemma links_split:
  assumes "links h l (xs @ p # ys) vs"
  obtains us v ws where "vs = us @ v # ws" "length us = length xs" "h p = Some \<lparr>prev = lst_of None xs, nxt = fst_of ys None, val = v\<rparr>"
    "chain h None xs (Some p) us" "chain h (Some p) ys None ws"
proof -
  obtain us ws where c: "vs = us @ ws" "chain h None xs (Some p) us" "chain h (lst_of None xs) (p # ys) None ws"
    using assms unfolding links_def chain_append by auto
  then show ?thesis using that[of us _] chain_length[OF c(2)] by auto
qed

lemma fst_tail: "distinct (xs @ p # ys) \<Longrightarrow> lst_of (Some p) ys = Some p \<longleftrightarrow> ys = []"
  by (cases ys rule: rev_cases) auto

lemma fst_head: "distinct (xs @ p # ys) \<Longrightarrow> fst_of xs (Some p) = Some p \<longleftrightarrow> xs = []"
  by (cases xs) auto

lemma insert_node:
  assumes i: "links h l (xs @ p # ys) (us @ v # ws)" and u: "length us = length xs" and b: "int (length (xs @ p # ys)) + 1 < 2 ^ 64"
    and z: "zmalloc h = Some a" "h a = None"
  shows "\<exists>h' l'. listInsertNode zmalloc g h l p x after = Some (Some (h', l'))
     \<and> links h' l' (if after then xs @ p # a # ys else xs @ a # p # ys) (if after then us @ v # x # ws else us @ x # v # ws)
     \<and> kept (set (a # xs @ p # ys)) h l h' l'"
proof -
  obtain us' v' ws' where c: "us @ v # ws = us' @ v' # ws'" "length us' = length xs" "h p = Some \<lparr>prev = lst_of None xs, nxt = fst_of ys None, val = v'\<rparr>"
      "chain h None xs (Some p) us'" "chain h (Some p) ys None ws'"
    using links_split[OF i] by metis
  have d: "distinct (xs @ p # ys)" "head l = fst_of xs (Some p)" "tail l = lst_of (Some p) ys" using i by (auto simp: links_def)
  have live: "b \<noteq> a" if "b \<in> set (xs @ p # ys)" for b
    using that z(2) c(3) chain_dom[OF c(4), of b] chain_dom[OF c(5), of b] by auto
  then have a: "a \<notin> set (xs @ p # ys)" "p \<noteq> a" "a \<noteq> p" by auto
  show ?thesis
  proof (cases after)
    case True
    let ?h = "(new_node g h a x)(a \<mapsto> \<lparr>prev = Some p, nxt = fst_of ys None, val = x\<rparr>)"
    let ?l = "if tail l = Some p then l\<lparr>tail := Some a\<rparr> else l"
    let ?h' = "relink_prev (relink_next ?h (Some p) (Some a)) (fst_of ys None) (Some a)"
    have "fst_of ys None = None \<or> node_at ?h (fst_of ys None) \<noteq> None"
      using ends_live(2)[OF c(4,5)] a by (auto simp: node_at_def new_node_def split: option.splits)
    then have e: "fst_of ys None = None \<or> node_at (relink_next ?h (Some p) (Some a)) (fst_of ys None) \<noteq> None" by simp
    have s: "listInsertNode zmalloc g h l p x after = Some (Some (?h', ?l\<lparr>len := len ?l + 1\<rparr>))"
      using True z c(3) a link_some(2)[OF e, of _ "Some a"]
      by (cases "fst_of ys None") (simp_all add: listInsertNode_def new_node_def relink_next_def)
    have "links ?h' (?l\<lparr>len := len ?l + 1\<rparr>) ((xs @ [p]) @ a # ys) ((us @ [v]) @ x # ws)"
      using insert_between[of h l "xs @ [p]" ys "us @ [v]" ws ?h a x "?l\<lparr>len := len ?l + 1\<rparr>"] i u b a d fst_tail[OF d(1)]
        lst_of_if[of "Some p" ys] lst_of_if[of "Some a" ys] by (auto simp: new_node_def)
    moreover have "kept (set (a # xs @ p # ys)) h l ?h' (?l\<lparr>len := len ?l + 1\<rparr>)"
      by (simp add: kept_def new_node_def ends_not)
    ultimately show ?thesis using s True by (intro exI[of _ ?h'] exI[of _ "?l\<lparr>len := len ?l + 1\<rparr>"]) simp
  next
    case False
    let ?h = "(new_node g h a x)(a \<mapsto> \<lparr>prev = lst_of None xs, nxt = Some p, val = x\<rparr>)"
    let ?l = "if head l = Some p then l\<lparr>head := Some a\<rparr> else l"
    let ?h' = "relink_prev (relink_next ?h (lst_of None xs) (Some a)) (Some p) (Some a)"
    have e: "lst_of None xs = None \<or> node_at ?h (lst_of None xs) \<noteq> None"
      using ends_live(1)[OF c(4,5)] a by (auto simp: node_at_def new_node_def split: option.splits)
    have n: "lst_of None xs \<noteq> Some a" "lst_of None xs \<noteq> Some p" using a d(1) by (auto dest!: lst_of_mem)
    have s: "listInsertNode zmalloc g h l p x after = Some (Some (?h', ?l\<lparr>len := len ?l + 1\<rparr>))"
      using False z c(3) a link_some(1)[OF e, of _ "Some a"] n
      by (cases "lst_of None xs") (simp_all add: listInsertNode_def new_node_def relink_prev_def)
    have "links ?h' (?l\<lparr>len := len ?l + 1\<rparr>) (xs @ a # p # ys) (us @ x # v # ws)"
      using insert_between[of h l xs "p # ys" us "v # ws" ?h a x "?l\<lparr>len := len ?l + 1\<rparr>"] i u b a d fst_head[OF d(1)]
        fst_of_if[of xs "Some p"] fst_of_if[of xs "Some a"] by (auto simp: new_node_def)
    moreover have "kept (set (a # xs @ p # ys)) h l ?h' (?l\<lparr>len := len ?l + 1\<rparr>)"
      by (simp add: kept_def new_node_def ends_not)
    ultimately show ?thesis using s False by (intro exI[of _ ?h'] exI[of _ "?l\<lparr>len := len ?l + 1\<rparr>"]) simp
  qed
qed

lemma unlink_node:
  assumes i: "links h l (xs @ p # ys) (us @ v # ws)" and u: "length us = length xs"
  shows "\<exists>h' l'. listUnlinkNode h l p = Some (h', l') \<and> links h' l' (xs @ ys) (us @ ws) \<and> h' p = Some \<lparr>prev = None, nxt = None, val = v\<rparr>
     \<and> kept (set (xs @ p # ys)) h l h' l'"
proof -
  obtain us' v' ws' where c: "us @ v # ws = us' @ v' # ws'" "length us' = length xs" "h p = Some \<lparr>prev = lst_of None xs, nxt = fst_of ys None, val = v'\<rparr>"
      "chain h None xs (Some p) us'" "chain h (Some p) ys None ws'"
    using links_split[OF i] by metis
  have e: "us' = us" "v' = v" "ws' = ws" using c(1,2) u by auto
  have d: "distinct (xs @ p # ys)" "distinct (xs @ ys)" "p \<notin> set xs" "p \<notin> set ys" "head l = fst_of xs (Some p)" "tail l = lst_of (Some p) ys"
    using i by (auto simp: links_def)
  let ?q = "lst_of None xs" and ?r = "fst_of ys None"
  let ?h1 = "relink_next h ?q ?r" and ?h2 = "relink_prev (relink_next h ?q ?r) ?r ?q"
  let ?h' = "?h2(p \<mapsto> \<lparr>prev = None, nxt = None, val = v\<rparr>)"
  let ?l1 = "if xs = [] then l\<lparr>head := ?r\<rparr> else l"
  let ?l2 = "if ys = [] then ?l1\<lparr>tail := ?q\<rparr> else ?l1"
  have n: "?q \<noteq> Some p" "?r \<noteq> Some p" using d by (simp_all add: ends_not)
  have 1: "?q = None \<longleftrightarrow> xs = []" "?r = None \<longleftrightarrow> ys = []" by (simp_all add: lst_of_if fst_of_if)
  have s1: "xs \<noteq> [] \<Longrightarrow> set_next h ?q ?r = Some ?h1" using ends_live(1)[OF c(4,5)] 1 by (intro set_relink) auto
  have s2: "ys \<noteq> [] \<Longrightarrow> set_prev ?h1 ?r ?q = Some ?h2" using ends_live(2)[OF c(4,5)] 1 by (intro set_relink) auto
  have p1: "?h1 p = h p" "?h2 p = h p" using n by simp_all
  have a: "(if ?q \<noteq> None then do { h \<leftarrow> set_next h ?q ?r; Some (h, l) } else Some (h, l\<lparr>head := ?r\<rparr>)) = Some (?h1, ?l1)"
    using s1 1 by (cases "xs = []") auto
  have b: "(if ?r \<noteq> None then do { h \<leftarrow> set_prev ?h1 ?r ?q; Some (h, ?l1) } else Some (?h1, ?l1\<lparr>tail := ?q\<rparr>)) = Some (?h2, ?l2)"
    using s2 1 by (cases "ys = []") auto
  have r: "listUnlinkNode h l p = Some (?h', ?l2\<lparr>len := len ?l2 - 1\<rparr>)"
    unfolding listUnlinkNode_def c(3) bind.simps listNode.simps a prod.case p1(1) b using p1(2) c(3) e(2) by simp
  have "chain ?h2 None (xs @ ys) None (us @ ws)" using chain_join[OF c(4,5) d(2)] e by simp
  then have "chain ?h' None (xs @ ys) None (us @ ws)" using d by simp
  then have "links ?h' (?l2\<lparr>len := len ?l2 - 1\<rparr>) (xs @ ys) (us @ ws)"
    using i d(2,5,6) unfolding links_def by (simp add: fst_of_if lst_of_if)
  moreover have "kept (set (xs @ p # ys)) h l ?h' (?l2\<lparr>len := len ?l2 - 1\<rparr>)" by (simp add: kept_def ends_not)
  ultimately show ?thesis using r by (intro exI[of _ ?h'] exI[of _ "?l2\<lparr>len := len ?l2 - 1\<rparr>"]) simp
qed

lemma links_frame: "links h l ps vs \<Longrightarrow> \<forall>p\<in>set ps. h' p = h p \<Longrightarrow> links h' l ps vs"
  unfolding links_def using chain_frame by blast

lemma del_node:
  assumes i: "links h l (xs @ p # ys) (us @ v # ws)" and u: "length us = length xs"
  shows "\<exists>h' l'. listDelNode h l p = Some (h', l', if frees l then [v] else []) \<and> links h' l' (xs @ ys) (us @ ws) \<and> h' p = None
     \<and> kept (set (xs @ p # ys)) h l h' l'"
proof -
  obtain h1 l' where r: "listUnlinkNode h l p = Some (h1, l')" "links h1 l' (xs @ ys) (us @ ws)" "h1 p = Some \<lparr>prev = None, nxt = None, val = v\<rparr>"
      "kept (set (xs @ p # ys)) h l h1 l'"
    using unlink_node[OF assms] by blast
  have "p \<notin> set (xs @ ys)" using i by (auto simp: links_def)
  then have "links (h1(p := None)) l' (xs @ ys) (us @ ws)" using links_frame[OF r(2)] by simp
  moreover have "kept (set (xs @ p # ys)) h l (h1(p := None)) l'" using r(4) by (simp add: kept_def)
  moreover have "listDelNode h l p = Some (h1(p := None), l', if frees l then [v] else [])"
    using r(1,3,4) by (simp add: listDelNode_def zfree_def kept_def)
  ultimately show ?thesis by fastforce
qed

section \<open>Walking\<close>

lemma index_next:
  "chain h pv ps None vs \<Longrightarrow> listIndex_loop h nxt i (fst_of ps None) = Some (if i < length ps then Some (ps ! i) else None)"
proof (induction ps arbitrary: i pv vs)
  case Nil
  then show ?case by (cases i) auto
next
  case (Cons p ps)
  then show ?case by (cases i) auto
qed

lemma index_prev:
  "chain h None ps nx vs \<Longrightarrow> listIndex_loop h prev i (lst_of None ps) = Some (if i < length ps then Some (rev ps ! i) else None)"
proof (induction ps arbitrary: i nx vs rule: rev_induct)
  case Nil
  then show ?case by (cases i) auto
next
  case (snoc p ps)
  then show ?case by (cases i) (auto simp: chain_snoc nth_append)
qed

lemma index_links:
  assumes i: "links h l ps vs" and b: "- (2 ^ 63) < index"
  shows "listIndex h l index = Some (if 0 \<le> index then (if nat index < length ps then Some (ps ! nat index) else None)
     else if nat (- index) \<le> length ps then Some (ps ! (length ps - nat (- index))) else None)"
proof -
  have c: "chain h None ps None vs" "head l = fst_of ps None" "tail l = lst_of None ps" using i by (auto simp: links_def)
  show ?thesis
  proof (cases "0 \<le> index")
    case True
    then show ?thesis using index_next[OF c(1), of "nat index"] c(2) by (simp add: listIndex_def)
  next
    case False
    then have e: "nat (- index - 1) < length ps \<longleftrightarrow> nat (- index) \<le> length ps" by linarith
    have "nat (- index) \<le> length ps \<Longrightarrow> rev ps ! nat (- index - 1) = ps ! (length ps - nat (- index))"
      using False e by (subst rev_nth) (auto intro!: arg_cong[of _ _ "nth ps"])
    then show ?thesis using False b index_prev[OF c(1), of "nat (- index - 1)"] c(3) e by (simp add: listIndex_def)
  qed
qed

text \<open>An iterator in front of the nodes \<open>ps\<close>.\<close>

definition iter_at :: "lptr \<Rightarrow> listIter" where "iter_at p = \<lparr>iter_next = p, iter_direction = AL_START_HEAD\<rparr>"

lemma next_chain: "chain h pv (p # ps) nx vs \<Longrightarrow> listNext h (iter_at (Some p)) = Some (Some p, iter_at (fst_of ps nx))"
  by (auto simp: listNext_def iter_at_def)

lemma next_end: "listNext h (iter_at None) = Some (None, iter_at None)" by (simp add: listNext_def iter_at_def)

definition hits :: "('v \<Rightarrow> 'v \<Rightarrow> bool) option \<Rightarrow> 'v \<Rightarrow> 'v \<Rightarrow> bool" where
  "hits mt key v = (case mt of Some f \<Rightarrow> f v key | None \<Rightarrow> key = v)"

lemma search_chain:
  "chain h pv ps None vs \<Longrightarrow> listSearchKey_loop h mt key (iter_at (fst_of ps None)) =
     Some (map_option fst (find (\<lambda>(p, v). hits mt key v) (zip ps vs)))"
proof (induction ps arbitrary: pv vs)
  case Nil
  then show ?case by (subst listSearchKey_loop.simps) (simp add: next_end)
next
  case (Cons p ps)
  then obtain v vs' where v: "vs = v # vs'" "h p = Some \<lparr>prev = pv, nxt = fst_of ps None, val = v\<rparr>" "chain h (Some p) ps None vs'" by auto
  have n: "listNext h (iter_at (Some p)) = Some (Some p, iter_at (fst_of ps None))" using next_chain[OF Cons.prems] .
  show ?case using v Cons.IH[OF v(3)] by (subst listSearchKey_loop.simps) (simp add: n hits_def[symmetric])
qed

lemma search_links:
  assumes "links h l ps vs" shows "listSearchKey h l key = Some (map_option fst (find (\<lambda>(p, v). hits (match l) key v) (zip ps vs)))"
  using assms search_chain[of h None ps vs "match l" key] by (simp add: listSearchKey_def listRewind_def links_def iter_at_def)

text \<open>Release of all nodes.\<close>

lemma empty_chain:
  "chain h pv ps None vs \<Longrightarrow> distinct ps \<Longrightarrow>
   listEmpty_loop h fr (fst_of ps None) (length ps) out = Some (\<lambda>a. if a \<in> set ps then None else h a, if fr then out @ vs else out)"
proof (induction ps arbitrary: h pv vs out)
  case (Cons p ps)
  then obtain v vs' where v: "vs = v # vs'" "h p = Some \<lparr>prev = pv, nxt = fst_of ps None, val = v\<rparr>" "chain h (Some p) ps None vs'" by auto
  have "chain (h(p := None)) (Some p) ps None vs'" using v(3) Cons.prems(2) by simp
  note ih = Cons.IH[OF this, of "if fr then out @ [v] else out"]
  have e: "(\<lambda>a. if a \<in> set ps then None else (h(p := None)) a) = (\<lambda>a. if a \<in> set (p # ps) then None else h a)" by auto
  have "listEmpty_loop h fr (fst_of (p # ps) None) (length (p # ps)) out = listEmpty_loop (h(p := None)) fr (fst_of ps None) (length ps) (if fr then out @ [v] else out)"
    using v(2) by (simp add: zfree_def)
  also have "\<dots> = Some (\<lambda>a. if a \<in> set ps then None else (h(p := None)) a, if fr then (if fr then out @ [v] else out) @ vs' else (if fr then out @ [v] else out))"
    by (rule ih) (use Cons.prems(2) in simp)
  finally show ?case unfolding e using v(1) by simp
qed simp

lemma empty_links:
  assumes "links h l ps vs"
  shows "listEmpty h l = Some (\<lambda>a. if a \<in> set ps then None else h a, l\<lparr>head := None, tail := None, len := 0\<rparr>, if frees l then vs else [])"
  using assms empty_chain[of h None ps vs "frees l" "[]"] unat_len[OF assms] by (simp add: listEmpty_def links_def)


section \<open>Rotation and concatenation\<close>

lemma rotate_tail:
  assumes i: "links h l (ps @ [p]) (vs @ [v])" and ne: "ps \<noteq> []"
  shows "\<exists>h' l'. listRotateTailToHead h l = Some (h', l') \<and> links h' l' (p # ps) (v # vs) \<and> kept (set (ps @ [p])) h l h' l'"
proof -
  obtain q qs where q: "ps = q # qs" using ne by (cases ps) auto
  have c: "chain h None ps (Some p) vs" "h p = Some \<lparr>prev = lst_of None ps, nxt = None, val = v\<rparr>" and d: "p \<notin> set ps" "distinct ps" "head l = Some q" "tail l = Some p"
    using i q by (auto simp: links_def chain_snoc)
  let ?t = "lst_of None ps"
  let ?h1 = "relink_next h ?t None"
  let ?h2 = "relink_prev ?h1 (Some q) (Some p)"
  let ?h' = "?h2(p \<mapsto> \<lparr>prev = None, nxt = Some q, val = v\<rparr>)" and ?l = "l\<lparr>tail := ?t, head := Some p\<rparr>"
  have t: "?t \<noteq> None" "?t \<noteq> Some p" using ne ends_not(2)[OF d(1)] by (simp_all add: lst_of_if)
  have s1: "set_next h ?t None = Some ?h1" using ends_live(1)[OF c(1), of None "[]" "[]"] t by (intro set_relink) auto
  have c1: "chain ?h1 None ps None vs" by (rule chain_relink_last[OF c(1) d(2)])
  have c2: "chain ?h2 (Some p) ps None vs" using chain_relink_first[OF c1 d(2), of "Some p"] q by simp
  have s2: "set_prev ?h1 (Some q) (Some p) = Some ?h2" using chain_dom[OF c1, of q] q by (intro set_relink) (simp add: node_at_def)
  have p2: "?h2 p = h p" "?h1 p = h p" using t d q by auto
  have "listRotateTailToHead h l = Some (?h', ?l)"
    using len_1[OF i] q d c(2) s1 s2 p2 by (simp add: listRotateTailToHead_def)
  moreover have "links ?h' ?l (p # ps) (v # vs)"
    using i c2 d q unfolding links_def by (simp add: lst_of_if)
  moreover have "b \<notin> set ps \<Longrightarrow> q \<noteq> b" for b using q by auto
  then have "kept (set (ps @ [p])) h l ?h' ?l" by (auto simp: kept_def ends_not)
  ultimately show ?thesis by blast
qed

lemma rotate_head:
  assumes i: "links h l (p # ps) (v # vs)" and ne: "ps \<noteq> []"
  shows "\<exists>h' l'. listRotateHeadToTail h l = Some (h', l') \<and> links h' l' (ps @ [p]) (vs @ [v]) \<and> kept (set (p # ps)) h l h' l'"
proof -
  obtain qs q where q: "ps = qs @ [q]" using ne by (cases ps rule: rev_cases) auto
  have c: "chain h (Some p) ps None vs" "h p = Some \<lparr>prev = None, nxt = fst_of ps None, val = v\<rparr>" and d: "p \<notin> set ps" "distinct ps" "head l = Some p" "tail l = Some q"
    using i q by (auto simp: links_def)
  let ?f = "fst_of ps None"
  let ?h1 = "relink_prev h ?f None"
  let ?h2 = "relink_next ?h1 (Some q) (Some p)"
  let ?h' = "?h2(p \<mapsto> \<lparr>prev = Some q, nxt = None, val = v\<rparr>)" and ?l = "l\<lparr>head := ?f, tail := Some p\<rparr>"
  have t: "?f \<noteq> None" "?f \<noteq> Some p" using ne d by (auto simp: fst_of_if)
  have s1: "set_prev h ?f None = Some ?h1" using ends_live(2)[of h "[]" None "[]" "Some p" ps vs] c(1) t by (intro set_relink) auto
  have c1: "chain ?h1 None ps None vs" by (rule chain_relink_first[OF c(1) d(2)])
  have c2: "chain ?h2 None ps (Some p) vs" using chain_relink_last[OF c1 d(2), of "Some p"] q by simp
  have s2: "set_next ?h1 (Some q) (Some p) = Some ?h2" using chain_dom[OF c1, of q] q by (intro set_relink) (simp add: node_at_def)
  have p2: "?h2 p = h p" "?h1 p = h p" using t d q by auto
  have "listRotateHeadToTail h l = Some (?h', ?l)"
    using len_1[OF i] q d c(2) s1 s2 p2 by (simp add: listRotateHeadToTail_def)
  moreover have "lst_of None ps = Some q" using q by simp
  then have "chain ?h' None (ps @ [p]) None (vs @ [v])" using c2 d(1) by (simp add: chain_snoc)
  then have "links ?h' ?l (ps @ [p]) (vs @ [v])" using i d q unfolding links_def by simp
  moreover have "b \<notin> set ps \<Longrightarrow> q \<noteq> b" for b using q by auto
  then have "kept (set (p # ps)) h l ?h' ?l" by (auto simp: kept_def ends_not)
  ultimately show ?thesis by blast
qed

lemma join_links:
  assumes i: "links h l ps vs" and j: "links h ot qs ws" and d: "set ps \<inter> set qs = {}" and b: "int (length ps + length qs) < 2 ^ 64"
  shows "\<exists>h' l'. listJoin h l ot = Some (h', l', if qs = [] then ot else ot\<lparr>head := None, tail := None, len := 0\<rparr>) \<and> links h' l' (ps @ qs) (vs @ ws)
     \<and> kept (set (ps @ qs)) h l h' l'"
proof (cases "qs = []")
  case True
  then show ?thesis using i j len_0[OF j] by (auto simp: listJoin_def links_def kept_def)
next
  case False
  have c: "chain h None ps None vs" "chain h None qs None ws" "distinct (ps @ qs)" "head ot = fst_of qs None" "tail ot = lst_of None qs" "tail l = lst_of None ps" "head l = fst_of ps None"
    "len l = of_nat (length ps)" "len ot = of_nat (length qs)"
    using i j d by (auto simp: links_def)
  let ?t = "lst_of None ps" and ?f = "fst_of qs None"
  let ?h1 = "relink_prev h ?f ?t"
  let ?h2 = "relink_next ?h1 ?t ?f"
  let ?l1 = "if ps = [] then l\<lparr>head := ?f\<rparr> else l"
  let ?l = "?l1\<lparr>tail := tail ot, len := len ?l1 + len ot\<rparr>"
  have 1: "?t = None \<longleftrightarrow> ps = []" "?f \<noteq> None" using False by (simp_all add: lst_of_if fst_of_if)
  have s1: "set_prev h ?f ?t = Some ?h1" using ends_live(2)[OF c(1,2)] 1 by (intro set_relink) auto
  have s2: "ps \<noteq> [] \<Longrightarrow> set_next ?h1 ?t ?f = Some ?h2" using ends_live(1)[OF c(1,2)] 1 by (intro set_relink) auto
  have a: "(if tail l \<noteq> None then do { h \<leftarrow> set_next ?h1 (tail l) (head ot); Some (h, l) } else Some (?h1, l\<lparr>head := head ot\<rparr>)) = Some (?h2, ?l1)"
    using s2 1 unfolding c(4,6) by (cases "ps = []") auto
  have n: "(len ot = 0) = False" using len_0[OF j] False by simp
  have "listJoin h l ot = Some (?h2, ?l, ot\<lparr>head := None, tail := None, len := 0\<rparr>)"
    unfolding listJoin_def n if_False unfolding c(4,6) s1 bind.simps unfolding a[unfolded c(4,6)] by simp
  moreover have "chain ?h2 None (ps @ qs) None (vs @ ws)"
  proof (rule chainI[OF _ _ refl])
    have m: "\<forall>b\<in>set ps. ?f \<noteq> Some b" "\<forall>b\<in>set qs. ?t \<noteq> Some b" using c(3) by (auto dest!: fst_of_mem lst_of_mem)
    show "chain ?h2 None ps ?f vs" using chain_relink_last[of ?h1 ps None vs ?f] c(1,3) by (simp add: chain_relink_other m)
    show "chain ?h2 ?t qs None ws" using chain_relink_first[OF c(2), of ?t] c(3) by (simp add: chain_relink_other m)
  qed
  then have "links ?h2 ?l (ps @ qs) (vs @ ws)" using c b False unfolding links_def by (simp add: fst_of_if lst_of_if)
  moreover have "kept (set (ps @ qs)) h l ?h2 ?l" by (simp add: kept_def ends_not)
  ultimately show ?thesis using False by auto
qed

section \<open>Duplication\<close>

definition dup_val :: "('v \<Rightarrow> 'v option) option \<Rightarrow> 'v \<Rightarrow> 'v option" where
  "dup_val d v = (case d of Some f \<Rightarrow> f v | None \<Rightarrow> Some v)"

text \<open>The copy made so far is on nodes that were free before; a failure gives them all back.\<close>

definition copied :: "'v nodes \<Rightarrow> 'v nodes \<Rightarrow> 'v adlist \<Rightarrow> nat list \<Rightarrow> 'v list \<Rightarrow> bool" where
  "copied h h' c qs ws \<longleftrightarrow> links h' c qs ws \<and> set qs \<inter> dom h = {} \<and> (\<forall>a. a \<notin> set qs \<longrightarrow> h' a = h a)"

lemma release_copied:
  assumes "copied h h' l qs ws" "hs c = None" shows "listRelease h' (hs(c \<mapsto> l)) (Some c) = Some (h, hs, if frees l then ws else [])"
proof -
  have "a \<in> set qs \<Longrightarrow> h a = None" "a \<notin> set qs \<Longrightarrow> h' a = h a" for a using assms(1) by (auto simp: copied_def)
  then have "(\<lambda>a. if a \<in> set qs then None else h' a) = h" by auto
  moreover have "hs(c := None) = hs" using assms(2) by auto
  ultimately show ?thesis using assms empty_links[of h' l qs ws] by (simp add: listRelease_def copied_def zfree_def)
qed

lemma add_tail:
  assumes i: "links h l ps vs" and z: "zmalloc h = Some a" "h a = None" and b: "int (length ps) + 1 < 2 ^ 64"
  shows "\<exists>h' l'. listAddNodeTail zmalloc g h l v = Some (Some (h', l')) \<and> links h' l' (ps @ [a]) (vs @ [v]) \<and> kept (set (ps @ [a])) h l h' l'"
proof -
  have "a \<notin> set ps" using i z(2) chain_dom[of h None ps None vs a] by (auto simp: links_def)
  moreover from this have "links (new_node g h a v) l ps vs" by (intro links_frame[OF i]) (auto simp: new_node_def)
  ultimately obtain h' l' where "listLinkNodeTail (new_node g h a v) l a = Some (h', l')" "links h' l' (ps @ [a]) (vs @ [v])" "kept (set (ps @ [a])) (new_node g h a v) l h' l'"
    using link_tail[of "new_node g h a v" l ps vs a "\<lparr>prev = fst g, nxt = snd g, val = v\<rparr>"] b by (auto simp: new_node_def)
  then show ?thesis using z(1) by (auto simp: listAddNodeTail_def kept_def new_node_def)
qed

lemma add_head:
  assumes i: "links h l ps vs" and z: "zmalloc h = Some a" "h a = None" and b: "int (length ps) + 1 < 2 ^ 64"
  shows "\<exists>h' l'. listAddNodeHead zmalloc g h l v = Some (Some (h', l')) \<and> links h' l' (a # ps) (v # vs) \<and> kept (set (a # ps)) h l h' l'"
proof -
  have "a \<notin> set ps" using i z(2) chain_dom[of h None ps None vs a] by (auto simp: links_def)
  moreover from this have "links (new_node g h a v) l ps vs" by (intro links_frame[OF i]) (auto simp: new_node_def)
  ultimately obtain h' l' where "listLinkNodeHead (new_node g h a v) l a = Some (h', l')" "links h' l' (a # ps) (v # vs)" "kept (set (a # ps)) (new_node g h a v) l h' l'"
    using link_head[of "new_node g h a v" l ps vs a "\<lparr>prev = fst g, nxt = snd g, val = v\<rparr>"] b by (auto simp: new_node_def)
  then show ?thesis using z(1) by (auto simp: listAddNodeHead_def kept_def new_node_def)
qed

text \<open>How a duplication fails, with \<open>ws\<close> already copied and \<open>vs\<close> still to copy: after some more values, the method \<open>dup\<close> returns \<open>NULL\<close> for the next
  one, or the allocator refuses the node for its copy. \<open>out\<close> is what the method \<open>free\<close> was called with: every copy made.\<close>

definition dup_fails :: "'v alloc \<Rightarrow> 'v nodes \<Rightarrow> 'v adlist \<Rightarrow> 'v list \<Rightarrow> 'v list \<Rightarrow> 'v list \<Rightarrow> bool" where
  "dup_fails zmalloc h l ws vs out \<longleftrightarrow> (\<exists>us v rest. vs = us @ v # rest \<and> (\<forall>u\<in>set us. dup_val (dup l) u \<noteq> None) \<and>
     (dup_val (dup l) v = None \<and> out = (if frees l then ws @ map (the \<circ> dup_val (dup l)) us else []) \<or>
      (\<exists>x h1 c qs. dup_val (dup l) v = Some x \<and> copied h h1 c qs (ws @ map (the \<circ> dup_val (dup l)) us) \<and> zmalloc h1 = None \<and>
         out = (if frees l then x # ws @ map (the \<circ> dup_val (dup l)) us else []))))"

lemma dup_fails_Cons:
  assumes "dup_val (dup l) v = Some w" "dup_fails zmalloc h l (ws @ [w]) vs out"
  shows "dup_fails zmalloc h l ws (v # vs) out"
proof -
  obtain us u rest where d: "vs = us @ u # rest" "\<forall>u\<in>set us. dup_val (dup l) u \<noteq> None"
    "dup_val (dup l) u = None \<and> out = (if frees l then (ws @ [w]) @ map (the \<circ> dup_val (dup l)) us else []) \<or>
      (\<exists>x h1 c qs. dup_val (dup l) u = Some x \<and> copied h h1 c qs ((ws @ [w]) @ map (the \<circ> dup_val (dup l)) us) \<and> zmalloc h1 = None \<and>
         out = (if frees l then x # (ws @ [w]) @ map (the \<circ> dup_val (dup l)) us else []))"
    using assms(2) unfolding dup_fails_def by blast
  have "ws @ map (the \<circ> dup_val (dup l)) (v # us) = (ws @ [w]) @ map (the \<circ> dup_val (dup l)) us" using assms(1) by simp
  then show ?thesis using d assms(1) unfolding dup_fails_def by - (rule exI[of _ "v # us"], rule exI[of _ u], rule exI[of _ rest], cases "frees l"; auto)
qed

definition same_methods :: "'v adlist \<Rightarrow> 'v adlist \<Rightarrow> bool" where
  "same_methods c l \<longleftrightarrow> dup c = dup l \<and> frees c = frees l \<and> match c = match l"

lemma dup_chain:
  assumes z: "alloc_ok zmalloc" and hc: "hs c = None"
  shows "chain h pv ps None vs \<Longrightarrow> copied h h1 cl qs ws \<Longrightarrow> same_methods cl l \<Longrightarrow> int (length qs + length ps) < 2 ^ 64 \<Longrightarrow>
    (\<exists>h' cl' qs'. listDup_loop zmalloc g h1 (hs(c \<mapsto> cl)) c (iter_at (fst_of ps None)) = Some (h', hs(c \<mapsto> cl'), Some c, []) \<and>
       copied h h' cl' qs' (ws @ map (the \<circ> dup_val (dup l)) vs) \<and> same_methods cl' l \<and> (\<forall>v\<in>set vs. dup_val (dup l) v \<noteq> None)) \<or>
    (\<exists>out. listDup_loop zmalloc g h1 (hs(c \<mapsto> cl)) c (iter_at (fst_of ps None)) = Some (h, hs, None, out) \<and> dup_fails zmalloc h l ws vs out)"
proof (induction ps arbitrary: h1 cl qs ws pv vs)
  case Nil
  then have "listDup_loop zmalloc g h1 (hs(c \<mapsto> cl)) c (iter_at (fst_of [] None)) = Some (h1, hs(c \<mapsto> cl), Some c, [])"
    by (subst listDup_loop.simps) (simp add: next_end)
  moreover have "copied h h1 cl qs (ws @ map (the \<circ> dup_val (dup l)) vs)" "\<forall>v\<in>set vs. dup_val (dup l) v \<noteq> None" using Nil by simp_all
  ultimately show ?case using Nil(3) by blast
next
  case (Cons p ps)
  then obtain v vs' where v: "vs = v # vs'" "h p = Some \<lparr>prev = pv, nxt = fst_of ps None, val = v\<rparr>" "chain h (Some p) ps None vs'" by auto
  have m: "dup cl = dup l" "frees cl = frees l" using Cons.prems(3) by (simp_all add: same_methods_def)
  have "p \<notin> set qs" using Cons.prems(2) v(2) by (auto simp: copied_def)
  then have p1: "h1 p = h p" using Cons.prems(2) by (simp add: copied_def)
  then have n: "listNext h1 (iter_at (fst_of (p # ps) None)) = Some (Some p, iter_at (fst_of ps None))" using v(2) by (simp add: listNext_def iter_at_def)
  have step: "listDup_loop zmalloc g h1 (hs(c \<mapsto> cl)) c (iter_at (fst_of (p # ps) None)) =
      (case dup_val (dup l) v of
           None \<Rightarrow> do { (h, hs, out) \<leftarrow> listRelease h1 (hs(c \<mapsto> cl)) (Some c); Some (h, hs, None, out) }
         | Some v \<Rightarrow> do {
             r \<leftarrow> listAddNodeTail zmalloc g h1 cl v;
             case r of
               None \<Rightarrow> do { (h, hs, out) \<leftarrow> listRelease h1 (hs(c \<mapsto> cl)) (Some c); Some (h, hs, None, if frees l then v # out else out) }
             | Some (h, copy) \<Rightarrow> listDup_loop zmalloc g h (hs(c \<mapsto> copy)) c (iter_at (fst_of ps None)) })"
    unfolding listDup_loop.simps[of zmalloc g h1 "hs(c \<mapsto> cl)" c "iter_at (fst_of (p # ps) None)"] n bind.simps prod.case option.case p1 v(2) listNode.simps
      fun_upd_same m dup_val_def fun_upd_upd ..
  note rel = release_copied[where hs = hs and c = c, OF Cons.prems(2) hc]
  show ?case
  proof (cases "dup_val (dup l) v")
    case None
    have "dup_fails zmalloc h l ws vs (if frees l then ws else [])"
      unfolding dup_fails_def using None v(1) by - (rule exI[of _ "[]"], rule exI[of _ v], rule exI[of _ vs'], simp)
    moreover have "listDup_loop zmalloc g h1 (hs(c \<mapsto> cl)) c (iter_at (fst_of (p # ps) None)) = Some (h, hs, None, if frees l then ws else [])"
      using step None rel m by (simp del: fst_of.simps)
    ultimately show ?thesis by blast
  next
    case (Some w)
    show ?thesis
    proof (cases "zmalloc h1")
      case None
      then have "listAddNodeTail zmalloc g h1 cl w = Some None" by (simp add: listAddNodeTail_def)
      moreover have "dup_fails zmalloc h l ws vs (if frees l then w # ws else [])"
        unfolding dup_fails_def using None Some v(1) Cons.prems(2) by - (rule exI[of _ "[]"], rule exI[of _ v], rule exI[of _ vs'], auto)
      ultimately have "listDup_loop zmalloc g h1 (hs(c \<mapsto> cl)) c (iter_at (fst_of (p # ps) None)) = Some (h, hs, None, if frees l then w # ws else [])"
          "dup_fails zmalloc h l ws vs (if frees l then w # ws else [])"
        using step Some rel m by (simp_all del: fst_of.simps)
      then show ?thesis by blast
    next
      case (Some a)
      have fresh: "h1 a = None" using z Some by (auto simp: alloc_ok_def)
      have i: "links h1 cl qs ws" using Cons.prems(2) by (simp add: copied_def)
      obtain h2 c2 where t: "listAddNodeTail zmalloc g h1 cl w = Some (Some (h2, c2))" "links h2 c2 (qs @ [a]) (ws @ [w])" "kept (set (qs @ [a])) h1 cl h2 c2"
        using add_tail[of h1 cl qs ws zmalloc a g w] i Some fresh Cons.prems(4) by auto
      have "a \<notin> set qs" using i fresh chain_dom[of h1 None qs None ws a] by (auto simp: links_def)
      then have "h a = None" using Cons.prems(2) fresh by (auto simp: copied_def)
      then have cp: "copied h h2 c2 (qs @ [a]) (ws @ [w])" using t Cons.prems(2) by (auto simp: copied_def kept_def)
      have sm: "same_methods c2 l" using t(3) Cons.prems(3) by (simp add: kept_def same_methods_def)
      have b: "int (length (qs @ [a]) + length ps) < 2 ^ 64" using Cons.prems(4) by simp
      have st: "listDup_loop zmalloc g h1 (hs(c \<mapsto> cl)) c (iter_at (fst_of (p # ps) None)) = listDup_loop zmalloc g h2 (hs(c \<mapsto> c2)) c (iter_at (fst_of ps None))"
        using step \<open>dup_val (dup l) v = Some w\<close> t(1) by simp
      have e: "ws @ map (the \<circ> dup_val (dup l)) vs = (ws @ [w]) @ map (the \<circ> dup_val (dup l)) vs'" using v(1) \<open>dup_val (dup l) v = Some w\<close> by simp
      have d: "(\<forall>v\<in>set vs. dup_val (dup l) v \<noteq> None) \<longleftrightarrow> (\<forall>v\<in>set vs'. dup_val (dup l) v \<noteq> None)" using v(1) \<open>dup_val (dup l) v = Some w\<close> by simp
      have "dup_fails zmalloc h l (ws @ [w]) vs' out \<Longrightarrow> dup_fails zmalloc h l ws vs out" for out
        using dup_fails_Cons[OF \<open>dup_val (dup l) v = Some w\<close>, of zmalloc h ws vs'] v(1) by simp
      then show ?thesis using Cons.IH[OF v(3) cp sm b] unfolding st e d by blast
    qed
  qed
qed

text \<open>What \<open>zmalloc\<close> promises for the headers.\<close>

definition halloc_ok :: "'v halloc \<Rightarrow> bool" where
  "halloc_ok hzmalloc \<longleftrightarrow> (\<forall>hs c. hzmalloc hs = Some c \<longrightarrow> hs c = None)"

lemma dup_links:
  assumes hz: "halloc_ok hzmalloc" and z: "alloc_ok zmalloc" and l: "hs orig = Some l" and i: "links h l ps vs"
  shows "(\<exists>c h' cl qs. listDup hzmalloc zmalloc g h hs orig = Some (h', hs(c \<mapsto> cl), Some c, []) \<and> hs c = None \<and>
       copied h h' cl qs (map (the \<circ> dup_val (dup l)) vs) \<and> same_methods cl l \<and> (\<forall>v\<in>set vs. dup_val (dup l) v \<noteq> None)) \<or>
    (\<exists>out. listDup hzmalloc zmalloc g h hs orig = Some (h, hs, None, out) \<and> (hzmalloc hs = None \<and> out = [] \<or> dup_fails zmalloc h l [] vs out))"
proof (cases "hzmalloc hs")
  case None
  then show ?thesis by (simp add: listDup_def listCreate_def)
next
  case (Some c)
  then have hc: "hs c = None" using hz by (auto simp: halloc_ok_def)
  then have o: "orig \<noteq> c" using l by auto
  let ?c = "empty_list\<lparr>dup := dup l, frees := frees l, match := match l\<rparr>"
  have cp: "copied h h ?c [] []" "same_methods ?c l" by (simp_all add: copied_def links_def empty_list_def same_methods_def)
  have ch: "chain h None ps None vs" "int (length [] + length ps) < 2 ^ 64" "head l = fst_of ps None" using i by (auto simp: links_def)
  have "listDup hzmalloc zmalloc g h hs orig = listDup_loop zmalloc g h (hs(c \<mapsto> ?c)) c (iter_at (fst_of ps None))"
    using Some o l ch(3) by (simp add: listDup_def listCreate_def listRewind_def iter_at_def)
  then show ?thesis using dup_chain[where hs = hs and c = c, OF z hc ch(1) cp ch(2), of g] hc unfolding append_Nil by metis
qed

text \<open>Without a \<open>dup\<close> method the copies are the values of the original themselves: when the first node is refused and there is a \<open>free\<close> method,
  the first value of the original is freed although the original still holds it.\<close>

lemma dup_shallow_frees_original:
  assumes hz: "halloc_ok hzmalloc" "hzmalloc hs = Some c" and z: "zmalloc h = None" and l: "hs orig = Some l" "dup l = None" "frees l"
    and i: "links h l (p # ps) (v # vs)"
  shows "listDup hzmalloc zmalloc g h hs orig = Some (h, hs, None, [v])"
proof -
  have "hs c = None" using hz unfolding halloc_ok_def by blast
  then have hc: "hs c = None" "orig \<noteq> c" using l(1) by auto
  let ?c = "empty_list\<lparr>dup := dup l, frees := frees l, match := match l\<rparr>"
  have cp: "copied h h ?c [] []" by (simp add: copied_def links_def empty_list_def)
  have p: "h p = Some \<lparr>prev = None, nxt = fst_of ps None, val = v\<rparr>" "head l = Some p" using i by (auto simp: links_def)
  have "listDup hzmalloc zmalloc g h hs orig = listDup_loop zmalloc g h (hs(c \<mapsto> ?c)) c (iter_at (Some p))"
    using hz(2) hc l(1) p(2) by (simp add: listDup_def listCreate_def listRewind_def iter_at_def)
  then show ?thesis using p z l(2,3) release_copied[where hs = hs and c = c, OF cp hc(1)]
    by (subst (asm) listDup_loop.simps) (simp add: listNext_def iter_at_def listAddNodeTail_def)
qed

section \<open>The list as a sequence\<close>

text \<open>The state is the allocator (with the garbage of its blocks), the nodes and the list.\<close>

type_synonym 'v al_state = "('v alloc \<times> (lptr \<times> lptr)) \<times> 'v nodes \<times> 'v adlist"

datatype 'v al_cmd = AddHead 'v | AddTail 'v | InsertAt int 'v bool | DelAt int | RotateTailToHead | RotateHeadToTail | Join "'v list"

text \<open>The client of \<open>listJoin\<close> builds the other list by additions at the tail.\<close>

fun add_all :: "'v alloc \<Rightarrow> lptr \<times> lptr \<Rightarrow> 'v nodes \<Rightarrow> 'v adlist \<Rightarrow> 'v list \<Rightarrow> ('v nodes \<times> 'v adlist) option option" where
  "add_all z g h l [] = Some (Some (h, l))"
| "add_all z g h l (v # vs) = do {
     r \<leftarrow> listAddNodeTail z g h l v;
     case r of None \<Rightarrow> Some None | Some (h, l) \<Rightarrow> add_all z g h l vs }"

fun al_step :: "'v al_cmd \<Rightarrow> 'v al_state \<Rightarrow> 'v al_state option option" where
  "al_step (AddHead v) ((z, g), h, l) = map_option (map_option (Pair (z, g))) (listAddNodeHead z g h l v)"
| "al_step (AddTail v) ((z, g), h, l) = map_option (map_option (Pair (z, g))) (listAddNodeTail z g h l v)"
| "al_step (InsertAt i v after) ((z, g), h, l) = do {
     pp \<leftarrow> listIndex h l i;
     case pp of None \<Rightarrow> Some (Some ((z, g), h, l)) | Some p \<Rightarrow> map_option (map_option (Pair (z, g))) (listInsertNode z g h l p v after) }"
| "al_step (DelAt i) ((z, g), h, l) = do {
     pp \<leftarrow> listIndex h l i;
     case pp of None \<Rightarrow> Some (Some ((z, g), h, l)) | Some p \<Rightarrow> map_option (\<lambda>(h, l, out). Some ((z, g), h, l)) (listDelNode h l p) }"
| "al_step RotateTailToHead ((z, g), h, l) = map_option (\<lambda>r. Some ((z, g), r)) (listRotateTailToHead h l)"
| "al_step RotateHeadToTail ((z, g), h, l) = map_option (\<lambda>r. Some ((z, g), r)) (listRotateHeadToTail h l)"
| "al_step (Join ws) ((z, g), h, l) = do {
     r \<leftarrow> add_all z g h empty_list ws;
     case r of None \<Rightarrow> Some None | Some (h, ot) \<Rightarrow> map_option (\<lambda>(h, l, ot). Some ((z, g), h, l)) (listJoin h l ot) }"

definition al_index :: "nat \<Rightarrow> int \<Rightarrow> nat option" where
  "al_index n i = (let j = (if i < 0 then int n + i else i) in if 0 \<le> j \<and> j < int n then Some (nat j) else None)"

fun al_edit :: "'v al_cmd \<Rightarrow> 'v list \<Rightarrow> 'v list" where
  "al_edit (AddHead v) vs = v # vs"
| "al_edit (AddTail v) vs = vs @ [v]"
| "al_edit (InsertAt i v after) vs = (case al_index (length vs) i of None \<Rightarrow> vs
     | Some j \<Rightarrow> (if after then take (Suc j) vs @ v # drop (Suc j) vs else take j vs @ v # drop j vs))"
| "al_edit (DelAt i) vs = (case al_index (length vs) i of None \<Rightarrow> vs | Some j \<Rightarrow> take j vs @ drop (Suc j) vs)"
| "al_edit RotateTailToHead vs = (if vs = [] then [] else last vs # butlast vs)"
| "al_edit RotateHeadToTail vs = (if vs = [] then [] else tl vs @ [hd vs])"
| "al_edit (Join ws) vs = vs @ ws"

fun al_cmd_ok :: "'v al_cmd \<Rightarrow> bool" where
  "al_cmd_ok (InsertAt i v after) = (- (2 ^ 63) < i)"
| "al_cmd_ok (DelAt i) = (- (2 ^ 63) < i)"
| "al_cmd_ok _ = True"

fun al_holds :: "'v al_state \<Rightarrow> 'v list \<Rightarrow> bool" where
  "al_holds ((z, g), h, l) vs = (alloc_ok z \<and> finite (dom h) \<and> (\<exists>ps. links h l ps vs))"

text \<open>The allocator has no node for the command; for a concatenation, none for one of the nodes of the other list.\<close>

fun al_refused :: "'v al_state \<Rightarrow> 'v al_cmd \<Rightarrow> bool" where
  "al_refused ((z, g), h, l) (AddHead v) = (z h = None)"
| "al_refused ((z, g), h, l) (AddTail v) = (z h = None)"
| "al_refused ((z, g), h, l) (InsertAt i v after) = (z h = None)"
| "al_refused ((z, g), h, l) (Join ws) = (\<exists>us v rest h' ot. ws = us @ v # rest \<and> add_all z g h empty_list us = Some (Some (h', ot)) \<and> z h' = None)"
| "al_refused m c = False"

lemma al_index_links:
  assumes "links h l ps vs" "- (2 ^ 63) < i" shows "listIndex h l i = Some (map_option (nth ps) (al_index (length vs) i))"
proof -
  have n: "length vs = length ps" by (rule links_length[OF assms(1)])
  have e: "i < 0 \<Longrightarrow> nat (- i) \<le> length ps \<Longrightarrow> nat (int (length ps) + i) = length ps - nat (- i)" by linarith
  show ?thesis unfolding index_links[OF assms] using e by (auto simp: al_index_def Let_def n)
qed

lemma al_room:
  assumes "alloc_ok z" "finite (dom h)" "links h l ps vs" "z h = Some a" shows "h a = None" "int (length ps) + 1 < 2 ^ 64"
proof -
  have "set ps \<subseteq> dom h" using assms(3) chain_dom[of h None ps None vs] by (auto simp: links_def)
  then have "length ps \<le> card (dom h)" using assms(2,3) card_mono[of "dom h" "set ps"] by (simp add: links_def distinct_card)
  moreover have "h a = None" "int (card (dom h)) + 1 < 2 ^ 64" using assms(1,4) unfolding alloc_ok_def by blast+
  ultimately show "h a = None" "int (length ps) + 1 < 2 ^ 64" by linarith+
qed

lemma kept_finite: "kept A h l h' l' \<Longrightarrow> finite A \<Longrightarrow> finite (dom h) \<Longrightarrow> finite (dom h')"
proof -
  assume "kept A h l h' l'" "finite A" "finite (dom h)"
  moreover from this have "dom h' \<subseteq> dom h \<union> A" by (auto simp: kept_def dom_def)
  ultimately show ?thesis using finite_subset by blast
qed

lemma links_at:
  assumes "links h l ps vs" "al_index (length vs) i = Some j"
  shows "j < length vs" "j < length ps" "ps = take j ps @ ps ! j # drop (Suc j) ps" "vs = take j vs @ vs ! j # drop (Suc j) vs"
    "length (take j vs) = length (take j ps)"
  using assms links_length[OF assms(1)] by (auto simp: al_index_def Let_def id_take_nth_drop split: if_splits)

lemma al_insert:
  assumes a: "alloc_ok z" "finite (dom h)" and i: "links h l ps vs" and x: "al_index (length vs) i = Some j" and z: "z h = Some a"
  shows "\<exists>h' l'. listInsertNode z g h l (ps ! j) v after = Some (Some (h', l')) \<and> al_holds ((z, g), h', l') (al_edit (InsertAt i v after) vs)"
proof -
  note s = links_at[OF i x]
  let ?xs = "take j ps" and ?ys = "drop (Suc j) ps" and ?us = "take j vs" and ?ws = "drop (Suc j) vs"
  have i': "links h l (?xs @ ps ! j # ?ys) (?us @ vs ! j # ?ws)" using i s(3,4) by simp
  have b: "int (length (?xs @ ps ! j # ?ys)) + 1 < 2 ^ 64" using al_room(2)[OF a i z] s(3) by simp
  obtain h' l' where r: "listInsertNode z g h l (ps ! j) v after = Some (Some (h', l'))"
     "links h' l' (if after then ?xs @ ps ! j # a # ?ys else ?xs @ a # ps ! j # ?ys) (if after then ?us @ vs ! j # v # ?ws else ?us @ v # vs ! j # ?ws)"
     "kept (set (a # ?xs @ ps ! j # ?ys)) h l h' l'"
    using insert_node[of h l ?xs "ps ! j" ?ys ?us "vs ! j" ?ws z a g v after] i' s(5) b z al_room(1)[OF a i z] by blast
  have "(if after then ?us @ vs ! j # v # ?ws else ?us @ v # vs ! j # ?ws) = al_edit (InsertAt i v after) vs"
    using s(1) x by (simp add: take_Suc_conv_app_nth Cons_nth_drop_Suc)
  then show ?thesis using r a kept_finite[OF r(3)] by auto
qed

lemma al_delete:
  assumes a: "alloc_ok z" "finite (dom h)" and i: "links h l ps vs" and x: "al_index (length vs) i = Some j"
  shows "\<exists>h' l' out. listDelNode h l (ps ! j) = Some (h', l', out) \<and> al_holds ((z, g), h', l') (al_edit (DelAt i) vs)"
proof -
  note s = links_at[OF i x]
  have i': "links h l (take j ps @ ps ! j # drop (Suc j) ps) (take j vs @ vs ! j # drop (Suc j) vs)" using i s(3,4) by simp
  obtain h' l' out where r: "listDelNode h l (ps ! j) = Some (h', l', out)" "links h' l' (take j ps @ drop (Suc j) ps) (take j vs @ drop (Suc j) vs)"
     "kept (set (take j ps @ ps ! j # drop (Suc j) ps)) h l h' l'"
    using del_node[OF i' s(5)] by blast
  then show ?thesis using a kept_finite[OF r(3)] x by auto
qed

lemma rotate_small: "links h l ps vs \<Longrightarrow> length ps \<le> 1 \<Longrightarrow> listRotateTailToHead h l = Some (h, l) \<and> listRotateHeadToTail h l = Some (h, l)"
  using len_1[of h l ps vs] by (simp add: listRotateTailToHead_def listRotateHeadToTail_def)

lemma small_rot: "length vs \<le> 1 \<Longrightarrow> al_edit RotateTailToHead vs = vs \<and> al_edit RotateHeadToTail vs = vs"
  by (cases vs) auto

lemma al_rotate:
  assumes a: "alloc_ok z" "finite (dom h)" and i: "links h l ps vs"
  shows "\<exists>h' l'. listRotateTailToHead h l = Some (h', l') \<and> al_holds ((z, g), h', l') (al_edit RotateTailToHead vs)"
    "\<exists>h' l'. listRotateHeadToTail h l = Some (h', l') \<and> al_holds ((z, g), h', l') (al_edit RotateHeadToTail vs)"
proof -
  have n: "length vs = length ps" by (rule links_length[OF i])
  show "\<exists>h' l'. listRotateTailToHead h l = Some (h', l') \<and> al_holds ((z, g), h', l') (al_edit RotateTailToHead vs)"
  proof (cases "length ps \<le> 1")
    case True
    then show ?thesis using rotate_small[OF i True] small_rot[of vs] n a i by auto
  next
    case False
    then obtain qs p ws w where e: "ps = qs @ [p]" "vs = ws @ [w]" "qs \<noteq> []"
      using n by (cases ps rule: rev_cases; cases vs rule: rev_cases) auto
    then obtain h' l' where r: "listRotateTailToHead h l = Some (h', l')" "links h' l' (p # qs) (w # ws)" "kept (set (qs @ [p])) h l h' l'"
      using rotate_tail[of h l qs p ws w] i by auto
    then show ?thesis using e a kept_finite[OF r(3)] by auto
  qed
  show "\<exists>h' l'. listRotateHeadToTail h l = Some (h', l') \<and> al_holds ((z, g), h', l') (al_edit RotateHeadToTail vs)"
  proof (cases "length ps \<le> 1")
    case True
    then show ?thesis using rotate_small[OF i True] small_rot[of vs] n a i by auto
  next
    case False
    then obtain qs p ws w where e: "ps = p # qs" "vs = w # ws" "qs \<noteq> []" using n by (cases ps; cases vs) auto
    then obtain h' l' where r: "listRotateHeadToTail h l = Some (h', l')" "links h' l' (qs @ [p]) (ws @ [w])" "kept (set (p # qs)) h l h' l'"
      using rotate_head[of h l p qs w ws] i by auto
    then show ?thesis using e a kept_finite[OF r(3)] by auto
  qed
qed


lemma al_add:
  assumes a: "alloc_ok z" "finite (dom h)" and i: "links h l ps vs" and z: "z h = Some a"
  shows "\<exists>h' l'. listAddNodeHead z g h l v = Some (Some (h', l')) \<and> al_holds ((z, g), h', l') (v # vs)"
    "\<exists>h' l'. listAddNodeTail z g h l v = Some (Some (h', l')) \<and> al_holds ((z, g), h', l') (vs @ [v])"
proof -
  note r = al_room[OF a i z]
  obtain h' l' where t: "listAddNodeHead z g h l v = Some (Some (h', l'))" "links h' l' (a # ps) (v # vs)" "kept (set (a # ps)) h l h' l'"
    using add_head[of h l ps vs z a g v] i z r by blast
  then show "\<exists>h' l'. listAddNodeHead z g h l v = Some (Some (h', l')) \<and> al_holds ((z, g), h', l') (v # vs)"
    using a kept_finite[OF t(3)] by auto
  obtain h' l' where t: "listAddNodeTail z g h l v = Some (Some (h', l'))" "links h' l' (ps @ [a]) (vs @ [v])" "kept (set (ps @ [a])) h l h' l'"
    using add_tail[of h l ps vs z a g v] i z r by blast
  then show "\<exists>h' l'. listAddNodeTail z g h l v = Some (Some (h', l')) \<and> al_holds ((z, g), h', l') (vs @ [v])"
    using a kept_finite[OF t(3)] by auto
qed

text \<open>The other list is built beside the first one.\<close>

lemma add_all_links:
  assumes a: "alloc_ok z" and i: "links h l ps vs"
  shows "finite (dom h1) \<Longrightarrow> copied h h1 ot qs us \<Longrightarrow>
    (\<exists>h' ot' qs'. add_all z g h1 ot ws = Some (Some (h', ot')) \<and> finite (dom h') \<and> copied h h' ot' qs' (us @ ws) \<and>
       (ws \<noteq> [] \<longrightarrow> int (card (dom h')) < 2 ^ 64)) \<or>
    (\<exists>xs v rest h' ot'. ws = xs @ v # rest \<and> add_all z g h1 ot xs = Some (Some (h', ot')) \<and> z h' = None \<and> add_all z g h1 ot ws = Some None)"
proof (induction ws arbitrary: h1 ot qs us)
  case Nil
  then show ?case by auto
next
  case (Cons w ws)
  have j: "links h1 ot qs us" using Cons.prems(2) by (simp add: copied_def)
  show ?case
  proof (cases "z h1")
    case None
    then show ?thesis by (intro disjI2 exI[of _ "[]"] exI[of _ w] exI[of _ ws]) (simp add: listAddNodeTail_def)
  next
    case (Some b)
    note r = al_room[OF a Cons.prems(1) j Some]
    obtain h2 o2 where t: "listAddNodeTail z g h1 ot w = Some (Some (h2, o2))" "links h2 o2 (qs @ [b]) (us @ [w])" "kept (set (qs @ [b])) h1 ot h2 o2"
      using add_tail[of h1 ot qs us z b g w, OF j Some r] by blast
    have "b \<notin> set qs" using j r(1) chain_dom[of h1 None qs None us b] by (auto simp: links_def)
    then have "h b = None" using Cons.prems(2) r(1) by (auto simp: copied_def)
    then have c: "copied h h2 o2 (qs @ [b]) (us @ [w])" using t Cons.prems(2) by (auto simp: copied_def kept_def)
    have f: "finite (dom h2)" using kept_finite[OF t(3)] Cons.prems(1) by simp
    have st: "add_all z g h1 ot (w # zs) = add_all z g h2 o2 zs" for zs using t(1) by simp
    have "set qs \<subseteq> dom h1" using j chain_dom[of h1 None qs None us] by (auto simp: links_def)
    then have "dom h2 \<subseteq> insert b (dom h1)" using t(3) by (auto simp: kept_def dom_def)
    then have "card (dom h2) \<le> Suc (card (dom h1))"
      using card_mono[of "insert b (dom h1)" "dom h2"] card_insert_le_m1[of "Suc (card (dom h1))" "dom h1" b] Cons.prems(1) by simp
    moreover have "int (card (dom h1)) + 1 < 2 ^ 64" using a Some unfolding alloc_ok_def by blast
    ultimately have cb: "int (card (dom h2)) < 2 ^ 64" by linarith
    from Cons.IH[OF f c] show ?thesis
    proof (elim disjE exE conjE)
      fix xs v rest h' ot'
      assume "ws = xs @ v # rest" "add_all z g h2 o2 xs = Some (Some (h', ot'))" "z h' = None" "add_all z g h2 o2 ws = Some None"
      then show ?thesis using st by (intro disjI2 exI[of _ "w # xs"] exI[of _ v] exI[of _ rest] exI[of _ h'] exI[of _ ot']) simp
    next
      fix h' ot' qs'
      assume r: "add_all z g h2 o2 ws = Some (Some (h', ot'))" "finite (dom h')" "copied h h' ot' qs' ((us @ [w]) @ ws)" "ws \<noteq> [] \<longrightarrow> int (card (dom h')) < 2 ^ 64"
      have "int (card (dom h')) < 2 ^ 64" using r(1,4) cb by (cases "ws = []") auto
      then have "add_all z g h1 ot (w # ws) = Some (Some (h', ot')) \<and> finite (dom h') \<and> copied h h' ot' qs' (us @ w # ws) \<and> (w # ws \<noteq> [] \<longrightarrow> int (card (dom h')) < 2 ^ 64)"
        using r(1-3) st[of ws] by (simp del: add_all.simps)
      then show ?thesis by blast
    qed
  qed
qed

lemma al_join:
  assumes a: "alloc_ok z" "finite (dom h)" and i: "links h l ps vs"
  shows "(\<exists>m'. al_step (Join ws) ((z, g), h, l) = Some (Some m') \<and> al_holds m' (vs @ ws)) \<or>
    al_step (Join ws) ((z, g), h, l) = Some None \<and> al_refused ((z, g), h, l) (Join ws)"
proof -
  have e: "copied h h empty_list [] []" by (simp add: copied_def links_def empty_list_def)
  from add_all_links[OF a(1) i a(2) e, of g ws] show ?thesis
  proof (elim disjE exE conjE)
    fix h' ot qs
    assume r: "add_all z g h empty_list ws = Some (Some (h', ot))" "finite (dom h')" "copied h h' ot qs ([] @ ws)" and cb: "ws \<noteq> [] \<longrightarrow> int (card (dom h')) < 2 ^ 64"
    then have j: "links h' ot qs ws" and d: "set qs \<inter> dom h = {}" and k: "\<forall>b. b \<notin> set qs \<longrightarrow> h' b = h b" by (auto simp: copied_def)
    have p: "set ps \<subseteq> dom h" using i chain_dom[of h None ps None vs] by (auto simp: links_def)
    then have dj: "set ps \<inter> set qs = {}" using d by auto
    have i': "links h' l ps vs" using links_frame[OF i] k dj by auto
    have "set qs \<subseteq> dom h'" using j chain_dom[of h' None qs None ws] by (auto simp: links_def)
    moreover have "set ps \<subseteq> dom h'" using i' chain_dom[of h' None ps None vs] by (auto simp: links_def)
    ultimately have "card (set (ps @ qs)) \<le> card (dom h')" using r(2) by (intro card_mono) auto
    moreover have "card (set (ps @ qs)) = length ps + length qs" using i j dj by (subst distinct_card) (auto simp: links_def)
    ultimately have n: "length ps + length qs \<le> card (dom h')" by simp
    show ?thesis
    proof (cases "qs = []")
      case True
      then have "ws = []" using links_length[OF j] by simp
      then show ?thesis using r(1) i' True len_0[OF j] r(2) a by (auto simp: listJoin_def)
    next
      case False
      have b: "int (length ps + length qs) < 2 ^ 64" using n cb links_length[OF j] False by auto
      obtain h2 l2 ot2 where t: "listJoin h' l ot = Some (h2, l2, ot2)" "links h2 l2 (ps @ qs) (vs @ ws)" "kept (set (ps @ qs)) h' l h2 l2"
        using join_links[OF i' j dj b] by blast
      then show ?thesis using r(1) a kept_finite[OF t(3)] r(2) by auto
    qed
  next
    fix us v rest h' ot
    assume "ws = us @ v # rest" "add_all z g h empty_list us = Some (Some (h', ot))" "z h' = None" "add_all z g h empty_list ws = Some None"
    then show ?thesis by auto
  qed
qed

lemma al_step_cmd:
  assumes "al_holds m vs" and ok: "al_cmd_ok c"
  shows "(\<exists>m'. al_step c m = Some (Some m') \<and> al_holds m' (al_edit c vs)) \<or> al_step c m = Some None \<and> al_refused m c"
proof -
  obtain z g h l ps where m: "m = ((z, g), h, l)" and a: "alloc_ok z" "finite (dom h)" and i: "links h l ps vs"
    using assms(1) by (cases m) auto
  show ?thesis
  proof (cases c)
    case (AddHead v)
    then show ?thesis using al_add(1)[OF a i, of _ g v] m by (cases "z h") (auto simp: listAddNodeHead_def)
  next
    case (AddTail v)
    then show ?thesis using al_add(2)[OF a i, of _ g v] m by (cases "z h") (auto simp: listAddNodeTail_def)
  next
    case (InsertAt k v after)
    then have x: "listIndex h l k = Some (map_option (nth ps) (al_index (length vs) k))" using al_index_links[OF i] ok by simp
    show ?thesis
    proof (cases "al_index (length vs) k")
      case None
      then show ?thesis using x InsertAt m assms(1) by simp
    next
      case (Some j)
      show ?thesis
      proof (cases "z h")
        case None
        then show ?thesis using x Some InsertAt m by (simp add: listInsertNode_def)
      next
        case (Some b)
        then show ?thesis using x \<open>al_index (length vs) k = Some j\<close> InsertAt m al_insert[OF a i _ Some, of k j g v after] by auto
      qed
    qed
  next
    case (DelAt k)
    then have x: "listIndex h l k = Some (map_option (nth ps) (al_index (length vs) k))" using al_index_links[OF i] ok by simp
    show ?thesis
    proof (cases "al_index (length vs) k")
      case None
      then show ?thesis using x DelAt m assms(1) by simp
    next
      case (Some j)
      then show ?thesis using x DelAt m al_delete[OF a i Some, of g] by auto
    qed
  next
    case RotateTailToHead
    then show ?thesis using m al_rotate(1)[OF a i, of g] by auto
  next
    case RotateHeadToTail
    then show ?thesis using m al_rotate(2)[OF a i, of g] by auto
  next
    case (Join ws)
    then show ?thesis using m al_join[OF a i, of ws g] by simp
  qed
qed

definition al_rep :: "'v alloc \<Rightarrow> 'v al_state \<Rightarrow> 'v list \<Rightarrow> bool" where
  "al_rep z m vs \<longleftrightarrow> fst (fst m) = z \<and> al_holds m vs"

lemma al_step_alloc: "al_step c m = Some (Some m') \<Longrightarrow> fst m' = fst m"
  by (cases "(c, m)" rule: al_step.cases) (auto split: option.splits bind_splits)

lemma al_rep_step:
  assumes "al_rep z m vs" "al_cmd_ok c"
  shows "(\<exists>m'. al_step c m = Some (Some m') \<and> al_rep z m' (al_edit c vs)) \<or> al_step c m = Some None \<and> al_refused m c"
  using assms al_step_cmd[of m vs c] al_step_alloc[of c m] unfolding al_rep_def by metis

interpretation alstore: cmd_store "al_rep z" al_step al_edit al_cmd_ok al_refused for z
  by unfold_locales (rule al_rep_step)

section \<open>Properties\<close>

text \<open>The loop of a client: \<open>n\<close> calls of \<open>listNext\<close>, with a \<open>listDelNode\<close> of the node just returned where \<open>del\<close> says so. The result has
  the pointers returned, the final heap and list, and the values freed.\<close>

fun iter_run :: "(nat \<Rightarrow> bool) \<Rightarrow> 'v nodes \<Rightarrow> 'v adlist \<Rightarrow> listIter \<Rightarrow> nat \<Rightarrow> (lptr list \<times> 'v nodes \<times> 'v adlist \<times> 'v list) option" where
  "iter_run del h l it 0 = Some ([], h, l, [])"
| "iter_run del h l it (Suc n) = do {
     (p, it) \<leftarrow> listNext h it;
     (h, l, out) \<leftarrow> (case p of Some a \<Rightarrow> (if del a then listDelNode h l a else Some (h, l, [])) | None \<Rightarrow> Some (h, l, []));
     (ps, h, l, out') \<leftarrow> iter_run del h l it n;
     Some (p # ps, h, l, out @ out') }"

definition vals_where :: "(nat \<Rightarrow> bool) \<Rightarrow> nat list \<Rightarrow> 'v list \<Rightarrow> 'v list" where
  "vals_where P ps vs = map snd (filter (\<lambda>(p, v). P p) (zip ps vs))"

lemma vals_where_simps [simp]:
  "vals_where P [] [] = []" "vals_where P (p # ps) (v # vs) = (if P p then v # vals_where P ps vs else vals_where P ps vs)"
  "length ps = length vs \<Longrightarrow> vals_where P (ps @ [p]) (vs @ [v]) = vals_where P ps vs @ (if P p then [v] else [])"
  by (simp_all add: vals_where_def)

text \<open>In one step the iterator has already moved on when the node is deleted.\<close>

lemma iter_step_head:
  assumes "links h l (xs @ y # ys) (us @ v # ws)" "length us = length xs"
  obtains h1 l1 where "\<And>n. iter_run del h l \<lparr>iter_next = Some y, iter_direction = AL_START_HEAD\<rparr> (Suc n) =
      do { (ps, h, l, out') \<leftarrow> iter_run del h1 l1 \<lparr>iter_next = fst_of ys None, iter_direction = AL_START_HEAD\<rparr> n;
           Some (Some y # ps, h, l, (if del y \<and> frees l1 then [v] else []) @ out') }"
    "links h1 l1 (if del y then xs @ ys else xs @ y # ys) (if del y then us @ ws else us @ v # ws)" "frees l1 = frees l"
proof -
  obtain us' v' ws' where c: "us @ v # ws = us' @ v' # ws'" "length us' = length xs" "h y = Some \<lparr>prev = lst_of None xs, nxt = fst_of ys None, val = v'\<rparr>"
    using links_split[OF assms(1)] by metis
  have n: "listNext h \<lparr>iter_next = Some y, iter_direction = AL_START_HEAD\<rparr> = Some (Some y, \<lparr>iter_next = fst_of ys None, iter_direction = AL_START_HEAD\<rparr>)"
    using c(3) by (simp add: listNext_def)
  show thesis
  proof (cases "del y")
    case True
    obtain h1 l1 where d: "listDelNode h l y = Some (h1, l1, if frees l then [v] else [])" "links h1 l1 (xs @ ys) (us @ ws)" "kept (set (xs @ y # ys)) h l h1 l1"
      using del_node[OF assms] by blast
    then show thesis using True n by (intro that[of h1 l1]) (simp_all add: kept_def)
  next
    case False
    then show thesis using assms n by (intro that[of h l]) simp_all
  qed
qed

lemma iter_step_tail:
  assumes "links h l (ys @ y # xs) (ws @ v # us)" "length ws = length ys"
  obtains h1 l1 where "\<And>n. iter_run del h l \<lparr>iter_next = Some y, iter_direction = AL_START_TAIL\<rparr> (Suc n) =
      do { (ps, h, l, out') \<leftarrow> iter_run del h1 l1 \<lparr>iter_next = lst_of None ys, iter_direction = AL_START_TAIL\<rparr> n;
           Some (Some y # ps, h, l, (if del y \<and> frees l1 then [v] else []) @ out') }"
    "links h1 l1 (if del y then ys @ xs else ys @ y # xs) (if del y then ws @ us else ws @ v # us)" "frees l1 = frees l"
proof -
  obtain us' v' ws' where c: "ws @ v # us = us' @ v' # ws'" "length us' = length ys" "h y = Some \<lparr>prev = lst_of None ys, nxt = fst_of xs None, val = v'\<rparr>"
    using links_split[OF assms(1)] by metis
  have n: "listNext h \<lparr>iter_next = Some y, iter_direction = AL_START_TAIL\<rparr> = Some (Some y, \<lparr>iter_next = lst_of None ys, iter_direction = AL_START_TAIL\<rparr>)"
    using c(3) by (simp add: listNext_def)
  show thesis
  proof (cases "del y")
    case True
    obtain h1 l1 where d: "listDelNode h l y = Some (h1, l1, if frees l then [v] else [])" "links h1 l1 (ys @ xs) (ws @ us)" "kept (set (ys @ y # xs)) h l h1 l1"
      using del_node[OF assms] by blast
    then show thesis using True n by (intro that[of h1 l1]) (simp_all add: kept_def)
  next
    case False
    then show thesis using assms n by (intro that[of h l]) simp_all
  qed
qed

lemma iter_head:
  "links h l (xs @ ys) (us @ ws) \<Longrightarrow> length us = length xs \<Longrightarrow>
   \<exists>h' l'. iter_run del h l \<lparr>iter_next = fst_of ys None, iter_direction = AL_START_HEAD\<rparr> (Suc (length ys)) =
        Some (map Some ys @ [None], h', l', if frees l then vals_where del ys ws else []) \<and>
      links h' l' (xs @ filter (\<lambda>p. \<not> del p) ys) (us @ vals_where (\<lambda>p. \<not> del p) ys ws)"
proof (induction ys arbitrary: h l xs us ws)
  case Nil
  then have "ws = []" using links_length[OF Nil(1)] by simp
  then show ?case using Nil by (simp add: listNext_def)
next
  case (Cons y ys)
  obtain v ws' where w: "ws = v # ws'" using links_length[OF Cons.prems(1)] Cons.prems(2) by (cases ws) auto
  from iter_step_head[of h l xs y ys us v ws' del] Cons.prems w obtain h1 l1 where
    s: "iter_run del h l \<lparr>iter_next = Some y, iter_direction = AL_START_HEAD\<rparr> (Suc (Suc (length ys))) =
      do { (ps, h, l, out') \<leftarrow> iter_run del h1 l1 \<lparr>iter_next = fst_of ys None, iter_direction = AL_START_HEAD\<rparr> (Suc (length ys));
           Some (Some y # ps, h, l, (if del y \<and> frees l1 then [v] else []) @ out') }"
    and i: "links h1 l1 (if del y then xs @ ys else xs @ y # ys) (if del y then us @ ws' else us @ v # ws')" and f: "frees l1 = frees l"
    by metis
  let ?xs = "if del y then xs else xs @ [y]" and ?us = "if del y then us else us @ [v]"
  have "links h1 l1 (?xs @ ys) (?us @ ws')" "length ?us = length ?xs" using i Cons.prems(2) by (auto split: if_splits)
  from Cons.IH[OF this] obtain h' l' where r: "iter_run del h1 l1 \<lparr>iter_next = fst_of ys None, iter_direction = AL_START_HEAD\<rparr> (Suc (length ys)) =
        Some (map Some ys @ [None], h', l', if frees l then vals_where del ys ws' else [])"
      "links h' l' (?xs @ filter (\<lambda>p. \<not> del p) ys) (?us @ vals_where (\<lambda>p. \<not> del p) ys ws')"
    unfolding f by blast
  have "links h' l' (xs @ filter (\<lambda>p. \<not> del p) (y # ys)) (us @ vals_where (\<lambda>p. \<not> del p) (y # ys) ws)"
    using r(2) w by (auto split: if_splits)
  then show ?case using s r(1) f w by (intro exI[of _ h'] exI[of _ l']) (simp del: iter_run.simps)
qed

lemma iter_tail:
  "links h l (ys @ xs) (ws @ us) \<Longrightarrow> length us = length xs \<Longrightarrow>
   \<exists>h' l'. iter_run del h l \<lparr>iter_next = lst_of None ys, iter_direction = AL_START_TAIL\<rparr> (Suc (length ys)) =
        Some (map Some (rev ys) @ [None], h', l', if frees l then rev (vals_where del ys ws) else []) \<and>
      links h' l' (filter (\<lambda>p. \<not> del p) ys @ xs) (vals_where (\<lambda>p. \<not> del p) ys ws @ us)"
proof (induction ys arbitrary: h l xs us ws rule: rev_induct)
  case Nil
  then have "ws = []" using links_length[OF Nil(1)] by simp
  then show ?case using Nil by (simp add: listNext_def)
next
  case (snoc y ys)
  obtain v ws' where w: "ws = ws' @ [v]" using links_length[OF snoc.prems(1)] snoc.prems(2) by (cases ws rule: rev_cases) auto
  have n: "length ws' = length ys" using links_length[OF snoc.prems(1)] snoc.prems(2) w by simp
  from iter_step_tail[of h l ys y xs ws' v us del] snoc.prems w n obtain h1 l1 where
    s: "iter_run del h l \<lparr>iter_next = Some y, iter_direction = AL_START_TAIL\<rparr> (Suc (Suc (length ys))) =
      do { (ps, h, l, out') \<leftarrow> iter_run del h1 l1 \<lparr>iter_next = lst_of None ys, iter_direction = AL_START_TAIL\<rparr> (Suc (length ys));
           Some (Some y # ps, h, l, (if del y \<and> frees l1 then [v] else []) @ out') }"
    and i: "links h1 l1 (if del y then ys @ xs else ys @ y # xs) (if del y then ws' @ us else ws' @ v # us)" and f: "frees l1 = frees l"
    by (simp only: append_assoc append_Cons append_Nil) metis
  let ?xs = "if del y then xs else y # xs" and ?us = "if del y then us else v # us"
  have "links h1 l1 (ys @ ?xs) (ws' @ ?us)" "length ?us = length ?xs" using i snoc.prems(2) by (auto split: if_splits)
  from snoc.IH[OF this] obtain h' l' where r: "iter_run del h1 l1 \<lparr>iter_next = lst_of None ys, iter_direction = AL_START_TAIL\<rparr> (Suc (length ys)) =
        Some (map Some (rev ys) @ [None], h', l', if frees l then rev (vals_where del ys ws') else [])"
      "links h' l' (filter (\<lambda>p. \<not> del p) ys @ ?xs) (vals_where (\<lambda>p. \<not> del p) ys ws' @ ?us)"
    unfolding f by blast
  have "links h' l' (filter (\<lambda>p. \<not> del p) (ys @ [y]) @ xs) (vals_where (\<lambda>p. \<not> del p) (ys @ [y]) ws @ us)"
    using r(2) w n by (auto split: if_splits)
  then show ?case using s r(1) f w n by (intro exI[of _ h'] exI[of _ l']) (simp del: iter_run.simps)
qed

text \<open>A first-fit allocator for the examples, and the list of the values 5, 6, 7.\<close>

definition first_fit :: "'v alloc" where
  "first_fit h = (if card (dom h) < 100 then find (\<lambda>a. h a = None) [0..<200] else None)"

lemma first_fit_ok: "alloc_ok first_fit"
  by (auto simp: alloc_ok_def first_fit_def find_Some_iff split: if_splits)

definition al_demo :: "nat nodes" where
  "al_demo = [0 \<mapsto> \<lparr>prev = None, nxt = Some 1, val = 5\<rparr>, 1 \<mapsto> \<lparr>prev = Some 0, nxt = Some 2, val = 6\<rparr>, 2 \<mapsto> \<lparr>prev = Some 1, nxt = None, val = 7\<rparr>]"

definition al_demo_list :: "nat adlist" where
  "al_demo_list = empty_list\<lparr>head := Some 0, tail := Some 2, len := 3, dup := Some (\<lambda>v. if v = 6 then None else Some (v + 10)), frees := True\<rparr>"

lemma al_demo_links: "links al_demo al_demo_list [0, 1, 2] [5, 6, 7]"
  by (simp add: links_def al_demo_def al_demo_list_def empty_list_def)

text \<open>C10: Starting from a list made by \<open>listCreate\<close>, any sequence of insertions at the head, at the tail, before and after indexed nodes,
  deletions, rotations and concatenations (\<open>listJoin\<close> with a list built by additions) runs without a null or dangling access; all links in both
  directions, the head, the tail and the length stay consistent and the values are those that the same edits give on a list. A run stops early only
  at a command for which the allocator returns \<open>NULL\<close> in the state that the commands before it lead to.\<close>

theorem al_commands_refine:
  assumes "alloc_ok zmalloc" "list_all al_cmd_ok cmds" "listCreate hzmalloc hs = Some (c, hs')"
  shows "\<exists>l. hs' c = Some l \<and>
    ((\<exists>m. run_cmds al_step cmds ((zmalloc, g), Map.empty, l) = Some (Some m) \<and> al_holds m (fold al_edit cmds [])) \<or>
     run_cmds al_step cmds ((zmalloc, g), Map.empty, l) = Some None \<and>
       (\<exists>pre cmd post m. cmds = pre @ cmd # post \<and> run_cmds al_step pre ((zmalloc, g), Map.empty, l) = Some (Some m) \<and>
          al_holds m (fold al_edit pre []) \<and> al_refused m cmd))"
proof -
  have l: "hs' c = Some empty_list" using assms(3) by (auto simp: listCreate_def split: option.splits)
  have "al_rep zmalloc ((zmalloc, g), Map.empty, empty_list) []"
    using assms(1) by (auto simp: al_rep_def links_def empty_list_def intro!: exI[of _ "[]"])
  from alstore.run_cmd_at[OF this assms(2)] show ?thesis unfolding al_rep_def using l by blast
qed

text \<open>C18: \<open>listDup\<close> terminates. Either it returns a new header, with the methods of the original, of a well-linked list of fresh nodes that holds the
  duplicated values, all else unchanged; or it returns \<open>NULL\<close> with the nodes and the headers exactly as before, and that only when the allocator has no
  header, or when after copying some values the \<open>dup\<close> method fails on the next one or the allocator has no node for it. Then the values given to the
  \<open>free\<close> method are exactly the copies made until then, so that none is lost.\<close>

theorem al_dup_atomic:
  assumes "halloc_ok hzmalloc" "alloc_ok zmalloc" "hs orig = Some l" "links h l ps vs"
  shows "(\<exists>c h' cl qs. listDup hzmalloc zmalloc g h hs orig = Some (h', hs(c \<mapsto> cl), Some c, []) \<and> hs c = None \<and>
       copied h h' cl qs (map (the \<circ> dup_val (dup l)) vs) \<and> same_methods cl l \<and> (\<forall>v\<in>set vs. dup_val (dup l) v \<noteq> None)) \<or>
    (\<exists>out. listDup hzmalloc zmalloc g h hs orig = Some (h, hs, None, out) \<and> (hzmalloc hs = None \<and> out = [] \<or> dup_fails zmalloc h l [] vs out))"
  by (rule dup_links[of hzmalloc zmalloc hs orig l h ps vs g, OF assms])

text \<open>C34: An iterator started at either end, also with \<open>listRewind\<close> and \<open>listRewindTail\<close>, returns every node of the list, once and in order, and then
  \<open>NULL\<close>, also when the client deletes any of the nodes it gets right after it got them; what is left is the list of the other nodes, with their
  values, and the values of the deleted nodes were freed in the order of the visit.\<close>

theorem al_iterator_visits:
  assumes "links h l ps vs"
  shows "listRewind l = listInitIterator l AL_START_HEAD \<and> listRewindTail l = listInitIterator l AL_START_TAIL \<and>
    (\<exists>h' l'. iter_run del h l (listInitIterator l d) (Suc (length ps)) =
        Some (map Some (if d = AL_START_HEAD then ps else rev ps) @ [None], h', l',
          if \<not> frees l then [] else if d = AL_START_HEAD then vals_where del ps vs else rev (vals_where del ps vs)) \<and>
      links h' l' (filter (\<lambda>p. \<not> del p) ps) (vals_where (\<lambda>p. \<not> del p) ps vs))"
proof -
  have e: "head l = fst_of ps None" "tail l = lst_of None ps" using assms by (auto simp: links_def)
  show ?thesis
  proof (cases d)
    case AL_START_HEAD
    then show ?thesis using iter_head[of h l "[]" ps "[]" vs del] assms e by (auto simp: listInitIterator_def listRewind_def listRewindTail_def)
  next
    case AL_START_TAIL
    then show ?thesis using iter_tail[of h l ps "[]" vs "[]" del] assms e by (auto simp: listInitIterator_def listRewind_def listRewindTail_def)
  qed
qed

theorem al_iterator_visits_witness:
  "\<exists>h l. iter_run (\<lambda>p. p = 1) al_demo al_demo_list (listInitIterator al_demo_list AL_START_TAIL) 4 = Some ([Some 2, Some 1, Some 0, None], h, l, [6]) \<and>
     links h l [0, 2] [5, 7]"
proof -
  have f: "frees al_demo_list" "vals_where (\<lambda>p. p = 1) [0, 1, 2] [5, 6, 7 :: nat] = [6]" "vals_where (\<lambda>p. p \<noteq> 1) [0, 1, 2] [5, 6, 7 :: nat] = [5, 7]"
    by (simp_all add: al_demo_list_def)
  have "Suc (length [0, 1, 2 :: nat]) = 4" "filter (\<lambda>p. p \<noteq> 1) [0, 1, 2 :: nat] = [0, 2]" by simp_all
  then show ?thesis using al_iterator_visits[OF al_demo_links, of "\<lambda>p. p = 1" AL_START_TAIL] f by (auto simp: numeral_eq_Suc simp del: iter_run.simps)
qed

text \<open>The method \<open>dup\<close> of the example fails on 6, after it copied 5 to 15.\<close>

theorem al_dup_atomic_witness:
  "\<exists>out. listDup (\<lambda>hs. if hs 1 = None then Some 1 else None) first_fit (None, None) al_demo [0 \<mapsto> al_demo_list] 0 = Some (al_demo, [0 \<mapsto> al_demo_list], None, out) \<and>
     dup_fails first_fit al_demo al_demo_list [] [5, 6, 7] out"
proof -
  have f: "dup_val (dup al_demo_list) 6 = None" by (simp add: dup_val_def al_demo_list_def)
  have z: "halloc_ok (\<lambda>hs :: nat lists. if hs 1 = None then Some 1 else None)" by (auto simp: halloc_ok_def)
  have l: "[0 \<mapsto> al_demo_list] (0 :: nat) = Some al_demo_list" by simp
  have n: "\<not> (\<forall>v\<in>set [5, 6, 7]. dup_val (dup al_demo_list) v \<noteq> None)" using f by simp
  have s: "(if [0 \<mapsto> al_demo_list] (1 :: nat) = None then Some 1 else None) \<noteq> (None :: nat option)" by simp
  show ?thesis using al_dup_atomic[where g = "(None, None)" and orig = 0 and hs = "[0 \<mapsto> al_demo_list]", OF z first_fit_ok l al_demo_links] n s by blast
qed

theorem al_commands_refine_witness:
  "\<exists>l m. run_cmds al_step [AddTail 5, AddHead 6, AddTail 7, RotateHeadToTail, InsertAt (- 1) 8 False, DelAt 0, Join [9, 4]] ((first_fit, (None, None)), Map.empty, l) = Some (Some m)
     \<and> al_holds m [7 :: nat, 8, 6, 9, 4]"
proof -
  let ?c = "[AddTail 5, AddHead 6, AddTail 7, RotateHeadToTail, InsertAt (- 1) 8 False, DelAt 0, Join [9, 4]] :: nat al_cmd list"
  have e: "fold al_edit ?c [] = [7, 8, 6, 9, 4]" by (simp add: al_index_def)
  have ok: "list_all al_cmd_ok ?c" by simp
  have cr: "listCreate (\<lambda>_. Some 0) Map.empty = Some (0, [0 \<mapsto> empty_list])" by (simp add: listCreate_def)
  have "run_cmds al_step ?c ((first_fit, (None, None)), Map.empty, empty_list) \<noteq> Some None"
    by (simp add: listAddNodeTail_def listAddNodeHead_def empty_list_def first_fit_def listLinkNodeTail_def listLinkNodeHead_def new_node_def listRotateHeadToTail_def upt_rec
        word_le_nat_alt listIndex_def listInsertNode_def listDelNode_def listUnlinkNode_def zfree_def listJoin_def)
  moreover obtain l where "[0 \<mapsto> empty_list] (0 :: nat) = Some l"
    "(\<exists>m. run_cmds al_step ?c ((first_fit, (None, None)), Map.empty, l) = Some (Some m) \<and> al_holds m (fold al_edit ?c [])) \<or>
      run_cmds al_step ?c ((first_fit, (None, None)), Map.empty, l) = Some None"
    using al_commands_refine[OF first_fit_ok ok cr, of "(None, None)"] by blast
  ultimately show ?thesis unfolding e fun_upd_same by blast
qed

end
