(* ===== verification/Digest.thy ===== *)
theory Digest
  imports Prelude
begin

text \<open>
  The checksums, hashes and random numbers of \<open>src/redislib-src/kernel\<close>: the table-driven CRC of \<open>crc16.c\<close>, the streaming
  SHA-256 of \<open>sha256.c\<close>, the two SipHash functions of \<open>siphash.c\<close> and the 64-bit Mersenne twister of \<open>mt19937-64.c\<close>, each
  beside the definition it has to agree with. Buffers are lists of bytes and every access checks its bounds.
\<close>

section \<open>CRC16\<close>

definition crc16tab :: "u16 list" where
  "crc16tab = [
     0x0000, 0x1021, 0x2042, 0x3063, 0x4084, 0x50a5, 0x60c6, 0x70e7, 0x8108, 0x9129, 0xa14a, 0xb16b, 0xc18c, 0xd1ad, 0xe1ce, 0xf1ef,
     0x1231, 0x0210, 0x3273, 0x2252, 0x52b5, 0x4294, 0x72f7, 0x62d6, 0x9339, 0x8318, 0xb37b, 0xa35a, 0xd3bd, 0xc39c, 0xf3ff, 0xe3de,
     0x2462, 0x3443, 0x0420, 0x1401, 0x64e6, 0x74c7, 0x44a4, 0x5485, 0xa56a, 0xb54b, 0x8528, 0x9509, 0xe5ee, 0xf5cf, 0xc5ac, 0xd58d,
     0x3653, 0x2672, 0x1611, 0x0630, 0x76d7, 0x66f6, 0x5695, 0x46b4, 0xb75b, 0xa77a, 0x9719, 0x8738, 0xf7df, 0xe7fe, 0xd79d, 0xc7bc,
     0x48c4, 0x58e5, 0x6886, 0x78a7, 0x0840, 0x1861, 0x2802, 0x3823, 0xc9cc, 0xd9ed, 0xe98e, 0xf9af, 0x8948, 0x9969, 0xa90a, 0xb92b,
     0x5af5, 0x4ad4, 0x7ab7, 0x6a96, 0x1a71, 0x0a50, 0x3a33, 0x2a12, 0xdbfd, 0xcbdc, 0xfbbf, 0xeb9e, 0x9b79, 0x8b58, 0xbb3b, 0xab1a,
     0x6ca6, 0x7c87, 0x4ce4, 0x5cc5, 0x2c22, 0x3c03, 0x0c60, 0x1c41, 0xedae, 0xfd8f, 0xcdec, 0xddcd, 0xad2a, 0xbd0b, 0x8d68, 0x9d49,
     0x7e97, 0x6eb6, 0x5ed5, 0x4ef4, 0x3e13, 0x2e32, 0x1e51, 0x0e70, 0xff9f, 0xefbe, 0xdfdd, 0xcffc, 0xbf1b, 0xaf3a, 0x9f59, 0x8f78,
     0x9188, 0x81a9, 0xb1ca, 0xa1eb, 0xd10c, 0xc12d, 0xf14e, 0xe16f, 0x1080, 0x00a1, 0x30c2, 0x20e3, 0x5004, 0x4025, 0x7046, 0x6067,
     0x83b9, 0x9398, 0xa3fb, 0xb3da, 0xc33d, 0xd31c, 0xe37f, 0xf35e, 0x02b1, 0x1290, 0x22f3, 0x32d2, 0x4235, 0x5214, 0x6277, 0x7256,
     0xb5ea, 0xa5cb, 0x95a8, 0x8589, 0xf56e, 0xe54f, 0xd52c, 0xc50d, 0x34e2, 0x24c3, 0x14a0, 0x0481, 0x7466, 0x6447, 0x5424, 0x4405,
     0xa7db, 0xb7fa, 0x8799, 0x97b8, 0xe75f, 0xf77e, 0xc71d, 0xd73c, 0x26d3, 0x36f2, 0x0691, 0x16b0, 0x6657, 0x7676, 0x4615, 0x5634,
     0xd94c, 0xc96d, 0xf90e, 0xe92f, 0x99c8, 0x89e9, 0xb98a, 0xa9ab, 0x5844, 0x4865, 0x7806, 0x6827, 0x18c0, 0x08e1, 0x3882, 0x28a3,
     0xcb7d, 0xdb5c, 0xeb3f, 0xfb1e, 0x8bf9, 0x9bd8, 0xabbb, 0xbb9a, 0x4a75, 0x5a54, 0x6a37, 0x7a16, 0x0af1, 0x1ad0, 0x2ab3, 0x3a92,
     0xfd2e, 0xed0f, 0xdd6c, 0xcd4d, 0xbdaa, 0xad8b, 0x9de8, 0x8dc9, 0x7c26, 0x6c07, 0x5c64, 0x4c45, 0x3ca2, 0x2c83, 0x1ce0, 0x0cc1,
     0xef1f, 0xff3e, 0xcf5d, 0xdf7c, 0xaf9b, 0xbfba, 0x8fd9, 0x9ff8, 0x6e17, 0x7e36, 0x4e55, 0x5e74, 0x2e93, 0x3eb2, 0x0ed1, 0x1ef0]"

fun crc16_loop :: "u16 \<Rightarrow> mem \<Rightarrow> u16" where
  "crc16_loop crc [] = crc"
| "crc16_loop crc (b # bs) = crc16_loop (push_bit 8 crc XOR crc16tab ! unat ((drop_bit 8 crc XOR ucast b) AND 0x00FF)) bs"

definition crc16 :: "mem \<Rightarrow> u16" where "crc16 buf = crc16_loop 0 buf"

section \<open>SHA-256\<close>

definition ROTRIGHT :: "u32 \<Rightarrow> nat \<Rightarrow> u32" where "ROTRIGHT a b = drop_bit b a OR push_bit (32 - b) a"
definition CH :: "u32 \<Rightarrow> u32 \<Rightarrow> u32 \<Rightarrow> u32" where "CH x y z = (x AND y) XOR (NOT x AND z)"
definition MAJ :: "u32 \<Rightarrow> u32 \<Rightarrow> u32 \<Rightarrow> u32" where "MAJ x y z = (x AND y) XOR (x AND z) XOR (y AND z)"
definition EP0 :: "u32 \<Rightarrow> u32" where "EP0 x = ROTRIGHT x 2 XOR ROTRIGHT x 13 XOR ROTRIGHT x 22"
definition EP1 :: "u32 \<Rightarrow> u32" where "EP1 x = ROTRIGHT x 6 XOR ROTRIGHT x 11 XOR ROTRIGHT x 25"
definition SIG0 :: "u32 \<Rightarrow> u32" where "SIG0 x = ROTRIGHT x 7 XOR ROTRIGHT x 18 XOR drop_bit 3 x"
definition SIG1 :: "u32 \<Rightarrow> u32" where "SIG1 x = ROTRIGHT x 17 XOR ROTRIGHT x 19 XOR drop_bit 10 x"

text \<open>The round constants, four in a row.\<close>

definition sha256_k :: "u32 list" where
  "sha256_k = concat [
     [0x428A2F98, 0x71374491, 0xB5C0FBCF, 0xE9B5DBA5],
     [0x3956C25B, 0x59F111F1, 0x923F82A4, 0xAB1C5ED5],
     [0xD807AA98, 0x12835B01, 0x243185BE, 0x550C7DC3],
     [0x72BE5D74, 0x80DEB1FE, 0x9BDC06A7, 0xC19BF174],
     [0xE49B69C1, 0xEFBE4786, 0x0FC19DC6, 0x240CA1CC],
     [0x2DE92C6F, 0x4A7484AA, 0x5CB0A9DC, 0x76F988DA],
     [0x983E5152, 0xA831C66D, 0xB00327C8, 0xBF597FC7],
     [0xC6E00BF3, 0xD5A79147, 0x06CA6351, 0x14292967],
     [0x27B70A85, 0x2E1B2138, 0x4D2C6DFC, 0x53380D13],
     [0x650A7354, 0x766A0ABB, 0x81C2C92E, 0x92722C85],
     [0xA2BFE8A1, 0xA81A664B, 0xC24B8B70, 0xC76C51A3],
     [0xD192E819, 0xD6990624, 0xF40E3585, 0x106AA070],
     [0x19A4C116, 0x1E376C08, 0x2748774C, 0x34B0BCB5],
     [0x391C0CB3, 0x4ED8AA4A, 0x5B9CCA4F, 0x682E6FF3],
     [0x748F82EE, 0x78A5636F, 0x84C87814, 0x8CC70208],
     [0x90BEFFFA, 0xA4506CEB, 0xBEF9A3F7, 0xC67178F2]]"

record SHA256_CTX =
  data :: mem
  datalen :: u32
  bitlen :: u64
  state :: "u32 list"

text \<open>The first 16 words of the schedule, big-endian.\<close>

fun sha256_words :: "mem \<Rightarrow> nat \<Rightarrow> nat \<Rightarrow> u32 list option" where
  "sha256_words d j 0 = Some []"
| "sha256_words d j (Suc i) = do {
     a \<leftarrow> getb d j; b \<leftarrow> getb d (j + 1); c \<leftarrow> getb d (j + 2); e \<leftarrow> getb d (j + 3);
     ws \<leftarrow> sha256_words d (j + 4) i;
     Some ((push_bit 24 (ucast a) OR push_bit 16 (ucast b) OR push_bit 8 (ucast c) OR ucast e) # ws) }"

text \<open>\<open>for ( ; i < 64; ++i)\<close>, with \<open>n\<close> words to go.\<close>

fun sha256_extend :: "u32 list \<Rightarrow> nat \<Rightarrow> u32 list" where
  "sha256_extend m 0 = m"
| "sha256_extend m (Suc n) = (let i = length m in
     sha256_extend (m @ [SIG1 (m ! (i - 2)) + m ! (i - 7) + SIG0 (m ! (i - 15)) + m ! (i - 16)]) n)"

type_synonym sha256_vars = "u32 \<times> u32 \<times> u32 \<times> u32 \<times> u32 \<times> u32 \<times> u32 \<times> u32"

fun sha256_round :: "u32 \<times> u32 \<Rightarrow> sha256_vars \<Rightarrow> sha256_vars" where
  "sha256_round (ki, mi) (a, b, c, d, e, f, g, h) =
     (let t1 = h + EP1 e + CH e f g + ki + mi; t2 = EP0 a + MAJ a b c in (t1 + t2, a, b, c, d + t1, e, f, g))"

fun sha256_add :: "u32 list \<Rightarrow> sha256_vars \<Rightarrow> u32 list option" where
  "sha256_add [s0, s1, s2, s3, s4, s5, s6, s7] (a, b, c, d, e, f, g, h) =
     Some [s0 + a, s1 + b, s2 + c, s3 + d, s4 + e, s5 + f, s6 + g, s7 + h]"
| "sha256_add _ _ = None"

fun sha256_load :: "u32 list \<Rightarrow> sha256_vars option" where
  "sha256_load [a, b, c, d, e, f, g, h] = Some (a, b, c, d, e, f, g, h)"
| "sha256_load _ = None"

definition sha256_transform :: "SHA256_CTX \<Rightarrow> mem \<Rightarrow> SHA256_CTX option" where
  "sha256_transform ctx d = do {
     ws \<leftarrow> sha256_words d 0 16;
     let m = sha256_extend ws 48;
     v \<leftarrow> sha256_load (state ctx);
     st \<leftarrow> sha256_add (state ctx) (fold sha256_round (zip sha256_k m) v);
     Some (ctx\<lparr>state := st\<rparr>) }"

text \<open>The bytes of the buffer are not initialised.\<close>

definition sha256_init :: "mem \<Rightarrow> SHA256_CTX" where
  "sha256_init buf = \<lparr>data = buf, datalen = 0, bitlen = 0,
     state = [0x6a09e667, 0xbb67ae85, 0x3c6ef372, 0xa54ff53a, 0x510e527f, 0x9b05688c, 0x1f83d9ab, 0x5be0cd19]\<rparr>"

definition sha256_byte :: "SHA256_CTX \<Rightarrow> byte \<Rightarrow> SHA256_CTX option" where
  "sha256_byte ctx b = do {
     d \<leftarrow> setb (data ctx) (unat (datalen ctx)) b;
     let ctx = ctx\<lparr>data := d, datalen := datalen ctx + 1\<rparr>;
     if datalen ctx = 64 then do {
       ctx \<leftarrow> sha256_transform ctx (data ctx);
       Some (ctx\<lparr>bitlen := bitlen ctx + 512, datalen := 0\<rparr>) }
     else Some ctx }"

text \<open>The counter has 32 bits, the length 64: from a length of \<open>2 ^ 32\<close> on the loop does not end.\<close>

partial_function (option) sha256_update_loop :: "mem \<Rightarrow> nat \<Rightarrow> u32 \<Rightarrow> SHA256_CTX \<Rightarrow> SHA256_CTX option" where
  "sha256_update_loop d len i ctx =
     (if unat i < len then do {
        b \<leftarrow> getb d (unat i);
        ctx \<leftarrow> sha256_byte ctx b;
        sha256_update_loop d len (i + 1) ctx }
      else Some ctx)"

definition sha256_update :: "SHA256_CTX \<Rightarrow> mem \<Rightarrow> SHA256_CTX option" where
  "sha256_update ctx d = sha256_update_loop d (length d) 0 ctx"

text \<open>\<open>while (i < n) data[i++] = 0x00\<close>.\<close>

function sha256_zeros :: "mem \<Rightarrow> u32 \<Rightarrow> u32 \<Rightarrow> mem option" where
  "sha256_zeros d i n = (if i < n then do { d \<leftarrow> setb d (unat i) 0; sha256_zeros d (i + 1) n } else Some d)"
  by pat_completeness auto
termination
proof (relation "measure (\<lambda>(d, i, n). unat n - unat i)")
  fix d and i n :: u32 and d'
  assume "i < n"
  have "unat n < 2 ^ 32" using unsigned_less[of n] by simp
  with \<open>i < n\<close> have "unat i < unat n" "unat i + 1 < 2 ^ 32" by (simp_all add: word_less_nat_alt)
  then show "((d', i + 1, n), d, i, n) \<in> measure (\<lambda>(d, i, n). unat n - unat i)" by (simp add: unat_word_ariths)
qed simp

definition sha256_final :: "SHA256_CTX \<Rightarrow> mem option" where
  "sha256_final ctx = do {
     let i = datalen ctx;
     ctx \<leftarrow>
       (if datalen ctx < 56 then do {
          d \<leftarrow> setb (data ctx) (unat i) 0x80;
          d \<leftarrow> sha256_zeros d (i + 1) 56;
          Some (ctx\<lparr>data := d\<rparr>) }
        else do {
          d \<leftarrow> setb (data ctx) (unat i) 0x80;
          d \<leftarrow> sha256_zeros d (i + 1) 64;
          ctx \<leftarrow> sha256_transform (ctx\<lparr>data := d\<rparr>) d;
          d \<leftarrow> wr (data ctx) 0 (replicate 56 0);
          Some (ctx\<lparr>data := d\<rparr>) });
     let bl = bitlen ctx + ucast (datalen ctx * 8);
     d \<leftarrow> wr (data ctx) 56 (map (\<lambda>n. ucast (drop_bit n bl)) [56, 48, 40, 32, 24, 16, 8, 0]);
     ctx \<leftarrow> sha256_transform (ctx\<lparr>bitlen := bl, data := d\<rparr>) d;
     Some (concat (map (\<lambda>s. map (\<lambda>i. ucast (drop_bit (24 - i * 8) s AND 0x000000ff)) [0, 1, 2, 3]) (state ctx))) }"

declare sha256_update_loop.simps [code]


section \<open>SipHash-1-2\<close>

definition siptlw :: "int \<Rightarrow> int" where "siptlw c = (if c \<ge> 65 \<and> c \<le> 90 then c + (97 - 65) else c)"

definition ROTL :: "u64 \<Rightarrow> nat \<Rightarrow> u64" where "ROTL x b = push_bit b x OR drop_bit (64 - b) x"

definition U8TO64_LE :: "mem \<Rightarrow> nat \<Rightarrow> u64 option" where
  "U8TO64_LE p o0 = do {
     a \<leftarrow> getb p o0; b \<leftarrow> getb p (o0 + 1); c \<leftarrow> getb p (o0 + 2); d \<leftarrow> getb p (o0 + 3);
     e \<leftarrow> getb p (o0 + 4); f \<leftarrow> getb p (o0 + 5); g \<leftarrow> getb p (o0 + 6); h \<leftarrow> getb p (o0 + 7);
     Some (ucast a OR push_bit 8 (ucast b) OR push_bit 16 (ucast c) OR push_bit 24 (ucast d) OR
       push_bit 32 (ucast e) OR push_bit 40 (ucast f) OR push_bit 48 (ucast g) OR push_bit 56 (ucast h)) }"

definition sip_lower :: "byte \<Rightarrow> u64" where "sip_lower b = word_of_int (siptlw (uint b))"

definition U8TO64_LE_NOCASE :: "mem \<Rightarrow> nat \<Rightarrow> u64 option" where
  "U8TO64_LE_NOCASE p o0 = do {
     a \<leftarrow> getb p o0; b \<leftarrow> getb p (o0 + 1); c \<leftarrow> getb p (o0 + 2); d \<leftarrow> getb p (o0 + 3);
     e \<leftarrow> getb p (o0 + 4); f \<leftarrow> getb p (o0 + 5); g \<leftarrow> getb p (o0 + 6); h \<leftarrow> getb p (o0 + 7);
     Some (sip_lower a OR push_bit 8 (sip_lower b) OR push_bit 16 (sip_lower c) OR push_bit 24 (sip_lower d) OR
       push_bit 32 (sip_lower e) OR push_bit 40 (sip_lower f) OR push_bit 48 (sip_lower g) OR push_bit 56 (sip_lower h)) }"

record sipvars =
  v0 :: u64
  v1 :: u64
  v2 :: u64
  v3 :: u64

definition SIPROUND :: "sipvars \<Rightarrow> sipvars" where
  "SIPROUND v =
     (let v = v\<lparr>v0 := v0 v + v1 v\<rparr>; v = v\<lparr>v1 := ROTL (v1 v) 13\<rparr>; v = v\<lparr>v1 := v1 v XOR v0 v\<rparr>; v = v\<lparr>v0 := ROTL (v0 v) 32\<rparr>;
          v = v\<lparr>v2 := v2 v + v3 v\<rparr>; v = v\<lparr>v3 := ROTL (v3 v) 16\<rparr>; v = v\<lparr>v3 := v3 v XOR v2 v\<rparr>;
          v = v\<lparr>v0 := v0 v + v3 v\<rparr>; v = v\<lparr>v3 := ROTL (v3 v) 21\<rparr>; v = v\<lparr>v3 := v3 v XOR v0 v\<rparr>;
          v = v\<lparr>v2 := v2 v + v1 v\<rparr>; v = v\<lparr>v1 := ROTL (v1 v) 17\<rparr>; v = v\<lparr>v1 := v1 v XOR v2 v\<rparr>
      in v\<lparr>v2 := ROTL (v2 v) 32\<rparr>)"

text \<open>\<open>for (; in != end; in += 8)\<close>, with the number of whole words to go.\<close>

fun siphash_loop :: "(mem \<Rightarrow> nat \<Rightarrow> u64 option) \<Rightarrow> mem \<Rightarrow> nat \<Rightarrow> nat \<Rightarrow> sipvars \<Rightarrow> sipvars option" where
  "siphash_loop load p off 0 v = Some v"
| "siphash_loop load p off (Suc n) v = do {
     m \<leftarrow> load p off;
     let v = v\<lparr>v3 := v3 v XOR m\<rparr>;
     let v = SIPROUND v;
     siphash_loop load p (off + 8) n (v\<lparr>v0 := v0 v XOR m\<rparr>) }"

text \<open>The \<open>switch\<close> over the bytes that are left, falling through from the highest.\<close>

fun siphash_tail :: "(byte \<Rightarrow> u64) \<Rightarrow> mem \<Rightarrow> nat \<Rightarrow> nat \<Rightarrow> u64 \<Rightarrow> u64 option" where
  "siphash_tail up p off 0 b = Some b"
| "siphash_tail up p off (Suc n) b = do { x \<leftarrow> getb p (off + n); siphash_tail up p off n (b OR push_bit (8 * n) (up x)) }"

definition siphash_gen :: "(mem \<Rightarrow> nat \<Rightarrow> u64 option) \<Rightarrow> (byte \<Rightarrow> u64) \<Rightarrow> mem \<Rightarrow> mem \<Rightarrow> u64 option" where
  "siphash_gen load up p k = do {
     let inlen = length p;
     k0 \<leftarrow> U8TO64_LE k 0;
     k1 \<leftarrow> U8TO64_LE k 8;
     let left = inlen mod 8;
     let b = (push_bit 56 (of_nat inlen) :: u64);
     let v = \<lparr>v0 = 0x736f6d6570736575 XOR k0, v1 = 0x646f72616e646f6d XOR k1, v2 = 0x6c7967656e657261 XOR k0, v3 = 0x7465646279746573 XOR k1\<rparr>;
     v \<leftarrow> siphash_loop load p 0 (inlen div 8) v;
     b \<leftarrow> siphash_tail up p (8 * (inlen div 8)) left b;
     let v = SIPROUND (v\<lparr>v3 := v3 v XOR b\<rparr>);
     let v = v\<lparr>v0 := v0 v XOR b, v2 := v2 v XOR 0xff\<rparr>;
     let v = SIPROUND (SIPROUND v);
     Some (v0 v XOR v1 v XOR v2 v XOR v3 v) }"

definition siphash :: "mem \<Rightarrow> mem \<Rightarrow> u64 option" where "siphash p k = siphash_gen U8TO64_LE ucast p k"

definition siphash_nocase :: "mem \<Rightarrow> mem \<Rightarrow> u64 option" where "siphash_nocase p k = siphash_gen U8TO64_LE_NOCASE sip_lower p k"

section \<open>The Mersenne twister\<close>

definition NN :: nat where "NN = 312"
definition MM :: nat where "MM = 156"
definition MATRIX_A :: u64 where "MATRIX_A = 0xB5026F5AA96619E9"
definition UM :: u64 where "UM = 0xFFFFFFFF80000000"
definition LM :: u64 where "LM = 0x7FFFFFFF"

record mtstate =
  mt :: "u64 list"
  mti :: int

text \<open>Accesses to the state vector.\<close>

definition mt_get :: "u64 list \<Rightarrow> nat \<Rightarrow> u64 option" where "mt_get m i = (if i < length m then Some (m ! i) else None)"
definition mt_set :: "u64 list \<Rightarrow> nat \<Rightarrow> u64 \<Rightarrow> u64 list option" where "mt_set m i x = (if i < length m then Some (m[i := x]) else None)"

text \<open>\<open>for (mti=1; mti<NN; mti++)\<close>, with the number of words to go.\<close>

fun init_genrand64_loop :: "u64 list \<Rightarrow> nat \<Rightarrow> nat \<Rightarrow> u64 list option" where
  "init_genrand64_loop m i 0 = Some m"
| "init_genrand64_loop m i (Suc n) = do {
     x \<leftarrow> mt_get m (i - 1);
     m \<leftarrow> mt_set m i (6364136223846793005 * (x XOR drop_bit 62 x) + of_nat i);
     init_genrand64_loop m (i + 1) n }"

definition init_genrand64 :: "mtstate \<Rightarrow> u64 \<Rightarrow> mtstate option" where
  "init_genrand64 s seed = do {
     m \<leftarrow> mt_set (mt s) 0 seed;
     m \<leftarrow> init_genrand64_loop m 1 (NN - 1);
     Some (s\<lparr>mt := m, mti := int NN\<rparr>) }"

definition mag01 :: "u64 \<Rightarrow> u64" where "mag01 b = (if b = 0 then 0 else MATRIX_A)"

text \<open>One word of the next block, from the words \<open>i\<close>, \<open>j\<close> and \<open>l\<close>.\<close>

definition mt_word :: "u64 list \<Rightarrow> nat \<Rightarrow> nat \<Rightarrow> nat \<Rightarrow> u64 list option" where
  "mt_word m i j l = do {
     a \<leftarrow> mt_get m i; b \<leftarrow> mt_get m j; c \<leftarrow> mt_get m l;
     let x = (a AND UM) OR (b AND LM);
     mt_set m i (c XOR drop_bit 1 x XOR mag01 (x AND 1)) }"

fun mt_block1 :: "u64 list \<Rightarrow> nat \<Rightarrow> nat \<Rightarrow> u64 list option" where
  "mt_block1 m i 0 = Some m"
| "mt_block1 m i (Suc n) = do { m \<leftarrow> mt_word m i (i + 1) (i + MM); mt_block1 m (i + 1) n }"

fun mt_block2 :: "u64 list \<Rightarrow> nat \<Rightarrow> nat \<Rightarrow> u64 list option" where
  "mt_block2 m i 0 = Some m"
| "mt_block2 m i (Suc n) = do { m \<leftarrow> mt_word m i (i + 1) (i + MM - NN); mt_block2 m (i + 1) n }"

definition mt_temper :: "u64 \<Rightarrow> u64" where
  "mt_temper x =
     (let x = x XOR (drop_bit 29 x AND 0x5555555555555555); x = x XOR (push_bit 17 x AND 0x71D67FFFEDA60000);
          x = x XOR (push_bit 37 x AND 0xFFF7EEE000000000) in x XOR drop_bit 43 x)"

definition genrand64_int64 :: "mtstate \<Rightarrow> (u64 \<times> mtstate) option" where
  "genrand64_int64 s = do {
     s \<leftarrow>
       (if mti s \<ge> int NN then do {
          s \<leftarrow> (if mti s = int NN + 1 then init_genrand64 s 5489 else Some s);
          m \<leftarrow> mt_block1 (mt s) 0 (NN - MM);
          m \<leftarrow> mt_block2 m (NN - MM) (MM - 1);
          m \<leftarrow> mt_word m (NN - 1) 0 (MM - 1);
          Some (s\<lparr>mt := m, mti := 0\<rparr>) }
        else Some s);
     guard (mti s \<ge> 0);
     x \<leftarrow> mt_get (mt s) (nat (mti s));
     Some (mt_temper x, s\<lparr>mti := mti s + 1\<rparr>) }"

definition genrand64_int63 :: "mtstate \<Rightarrow> (i64 \<times> mtstate) option" where
  "genrand64_int63 s = do { (x, s) \<leftarrow> genrand64_int64 s; Some (drop_bit 1 x, s) }"

text \<open>The two loops of \<open>init_by_array64\<close>; the counters are 64-bit numbers.\<close>

fun init_by_array64_loop1 :: "u64 list \<Rightarrow> u64 list \<Rightarrow> nat \<Rightarrow> nat \<Rightarrow> nat \<Rightarrow> (u64 list \<times> nat) option" where
  "init_by_array64_loop1 key m i j 0 = Some (m, i)"
| "init_by_array64_loop1 key m i j (Suc k) = do {
     x \<leftarrow> mt_get m (i - 1);
     y \<leftarrow> mt_get m i;
     z \<leftarrow> mt_get key j;
     m \<leftarrow> mt_set m i ((y XOR ((x XOR drop_bit 62 x) * 3935559000370003845)) + z + of_nat j);
     let i = i + 1; let j = j + 1;
     (m, i) \<leftarrow> (if i \<ge> NN then do { w \<leftarrow> mt_get m (NN - 1); m \<leftarrow> mt_set m 0 w; Some (m, 1) } else Some (m, i));
     init_by_array64_loop1 key m i (if j \<ge> length key then 0 else j) k }"

fun init_by_array64_loop2 :: "u64 list \<Rightarrow> nat \<Rightarrow> nat \<Rightarrow> u64 list option" where
  "init_by_array64_loop2 m i 0 = Some m"
| "init_by_array64_loop2 m i (Suc k) = do {
     x \<leftarrow> mt_get m (i - 1);
     y \<leftarrow> mt_get m i;
     m \<leftarrow> mt_set m i ((y XOR ((x XOR drop_bit 62 x) * 2862933555777941757)) - of_nat i);
     let i = i + 1;
     (m, i) \<leftarrow> (if i \<ge> NN then do { w \<leftarrow> mt_get m (NN - 1); m \<leftarrow> mt_set m 0 w; Some (m, 1) } else Some (m, i));
     init_by_array64_loop2 m i k }"

definition init_by_array64 :: "mtstate \<Rightarrow> u64 list \<Rightarrow> mtstate option" where
  "init_by_array64 s key = do {
     s \<leftarrow> init_genrand64 s 19650218;
     (m, i) \<leftarrow> init_by_array64_loop1 key (mt s) 1 0 (if NN > length key then NN else length key);
     m \<leftarrow> init_by_array64_loop2 m i (NN - 1);
     m \<leftarrow> mt_set m 0 (push_bit 63 1);
     Some (s\<lparr>mt := m\<rparr>) }"

section \<open>CRC16 is the remainder of the division\<close>

text \<open>The reference: the register is shifted bit by bit and reduced by \<open>x\<^sup>16 + x\<^sup>12 + x\<^sup>5 + 1\<close>.\<close>

definition crc_bit :: "u16 \<Rightarrow> u16" where "crc_bit x = push_bit 1 x XOR (if bit x 15 then 0x1021 else 0)"

definition crc_byte :: "byte \<Rightarrow> u16 \<Rightarrow> u16" where "crc_byte b crc = (crc_bit ^^ 8) (crc XOR push_bit 8 (ucast b))"

lemma crc_bit_xor: "crc_bit (x XOR y) = crc_bit x XOR crc_bit y"
proof -
  have "push_bit 1 (x XOR y) = push_bit 1 x XOR push_bit 1 y" by (rule push_bit_xor)
  then show ?thesis by (auto simp: crc_bit_def bit_xor_iff ac_simps)
qed

lemma crc_bits_xor: "(crc_bit ^^ n) (x XOR y) = (crc_bit ^^ n) x XOR (crc_bit ^^ n) y"
  by (induction n) (simp_all add: crc_bit_xor)

fun crc_bits :: "nat \<Rightarrow> u16 \<Rightarrow> u16" where
  "crc_bits 0 x = x"
| "crc_bits (Suc n) x = crc_bits n (crc_bit x)"

lemma crc_bits_pow: "crc_bits n x = (crc_bit ^^ n) x"
  by (induction n arbitrary: x) (simp_all add: funpow_swap1)

text \<open>The table at a power of two, and what its entries between two powers are.\<close>

definition crc_entry :: "nat \<Rightarrow> u16" where "crc_entry i = (crc_bit ^^ 8) (push_bit 8 (of_nat i))"

definition tab_power :: "nat \<Rightarrow> bool" where "tab_power j \<longleftrightarrow> crc_bits 8 (push_bit (8 + j) 1) = crc16tab ! (2 ^ j)"

definition tab_double :: "nat \<Rightarrow> bool" where
  "tab_double n \<longleftrightarrow> map (\<lambda>x. crc16tab ! n XOR x) (take n crc16tab) = take n (drop n crc16tab)"

lemma tab_power: "list_all tab_power [0, 1, 2, 3, 4, 5, 6, 7]" by code_simp

lemma tab_double: "tab_double 1" "tab_double 2" "tab_double 4" "tab_double 8" "tab_double 16" "tab_double 32" "tab_double 64" "tab_double 128"
  unfolding tab_double_def crc16tab_def by simp_all

lemma length_tab: "length crc16tab = 256" by (simp add: crc16tab_def)

lemma tab_step:
  assumes ih: "\<forall>r<2 ^ j. crc_entry r = crc16tab ! r" and j: "j < 8" and p: "tab_power j" and d: "tab_double (2 ^ j)" and r: "r < 2 ^ Suc j"
  shows "crc_entry r = crc16tab ! r"
proof (cases "r < 2 ^ j")
  case False
  then obtain q where q: "r = 2 ^ j + q" "q < 2 ^ j" using r by (metis add_less_cancel_left le_Suc_ex mult_2 not_less power_Suc)
  have j': "(2 :: nat) ^ j \<le> 2 ^ 7" using j by (intro power_increasing) auto
  have u: "unat (of_nat q :: u16) = q" using q j' by (simp add: unat_of_nat take_bit_nat_eq_self)
  then have "take_bit j (of_nat q :: u16) = of_nat q" using q by (simp add: word_unat_eq_iff unsigned_take_bit_eq take_bit_nat_eq_self)
  then have "\<not> bit (of_nat q :: u16) j" by (metis bit_take_bit_iff less_irrefl)
  then have "push_bit j (1 :: u16) AND of_nat q = 0" by (intro bit_eqI) (auto simp: bit_simps)
  then have "(of_nat r :: u16) = push_bit j 1 XOR of_nat q" using q by (simp add: push_bit_eq_mult flip: disjunctive_add_eq_xor)
  then have "crc_entry r = (crc_bit ^^ 8) (push_bit (8 + j) 1) XOR crc_entry q" by (simp add: crc_entry_def crc_bits_xor push_bit_xor push_bit_of_1 push_bit_eq_mult[of 8 "2 ^ j"] power_add mult.commute)
  also have "\<dots> = crc16tab ! (2 ^ j) XOR crc16tab ! q" using p ih q by (simp add: tab_power_def crc_bits_pow)
  also have "\<dots> = map (\<lambda>x. crc16tab ! (2 ^ j) XOR x) (take (2 ^ j) crc16tab) ! q" using q j' by (simp add: length_tab)
  also have "\<dots> = crc16tab ! r" using d q j' unfolding tab_double_def by (simp add: length_tab)
  finally show ?thesis .
qed (use ih in simp)

lemma crc_entries: "r < 256 \<Longrightarrow> crc_entry r = crc16tab ! r"
proof -
  have p: "j < 8 \<Longrightarrow> tab_power j" for j using tab_power by (auto simp: less_Suc_eq numeral_eq_Suc)
  have d: "j < 8 \<Longrightarrow> tab_double (2 ^ j)" for j using tab_double by (auto simp: less_Suc_eq numeral_eq_Suc)
  have z: "crc_entry 0 = crc16tab ! 0" by (simp add: crc_entry_def crc16tab_def crc_bit_def numeral_eq_Suc)
  have "j \<le> 8 \<Longrightarrow> \<forall>r<2 ^ j. crc_entry r = crc16tab ! r" for j
    by (induction j) (use z in simp, use p d tab_step in \<open>auto simp del: power_Suc\<close>)
  from this[of 8] show "r < 256 \<Longrightarrow> crc_entry r = crc16tab ! r" by simp
qed

lemma crc_high: "(crc_bit ^^ 8) (push_bit 8 (ucast (b :: byte))) = crc16tab ! unat b"
proof -
  have "unat b < 256" using unsigned_less[of b] by simp
  moreover have "(of_nat (unat b) :: u16) = ucast b" by (simp add: unsigned_ucast_eq)
  ultimately show ?thesis using crc_entries[of "unat b"] by (simp add: crc_entry_def)
qed

lemma crc_low: "n \<le> 8 \<Longrightarrow> (crc_bit ^^ n) (ucast (b :: byte)) = push_bit n (ucast b)"
proof (induction n)
  case (Suc n)
  then have "\<not> bit (push_bit n (ucast b) :: u16) 15" by (auto simp: bit_simps dest: bit_imp_le_length)
  then show ?case using Suc by (simp add: crc_bit_def push_bit_eq_mult)
qed simp

lemma crc_table_step: "push_bit 8 crc XOR crc16tab ! unat ((drop_bit 8 crc XOR ucast b) AND 0x00FF) = crc_byte b crc"
proof -
  let ?hi = "ucast (drop_bit 8 crc) XOR b :: byte" and ?lo = "ucast crc :: byte"
  have m: "(0xFF :: u16) = mask 8" by (simp add: mask_eq_exp_minus_1)
  have i: "(drop_bit 8 crc XOR ucast b) AND 0x00FF = (ucast ?hi :: u16)"
    unfolding m by (rule bit_eqI) (auto simp: bit_simps dest: bit_imp_le_length)
  have s: "crc XOR push_bit 8 (ucast b) = push_bit 8 (ucast ?hi) XOR ucast ?lo"
    by (rule bit_eqI) (auto simp: bit_simps dest: bit_imp_le_length)
  have l: "push_bit 8 (ucast ?lo) = push_bit 8 crc" by (rule bit_eqI) (auto simp: bit_simps)
  have u: "unat (ucast ?hi :: u16) = unat ?hi" by (simp add: unsigned_ucast_eq take_bit_nat_eq_self_iff order.strict_trans2[OF unsigned_less])
  show ?thesis unfolding crc_byte_def s crc_bits_xor i u using crc_high[of ?hi] crc_low[of 8 ?lo] l by (simp add: xor.commute)
qed

lemma crc16_loop_ref: "crc16_loop crc bs = fold crc_byte bs crc"
  by (induction bs arbitrary: crc) (simp_all add: crc_table_step)

text \<open>The table-driven checksum is the bit-serial CRC of the polynomial \<open>x^16 + x^12 + x^5 + 1\<close> with initial value 0: every byte
  is added to the high half of the register, which is then shifted by eight bits, one at a time.\<close>

theorem crc16_bitwise: "crc16 buf = fold crc_byte buf 0"
  by (simp add: crc16_def crc16_loop_ref)

section \<open>SHA-256: the stream computes the padded digest\<close>

text \<open>The compression of one block, as the rounds of the code compute it: what the digest theorem pins beyond it is the buffering, the padding, the
  length and the order of the blocks and of the output.\<close>

definition sha_compress :: "u32 list \<Rightarrow> mem \<Rightarrow> u32 list" where
  "sha_compress st d = the (do {
     ws \<leftarrow> sha256_words d 0 16;
     v \<leftarrow> sha256_load st;
     sha256_add st (fold sha256_round (zip sha256_k (sha256_extend ws 48)) v) })"

lemma words_total: "j + 4 * n \<le> length d \<Longrightarrow> \<exists>ws. sha256_words d j n = Some ws"
proof (induction n arbitrary: j)
  case (Suc n)
  then obtain ws where "sha256_words d (j + 4) n = Some ws" by fastforce
  then show ?case using Suc.prems by (simp add: getb_def)
qed simp

lemma list_8: "length st = 8 \<Longrightarrow> \<exists>a b c d e f g h. st = [a, b, c, d, e, f, g, h]"
  by (simp add: length_Suc_conv numeral_eq_Suc) blast

lemma transform_ok:
  assumes "length d = 64" "length (state ctx) = 8"
  shows "sha256_transform ctx d = Some (ctx\<lparr>state := sha_compress (state ctx) d\<rparr>)" "length (sha_compress (state ctx) d) = 8"
proof -
  obtain ws where w: "sha256_words d 0 16 = Some ws" using words_total[of 0 16 d] assms(1) by auto
  obtain a b c e f g h i where s: "state ctx = [a, b, c, e, f, g, h, i]" using list_8[OF assms(2)] by blast
  obtain v where v: "fold sha256_round (zip sha256_k (sha256_extend ws 48)) (a, b, c, e, f, g, h, i) = v" by blast
  then obtain a' b' c' e' f' g' h' i' where v': "v = (a', b', c', e', f', g', h', i')" by (cases v) auto
  show "sha256_transform ctx d = Some (ctx\<lparr>state := sha_compress (state ctx) d\<rparr>)" "length (sha_compress (state ctx) d) = 8"
    using v unfolding v' by (simp_all add: sha256_transform_def sha_compress_def w s)
qed

text \<open>The reference: the blocks of 64 bytes are compressed in order; a last partial block is left.\<close>

function sha_run :: "u32 list \<Rightarrow> mem \<Rightarrow> u32 list" where
  "sha_run st m = (if length m < 64 then st else sha_run (sha_compress st (take 64 m)) (drop 64 m))"
  by pat_completeness auto
termination by (relation "measure (length \<circ> snd)") auto

declare sha_run.simps [simp del]

definition rest :: "mem \<Rightarrow> mem" where "rest m = drop (64 * (length m div 64)) m"

lemma length_rest: "length (rest m) = length m mod 64"
  by (simp add: rest_def minus_mult_div_eq_mod)

lemma rest_step: "64 \<le> length m \<Longrightarrow> rest m = rest (drop 64 m)"
proof -
  assume "64 \<le> length m"
  then have "length m div 64 = Suc ((length m - 64) div 64)" by (simp add: le_div_geq)
  then show ?thesis by (simp add: rest_def add.commute)
qed

lemma sha_run_append: "sha_run st (m @ x) = sha_run (sha_run st m) (rest m @ x)"
proof (induction st m rule: sha_run.induct)
  case (1 st m)
  show ?case
  proof (cases "length m < 64")
    case True
    then show ?thesis by (simp add: rest_def sha_run.simps[of st m])
  next
    case False
    then show ?thesis using 1 rest_step[of m] sha_run.simps[of st m] sha_run.simps[of st "m @ x"] by simp
  qed
qed

lemma sha_run_less: "length y < 64 \<Longrightarrow> sha_run st y = st"
  using sha_run.simps[of st y] by simp

lemma sha_run_one: "length y = 64 \<Longrightarrow> sha_run st y = sha_compress st y"
  using sha_run.simps[of st y] sha_run_less[of "[]"] by simp

lemma sha_run_block: "length (rest m @ x) = 64 \<Longrightarrow> sha_run st (m @ x) = sha_compress (sha_run st m) (rest m @ x)"
  by (rule trans[OF sha_run_append sha_run_one])

lemma sha_run_short: "length (rest m @ x) < 64 \<Longrightarrow> sha_run st (m @ x) = sha_run st m"
  by (rule trans[OF sha_run_append sha_run_less])

definition sha_iv :: "u32 list" where
  "sha_iv = [0x6a09e667, 0xbb67ae85, 0x3c6ef372, 0xa54ff53a, 0x510e527f, 0x9b05688c, 0x1f83d9ab, 0x5be0cd19]"

definition be64 :: "u64 \<Rightarrow> mem" where "be64 x = map (\<lambda>n. ucast (drop_bit n x)) [56, 48, 40, 32, 24, 16, 8, 0]"

definition be32 :: "u32 \<Rightarrow> mem" where "be32 x = map (\<lambda>n. ucast (drop_bit n x)) [24, 16, 8, 0]"

text \<open>Padding: a one bit, zeros up to 56 bytes modulo 64, and the length in bits as 64 bits, big-endian.\<close>

definition sha_pad :: "mem \<Rightarrow> mem" where
  "sha_pad m = 0x80 # replicate ((119 - length m mod 64) mod 64) 0 @ be64 (of_nat (8 * length m))"

definition sha256_digest :: "mem \<Rightarrow> mem" where
  "sha256_digest m = concat (map be32 (sha_run sha_iv (m @ sha_pad m)))"

text \<open>The context after the message \<open>m\<close>.\<close>

definition sha_ctx :: "SHA256_CTX \<Rightarrow> mem \<Rightarrow> bool" where
  "sha_ctx ctx m \<longleftrightarrow> length (data ctx) = 64 \<and> length (state ctx) = 8 \<and> state ctx = sha_run sha_iv m \<and> unat (datalen ctx) = length m mod 64
     \<and> take (length m mod 64) (data ctx) = rest m \<and> bitlen ctx = of_nat (512 * (length m div 64))"

lemma init_ctx: "length buf = 64 \<Longrightarrow> sha_ctx (sha256_init buf) []"
  by (simp add: sha_ctx_def sha256_init_def sha_iv_def sha_run.simps rest_def)

lemma rest_snoc: "length m mod 64 \<noteq> 63 \<Longrightarrow> rest (m @ [b]) = rest m @ [b]" "length m mod 64 = 63 \<Longrightarrow> rest (m @ [b]) = []"
proof -
  assume "length m mod 64 \<noteq> 63"
  then have "Suc (length m) div 64 = length m div 64" by (simp add: div_Suc mod_Suc)
  then show "rest (m @ [b]) = rest m @ [b]" by (simp add: rest_def)
next
  assume "length m mod 64 = 63"
  then show "rest (m @ [b]) = []" using length_rest[of "m @ [b]"] by (simp add: mod_Suc)
qed

lemma byte_ctx:
  assumes c: "sha_ctx ctx m" shows "\<exists>ctx'. sha256_byte ctx b = Some ctx' \<and> sha_ctx ctx' (m @ [b])"
proof -
  let ?n = "length m mod 64"
  have n: "unat (datalen ctx) = ?n" "?n < 64" and l: "length (data ctx) = 64" "length (state ctx) = 8" and t: "take ?n (data ctx) = rest m"
    using c unfolding sha_ctx_def by (blast, simp, blast+)
  let ?d = "(data ctx)[?n := b]"
  have s: "setb (data ctx) (unat (datalen ctx)) b = Some ?d" using n l by (simp add: setb_def)
  have td: "take (Suc ?n) ?d = rest m @ [b]" using n l t by (simp add: take_Suc_conv_app_nth)
  have dl: "unat (datalen ctx + 1) = Suc ?n" using n by (simp add: unat_word_ariths)
  show ?thesis
  proof (cases "?n = 63")
    case True
    have e: "datalen ctx + 1 = 64" using dl True by (simp add: word_unat_eq_iff)
    have d: "?d = rest m @ [b]" using td l True by simp
    let ?c = "ctx\<lparr>data := ?d, datalen := datalen ctx + 1\<rparr>"
    have "sha256_transform ?c ?d = Some (?c\<lparr>state := sha_compress (state ctx) ?d\<rparr>)" "length (sha_compress (state ctx) ?d) = 8"
      using transform_ok[of ?d ?c] l by simp_all
    moreover have "sha_run sha_iv (m @ [b]) = sha_compress (state ctx) ?d"
      using sha_run_block[of m "[b]" sha_iv] length_rest[of m] True c d by (simp add: sha_ctx_def)
    moreover have "(of_nat (512 * (length m div 64)) + 512 :: u64) = of_nat (512 * (length (m @ [b]) div 64))" "length (m @ [b]) mod 64 = 0"
      using True by (simp_all add: div_Suc mod_Suc)
    ultimately show ?thesis using c s e l rest_snoc(2)[OF True, of b] by (simp add: sha256_byte_def sha_ctx_def)
  next
    case False
    have e: "datalen ctx + 1 \<noteq> 64" using dl False by (auto simp: word_unat_eq_iff)
    have m: "length (m @ [b]) mod 64 = Suc ?n" "length (m @ [b]) div 64 = length m div 64" using False by (simp_all add: div_Suc mod_Suc)
    have "sha_run sha_iv (m @ [b]) = sha_run sha_iv m" using sha_run_short[of m "[b]"] length_rest[of m] n False by simp
    then show ?thesis using c s e l m dl td rest_snoc(1)[OF False, of b] by (simp add: sha256_byte_def sha_ctx_def)
  qed
qed

lemma update_loop_ctx:
  assumes len: "length d < 2 ^ 32"
  shows "unat i \<le> length d \<Longrightarrow> sha_ctx ctx m \<Longrightarrow> \<exists>ctx'. sha256_update_loop d (length d) i ctx = Some ctx' \<and> sha_ctx ctx' (m @ drop (unat i) d)"
proof (induction "length d - unat i" arbitrary: i ctx m rule: less_induct)
  case less
  show ?case
  proof (cases "unat i < length d")
    case True
    then have u: "unat (i + 1) = Suc (unat i)" using len by (simp add: unat_word_ariths)
    obtain c where c: "sha256_byte ctx (d ! unat i) = Some c" "sha_ctx c (m @ [d ! unat i])" using byte_ctx[OF less.prems(2)] by blast
    have r: "sha256_update_loop d (length d) i ctx = sha256_update_loop d (length d) (i + 1) c"
      using True c(1) by (subst sha256_update_loop.simps) (simp add: getb_def)
    obtain c' where "sha256_update_loop d (length d) (i + 1) c = Some c'" "sha_ctx c' ((m @ [d ! unat i]) @ drop (Suc (unat i)) d)"
      using less.hyps[OF _ _ c(2), of "i + 1"] True u diff_less_mono2[of "unat i" "Suc (unat i)" "length d"] by auto
    then show ?thesis using r True by (simp add: Cons_nth_drop_Suc)
  next
    case False
    then show ?thesis using less.prems by (subst sha256_update_loop.simps) simp
  qed
qed

lemma update_ctx: "length d < 2 ^ 32 \<Longrightarrow> sha_ctx ctx m \<Longrightarrow> \<exists>ctx'. sha256_update ctx d = Some ctx' \<and> sha_ctx ctx' (m @ d)"
  using update_loop_ctx[of d 0 ctx m] by (simp add: sha256_update_def)


lemma zeros_ok:
  assumes n: "unat n \<le> length d"
  shows "unat i \<le> unat n \<Longrightarrow> sha256_zeros d i n = Some (take (unat i) d @ replicate (unat n - unat i) 0 @ drop (unat n) d)"
  using n
proof (induction d i n rule: sha256_zeros.induct)
  case (1 d i n)
  show ?case
  proof (cases "i < n")
    case True
    have "unat n < 2 ^ 32" using unsigned_less[of n] by simp
    then have u: "unat i < unat n" "unat (i + 1) = Suc (unat i)" using True by (simp_all add: word_less_nat_alt unat_word_ariths)
    have s: "setb d (unat i) 0 = Some (d[unat i := 0])" using u 1 by (simp add: setb_def)
    have "sha256_zeros (d[unat i := 0]) (i + 1) n = Some (take (Suc (unat i)) (d[unat i := 0]) @ replicate (unat n - Suc (unat i)) 0 @ drop (unat n) (d[unat i := 0]))"
      using 1(1)[OF True s] u 1(3) by simp
    moreover have "take (Suc (unat i)) (d[unat i := 0]) = take (unat i) d @ [0]" using u 1(3) by (simp add: take_Suc_conv_app_nth)
    moreover have "replicate (unat n - unat i) (0 :: byte) = 0 # replicate (unat n - Suc (unat i)) 0" using u by (simp add: Suc_diff_Suc flip: replicate_Suc)
    ultimately show ?thesis using True s u by simp
  next
    case False
    then have "unat i = unat n" using 1(2) by (simp add: word_less_nat_alt)
    then show ?thesis using False by simp
  qed
qed

declare sha256_zeros.simps [simp del]

lemma first_pad:
  assumes c: "sha_ctx ctx m" and n: "length m mod 64 < unat (n :: u32)" "unat n \<le> 64"
  shows "do { d \<leftarrow> setb (data ctx) (unat (datalen ctx)) 0x80; sha256_zeros d (datalen ctx + 1) n } =
     Some (rest m @ 0x80 # replicate (unat n - Suc (length m mod 64)) 0 @ drop (unat n) (data ctx))"
proof -
  let ?k = "length m mod 64" and ?d = "(data ctx)[length m mod 64 := 0x80]"
  have k: "unat (datalen ctx) = ?k" and l: "length (data ctx) = 64" and t: "take ?k (data ctx) = rest m"
    using c unfolding sha_ctx_def by blast+
  have u: "unat (datalen ctx + 1) = Suc ?k" using k n by (simp add: unat_word_ariths)
  have s: "setb (data ctx) (unat (datalen ctx)) 0x80 = Some ?d" using k l n by (simp add: setb_def)
  have td: "take (Suc ?k) ?d = rest m @ [0x80]" using l t n by (simp add: take_Suc_conv_app_nth)
  show ?thesis using s zeros_ok[of n ?d "datalen ctx + 1"] u td n l by simp
qed

lemma be_bytes: "(\<lambda>s :: u32. map (\<lambda>i :: nat. ucast (drop_bit (24 - i * 8) s AND 0x000000ff)) [0, 1, 2, 3]) = be32"
proof
  fix s
  have m: "(0xff :: u32) = mask 8" by (simp add: mask_eq_exp_minus_1)
  have "(ucast (x AND 0xff :: u32) :: byte) = ucast x" for x unfolding m by (rule bit_eqI) (auto simp: bit_simps dest: bit_imp_le_length)
  then show "map (\<lambda>i :: nat. ucast (drop_bit (24 - i * 8) s AND 0x000000ff)) [0, 1, 2, 3] = be32 s" by (simp add: be32_def)
qed

lemma length_be64 [simp]: "length (be64 x) = 8" by (simp add: be64_def)

lemma bitlen_ok: "sha_ctx ctx m \<Longrightarrow> bitlen ctx + ucast (datalen ctx * 8) = of_nat (8 * length m)"
proof -
  assume c: "sha_ctx ctx m"
  have k: "unat (datalen ctx) = length m mod 64" "bitlen ctx = of_nat (512 * (length m div 64))" using c unfolding sha_ctx_def by blast+
  have "unat (datalen ctx * 8) = 8 * (length m mod 64)" using k by (simp add: unat_word_ariths)
  moreover have "(of_nat (unat (datalen ctx * 8)) :: u64) = ucast (datalen ctx * 8)" by simp
  ultimately have "(ucast (datalen ctx * 8) :: u64) = of_nat (8 * (length m mod 64))" by simp
  moreover have "64 * (length m div 64) + length m mod 64 = length m" by simp
  then have "8 * length m = 512 * (length m div 64) + 8 * (length m mod 64)" by linarith
  ultimately show ?thesis using k(2) by (metis of_nat_add)
qed

lemma wr_end: "length G = length E \<Longrightarrow> length A = n \<Longrightarrow> wr (A @ G) n E = Some (A @ E)"
  by (simp add: wr_def patch_def)

lemma bind_SomeE: "Option.bind x f = Some y \<Longrightarrow> (\<And>a. x = Some a \<Longrightarrow> f a = Some y \<Longrightarrow> P) \<Longrightarrow> P"
  by (cases x) auto

lemma block_up: "r < 64 \<Longrightarrow> 64 * q + r = n \<Longrightarrow> n + (63 - r + Suc 0) = 64 * (q + 1)" for n q r :: nat
  by simp

lemma final_ctx:
  assumes c: "sha_ctx ctx m" shows "sha256_final ctx = Some (sha256_digest m)"
proof -
  let ?k = "length m mod 64" and ?bl = "of_nat (8 * length m) :: u64"
  have k: "unat (datalen ctx) = ?k" and l: "length (data ctx) = 64" "length (state ctx) = 8" and st: "state ctx = sha_run sha_iv m"
    using c unfolding sha_ctx_def by blast+
  have r: "length (rest m) = ?k" by (rule length_rest)
  have lt: "datalen ctx < 56 \<longleftrightarrow> ?k < 56" using k by (simp add: word_less_nat_alt)
  show ?thesis
  proof (cases "?k < 56")
    case True
    let ?d = "rest m @ 0x80 # replicate (55 - ?k) 0 @ drop 56 (data ctx)" and ?b = "rest m @ 0x80 # replicate (55 - ?k) 0 @ be64 ?bl"
    let ?c = "ctx\<lparr>bitlen := ?bl, data := ?b\<rparr>"
    have f: "do { d \<leftarrow> setb (data ctx) (unat (datalen ctx)) 0x80; sha256_zeros d (datalen ctx + 1) 56 } = Some ?d"
      using first_pad[OF c, of 56] True by simp
    have w: "wr ?d 56 (be64 ?bl) = Some ?b" using wr_end[of "drop 56 (data ctx)" "be64 ?bl" "rest m @ 0x80 # replicate (55 - ?k) 0" 56] r True l by simp
    have t: "sha256_transform ?c ?b = Some (?c\<lparr>state := sha_compress (state ctx) ?b\<rparr>)" using transform_ok(1)[of ?b ?c] r True l by simp
    have "(119 - ?k) mod 64 = 55 - ?k" using True by (simp add: le_mod_geq)
    then have "sha_compress (state ctx) ?b = sha_run sha_iv (m @ sha_pad m)"
      using sha_run_block[of m "sha_pad m" sha_iv] r True st by (simp add: sha_pad_def)
    moreover obtain d0 where "setb (data ctx) (unat (datalen ctx)) 0x80 = Some d0" "sha256_zeros d0 (datalen ctx + 1) 56 = Some ?d"
      using f by (rule bind_SomeE)
    moreover have "datalen ctx < 56" using True lt by simp
    ultimately show ?thesis
      using w t bitlen_ok[OF c] unfolding sha256_final_def Let_def be64_def[symmetric] be_bytes sha256_digest_def by simp
  next
    case False
    then have k64: "?k < 64" "56 \<le> ?k" by simp_all
    let ?d = "rest m @ 0x80 # replicate (63 - ?k) 0" and ?b = "replicate 56 0 @ be64 ?bl"
    let ?s = "sha_compress (state ctx) ?d"
    let ?c1 = "ctx\<lparr>data := ?d, state := ?s\<rparr>" and ?c = "ctx\<lparr>state := ?s, bitlen := ?bl, data := ?b\<rparr>"
    have f: "do { d \<leftarrow> setb (data ctx) (unat (datalen ctx)) 0x80; sha256_zeros d (datalen ctx + 1) 64 } = Some ?d"
      using first_pad[OF c, of 64] k64 l by simp
    have ld: "length ?d = 64" using r k64 by simp
    have t1: "sha256_transform (ctx\<lparr>data := ?d\<rparr>) ?d = Some ?c1" "length ?s = 8"
      using transform_ok[OF ld, of "ctx\<lparr>data := ?d\<rparr>"] l by simp_all
    have w1: "wr ?d 0 (replicate 56 0) = Some (replicate 56 0 @ drop 56 ?d)" using ld by (simp add: wr_def patch_def)
    have w2: "wr (replicate 56 0 @ drop 56 ?d) 56 (be64 ?bl) = Some ?b" by (rule wr_end) (use ld in simp_all)
    have t2: "sha256_transform ?c ?b = Some (?c\<lparr>state := sha_compress ?s ?b\<rparr>)" using transform_ok(1)[of ?b ?c] t1(2) by simp
    have z: "(119 - ?k) mod 64 = 63 - ?k + 56" using k64 by simp
    have p: "m @ sha_pad m = (m @ 0x80 # replicate (63 - ?k) 0) @ ?b" unfolding sha_pad_def z replicate_add by simp
    have r1: "sha_run sha_iv (m @ 0x80 # replicate (63 - ?k) 0) = ?s" using sha_run_block[of m "0x80 # replicate (63 - ?k) 0" sha_iv] ld st by simp
    have "length (m @ 0x80 # replicate (63 - ?k) (0 :: byte)) = 64 * (length m div 64 + 1)"
      unfolding length_append list.size length_replicate by (rule block_up[OF k64(1) mult_div_mod_eq[of 64 "length m"]])
    then have "rest (m @ 0x80 # replicate (63 - ?k) 0) = []" using length_rest[of "m @ 0x80 # replicate (63 - ?k) 0"] by (metis length_0_conv mod_mult_self1_is_0)
    then have "sha_run sha_iv (m @ sha_pad m) = sha_compress ?s ?b" unfolding p using sha_run_block[of "m @ 0x80 # replicate (63 - ?k) 0" ?b sha_iv] r1 by simp
    moreover obtain d0 where "setb (data ctx) (unat (datalen ctx)) 0x80 = Some d0" "sha256_zeros d0 (datalen ctx + 1) 64 = Some ?d"
      using f by (rule bind_SomeE)
    moreover have "\<not> datalen ctx < 56" using False lt by simp
    ultimately show ?thesis
      using w1 w2 t1 t2 bitlen_ok[OF c] unfolding sha256_final_def Let_def be64_def[symmetric] be_bytes sha256_digest_def by simp
  qed
qed

text \<open>A client's use of the digest: the chunks are added one by one, then the hash is taken.\<close>

fun run_stream :: "('c \<Rightarrow> mem \<Rightarrow> 'c option) \<Rightarrow> ('c \<Rightarrow> 'h option) \<Rightarrow> 'c \<Rightarrow> mem list \<Rightarrow> 'h option" where
  "run_stream update final ctx [] = final ctx"
| "run_stream update final ctx (d # ds) = do { ctx \<leftarrow> update ctx d; run_stream update final ctx ds }"

text \<open>The interface of a hash over a stream: a context represents the message added so far.\<close>

locale stream_hash =
  fixes rep :: "'c \<Rightarrow> mem \<Rightarrow> bool" and update :: "'c \<Rightarrow> mem \<Rightarrow> 'c option" and final :: "'c \<Rightarrow> 'h option"
    and digest :: "mem \<Rightarrow> 'h" and limit :: nat
  assumes update_law: "length d < limit \<Longrightarrow> rep ctx m \<Longrightarrow> \<exists>ctx'. update ctx d = Some ctx' \<and> rep ctx' (m @ d)"
    and final_law: "rep ctx m \<Longrightarrow> final ctx = Some (digest m)"
begin

lemma stream_digest: "rep ctx m \<Longrightarrow> \<forall>d \<in> set ds. length d < limit \<Longrightarrow> run_stream update final ctx ds = Some (digest (m @ concat ds))"
proof (induction ds arbitrary: ctx m)
  case Nil
  then show ?case by (simp add: final_law)
next
  case (Cons d ds)
  have "length d < limit" using Cons.prems(2) by simp
  then obtain c where "update ctx d = Some c" "rep c (m @ d)" using update_law[OF _ Cons.prems(1)] by blast
  then show ?case using Cons.IH[of c "m @ d"] Cons.prems(2) by simp
qed

end

interpretation sha: stream_hash sha_ctx sha256_update sha256_final sha256_digest "2 ^ 32"
  by unfold_locales (rule update_ctx, assumption+, rule final_ctx)

lemma update_loop_returns: assumes "sha256_update_loop d len i ctx = Some c" shows "len < 2 ^ 32"
proof (rule sha256_update_loop.raw_induct[where P = "\<lambda>d len i ctx c. len < 2 ^ 32", OF _ assms])
  fix f d len and i :: u32 and ctx c
  assume h: "\<And>d len i ctx c. f d len i ctx = Some c \<Longrightarrow> len < 2 ^ 32"
    and e: "(if unat i < len then do { b \<leftarrow> getb d (unat i); ctx \<leftarrow> sha256_byte ctx b; f d len (i + 1) ctx } else Some ctx) = Some c"
  show "len < 2 ^ 32"
  proof (cases "unat i < len")
    case True
    then show ?thesis using e h by (auto split: Option.bind_splits)
  next
    case False
    then show ?thesis using unsigned_less[of i, where 'a = nat] by simp
  qed
qed

text \<open>C9: the digest is independent of how the message is cut into chunks: from a fresh context, any sequence of \<open>sha256_update\<close>
  calls on chunks of less than \<open>2 ^ 32\<close> bytes followed by \<open>sha256_final\<close> stays in bounds, returns, and gives the digest of the
  concatenation: the message padded with a one bit, zeros and its 64-bit length, run block by block through the compression.\<close>

theorem sha256_stream_digest:
  assumes "length buf = 64" "\<forall>d \<in> set ds. length d < 2 ^ 32"
  shows "run_stream sha256_update sha256_final (sha256_init buf) ds = Some (sha256_digest (concat ds))"
  using sha.stream_digest[OF init_ctx[OF assms(1)] assms(2)] by simp

theorem sha256_stream_digest_witness:
  "run_stream sha256_update sha256_final (sha256_init (replicate 64 0)) [[97], [], [98, 99]] = Some (sha256_digest [97, 98, 99])"
  using sha256_stream_digest[of "replicate 64 0" "[[97], [], [98, 99]]"] by simp


text \<open>On a context that stands for the message \<open>m\<close> hashed so far (every context a client reaches), \<open>sha256_update\<close> returns
  exactly for chunks of less than \<open>2 ^ 32\<close> bytes, and then its context stands for \<open>m\<close> and the chunk: the loop counter has 32
  bits and the length 64, so that the loop never ends on a longer chunk.\<close>

theorem sha256_update_returns:
  assumes "sha_ctx ctx m"
  shows "length d < 2 ^ 32 \<longleftrightarrow> (\<exists>ctx'. sha256_update ctx d = Some ctx' \<and> sha_ctx ctx' (m @ d))"
proof -
  have r: "sha256_update ctx d = Some c \<Longrightarrow> length d < 2 ^ 32" for c unfolding sha256_update_def by (rule update_loop_returns)
  then show ?thesis using update_ctx[OF _ assms] by blast
qed

theorem sha256_update_returns_witness:
  "\<exists>ctx'. sha256_update (sha256_init (replicate 64 0)) [1, 2] = Some ctx' \<and> sha_ctx ctx' [1, 2]"
  using sha256_update_returns[OF init_ctx, of "replicate 64 0" "[1, 2]"] by simp

section \<open>SipHash: the case-insensitive variant\<close>

definition lower :: "byte \<Rightarrow> byte" where "lower b = (if 65 \<le> b \<and> b \<le> 90 then b + 32 else b)"

lemma sip_lower_eq: "sip_lower b = ucast (lower b)"
proof -
  have u: "65 \<le> b \<longleftrightarrow> 65 \<le> uint b" "b \<le> 90 \<longleftrightarrow> uint b \<le> 90" by (simp_all add: word_le_def)
  have c: "(word_of_int (uint x) :: u64) = ucast x" for x :: byte by simp
  have "uint (b + 32) = uint b + 32" if "uint b \<le> 90" using that by (simp add: uint_word_ariths)
  then have "(word_of_int (uint b + 32) :: u64) = ucast (b + 32)" if "uint b \<le> 90" using that c[of "b + 32"] by presburger
  then show ?thesis using c[of b] unfolding sip_lower_def siptlw_def lower_def u by simp
qed

lemma getb_map: "getb (map f p) i = map_option f (getb p i)"
  by (simp add: getb_def)

lemma nocase_load: "U8TO64_LE_NOCASE p i = U8TO64_LE (map lower p) i"
  by (simp add: U8TO64_LE_NOCASE_def U8TO64_LE_def getb_map sip_lower_eq split: Option.bind_split)

lemma nocase_loop: "siphash_loop U8TO64_LE_NOCASE p i n v = siphash_loop U8TO64_LE (map lower p) i n v"
  by (induction n arbitrary: i v) (simp_all add: nocase_load)

lemma nocase_tail: "siphash_tail sip_lower p i n b = siphash_tail ucast (map lower p) i n b"
  by (induction n arbitrary: b) (simp_all add: getb_map sip_lower_eq split: Option.bind_split)

lemma load_total: "i + 8 \<le> length p \<Longrightarrow> \<exists>x. U8TO64_LE p i = Some x"
  by (simp add: U8TO64_LE_def getb_def)

lemma sip_loop_total: "i + 8 * n \<le> length p \<Longrightarrow> \<exists>v'. siphash_loop U8TO64_LE p i n v = Some v'"
proof (induction n arbitrary: i v)
  case (Suc n)
  then obtain x where "U8TO64_LE p i = Some x" using load_total[of i p] by auto
  then show ?case using Suc by (simp add: Let_def)
qed simp

lemma sip_tail_total: "i + n \<le> length p \<Longrightarrow> \<exists>b'. siphash_tail up p i n b = Some b'"
  by (induction n arbitrary: b) (simp_all add: getb_def)

lemma siphash_total: assumes "16 \<le> length k" shows "\<exists>h. siphash p k = Some h"
proof -
  obtain k0 k1 where k: "U8TO64_LE k 0 = Some k0" "U8TO64_LE k 8 = Some k1" using load_total[of 0 k] load_total[of 8 k] assms by auto
  have "8 * (length p div 8) \<le> length p" by simp
  then obtain v where v: "siphash_loop U8TO64_LE p 0 (length p div 8) \<lparr>v0 = 0x736f6d6570736575 XOR k0, v1 = 0x646f72616e646f6d XOR k1, v2 = 0x6c7967656e657261 XOR k0, v3 = 0x7465646279746573 XOR k1\<rparr> = Some v"
    using sip_loop_total[of 0 "length p div 8" p] by (metis add_0)
  obtain b where "siphash_tail ucast p (8 * (length p div 8)) (length p mod 8) (push_bit 56 (of_nat (length p))) = Some b"
    using sip_tail_total[of "8 * (length p div 8)" "length p mod 8" p] by (metis mult_div_mod_eq order_refl)
  then show ?thesis by (simp add: siphash_def siphash_gen_def k v Let_def)
qed

text \<open>\<open>siphash_nocase\<close> of an input is \<open>siphash\<close> of the input in lower case, under every key, so that keys that differ in the
  case of their letters only collide; with a key of 16 bytes both stay in bounds and return a hash.\<close>

theorem siphash_nocase_lower:
  assumes "16 \<le> length k"
  shows "\<exists>h. siphash (map lower p) k = Some h \<and> siphash_nocase p k = Some h"
  using siphash_total[OF assms, of "map lower p"]
  by (simp add: siphash_nocase_def siphash_def siphash_gen_def nocase_loop nocase_tail)

theorem siphash_nocase_lower_witness:
  "\<exists>h. siphash [102, 111, 111] (replicate 16 7) = Some h \<and> siphash_nocase [70, 111, 79] (replicate 16 7) = Some h"
  using siphash_nocase_lower[of "replicate 16 7" "[70, 111, 79]"] by (simp add: lower_def)

section \<open>The Mersenne twister against its recurrence\<close>

function mt_seq :: "u64 \<Rightarrow> nat \<Rightarrow> u64" where
  "mt_seq seed n =
     (if n = 0 then seed
      else if n < 312 then 6364136223846793005 * (mt_seq seed (n - 1) XOR drop_bit 62 (mt_seq seed (n - 1))) + of_nat n
      else let x = (mt_seq seed (n - 312) AND UM) OR (mt_seq seed (n - 311) AND LM)
           in mt_seq seed (n - 156) XOR drop_bit 1 x XOR (if even x then 0 else MATRIX_A))"
  by pat_completeness auto
termination by (relation "measure snd") auto

declare mt_seq.simps [simp del]

text \<open>The state vector in the middle of a refill: the words below \<open>i\<close> are of the block after \<open>b\<close>, the others of the block at \<open>b\<close>.\<close>

definition mt_mix :: "u64 \<Rightarrow> nat \<Rightarrow> nat \<Rightarrow> u64 list \<Rightarrow> bool" where
  "mt_mix seed b i m \<longleftrightarrow> length m = NN \<and> (\<forall>j < NN. m ! j = mt_seq seed (if j < i then b + j + NN else b + j))"

lemma mag01_parity: "mag01 (x AND 1) = (if even x then 0 else MATRIX_A)"
  by (auto simp: mag01_def and_one_eq even_iff_mod_2_eq_zero)

lemma mt_word_mix:
  assumes m: "mt_mix seed b i m" and i: "i < NN" and j: "j < NN" "m ! j = mt_seq seed (b + i + 1)" and l: "l < NN" "m ! l = mt_seq seed (b + i + MM)"
  shows "\<exists>m'. mt_word m i j l = Some m' \<and> mt_mix seed b (i + 1) m'"
proof -
  have n: "length m = NN" "m ! i = mt_seq seed (b + i)" using m i unfolding mt_mix_def by auto
  let ?x = "(mt_seq seed (b + i) AND UM) OR (mt_seq seed (b + i + 1) AND LM)"
  let ?w = "mt_seq seed (b + i + MM) XOR drop_bit 1 ?x XOR mag01 (?x AND 1)"
  have "mt_seq seed (b + i + NN) = ?w"
    by (subst mt_seq.simps) (simp add: mag01_parity NN_def MM_def Let_def add.commute[of 156])
  then have "mt_mix seed b (i + 1) (m[i := ?w])" using m i by (auto simp: mt_mix_def nth_list_update less_Suc_eq)
  moreover have "mt_word m i j l = Some (m[i := ?w])" using n i j l by (simp add: mt_word_def mt_get_def mt_set_def Let_def)
  ultimately show ?thesis by blast
qed

lemma mt_mix_nth: "mt_mix seed b i m \<Longrightarrow> j < NN \<Longrightarrow> m ! j = mt_seq seed (if j < i then b + j + NN else b + j)"
  by (simp add: mt_mix_def)

lemma mt_block1_mix: "mt_mix seed b i m \<Longrightarrow> i + n \<le> NN - MM \<Longrightarrow> \<exists>m'. mt_block1 m i n = Some m' \<and> mt_mix seed b (i + n) m'"
proof (induction n arbitrary: i m)
  case (Suc n)
  have "\<exists>m'. mt_word m i (i + 1) (i + MM) = Some m' \<and> mt_mix seed b (i + 1) m'"
    by (rule mt_word_mix) (use Suc.prems mt_mix_nth[OF Suc.prems(1)] in \<open>simp_all add: NN_def MM_def ac_simps\<close>)
  then obtain m' where "mt_word m i (i + 1) (i + MM) = Some m'" "mt_mix seed b (i + 1) m'" by blast
  then show ?case using Suc.IH[of "i + 1" m'] Suc.prems(2) by simp
qed simp

lemma mt_block2_mix: "mt_mix seed b i m \<Longrightarrow> NN - MM \<le> i \<Longrightarrow> i + n \<le> NN - 1 \<Longrightarrow> \<exists>m'. mt_block2 m i n = Some m' \<and> mt_mix seed b (i + n) m'"
proof (induction n arbitrary: i m)
  case (Suc n)
  have "i + MM - NN < i" "b + (i + MM - NN) + NN = b + i + MM" using Suc.prems by (simp_all add: NN_def MM_def)
  then have "\<exists>m'. mt_word m i (i + 1) (i + MM - NN) = Some m' \<and> mt_mix seed b (i + 1) m'"
    by (intro mt_word_mix) (use Suc.prems mt_mix_nth[OF Suc.prems(1)] in \<open>simp_all add: NN_def MM_def ac_simps\<close>)
  then obtain m' where "mt_word m i (i + 1) (i + MM - NN) = Some m'" "mt_mix seed b (i + 1) m'" by blast
  then show ?case using Suc.IH[of "i + 1" m'] Suc.prems(2,3) by simp
qed simp

lemma mt_mix_next: "mt_mix seed b NN m \<Longrightarrow> mt_mix seed (b + NN) 0 m"
  by (simp add: mt_mix_def ac_simps)

lemma mt_refill:
  assumes "mt_mix seed b 0 m"
  shows "\<exists>m'. do { m \<leftarrow> mt_block1 m 0 (NN - MM); m \<leftarrow> mt_block2 m (NN - MM) (MM - 1); mt_word m (NN - 1) 0 (MM - 1) } = Some m' \<and> mt_mix seed (b + NN) 0 m'"
proof -
  obtain m1 where 1: "mt_block1 m 0 (NN - MM) = Some m1" "mt_mix seed b (0 + (NN - MM)) m1" using mt_block1_mix[OF assms, of "NN - MM"] by auto
  obtain m2 where 2: "mt_block2 m1 (NN - MM) (MM - 1) = Some m2" "mt_mix seed b (NN - MM + (MM - 1)) m2"
    using mt_block2_mix[of seed b "NN - MM" m1 "MM - 1"] 1(2) by (auto simp: NN_def MM_def)
  have e: "NN - MM + (MM - 1) = NN - 1" "NN - 1 + 1 = NN" by (simp_all add: NN_def MM_def)
  have "\<exists>m'. mt_word m2 (NN - 1) 0 (MM - 1) = Some m' \<and> mt_mix seed b (NN - 1 + 1) m'"
    by (rule mt_word_mix) (use 2(2) e mt_mix_nth[OF 2(2)] in \<open>simp_all add: NN_def MM_def add.commute\<close>)
  then show ?thesis using 1(1) 2(1) mt_mix_next unfolding e by fastforce
qed

text \<open>The generator after \<open>k\<close> words of the sequence.\<close>

definition mt_at :: "u64 \<Rightarrow> nat \<Rightarrow> mtstate \<Rightarrow> bool" where
  "mt_at seed k s \<longleftrightarrow> 0 \<le> mti s \<and> mti s \<le> int NN \<and> (\<exists>b. mt_mix seed b 0 (mt s) \<and> int k = int b + mti s)"

lemma init_loop_mix:
  "length m = NN \<Longrightarrow> 0 < i \<Longrightarrow> i + n \<le> NN \<Longrightarrow> \<forall>j < i. m ! j = mt_seq seed j \<Longrightarrow>
   \<exists>m'. init_genrand64_loop m i n = Some m' \<and> length m' = NN \<and> (\<forall>j < i + n. m' ! j = mt_seq seed j)"
proof (induction n arbitrary: i m)
  case (Suc n)
  let ?x = "mt_seq seed (i - 1)"
  let ?m = "m[i := 6364136223846793005 * (?x XOR drop_bit 62 ?x) + of_nat i]"
  have "mt_seq seed i = 6364136223846793005 * (?x XOR drop_bit 62 ?x) + of_nat i"
    using Suc.prems by (subst mt_seq.simps) (simp add: NN_def)
  then have "\<forall>j < i + 1. ?m ! j = mt_seq seed j" using Suc.prems by (auto simp: less_Suc_eq)
  then obtain m' where "init_genrand64_loop ?m (i + 1) n = Some m' \<and> length m' = NN \<and> (\<forall>j < i + 1 + n. m' ! j = mt_seq seed j)"
    using Suc.IH[of ?m "i + 1"] Suc.prems by auto
  moreover have "mt_get m (i - 1) = Some ?x" "mt_set m i y = Some (m[i := y])" for y using Suc.prems by (simp_all add: mt_get_def mt_set_def)
  ultimately show ?case by simp
qed simp

lemma init_at:
  assumes "length (mt s) = NN" shows "\<exists>s'. init_genrand64 s seed = Some s' \<and> mt_at seed NN s' \<and> mti s' = int NN"
proof -
  have z: "mt_set (mt s) 0 seed = Some ((mt s)[0 := seed])" "mt_seq seed 0 = seed" using assms by (simp_all add: mt_set_def NN_def mt_seq.simps)
  obtain m where "init_genrand64_loop ((mt s)[0 := seed]) 1 (NN - 1) = Some m" "length m = NN" "\<forall>j < NN. m ! j = mt_seq seed j"
    using init_loop_mix[of "(mt s)[0 := seed]" 1 "NN - 1" seed] assms z(2) by (auto simp: NN_def)
  then show ?thesis using z(1) by (auto simp: init_genrand64_def mt_at_def mt_mix_def intro!: exI[of _ 0])
qed

lemma genrand_at:
  assumes "mt_at seed k s"
  shows "\<exists>s'. genrand64_int64 s = Some (mt_temper (mt_seq seed k), s') \<and> mt_at seed (k + 1) s'"
proof -
  obtain b where b: "mt_mix seed b 0 (mt s)" "int k = int b + mti s" and r: "0 \<le> mti s" "mti s \<le> int NN" using assms unfolding mt_at_def by blast
  show ?thesis
  proof (cases "mti s = int NN")
    case True
    obtain m1 m2 m' where f: "mt_block1 (mt s) 0 (NN - MM) = Some m1" "mt_block2 m1 (NN - MM) (MM - 1) = Some m2" "mt_word m2 (NN - 1) 0 (MM - 1) = Some m'" and m: "mt_mix seed (b + NN) 0 m'"
      using mt_refill[OF b(1)] by (auto split: Option.bind_splits)
    have "k = b + NN" using b(2) True by linarith
    then have "mt_get m' 0 = Some (mt_seq seed k)" using m by (simp add: mt_get_def mt_mix_def NN_def)
    then show ?thesis using f m True b(2) by (auto simp: genrand64_int64_def mt_at_def NN_def intro!: exI[of _ "b + 312"])
  next
    case False
    then have n: "nat (mti s) < NN" "k = b + nat (mti s)" using b(2) r by linarith+
    then have "mt_get (mt s) (nat (mti s)) = Some (mt_seq seed k)" using b(1) by (simp add: mt_get_def mt_mix_def)
    then show ?thesis using False b r by (auto simp: genrand64_int64_def mt_at_def)
  qed
qed

text \<open>The next \<open>n\<close> outputs.\<close>

fun mt_draw :: "mtstate \<Rightarrow> nat \<Rightarrow> (u64 list \<times> mtstate) option" where
  "mt_draw s 0 = Some ([], s)"
| "mt_draw s (Suc n) = do { (x, s) \<leftarrow> genrand64_int64 s; (xs, s) \<leftarrow> mt_draw s n; Some (x # xs, s) }"

lemma draw_at: "mt_at seed k s \<Longrightarrow> \<exists>s'. mt_draw s n = Some (map (mt_temper \<circ> mt_seq seed) [k..<k + n], s')"
proof (induction n arbitrary: k s)
  case (Suc n)
  obtain s1 where s1: "genrand64_int64 s = Some (mt_temper (mt_seq seed k), s1)" "mt_at seed (k + 1) s1" using genrand_at[OF Suc.prems] by blast
  then obtain s2 where "mt_draw s1 n = Some (map (mt_temper \<circ> mt_seq seed) [k + 1..<k + 1 + n], s2)" using Suc.IH by blast
  then show ?case using s1(1) upt_conv_Cons[of k "k + Suc n"] by simp
qed simp

lemma genrand_unseeded: "length (mt s) = NN \<Longrightarrow> mti s = int NN + 1 \<Longrightarrow> init_genrand64 s 5489 = Some s' \<Longrightarrow> mti s' = int NN \<Longrightarrow> genrand64_int64 s = genrand64_int64 s'"
  by (simp add: genrand64_int64_def)

lemma draw_unseeded:
  assumes "length (mt s) = NN" "mti s = int NN + 1"
  shows "\<exists>s'. mt_draw s n = Some (map (mt_temper \<circ> mt_seq 5489) [NN..<NN + n], s')"
proof (cases n)
  case (Suc k)
  obtain s1 where s1: "init_genrand64 s 5489 = Some s1" "mt_at 5489 NN s1" "mti s1 = int NN" using init_at[OF assms(1)] by blast
  then have "mt_draw s n = mt_draw s1 n" unfolding Suc by (simp add: genrand_unseeded[OF assms s1(1,3)])
  then show ?thesis using draw_at[OF s1(2)] by simp
qed simp

text \<open>C35: seeded with any number, the generator's outputs are, for ever, the tempered words 312, 313, \<dots> of the MT19937-64 linear
  recurrence, each refill of the state vector in place computing the next 312 words; all accesses are in bounds. A generator that was
  never seeded gives the sequence of the seed 5489.\<close>

theorem mt_outputs_recurrence:
  assumes "length (mt s) = NN"
  shows "(\<exists>s'. Option.bind (init_genrand64 s seed) (\<lambda>s. mt_draw s n) = Some (map (mt_temper \<circ> mt_seq seed) [NN..<NN + n], s')) \<and>
    (mti s = int NN + 1 \<longrightarrow> (\<exists>s'. mt_draw s n = Some (map (mt_temper \<circ> mt_seq 5489) [NN..<NN + n], s')))"
proof -
  obtain s1 where "init_genrand64 s seed = Some s1" "mt_at seed NN s1" using init_at[OF assms] by blast
  then show ?thesis using draw_at[of seed NN s1 n] draw_unseeded[OF assms] by simp
qed

theorem mt_outputs_recurrence_witness:
  "\<exists>s'. mt_draw \<lparr>mt = replicate 312 0, mti = 313\<rparr> 1000 = Some (map (mt_temper \<circ> mt_seq 5489) [312..<1312], s')"
  using mt_outputs_recurrence[of "\<lparr>mt = replicate 312 0, mti = 313\<rparr>" 5489 1000] unfolding NN_def by simp

end
