(* ===== verification/Sds.thy ===== *)
theory Sds
  imports Util Store
begin

text \<open>
  Dynamic strings: src/redislib-src/kernel/sds.c and sds.h, with the allocation functions of redislib_port.c that they call.

  A value of the C type \<open>sds\<close> points behind a header whose width depends on the type in the byte before the first character. The
  model keeps the block with the header bytes in it: every access to a field reads or writes these bytes, and an access outside the
  block, a failed assertion and the use of a null pointer are \<^term>\<open>None\<close>. Functions that return the null pointer when memory runs
  out have a second \<open>option\<close>. What \<open>vsnprintf\<close> and the callback of \<open>sdstemplate\<close> produce is an argument.
\<close>

section \<open>The header\<close>

text \<open>An allocation and the offset of the first character in it, which is what a value of type \<open>sds\<close> points to.\<close>

record sds =
  sblk :: mem
  soff :: nat

text \<open>The port reports the requested size as the usable one.\<close>

definition zmalloc_usable :: "allocator \<Rightarrow> nat \<Rightarrow> (mem \<times> nat) option" where
  "zmalloc_usable a sz = map_option (\<lambda>f. (map f [0..<sz], sz)) (a sz)"

definition zrealloc_usable :: "allocator \<Rightarrow> mem \<Rightarrow> nat \<Rightarrow> (mem \<times> nat) option" where
  "zrealloc_usable a m sz = map_option (\<lambda>f. (zrealloc f m sz, sz)) (a sz)"

definition SDS_MAX_PREALLOC :: nat where "SDS_MAX_PREALLOC = 1024 * 1024"

definition SDS_TYPE_5 :: byte where "SDS_TYPE_5 = 0"
definition SDS_TYPE_8 :: byte where "SDS_TYPE_8 = 1"
definition SDS_TYPE_16 :: byte where "SDS_TYPE_16 = 2"
definition SDS_TYPE_32 :: byte where "SDS_TYPE_32 = 3"
definition SDS_TYPE_64 :: byte where "SDS_TYPE_64 = 4"
definition SDS_TYPE_MASK :: byte where "SDS_TYPE_MASK = 7"
definition SDS_TYPE_BITS :: nat where "SDS_TYPE_BITS = 3"

text \<open>\<open>sizeof\<close> of the fields \<open>len\<close> and \<open>alloc\<close> in the headers \<open>sdshdr8\<close>, \<dots>, \<open>sdshdr64\<close>.\<close>

definition sdshdr_field :: "byte \<Rightarrow> nat option" where
  "sdshdr_field t =
     (if t = SDS_TYPE_8 then Some 1 else if t = SDS_TYPE_16 then Some 2 else if t = SDS_TYPE_32 then Some 4
      else if t = SDS_TYPE_64 then Some 8 else None)"

definition sdsHdrSize :: "byte \<Rightarrow> nat" where
  "sdsHdrSize type = (let t = type AND SDS_TYPE_MASK in
     if t = SDS_TYPE_5 then 1 else if t = SDS_TYPE_8 then 3 else if t = SDS_TYPE_16 then 5
     else if t = SDS_TYPE_32 then 9 else if t = SDS_TYPE_64 then 17 else 0)"

definition sds_flags :: "sds \<Rightarrow> byte option" where
  "sds_flags s = do { guard (0 < soff s); getb (sblk s) (soff s - 1) }"

definition set_flags :: "sds \<Rightarrow> byte \<Rightarrow> sds option" where
  "set_flags s f = do { guard (0 < soff s); m \<leftarrow> setb (sblk s) (soff s - 1) f; Some (s\<lparr>sblk := m\<rparr>) }"

text \<open>\<open>SDS_HDR(T,s)->len\<close> (field 0) and \<open>SDS_HDR(T,s)->alloc\<close> (field 1), for fields of \<open>w\<close> bytes; a store truncates.\<close>

definition hdr_get :: "sds \<Rightarrow> nat \<Rightarrow> nat \<Rightarrow> nat option" where
  "hdr_get s w i = do {
     guard (2 * w + 1 \<le> soff s);
     b \<leftarrow> rd (sblk s) (soff s - (2 * w + 1) + i * w) w;
     Some (nat (le_int b)) }"

definition hdr_set :: "sds \<Rightarrow> nat \<Rightarrow> nat \<Rightarrow> nat \<Rightarrow> sds option" where
  "hdr_set s w i x = do {
     guard (2 * w + 1 \<le> soff s);
     m \<leftarrow> wr (sblk s) (soff s - (2 * w + 1) + i * w) (le_bytes w (int x));
     Some (s\<lparr>sblk := m\<rparr>) }"

definition sdsType :: "sds \<Rightarrow> byte option" where
  "sdsType s = do { flags \<leftarrow> sds_flags s; Some (flags AND SDS_TYPE_MASK) }"

definition SDS_TYPE_5_LEN :: "sds \<Rightarrow> nat option" where
  "SDS_TYPE_5_LEN s = do { flags \<leftarrow> sds_flags s; Some (unat (drop_bit SDS_TYPE_BITS flags)) }"

definition sdsGetAuxBit :: "sds \<Rightarrow> nat \<Rightarrow> bool option" where
  "sdsGetAuxBit s b = do {
     t \<leftarrow> sdsType s;
     if t = SDS_TYPE_5 then Some False
     else do { flags \<leftarrow> sds_flags s; Some (flags AND push_bit (SDS_TYPE_BITS + b) 1 \<noteq> 0) } }"

definition sdsSetAuxBit :: "sds \<Rightarrow> nat \<Rightarrow> bool \<Rightarrow> sds option" where
  "sdsSetAuxBit s b v = do {
     t \<leftarrow> sdsType s;
     if t = SDS_TYPE_5 then Some s
     else do {
       flags \<leftarrow> sds_flags s;
       set_flags s (if v then flags OR push_bit (SDS_TYPE_BITS + b) 1 else flags AND NOT (push_bit (SDS_TYPE_BITS + b) 1)) } }"

definition sdslen :: "sds \<Rightarrow> nat option" where
  "sdslen s = do {
     t \<leftarrow> sdsType s;
     if t = SDS_TYPE_5 then SDS_TYPE_5_LEN s
     else case sdshdr_field t of Some w \<Rightarrow> hdr_get s w 0 | None \<Rightarrow> Some 0 }"

text \<open>The difference of two fields: of type \<open>int\<close> for the narrow ones, then converted to \<open>size_t\<close>.\<close>

definition field_sub :: "nat \<Rightarrow> nat \<Rightarrow> nat \<Rightarrow> nat" where
  "field_sub w x y = (if w = 4 then nat ((int x - int y) mod 2 ^ 32) else nat ((int x - int y) mod 2 ^ 64))"

definition sdsavail :: "sds \<Rightarrow> nat option" where
  "sdsavail s = do {
     t \<leftarrow> sdsType s;
     case sdshdr_field t of
       Some w \<Rightarrow> do { al \<leftarrow> hdr_get s w 1; len \<leftarrow> hdr_get s w 0; Some (field_sub w al len) }
     | None \<Rightarrow> Some 0 }"

definition sdssetlen :: "sds \<Rightarrow> nat \<Rightarrow> sds option" where
  "sdssetlen s newlen = do {
     t \<leftarrow> sdsType s;
     if t = SDS_TYPE_5 then set_flags s (SDS_TYPE_5 OR push_bit SDS_TYPE_BITS (of_nat newlen))
     else case sdshdr_field t of Some w \<Rightarrow> hdr_set s w 0 newlen | None \<Rightarrow> Some s }"

definition sdsinclen :: "sds \<Rightarrow> nat \<Rightarrow> sds option" where
  "sdsinclen s inc = do {
     t \<leftarrow> sdsType s;
     if t = SDS_TYPE_5 then do {
       l \<leftarrow> SDS_TYPE_5_LEN s;
       set_flags s (SDS_TYPE_5 OR push_bit SDS_TYPE_BITS (of_nat (l + inc))) }
     else case sdshdr_field t of Some w \<Rightarrow> do { l \<leftarrow> hdr_get s w 0; hdr_set s w 0 (l + inc) } | None \<Rightarrow> Some s }"

definition sdsAllocSize :: "sds \<Rightarrow> nat option" where
  "sdsAllocSize s = do {
     t \<leftarrow> sdsType s;
     if t = SDS_TYPE_5 then do { l \<leftarrow> SDS_TYPE_5_LEN s; Some (1 + l + 1) }
     else case sdshdr_field t of Some w \<Rightarrow> do { al \<leftarrow> hdr_get s w 1; Some ((2 * w + 1 + al + 1) mod 2 ^ 64) } | None \<Rightarrow> Some 0 }"

definition sdsalloc :: "sds \<Rightarrow> nat option" where
  "sdsalloc s = do {
     t \<leftarrow> sdsType s;
     if t = SDS_TYPE_5 then SDS_TYPE_5_LEN s
     else case sdshdr_field t of Some w \<Rightarrow> hdr_get s w 1 | None \<Rightarrow> Some 0 }"

definition sdssetalloc :: "sds \<Rightarrow> nat \<Rightarrow> sds option" where
  "sdssetalloc s newlen = do {
     t \<leftarrow> sdsType s;
     case sdshdr_field t of Some w \<Rightarrow> hdr_set s w 1 newlen | None \<Rightarrow> Some s }"

definition sdsReqSize :: "nat \<Rightarrow> byte \<Rightarrow> nat" where
  "sdsReqSize len type = (len + sdsHdrSize type + 1) mod 2 ^ 64"

definition sdsReqType :: "nat \<Rightarrow> byte" where
  "sdsReqType string_size =
     (if string_size < 2 ^ 5 then SDS_TYPE_5
      else if string_size \<le> 2 ^ 8 - 3 - 1 then SDS_TYPE_8
      else if string_size \<le> 2 ^ 16 - 5 - 1 then SDS_TYPE_16
      else if string_size \<le> 2 ^ 32 - 9 - 1 then SDS_TYPE_32
      else SDS_TYPE_64)"

definition sdsTypeMaxSize :: "byte \<Rightarrow> nat" where
  "sdsTypeMaxSize type =
     (if type = SDS_TYPE_5 then 2 ^ 5 - 1 else if type = SDS_TYPE_8 then 2 ^ 8 - 1 else if type = SDS_TYPE_16 then 2 ^ 16 - 1
      else if type = SDS_TYPE_32 then 2 ^ 32 - 1 else 2 ^ 64 - 1)"

definition adjustTypeIfNeeded :: "byte \<Rightarrow> nat \<Rightarrow> nat \<Rightarrow> bool \<times> byte \<times> nat" where
  "adjustTypeIfNeeded type hdrlen bufsize =
     (let usable = bufsize - hdrlen - 1 in
      if type \<noteq> SDS_TYPE_5 \<and> usable > sdsTypeMaxSize type
      then (True, sdsReqType usable, sdsHdrSize (sdsReqType usable)) else (False, type, hdrlen))"

section \<open>Creation\<close>

text \<open>The argument \<open>init\<close>: a buffer, the null pointer or \<open>SDS_NOINIT\<close>.\<close>

datatype sdsinit = Init mem | InitNull | SDS_NOINIT

text \<open>\<open>s[i] = c\<close> and \<open>memcpy(s + i, b, n)\<close>.\<close>

definition sput :: "sds \<Rightarrow> nat \<Rightarrow> byte \<Rightarrow> sds option" where
  "sput s i c = do { m \<leftarrow> setb (sblk s) (soff s + i) c; Some (s\<lparr>sblk := m\<rparr>) }"

definition swr :: "sds \<Rightarrow> nat \<Rightarrow> mem \<Rightarrow> sds option" where
  "swr s i b = do { m \<leftarrow> wr (sblk s) (soff s + i) b; Some (s\<lparr>sblk := m\<rparr>) }"

definition srd :: "sds \<Rightarrow> nat \<Rightarrow> nat \<Rightarrow> mem option" where
  "srd s i n = rd (sblk s) (soff s + i) n"

definition sdsnewplacement :: "mem \<Rightarrow> nat \<Rightarrow> byte \<Rightarrow> sdsinit \<Rightarrow> nat \<Rightarrow> sds option" where
  "sdsnewplacement buf bufsize type init initlen = do {
     guard (bufsize \<ge> sdsReqSize initlen type);
     let hdrlen = sdsHdrSize type;
     let usable = bufsize - hdrlen - 1;
     let s = \<lparr>sblk = buf, soff = hdrlen\<rparr>;
     s \<leftarrow>
       (if type = SDS_TYPE_5 then set_flags s (type OR push_bit SDS_TYPE_BITS (of_nat initlen))
        else case sdshdr_field type of
          Some w \<Rightarrow> do { s \<leftarrow> hdr_set s w 0 initlen; s \<leftarrow> hdr_set s w 1 usable; set_flags s type }
        | None \<Rightarrow> Some s);
     s \<leftarrow>
       (case init of SDS_NOINIT \<Rightarrow> Some s | InitNull \<Rightarrow> swr s 0 (replicate initlen 0)
        | Init b \<Rightarrow> if initlen = 0 then Some s else do { t \<leftarrow> rd b 0 initlen; swr s 0 t });
     sput s initlen 0 }"

definition sdsnewlen' :: "allocator \<Rightarrow> sdsinit \<Rightarrow> nat \<Rightarrow> bool \<Rightarrow> sds option option" where
  "sdsnewlen' a init initlen trymalloc = do {
     let type = sdsReqType initlen;
     let type = (if type = SDS_TYPE_5 \<and> initlen = 0 then SDS_TYPE_8 else type);
     let hdrlen = sdsHdrSize type;
     let overflow = \<not> (initlen + hdrlen + 1) mod 2 ^ 64 > initlen;
     if trymalloc \<and> overflow then Some None
     else do {
       guard (\<not> overflow);
       case zmalloc_usable a (hdrlen + initlen + 1) of
         None \<Rightarrow> Some None
       | Some (sh, bufsize) \<Rightarrow> do {
           let (_, type, hdrlen) = adjustTypeIfNeeded type hdrlen bufsize;
           s \<leftarrow> sdsnewplacement sh bufsize type init initlen;
           Some (Some s) } } }"

definition sdsnewlen :: "allocator \<Rightarrow> sdsinit \<Rightarrow> nat \<Rightarrow> sds option option" where
  "sdsnewlen a init initlen = sdsnewlen' a init initlen False"

definition sdstrynewlen :: "allocator \<Rightarrow> sdsinit \<Rightarrow> nat \<Rightarrow> sds option option" where
  "sdstrynewlen a init initlen = sdsnewlen' a init initlen True"

definition sdsempty :: "allocator \<Rightarrow> sds option option" where
  "sdsempty a = sdsnewlen a (Init [0]) 0"

text \<open>\<open>strlen\<close>: the position of the first zero byte, which the block must have.\<close>

definition strlen :: "mem \<Rightarrow> nat option" where
  "strlen b = (let n = length (takeWhile (\<lambda>c. c \<noteq> 0) b) in if n < length b then Some n else None)"

definition sdsnew :: "allocator \<Rightarrow> mem option \<Rightarrow> sds option option" where
  "sdsnew a init = (case init of None \<Rightarrow> sdsnewlen a InitNull 0 | Some b \<Rightarrow> do { n \<leftarrow> strlen b; sdsnewlen a (Init b) n })"

definition sdsdup :: "allocator \<Rightarrow> sds \<Rightarrow> sds option option" where
  "sdsdup a s = do { n \<leftarrow> sdslen s; sdsnewlen a (Init (drop (soff s) (sblk s))) n }"

text \<open>\<open>sdsfree\<close>: the pointer handed to the allocator must be the start of the block; the size handed over with it is not used by the port.\<close>

definition sdsAllocPtr :: "sds \<Rightarrow> nat option" where
  "sdsAllocPtr s = do { flags \<leftarrow> sds_flags s; guard (sdsHdrSize flags \<le> soff s); Some (soff s - sdsHdrSize flags) }"

definition sdsfree :: "sds option \<Rightarrow> unit option" where
  "sdsfree s = (case s of None \<Rightarrow> Some () | Some s \<Rightarrow> do {
     t \<leftarrow> sdsType s;
     p \<leftarrow> sdsAllocPtr s;
     (if t = SDS_TYPE_5 then Some 0 else sdsAllocSize s);
     guard (p = 0) })"

definition sdsfreegeneric :: "sds option \<Rightarrow> unit option" where
  "sdsfreegeneric s = sdsfree s"

text \<open>The tokens are freed from the last to the first, then the array.\<close>

fun sdsfreesplitres_loop :: "sds option list \<Rightarrow> unit option" where
  "sdsfreesplitres_loop [] = Some ()"
| "sdsfreesplitres_loop (t # tokens) = do { sdsfree t; sdsfreesplitres_loop tokens }"

definition sdsfreesplitres :: "sds option list option \<Rightarrow> unit option" where
  "sdsfreesplitres tokens = (case tokens of None \<Rightarrow> Some () | Some ts \<Rightarrow> sdsfreesplitres_loop (rev ts))"

section \<open>Growing and shrinking\<close>

definition sdsupdatelen :: "sds \<Rightarrow> sds option" where
  "sdsupdatelen s = do { n \<leftarrow> strlen (drop (soff s) (sblk s)); sdssetlen s n }"

definition sdsclear :: "sds \<Rightarrow> sds option" where
  "sdsclear s = do { s \<leftarrow> sdssetlen s 0; sput s 0 0 }"

text \<open>The move behind a header of another size: \<open>memcpy(newsh + hdrlen, s, len + 1); s[-1] = type\<close>.\<close>

definition sds_move :: "mem \<Rightarrow> nat \<Rightarrow> byte \<Rightarrow> mem \<Rightarrow> sds option" where
  "sds_move newsh hdrlen type b = do {
     s \<leftarrow> swr \<lparr>sblk = newsh, soff = hdrlen\<rparr> 0 b;
     set_flags s type }"

text \<open>The new block for a header of type \<open>type\<close>: reallocated when the type stays, otherwise allocated and copied.\<close>

definition sdsMakeRoom_block :: "allocator \<Rightarrow> sds \<Rightarrow> byte \<Rightarrow> nat \<Rightarrow> byte \<Rightarrow> nat \<Rightarrow> sds option option" where
  "sdsMakeRoom_block a s oldtype len type sz =
     (let hdrlen = sdsHdrSize type in
      case (if oldtype = type then zrealloc_usable a (sblk s) sz else zmalloc_usable a sz) of
        None \<Rightarrow> Some None
      | Some (newsh, bufsize) \<Rightarrow> (case adjustTypeIfNeeded type hdrlen bufsize of (adjusted, type', hdrlen') \<Rightarrow> do {
          s \<leftarrow>
            (if oldtype = type \<and> \<not> adjusted then Some \<lparr>sblk = newsh, soff = hdrlen\<rparr>
             else do {
               b \<leftarrow> (if oldtype = type then srd \<lparr>sblk = newsh, soff = hdrlen\<rparr> 0 (len + 1) else srd s 0 (len + 1));
               s \<leftarrow> sds_move newsh hdrlen' type' b;
               sdssetlen s len });
          let usable = bufsize - hdrlen' - 1;
          guard (type' = SDS_TYPE_5 \<or> usable \<le> sdsTypeMaxSize type');
          s \<leftarrow> sdssetalloc s usable;
          Some (Some s) }))"

definition sdsMakeRoomFor' :: "allocator \<Rightarrow> sds \<Rightarrow> nat \<Rightarrow> bool \<Rightarrow> sds option option" where
  "sdsMakeRoomFor' a s addlen greedy = do {
     avail \<leftarrow> sdsavail s;
     oldtype \<leftarrow> sdsType s;
     if avail \<ge> addlen then Some (Some s)
     else do {
       len \<leftarrow> sdslen s;
       guard (soff s = sdsHdrSize oldtype);
       let reqlen = (len + addlen) mod 2 ^ 64;
       guard (reqlen > len);
       let newlen = (if greedy then (if reqlen < SDS_MAX_PREALLOC then reqlen * 2 else (reqlen + SDS_MAX_PREALLOC) mod 2 ^ 64) else reqlen);
       let type = sdsReqType newlen;
       let type = (if type = SDS_TYPE_5 then SDS_TYPE_8 else type);
       let sz = (sdsHdrSize type + newlen + 1) mod 2 ^ 64;
       guard (sz > reqlen);
       sdsMakeRoom_block a s oldtype len type sz } }"

definition sdsMakeRoomFor :: "allocator \<Rightarrow> sds \<Rightarrow> nat \<Rightarrow> sds option option" where
  "sdsMakeRoomFor a s addlen = sdsMakeRoomFor' a s addlen True"

definition sdsMakeRoomForNonGreedy :: "allocator \<Rightarrow> sds \<Rightarrow> nat \<Rightarrow> sds option option" where
  "sdsMakeRoomForNonGreedy a s addlen = sdsMakeRoomFor' a s addlen False"

text \<open>The two ways to resize, and what both end with.\<close>

definition sdsResize_end :: "sds \<Rightarrow> nat \<Rightarrow> nat \<Rightarrow> sds option option" where
  "sdsResize_end s len newsize = do { s \<leftarrow> sput s len 0; s \<leftarrow> sdssetlen s len; s \<leftarrow> sdssetalloc s newsize; Some (Some s) }"

definition sdsResize_realloc :: "allocator \<Rightarrow> sds \<Rightarrow> byte \<Rightarrow> nat \<Rightarrow> nat \<Rightarrow> sds option option" where
  "sdsResize_realloc a s oldtype len newlen =
     (let oldhdrlen = sdsHdrSize oldtype in
      case zrealloc_usable a (sblk s) newlen of
        None \<Rightarrow> Some None
      | Some (newsh, bufsize) \<Rightarrow> (case adjustTypeIfNeeded oldtype oldhdrlen bufsize of (adjusted, oldtype', oldhdrlen') \<Rightarrow> do {
          let s = \<lparr>sblk = newsh, soff = oldhdrlen\<rparr>;
          s \<leftarrow> (if adjusted then do { b \<leftarrow> srd s 0 (len + 1); s \<leftarrow> sds_move newsh oldhdrlen' oldtype' b; sdssetlen s len } else Some s);
          sdsResize_end s len (bufsize - oldhdrlen' - 1) }))"

definition sdsResize_malloc :: "allocator \<Rightarrow> sds \<Rightarrow> byte \<Rightarrow> nat \<Rightarrow> nat \<Rightarrow> sds option option" where
  "sdsResize_malloc a s type len newlen =
     (case zmalloc_usable a newlen of
        None \<Rightarrow> Some None
      | Some (newsh, bufsize) \<Rightarrow> (case adjustTypeIfNeeded type (sdsHdrSize type) bufsize of (adjusted, type', hdrlen') \<Rightarrow> do {
          b \<leftarrow> srd s 0 (len + 1);
          s \<leftarrow> sds_move newsh hdrlen' type' b;
          sdsResize_end s len (bufsize - hdrlen' - 1) }))"

definition sdsResize :: "allocator \<Rightarrow> sds \<Rightarrow> nat \<Rightarrow> bool \<Rightarrow> sds option option" where
  "sdsResize a s sz would_regrow = do {
     oldtype \<leftarrow> sdsType s;
     len \<leftarrow> sdslen s;
     al \<leftarrow> sdsalloc s;
     if al = sz then Some (Some s)
     else do {
       guard (soff s = sdsHdrSize oldtype);
       let len = (if sz < len then sz else len);
       let type = sdsReqType sz;
       let type = (if would_regrow \<and> type = SDS_TYPE_5 then SDS_TYPE_8 else type);
       if oldtype = type \<or> type < oldtype \<and> type > SDS_TYPE_8
       then sdsResize_realloc a s oldtype len ((sdsHdrSize oldtype + sz + 1) mod 2 ^ 64)
       else sdsResize_malloc a s type len ((sdsHdrSize type + sz + 1) mod 2 ^ 64) } }"

definition sdsRemoveFreeSpace :: "allocator \<Rightarrow> sds \<Rightarrow> bool \<Rightarrow> sds option option" where
  "sdsRemoveFreeSpace a s would_regrow = do { n \<leftarrow> sdslen s; sdsResize a s n would_regrow }"

text \<open>The assertions compare in the types of the operands: \<open>int\<close> for the narrow fields, \<open>unsigned int\<close> where a cast says so.\<close>

definition sdsIncrLen :: "sds \<Rightarrow> int \<Rightarrow> sds option" where
  "sdsIncrLen s incr = do {
     t \<leftarrow> sdsType s;
     (s, len) \<leftarrow>
       (if t = SDS_TYPE_5 then do {
          l \<leftarrow> SDS_TYPE_5_LEN s;
          guard (incr > 0 \<and> int l + incr < 32 \<or> incr < 0 \<and> int l \<ge> (- incr) mod 2 ^ 32);
          s \<leftarrow> set_flags s (SDS_TYPE_5 OR push_bit SDS_TYPE_BITS (word_of_int (int l + incr)));
          Some (s, nat ((int l + incr) mod 2 ^ 64)) }
        else case sdshdr_field t of
          Some w \<Rightarrow> do {
            l \<leftarrow> hdr_get s w 0;
            al \<leftarrow> hdr_get s w 1;
            guard (if w \<le> 2 then incr \<ge> 0 \<and> int al - int l \<ge> incr \<or> incr < 0 \<and> int l \<ge> (- incr) mod 2 ^ 32
                   else if w = 4 then incr \<ge> 0 \<and> (int al - int l) mod 2 ^ 32 \<ge> incr mod 2 ^ 32 \<or> incr < 0 \<and> int l \<ge> (- incr) mod 2 ^ 32
                   else incr \<ge> 0 \<and> (int al - int l) mod 2 ^ 64 \<ge> incr \<or> incr < 0 \<and> int l \<ge> - incr);
            let len = nat ((int l + incr) mod 256 ^ w);
            s \<leftarrow> hdr_set s w 0 len;
            Some (s, len) }
        | None \<Rightarrow> Some (s, 0));
     sput s len 0 }"

definition sdsgrowzero :: "allocator \<Rightarrow> sds \<Rightarrow> nat \<Rightarrow> sds option option" where
  "sdsgrowzero a s len = do {
     curlen \<leftarrow> sdslen s;
     if len \<le> curlen then Some (Some s)
     else do {
       r \<leftarrow> sdsMakeRoomFor a s (len - curlen);
       case r of None \<Rightarrow> Some None
       | Some s \<Rightarrow> do {
           s \<leftarrow> swr s curlen (replicate (len - curlen + 1) 0);
           s \<leftarrow> sdssetlen s len;
           Some (Some s) } } }"

text \<open>The bytes appended are those of another object.\<close>

definition sdscatlen :: "allocator \<Rightarrow> sds \<Rightarrow> mem \<Rightarrow> sds option option" where
  "sdscatlen a s t = do {
     curlen \<leftarrow> sdslen s;
     r \<leftarrow> sdsMakeRoomFor a s (length t);
     case r of None \<Rightarrow> Some None
     | Some s \<Rightarrow> do {
         s \<leftarrow> swr s curlen t;
         s \<leftarrow> sdssetlen s (curlen + length t);
         s \<leftarrow> sput s (curlen + length t) 0;
         Some (Some s) } }"

definition sdscat :: "allocator \<Rightarrow> sds \<Rightarrow> mem \<Rightarrow> sds option option" where
  "sdscat a s t = do { n \<leftarrow> strlen t; sdscatlen a s (take n t) }"

definition sdscatsds :: "allocator \<Rightarrow> sds \<Rightarrow> sds \<Rightarrow> sds option option" where
  "sdscatsds a s t = do { n \<leftarrow> sdslen t; b \<leftarrow> srd t 0 n; sdscatlen a s b }"

definition sdscpylen :: "allocator \<Rightarrow> sds \<Rightarrow> mem \<Rightarrow> sds option option" where
  "sdscpylen a s t = do {
     al \<leftarrow> sdsalloc s;
     n \<leftarrow> sdslen s;
     r \<leftarrow> (if al < length t then sdsMakeRoomFor a s (nat ((int (length t) - int n) mod 2 ^ 64)) else Some (Some s));
     case r of None \<Rightarrow> Some None
     | Some s \<Rightarrow> do {
         s \<leftarrow> swr s 0 t;
         s \<leftarrow> sput s (length t) 0;
         s \<leftarrow> sdssetlen s (length t);
         Some (Some s) } }"

definition sdscpy :: "allocator \<Rightarrow> sds \<Rightarrow> mem \<Rightarrow> sds option option" where
  "sdscpy a s t = do { n \<leftarrow> strlen t; sdscpylen a s (take n t) }"

definition sdsfromlonglong :: "allocator \<Rightarrow> fresh \<Rightarrow> i64 \<Rightarrow> sds option option" where
  "sdsfromlonglong a f v = do {
     (len, buf) \<leftarrow> ll2string (map f [0..<LONG_STR_SIZE]) LONG_STR_SIZE v;
     sdsnewlen a (Init buf) len }"

section \<open>Formatted appending\<close>

text \<open>The loop of \<open>sdscatvprintf\<close> over buffers of \<open>buflen\<close> bytes. The argument \<open>out\<close> is what \<open>vsnprintf\<close> produces for the format and the
  arguments, of any length below the limit of its \<open>int\<close> result, and \<^term>\<open>None\<close> when it reports an error.\<close>

function vprintf_loop :: "allocator \<Rightarrow> sds \<Rightarrow> nat \<Rightarrow> mem option \<Rightarrow> sds option option" where
  "vprintf_loop a s buflen out =
     (case out of None \<Rightarrow> Some None
      | Some t \<Rightarrow>
          if length t \<ge> buflen then (if a (length t + 1) = None then Some None else vprintf_loop a s (length t + 1) out)
          else sdscatlen a s t)"
  by pat_completeness auto
termination by (relation "measure (\<lambda>(a, s, buflen, out). case out of None \<Rightarrow> 0 | Some t \<Rightarrow> length t + 1 - buflen)") auto

declare vprintf_loop.simps [simp del]

definition sdscatvprintf :: "allocator \<Rightarrow> sds \<Rightarrow> mem \<Rightarrow> mem option \<Rightarrow> sds option option" where
  "sdscatvprintf a s fmt out = do {
     n \<leftarrow> strlen fmt;
     let buflen = n * 2;
     if buflen > 1024 then (if a buflen = None then Some None else vprintf_loop a s buflen out)
     else vprintf_loop a s 1024 out }"

definition sdscatprintf :: "allocator \<Rightarrow> sds \<Rightarrow> mem \<Rightarrow> mem option \<Rightarrow> sds option option" where
  "sdscatprintf a s fmt out = sdscatvprintf a s fmt out"

text \<open>The variable arguments; reading one of the wrong type is undefined. \<open>int\<close> and \<open>unsigned int\<close> are widened to 64 bits after reading.\<close>

datatype fmtarg = ArgString mem | ArgSds sds | ArgInt i32 | ArgLongLong i64 | ArgUInt u32 | ArgULongLong u64

text \<open>\<open>if (sdsavail(s) < l) s = sdsMakeRoomFor(s,l); memcpy(s+i,str,l); sdsinclen(s,l)\<close>.\<close>

definition fmt_put :: "allocator \<Rightarrow> sds \<Rightarrow> nat \<Rightarrow> mem \<Rightarrow> sds option" where
  "fmt_put a s i b = do {
     av \<leftarrow> sdsavail s;
     s \<leftarrow> (if av < length b then do { r \<leftarrow> sdsMakeRoomFor a s (length b); r } else Some s);
     s \<leftarrow> swr s i b;
     sdsinclen s (length b) }"

text \<open>\<open>s[i++] = c; sdsinclen(s,1)\<close>.\<close>

definition fmt_char :: "sds \<Rightarrow> nat \<Rightarrow> byte \<Rightarrow> sds option" where
  "fmt_char s i c = do { s \<leftarrow> sput s i c; sdsinclen s 1 }"

text \<open>The text of an argument; \<^term>\<open>None\<close> inside when the character after the percent sign stands for itself.\<close>

fun fmt_arg :: "fresh \<Rightarrow> byte \<Rightarrow> fmtarg list \<Rightarrow> (mem option \<times> fmtarg list) option" where
  "fmt_arg f next args =
     (if next = 0x73 then (case args of ArgString t # args \<Rightarrow> do { n \<leftarrow> strlen t; Some (Some (take n t), args) } | _ \<Rightarrow> None)
      else if next = 0x53 then (case args of ArgSds t # args \<Rightarrow> do { n \<leftarrow> sdslen t; b \<leftarrow> srd t 0 n; Some (Some b, args) } | _ \<Rightarrow> None)
      else if next = 0x69 \<or> next = 0x49 then do {
        (num, args) \<leftarrow>
          (if next = 0x69 then (case args of ArgInt v # args \<Rightarrow> Some (scast v :: i64, args) | _ \<Rightarrow> None)
           else (case args of ArgLongLong v # args \<Rightarrow> Some (v, args) | _ \<Rightarrow> None));
        (n, b) \<leftarrow> ll2string (map f [0..<LONG_STR_SIZE]) LONG_STR_SIZE num;
        Some (Some (take n b), args) }
      else if next = 0x75 \<or> next = 0x55 then do {
        (unum, args) \<leftarrow>
          (if next = 0x75 then (case args of ArgUInt v # args \<Rightarrow> Some (ucast v :: u64, args) | _ \<Rightarrow> None)
           else (case args of ArgULongLong v # args \<Rightarrow> Some (v, args) | _ \<Rightarrow> None));
        (n, b) \<leftarrow> ull2string (map f [0..<LONG_STR_SIZE]) 0 LONG_STR_SIZE unum;
        Some (Some (take n b), args) }
      else Some (None, args))"

fun sdscatfmt_loop :: "allocator \<Rightarrow> fresh \<Rightarrow> sds \<Rightarrow> nat \<Rightarrow> mem \<Rightarrow> fmtarg list \<Rightarrow> (sds \<times> nat) option" where
  "sdscatfmt_loop a f s i [] args = Some (s, i)"
| "sdscatfmt_loop a f s i (c # fmt) args = do {
     av \<leftarrow> sdsavail s;
     s \<leftarrow> (if av = 0 then do { r \<leftarrow> sdsMakeRoomFor a s 1; r } else Some s);
     if c = 0x25 then
       case fmt of
         [] \<Rightarrow> sdscatfmt_loop a f s i [] args
       | next # fmt \<Rightarrow> do {
           (b, args) \<leftarrow> fmt_arg f next args;
           case b of
             None \<Rightarrow> do { s \<leftarrow> fmt_char s i next; sdscatfmt_loop a f s (i + 1) fmt args }
           | Some b \<Rightarrow> do { s \<leftarrow> fmt_put a s i b; sdscatfmt_loop a f s (i + length b) fmt args } }
     else do {
       s \<leftarrow> fmt_char s i c;
       sdscatfmt_loop a f s (i + 1) fmt args } }"

definition sdscatfmt :: "allocator \<Rightarrow> fresh \<Rightarrow> sds \<Rightarrow> mem \<Rightarrow> fmtarg list \<Rightarrow> sds option" where
  "sdscatfmt a f s fmt args = do {
     initlen \<leftarrow> sdslen s;
     n \<leftarrow> strlen fmt;
     r \<leftarrow> sdsMakeRoomFor a s (n * 2);
     s \<leftarrow> r;
     (s, i) \<leftarrow> sdscatfmt_loop a f s initlen (take n fmt) args;
     sput s i 0 }"

section \<open>Cutting and comparing\<close>

definition sget :: "sds \<Rightarrow> int \<Rightarrow> byte option" where
  "sget s i = do { guard (0 \<le> int (soff s) + i); getb (sblk s) (nat (int (soff s) + i)) }"

text \<open>\<open>strchr(cset, c) != NULL\<close>: the terminator of \<open>cset\<close> is found too.\<close>

definition strchr :: "mem \<Rightarrow> byte \<Rightarrow> bool" where "strchr cset c = (c \<in> set cset \<or> c = 0)"

function trim_left :: "mem \<Rightarrow> sds \<Rightarrow> int \<Rightarrow> int \<Rightarrow> int option" where
  "trim_left cset s sp en = (if sp \<le> en then do { c \<leftarrow> sget s sp; if strchr cset c then trim_left cset s (sp + 1) en else Some sp } else Some sp)"
  by pat_completeness auto
termination by (relation "measure (\<lambda>(cset, s, sp, en). nat (en - sp + 1))") auto

function trim_right :: "mem \<Rightarrow> sds \<Rightarrow> int \<Rightarrow> int \<Rightarrow> int option" where
  "trim_right cset s sp ep = (if ep > sp then do { c \<leftarrow> sget s ep; if strchr cset c then trim_right cset s sp (ep - 1) else Some ep } else Some ep)"
  by pat_completeness auto
termination by (relation "measure (\<lambda>(cset, s, sp, ep). nat (ep - sp))") auto

declare trim_left.simps [simp del] trim_right.simps [simp del]

definition sdstrim :: "sds \<Rightarrow> mem \<Rightarrow> sds option" where
  "sdstrim s cset = do {
     n \<leftarrow> sdslen s;
     let en = int n - 1;
     sp \<leftarrow> trim_left cset s 0 en;
     ep \<leftarrow> trim_right cset s sp en;
     let len = nat ((ep - sp + 1) mod 2 ^ 64);
     s \<leftarrow> (if sp \<noteq> 0 then do { b \<leftarrow> srd s (nat sp) len; swr s 0 b } else Some s);
     s \<leftarrow> sput s len 0;
     sdssetlen s len }"

definition sdssubstr :: "sds \<Rightarrow> nat \<Rightarrow> nat \<Rightarrow> sds option" where
  "sdssubstr s start len = do {
     oldlen \<leftarrow> sdslen s;
     let (start, len) = (if start \<ge> oldlen then (0, 0) else (start, len));
     let len = (if len > oldlen - start then oldlen - start else len);
     s \<leftarrow> (if len \<noteq> 0 then do { b \<leftarrow> srd s start len; swr s 0 b } else Some s);
     s \<leftarrow> sput s len 0;
     sdssetlen s len }"

definition sdsrange :: "sds \<Rightarrow> int \<Rightarrow> int \<Rightarrow> sds option" where
  "sdsrange s start en = do {
     len \<leftarrow> sdslen s;
     if len = 0 then Some s
     else do {
       let start = (if start < 0 then int len + start else start);
       let en = (if en < 0 then int len + en else en);
       guard (start > en \<or> en - start < 2 ^ 63 - 1);
       let newlen = (if start > en then 0 else nat (en - start + 1));
       sdssubstr s (nat (start mod 2 ^ 64)) newlen } }"

definition toupper :: "int \<Rightarrow> int" where "toupper c = (if 97 \<le> c \<and> c \<le> 122 then c - 32 else c)"

definition sdstolower :: "sds \<Rightarrow> sds option" where
  "sdstolower s = do { len \<leftarrow> sdslen s; b \<leftarrow> srd s 0 len; swr s 0 (map (\<lambda>c. word_of_int (tolower (sint c))) b) }"

definition sdstoupper :: "sds \<Rightarrow> sds option" where
  "sdstoupper s = do { len \<leftarrow> sdslen s; b \<leftarrow> srd s 0 len; swr s 0 (map (\<lambda>c. word_of_int (toupper (sint c))) b) }"

text \<open>The sign of \<open>memcmp\<close> on two buffers of the same length.\<close>

fun memcmp_sgn :: "mem \<Rightarrow> mem \<Rightarrow> int" where
  "memcmp_sgn (x # xs) (y # ys) = (if x < y then -1 else if x > y then 1 else memcmp_sgn xs ys)"
| "memcmp_sgn _ _ = 0"

definition sdscmp :: "sds \<Rightarrow> sds \<Rightarrow> int option" where
  "sdscmp s1 s2 = do {
     l1 \<leftarrow> sdslen s1;
     l2 \<leftarrow> sdslen s2;
     let minlen = (if l1 < l2 then l1 else l2);
     b1 \<leftarrow> srd s1 0 minlen;
     b2 \<leftarrow> srd s2 0 minlen;
     let cmp = memcmp_sgn b1 b2;
     Some (if cmp = 0 then (if l1 > l2 then 1 else if l1 < l2 then -1 else 0) else cmp) }"

definition sdscmplen :: "sds \<Rightarrow> sds \<Rightarrow> int option" where
  "sdscmplen s1 s2 = do {
     l1 \<leftarrow> sdslen s1;
     l2 \<leftarrow> sdslen s2;
     if l1 \<noteq> l2 then Some (if l1 > l2 then 1 else -1)
     else do { b1 \<leftarrow> srd s1 0 l1; b2 \<leftarrow> srd s2 0 l1; Some (memcmp_sgn b1 b2) } }"

text \<open>The first position of the set that is equal to the character decides.\<close>

fun map_char :: "mem \<Rightarrow> mem \<Rightarrow> byte \<Rightarrow> byte" where
  "map_char (x # xs) (y # ys) c = (if c = x then y else map_char xs ys c)"
| "map_char _ _ c = c"

definition sdsmapchars :: "sds \<Rightarrow> mem \<Rightarrow> mem \<Rightarrow> nat \<Rightarrow> sds option" where
  "sdsmapchars s from to setlen = do {
     l \<leftarrow> sdslen s;
     b \<leftarrow> srd s 0 l;
     guard (l = 0 \<or> setlen \<le> length from \<and> setlen \<le> length to);
     swr s 0 (map (map_char (take setlen from) (take setlen to)) b) }"

section \<open>Splitting, joining and quoting\<close>

text \<open>The room for two more tokens is kept in the array of \<open>slots\<close> pointers; an \<open>int\<close> counts them.\<close>

definition split_room :: "allocator \<Rightarrow> int \<Rightarrow> int \<Rightarrow> int option option" where
  "split_room a slots elements =
     (if slots < elements + 2 then do { slots \<leftarrow> c_int (slots * 2); Some (if a (8 * nat slots) = None then None else Some slots) }
      else Some (Some slots))"

function sdssplitlen_loop :: "allocator \<Rightarrow> mem \<Rightarrow> mem \<Rightarrow> nat \<Rightarrow> nat \<Rightarrow> sds list \<Rightarrow> int \<Rightarrow> (sds list \<times> nat \<times> int) option option" where
  "sdssplitlen_loop a s sep j start tokens slots =
     (if sep \<noteq> [] \<and> int j < int (length s) - (int (length sep) - 1) then do {
        room \<leftarrow> split_room a slots (int (length tokens));
        case room of None \<Rightarrow> Some None
        | Some slots \<Rightarrow>
            if length sep = 1 \<and> s ! j = sep ! 0 \<or> take (length sep) (drop j s) = sep then do {
              guard (int (length tokens) < slots);
              t \<leftarrow> sdsnewlen a (Init (drop start s)) (j - start);
              case t of None \<Rightarrow> Some None
              | Some t \<Rightarrow> sdssplitlen_loop a s sep (j + length sep) (j + length sep) (tokens @ [t]) slots }
            else sdssplitlen_loop a s sep (j + 1) start tokens slots }
      else Some (Some (tokens, start, slots)))"
  by pat_completeness auto
termination by (relation "measure (\<lambda>(a, s, sep, j, start, tokens, slots). length s - j)") (auto simp flip: length_greater_0_conv)

declare sdssplitlen_loop.simps [simp del]

text \<open>\<^term>\<open>None\<close> inside is the null pointer, for an empty string or separator and when memory runs out (then the tokens are freed).\<close>

definition sdssplitlen :: "allocator \<Rightarrow> mem \<Rightarrow> mem \<Rightarrow> sds list option option" where
  "sdssplitlen a s sep =
     (if sep = [] \<or> s = [] then Some None
      else if a (8 * 5) = None then Some None
      else do {
        r \<leftarrow> sdssplitlen_loop a s sep 0 0 [] 5;
        case r of None \<Rightarrow> Some None
        | Some (tokens, start, slots) \<Rightarrow> do {
            guard (int (length tokens) < slots);
            t \<leftarrow> sdsnewlen a (Init (drop start s)) (length s - start);
            Some (case t of None \<Rightarrow> None | Some t \<Rightarrow> Some (tokens @ [t])) } })"

text \<open>The functions below do not test for the null pointer: a failed allocation makes the next access undefined.\<close>

fun sdsjoin_loop :: "allocator \<Rightarrow> sds option \<Rightarrow> mem list \<Rightarrow> mem \<Rightarrow> sds option option" where
  "sdsjoin_loop a join [] sep = Some join"
| "sdsjoin_loop a join (t # argv) sep = do {
     s \<leftarrow> join;
     join \<leftarrow> sdscat a s t;
     join \<leftarrow> (if argv \<noteq> [] then do { s \<leftarrow> join; sdscat a s sep } else Some join);
     sdsjoin_loop a join argv sep }"

definition sdsjoin :: "allocator \<Rightarrow> mem list \<Rightarrow> mem \<Rightarrow> sds option option" where
  "sdsjoin a argv sep = do { join \<leftarrow> sdsempty a; sdsjoin_loop a join argv sep }"

fun sdsjoinsds_loop :: "allocator \<Rightarrow> sds option \<Rightarrow> sds list \<Rightarrow> mem \<Rightarrow> sds option option" where
  "sdsjoinsds_loop a join [] sep = Some join"
| "sdsjoinsds_loop a join (t # argv) sep = do {
     s \<leftarrow> join;
     join \<leftarrow> sdscatsds a s t;
     join \<leftarrow> (if argv \<noteq> [] then do { s \<leftarrow> join; sdscatlen a s sep } else Some join);
     sdsjoinsds_loop a join argv sep }"

definition sdsjoinsds :: "allocator \<Rightarrow> sds list \<Rightarrow> mem \<Rightarrow> sds option option" where
  "sdsjoinsds a argv sep = do { join \<leftarrow> sdsempty a; sdsjoinsds_loop a join argv sep }"

definition isprint :: "byte \<Rightarrow> bool" where "isprint c = (32 \<le> c \<and> c < 127)"

text \<open>A digit of the conversion \<open>%02x\<close>.\<close>

definition hex_char :: "byte \<Rightarrow> byte" where "hex_char n = (if n < 10 then 48 + n else 87 + n)"

text \<open>What \<open>sdscatrepr\<close> appends for one character.\<close>

definition repr_char :: "byte \<Rightarrow> mem" where
  "repr_char c =
     (if c = 0x5C \<or> c = 0x22 then [0x5C, c]
      else if c = 10 then [0x5C, 0x6E]
      else if c = 13 then [0x5C, 0x72]
      else if c = 9 then [0x5C, 0x74]
      else if c = 7 then [0x5C, 0x61]
      else if c = 8 then [0x5C, 0x62]
      else if isprint c then [c]
      else [0x5C, 0x78, hex_char (drop_bit 4 c), hex_char (c AND 15)])"

text \<open>The formats \<open>\\%c\<close> and \<open>\\x%02x\<close> of the two calls of \<open>sdscatprintf\<close>.\<close>

definition repr_put :: "allocator \<Rightarrow> sds \<Rightarrow> byte \<Rightarrow> sds option option" where
  "repr_put a s c =
     (if c = 0x5C \<or> c = 0x22 then sdscatprintf a s [0x5C, 0x25, 0x63, 0] (Some (repr_char c))
      else if c \<in> {10, 13, 9, 7, 8} \<or> isprint c then sdscatlen a s (repr_char c)
      else sdscatprintf a s [0x5C, 0x78, 0x25, 0x30, 0x32, 0x78, 0] (Some (repr_char c)))"

fun sdscatrepr_loop :: "allocator \<Rightarrow> sds option \<Rightarrow> mem \<Rightarrow> sds option option" where
  "sdscatrepr_loop a s [] = Some s"
| "sdscatrepr_loop a s (c # p) = do { s \<leftarrow> s; s \<leftarrow> repr_put a s c; sdscatrepr_loop a s p }"

definition sdscatrepr :: "allocator \<Rightarrow> sds \<Rightarrow> mem \<Rightarrow> sds option option" where
  "sdscatrepr a s p = do {
     s \<leftarrow> sdsMakeRoomFor a s (length p + 2);
     s \<leftarrow> s;
     s \<leftarrow> sdscatlen a s [0x22];
     s \<leftarrow> sdscatrepr_loop a s p;
     s \<leftarrow> s;
     sdscatlen a s [0x22] }"

definition sdsneedsrepr :: "sds \<Rightarrow> bool option" where
  "sdsneedsrepr s = do {
     len \<leftarrow> sdslen s;
     b \<leftarrow> srd s 0 len;
     Some (list_ex (\<lambda>c. c = 0x5C \<or> c = 0x22 \<or> c = 10 \<or> c = 13 \<or> c = 9 \<or> c = 7 \<or> c = 8 \<or> \<not> isprint c \<or> isspace c) b) }"

definition is_hex_digit :: "byte \<Rightarrow> bool" where
  "is_hex_digit c = (48 \<le> c \<and> c \<le> 57 \<or> 97 \<le> c \<and> c \<le> 102 \<or> 65 \<le> c \<and> c \<le> 70)"

definition hex_digit_to_int :: "byte \<Rightarrow> byte" where
  "hex_digit_to_int c =
     (if 48 \<le> c \<and> c \<le> 57 then c - 48 else if 97 \<le> c \<and> c \<le> 102 then c - 87 else if 65 \<le> c \<and> c \<le> 70 then c - 55 else 0)"

text \<open>Reading a C string (the list of its characters without the terminator) at a position up to the terminator.\<close>

definition cchar :: "mem \<Rightarrow> nat \<Rightarrow> byte option" where
  "cchar p i = (if i < length p then Some (p ! i) else if i = length p then Some 0 else None)"

datatype quoting = Plain | InQ | InSq

definition unescape :: "byte \<Rightarrow> byte" where
  "unescape c = (if c = 0x6E then 10 else if c = 0x72 then 13 else if c = 0x74 then 9 else if c = 0x62 then 8 else if c = 0x61 then 7 else c)"

text \<open>What one round of the loop over a token does: append a character and consume some, change the quoting, end the token, or fail.\<close>

datatype tokstep = Put byte nat | Quote quoting | Done | Err

definition is_hex_escape :: "mem \<Rightarrow> bool option" where
  "is_hex_escape p = do {
     c0 \<leftarrow> cchar p 0;
     if c0 \<noteq> 0x5C then Some False else do {
     c1 \<leftarrow> cchar p 1;
     if c1 \<noteq> 0x78 then Some False else do {
     c2 \<leftarrow> cchar p 2;
     if \<not> is_hex_digit c2 then Some False else do {
     c3 \<leftarrow> cchar p 3;
     Some (is_hex_digit c3) } } } }"

definition tok_close :: "mem \<Rightarrow> tokstep option" where
  "tok_close p = do { d \<leftarrow> cchar p 1; Some (if d \<noteq> 0 \<and> \<not> isspace d then Err else Done) }"

definition tok_step :: "quoting \<Rightarrow> mem \<Rightarrow> tokstep option" where
  "tok_step q p = do {
     c \<leftarrow> cchar p 0;
     case q of
       InQ \<Rightarrow> do {
         hex \<leftarrow> is_hex_escape p;
         if hex then do { c2 \<leftarrow> cchar p 2; c3 \<leftarrow> cchar p 3; Some (Put (hex_digit_to_int c2 * 16 + hex_digit_to_int c3) 4) }
         else do {
           esc \<leftarrow> (if c = 0x5C then do { d \<leftarrow> cchar p 1; Some (d \<noteq> 0) } else Some False);
           if esc then do { d \<leftarrow> cchar p 1; Some (Put (unescape d) 2) }
           else if c = 0x22 then tok_close p
           else if c = 0 then Some Err
           else Some (Put c 1) } }
     | InSq \<Rightarrow> do {
         esc \<leftarrow> (if c = 0x5C then do { d \<leftarrow> cchar p 1; Some (d = 0x27) } else Some False);
         if esc then Some (Put 0x27 2)
         else if c = 0x27 then tok_close p
         else if c = 0 then Some Err
         else Some (Put c 1) }
     | Plain \<Rightarrow> Some
         (if c = 32 \<or> c = 10 \<or> c = 13 \<or> c = 9 \<or> c = 0 then Done
          else if c = 0x22 then Quote InQ
          else if c = 0x27 then Quote InSq
          else Put c 1) }"

lemma tok_step_empty: "tok_step q [] \<noteq> Some (Put c n)" "tok_step q [] \<noteq> Some (Quote r)"
  by (auto simp: tok_step_def cchar_def is_hex_escape_def split: quoting.splits)

text \<open>The loop over a token; \<open>if (*p) p++\<close> ends every round. The result is the token (\<^term>\<open>None\<close> for the null pointer of a failed
  allocation) and the rest of the line, \<^term>\<open>None\<close> inside on an error.\<close>

function tok_loop :: "allocator \<Rightarrow> quoting \<Rightarrow> mem \<Rightarrow> sds option \<Rightarrow> (sds option \<times> mem) option option" where
  "tok_loop a q p current = do {
     r \<leftarrow> tok_step q p;
     case r of
       Put c n \<Rightarrow> do { s \<leftarrow> current; current \<leftarrow> sdscatlen a s [c]; if p = [] then None else tok_loop a q (tl (drop (n - 1) p)) current }
     | Quote q \<Rightarrow> if p = [] then None else tok_loop a q (tl p) current
     | Done \<Rightarrow> Some (Some (current, tl p))
     | Err \<Rightarrow> Some None }"
  by pat_completeness auto
termination by (relation "measure (\<lambda>(a, q, p, current). length p)") (auto simp flip: length_greater_0_conv)

declare tok_loop.simps [simp del]

text \<open>The count \<open>*argc\<close> is the length of \<open>vector\<close>. In the code it is an \<open>int\<close>, which the model follows up to 2 to the 31 less one arguments.\<close>

function sdssplitargs_loop :: "allocator \<Rightarrow> mem \<Rightarrow> sds option list \<Rightarrow> sds option list option option" where
  "sdssplitargs_loop a p vector =
     (let p = dropWhile isspace p in
      if p = [] then Some (if vector = [] \<and> a 8 = None then None else Some vector)
      else do {
        current \<leftarrow> sdsempty a;
        r \<leftarrow> tok_loop a Plain p current;
        case r of None \<Rightarrow> Some None
        | Some (current, rest) \<Rightarrow>
            if a (8 * (length vector + 1)) \<noteq> None \<and> length rest < length p then sdssplitargs_loop a rest (vector @ [current]) else None })"
  by pat_completeness auto
termination
proof (relation "measure (\<lambda>(a, p, vector). length p)", goal_cases)
  case (2 a p vector x current r xa xb rest)
  then show ?case using length_dropWhile_le[of isspace p] by simp
qed simp

declare sdssplitargs_loop.simps [simp del]

definition sdssplitargs :: "allocator \<Rightarrow> mem \<Rightarrow> sds option list option option" where
  "sdssplitargs a line = do { n \<leftarrow> strlen line; sdssplitargs_loop a (take n line) [] }"

text \<open>The template without its terminator; the value of a variable is appended up to its first zero byte.\<close>

function sdstemplate_loop :: "allocator \<Rightarrow> (sds \<Rightarrow> sds option) \<Rightarrow> mem \<Rightarrow> sds option \<Rightarrow> sds option option" where
  "sdstemplate_loop a cb p res =
     (if p = [] then Some res
      else let pre = takeWhile (\<lambda>c. c \<noteq> 0x7B) p; sv = dropWhile (\<lambda>c. c \<noteq> 0x7B) p in
        if sv = [] then do { s \<leftarrow> res; sdscat a s (p @ [0]) }
        else do {
          res \<leftarrow> (if pre \<noteq> [] then do { s \<leftarrow> res; sdscatlen a s pre } else Some res);
          let sv = tl sv;
          if sv = [] then Some None
          else if hd sv = 0x7B then do {
            s \<leftarrow> res;
            res \<leftarrow> sdscat a s [0x7B, 0];
            sdstemplate_loop a cb (tl sv) res }
          else let ev = dropWhile (\<lambda>c. c \<noteq> 0x7D) sv in
            if ev = [] then Some None
            else do {
              v \<leftarrow> sdsnewlen a (Init sv) (length sv - length ev);
              varname \<leftarrow> v;
              case cb varname of None \<Rightarrow> Some None
              | Some value \<Rightarrow> do {
                  s \<leftarrow> res;
                  res \<leftarrow> sdscat a s (drop (soff value) (sblk value));
                  sdstemplate_loop a cb (tl ev) res } } })"
  by pat_completeness auto
termination
proof (relation "measure (\<lambda>(a, cb, p, res). length p)", goal_cases)
  case (2 a cb p res pre sv res1 sv1)
  have "length (tl sv1) \<le> length p - 2" using 2(3,6) length_dropWhile_le[of "\<lambda>c. c \<noteq> 0x7B" p] by simp
  moreover have "0 < length p" using 2(1) by simp
  ultimately have "length (tl sv1) < length p" by linarith
  then show ?case by simp
next
  case (3 a cb p res pre sv res1 sv1 ev)
  have "length ev \<le> length sv1" "length sv1 \<le> length p - 1" "0 < length p"
    using 3(1,3,6,9) length_dropWhile_le[of "\<lambda>c. c \<noteq> 0x7D" sv1] length_dropWhile_le[of "\<lambda>c. c \<noteq> 0x7B" p] by simp_all
  then have "length (tl ev) < length p" unfolding length_tl by linarith
  then show ?case by simp
qed simp

declare sdstemplate_loop.simps [simp del]

definition sdstemplate :: "allocator \<Rightarrow> mem \<Rightarrow> (sds \<Rightarrow> sds option) \<Rightarrow> sds option option" where
  "sdstemplate a template cb = do {
     res \<leftarrow> sdsempty a;
     n \<leftarrow> strlen template;
     sdstemplate_loop a cb (take n template) res }"

end
