(* ===== verification/SdsRep.thy ===== *)
theory SdsRep
  imports Sds
begin

text \<open>
  What a dynamic string holds: the layout of the header of each type, the text, the terminator and the free space behind it, and
  that creating, growing, appending, cutting, trimming, mapping and resizing keep this layout and give the expected text.
\<close>

section \<open>What a string holds\<close>

text \<open>A block with the type and flag byte \<open>fl\<close>, the stored length, the stored capacity and the bytes from the first character on.\<close>

definition sds_raw :: "byte \<Rightarrow> nat \<Rightarrow> nat \<Rightarrow> mem \<Rightarrow> sds" where
  "sds_raw fl len al buf = (case sdshdr_field (fl AND SDS_TYPE_MASK) of
     Some w \<Rightarrow> \<lparr>sblk = le_bytes w (int len) @ le_bytes w (int al) @ fl # buf, soff = 2 * w + 1\<rparr>
   | None \<Rightarrow> \<lparr>sblk = push_bit 3 (of_nat len) # buf, soff = 1\<rparr>)"

definition fl_ok :: "byte \<Rightarrow> bool" where
  "fl_ok fl \<longleftrightarrow> fl = 0 \<or> sdshdr_field (fl AND SDS_TYPE_MASK) \<noteq> None"

text \<open>The largest length and capacity of a type; type 5 stores no capacity.\<close>

definition fl_max :: "byte \<Rightarrow> nat" where
  "fl_max fl = (case sdshdr_field (fl AND SDS_TYPE_MASK) of Some w \<Rightarrow> 256 ^ w - 1 | None \<Rightarrow> 31)"

lemmas sds_types = SDS_TYPE_5_def SDS_TYPE_8_def SDS_TYPE_16_def SDS_TYPE_32_def SDS_TYPE_64_def SDS_TYPE_MASK_def SDS_TYPE_BITS_def

lemma field_zero [simp]: "sdshdr_field 0 = None" by (simp add: sdshdr_field_def sds_types)

lemma fl_cases:
  assumes "fl_ok fl"
  obtains (five) "fl = 0" "sdshdr_field (fl AND SDS_TYPE_MASK) = None" "sdsHdrSize fl = 1" "fl_max fl = 31"
  | (wide) w where "sdshdr_field (fl AND SDS_TYPE_MASK) = Some w" "w \<in> {1, 2, 4, 8}" "sdsHdrSize fl = 2 * w + 1" "fl AND SDS_TYPE_MASK \<noteq> SDS_TYPE_5"
      "fl_max fl = 256 ^ w - 1"
proof (cases "sdshdr_field (fl AND SDS_TYPE_MASK)")
  case None
  then have "fl = 0" using assms by (simp add: fl_ok_def)
  then show ?thesis using five None by (simp add: sdsHdrSize_def fl_max_def sds_types)
next
  case (Some w)
  then show ?thesis using wide[of w] by (auto simp: sdshdr_field_def sdsHdrSize_def fl_max_def sds_types Let_def split: if_splits)
qed

lemma five_flags [simp]: "push_bit 3 (x :: byte) AND 7 = 0"
proof (rule bit_word_eqI)
  fix n assume "n < LENGTH(8)"
  have "bit (7 :: byte) n \<longleftrightarrow> n < 3" using bit_mask_iff[of 3 n, where ?'a = byte] by (auto simp: mask_eq_exp_minus_1)
  then show "bit (push_bit 3 x AND 7) n = bit (0 :: byte) n" by (auto simp: bit_and_iff bit_push_bit_iff)
qed

lemma five_len: "l < 32 \<Longrightarrow> unat (drop_bit 3 (push_bit 3 (of_nat l :: byte))) = l"
proof -
  assume l: "l < 32"
  then have "unat (of_nat l :: byte) = l" by (simp add: unat_of_nat)
  then have "unat (push_bit 3 (of_nat l :: byte)) = l * 8" using l by (simp add: push_bit_eq_mult unat_word_ariths)
  then show ?thesis by (simp add: drop_bit_eq_div unat_div)
qed

lemma raw_type [simp]: "fl_ok fl \<Longrightarrow> sdsType (sds_raw fl len al buf) = Some (fl AND SDS_TYPE_MASK)"
  by (erule fl_cases) (auto simp: sdsType_def sds_flags_def sds_raw_def nth_append SDS_TYPE_MASK_def getb_def)

lemma raw_off: "fl_ok fl \<Longrightarrow> soff (sds_raw fl len al buf) = sdsHdrSize fl"
  by (erule fl_cases) (auto simp: sds_raw_def)

lemma raw_off_type [simp]: "fl_ok fl \<Longrightarrow> soff (sds_raw fl len al buf) = sdsHdrSize (fl AND SDS_TYPE_MASK)"
  by (simp add: raw_off sdsHdrSize_def and.assoc)

lemma le_small: "x < 256 ^ w \<Longrightarrow> nat (le_int (le_bytes w (int x))) = x"
  by (simp add: le_int_le_bytes)

lemma raw_get:
  assumes "sdshdr_field (fl AND SDS_TYPE_MASK) = Some w" "len < 256 ^ w" "al < 256 ^ w"
  shows "hdr_get (sds_raw fl len al buf) w 0 = Some len" "hdr_get (sds_raw fl len al buf) w (Suc 0) = Some al"
  using assms by (simp_all add: hdr_get_def sds_raw_def rd_def le_small)

lemma raw_set:
  assumes "sdshdr_field (fl AND SDS_TYPE_MASK) = Some w"
  shows "hdr_set (sds_raw fl len al buf) w 0 x = Some (sds_raw fl x al buf)" "hdr_set (sds_raw fl len al buf) w (Suc 0) x = Some (sds_raw fl len x buf)"
  using assms by (simp_all add: hdr_set_def sds_raw_def wr_def patch_def)

lemma raw_five [simp]: "len < 32 \<Longrightarrow> SDS_TYPE_5_LEN (sds_raw 0 len al buf) = Some len"
  by (simp add: SDS_TYPE_5_LEN_def sds_flags_def sds_raw_def five_len SDS_TYPE_BITS_def)

lemma raw_set_five: "set_flags (sds_raw 0 len al buf) (SDS_TYPE_5 OR push_bit SDS_TYPE_BITS (of_nat x)) = Some (sds_raw 0 x al buf)"
  by (simp add: set_flags_def sds_raw_def sds_types)

definition raw_ok :: "byte \<Rightarrow> nat \<Rightarrow> nat \<Rightarrow> bool" where
  "raw_ok fl len al \<longleftrightarrow> fl_ok fl \<and> len \<le> fl_max fl \<and> al \<le> fl_max fl"

lemma raw_okD: "raw_ok fl len al \<Longrightarrow> fl_ok fl" by (simp add: raw_ok_def)

lemma raw_cases:
  assumes "raw_ok fl len al"
  obtains (five) "fl = 0" "len < 32"
  | (wide) w where "sdshdr_field (fl AND SDS_TYPE_MASK) = Some w" "w \<in> {1, 2, 4, 8}" "fl AND SDS_TYPE_MASK \<noteq> SDS_TYPE_5" "len < 256 ^ w" "al < 256 ^ w"
      "sdsHdrSize fl = 2 * w + 1" "fl_max fl = 256 ^ w - 1"
proof -
  have "fl_ok fl" using assms by (rule raw_okD)
  then show thesis
  proof (cases rule: fl_cases)
    case (wide w)
    have "(0 :: nat) < 256 ^ w" by simp
    then have "len < 256 ^ w" "al < 256 ^ w" using assms wide(5) by (simp_all only: raw_ok_def) linarith+
    then show ?thesis using that(2)[OF wide(1,2,4) _ _ wide(3,5)] by blast
  qed (use assms that(1) in \<open>simp add: raw_ok_def\<close>)
qed

lemma raw_len [simp]: "raw_ok fl len al \<Longrightarrow> sdslen (sds_raw fl len al buf) = Some len"
  by (frule raw_okD, erule raw_cases) (simp_all add: sdslen_def raw_get sds_types)

lemma raw_alloc: "raw_ok fl len al \<Longrightarrow> sdsalloc (sds_raw fl len al buf) = Some (if fl = 0 then len else al)"
  by (frule raw_okD, erule raw_cases) (auto simp: sdsalloc_def raw_get sds_types)

lemma field_sub_le: "y \<le> x \<Longrightarrow> x < 256 ^ w \<Longrightarrow> w \<in> {1, 2, 4, 8} \<Longrightarrow> field_sub w x y = x - y"
  by (auto simp: field_sub_def of_nat_diff[symmetric] simp del: of_nat_diff)

lemma raw_avail: "raw_ok fl len al \<Longrightarrow> len \<le> al \<Longrightarrow> sdsavail (sds_raw fl len al buf) = Some (if fl = 0 then 0 else al - len)"
  by (frule raw_okD, erule raw_cases) (auto simp: sdsavail_def raw_get sds_types field_sub_le)

lemma raw_setlen [simp]: "fl_ok fl \<Longrightarrow> sdssetlen (sds_raw fl len al buf) n = Some (sds_raw fl n al buf)"
  by (frule fl_cases) (auto simp: sdssetlen_def raw_set raw_set_five[simplified sds_types, simplified] sds_types)

lemma raw_setalloc [simp]: "fl_ok fl \<Longrightarrow> sdssetalloc (sds_raw fl len al buf) n = Some (sds_raw fl len (if fl = 0 then al else n) buf)"
  by (frule fl_cases) (auto simp: sdssetalloc_def raw_set sds_types)

lemma raw_alloc_size: "raw_ok fl len al \<Longrightarrow> sdsHdrSize fl + al + 1 < 2 ^ 64 \<Longrightarrow> (fl = 0 \<Longrightarrow> al = len) \<Longrightarrow>
    sdsAllocSize (sds_raw fl len al buf) = Some (sdsHdrSize fl + al + 1)"
  by (frule raw_okD, erule raw_cases) (auto simp: sdsAllocSize_def raw_get sds_types sdsHdrSize_def)

lemma raw_sput [simp]: "i < length buf \<Longrightarrow> sput (sds_raw fl len al buf) i c = Some (sds_raw fl len al (buf[i := c]))"
  by (auto simp: sput_def sds_raw_def list_update_append split: option.splits)

lemma raw_swr [simp]: "i + length b \<le> length buf \<Longrightarrow> swr (sds_raw fl len al buf) i b = Some (sds_raw fl len al (patch buf i b))"
  by (auto simp: swr_def sds_raw_def wr_def patch_def split: option.splits)

lemma raw_srd [simp]: "srd (sds_raw fl len al buf) i n = rd buf i n"
  by (auto simp: srd_def sds_raw_def rd_def split: option.splits)

lemma raw_blk: "fl_ok fl \<Longrightarrow> length (sblk (sds_raw fl len al buf)) = sdsHdrSize fl + length buf"
  by (erule fl_cases) (auto simp: sds_raw_def)

lemma raw_drop: "drop (soff (sds_raw fl len al buf)) (sblk (sds_raw fl len al buf)) = buf"
  by (auto simp: sds_raw_def split: option.splits)

definition sds_holds :: "sds \<Rightarrow> mem \<Rightarrow> bool" where
  "sds_holds s str \<longleftrightarrow> (\<exists>fl fr. raw_ok fl (length str) (length str + length fr) \<and> length str + length fr < 2 ^ 62 \<and>
     s = sds_raw fl (length str) (length str + length fr) (str @ 0 # fr))"

definition ty_ok :: "byte \<Rightarrow> bool" where "ty_ok ty \<longleftrightarrow> ty \<in> {SDS_TYPE_5, SDS_TYPE_8, SDS_TYPE_16, SDS_TYPE_32, SDS_TYPE_64}"

lemma ty_fl: "ty_ok ty \<Longrightarrow> fl_ok ty \<and> ty AND SDS_TYPE_MASK = ty"
  by (auto simp: ty_ok_def fl_ok_def sds_types sdshdr_field_def)

lemma req_ty [simp]: "ty_ok (sdsReqType n)" by (simp add: sdsReqType_def ty_ok_def)

lemma ty_max: "ty_ok ty \<Longrightarrow> sdsTypeMaxSize ty = fl_max ty"
  by (auto simp: ty_ok_def fl_max_def sds_types sdshdr_field_def sdsTypeMaxSize_def)

lemma req_max: "n < 2 ^ 64 \<Longrightarrow> n \<le> fl_max (sdsReqType n)"
  by (auto simp: sdsReqType_def fl_max_def sds_types sdshdr_field_def)

lemma hdr_le: "sdsHdrSize ty \<le> 17" by (simp add: sdsHdrSize_def Let_def)

lemma hdr_pos: "fl_ok fl \<Longrightarrow> 0 < sdsHdrSize fl" by (erule fl_cases) auto

lemma no_adjust: "al \<le> sdsTypeMaxSize ty \<Longrightarrow> adjustTypeIfNeeded ty h (h + al + 1) = (False, ty, h)"
  by (simp add: adjustTypeIfNeeded_def)

lemma patch_fields: "length A = w \<Longrightarrow> length B = w \<Longrightarrow> 2 * w < length buf \<Longrightarrow>
    (patch (patch buf 0 A) w B)[2 * w := c] = A @ B @ c # drop (Suc (2 * w)) buf"
  by (simp add: patch_def list_update_append mult_2) (metis drop_update_cancel Cons_nth_drop_Suc add.commute add_Suc_right drop_drop list_update_code(2) lessI list_update.simps(2) nat.case(1))

lemma header_written:
  assumes "ty_ok ty" "length buf > sdsHdrSize ty"
  defines "s \<equiv> \<lparr>sblk = buf, soff = sdsHdrSize ty\<rparr>"
  shows "(if ty = SDS_TYPE_5 then set_flags s (ty OR push_bit SDS_TYPE_BITS (of_nat n))
          else case sdshdr_field ty of Some w \<Rightarrow> do { s \<leftarrow> hdr_set s w 0 n; s \<leftarrow> hdr_set s w 1 al; set_flags s ty } | None \<Rightarrow> Some s)
    = Some (sds_raw ty n al (drop (sdsHdrSize ty) buf))"
proof -
  have t: "fl_ok ty" "ty AND SDS_TYPE_MASK = ty" using ty_fl[OF assms(1)] by auto
  from t(1) show ?thesis
  proof (cases rule: fl_cases)
    case five
    then show ?thesis using assms by (cases buf) (auto simp: s_def set_flags_def sds_raw_def sds_types)
  next
    case (wide w)
    then show ?thesis using assms t patch_fields[of "le_bytes w (int n)" w "le_bytes w (int al)" buf ty]
      by (simp add: s_def hdr_set_def set_flags_def wr_def sds_raw_def)
  qed
qed

lemma patch_all: "length b = length buf \<Longrightarrow> patch buf 0 b = b" by (simp add: patch_def)

definition new_type :: "nat \<Rightarrow> byte" where "new_type n = (if n = 0 then SDS_TYPE_8 else sdsReqType n)"

lemma new_type_ok [simp]: "ty_ok (new_type n)" by (simp add: new_type_def) (simp add: ty_ok_def)

lemma new_type_max: "n < 2 ^ 64 \<Longrightarrow> n \<le> fl_max (new_type n)" using req_max[of n] by (simp add: new_type_def)

lemma init_written:
  assumes "n \<le> length b" "n < length buf"
  shows "(if n = 0 then Some (sds_raw ty n al buf) else do { t \<leftarrow> rd b 0 n; swr (sds_raw ty n al buf) 0 t }) \<bind> (\<lambda>s. sput s n 0)
    = Some (sds_raw ty n al (take n b @ 0 # drop (Suc n) buf))"
proof -
  have "patch buf 0 (take n b) = take n b @ drop n buf" using assms by (simp add: patch_def)
  moreover have "(take n b @ drop n buf)[n := 0] = take n b @ 0 # drop (Suc n) buf"
    using assms by (simp add: list_update_append flip: Cons_nth_drop_Suc)
  ultimately show ?thesis using assms by (cases "n = 0") (simp_all add: rd_def)
qed

lemma newplacement_init:
  assumes "ty_ok ty" "length buf = sdsHdrSize ty + al + 1" "n \<le> al" "sdsHdrSize ty + al + 1 < 2 ^ 64" "n \<le> length b"
  shows "sdsnewplacement buf (sdsHdrSize ty + al + 1) ty (Init b) n = Some (sds_raw ty n al (take n b @ 0 # drop (Suc n) (drop (sdsHdrSize ty) buf)))"
proof -
  have g: "sdsHdrSize ty + al + 1 \<ge> sdsReqSize n ty" using assms(3,4) by (simp add: sdsReqSize_def)
  have h: "sdsHdrSize ty + al + 1 - sdsHdrSize ty - 1 = al" by simp
  show ?thesis unfolding sdsnewplacement_def Let_def h
    using g header_written[OF assms(1), of buf n al] init_written[of n b "drop (sdsHdrSize ty) buf" ty al] assms(2,3,5) by simp
qed

lemma newlen_raw:
  assumes "n \<le> length b" "n < 2 ^ 62"
  shows "sdsnewlen' a (Init b) n try = Some (map_option (\<lambda>f. sds_raw (new_type n) n n (take n b @ [0])) (a (sdsHdrSize (new_type n) + n + 1)))"
proof -
  let ?ty = "new_type n" and ?h = "sdsHdrSize (new_type n)"
  have t: "(if sdsReqType n = SDS_TYPE_5 \<and> n = 0 then SDS_TYPE_8 else sdsReqType n) = ?ty" by (auto simp: new_type_def sdsReqType_def)
  have o: "n < (n + ?h + 1) mod 2 ^ 64" "?h + n + 1 < 2 ^ 64" using assms(2) hdr_le[of ?ty] hdr_pos[of ?ty] ty_fl[of ?ty] by simp_all
  have m: "adjustTypeIfNeeded ?ty ?h (?h + n + 1) = (False, ?ty, ?h)" using no_adjust[of n ?ty ?h] new_type_max[of n] ty_max[of ?ty] assms(2) by simp
  show ?thesis
  proof (cases "a (?h + n + 1)")
    case (Some f)
    then show ?thesis using newplacement_init[of ?ty "map f [0..<?h + n + 1]" n n b] assms(1) o(2)
      by (simp add: sdsnewlen'_def zmalloc_usable_def Let_def t o[simplified] m[simplified])
  qed (simp add: sdsnewlen'_def zmalloc_usable_def Let_def t o[simplified])
qed

definition malloc_ok :: "allocator \<Rightarrow> bool" where "malloc_ok a \<longleftrightarrow> (\<forall>n \<ge> 2 ^ 62. a n = None)"

lemma alloc_okD: "malloc_ok a \<Longrightarrow> a n = Some f \<Longrightarrow> n < 2 ^ 62" unfolding malloc_ok_def by (metis option.distinct(1) not_less)

lemma raw_holds: "raw_ok fl (length str) (length str + length fr) \<Longrightarrow> length str + length fr < 2 ^ 62 \<Longrightarrow>
    sds_holds (sds_raw fl (length str) (length str + length fr) (str @ 0 # fr)) str"
  by (auto simp: sds_holds_def)

lemma new_raw_ok: "n < 2 ^ 62 \<Longrightarrow> raw_ok (new_type n) n n" using new_type_max[of n] ty_fl[of "new_type n"] by (simp add: raw_ok_def)

lemma newlen_holds:
  assumes "n \<le> length b" "n < 2 ^ 62" "sdsnewlen' a (Init b) n try = Some (Some s)"
  shows "sds_holds s (take n b)"
  using assms raw_holds[of "new_type n" "take n b" "[]"] new_raw_ok[of n] by (auto simp: newlen_raw min_absorb2)

lemma holds_len: "sds_holds s str \<Longrightarrow> sdslen s = Some (length str)" by (auto simp: sds_holds_def)

lemma holds_rd: "sds_holds s str \<Longrightarrow> i + n \<le> length str \<Longrightarrow> srd s i n = Some (take n (drop i str))"
  by (auto simp: sds_holds_def rd_def)

lemma holds_size: "sds_holds s str \<Longrightarrow> length str < 2 ^ 62" by (auto simp: sds_holds_def)

text \<open>The bytes of a string determine what it holds.\<close>

lemma holds_inj: "sds_holds s str \<Longrightarrow> sds_holds s str' \<Longrightarrow> str = str'"
  using holds_rd[of s str 0 "length str"] holds_rd[of s str' 0 "length str'"] holds_len[of s str] holds_len[of s str'] by simp

lemma raw_realloc:
  assumes "fl_ok fl"
  shows "\<lparr>sblk = zrealloc f (sblk (sds_raw fl len al buf)) (sdsHdrSize fl + n), soff = sdsHdrSize fl\<rparr>
    = sds_raw fl len al (zrealloc (\<lambda>i. f (sdsHdrSize fl + i)) buf n)"
proof -
  have e: "map f [h + length buf..<h + n] = map (\<lambda>i. f (h + i)) [length buf..<n]" for h
    by (rule nth_equalityI) (auto simp: add.assoc)
  from assms show ?thesis
  proof (cases rule: fl_cases)
    case five
    then show ?thesis using e[of 1] by (simp add: sds_raw_def zrealloc_def)
  next
    case (wide w)
    have "length (sblk (sds_raw fl len al buf)) = (2 * w + 1) + length buf" using wide(1) by (simp add: sds_raw_def)
    then show ?thesis unfolding zrealloc_def wide(3) using wide(1) e[of "2 * w + 1"] by (simp only: sds_raw_def) simp
  qed
qed

lemma moved_raw:
  assumes "ty_ok ty" "sdsHdrSize ty + length b \<le> length m"
  shows "\<exists>L A. sds_move m (sdsHdrSize ty) ty b = Some (sds_raw ty L A (b @ drop (sdsHdrSize ty + length b) m))"
proof -
  have t: "fl_ok ty" "ty AND SDS_TYPE_MASK = ty" using ty_fl[OF assms(1)] by auto
  from t(1) show ?thesis
  proof (cases rule: fl_cases)
    case five
    then have "sds_move m (sdsHdrSize ty) ty b = Some (sds_raw ty 0 0 (b @ drop (sdsHdrSize ty + length b) m))"
      using assms(2) by (cases m) (simp_all add: sds_move_def swr_def wr_def patch_def set_flags_def sds_raw_def)
    then show ?thesis by blast
  next
    case (wide w)
    let ?A = "take w m" and ?B = "take w (drop w m)"
    have l: "length ?A = w" "length ?B = w" using assms(2) wide(3) by auto
    have g: "le_bytes w (int (nat (le_int ?A))) = ?A" "le_bytes w (int (nat (le_int ?B))) = ?B"
      using le_bytes_le_int[of ?A] le_bytes_le_int[of ?B] l by simp_all
    have p: "take (2 * w) m = ?A @ ?B" by (simp add: mult_2 take_add)
    have "(patch m (2 * w + 1) b)[2 * w := ty] = take (2 * w) m @ ty # b @ drop (2 * w + 1 + length b) m"
      using assms(2) wide(3) by (simp add: patch_def list_update_append upd_conv_take_nth_drop min_def)
    then have "sds_move m (sdsHdrSize ty) ty b = Some (sds_raw ty (nat (le_int ?A)) (nat (le_int ?B)) (b @ drop (sdsHdrSize ty + length b) m))"
      using assms(2) wide g t(2) unfolding p by (simp add: sds_move_def swr_def wr_def set_flags_def sds_raw_def)
    then show ?thesis by blast
  qed
qed

text \<open>The string with at least \<open>k\<close> bytes of free space; the byte behind the text, which is zero except in the middle of an operation, is \<open>z\<close>.\<close>

definition sds_roomz :: "byte \<Rightarrow> sds \<Rightarrow> mem \<Rightarrow> nat \<Rightarrow> bool" where
  "sds_roomz z s str k \<longleftrightarrow> (\<exists>fl fr. raw_ok fl (length str) (length str + length fr) \<and> length str + length fr < 2 ^ 62 \<and> k \<le> length fr \<and>
     s = sds_raw fl (length str) (length str + length fr) (str @ z # fr))"

abbreviation sds_room :: "sds \<Rightarrow> mem \<Rightarrow> nat \<Rightarrow> bool" where "sds_room \<equiv> sds_roomz 0"

lemma room_holds: "sds_room s str k \<Longrightarrow> sds_holds s str" by (auto simp: sds_roomz_def sds_holds_def)

lemma holds_room: "sds_holds s str \<longleftrightarrow> sds_room s str 0" by (simp add: sds_roomz_def sds_holds_def)

text \<open>The new block of \<open>sdsMakeRoomFor\<close>, reallocated in place or copied behind a new header.\<close>

lemma room_realloc:
  assumes "fl_ok fl" "length str + length fr \<le> n" "n \<le> fl_max fl" "n < 2 ^ 62" "fl \<noteq> 0"
  shows "\<exists>s. sdssetalloc \<lparr>sblk = zrealloc f (sblk (sds_raw fl (length str) al (str @ z # fr))) (sdsHdrSize fl + (n + 1)), soff = sdsHdrSize fl\<rparr> n = Some s \<and>
    sds_roomz z s str (n - length str)"
proof -
  let ?fr = "fr @ map (\<lambda>i. f (sdsHdrSize fl + i)) [length (str @ z # fr)..<n + 1]"
  have "zrealloc (\<lambda>i. f (sdsHdrSize fl + i)) (str @ z # fr) (n + 1) = str @ z # ?fr" "length str + length ?fr = n"
    using assms(2) by (simp_all add: zrealloc_def)
  then show ?thesis using assms unfolding raw_realloc[OF assms(1)] sds_roomz_def
    by (intro exI[of _ "sds_raw fl (length str) n (str @ z # ?fr)"] conjI exI[of _ fl] exI[of _ ?fr]) (auto simp: raw_ok_def)
qed

lemma room_moved:
  assumes "ty_ok ty" "ty \<noteq> 0" "length m = sdsHdrSize ty + (n + 1)" "length str \<le> n" "n \<le> fl_max ty" "n < 2 ^ 62"
  shows "\<exists>s. do { s \<leftarrow> sds_move m (sdsHdrSize ty) ty (str @ [z]); s \<leftarrow> sdssetlen s (length str); sdssetalloc s n } = Some s \<and> sds_roomz z s str (n - length str)"
proof -
  let ?fr = "drop (sdsHdrSize ty + (length str + 1)) m"
  obtain L A where m: "sds_move m (sdsHdrSize ty) ty (str @ [z]) = Some (sds_raw ty L A ((str @ [z]) @ ?fr))"
    using moved_raw[OF assms(1), of "str @ [z]" m] assms(3,4) by auto
  have f: "fl_ok ty" using ty_fl[OF assms(1)] by simp
  have "length str + length ?fr = n" using assms(3,4) by simp
  then show ?thesis unfolding m using f assms(2,5,6) unfolding sds_roomz_def
    by (intro exI[of _ "sds_raw ty (length str) n (str @ z # ?fr)"] conjI exI[of _ ty] exI[of _ ?fr]) (auto simp: raw_ok_def)
qed

definition grow_bound :: "nat \<Rightarrow> nat" where "grow_bound n = 2 * n + 2 ^ 20 + 18"

text \<open>An allocation for a string of length \<open>n\<close> fails.\<close>

definition refused :: "allocator \<Rightarrow> nat \<Rightarrow> bool" where "refused a n \<longleftrightarrow> (\<exists>k \<le> grow_bound n. a k = None)"

lemma refused_mono: "refused a n \<Longrightarrow> n \<le> m \<Longrightarrow> refused a m"
  unfolding refused_def grow_bound_def by (meson add_le_mono1 le_trans mult_le_mono2)

definition room_len :: "nat \<Rightarrow> bool \<Rightarrow> nat" where
  "room_len n greedy = (if greedy then if n < SDS_MAX_PREALLOC then n * 2 else n + SDS_MAX_PREALLOC else n)"

definition room_type :: "nat \<Rightarrow> byte" where "room_type n = (if sdsReqType n = SDS_TYPE_5 then SDS_TYPE_8 else sdsReqType n)"

lemma room_type_ok: "ty_ok (room_type n)" "room_type n \<noteq> 0" using req_ty[of n] by (auto simp: room_type_def ty_ok_def sds_types)

lemma room_type_max: "n < 2 ^ 64 \<Longrightarrow> n \<le> fl_max (room_type n)"
  using req_max[of n] by (auto simp: room_type_def sdsReqType_def fl_max_def sdshdr_field_def sds_types)

lemma room_len_bounds: "n \<le> room_len n g" "room_len n g + 18 \<le> grow_bound n"
  by (auto simp: room_len_def grow_bound_def SDS_MAX_PREALLOC_def)

lemma hdr_mask: "sdsHdrSize (fl AND SDS_TYPE_MASK) = sdsHdrSize fl" by (simp add: sdsHdrSize_def and.assoc)

lemma room_block:
  assumes r: "raw_ok fl (length str) (length str + length fr)" "length str + length fr < 2 ^ 62"
    and s: "s = sds_raw fl (length str) (length str + length fr) (str @ z # fr)"
    and t: "ty_ok ty" "ty \<noteq> 0" "n \<le> fl_max ty" "length str + (if fl = 0 then 0 else length fr) \<le> n" and a: "malloc_ok a" and sz_def: "sz = sdsHdrSize ty + (n + 1)"
  defines "r \<equiv> sdsMakeRoom_block a s (fl AND SDS_TYPE_MASK) (length str) ty sz"
  shows "(\<exists>s'. r = Some (Some s') \<and> sds_roomz z s' str (n - length str)) \<or> r = Some None \<and> a sz = None"
proof (cases "a sz")
  case None
  then have "r = Some None" unfolding r_def sdsMakeRoom_block_def Let_def by (simp add: zmalloc_usable_def zrealloc_usable_def)
  then show ?thesis using None by simp
next
  case (Some f)
  have f: "fl_ok fl" using r(1) by (rule raw_okD)
  have n: "n < 2 ^ 62" using alloc_okD[OF a Some] by (simp add: sz_def)
  have m: "n \<le> sdsTypeMaxSize ty" using t(3) ty_max[OF t(1)] by simp
  have adj: "adjustTypeIfNeeded ty (sdsHdrSize ty) sz = (False, ty, sdsHdrSize ty)" using no_adjust[OF m, of "sdsHdrSize ty"] by (simp add: sz_def)
  have us: "sz - sdsHdrSize ty - 1 = n" by (simp add: sz_def)
  show ?thesis
  proof (cases "fl AND SDS_TYPE_MASK = ty")
    case True
    then have fl: "fl \<noteq> 0" "sdsHdrSize fl = sdsHdrSize ty" "fl_max fl = fl_max ty" using t(2) ty_fl[OF t(1)] hdr_mask[of fl] by (auto simp: fl_max_def)
    obtain s' where "sdssetalloc \<lparr>sblk = zrealloc f (sblk s) sz, soff = sdsHdrSize ty\<rparr> n = Some s'" "sds_roomz z s' str (n - length str)"
      using room_realloc[OF f, of str fr n f "length str + length fr"] t n fl unfolding s sz_def by auto
    then have "r = Some (Some s')" unfolding r_def sdsMakeRoom_block_def Let_def zrealloc_usable_def Some using True m us by (simp add: adj)
    then show ?thesis using \<open>sds_roomz z s' str (n - length str)\<close> by simp
  next
    case False
    have cp: "srd s 0 (length str + 1) = Some (str @ [z])" by (simp add: s rd_def)
    obtain s' where "do { s \<leftarrow> sds_move (map f [0..<sz]) (sdsHdrSize ty) ty (str @ [z]); s \<leftarrow> sdssetlen s (length str); sdssetalloc s n } = Some s'"
      "sds_roomz z s' str (n - length str)"
      using room_moved[OF t(1,2), of "map f [0..<sz]" n str] t(3,4) n by (auto simp: sz_def)
    moreover from this(1) have "do { s \<leftarrow> do { s \<leftarrow> sds_move (map f [0..<sz]) (sdsHdrSize ty) ty (str @ [z]); sdssetlen s (length str) }; s \<leftarrow> sdssetalloc s n; Some (Some s) } = Some (Some s')"
      by (auto simp: bind_eq_Some_conv)
    then have "r = Some (Some s')" unfolding r_def sdsMakeRoom_block_def Let_def zmalloc_usable_def Some using False m us cp by (simp add: adj)
    ultimately show ?thesis by simp
  qed
qed

lemma room_monoz: "sds_roomz z s str k \<Longrightarrow> j \<le> k \<Longrightarrow> sds_roomz z s str j" unfolding sds_roomz_def by (metis le_trans)

lemma make_roomz:
  assumes "sds_roomz z s str 0" "malloc_ok a" "addlen < 2 ^ 62"
  shows "(\<exists>s'. sdsMakeRoomFor' a s addlen g = Some (Some s') \<and> sds_roomz z s' str addlen) \<or>
    sdsMakeRoomFor' a s addlen g = Some None \<and> refused a (length str + addlen)"
proof -
  obtain fl fr where r: "raw_ok fl (length str) (length str + length fr)" "length str + length fr < 2 ^ 62"
    and s: "s = sds_raw fl (length str) (length str + length fr) (str @ z # fr)" using assms(1) by (auto simp: sds_roomz_def)
  have f: "fl_ok fl" using r(1) by (rule raw_okD)
  have av: "sdsavail s = Some (if fl = 0 then 0 else length fr)" using raw_avail[OF r(1)] by (simp add: s)
  have ty: "sdsType s = Some (fl AND SDS_TYPE_MASK)" and ln: "sdslen s = Some (length str)" using f r(1) by (simp_all add: s)
  have off: "soff s = sdsHdrSize (fl AND SDS_TYPE_MASK)" using f by (simp add: s)
  show ?thesis
  proof (cases "addlen \<le> (if fl = 0 then 0 else length fr)")
    case True
    then have "sds_roomz z s str addlen" using r s by (auto simp: sds_roomz_def split: if_splits)
    then show ?thesis using True by (simp add: sdsMakeRoomFor'_def av ty)
  next
    case False
    define req n ty' h sz where "req = length str + addlen" and "n = room_len req g" and "ty' = room_type n" and "h = sdsHdrSize ty'" and "sz = h + (n + 1)"
    have b: "req \<le> n" "n + 18 \<le> grow_bound req" using room_len_bounds[of req g] by (simp_all add: n_def)
    have h: "0 < h" "h \<le> 17" using hdr_pos[of ty'] ty_fl[OF room_type_ok(1)[of n]] hdr_le[of ty'] by (simp_all add: h_def ty'_def)
    have q: "length str < req" "req < 2 ^ 63" using False assms(3) r(2) by (auto simp: req_def split: if_splits)
    have n64: "n < 2 ^ 64 - 18" "sz < 2 ^ 64" using q(2) h(2) by (auto simp: n_def room_len_def SDS_MAX_PREALLOC_def sz_def)
    have m: "n \<le> fl_max ty'" "n \<le> sdsTypeMaxSize ty'" using room_type_max[of n] n64(1) ty_max[OF room_type_ok(1)[of n]] by (simp_all add: ty'_def)
    have nl: "(if g then if req < SDS_MAX_PREALLOC then req * 2 else (req + SDS_MAX_PREALLOC) mod 2 ^ 64 else req) = n"
      using q(2) by (auto simp: n_def room_len_def SDS_MAX_PREALLOC_def)
    have rq: "(length str + addlen) mod 2 ^ 64 = req" using q(2) by (simp add: req_def)
    have sz: "(h + n + 1) mod 2 ^ 64 = sz" using n64(2) by (simp add: sz_def)
    have g0: "sz > req" using b(1) h(1) by (simp add: sz_def)
    have "sdsMakeRoomFor' a s addlen g = sdsMakeRoom_block a s (fl AND SDS_TYPE_MASK) (length str) ty' sz"
      using False q(1) g0 unfolding sdsMakeRoomFor'_def av ty ln bind.simps Let_def rq nl room_type_def[symmetric] ty'_def[symmetric] h_def[symmetric] sz
      by (simp add: off)
    moreover have "length str + (if fl = 0 then 0 else length fr) \<le> n" using False b(1) by (simp add: req_def split: if_splits)
    note room_block[OF r s room_type_ok[of n, folded ty'_def] m(1) this assms(2) sz_def[unfolded h_def]]
    moreover have "sds_roomz z s' str addlen" if "sds_roomz z s' str (n - length str)" for s' using room_monoz[OF that] b(1) by (simp add: req_def)
    moreover have "refused a (length str + addlen)" if "a sz = None" using that b(2) h(2) unfolding refused_def req_def[symmetric] sz_def by (intro exI[of _ "h + (n + 1)"]) simp
    ultimately show ?thesis by auto
  qed
qed

lemmas make_room = make_roomz[of 0, folded holds_room]

text \<open>The result of an operation that may need memory: a string that holds the text, or the null pointer after a failed allocation.\<close>

definition sds_gives :: "allocator \<Rightarrow> sds option option \<Rightarrow> mem \<Rightarrow> bool" where
  "sds_gives a r str \<longleftrightarrow> (\<exists>s. r = Some (Some s) \<and> sds_holds s str) \<or> r = Some None \<and> refused a (length str)"

lemma gives_room:
  assumes "sds_holds s str" "malloc_ok a" "k < 2 ^ 62" "length str + k \<le> length str'"
    and "\<And>fl fr. raw_ok fl (length str) (length str + length fr) \<Longrightarrow> length str + length fr < 2 ^ 62 \<Longrightarrow> k \<le> length fr \<Longrightarrow>
      \<exists>s'. f (sds_raw fl (length str) (length str + length fr) (str @ 0 # fr)) = Some (Some s') \<and> sds_holds s' str'"
  shows "sds_gives a (do { r \<leftarrow> sdsMakeRoomFor a s k; case r of None \<Rightarrow> Some None | Some s \<Rightarrow> f s }) str'"
proof -
  consider s' where "sdsMakeRoomFor a s k = Some (Some s')" "sds_room s' str k" | "sdsMakeRoomFor a s k = Some None" "refused a (length str + k)"
    using make_room[OF assms(1,2,3), of True] by (auto simp: sdsMakeRoomFor_def)
  then show ?thesis
  proof cases
    case 1
    then show ?thesis using assms(5) by (auto simp: sds_roomz_def sds_gives_def)
  next
    case 2
    then show ?thesis using refused_mono[OF 2(2) assms(4)] by (simp add: sds_gives_def)
  qed
qed

lemma raw_ok_len: "raw_ok fl len al \<Longrightarrow> n \<le> al \<Longrightarrow> raw_ok fl n al" by (simp add: raw_ok_def)

lemma raw_holds': "raw_ok fl n al \<Longrightarrow> al < 2 ^ 62 \<Longrightarrow> length str + length fr = al \<Longrightarrow> m = length str \<Longrightarrow> sds_holds (sds_raw fl m al (str @ 0 # fr)) str"
  using raw_holds[of fl str fr] raw_ok_len[of fl n al "length str"] by simp

text \<open>Writing behind the text.\<close>

lemma append_written:
  assumes "raw_ok fl (length str) (length str + length fr)" "length str + length fr < 2 ^ 62" "length t \<le> length fr"
  defines "s \<equiv> sds_raw fl (length str) (length str + length fr) (str @ 0 # fr)"
  shows "\<exists>s'. do { s \<leftarrow> swr s (length str) t; s \<leftarrow> sdssetlen s (length str + length t); s \<leftarrow> sput s (length str + length t) 0; Some (Some s) } = Some (Some s') \<and> sds_holds s' (str @ t)"
proof -
  have p: "patch (str @ 0 # fr) (length str) t = str @ t @ drop (length t) (0 # fr)" by (simp add: patch_def)
  have "(drop (length t) (0 # fr))[0 := 0] = 0 # drop (length t) fr" using assms(3) by (simp add: Cons_nth_drop_Suc[symmetric])
  then have q: "(str @ t @ drop (length t) (0 # fr))[length str + length t := 0] = (str @ t) @ 0 # drop (length t) fr" by (simp add: list_update_append)
  have "sds_holds (sds_raw fl (length str + length t) (length str + length fr) ((str @ t) @ 0 # drop (length t) fr)) (str @ t)"
    using assms(2,3) by (intro raw_holds'[OF assms(1)]) auto
  then show ?thesis using assms(3) raw_okD[OF assms(1)] q by (simp add: s_def p)
qed

lemma catlen_gives: "sds_holds s str \<Longrightarrow> malloc_ok a \<Longrightarrow> length t < 2 ^ 62 \<Longrightarrow> sds_gives a (sdscatlen a s t) (str @ t)"
  unfolding sdscatlen_def by (simp add: holds_len) (rule gives_room, auto intro: append_written)

lemma growzero_gives:
  assumes "sds_holds s str" "malloc_ok a" "n < 2 ^ 62"
  shows "sds_gives a (sdsgrowzero a s n) (str @ replicate (n - length str) 0)"
proof (cases "n \<le> length str")
  case True
  then show ?thesis using assms(1) by (simp add: sdsgrowzero_def holds_len sds_gives_def)
next
  case False
  have w: "\<exists>s'. do { s \<leftarrow> swr (sds_raw fl (length str) (length str + length fr) (str @ 0 # fr)) (length str) (replicate (n - length str + 1) 0); s \<leftarrow> sdssetlen s n; Some (Some s) } = Some (Some s') \<and>
      sds_holds s' (str @ replicate (n - length str) 0)"
    if r: "raw_ok fl (length str) (length str + length fr)" "length str + length fr < 2 ^ 62" "n - length str \<le> length fr" for fl fr
  proof -
    have "patch (str @ 0 # fr) (length str) (replicate (n - length str + 1) 0) = (str @ replicate (n - length str) 0) @ 0 # drop (n - length str) fr"
      by (simp add: patch_def replicate_append_same[symmetric])
    then show ?thesis using r False raw_okD[OF r(1)] raw_holds'[OF r(1,2), of "str @ replicate (n - length str) 0" "drop (n - length str) fr" n] by simp
  qed
  have "sds_gives a (do { r \<leftarrow> sdsMakeRoomFor a s (n - length str); case r of None \<Rightarrow> Some None
      | Some s \<Rightarrow> do { s \<leftarrow> swr s (length str) (replicate (n - length str + 1) 0); s \<leftarrow> sdssetlen s n; Some (Some s) } }) (str @ replicate (n - length str) 0)"
    using assms(3) by (intro gives_room[OF assms(1,2)] w) auto
  then show ?thesis unfolding sdsgrowzero_def holds_len[OF assms(1)] bind.simps using False by (simp only: if_False)
qed

text \<open>Overwriting the text from the beginning.\<close>

lemma front_written:
  assumes "raw_ok fl len al" "al < 2 ^ 62" "length buf = al + 1" "length t \<le> al"
  shows "\<exists>s'. do { s \<leftarrow> swr (sds_raw fl len al buf) 0 t; s \<leftarrow> sput s (length t) 0; sdssetlen s (length t) } = Some s' \<and> sds_holds s' t"
proof -
  have "(patch buf 0 t)[length t := 0] = t @ 0 # drop (length t + 1) buf"
    using assms(3,4) by (simp add: patch_def list_update_append Cons_nth_drop_Suc[symmetric])
  then show ?thesis using assms raw_okD[OF assms(1)] raw_holds'[OF assms(1,2), of t "drop (length t + 1) buf" "length t"] by simp
qed

lemma cpylen_gives:
  assumes "sds_holds s str" "malloc_ok a" "length t < 2 ^ 62"
  shows "sds_gives a (sdscpylen a s t) t"
proof -
  have f: "\<exists>s'. do { s \<leftarrow> swr (sds_raw fl len al buf) 0 t; s \<leftarrow> sput s (length t) 0; s \<leftarrow> sdssetlen s (length t); Some (Some s) } = Some (Some s') \<and> sds_holds s' t"
    if "raw_ok fl len al" "al < 2 ^ 62" "length buf = al + 1" "length t \<le> al" for fl len al buf
    using front_written[OF that] by (auto simp: bind_eq_Some_conv)
  obtain fl fr where r: "raw_ok fl (length str) (length str + length fr)" "length str + length fr < 2 ^ 62"
    and s: "s = sds_raw fl (length str) (length str + length fr) (str @ 0 # fr)" using assms(1) by (auto simp: sds_holds_def)
  show ?thesis
  proof (cases "(if fl = 0 then length str else length str + length fr) < length t")
    case True
    then have d: "nat ((int (length t) - int (length str)) mod 2 ^ 64) = length t - length str" using assms(3) by (auto simp: of_nat_diff[symmetric] simp del: of_nat_diff split: if_splits)
    have "sds_gives a (do { r \<leftarrow> sdsMakeRoomFor a s (length t - length str);
       case r of None \<Rightarrow> Some None | Some s \<Rightarrow> do { s \<leftarrow> swr s 0 t; s \<leftarrow> sput s (length t) 0; s \<leftarrow> sdssetlen s (length t); Some (Some s) } }) t"
      using True assms by (intro gives_room[OF assms(1,2)] f) (auto split: if_splits)
    moreover have "sdsalloc s = Some (if fl = 0 then length str else length str + length fr)" using raw_alloc[OF r(1)] by (simp add: s)
    ultimately show ?thesis using True unfolding sdscpylen_def by (simp add: holds_len[OF assms(1)] d[simplified])
  next
    case False
    then have "\<exists>s'. do { s \<leftarrow> swr s 0 t; s \<leftarrow> sput s (length t) 0; s \<leftarrow> sdssetlen s (length t); Some (Some s) } = Some (Some s') \<and> sds_holds s' t"
      unfolding s by (intro f[OF r]) (auto split: if_splits)
    moreover have "sdsalloc s = Some (if fl = 0 then length str else length str + length fr)" using raw_alloc[OF r(1)] by (simp add: s)
    ultimately show ?thesis using False by (auto simp: sdscpylen_def holds_len[OF assms(1)] sds_gives_def)
  qed
qed

lemma sds_holdsE:
  assumes "sds_holds s str"
  obtains fl fr where "raw_ok fl (length str) (length str + length fr)" "length str + length fr < 2 ^ 62" "fl_ok fl"
    "s = sds_raw fl (length str) (length str + length fr) (str @ 0 # fr)"
  using assms raw_okD by (auto simp: sds_holds_def)

lemma cut_written:
  assumes "sds_holds s str" "length t \<le> length str"
  shows "\<exists>s'. do { s \<leftarrow> swr s 0 t; s \<leftarrow> sput s (length t) 0; sdssetlen s (length t) } = Some s' \<and> sds_holds s' t"
  using assms(1)
proof (rule sds_holdsE)
  fix fl fr
  assume r: "raw_ok fl (length str) (length str + length fr)" "length str + length fr < 2 ^ 62"
    and s: "s = sds_raw fl (length str) (length str + length fr) (str @ 0 # fr)"
  show ?thesis unfolding s using assms(2) by (intro front_written[OF r]) auto
qed

lemma write_nothing: "sds_holds s str \<Longrightarrow> swr s 0 [] = Some s"
  by (erule sds_holdsE) (simp add: patch_def)

lemma map_written: "sds_holds s str \<Longrightarrow> length t = length str \<Longrightarrow> \<exists>s'. swr s 0 t = Some s' \<and> sds_holds s' t"
proof (erule sds_holdsE)
  fix fl fr
  assume l: "length t = length str" and r: "raw_ok fl (length str) (length str + length fr)" "length str + length fr < 2 ^ 62"
    and s: "s = sds_raw fl (length str) (length str + length fr) (str @ 0 # fr)"
  have "patch (str @ 0 # fr) 0 t = t @ 0 # fr" using l by (simp add: patch_def)
  then show "\<exists>s'. swr s 0 t = Some s' \<and> sds_holds s' t" using raw_holds[of fl t fr] r l by (simp add: s)
qed

lemma clear_holds: "sds_holds s str \<Longrightarrow> \<exists>s'. sdsclear s = Some s' \<and> sds_holds s' []"
proof (erule sds_holdsE)
  fix fl fr
  assume r: "raw_ok fl (length str) (length str + length fr)" "length str + length fr < 2 ^ 62" "fl_ok fl"
    and s: "s = sds_raw fl (length str) (length str + length fr) (str @ 0 # fr)"
  have "(str @ 0 # fr)[0 := 0] = [] @ 0 # tl (str @ 0 # fr)" by (cases str) auto
  then show ?thesis using r(3) raw_holds'[OF r(1,2), of "[]" "tl (str @ 0 # fr)" 0] by (simp add: sdsclear_def s)
qed

lemma updatelen_holds:
  assumes "sds_holds s str"
  shows "\<exists>s'. sdsupdatelen s = Some s' \<and> sds_holds s' (takeWhile (\<lambda>c. c \<noteq> 0) str)"
  using assms
proof (rule sds_holdsE)
  fix fl fr
  assume r: "raw_ok fl (length str) (length str + length fr)" "length str + length fr < 2 ^ 62" "fl_ok fl"
    and s: "s = sds_raw fl (length str) (length str + length fr) (str @ 0 # fr)"
  let ?t = "takeWhile (\<lambda>c. c \<noteq> 0) str" and ?d = "dropWhile (\<lambda>c. c \<noteq> 0) str"
  have tw: "takeWhile (\<lambda>c. c \<noteq> 0) (str @ 0 # fr) = ?t" by (auto simp: takeWhile_append takeWhile_eq_all_conv[THEN iffD2])
  have "?d @ 0 # fr = 0 # tl (?d @ 0 # fr)" proof (cases "?d = []")
    case False
    then show ?thesis using hd_dropWhile[OF False] by (metis append_Cons list.collapse list.sel(3))
  qed (simp only: append_Nil list.sel)
  then have b: "str @ 0 # fr = ?t @ 0 # tl (?d @ 0 # fr)" by (metis append_assoc takeWhile_dropWhile_id)
  have l: "length ?t + length (tl (?d @ 0 # fr)) = length str + length fr" using arg_cong[OF b, of length] by simp
  have "sds_holds (sds_raw fl (length ?t) (length str + length fr) (str @ 0 # fr)) ?t"
    by (subst b) (rule raw_holds'[OF r(1,2) l refl])
  moreover have "length ?t < length (str @ 0 # fr)" using length_takeWhile_le[of "\<lambda>c. c \<noteq> 0" str] by simp
  then have "strlen (drop (soff s) (sblk s)) = Some (length ?t)" unfolding s raw_drop strlen_def tw Let_def by simp
  ultimately show ?thesis using r(3) unfolding sdsupdatelen_def by (simp add: s)
qed

lemma substr_holds:
  assumes "sds_holds s str"
  shows "\<exists>s'. sdssubstr s start len = Some s' \<and> sds_holds s' (take len (drop start str))"
proof -
  define t where "t = take len (drop start str)"
  define st ln where "st = (if length str \<le> start then 0 else start)" and "ln = min (if length str \<le> start then 0 else len) (length str - st)"
  have t: "take ln (drop st str) = t" "length t = ln" by (auto simp: t_def st_def ln_def min_def)
  have e: "sdssubstr s start len = do { s \<leftarrow> (if ln \<noteq> 0 then do { b \<leftarrow> srd s st ln; swr s 0 b } else Some s); s \<leftarrow> sput s ln 0; sdssetlen s ln }"
    unfolding sdssubstr_def holds_len[OF assms] bind.simps Let_def st_def ln_def by (auto simp: min_def)
  have "(if ln \<noteq> 0 then do { b \<leftarrow> srd s st ln; swr s 0 b } else Some s) = swr s 0 t"
    using t write_nothing[OF assms] holds_rd[OF assms, of st ln] by (auto simp: ln_def)
  then show ?thesis using cut_written[OF assms, of t] t(2) unfolding e t_def[symmetric] by (simp add: ln_def)
qed

text \<open>The range that \<open>sdsrange\<close> keeps: indices count from the end when negative, and a first index before the first character leaves nothing.\<close>

definition range_text :: "mem \<Rightarrow> int \<Rightarrow> int \<Rightarrow> mem" where
  "range_text str start en =
     (let n = int (length str); start = (if start < 0 then n + start else start); en = (if en < 0 then n + en else en)
      in if start < 0 \<or> start > en then [] else take (nat (en - start + 1)) (drop (nat start) str))"

lemma range_holds:
  assumes "sds_holds s str" "- (2 ^ 62) < start" "start < 2 ^ 62" "- (2 ^ 62) < en" "en < 2 ^ 62"
  shows "\<exists>s'. sdsrange s start en = Some s' \<and> sds_holds s' (range_text str start en)"
proof (cases "str = []")
  case True
  then show ?thesis using assms(1) by (auto simp: sdsrange_def holds_len range_text_def Let_def)
next
  case False
  have l: "int (length str) < 2 ^ 62" using holds_size[OF assms(1)] by (metis of_nat_less_iff of_nat_numeral of_nat_power)
  define st e where "st = (if start < 0 then int (length str) + start else start)" and "e = (if en < 0 then int (length str) + en else en)"
  have b: "- (2 ^ 62) < st" "st < 2 ^ 62" "- (2 ^ 62) < e" "e < 2 ^ 62" using assms l by (auto simp: st_def e_def)
  have g: "st > e \<or> e - st < 2 ^ 63 - 1" using b by simp
  have r: "sdsrange s start en = sdssubstr s (nat (st mod 2 ^ 64)) (if st > e then 0 else nat (e - st + 1))"
    using False g unfolding sdsrange_def holds_len[OF assms(1)] bind.simps Let_def st_def[symmetric] e_def[symmetric] by simp
  have "take (if st > e then 0 else nat (e - st + 1)) (drop (nat (st mod 2 ^ 64)) str) = range_text str start en"
  proof (cases "st < 0")
    case True
    have "st mod 2 ^ 64 = st + 2 ^ 64" using True b(1) mod_add_self2[of st "2 ^ 64"] mod_pos_pos_trivial[of "st + 2 ^ 64" "2 ^ 64"] by simp
    then have "length str \<le> nat (st mod 2 ^ 64)" using b(1) l by simp
    then show ?thesis using True by (simp add: range_text_def Let_def st_def[symmetric] e_def[symmetric])
  next
    case False
    then have "st mod 2 ^ 64 = st" using b(2) by simp
    then show ?thesis using False by (simp add: range_text_def Let_def st_def[symmetric] e_def[symmetric])
  qed
  then show ?thesis using substr_holds[OF assms(1), of "nat (st mod 2 ^ 64)" "if st > e then 0 else nat (e - st + 1)"] unfolding r by metis
qed

lemma tolower_holds: "sds_holds s str \<Longrightarrow> \<exists>s'. sdstolower s = Some s' \<and> sds_holds s' (map (\<lambda>c. word_of_int (tolower (sint c))) str)"
  using holds_rd[of s str 0 "length str"] map_written[of s str "map (\<lambda>c. word_of_int (tolower (sint c))) str"] by (simp add: sdstolower_def holds_len)

lemma toupper_holds: "sds_holds s str \<Longrightarrow> \<exists>s'. sdstoupper s = Some s' \<and> sds_holds s' (map (\<lambda>c. word_of_int (toupper (sint c))) str)"
  using holds_rd[of s str 0 "length str"] map_written[of s str "map (\<lambda>c. word_of_int (toupper (sint c))) str"] by (simp add: sdstoupper_def holds_len)

lemma mapchars_holds: "sds_holds s str \<Longrightarrow> setlen \<le> length from \<Longrightarrow> setlen \<le> length to \<Longrightarrow>
    \<exists>s'. sdsmapchars s from to setlen = Some s' \<and> sds_holds s' (map (map_char (take setlen from) (take setlen to)) str)"
  using holds_rd[of s str 0 "length str"] map_written[of s str "map (map_char (take setlen from) (take setlen to)) str"] by (simp add: sdsmapchars_def holds_len)

text \<open>Trimming: \<open>stripr\<close> drops from the right.\<close>

definition stripr :: "('a \<Rightarrow> bool) \<Rightarrow> 'a list \<Rightarrow> 'a list" where "stripr P xs = rev (dropWhile P (rev xs))"

lemma stripr_snoc: "stripr P (xs @ [x]) = (if P x then stripr P xs else xs @ [x])" by (simp add: stripr_def)

lemma stripr_append: "\<exists>x \<in> set ys. \<not> P x \<Longrightarrow> stripr P (xs @ ys) = xs @ stripr P ys"
  by (simp add: stripr_def) (metis dropWhile_append1 rev_append rev_rev_ident set_rev)

lemma stripr_split: "stripr P xs @ rev (takeWhile P (rev xs)) = xs"
  using arg_cong[OF takeWhile_dropWhile_id[of P "rev xs"], of rev] by (simp add: stripr_def del: takeWhile_dropWhile_id)

lemma stripr_take: "take (length (stripr P xs)) xs = stripr P xs"
  by (subst (2) stripr_split[of P xs, symmetric]) simp

lemma holds_get: "sds_holds s str \<Longrightarrow> 0 \<le> i \<Longrightarrow> i < int (length str) \<Longrightarrow> sget s i = Some (str ! nat i)"
proof (erule sds_holdsE)
  fix fl fr
  assume i: "0 \<le> i" "i < int (length str)" and s: "s = sds_raw fl (length str) (length str + length fr) (str @ 0 # fr)"
  have d: "drop (soff s) (sblk s) = str @ 0 # fr" unfolding s by (rule raw_drop)
  have l: "soff s + nat i < length (sblk s)" using arg_cong[OF d, of length] i by simp
  then have "sblk s ! (soff s + nat i) = (str @ 0 # fr) ! nat i" unfolding d[symmetric] by simp
  moreover have "nat i < length str" using i by simp
  ultimately show "sget s i = Some (str ! nat i)" using i l by (simp add: sget_def nat_add_distrib nth_append)
qed

lemma trim_left_at:
  assumes "sds_holds s str" "0 \<le> sp" "sp \<le> int (length str)"
  shows "trim_left cset s sp (int (length str) - 1) = Some (sp + int (length (takeWhile (strchr cset) (drop (nat sp) str))))"
  using assms(2,3)
proof (induction "nat (int (length str) - sp)" arbitrary: sp)
  case 0
  then show ?case by (simp add: trim_left.simps)
next
  case (Suc n)
  then have i: "sp < int (length str)" by linarith
  then have d: "drop (nat sp) str = str ! nat sp # drop (nat (sp + 1)) str" using Suc.prems by (simp add: Cons_nth_drop_Suc nat_add_distrib)
  show ?case
  proof (cases "strchr cset (str ! nat sp)")
    case True
    have "trim_left cset s (sp + 1) (int (length str) - 1) = Some (sp + 1 + int (length (takeWhile (strchr cset) (drop (nat (sp + 1)) str))))"
      using Suc.hyps(2) Suc.prems i by (intro Suc.hyps(1)) linarith+
    then show ?thesis using True i Suc.prems holds_get[OF assms(1), of sp] by (subst trim_left.simps) (simp add: d)
  next
    case False
    then show ?thesis using i Suc.prems holds_get[OF assms(1), of sp] by (subst trim_left.simps) (simp add: d)
  qed
qed

lemma trim_right_at:
  assumes "sds_holds s str" "sp < length str" "\<not> strchr cset (str ! sp)" "sp \<le> ep" "ep < length str"
  shows "trim_right cset s (int sp) (int ep) = Some (int (length (stripr (strchr cset) (take (ep + 1) str))) - 1)"
  using assms(4,5)
proof (induction ep)
  case (Suc ep)
  have t: "take (Suc ep + 1) str = take (ep + 1) str @ [str ! Suc ep]" using Suc.prems by (simp add: take_Suc_conv_app_nth)
  show ?case
  proof (cases "sp = Suc ep")
    case True
    then show ?thesis using Suc.prems assms(3) unfolding t stripr_snoc by (subst trim_right.simps) simp
  next
    case False
    then have "trim_right cset s (int sp) (int ep) = Some (int (length (stripr (strchr cset) (take (ep + 1) str))) - 1)" using Suc by simp
    moreover have "sget s (int (Suc ep)) = Some (str ! Suc ep)" using holds_get[OF assms(1), of "int (Suc ep)"] Suc.prems by (simp only: nat_int)
    moreover have "int sp < int (Suc ep)" using False Suc.prems by simp
    ultimately show ?thesis using Suc.prems unfolding t stripr_snoc by (subst trim_right.simps) simp
  qed
qed (use assms(2,3) in \<open>subst trim_right.simps, simp add: take_Suc_conv_app_nth stripr_def\<close>)

lemma write_same: "sds_holds s str \<Longrightarrow> take (length t) str = t \<Longrightarrow> swr s 0 t = Some s"
proof (erule sds_holdsE)
  fix fl fr
  assume t: "take (length t) str = t" and s: "s = sds_raw fl (length str) (length str + length fr) (str @ 0 # fr)"
  have l: "length t \<le> length str" using t by (metis length_take min.cobounded1)
  have "patch (str @ 0 # fr) 0 t = (take (length t) str @ drop (length t) str) @ 0 # fr" using l t by (simp add: patch_def)
  then show "swr s 0 t = Some s" using l by (simp add: s)
qed

definition trim_text :: "mem \<Rightarrow> mem \<Rightarrow> mem" where "trim_text cset str = stripr (strchr cset) (dropWhile (strchr cset) str)"

lemma trim_holds:
  assumes "sds_holds s str"
  shows "\<exists>s'. sdstrim s cset = Some s' \<and> sds_holds s' (trim_text cset str)"
proof -
  let ?c = "strchr cset"
  define sp t where "sp = length (takeWhile ?c str)" and "t = trim_text cset str"
  have spl: "sp \<le> length str" unfolding sp_def by (rule length_takeWhile_le)
  have dr: "drop sp str = dropWhile ?c str" by (simp add: sp_def dropWhile_eq_drop)
  have L: "trim_left cset s 0 (int (length str) - 1) = Some (int sp)" using trim_left_at[OF assms, of 0 cset] by (simp add: sp_def)
  have "\<exists>ep. trim_right cset s (int sp) (int (length str) - 1) = Some ep \<and> ep - int sp + 1 = int (length t) \<and> take (length t) (drop sp str) = t"
  proof (cases "sp < length str")
    case True
    then have n: "\<not> ?c (str ! sp)" unfolding sp_def by (rule nth_length_takeWhile)
    have e: "\<exists>x \<in> set (drop sp str). \<not> ?c x" using n True by (metis Cons_nth_drop_Suc list.set_intros(1))
    have st: "stripr ?c str = take sp str @ t" using stripr_append[OF e, of "take sp str"] unfolding append_take_drop_id by (simp add: t_def trim_text_def dr)
    have "trim_right cset s (int sp) (int (length str - 1)) = Some (int (length (stripr ?c str)) - 1)"
      using trim_right_at[OF assms True n, of "length str - 1"] True by simp
    moreover have "take (length t) (drop sp str) = t" unfolding t_def trim_text_def dr by (rule stripr_take)
    ultimately show ?thesis using True st spl by (intro exI[of _ "int (length (stripr ?c str)) - 1"]) (simp add: of_nat_diff)
  next
    case False
    then have "sp = length str" "t = []" using spl dr by (simp_all add: t_def trim_text_def stripr_def)
    then show ?thesis by (subst trim_right.simps) simp
  qed
  then obtain ep where R: "trim_right cset s (int sp) (int (length str) - 1) = Some ep" and k: "ep - int sp + 1 = int (length t)" "take (length t) (drop sp str) = t" by blast
  have lt: "sp + length t \<le> length str" using arg_cong[OF k(2), of length] spl by simp
  have m: "nat ((ep - int sp + 1) mod 2 ^ 64) = length t" using k(1) lt holds_size[OF assms] by (simp add: nat_mod_distrib)
  have "(if int sp \<noteq> 0 then do { b \<leftarrow> srd s (nat (int sp)) (length t); swr s 0 b } else Some s) = (if sp = 0 then Some s else swr s 0 t)"
    using holds_rd[OF assms, of sp "length t"] lt k(2) by simp
  then have e: "sdstrim s cset = do { s \<leftarrow> (if sp = 0 then Some s else swr s 0 t); s \<leftarrow> sput s (length t) 0; sdssetlen s (length t) }"
    unfolding sdstrim_def holds_len[OF assms] bind.simps Let_def L R m by simp
  have "(if sp = 0 then Some s else swr s 0 t) = swr s 0 t" using write_same[OF assms, of t] k(2) by (cases "sp = 0") simp_all
  then show ?thesis using cut_written[OF assms, of t] lt unfolding e t_def[symmetric] by simp
qed

section \<open>Resizing\<close>

lemma raw_five_cap: "sds_raw 0 len al buf = sds_raw 0 len al' buf" by (simp add: sds_raw_def)

text \<open>What the end of a resizing makes of a block that begins with the text to keep.\<close>

lemma resize_end:
  assumes "fl_ok fl" "sz \<le> fl_max fl" "sz < 2 ^ 62" "length buf = sz + 1" "length t \<le> sz" "take (length t) buf = t"
  shows "\<exists>s. sdsResize_end (sds_raw fl L A buf) (length t) sz = Some (Some s) \<and> sds_holds s t"
proof -
  have "buf[length t := 0] = t @ 0 # drop (length t + 1) buf" using assms(4,5,6) by (simp add: upd_conv_take_nth_drop)
  then have "sdsResize_end (sds_raw fl L A buf) (length t) sz = Some (Some (sds_raw fl (length t) (if fl = 0 then A else sz) (t @ 0 # drop (length t + 1) buf)))"
    using assms(1,4,5) by (simp add: sdsResize_end_def)
  moreover have "sds_raw fl (length t) (if fl = 0 then A else sz) b = sds_raw fl (length t) sz b" for b using raw_five_cap by (cases "fl = 0") auto
  moreover have "raw_ok fl (length t) sz" using assms by (simp add: raw_ok_def)
  ultimately show ?thesis using raw_holds'[of fl "length t" sz t "drop (length t + 1) buf" "length t"] assms(3,4,5) by simp
qed

lemma resize_realloc_gives:
  assumes r: "raw_ok fl (length str) (length str + length fr)"
    and s: "s = sds_raw fl (length str) (length str + length fr) (str @ 0 # fr)"
    and t: "sz \<le> fl_max fl" and a: "malloc_ok a" and l: "len = min sz (length str)" "newlen = sdsHdrSize fl + (sz + 1)"
  defines "r \<equiv> sdsResize_realloc a s (fl AND SDS_TYPE_MASK) len newlen"
  shows "(\<exists>s'. r = Some (Some s') \<and> sds_holds s' (take sz str)) \<or> r = Some None \<and> a newlen = None"
proof (cases "a newlen")
  case None
  then show ?thesis by (simp add: r_def sdsResize_realloc_def Let_def zrealloc_usable_def)
next
  case (Some f)
  have f: "fl_ok fl" using r(1) by (rule raw_okD)
  have n: "sz < 2 ^ 62" using alloc_okD[OF a Some] by (simp add: l)
  have m: "sz \<le> sdsTypeMaxSize (fl AND SDS_TYPE_MASK)" using t f by (auto simp: sdsTypeMaxSize_def fl_max_def sdshdr_field_def sds_types fl_ok_def split: if_splits)
  have adj: "adjustTypeIfNeeded (fl AND SDS_TYPE_MASK) (sdsHdrSize fl) newlen = (False, fl AND SDS_TYPE_MASK, sdsHdrSize fl)"
    using no_adjust[OF m, of "sdsHdrSize fl"] by (simp add: l)
  let ?buf = "zrealloc (\<lambda>i. f (sdsHdrSize fl + i)) (str @ 0 # fr) (sz + 1)"
  have b: "\<lparr>sblk = zrealloc f (sblk s) newlen, soff = sdsHdrSize fl\<rparr> = sds_raw fl (length str) (length str + length fr) ?buf"
    unfolding s l(2) by (rule raw_realloc[OF f])
  have k: "len = length (take sz str)" "newlen - sdsHdrSize fl - 1 = sz" by (simp_all add: l)
  have "take len ?buf = take sz str" by (auto simp: zrealloc_def l(1) min_def)
  then obtain s' where "sdsResize_end (sds_raw fl (length str) (length str + length fr) ?buf) len sz = Some (Some s')" "sds_holds s' (take sz str)"
    using resize_end[OF f t n, of ?buf "take sz str" "length str" "length str + length fr"] unfolding k(1) by auto
  then show ?thesis unfolding r_def sdsResize_realloc_def Let_def zrealloc_usable_def Some hdr_mask using adj b k(2) by simp
qed

lemma resize_malloc_gives:
  assumes h: "sds_holds s str" and t: "ty_ok ty" "sz \<le> fl_max ty" and a: "malloc_ok a" and l: "len = min sz (length str)" "newlen = sdsHdrSize ty + (sz + 1)"
  defines "r \<equiv> sdsResize_malloc a s ty len newlen"
  shows "(\<exists>s'. r = Some (Some s') \<and> sds_holds s' (take sz str)) \<or> r = Some None \<and> a newlen = None"
proof (cases "a newlen")
  case None
  then show ?thesis by (simp add: r_def sdsResize_malloc_def zmalloc_usable_def)
next
  case (Some f)
  have n: "sz < 2 ^ 62" using alloc_okD[OF a Some] by (simp add: l)
  have m: "sz \<le> sdsTypeMaxSize ty" using t ty_max by simp
  have fl: "fl_ok ty" using ty_fl[OF t(1)] by simp
  have adj: "adjustTypeIfNeeded ty (sdsHdrSize ty) newlen = (False, ty, sdsHdrSize ty)" using no_adjust[OF m, of "sdsHdrSize ty"] by (simp add: l)
  obtain b where b: "srd s 0 (len + 1) = Some b" "length b = len + 1" "take len b = take sz str"
  proof -
    obtain fl fr where s: "s = sds_raw fl (length str) (length str + length fr) (str @ 0 # fr)" using h by (auto simp: sds_holds_def)
    show ?thesis by (rule that[of "take (len + 1) (str @ 0 # fr)"]) (auto simp: s rd_def l(1) min_def)
  qed
  let ?m = "map f [0..<newlen]"
  let ?buf = "b @ drop (sdsHdrSize ty + length b) ?m"
  obtain L A where mv: "sds_move ?m (sdsHdrSize ty) ty b = Some (sds_raw ty L A ?buf)" using moved_raw[OF t(1), of b ?m] b(2) by (auto simp: l)
  have k: "len = length (take sz str)" "newlen - sdsHdrSize ty - 1 = sz" by (simp_all add: l)
  have "take len ?buf = take sz str" using b(2,3) by simp
  moreover have "length ?buf = sz + 1" using b(2) by (simp add: l)
  ultimately obtain s' where "sdsResize_end (sds_raw ty L A ?buf) len sz = Some (Some s')" "sds_holds s' (take sz str)"
    using resize_end[OF fl t(2) n, of ?buf "take sz str" L A] unfolding k(1) by auto
  then show ?thesis unfolding r_def sdsResize_malloc_def zmalloc_usable_def Some using adj b(1) mv k(2) by simp
qed

lemma type_mono: "ty_ok ty \<Longrightarrow> fl_ok fl \<Longrightarrow> ty \<le> fl AND SDS_TYPE_MASK \<Longrightarrow> fl_max ty \<le> fl_max fl"
  by (auto simp: ty_ok_def fl_ok_def fl_max_def sds_types sdshdr_field_def word_le_nat_alt split: if_splits)

lemma resize_gives:
  assumes "sds_holds s str" "malloc_ok a" "sz < 2 ^ 62"
  shows "(\<exists>s'. sdsResize a s sz regrow = Some (Some s') \<and> sds_holds s' (take sz str)) \<or> sdsResize a s sz regrow = Some None \<and> refused a sz"
proof -
  obtain fl fr where r: "raw_ok fl (length str) (length str + length fr)" "length str + length fr < 2 ^ 62" and f: "fl_ok fl"
    and s: "s = sds_raw fl (length str) (length str + length fr) (str @ 0 # fr)" using assms(1) by (rule sds_holdsE)
  have ty: "sdsType s = Some (fl AND SDS_TYPE_MASK)" and ln: "sdslen s = Some (length str)" using f r(1) by (simp_all add: s)
  have al: "sdsalloc s = Some (if fl = 0 then length str else length str + length fr)" using raw_alloc[OF r(1)] by (simp add: s)
  have off: "soff s = sdsHdrSize (fl AND SDS_TYPE_MASK)" using f by (simp add: s)
  define t where "t = (if regrow \<and> sdsReqType sz = SDS_TYPE_5 then SDS_TYPE_8 else sdsReqType sz)"
  have t: "ty_ok t" "sz \<le> fl_max t" using req_ty[of sz] req_max[of sz] room_type_max[of sz] assms(3) by (auto simp: t_def room_type_def ty_ok_def)
  have len: "(if sz < length str then sz else length str) = min sz (length str)" by auto
  have h: "(sdsHdrSize x + sz + 1) mod 2 ^ 64 = sdsHdrSize x + (sz + 1)" for x using hdr_le[of x] assms(3) by simp
  have ref: "refused a sz" if "a (sdsHdrSize x + (sz + 1)) = None" for x
    using that hdr_le[of x] unfolding refused_def by (intro exI[of _ "sdsHdrSize x + (sz + 1)"]) (simp add: grow_bound_def)
  show ?thesis
  proof (cases "(if fl = 0 then length str else length str + length fr) = sz")
    case True
    then have "length str \<le> sz" by (auto split: if_splits)
    then show ?thesis using True assms(1) by (simp add: sdsResize_def ty ln al)
  next
    case False
    have e: "sdsResize a s sz regrow = (if fl AND SDS_TYPE_MASK = t \<or> t < fl AND SDS_TYPE_MASK \<and> t > SDS_TYPE_8
       then sdsResize_realloc a s (fl AND SDS_TYPE_MASK) (min sz (length str)) (sdsHdrSize fl + (sz + 1))
       else sdsResize_malloc a s t (min sz (length str)) (sdsHdrSize t + (sz + 1)))"
      using False unfolding sdsResize_def ty ln al bind.simps Let_def len t_def[symmetric] h by (simp add: off hdr_mask)
    show ?thesis
    proof (cases "fl AND SDS_TYPE_MASK = t \<or> t < fl AND SDS_TYPE_MASK \<and> t > SDS_TYPE_8")
      case True
      then have "t \<le> fl AND SDS_TYPE_MASK" by auto
      then have "sz \<le> fl_max fl" using type_mono[OF t(1) f] t(2) by simp
      then show ?thesis using resize_realloc_gives[OF r(1) s _ assms(2) refl refl] ref True unfolding e by auto
    next
      case no: False
      then show ?thesis using resize_malloc_gives[OF assms(1) t assms(2) refl refl] ref unfolding e by auto
    qed
  qed
qed

end
