(* ===== verification/SdsProps.thy ===== *)
theory SdsProps
  imports SdsRep "HOL-Library.List_Lexorder"
begin

text \<open>
  Dynamic strings over sequences of commands, splitting and joining, quoting and reading back, formatting, comparing, writing
  into the free space, disposal, flags and templates.
\<close>

section \<open>Sequences of commands\<close>

datatype sds_cmd = CatLen mem | CpyLen mem | GrowZero nat | Trim mem | Substr nat nat | Range int int | ToLower | ToUpper
  | MapChars mem mem nat | Clear | UpdateLen | MakeRoom nat bool | Resize nat bool | RemoveFreeSpace bool

fun sds_step :: "allocator \<Rightarrow> sds_cmd \<Rightarrow> sds \<Rightarrow> sds option option" where
  "sds_step a (CatLen t) s = sdscatlen a s t"
| "sds_step a (CpyLen t) s = sdscpylen a s t"
| "sds_step a (GrowZero n) s = sdsgrowzero a s n"
| "sds_step a (Trim cset) s = map_option Some (sdstrim s cset)"
| "sds_step a (Substr i n) s = map_option Some (sdssubstr s i n)"
| "sds_step a (Range i j) s = map_option Some (sdsrange s i j)"
| "sds_step a ToLower s = map_option Some (sdstolower s)"
| "sds_step a ToUpper s = map_option Some (sdstoupper s)"
| "sds_step a (MapChars from to n) s = map_option Some (sdsmapchars s from to n)"
| "sds_step a Clear s = map_option Some (sdsclear s)"
| "sds_step a UpdateLen s = map_option Some (sdsupdatelen s)"
| "sds_step a (MakeRoom n greedy) s = sdsMakeRoomFor' a s n greedy"
| "sds_step a (Resize n regrow) s = sdsResize a s n regrow"
| "sds_step a (RemoveFreeSpace regrow) s = sdsRemoveFreeSpace a s regrow"

fun sds_edit :: "sds_cmd \<Rightarrow> mem \<Rightarrow> mem" where
  "sds_edit (CatLen t) str = str @ t"
| "sds_edit (CpyLen t) str = t"
| "sds_edit (GrowZero n) str = str @ replicate (n - length str) 0"
| "sds_edit (Trim cset) str = trim_text cset str"
| "sds_edit (Substr i n) str = take n (drop i str)"
| "sds_edit (Range i j) str = range_text str i j"
| "sds_edit ToLower str = map (\<lambda>c. word_of_int (tolower (sint c))) str"
| "sds_edit ToUpper str = map (\<lambda>c. word_of_int (toupper (sint c))) str"
| "sds_edit (MapChars from to n) str = map (map_char (take n from) (take n to)) str"
| "sds_edit Clear str = []"
| "sds_edit UpdateLen str = takeWhile (\<lambda>c. c \<noteq> 0) str"
| "sds_edit (MakeRoom n greedy) str = str"
| "sds_edit (Resize n regrow) str = take n str"
| "sds_edit (RemoveFreeSpace regrow) str = str"

text \<open>The room a command may ask for, and the commands with arguments of a possible size.\<close>

fun sds_cost :: "sds_cmd \<Rightarrow> nat" where
  "sds_cost (CatLen t) = length t"
| "sds_cost (CpyLen t) = length t"
| "sds_cost (GrowZero n) = n"
| "sds_cost (MakeRoom n _) = n"
| "sds_cost (Resize n _) = n"
| "sds_cost _ = 0"

fun sds_cmd_ok :: "sds_cmd \<Rightarrow> bool" where
  "sds_cmd_ok (Range i j) \<longleftrightarrow> - (2 ^ 62) < i \<and> i < 2 ^ 62 \<and> - (2 ^ 62) < j \<and> j < 2 ^ 62"
| "sds_cmd_ok (MapChars from to n) \<longleftrightarrow> n \<le> length from \<and> n \<le> length to"
| "sds_cmd_ok c \<longleftrightarrow> sds_cost c < 2 ^ 62"

lemma stripr_length: "length (stripr P xs) \<le> length xs" using length_dropWhile_le[of P "rev xs"] by (simp add: stripr_def)

lemma trim_length: "length (trim_text cset str) \<le> length str"
  unfolding trim_text_def by (rule le_trans[OF stripr_length length_dropWhile_le])

lemma edit_length: "length (sds_edit c str) \<le> length str + sds_cost c"
  by (cases c) (auto simp: trim_length range_text_def Let_def length_takeWhile_le)

lemma sds_step_ok:
  assumes "sds_holds s str" "malloc_ok a" "sds_cmd_ok c"
  shows "(\<exists>s'. sds_step a c s = Some (Some s') \<and> sds_holds s' (sds_edit c str)) \<or> sds_step a c s = Some None \<and> refused a (length str + sds_cost c)"
proof -
  have g: "sds_gives a r (sds_edit c str) \<Longrightarrow> (\<exists>s'. r = Some (Some s') \<and> sds_holds s' (sds_edit c str)) \<or> r = Some None \<and> refused a (length str + sds_cost c)" for r
    using refused_mono[OF _ edit_length[of c str]] by (auto simp: sds_gives_def)
  have f: "\<exists>s'. r = Some s' \<and> sds_holds s' t \<Longrightarrow> \<exists>s'. map_option Some r = Some (Some s') \<and> sds_holds s' t" for r t by auto
  show ?thesis
  proof (cases c)
    case (CatLen t) then show ?thesis using g[of "sdscatlen a s t"] catlen_gives[OF assms(1,2), of t] assms(3) by simp
  next
    case (CpyLen t) then show ?thesis using g[of "sdscpylen a s t"] cpylen_gives[OF assms(1,2), of t] assms(3) by simp
  next
    case (GrowZero n) then show ?thesis using g[of "sdsgrowzero a s n"] growzero_gives[OF assms(1,2), of n] assms(3) by simp
  next
    case (Trim cset) then show ?thesis using f[OF trim_holds[OF assms(1), of cset]] by simp
  next
    case (Substr i n) then show ?thesis using f[OF substr_holds[OF assms(1), of i n]] by simp
  next
    case (Range i j) then show ?thesis using f[OF range_holds[OF assms(1), of i j]] assms(3) by simp
  next
    case ToLower then show ?thesis using f[OF tolower_holds[OF assms(1)]] by simp
  next
    case ToUpper then show ?thesis using f[OF toupper_holds[OF assms(1)]] by simp
  next
    case (MapChars fs ts n) then show ?thesis using f[OF mapchars_holds[OF assms(1), of n fs ts]] assms(3) by simp
  next
    case Clear then show ?thesis using f[OF clear_holds[OF assms(1)]] by simp
  next
    case UpdateLen then show ?thesis using f[OF updatelen_holds[OF assms(1)]] by simp
  next
    case (MakeRoom n greedy) then show ?thesis using make_room[OF assms(1,2), of n greedy] assms(3) room_holds by auto
  next
    case (Resize n regrow) then show ?thesis using resize_gives[OF assms(1,2), of n regrow] assms(3) refused_mono[of a n "length str + n"] by auto
  next
    case (RemoveFreeSpace regrow) then show ?thesis using resize_gives[OF assms(1,2), of "length str" regrow] holds_size[OF assms(1)] by (auto simp: sdsRemoveFreeSpace_def holds_len[OF assms(1)])
  qed
qed

definition sds_obj :: "allocator \<Rightarrow> sds \<Rightarrow> mem \<Rightarrow> bool" where "sds_obj a s str \<longleftrightarrow> malloc_ok a \<and> sds_holds s str"

definition sds_refused :: "allocator \<Rightarrow> sds \<Rightarrow> sds_cmd \<Rightarrow> bool" where
  "sds_refused a s c \<longleftrightarrow> (\<exists>n. sdslen s = Some n \<and> refused a (n + sds_cost c))"

interpretation sstore: cmd_store "sds_obj a" "sds_step a" sds_edit sds_cmd_ok "sds_refused a" for a
proof
  fix m ts c
  assume "sds_obj a m ts" "sds_cmd_ok c"
  then show "(\<exists>m'. sds_step a c m = Some (Some m') \<and> sds_obj a m' (sds_edit c ts)) \<or> sds_step a c m = Some None \<and> sds_refused a m c"
    using sds_step_ok[of m ts a c] holds_len[of m ts] by (auto simp: sds_obj_def sds_refused_def)
qed

lemma fold_edit_length: "length (fold sds_edit cs str) \<le> length str + sum_list (map sds_cost cs)"
proof (induction cs arbitrary: str)
  case (Cons c cs)
  have "length (fold sds_edit cs (sds_edit c str)) \<le> length (sds_edit c str) + sum_list (map sds_cost cs)" by (rule Cons.IH)
  then show ?case using edit_length[of c str] by simp
qed simp

lemma commands_refine:
  assumes "malloc_ok a" "list_all sds_cmd_ok cs" "sds_holds s str"
  shows "(\<exists>s'. run_cmds (sds_step a) cs s = Some (Some s') \<and> sds_holds s' (fold sds_edit cs str)) \<or>
    run_cmds (sds_step a) cs s = Some None \<and> refused a (length str + sum_list (map sds_cost cs))"
proof -
  have o: "sds_obj a s str" using assms by (simp add: sds_obj_def)
  from sstore.run_cmd_at[OF o assms(2)] show ?thesis
  proof (elim disjE conjE exE)
    fix pre c post s'
    assume r: "run_cmds (sds_step a) cs s = Some None" and c: "cs = pre @ c # post" "sds_obj a s' (fold sds_edit pre str)" "sds_refused a s' c"
    have "length (fold sds_edit pre str) + sds_cost c \<le> length str + sum_list (map sds_cost cs)" using fold_edit_length[of pre str] by (simp add: c(1))
    then show ?thesis using r c(2,3) holds_len[of s' "fold sds_edit pre str"] refused_mono[of a "length (fold sds_edit pre str) + sds_cost c"] by (auto simp: sds_obj_def sds_refused_def)
  qed (auto simp: sds_obj_def)
qed

section \<open>Splitting and joining\<close>

text \<open>An allocator that serves every request below the limit.\<close>

definition alloc_serves :: "allocator \<Rightarrow> bool" where "alloc_serves a \<longleftrightarrow> (\<forall>n. a n = None \<longleftrightarrow> 2 ^ 62 \<le> n)"

lemma serves_ok: "alloc_serves a \<Longrightarrow> malloc_ok a" by (simp add: alloc_serves_def malloc_ok_def)

lemma serves_not_refused: "alloc_serves a \<Longrightarrow> n < 2 ^ 60 \<Longrightarrow> \<not> refused a n"
proof
  assume a: "alloc_serves a" "n < 2 ^ 60" "refused a n"
  then obtain k where "k \<le> grow_bound n" "a k = None" by (auto simp: refused_def)
  moreover from this a(1) have "2 ^ 62 \<le> k" by (simp add: alloc_serves_def)
  ultimately show False using a(2) by (simp add: grow_bound_def)
qed

lemma gives_ok: "alloc_serves a \<Longrightarrow> sds_gives a r str \<Longrightarrow> length str < 2 ^ 60 \<Longrightarrow> \<exists>s. r = Some (Some s) \<and> sds_holds s str"
  using serves_not_refused by (auto simp: sds_gives_def)

lemma new_ok:
  assumes "alloc_serves a" "n \<le> length b" "n < 2 ^ 60"
  shows "\<exists>s. sdsnewlen a (Init b) n = Some (Some s) \<and> sds_holds s (take n b)"
proof -
  have "a (sdsHdrSize (new_type n) + n + 1) \<noteq> None" using assms(1,3) hdr_le[of "new_type n"] by (auto simp: alloc_serves_def)
  then obtain s where "sdsnewlen' a (Init b) n False = Some (Some s)" using newlen_raw[of n b a False] assms by auto
  then show ?thesis using newlen_holds[of n b a False s] assms by (auto simp: sdsnewlen_def)
qed

lemma cat_ok: "alloc_serves a \<Longrightarrow> sds_holds s str \<Longrightarrow> length str + length t < 2 ^ 60 \<Longrightarrow> \<exists>s'. sdscatlen a s t = Some (Some s') \<and> sds_holds s' (str @ t)"
  using gives_ok[OF _ catlen_gives[OF _ serves_ok, of s str a t]] by simp

text \<open>Joining, and the tokens that do not contain the separator.\<close>

fun join_text :: "'a list \<Rightarrow> 'a list list \<Rightarrow> 'a list" where
  "join_text sep [] = []"
| "join_text sep [t] = t"
| "join_text sep (t # ts) = t @ sep @ join_text sep ts"

definition sep_free :: "'a list \<Rightarrow> 'a list \<Rightarrow> bool" where "sep_free sep t \<longleftrightarrow> (\<forall>i. take (length sep) (drop i t) \<noteq> sep)"

lemma join_snoc: "join_text sep (ts @ [t]) = concat (map (\<lambda>t. t @ sep) ts) @ t"
  by (induction sep ts rule: join_text.induct) auto

lemma take_sub: "sep \<noteq> [] \<Longrightarrow> take (length sep) (drop i (take k (drop b s))) = sep \<Longrightarrow> take (length sep) (drop (b + i) s) = sep \<and> i + length sep \<le> k"
proof -
  assume n: "sep \<noteq> []" and e: "take (length sep) (drop i (take k (drop b s))) = sep"
  have l: "length sep \<le> length (drop i (take k (drop b s)))" using arg_cong[OF e, of length] by simp
  moreover have "0 < length sep" using n by simp
  ultimately have k: "i + length sep \<le> k" unfolding length_drop length_take by linarith
  then have "min (length sep) (k - i) = length sep" by simp
  then show ?thesis using e k by (simp add: drop_take add.commute)
qed

lemma split_room_ok:
  assumes "alloc_serves a" "e < 2 ^ 28" "e + 1 \<le> slots" "5 \<le> slots" "slots < 2 ^ 30"
  shows "\<exists>sl. split_room a slots e = Some (Some sl) \<and> e + 2 \<le> sl \<and> 5 \<le> sl \<and> sl < 2 ^ 30"
  using assms by (auto simp: split_room_def c_int_def alloc_serves_def)

lemma split_loop_ok:
  assumes "alloc_serves a" "length s < 2 ^ 28" "sep \<noteq> []"
    and "start \<le> j" "j \<le> length s" "int (length tokens) + 1 \<le> slots" "5 \<le> slots" "slots < 2 ^ 30" "length tokens \<le> j"
    and "list_all2 sds_holds tokens ts" "concat (map (\<lambda>t. t @ sep) ts) = take start s" "list_all (sep_free sep) ts"
    and "\<forall>i. start \<le> i \<and> i < j \<longrightarrow> take (length sep) (drop i s) \<noteq> sep"
  shows "\<exists>tokens' start' slots' ts'. sdssplitlen_loop a s sep j start tokens slots = Some (Some (tokens', start', slots')) \<and>
    int (length tokens') < slots' \<and> start' \<le> length s \<and> list_all2 sds_holds tokens' ts' \<and> concat (map (\<lambda>t. t @ sep) ts') = take start' s \<and>
    list_all (sep_free sep) ts' \<and> (\<forall>i. start' \<le> i \<longrightarrow> take (length sep) (drop i s) \<noteq> sep)"
  using assms(4-)
proof (induction "length s - j" arbitrary: j start tokens slots ts rule: less_induct)
  case less
  note IH = less.hyps and P = less.prems
  show ?case
  proof (cases "int j < int (length s) - (int (length sep) - 1)")
    case False
    have "take (length sep) (drop i s) \<noteq> sep" if "start \<le> i" for i
    proof (cases "i < j")
      case True then show ?thesis using P(10) that by blast
    next
      case no: False
      then have "length (take (length sep) (drop i s)) < length sep" using False assms(3) by (cases "length s \<le> i") auto
      then show ?thesis by (metis less_irrefl)
    qed
    then show ?thesis using False P by (subst sdssplitlen_loop.simps) auto
  next
    case True
    obtain sl where sl: "split_room a slots (int (length tokens)) = Some (Some sl)" "int (length tokens) + 2 \<le> sl" "5 \<le> sl" "sl < 2 ^ 30"
      using split_room_ok[OF assms(1), of "int (length tokens)" slots] P(2-6) assms(2) by auto
    have j: "j + length sep \<le> length s" using True assms(3) by (cases sep) auto
    have len: "length sep > 0" using assms(3) by simp
    have eq: "(length sep = 1 \<and> s ! j = sep ! 0 \<or> take (length sep) (drop j s) = sep) \<longleftrightarrow> take (length sep) (drop j s) = sep"
    proof -
      have "take (length sep) (drop j s) = sep" if "length sep = 1" "s ! j = sep ! 0"
        using that j len by (intro nth_equalityI) auto
      then show ?thesis by blast
    qed
    note step = sdssplitlen_loop.simps[of a s sep j start tokens slots, unfolded sl(1) eq]
    show ?thesis
    proof (cases "take (length sep) (drop j s) = sep")
      case found: True
      obtain t where t: "sdsnewlen a (Init (drop start s)) (j - start) = Some (Some t)" "sds_holds t (take (j - start) (drop start s))"
      proof -
        have "j - start < 2 ^ 60" "j - start \<le> length (drop start s)" using P(2) assms(2) by simp_all
        then show thesis using that new_ok[OF assms(1), of "j - start" "drop start s"] by blast
      qed
      let ?t = "take (j - start) (drop start s)"
      have c: "take start s @ ?t @ sep = take (j + length sep) s" using found P(1) by (metis append_assoc le_add_diff_inverse take_add)
      have x: "length s - (j + length sep) < length s - j" "Suc (length tokens) \<le> j + length sep" using j len P(6) by linarith+
      have f: "sep_free sep ?t" unfolding sep_free_def
      proof (intro allI notI)
        fix i assume "take (length sep) (drop i ?t) = sep"
        then have "take (length sep) (drop (start + i) s) = sep" "i + length sep \<le> j - start" using take_sub[OF assms(3)] by blast+
        then show False using P(10) len by auto
      qed
      have "\<exists>tokens' start' slots' ts'. sdssplitlen_loop a s sep (j + length sep) (j + length sep) (tokens @ [t]) sl = Some (Some (tokens', start', slots')) \<and>
        int (length tokens') < slots' \<and> start' \<le> length s \<and> list_all2 sds_holds tokens' ts' \<and> concat (map (\<lambda>t. t @ sep) ts') = take start' s \<and>
        list_all (sep_free sep) ts' \<and> (\<forall>i. start' \<le> i \<longrightarrow> take (length sep) (drop i s) \<noteq> sep)"
        using P t(2) c f sl j x by (intro IH[of _ _ _ _ "ts @ [?t]"]) (auto simp: list_all2_appendI)
      then show ?thesis using step found t(1) sl(2) True assms(3) by simp
    next
      case missing: False
      have x: "length s - (j + 1) < length s - j" "j < length s" using j len by linarith+
      have "\<exists>tokens' start' slots' ts'. sdssplitlen_loop a s sep (j + 1) start tokens sl = Some (Some (tokens', start', slots')) \<and>
        int (length tokens') < slots' \<and> start' \<le> length s \<and> list_all2 sds_holds tokens' ts' \<and> concat (map (\<lambda>t. t @ sep) ts') = take start' s \<and>
        list_all (sep_free sep) ts' \<and> (\<forall>i. start' \<le> i \<longrightarrow> take (length sep) (drop i s) \<noteq> sep)"
        using P sl j x missing by (intro IH[of _ _ _ _ ts]) (auto simp: less_Suc_eq)
      then show ?thesis using step missing True assms(3) by simp
    qed
  qed
qed

lemma split_ok:
  assumes "alloc_serves a" "length s < 2 ^ 28" "sep \<noteq> []" "s \<noteq> []"
  shows "\<exists>tokens ts. sdssplitlen a s sep = Some (Some tokens) \<and> list_all2 sds_holds tokens ts \<and> join_text sep ts = s \<and> list_all (sep_free sep) ts"
proof -
  obtain tokens start slots ts where l: "sdssplitlen_loop a s sep 0 0 [] 5 = Some (Some (tokens, start, slots))"
    and r: "int (length tokens) < slots" "start \<le> length s" "list_all2 sds_holds tokens ts" "concat (map (\<lambda>t. t @ sep) ts) = take start s"
      "list_all (sep_free sep) ts" "\<forall>i. start \<le> i \<longrightarrow> take (length sep) (drop i s) \<noteq> sep"
    using split_loop_ok[OF assms(1-3), of 0 0 "[]" 5 "[]"] by auto
  obtain t where t: "sdsnewlen a (Init (drop start s)) (length s - start) = Some (Some t)" "sds_holds t (drop start s)"
  proof -
    have "length s - start < 2 ^ 60" using assms(2) by simp
    then show thesis using that new_ok[OF assms(1), of "length s - start" "drop start s"] by auto
  qed
  have "sep_free sep (drop start s)" using r(6) by (simp add: sep_free_def)
  then have "list_all2 sds_holds (tokens @ [t]) (ts @ [drop start s])" "join_text sep (ts @ [drop start s]) = s" "list_all (sep_free sep) (ts @ [drop start s])"
    using r t(2) by (simp_all add: list_all2_appendI join_snoc)
  moreover have "sdssplitlen a s sep = Some (Some (tokens @ [t]))" using l r(1) t(1) assms by (simp add: sdssplitlen_def alloc_serves_def)
  ultimately show ?thesis by blast
qed

lemma joinsds_loop_ok:
  assumes "alloc_serves a"
  shows "sds_holds s str \<Longrightarrow> list_all2 sds_holds toks ts \<Longrightarrow> length str + length (join_text sep ts) < 2 ^ 60 \<Longrightarrow>
    \<exists>s'. sdsjoinsds_loop a (Some s) toks sep = Some (Some s') \<and> sds_holds s' (str @ join_text sep ts)"
proof (induction sep ts arbitrary: s str toks rule: join_text.induct)
  case (2 sep t)
  then obtain tk where tk: "toks = [tk]" "sds_holds tk t" by (auto simp: list_all2_Cons2)
  then show ?case using cat_ok[OF assms 2(1), of t] 2(3) holds_rd[OF tk(2), of 0 "length t"] by (auto simp: sdscatsds_def holds_len)
next
  case (3 sep t u ts)
  then obtain tk toks' where tk: "toks = tk # toks'" "sds_holds tk t" "list_all2 sds_holds toks' (u # ts)" by (auto simp: list_all2_Cons2)
  have ne: "toks' \<noteq> []" using tk(3) by auto
  obtain s1 where s1: "sdscatsds a s tk = Some (Some s1)" "sds_holds s1 (str @ t)"
    using cat_ok[OF assms 3(2), of t] 3(4) holds_rd[OF tk(2), of 0 "length t"] tk(2) by (auto simp: sdscatsds_def holds_len)
  obtain s2 where s2: "sdscatlen a s1 sep = Some (Some s2)" "sds_holds s2 ((str @ t) @ sep)" using cat_ok[OF assms s1(2), of sep] 3(4) by auto
  show ?case using 3(1)[OF s2(2) tk(3)] 3(4) ne s1(1) s2(1) by (simp add: tk(1))
qed auto

lemma empty_ok: "alloc_serves a \<Longrightarrow> \<exists>s. sdsempty a = Some (Some s) \<and> sds_holds s []"
  using new_ok[of a 0 "[0]"] by (simp add: sdsempty_def)

lemma joinsds_ok: "alloc_serves a \<Longrightarrow> list_all2 sds_holds toks ts \<Longrightarrow> length (join_text sep ts) < 2 ^ 60 \<Longrightarrow>
    \<exists>s. sdsjoinsds a toks sep = Some (Some s) \<and> sds_holds s (join_text sep ts)"
  using joinsds_loop_ok[of a _ "[]" toks ts sep] empty_ok[of a] by (auto simp: sdsjoinsds_def)

section \<open>Quoting\<close>

definition repr_text :: "mem \<Rightarrow> mem" where "repr_text p = 0x22 # concat (map repr_char p) @ [0x22]"

lemma repr_char_len: "length (repr_char c) \<le> 4" by (simp add: repr_char_def)

lemma repr_len: "length (concat (map repr_char p)) \<le> 4 * length p"
proof (induction p)
  case (Cons c p)
  then show ?case using repr_char_len[of c] by simp
qed simp

lemma vprintf_loop_cat:
  "vprintf_loop a s n (Some t) = (if length t \<ge> n \<and> a (length t + 1) = None then Some None else sdscatlen a s t)"
  by (subst vprintf_loop.simps, subst vprintf_loop.simps) auto

lemma catvprintf_error: "strlen fmt = Some n \<Longrightarrow> sdscatvprintf a s fmt None = Some None"
  by (simp add: sdscatvprintf_def vprintf_loop.simps Let_def)

lemma catvprintf_cat:
  assumes "strlen fmt = Some n"
  shows "sdscatvprintf a s fmt (Some t) = sdscatlen a s t \<or>
    sdscatvprintf a s fmt (Some t) = Some None \<and> (a (2 * n) = None \<or> a (length t + 1) = None)"
  using assms by (auto simp: sdscatvprintf_def vprintf_loop_cat mult.commute Let_def)

lemma repr_put_cat: "repr_put a s c = sdscatlen a s (repr_char c)"
proof -
  have "strlen [0x5C, 0x25, 0x63, 0] = Some 3" "strlen [0x5C, 0x78, 0x25, 0x30, 0x32, 0x78, 0] = Some 6" by code_simp+
  then show ?thesis using repr_char_len[of c] by (simp add: repr_put_def sdscatprintf_def sdscatvprintf_def vprintf_loop_cat)
qed

lemma catrepr_loop_ok:
  assumes "alloc_serves a"
  shows "sds_holds s str \<Longrightarrow> length str + 4 * length p < 2 ^ 60 \<Longrightarrow>
    \<exists>s'. sdscatrepr_loop a (Some s) p = Some (Some s') \<and> sds_holds s' (str @ concat (map repr_char p))"
proof (induction p arbitrary: s str)
  case (Cons c p)
  obtain s1 where s1: "sdscatlen a s (repr_char c) = Some (Some s1)" "sds_holds s1 (str @ repr_char c)"
    using cat_ok[OF assms Cons.prems(1), of "repr_char c"] Cons.prems(2) repr_char_len[of c] by auto
  show ?case using Cons.IH[OF s1(2)] Cons.prems(2) repr_char_len[of c] s1(1) by (auto simp: repr_put_cat)
qed auto

lemma catrepr_ok:
  assumes "alloc_serves a" "sds_holds s str" "length str + 4 * length p + 2 < 2 ^ 60"
  shows "\<exists>s'. sdscatrepr a s p = Some (Some s') \<and> sds_holds s' (str @ repr_text p)"
proof -
  have "\<not> refused a (length str + (length p + 2))" using serves_not_refused[OF assms(1)] assms(3) by simp
  then obtain s0 where s0: "sdsMakeRoomFor a s (length p + 2) = Some (Some s0)" "sds_holds s0 str"
    using make_room[OF assms(2) serves_ok[OF assms(1)], of "length p + 2" True] room_holds assms(3) by (auto simp: sdsMakeRoomFor_def)
  obtain s1 where s1: "sdscatlen a s0 [0x22] = Some (Some s1)" "sds_holds s1 (str @ [0x22])" using cat_ok[OF assms(1) s0(2), of "[0x22]"] assms(3) by auto
  obtain s2 where s2: "sdscatrepr_loop a (Some s1) p = Some (Some s2)" "sds_holds s2 ((str @ [0x22]) @ concat (map repr_char p))"
    using catrepr_loop_ok[OF assms(1) s1(2), of p] assms(3) by auto
  obtain s3 where s3: "sdscatlen a s2 [0x22] = Some (Some s3)" "sds_holds s3 (((str @ [0x22]) @ concat (map repr_char p)) @ [0x22])"
    using cat_ok[OF assms(1) s2(2), of "[0x22]"] assms(3) repr_len[of p] by auto
  show ?thesis using s0(1) s1(1) s2(1) s3 by (auto simp: sdscatrepr_def repr_text_def)
qed

text \<open>Reading back one quoted character.\<close>

definition hex_back :: "byte \<Rightarrow> bool" where
  "hex_back c \<longleftrightarrow> is_hex_digit (hex_char (drop_bit 4 c)) \<and> is_hex_digit (hex_char (c AND 15)) \<and>
     hex_digit_to_int (hex_char (drop_bit 4 c)) * 16 + hex_digit_to_int (hex_char (c AND 15)) = c"

lemma hex_back_all: "hex_back c" by (rule all_bytes) code_simp

lemma cchar_simps [simp]:
  "cchar (x # p) 0 = Some x" "cchar (x # p) (Suc i) = cchar p i" "cchar [] 0 = Some 0"
  by (auto simp: cchar_def)

lemma step_escape: "d \<noteq> 0x78 \<Longrightarrow> d \<noteq> 0 \<Longrightarrow> tok_step InQ (0x5C # d # q) = Some (Put (unescape d) 2)"
  by (simp add: tok_step_def is_hex_escape_def)

lemma step_plain: "c \<noteq> 0x5C \<Longrightarrow> c \<noteq> 0x22 \<Longrightarrow> c \<noteq> 0 \<Longrightarrow> tok_step InQ (c # q) = Some (Put c 1)"
  by (simp add: tok_step_def is_hex_escape_def)

lemma step_hex: "is_hex_digit d \<Longrightarrow> is_hex_digit e \<Longrightarrow> tok_step InQ (0x5C # 0x78 # d # e # q) = Some (Put (hex_digit_to_int d * 16 + hex_digit_to_int e) 4)"
  by (simp add: tok_step_def is_hex_escape_def numeral_2_eq_2 numeral_3_eq_3)

lemma step_quoted: "tok_step InQ (repr_char c @ q) = Some (Put c (length (repr_char c)))"
proof (cases "c \<in> {0x5C, 0x22, 10, 13, 9, 7, 8}")
  case True
  then show ?thesis by (auto simp: repr_char_def step_escape unescape_def)
next
  case False
  have "c \<noteq> 0" if "isprint c" using that by (auto simp: isprint_def)
  then show ?thesis using False hex_back_all[of c] by (cases "isprint c") (auto simp: repr_char_def step_plain[simplified] step_hex hex_back_def)
qed

lemma repr_char_ne [simp]: "repr_char c \<noteq> []" by (simp add: repr_char_def)

definition repr_nz :: "byte \<Rightarrow> bool" where "repr_nz c \<longleftrightarrow> 0 \<notin> set (repr_char c)"

lemma repr_nz_all: "repr_nz c" by (rule all_bytes) code_simp

lemma repr_char_drop: "tl (drop (length (repr_char c) - 1) (repr_char c @ q)) = q"
  by (simp add: repr_char_def)

lemma tok_quoted:
  assumes "alloc_serves a"
  shows "sds_holds s str \<Longrightarrow> length str + length p < 2 ^ 60 \<Longrightarrow>
    \<exists>s'. tok_loop a InQ (concat (map repr_char p) @ q) (Some s) = tok_loop a InQ q (Some s') \<and> sds_holds s' (str @ p)"
proof (induction p arbitrary: s str)
  case (Cons c p)
  let ?r = "concat (map repr_char p) @ q"
  obtain s1 where s1: "sdscatlen a s [c] = Some (Some s1)" "sds_holds s1 (str @ [c])" using cat_ok[OF assms Cons.prems(1), of "[c]"] Cons.prems(2) by auto
  have "tok_loop a InQ (repr_char c @ ?r) (Some s) = tok_loop a InQ ?r (Some s1)"
    using s1(1) repr_char_drop[of c ?r] by (subst tok_loop.simps) (simp add: step_quoted)
  then show ?case using Cons.IH[OF s1(2)] Cons.prems(2) by simp
qed auto

lemma tok_repr:
  assumes "alloc_serves a" "sds_holds s []" "length p < 2 ^ 60" "q = [] \<or> q \<noteq> [] \<and> isspace (hd q)"
  shows "\<exists>s'. tok_loop a Plain (repr_text p @ q) (Some s) = Some (Some (Some s', q)) \<and> sds_holds s' p"
proof -
  obtain s' where s': "tok_loop a InQ (concat (map repr_char p) @ 0x22 # q) (Some s) = tok_loop a InQ (0x22 # q) (Some s')" "sds_holds s' p"
    using tok_quoted[OF assms(1,2), of p "0x22 # q"] assms(3) by auto
  have "tok_loop a InQ (0x22 # q) (Some s') = Some (Some (Some s', q))"
    using assms(4) by (subst tok_loop.simps) (cases q, auto simp: tok_step_def is_hex_escape_def tok_close_def)
  moreover have "tok_loop a Plain (repr_text p @ q) (Some s) = tok_loop a InQ (concat (map repr_char p) @ 0x22 # q) (Some s)"
    by (subst tok_loop.simps) (simp add: tok_step_def repr_text_def)
  ultimately show ?thesis using s' by simp
qed

fun args_line :: "mem list \<Rightarrow> mem" where
  "args_line [] = []"
| "args_line (p # ps) = 0x20 # repr_text p @ args_line ps"

lemma splitargs_loop_ok:
  assumes "alloc_serves a"
  shows "length v + length ps < 2 ^ 50 \<Longrightarrow> list_all (\<lambda>p. length p < 2 ^ 60) ps \<Longrightarrow>
    \<exists>v'. sdssplitargs_loop a (args_line ps) v = Some (Some (v @ v')) \<and> list_all2 (\<lambda>o' p. \<exists>s. o' = Some s \<and> sds_holds s p) v' ps"
proof (induction ps arbitrary: v)
  case Nil
  have "a 8 \<noteq> None" using assms by (simp add: alloc_serves_def)
  then show ?case by (subst sdssplitargs_loop.simps) simp
next
  case (Cons p ps)
  let ?l = "repr_text p @ args_line ps"
  have d: "dropWhile isspace (args_line (p # ps)) = ?l" by (simp add: repr_text_def isspace_def)
  obtain e where e: "sdsempty a = Some (Some e)" "sds_holds e []" using empty_ok[OF assms] by blast
  have q: "args_line ps = [] \<or> args_line ps \<noteq> [] \<and> isspace (hd (args_line ps))" by (cases ps) (auto simp: isspace_def)
  obtain s where s: "tok_loop a Plain ?l (Some e) = Some (Some (Some s, args_line ps))" "sds_holds s p"
    using tok_repr[OF assms e(2) _ q, of p] Cons.prems(2) by auto
  have al: "a (8 * (length v + 1)) \<noteq> None" using assms Cons.prems(1) by (simp add: alloc_serves_def)
  have ln: "length (args_line ps) < length ?l" "?l \<noteq> []" by (simp_all add: repr_text_def)
  have "sdssplitargs_loop a (args_line (p # ps)) v = sdssplitargs_loop a (args_line ps) (v @ [Some s])"
    using s(1) e(1) al ln by (subst sdssplitargs_loop.simps) (simp add: d Let_def del: args_line.simps)
  then show ?case using Cons.IH[of "v @ [Some s]"] Cons.prems s(2) by auto
qed

lemma args_no_zero: "0 \<notin> set (args_line ps)"
proof (induction ps)
  case (Cons p ps)
  have "0 \<notin> set (repr_char c)" for c using repr_nz_all[of c] by (simp add: repr_nz_def)
  then show ?case using Cons by (auto simp: repr_text_def)
qed simp

lemma splitargs_ok:
  assumes "alloc_serves a" "length ps < 2 ^ 50" "list_all (\<lambda>p. length p < 2 ^ 60) ps"
  shows "\<exists>v. sdssplitargs a (args_line ps @ [0]) = Some (Some v) \<and> list_all2 (\<lambda>o' p. \<exists>s. o' = Some s \<and> sds_holds s p) v ps"
proof -
  have "takeWhile (\<lambda>c. c \<noteq> 0) (args_line ps @ [0]) = args_line ps" using args_no_zero[of ps] by (subst takeWhile_append2) auto
  then have "strlen (args_line ps @ [0]) = Some (length (args_line ps))" by (simp add: strlen_def)
  then show ?thesis using splitargs_loop_ok[OF assms(1), of "[]" ps] assms(2,3) by (simp add: sdssplitargs_def)
qed

section \<open>Formatting\<close>

text \<open>The text an argument stands for under a format character.\<close>

definition arg_rel :: "byte \<Rightarrow> fmtarg \<Rightarrow> mem \<Rightarrow> bool" where
  "arg_rel next arg t = (case arg of
     ArgString b \<Rightarrow> next = 0x73 \<and> 0 \<notin> set t \<and> (\<exists>r. b = t @ 0 # r)
   | ArgSds s \<Rightarrow> next = 0x53 \<and> sds_holds s t
   | ArgInt v \<Rightarrow> next = 0x69 \<and> t = idec (sint v)
   | ArgLongLong v \<Rightarrow> next = 0x49 \<and> t = idec (sint v)
   | ArgUInt v \<Rightarrow> next = 0x75 \<and> t = dec (unat v)
   | ArgULongLong v \<Rightarrow> next = 0x55 \<and> t = dec (unat v))"

inductive fmt_text :: "mem \<Rightarrow> fmtarg list \<Rightarrow> mem \<Rightarrow> bool" where
  fmt_end: "fmt_text [] args []"
| fmt_plain: "c \<noteq> 0x25 \<Longrightarrow> fmt_text f args t \<Longrightarrow> fmt_text (c # f) args (c # t)"
| fmt_last: "fmt_text [0x25] args []"
| fmt_conv: "arg_rel n arg u \<Longrightarrow> fmt_text f args t \<Longrightarrow> fmt_text (0x25 # n # f) (arg # args) (u @ t)"
| fmt_other: "n \<notin> {0x73, 0x53, 0x69, 0x49, 0x75, 0x55} \<Longrightarrow> fmt_text f args t \<Longrightarrow> fmt_text (0x25 # n # f) args (n # t)"

lemma strlen_text: "0 \<notin> set t \<Longrightarrow> strlen (t @ 0 # r) = Some (length t)"
proof -
  assume z: "0 \<notin> set t"
  have "takeWhile (\<lambda>c. c \<noteq> 0) (t @ 0 # r) = t" using z by (subst takeWhile_append2) auto
  then show ?thesis by (simp add: strlen_def)
qed

lemma ll_text: "\<exists>b. ll2string (map f [0..<LONG_STR_SIZE]) LONG_STR_SIZE v = Some (length (idec (sint v)), b) \<and> take (length (idec (sint v))) b = idec (sint v) \<and>
    length (idec (sint v)) \<le> length b"
  using ll2string_writes[of v LONG_STR_SIZE "map f [0..<LONG_STR_SIZE]"] idec_length[of v] by (simp add: LONG_STR_SIZE_def patch_def)

lemma ull_text': "\<exists>b. ull2string (map f [0..<LONG_STR_SIZE]) 0 LONG_STR_SIZE v = Some (length (dec (unat v)), b) \<and> take (length (dec (unat v))) b = dec (unat v)"
proof -
  have "unat v < 10 ^ Suc 19" using unsigned_less[of v, where ?'a = nat] by simp
  then show ?thesis using ull2string_writes[of v LONG_STR_SIZE 0 "map f [0..<LONG_STR_SIZE]"] dec_length_le[of "unat v" 19] by (simp add: LONG_STR_SIZE_def patch_def)
qed

lemma fmt_arg_conv:
  assumes "arg_rel n arg u"
  shows "fmt_arg f n (arg # args) = Some (Some u, args)"
proof (cases arg)
  case (ArgString b)
  then show ?thesis using assms strlen_text[of u] by (auto simp: arg_rel_def)
next
  case (ArgSds s)
  then show ?thesis using assms holds_len[of s u] holds_rd[of s u 0 "length u"] by (simp add: arg_rel_def)
next
  case (ArgInt v)
  have "sint (scast v :: i64) = sint v" by (simp add: sint_up_scast is_up)
  then show ?thesis using ArgInt assms ll_text[of f "scast v"] by (auto simp: arg_rel_def)
next
  case (ArgLongLong v)
  then show ?thesis using assms ll_text[of f v] by (auto simp: arg_rel_def)
next
  case (ArgUInt v)
  have "unat (ucast v :: u64) = unat v" by (simp add: unsigned_ucast_eq take_bit_nat_eq_self_iff order.strict_trans2[OF unsigned_less])
  then show ?thesis using ArgUInt assms ull_text'[of f "ucast v"] by (auto simp: arg_rel_def)
next
  case (ArgULongLong v)
  then show ?thesis using assms ull_text'[of f v] by (auto simp: arg_rel_def)
qed

lemma raw_inclen: "raw_ok fl len al \<Longrightarrow> len + n \<le> al \<Longrightarrow> sdsinclen (sds_raw fl len al buf) n = Some (sds_raw fl (len + n) al buf)"
  by (frule raw_okD, erule raw_cases) (auto simp: sdsinclen_def raw_get raw_set raw_set_five[simplified sds_types, simplified] sds_types simp del: of_nat_add)

lemma roomzE:
  assumes "sds_roomz z s str k"
  obtains fl fr where "raw_ok fl (length str) (length str + length fr)" "length str + length fr < 2 ^ 62" "k \<le> length fr"
    "s = sds_raw fl (length str) (length str + length fr) (str @ z # fr)"
  using assms by (auto simp: sds_roomz_def)

lemma roomzI: "raw_ok fl (length str) (length str + length fr) \<Longrightarrow> length str + length fr < 2 ^ 62 \<Longrightarrow> k \<le> length fr \<Longrightarrow>
    sds_roomz z (sds_raw fl (length str) (length str + length fr) (str @ z # fr)) str k"
  by (auto simp: sds_roomz_def)

lemma fmt_written:
  assumes "sds_roomz z s str (length b)"
  shows "\<exists>z' s'. do { s \<leftarrow> swr s (length str) b; sdsinclen s (length b) } = Some s' \<and> sds_roomz z' s' (str @ b) 0"
  using assms
proof (rule roomzE)
  fix fl fr
  assume r: "raw_ok fl (length str) (length str + length fr)" "length str + length fr < 2 ^ 62" "length b \<le> length fr"
    and s: "s = sds_raw fl (length str) (length str + length fr) (str @ z # fr)"
  let ?z = "(z # fr) ! length b" and ?fr = "drop (length b) fr"
  have p: "patch (str @ z # fr) (length str) b = (str @ b) @ ?z # ?fr"
    using r(3) Cons_nth_drop_Suc[of "length b" "z # fr"] by (simp add: patch_def)
  have l: "length (str @ b) + length ?fr = length str + length fr" using r(3) by simp
  have "do { s \<leftarrow> swr s (length str) b; sdsinclen s (length b) } = Some (sds_raw fl (length (str @ b)) (length (str @ b) + length ?fr) ((str @ b) @ ?z # ?fr))"
    unfolding l using r by (simp add: s p raw_inclen)
  moreover have "raw_ok fl (length (str @ b)) (length (str @ b) + length ?fr)" unfolding l using raw_ok_len[OF r(1)] r(3) by simp
  then have "sds_roomz ?z (sds_raw fl (length (str @ b)) (length (str @ b) + length ?fr) ((str @ b) @ ?z # ?fr)) (str @ b) 0" using r(2) l by (intro roomzI) simp_all
  ultimately show ?thesis by blast
qed

lemma fmt_room:
  assumes "alloc_serves a" "sds_roomz z s str 0" "length str + n < 2 ^ 60"
  shows "\<exists>av. sdsavail s = Some av \<and> (if av < n then \<exists>s'. sdsMakeRoomFor a s n = Some (Some s') \<and> sds_roomz z s' str n else sds_roomz z s str n)"
proof -
  obtain fl fr where r: "raw_ok fl (length str) (length str + length fr)" "length str + length fr < 2 ^ 62"
    and s: "s = sds_raw fl (length str) (length str + length fr) (str @ z # fr)" using assms(2) by (rule roomzE)
  have av: "sdsavail s = Some (if fl = 0 then 0 else length fr)" using raw_avail[OF r(1)] by (simp add: s)
  have "\<not> refused a (length str + n)" using serves_not_refused[OF assms(1,3)] .
  then have m: "\<exists>s'. sdsMakeRoomFor a s n = Some (Some s') \<and> sds_roomz z s' str n"
    using make_roomz[OF assms(2) serves_ok[OF assms(1)], of n True] assms(3) by (auto simp: sdsMakeRoomFor_def)
  show ?thesis
  proof (cases "(if fl = 0 then 0 else length fr) < n")
    case False
    then have "sds_roomz z s str n" unfolding s using r by (intro roomzI) (auto split: if_splits)
    then show ?thesis using av False by auto
  qed (use av m in auto)
qed

lemma fmt_put_ok:
  assumes "alloc_serves a" "sds_roomz z s str 0" "length str + length b < 2 ^ 60"
  shows "\<exists>z' s'. fmt_put a s (length str) b = Some s' \<and> sds_roomz z' s' (str @ b) 0"
proof -
  obtain av where av: "sdsavail s = Some av" and m: "if av < length b then \<exists>s'. sdsMakeRoomFor a s (length b) = Some (Some s') \<and> sds_roomz z s' str (length b) else sds_roomz z s str (length b)"
    using fmt_room[OF assms] by blast
  obtain s1 where "(if av < length b then do { r \<leftarrow> sdsMakeRoomFor a s (length b); r } else Some s) = Some s1" "sds_roomz z s1 str (length b)"
    using m by (cases "av < length b") auto
  then show ?thesis using fmt_written[of z s1 str b] by (simp add: fmt_put_def av)
qed

lemma fmt_char_ok:
  assumes "sds_roomz z s str 1"
  shows "\<exists>z' s'. fmt_char s (length str) c = Some s' \<and> sds_roomz z' s' (str @ [c]) 0"
proof -
  have "sput s (length str) c = swr s (length str) [c]" using assms by (rule roomzE) (simp add: patch_def list_update_append)
  then show ?thesis using fmt_written[of z s str "[c]"] assms by (simp add: fmt_char_def)
qed

lemma fmt_one:
  assumes "alloc_serves a" "sds_roomz z s str 0" "length str + 1 < 2 ^ 60"
  shows "\<exists>av s1. sdsavail s = Some av \<and> (if av = 0 then do { r \<leftarrow> sdsMakeRoomFor a s 1; r } else Some s) = Some s1 \<and> sds_roomz z s1 str 1"
proof -
  obtain av where av: "sdsavail s = Some av" and m: "if av < 1 then \<exists>s'. sdsMakeRoomFor a s 1 = Some (Some s') \<and> sds_roomz z s' str 1 else sds_roomz z s str 1"
    using fmt_room[OF assms] by blast
  show ?thesis using av m by (cases "av < 1") auto
qed

lemma fmt_loop_ok:
  assumes "alloc_serves a"
  shows "fmt_text fmt args t \<Longrightarrow> sds_roomz z s str 0 \<Longrightarrow> length str + length fmt + length t < 2 ^ 59 \<Longrightarrow>
    \<exists>z' s'. sdscatfmt_loop a f s (length str) fmt args = Some (s', length str + length t) \<and> sds_roomz z' s' (str @ t) 0"
proof (induction arbitrary: z s str rule: fmt_text.induct)
  case (fmt_end args)
  then show ?case by auto
next
  case (fmt_plain c fm args t)
  obtain av s1 where 1: "sdsavail s = Some av" "(if av = 0 then do { r \<leftarrow> sdsMakeRoomFor a s 1; r } else Some s) = Some s1" "sds_roomz z s1 str 1"
    using fmt_one[OF assms fmt_plain.prems(1)] fmt_plain.prems(2) by auto
  obtain z2 s2 where 2: "fmt_char s1 (length str) c = Some s2" "sds_roomz z2 s2 (str @ [c]) 0" using fmt_char_ok[OF 1(3)] by blast
  show ?case using fmt_plain.IH[OF 2(2)] fmt_plain.hyps(1) fmt_plain.prems(2) 1 2(1) by simp
next
  case (fmt_last args)
  obtain av s1 where 1: "sdsavail s = Some av" "(if av = 0 then do { r \<leftarrow> sdsMakeRoomFor a s 1; r } else Some s) = Some s1" "sds_roomz z s1 str 1"
    using fmt_one[OF assms fmt_last.prems(1)] fmt_last.prems(2) by auto
  then show ?case using room_monoz[OF 1(3), of 0] by auto
next
  case (fmt_conv n arg u fm args t)
  obtain av s1 where 1: "sdsavail s = Some av" "(if av = 0 then do { r \<leftarrow> sdsMakeRoomFor a s 1; r } else Some s) = Some s1" "sds_roomz z s1 str 1"
    using fmt_one[OF assms fmt_conv.prems(1)] fmt_conv.prems(2) by auto
  obtain z2 s2 where 2: "fmt_put a s1 (length str) u = Some s2" "sds_roomz z2 s2 (str @ u) 0"
    using fmt_put_ok[OF assms room_monoz[OF 1(3), of 0], of u] fmt_conv.prems(2) by auto
  show ?case using fmt_conv.IH[OF 2(2)] fmt_conv.prems(2) 1 2(1) fmt_arg_conv[OF fmt_conv.hyps(1), of f args] by (simp add: add.assoc del: fmt_arg.simps)
next
  case (fmt_other n fm args t)
  obtain av s1 where 1: "sdsavail s = Some av" "(if av = 0 then do { r \<leftarrow> sdsMakeRoomFor a s 1; r } else Some s) = Some s1" "sds_roomz z s1 str 1"
    using fmt_one[OF assms fmt_other.prems(1)] fmt_other.prems(2) by auto
  obtain z2 s2 where 2: "fmt_char s1 (length str) n = Some s2" "sds_roomz z2 s2 (str @ [n]) 0" using fmt_char_ok[OF 1(3)] by blast
  have "fmt_arg f n args = Some (None, args)" using fmt_other.hyps(1) by simp
  then show ?case using fmt_other.IH[OF 2(2)] fmt_other.prems(2) 1 2(1) by (simp del: fmt_arg.simps)
qed

lemma catfmt_ok:
  assumes "alloc_serves a" "sds_holds s str" "fmt_text fmt args t" "0 \<notin> set fmt" "length str + 2 * length fmt + length t < 2 ^ 59"
  shows "\<exists>s'. sdscatfmt a f s (fmt @ 0 # r) args = Some s' \<and> sds_holds s' (str @ t)"
proof -
  have "\<not> refused a (length str + length fmt * 2)" using serves_not_refused[OF assms(1)] assms(5) by simp
  then obtain s1 where s1: "sdsMakeRoomFor a s (length fmt * 2) = Some (Some s1)" "sds_room s1 str (length fmt * 2)"
    using make_room[OF assms(2) serves_ok[OF assms(1)], of "length fmt * 2" True] assms(5) by (auto simp: sdsMakeRoomFor_def)
  obtain z s2 where s2: "sdscatfmt_loop a f s1 (length str) fmt args = Some (s2, length str + length t)" "sds_roomz z s2 (str @ t) 0"
    using fmt_loop_ok[OF assms(1,3) room_monoz[OF s1(2), of 0], of f] assms(5) by auto
  obtain fl fr where q: "raw_ok fl (length (str @ t)) (length (str @ t) + length fr)" "length (str @ t) + length fr < 2 ^ 62"
    and s: "s2 = sds_raw fl (length (str @ t)) (length (str @ t) + length fr) ((str @ t) @ z # fr)" using s2(2) by (rule roomzE)
  have "sput s2 (length (str @ t)) 0 = Some (sds_raw fl (length (str @ t)) (length (str @ t) + length fr) ((str @ t) @ 0 # fr))"
    unfolding s by (simp add: list_update_append)
  then show ?thesis using raw_holds[OF q] s1(1) s2(1) strlen_text[OF assms(4), of r] by (simp add: sdscatfmt_def holds_len[OF assms(2)])
qed

section \<open>Comparing, and writing into the free space\<close>

lemma memcmp_lex: "length b1 = length b2 \<Longrightarrow> memcmp_sgn b1 b2 = (if b1 < b2 then -1 else if b1 = b2 then 0 else (1 :: int))"
proof (induction b1 b2 rule: memcmp_sgn.induct)
  case (1 x xs y ys)
  then show ?case by (cases x y rule: linorder_cases) auto
qed auto

lemma lex_prefix: "length b1 = n \<Longrightarrow> length b2 = n \<Longrightarrow> b1 \<noteq> b2 \<Longrightarrow> (b1 @ c1 < b2 @ c2) = (b1 < (b2 :: 'a :: linorder list))"
proof (induction b1 arbitrary: b2 n)
  case (Cons x b1)
  then show ?case by (cases b2) auto
qed simp

lemma less_longer: "ys \<noteq> [] \<Longrightarrow> xs < xs @ (ys :: 'a :: linorder list) \<and> \<not> xs @ ys < xs"
proof (induction xs)
  case Nil
  then show ?case by (cases ys) auto
qed auto

lemma sdscmp_lex:
  assumes "sds_holds s1 t1" "sds_holds s2 t2"
  shows "sdscmp s1 s2 = Some (if t1 < t2 then -1 else if t1 = t2 then 0 else 1)"
proof -
  let ?n = "min (length t1) (length t2)"
  let ?a = "take ?n t1" and ?b = "take ?n t2"
  have mn: "(if length t1 < length t2 then length t1 else length t2) = ?n" by auto
  have e: "sdscmp s1 s2 = Some (let c = memcmp_sgn ?a ?b in if c = 0 then (if length t1 > length t2 then 1 else if length t1 < length t2 then -1 else 0) else c)"
    using holds_rd[OF assms(1), of 0 ?n] holds_rd[OF assms(2), of 0 ?n] unfolding sdscmp_def holds_len[OF assms(1)] holds_len[OF assms(2)] bind.simps Let_def mn by simp
  have m: "memcmp_sgn ?a ?b = (if ?a < ?b then -1 else if ?a = ?b then 0 else 1)" by (rule memcmp_lex) simp
  show ?thesis
  proof (cases "?a = ?b")
    case False
    have "(t1 < t2) = (?a < ?b)" using lex_prefix[of ?a ?n ?b "drop ?n t1" "drop ?n t2"] False by simp
    then show ?thesis using False e m by (auto simp: Let_def)
  next
    case True
    have c: "sdscmp s1 s2 = Some (if length t1 > length t2 then 1 else if length t1 < length t2 then -1 else 0)" using e m True by (simp add: Let_def)
    show ?thesis
    proof (cases "length t1" "length t2" rule: linorder_cases)
      case less
      then have "take (length t1) t2 = t1" using True by simp
      then have "t1 @ drop (length t1) t2 = t2" by (metis append_take_drop_id)
      then have "t1 < t2" using less_longer[of "drop (length t1) t2" t1] less by simp
      then show ?thesis using less c by simp
    next
      case equal
      then show ?thesis using c True by simp
    next
      case greater
      then have "take (length t2) t1 = t2" using True by simp
      then have "t2 @ drop (length t2) t1 = t1" by (metis append_take_drop_id)
      then have "\<not> t1 < t2" using less_longer[of "drop (length t2) t1" t2] greater by simp
      then show ?thesis using greater c by auto
    qed
  qed
qed

lemma raw_incrlen:
  assumes "raw_ok fl len al" "incr \<noteq> 0" "0 \<le> int len + incr" "int len + incr \<le> int al" "len \<le> al"
  shows "sdsIncrLen (sds_raw fl len al buf) incr = sput (sds_raw fl (nat (int len + incr)) al buf) (nat (int len + incr)) 0"
  using assms(1)
proof (cases rule: raw_cases)
  case five
  have w: "(word_of_int (int len + incr) :: byte) = of_nat (nat (int len + incr))" using assms(3) by simp
  have al: "al < 32" using assms(1) five by (simp add: raw_ok_def fl_max_def sds_types)
  have g: "incr > 0 \<and> int len + incr < 32 \<or> incr < 0 \<and> int len \<ge> (- incr) mod 2 ^ 32" using assms al five by (cases "incr > 0") auto
  have m: "nat ((int len + incr) mod 2 ^ 64) = nat (int len + incr)" using assms(3,4) al by simp
  show ?thesis using five raw_okD[OF assms(1)] g raw_set_five[of len al buf "nat (int len + incr)"] assms(3) m[simplified]
    by (simp add: sdsIncrLen_def sds_types w del: of_nat_nat of_int_add)
next
  case (wide w)
  have w: "w = 1 \<or> w = 2 \<or> w = 4 \<or> w = 8" using wide(2) by simp
  have l: "int len < 256 ^ w" "int al < 256 ^ w" using wide(4,5) by (metis of_nat_less_iff of_nat_numeral of_nat_power)+
  have n: "(int len + incr) mod 256 ^ w = int len + incr" using assms(3,4) l(2) by (intro mod_pos_pos_trivial) linarith+
  have g: "if w \<le> 2 then incr \<ge> 0 \<and> int al - int len \<ge> incr \<or> incr < 0 \<and> int len \<ge> (- incr) mod 2 ^ 32
      else if w = 4 then incr \<ge> 0 \<and> (int al - int len) mod 2 ^ 32 \<ge> incr mod 2 ^ 32 \<or> incr < 0 \<and> int len \<ge> (- incr) mod 2 ^ 32
      else incr \<ge> 0 \<and> (int al - int len) mod 2 ^ 64 \<ge> incr \<or> incr < 0 \<and> int len \<ge> - incr"
    using w l assms(2-5) by (cases "incr < 0") (elim disjE; simp)+
  show ?thesis unfolding sdsIncrLen_def using wide(1,3,4,5) raw_okD[OF assms(1)] g n by (simp add: raw_get raw_set Let_def)
qed

lemma incrlen_trims:
  assumes "sds_holds s str" "0 < k" "k \<le> length str"
  shows "\<exists>s'. sdsIncrLen s (- int k) = Some s' \<and> sds_holds s' (take (length str - k) str)"
  using assms(1)
proof (rule sds_holdsE)
  fix fl fr
  assume r: "raw_ok fl (length str) (length str + length fr)" "length str + length fr < 2 ^ 62"
    and s: "s = sds_raw fl (length str) (length str + length fr) (str @ 0 # fr)"
  let ?n = "length str - k" and ?b = "str @ 0 # fr"
  have n: "nat (int (length str) + - int k) = ?n" using assms(3) by (simp add: of_nat_diff)
  have "sdsIncrLen s (- int k) = sput (sds_raw fl ?n (length str + length fr) ?b) ?n 0"
    using raw_incrlen[OF r(1), of "- int k" ?b] assms(2,3) n unfolding s by simp
  moreover have "?b[?n := 0] = take ?n str @ 0 # drop (Suc ?n) ?b" using assms(2,3) by (simp add: upd_conv_take_nth_drop)
  moreover have "sds_holds (sds_raw fl ?n (length str + length fr) (take ?n str @ 0 # drop (Suc ?n) ?b)) (take ?n str)"
    using assms(2,3) by (intro raw_holds'[OF r]) auto
  ultimately show ?thesis by simp
qed

lemma incrlen_appends:
  assumes "sds_room s str (length t)" "t \<noteq> []"
  shows "\<exists>s'. do { s \<leftarrow> swr s (length str) t; sdsIncrLen s (int (length t)) } = Some s' \<and> sds_holds s' (str @ t)"
  using assms(1)
proof (rule roomzE)
  fix fl fr
  assume r: "raw_ok fl (length str) (length str + length fr)" "length str + length fr < 2 ^ 62" "length t \<le> length fr"
    and s: "s = sds_raw fl (length str) (length str + length fr) (str @ 0 # fr)"
  let ?n = "length str + length t" and ?b = "str @ t @ drop (length t) (0 # fr)"
  have p: "patch (str @ 0 # fr) (length str) t = ?b" by (simp add: patch_def)
  have "(drop (length t) (0 # fr))[0 := 0] = 0 # drop (length t) fr" using r(3) by (simp add: Cons_nth_drop_Suc[symmetric])
  then have q: "?b[?n := 0] = (str @ t) @ 0 # drop (length t) fr" by (simp add: list_update_append)
  have "sdsIncrLen (sds_raw fl (length str) (length str + length fr) ?b) (int (length t)) = sput (sds_raw fl ?n (length str + length fr) ?b) ?n 0"
    using raw_incrlen[OF r(1), of "int (length t)" ?b] assms(2) r(3) by (simp add: nat_add_distrib)
  moreover have "sds_holds (sds_raw fl ?n (length str + length fr) ((str @ t) @ 0 # drop (length t) fr)) (str @ t)"
    using r(3) by (intro raw_holds'[OF r(1,2)]) auto
  ultimately show ?thesis using r(3) q unfolding s by (simp add: p)
qed

text \<open>An increment of zero is refused by the assertion for type 5 only.\<close>

lemma incrlen_zero_five: "sdsIncrLen (sds_raw 0 len al buf) 0 = None" if "len < 32"
  using that raw_type[of 0 len al buf] by (simp add: sdsIncrLen_def sds_types fl_ok_def)

lemma incrlen_zero_wide: "\<exists>s'. sdsIncrLen (sds_raw 1 3 5 (replicate 6 65)) 0 = Some s'" by (rule exI, code_simp)

section \<open>Numbers and sizes\<close>

lemma fromll_ok: "alloc_serves a \<Longrightarrow> \<exists>s. sdsfromlonglong a f v = Some (Some s) \<and> sds_holds s (idec (sint v))"
  using ll_text[of f v] new_ok[of a "length (idec (sint v))"] idec_length[of v] by (fastforce simp: sdsfromlonglong_def)

lemma new_alloc_size:
  assumes "n \<le> length b" "n < 2 ^ 62" "sdsnewlen a (Init b) n = Some (Some s)"
  shows "sdsAllocSize s = Some (sdsHdrSize (new_type n) + n + 1)"
  using newlen_raw[OF assms(1,2), of a False] assms(2,3) raw_alloc_size[OF new_raw_ok[OF assms(2)]] hdr_le[of "new_type n"]
  by (auto simp: sdsnewlen_def)

section \<open>Copies, disposal and flags\<close>

lemma holds_drop: "sds_holds s str \<Longrightarrow> \<exists>r. drop (soff s) (sblk s) = str @ 0 # r"
  by (erule sds_holdsE) (metis raw_drop)

lemma dup_ok:
  assumes "alloc_serves a" "sds_holds s str" "length str < 2 ^ 60"
  shows "\<exists>s'. sdsdup a s = Some (Some s') \<and> sds_holds s' str"
proof -
  obtain r where "drop (soff s) (sblk s) = str @ 0 # r" using holds_drop[OF assms(2)] by blast
  then show ?thesis using new_ok[OF assms(1), of "length str" "str @ 0 # r"] assms(3) by (simp add: sdsdup_def holds_len[OF assms(2)])
qed

lemma raw_flags: "fl_ok fl \<Longrightarrow> fl \<noteq> 0 \<Longrightarrow> sds_flags (sds_raw fl len al buf) = Some fl"
  by (erule fl_cases) (auto simp: sds_flags_def sds_raw_def getb_def nth_append)

lemma raw_alloc_ptr: "fl_ok fl \<Longrightarrow> sdsAllocPtr (sds_raw fl len al buf) = Some 0"
proof (cases "fl = 0")
  case True
  then show ?thesis by (simp add: sdsAllocPtr_def sds_flags_def sds_raw_def getb_def sdsHdrSize_def sds_types five_flags)
next
  case False
  assume "fl_ok fl"
  then show ?thesis using raw_flags[OF _ False] by (simp add: sdsAllocPtr_def hdr_mask)
qed

lemma free_ok: "sds_holds s str \<Longrightarrow> sdsfree (Some s) = Some ()"
proof (erule sds_holdsE)
  fix fl fr
  assume r: "raw_ok fl (length str) (length str + length fr)" "fl_ok fl" and s: "s = sds_raw fl (length str) (length str + length fr) (str @ 0 # fr)"
  show ?thesis using r raw_alloc_ptr[OF r(2)] by (cases rule: raw_cases) (auto simp: s sdsfree_def sdsAllocSize_def raw_get sds_types)
qed

lemma freesplit_ok: "list_all2 sds_holds tokens ts \<Longrightarrow> sdsfreesplitres (Some (map Some tokens)) = Some ()"
proof -
  assume h: "list_all2 sds_holds tokens ts"
  have "list_all2 sds_holds tokens ts \<Longrightarrow> sdsfreesplitres_loop (map Some tokens) = Some ()" for tokens ts
    by (induction rule: list_all2_induct) (auto simp: free_ok)
  from this[of "rev tokens" "rev ts"] show ?thesis using h by (simp add: sdsfreesplitres_def rev_map list_all2_rev1)
qed

lemma needsrepr_iff: "sds_holds s str \<Longrightarrow> sdsneedsrepr s = Some (\<exists>c \<in> set str. repr_char c \<noteq> [c] \<or> isspace c)"
  using holds_rd[of s str 0 "length str"] by (auto simp: sdsneedsrepr_def holds_len list_ex_iff repr_char_def)

lemma cmplen_order:
  assumes "sds_holds s1 t1" "sds_holds s2 t2"
  shows "sdscmplen s1 s2 = Some (if length t1 < length t2 \<or> length t1 = length t2 \<and> t1 < t2 then -1 else if t1 = t2 then 0 else 1)"
  using holds_rd[OF assms(1), of 0 "length t1"] holds_rd[OF assms(2), of 0 "length t2"] memcmp_lex[of t1 t2]
  by (auto simp: sdscmplen_def holds_len[OF assms(1)] holds_len[OF assms(2)])

lemma join_ok:
  assumes "alloc_serves a" "0 \<notin> set sep" "\<forall>t \<in> set ts. 0 \<notin> set t" "length (join_text sep ts) < 2 ^ 60"
  shows "\<exists>s. sdsjoin a (map (\<lambda>t. t @ [0]) ts) (sep @ [0]) = Some (Some s) \<and> sds_holds s (join_text sep ts)"
proof -
  have c: "0 \<notin> set t \<Longrightarrow> sdscat a s (t @ [0]) = sdscatlen a s t" for s t using strlen_text[of t "[]"] by (simp add: sdscat_def)
  have "sds_holds s str \<Longrightarrow> \<forall>t \<in> set ts. 0 \<notin> set t \<Longrightarrow> length str + length (join_text sep ts) < 2 ^ 60 \<Longrightarrow>
    \<exists>s'. sdsjoin_loop a (Some s) (map (\<lambda>t. t @ [0]) ts) (sep @ [0]) = Some (Some s') \<and> sds_holds s' (str @ join_text sep ts)" for s str
    using assms(2)
  proof (induction sep ts arbitrary: s str rule: join_text.induct)
    case (2 sep t)
    then show ?case using cat_ok[OF assms(1) 2(1), of t] by (auto simp: c)
  next
    case (3 sep t u ts)
    obtain s1 where s1: "sdscatlen a s t = Some (Some s1)" "sds_holds s1 (str @ t)" using cat_ok[OF assms(1) 3(2), of t] 3(4) by auto
    obtain s2 where s2: "sdscatlen a s1 sep = Some (Some s2)" "sds_holds s2 ((str @ t) @ sep)" using cat_ok[OF assms(1) s1(2), of sep] 3(4) by auto
    show ?case using 3(1)[OF s2(2)] 3(3,4,5) s1(1) s2(1) by (simp add: c)
  qed auto
  then show ?thesis using empty_ok[OF assms(1)] assms(3,4) by (fastforce simp: sdsjoin_def)
qed

lemma bit_seven: "bit (7 :: byte) n \<longleftrightarrow> n < 3" using bit_mask_iff[of 3 n, where ?'a = byte] by (auto simp: mask_eq_exp_minus_1)

lemma aux_bit:
  assumes "b < 5"
  shows "(t OR push_bit (3 + b) 1) AND 7 = t AND (7 :: byte)" "(t AND NOT (push_bit (3 + b) 1)) AND 7 = t AND (7 :: byte)"
    "(t OR push_bit (3 + b) 1) AND push_bit (3 + b) 1 \<noteq> (0 :: byte)" "(t AND NOT (push_bit (3 + b) 1)) AND push_bit (3 + b) 1 = (0 :: byte)"
proof -
  have n: "\<not> bit (7 :: byte) (3 + b)" using bit_seven[of "3 + b"] by simp
  show "(t OR push_bit (3 + b) 1) AND 7 = t AND 7" by (rule bit_word_eqI) (use n in \<open>auto simp: bit_simps\<close>)
  show "(t AND NOT (push_bit (3 + b) 1)) AND 7 = t AND 7" by (rule bit_word_eqI) (use n in \<open>auto simp: bit_simps\<close>)
  show "(t AND NOT (push_bit (3 + b) 1)) AND push_bit (3 + b) 1 = 0" by (rule bit_word_eqI) (auto simp: bit_simps)
  have "bit ((t OR push_bit (3 + b) 1) AND push_bit (3 + b) 1) (3 + b)" using assms by (auto simp: bit_simps)
  then show "(t OR push_bit (3 + b) 1) AND push_bit (3 + b) 1 \<noteq> 0" by (metis bit_0_eq bot_apply bot_bool_def)
qed

lemma raw_aux:
  assumes "fl_ok fl" "fl \<noteq> 0" "b < 5"
  shows "\<exists>fl'. sdsSetAuxBit (sds_raw fl len al buf) b v = Some (sds_raw fl' len al buf) \<and> sdsGetAuxBit (sds_raw fl' len al buf) b = Some v \<and>
    fl' AND SDS_TYPE_MASK = fl AND SDS_TYPE_MASK"
proof -
  let ?fl = "if v then fl OR push_bit (3 + b) 1 else fl AND NOT (push_bit (3 + b) 1)"
  have m: "?fl AND 7 = fl AND 7" using aux_bit(1,2)[OF assms(3)] by simp
  have f: "fl_ok ?fl \<and> ?fl \<noteq> 0" using assms m by (auto simp: fl_ok_def sds_types split: if_splits)
  have t: "fl AND 7 \<noteq> 0" using assms(1,2) by (auto elim: fl_cases simp: sds_types)
  have "set_flags (sds_raw fl len al buf) ?fl = Some (sds_raw ?fl len al buf)"
    using assms(1) m t by (cases rule: fl_cases) (auto simp: set_flags_def sds_raw_def setb_def sds_types list_update_append)
  then have "sdsSetAuxBit (sds_raw fl len al buf) b v = Some (sds_raw ?fl len al buf)"
    using assms(1) t raw_flags[OF assms(1,2)] by (cases v) (simp_all add: sdsSetAuxBit_def sds_types del: push_bit_of_1)
  moreover have "sdsGetAuxBit (sds_raw ?fl len al buf) b = Some v"
    using f t m raw_flags[of ?fl len al buf] aux_bit(3,4)[OF assms(3)] by (cases v) (simp_all add: sdsGetAuxBit_def sds_types del: push_bit_of_1)
  ultimately show ?thesis using m by (auto simp: sds_types)
qed

lemma setaux_holds:
  assumes "sds_holds s str" "b < 5" "sdsType s \<noteq> Some SDS_TYPE_5"
  shows "\<exists>s'. sdsSetAuxBit s b v = Some s' \<and> sds_holds s' str \<and> sdsGetAuxBit s' b = Some v"
  using assms(1)
proof (rule sds_holdsE)
  fix fl fr
  assume r: "raw_ok fl (length str) (length str + length fr)" "length str + length fr < 2 ^ 62" "fl_ok fl"
    and s: "s = sds_raw fl (length str) (length str + length fr) (str @ 0 # fr)"
  have "fl \<noteq> 0" using assms(3) r(3) by (auto simp: s sds_types)
  from raw_aux[OF r(3) this assms(2)] obtain fl' where f: "sdsSetAuxBit s b v = Some (sds_raw fl' (length str) (length str + length fr) (str @ 0 # fr))"
      "sdsGetAuxBit (sds_raw fl' (length str) (length str + length fr) (str @ 0 # fr)) b = Some v" "fl' AND SDS_TYPE_MASK = fl AND SDS_TYPE_MASK"
    unfolding s by blast
  have "raw_ok fl' (length str) (length str + length fr)" using r(1,3) f(3) \<open>fl \<noteq> 0\<close> by (simp add: raw_ok_def fl_ok_def fl_max_def)
  then show ?thesis using f(1,2) raw_holds[OF _ r(2)] by blast
qed

section \<open>Templates\<close>

text \<open>A template as literal texts, each followed by a quoted bracket or a variable, and a last literal text.\<close>

datatype tmpl_item = Bracket | Variable mem

fun item_source :: "tmpl_item \<Rightarrow> mem" where
  "item_source Bracket = [0x7B, 0x7B]"
| "item_source (Variable n) = 0x7B # n @ [0x7D]"

fun item_text :: "(mem \<Rightarrow> mem) \<Rightarrow> tmpl_item \<Rightarrow> mem" where
  "item_text val Bracket = [0x7B]"
| "item_text val (Variable n) = takeWhile (\<lambda>c. c \<noteq> 0) (val n)"

fun item_ok :: "tmpl_item \<Rightarrow> bool" where
  "item_ok Bracket = True"
| "item_ok (Variable n) = (0x7D \<notin> set n \<and> (n \<noteq> [] \<longrightarrow> hd n \<noteq> 0x7B))"

fun tmpl_source :: "(mem \<times> tmpl_item) list \<Rightarrow> mem \<Rightarrow> mem" where
  "tmpl_source [] l = l"
| "tmpl_source ((t, i) # ps) l = t @ item_source i @ tmpl_source ps l"

fun tmpl_text :: "(mem \<Rightarrow> mem) \<Rightarrow> (mem \<times> tmpl_item) list \<Rightarrow> mem \<Rightarrow> mem" where
  "tmpl_text val [] l = l"
| "tmpl_text val ((t, i) # ps) l = t @ item_text val i @ tmpl_text val ps l"

definition cb_rel :: "(sds \<Rightarrow> sds option) \<Rightarrow> (mem \<Rightarrow> mem) \<Rightarrow> bool" where
  "cb_rel cb val \<longleftrightarrow> (\<forall>v n. sds_holds v n \<longrightarrow> (\<exists>w. cb v = Some w \<and> sds_holds w (val n)))"

lemma cat_string: "strlen t = Some n \<Longrightarrow> sdscat a s t = sdscatlen a s (take n t)" by (simp add: sdscat_def)

lemma cat_value:
  assumes "alloc_serves a" "sds_holds s str" "sds_holds w t" "length str + length t < 2 ^ 60"
  shows "\<exists>s'. sdscat a s (drop (soff w) (sblk w)) = Some (Some s') \<and> sds_holds s' (str @ takeWhile (\<lambda>c. c \<noteq> 0) t)"
proof -
  obtain r where d: "drop (soff w) (sblk w) = t @ 0 # r" using holds_drop[OF assms(3)] by blast
  let ?u = "takeWhile (\<lambda>c. c \<noteq> 0) t"
  have u: "takeWhile (\<lambda>c. c \<noteq> 0) (t @ 0 # r) = ?u" by (induction t) auto
  have l: "length ?u \<le> length t" by (rule length_takeWhile_le)
  then have "strlen (t @ 0 # r) = Some (length ?u)" by (simp add: strlen_def u)
  moreover have "take (length ?u) (t @ 0 # r) = ?u" using l by (simp add: takeWhile_eq_take[symmetric])
  ultimately show ?thesis unfolding d using cat_ok[OF assms(1,2), of ?u] l assms(4) by (simp add: cat_string)
qed

lemma template_literal:
  assumes "alloc_serves a" "sds_holds s str" "length str + length t < 2 ^ 60"
  shows "\<exists>s'. (if t \<noteq> [] then do { s \<leftarrow> Some s; sdscatlen a s t } else Some (Some s)) = Some (Some s') \<and> sds_holds s' (str @ t)"
  using cat_ok[OF assms] assms(2) by auto

lemma template_loop_ok:
  assumes "alloc_serves a" "cb_rel cb val" "0 \<notin> set l" "0x7B \<notin> set l"
  shows "sds_holds s str \<Longrightarrow> \<forall>(t, i) \<in> set ps. 0x7B \<notin> set t \<and> item_ok i \<and> length (item_source i) < 2 ^ 60 \<and> (\<forall>n. i = Variable n \<longrightarrow> length (val n) < 2 ^ 59) \<Longrightarrow>
    length str + length (tmpl_text val ps l) < 2 ^ 59 \<Longrightarrow>
    \<exists>s'. sdstemplate_loop a cb (tmpl_source ps l) (Some s) = Some (Some s') \<and> sds_holds s' (str @ tmpl_text val ps l)"
proof (induction ps arbitrary: s str)
  case Nil
  have tw: "dropWhile (\<lambda>c. c \<noteq> 0x7B) l = []" using assms(4) by (auto simp: dropWhile_eq_Nil_conv)
  have "sdscat a s (l @ [0]) = sdscatlen a s l" using strlen_text[OF assms(3), of "[]"] by (simp add: cat_string)
  then show ?case using cat_ok[OF assms(1) Nil(1), of l] Nil tw by (subst sdstemplate_loop.simps) (auto simp: Let_def)
next
  case (Cons p ps)
  obtain t i where p: "p = (t, i)" by (cases p)
  have ok: "0x7B \<notin> set t" "item_ok i" using Cons.prems(2) by (auto simp: p)
  obtain r where src: "item_source i = 0x7B # r" by (cases i) auto
  have pre: "takeWhile (\<lambda>c. c \<noteq> 0x7B) (tmpl_source (p # ps) l) = t" "dropWhile (\<lambda>c. c \<noteq> 0x7B) (tmpl_source (p # ps) l) = 0x7B # r @ tmpl_source ps l"
    "tmpl_source (p # ps) l \<noteq> []" using ok(1) by (auto simp: p src takeWhile_append dropWhile_append)
  obtain s1 where s1: "(if t \<noteq> [] then do { s \<leftarrow> Some s; sdscatlen a s t } else Some (Some s)) = Some (Some s1)" "sds_holds s1 (str @ t)"
    using template_literal[OF assms(1) Cons.prems(1), of t] Cons.prems(3) by (auto simp: p)
  note step = sdstemplate_loop.simps[of a cb "tmpl_source (p # ps) l" "Some s", unfolded pre Let_def, unfolded s1(1)]
  show ?case
  proof (cases i)
    case Bracket
    have "sdscat a s1 [0x7B, 0] = sdscatlen a s1 [0x7B]" using cat_string[of "[0x7B, 0]" 1 a s1] by (simp add: strlen_def)
    moreover obtain s2 where s2: "sdscatlen a s1 [0x7B] = Some (Some s2)" "sds_holds s2 ((str @ t) @ [0x7B])"
      using cat_ok[OF assms(1) s1(2), of "[0x7B]"] Cons.prems(3) by (auto simp: p Bracket)
    moreover have r: "r = [0x7B]" using src by (simp add: Bracket)
    ultimately have "sdstemplate_loop a cb (tmpl_source (p # ps) l) (Some s) = sdstemplate_loop a cb (tmpl_source ps l) (Some s2)"
      using step pre(3) by simp
    then show ?thesis using Cons.IH[OF s2(2)] Cons.prems(2,3) by (simp add: p Bracket)
  next
    case (Variable n)
    have r: "r = n @ [0x7D]" using src by (simp add: Variable)
    have ev: "dropWhile (\<lambda>c. c \<noteq> 0x7D) (r @ tmpl_source ps l) = 0x7D # tmpl_source ps l" using ok(2) by (auto simp: r Variable dropWhile_append)
    have h: "r @ tmpl_source ps l \<noteq> []" "hd (r @ tmpl_source ps l) \<noteq> 0x7B" using ok(2) by (cases n; auto simp: r Variable)+
    have b: "length n < 2 ^ 60" "length (val n) < 2 ^ 59" using Cons.prems(2) by (auto simp: p Variable)
    obtain v where v: "sdsnewlen a (Init (r @ tmpl_source ps l)) (length n) = Some (Some v)" "sds_holds v n"
      using new_ok[OF assms(1), of "length n" "r @ tmpl_source ps l"] b(1) by (auto simp: r)
    obtain w where w: "cb v = Some w" "sds_holds w (val n)" using assms(2) v(2) by (auto simp: cb_rel_def)
    have "length (str @ t) + length (val n) < 2 ^ 60" using Cons.prems(3) b(2) by (simp add: p)
    from cat_value[OF assms(1) s1(2) w(2) this]
    obtain s2 where s2: "sdscat a s1 (drop (soff w) (sblk w)) = Some (Some s2)" "sds_holds s2 ((str @ t) @ takeWhile (\<lambda>c. c \<noteq> 0) (val n))" by blast
    have "length (r @ tmpl_source ps l) - length (0x7D # tmpl_source ps l) = length n" by (simp add: r)
    then have "sdstemplate_loop a cb (tmpl_source (p # ps) l) (Some s) = sdstemplate_loop a cb (tmpl_source ps l) (Some s2)"
      unfolding step list.sel ev using pre(3) h v(1) w(1) s2(1) by auto
    then show ?thesis using Cons.IH[OF s2(2)] Cons.prems(2,3) by (simp add: p Variable)
  qed
qed

lemma template_ok:
  assumes "alloc_serves a" "cb_rel cb val" "0 \<notin> set (tmpl_source ps l)" "0x7B \<notin> set l" "length (tmpl_text val ps l) < 2 ^ 59"
    "\<forall>(t, i) \<in> set ps. 0x7B \<notin> set t \<and> item_ok i \<and> length (item_source i) < 2 ^ 60 \<and> (\<forall>n. i = Variable n \<longrightarrow> length (val n) < 2 ^ 59)"
  shows "\<exists>s. sdstemplate a (tmpl_source ps l @ 0 # r) cb = Some (Some s) \<and> sds_holds s (tmpl_text val ps l)"
proof -
  have l: "0 \<notin> set l" using assms(3) by (induction ps) auto
  obtain s where s: "sdsempty a = Some (Some s)" "sds_holds s []" using empty_ok[OF assms(1)] by blast
  show ?thesis using template_loop_ok[OF assms(1,2) l assms(4) s(2) assms(6)] assms(5) s(1) strlen_text[OF assms(3), of r] by (simp add: sdstemplate_def)
qed

section \<open>Properties\<close>

text \<open>An allocator for concrete runs.\<close>

definition demo_alloc :: allocator where "demo_alloc n = (if n < 2 ^ 62 then Some (\<lambda>i. 0xAA) else None)"

lemma demo_serves: "alloc_serves demo_alloc" by (simp add: alloc_serves_def demo_alloc_def)

text \<open>C5: A string created by \<open>sdsnewlen\<close> and changed by any sequence of appending, overwriting, zero-filling, trimming, cutting, mapping, clearing and
  resizing commands holds exactly the bytes that the same commands give on a list of bytes, through every change of the header type; the
  only other outcome is the null pointer, and only after the allocator refused a request no larger than twice the total amount of text plus
  a megabyte. No step reads or writes outside its block or fails an assertion.\<close>

theorem sds_commands_refine:
  assumes "malloc_ok a" "list_all sds_cmd_ok cs" "n \<le> length b" "n < 2 ^ 62" "sdsnewlen a (Init b) n = Some (Some s)"
  shows "(\<exists>s'. run_cmds (sds_step a) cs s = Some (Some s') \<and> sds_holds s' (fold sds_edit cs (take n b))) \<or>
    run_cmds (sds_step a) cs s = Some None \<and> (\<exists>k \<le> 2 * (n + sum_list (map sds_cost cs)) + 2 ^ 20 + 18. a k = None)"
proof -
  have "sds_holds s (take n b)" using newlen_holds[OF assms(3,4)] assms(5) by (simp add: sdsnewlen_def)
  then show ?thesis using commands_refine[OF assms(1,2), of s "take n b"] assms(3) by (simp add: refused_def grow_bound_def min_absorb2)
qed

theorem sds_commands_refine_witness:
  "\<exists>s s'. sdsnewlen demo_alloc (Init [32, 65, 66, 32]) 4 = Some (Some s) \<and>
    run_cmds (sds_step demo_alloc) [CatLen (replicate 40 67), Trim [32], Resize 3 False, ToLower, CatLen [33]] s = Some (Some s') \<and> sds_holds s' [97, 98, 32, 33]"
proof -
  let ?cs = "[CatLen (replicate 40 67), Trim [32], Resize 3 False, ToLower, CatLen [33]]"
  obtain s where s: "sdsnewlen demo_alloc (Init [32, 65, 66, 32]) 4 = Some (Some s)" using new_ok[OF demo_serves, of 4 "[32, 65, 66, 32]"] by auto
  have e: "fold sds_edit ?cs (take 4 [32, 65, 66, 32]) = [97, 98, 32, 33]" by code_simp
  have "\<not> (\<exists>k \<le> 2 * (4 + sum_list (map sds_cost ?cs)) + 2 ^ 20 + 18. demo_alloc k = None)" by (auto simp: demo_alloc_def)
  then show ?thesis using sds_commands_refine[OF serves_ok[OF demo_serves], of ?cs 4 "[32, 65, 66, 32]" s] s unfolding e by auto
qed

text \<open>C38: Splitting a text at a separator gives tokens none of which contains the separator, and joining the tokens with the separator gives back
  the text, for every non-empty text below 2 to the 28 bytes and every non-empty separator, when memory is available.\<close>

theorem sds_split_join:
  assumes "alloc_serves a" "s \<noteq> []" "sep \<noteq> []" "length s < 2 ^ 28"
  shows "\<exists>tokens ts j. sdssplitlen a s sep = Some (Some tokens) \<and> list_all2 sds_holds tokens ts \<and> list_all (sep_free sep) ts \<and>
    sdsjoinsds a tokens sep = Some (Some j) \<and> sds_holds j s"
proof -
  obtain tokens ts where t: "sdssplitlen a s sep = Some (Some tokens)" "list_all2 sds_holds tokens ts" "join_text sep ts = s" "list_all (sep_free sep) ts"
    using split_ok[OF assms(1,4,3,2)] by blast
  moreover obtain j where "sdsjoinsds a tokens sep = Some (Some j)" "sds_holds j s" using joinsds_ok[OF assms(1) t(2), of sep] t(3) assms(4) by auto
  ultimately show ?thesis by blast
qed

theorem sds_split_join_witness:
  "\<exists>tokens ts j. sdssplitlen demo_alloc [97, 44, 44, 98] [44] = Some (Some tokens) \<and> list_all2 sds_holds tokens ts \<and> list_all (sep_free [44]) ts \<and>
    sdsjoinsds demo_alloc tokens [44] = Some (Some j) \<and> sds_holds j [97, 44, 44, 98]"
  using sds_split_join[OF demo_serves, of "[97, 44, 44, 98]" "[44]"] by simp

text \<open>C14: \<open>sdscatrepr\<close> appends a quoted text that \<open>sdssplitargs\<close> reads back: a line of quoted arguments, whatever bytes they consist of, splits into
  exactly these arguments, when memory is available.\<close>

theorem sds_args_roundtrip:
  assumes "alloc_serves a" "sds_holds s line" "length line + 4 * length p + 2 < 2 ^ 60" "length ps < 2 ^ 50" "list_all (\<lambda>p. length p < 2 ^ 60) ps"
  shows "\<exists>s' v. sdscatrepr a s p = Some (Some s') \<and> sds_holds s' (line @ repr_text p) \<and>
    sdssplitargs a (concat (map (\<lambda>p. 32 # repr_text p) ps) @ [0]) = Some (Some v) \<and> list_all2 (\<lambda>o' p. \<exists>s. o' = Some s \<and> sds_holds s p) v ps"
proof -
  have "concat (map (\<lambda>p. 32 # repr_text p) ps) = args_line ps" by (induction ps) auto
  then show ?thesis using catrepr_ok[OF assms(1-3)] splitargs_ok[OF assms(1,4,5)] by auto
qed

theorem sds_args_roundtrip_witness:
  "\<exists>s s' v. sdsempty demo_alloc = Some (Some s) \<and> sdscatrepr demo_alloc s [34, 0, 255] = Some (Some s') \<and>
    sds_holds s' [0x22, 0x5C, 0x22, 0x5C, 0x78, 0x30, 0x30, 0x5C, 0x78, 0x66, 0x66, 0x22] \<and>
    sdssplitargs demo_alloc (concat (map (\<lambda>p. 32 # repr_text p) [[34, 0, 255], []]) @ [0]) = Some (Some v) \<and>
    list_all2 (\<lambda>o' p. \<exists>s. o' = Some s \<and> sds_holds s p) v [[34, 0, 255], []]"
proof -
  obtain s where s: "sdsempty demo_alloc = Some (Some s)" "sds_holds s []" using empty_ok[OF demo_serves] by blast
  have "[] @ repr_text [34, 0, 255] = [0x22, 0x5C, 0x22, 0x5C, 0x78, 0x30, 0x30, 0x5C, 0x78, 0x66, 0x66, 0x22]" by code_simp
  then show ?thesis using sds_args_roundtrip[OF demo_serves s(2), of "[34, 0, 255]" "[[34, 0, 255], []]"] s(1) by auto
qed

text \<open>C39: \<open>sdscatfmt\<close> appends the expansion of its format: plain characters, strings, numbers in decimal (32 bit arguments for \<open>%i\<close> and \<open>%u\<close>, 64 bit ones
  for \<open>%I\<close> and \<open>%U\<close>), and the character after any other percent sign; the result is terminated although the terminator is overwritten while the text grows.\<close>

theorem sds_catfmt_expands:
  assumes "alloc_serves a" "sds_holds s str" "fmt_text fmt args t" "0 \<notin> set fmt" "length str + 2 * length fmt + length t < 2 ^ 59"
  shows "\<exists>s'. sdscatfmt a f s (fmt @ 0 # r) args = Some s' \<and> sds_holds s' (str @ t)"
  by (rule catfmt_ok[OF assms])

theorem sds_catfmt_expands_witness:
  "\<exists>s s'. sdsempty demo_alloc = Some (Some s) \<and> sdscatfmt demo_alloc (\<lambda>_. 7) s ([0x78, 0x3D, 0x25, 0x69, 0x25, 0x25] @ 0 # []) [ArgInt (- 42)] = Some s' \<and>
    sds_holds s' [0x78, 0x3D, 0x2D, 0x34, 0x32, 0x25]"
proof -
  obtain s where s: "sdsempty demo_alloc = Some (Some s)" "sds_holds s []" using empty_ok[OF demo_serves] by blast
  have "idec (sint (- 42 :: i32)) = [0x2D, 0x34, 0x32]" by code_simp
  then have "arg_rel 0x69 (ArgInt (- 42)) [0x2D, 0x34, 0x32]" by (simp add: arg_rel_def)
  moreover have "fmt_text [0x25, 0x25] [] [0x25]" by (intro fmt_text.intros(1,5)) simp
  ultimately have "fmt_text [0x25, 0x69, 0x25, 0x25] [ArgInt (- 42)] ([0x2D, 0x34, 0x32] @ [0x25])" by (rule fmt_text.intros(4))
  then have t: "fmt_text [0x78, 0x3D, 0x25, 0x69, 0x25, 0x25] [ArgInt (- 42)] [0x78, 0x3D, 0x2D, 0x34, 0x32, 0x25]" by (intro fmt_text.intros(2)) simp_all
  show ?thesis using sds_catfmt_expands[OF demo_serves s(2) t, of "\<lambda>_. 7" "[]"] s(1) by auto
qed

text \<open>A zero byte at either end is trimmed whatever the set of characters is, because \<open>strchr\<close> finds the terminator of the set.\<close>

lemma trim_zero_bytes: "trim_text [32] [0, 65, 0] = [65]" by code_simp

end
