(* ===== verification/Dict.thy ===== *)
theory Dict
  imports Prelude
begin

text \<open>
  The hash tables of \<open>src/redislib-src/kernel/dict.c\<close> and \<open>dict.h\<close>: two tables of chains, incremental rehashing, resizing under the global
  policy, searching, insertion, replacement, deletion, clearing and the stateless scan. A chain is the list of its entries; a link
  (\<open>dictEntry **\<close>) is a table, an index and a position. The callbacks of \<open>dictType\<close> are functions of the type record; the notifications
  (\<open>rehashingStarted\<close>, \<open>rehashingCompleted\<close>, \<open>bucketChanged\<close>, \<open>onDictRelease\<close>) do not change the dictionary and are left out, the
  destructors are represented by the entries that an operation returns as removed. Keys are pointers to unchanging objects.
\<close>

section \<open>Data\<close>

text \<open>The entries of a chain, as a list: an entry with a value (not yet set when it is \<^term>\<open>None\<close>), an entry of a dictionary
  without values, or the key itself in place of an entry, which has no \<open>next\<close> field.\<close>

datatype ('s, 'v) dictEntry = Entry (dictGetKey: 's) (entryVal: "'v option") | EntryNoValue (dictGetKey: 's) | EntryKey (dictGetKey: 's)

fun entryIsKey :: "('s, 'v) dictEntry \<Rightarrow> bool" where
  "entryIsKey (EntryKey _) = True"
| "entryIsKey _ = False"

type_synonym ('s, 'v) chain = "('s, 'v) dictEntry list"

record ('s, 'v) ht =
  table :: "('s, 'v) chain list option"
  used :: u64
  size_exp :: int

datatype dictResizeEnable = DICT_RESIZE_ENABLE | DICT_RESIZE_AVOID | DICT_RESIZE_FORBID

text \<open>The second argument of \<open>resizeAllowed\<close>, a quotient of type \<open>double\<close>, is given by its dividend and its divisor.\<close>

record ('k, 's, 'v) dictType =
  hashFunction :: "'k \<Rightarrow> u64"
  keyDup :: "('s \<Rightarrow> 's) option"
  valDup :: "('v \<Rightarrow> 'v) option"
  keyCompare :: "('k \<Rightarrow> 'k \<Rightarrow> bool) option"
  resizeAllowed :: "(u64 \<Rightarrow> u64 \<Rightarrow> u64 \<Rightarrow> bool) option"
  no_value :: bool
  force_full_rehash :: bool
  keyFromStoredKey :: "'s \<Rightarrow> 'k"

record ('k, 's, 'v) dict =
  dtype :: "('k, 's, 'v) dictType"
  ht0 :: "('s, 'v) ht"
  ht1 :: "('s, 'v) ht"
  rehashidx :: int
  pauserehash :: u32
  pauseAutoResize :: int

definition DICT_HT_INITIAL_EXP :: int where "DICT_HT_INITIAL_EXP = 2"
definition DICT_HT_INITIAL_SIZE :: u64 where "DICT_HT_INITIAL_SIZE = push_bit (nat DICT_HT_INITIAL_EXP) 1"
definition HASHTABLE_MIN_FILL :: u64 where "HASHTABLE_MIN_FILL = 8"
definition dict_force_resize_ratio :: u64 where "dict_force_resize_ratio = 4"

definition DICTHT_SIZE :: "int \<Rightarrow> u64" where "DICTHT_SIZE e = (if e = -1 then 0 else push_bit (nat e) 1)"
definition DICTHT_SIZE_MASK :: "int \<Rightarrow> u64" where "DICTHT_SIZE_MASK e = (if e = -1 then 0 else DICTHT_SIZE e - 1)"

definition ht :: "('k, 's, 'v) dict \<Rightarrow> nat \<Rightarrow> ('s, 'v) ht" where "ht d t = (if t = 0 then ht0 d else ht1 d)"
definition ht_put :: "('k, 's, 'v) dict \<Rightarrow> nat \<Rightarrow> ('s, 'v) ht \<Rightarrow> ('k, 's, 'v) dict" where
  "ht_put d t h = (if t = 0 then d\<lparr>ht0 := h\<rparr> else d\<lparr>ht1 := h\<rparr>)"

definition slot :: "('s, 'v) ht \<Rightarrow> int \<Rightarrow> ('s, 'v) chain option" where
  "slot h i = (case table h of None \<Rightarrow> None | Some tb \<Rightarrow> if 0 \<le> i \<and> i < int (length tb) then Some (tb ! nat i) else None)"

definition set_slot :: "('s, 'v) ht \<Rightarrow> int \<Rightarrow> ('s, 'v) chain \<Rightarrow> ('s, 'v) ht option" where
  "set_slot h i c = (case table h of None \<Rightarrow> None
     | Some tb \<Rightarrow> if 0 \<le> i \<and> i < int (length tb) then Some (h\<lparr>table := Some (tb[nat i := c])\<rparr>) else None)"

definition dictBuckets :: "('k, 's, 'v) dict \<Rightarrow> u64" where "dictBuckets d = DICTHT_SIZE (size_exp (ht0 d)) + DICTHT_SIZE (size_exp (ht1 d))"
definition dictSize :: "('k, 's, 'v) dict \<Rightarrow> u64" where "dictSize d = used (ht0 d) + used (ht1 d)"
definition dictIsRehashing :: "('k, 's, 'v) dict \<Rightarrow> bool" where "dictIsRehashing d = (rehashidx d \<noteq> -1)"

definition dictGetHash :: "('k, 's, 'v) dict \<Rightarrow> 'k \<Rightarrow> u64" where "dictGetHash d key = hashFunction (dtype d) key"

text \<open>The test of the search loops; the default comparison is the comparison of the pointers.\<close>

definition keyMatch :: "('k, 's, 'v) dictType \<Rightarrow> 'k \<Rightarrow> 's \<Rightarrow> bool" where
  "keyMatch ty key s = (let k = keyFromStoredKey ty s in key = k \<or> (case keyCompare ty of Some f \<Rightarrow> f key k | None \<Rightarrow> key = k))"

definition dictReset :: "('s, 'v) ht" where "dictReset = \<lparr>table = None, used = 0, size_exp = -1\<rparr>"

definition dictCreate :: "('k, 's, 'v) dictType \<Rightarrow> ('k, 's, 'v) dict" where
  "dictCreate ty = \<lparr>dtype = ty, ht0 = dictReset, ht1 = dictReset, rehashidx = -1, pauserehash = 0, pauseAutoResize = 0\<rparr>"

section \<open>Rehashing\<close>

text \<open>\<open>__builtin_clzl\<close>: the number of leading zero bits.\<close>

definition clzl :: "u64 \<Rightarrow> nat" where "clzl x = length (takeWhile (\<lambda>i. \<not> bit x i) (List.rev [0..<64]))"

definition dictNextExp :: "u64 \<Rightarrow> int" where
  "dictNextExp sz =
     (if sz \<le> DICT_HT_INITIAL_SIZE then DICT_HT_INITIAL_EXP
      else if sz \<ge> 0x7fffffffffffffff then 8 * 8 - 1
      else 8 * 8 - int (clzl (sz - 1)))"

definition dictSetNext :: "('s, 'v) dictEntry \<Rightarrow> ('s, 'v) chain \<Rightarrow> ('s, 'v) chain option" where
  "dictSetNext de next = do { guard (\<not> entryIsKey de); Some (de # next) }"

definition dictGetNext :: "('s, 'v) dictEntry \<Rightarrow> ('s, 'v) chain \<Rightarrow> ('s, 'v) chain" where
  "dictGetNext de next = (if entryIsKey de then [] else next)"

text \<open>One round of the loop of \<open>rehashEntriesInBucketAtIndex\<close>.\<close>

definition rehash_entry :: "('k, 's, 'v) dict \<Rightarrow> u64 \<Rightarrow> ('s, 'v) dictEntry \<Rightarrow> ('k, 's, 'v) dict option" where
  "rehash_entry d idx de = do {
     let storedKey = dictGetKey de;
     let h = (if size_exp (ht1 d) > size_exp (ht0 d)
              then dictGetHash d (keyFromStoredKey (dtype d) storedKey) AND DICTHT_SIZE_MASK (size_exp (ht1 d))
              else idx AND DICTHT_SIZE_MASK (size_exp (ht1 d)));
     b \<leftarrow> slot (ht1 d) (uint h);
     c \<leftarrow>
       (if no_value (dtype d) then
          if b = [] then Some [EntryKey storedKey]
          else if entryIsKey de then Some (EntryNoValue storedKey # b)
          else dictSetNext de b
        else dictSetNext de b);
     t1 \<leftarrow> set_slot (ht1 d) (uint h) c;
     Some (d\<lparr>ht0 := (ht0 d)\<lparr>used := used (ht0 d) - 1\<rparr>, ht1 := t1\<lparr>used := used t1 + 1\<rparr>\<rparr>) }"

function rehash_chain :: "('k, 's, 'v) dict \<Rightarrow> u64 \<Rightarrow> ('s, 'v) chain \<Rightarrow> ('k, 's, 'v) dict option" where
  "rehash_chain d idx [] = Some d"
| "rehash_chain d idx (de # next) = do { d \<leftarrow> rehash_entry d idx de; rehash_chain d idx (dictGetNext de next) }"
  by pat_completeness auto
termination by (relation "measure (\<lambda>(d, idx, c). length c)") (auto simp: dictGetNext_def)

definition rehashEntriesInBucketAtIndex :: "('k, 's, 'v) dict \<Rightarrow> u64 \<Rightarrow> ('k, 's, 'v) dict option" where
  "rehashEntriesInBucketAtIndex d idx = do {
     c \<leftarrow> slot (ht0 d) (uint idx);
     d \<leftarrow> rehash_chain d idx c;
     t0 \<leftarrow> set_slot (ht0 d) (uint idx) [];
     Some (d\<lparr>ht0 := t0\<rparr>) }"

definition dictCheckRehashingCompleted :: "('k, 's, 'v) dict \<Rightarrow> bool \<times> ('k, 's, 'v) dict" where
  "dictCheckRehashingCompleted d =
     (if used (ht0 d) \<noteq> 0 then (False, d) else (True, d\<lparr>ht0 := ht1 d, ht1 := dictReset, rehashidx := -1\<rparr>))"

text \<open>\<open>while (d->ht_table[0][d->rehashidx] == NULL)\<close>: \<^term>\<open>Inl\<close> when the number of empty buckets to visit is used up.\<close>

function dictRehash_skip :: "('k, 's, 'v) dict \<Rightarrow> int \<Rightarrow> (('k, 's, 'v) dict + ('k, 's, 'v) dict \<times> int) option" where
  "dictRehash_skip d ev = do {
     c \<leftarrow> slot (ht0 d) (rehashidx d);
     if c \<noteq> [] then Some (Inr (d, ev))
     else do {
       let d = d\<lparr>rehashidx := rehashidx d + 1\<rparr>;
       ev \<leftarrow> c_int (ev - 1);
       if ev = 0 then Some (Inl d) else dictRehash_skip d ev } }"
  by pat_completeness auto
termination
proof (relation "measure (\<lambda>(d, ev). nat (int (case table (ht0 d) of None \<Rightarrow> 0 | Some tb \<Rightarrow> length tb) - rehashidx d))")
qed (auto simp: slot_def split: option.splits if_splits)

declare dictRehash_skip.simps [simp del]

text \<open>\<open>while (n-- && d->ht_used[0] != 0)\<close>; the counter is an \<open>int\<close>, and a negative one counts down to the overflow.\<close>

function dictRehash_loop :: "('k, 's, 'v) dict \<Rightarrow> int \<Rightarrow> int \<Rightarrow> (bool \<times> ('k, 's, 'v) dict) option" where
  "dictRehash_loop d n ev =
     (if n = 0 then Some (False, d)
      else do {
        n \<leftarrow> c_int (n - 1);
        if used (ht0 d) = 0 then Some (False, d)
        else do {
          guard (DICTHT_SIZE (size_exp (ht0 d)) > word_of_int (rehashidx d));
          r \<leftarrow> dictRehash_skip d ev;
          case r of Inl d \<Rightarrow> Some (True, d)
          | Inr (d, ev) \<Rightarrow> do {
              d \<leftarrow> rehashEntriesInBucketAtIndex d (word_of_int (rehashidx d));
              dictRehash_loop (d\<lparr>rehashidx := rehashidx d + 1\<rparr>) n ev } } })"
  by pat_completeness auto
termination by (relation "measure (\<lambda>(d, n, ev). nat (n + 2 ^ 31))") (auto simp: c_int_def split: if_splits)

declare dictRehash_loop.simps [simp del]

text \<open>The policy tests that \<open>dictRehash\<close> and \<open>_dictBucketRehash\<close> share.\<close>

definition rehash_avoided :: "dictResizeEnable \<Rightarrow> ('k, 's, 'v) dict \<Rightarrow> bool" where
  "rehash_avoided can_resize d =
     (let s0 = DICTHT_SIZE (size_exp (ht0 d)); s1 = DICTHT_SIZE (size_exp (ht1 d)) in
      can_resize = DICT_RESIZE_FORBID \<or> \<not> dictIsRehashing d \<or>
      can_resize = DICT_RESIZE_AVOID \<and>
        (s1 > s0 \<and> s1 < dict_force_resize_ratio * s0 \<or> s1 < s0 \<and> s0 < HASHTABLE_MIN_FILL * dict_force_resize_ratio * s1))"

definition dictRehash :: "dictResizeEnable \<Rightarrow> ('k, 's, 'v) dict \<Rightarrow> int \<Rightarrow> (bool \<times> ('k, 's, 'v) dict) option" where
  "dictRehash can_resize d n = do {
     empty_visits \<leftarrow> c_int (n * 10);
     if rehash_avoided can_resize d then Some (False, d)
     else do {
       (early, d) \<leftarrow> dictRehash_loop d n empty_visits;
       if early then Some (True, d)
       else let (completed, d) = dictCheckRehashingCompleted d in Some (\<not> completed, d) } }"

definition dictRehashStep :: "dictResizeEnable \<Rightarrow> ('k, 's, 'v) dict \<Rightarrow> ('k, 's, 'v) dict option" where
  "dictRehashStep can_resize d = (if pauserehash d = 0 then map_option snd (dictRehash can_resize d 1) else Some d)"

definition dictBucketRehash :: "dictResizeEnable \<Rightarrow> ('k, 's, 'v) dict \<Rightarrow> u64 \<Rightarrow> (bool \<times> ('k, 's, 'v) dict) option" where
  "dictBucketRehash can_resize d idx =
     (if pauserehash d \<noteq> 0 \<or> rehash_avoided can_resize d then Some (False, d)
      else do {
        d \<leftarrow> rehashEntriesInBucketAtIndex d idx;
        Some (True, snd (dictCheckRehashingCompleted d)) })"

definition dictRehashStepIfNeeded :: "dictResizeEnable \<Rightarrow> ('k, 's, 'v) dict \<Rightarrow> u64 \<Rightarrow> ('k, 's, 'v) dict option" where
  "dictRehashStepIfNeeded can_resize d visitedIdx =
     (if \<not> dictIsRehashing d \<or> pauserehash d \<noteq> 0 then Some d
      else do {
        visited \<leftarrow> (if sint visitedIdx \<ge> rehashidx d then do { c \<leftarrow> slot (ht0 d) (uint visitedIdx); Some (c \<noteq> []) } else Some False);
        if visited then map_option snd (dictBucketRehash can_resize d visitedIdx)
        else map_option snd (dictRehash can_resize d 1) })"

section \<open>Resizing\<close>

text \<open>\<open>while (dictRehash(d, 1000))\<close>.\<close>

partial_function (option) dictRehash_all :: "dictResizeEnable \<Rightarrow> ('k, 's, 'v) dict \<Rightarrow> ('k, 's, 'v) dict option" where
  "dictRehash_all can_resize d = do {
     (more, d) \<leftarrow> dictRehash can_resize d 1000;
     if more then dictRehash_all can_resize d else Some d }"

text \<open>\<open>malloc_failed\<close> is \<^term>\<open>None\<close> for the null pointer; otherwise it says whether the allocation fails. The result is whether the
  table was resized (\<open>DICT_OK\<close>), and whether an allocation failed. Without \<open>malloc_failed\<close> the code does not look at the result of \<open>zcalloc\<close>: the model
  assumes that the table is granted there, as it assumes for the entries.\<close>

definition dictResize' :: "dictResizeEnable \<Rightarrow> ('k, 's, 'v) dict \<Rightarrow> u64 \<Rightarrow> bool option \<Rightarrow> (bool \<times> bool \<times> ('k, 's, 'v) dict) option" where
  "dictResize' can_resize d sz malloc_failed = do {
     guard (\<not> dictIsRehashing d);
     let new_ht_size_exp = dictNextExp sz;
     let newsize = DICTHT_SIZE new_ht_size_exp;
     if newsize < sz \<or> newsize * 8 < newsize then Some (False, False, d)
     else if new_ht_size_exp = size_exp (ht0 d) then Some (False, False, d)
     else if malloc_failed = Some True then Some (False, True, d)
     else let new = \<lparr>table = Some (replicate (unat newsize) []), used = 0, size_exp = new_ht_size_exp\<rparr> in
       if table (ht0 d) = None \<or> used (ht0 d) = 0
       then Some (True, False, d\<lparr>ht0 := new, ht1 := dictReset, rehashidx := -1\<rparr>)
       else do {
         let d = d\<lparr>ht1 := new, rehashidx := 0\<rparr>;
         d \<leftarrow> (if force_full_rehash (dtype d) then dictRehash_all can_resize d else Some d);
         Some (True, False, d) } }"

definition dictExpand' :: "dictResizeEnable \<Rightarrow> ('k, 's, 'v) dict \<Rightarrow> u64 \<Rightarrow> bool option \<Rightarrow> (bool \<times> bool \<times> ('k, 's, 'v) dict) option" where
  "dictExpand' can_resize d sz malloc_failed =
     (if dictIsRehashing d \<or> used (ht0 d) > sz \<or> DICTHT_SIZE (size_exp (ht0 d)) \<ge> sz then Some (False, False, d)
      else dictResize' can_resize d sz malloc_failed)"

definition dictExpand :: "dictResizeEnable \<Rightarrow> ('k, 's, 'v) dict \<Rightarrow> u64 \<Rightarrow> (bool \<times> ('k, 's, 'v) dict) option" where
  "dictExpand can_resize d sz = do { (ok, failed, d) \<leftarrow> dictExpand' can_resize d sz None; Some (ok, d) }"

definition dictTryExpand :: "dictResizeEnable \<Rightarrow> bool \<Rightarrow> ('k, 's, 'v) dict \<Rightarrow> u64 \<Rightarrow> (bool \<times> ('k, 's, 'v) dict) option" where
  "dictTryExpand can_resize malloc_fails d sz = do {
     (ok, failed, d) \<leftarrow> dictExpand' can_resize d sz (Some malloc_fails);
     Some (\<not> failed, d) }"

definition dictShrink :: "dictResizeEnable \<Rightarrow> ('k, 's, 'v) dict \<Rightarrow> u64 \<Rightarrow> (bool \<times> ('k, 's, 'v) dict) option" where
  "dictShrink can_resize d sz =
     (if dictIsRehashing d \<or> used (ht0 d) > sz \<or> DICTHT_SIZE (size_exp (ht0 d)) \<le> sz then Some (False, d)
      else do { (ok, failed, d) \<leftarrow> dictResize' can_resize d sz None; Some (ok, d) })"

definition dictTypeResizeAllowed :: "('k, 's, 'v) dict \<Rightarrow> u64 \<Rightarrow> bool" where
  "dictTypeResizeAllowed d sz = (case resizeAllowed (dtype d) of None \<Rightarrow> True
     | Some f \<Rightarrow> f (DICTHT_SIZE (dictNextExp sz) * 8) (used (ht0 d)) (DICTHT_SIZE (size_exp (ht0 d))))"

definition dictExpandIfNeeded :: "dictResizeEnable \<Rightarrow> ('k, 's, 'v) dict \<Rightarrow> (bool \<times> ('k, 's, 'v) dict) option" where
  "dictExpandIfNeeded can_resize d =
     (if dictIsRehashing d then Some (True, d)
      else if DICTHT_SIZE (size_exp (ht0 d)) = 0 then do { (ok, d) \<leftarrow> dictExpand can_resize d DICT_HT_INITIAL_SIZE; Some (True, d) }
      else if can_resize = DICT_RESIZE_ENABLE \<and> used (ht0 d) \<ge> DICTHT_SIZE (size_exp (ht0 d)) \<or>
              can_resize \<noteq> DICT_RESIZE_FORBID \<and> used (ht0 d) \<ge> dict_force_resize_ratio * DICTHT_SIZE (size_exp (ht0 d))
      then if dictTypeResizeAllowed d (used (ht0 d) + 1)
           then do { (ok, d) \<leftarrow> dictExpand can_resize d (used (ht0 d) + 1); Some (True, d) }
           else Some (True, d)
      else Some (False, d))"

definition dictExpandIfNeeded' :: "dictResizeEnable \<Rightarrow> ('k, 's, 'v) dict \<Rightarrow> ('k, 's, 'v) dict option" where
  "dictExpandIfNeeded' can_resize d = (if pauseAutoResize d > 0 then Some d else map_option snd (dictExpandIfNeeded can_resize d))"

definition dictShrinkIfNeeded :: "dictResizeEnable \<Rightarrow> ('k, 's, 'v) dict \<Rightarrow> (bool \<times> ('k, 's, 'v) dict) option" where
  "dictShrinkIfNeeded can_resize d =
     (if dictIsRehashing d then Some (True, d)
      else if DICTHT_SIZE (size_exp (ht0 d)) \<le> DICT_HT_INITIAL_SIZE then Some (True, d)
      else if can_resize = DICT_RESIZE_ENABLE \<and> used (ht0 d) * HASHTABLE_MIN_FILL \<le> DICTHT_SIZE (size_exp (ht0 d)) \<or>
              can_resize \<noteq> DICT_RESIZE_FORBID \<and> used (ht0 d) * HASHTABLE_MIN_FILL * dict_force_resize_ratio \<le> DICTHT_SIZE (size_exp (ht0 d))
      then if dictTypeResizeAllowed d (used (ht0 d))
           then do { (ok, d) \<leftarrow> dictShrink can_resize d (used (ht0 d)); Some (True, d) }
           else Some (True, d)
      else Some (False, d))"

definition dictShrinkIfNeeded' :: "dictResizeEnable \<Rightarrow> ('k, 's, 'v) dict \<Rightarrow> ('k, 's, 'v) dict option" where
  "dictShrinkIfNeeded' can_resize d = (if pauseAutoResize d > 0 then Some d else map_option snd (dictShrinkIfNeeded can_resize d))"

section \<open>Looking up, adding and deleting\<close>

text \<open>A link (the address of a bucket or of a \<open>next\<close> field) is a table, an index and a position in the chain.\<close>

type_synonym link = "nat \<times> u64 \<times> nat"

definition link_get :: "('k, 's, 'v) dict \<Rightarrow> link \<Rightarrow> ('s, 'v) dictEntry option" where
  "link_get d l = (case l of (t, i, p) \<Rightarrow> do { c \<leftarrow> slot (ht d t) (uint i); if p < length c then Some (c ! p) else None })"

definition link_set :: "('k, 's, 'v) dict \<Rightarrow> link \<Rightarrow> ('s, 'v) dictEntry \<Rightarrow> ('k, 's, 'v) dict option" where
  "link_set d l e = (case l of (t, i, p) \<Rightarrow> do {
     c \<leftarrow> slot (ht d t) (uint i);
     guard (p < length c);
     h \<leftarrow> set_slot (ht d t) (uint i) (c[p := e]);
     Some (ht_put d t h) })"

text \<open>The walk along a chain: the position of the first entry with the key.\<close>

fun chain_find :: "('k, 's, 'v) dictType \<Rightarrow> 'k \<Rightarrow> ('s, 'v) chain \<Rightarrow> nat option" where
  "chain_find ty key [] = None"
| "chain_find ty key (de # next) =
     (if keyMatch ty key (dictGetKey de) then Some 0
      else if entryIsKey de then None else map_option Suc (chain_find ty key next))"

definition find_in :: "('k, 's, 'v) dict \<Rightarrow> 'k \<Rightarrow> u64 \<Rightarrow> nat \<Rightarrow> (u64 \<times> link option) option" where
  "find_in d key hash t = do {
     let idx = hash AND DICTHT_SIZE_MASK (size_exp (ht d t));
     c \<leftarrow> slot (ht d t) (uint idx);
     Some (idx, map_option (\<lambda>p. (t, idx, p)) (chain_find (dtype d) key c)) }"

text \<open>The loop over the tables, the index of the first table being tested against \<open>rehashidx\<close>; the last index and the link found.\<close>

definition find_tables :: "('k, 's, 'v) dict \<Rightarrow> 'k \<Rightarrow> u64 \<Rightarrow> u64 \<Rightarrow> (u64 \<times> link option) option" where
  "find_tables d key hash idx =
     (if sint idx < rehashidx d then find_in d key hash 1
      else do {
        (idx, r) \<leftarrow> find_in d key hash 0;
        if r \<noteq> None \<or> \<not> dictIsRehashing d then Some (idx, r) else find_in d key hash 1 })"

text \<open>The link found and the bucket searched last.\<close>

definition dictFindLinkInternal :: "dictResizeEnable \<Rightarrow> ('k, 's, 'v) dict \<Rightarrow> 'k \<Rightarrow> (link option \<times> link \<times> ('k, 's, 'v) dict) option" where
  "dictFindLinkInternal can_resize d key = do {
     let hash = dictGetHash d key;
     let idx = hash AND DICTHT_SIZE_MASK (size_exp (ht0 d));
     d \<leftarrow> dictRehashStepIfNeeded can_resize d idx;
     (idx, r) \<leftarrow> find_tables d key hash idx;
     let t = (case r of Some (t, i, p) \<Rightarrow> t | None \<Rightarrow> if dictIsRehashing d then 1 else 0);
     Some (r, (t, idx, 0), d) }"

definition dictFindLink :: "dictResizeEnable \<Rightarrow> ('k, 's, 'v) dict \<Rightarrow> 'k \<Rightarrow> (link option \<times> link option \<times> ('k, 's, 'v) dict) option" where
  "dictFindLink can_resize d key =
     (if dictSize d = 0 then Some (None, None, d)
      else do { (r, b, d) \<leftarrow> dictFindLinkInternal can_resize d key; Some (r, Some b, d) })"

definition dictFind :: "dictResizeEnable \<Rightarrow> ('k, 's, 'v) dict \<Rightarrow> 'k \<Rightarrow> (('s, 'v) dictEntry option \<times> ('k, 's, 'v) dict) option" where
  "dictFind can_resize d key = do {
     (r, b, d) \<leftarrow> dictFindLink can_resize d key;
     case r of None \<Rightarrow> Some (None, d) | Some l \<Rightarrow> do { e \<leftarrow> link_get d l; Some (Some e, d) } }"

text \<open>Reading a value that was never set, or the value of an entry without one, is undefined.\<close>

definition dictGetVal :: "('s, 'v) dictEntry \<Rightarrow> 'v option" where
  "dictGetVal e = (case e of Entry k v \<Rightarrow> v | _ \<Rightarrow> None)"

definition dictFetchValue :: "dictResizeEnable \<Rightarrow> ('k, 's, 'v) dict \<Rightarrow> 'k \<Rightarrow> ('v option \<times> ('k, 's, 'v) dict) option" where
  "dictFetchValue can_resize d key = do {
     (r, d) \<leftarrow> dictFind can_resize d key;
     case r of None \<Rightarrow> Some (None, d) | Some e \<Rightarrow> do { v \<leftarrow> dictGetVal e; Some (Some v, d) } }"

text \<open>\<^term>\<open>Inl\<close> the existing entry, \<^term>\<open>Inr\<close> the bucket for a new one.\<close>

definition dictFindLinkForInsert :: "dictResizeEnable \<Rightarrow> ('k, 's, 'v) dict \<Rightarrow> 'k \<Rightarrow> ((link + link) \<times> ('k, 's, 'v) dict) option" where
  "dictFindLinkForInsert can_resize d key = do {
     let hash = dictGetHash d key;
     let idx = hash AND DICTHT_SIZE_MASK (size_exp (ht0 d));
     d \<leftarrow> dictRehashStepIfNeeded can_resize d idx;
     d \<leftarrow> dictExpandIfNeeded' can_resize d;
     (idx, r) \<leftarrow> find_tables d key hash idx;
     Some (case r of Some l \<Rightarrow> Inl l | None \<Rightarrow> Inr (if dictIsRehashing d then 1 else 0, idx, 0), d) }"

definition dictInsertKeyAtLink :: "('k, 's, 'v) dict \<Rightarrow> 's \<Rightarrow> link \<Rightarrow> (link \<times> ('k, 's, 'v) dict) option" where
  "dictInsertKeyAtLink d key bucket = (case bucket of (t, idx, p) \<Rightarrow> do {
     let htidx = (if dictIsRehashing d then 1 else 0);
     guard (t = htidx \<and> p = 0 \<and> idx \<le> DICTHT_SIZE_MASK (size_exp (ht d htidx)));
     c \<leftarrow> slot (ht d htidx) (uint idx);
     let entry = (if no_value (dtype d) then (if c = [] then EntryKey key else EntryNoValue key) else Entry key None);
     h \<leftarrow> set_slot (ht d htidx) (uint idx) (entry # c);
     Some ((htidx, idx, 0), ht_put d htidx (h\<lparr>used := used h + 1\<rparr>)) })"

text \<open>The new entry or, when the key exists, no entry and the existing one.\<close>

definition dictAddRaw :: "dictResizeEnable \<Rightarrow> ('k, 's, 'v) dict \<Rightarrow> 's \<Rightarrow> ((link + link) \<times> ('k, 's, 'v) dict) option" where
  "dictAddRaw can_resize d key = do {
     (r, d) \<leftarrow> dictFindLinkForInsert can_resize d (keyFromStoredKey (dtype d) key);
     case r of Inl l \<Rightarrow> Some (Inl l, d)
     | Inr b \<Rightarrow> do {
         (l, d) \<leftarrow> dictInsertKeyAtLink d (case keyDup (dtype d) of None \<Rightarrow> key | Some f \<Rightarrow> f key) b;
         Some (Inr l, d) } }"

definition dictSetVal :: "('k, 's, 'v) dict \<Rightarrow> link \<Rightarrow> 'v \<Rightarrow> ('k, 's, 'v) dict option" where
  "dictSetVal d l v = do {
     e \<leftarrow> link_get d l;
     case e of Entry k _ \<Rightarrow> link_set d l (Entry k (Some (case valDup (dtype d) of None \<Rightarrow> v | Some f \<Rightarrow> f v)))
     | _ \<Rightarrow> None }"

definition dictAdd :: "dictResizeEnable \<Rightarrow> ('k, 's, 'v) dict \<Rightarrow> 's \<Rightarrow> 'v \<Rightarrow> (bool \<times> ('k, 's, 'v) dict) option" where
  "dictAdd can_resize d key v = do {
     (r, d) \<leftarrow> dictAddRaw can_resize d key;
     case r of Inl _ \<Rightarrow> Some (False, d)
     | Inr l \<Rightarrow> if no_value (dtype d) then Some (True, d) else do { d \<leftarrow> dictSetVal d l v; Some (True, d) } }"

text \<open>The result, the old value (given to the destructor of values) and the dictionary.\<close>

definition dictReplace :: "dictResizeEnable \<Rightarrow> ('k, 's, 'v) dict \<Rightarrow> 's \<Rightarrow> 'v \<Rightarrow> (bool \<times> 'v option \<times> ('k, 's, 'v) dict) option" where
  "dictReplace can_resize d key v = do {
     (r, d) \<leftarrow> dictAddRaw can_resize d key;
     case r of Inr l \<Rightarrow> do { d \<leftarrow> dictSetVal d l v; Some (True, None, d) }
     | Inl l \<Rightarrow> do {
         e \<leftarrow> link_get d l;
         oldval \<leftarrow> dictGetVal e;
         d \<leftarrow> dictSetVal d l v;
         Some (False, Some oldval, d) } }"

definition dictAddOrFind :: "dictResizeEnable \<Rightarrow> ('k, 's, 'v) dict \<Rightarrow> 's \<Rightarrow> (link \<times> ('k, 's, 'v) dict) option" where
  "dictAddOrFind can_resize d key = do {
     (r, d) \<leftarrow> dictAddRaw can_resize d key;
     Some (case r of Inr l \<Rightarrow> l | Inl l \<Rightarrow> l, d) }"

text \<open>The chain without the entry at a position; the entry before it cannot be a bare key.\<close>

definition unlink :: "('s, 'v) chain \<Rightarrow> nat \<Rightarrow> ('s, 'v) chain option" where
  "unlink c p = do {
     guard (p < length c);
     let next = dictGetNext (c ! p) (drop (Suc p) c);
     if p = 0 then Some next
     else do { guard (\<not> entryIsKey (c ! (p - 1))); Some (take p c @ next) } }"

text \<open>The entry removed, which is freed at once by \<open>dictDelete\<close> and later by the caller of \<open>dictUnlink\<close>.\<close>

definition dictGenericDelete :: "dictResizeEnable \<Rightarrow> ('k, 's, 'v) dict \<Rightarrow> 'k \<Rightarrow> (('s, 'v) dictEntry option \<times> ('k, 's, 'v) dict) option" where
  "dictGenericDelete can_resize d key =
     (if dictSize d = 0 then Some (None, d)
      else do {
        let hash = dictGetHash d key;
        let idx = hash AND DICTHT_SIZE_MASK (size_exp (ht0 d));
        d \<leftarrow> dictRehashStepIfNeeded can_resize d idx;
        (idx, r) \<leftarrow> find_tables d key hash idx;
        case r of None \<Rightarrow> Some (None, d)
        | Some (t, i, p) \<Rightarrow> do {
            c \<leftarrow> slot (ht d t) (uint i);
            c' \<leftarrow> unlink c p;
            h \<leftarrow> set_slot (ht d t) (uint i) c';
            d \<leftarrow> dictShrinkIfNeeded' can_resize (ht_put d t (h\<lparr>used := used h - 1\<rparr>));
            Some (Some (c ! p), d) } })"

definition dictDelete :: "dictResizeEnable \<Rightarrow> ('k, 's, 'v) dict \<Rightarrow> 'k \<Rightarrow> (bool \<times> ('k, 's, 'v) dict) option" where
  "dictDelete can_resize d key = do { (r, d) \<leftarrow> dictGenericDelete can_resize d key; Some (r \<noteq> None, d) }"

definition dictUnlink :: "dictResizeEnable \<Rightarrow> ('k, 's, 'v) dict \<Rightarrow> 'k \<Rightarrow> (('s, 'v) dictEntry option \<times> ('k, 's, 'v) dict) option" where
  "dictUnlink can_resize d key = dictGenericDelete can_resize d key"

text \<open>The two phases of an unlinking: the rehashing is paused in between.\<close>

definition dictTwoPhaseUnlinkFind :: "dictResizeEnable \<Rightarrow> ('k, 's, 'v) dict \<Rightarrow> 'k \<Rightarrow> (link option \<times> ('k, 's, 'v) dict) option" where
  "dictTwoPhaseUnlinkFind can_resize d key =
     (if dictSize d = 0 then Some (None, d)
      else do {
        d \<leftarrow> (if dictIsRehashing d then dictRehashStep can_resize d else Some d);
        let h = dictGetHash d key;
        (idx, r) \<leftarrow> find_tables d key h (h AND DICTHT_SIZE_MASK (size_exp (ht0 d)));
        case r of None \<Rightarrow> Some (None, d) | Some l \<Rightarrow> Some (Some l, d\<lparr>pauserehash := pauserehash d + 1\<rparr>) })"

definition dictTwoPhaseUnlinkFree :: "dictResizeEnable \<Rightarrow> ('k, 's, 'v) dict \<Rightarrow> link option \<Rightarrow> (('s, 'v) dictEntry option \<times> ('k, 's, 'v) dict) option" where
  "dictTwoPhaseUnlinkFree can_resize d plink = (case plink of None \<Rightarrow> Some (None, d)
     | Some (t, i, p) \<Rightarrow> do {
         c \<leftarrow> slot (ht d t) (uint i);
         if p = length c then Some (None, d)
         else do {
           c' \<leftarrow> unlink c p;
           h \<leftarrow> set_slot (ht d t) (uint i) c';
           d \<leftarrow> dictShrinkIfNeeded' can_resize (ht_put d t (h\<lparr>used := used h - 1\<rparr>));
           Some (Some (c ! p), d\<lparr>pauserehash := pauserehash d - 1\<rparr>) } })"

text \<open>The entries freed, in order.\<close>

fun dictClear_loop :: "('s, 'v) chain list \<Rightarrow> u64 \<Rightarrow> ('s, 'v) dictEntry list" where
  "dictClear_loop [] u = []"
| "dictClear_loop (c # cs) u = (if u > 0 then c @ dictClear_loop cs (u - of_nat (length c)) else [])"

definition dictClear :: "('k, 's, 'v) dict \<Rightarrow> nat \<Rightarrow> ('s, 'v) dictEntry list \<times> ('k, 's, 'v) dict" where
  "dictClear d htidx =
     (case table (ht d htidx) of None \<Rightarrow> [] | Some tb \<Rightarrow> dictClear_loop tb (used (ht d htidx)), ht_put d htidx dictReset)"

definition dictEmpty :: "('k, 's, 'v) dict \<Rightarrow> ('s, 'v) dictEntry list \<times> ('k, 's, 'v) dict" where
  "dictEmpty d =
     (let (es0, d) = dictClear d 0; (es1, d) = dictClear d 1
      in (es0 @ es1, d\<lparr>rehashidx := -1, pauserehash := 0, pauseAutoResize := 0\<rparr>))"

definition dictRelease :: "('k, 's, 'v) dict \<Rightarrow> ('s, 'v) dictEntry list" where
  "dictRelease d = (let (es0, d) = dictClear d 0; (es1, d) = dictClear d 1 in es0 @ es1)"

section \<open>Scanning\<close>

text \<open>Bits reversed by swapping blocks of 32, 16, \<dots>, 1 bits.\<close>

fun rev_step :: "nat \<Rightarrow> u64 \<times> u64 \<Rightarrow> u64 \<times> u64" where
  "rev_step s (m, v) = (let m = m XOR push_bit s m in (m, (drop_bit s v AND m) OR (push_bit s v AND NOT m)))"

definition dict_rev :: "u64 \<Rightarrow> u64" where "dict_rev v = snd (fold rev_step [32, 16, 8, 4, 2, 1] (NOT 0, v))"

definition next_cursor :: "u64 \<Rightarrow> u64 \<Rightarrow> u64" where "next_cursor m v = dict_rev (dict_rev (v OR NOT m) + 1)"

text \<open>The entries of a bucket on which the callback is called (one that leaves the dictionary alone).\<close>

fun scan_bucket :: "('s, 'v) chain \<Rightarrow> ('s, 'v) chain" where
  "scan_bucket [] = []"
| "scan_bucket (de # next) = de # (if entryIsKey de then [] else scan_bucket next)"

partial_function (option) dictScan_expansions :: "('s, 'v) ht \<Rightarrow> u64 \<Rightarrow> u64 \<Rightarrow> u64 \<Rightarrow> (('s, 'v) dictEntry list \<times> u64) option" where
  "dictScan_expansions h m0 m1 v = do {
     c \<leftarrow> slot h (uint (v AND m1));
     let v = next_cursor m1 v;
     if v AND (m0 XOR m1) \<noteq> 0 then do { (es, v) \<leftarrow> dictScan_expansions h m0 m1 v; Some (scan_bucket c @ es, v) }
     else Some (scan_bucket c, v) }"

definition dictScan :: "('k, 's, 'v) dict \<Rightarrow> u64 \<Rightarrow> (('s, 'v) dictEntry list \<times> u64) option" where
  "dictScan d v =
     (if dictSize d = 0 then Some ([], 0)
      else if \<not> dictIsRehashing d then do {
        let m0 = DICTHT_SIZE_MASK (size_exp (ht0 d));
        c \<leftarrow> slot (ht0 d) (uint (v AND m0));
        Some (scan_bucket c, next_cursor m0 v) }
      else do {
        let (h0, h1) = (if DICTHT_SIZE (size_exp (ht0 d)) > DICTHT_SIZE (size_exp (ht1 d)) then (ht1 d, ht0 d) else (ht0 d, ht1 d));
        let m0 = DICTHT_SIZE_MASK (size_exp h0);
        let m1 = DICTHT_SIZE_MASK (size_exp h1);
        c \<leftarrow> slot h0 (uint (v AND m0));
        (es, v) \<leftarrow> dictScan_expansions h1 m0 m1 v;
        Some (scan_bucket c @ es, v) })"

end
