(* ===== verification/DictRep.thy ===== *)
theory DictRep
  imports Dict "HOL-Library.Multiset"
begin

text \<open>
  The invariant of a dictionary and its contents as a multiset; rehashing and resizing keep both, and searching finds every entry.
\<close>

section \<open>The invariant\<close>

text \<open>The relation on keys that the search loops decide, and what a dictionary type has to promise: it is an equivalence, equal keys
  have equal hashes, and a duplicated key is equal to the original.\<close>

definition keq :: "('k, 's, 'v) dictType \<Rightarrow> 'k \<Rightarrow> 'k \<Rightarrow> bool" where
  "keq ty a b = (a = b \<or> (case keyCompare ty of Some f \<Rightarrow> f a b | None \<Rightarrow> a = b))"

definition dictType_ok :: "('k, 's, 'v) dictType \<Rightarrow> bool" where
  "dictType_ok ty \<longleftrightarrow> (\<forall>a b. keq ty a b \<longrightarrow> keq ty b a \<and> hashFunction ty a = hashFunction ty b) \<and>
     (\<forall>a b c. keq ty a b \<longrightarrow> keq ty b c \<longrightarrow> keq ty a c) \<and>
     (\<forall>f s. keyDup ty = Some f \<longrightarrow> keq ty (keyFromStoredKey ty (f s)) (keyFromStoredKey ty s))"

abbreviation ekey :: "('k, 's, 'v) dictType \<Rightarrow> ('s, 'v) dictEntry \<Rightarrow> 'k" where "ekey ty e \<equiv> keyFromStoredKey ty (dictGetKey e)"

lemma keyMatch_keq [simp]: "keyMatch ty key s = keq ty key (keyFromStoredKey ty s)"
  by (simp add: keyMatch_def keq_def Let_def)

fun isEntry :: "('s, 'v) dictEntry \<Rightarrow> bool" where
  "isEntry (Entry _ _) = True"
| "isEntry _ = False"

lemma isEntry_not_key [simp]: "isEntry e \<Longrightarrow> \<not> entryIsKey e"
  by (cases e) auto

definition chain_ok :: "bool \<Rightarrow> ('s, 'v) chain \<Rightarrow> bool" where
  "chain_ok nv c \<longleftrightarrow> (\<forall>e \<in> set (butlast c). \<not> entryIsKey e) \<and> (\<forall>e \<in> set c. isEntry e \<longleftrightarrow> \<not> nv)"

definition ht_ok :: "('k, 's, 'v) dictType \<Rightarrow> ('s, 'v) ht \<Rightarrow> nat \<Rightarrow> ('s, 'v) chain list \<Rightarrow> bool" where
  "ht_ok ty h e tb \<longleftrightarrow> table h = Some tb \<and> size_exp h = int e \<and> e \<le> 60 \<and> length tb = 2 ^ e \<and> used h = of_nat (length (concat tb)) \<and>
     (\<forall>i < 2 ^ e. chain_ok (no_value ty) (tb ! i) \<and> (\<forall>x \<in> set (tb ! i). unat (hashFunction ty (ekey ty x)) mod 2 ^ e = i))"

definition dict_wf :: "('k, 's, 'v) dict \<Rightarrow> bool" where
  "dict_wf d \<longleftrightarrow>
     (if rehashidx d = -1 then ht1 d = dictReset \<and> (ht0 d = dictReset \<or> (\<exists>e tb. ht_ok (dtype d) (ht0 d) e tb))
      else (\<exists>e0 tb0 e1 tb1. ht_ok (dtype d) (ht0 d) e0 tb0 \<and> ht_ok (dtype d) (ht1 d) e1 tb1 \<and> 0 \<le> rehashidx d \<and> rehashidx d \<le> 2 ^ e0 \<and>
             (\<forall>i < nat (rehashidx d). tb0 ! i = [])))"

definition ht_entries :: "('s, 'v) ht \<Rightarrow> ('s, 'v) dictEntry list" where
  "ht_entries h = (case table h of None \<Rightarrow> [] | Some tb \<Rightarrow> concat tb)"

fun strip :: "('s, 'v) dictEntry \<Rightarrow> 's \<times> 'v option" where
  "strip (Entry s v) = (s, v)"
| "strip (EntryNoValue s) = (s, None)"
| "strip (EntryKey s) = (s, None)"

lemma fst_strip [simp]: "fst (strip e) = dictGetKey e"
  by (cases e) auto

definition ht_cont :: "('s, 'v) ht \<Rightarrow> ('s \<times> 'v option) multiset" where "ht_cont h = mset (map strip (ht_entries h))"

definition cont :: "('k, 's, 'v) dict \<Rightarrow> ('s \<times> 'v option) multiset" where "cont d = ht_cont (ht0 d) + ht_cont (ht1 d)"

section \<open>Sizes, masks and buckets\<close>

lemma size_nat [simp]: "e \<le> 60 \<Longrightarrow> unat (DICTHT_SIZE (int e)) = 2 ^ e"
proof -
  assume "e \<le> 60"
  then have "(2 :: nat) ^ e < 2 ^ 64" by (intro power_strict_increasing) simp_all
  then have "unat (of_nat (2 ^ e) :: u64) = 2 ^ e" by (simp only: unat_of_nat) simp
  then show ?thesis by (simp add: DICTHT_SIZE_def push_bit_eq_mult)
qed

lemma mask_eq: "e \<le> 60 \<Longrightarrow> DICTHT_SIZE_MASK (int e) = mask e"
  by (simp add: DICTHT_SIZE_MASK_def DICTHT_SIZE_def mask_eq_exp_minus_1 push_bit_eq_mult)

lemma unat_idx [simp]: "e \<le> 60 \<Longrightarrow> unat (h AND DICTHT_SIZE_MASK (int e)) = unat h mod 2 ^ e"
  by (simp only: mask_eq take_bit_eq_mask[symmetric] unsigned_take_bit_eq) (simp only: take_bit_eq_mod)

lemma uint_idx [simp]: "e \<le> 60 \<Longrightarrow> uint (h AND DICTHT_SIZE_MASK (int e)) = int (unat h mod 2 ^ e)"
  by (metis unat_idx of_nat_unat)

lemma sint_idx [simp]: "e \<le> 60 \<Longrightarrow> sint (h AND DICTHT_SIZE_MASK (int e)) = int (unat h mod 2 ^ e)"
proof -
  assume e: "e \<le> 60"
  have "(unat h mod 2 ^ e) < 2 ^ e" by simp
  also have "\<dots> \<le> (2 :: nat) ^ 60" using e by (intro power_increasing) simp_all
  finally have "uint (h AND DICTHT_SIZE_MASK (int e)) < 2 ^ 60" using e by simp
  then have "uint (h AND DICTHT_SIZE_MASK (int e)) < 2 ^ 63" by simp
  then show ?thesis using uint_idx[OF e, of h] by (simp only: sint_uint len_of_numeral_defs) (simp add: signed_take_bit_int_eq_self)
qed

lemma idx_less [simp]: "n mod 2 ^ e < (2 :: nat) ^ e" by simp

lemma slot_ok: "ht_ok ty h e tb \<Longrightarrow> i < 2 ^ e \<Longrightarrow> slot h (int i) = Some (tb ! i)"
  by (simp add: slot_def ht_ok_def)

lemma set_slot_ok: "ht_ok ty h e tb \<Longrightarrow> i < 2 ^ e \<Longrightarrow> set_slot h (int i) c = Some (h\<lparr>table := Some (tb[i := c])\<rparr>)"
  by (simp add: set_slot_def ht_ok_def)

lemma mset_concat_update: "i < length tb \<Longrightarrow> mset (concat (tb[i := c])) + mset (tb ! i) = mset (concat tb) + mset c"
proof -
  assume "i < length tb"
  then have "tb = take i tb @ tb ! i # drop (Suc i) tb" "tb[i := c] = take i tb @ c # drop (Suc i) tb" by (simp_all add: id_take_nth_drop upd_conv_take_nth_drop)
  then have "concat tb = concat (take i tb) @ tb ! i @ concat (drop (Suc i) tb)" "concat (tb[i := c]) = concat (take i tb) @ c @ concat (drop (Suc i) tb)"
    by (metis concat.simps(2) concat_append)+
  then show ?thesis by simp
qed

lemma cont_update:
  assumes "table h = Some tb" "i < length tb"
  shows "ht_cont (h\<lparr>table := Some (tb[i := c])\<rparr>) + mset (map strip (tb ! i)) = ht_cont h + mset (map strip c)"
  using arg_cong[OF mset_concat_update[OF assms(2), of c], of "image_mset strip"] assms(1) by (simp add: ht_cont_def ht_entries_def)

lemma length_concat_update: "i < length tb \<Longrightarrow> length (concat (tb[i := c])) + length (tb ! i) = length (concat tb) + length c"
  using arg_cong[OF mset_concat_update, of i tb size c] by simp

text \<open>A bucket replaced by a chain of entries that belong to it.\<close>

lemma ht_ok_update:
  assumes h: "ht_ok ty h e tb" and i: "i < 2 ^ e" and c: "chain_ok (no_value ty) c" "\<forall>x \<in> set c. unat (hashFunction ty (ekey ty x)) mod 2 ^ e = i"
    and u: "u + of_nat (length (tb ! i)) = used h + of_nat (length c)"
  shows "ht_ok ty (h\<lparr>table := Some (tb[i := c]), used := u\<rparr>) e (tb[i := c])"
proof -
  have l: "length tb = 2 ^ e" using h by (simp add: ht_ok_def)
  have "of_nat (length (concat (tb[i := c]))) + of_nat (length (tb ! i)) = used h + of_nat (length c)"
    using arg_cong[OF length_concat_update[of i tb c], of of_nat] h i l by (simp add: ht_ok_def)
  then have "u = of_nat (length (concat (tb[i := c])))" using u by (metis add_right_cancel)
  then show ?thesis using h i c l by (auto simp: ht_ok_def nth_list_update)
qed

section \<open>Rehashing keeps the contents\<close>

lemma ht_okD:
  assumes "ht_ok ty h e tb" shows "table h = Some tb" "size_exp h = int e" "e \<le> 60" "length tb = 2 ^ e" "used h = of_nat (length (concat tb))"
    and "i < 2 ^ e \<Longrightarrow> chain_ok (no_value ty) (tb ! i)" "i < 2 ^ e \<Longrightarrow> x \<in> set (tb ! i) \<Longrightarrow> unat (hashFunction ty (ekey ty x)) mod 2 ^ e = i"
  using assms by (auto simp: ht_ok_def)

lemma strip_plain: "\<not> isEntry e \<Longrightarrow> strip e = (dictGetKey e, None)"
  by (cases e) auto

lemma chain_ok_Cons: "chain_ok nv (e # c) \<longleftrightarrow> (c \<noteq> [] \<longrightarrow> \<not> entryIsKey e) \<and> (isEntry e \<longleftrightarrow> \<not> nv) \<and> chain_ok nv c"
  by (auto simp: chain_ok_def)

lemma chain_ok_Nil [simp]: "chain_ok nv []"
  by (simp add: chain_ok_def)

text \<open>A chain put in front of a bucket.\<close>

lemma push_ok:
  assumes h: "ht_ok ty h e tb" and i: "i < 2 ^ e" and c: "chain_ok (no_value ty) (x # tb ! i)" and x: "unat (hashFunction ty (ekey ty x)) mod 2 ^ e = i"
  defines "h' \<equiv> h\<lparr>table := Some (tb[i := x # tb ! i]), used := used h + 1\<rparr>"
  shows "ht_ok ty h' e (tb[i := x # tb ! i])" "ht_cont h' = ht_cont h + {# strip x #}"
proof -
  note D = ht_okD[OF h]
  show "ht_ok ty h' e (tb[i := x # tb ! i])" unfolding h'_def
    by (rule ht_ok_update[OF h i c]) (use D(7)[OF i] x in \<open>auto simp: add.assoc add.commute\<close>)
  have "ht_cont (h\<lparr>table := Some (tb[i := x # tb ! i])\<rparr>) + mset (map strip (tb ! i)) = (ht_cont h + {# strip x #}) + mset (map strip (tb ! i))"
    using cont_update[of h tb i "x # tb ! i"] D(1,4) i by simp
  then have "ht_cont (h\<lparr>table := Some (tb[i := x # tb ! i])\<rparr>) = ht_cont h + {# strip x #}" by (rule add_right_imp_eq)
  then show "ht_cont h' = ht_cont h + {# strip x #}" by (simp add: h'_def ht_cont_def ht_entries_def)
qed

lemma rehash_entry_ok:
  assumes h1: "ht_ok (dtype d) (ht1 d) e1 tb1" and h0: "size_exp (ht0 d) = int e0" "e0 \<le> 60"
    and x: "unat idx = unat (hashFunction (dtype d) (ekey (dtype d) x)) mod 2 ^ e0" "isEntry x \<longleftrightarrow> \<not> no_value (dtype d)"
  shows "\<exists>t1 tb. rehash_entry d idx x = Some (d\<lparr>ht0 := (ht0 d)\<lparr>used := used (ht0 d) - 1\<rparr>, ht1 := t1\<rparr>) \<and>
    ht_ok (dtype d) t1 e1 tb \<and> ht_cont t1 = ht_cont (ht1 d) + {# strip x #}"
proof -
  let ?ty = "dtype d" let ?i = "unat (hashFunction ?ty (ekey ?ty x)) mod 2 ^ e1"
  let ?h = "if size_exp (ht1 d) > size_exp (ht0 d) then dictGetHash d (ekey ?ty x) AND DICTHT_SIZE_MASK (size_exp (ht1 d)) else idx AND DICTHT_SIZE_MASK (size_exp (ht1 d))"
  note D = ht_okD[OF h1]
  have h: "uint ?h = int ?i"
  proof (cases "e1 > e0")
    case False
    then have "unat idx mod 2 ^ e1 = ?i" unfolding x(1) by (intro mod_mod_cancel le_imp_power_dvd) simp
    then show ?thesis using False D(2,3) h0 by simp
  qed (use D(2,3) h0 in \<open>simp add: dictGetHash_def\<close>)
  let ?b = "tb1 ! ?i"
  define y where "y = (if no_value ?ty then if ?b = [] then EntryKey (dictGetKey x) else if entryIsKey x then EntryNoValue (dictGetKey x) else x else x)"
  have y: "strip y = strip x" "dictGetKey y = dictGetKey x" "isEntry y \<longleftrightarrow> \<not> no_value ?ty" "?b \<noteq> [] \<longrightarrow> \<not> entryIsKey y"
    using x(2) by (auto simp: y_def strip_plain)
  have c: "(if no_value ?ty then if ?b = [] then Some [EntryKey (dictGetKey x)] else if entryIsKey x then Some (EntryNoValue (dictGetKey x) # ?b) else dictSetNext x ?b else dictSetNext x ?b) = Some (y # ?b)"
    using x(2) by (auto simp: y_def dictSetNext_def)
  have ok: "chain_ok (no_value ?ty) (y # ?b)" using y D(6)[of ?i] by (simp add: chain_ok_Cons)
  have s: "slot (ht1 d) (int ?i) = Some ?b" "set_slot (ht1 d) (int ?i) (y # ?b) = Some ((ht1 d)\<lparr>table := Some (tb1[?i := y # ?b])\<rparr>)"
    by (rule slot_ok[OF h1], simp, rule set_slot_ok[OF h1], simp)
  let ?t = "(ht1 d)\<lparr>table := Some (tb1[?i := y # ?b]), used := used (ht1 d) + 1\<rparr>"
  have "rehash_entry d idx x = Some (d\<lparr>ht0 := (ht0 d)\<lparr>used := used (ht0 d) - 1\<rparr>, ht1 := ?t\<rparr>)"
    unfolding rehash_entry_def Let_def h s(1) bind.simps c s(2) by simp
  moreover have "ht_ok ?ty ?t e1 (tb1[?i := y # ?b])" "ht_cont ?t = ht_cont (ht1 d) + {# strip x #}"
    using push_ok[OF h1 _ ok] y(1,2) by simp_all
  ultimately show ?thesis by blast
qed

lemma rehash_chain_ok:
  assumes "ht_ok (dtype d) (ht1 d) e1 tb1" "size_exp (ht0 d) = int e0" "e0 \<le> 60" "chain_ok (no_value (dtype d)) c"
    and "\<forall>x \<in> set c. unat idx = unat (hashFunction (dtype d) (ekey (dtype d) x)) mod 2 ^ e0"
  shows "\<exists>t1 tb. rehash_chain d idx c = Some (d\<lparr>ht0 := (ht0 d)\<lparr>used := used (ht0 d) - of_nat (length c)\<rparr>, ht1 := t1\<rparr>) \<and>
    ht_ok (dtype d) t1 e1 tb \<and> ht_cont t1 = ht_cont (ht1 d) + mset (map strip c)"
  using assms
proof (induction c arbitrary: d tb1)
  case (Cons x c)
  obtain t tb where r: "rehash_entry d idx x = Some (d\<lparr>ht0 := (ht0 d)\<lparr>used := used (ht0 d) - 1\<rparr>, ht1 := t\<rparr>)"
    and t: "ht_ok (dtype d) t e1 tb" "ht_cont t = ht_cont (ht1 d) + {# strip x #}"
    using rehash_entry_ok[OF Cons.prems(1-3), of idx x] Cons.prems(4,5) by (auto simp: chain_ok_Cons)
  let ?d = "d\<lparr>ht0 := (ht0 d)\<lparr>used := used (ht0 d) - 1\<rparr>, ht1 := t\<rparr>"
  obtain t1 tb' where i: "rehash_chain ?d idx c = Some (?d\<lparr>ht0 := (ht0 ?d)\<lparr>used := used (ht0 ?d) - of_nat (length c)\<rparr>, ht1 := t1\<rparr>)"
    "ht_ok (dtype ?d) t1 e1 tb'" "ht_cont t1 = ht_cont (ht1 ?d) + mset (map strip c)"
    using Cons.IH[of ?d tb] Cons.prems t(1) by (auto simp: chain_ok_Cons)
  have "dictGetNext x c = c" using Cons.prems(4) by (cases c) (auto simp: dictGetNext_def chain_ok_Cons)
  then show ?case using r i t(2) by (auto simp: algebra_simps)
next
  case Nil
  then show ?case by (intro exI[of _ "ht1 d"] exI[of _ tb1]) simp
qed

lemma clear_slot_ok:
  assumes h: "ht_ok ty h e tb" and i: "i < 2 ^ e"
  defines "h' \<equiv> h\<lparr>table := Some (tb[i := []]), used := used h - of_nat (length (tb ! i))\<rparr>"
  shows "ht_ok ty h' e (tb[i := []])" "ht_cont h' + mset (map strip (tb ! i)) = ht_cont h"
proof -
  show "ht_ok ty h' e (tb[i := []])" unfolding h'_def by (rule ht_ok_update[OF h i]) simp_all
  show "ht_cont h' + mset (map strip (tb ! i)) = ht_cont h"
    using cont_update[of h tb i "[]"] ht_okD[OF h] i by (simp add: h'_def ht_cont_def ht_entries_def)
qed

lemma nth_clear: "tb ! i = [] \<Longrightarrow> tb[j := []] ! i = []"
  by (metis list_update_beyond not_le nth_list_update_eq nth_list_update_neq)

lemma int_pow_less: "i < 2 ^ e \<Longrightarrow> int i < 2 ^ e"
  by (metis of_nat_less_iff of_nat_numeral of_nat_power)

text \<open>The state between two steps of the rehashing.\<close>

definition rehashing :: "('k, 's, 'v) dict \<Rightarrow> nat \<Rightarrow> nat \<Rightarrow> ('s, 'v) chain list \<Rightarrow> bool" where
  "rehashing d e0 e1 tb0 \<longleftrightarrow> ht_ok (dtype d) (ht0 d) e0 tb0 \<and> (\<exists>tb1. ht_ok (dtype d) (ht1 d) e1 tb1) \<and> 0 \<le> rehashidx d \<and> rehashidx d \<le> 2 ^ e0 \<and>
     (\<forall>i < nat (rehashidx d). tb0 ! i = [])"

lemma wf_rehashing: "rehashidx d \<noteq> -1 \<Longrightarrow> dict_wf d \<longleftrightarrow> (\<exists>e0 e1 tb0. rehashing d e0 e1 tb0)"
  by (auto simp: dict_wf_def rehashing_def)

lemma rehashing_exps: "rehashing d e0 e1 tb \<Longrightarrow> size_exp (ht0 d) = int e0 \<and> size_exp (ht1 d) = int e1 \<and> dictIsRehashing d"
  by (auto simp: rehashing_def dictIsRehashing_def ht_ok_def)

lemma rehashing_wf: "rehashing d e0 e1 tb0 \<Longrightarrow> dict_wf d"
  using wf_rehashing[of d] by (auto simp: rehashing_def)

text \<open>What every step keeps: the type, the pauses, the contents, and that there is a table.\<close>

definition same :: "('k, 's, 'v) dict \<Rightarrow> ('k, 's, 'v) dict \<Rightarrow> bool" where
  "same d d' \<longleftrightarrow> dtype d' = dtype d \<and> pauserehash d' = pauserehash d \<and> pauseAutoResize d' = pauseAutoResize d \<and> cont d' = cont d \<and>
     (table (ht0 d) \<noteq> None \<longrightarrow> table (ht0 d') \<noteq> None)"

lemma same_refl [simp]: "same d d" by (simp add: same_def)

lemma same_trans [trans]: "same a b \<Longrightarrow> same b c \<Longrightarrow> same a c" by (simp add: same_def)

lemma bucket_rehash_ok:
  assumes r: "rehashing d e0 e1 tb0" and i: "unat idx < 2 ^ e0"
  shows "\<exists>d'. rehashEntriesInBucketAtIndex d idx = Some d' \<and> rehashing d' e0 e1 (tb0[unat idx := []]) \<and> same d d' \<and> rehashidx d' = rehashidx d"
proof -
  let ?c = "tb0 ! unat idx"
  obtain tb1 where h0: "ht_ok (dtype d) (ht0 d) e0 tb0" and h1: "ht_ok (dtype d) (ht1 d) e1 tb1" using r by (auto simp: rehashing_def)
  note D = ht_okD[OF h0]
  obtain t1 tb where c: "rehash_chain d idx ?c = Some (d\<lparr>ht0 := (ht0 d)\<lparr>used := used (ht0 d) - of_nat (length ?c)\<rparr>, ht1 := t1\<rparr>)"
    and t1: "ht_ok (dtype d) t1 e1 tb" "ht_cont t1 = ht_cont (ht1 d) + mset (map strip ?c)"
    using rehash_chain_ok[OF h1 D(2,3) D(6)[OF i], of idx] D(7)[OF i] by auto
  let ?h = "(ht0 d)\<lparr>table := Some (tb0[unat idx := []]), used := used (ht0 d) - of_nat (length ?c)\<rparr>"
  let ?d = "d\<lparr>ht0 := ?h, ht1 := t1\<rparr>"
  have u: "uint idx = int (unat idx)" by simp
  have "slot (ht0 d) (uint idx) = Some ?c" unfolding u by (rule slot_ok[OF h0 i])
  moreover have "set_slot ((ht0 d)\<lparr>used := used (ht0 d) - of_nat (length ?c)\<rparr>) (uint idx) [] = Some ?h"
    unfolding u using D(1,4) i by (simp add: set_slot_def del: of_nat_unat)
  ultimately have "rehashEntriesInBucketAtIndex d idx = Some ?d" by (simp add: rehashEntriesInBucketAtIndex_def c)
  moreover note z = clear_slot_ok[OF h0 i]
  have "cont ?d = cont d" unfolding cont_def using t1(2) z(2) by (simp add: ac_simps)
  moreover have "rehashing ?d e0 e1 (tb0[unat idx := []])" using r z(1) t1(1) by (auto simp: rehashing_def nth_clear)
  ultimately show ?thesis by (auto simp: same_def)
qed

lemma nonempty_bucket:
  assumes "rehashing d e0 e1 tb0" "used (ht0 d) \<noteq> 0" shows "\<exists>i < 2 ^ e0. rehashidx d \<le> int i \<and> tb0 ! i \<noteq> []"
proof (rule ccontr)
  assume n: "\<not> ?thesis"
  have h: "ht_ok (dtype d) (ht0 d) e0 tb0" "\<forall>i < nat (rehashidx d). tb0 ! i = []" using assms(1) unfolding rehashing_def by blast+
  have "tb0 ! i = []" if "i < 2 ^ e0" for i
  proof (cases "i < nat (rehashidx d)")
    case False
    then have "rehashidx d \<le> int i" by linarith
    then show ?thesis using n that by blast
  qed (use h(2) in blast)
  then have "\<forall>c \<in> set tb0. c = []" using ht_okD(4)[OF h(1)] by (simp add: all_set_conv_all_nth)
  then have e: "concat tb0 = []" by simp
  show False using ht_okD(5)[OF h(1)] assms(2) unfolding e by simp
qed

definition skipped :: "('k, 's, 'v) dict \<Rightarrow> nat \<Rightarrow> nat \<Rightarrow> ('s, 'v) chain list \<Rightarrow> ('k, 's, 'v) dict + ('k, 's, 'v) dict \<times> int \<Rightarrow> bool" where
  "skipped d e0 e1 tb0 r \<longleftrightarrow> (case r of
       Inl d' \<Rightarrow> rehashing d' e0 e1 tb0 \<and> same d d' \<and> rehashidx d < rehashidx d'
     | Inr (d', ev) \<Rightarrow> rehashing d' e0 e1 tb0 \<and> same d d' \<and> rehashidx d \<le> rehashidx d' \<and> used (ht0 d') \<noteq> 0 \<and> rehashidx d' < 2 ^ e0 \<and>
         0 < ev \<and> ev < 2 ^ 31)"

lemma skip_ok:
  "rehashing d e0 e1 tb0 \<Longrightarrow> used (ht0 d) \<noteq> 0 \<Longrightarrow> 0 < ev \<Longrightarrow> ev < 2 ^ 31 \<Longrightarrow> \<exists>r. dictRehash_skip d ev = Some r \<and> skipped d e0 e1 tb0 r"
proof (induction d ev rule: dictRehash_skip.induct)
  case (1 d ev)
  obtain i where i: "i < 2 ^ e0" "rehashidx d \<le> int i" "tb0 ! i \<noteq> []" using nonempty_bucket[OF 1(2,3)] by blast
  have r: "0 \<le> rehashidx d" and h: "ht_ok (dtype d) (ht0 d) e0 tb0" and z: "\<forall>i < nat (rehashidx d). tb0 ! i = []" using 1(2) by (auto simp: rehashing_def)
  let ?j = "nat (rehashidx d)"
  have "rehashidx d < 2 ^ e0" using int_pow_less[OF i(1)] i(2) by linarith
  then have j: "rehashidx d = int ?j" "?j < 2 ^ e0" using r by (simp_all add: nat_less_iff)
  have s: "slot (ht0 d) (rehashidx d) = Some (tb0 ! ?j)" using slot_ok[OF h j(2)] j(1) by simp
  show ?case
  proof (cases "tb0 ! ?j = []")
    case True
    let ?d = "d\<lparr>rehashidx := rehashidx d + 1\<rparr>"
    have "nat (rehashidx d + 1) = Suc ?j" using r by simp
    then have d: "rehashing ?d e0 e1 tb0" using 1(2) True z \<open>rehashidx d < 2 ^ e0\<close> by (auto simp: rehashing_def less_Suc_eq)
    have ci: "c_int (ev - 1) = Some (ev - 1)" using 1(4,5) by (intro c_int_Some) auto
    have e: "dictRehash_skip d ev = (if ev - 1 = 0 then Some (Inl ?d) else dictRehash_skip ?d (ev - 1))"
      using s True ci by (subst dictRehash_skip.simps) (simp add: Let_def)
    show ?thesis
    proof (cases "ev - 1 = 0")
      case True
      then show ?thesis using e d by (auto simp: skipped_def same_def cont_def)
    next
      case False
      obtain r' where r': "dictRehash_skip ?d (ev - 1) = Some r'" "skipped ?d e0 e1 tb0 r'"
        using 1(1)[OF s _ refl ci False] \<open>tb0 ! ?j = []\<close> d 1(3-5) False by auto
      then have "skipped d e0 e1 tb0 r'" by (auto simp: skipped_def same_def cont_def split: sum.splits)
      then show ?thesis using e r' False by simp
    qed
  next
    case False
    have "rehashidx d < 2 ^ e0" using j by (metis of_nat_less_iff of_nat_numeral of_nat_power)
    then show ?thesis using s False 1(2-5) by (subst dictRehash_skip.simps) (auto simp: skipped_def)
  qed
qed

lemma size_gt: "0 \<le> i \<Longrightarrow> i < 2 ^ e \<Longrightarrow> e \<le> 60 \<Longrightarrow> DICTHT_SIZE (int e) > word_of_int i \<and> unat (word_of_int i :: u64) = nat i"
proof -
  assume i: "0 \<le> i" "i < 2 ^ e" "e \<le> 60"
  have "i < 2 ^ 60" using i by (meson less_le_trans one_le_numeral power_increasing)
  then have "unat (word_of_int i :: u64) = nat i" using i(1) by (simp add: unat_eq_nat_uint uint_word_of_int_eq take_bit_int_eq_self)
  moreover have "nat i < 2 ^ e" using i by (simp add: nat_less_iff)
  ultimately show ?thesis using i(3) by (simp add: word_less_nat_alt)
qed

lemma rehash_loop_unfold:
  "dictRehash_loop d 0 ev = Some (False, d)"
  "int n < 2 ^ 31 \<Longrightarrow> dictRehash_loop d (int (Suc n)) ev =
     (if used (ht0 d) = 0 then Some (False, d)
      else do {
        guard (DICTHT_SIZE (size_exp (ht0 d)) > word_of_int (rehashidx d));
        r \<leftarrow> dictRehash_skip d ev;
        case r of Inl d \<Rightarrow> Some (True, d)
        | Inr (d, ev) \<Rightarrow> do {
            d \<leftarrow> rehashEntriesInBucketAtIndex d (word_of_int (rehashidx d));
            dictRehash_loop (d\<lparr>rehashidx := rehashidx d + 1\<rparr>) (int n) ev } })"
proof -
  show "dictRehash_loop d 0 ev = Some (False, d)" by (subst dictRehash_loop.simps) simp
  assume "int n < 2 ^ 31"
  then have "c_int (int (Suc n) - 1) = Some (int n)" by (simp add: c_int_def)
  then show "dictRehash_loop d (int (Suc n)) ev =
     (if used (ht0 d) = 0 then Some (False, d)
      else do {
        guard (DICTHT_SIZE (size_exp (ht0 d)) > word_of_int (rehashidx d));
        r \<leftarrow> dictRehash_skip d ev;
        case r of Inl d \<Rightarrow> Some (True, d)
        | Inr (d, ev) \<Rightarrow> do {
            d \<leftarrow> rehashEntriesInBucketAtIndex d (word_of_int (rehashidx d));
            dictRehash_loop (d\<lparr>rehashidx := rehashidx d + 1\<rparr>) (int n) ev } })"
    by (subst dictRehash_loop.simps) (simp del: of_nat_Suc)
qed

lemma rehash_loop_ok:
  assumes "rehashing d e0 e1 tb0" "int n < 2 ^ 31" "n = 0 \<or> 0 < ev \<and> ev < 2 ^ 31"
  shows "\<exists>early d' tb. dictRehash_loop d (int n) ev = Some (early, d') \<and> rehashing d' e0 e1 tb \<and> same d d' \<and> rehashidx d \<le> rehashidx d' \<and>
    (early \<or> 0 < n \<and> used (ht0 d) \<noteq> 0 \<longrightarrow> rehashidx d < rehashidx d')"
  using assms
proof (induction n arbitrary: d tb0 ev)
  case (Suc n)
  show ?case
  proof (cases "used (ht0 d) = 0")
    case False
    have ev: "0 < ev" "ev < 2 ^ 31" and n: "int n < 2 ^ 31" using Suc.prems(2,3) by auto
    obtain i where i: "i < 2 ^ e0" "rehashidx d \<le> int i" using nonempty_bucket[OF Suc.prems(1) False] by blast
    have D: "0 \<le> rehashidx d" "size_exp (ht0 d) = int e0" "e0 \<le> 60" using Suc.prems(1) by (auto simp: rehashing_def dest: ht_okD)
    have "rehashidx d < 2 ^ e0" using i by (metis le_less_trans of_nat_less_iff of_nat_numeral of_nat_power)
    then have g: "DICTHT_SIZE (size_exp (ht0 d)) > word_of_int (rehashidx d)" using size_gt[OF D(1) _ D(3)] D(2) by simp
    obtain r where r: "dictRehash_skip d ev = Some r" "skipped d e0 e1 tb0 r" using skip_ok[OF Suc.prems(1) False ev] by blast
    show ?thesis
    proof (cases r)
      case (Inl d')
      then show ?thesis using r g False by (auto simp: skipped_def rehash_loop_unfold(2)[OF n] simp del: of_nat_Suc)
    next
      case (Inr p)
      obtain d1 ev' where p: "p = (d1, ev')" by (cases p)
      have d1: "rehashing d1 e0 e1 tb0" "same d d1" "rehashidx d \<le> rehashidx d1" "rehashidx d1 < 2 ^ e0"
        and ev': "0 < ev'" "ev' < 2 ^ 31" using r(2) Inr p by (auto simp: skipped_def)
      have u: "unat (word_of_int (rehashidx d1) :: u64) = nat (rehashidx d1)" "0 \<le> rehashidx d1" using size_gt[OF _ d1(4) D(3)] d1(1) by (auto simp: rehashing_def)
      obtain d2 where d2: "rehashEntriesInBucketAtIndex d1 (word_of_int (rehashidx d1)) = Some d2" "rehashing d2 e0 e1 (tb0[nat (rehashidx d1) := []])" "same d1 d2" "rehashidx d2 = rehashidx d1"
        using bucket_rehash_ok[OF d1(1), of "word_of_int (rehashidx d1)"] u d1(4) by (auto simp: nat_less_iff)
      let ?d = "d2\<lparr>rehashidx := rehashidx d2 + 1\<rparr>"
      have "nat (rehashidx d1 + 1) = Suc (nat (rehashidx d1))" "nat (rehashidx d1) < length tb0" using u(2) d1(1,4) by (auto simp: rehashing_def nat_less_iff dest: ht_okD)
      then have "rehashing ?d e0 e1 (tb0[nat (rehashidx d1) := []])" using d2(2,4) d1(4) by (auto simp: rehashing_def less_Suc_eq)
      then obtain early d' tb where l: "dictRehash_loop ?d (int n) ev' = Some (early, d')" "rehashing d' e0 e1 tb" "same ?d d'" "rehashidx ?d \<le> rehashidx d'"
        using Suc.IH n ev' by blast
      have "same d2 ?d" by (simp add: same_def cont_def)
      then have "same d d'" using d1(2) d2(3) l(3) by (meson same_trans)
      then show ?thesis using l d1(3) d2 r(1) g False Inr p by (auto simp: rehash_loop_unfold(2)[OF n] simp del: of_nat_Suc)
    qed
  next
    case True
    have n: "int n < 2 ^ 31" using Suc.prems(2) by simp
    show ?thesis using True Suc.prems(1) by (simp add: rehash_loop_unfold(2)[OF n] del: of_nat_Suc) (auto simp: same_def cont_def)
  qed
qed (auto simp: rehash_loop_unfold)

lemma small_used:
  assumes "ht_ok ty h e tb" "size (ht_cont h) < 2 ^ 64" shows "unat (used h) = size (ht_cont h)" "used h = 0 \<longleftrightarrow> ht_cont h = {#}"
proof -
  have l: "size (ht_cont h) = length (concat tb)" using ht_okD(1)[OF assms(1)] by (simp add: ht_cont_def ht_entries_def)
  then show u: "unat (used h) = size (ht_cont h)" using ht_okD(5)[OF assms(1)] assms(2) by (simp add: unat_of_nat)
  show "used h = 0 \<longleftrightarrow> ht_cont h = {#}" using u by (metis size_eq_0_iff_empty unat_eq_zero)
qed

lemma reset_cont [simp]: "ht_cont dictReset = {#}" "used dictReset = 0"
  by (simp_all add: ht_cont_def ht_entries_def dictReset_def)

lemma size_cont: "size (cont d) = size (ht_cont (ht0 d)) + size (ht_cont (ht1 d))"
  by (simp add: cont_def)

lemma check_completed_ok:
  assumes r: "rehashing d e0 e1 tb0" and b: "size (cont d) < 2 ^ 64" and c: "dictCheckRehashingCompleted d = (ok, d')"
  shows "dict_wf d'" "same d d'" "ok \<longleftrightarrow> used (ht0 d) = 0" "\<not> ok \<Longrightarrow> d' = d"
proof -
  obtain tb1 where h: "ht_ok (dtype d) (ht0 d) e0 tb0" "ht_ok (dtype d) (ht1 d) e1 tb1" using r by (auto simp: rehashing_def)
  have z: "used (ht0 d) = 0 \<longleftrightarrow> ht_cont (ht0 d) = {#}" using small_used[OF h(1)] b size_cont[of d] by linarith
  show "ok \<longleftrightarrow> used (ht0 d) = 0" "\<not> ok \<Longrightarrow> d' = d" using c by (auto simp: dictCheckRehashingCompleted_def split: if_splits)
  show "dict_wf d'" using c rehashing_wf[OF r] h(2) by (auto simp: dictCheckRehashingCompleted_def dict_wf_def split: if_splits)
  show "same d d'" using c z ht_okD(1)[OF h(2)] by (auto simp: dictCheckRehashingCompleted_def same_def cont_def split: if_splits)
qed

text \<open>The number of buckets that are still to be visited.\<close>

definition rehash_gap :: "('k, 's, 'v) dict \<Rightarrow> nat" where "rehash_gap d = nat (2 ^ nat (size_exp (ht0 d)) - rehashidx d)"

lemma rehash_gap: "rehashing d e0 e1 tb0 \<Longrightarrow> rehash_gap d = nat (2 ^ e0 - rehashidx d)"
  by (auto simp: rehash_gap_def rehashing_def dest: ht_okD)

lemma dictRehash_ok:
  assumes w: "dict_wf d" and b: "size (cont d) < 2 ^ 64" and n: "0 \<le> n" "n \<le> 214748364"
  shows "\<exists>more d'. dictRehash cr d n = Some (more, d') \<and> dict_wf d' \<and> same d d' \<and> (0 < n \<longrightarrow> more \<longrightarrow> rehash_gap d' < rehash_gap d) \<and>
    (\<not> more \<longrightarrow> \<not> rehash_avoided cr d \<longrightarrow> \<not> dictIsRehashing d') \<and> (more \<longrightarrow> \<not> rehash_avoided cr d') \<and>
    (dictIsRehashing d' \<longrightarrow> dictIsRehashing d \<and> size_exp (ht0 d') = size_exp (ht0 d))"
proof (cases "rehash_avoided cr d")
  case True
  have ci: "c_int (n * 10) = Some (n * 10)" using n by (intro c_int_Some) auto
  from True show ?thesis using w ci by (auto simp: dictRehash_def)
next
  case False
  then have "rehashidx d \<noteq> -1" by (auto simp: rehash_avoided_def dictIsRehashing_def Let_def)
  then obtain e0 e1 tb0 where r: "rehashing d e0 e1 tb0" using w wf_rehashing by blast
  have ci: "c_int (n * 10) = Some (n * 10)" using n by (intro c_int_Some) auto
  have k: "int (nat n) < 2 ^ 31" "nat n = 0 \<or> 0 < n * 10 \<and> n * 10 < 2 ^ 31" "int (nat n) = n" using n by auto
  obtain early d1 tb where l: "dictRehash_loop d n (n * 10) = Some (early, d1)" "rehashing d1 e0 e1 tb" "same d d1" "rehashidx d \<le> rehashidx d1"
      "early \<or> 0 < n \<and> used (ht0 d) \<noteq> 0 \<longrightarrow> rehashidx d < rehashidx d1"
    using rehash_loop_ok[OF r k(1,2)] k(3) by auto
  have gap: "rehashidx d < rehashidx d1 \<Longrightarrow> rehash_gap d1 < rehash_gap d"
    using rehash_gap[OF r] rehash_gap[OF l(2)] l(2) by (simp add: rehashing_def)
  have x: "size_exp (ht0 d1) = size_exp (ht0 d)" "size_exp (ht1 d1) = size_exp (ht1 d)" "dictIsRehashing d1" "dictIsRehashing d"
    using rehashing_exps[OF r] rehashing_exps[OF l(2)] by simp_all
  then have a: "\<not> rehash_avoided cr d1" using False by (simp add: rehash_avoided_def)
  show ?thesis
  proof (cases early)
    case True
    then show ?thesis using l gap False a x rehashing_wf[OF l(2)] ci by (auto simp: dictRehash_def)
  next
    case e: False
    obtain ok d2 where c: "dictCheckRehashingCompleted d1 = (ok, d2)" by fastforce
    have b1: "size (cont d1) < 2 ^ 64" using l(3) b by (simp add: same_def)
    note C = check_completed_ok[OF l(2) b1 c]
    have "used (ht0 d) = 0 \<Longrightarrow> d1 = d" using l(1) by (subst (asm) dictRehash_loop.simps) (auto simp: c_int_def split: if_splits)
    then have "0 < n \<Longrightarrow> \<not> ok \<Longrightarrow> rehash_gap d2 < rehash_gap d" using C(3,4) l(5) gap by auto
    moreover have "ok \<Longrightarrow> \<not> dictIsRehashing d2" using c by (auto simp: dictCheckRehashingCompleted_def dictIsRehashing_def split: if_splits)
    moreover have "\<not> ok \<Longrightarrow> d2 = d1" by (rule C(4))
    ultimately show ?thesis using l(1) False e c C(1) a x same_trans[OF l(3) C(2)] ci by (cases ok) (auto simp: dictRehash_def)
  qed
qed

section \<open>Table sizes\<close>

lemma nth_down: "i < 64 \<Longrightarrow> List.rev [0..<64] ! i = 63 - i"
  using rev_nth[of i "[0..<64]"] by simp

lemma takeWhile_index: "i < length (takeWhile P xs) \<Longrightarrow> P (xs ! i)"
  by (metis nth_mem set_takeWhileD takeWhile_nth)

lemma clzl_bits:
  assumes "x \<noteq> 0" shows "clzl x < 64" "bit x (63 - clzl x)" "63 - clzl x < i \<Longrightarrow> \<not> bit x i"
proof -
  have "\<exists>j. bit x j" using assms bit_eqI[of x 0] by auto
  then obtain j where j: "bit x j" "j < 64" using bit_imp_le_length[of x] by auto
  show c: "clzl x < 64"
  proof (rule ccontr)
    assume "\<not> clzl x < 64"
    then have "63 - j < length (takeWhile (\<lambda>i. \<not> bit x i) (List.rev [0..<64]))" unfolding clzl_def by linarith
    then have "\<not> bit x (List.rev [0..<64] ! (63 - j))" by (rule takeWhile_index)
    then show False using j nth_down[of "63 - j"] by simp
  qed
  have "\<not> \<not> bit x (List.rev [0..<64] ! clzl x)" using c unfolding clzl_def by (intro nth_length_takeWhile) simp
  then show "bit x (63 - clzl x)" using nth_down[OF c] by simp
  show "\<not> bit x i" if "63 - clzl x < i"
  proof (cases "i < 64")
    case True
    then have "63 - i < length (takeWhile (\<lambda>i. \<not> bit x i) (List.rev [0..<64]))" using that c unfolding clzl_def by linarith
    then have "\<not> bit x (List.rev [0..<64] ! (63 - i))" by (rule takeWhile_index)
    then show ?thesis using True nth_down[of "63 - i"] by simp
  qed (use bit_imp_le_length[of x i] in auto)
qed

lemma clzl_bound:
  assumes "x \<noteq> 0" shows "2 ^ (63 - clzl x) \<le> unat x" "unat x < 2 ^ (64 - clzl x)"
proof -
  let ?k = "63 - clzl x"
  have "take_bit (Suc ?k) x = x" using clzl_bits(3)[OF assms] by (intro bit_eqI) (auto simp: bit_take_bit_iff less_Suc_eq_le not_le[symmetric])
  then have "take_bit (Suc ?k) (unat x) = unat x" by (metis unsigned_take_bit_eq)
  then have "unat x < 2 ^ Suc ?k" by (metis take_bit_nat_less_exp)
  moreover have "Suc ?k = 64 - clzl x" using clzl_bits(1)[OF assms] by simp
  ultimately show "unat x < 2 ^ (64 - clzl x)" by metis
  show "2 ^ ?k \<le> unat x"
  proof (rule ccontr)
    assume "\<not> 2 ^ ?k \<le> unat x"
    then have "take_bit ?k (unat x) = unat x" by (simp add: take_bit_nat_eq_self_iff)
    then have "take_bit ?k x = x" by (metis unsigned_take_bit_eq unsigned_word_eqI)
    then show False using clzl_bits(2)[OF assms] by (metis bit_take_bit_iff less_irrefl)
  qed
qed

lemma minus_one: "4 < unat sz \<Longrightarrow> unat (sz - 1) = unat sz - 1 \<and> sz - 1 \<noteq> 0" for sz :: u64
proof -
  assume s: "4 < unat sz"
  then have "sz \<noteq> 0" by auto
  then have u: "unat (sz - 1) = unat sz - 1" using unat_minus_one by blast
  have "unat (sz - 1) \<noteq> 0" using u s by linarith
  then show ?thesis using u by (metis unat_0)
qed

lemma dictNextExp_range: "\<exists>e. dictNextExp sz = int e \<and> 2 \<le> e \<and> e \<le> 63"
proof -
  have i: "DICT_HT_INITIAL_SIZE = 4" "DICT_HT_INITIAL_EXP = 2" by (simp_all add: DICT_HT_INITIAL_SIZE_def DICT_HT_INITIAL_EXP_def)
  consider "sz \<le> 4" | "\<not> sz \<le> 4" "sz \<ge> 0x7fffffffffffffff" | "\<not> sz \<le> 4" "\<not> sz \<ge> 0x7fffffffffffffff" by blast
  then show ?thesis
  proof cases
    case 3
    have s: "4 < unat sz" "unat sz < 0x7fffffffffffffff" using 3 by (auto simp: word_le_nat_alt)
    then have u: "unat (sz - 1) = unat sz - 1" "sz - 1 \<noteq> 0" using minus_one by blast+
    note b = clzl_bound[OF u(2)] clzl_bits(1)[OF u(2)]
    have "clzl (sz - 1) \<noteq> 0" using b(1) u(1) s by (intro notI) simp
    moreover have "64 - clzl (sz - 1) \<ge> 2"
    proof (rule ccontr)
      assume "\<not> 64 - clzl (sz - 1) \<ge> 2"
      then have "64 - clzl (sz - 1) \<le> 1" by simp
      then have "(2 :: nat) ^ (64 - clzl (sz - 1)) \<le> 2 ^ 1" by (intro power_increasing) simp_all
      then have "(2 :: nat) ^ (64 - clzl (sz - 1)) \<le> 2" by simp
      then show False using b(2) u(1) s by linarith
    qed
    ultimately show ?thesis using 3 b(3) by (intro exI[of _ "64 - clzl (sz - 1)"]) (simp add: dictNextExp_def i of_nat_diff)
  qed (simp_all add: dictNextExp_def i)
qed

text \<open>\<open>_dictNextExp\<close> gives the least power of two, from 4 on, that is not below the requested size (for the sizes a table can
  have, up to \<open>2 ^ 63\<close>), so that growing by one element over a full table doubles it.\<close>

theorem dict_next_exp_least:
  assumes "unat sz \<le> 2 ^ 62"
  shows "\<exists>e. dictNextExp sz = int e \<and> 2 \<le> e \<and> unat sz \<le> 2 ^ e \<and> (\<forall>e'. 2 \<le> e' \<longrightarrow> unat sz \<le> 2 ^ e' \<longrightarrow> e \<le> e')"
proof (cases "sz \<le> 4")
  case True
  then show ?thesis by (simp add: dictNextExp_def DICT_HT_INITIAL_SIZE_def DICT_HT_INITIAL_EXP_def word_le_nat_alt)
next
  case False
  then have s: "4 < unat sz" by (auto simp: word_le_nat_alt)
  then have u: "unat (sz - 1) = unat sz - 1" "sz - 1 \<noteq> 0" using minus_one by blast+
  note b = clzl_bound[OF u(2)] clzl_bits(1)[OF u(2)]
  have "\<not> sz \<ge> 0x7fffffffffffffff" using assms by (simp add: word_le_nat_alt)
  then have e: "dictNextExp sz = int (64 - clzl (sz - 1))" using False b(3) by (simp add: dictNextExp_def DICT_HT_INITIAL_SIZE_def DICT_HT_INITIAL_EXP_def of_nat_diff)
  obtain e where r: "dictNextExp sz = int e" "2 \<le> e" using dictNextExp_range by blast
  have ee: "e = 64 - clzl (sz - 1)" using e r by simp
  have "unat sz \<le> 2 ^ e" using b(2) u(1) s unfolding ee by linarith
  moreover have "e \<le> e'" if "unat sz \<le> 2 ^ e'" for e'
  proof (rule ccontr)
    assume "\<not> e \<le> e'"
    then have "(2 :: nat) ^ e' \<le> 2 ^ (63 - clzl (sz - 1))" using ee by (intro power_increasing) simp_all
    then show False using b(1) u(1) s that by linarith
  qed
  ultimately show ?thesis using r by blast
qed

theorem dict_next_exp_least_witness: "\<exists>e. dictNextExp 17 = int e \<and> 17 \<le> (2 :: nat) ^ e \<and> (\<forall>e'. 2 \<le> e' \<longrightarrow> 17 \<le> (2 :: nat) ^ e' \<longrightarrow> e \<le> e')"
  using dict_next_exp_least[of 17] by auto

section \<open>Resizing keeps the contents\<close>

definition room :: "('k, 's, 'v) dict \<Rightarrow> bool" where "room d \<longleftrightarrow> dict_wf d \<and> size (cont d) < 2 ^ 64"

definition kept :: "('k, 's, 'v) dict \<Rightarrow> ('k, 's, 'v) dict \<Rightarrow> bool" where "kept d d' \<longleftrightarrow> room d' \<and> same d d'"

lemma keptI: "room d \<Longrightarrow> dict_wf d' \<Longrightarrow> same d d' \<Longrightarrow> kept d d'" by (simp add: room_def kept_def same_def)

lemma kept_refl: "room d \<Longrightarrow> kept d d" by (simp add: kept_def)

lemma kept_trans: "kept a b \<Longrightarrow> kept b c \<Longrightarrow> kept a c" by (auto simp: kept_def intro: same_trans)

lemma kept_room: "kept d d' \<Longrightarrow> room d'" by (simp add: kept_def)

lemma wf_table: "dict_wf d \<Longrightarrow> dictIsRehashing d \<Longrightarrow> table (ht0 d) \<noteq> None"
  by (auto simp: dict_wf_def dictIsRehashing_def dest: ht_okD)

lemma wf_ht0: "dict_wf d \<Longrightarrow> ht0 d = dictReset \<and> \<not> dictIsRehashing d \<or> (\<exists>e tb. ht_ok (dtype d) (ht0 d) e tb)"
  by (auto simp: dict_wf_def dictIsRehashing_def split: if_splits)

lemma ht_ok_size: "ht_ok ty h e tb \<Longrightarrow> DICTHT_SIZE (size_exp h) \<noteq> 0"
  using size_nat[of e] ht_okD(2,3)[of ty h e tb] by (metis power_eq_0_iff unat_0 zero_neq_numeral)

lemma table_size: "dict_wf d \<Longrightarrow> table (ht0 d) = None \<longleftrightarrow> DICTHT_SIZE (size_exp (ht0 d)) = 0"
  using wf_ht0[of d] ht_ok_size[of "dtype d" "ht0 d"] ht_okD(1)[of "dtype d" "ht0 d"] by (auto simp: dictReset_def DICTHT_SIZE_def)

lemma rehash_kept:
  "room d \<Longrightarrow> 0 \<le> n \<Longrightarrow> n \<le> 214748364 \<Longrightarrow> \<exists>more d'. dictRehash cr d n = Some (more, d') \<and> kept d d' \<and> (0 < n \<longrightarrow> more \<longrightarrow> rehash_gap d' < rehash_gap d) \<and>
     (\<not> more \<longrightarrow> \<not> rehash_avoided cr d \<longrightarrow> \<not> dictIsRehashing d') \<and> (more \<longrightarrow> \<not> rehash_avoided cr d') \<and>
     (dictIsRehashing d' \<longrightarrow> dictIsRehashing d \<and> size_exp (ht0 d') = size_exp (ht0 d))"
  using dictRehash_ok[of d n cr] keptI[of d] unfolding room_def by blast

lemma rehash_all_kept:
  assumes "room d" shows "\<exists>d'. dictRehash_all cr d = Some d' \<and> kept d d' \<and> (d' = d \<or> \<not> dictIsRehashing d')"
proof (cases "rehash_avoided cr d")
  case True
  then show ?thesis using kept_refl[OF assms] by (subst dictRehash_all.simps) (auto simp: dictRehash_def c_int_def)
next
  case False
  then have "\<exists>d'. dictRehash_all cr d = Some d' \<and> kept d d' \<and> \<not> dictIsRehashing d'" using assms
  proof (induction "rehash_gap d" arbitrary: d rule: less_induct)
    case less
    obtain more d1 where r: "dictRehash cr d 1000 = Some (more, d1)" "kept d d1" "more \<longrightarrow> rehash_gap d1 < rehash_gap d \<and> \<not> rehash_avoided cr d1" "\<not> more \<longrightarrow> \<not> dictIsRehashing d1"
      using rehash_kept[OF less.prems(2), of 1000 cr] less.prems(1) by auto
    show ?case
    proof (cases more)
      case True
      then obtain d2 where "dictRehash_all cr d1 = Some d2" "kept d1 d2" "\<not> dictIsRehashing d2" using less.hyps[of d1] r kept_room by blast
      then show ?thesis using r True kept_trans by (subst dictRehash_all.simps) auto
    next
      case False
      then show ?thesis using r by (subst dictRehash_all.simps) auto
    qed
  qed
  then show ?thesis by blast
qed

lemma step_kept: "room d \<Longrightarrow> \<exists>d'. dictRehashStep cr d = Some d' \<and> kept d d'"
  using rehash_kept[of d 1 cr] kept_refl[of d] by (auto simp: dictRehashStep_def)

lemma bucket_step_kept:
  assumes "room d" "rehashing d e0 e1 tb0" "unat idx < 2 ^ e0"
  shows "\<exists>ok d'. dictBucketRehash cr d idx = Some (ok, d') \<and> kept d d' \<and> (dictIsRehashing d' \<longrightarrow> size_exp (ht0 d') = size_exp (ht0 d))"
proof (cases "pauserehash d \<noteq> 0 \<or> rehash_avoided cr d")
  case False
  obtain d1 where 1: "rehashEntriesInBucketAtIndex d idx = Some d1" "rehashing d1 e0 e1 (tb0[unat idx := []])" "same d d1" using bucket_rehash_ok[OF assms(2,3)] by blast
  obtain ok d2 where 2: "dictCheckRehashingCompleted d1 = (ok, d2)" by fastforce
  have "size (cont d1) < 2 ^ 64" using assms(1) 1(3) by (simp add: room_def same_def)
  note C = check_completed_ok[OF 1(2) this 2]
  have "dictIsRehashing d2 \<longrightarrow> size_exp (ht0 d2) = size_exp (ht0 d)"
    using 2 rehashing_exps[OF 1(2)] rehashing_exps[OF assms(2)] by (auto simp: dictCheckRehashingCompleted_def dictIsRehashing_def split: if_splits)
  then show ?thesis using False 1(1) 2 keptI[OF assms(1) C(1) same_trans[OF 1(3) C(2)]] by (auto simp: dictBucketRehash_def)
qed (use assms(1) kept_refl in \<open>auto simp: dictBucketRehash_def\<close>)

lemma step_if_needed_kept:
  assumes r: "room d" and i: "idx = h AND DICTHT_SIZE_MASK (size_exp (ht0 d))"
  shows "\<exists>d'. dictRehashStepIfNeeded cr d idx = Some d' \<and> kept d d' \<and> (dictIsRehashing d' \<longrightarrow> size_exp (ht0 d') = size_exp (ht0 d))"
proof (cases "\<not> dictIsRehashing d \<or> pauserehash d \<noteq> 0")
  case False
  then obtain e0 e1 tb0 where re: "rehashing d e0 e1 tb0" using r wf_rehashing[of d] by (auto simp: room_def dictIsRehashing_def)
  then have h: "ht_ok (dtype d) (ht0 d) e0 tb0" by (auto simp: rehashing_def)
  have u: "uint idx = int (unat h mod 2 ^ e0)" "unat idx < 2 ^ e0" using ht_okD(2,3)[OF h] i by simp_all
  have s: "slot (ht0 d) (uint idx) = Some (tb0 ! (unat h mod 2 ^ e0))" unfolding u(1) by (rule slot_ok[OF h]) simp
  obtain ok d1 where 1: "dictBucketRehash cr d idx = Some (ok, d1)" "kept d d1" "dictIsRehashing d1 \<longrightarrow> size_exp (ht0 d1) = size_exp (ht0 d)" using bucket_step_kept[OF r re u(2)] by blast
  obtain more d2 where 2: "dictRehash cr d 1 = Some (more, d2)" "kept d d2" "dictIsRehashing d2 \<longrightarrow> size_exp (ht0 d2) = size_exp (ht0 d)" using rehash_kept[OF r, of 1 cr] by auto
  show ?thesis using False s 1 2 by (auto simp: dictRehashStepIfNeeded_def)
qed (use r kept_refl in \<open>auto simp: dictRehashStepIfNeeded_def\<close>)

lemma new_table_ok: "e \<le> 60 \<Longrightarrow> ht_ok ty \<lparr>table = Some (replicate (2 ^ e) []), used = 0, size_exp = int e\<rparr> e (replicate (2 ^ e) [])"
  by (simp add: ht_ok_def concat_replicate_trivial)

lemma new_table_cont: "ht_cont \<lparr>table = Some (replicate n []), used = 0, size_exp = e\<rparr> = {#}"
  by (simp add: ht_cont_def ht_entries_def concat_replicate_trivial)

lemma size_limit: "e \<le> 63 \<Longrightarrow> \<not> DICTHT_SIZE (int e) * 8 < DICTHT_SIZE (int e) \<Longrightarrow> e \<le> 60"
proof (rule ccontr)
  assume "e \<le> 63" "\<not> DICTHT_SIZE (int e) * 8 < DICTHT_SIZE (int e)" "\<not> e \<le> 60"
  moreover from this have "e = 61 \<or> e = 62 \<or> e = 63" by linarith
  ultimately show False by (auto simp: DICTHT_SIZE_def)
qed

lemma resize_kept:
  assumes r: "room d" and n: "\<not> dictIsRehashing d"
  shows "\<exists>ok failed d'. dictResize' cr d sz mf = Some (ok, failed, d') \<and> kept d d' \<and> (ok \<longrightarrow> table (ht0 d') \<noteq> None) \<and> rehashidx d' \<le> 0"
proof -
  obtain e where e: "dictNextExp sz = int e" "e \<le> 63" using dictNextExp_range by blast
  let ?s = "DICTHT_SIZE (int e)"
  let ?new = "\<lparr>table = Some (replicate (unat ?s) []), used = 0, size_exp = int e\<rparr> :: ('b, 'c) ht"
  show ?thesis
  proof (cases "?s < sz \<or> ?s * 8 < ?s \<or> int e = size_exp (ht0 d) \<or> mf = Some True")
    case True
    then show ?thesis using n kept_refl[OF r] by (auto simp: dictResize'_def Let_def e(1) dictIsRehashing_def)
  next
    case False
    then have e60: "e \<le> 60" using size_limit[OF e(2)] by blast
    have ok: "ht_ok (dtype d) ?new e (replicate (2 ^ e) [])" using new_table_ok[OF e60] size_nat[OF e60] by simp
    have w: "ht1 d = dictReset" "ht0 d = dictReset \<or> (\<exists>e tb. ht_ok (dtype d) (ht0 d) e tb)" using r n by (auto simp: room_def dict_wf_def dictIsRehashing_def)
    have b: "size (ht_cont (ht0 d)) < 2 ^ 64" using r size_cont[of d] by (auto simp: room_def)
    show ?thesis
    proof (cases "table (ht0 d) = None \<or> used (ht0 d) = 0")
      case True
      let ?d = "d\<lparr>ht0 := ?new, ht1 := dictReset, rehashidx := -1\<rparr>"
      have "ht_cont (ht0 d) = {#}" using True w(2) small_used(2)[OF _ b] by (auto simp: ht_cont_def ht_entries_def dictReset_def)
      then have "same d ?d" using w(1) by (simp add: same_def cont_def new_table_cont)
      moreover have "dict_wf ?d" using ok by (auto simp: dict_wf_def)
      ultimately have "kept d ?d" using keptI[OF r] by blast
      moreover have "dictResize' cr d sz mf = Some (True, False, ?d)" using n False True by (auto simp: dictResize'_def Let_def e(1))
      ultimately show ?thesis by auto
    next
      case o: False
      let ?d = "d\<lparr>ht1 := ?new, rehashidx := 0\<rparr>"
      obtain e0 tb0 where "ht_ok (dtype d) (ht0 d) e0 tb0" using w(2) o by (auto simp: dictReset_def)
      then have "rehashing ?d e0 e tb0" using ok by (auto simp: rehashing_def)
      then have "dict_wf ?d" by (rule rehashing_wf)
      moreover have "same d ?d" using w(1) by (simp add: same_def cont_def new_table_cont)
      ultimately have k: "kept d ?d" using keptI[OF r] by blast
      obtain d2 where d2: "dictRehash_all cr ?d = Some d2" "kept ?d d2" "d2 = ?d \<or> \<not> dictIsRehashing d2" using rehash_all_kept[OF kept_room[OF k]] by blast
      have t: "table (ht0 d2) \<noteq> None" using d2(2) o by (auto simp: kept_def same_def)
      have g: "guard (\<not> dictIsRehashing d) = Some ()" using n by simp
      have "dictResize' cr d sz mf = Some (True, False, if force_full_rehash (dtype d) then d2 else ?d)"
        unfolding dictResize'_def Let_def e(1) g using False o d2(1) by auto
      moreover have "rehashidx d2 \<le> 0" using d2(3) by (auto simp: dictIsRehashing_def)
      ultimately show ?thesis using k kept_trans[OF k d2(2)] t o by auto
    qed
  qed
qed

lemma expand_kept:
  assumes "room d" shows "\<exists>ok d'. dictExpand cr d sz = Some (ok, d') \<and> kept d d' \<and> (dictIsRehashing d \<longrightarrow> d' = d) \<and> (\<not> dictIsRehashing d \<longrightarrow> rehashidx d' \<le> 0)"
proof (cases "dictIsRehashing d \<or> used (ht0 d) > sz \<or> DICTHT_SIZE (size_exp (ht0 d)) \<ge> sz")
  case False
  then obtain ok f d' where "dictResize' cr d sz None = Some (ok, f, d')" "kept d d'" "rehashidx d' \<le> 0" using resize_kept[OF assms] by blast
  then show ?thesis using False by (auto simp: dictExpand_def dictExpand'_def)
qed (use kept_refl[OF assms] in \<open>auto simp: dictExpand_def dictExpand'_def dictIsRehashing_def\<close>)

lemma try_expand_kept: assumes "room d" shows "\<exists>ok d'. dictTryExpand cr mf d sz = Some (ok, d') \<and> kept d d'"
proof (cases "dictIsRehashing d \<or> used (ht0 d) > sz \<or> DICTHT_SIZE (size_exp (ht0 d)) \<ge> sz")
  case False
  then obtain ok f d' where "dictResize' cr d sz (Some mf) = Some (ok, f, d')" "kept d d'" using resize_kept[OF assms] by blast
  then show ?thesis using False by (auto simp: dictTryExpand_def dictExpand'_def)
qed (use kept_refl[OF assms] in \<open>auto simp: dictTryExpand_def dictExpand'_def\<close>)

lemma shrink_kept: assumes "room d" shows "\<exists>ok d'. dictShrink cr d sz = Some (ok, d') \<and> kept d d'"
proof (cases "dictIsRehashing d \<or> used (ht0 d) > sz \<or> DICTHT_SIZE (size_exp (ht0 d)) \<le> sz")
  case False
  then obtain ok f d' where "dictResize' cr d sz None = Some (ok, f, d')" "kept d d'" using resize_kept[OF assms] by blast
  then show ?thesis using False by (auto simp: dictShrink_def)
qed (use kept_refl[OF assms] in \<open>auto simp: dictShrink_def\<close>)

lemma shrink_if_needed_kept: "room d \<Longrightarrow> \<exists>d'. dictShrinkIfNeeded' cr d = Some d' \<and> kept d d'"
  using shrink_kept[of d cr "used (ht0 d)"] kept_refl[of d] by (auto simp: dictShrinkIfNeeded'_def dictShrinkIfNeeded_def)

lemma expand_first:
  assumes r: "room d" and t: "table (ht0 d) = None"
  shows "\<exists>d'. dictExpand cr d DICT_HT_INITIAL_SIZE = Some (True, d') \<and> kept d d' \<and> table (ht0 d') \<noteq> None \<and> rehashidx d' \<le> 0"
proof -
  have w: "ht0 d = dictReset" "\<not> dictIsRehashing d" using r t wf_ht0[of d] by (auto simp: room_def dest: ht_okD)
  obtain ok f d' where k: "dictResize' cr d DICT_HT_INITIAL_SIZE None = Some (ok, f, d')" "kept d d'" "ok \<longrightarrow> table (ht0 d') \<noteq> None" "rehashidx d' \<le> 0"
    using resize_kept[OF r w(2)] by blast
  have ok: ok using k(1) w
    by (auto simp: dictResize'_def dictReset_def dictNextExp_def DICT_HT_INITIAL_SIZE_def DICT_HT_INITIAL_EXP_def DICTHT_SIZE_def)
  have "dictExpand cr d DICT_HT_INITIAL_SIZE = Some (ok, d')"
    using k(1) w by (simp add: dictExpand_def dictExpand'_def dictReset_def DICTHT_SIZE_def DICT_HT_INITIAL_SIZE_def DICT_HT_INITIAL_EXP_def)
  then show ?thesis using ok k by auto
qed

lemma expand_if_needed_kept:
  assumes r: "room d" and p: "table (ht0 d) \<noteq> None \<or> pauseAutoResize d \<le> 0"
  shows "\<exists>d'. dictExpandIfNeeded' cr d = Some d' \<and> kept d d' \<and> table (ht0 d') \<noteq> None \<and> (dictIsRehashing d \<longrightarrow> d' = d) \<and> (\<not> dictIsRehashing d \<longrightarrow> rehashidx d' \<le> 0)"
proof (cases "table (ht0 d) = None")
  case True
  then have "\<not> dictIsRehashing d" "DICTHT_SIZE (size_exp (ht0 d)) = 0" using r wf_table[of d] table_size[of d] by (auto simp: room_def)
  then show ?thesis using expand_first[OF r True, of cr] p True by (auto simp: dictExpandIfNeeded'_def dictExpandIfNeeded_def)
next
  case False
  then have s: "DICTHT_SIZE (size_exp (ht0 d)) \<noteq> 0" using r table_size[of d] by (auto simp: room_def)
  have t: "kept d d' \<Longrightarrow> table (ht0 d') \<noteq> None" for d' using False by (simp add: kept_def same_def)
  obtain ok d' where e: "dictExpand cr d (used (ht0 d) + 1) = Some (ok, d')" "kept d d'" "dictIsRehashing d \<longrightarrow> d' = d" "\<not> dictIsRehashing d \<longrightarrow> rehashidx d' \<le> 0"
    using expand_kept[OF r] by blast
  have "\<not> dictIsRehashing d \<longrightarrow> rehashidx d \<le> 0" by (simp add: dictIsRehashing_def)
  then have "\<exists>d'. dictExpandIfNeeded' cr d = Some d' \<and> kept d d' \<and> (dictIsRehashing d \<longrightarrow> d' = d) \<and> (\<not> dictIsRehashing d \<longrightarrow> rehashidx d' \<le> 0)"
    using e kept_refl[OF r] s by (auto simp: dictExpandIfNeeded'_def dictExpandIfNeeded_def)
  then show ?thesis using t by blast
qed

section \<open>Searching\<close>

lemma dictType_okD:
  assumes "dictType_ok ty"
  shows "keq ty a b \<Longrightarrow> keq ty b a" "keq ty a b \<Longrightarrow> hashFunction ty a = hashFunction ty b" "keq ty a b \<Longrightarrow> keq ty b c \<Longrightarrow> keq ty a c"
    and "keyDup ty = Some f \<Longrightarrow> keq ty (keyFromStoredKey ty (f s)) (keyFromStoredKey ty s)"
  using assms unfolding dictType_ok_def by blast+

lemma chain_find_ok:
  assumes "chain_ok nv c"
  shows "case chain_find ty key c of None \<Rightarrow> \<forall>e \<in> set c. \<not> keq ty key (ekey ty e) | Some p \<Rightarrow> p < length c \<and> keq ty key (ekey ty (c ! p))"
  using assms
proof (induction c)
  case (Cons e c)
  then have "entryIsKey e \<longrightarrow> c = []" by (auto simp: chain_ok_Cons)
  then show ?case using Cons by (auto simp: chain_ok_Cons split: option.splits)
qed simp

lemma strip_key: "(a, b) = strip x \<Longrightarrow> a = dictGetKey x"
  by (metis fst_conv fst_strip)

lemma filter_mset_False_iff: "filter_mset P M = {#} \<longleftrightarrow> (\<forall>x \<in># M. \<not> P x)"
  by (induction M) auto

text \<open>The entries of a table that a key is equal to.\<close>

definition matches :: "('k, 's, 'v) dictType \<Rightarrow> 'k \<Rightarrow> ('s \<times> 'v option) multiset \<Rightarrow> ('s \<times> 'v option) multiset" where
  "matches ty key C = filter_mset (\<lambda>x. keq ty key (keyFromStoredKey ty (fst x))) C"

lemma matches_add [simp]: "matches ty key (A + B) = matches ty key A + matches ty key B"
  by (simp add: matches_def)

lemma matches_empty [simp]: "matches ty key {#} = {#}"
  by (simp add: matches_def)

lemma no_match_table:
  assumes h: "ht_ok ty h e tb" and n: "\<forall>i < 2 ^ e. \<forall>x \<in> set (tb ! i). \<not> keq ty key (ekey ty x)"
  shows "matches ty key (ht_cont h) = {#}"
proof -
  have "\<forall>c \<in> set tb. \<forall>x \<in> set c. \<not> keq ty key (ekey ty x)" using n ht_okD(4)[OF h] by (metis in_set_conv_nth)
  then show ?thesis using ht_okD(1)[OF h] by (auto simp: matches_def ht_cont_def ht_entries_def filter_mset_False_iff dest!: strip_key)
qed

definition found :: "('k, 's, 'v) dict \<Rightarrow> 'k \<Rightarrow> link \<Rightarrow> bool" where
  "found d key l \<longleftrightarrow> (case l of (t, idx, p) \<Rightarrow> \<exists>e tb. t \<in> {0, 1} \<and> ht_ok (dtype d) (ht d t) e tb \<and> (t = 0 \<longrightarrow> rehashidx d \<le> int (unat idx)) \<and>
     unat idx = unat (dictGetHash d key) mod 2 ^ e \<and> p < length (tb ! unat idx) \<and> keq (dtype d) key (ekey (dtype d) (tb ! unat idx ! p)))"

lemma find_in_ok:
  assumes ty: "dictType_ok (dtype d)" and h: "ht_ok (dtype d) (ht d t) e tb" and t: "t \<in> {0, 1}" "t = 0 \<longrightarrow> rehashidx d \<le> int (unat (dictGetHash d key) mod 2 ^ e)"
  defines "idx \<equiv> dictGetHash d key AND DICTHT_SIZE_MASK (size_exp (ht d t))"
  shows "\<exists>r. find_in d key (dictGetHash d key) t = Some (idx, r) \<and> unat idx < 2 ^ e \<and>
    (case r of None \<Rightarrow> matches (dtype d) key (ht_cont (ht d t)) = {#} | Some l \<Rightarrow> found d key l)"
proof -
  note D = ht_okD[OF h]
  let ?i = "unat (dictGetHash d key) mod 2 ^ e"
  have u: "uint idx = int ?i" "unat idx = ?i" unfolding idx_def using D(2,3) by simp_all
  have s: "slot (ht d t) (uint idx) = Some (tb ! ?i)" unfolding u(1) by (rule slot_ok[OF h]) simp
  note c = chain_find_ok[OF D(6)[of ?i], of "dtype d" key, simplified]
  have "matches (dtype d) key (ht_cont (ht d t)) = {#}" if n: "\<forall>x \<in> set (tb ! ?i). \<not> keq (dtype d) key (ekey (dtype d) x)"
  proof (rule no_match_table[OF h], intro allI impI ballI notI)
    fix i x assume i: "i < 2 ^ e" "x \<in> set (tb ! i)" "keq (dtype d) key (ekey (dtype d) x)"
    then have "i = ?i" using D(7)[OF i(1,2)] dictType_okD(2)[OF ty i(3)] by (simp add: dictGetHash_def)
    then show False using n i by blast
  qed
  moreover have "found d key (t, idx, p)" if "p < length (tb ! ?i)" "keq (dtype d) key (ekey (dtype d) (tb ! ?i ! p))" for p
    using that h t u by (auto simp: found_def)
  ultimately show ?thesis using c s u(2) unfolding find_in_def idx_def[symmetric] Let_def
    by (auto split: option.splits)
qed

text \<open>The index that the loop over the tables tests is right.\<close>

definition idx_ok :: "('k, 's, 'v) dict \<Rightarrow> 'k \<Rightarrow> u64 \<Rightarrow> bool" where
  "idx_ok d key idx \<longleftrightarrow> 0 \<le> sint idx \<and> (rehashidx d \<le> 0 \<or> idx = dictGetHash d key AND DICTHT_SIZE_MASK (size_exp (ht0 d)))"

text \<open>What the search gives: an entry, or the index for a new one.\<close>

definition searched :: "('k, 's, 'v) dict \<Rightarrow> 'k \<Rightarrow> u64 \<Rightarrow> link option \<Rightarrow> bool" where
  "searched d key idx r \<longleftrightarrow> (case r of
       None \<Rightarrow> matches (dtype d) key (cont d) = {#} \<and> idx = dictGetHash d key AND DICTHT_SIZE_MASK (size_exp (ht d (if dictIsRehashing d then 1 else 0)))
     | Some l \<Rightarrow> found d key l)"

lemma find_tables_ok:
  assumes ty: "dictType_ok (dtype d)" and r: "room d" and t: "table (ht0 d) \<noteq> None" and i: "idx_ok d key idx"
  shows "\<exists>idx' r. find_tables d key (dictGetHash d key) idx = Some (idx', r) \<and> searched d key idx' r"
proof (cases "dictIsRehashing d")
  case True
  then obtain e0 e1 tb0 where re: "rehashing d e0 e1 tb0" using r wf_rehashing[of d] by (auto simp: room_def dictIsRehashing_def)
  then obtain tb1 where h: "ht_ok (dtype d) (ht d 0) e0 tb0" "ht_ok (dtype d) (ht d 1) e1 tb1" and z: "\<forall>i < nat (rehashidx d). tb0 ! i = []" "0 \<le> rehashidx d"
    by (auto simp: rehashing_def ht_def)
  obtain r1 where r1: "find_in d key (dictGetHash d key) 1 = Some (dictGetHash d key AND DICTHT_SIZE_MASK (size_exp (ht d 1)), r1)"
      "case r1 of None \<Rightarrow> matches (dtype d) key (ht_cont (ht d 1)) = {#} | Some l \<Rightarrow> found d key l"
    using find_in_ok[OF ty h(2), of key] by auto
  let ?i = "unat (dictGetHash d key) mod 2 ^ e0"
  show ?thesis
  proof (cases "sint idx < rehashidx d")
    case True
    then have "rehashidx d > 0" using i by (auto simp: idx_ok_def)
    then have "sint idx = int ?i" using i rehashing_exps[OF re] ht_okD(3)[OF h(1)] by (auto simp: idx_ok_def)
    then have e: "tb0 ! ?i = []" using z(1) True by (simp add: nat_less_iff z(2) zless_nat_eq_int_zless)
    have "matches (dtype d) key (ht_cont (ht d 0)) = {#}"
    proof (rule no_match_table[OF h(1)], intro allI impI ballI notI)
      fix j x assume j: "j < 2 ^ e0" "x \<in> set (tb0 ! j)" "keq (dtype d) key (ekey (dtype d) x)"
      then have "j = ?i" using ht_okD(7)[OF h(1) j(1,2)] dictType_okD(2)[OF ty j(3)] by (simp add: dictGetHash_def)
      then show False using e j by simp
    qed
    then show ?thesis using True r1 \<open>dictIsRehashing d\<close> by (auto simp: find_tables_def searched_def cont_def ht_def split: option.splits)
  next
    case False
    have "rehashidx d \<le> int ?i"
      using False i rehashing_exps[OF re] ht_okD(3)[OF h(1)] by (cases "rehashidx d \<le> 0") (auto simp: idx_ok_def intro: order_trans[of _ 0])
    then obtain r0 idx0 where r0: "find_in d key (dictGetHash d key) 0 = Some (idx0, r0)"
        "case r0 of None \<Rightarrow> matches (dtype d) key (ht_cont (ht d 0)) = {#} | Some l \<Rightarrow> found d key l"
      using find_in_ok[OF ty h(1), of key] by auto
    then show ?thesis using False r1 \<open>dictIsRehashing d\<close> by (auto simp: find_tables_def searched_def cont_def ht_def split: option.splits)
  qed
next
  case False
  then have w: "ht1 d = dictReset" "\<exists>e tb. ht_ok (dtype d) (ht0 d) e tb" "rehashidx d = -1"
    using r t by (auto simp: room_def dict_wf_def dictIsRehashing_def dictReset_def)
  then obtain e tb where h: "ht_ok (dtype d) (ht d 0) e tb" by (auto simp: ht_def)
  obtain r0 where r0: "find_in d key (dictGetHash d key) 0 = Some (dictGetHash d key AND DICTHT_SIZE_MASK (size_exp (ht d 0)), r0)"
      "case r0 of None \<Rightarrow> matches (dtype d) key (ht_cont (ht d 0)) = {#} | Some l \<Rightarrow> found d key l"
    using find_in_ok[OF ty h, of key] w(3) by auto
  have "\<not> sint idx < rehashidx d" using i w(3) by (simp add: idx_ok_def)
  then show ?thesis using r0 False w(1) by (auto simp: find_tables_def searched_def cont_def ht_def split: option.splits)
qed

lemma idx_ok_step:
  assumes r: "room d" and k: "same d d'" "dictIsRehashing d' \<longrightarrow> size_exp (ht0 d') = size_exp (ht0 d)"
  shows "idx_ok d' key (dictGetHash d key AND DICTHT_SIZE_MASK (size_exp (ht0 d)))"
proof -
  have "0 \<le> sint (dictGetHash d key AND DICTHT_SIZE_MASK (size_exp (ht0 d)))"
    using wf_ht0[of d] r sint_idx ht_okD(2,3)[of "dtype d" "ht0 d"] by (auto simp: room_def dictReset_def DICTHT_SIZE_MASK_def)
  then show ?thesis using k by (auto simp: idx_ok_def dictIsRehashing_def same_def dictGetHash_def)
qed

end
