(* ===== verification/DictOps.thy ===== *)
theory DictOps
  imports DictRep Store
begin

text \<open>
  The operations on the contents of a dictionary: insertion, replacement, deletion and search against a map from keys to entries.
\<close>

section \<open>Changing a bucket\<close>

lemma put_bucket:
  assumes w: "dict_wf d" and h: "ht_ok (dtype d) (ht d t) e tb" and i: "t \<in> {0, 1}" "i < 2 ^ e" "t = 0 \<longrightarrow> rehashidx d \<le> int i"
    and c: "chain_ok (no_value (dtype d)) c" "\<forall>x \<in> set c. unat (hashFunction (dtype d) (ekey (dtype d) x)) mod 2 ^ e = i"
    and u: "u + of_nat (length (tb ! i)) = used (ht d t) + of_nat (length c)"
  defines "d' \<equiv> ht_put d t ((ht d t)\<lparr>table := Some (tb[i := c]), used := u\<rparr>)"
  shows "dict_wf d'" "cont d' + mset (map strip (tb ! i)) = cont d + mset (map strip c)"
    "dtype d' = dtype d" "pauserehash d' = pauserehash d" "pauseAutoResize d' = pauseAutoResize d" "table (ht0 d') \<noteq> None" "rehashidx d' = rehashidx d"
    "ht_ok (dtype d) (ht d' t) e (tb[i := c])"
proof -
  let ?h = "(ht d t)\<lparr>table := Some (tb[i := c]), used := u\<rparr>"
  have ok: "ht_ok (dtype d) ?h e (tb[i := c])" by (rule ht_ok_update[OF h i(2) c u])
  have k: "ht_cont ?h + mset (map strip (tb ! i)) = ht_cont (ht d t) + mset (map strip c)"
    using cont_update[of "ht d t" tb i c] ht_okD(1,4)[OF h] i(2) by (simp add: ht_cont_def ht_entries_def)
  show "dtype d' = dtype d" "pauserehash d' = pauserehash d" "pauseAutoResize d' = pauseAutoResize d" "rehashidx d' = rehashidx d"
    by (simp_all add: d'_def ht_put_def)
  show "ht_ok (dtype d) (ht d' t) e (tb[i := c])" using ok i(1) by (auto simp: d'_def ht_put_def ht_def)
  show "cont d' + mset (map strip (tb ! i)) = cont d + mset (map strip c)" using k by (auto simp: d'_def ht_put_def ht_def cont_def ac_simps)
  show "table (ht0 d') \<noteq> None"
  proof (cases "t = 0")
    case False
    then have "rehashidx d \<noteq> -1" using w h by (auto simp: dict_wf_def dictReset_def ht_def dest: ht_okD)
    then show ?thesis using wf_table[OF w] False by (simp add: dictIsRehashing_def d'_def ht_put_def)
  qed (simp add: d'_def ht_put_def)
  show "dict_wf d'"
  proof (cases "rehashidx d = -1")
    case True
    then have "table (ht1 d) = None" using w by (simp add: dict_wf_def dictReset_def)
    then have "t = 0" using ht_okD(1)[OF h] by (cases "t = 0") (auto simp: ht_def)
    then show ?thesis using True w ok by (auto simp: dict_wf_def d'_def ht_put_def ht_def)
  next
    case False
    then obtain e0 e1 tb0 where r: "rehashing d e0 e1 tb0" using w wf_rehashing by blast
    show ?thesis
    proof (cases "t = 0")
      case True
      then have "tb = tb0" "e = e0" using r h by (auto simp: rehashing_def ht_def ht_ok_def)
      then have "rehashing d' e0 e1 (tb[i := c])" using r True i(3) ok by (auto simp: rehashing_def d'_def ht_put_def ht_def)
      then show ?thesis by (rule rehashing_wf)
    next
      case False
      then have "rehashing d' e0 e tb0" using r ok by (auto simp: rehashing_def d'_def ht_put_def ht_def)
      then show ?thesis by (rule rehashing_wf)
    qed
  qed
qed

lemma foundD:
  assumes "found d key (t, idx, p)"
  obtains e tb where "t \<in> {0, 1}" "ht_ok (dtype d) (ht d t) e tb" "t = 0 \<longrightarrow> rehashidx d \<le> int (unat idx)" "unat idx < 2 ^ e" "p < length (tb ! unat idx)"
    "keq (dtype d) key (ekey (dtype d) (tb ! unat idx ! p))" "slot (ht d t) (uint idx) = Some (tb ! unat idx)"
    "\<forall>c. set_slot (ht d t) (uint idx) c = Some ((ht d t)\<lparr>table := Some (tb[unat idx := c])\<rparr>)"
proof -
  obtain e tb where a: "t \<in> {0, 1}" "ht_ok (dtype d) (ht d t) e tb" "t = 0 \<longrightarrow> rehashidx d \<le> int (unat idx)" "unat idx < 2 ^ e" "p < length (tb ! unat idx)"
    "keq (dtype d) key (ekey (dtype d) (tb ! unat idx ! p))" using assms by (auto simp: found_def)
  have u: "uint idx = int (unat idx)" by simp
  show thesis by (rule that[OF a]) (unfold u, rule slot_ok[OF a(2,4)], rule allI, rule set_slot_ok[OF a(2,4)])
qed

lemma in_table: "ht_ok ty h e tb \<Longrightarrow> i < 2 ^ e \<Longrightarrow> x \<in> set (tb ! i) \<Longrightarrow> strip x \<in># ht_cont h"
proof -
  assume h: "ht_ok ty h e tb" "i < 2 ^ e" "x \<in> set (tb ! i)"
  then have "x \<in> set (concat tb)" using ht_okD(4)[OF h(1)] by (auto intro!: bexI[of _ "tb ! i"])
  then show ?thesis using ht_okD(1)[OF h(1)] by (auto simp: ht_cont_def ht_entries_def)
qed

lemma ht_cont_le: "ht_cont (ht d t) \<subseteq># cont d"
  by (simp add: ht_def cont_def)

lemma found_entry:
  assumes "found d key l" shows "\<exists>x. link_get d l = Some x \<and> strip x \<in># matches (dtype d) key (cont d)"
proof -
  obtain t idx p where l: "l = (t, idx, p)" by (cases l)
  from assms obtain e tb where f: "t \<in> {0, 1}" "ht_ok (dtype d) (ht d t) e tb" "unat idx < 2 ^ e" "p < length (tb ! unat idx)"
    "keq (dtype d) key (ekey (dtype d) (tb ! unat idx ! p))" "slot (ht d t) (uint idx) = Some (tb ! unat idx)" unfolding l by (rule foundD)
  have "strip (tb ! unat idx ! p) \<in># cont d" using in_table[OF f(2,3), of "tb ! unat idx ! p"] f(4) ht_cont_le[of d t] by (auto dest: mset_subset_eqD)
  then show ?thesis using f by (auto simp: l link_get_def matches_def)
qed

lemma chain_ok_nth: "chain_ok nv c \<longleftrightarrow> (\<forall>i. Suc i < length c \<longrightarrow> \<not> entryIsKey (c ! i)) \<and> (\<forall>e \<in> set c. isEntry e \<longleftrightarrow> \<not> nv)"
proof -
  have "(\<forall>e \<in> set (butlast c). \<not> entryIsKey e) \<longleftrightarrow> (\<forall>i. Suc i < length c \<longrightarrow> \<not> entryIsKey (c ! i))"
    by (auto simp: all_set_conv_all_nth nth_butlast)
  then show ?thesis by (simp add: chain_ok_def)
qed

lemma nth_remove: "p < length c \<Longrightarrow> i < length c - 1 \<Longrightarrow> (take p c @ drop (Suc p) c) ! i = (if i < p then c ! i else c ! Suc i)"
  by (auto simp: nth_append min_def)

lemma unlink_ok:
  assumes "chain_ok nv c" "p < length c"
  shows "\<exists>c'. unlink c p = Some c' \<and> chain_ok nv c' \<and> set c' \<subseteq> set c \<and> mset c = mset c' + {# c ! p #}"
proof -
  let ?c = "take p c @ drop (Suc p) c"
  have k: "Suc i < length c \<Longrightarrow> \<not> entryIsKey (c ! i)" for i using assms(1) by (simp add: chain_ok_nth)
  have n: "dictGetNext (c ! p) (drop (Suc p) c) = drop (Suc p) c" using k[of p] assms(2) by (cases "Suc p < length c") (auto simp: dictGetNext_def)
  have pr: "p \<noteq> 0 \<Longrightarrow> \<not> entryIsKey (c ! (p - 1))" using k[of "p - 1"] assms(2) by simp
  have "mset (take p c @ c ! p # drop (Suc p) c) = mset ?c + {# c ! p #}" by simp
  then have m: "mset c = mset ?c + {# c ! p #}" using id_take_nth_drop[OF assms(2)] by simp
  have s: "set ?c \<subseteq> set c" using set_take_subset[of p c] set_drop_subset[of "Suc p" c] by auto
  have "\<not> entryIsKey (?c ! i)" if i: "Suc i < length ?c" for i
  proof -
    have "Suc (Suc i) < length c" using i assms(2) by simp
    then show ?thesis using nth_remove[OF assms(2), of i] k[of i] k[of "Suc i"] by simp
  qed
  then have "chain_ok nv ?c" using assms(1) s unfolding chain_ok_nth by blast
  moreover have "unlink c p = Some ?c" using assms(2) n pr by (simp add: unlink_def Let_def)
  ultimately show ?thesis using m s by blast
qed

section \<open>The operations\<close>

lemma dictSize_cont: "dict_wf d \<Longrightarrow> dictSize d = of_nat (size (cont d))"
proof -
  assume w: "dict_wf d"
  have u: "used h = of_nat (size (ht_cont h))" if "h = dictReset \<or> (\<exists>e tb. ht_ok (dtype d) h e tb)" for h
    using that by (auto simp: ht_cont_def ht_entries_def dictReset_def ht_ok_def)
  have "ht0 d = dictReset \<or> (\<exists>e tb. ht_ok (dtype d) (ht0 d) e tb)" "ht1 d = dictReset \<or> (\<exists>e tb. ht_ok (dtype d) (ht1 d) e tb)"
    using w by (auto simp: dict_wf_def split: if_splits)
  then show ?thesis using u by (simp add: dictSize_def size_cont)
qed

lemma dictSize_zero: "room d \<Longrightarrow> dictSize d = 0 \<longleftrightarrow> cont d = {#}"
proof -
  assume r: "room d"
  have "unat (of_nat (size (cont d)) :: u64) = size (cont d)" using r by (simp add: room_def unat_of_nat)
  then have u: "unat (dictSize d) = size (cont d)" using r dictSize_cont[of d] by (simp add: room_def)
  show ?thesis unfolding unat_eq_zero[symmetric] u by simp
qed

lemma cont_table: "room d \<Longrightarrow> cont d \<noteq> {#} \<Longrightarrow> table (ht0 d) \<noteq> None"
  by (auto simp: room_def dict_wf_def cont_def ht_cont_def ht_entries_def dictReset_def split: if_splits dest: ht_okD)

text \<open>The first part of every operation on a key: a step of rehashing and the search.\<close>

lemma step_search:
  fixes key
  assumes ty: "dictType_ok (dtype d)" and r: "room d" and t: "table (ht0 d) \<noteq> None"
  defines "idx \<equiv> dictGetHash d key AND DICTHT_SIZE_MASK (size_exp (ht0 d))"
  shows "\<exists>d' idx' x. dictRehashStepIfNeeded cr d idx = Some d' \<and> kept d d' \<and> find_tables d' key (dictGetHash d key) idx = Some (idx', x) \<and> searched d' key idx' x"
proof -
  obtain d' where d': "dictRehashStepIfNeeded cr d idx = Some d'" "kept d d'" "dictIsRehashing d' \<longrightarrow> size_exp (ht0 d') = size_exp (ht0 d)"
    using step_if_needed_kept[OF r, of idx] unfolding idx_def by blast
  have s: "same d d'" "room d'" using d'(2) by (auto simp: kept_def)
  have e: "dtype d' = dtype d" "table (ht0 d') \<noteq> None" "dictGetHash d' key = dictGetHash d key" using s(1) t by (auto simp: same_def dictGetHash_def)
  have "idx_ok d' key idx" unfolding idx_def by (rule idx_ok_step[OF r s(1) d'(3)])
  then obtain idx' x where "find_tables d' key (dictGetHash d' key) idx = Some (idx', x)" "searched d' key idx' x"
    using find_tables_ok[OF _ s(2) e(2), of key idx] ty e(1) by auto
  then show ?thesis using d'(1,2) e(3) by auto
qed

lemma dictFind_ok:
  assumes ty: "dictType_ok (dtype d)" and r: "room d"
  shows "\<exists>x d'. dictFind cr d key = Some (x, d') \<and> kept d d' \<and>
    (case x of None \<Rightarrow> matches (dtype d) key (cont d) = {#} | Some e \<Rightarrow> strip e \<in># matches (dtype d) key (cont d))"
proof (cases "dictSize d = 0")
  case True
  then show ?thesis using dictSize_zero[OF r] kept_refl[OF r] by (simp add: dictFind_def dictFindLink_def)
next
  case False
  then have t: "table (ht0 d) \<noteq> None" using dictSize_zero[OF r] cont_table[OF r] by blast
  obtain d' idx x where f: "dictRehashStepIfNeeded cr d (dictGetHash d key AND DICTHT_SIZE_MASK (size_exp (ht0 d))) = Some d'" "kept d d'"
    "find_tables d' key (dictGetHash d key) (dictGetHash d key AND DICTHT_SIZE_MASK (size_exp (ht0 d))) = Some (idx, x)" "searched d' key idx x"
    using step_search[OF ty r t] by blast
  have s: "dtype d' = dtype d" "cont d' = cont d" using f(2) by (auto simp: kept_def same_def)
  show ?thesis
  proof (cases x)
    case None
    then show ?thesis using False f s by (auto simp: dictFind_def dictFindLink_def dictFindLinkInternal_def Let_def searched_def)
  next
    case (Some l)
    then obtain e where "link_get d' l = Some e" "strip e \<in># matches (dtype d) key (cont d)" using f(4) found_entry[of d' key l] s by (auto simp: searched_def)
    then show ?thesis using False f Some by (auto simp: dictFind_def dictFindLink_def dictFindLinkInternal_def Let_def)
  qed
qed

text \<open>What a change of a bucket keeps.\<close>

definition frame :: "('k, 's, 'v) dict \<Rightarrow> ('k, 's, 'v) dict \<Rightarrow> bool" where
  "frame d d' \<longleftrightarrow> dict_wf d' \<and> dtype d' = dtype d \<and> pauserehash d' = pauserehash d \<and> pauseAutoResize d' = pauseAutoResize d \<and> table (ht0 d') \<noteq> None"

lemma dictGenericDelete_ok:
  assumes ty: "dictType_ok (dtype d)" and r: "room d"
  shows "\<exists>x d'. dictGenericDelete cr d key = Some (x, d') \<and>
    (case x of None \<Rightarrow> kept d d' \<and> matches (dtype d) key (cont d) = {#}
     | Some e \<Rightarrow> frame d d' \<and> strip e \<in># matches (dtype d) key (cont d) \<and> cont d = cont d' + {# strip e #})"
proof (cases "dictSize d = 0")
  case True
  then show ?thesis using dictSize_zero[OF r] kept_refl[OF r] by (simp add: dictGenericDelete_def)
next
  case False
  then have t: "table (ht0 d) \<noteq> None" using dictSize_zero[OF r] cont_table[OF r] by blast
  let ?i = "dictGetHash d key AND DICTHT_SIZE_MASK (size_exp (ht0 d))"
  obtain d' idx x where f: "dictRehashStepIfNeeded cr d ?i = Some d'" "kept d d'" "find_tables d' key (dictGetHash d key) ?i = Some (idx, x)" "searched d' key idx x"
    using step_search[OF ty r t] by blast
  have s: "dtype d' = dtype d" "cont d' = cont d" "pauserehash d' = pauserehash d" "pauseAutoResize d' = pauseAutoResize d" and w: "dict_wf d'" and b: "size (cont d') < 2 ^ 64"
    using f(2) by (auto simp: kept_def same_def room_def)
  show ?thesis
  proof (cases x)
    case None
    then show ?thesis using False f s by (auto simp: dictGenericDelete_def Let_def searched_def)
  next
    case (Some l)
    obtain t i p where l: "l = (t, i, p)" by (cases l)
    have "found d' key (t, i, p)" using f(4) Some l by (simp add: searched_def)
    then obtain e tb where g: "t \<in> {0, 1}" "ht_ok (dtype d') (ht d' t) e tb" "t = 0 \<longrightarrow> rehashidx d' \<le> int (unat i)" "unat i < 2 ^ e" "p < length (tb ! unat i)"
      "keq (dtype d') key (ekey (dtype d') (tb ! unat i ! p))" "slot (ht d' t) (uint i) = Some (tb ! unat i)"
      "\<forall>c. set_slot (ht d' t) (uint i) c = Some ((ht d' t)\<lparr>table := Some (tb[unat i := c])\<rparr>)" by (rule foundD)
    let ?c = "tb ! unat i" let ?x = "?c ! p"
    note D = ht_okD[OF g(2)]
    obtain c' where c': "unlink ?c p = Some c'" "chain_ok (no_value (dtype d')) c'" "set c' \<subseteq> set ?c" "mset ?c = mset c' + {# ?x #}"
      using unlink_ok[OF D(6)[OF g(4)] g(5)] by blast
    have len: "length ?c = Suc (length c')" using arg_cong[OF c'(4), of size] by simp
    let ?d = "ht_put d' t ((ht d' t)\<lparr>table := Some (tb[unat i := c']), used := used (ht d' t) - 1\<rparr>)"
    have hs: "\<forall>x \<in> set c'. unat (hashFunction (dtype d') (ekey (dtype d') x)) mod 2 ^ e = unat i" using D(7)[OF g(4)] c'(3) by blast
    have us: "used (ht d' t) - 1 + of_nat (length ?c) = used (ht d' t) + of_nat (length c')" unfolding len by simp
    note P = put_bucket[OF w g(2) g(1) g(4) g(3) c'(2) hs us]
    have k: "cont d' = cont ?d + {# strip ?x #}"
    proof -
      have "mset (map strip ?c) = mset (map strip c') + {# strip ?x #}" using arg_cong[OF c'(4), of "image_mset strip"] by simp
      then have "(cont ?d + {# strip ?x #}) + mset (map strip c') = cont d' + mset (map strip c')" using P(2) by (simp add: ac_simps)
      then show ?thesis by (metis add_right_imp_eq)
    qed
    have rm: "room ?d" using P(1) b arg_cong[OF k, of size] by (simp add: room_def)
    obtain d2 where d2: "dictShrinkIfNeeded' cr ?d = Some d2" "kept ?d d2" using shrink_if_needed_kept[OF rm] by blast
    have c2: "cont d2 = cont ?d" "frame d d2" using d2(2) P(3-6) s by (auto simp: kept_def same_def frame_def room_def)
    have "strip ?x \<in># matches (dtype d) key (cont d)" using k s g(6) by (auto simp: matches_def)
    moreover have "dictGenericDelete cr d key = Some (Some ?x, d2)"
      using False f(1,3) Some l g(7,8) c'(1) d2(1) by (simp add: dictGenericDelete_def Let_def)
    ultimately show ?thesis using c2 k s(2) by auto
  qed
qed

lemma found_put:
  assumes "ht_ok (dtype d) (ht d t) e tb" "t \<in> {0, 1}" "t = 0 \<longrightarrow> rehashidx d \<le> int (unat idx)" "unat idx = unat (dictGetHash d key) mod 2 ^ e"
    "p < length (tb ! unat idx)" "keq (dtype d) key (ekey (dtype d) (tb ! unat idx ! p))"
  shows "found d key (t, idx, p)" "link_get d (t, idx, p) = Some (tb ! unat idx ! p)"
proof -
  show "found d key (t, idx, p)" unfolding found_def prod.case by (intro exI[of _ e] exI[of _ tb] conjI assms)
  have i: "unat idx < 2 ^ e" using assms(4) by simp
  have u: "uint idx = int (unat idx)" by simp
  show "link_get d (t, idx, p) = Some (tb ! unat idx ! p)" using slot_ok[OF assms(1) i] assms(5) unfolding link_get_def u by simp
qed

lemma keq_refl [simp]: "keq ty a a" by (simp add: keq_def)

lemma frame_same: "same d d1 \<Longrightarrow> frame d1 d2 \<Longrightarrow> frame d d2" by (simp add: frame_def same_def)

text \<open>Insertion in the bucket of the key.\<close>

lemma insert_ok:
  assumes r: "room d" and t: "table (ht0 d) \<noteq> None"
  defines "t \<equiv> if dictIsRehashing d then 1 else 0"
  assumes i: "idx = dictGetHash d (keyFromStoredKey (dtype d) s) AND DICTHT_SIZE_MASK (size_exp (ht d t))"
  shows "\<exists>x d'. dictInsertKeyAtLink d s (t, idx, 0) = Some ((t, idx, 0), d') \<and> frame d d' \<and> cont d' = cont d + {# (s, None) #} \<and>
    found d' (keyFromStoredKey (dtype d) s) (t, idx, 0) \<and> link_get d' (t, idx, 0) = Some x \<and> strip x = (s, None) \<and> (isEntry x \<longleftrightarrow> \<not> no_value (dtype d))"
proof -
  let ?k = "keyFromStoredKey (dtype d) s"
  have w: "dict_wf d" using r by (simp add: room_def)
  have "\<exists>e tb. ht_ok (dtype d) (ht d t) e tb"
    using w t unfolding t_def by (auto simp: dict_wf_def dictIsRehashing_def ht_def dictReset_def)
  then obtain e tb where h: "ht_ok (dtype d) (ht d t) e tb" by blast
  note D = ht_okD[OF h]
  have u: "uint idx = int (unat idx)" "unat idx = unat (dictGetHash d ?k) mod 2 ^ e" "unat idx < 2 ^ e" unfolding i using D(2,3) by simp_all
  have m: "idx \<le> DICTHT_SIZE_MASK (size_exp (ht d t))" unfolding i by (simp add: word_and_le1)
  let ?c = "tb ! unat idx"
  define x where "x = (if no_value (dtype d) then (if ?c = [] then EntryKey s else EntryNoValue s) else Entry s None :: ('b, 'c) dictEntry)"
  have x: "strip x = (s, None)" "dictGetKey x = s" "isEntry x \<longleftrightarrow> \<not> no_value (dtype d)" "?c \<noteq> [] \<longrightarrow> \<not> entryIsKey x" by (auto simp: x_def)
  have c: "chain_ok (no_value (dtype d)) (x # ?c)" using x D(6)[OF u(3)] by (simp add: chain_ok_Cons)
  have hs: "\<forall>y \<in> set (x # ?c). unat (hashFunction (dtype d) (ekey (dtype d) y)) mod 2 ^ e = unat idx" using D(7)[OF u(3)] x(2) u(2) by (auto simp: dictGetHash_def)
  have "-1 \<le> int (unat idx)" by linarith
  then have t01: "t \<in> {0, 1}" "t = 0 \<longrightarrow> rehashidx d \<le> int (unat idx)" by (auto simp: t_def dictIsRehashing_def)
  define d' where "d' = ht_put d t ((ht d t)\<lparr>table := Some (tb[unat idx := x # ?c]), used := used (ht d t) + 1\<rparr>)"
  have us: "used (ht d t) + 1 + of_nat (length ?c) = used (ht d t) + of_nat (length (x # ?c))" by (simp add: add.assoc add.commute)
  note P = put_bucket[OF w h t01(1) u(3) t01(2) c hs us, folded d'_def]
  have "cont d' + mset (map strip ?c) = (cont d + {# (s, None) #}) + mset (map strip ?c)" using P(2) x(1) by simp
  then have k: "cont d' = cont d + {# (s, None) #}" by (rule add_right_imp_eq)
  have "slot (ht d t) (uint idx) = Some ?c" "set_slot (ht d t) (uint idx) (x # ?c) = Some ((ht d t)\<lparr>table := Some (tb[unat idx := x # ?c])\<rparr>)"
    unfolding u(1) by (rule slot_ok[OF h u(3)], rule set_slot_ok[OF h u(3)])
  then have ins: "dictInsertKeyAtLink d s (t, idx, 0) = Some ((t, idx, 0), d')"
    using m by (simp add: dictInsertKeyAtLink_def t_def[symmetric] Let_def x_def[symmetric] d'_def)
  have n: "tb[unat idx := x # ?c] ! unat idx = x # ?c" using u(3) D(4) by simp
  have f1: "ht_ok (dtype d') (ht d' t) e (tb[unat idx := x # ?c])" using P(3,8) by simp
  have f2: "t = 0 \<longrightarrow> rehashidx d' \<le> int (unat idx)" using t01(2) P(7) by simp
  have f3: "unat idx = unat (dictGetHash d' ?k) mod 2 ^ e" using u(2) P(3) by (simp add: dictGetHash_def)
  have f4: "0 < length (tb[unat idx := x # ?c] ! unat idx)" "keq (dtype d') ?k (ekey (dtype d') (tb[unat idx := x # ?c] ! unat idx ! 0))"
    unfolding n using x(2) P(3) by simp_all
  note F = found_put[OF f1 t01(1) f2 f3 f4]
  have "link_get d' (t, idx, 0) = Some x" using F(2) unfolding n by simp
  moreover note F(1)
  moreover have "frame d d'" using P by (simp add: frame_def)
  ultimately show ?thesis using ins k x by blast
qed

text \<open>Replacement of an entry by one with the same key.\<close>

lemma link_set_ok:
  assumes w: "dict_wf d" and f: "found d key l" "link_get d l = Some x" and y: "dictGetKey y = dictGetKey x" "isEntry x" "isEntry y"
  shows "\<exists>d'. link_set d l y = Some d' \<and> frame d d' \<and> cont d' + {# strip x #} = cont d + {# strip y #}"
proof -
  obtain t i p where l: "l = (t, i, p)" by (cases l)
  from f(1) obtain e tb where g: "t \<in> {0, 1}" "ht_ok (dtype d) (ht d t) e tb" "t = 0 \<longrightarrow> rehashidx d \<le> int (unat i)" "unat i < 2 ^ e" "p < length (tb ! unat i)"
      "keq (dtype d) key (ekey (dtype d) (tb ! unat i ! p))" "slot (ht d t) (uint i) = Some (tb ! unat i)"
      "\<forall>c. set_slot (ht d t) (uint i) c = Some ((ht d t)\<lparr>table := Some (tb[unat i := c])\<rparr>)" unfolding l by (rule foundD)
  let ?c = "tb ! unat i" let ?c' = "?c[p := y]"
  note D = ht_okD[OF g(2)]
  have x: "?c ! p = x" using f(2) g(5,7) by (simp add: l link_get_def)
  have xc: "x \<in> set ?c" using x g(5) by (metis nth_mem)
  then have a: "add_mset x (mset ?c - {# x #}) = mset ?c" by simp
  have "mset ?c' = add_mset y (mset ?c - {# x #})" using mset_update[OF g(5), of y] x by simp
  then have "mset ?c' + {# x #} = add_mset y (add_mset x (mset ?c - {# x #}))" by simp
  then have m: "mset ?c' + {# x #} = mset ?c + {# y #}" unfolding a by simp
  have ok: "chain_ok (no_value (dtype d)) ?c'"
  proof -
    have "chain_ok (no_value (dtype d)) ?c" by (rule D(6)[OF g(4)])
    moreover have "isEntry z \<longleftrightarrow> \<not> no_value (dtype d)" if "z \<in> set ?c'" for z
      using that set_update_subset_insert[of ?c p y] calculation xc y(2,3) by (auto simp: chain_ok_def)
    moreover have "\<not> entryIsKey (?c' ! j)" if "Suc j < length ?c" for j
      using that calculation(1) isEntry_not_key[OF y(3)] by (cases "j = p") (auto simp: chain_ok_nth)
    ultimately show ?thesis by (simp add: chain_ok_nth)
  qed
  have hs: "\<forall>z \<in> set ?c'. unat (hashFunction (dtype d) (ekey (dtype d) z)) mod 2 ^ e = unat i"
    using D(7)[OF g(4)] set_update_subset_insert[of ?c p y] y(1) xc by auto
  have us: "used (ht d t) + of_nat (length ?c) = used (ht d t) + of_nat (length ?c')" by simp
  note P = put_bucket[OF w g(2) g(1) g(4) g(3) ok hs us]
  let ?d = "ht_put d t ((ht d t)\<lparr>table := Some (tb[unat i := ?c']), used := used (ht d t)\<rparr>)"
  have "(cont ?d + {# strip x #}) + mset (map strip ?c) = (cont d + {# strip y #}) + mset (map strip ?c)"
    using P(2) arg_cong[OF m, of "image_mset strip"] by (simp add: ac_simps)
  then have k: "cont ?d + {# strip x #} = cont d + {# strip y #}" by (rule add_right_imp_eq)
  have "link_set d l y = Some ?d" using g(5,7,8) by (simp add: link_set_def l)
  moreover have "frame d ?d" using P by (simp add: frame_def)
  ultimately show ?thesis using k by blast
qed

definition dupKey :: "('k, 's, 'v) dictType \<Rightarrow> 's \<Rightarrow> 's" where "dupKey ty s = (case keyDup ty of None \<Rightarrow> s | Some f \<Rightarrow> f s)"
definition dupVal :: "('k, 's, 'v) dictType \<Rightarrow> 'v \<Rightarrow> 'v" where "dupVal ty v = (case valDup ty of None \<Rightarrow> v | Some f \<Rightarrow> f v)"

lemma dupKey_eq: assumes "dictType_ok ty" shows "keq ty (keyFromStoredKey ty s) (keyFromStoredKey ty (dupKey ty s))"
proof (cases "keyDup ty")
  case (Some f)
  show ?thesis unfolding dupKey_def Some option.case by (rule dictType_okD(1)[OF assms dictType_okD(4)[OF assms Some]])
qed (simp add: dupKey_def)

lemma matches_cong: "dictType_ok ty \<Longrightarrow> keq ty a b \<Longrightarrow> matches ty a C = matches ty b C"
  unfolding matches_def by (intro filter_mset_cong refl) (meson dictType_okD(1,3))

definition added :: "('k, 's, 'v) dict \<Rightarrow> 's \<Rightarrow> link \<Rightarrow> ('k, 's, 'v) dict \<Rightarrow> bool" where
  "added d s l d' \<longleftrightarrow> frame d d' \<and> cont d' = cont d + {# (s, None) #} \<and> found d' (keyFromStoredKey (dtype d) s) l \<and>
     (\<exists>x. link_get d' l = Some x \<and> strip x = (s, None) \<and> (isEntry x \<longleftrightarrow> \<not> no_value (dtype d)))"

lemma dictAddRaw_ok:
  assumes ty: "dictType_ok (dtype d)" and r: "room d" and p: "table (ht0 d) \<noteq> None \<or> pauseAutoResize d \<le> 0"
  defines "key \<equiv> \<lambda>s. keyFromStoredKey (dtype d) s"
  shows "\<exists>x d'. dictAddRaw cr d s = Some (x, d') \<and>
    (case x of Inl l \<Rightarrow> kept d d' \<and> found d' (key s) l | Inr l \<Rightarrow> matches (dtype d) (key s) (cont d) = {#} \<and> added d (dupKey (dtype d) s) l d')"
proof -
  let ?i = "dictGetHash d (key s) AND DICTHT_SIZE_MASK (size_exp (ht0 d))"
  obtain d1 where d1: "dictRehashStepIfNeeded cr d ?i = Some d1" "kept d d1" "dictIsRehashing d1 \<longrightarrow> size_exp (ht0 d1) = size_exp (ht0 d)"
    using step_if_needed_kept[OF r, of ?i] by blast
  have "table (ht0 d1) \<noteq> None \<or> pauseAutoResize d1 \<le> 0" using p d1(2) by (auto simp: kept_def same_def)
  then obtain d2 where d2: "dictExpandIfNeeded' cr d1 = Some d2" "kept d1 d2" "table (ht0 d2) \<noteq> None" "dictIsRehashing d1 \<longrightarrow> d2 = d1" "\<not> dictIsRehashing d1 \<longrightarrow> rehashidx d2 \<le> 0"
    using expand_if_needed_kept[OF kept_room[OF d1(2)]] by blast
  have k: "kept d d2" by (rule kept_trans[OF d1(2) d2(2)])
  then have s: "same d d2" "room d2" "dtype d2 = dtype d" "cont d2 = cont d" "dictGetHash d2 (key s) = dictGetHash d (key s)" by (auto simp: kept_def same_def dictGetHash_def)
  have "idx_ok d1 (key s) ?i" using idx_ok_step[OF r _ d1(3)] d1(2) by (simp add: kept_def)
  then have "idx_ok d2 (key s) ?i" using d2(4,5) by (auto simp: idx_ok_def)
  then obtain idx x where f: "find_tables d2 (key s) (dictGetHash d (key s)) ?i = Some (idx, x)" "searched d2 (key s) idx x"
    using find_tables_ok[OF _ s(2) d2(3)] ty s(3,5) by metis
  show ?thesis
  proof (cases x)
    case (Some l)
    then have "dictAddRaw cr d s = Some (Inl l, d2)" using d1(1) d2(1) f(1) by (simp add: dictAddRaw_def dictFindLinkForInsert_def Let_def key_def)
    then show ?thesis using Some f(2) k by (auto simp: searched_def)
  next
    case None
    let ?t = "if dictIsRehashing d2 then 1 else 0 :: nat" and ?s = "dupKey (dtype d) s"
    have m: "matches (dtype d) (key s) (cont d) = {#}" "idx = dictGetHash d2 (key s) AND DICTHT_SIZE_MASK (size_exp (ht d2 ?t))"
      using f(2) None s by (auto simp: searched_def)
    have "dictGetHash d2 (key s) = dictGetHash d2 (keyFromStoredKey (dtype d2) ?s)"
      using dictType_okD(2)[OF ty dupKey_eq[OF ty]] s(3) by (simp add: dictGetHash_def key_def)
    then have i: "idx = dictGetHash d2 (keyFromStoredKey (dtype d2) ?s) AND DICTHT_SIZE_MASK (size_exp (ht d2 ?t))" using m(2) by simp
    obtain y d' where y: "dictInsertKeyAtLink d2 ?s (?t, idx, 0) = Some ((?t, idx, 0), d')" "frame d2 d'" "cont d' = cont d2 + {# (?s, None) #}"
      "found d' (keyFromStoredKey (dtype d2) ?s) (?t, idx, 0)" "link_get d' (?t, idx, 0) = Some y" "strip y = (?s, None)" "isEntry y \<longleftrightarrow> \<not> no_value (dtype d2)"
      using insert_ok[OF s(2) d2(3) i] by blast
    have "dictAddRaw cr d s = Some (Inr (?t, idx, 0), d')"
      using d1(1) d2(1) f(1) None y(1) s(3) by (simp add: dictAddRaw_def dictFindLinkForInsert_def Let_def key_def dupKey_def)
    moreover have "added d ?s (?t, idx, 0) d'" using y s frame_same[OF s(1)] by (auto simp: added_def)
    ultimately show ?thesis using m(1) by auto
  qed
qed

lemma dictSetVal_ok:
  assumes "dict_wf d" "found d key l" "link_get d l = Some x" "isEntry x"
  shows "\<exists>d'. dictSetVal d l v = Some d' \<and> frame d d' \<and> cont d' + {# strip x #} = cont d + {# (dictGetKey x, Some (dupVal (dtype d) v)) #}"
proof -
  obtain k u where x: "x = Entry k u" using assms(4) by (cases x) auto
  have "\<exists>d'. link_set d l (Entry k (Some (dupVal (dtype d) v))) = Some d' \<and> frame d d' \<and> cont d' + {# strip x #} = cont d + {# strip (Entry k (Some (dupVal (dtype d) v))) #}"
    by (rule link_set_ok[OF assms(1-3)]) (simp_all add: x)
  then show ?thesis using assms(3) by (simp add: dictSetVal_def x dupVal_def)
qed

lemma dictAdd_ok:
  assumes ty: "dictType_ok (dtype d)" and r: "room d" and p: "table (ht0 d) \<noteq> None \<or> pauseAutoResize d \<le> 0"
  shows "\<exists>ok d'. dictAdd cr d s v = Some (ok, d') \<and> (ok \<longleftrightarrow> matches (dtype d) (keyFromStoredKey (dtype d) s) (cont d) = {#}) \<and>
    (if ok then frame d d' \<and> cont d' = cont d + {# (dupKey (dtype d) s, if no_value (dtype d) then None else Some (dupVal (dtype d) v)) #} else kept d d')"
proof -
  obtain x d1 where a: "dictAddRaw cr d s = Some (x, d1)"
    "case x of Inl l \<Rightarrow> kept d d1 \<and> found d1 (keyFromStoredKey (dtype d) s) l
     | Inr l \<Rightarrow> matches (dtype d) (keyFromStoredKey (dtype d) s) (cont d) = {#} \<and> added d (dupKey (dtype d) s) l d1"
    using dictAddRaw_ok[OF ty r p] by blast
  show ?thesis
  proof (cases x)
    case (Inl l)
    then have k: "kept d d1" "found d1 (keyFromStoredKey (dtype d) s) l" using a(2) by auto
    then have "matches (dtype d) (keyFromStoredKey (dtype d) s) (cont d) \<noteq> {#}" using found_entry[OF k(2)] by (auto simp: kept_def same_def)
    then show ?thesis using a(1) Inl k(1) by (auto simp: dictAdd_def)
  next
    case (Inr l)
    then have m: "matches (dtype d) (keyFromStoredKey (dtype d) s) (cont d) = {#}" and ad: "added d (dupKey (dtype d) s) l d1" using a(2) by auto
    have ty1: "dtype d1 = dtype d" "dict_wf d1" using ad by (auto simp: added_def frame_def)
    show ?thesis
    proof (cases "no_value (dtype d)")
      case True
      then show ?thesis using a(1) Inr m ad ty1 by (auto simp: dictAdd_def added_def)
    next
      case False
      obtain y where y: "link_get d1 l = Some y" "strip y = (dupKey (dtype d) s, None)" "isEntry y" and f: "found d1 (keyFromStoredKey (dtype d) (dupKey (dtype d) s)) l"
        using ad False by (auto simp: added_def)
      obtain d2 where d2: "dictSetVal d1 l v = Some d2" "frame d1 d2" "cont d2 + {# strip y #} = cont d1 + {# (dictGetKey y, Some (dupVal (dtype d1) v)) #}"
        using dictSetVal_ok[OF ty1(2) f y(1,3)] by blast
      have "dictGetKey y = dupKey (dtype d) s" using y(2) by (metis fst_conv fst_strip)
      then have "cont d2 + {# (dupKey (dtype d) s, None) #} = (cont d + {# (dupKey (dtype d) s, Some (dupVal (dtype d) v)) #}) + {# (dupKey (dtype d) s, None) #}"
        using d2(3) y(2) ad ty1(1) by (simp add: added_def)
      then have "cont d2 = cont d + {# (dupKey (dtype d) s, Some (dupVal (dtype d) v)) #}" by (rule add_right_imp_eq)
      moreover have "frame d d2" using ad d2(2) by (auto simp: added_def frame_def)
      ultimately show ?thesis using a(1) Inr m d2(1) False ty1(1) by (auto simp: dictAdd_def)
    qed
  qed
qed

lemma found_isEntry: assumes "found d key l" "link_get d l = Some x" shows "isEntry x \<longleftrightarrow> \<not> no_value (dtype d)"
proof -
  obtain t i p where l: "l = (t, i, p)" by (cases l)
  from assms(1) obtain e tb where g: "ht_ok (dtype d) (ht d t) e tb" "unat i < 2 ^ e" "p < length (tb ! unat i)" "slot (ht d t) (uint i) = Some (tb ! unat i)"
    unfolding l by (rule foundD)
  then have "x \<in> set (tb ! unat i)" using assms(2) by (auto simp: l link_get_def)
  then show ?thesis using ht_okD(6)[OF g(1,2)] by (simp add: chain_ok_def)
qed

lemma strip_Entry: "isEntry x \<Longrightarrow> strip x = (dictGetKey x, dictGetVal x)"
  by (cases x) (auto simp: dictGetVal_def)

lemma dictReplace_ok:
  assumes ty: "dictType_ok (dtype d)" and r: "room d" and p: "table (ht0 d) \<noteq> None \<or> pauseAutoResize d \<le> 0"
    and nv: "\<not> no_value (dtype d)" and v: "\<forall>x \<in># cont d. snd x \<noteq> None"
  shows "\<exists>new old d'. dictReplace cr d s v = Some (new, old, d') \<and> frame d d' \<and>
    (if new then matches (dtype d) (keyFromStoredKey (dtype d) s) (cont d) = {#} \<and> cont d' = cont d + {# (dupKey (dtype d) s, Some (dupVal (dtype d) v)) #}
     else \<exists>s0. (s0, old) \<in># matches (dtype d) (keyFromStoredKey (dtype d) s) (cont d) \<and> cont d' + {# (s0, old) #} = cont d + {# (s0, Some (dupVal (dtype d) v)) #})"
proof -
  obtain x d1 where a: "dictAddRaw cr d s = Some (x, d1)"
    "case x of Inl l \<Rightarrow> kept d d1 \<and> found d1 (keyFromStoredKey (dtype d) s) l
     | Inr l \<Rightarrow> matches (dtype d) (keyFromStoredKey (dtype d) s) (cont d) = {#} \<and> added d (dupKey (dtype d) s) l d1"
    using dictAddRaw_ok[OF ty r p] by blast
  show ?thesis
  proof (cases x)
    case (Inl l)
    then have k: "kept d d1" and f: "found d1 (keyFromStoredKey (dtype d) s) l" using a(2) by auto
    have sm: "dtype d1 = dtype d" "cont d1 = cont d" "dict_wf d1" using k by (auto simp: kept_def same_def room_def)
    obtain y where y: "link_get d1 l = Some y" "strip y \<in># matches (dtype d) (keyFromStoredKey (dtype d) s) (cont d)" using found_entry[OF f] sm by auto
    have e: "isEntry y" using found_isEntry[OF f y(1)] nv sm by simp
    have "strip y \<in># cont d" using y(2) by (simp add: matches_def)
    then obtain old where old: "dictGetVal y = Some old" using v strip_Entry[OF e] by auto
    obtain d2 where d2: "dictSetVal d1 l v = Some d2" "frame d1 d2" "cont d2 + {# strip y #} = cont d1 + {# (dictGetKey y, Some (dupVal (dtype d1) v)) #}"
      using dictSetVal_ok[OF sm(3) f y(1) e] by blast
    have "dictReplace cr d s v = Some (False, Some old, d2)" using a(1) Inl y(1) old d2(1) by (simp add: dictReplace_def)
    moreover have "frame d d2" using d2(2) k by (auto simp: frame_def kept_def same_def)
    ultimately show ?thesis using y(2) d2(3) sm strip_Entry[OF e] old by auto
  next
    case (Inr l)
    then have m: "matches (dtype d) (keyFromStoredKey (dtype d) s) (cont d) = {#}" and ad: "added d (dupKey (dtype d) s) l d1" using a(2) by auto
    have ty1: "dtype d1 = dtype d" "dict_wf d1" using ad by (auto simp: added_def frame_def)
    obtain y where y: "link_get d1 l = Some y" "strip y = (dupKey (dtype d) s, None)" "isEntry y" and f: "found d1 (keyFromStoredKey (dtype d) (dupKey (dtype d) s)) l"
      using ad nv by (auto simp: added_def)
    obtain d2 where d2: "dictSetVal d1 l v = Some d2" "frame d1 d2" "cont d2 + {# strip y #} = cont d1 + {# (dictGetKey y, Some (dupVal (dtype d1) v)) #}"
      using dictSetVal_ok[OF ty1(2) f y(1,3)] by blast
    have "dictGetKey y = dupKey (dtype d) s" using y(2) by (metis fst_conv fst_strip)
    then have "cont d2 + {# (dupKey (dtype d) s, None) #} = (cont d + {# (dupKey (dtype d) s, Some (dupVal (dtype d) v)) #}) + {# (dupKey (dtype d) s, None) #}"
      using d2(3) y(2) ad ty1(1) by (simp add: added_def)
    then have "cont d2 = cont d + {# (dupKey (dtype d) s, Some (dupVal (dtype d) v)) #}" by (rule add_right_imp_eq)
    moreover have "frame d d2" using ad d2(2) by (auto simp: added_def frame_def)
    ultimately show ?thesis using a(1) Inr m d2(1) by (auto simp: dictReplace_def)
  qed
qed

section \<open>Refinement of a map\<close>

definition dictSetResizeEnabled :: "dictResizeEnable \<Rightarrow> dictResizeEnable \<Rightarrow> dictResizeEnable" where
  "dictSetResizeEnabled enable dict_can_resize = enable"

datatype ('k, 's, 'v) dcmd = CAdd 's 'v | CReplace 's 'v | CDelete 'k | CFind 'k | CRehash int | CExpand u64 | CShrink u64 | CPolicy dictResizeEnable

datatype ('s, 'v) dres = RBool bool | REntry "('s \<times> 'v option) option" | RNone

text \<open>The state is the global policy and the dictionary.\<close>

fun dict_step :: "('k, 's, 'v) dcmd \<Rightarrow> dictResizeEnable \<times> ('k, 's, 'v) dict \<Rightarrow> (('s, 'v) dres \<times> dictResizeEnable \<times> ('k, 's, 'v) dict) option" where
  "dict_step (CAdd s v) (cr, d) = do { (ok, d) \<leftarrow> dictAdd cr d s v; Some (RBool ok, cr, d) }"
| "dict_step (CReplace s v) (cr, d) = do { (new, old, d) \<leftarrow> dictReplace cr d s v; Some (RBool new, cr, d) }"
| "dict_step (CDelete k) (cr, d) = do { (ok, d) \<leftarrow> dictDelete cr d k; Some (RBool ok, cr, d) }"
| "dict_step (CFind k) (cr, d) = do { (e, d) \<leftarrow> dictFind cr d k; Some (REntry (map_option strip e), cr, d) }"
| "dict_step (CRehash n) (cr, d) = do { (more, d) \<leftarrow> dictRehash cr d n; Some (RNone, cr, d) }"
| "dict_step (CExpand sz) (cr, d) = do { (ok, d) \<leftarrow> dictExpand cr d sz; Some (RNone, cr, d) }"
| "dict_step (CShrink sz) (cr, d) = do { (ok, d) \<leftarrow> dictShrink cr d sz; Some (RNone, cr, d) }"
| "dict_step (CPolicy e) (cr, d) = Some (RNone, dictSetResizeEnabled e cr, d)"

text \<open>The same on a partial function from keys to the stored key and the value.\<close>

fun map_step :: "('k, 's, 'v) dictType \<Rightarrow> ('k, 's, 'v) dcmd \<Rightarrow> ('k \<Rightarrow> ('s \<times> 'v option) option) \<Rightarrow> ('s, 'v) dres \<times> ('k \<Rightarrow> ('s \<times> 'v option) option)" where
  "map_step ty (CAdd s v) M = (let k = keyFromStoredKey ty s in
     if M k = None then (RBool True, \<lambda>k'. if keq ty k' k then Some (dupKey ty s, if no_value ty then None else Some (dupVal ty v)) else M k') else (RBool False, M))"
| "map_step ty (CReplace s v) M = (let k = keyFromStoredKey ty s in
     (RBool (M k = None), \<lambda>k'. if keq ty k' k then Some (case M k of None \<Rightarrow> dupKey ty s | Some (s0, _) \<Rightarrow> s0, Some (dupVal ty v)) else M k'))"
| "map_step ty (CDelete k) M = (RBool (M k \<noteq> None), \<lambda>k'. if keq ty k' k then None else M k')"
| "map_step ty (CFind k) M = (REntry (M k), M)"
| "map_step ty _ M = (RNone, M)"

text \<open>\<open>dictReplace\<close> needs values, and the number of buckets of \<open>dictRehash\<close> must not make \<open>n * 10\<close> overflow an \<open>int\<close>.\<close>

definition cmd_ok :: "('k, 's, 'v) dictType \<Rightarrow> ('k, 's, 'v) dcmd \<Rightarrow> bool" where
  "cmd_ok ty c \<longleftrightarrow> (case c of CReplace s v \<Rightarrow> \<not> no_value ty | CRehash n \<Rightarrow> 0 \<le> n \<and> n \<le> 214748364 | _ \<Rightarrow> True)"

definition contents_map :: "('k, 's, 'v) dictType \<Rightarrow> ('s \<times> 'v option) multiset \<Rightarrow> ('k \<Rightarrow> ('s \<times> 'v option) option) \<Rightarrow> bool" where
  "contents_map ty C M \<longleftrightarrow> (\<forall>k. matches ty k C = (case M k of None \<Rightarrow> {#} | Some x \<Rightarrow> {# x #}))"

text \<open>The dictionary stands for the map, with room for \<open>n\<close> more elements.\<close>

definition dict_rep :: "('k, 's, 'v) dictType \<Rightarrow> nat \<Rightarrow> dictResizeEnable \<times> ('k, 's, 'v) dict \<Rightarrow> ('k \<Rightarrow> ('s \<times> 'v option) option) \<Rightarrow> bool" where
  "dict_rep ty n st M \<longleftrightarrow> (let d = snd st in dtype d = ty \<and> dict_wf d \<and> size (cont d) + n < 2 ^ 64 \<and> contents_map ty (cont d) M \<and>
     (no_value ty \<or> (\<forall>x \<in># cont d. snd x \<noteq> None)) \<and> (table (ht0 d) \<noteq> None \<or> pauseAutoResize d \<le> 0))"

lemma contents_map_add:
  assumes ty: "dictType_ok ty" and m: "contents_map ty C M" "matches ty (keyFromStoredKey ty s) C = {#}" and s: "keq ty (keyFromStoredKey ty s) (keyFromStoredKey ty (fst x))"
  shows "contents_map ty (C + {# x #}) (\<lambda>k. if keq ty k (keyFromStoredKey ty s) then Some x else M k)"
  unfolding contents_map_def
proof
  fix k
  have e: "keq ty k (keyFromStoredKey ty (fst x)) \<longleftrightarrow> keq ty k (keyFromStoredKey ty s)" using s dictType_okD(1,3)[OF ty] by blast
  show "matches ty k (C + {# x #}) = (case if keq ty k (keyFromStoredKey ty s) then Some x else M k of None \<Rightarrow> {#} | Some x \<Rightarrow> {# x #})"
  proof (cases "keq ty k (keyFromStoredKey ty s)")
    case True
    then have "matches ty k C = {#}" using matches_cong[OF ty True] m(2) by simp
    then show ?thesis using True e by (simp add: matches_def)
  next
    case False
    then show ?thesis using e m(1) by (simp add: matches_def contents_map_def)
  qed
qed

lemma contents_map_del:
  assumes ty: "dictType_ok ty" and m: "contents_map ty C M" "x \<in># matches ty key C" and c: "C = C' + {# x #}"
  shows "contents_map ty C' (\<lambda>k. if keq ty k key then None else M k)" "M key = Some x"
proof -
  have x: "keq ty key (keyFromStoredKey ty (fst x))" using m(2) by (simp add: matches_def)
  show k: "M key = Some x" using m unfolding contents_map_def by (cases "M key") auto
  show "contents_map ty C' (\<lambda>k. if keq ty k key then None else M k)" unfolding contents_map_def
  proof
    fix k
    have e: "keq ty k (keyFromStoredKey ty (fst x)) \<longleftrightarrow> keq ty k key" using x dictType_okD(1,3)[OF ty] by blast
    show "matches ty k C' = (case if keq ty k key then None else M k of None \<Rightarrow> {#} | Some x \<Rightarrow> {# x #})"
    proof (cases "keq ty k key")
      case True
      have "matches ty key C = {# x #}" using m(1) k by (simp add: contents_map_def)
      then have "matches ty k C = {# x #}" using matches_cong[OF ty True, of C] by simp
      then have "matches ty k C' + {# x #} = {# x #}" using True e c by (simp add: matches_def)
      then show ?thesis using True by simp
    next
      case False
      then have "matches ty k C = matches ty k C'" using e c by (simp add: matches_def)
      then show ?thesis using False m(1) by (simp add: contents_map_def)
    qed
  qed
qed

lemma contents_None: "contents_map ty C M \<Longrightarrow> M k = None \<longleftrightarrow> matches ty k C = {#}"
  by (cases "M k") (auto simp: contents_map_def)

lemma contents_Some: "contents_map ty C M \<Longrightarrow> x \<in># matches ty k C \<Longrightarrow> M k = Some x"
  by (cases "M k") (auto simp: contents_map_def)

lemma rep_kept: "dict_rep ty (Suc n) (cr, d) M \<Longrightarrow> kept d d' \<Longrightarrow> dict_rep ty n (cr', d') M"
  by (auto simp: dict_rep_def kept_def same_def room_def)

lemma rep_room: "dict_rep ty n (cr, d) M \<Longrightarrow> room d"
  by (simp add: dict_rep_def room_def)

lemma rep_frame:
  "dict_rep ty (Suc n) (cr, d) M \<Longrightarrow> frame d d' \<Longrightarrow> size (cont d') \<le> Suc (size (cont d)) \<Longrightarrow> contents_map ty (cont d') M' \<Longrightarrow>
   no_value ty \<or> (\<forall>x \<in># cont d'. snd x \<noteq> None) \<Longrightarrow> dict_rep ty n (cr, d') M'"
  by (auto simp: dict_rep_def frame_def)

text \<open>One command at a time.\<close>

definition step_ok :: "('k, 's, 'v) dictType \<Rightarrow> nat \<Rightarrow> ('k, 's, 'v) dcmd \<Rightarrow> dictResizeEnable \<times> ('k, 's, 'v) dict \<Rightarrow> ('k \<Rightarrow> ('s \<times> 'v option) option) \<Rightarrow> bool" where
  "step_ok ty n c st M \<longleftrightarrow> (\<exists>st'. dict_step c st = Some (fst (map_step ty c M), st') \<and> dict_rep ty n st' (snd (map_step ty c M)))"

lemma rep_facts:
  assumes "dict_rep ty (Suc n) (cr, d) M"
  shows "dtype d = ty" "contents_map ty (cont d) M" "no_value ty \<or> (\<forall>x \<in># cont d. snd x \<noteq> None)" "table (ht0 d) \<noteq> None \<or> pauseAutoResize d \<le> 0" "room d"
  using assms rep_room[OF assms] by (simp_all add: dict_rep_def)

lemma add_step:
  assumes ty: "dictType_ok ty" and r': "dict_rep ty (Suc n) (cr, d) M"
  shows "step_ok ty n (CAdd s u) (cr, d) M"
proof -
  note t = rep_facts(1)[OF r'] and m = rep_facts(2)[OF r'] and v = rep_facts(3)[OF r'] and p = rep_facts(4)[OF r'] and rm = rep_facts(5)[OF r']
  have tyd: "dictType_ok (dtype d)" using ty t by simp
  obtain ok d' where a: "dictAdd cr d s u = Some (ok, d')" "ok \<longleftrightarrow> matches ty (keyFromStoredKey ty s) (cont d) = {#}"
    "if ok then frame d d' \<and> cont d' = cont d + {# (dupKey ty s, if no_value ty then None else Some (dupVal ty u)) #} else kept d d'"
    using dictAdd_ok[OF tyd rm p] t by blast
  show ?thesis
  proof (cases ok)
    case True
    let ?x = "(dupKey ty s, if no_value ty then None else Some (dupVal ty u))"
    have "contents_map ty (cont d') (\<lambda>k'. if keq ty k' (keyFromStoredKey ty s) then Some ?x else M k')"
      using contents_map_add[OF ty m, of s ?x] a(2,3) True dupKey_eq[OF ty, of s] by simp
    then have "dict_rep ty n (cr, d') (\<lambda>k'. if keq ty k' (keyFromStoredKey ty s) then Some ?x else M k')"
      by (rule rep_frame[OF r', rotated 2]) (use a(3) True v in auto)
    then show ?thesis using a(1,2) True contents_None[OF m] by (simp add: step_ok_def Let_def)
  next
    case False
    then show ?thesis using a contents_None[OF m, of "keyFromStoredKey ty s"] rep_kept[OF r'] by (auto simp: step_ok_def)
  qed
qed

lemma replace_step:
  assumes ty: "dictType_ok ty" and r': "dict_rep ty (Suc n) (cr, d) M" and c: "\<not> no_value ty"
  shows "step_ok ty n (CReplace s u) (cr, d) M"
proof -
  note t = rep_facts(1)[OF r'] and m = rep_facts(2)[OF r'] and v = rep_facts(3)[OF r'] and p = rep_facts(4)[OF r'] and rm = rep_facts(5)[OF r']
  have tyd: "dictType_ok (dtype d)" using ty t by simp
  have nv: "\<not> no_value (dtype d)" using c t by simp
  then obtain new old d' where a: "dictReplace cr d s u = Some (new, old, d')" "frame d d'"
    "if new then matches ty (keyFromStoredKey ty s) (cont d) = {#} \<and> cont d' = cont d + {# (dupKey ty s, Some (dupVal ty u)) #}
     else \<exists>s0. (s0, old) \<in># matches ty (keyFromStoredKey ty s) (cont d) \<and> cont d' + {# (s0, old) #} = cont d + {# (s0, Some (dupVal ty u)) #}"
    using dictReplace_ok[OF tyd rm p nv] v t by blast
  show ?thesis
  proof (cases new)
    case True
    let ?x = "(dupKey ty s, Some (dupVal ty u))"
    have "contents_map ty (cont d') (\<lambda>k'. if keq ty k' (keyFromStoredKey ty s) then Some ?x else M k')"
      using contents_map_add[OF ty m, of s ?x] a(3) True dupKey_eq[OF ty, of s] by simp
    then have "dict_rep ty n (cr, d') (\<lambda>k'. if keq ty k' (keyFromStoredKey ty s) then Some ?x else M k')"
      by (rule rep_frame[OF r' a(2), rotated]) (use a(3) True v in auto)
    moreover have N: "M (keyFromStoredKey ty s) = None" using a(3) True contents_None[OF m] by simp
    ultimately show ?thesis using a(1) True unfolding step_ok_def map_step.simps Let_def N option.case by simp
  next
    case False
    then obtain s0 where s0: "(s0, old) \<in># matches ty (keyFromStoredKey ty s) (cont d)" "cont d' + {# (s0, old) #} = cont d + {# (s0, Some (dupVal ty u)) #}" using a(3) by auto
    let ?k = "keyFromStoredKey ty s" and ?x = "(s0, Some (dupVal ty u))"
    have in0: "(s0, old) \<in># cont d" "keq ty ?k (keyFromStoredKey ty s0)" using s0(1) by (auto simp: matches_def)
    then obtain C where C: "cont d = C + {# (s0, old) #}" by (metis add_mset_add_single mset_add)
    then have d': "cont d' = C + {# ?x #}" using s0(2) by simp
    note D = contents_map_del[OF ty m s0(1) C]
    have "matches ty ?k C = {#}" using D(1) by (simp add: contents_map_def)
    then have "contents_map ty (cont d') (\<lambda>k'. if keq ty k' ?k then Some ?x else (if keq ty k' ?k then None else M k'))"
      using contents_map_add[OF ty D(1), of s ?x] in0(2) d' by simp
    moreover have "(\<lambda>k'. if keq ty k' ?k then Some ?x else (if keq ty k' ?k then None else M k')) = (\<lambda>k'. if keq ty k' ?k then Some ?x else M k')" by auto
    ultimately have "contents_map ty (cont d') (\<lambda>k'. if keq ty k' ?k then Some ?x else M k')" by simp
    then have "dict_rep ty n (cr, d') (\<lambda>k'. if keq ty k' ?k then Some ?x else M k')"
      by (rule rep_frame[OF r' a(2), rotated]) (use C d' v in auto)
    then show ?thesis using a(1) False unfolding step_ok_def map_step.simps Let_def D(2) option.case prod.case by simp
  qed
qed

lemma delete_step:
  assumes ty: "dictType_ok ty" and r': "dict_rep ty (Suc n) (cr, d) M"
  shows "step_ok ty n (CDelete k) (cr, d) M"
proof -
  note t = rep_facts(1)[OF r'] and m = rep_facts(2)[OF r'] and v = rep_facts(3)[OF r'] and p = rep_facts(4)[OF r'] and rm = rep_facts(5)[OF r']
  have tyd: "dictType_ok (dtype d)" using ty t by simp
  obtain x d' where a: "dictGenericDelete cr d k = Some (x, d')"
    "case x of None \<Rightarrow> kept d d' \<and> matches ty k (cont d) = {#} | Some e \<Rightarrow> frame d d' \<and> strip e \<in># matches ty k (cont d) \<and> cont d = cont d' + {# strip e #}"
    using dictGenericDelete_ok[OF tyd rm] t by blast
  show ?thesis
  proof (cases x)
    case None
    then have k: "kept d d'" "M k = None" using a(2) contents_None[OF m] by auto
    have "(\<lambda>k'. if keq ty k' k then None else M k') = M"
      using matches_cong[OF ty] contents_None[OF m] k(2) by (intro ext) (metis)
    then show ?thesis using a(1) None  k rep_kept[OF r' k(1)] by (simp add: step_ok_def dictDelete_def)
  next
    case (Some e)
    then have e: "frame d d'" "strip e \<in># matches ty k (cont d)" "cont d = cont d' + {# strip e #}" using a(2) by auto
    note D = contents_map_del[OF ty m e(2,3)]
    have "dict_rep ty n (cr, d') (\<lambda>k'. if keq ty k' k then None else M k')"
      by (rule rep_frame[OF r' e(1) _ D(1)]) (use e(3) v in auto)
    then show ?thesis using a(1) Some  D(2) by (simp add: step_ok_def dictDelete_def)
  qed
qed

lemma find_step:
  assumes ty: "dictType_ok ty" and r': "dict_rep ty (Suc n) (cr, d) M"
  shows "step_ok ty n (CFind k) (cr, d) M"
proof -
  note t = rep_facts(1)[OF r'] and m = rep_facts(2)[OF r'] and v = rep_facts(3)[OF r'] and p = rep_facts(4)[OF r'] and rm = rep_facts(5)[OF r']
  have tyd: "dictType_ok (dtype d)" using ty t by simp
  obtain x d' where a: "dictFind cr d k = Some (x, d')" "kept d d'" "case x of None \<Rightarrow> matches ty k (cont d) = {#} | Some e \<Rightarrow> strip e \<in># matches ty k (cont d)"
    using dictFind_ok[OF tyd rm] t by blast
  have "M k = map_option strip x" using a(3) contents_None[OF m] contents_Some[OF m] by (cases x) auto
  then show ?thesis
    using a(1) rep_kept[OF r' a(2)] by (simp add: step_ok_def)
qed

lemma dict_step_ok:
  assumes ty: "dictType_ok ty" and r: "dict_rep ty (Suc n) st M" and c: "cmd_ok ty c"
  shows "\<exists>st'. dict_step c st = Some (fst (map_step ty c M), st') \<and> dict_rep ty n st' (snd (map_step ty c M))"
proof -
  obtain cr d where st: "st = (cr, d)" by (cases st)
  have r': "dict_rep ty (Suc n) (cr, d) M" using r st by simp
  note rm = rep_facts(5)[OF r']
  have "step_ok ty n c (cr, d) M"
  proof (cases c)
    case (CRehash k)
    then show ?thesis using rehash_kept[OF rm, of k cr] rep_kept[OF r'] c by (auto simp: step_ok_def cmd_ok_def)
  next
    case (CExpand k)
    then show ?thesis using expand_kept[OF rm, of cr k] rep_kept[OF r'] by (auto simp: step_ok_def)
  next
    case (CShrink k)
    then show ?thesis using shrink_kept[OF rm, of cr k] rep_kept[OF r'] by (auto simp: step_ok_def)
  qed (use c rep_kept[OF r' kept_refl[OF rm]] in \<open>auto simp: step_ok_def[of ty n "CPolicy e" for e] cmd_ok_def intro: add_step[OF ty r'] replace_step[OF ty r'] delete_step[OF ty r'] find_step[OF ty r']\<close>)
  then show ?thesis by (simp add: step_ok_def st)
qed

end
