(* ===== verification/DictScan.thy ===== *)
theory DictScan
  imports DictOps
begin

text \<open>
  The cursor of \<open>dictScan\<close>: the order of the reversed bits, and the elements that one call returns.
\<close>

section \<open>The reversed cursor\<close>

definition swap :: "nat \<Rightarrow> nat \<Rightarrow> nat" where "swap s n = (if even (n div s) then n + s else n - s)"

definition blocks :: "nat \<Rightarrow> u64 \<Rightarrow> bool" where "blocks s m \<longleftrightarrow> (\<forall>n < 64. bit m n \<longleftrightarrow> even (n div s))"

lemma half_parity: "even ((q :: nat) div 2) \<noteq> (0 < q \<and> even ((q - 1) div 2)) \<longleftrightarrow> even q"
proof (cases "even q")
  case True
  then obtain k where "q = 2 * k" by blast
  then show ?thesis by (cases k) auto
next
  case False
  then obtain k where "q = 2 * k + 1" by (metis oddE)
  then show ?thesis by simp
qed

lemma blocks_step: "0 < s \<Longrightarrow> blocks (2 * s) m \<Longrightarrow> blocks s (m XOR push_bit s m)"
  unfolding blocks_def
proof (intro allI impI)
  fix n :: nat assume s: "0 < s" and m: "\<forall>n < 64. bit m n \<longleftrightarrow> even (n div (2 * s))" and n: "n < 64"
  have d: "k div (2 * s) = k div s div 2" for k by (metis div_mult2_eq mult.commute)
  have "s \<le> n \<longleftrightarrow> 0 < n div s" using s by (simp add: div_greater_zero_iff)
  moreover have "(n - s) div s = n div s - 1" using s by (cases "s \<le> n") (simp_all add: le_div_geq)
  ultimately show "bit (m XOR push_bit s m) n \<longleftrightarrow> even (n div s)"
    using half_parity[of "n div s"] m n by (auto simp: bit_simps d)
qed

lemma rev_step_bit:
  assumes "0 < s" "blocks (2 * s) m" "n < 64" "swap s n < 64"
  shows "bit (snd (rev_step s (m, v))) n = bit v (swap s n)"
proof -
  have b: "bit (m XOR push_bit s m) n \<longleftrightarrow> even (n div s)" using blocks_step[OF assms(1,2)] assms(3) by (simp add: blocks_def)
  have "odd (n div s) \<Longrightarrow> s \<le> n" by (metis div_less even_zero not_le)
  then show ?thesis using assms(3,4) b by (cases "even (n div s)") (simp_all add: swap_def Let_def bit_or_iff bit_and_iff bit_drop_bit_eq bit_push_bit_iff bit_not_iff add.commute)
qed

declare rev_step.simps [simp del]

text \<open>The position of a bit after the blocks of \<open>s\<close> bits have been reversed.\<close>

definition blk :: "nat \<Rightarrow> nat \<Rightarrow> nat" where "blk s n = n div s * s + (s - 1 - n mod s)"

lemma swap_blk: assumes s: "0 < s" shows "swap s (blk s n) = blk (2 * s) n"
proof -
  let ?q = "n div s" and ?r = "n mod s"
  have r: "?r < s" using s by simp
  then have d: "blk s n div s = ?q" using s by (simp add: blk_def)
  have dm: "n div (2 * s) = ?q div 2" "n mod (2 * s) = s * (?q mod 2) + ?r" by (simp_all only: mult.commute[of 2 s] div_mult2_eq mod_mult2_eq)
  show ?thesis
  proof (cases "even ?q")
    case True
    then obtain p where p: "?q = 2 * p" by blast
    then have "n mod (2 * s) = ?r" "n div (2 * s) = p" using dm by simp_all
    then show ?thesis using True r d p by (simp add: swap_def blk_def)
  next
    case False
    then obtain p where p: "?q = 2 * p + 1" by (metis oddE)
    then have "n mod (2 * s) = s + ?r" "n div (2 * s) = p" using dm by simp_all
    then show ?thesis using False r d p by (simp add: swap_def blk_def)
  qed
qed

lemma blk_less: "n < 64 \<Longrightarrow> s * k = 64 \<Longrightarrow> blk s n < 64"
proof -
  assume n: "n < 64" and k: "s * k = 64"
  then have s: "0 < s" by (cases s) auto
  have "n div s < k" using n k s by (metis div_less_iff_less_mult mult.commute)
  then have "n div s * s + s \<le> k * s" by (metis Suc_leI add.commute mult_Suc mult_le_mono1)
  moreover have "s - 1 - n mod s < s" using s by simp
  ultimately show ?thesis using k by (simp add: blk_def mult.commute)
qed

lemma dict_rev_bit: assumes n: "n < 64" shows "bit (dict_rev v) n = bit v (63 - n)"
proof -
  have e: "fst (rev_step s p) = fst p XOR push_bit s (fst p)" for s p by (cases p) (simp add: rev_step.simps Let_def)
  define p0 where "p0 = (NOT 0 :: u64, v)"
  define p1 where "p1 = rev_step 32 p0"
  define p2 where "p2 = rev_step 16 p1"
  define p3 where "p3 = rev_step 8 p2"
  define p4 where "p4 = rev_step 4 p3"
  define p5 where "p5 = rev_step 2 p4"
  have b: "blocks 64 (fst p0)" "blocks 32 (fst p1)" "blocks 16 (fst p2)" "blocks 8 (fst p3)" "blocks 4 (fst p4)" "blocks 2 (fst p5)"
  proof -
    show 0: "blocks 64 (fst p0)" by (simp add: p0_def blocks_def)
    show 1: "blocks 32 (fst p1)" using blocks_step[of 32] 0 unfolding p1_def e by simp
    show 2: "blocks 16 (fst p2)" using blocks_step[of 16] 1 unfolding p2_def e by simp
    show 3: "blocks 8 (fst p3)" using blocks_step[of 8] 2 unfolding p3_def e by simp
    show 4: "blocks 4 (fst p4)" using blocks_step[of 4] 3 unfolding p4_def e by simp
    show "blocks 2 (fst p5)" using blocks_step[of 2] 4 unfolding p5_def e by simp
  qed
  have st: "bit (snd (rev_step s p)) (blk s n) = bit (snd p) (blk (2 * s) n)" if "blocks (2 * s) (fst p)" "s * k = 64" "2 * s * k' = 64" for s p k k'
  proof -
    have s: "0 < s" using that(2) by (cases s) auto
    have l: "blk s n < 64" "swap s (blk s n) < 64" using blk_less[OF n that(2)] blk_less[OF n that(3)] swap_blk[OF s] by simp_all
    show ?thesis using rev_step_bit[OF s that(1) l, of "snd p"] swap_blk[OF s, of n] by simp
  qed
  have "dict_rev v = snd (rev_step 1 p5)" by (simp add: dict_rev_def p0_def p1_def p2_def p3_def p4_def p5_def)
  moreover have "blk 1 n = n" "blk 64 n = 63 - n" using n by (simp_all add: blk_def)
  ultimately show ?thesis
    using st[of 1 p5 64 32] st[of 2 p4 32 16, folded p5_def] st[of 4 p3 16 8, folded p4_def] st[of 8 p2 8 4, folded p3_def]
      st[of 16 p1 4 2, folded p2_def] st[of 32 p0 2 1, folded p1_def] b by (simp add: p0_def)
qed

lemma dict_rev_rev [simp]: "dict_rev (dict_rev v) = v"
  by (rule bit_eqI) (auto simp: dict_rev_bit)

lemma dict_rev_zero: "dict_rev v = 0 \<longleftrightarrow> v = 0"
proof -
  have "dict_rev 0 = 0" by (rule bit_eqI) (simp add: dict_rev_bit)
  then show ?thesis by (metis dict_rev_rev)
qed

text \<open>The place of a cursor or of a hash in the order in which a scan visits them.\<close>

definition place :: "u64 \<Rightarrow> nat" where "place v = unat (dict_rev v)"

lemma place_less: "place v < 2 ^ 64"
  using unsigned_less[of "dict_rev v", where 'a = nat] by (simp add: place_def)

lemma place_zero: "place v = 0 \<longleftrightarrow> v = 0"
  unfolding place_def by (metis dict_rev_zero unat_eq_zero)

lemma unat_drop: "unat (drop_bit k w) = unat w div 2 ^ k" for w :: u64
proof -
  have "take_bit 64 (unat w) = unat w" using unsigned_less[of w, where 'a = nat] by (simp add: take_bit_nat_eq_self_iff)
  then have "unat (drop_bit k w) = drop_bit k (unat w)" using unsigned_drop_bit_eq[of k w, where 'a = nat] by simp
  then show ?thesis by (simp only: drop_bit_eq_div)
qed

lemma unat_take: "unat (take_bit k w) = unat w mod 2 ^ k" for w :: u64
  by (simp only: unsigned_take_bit_eq) (simp only: take_bit_eq_mod)

lemma unat_mask: "k \<le> 64 \<Longrightarrow> unat (mask k :: u64) = mask k"
  by (rule bit_eqI) (auto simp: bit_unsigned_iff bit_simps)

lemma rev_bits: "e \<le> 64 \<Longrightarrow> n < e \<Longrightarrow> bit (drop_bit (64 - e) (dict_rev v)) n = bit v (e - 1 - n)"
proof -
  assume "e \<le> 64" "n < e"
  then have "64 - e + n < 64" "63 - (64 - e + n) = e - 1 - n" by linarith+
  then show ?thesis by (simp add: bit_drop_bit_eq dict_rev_bit)
qed

lemma rev_bits_above: "e \<le> 64 \<Longrightarrow> e \<le> n \<Longrightarrow> \<not> bit (drop_bit (64 - e) (dict_rev v)) n"
  using bit_imp_le_length[of "dict_rev v" "64 - e + n"] by (auto simp: bit_drop_bit_eq)

lemma rev_drop_take:
  assumes e: "e \<le> 64" shows "drop_bit (64 - e) (dict_rev h) = drop_bit (64 - e) (dict_rev v) \<longleftrightarrow> take_bit e h = take_bit e v"
proof
  assume a: "drop_bit (64 - e) (dict_rev h) = drop_bit (64 - e) (dict_rev v)"
  have "bit h n = bit v n" if n: "n < e" for n
  proof -
    have "e - 1 - n < e" "e - 1 - (e - 1 - n) = n" using n by simp_all
    then show ?thesis using rev_bits[OF e, of "e - 1 - n" h] rev_bits[OF e, of "e - 1 - n" v] a by simp
  qed
  then show "take_bit e h = take_bit e v" by (intro bit_eqI) (auto simp: bit_take_bit_iff)
next
  assume a: "take_bit e h = take_bit e v"
  have "bit h n = bit v n" if "n < e" for n using arg_cong[OF a, of "\<lambda>x. bit x n"] that by (simp add: bit_take_bit_iff)
  then have "bit (drop_bit (64 - e) (dict_rev h)) n = bit (drop_bit (64 - e) (dict_rev v)) n" for n
    using rev_bits[OF e, of n] rev_bits_above[OF e, of n] by (cases "n < e") simp_all
  then show "drop_bit (64 - e) (dict_rev h) = drop_bit (64 - e) (dict_rev v)" by (intro bit_eqI)
qed

lemma place_block: "e \<le> 64 \<Longrightarrow> place h div 2 ^ (64 - e) = place v div 2 ^ (64 - e) \<longleftrightarrow> unat h mod 2 ^ e = unat v mod 2 ^ e"
  using rev_drop_take[of e h v] unfolding place_def word_unat_eq_iff unat_drop unat_take .

text \<open>The end of the block of a cursor for a table of \<open>2 ^ (64 - k)\<close> buckets.\<close>

definition block_end :: "nat \<Rightarrow> u64 \<Rightarrow> nat" where "block_end k v = (place v div 2 ^ k + 1) * 2 ^ k"

lemma nat_or_mask: "n OR mask k = n div 2 ^ k * 2 ^ k + mask k" for n :: nat
proof -
  have "n OR mask k = push_bit k (drop_bit k n) OR mask k" by (rule bit_eqI) (auto simp: bit_simps)
  also have "\<dots> = push_bit k (drop_bit k n) + mask k" by (rule disjunctive_add[symmetric]) (auto simp: bit_simps)
  finally show ?thesis by (simp add: push_bit_eq_mult drop_bit_eq_div)
qed

lemma block_end_bounds: "place v < block_end k v" "k \<le> 64 \<Longrightarrow> block_end k v \<le> 2 ^ 64"
proof -
  show "place v < block_end k v" 
  proof -
    have "place v mod 2 ^ k < 2 ^ k" by simp
    then show ?thesis using div_mult_mod_eq[of "place v" "2 ^ k"] unfolding block_end_def add_mult_distrib by linarith
  qed
  assume k: "k \<le> 64"
  have "(2 :: nat) ^ 64 = 2 ^ (64 - k) * 2 ^ k" using k by (simp flip: power_add)
  moreover have "place v div 2 ^ k < 2 ^ (64 - k)" using place_less[of v] calculation by (simp add: less_mult_imp_div_less)
  ultimately show "block_end k v \<le> 2 ^ 64" unfolding block_end_def by (metis Suc_eq_plus1 Suc_leI mult_le_mono1)
qed

lemma place_next: "e \<le> 60 \<Longrightarrow> place (next_cursor (mask e) v) = block_end (64 - e) v mod 2 ^ 64"
proof -
  assume e: "e \<le> 60"
  let ?k = "64 - e"
  have r: "dict_rev (v OR NOT (mask e)) = dict_rev v OR mask ?k"
    by (rule bit_eqI) (use e in \<open>auto simp: dict_rev_bit bit_simps\<close>)
  have "unat (dict_rev v OR mask ?k) = place v OR mask ?k"
    by (simp only: place_def unsigned_or_eq unat_mask diff_le_self)
  then have "unat (dict_rev v OR mask ?k) = place v div 2 ^ ?k * 2 ^ ?k + (2 ^ ?k - 1)" unfolding nat_or_mask by (simp add: mask_eq_exp_minus_1)
  moreover have "place v div 2 ^ ?k * 2 ^ ?k + (2 ^ ?k - 1) + 1 = block_end ?k v" by (simp add: block_end_def)
  ultimately show ?thesis unfolding next_cursor_def place_def[of "dict_rev _"] dict_rev_rev r using block_end_bounds(1)[of v ?k] by (simp add: unat_word_ariths)
qed


lemma block_end_in: "place v \<le> n \<Longrightarrow> n < block_end k v \<Longrightarrow> n div 2 ^ k = place v div 2 ^ k"
proof -
  assume n: "place v \<le> n" "n < block_end k v"
  have "n div 2 ^ k < place v div 2 ^ k + 1" using n(2) by (simp add: block_end_def less_mult_imp_div_less)
  moreover have "place v div 2 ^ k \<le> n div 2 ^ k" using n(1) by (rule div_le_mono)
  ultimately show ?thesis by linarith
qed

lemma block_end_mono: "j \<le> k \<Longrightarrow> block_end j v \<le> block_end k v"
proof -
  assume "j \<le> k"
  then have p: "(2 :: nat) ^ k = 2 ^ (k - j) * 2 ^ j" by (simp flip: power_add)
  have "place v div 2 ^ j < (place v div 2 ^ k + 1) * 2 ^ (k - j)"
    by (rule less_mult_imp_div_less) (metis block_end_bounds(1) block_end_def mult.assoc p)
  then have "place v div 2 ^ j + 1 \<le> (place v div 2 ^ k + 1) * 2 ^ (k - j)" by simp
  then have "(place v div 2 ^ j + 1) * 2 ^ j \<le> (place v div 2 ^ k + 1) * 2 ^ (k - j) * 2 ^ j" by (rule mult_le_mono1)
  then show ?thesis unfolding block_end_def by (simp only: mult.assoc p[symmetric])
qed

text \<open>The test of the inner loop of the scan: whether the cursor is at the end of the block of the smaller table.\<close>

lemma expansion_test:
  assumes "a \<le> b" "b \<le> 60" "2 ^ (64 - b) dvd place v"
  shows "v AND (mask a XOR mask b) = 0 \<longleftrightarrow> 2 ^ (64 - a) dvd place v"
proof -
  have d: "2 ^ k dvd place v \<longleftrightarrow> (\<forall>n < k. \<not> bit (dict_rev v) n)" if "k \<le> 64" for k
  proof -
    have "2 ^ k dvd place v \<longleftrightarrow> take_bit k (dict_rev v) = 0" unfolding place_def by (metis and_mask_dvd_nat take_bit_eq_mask)
    also have "\<dots> \<longleftrightarrow> (\<forall>n < k. \<not> bit (dict_rev v) n)" using that by (auto simp: bit_eq_iff bit_take_bit_iff)
    finally show ?thesis .
  qed
  have r: "n < 64 \<Longrightarrow> bit v n = bit (dict_rev v) (63 - n)" for n using dict_rev_bit[of "63 - n" v] by simp
  have "v AND (mask a XOR mask b) = 0 \<longleftrightarrow> (\<forall>n < 64. a \<le> n \<and> n < b \<longrightarrow> \<not> bit v n)"
    using assms(1) by (auto simp: bit_eq_iff bit_simps)
  also have "\<dots> \<longleftrightarrow> (\<forall>n < 64 - a. 64 - b \<le> n \<longrightarrow> \<not> bit (dict_rev v) n)"
  proof
    assume h: "\<forall>n < 64. a \<le> n \<and> n < b \<longrightarrow> \<not> bit v n"
    show "\<forall>n < 64 - a. 64 - b \<le> n \<longrightarrow> \<not> bit (dict_rev v) n"
    proof (intro allI impI)
      fix n assume n: "n < 64 - a" "64 - b \<le> n"
      then have "63 - n < 64" "a \<le> 63 - n \<and> 63 - n < b" "63 - (63 - n) = n" using assms(2) by linarith+
      then show "\<not> bit (dict_rev v) n" using h r[of "63 - n"] by metis
    qed
  next
    assume h: "\<forall>n < 64 - a. 64 - b \<le> n \<longrightarrow> \<not> bit (dict_rev v) n"
    show "\<forall>n < 64. a \<le> n \<and> n < b \<longrightarrow> \<not> bit v n"
    proof (intro allI impI)
      fix n assume n: "n < 64" "a \<le> n \<and> n < b"
      then have "63 - n < 64 - a" "64 - b \<le> 63 - n" using assms(2) by linarith+
      then show "\<not> bit v n" using h r[of n] n by metis
    qed
  qed
  also have "\<dots> \<longleftrightarrow> 2 ^ (64 - a) dvd place v" using d[of "64 - a"] d[of "64 - b"] assms(3) by (auto simp: not_le)
  finally show ?thesis .
qed

section \<open>A scan visits every element\<close>

lemma scan_bucket_id: "chain_ok nv c \<Longrightarrow> scan_bucket c = c"
proof (induction c)
  case (Cons e c)
  then show ?case by (cases c) (auto simp: chain_ok_Cons)
qed simp

text \<open>The entries of a table whose hashes lie between a cursor and a place.\<close>

definition covers :: "('k, 's, 'v) dictType \<Rightarrow> ('s, 'v) ht \<Rightarrow> nat \<Rightarrow> nat \<Rightarrow> ('s, 'v) dictEntry set \<Rightarrow> bool" where
  "covers ty h lo hi E \<longleftrightarrow> (\<forall>x \<in> set (ht_entries h). lo \<le> place (hashFunction ty (ekey ty x)) \<longrightarrow> place (hashFunction ty (ekey ty x)) < hi \<longrightarrow> x \<in> E)"

lemma covers_join: "covers ty h lo mid E \<Longrightarrow> covers ty h mid hi F \<Longrightarrow> covers ty h lo hi (E \<union> F)"
  unfolding covers_def by (metis Un_iff not_le)

lemma covers_mono: "covers ty h lo hi E \<Longrightarrow> E \<subseteq> F \<Longrightarrow> covers ty h lo hi F"
  unfolding covers_def by blast

text \<open>One bucket covers the block of its cursor.\<close>

lemma bucket_covers:
  assumes h: "ht_ok ty h e tb"
  shows "\<exists>c. slot h (uint (v AND mask e)) = Some c \<and> scan_bucket c = c \<and> set c \<subseteq> set (ht_entries h) \<and> covers ty h (place v) (block_end (64 - e) v) (set c)"
proof -
  note D = ht_okD[OF h]
  let ?i = "unat v mod 2 ^ e"
  have "uint (v AND mask e) = int ?i" using uint_idx[OF D(3), of v] mask_eq[OF D(3)] by simp
  then have s: "slot h (uint (v AND mask e)) = Some (tb ! ?i)" using slot_ok[OF h, of ?i] by simp
  have en: "ht_entries h = concat tb" using D(1) by (simp add: ht_entries_def)
  have "x \<in> set (tb ! ?i)" if x: "x \<in> set (concat tb)" "place v \<le> place (hashFunction ty (ekey ty x))" "place (hashFunction ty (ekey ty x)) < block_end (64 - e) v" for x
  proof -
    obtain j where j: "j < 2 ^ e" "x \<in> set (tb ! j)" using x(1) D(4) by (metis (no_types, lifting) UN_E in_set_conv_nth set_concat)
    have "unat (hashFunction ty (ekey ty x)) mod 2 ^ e = ?i" using place_block[of e "hashFunction ty (ekey ty x)" v] block_end_in[OF x(2,3)] D(3) by simp
    then show ?thesis using D(7)[OF j] j by simp
  qed
  moreover have "set (tb ! ?i) \<subseteq> set (concat tb)" using D(4) by (auto intro!: bexI[of _ "tb ! ?i"])
  ultimately show ?thesis using s scan_bucket_id[OF D(6)[of ?i]] en by (auto simp: covers_def)
qed

lemma next_dvd: "b \<le> 60 \<Longrightarrow> 2 ^ (64 - b) dvd place (next_cursor (mask b) v)"
proof -
  assume b: "b \<le> 60"
  have "(2 :: nat) ^ (64 - b) dvd 2 ^ 64" by (rule le_imp_power_dvd) simp
  moreover have "2 ^ (64 - b) dvd block_end (64 - b) v" by (simp add: block_end_def)
  ultimately show ?thesis unfolding place_next[OF b] by (metis dvd_mod)
qed

lemma scan_expansions_ok:
  assumes h: "ht_ok ty h b tb" and ab: "a \<le> b"
  shows "\<exists>es v'. dictScan_expansions h (mask a) (mask b) v = Some (es, v') \<and> set es \<subseteq> set (ht_entries h) \<and>
    place v' = block_end (64 - a) v mod 2 ^ 64 \<and> covers ty h (place v) (block_end (64 - a) v) (set es)"
proof (induction "2 ^ 64 - place v" arbitrary: v rule: less_induct)
  case less
  have b: "b \<le> 60" by (rule ht_okD(3)[OF h])
  let ?v = "next_cursor (mask b) v" and ?ea = "block_end (64 - a) v" and ?eb = "block_end (64 - b) v"
  obtain c where c: "slot h (uint (v AND mask b)) = Some c" "scan_bucket c = c" "set c \<subseteq> set (ht_entries h)" "covers ty h (place v) ?eb (set c)" using bucket_covers[OF h] by blast
  have le: "?eb \<le> ?ea" "?ea \<le> 2 ^ 64" using block_end_mono[of "64 - b" "64 - a" v] ab block_end_bounds(2)[of "64 - a" v] by simp_all
  have p: "place ?v = ?eb mod 2 ^ 64" by (rule place_next[OF b])
  have t: "?v AND (mask a XOR mask b) = 0 \<longleftrightarrow> 2 ^ (64 - a) dvd place ?v" by (rule expansion_test[OF ab b next_dvd[OF b]])
  have d64: "(2 :: nat) ^ (64 - a) dvd 2 ^ 64" by (rule le_imp_power_dvd) simp
  show ?case
  proof (cases "?eb = ?ea")
    case True
    then have "2 ^ (64 - a) dvd place ?v" using p d64 by (metis block_end_def dvd_mod dvd_triv_right)
    then have "dictScan_expansions h (mask a) (mask b) v = Some (c, ?v)" using c(1,2) t by (subst dictScan_expansions.simps) (simp add: Let_def)
    then show ?thesis using c True p by auto
  next
    case False
    then have lt: "?eb < ?ea" using le by simp
    then have pv: "place ?v = ?eb" using p le(2) by simp
    have v: "place v < place ?v" using block_end_bounds(1)[of v "64 - b"] pv by simp
    have same_block: "place ?v div 2 ^ (64 - a) = place v div 2 ^ (64 - a)" using block_end_in[of v "place ?v" "64 - a"] v pv lt by simp
    then have e: "block_end (64 - a) ?v = ?ea" by (simp add: block_end_def)
    have "\<not> 2 ^ (64 - a) dvd place ?v"
    proof
      assume "2 ^ (64 - a) dvd place ?v"
      then have "place ?v = place v div 2 ^ (64 - a) * 2 ^ (64 - a)" using same_block by (metis dvd_div_mult_self)
      then show False using v div_times_less_eq_dividend[of "place v" "2 ^ (64 - a)"] by linarith
    qed
    then have go: "?v AND (mask a XOR mask b) \<noteq> 0" using t by simp
    have "2 ^ 64 - place ?v < 2 ^ 64 - place v" using v place_less[of ?v] by linarith
    then obtain es v' where r: "dictScan_expansions h (mask a) (mask b) ?v = Some (es, v')" "set es \<subseteq> set (ht_entries h)"
      "place v' = ?ea mod 2 ^ 64" "covers ty h (place ?v) ?ea (set es)" using less.hyps[of ?v] e by auto
    have "dictScan_expansions h (mask a) (mask b) v = Some (c @ es, v')" using c(1,2) go r(1) by (subst dictScan_expansions.simps) (simp add: Let_def)
    moreover have "covers ty h (place v) ?ea (set (c @ es))" using covers_join[OF c(4) r(4)[unfolded pv]] by simp
    ultimately show ?thesis using c(3) r(2,3) by auto
  qed
qed

lemma cursor_end:
  assumes "place v' = block_end k v mod 2 ^ 64" "k \<le> 64" shows "(v' = 0 \<or> place v < place v') \<and> (if v' = 0 then 2 ^ 64 else place v') = block_end k v"
proof (cases "block_end k v = 2 ^ 64")
  case True
  then have "v' = 0" using assms(1) place_zero[of v'] by simp
  then show ?thesis using True by simp
next
  case False
  then have "place v' = block_end k v" using assms block_end_bounds(2)[of k v] by simp
  moreover have "v' \<noteq> 0" using calculation block_end_bounds(1)[of v k] place_zero[of v'] by auto
  ultimately show ?thesis using block_end_bounds(1)[of v k] by simp
qed

text \<open>What one call of \<open>dictScan\<close> gives: elements of the dictionary, progress of the cursor, and every element in between.\<close>

definition scan_step :: "('k, 's, 'v) dict \<Rightarrow> u64 \<Rightarrow> ('s, 'v) dictEntry list \<Rightarrow> u64 \<Rightarrow> bool" where
  "scan_step d v es v' \<longleftrightarrow> set es \<subseteq> set (ht_entries (ht0 d)) \<union> set (ht_entries (ht1 d)) \<and> (v' = 0 \<or> place v < place v') \<and>
     (\<forall>h \<in> {ht0 d, ht1 d}. covers (dtype d) h (place v) (if v' = 0 then 2 ^ 64 else place v') (set es))"

lemma scan_two:
  assumes s: "ht_ok (dtype d) hs a ta" and l: "ht_ok (dtype d) hl b tb" and ab: "a \<le> b" and d: "{ht0 d, ht1 d} = {hs, hl}"
  shows "\<exists>c es v'. slot hs (uint (v AND mask a)) = Some c \<and> dictScan_expansions hl (mask a) (mask b) v = Some (es, v') \<and> scan_step d v (scan_bucket c @ es) v'"
proof -
  obtain c where c: "slot hs (uint (v AND mask a)) = Some c" "scan_bucket c = c" "set c \<subseteq> set (ht_entries hs)" "covers (dtype d) hs (place v) (block_end (64 - a) v) (set c)"
    using bucket_covers[OF s] by blast
  obtain es v' where x: "dictScan_expansions hl (mask a) (mask b) v = Some (es, v')" "set es \<subseteq> set (ht_entries hl)" "place v' = block_end (64 - a) v mod 2 ^ 64" "covers (dtype d) hl (place v) (block_end (64 - a) v) (set es)"
    using scan_expansions_ok[OF l ab] by blast
  have e: "(v' = 0 \<or> place v < place v') \<and> (if v' = 0 then 2 ^ 64 else place v') = block_end (64 - a) v" by (rule cursor_end[OF x(3)]) simp
  have "set (c @ es) \<subseteq> \<Union> ((\<lambda>h. set (ht_entries h)) ` {hs, hl})" using c(3) x(2) by auto
  then have "set (c @ es) \<subseteq> set (ht_entries (ht0 d)) \<union> set (ht_entries (ht1 d))" unfolding d[symmetric] by simp
  moreover have "\<forall>h \<in> {ht0 d, ht1 d}. covers (dtype d) h (place v) (block_end (64 - a) v) (set (c @ es))"
    unfolding d using covers_mono[OF c(4)] covers_mono[OF x(4)] by simp
  ultimately have "scan_step d v (c @ es) v'" using e by (simp add: scan_step_def)
  then show ?thesis using c(1,2) x(1) by auto
qed

lemma dictScan_ok:
  assumes r: "room d" shows "\<exists>es v'. dictScan d v = Some (es, v') \<and> scan_step d v es v'"
proof (cases "dictSize d = 0")
  case True
  then have "ht_entries (ht0 d) = []" "ht_entries (ht1 d) = []" using dictSize_zero[OF r] by (auto simp: cont_def ht_cont_def)
  then show ?thesis using True by (auto simp: dictScan_def covers_def scan_step_def)
next
  case nz: False
  show ?thesis
  proof (cases "dictIsRehashing d")
    case False
    have w: "ht1 d = dictReset" "table (ht0 d) \<noteq> None" "dict_wf d" using r False nz dictSize_zero[OF r] cont_table[OF r] by (auto simp: room_def dict_wf_def dictIsRehashing_def)
    then obtain e tb where h: "ht_ok (dtype d) (ht0 d) e tb" using wf_ht0[OF w(3)] by (auto simp: dictReset_def)
    have m: "DICTHT_SIZE_MASK (size_exp (ht0 d)) = mask e" using ht_okD(2)[OF h] mask_eq[OF ht_okD(3)[OF h]] by simp
    obtain c where c: "slot (ht0 d) (uint (v AND mask e)) = Some c" "scan_bucket c = c" "set c \<subseteq> set (ht_entries (ht0 d))" "covers (dtype d) (ht0 d) (place v) (block_end (64 - e) v) (set c)"
      using bucket_covers[OF h] by blast
    let ?v = "next_cursor (mask e) v"
    have "covers (dtype d) (ht1 d) l u E" for l u E by (simp add: covers_def w(1) ht_entries_def dictReset_def)
    moreover have "(?v = 0 \<or> place v < place ?v) \<and> (if ?v = 0 then 2 ^ 64 else place ?v) = block_end (64 - e) v"
      by (rule cursor_end[OF place_next[OF ht_okD(3)[OF h]]]) simp
    ultimately have "scan_step d v c ?v" using c(3,4) by (auto simp: scan_step_def)
    then show ?thesis using nz False m c(1,2) by (simp add: dictScan_def Let_def)
  next
    case True
    then obtain e0 e1 tb0 where re: "rehashing d e0 e1 tb0" using r wf_rehashing[of d] by (auto simp: room_def dictIsRehashing_def)
    then obtain tb1 where h: "ht_ok (dtype d) (ht0 d) e0 tb0" "ht_ok (dtype d) (ht1 d) e1 tb1" by (auto simp: rehashing_def)
    have m: "DICTHT_SIZE_MASK (size_exp (ht0 d)) = mask e0" "DICTHT_SIZE_MASK (size_exp (ht1 d)) = mask e1"
      using ht_okD(2)[OF h(1)] mask_eq[OF ht_okD(3)[OF h(1)]] ht_okD(2)[OF h(2)] mask_eq[OF ht_okD(3)[OF h(2)]] by simp_all
    have cmp: "DICTHT_SIZE (size_exp (ht0 d)) > DICTHT_SIZE (size_exp (ht1 d)) \<longleftrightarrow> e0 > e1"
      using ht_okD(2,3)[OF h(1)] ht_okD(2,3)[OF h(2)] by (simp add: word_less_nat_alt)
    show ?thesis
    proof (cases "e0 > e1")
      case gt: True
      have "{ht0 d, ht1 d} = {ht1 d, ht0 d}" by blast
      then obtain c es v' where "slot (ht1 d) (uint (v AND mask e1)) = Some c" "dictScan_expansions (ht0 d) (mask e1) (mask e0) v = Some (es, v')" "scan_step d v (scan_bucket c @ es) v'"
        using scan_two[OF h(2) h(1)] gt by (metis less_imp_le)
      then show ?thesis using nz True m cmp gt by (simp add: dictScan_def Let_def)
    next
      case le: False
      obtain c es v' where "slot (ht0 d) (uint (v AND mask e0)) = Some c" "dictScan_expansions (ht1 d) (mask e0) (mask e1) v = Some (es, v')" "scan_step d v (scan_bucket c @ es) v'"
        using scan_two[OF h(1) h(2)] le by (metis not_le)
      then show ?thesis using nz True m cmp le by (simp add: dictScan_def Let_def)
    qed
  qed
qed

end
