(* ===== verification/DictProps.thy ===== *)
theory DictProps
  imports DictScan
begin

text \<open>
  The dictionary as a map over sequences of commands, completion of the rehashing, and the guarantee of the scan.
\<close>

section \<open>The dictionary as a map\<close>

definition dict_obj :: "('k, 's, 'v) dictType \<Rightarrow> nat \<Rightarrow> dictResizeEnable \<times> ('k, 's, 'v) dict \<Rightarrow> ('k \<Rightarrow> ('s \<times> 'v option) option) \<Rightarrow> bool" where
  "dict_obj ty n st M \<longleftrightarrow> dictType_ok ty \<and> dict_rep ty n st M"

interpretation dstore: object_store "dict_obj ty" dict_step "map_step ty" "cmd_ok ty" for ty
  by unfold_locales (use dict_step_ok in \<open>auto simp: dict_obj_def\<close>)

lemma create_rep: "dictType_ok ty \<Longrightarrow> n < 2 ^ 64 \<Longrightarrow> dict_obj ty n (cr, dictCreate ty) (\<lambda>k. None)"
  by (simp add: dict_obj_def dict_rep_def dictCreate_def dict_wf_def cont_def contents_map_def)

lemma reached:
  assumes "dictType_ok ty" "list_all (cmd_ok ty) cs" "length cs < 2 ^ 64" "run_ops dict_step cs (cr, dictCreate ty) = Some (rs, cr', d)"
  shows "\<exists>M. dict_rep ty 0 (cr', d) M"
  using dstore.run_refines[of ty cs 0 "(cr, dictCreate ty)" "\<lambda>k. None"] create_rep[OF assms(1,3), of cr] assms(2,4) by (auto simp: dict_obj_def)

text \<open>A dictionary type for concrete runs: the keys are numbers, hashed to themselves modulo 16.\<close>

definition nat_dict :: "bool \<Rightarrow> (nat, nat, nat) dictType" where
  "nat_dict nv = \<lparr>hashFunction = (\<lambda>k. of_nat (k mod 16)), keyDup = None, valDup = None, keyCompare = None, resizeAllowed = None, no_value = nv,
     force_full_rehash = False, keyFromStoredKey = id\<rparr>"

lemma nat_dict_ok: "dictType_ok (nat_dict nv)"
  by (auto simp: nat_dict_def dictType_ok_def keq_def)

text \<open>C2: any sequence of insertions, replacements, deletions, searches, resizings, rehashing steps (of at most 214748364 buckets, so that \<open>n * 10\<close>
  is an \<open>int\<close>) and changes of the global resize policy on a new dictionary is carried out without undefined behaviour and returns, command by command, what the same sequence
  returns on a map; the incremental rehashing that every operation does in passing cannot be seen.\<close>

theorem dict_commands_refine:
  assumes "dictType_ok ty" "list_all (cmd_ok ty) cs" "length cs < 2 ^ 64"
  shows "\<exists>st. run_ops dict_step cs (cr, dictCreate ty) = Some (fst (run_spec (map_step ty) cs (\<lambda>k. None)), st)"
  using dstore.run_refines[of ty cs 0 "(cr, dictCreate ty)" "\<lambda>k. None"] create_rep[OF assms(1,3), of cr] assms(2) by auto

theorem dict_commands_refine_witness:
  "\<exists>st. run_ops dict_step [CAdd 1 10, CAdd 17 20, CReplace 1 11, CFind 1, CDelete 17, CFind 17] (DICT_RESIZE_ENABLE, dictCreate (nat_dict False)) =
     Some ([RBool True, RBool True, RBool False, REntry (Some (1, Some 11)), RBool True, REntry None], st)"
  using dict_commands_refine[OF nat_dict_ok, of False "[CAdd 1 10, CAdd 17 20, CReplace 1 11, CFind 1, CDelete 17, CFind 17]" DICT_RESIZE_ENABLE]
  by (simp add: cmd_ok_def nat_dict_def Let_def keq_def dupKey_def dupVal_def)

text \<open>C36: the shapes of the entries are those the type flags announce, in every state a sequence of commands reaches: a dictionary
  with values has only full entries with a value that is set, one without values has none, and a bare key stands only at the end of its
  chain, so that no operation follows the \<open>next\<close> field of a key or reads a value that is not there. The tables have a power of two of
  buckets, and the counters are the numbers of entries.\<close>

theorem dict_entries_typed:
  assumes "dictType_ok ty" "list_all (cmd_ok ty) cs" "length cs < 2 ^ 64" "run_ops dict_step cs (cr, dictCreate ty) = Some (rs, cr', d)"
    and "h \<in> {ht0 d, ht1 d}" "table h = Some tb"
  shows "(\<forall>c \<in> set tb. chain_ok (no_value ty) c \<and> (\<forall>k. Entry k None \<notin> set c)) \<and> (\<exists>e \<le> 60. length tb = 2 ^ e) \<and> unat (used h) = length (concat tb)"
proof -
  obtain M where "dict_rep ty 0 (cr', d) M" using reached[OF assms(1-4)] by blast
  then have r: "dtype d = ty" "dict_wf d" "size (cont d) < 2 ^ 64" "no_value ty \<or> (\<forall>x \<in># cont d. snd x \<noteq> None)" by (auto simp: dict_rep_def)
  have "h \<noteq> dictReset" using assms(6) by (auto simp: dictReset_def)
  then obtain e tb' where o: "ht_ok ty h e tb'" using r(1,2) assms(5) by (auto simp: dict_wf_def split: if_splits)
  then have h: "ht_ok ty h e tb" using assms(6) by (simp add: ht_ok_def)
  note D = ht_okD[OF h]
  have hc: "ht_cont h \<subseteq># cont d" using assms(5) by (auto simp: cont_def)
  then have "unat (used h) = length (concat tb)" using small_used(1)[OF h] size_mset_mono[OF hc] r(3) assms(6) by (simp add: ht_cont_def ht_entries_def)
  moreover have "chain_ok (no_value ty) c \<and> (\<forall>k. Entry k None \<notin> set c)" if c: "c \<in> set tb" for c
  proof -
    obtain i where "i < length tb" "tb ! i = c" using c unfolding in_set_conv_nth by blast
    then have i: "i < 2 ^ e" "c = tb ! i" using D(4) by simp_all
    have "Entry k None \<notin> set c" for k
    proof
      assume k: "Entry k None \<in> set c"
      then have "\<not> no_value ty" using D(6)[OF i(1)] i(2) by (force simp: chain_ok_def)
      moreover have "(k, None) \<in># cont d" using in_table[OF h i(1), of "Entry k None"] k i(2) hc by (auto dest: mset_subset_eqD)
      ultimately show False using r(4) by auto
    qed
    then show ?thesis using D(6)[OF i(1)] i(2) by simp
  qed
  ultimately show ?thesis using D(3,4) by blast
qed

theorem dict_entries_typed_witness:
  "\<exists>rs cr d. run_ops dict_step [CAdd 1 0, CAdd 17 0] (DICT_RESIZE_ENABLE, dictCreate (nat_dict True)) = Some (rs, cr, d) \<and>
     table (ht0 d) = Some [[], [EntryNoValue 17, EntryKey 1], [], []] \<and> unat (used (ht0 d)) = 2"
proof -
  have "map_option (\<lambda>(rs, cr, d). table (ht0 d)) (run_ops dict_step [CAdd 1 0, CAdd 17 0] (DICT_RESIZE_ENABLE, dictCreate (nat_dict True))) =
    Some (Some [[], [EntryNoValue 17, EntryKey 1], [], []])" by code_simp
  then obtain rs cr d where r: "run_ops dict_step [CAdd 1 0, CAdd 17 0] (DICT_RESIZE_ENABLE, dictCreate (nat_dict True)) = Some (rs, cr, d)"
    "table (ht0 d) = Some [[], [EntryNoValue 17, EntryKey 1], [], []]" by (auto simp: map_option_case split: option.splits)
  have "unat (used (ht0 d)) = 2" using dict_entries_typed[OF nat_dict_ok _ _ r(1) _ r(2)] by (simp add: cmd_ok_def)
  then show ?thesis using r by blast
qed

fun rehash_times :: "dictResizeEnable \<Rightarrow> int \<Rightarrow> nat \<Rightarrow> ('k, 's, 'v) dict \<Rightarrow> (bool \<times> ('k, 's, 'v) dict) option" where
  "rehash_times cr n 0 d = Some (True, d)"
| "rehash_times cr n (Suc k) d = do { (more, d) \<leftarrow> dictRehash cr d n; if more then rehash_times cr n k d else Some (False, d) }"

lemma rehash_times_ok:
  "room d \<Longrightarrow> \<not> rehash_avoided cr d \<Longrightarrow> 0 < n \<and> n \<le> 214748364 \<Longrightarrow> rehash_gap d < k \<Longrightarrow> \<exists>d'. rehash_times cr n k d = Some (False, d') \<and> \<not> dictIsRehashing d' \<and> kept d d'"
proof (induction k arbitrary: d)
  case (Suc k)
  obtain more d1 where r: "dictRehash cr d n = Some (more, d1)" "kept d d1" "more \<longrightarrow> rehash_gap d1 < rehash_gap d \<and> \<not> rehash_avoided cr d1" "\<not> more \<longrightarrow> \<not> dictIsRehashing d1"
    using rehash_kept[OF Suc.prems(1), of n cr] Suc.prems(2,3) by auto
  show ?case
  proof (cases more)
    case True
    then have "rehash_gap d1 < k" using r(3) Suc.prems(4) by linarith
    then show ?thesis using Suc.IH[OF kept_room[OF r(2)]] r True Suc.prems(3) kept_trans[OF r(2)] by auto
  qed (use r in auto)
qed simp

text \<open>C17: when the resize policy does not hold the rehashing back (it is not \<open>DICT_RESIZE_FORBID\<close>, nor \<open>DICT_RESIZE_AVOID\<close> with table sizes
  below the forced ratio), repeated calls of \<open>dictRehash\<close> for \<open>n\<close> buckets, with \<open>n\<close> positive and \<open>n * 10\<close> an \<open>int\<close>, complete it with at most one
  call more than there are buckets left to visit, and the contents stay the same.\<close>

theorem dict_rehash_completes:
  assumes "dict_wf d" "size (cont d) < 2 ^ 64" "\<not> rehash_avoided cr d" "0 < n" "n \<le> 214748364"
  shows "\<exists>d'. rehash_times cr n (Suc (rehash_gap d)) d = Some (False, d') \<and> \<not> dictIsRehashing d' \<and> dict_wf d' \<and> cont d' = cont d"
  using rehash_times_ok[of d cr n "Suc (rehash_gap d)"] assms by (auto simp: room_def kept_def same_def)

theorem dict_rehash_completes_witness:
  "\<exists>rs d d'. run_ops dict_step [CAdd 1 0, CAdd 2 0, CAdd 3 0, CAdd 4 0, CAdd 5 0] (DICT_RESIZE_ENABLE, dictCreate (nat_dict False)) = Some (rs, DICT_RESIZE_ENABLE, d) \<and>
     dictIsRehashing d \<and> rehash_times DICT_RESIZE_ENABLE 1 (Suc (rehash_gap d)) d = Some (False, d') \<and> \<not> dictIsRehashing d' \<and> cont d' = cont d"
proof -
  let ?cs = "[CAdd 1 0, CAdd 2 0, CAdd 3 0, CAdd 4 0, CAdd 5 0] :: (nat, nat, nat) dcmd list"
  have "map_option (\<lambda>(rs, cr, d). (cr, rehash_avoided cr d, dictIsRehashing d)) (run_ops dict_step ?cs (DICT_RESIZE_ENABLE, dictCreate (nat_dict False))) =
    Some (DICT_RESIZE_ENABLE, False, True)" by code_simp
  then obtain rs d where r: "run_ops dict_step ?cs (DICT_RESIZE_ENABLE, dictCreate (nat_dict False)) = Some (rs, DICT_RESIZE_ENABLE, d)"
    "\<not> rehash_avoided DICT_RESIZE_ENABLE d" "dictIsRehashing d" by (auto simp: map_option_case split: option.splits)
  obtain M where "dict_rep (nat_dict False) 0 (DICT_RESIZE_ENABLE, d) M" using reached[OF nat_dict_ok _ _ r(1)] by (auto simp: cmd_ok_def)
  then have "dict_wf d" "size (cont d) < 2 ^ 64" by (auto simp: dict_rep_def)
  then show ?thesis using dict_rehash_completes[OF _ _ r(2), of 1] r(1,3) by auto
qed

section \<open>Scanning a changing dictionary\<close>

text \<open>A scan whose calls see the dictionary in the given states: between two calls it may have been changed in any way. The scan stops
  when the cursor is back at zero.\<close>

fun scan_run :: "('k, 's, 'v) dict list \<Rightarrow> u64 \<Rightarrow> (('s, 'v) dictEntry list \<times> u64) option" where
  "scan_run [] v = Some ([], v)"
| "scan_run (d # ds) v = do {
     (es, v) \<leftarrow> dictScan d v;
     if v = 0 then Some (es, 0) else do { (es', v) \<leftarrow> scan_run ds v; Some (es @ es', v) } }"

definition has_key :: "('k, 's, 'v) dict \<Rightarrow> 'k \<Rightarrow> bool" where
  "has_key d k \<longleftrightarrow> (\<exists>x \<in> set (ht_entries (ht0 d)) \<union> set (ht_entries (ht1 d)). keq (dtype d) k (ekey (dtype d) x))"

lemma scan_step_found:
  assumes ty: "dictType_ok (dtype d)" and s: "scan_step d v es v'" and k: "has_key d k" "place v \<le> place (hashFunction (dtype d) k)"
    and e: "v' = 0 \<or> place (hashFunction (dtype d) k) < place v'"
  shows "\<exists>x \<in> set es. keq (dtype d) k (ekey (dtype d) x)"
proof -
  obtain x h where x: "h \<in> {ht0 d, ht1 d}" "x \<in> set (ht_entries h)" "keq (dtype d) k (ekey (dtype d) x)" using k(1) by (auto simp: has_key_def)
  have eq: "hashFunction (dtype d) (ekey (dtype d) x) = hashFunction (dtype d) k" using dictType_okD(2)[OF ty x(3)] by simp
  have "covers (dtype d) h (place v) (if v' = 0 then 2 ^ 64 else place v') (set es)" using s x(1) by (auto simp: scan_step_def)
  then have "x \<in> set es" using x(2) k(2) e place_less[of "hashFunction (dtype d) k"] eq by (auto simp: covers_def split: if_splits)
  then show ?thesis using x(3) by blast
qed

lemma scan_run_ok:
  assumes ty: "dictType_ok ty"
  shows "\<forall>d \<in> set ds. room d \<and> dtype d = ty \<Longrightarrow> \<exists>es v'. scan_run ds v = Some (es, v') \<and>
    (ds \<noteq> [] \<longrightarrow> v' = 0 \<longrightarrow> (\<forall>k. place v \<le> place (hashFunction ty k) \<longrightarrow> (\<forall>d \<in> set ds. has_key d k) \<longrightarrow> (\<exists>x \<in> set es. keq ty k (ekey ty x)))) \<and>
    (v' = 0 \<or> place v + length ds \<le> place v')"
proof (induction ds arbitrary: v)
  case (Cons d ds)
  then have d: "room d" "dtype d = ty" by simp_all
  obtain es v1 where s: "dictScan d v = Some (es, v1)" "scan_step d v es v1" using dictScan_ok[OF d(1)] by blast
  show ?case
  proof (cases "v1 = 0")
    case True
    then show ?thesis using s scan_step_found[of d v es v1] ty d(2) by auto
  next
    case False
    then have p: "place v < place v1" using s(2) by (simp add: scan_step_def)
    obtain es' v2 where r: "scan_run ds v1 = Some (es', v2)"
      "ds \<noteq> [] \<longrightarrow> v2 = 0 \<longrightarrow> (\<forall>k. place v1 \<le> place (hashFunction ty k) \<longrightarrow> (\<forall>d \<in> set ds. has_key d k) \<longrightarrow> (\<exists>x \<in> set es'. keq ty k (ekey ty x)))"
      "v2 = 0 \<or> place v1 + length ds \<le> place v2" using Cons.IH[of v1] Cons.prems by auto
    have z: "ds = [] \<Longrightarrow> v2 \<noteq> 0" using r(1) False by auto
    have "\<exists>x \<in> set (es @ es'). keq ty k (ekey ty x)" if k: "v2 = 0" "place v \<le> place (hashFunction ty k)" "\<forall>d' \<in> set (d # ds). has_key d' k" for k
    proof (cases "place (hashFunction ty k) < place v1")
      case True
      then show ?thesis using scan_step_found[of d v es v1 k] ty d(2) s(2) k by auto
    next
      case False
      then have "\<exists>x \<in> set es'. keq ty k (ekey ty x)" using r(2) z k by auto
      then show ?thesis by auto
    qed
    then show ?thesis using s(1) r(1,3) False p by auto
  qed
qed simp

text \<open>C3: the guarantee of \<open>dictScan\<close>. A scan that begins with the cursor 0 and is continued, on the dictionary in whatever
  well-formed states it is found (grown, shrunk, in the middle of a rehashing, with elements added and removed), until the cursor
  returned is 0 has returned every element that was present all the time. Every call returns, and the cursor is back at 0 after at most
  \<open>2 ^ 64\<close> calls, whatever happens to the dictionary.\<close>

theorem dict_scan_complete:
  assumes "dictType_ok ty" "\<forall>d \<in> set ds. dtype d = ty \<and> dict_wf d \<and> size (cont d) < 2 ^ 64" "ds \<noteq> []"
  shows "\<exists>es v. scan_run ds 0 = Some (es, v) \<and> (2 ^ 64 \<le> length ds \<longrightarrow> v = 0) \<and>
    (v = 0 \<longrightarrow> (\<forall>k. (\<forall>d \<in> set ds. has_key d k) \<longrightarrow> (\<exists>x \<in> set es. keq ty k (ekey ty x))))"
proof -
  have z: "place 0 = 0" by (simp add: place_zero)
  obtain es v where "scan_run ds 0 = Some (es, v)"
    "ds \<noteq> [] \<longrightarrow> v = 0 \<longrightarrow> (\<forall>k. place 0 \<le> place (hashFunction ty k) \<longrightarrow> (\<forall>d \<in> set ds. has_key d k) \<longrightarrow> (\<exists>x \<in> set es. keq ty k (ekey ty x)))"
    "v = 0 \<or> place 0 + length ds \<le> place v" using scan_run_ok[OF assms(1), of ds 0] assms(2) by (auto simp: room_def)
  then show ?thesis using assms(3) place_less[of v] unfolding z by auto
qed

theorem dict_scan_complete_witness:
  "\<exists>rs d es. run_ops dict_step [CAdd 1 7, CAdd 3 8] (DICT_RESIZE_ENABLE, dictCreate (nat_dict False)) = Some (rs, DICT_RESIZE_ENABLE, d) \<and>
     scan_run [d, d, d, d] 0 = Some (es, 0) \<and> (\<exists>x \<in> set es. keq (nat_dict False) 3 (ekey (nat_dict False) x))"
proof -
  let ?cs = "[CAdd 1 7, CAdd 3 8] :: (nat, nat, nat) dcmd list"
  have "map_option (\<lambda>(rs, cr, d). (cr, map_option snd (scan_run [d, d, d, d] 0), table (ht0 d))) (run_ops dict_step ?cs (DICT_RESIZE_ENABLE, dictCreate (nat_dict False))) =
    Some (DICT_RESIZE_ENABLE, Some 0, Some [[], [Entry 1 (Some 7)], [], [Entry 3 (Some 8)]])" by code_simp
  then obtain rs d es where r: "run_ops dict_step ?cs (DICT_RESIZE_ENABLE, dictCreate (nat_dict False)) = Some (rs, DICT_RESIZE_ENABLE, d)"
    "scan_run [d, d, d, d] 0 = Some (es, 0)" "table (ht0 d) = Some [[], [Entry 1 (Some 7)], [], [Entry 3 (Some 8)]]" by (auto simp: map_option_case split: option.splits)
  obtain M where "dict_rep (nat_dict False) 0 (DICT_RESIZE_ENABLE, d) M" using reached[OF nat_dict_ok _ _ r(1)] by (auto simp: cmd_ok_def)
  then have w: "\<forall>d' \<in> set [d, d, d, d]. dtype d' = nat_dict False \<and> dict_wf d' \<and> size (cont d') < 2 ^ 64" by (auto simp: dict_rep_def)
  have k: "has_key d 3" using r(3) w by (auto simp: has_key_def ht_entries_def nat_dict_def)
  obtain es' v where "scan_run [d, d, d, d] 0 = Some (es', v)" "v = 0 \<longrightarrow> (\<forall>k. (\<forall>d' \<in> set [d, d, d, d]. has_key d' k) \<longrightarrow> (\<exists>x \<in> set es'. keq (nat_dict False) k (ekey (nat_dict False) x)))"
    using dict_scan_complete[OF nat_dict_ok w] by auto
  then show ?thesis using r k by auto
qed

text \<open>The first table is not created while automatic resizing is paused: an insertion then follows the null pointer.\<close>

lemma dict_add_paused: "pauseAutoResize d > 0 \<Longrightarrow> ht0 d = dictReset \<Longrightarrow> rehashidx d = -1 \<Longrightarrow> dictAdd cr d s v = None"
  by (simp add: dictAdd_def dictAddRaw_def dictFindLinkForInsert_def dictRehashStepIfNeeded_def dictIsRehashing_def dictExpandIfNeeded'_def find_tables_def find_in_def
      dictReset_def ht_def slot_def DICTHT_SIZE_MASK_def)

end
