(* ===== verification/DictIter.thy ===== *)
theory DictIter
  imports DictProps
begin

text \<open>
  More of \<open>src/redislib-src/kernel/dict.c\<close>: setting a key at a link that a search has returned, the iterators with their fingerprint, and the
  memory estimate; an iterator visits every entry once, and a key set at the bucket of a failed search is added.
\<close>

section \<open>Setting a key at a link\<close>

text \<open>With \<open>newItem\<close> the link is a bucket, looked up again when the tables have changed or when it is null; otherwise it is the link of an
  existing entry, looked up when it is null. This second search passes the pointer of the stored key as it is, without \<open>dictStoredKey2Key\<close>:
  \<open>as_key\<close> is the key that a search reads at such a pointer.\<close>

definition dictSetKeyAtLink :: "dictResizeEnable \<Rightarrow> ('s \<Rightarrow> 'k) \<Rightarrow> ('k, 's, 'v) dict \<Rightarrow> 's \<Rightarrow> link option \<Rightarrow> bool \<Rightarrow> ('k, 's, 'v) dict option" where
  "dictSetKeyAtLink can_resize as_key d key link newItem = do {
     let addedKey = (case keyDup (dtype d) of None \<Rightarrow> key | Some f \<Rightarrow> f key);
     if newItem then do {
       let snap = (size_exp (ht0 d), size_exp (ht1 d));
       (r, d) \<leftarrow> dictExpandIfNeeded can_resize d;
       (b, d) \<leftarrow>
         (case link of
            Some b \<Rightarrow> if snap = (size_exp (ht0 d), size_exp (ht1 d)) then Some (b, d) else do {
              (l, b, d) \<leftarrow> dictFindLinkInternal can_resize d (keyFromStoredKey (dtype d) key);
              guard (l = None);
              Some (b, d) }
          | None \<Rightarrow> do {
              (l, b, d) \<leftarrow> dictFindLinkInternal can_resize d (keyFromStoredKey (dtype d) key);
              guard (l = None);
              Some (b, d) });
       (l, d) \<leftarrow> dictInsertKeyAtLink d addedKey b;
       Some d }
     else do {
       (l, d) \<leftarrow>
         (case link of Some l \<Rightarrow> Some (l, d)
          | None \<Rightarrow> do {
              (l, b, d) \<leftarrow> dictFindLink can_resize d (as_key key);
              l \<leftarrow> l;
              Some (l, d) });
       e \<leftarrow> link_get d l;
       link_set d l (case e of Entry _ v \<Rightarrow> Entry addedKey v | EntryNoValue _ \<Rightarrow> EntryNoValue addedKey | EntryKey _ \<Rightarrow> EntryKey addedKey) } }"

section \<open>Memory\<close>

definition dictEntryMemUsage :: "bool \<Rightarrow> u64" where "dictEntryMemUsage noValueDict = (if noValueDict then 16 else 24)"

definition dictMemUsage :: "('k, 's, 'v) dict \<Rightarrow> u64" where
  "dictMemUsage d = dictSize d * dictEntryMemUsage (no_value (dtype d)) + dictBuckets d * 8"

section \<open>Iterators\<close>

text \<open>The current and the next entry are given by the chain from them on, empty for the null pointer; \<open>addr\<close> holds the addresses of the
  two tables, which the fingerprint depends on.\<close>

record ('s, 'v) dictIterator =
  it_index :: int
  it_table :: nat
  it_safe :: bool
  it_entry :: "('s, 'v) chain"
  it_nextEntry :: "('s, 'v) chain"
  it_fingerprint :: u64

definition fingerprint_step :: "u64 \<Rightarrow> u64 \<Rightarrow> u64" where
  "fingerprint_step x hash =
     (let hash = hash + x;
          hash = NOT hash + push_bit 21 hash;
          hash = hash XOR drop_bit 24 hash;
          hash = (hash + push_bit 3 hash) + push_bit 8 hash;
          hash = hash XOR drop_bit 14 hash;
          hash = (hash + push_bit 2 hash) + push_bit 4 hash;
          hash = hash XOR drop_bit 28 hash
      in hash + push_bit 31 hash)"

definition dictFingerprint :: "u64 \<times> u64 \<Rightarrow> ('k, 's, 'v) dict \<Rightarrow> u64" where
  "dictFingerprint addr d =
     fold fingerprint_step
       [fst addr, word_of_int (size_exp (ht0 d)), used (ht0 d), snd addr, word_of_int (size_exp (ht1 d)), used (ht1 d)] 0"

definition dictInitIterator :: "('s, 'v) dictIterator" where
  "dictInitIterator = \<lparr>it_index = -1, it_table = 0, it_safe = False, it_entry = [], it_nextEntry = [], it_fingerprint = 0\<rparr>"

definition dictInitSafeIterator :: "('s, 'v) dictIterator" where
  "dictInitSafeIterator = dictInitIterator\<lparr>it_safe := True\<rparr>"

definition dictResetIterator :: "u64 \<times> u64 \<Rightarrow> ('k, 's, 'v) dict \<Rightarrow> ('s, 'v) dictIterator \<Rightarrow> ('k, 's, 'v) dict option" where
  "dictResetIterator addr d iter =
     (if it_index iter = -1 \<and> it_table iter = 0 then Some d
      else if it_safe iter then Some (d\<lparr>pauserehash := pauserehash d - 1\<rparr>)
      else do { guard (it_fingerprint iter = dictFingerprint addr d); Some d })"

text \<open>The first call, and the step to the next bucket (\<^term>\<open>None\<close> inside behind the last one).\<close>

definition iter_begin :: "u64 \<times> u64 \<Rightarrow> ('k, 's, 'v) dict \<Rightarrow> ('s, 'v) dictIterator \<Rightarrow> ('s, 'v) dictIterator \<times> ('k, 's, 'v) dict" where
  "iter_begin addr d iter =
     (if it_index iter = -1 \<and> it_table iter = 0 then
        (let (iter, d) = (if it_safe iter then (iter, d\<lparr>pauserehash := pauserehash d + 1\<rparr>)
                          else (iter\<lparr>it_fingerprint := dictFingerprint addr d\<rparr>, d))
         in (if dictIsRehashing d then iter\<lparr>it_index := rehashidx d - 1\<rparr> else iter, d))
      else (iter, d))"

definition iter_bucket :: "('k, 's, 'v) dict \<Rightarrow> ('s, 'v) dictIterator \<Rightarrow> (bool \<times> ('s, 'v) dictIterator) option" where
  "iter_bucket d iter =
     (let iter = iter\<lparr>it_index := it_index iter + 1\<rparr>;
          past = it_index iter \<ge> sint (DICTHT_SIZE (size_exp (ht d (it_table iter)))) in
      if past \<and> \<not> (dictIsRehashing d \<and> it_table iter = 0) then Some (False, iter)
      else let iter = (if past then iter\<lparr>it_table := 1, it_index := 0\<rparr> else iter) in do {
        c \<leftarrow> slot (ht d (it_table iter)) (it_index iter);
        Some (True, iter\<lparr>it_entry := c\<rparr>) })"

partial_function (option) dictNext ::
    "u64 \<times> u64 \<Rightarrow> ('k, 's, 'v) dict \<Rightarrow> ('s, 'v) dictIterator \<Rightarrow> (('s, 'v) dictEntry option \<times> ('s, 'v) dictIterator \<times> ('k, 's, 'v) dict) option" where
  "dictNext addr d iter = do {
     (more, iter, d) \<leftarrow>
       (if it_entry iter = [] then do {
          let (iter, d) = iter_begin addr d iter;
          (more, iter) \<leftarrow> iter_bucket d iter;
          Some (more, iter, d) }
        else Some (True, iter\<lparr>it_entry := it_nextEntry iter\<rparr>, d));
     if \<not> more then Some (None, iter, d)
     else case it_entry iter of
       [] \<Rightarrow> dictNext addr d iter
     | de # next \<Rightarrow> Some (Some de, iter\<lparr>it_nextEntry := dictGetNext de next\<rparr>, d) }"

declare dictNext.simps [code]

section \<open>What an iterator visits\<close>

definition table_chains :: "('s, 'v) ht \<Rightarrow> ('s, 'v) chain list" where
  "table_chains h = (case table h of None \<Rightarrow> [] | Some tb \<Rightarrow> tb)"

text \<open>The iterator has finished its current chain, and the chains \<open>cs\<close> are still to come.\<close>

definition iter_pos :: "('k, 's, 'v) dict \<Rightarrow> ('s, 'v) dictIterator \<Rightarrow> ('s, 'v) chain list \<Rightarrow> bool" where
  "iter_pos d iter cs \<longleftrightarrow> dict_wf d \<and> (it_table iter = 0 \<or> it_table iter = 1 \<and> dictIsRehashing d) \<and> -1 \<le> it_index iter \<and>
     cs = drop (nat (it_index iter + 1)) (table_chains (ht d (it_table iter))) @ (if dictIsRehashing d \<and> it_table iter = 0 then table_chains (ht1 d) else [])"

lemma size_sint: "e \<le> 60 \<Longrightarrow> sint (DICTHT_SIZE (int e)) = 2 ^ e"
proof -
  assume e: "e \<le> 60"
  have u: "uint (DICTHT_SIZE (int e)) = 2 ^ e" using size_nat[OF e] by (metis of_nat_numeral of_nat_power of_nat_unat)
  have "(2 :: int) ^ e \<le> 2 ^ 60" using e by (intro power_increasing) auto
  then have "uint (DICTHT_SIZE (int e)) < 2 ^ 63" unfolding u by simp
  moreover have "- (2 ^ 63) \<le> uint (DICTHT_SIZE (int e))" by (rule order_trans[of _ 0]) simp_all
  ultimately have "signed_take_bit 63 (uint (DICTHT_SIZE (int e))) = uint (DICTHT_SIZE (int e))" by (rule signed_take_bit_int_eq_self[rotated])
  then show ?thesis using u by (simp only: sint_uint len_of_numeral_defs) simp
qed

lemma wf_tables:
  assumes "dict_wf d" "t = 0 \<or> t = 1 \<and> dictIsRehashing d"
  shows "sint (DICTHT_SIZE (size_exp (ht d t))) = int (length (table_chains (ht d t)))"
    and "i < length (table_chains (ht d t)) \<Longrightarrow> slot (ht d t) (int i) = Some (table_chains (ht d t) ! i)"
    and "dictIsRehashing d \<Longrightarrow> table_chains (ht d t) \<noteq> []"
    and "c \<in> set (table_chains (ht d t)) \<Longrightarrow> chain_ok (no_value (dtype d)) c"
proof -
  have "ht d t = dictReset \<and> \<not> dictIsRehashing d \<or> (\<exists>e tb. ht_ok (dtype d) (ht d t) e tb)"
    using assms by (auto simp: dict_wf_def ht_def dictIsRehashing_def split: if_splits)
  then show "sint (DICTHT_SIZE (size_exp (ht d t))) = int (length (table_chains (ht d t)))"
    and "i < length (table_chains (ht d t)) \<Longrightarrow> slot (ht d t) (int i) = Some (table_chains (ht d t) ! i)"
    and "dictIsRehashing d \<Longrightarrow> table_chains (ht d t) \<noteq> []"
    and "c \<in> set (table_chains (ht d t)) \<Longrightarrow> chain_ok (no_value (dtype d)) c"
    by (auto simp: ht_ok_def table_chains_def dictReset_def DICTHT_SIZE_def[of "-1"] slot_def size_sint in_set_conv_nth)
qed

lemma bucket_step:
  assumes "iter_pos d iter cs"
  shows "case cs of [] \<Rightarrow> \<exists>iter'. iter_bucket d iter = Some (False, iter') \<and> it_entry iter' = it_entry iter \<and> it_fingerprint iter' = it_fingerprint iter \<and> it_safe iter' = it_safe iter \<and>
        (it_index iter' \<noteq> -1 \<or> it_table iter' \<noteq> 0)
    | c # cs \<Rightarrow> \<exists>iter'. iter_bucket d iter = Some (True, iter') \<and> iter_pos d iter' cs \<and> it_entry iter' = c \<and> (it_index iter' \<noteq> -1 \<or> it_table iter' \<noteq> 0) \<and>
        it_fingerprint iter' = it_fingerprint iter \<and> it_safe iter' = it_safe iter"
proof -
  let ?t = "it_table iter" and ?i = "it_index iter + 1"
  let ?tb = "table_chains (ht d ?t)"
  have w: "dict_wf d" "?t = 0 \<or> ?t = 1 \<and> dictIsRehashing d" "0 \<le> ?i"
    and cs: "cs = drop (nat ?i) ?tb @ (if dictIsRehashing d \<and> ?t = 0 then table_chains (ht1 d) else [])" using assms by (auto simp: iter_pos_def)
  note T = wf_tables[OF w(1,2)]
  show ?thesis
  proof (cases "?i < int (length ?tb)")
    case True
    have "drop (nat ?i) ?tb = ?tb ! nat ?i # drop (Suc (nat ?i)) ?tb" using True w(3) by (intro Cons_nth_drop_Suc[symmetric]) simp
    moreover have "slot (ht d ?t) ?i = Some (?tb ! nat ?i)" using T(2)[of "nat ?i"] True w(3) by simp
    moreover have "Suc (nat ?i) = nat (?i + 1)" using w(3) by simp
    ultimately show ?thesis using True T(1) w cs by (simp add: iter_bucket_def iter_pos_def Let_def)
  next
    case past: False
    then have nil: "drop (nat ?i) ?tb = []" using w(3) by simp
    show ?thesis
    proof (cases "dictIsRehashing d \<and> ?t = 0")
      case True
      have "1 = 0 \<or> 1 = (1 :: nat) \<and> dictIsRehashing d" using True by simp
      note T1 = wf_tables[OF w(1) this]
      obtain c rest where c: "table_chains (ht1 d) = c # rest" using T1(3) True by (cases "table_chains (ht1 d)") (auto simp: ht_def)
      have "slot (ht d 1) 0 = Some c" using T1(2)[of 0] c by (simp add: ht_def)
      then show ?thesis using past True T(1) w cs nil c by (simp add: iter_bucket_def iter_pos_def Let_def ht_def)
    next
      case False
      then show ?thesis using past T(1) w cs nil by (auto simp: iter_bucket_def Let_def)
    qed
  qed
qed

text \<open>The entries that a begun iterator still delivers.\<close>

definition iter_rest :: "('k, 's, 'v) dict \<Rightarrow> ('s, 'v) dictIterator \<Rightarrow> ('s, 'v) dictEntry list \<Rightarrow> bool" where
  "iter_rest d iter es \<longleftrightarrow> (\<exists>cs. iter_pos d iter cs \<and> (it_index iter \<noteq> -1 \<or> it_table iter \<noteq> 0) \<and>
     es = (if it_entry iter = [] then [] else it_nextEntry iter) @ concat cs \<and> chain_ok (no_value (dtype d)) (it_nextEntry iter) \<and>
     (\<forall>c \<in> set cs. chain_ok (no_value (dtype d)) c))"

definition iter_same :: "('s, 'v) dictIterator \<Rightarrow> ('s, 'v) dictIterator \<Rightarrow> bool" where
  "iter_same i j \<longleftrightarrow> it_fingerprint i = it_fingerprint j \<and> it_safe i = it_safe j"

lemma chain_next: "chain_ok nv (de # next) \<Longrightarrow> dictGetNext de next = next \<and> chain_ok nv next"
  by (cases "next") (auto simp: chain_ok_Cons dictGetNext_def)

lemma begin_begun: "it_index iter \<noteq> -1 \<or> it_table iter \<noteq> 0 \<Longrightarrow> iter_begin addr d iter = (iter, d)" by (auto simp: iter_begin_def)

definition next_ok :: "u64 \<times> u64 \<Rightarrow> ('k, 's, 'v) dict \<Rightarrow> ('s, 'v) dictIterator \<Rightarrow> ('s, 'v) dictEntry list \<Rightarrow> bool" where
  "next_ok addr d iter es \<longleftrightarrow> (\<exists>iter'. iter_same iter' iter \<and> (it_index iter' \<noteq> -1 \<or> it_table iter' \<noteq> 0) \<and>
     (case es of [] \<Rightarrow> dictNext addr d iter = Some (None, iter', d) | e # es \<Rightarrow> dictNext addr d iter = Some (Some e, iter', d) \<and> iter_rest d iter' es))"

lemma next_bucket:
  assumes "iter_pos d iter cs" "it_entry iter = []" "it_index iter \<noteq> -1 \<or> it_table iter \<noteq> 0" "\<forall>c \<in> set cs. chain_ok (no_value (dtype d)) c"
  shows "next_ok addr d iter (concat cs)"
  using assms
proof (induction cs arbitrary: iter)
  case Nil
  obtain iter' where "iter_bucket d iter = Some (False, iter')" "iter_same iter' iter" "it_index iter' \<noteq> -1 \<or> it_table iter' \<noteq> 0"
    using bucket_step[OF Nil(1)] by (auto simp: iter_same_def)
  then show ?case using Nil(2) begin_begun[OF Nil(3), of addr d] by (auto simp: next_ok_def dictNext.simps[of addr d iter])
next
  case (Cons c cs)
  obtain iter' where i: "iter_bucket d iter = Some (True, iter')" "iter_pos d iter' cs" "it_entry iter' = c" "it_index iter' \<noteq> -1 \<or> it_table iter' \<noteq> 0" "iter_same iter' iter"
    using bucket_step[OF Cons(2)] by (auto simp: iter_same_def)
  show ?case
  proof (cases c)
    case Nil
    have "dictNext addr d iter = dictNext addr d iter'"
      using i(1,3) Nil Cons(3) begin_begun[OF Cons(4), of addr d] by (subst dictNext.simps) simp
    then show ?thesis using Cons.IH[OF i(2) _ i(4)] i(3,5) Nil Cons(5) by (auto simp: next_ok_def iter_same_def split: list.splits)
  next
    case (Cons de "next")
    have n: "dictGetNext de next = next \<and> chain_ok (no_value (dtype d)) next" using chain_next[of _ de "next"] Cons Cons.prems(4) by auto
    have "dictNext addr d iter = Some (Some de, iter'\<lparr>it_nextEntry := next\<rparr>, d)"
      using i(1,3) Cons Cons.prems(2) begin_begun[OF Cons.prems(3), of addr d] n by (subst dictNext.simps) simp
    moreover have "iter_rest d (iter'\<lparr>it_nextEntry := next\<rparr>) (next @ concat cs)"
      using i Cons n Cons.prems(4) by (auto simp: iter_rest_def iter_pos_def)
    ultimately show ?thesis using Cons i(4,5) by (auto simp: next_ok_def iter_same_def)
  qed
qed

lemma next_rest:
  assumes "iter_rest d iter es"
  shows "next_ok addr d iter es"
proof -
  obtain cs where c: "iter_pos d iter cs" "it_index iter \<noteq> -1 \<or> it_table iter \<noteq> 0" "es = (if it_entry iter = [] then [] else it_nextEntry iter) @ concat cs"
    "chain_ok (no_value (dtype d)) (it_nextEntry iter)" "\<forall>c \<in> set cs. chain_ok (no_value (dtype d)) c" using assms by (auto simp: iter_rest_def)
  show ?thesis
  proof (cases "it_entry iter = []")
    case True
    then show ?thesis using next_bucket[OF c(1) True c(2,5)] c(3) by simp
  next
    case False
    let ?i = "iter\<lparr>it_entry := it_nextEntry iter\<rparr>"
    show ?thesis
    proof (cases "it_nextEntry iter")
      case Nil
      have "dictNext addr d iter = dictNext addr d ?i" using False Nil by (subst dictNext.simps) simp
      moreover have "next_ok addr d ?i (concat cs)" using c Nil by (intro next_bucket) (auto simp: iter_pos_def)
      ultimately show ?thesis using c(3) False Nil by (auto simp: next_ok_def iter_same_def split: list.splits)
    next
      case (Cons de "next")
      have n: "dictGetNext de next = next \<and> chain_ok (no_value (dtype d)) next" using chain_next[of _ de "next"] Cons c(4) by auto
      have "dictNext addr d iter = Some (Some de, ?i\<lparr>it_nextEntry := next\<rparr>, d)" using False Cons n by (subst dictNext.simps) simp
      moreover have "iter_rest d (?i\<lparr>it_nextEntry := next\<rparr>) (next @ concat cs)" using c Cons n by (auto simp: iter_rest_def iter_pos_def)
      ultimately show ?thesis using c(2,3) False Cons by (auto simp: next_ok_def iter_same_def)
    qed
  qed
qed

text \<open>All entries, in the order in which the iterator delivers them.\<close>

partial_function (option) iter_all ::
    "u64 \<times> u64 \<Rightarrow> ('k, 's, 'v) dict \<Rightarrow> ('s, 'v) dictIterator \<Rightarrow> (('s, 'v) dictEntry list \<times> ('s, 'v) dictIterator \<times> ('k, 's, 'v) dict) option" where
  "iter_all addr d iter = do {
     (e, iter, d) \<leftarrow> dictNext addr d iter;
     case e of None \<Rightarrow> Some ([], iter, d)
     | Some e \<Rightarrow> do { (es, iter, d) \<leftarrow> iter_all addr d iter; Some (e # es, iter, d) } }"

declare iter_all.simps [code]

definition all_ok :: "u64 \<times> u64 \<Rightarrow> ('k, 's, 'v) dict \<Rightarrow> ('s, 'v) dictIterator \<Rightarrow> ('s, 'v) dictEntry list \<Rightarrow> bool" where
  "all_ok addr d iter es \<longleftrightarrow> (\<exists>iter'. iter_all addr d iter = Some (es, iter', d) \<and> iter_same iter' iter \<and> (it_index iter' \<noteq> -1 \<or> it_table iter' \<noteq> 0))"

lemma all_step: "next_ok addr d iter es \<Longrightarrow> (\<And>iter' e es'. es = e # es' \<Longrightarrow> iter_rest d iter' es' \<Longrightarrow> all_ok addr d iter' es') \<Longrightarrow> all_ok addr d iter es"
proof -
  assume n: "next_ok addr d iter es" and r: "\<And>iter' e es'. es = e # es' \<Longrightarrow> iter_rest d iter' es' \<Longrightarrow> all_ok addr d iter' es'"
  show ?thesis
  proof (cases es)
    case Nil
    then show ?thesis using n by (auto simp: next_ok_def all_ok_def iter_all.simps[of addr d iter])
  next
    case (Cons e es')
    then obtain i where i: "dictNext addr d iter = Some (Some e, i, d)" "iter_rest d i es'" "iter_same i iter" using n by (auto simp: next_ok_def)
    from r[OF Cons i(2)] show ?thesis using i(1,3) Cons by (auto simp: all_ok_def iter_all.simps[of addr d iter] iter_same_def)
  qed
qed

lemma all_rest: "iter_rest d iter es \<Longrightarrow> all_ok addr d iter es"
proof (induction es arbitrary: iter)
  case Nil
  then show ?case using all_step[OF next_rest[OF Nil, of addr]] by blast
next
  case (Cons e es)
  show ?case using all_step[OF next_rest[OF Cons.prems, of addr]] Cons.IH by blast
qed

text \<open>The first call: the buckets that were already moved are skipped.\<close>

lemma wf_pause [simp]: "dict_wf (d\<lparr>pauserehash := n\<rparr>) = dict_wf d" by (simp add: dict_wf_def)

lemma first_pos:
  assumes "dict_wf d"
  shows "\<exists>cs. iter_pos d (if dictIsRehashing d then i\<lparr>it_index := rehashidx d - 1, it_table := 0\<rparr> else i\<lparr>it_index := -1, it_table := 0\<rparr>) cs \<and>
    concat cs = ht_entries (ht0 d) @ ht_entries (ht1 d) \<and> (\<forall>c \<in> set cs. chain_ok (no_value (dtype d)) c)"
proof (cases "dictIsRehashing d")
  case False
  have "ht1 d = dictReset" using assms False by (simp add: dict_wf_def dictIsRehashing_def)
  then have "ht_entries (ht0 d) @ ht_entries (ht1 d) = concat (table_chains (ht0 d))" by (simp add: ht_entries_def table_chains_def dictReset_def split: option.splits)
  then show ?thesis using False assms wf_tables(4)[OF assms, of 0] by (simp add: iter_pos_def ht_def)
next
  case True
  obtain e0 tb0 where r: "ht_ok (dtype d) (ht0 d) e0 tb0" "0 \<le> rehashidx d" "\<forall>i < nat (rehashidx d). tb0 ! i = []" "rehashidx d \<le> 2 ^ e0"
    using assms True by (auto simp: dict_wf_def dictIsRehashing_def)
  let ?n = "nat (rehashidx d)"
  have t: "table_chains (ht0 d) = tb0" "length tb0 = 2 ^ e0" using r(1) by (simp_all add: ht_ok_def table_chains_def)
  have "?n \<le> length tb0" using r(2,4) t(2) by (simp add: nat_le_iff)
  then have "concat (take ?n tb0) = []" using r(3) by (auto simp: in_set_conv_nth)
  then have c: "concat tb0 = concat (drop ?n tb0)" by (metis append_Nil append_take_drop_id concat_append)
  have e: "ht_entries (ht0 d) @ ht_entries (ht1 d) = concat (drop ?n tb0 @ table_chains (ht1 d))"
    using t(1) c by (simp add: ht_entries_def table_chains_def split: option.splits)
  have "1 = 0 \<or> 1 = (1 :: nat) \<and> dictIsRehashing d" using True by simp
  note k = wf_tables(4)[OF assms, of 0] wf_tables(4)[OF assms this]
  show ?thesis unfolding e using True assms r(2) t(1) k
    by (intro exI[of _ "drop ?n tb0 @ table_chains (ht1 d)"]) (auto simp: iter_pos_def ht_def dest: in_set_dropD)
qed

lemma rehashing_pause [simp]: "dictIsRehashing (d\<lparr>pauserehash := n\<rparr>) = dictIsRehashing d" by (simp add: dictIsRehashing_def)

lemma first_all:
  assumes "iter_begin addr d0 i0 = (iter, d)" "it_entry i0 = []" "it_entry iter = []" "iter_pos d iter cs" "\<forall>c \<in> set cs. chain_ok (no_value (dtype d)) c"
  shows "\<exists>iter'. iter_all addr d0 i0 = Some (concat cs, iter', d) \<and> iter_same iter' iter \<and> (it_index iter' \<noteq> -1 \<or> it_table iter' \<noteq> 0)"
proof (cases cs)
  case Nil
  then show ?thesis using bucket_step[OF assms(4)] assms(1-3) by (auto simp: iter_all.simps[of addr d0 i0] dictNext.simps[of addr d0 i0] iter_same_def)
next
  case (Cons c cs')
  obtain i where i: "iter_bucket d iter = Some (True, i)" "iter_pos d i cs'" "it_entry i = c" "it_index i \<noteq> -1 \<or> it_table i \<noteq> 0" "iter_same i iter"
    using bucket_step[OF assms(4)] Cons by (auto simp: iter_same_def)
  show ?thesis
  proof (cases c)
    case Nil
    have "dictNext addr d0 i0 = dictNext addr d i" using assms(1,2) i(1,3) Nil by (subst dictNext.simps) simp
    then have "iter_all addr d0 i0 = iter_all addr d i" by (simp add: iter_all.simps[of addr d0 i0] iter_all.simps[of addr d i])
    moreover have "next_ok addr d i (concat cs')" using next_bucket[OF i(2) _ i(4), of addr] i(3) Nil assms(5) Cons by auto
    then have "all_ok addr d i (concat cs')" using all_step all_rest by blast
    ultimately show ?thesis using Cons Nil i(5) by (auto simp: all_ok_def iter_same_def)
  next
    case (Cons de nxt)
    have n: "dictGetNext de nxt = nxt \<and> chain_ok (no_value (dtype d)) nxt" using chain_next[of _ de nxt] Cons assms(5) \<open>cs = c # cs'\<close> by auto
    have "dictNext addr d0 i0 = Some (Some de, i\<lparr>it_nextEntry := nxt\<rparr>, d)" using assms(1,2) i(1,3) Cons n by (subst dictNext.simps) simp
    moreover have "iter_rest d (i\<lparr>it_nextEntry := nxt\<rparr>) (nxt @ concat cs')" using i Cons n assms(5) \<open>cs = c # cs'\<close> by (auto simp: iter_rest_def iter_pos_def)
    then have "all_ok addr d (i\<lparr>it_nextEntry := nxt\<rparr>) (nxt @ concat cs')" by (rule all_rest)
    ultimately show ?thesis using Cons \<open>cs = c # cs'\<close> i(5) by (auto simp: all_ok_def iter_all.simps[of addr d0 i0] iter_same_def)
  qed
qed

lemma iterate_complete:
  assumes "dict_wf d" "i0 = dictInitIterator \<or> i0 = dictInitSafeIterator"
  shows "\<exists>es iter' d'. iter_all addr d i0 = Some (es, iter', d') \<and> es = ht_entries (ht0 d) @ ht_entries (ht1 d) \<and> dictResetIterator addr d' iter' = Some d"
proof -
  let ?d = "if it_safe i0 then d\<lparr>pauserehash := pauserehash d + 1\<rparr> else d"
  let ?i = "if it_safe i0 then i0 else i0\<lparr>it_fingerprint := dictFingerprint addr d\<rparr>"
  let ?j = "if dictIsRehashing d then ?i\<lparr>it_index := rehashidx d - 1, it_table := 0\<rparr> else ?i\<lparr>it_index := -1, it_table := 0\<rparr>"
  have i0: "it_index i0 = -1" "it_table i0 = 0" "it_entry i0 = []" using assms(2) by (auto simp: dictInitIterator_def dictInitSafeIterator_def)
  have e: "?i\<lparr>it_index := -1, it_table := 0\<rparr> = ?i" "i\<lparr>it_index := k, it_table := 0\<rparr> = i\<lparr>it_index := k\<rparr>" if "i = ?i" for i k using i0 that by auto
  have r: "dictIsRehashing ?d = dictIsRehashing d" "rehashidx ?d = rehashidx d" "ht0 ?d = ht0 d" "ht1 ?d = ht1 d" "dtype ?d = dtype d" by (simp_all add: dictIsRehashing_def)
  have b: "iter_begin addr d i0 = (?j, ?d)" using i0 e r by (simp add: iter_begin_def)
  obtain cs where cs: "iter_pos ?d ?j cs" "concat cs = ht_entries (ht0 d) @ ht_entries (ht1 d)" "\<forall>c \<in> set cs. chain_ok (no_value (dtype ?d)) c"
    using first_pos[of ?d ?i] assms(1) r by (auto split: if_splits)
  have "it_entry ?j = []" using i0 by simp
  from first_all[OF b i0(3) this cs(1,3)] obtain iter' where it: "iter_all addr d i0 = Some (concat cs, iter', ?d)" "iter_same iter' ?j" "it_index iter' \<noteq> -1 \<or> it_table iter' \<noteq> 0" by blast
  have "dictResetIterator addr ?d iter' = Some d"
    using it(2,3) by (auto simp: dictResetIterator_def iter_same_def split: if_splits)
  then show ?thesis using it(1) cs(2) by auto
qed

section \<open>Adding at a bucket\<close>

definition bucket_of :: "('k, 's, 'v) dict \<Rightarrow> 'k \<Rightarrow> link" where
  "bucket_of d key = (let t = if dictIsRehashing d then 1 else 0 in (t, dictGetHash d key AND DICTHT_SIZE_MASK (size_exp (ht d t)), 0))"

lemma find_internal_ok:
  assumes ty: "dictType_ok (dtype d)" and r: "room d" and t: "table (ht0 d) \<noteq> None"
  shows "\<exists>x b d'. dictFindLinkInternal cr d key = Some (x, b, d') \<and> kept d d' \<and>
    (case x of None \<Rightarrow> matches (dtype d) key (cont d) = {#} \<and> b = bucket_of d' key | Some l \<Rightarrow> found d' key l)"
proof -
  obtain d' idx x where f: "dictRehashStepIfNeeded cr d (dictGetHash d key AND DICTHT_SIZE_MASK (size_exp (ht0 d))) = Some d'" "kept d d'"
    "find_tables d' key (dictGetHash d key) (dictGetHash d key AND DICTHT_SIZE_MASK (size_exp (ht0 d))) = Some (idx, x)" "searched d' key idx x"
    using step_search[OF ty r t] by blast
  then have s: "dtype d' = dtype d" "cont d' = cont d" by (auto simp: kept_def same_def)
  show ?thesis
  proof (cases x)
    case None
    then show ?thesis using f s by (auto simp: dictFindLinkInternal_def Let_def searched_def bucket_of_def)
  next
    case (Some l)
    then show ?thesis using f by (cases l) (auto simp: dictFindLinkInternal_def Let_def searched_def)
  qed
qed

lemma find_link_ok:
  assumes "dictType_ok (dtype d)" and "room d"
  shows "\<exists>x b d'. dictFindLink cr d key = Some (x, b, d') \<and> kept d d' \<and>
    (case x of None \<Rightarrow> matches (dtype d) key (cont d) = {#} \<and> (b = None \<or> b = Some (bucket_of d' key)) | Some l \<Rightarrow> matches (dtype d) key (cont d) \<noteq> {#})"
proof (cases "dictSize d = 0")
  case True
  then show ?thesis using dictSize_zero[OF assms(2)] kept_refl[OF assms(2)] by (simp add: dictFindLink_def)
next
  case False
  then have t: "table (ht0 d) \<noteq> None" using dictSize_zero[OF assms(2)] cont_table[OF assms(2)] by blast
  obtain x b d' where f: "dictFindLinkInternal cr d key = Some (x, b, d')" "kept d d'"
    "case x of None \<Rightarrow> matches (dtype d) key (cont d) = {#} \<and> b = bucket_of d' key | Some l \<Rightarrow> found d' key l"
    using find_internal_ok[OF assms t] by blast
  have s: "dtype d' = dtype d" "cont d' = cont d" using f(2) by (auto simp: kept_def same_def)
  show ?thesis using False f s found_entry[of d' key] by (cases x) (auto simp: dictFindLink_def)
qed

lemma expand_public:
  assumes "room d" "pauseAutoResize d \<le> 0"
  shows "\<exists>ok d'. dictExpandIfNeeded cr d = Some (ok, d') \<and> kept d d' \<and> table (ht0 d') \<noteq> None \<and> (dictIsRehashing d \<longrightarrow> d' = d)"
  using expand_if_needed_kept[OF assms(1), of cr] assms(2) by (auto simp: dictExpandIfNeeded'_def)

lemma bucket_same:
  assumes "dict_wf d" "dict_wf d'" "dtype d' = dtype d" "dictIsRehashing d \<longrightarrow> d' = d" "size_exp (ht0 d') = size_exp (ht0 d)" "size_exp (ht1 d') = size_exp (ht1 d)"
  shows "bucket_of d' key = bucket_of d key"
proof (cases "dictIsRehashing d")
  case False
  then have "size_exp (ht1 d) = -1" using assms(1) by (simp add: dict_wf_def dictIsRehashing_def dictReset_def)
  then have "\<not> dictIsRehashing d'" using assms(2,6) by (auto simp: dict_wf_def dictIsRehashing_def ht_ok_def split: if_splits)
  then show ?thesis using False assms(3,5) by (simp add: bucket_of_def ht_def dictGetHash_def)
qed (use assms in simp)

lemma set_key_new:
  assumes ty: "dictType_ok (dtype d)" and r: "room d" "pauseAutoResize d \<le> 0" and m: "matches (dtype d) (keyFromStoredKey (dtype d) s) (cont d) = {#}"
    and l: "l = None \<or> l = Some (bucket_of d (keyFromStoredKey (dtype d) s))" and dup: "keyDup (dtype d) = None"
  shows "\<exists>d'. dictSetKeyAtLink cr as_key d s l True = Some d' \<and> frame d d' \<and> cont d' = cont d + {# (s, None) #}"
proof -
  let ?k = "keyFromStoredKey (dtype d) s"
  obtain ok d1 where d1: "dictExpandIfNeeded cr d = Some (ok, d1)" "kept d d1" "table (ht0 d1) \<noteq> None" "dictIsRehashing d \<longrightarrow> d1 = d" using expand_public[OF r] by blast
  have s1: "dtype d1 = dtype d" "cont d1 = cont d" "room d1" "dict_wf d" "dict_wf d1" "same d d1" using d1(2) r(1) by (auto simp: kept_def same_def room_def)
  let ?look = "do { (x, b, d) \<leftarrow> dictFindLinkInternal cr d1 (keyFromStoredKey (dtype d1) s); guard (x = None); Some (b, d) }"
  have ty1: "dictType_ok (dtype d1)" using ty s1(1) by simp
  obtain x b2 d2 where f: "dictFindLinkInternal cr d1 ?k = Some (x, b2, d2)" "kept d1 d2"
    "case x of None \<Rightarrow> matches (dtype d1) ?k (cont d1) = {#} \<and> b2 = bucket_of d2 ?k | Some l \<Rightarrow> found d2 ?k l"
    using find_internal_ok[OF ty1 s1(3) d1(3), of cr ?k] by blast
  have x: "x = None"
  proof (cases x)
    case (Some l)
    then have "found d2 ?k l" using f(3) by simp
    from found_entry[OF this] show ?thesis using m s1(1,2) f(2) by (auto simp: kept_def same_def)
  qed simp
  have look: "?look = Some (bucket_of d2 ?k, d2)" using f(1,3) x s1(1) by simp
  have t2: "table (ht0 d2) \<noteq> None" using f(2) d1(3) by (auto simp: kept_def same_def)
  obtain d3 where d3: "(case l of Some b \<Rightarrow> if (size_exp (ht0 d), size_exp (ht1 d)) = (size_exp (ht0 d1), size_exp (ht1 d1)) then Some (b, d1) else ?look | None \<Rightarrow> ?look)
      = Some (bucket_of d3 ?k, d3)" "kept d1 d3" "table (ht0 d3) \<noteq> None"
  proof (cases "l \<noteq> None \<and> (size_exp (ht0 d), size_exp (ht1 d)) = (size_exp (ht0 d1), size_exp (ht1 d1))")
    case True
    then have "l = Some (bucket_of d1 ?k)" using l bucket_same[OF s1(4,5,1) d1(4), of ?k] by auto
    then show ?thesis using that[of d1] True d1(3) kept_refl[OF s1(3)] by simp
  next
    case False
    then show ?thesis using that[of d2] look f(2) t2 by (auto split: option.splits)
  qed
  have s3: "dtype d3 = dtype d" "cont d3 = cont d" "room d3" "same d d3" using d3(2) s1 by (auto simp: kept_def intro: same_trans) (auto simp: same_def)
  let ?t = "if dictIsRehashing d3 then 1 else 0 :: nat"
  have i: "dictGetHash d3 ?k AND DICTHT_SIZE_MASK (size_exp (ht d3 ?t)) = dictGetHash d3 (keyFromStoredKey (dtype d3) s) AND DICTHT_SIZE_MASK (size_exp (ht d3 ?t))" using s3(1) by simp
  obtain y d' where y: "dictInsertKeyAtLink d3 s (bucket_of d3 ?k) = Some (bucket_of d3 ?k, d')" "frame d3 d'" "cont d' = cont d3 + {# (s, None) #}"
    using insert_ok[OF s3(3) d3(3) i] unfolding bucket_of_def Let_def by blast
  have "dictSetKeyAtLink cr as_key d s l True = Some d'" using d1(1) d3(1) y(1) dup by (simp add: dictSetKeyAtLink_def)
  then show ?thesis using y(2,3) s3(2) frame_same[OF s3(4)] by auto
qed

section \<open>Properties\<close>

text \<open>C37: An iterator, safe or not, started on a well-formed dictionary returns every entry exactly once and then the null pointer, also in the middle of a
  rehashing; releasing it finds the fingerprint unchanged and leaves the dictionary as it was.\<close>

theorem dict_iterator_complete:
  assumes "dict_wf d" "i0 = dictInitIterator \<or> i0 = dictInitSafeIterator"
  shows "\<exists>es iter' d'. iter_all addr d i0 = Some (es, iter', d') \<and> mset (map strip es) = cont d \<and> dictResetIterator addr d' iter' = Some d"
  using iterate_complete[OF assms, of addr] by (auto simp: cont_def ht_cont_def)

theorem dict_iterator_complete_witness:
  "\<exists>rs d es iter' d'. run_ops dict_step [CAdd 1 0, CAdd 2 0, CAdd 3 0, CAdd 4 0, CAdd 5 0] (DICT_RESIZE_ENABLE, dictCreate (nat_dict False)) = Some (rs, DICT_RESIZE_ENABLE, d) \<and>
     dictIsRehashing d \<and> iter_all (4096, 8192) d dictInitSafeIterator = Some (es, iter', d') \<and> mset (map strip es) = cont d \<and> dictResetIterator (4096, 8192) d' iter' = Some d"
proof -
  let ?cs = "[CAdd 1 0, CAdd 2 0, CAdd 3 0, CAdd 4 0, CAdd 5 0] :: (nat, nat, nat) dcmd list"
  have "map_option (\<lambda>(rs, cr, d). (cr, dictIsRehashing d)) (run_ops dict_step ?cs (DICT_RESIZE_ENABLE, dictCreate (nat_dict False))) = Some (DICT_RESIZE_ENABLE, True)" by code_simp
  then obtain rs d where r: "run_ops dict_step ?cs (DICT_RESIZE_ENABLE, dictCreate (nat_dict False)) = Some (rs, DICT_RESIZE_ENABLE, d)" "dictIsRehashing d"
    by (auto simp: map_option_case split: option.splits)
  obtain M where "dict_rep (nat_dict False) 0 (DICT_RESIZE_ENABLE, d) M" using reached[OF nat_dict_ok _ _ r(1)] by (auto simp: cmd_ok_def)
  then have "dict_wf d" by (auto simp: dict_rep_def)
  then show ?thesis using dict_iterator_complete[of d dictInitSafeIterator "(4096, 8192)"] r by auto
qed

end
