(* ===== verification/Tset.thy ===== *)
theory Tset
  imports SdsProps DictIter ListpackProps Intset Digest
begin

text \<open>
  The sets of \<open>src/redislib-src/kernel/t_set.c\<close>, with the object factories and the dictionary type of \<open>redislib_port.c\<close>. A set is an integer set, a
  listpack or a hash table without values; adding converts it when a threshold of the configuration is passed. The operations call the models
  of \<open>intset.c\<close>, \<open>listpack.c\<close>, \<open>dict.c\<close>, \<open>sds.c\<close>, \<open>siphash.c\<close> and \<open>util.c\<close>. \<^term>\<open>None\<close> stands for a failed assertion, a panic, a null
  pointer that is used, and memory misuse: the callers of \<open>lpNew\<close>, \<open>lpAppend\<close> and \<open>lpDelete\<close> store a \<open>NULL\<close> result as the listpack of the set
  without a test, so that refusal counts as undefined here.
\<close>

section \<open>Objects\<close>

text \<open>The thresholds of \<open>struct redislibServer\<close>, the global state of the dictionaries (resize policy and hash seed), and the memory: the allocator, the
  bytes of fresh memory and the addresses of the tables of a dictionary.\<close>

record server =
  set_max_intset_entries :: nat
  set_max_listpack_entries :: nat
  set_max_listpack_value :: nat
  dict_can_resize :: dictResizeEnable
  dict_hash_function_seed :: mem
  mem_alloc :: allocator
  mem_fresh :: fresh
  dict_addr :: "u64 \<times> u64"

text \<open>A set in one of its three encodings; a hash table comes with the size counter in its metadata.\<close>

type_synonym setdict = "(mem, sds, unit) dict"

datatype robj = OIntset intset | OListpack mem | OHT setdict u64

datatype encoding = OBJ_ENCODING_INTSET | OBJ_ENCODING_LISTPACK | OBJ_ENCODING_HT

fun robj_encoding :: "robj \<Rightarrow> encoding" where
  "robj_encoding (OIntset _) = OBJ_ENCODING_INTSET"
| "robj_encoding (OListpack _) = OBJ_ENCODING_LISTPACK"
| "robj_encoding (OHT _ _) = OBJ_ENCODING_HT"

definition sds_string :: "sds \<Rightarrow> mem option" where
  "sds_string s = do { n \<leftarrow> sdslen s; srd s 0 n }"

section \<open>The dictionary type of sets\<close>

text \<open>A key is given by the bytes of its string. The comparison computes with lengths of type \<open>int\<close>; the operations below are undefined for strings
  of 2 to the 31 bytes and more.\<close>

definition stored_key :: "sds \<Rightarrow> mem" where
  "stored_key s = (case sds_string s of None \<Rightarrow> [] | Some t \<Rightarrow> t)"

definition dictSdsHash :: "mem \<Rightarrow> mem \<Rightarrow> u64" where
  "dictSdsHash seed key = (case siphash key seed of None \<Rightarrow> 0 | Some h \<Rightarrow> h)"

definition dictSdsKeyCompare :: "mem \<Rightarrow> mem \<Rightarrow> bool" where
  "dictSdsKeyCompare key1 key2 = (let l1 = length key1; l2 = length key2 in if l1 \<noteq> l2 then False else take l1 key1 = take l1 key2)"

definition setDictType :: "mem \<Rightarrow> (mem, sds, unit) dictType" where
  "setDictType seed = \<lparr>hashFunction = dictSdsHash seed, keyDup = None, valDup = None, keyCompare = Some dictSdsKeyCompare, resizeAllowed = None,
     no_value = True, force_full_rehash = False, keyFromStoredKey = stored_key\<rparr>"

text \<open>\<open>*htGetMetadataSize(ht) += sdsAllocSize(s)\<close>, and the key destructor, which subtracts it and frees the string.\<close>

definition metadata_add :: "u64 \<Rightarrow> sds \<Rightarrow> u64 option" where
  "metadata_add n s = do { k \<leftarrow> sdsAllocSize s; Some (n + of_nat k) }"

definition setSdsDestructor :: "u64 \<Rightarrow> sds \<Rightarrow> u64 option" where
  "setSdsDestructor n s = do { k \<leftarrow> sdsAllocSize s; sdsfree (Some s); Some (n - of_nat k) }"

section \<open>Iterators\<close>

datatype setTypeIterator = SiIntset int | SiListpack "nat option" | SiHT "(sds, unit) dictIterator"

fun setTypeInitIterator :: "robj \<Rightarrow> setTypeIterator" where
  "setTypeInitIterator (OHT d n) = SiHT dictInitIterator"
| "setTypeInitIterator (OIntset is) = SiIntset 0"
| "setTypeInitIterator (OListpack lp) = SiListpack None"

definition setTypeResetIterator :: "server \<Rightarrow> robj \<Rightarrow> setTypeIterator \<Rightarrow> unit option" where
  "setTypeResetIterator server subject si =
     (case si of SiHT di \<Rightarrow> (case subject of OHT d n \<Rightarrow> do { d \<leftarrow> dictResetIterator (dict_addr server) d di; Some () } | _ \<Rightarrow> None) | _ \<Rightarrow> Some ())"

text \<open>The next element, a string or an integer, and \<^term>\<open>None\<close> inside for the result -1.\<close>

definition setTypeNext :: "server \<Rightarrow> robj \<Rightarrow> setTypeIterator \<Rightarrow> ((mem + i64) option \<times> setTypeIterator) option" where
  "setTypeNext server subject si =
     (case si of
        SiHT di \<Rightarrow> (case subject of OHT d n \<Rightarrow> do {
            (de, di, d) \<leftarrow> dictNext (dict_addr server) d di;
            case de of None \<Rightarrow> Some (None, SiHT di)
            | Some de \<Rightarrow> do { t \<leftarrow> sds_string (dictGetKey de); Some (Some (Inl t), SiHT di) } } | _ \<Rightarrow> None)
      | SiIntset ii \<Rightarrow> (case subject of OIntset is \<Rightarrow> do {
            jj \<leftarrow> c_int (ii + 1);
            r \<leftarrow> intsetGet is (word_of_int ii);
            Some (map_option Inr r, SiIntset jj) } | _ \<Rightarrow> None)
      | SiListpack lpi \<Rightarrow> (case subject of OListpack lp \<Rightarrow> do {
            r \<leftarrow> (case lpi of None \<Rightarrow> lpFirst lp | Some p \<Rightarrow> lpNext lp p);
            case r of None \<Rightarrow> Some (None, SiListpack lpi)
            | Some p \<Rightarrow> do {
                v \<leftarrow> lpGetValue lp p;
                case v of Inl (off, l) \<Rightarrow> do { t \<leftarrow> rd lp off (unat l); Some (Some (Inl t), SiListpack (Some p)) }
                | Inr v \<Rightarrow> Some (Some (Inr v), SiListpack (Some p)) } } | _ \<Rightarrow> None))"

definition setTypeNextObject :: "server \<Rightarrow> robj \<Rightarrow> setTypeIterator \<Rightarrow> (sds option \<times> setTypeIterator) option" where
  "setTypeNextObject server subject si = do {
     (r, si) \<leftarrow> setTypeNext server subject si;
     case r of None \<Rightarrow> Some (None, si)
     | Some (Inl str) \<Rightarrow> do { s \<leftarrow> sdsnewlen (mem_alloc server) (Init str) (length str); Some (s, si) }
     | Some (Inr v) \<Rightarrow> do { s \<leftarrow> sdsfromlonglong (mem_alloc server) (mem_fresh server) v; Some (s, si) } }"

section \<open>Size and conversion\<close>

text \<open>The length of a listpack may be written back to its header.\<close>

definition setTypeSize :: "robj \<Rightarrow> (nat \<times> robj) option" where
  "setTypeSize subject =
     (case subject of
        OHT d n \<Rightarrow> Some (unat (dictSize d), subject)
      | OIntset is \<Rightarrow> Some (unat (intsetLen is), subject)
      | OListpack lp \<Rightarrow> do { (n, lp) \<leftarrow> lpLength lp; Some (unat n, OListpack lp) })"

definition setTypeAllocSize :: "robj \<Rightarrow> u64 option" where
  "setTypeAllocSize subject =
     (case subject of
        OHT d n \<Rightarrow> Some (56 + dictMemUsage d + n)
      | OIntset is \<Rightarrow> do { k \<leftarrow> intsetAllocSize is; Some (of_nat k) }
      | OListpack lp \<Rightarrow> do { k \<leftarrow> lpBytes lp; Some (of_nat k) })"

partial_function (option) convert_dict :: "server \<Rightarrow> robj \<Rightarrow> setTypeIterator \<Rightarrow> setdict \<Rightarrow> u64 \<Rightarrow> (setdict \<times> u64 \<times> setTypeIterator) option" where
  "convert_dict server setobj si d sz = do {
     (element, si) \<leftarrow> setTypeNextObject server setobj si;
     case element of None \<Rightarrow> Some (d, sz, si)
     | Some s \<Rightarrow> do {
         (ok, d) \<leftarrow> dictAdd (dict_can_resize server) d s ();
         guard ok;
         sz \<leftarrow> metadata_add sz s;
         convert_dict server setobj si d sz } }"

partial_function (option) convert_listpack :: "server \<Rightarrow> robj \<Rightarrow> setTypeIterator \<Rightarrow> mem \<Rightarrow> (mem \<times> setTypeIterator) option" where
  "convert_listpack server setobj si lp = do {
     (r, si) \<leftarrow> setTypeNext server setobj si;
     case r of None \<Rightarrow> Some (lp, si)
     | Some e \<Rightarrow> do {
         r \<leftarrow> (case e of Inl str \<Rightarrow> lpAppend (mem_alloc server) lp str | Inr v \<Rightarrow> lpAppendInteger (mem_alloc server) lp v);
         lp \<leftarrow> r;
         convert_listpack server setobj si lp } }"

declare convert_dict.simps [code] convert_listpack.simps [code]

definition estimate_capacity :: "robj \<Rightarrow> nat \<Rightarrow> (nat \<times> robj) option" where
  "estimate_capacity setobj cap = do {
     (n, setobj) \<leftarrow> (case setobj of OIntset _ \<Rightarrow> setTypeSize setobj | _ \<Rightarrow> Some (0, setobj));
     case setobj of
       OIntset is \<Rightarrow>
         if n > 0 then do {
           mn \<leftarrow> intsetMin is;
           mx \<leftarrow> intsetMax is;
           Some (max (lpEstimateBytesRepeatedInteger mn cap) (lpEstimateBytesRepeatedInteger mx cap), setobj) }
         else Some (cap * 2, setobj)
     | _ \<Rightarrow> Some (cap * 2, setobj) }"

text \<open>The result is whether the conversion was done. \<open>freeSetObject\<close> releases the old payload.\<close>

definition setTypeConvertAndExpand :: "server \<Rightarrow> robj \<Rightarrow> encoding \<Rightarrow> nat \<Rightarrow> bool \<Rightarrow> bool \<Rightarrow> (bool \<times> robj) option" where
  "setTypeConvertAndExpand server setobj enc cap panic malloc_fails = do {
     guard (robj_encoding setobj \<noteq> enc);
     case enc of
       OBJ_ENCODING_HT \<Rightarrow> do {
         let d = dictCreate (setDictType (dict_hash_function_seed server));
         (ok, d) \<leftarrow>
           (if panic then do { (r, d) \<leftarrow> dictExpand (dict_can_resize server) d (of_nat cap); Some (True, d) }
            else dictTryExpand (dict_can_resize server) malloc_fails d (of_nat cap));
         if \<not> ok then Some (False, setobj)
         else do {
           (d, sz, si) \<leftarrow> convert_dict server setobj (setTypeInitIterator setobj) d 0;
           setTypeResetIterator server setobj si;
           Some (True, OHT d sz) } }
     | OBJ_ENCODING_LISTPACK \<Rightarrow> do {
         (estcap, setobj) \<leftarrow> estimate_capacity setobj cap;
         r \<leftarrow> lpNew (mem_alloc server) estcap;
         lp \<leftarrow> r;
         (lp, si) \<leftarrow> convert_listpack server setobj (setTypeInitIterator setobj) lp;
         setTypeResetIterator server setobj si;
         Some (True, OListpack lp) }
     | OBJ_ENCODING_INTSET \<Rightarrow> None }"

definition setTypeConvert :: "server \<Rightarrow> robj \<Rightarrow> encoding \<Rightarrow> robj option" where
  "setTypeConvert server setobj enc = do {
     (n, setobj) \<leftarrow> setTypeSize setobj;
     (ok, setobj) \<leftarrow> setTypeConvertAndExpand server setobj enc n True False;
     Some setobj }"

definition intsetMaxEntries :: "server \<Rightarrow> nat" where
  "intsetMaxEntries server = (if set_max_intset_entries server \<ge> 2 ^ 30 then 2 ^ 30 else set_max_intset_entries server)"

definition maybeConvertIntset :: "server \<Rightarrow> robj \<Rightarrow> robj option" where
  "maybeConvertIntset server subject =
     (case subject of
        OIntset is \<Rightarrow> if unat (intsetLen is) > intsetMaxEntries server then setTypeConvert server subject OBJ_ENCODING_HT else Some subject
      | _ \<Rightarrow> None)"

definition setTypeMaybeConvert :: "server \<Rightarrow> robj \<Rightarrow> nat \<Rightarrow> robj option" where
  "setTypeMaybeConvert server setobj size_hint =
     (if robj_encoding setobj = OBJ_ENCODING_LISTPACK \<and> size_hint > set_max_listpack_entries server \<or>
         robj_encoding setobj = OBJ_ENCODING_INTSET \<and> size_hint > set_max_intset_entries server
      then map_option snd (setTypeConvertAndExpand server setobj OBJ_ENCODING_HT size_hint True False) else Some setobj)"

section \<open>Adding\<close>

text \<open>A value of the interface: an sds string (\<open>str_is_sds\<close>), a buffer, or an integer (\<open>str == NULL\<close>).\<close>

datatype setval = VSds sds | VBuf mem | VInt i64

text \<open>\<open>sdsval = str_is_sds ? (sds)str : sdsnewlen(str, len)\<close>; the null pointer of a failed allocation is used without a test.\<close>

definition temp_key :: "server \<Rightarrow> sds option \<Rightarrow> mem \<Rightarrow> sds option" where
  "temp_key server sdsv str = (case sdsv of Some s \<Rightarrow> Some s | None \<Rightarrow> do { r \<leftarrow> sdsnewlen (mem_alloc server) (Init str) (length str); r })"

text \<open>The branches of \<open>setTypeAddAux\<close>. The string is given by its bytes \<open>str\<close>, with the sds object when it came as one (\<open>sdsv\<close>), and the integer
  when it was printed to the local buffer (\<open>tmp\<close>).\<close>

definition add_ht :: "server \<Rightarrow> setdict \<Rightarrow> u64 \<Rightarrow> mem \<Rightarrow> sds option \<Rightarrow> (bool \<times> robj) option" where
  "add_ht server d sz str sdsv = do {
     guard (length str < 2 ^ 31);
     sdsval \<leftarrow> temp_key server sdsv str;
     (link, bucket, d) \<leftarrow> dictFindLink (dict_can_resize server) d (stored_key sdsval);
     case link of
       None \<Rightarrow> do {
         sdsval \<leftarrow> (case sdsv of Some s \<Rightarrow> do { r \<leftarrow> sdsdup (mem_alloc server) s; r } | None \<Rightarrow> Some sdsval);
         d \<leftarrow> dictSetKeyAtLink (dict_can_resize server) stored_key d sdsval bucket True;
         sz \<leftarrow> metadata_add sz sdsval;
         Some (True, OHT d sz) }
     | Some _ \<Rightarrow> do {
         (if sdsv = None then sdsfree (Some sdsval) else Some ());
         Some (False, OHT d sz) } }"

text \<open>Conversion to a hash table and insertion of a new string.\<close>

definition convert_and_add :: "server \<Rightarrow> robj \<Rightarrow> nat \<Rightarrow> mem \<Rightarrow> (bool \<times> robj) option" where
  "convert_and_add server setobj cap str = do {
     (ok, setobj) \<leftarrow> setTypeConvertAndExpand server setobj OBJ_ENCODING_HT cap True False;
     case setobj of
       OHT d sz \<Rightarrow> do {
         guard (length str < 2 ^ 31);
         r \<leftarrow> sdsnewlen (mem_alloc server) (Init str) (length str);
         newval \<leftarrow> r;
         (ok, d) \<leftarrow> dictAdd (dict_can_resize server) d newval ();
         guard ok;
         sz \<leftarrow> metadata_add sz newval;
         Some (True, OHT d sz) }
     | _ \<Rightarrow> None }"

definition add_listpack :: "server \<Rightarrow> mem \<Rightarrow> mem \<Rightarrow> i64 option \<Rightarrow> (bool \<times> robj) option" where
  "add_listpack server lp str tmp = do {
     p \<leftarrow> lpFirst lp;
     p \<leftarrow> (case p of None \<Rightarrow> Some None | Some p \<Rightarrow> lpFind lp (Some p) str 0);
     case p of
       Some _ \<Rightarrow> Some (False, OListpack lp)
     | None \<Rightarrow> do {
         (n, lp) \<leftarrow> lpLength lp;
         safe \<leftarrow>
           (if unat n < set_max_listpack_entries server \<and> length str \<le> set_max_listpack_value server
            then lpSafeToAdd (Some lp) (of_nat (length str)) else Some False);
         if safe then do {
           r \<leftarrow> (case tmp of Some llval \<Rightarrow> lpAppendInteger (mem_alloc server) lp llval | None \<Rightarrow> lpAppend (mem_alloc server) lp str);
           lp \<leftarrow> r;
           Some (True, OListpack lp) }
         else do {
           (n, lp) \<leftarrow> lpLength lp;
           convert_and_add server (OListpack lp) (unat n + 1) str } } }"

definition intset_add :: "server \<Rightarrow> intset \<Rightarrow> i64 \<Rightarrow> (bool \<times> robj) option" where
  "intset_add server is v = do {
     (is, success) \<leftarrow> intsetAdd (mem_fresh server) is v;
     if success then do { setobj \<leftarrow> maybeConvertIntset server (OIntset is); Some (True, setobj) }
     else Some (False, OIntset is) }"

text \<open>What the elements of an integer set need at most in a listpack.\<close>

definition intset_estimate :: "intset \<Rightarrow> (nat \<times> nat) option" where
  "intset_estimate is = (let n = unat (intsetLen is) in
     if n \<noteq> 0 then do {
       mx \<leftarrow> intsetMax is;
       mn \<leftarrow> intsetMin is;
       Some (max (sdigits10 mx) (sdigits10 mn), max (lpEstimateBytesRepeatedInteger mx n) (lpEstimateBytesRepeatedInteger mn n)) }
     else Some (0, 0))"

definition add_intset :: "server \<Rightarrow> intset \<Rightarrow> mem \<Rightarrow> (bool \<times> robj) option" where
  "add_intset server is str =
     (case string2ll str of
        Some value \<Rightarrow> intset_add server is value
      | None \<Rightarrow> do {
          (maxelelen, totsize) \<leftarrow> intset_estimate is;
          safe \<leftarrow>
            (if unat (intsetLen is) < set_max_listpack_entries server \<and> length str \<le> set_max_listpack_value server \<and> maxelelen \<le> set_max_listpack_value server
             then lpSafeToAdd None (of_nat (totsize + length str)) else Some False);
          if safe then do {
            (ok, setobj) \<leftarrow> setTypeConvertAndExpand server (OIntset is) OBJ_ENCODING_LISTPACK (unat (intsetLen is) + 1) True False;
            case setobj of
              OListpack lp \<Rightarrow> do {
                r \<leftarrow> lpAppend (mem_alloc server) lp str;
                lp \<leftarrow> r;
                lp \<leftarrow> lpShrinkToFit (mem_alloc server) lp;
                Some (True, OListpack lp) }
            | _ \<Rightarrow> None }
          else convert_and_add server (OIntset is) (unat (intsetLen is) + 1) str })"

text \<open>\<open>len = ll2string(tmpbuf, sizeof tmpbuf, llval); str = tmpbuf\<close>.\<close>

definition tmp_text :: "server \<Rightarrow> i64 \<Rightarrow> mem option" where
  "tmp_text server llval = do { (len, buf) \<leftarrow> ll2string (map (mem_fresh server) [0..<LONG_STR_SIZE]) LONG_STR_SIZE llval; Some (take len buf) }"

definition add_str :: "server \<Rightarrow> robj \<Rightarrow> mem \<Rightarrow> sds option \<Rightarrow> i64 option \<Rightarrow> (bool \<times> robj) option" where
  "add_str server setobj str sdsv tmp =
     (case setobj of
        OHT d sz \<Rightarrow> add_ht server d sz str sdsv
      | OListpack lp \<Rightarrow> add_listpack server lp str tmp
      | OIntset is \<Rightarrow> add_intset server is str)"

definition setTypeAddAux :: "server \<Rightarrow> robj \<Rightarrow> setval \<Rightarrow> (bool \<times> robj) option" where
  "setTypeAddAux server setobj value =
     (case value of
        VInt llval \<Rightarrow>
          (case setobj of
             OIntset is \<Rightarrow> intset_add server is llval
           | _ \<Rightarrow> do { str \<leftarrow> tmp_text server llval; add_str server setobj str None (Some llval) })
      | VSds s \<Rightarrow> do { str \<leftarrow> sds_string s; add_str server setobj str (Some s) None }
      | VBuf str \<Rightarrow> add_str server setobj str None None)"

definition setTypeAdd :: "server \<Rightarrow> robj \<Rightarrow> sds \<Rightarrow> (bool \<times> robj) option" where
  "setTypeAdd server subject value = setTypeAddAux server subject (VSds value)"

section \<open>Removing and testing\<close>

definition remove_str :: "server \<Rightarrow> robj \<Rightarrow> mem \<Rightarrow> sds option \<Rightarrow> (bool \<times> robj) option" where
  "remove_str server setobj str sdsv =
     (case setobj of
        OHT d sz \<Rightarrow> do {
          guard (length str < 2 ^ 31);
          sdsval \<leftarrow> temp_key server sdsv str;
          (e, d) \<leftarrow> dictGenericDelete (dict_can_resize server) d (stored_key sdsval);
          sz \<leftarrow> (case e of None \<Rightarrow> Some sz | Some e \<Rightarrow> setSdsDestructor sz (dictGetKey e));
          (if sdsv = None then sdsfree (Some sdsval) else Some ());
          Some (e \<noteq> None, OHT d sz) }
      | OListpack lp \<Rightarrow> do {
          p \<leftarrow> lpFirst lp;
          case p of None \<Rightarrow> Some (False, setobj)
          | Some p \<Rightarrow> do {
              p \<leftarrow> lpFind lp (Some p) str 0;
              case p of None \<Rightarrow> Some (False, setobj)
              | Some p \<Rightarrow> do {
                  r \<leftarrow> lpDelete (mem_alloc server) lp p;
                  (lp, q) \<leftarrow> r;
                  Some (True, OListpack lp) } } }
      | OIntset is \<Rightarrow>
          (case string2ll str of
             None \<Rightarrow> Some (False, setobj)
           | Some llval \<Rightarrow> do {
               (is, success) \<leftarrow> intsetRemove (mem_fresh server) is llval;
               Some (success, OIntset is) }))"

definition setTypeRemoveAux :: "server \<Rightarrow> robj \<Rightarrow> setval \<Rightarrow> (bool \<times> robj) option" where
  "setTypeRemoveAux server setobj value =
     (case value of
        VInt llval \<Rightarrow>
          (case setobj of
             OIntset is \<Rightarrow> do { (is, success) \<leftarrow> intsetRemove (mem_fresh server) is llval; Some (success, OIntset is) }
           | _ \<Rightarrow> do { str \<leftarrow> tmp_text server llval; remove_str server setobj str None })
      | VSds s \<Rightarrow> do { str \<leftarrow> sds_string s; remove_str server setobj str (Some s) }
      | VBuf str \<Rightarrow> remove_str server setobj str None)"

definition setTypeRemove :: "server \<Rightarrow> robj \<Rightarrow> sds \<Rightarrow> (bool \<times> robj) option" where
  "setTypeRemove server setobj value = setTypeRemoveAux server setobj (VSds value)"

definition member_str :: "server \<Rightarrow> robj \<Rightarrow> mem \<Rightarrow> sds option \<Rightarrow> (bool \<times> robj) option" where
  "member_str server setobj str sdsv =
     (case setobj of
        OListpack lp \<Rightarrow> do {
          p \<leftarrow> lpFirst lp;
          case p of None \<Rightarrow> Some (False, setobj)
          | Some p \<Rightarrow> do { p \<leftarrow> lpFind lp (Some p) str 0; Some (p \<noteq> None, setobj) } }
      | OIntset is \<Rightarrow>
          (case string2ll str of None \<Rightarrow> Some (False, setobj) | Some llval \<Rightarrow> do { r \<leftarrow> intsetFind is llval; Some (r, setobj) })
      | OHT d sz \<Rightarrow> do {
          guard (length str < 2 ^ 31);
          sdsval \<leftarrow> temp_key server sdsv str;
          (e, d) \<leftarrow> dictFind (dict_can_resize server) d (stored_key sdsval);
          (if sdsv = None then sdsfree (Some sdsval) else Some ());
          Some (e \<noteq> None, OHT d sz) })"

definition setTypeIsMemberAux :: "server \<Rightarrow> robj \<Rightarrow> setval \<Rightarrow> (bool \<times> robj) option" where
  "setTypeIsMemberAux server setobj value =
     (case value of
        VInt llval \<Rightarrow>
          (case setobj of
             OIntset is \<Rightarrow> do { r \<leftarrow> intsetFind is llval; Some (r, setobj) }
           | _ \<Rightarrow> do { str \<leftarrow> tmp_text server llval; member_str server setobj str None })
      | VSds s \<Rightarrow> do { str \<leftarrow> sds_string s; member_str server setobj str (Some s) }
      | VBuf str \<Rightarrow> member_str server setobj str None)"

definition setTypeIsMember :: "server \<Rightarrow> robj \<Rightarrow> sds \<Rightarrow> (bool \<times> robj) option" where
  "setTypeIsMember server subject value = setTypeIsMemberAux server subject (VSds value)"

section \<open>Creation and copies\<close>

definition createSetObject :: "server \<Rightarrow> robj" where
  "createSetObject server = OHT (dictCreate (setDictType (dict_hash_function_seed server))) 0"

definition createIntsetObject :: robj where "createIntsetObject = OIntset intsetNew"

definition createSetListpackObject :: "server \<Rightarrow> robj option" where
  "createSetListpackObject server = do { r \<leftarrow> lpNew (mem_alloc server) 0; lp \<leftarrow> r; Some (OListpack lp) }"

definition isSdsRepresentableAsLongLong :: "sds \<Rightarrow> i64 option option" where
  "isSdsRepresentableAsLongLong s = do { t \<leftarrow> sds_string s; Some (string2ll t) }"

definition expand_object :: "server \<Rightarrow> robj \<Rightarrow> nat \<Rightarrow> robj option" where
  "expand_object server setobj n =
     (case setobj of OHT d sz \<Rightarrow> do { (r, d) \<leftarrow> dictExpand (dict_can_resize server) d (of_nat n); Some (OHT d sz) } | _ \<Rightarrow> None)"

definition setTypeCreate :: "server \<Rightarrow> sds \<Rightarrow> nat \<Rightarrow> robj option" where
  "setTypeCreate server value size_hint = do {
     r \<leftarrow> isSdsRepresentableAsLongLong value;
     if r \<noteq> None \<and> size_hint \<le> set_max_intset_entries server then Some createIntsetObject
     else if size_hint \<le> set_max_listpack_entries server then createSetListpackObject server
     else expand_object server (createSetObject server) size_hint }"

partial_function (option) dup_loop :: "server \<Rightarrow> robj \<Rightarrow> (sds, unit) dictIterator \<Rightarrow> robj \<Rightarrow> (robj \<times> (sds, unit) dictIterator) option" where
  "dup_loop server subject di setobj = (case subject of
     OHT d n \<Rightarrow> do {
       (de, di, d') \<leftarrow> dictNext (dict_addr server) d di;
       case de of None \<Rightarrow> Some (setobj, di)
       | Some de \<Rightarrow> do {
           (r, setobj) \<leftarrow> setTypeAdd server setobj (dictGetKey de);
           dup_loop server subject di setobj } }
   | _ \<Rightarrow> None)"

declare dup_loop.simps [code]

definition setTypeDup :: "server \<Rightarrow> robj \<Rightarrow> robj option" where
  "setTypeDup server subject =
     (case subject of
        OIntset is \<Rightarrow> do { b \<leftarrow> rd (contents is) 0 (unat (ilength is) * unat (encoding is)); Some (OIntset (is\<lparr>contents := b\<rparr>)) }
      | OListpack lp \<Rightarrow> do { sz \<leftarrow> lpBytes lp; b \<leftarrow> rd lp 0 sz; Some (OListpack b) }
      | OHT d n \<Rightarrow> do {
          setobj \<leftarrow> expand_object server (createSetObject server) (unat (dictSize d));
          (setobj, di) \<leftarrow> dup_loop server subject dictInitIterator setobj;
          setTypeResetIterator server subject (SiHT di);
          Some setobj })"

end
