(* ===== verification/TsetRep.thy ===== *)
theory TsetRep
  imports Tset
begin

text \<open>
  What the objects of \<open>t_set.c\<close> mean: a hash table, a listpack or an integer set holds a set of byte strings. The lemmas on the iterators and on
  the conversions: a conversion keeps the set, and the checks before it make sure that a listpack does not overflow.
\<close>

section \<open>What a set object holds\<close>

lemma sdsKeyCompare_eq: "dictSdsKeyCompare a b \<longleftrightarrow> a = b" by (auto simp: dictSdsKeyCompare_def Let_def)

lemma set_keq [simp]: "keq (setDictType seed) a b \<longleftrightarrow> a = b" by (auto simp: keq_def setDictType_def sdsKeyCompare_eq)

lemma setDictType_ok: "dictType_ok (setDictType seed)"
proof -
  have "keyDup (setDictType seed) = None" by (simp add: setDictType_def)
  then show ?thesis by (simp add: dictType_ok_def)
qed

lemma set_type_fields [simp]: "keyDup (setDictType seed) = None" "no_value (setDictType seed)" "keyFromStoredKey (setDictType seed) = stored_key"
  by (simp_all add: setDictType_def)

lemma holds_string: "sds_holds s t \<Longrightarrow> sds_string s = Some t" using holds_rd[of s t 0 "length t"] by (simp add: sds_string_def holds_len)

lemma holds_key: "sds_holds s t \<Longrightarrow> stored_key s = t" by (simp add: stored_key_def holds_string)

lemma matches_key: "matches (setDictType seed) k C = filter_mset (\<lambda>x. k = stored_key (fst x)) C" by (simp add: matches_def)

text \<open>The size of the block of a string, and a string without spare space, whose header gives exactly that size. A type 5 header stores no
  capacity, so a string that was shortened in place is not of this kind; the strings that the sets store are.\<close>

definition alloc_of :: "sds \<Rightarrow> nat" where "alloc_of s = length (sblk s)"

definition sds_exact :: "sds \<Rightarrow> mem \<Rightarrow> bool" where
  "sds_exact s t \<longleftrightarrow> sds_holds s t \<and> sdsAllocSize s = Some (alloc_of s)"

lemma exact_holds: "sds_exact s t \<Longrightarrow> sds_holds s t" by (simp add: sds_exact_def)

lemma new_exact:
  assumes "alloc_serves a" "n \<le> length b" "n < 2 ^ 60"
  shows "\<exists>s. sdsnewlen a (Init b) n = Some (Some s) \<and> sds_exact s (take n b)"
proof -
  obtain s where s: "sdsnewlen a (Init b) n = Some (Some s)" "sds_holds s (take n b)" using new_ok[OF assms] by blast
  have n: "n < 2 ^ 62" using assms(3) by simp
  have "s = sds_raw (new_type n) n n (take n b @ [0])" using newlen_raw[OF assms(2) n, of a False] s(1) by (auto simp: sdsnewlen_def)
  moreover have "fl_ok (new_type n)" using ty_fl[of "new_type n"] by simp
  ultimately have "alloc_of s = sdsHdrSize (new_type n) + n + 1" using assms(2) by (simp add: alloc_of_def raw_blk)
  then show ?thesis using s new_alloc_size[OF assms(2) n s(1)] by (simp add: sds_exact_def)
qed

lemma dup_exact:
  assumes "alloc_serves a" "sds_holds s str" "length str < 2 ^ 60"
  shows "\<exists>s'. sdsdup a s = Some (Some s') \<and> sds_exact s' str"
proof -
  obtain r where "drop (soff s) (sblk s) = str @ 0 # r" using holds_drop[OF assms(2)] by blast
  then show ?thesis using new_exact[OF assms(1), of "length str" "str @ 0 # r"] assms(3) by (simp add: sdsdup_def holds_len[OF assms(2)])
qed

lemma fromll_exact: "alloc_serves a \<Longrightarrow> \<exists>s. sdsfromlonglong a f v = Some (Some s) \<and> sds_exact s (idec (sint v))"
  using ll_text[of f v] new_exact[of a "length (idec (sint v))"] idec_length[of v] by (fastforce simp: sdsfromlonglong_def)

text \<open>A hash table: the stored strings are those of the set, once each, and the counter is the sum of the sizes of their blocks.\<close>

definition ht_set :: "server \<Rightarrow> setdict \<Rightarrow> u64 \<Rightarrow> mem set \<Rightarrow> bool" where
  "ht_set server d sz S \<longleftrightarrow> dtype d = setDictType (dict_hash_function_seed server) \<and> dict_wf d \<and> pauseAutoResize d \<le> 0 \<and>
     (\<forall>x \<in># cont d. sds_exact (fst x) (stored_key (fst x)) \<and> length (stored_key (fst x)) < 2 ^ 31) \<and> finite S \<and>
     image_mset (\<lambda>x. stored_key (fst x)) (cont d) = mset_set S \<and> sz = of_nat (\<Sum>x \<in># cont d. alloc_of (fst x))"

definition texts_of :: "intset \<Rightarrow> mem set" where "texts_of is = idec ` set (ivals is)"

fun set_holds :: "server \<Rightarrow> robj \<Rightarrow> mem set \<Rightarrow> bool" where
  "set_holds server (OIntset is) S = (intset_ok is \<and> ilen is \<le> set_max_intset_entries server \<and> S = texts_of is)"
| "set_holds server (OListpack lp) S = (\<exists>ts. lp_holds lp ts \<and> distinct ts \<and> (\<forall>t \<in> set ts. length t < 2 ^ 31) \<and> S = set ts)"
| "set_holds server (OHT d sz) S = ht_set server d sz S"

definition server_ok :: "server \<Rightarrow> bool" where
  "server_ok server \<longleftrightarrow> alloc_serves (mem_alloc server) \<and> set_max_intset_entries server < INTSET_CAP"

lemma ht_set_size: "ht_set server d sz S \<Longrightarrow> size (cont d) = card S"
  by (metis ht_set_def size_image_mset size_mset_set)

lemma ht_set_room: "ht_set server d sz S \<Longrightarrow> card S < 2 ^ 64 \<Longrightarrow> room d"
  using ht_set_size[of server d sz S] by (simp add: room_def ht_set_def)

lemma ht_set_type: "ht_set server d sz S \<Longrightarrow> dictType_ok (dtype d)" using setDictType_ok by (simp add: ht_set_def)

lemma ht_set_member: "ht_set server d sz S \<Longrightarrow> matches (dtype d) k (cont d) = {#} \<longleftrightarrow> k \<notin> S"
proof -
  assume h: "ht_set server d sz S"
  have "set_mset (image_mset (\<lambda>x. stored_key (fst x)) (cont d)) = S" using h by (simp add: ht_set_def)
  then have S: "S = (\<lambda>x. stored_key (fst x)) ` set_mset (cont d)" by simp
  have dt: "dtype d = setDictType (dict_hash_function_seed server)" using h by (simp add: ht_set_def)
  have "matches (dtype d) k (cont d) = {#} \<longleftrightarrow> (\<forall>x \<in># cont d. k \<noteq> stored_key (fst x))" unfolding dt matches_key filter_mset_False_iff ..
  then show ?thesis unfolding S by blast
qed

lemma ht_set_kept: "ht_set server d sz S \<Longrightarrow> kept d d' \<Longrightarrow> ht_set server d' sz S"
  by (auto simp: ht_set_def kept_def same_def room_def)

lemma ht_set_added:
  assumes "ht_set server d sz S" "frame d d'" "cont d' = cont d + {# (s, None) #}" "sds_exact s t" "length t < 2 ^ 31" "t \<notin> S"
  shows "metadata_add sz s = Some (sz + of_nat (alloc_of s))" "ht_set server d' (sz + of_nat (alloc_of s)) (insert t S)"
proof -
  show "metadata_add sz s = Some (sz + of_nat (alloc_of s))" using assms(4) by (simp add: metadata_add_def sds_exact_def)
  show "ht_set server d' (sz + of_nat (alloc_of s)) (insert t S)"
    using assms holds_key[OF exact_holds[OF assms(4)]] by (auto simp: ht_set_def frame_def algebra_simps)
qed

lemma ht_set_removed:
  assumes "ht_set server d sz S" "frame d d'" "strip e \<in># matches (dtype d) k (cont d)" "cont d = cont d' + {# strip e #}"
  shows "setSdsDestructor sz (dictGetKey e) = Some (sz - of_nat (alloc_of (dictGetKey e)))" "ht_set server d' (sz - of_nat (alloc_of (dictGetKey e))) (S - {k})" "k \<in> S"
proof -
  let ?s = "dictGetKey e"
  have k: "stored_key ?s = k" using assms(1,3) by (auto simp: ht_set_def matches_key)
  have h: "sds_exact ?s k" using assms(1,4) k by (auto simp: ht_set_def)
  show "setSdsDestructor sz ?s = Some (sz - of_nat (alloc_of ?s))" using h free_ok[OF exact_holds[OF h]] by (simp add: setSdsDestructor_def sds_exact_def)
  show kS: "k \<in> S" using ht_set_member[OF assms(1), of k] assms(3) by auto
  have "image_mset (\<lambda>x. stored_key (fst x)) (cont d') + {# k #} = mset_set S" using assms(1,4) k by (simp add: ht_set_def)
  moreover have "mset_set S = mset_set (S - {k}) + {# k #}" using kS assms(1) by (simp add: ht_set_def mset_set.remove)
  ultimately have "image_mset (\<lambda>x. stored_key (fst x)) (cont d') = mset_set (S - {k})" by simp
  then show "ht_set server d' (sz - of_nat (alloc_of ?s)) (S - {k})" using assms(1,2,4) by (auto simp: ht_set_def frame_def algebra_simps)
qed

lemma create_ht_set: "ht_set server (dictCreate (setDictType (dict_hash_function_seed server))) 0 {}"
  by (simp add: ht_set_def dictCreate_def dict_wf_def cont_def)

lemma expand_ht_set:
  assumes "ht_set server d sz S" "card S < 2 ^ 64"
  shows "\<exists>ok d'. dictExpand cr d n = Some (ok, d') \<and> ht_set server d' sz S"
  using expand_kept[OF ht_set_room[OF assms], of cr n] ht_set_kept[OF assms(1)] by blast

section \<open>Iteration over integer sets and listpacks\<close>

fun elem_text :: "mem + i64 \<Rightarrow> mem" where
  "elem_text (Inl t) = t"
| "elem_text (Inr v) = idec (sint v)"

lemma get_value_text:
  assumes "lp_holds m ts" "i < length ts"
  shows "\<exists>v. do { v \<leftarrow> lpGetValue m (lp_at ts i); case v of Inl (off, l) \<Rightarrow> do { t \<leftarrow> rd m off (unat l); Some (Inl t) } | Inr v \<Rightarrow> Some (Inr v) } = Some v \<and> elem_text v = ts ! i"
  using assms(1)
proof (rule holdsE)
  fix n sl assume h: "m = lpk n (encs ts) sl" "lp_inv n (encs ts)" "list_all str_ok ts"
  let ?xs = "take i (encs ts)" and ?c = "encs ts ! i" and ?ys = "drop (Suc i) (encs ts)"
  have cs: "encs ts = ?xs @ ?c # ?ys" using inv_cut[of i "encs ts"] assms(2) by simp
  have inv: "lp_inv n (?xs @ ?c # ?ys)" by (subst cs[symmetric]) (rule h(2))
  have t: "etext ?c = ts ! i" using h(3) assms(2) by (simp add: list_all_length text_str)
  have l: "length ?c < 2 ^ 32" using enc_ok_len[OF inv_ok[OF inv]] by simp
  let ?r = "lpEncodeBacklen (of_nat (length ?c)) @ body ?ys @ LP_EOF # sl" and ?pre = "front n (?xs @ ?c # ?ys) ?xs"
  have m: "m = ?pre @ ?c @ ?r" unfolding h(1) by (subst (1) cs) (simp add: lpk_cut ent_def)
  from inv_ok[OF inv] show ?thesis
  proof (cases rule: enc_get[of ?c 0])
    case (int v)
    have "lpGetWithBuf m (pos ?xs) None = Some (PInt v)" using get_mono[OF int(1), of ?pre ?r] unfolding m by simp
    then show ?thesis using int(2) t by (simp add: lpGetValue_def lpGet_def lp_at_pos etext_def)
  next
    case (str off k)
    have g: "lpGetWithBuf m (pos ?xs) None = Some (PStr (pos ?xs + off) k)" using get_mono[OF str(1), of ?pre ?r] unfolding m by simp
    have "rd m (pos ?xs + off) k = Some (etext ?c)" using rd_inner[OF str(2), of ?pre ?r] str(3) unfolding m by (simp add: etext_def)
    moreover have "unat (of_nat k :: u32) = k" using l str(2) by (simp add: unat_of_nat take_bit_nat_eq_self)
    ultimately show ?thesis using g t by (simp add: lpGetValue_def lpGet_def lp_at_pos)
  qed
qed

lemma first_at: "lp_holds m ts \<Longrightarrow> lpFirst m = Some (if ts = [] then None else Some (lp_at ts 0))"
  by (auto elim!: holdsE simp: lpk_first place_def lp_at_def)

lemma next_at:
  assumes "lp_holds m ts" "i < length ts"
  shows "lpNext m (lp_at ts i) = Some (if Suc i < length ts then Some (lp_at ts (Suc i)) else None)"
  using assms(1)
proof (rule holdsE)
  fix n sl assume h: "m = lpk n (encs ts) sl" "lp_inv n (encs ts)" "list_all str_ok ts"
  let ?xs = "take i (encs ts)" and ?c = "encs ts ! i" and ?ys = "drop (Suc i) (encs ts)"
  have cs: "encs ts = ?xs @ ?c # ?ys" using inv_cut[of i "encs ts"] assms(2) by simp
  have inv: "lp_inv n (?xs @ ?c # ?ys)" by (subst cs[symmetric]) (rule h(2))
  have "length ?xs = i" using assms(2) by simp
  then have "lpNext m (pos ?xs) = Some (place (encs ts) (Suc i))" using lpk_next[OF inv, of sl] unfolding cs[symmetric] h(1) by simp
  then show ?thesis by (simp add: lp_at_pos place_def)
qed

lemma find_at: "lp_holds m ts \<Longrightarrow> ts \<noteq> [] \<Longrightarrow> lpFind m (Some (lp_at ts 0)) s 0 = Some (map_option (lp_at ts) (find_text s 0 0 ts))"
  using find_holds[of m ts s 0] first_at[of m ts] by (auto simp: lpFind_def lpFindCbInternal_def)

lemma find_text_none: "find_text s 0 0 ts = None \<longleftrightarrow> s \<notin> set ts"
  by (induction ts) auto

lemma find_text_some: "find_text s 0 0 ts = Some i \<Longrightarrow> i < length ts \<and> ts ! i = s"
  by (induction ts arbitrary: i) (auto split: if_splits)

text \<open>The texts that the iterator has still to deliver.\<close>

fun yields :: "robj \<Rightarrow> setTypeIterator \<Rightarrow> mem list \<Rightarrow> bool" where
  "yields (OIntset is) (SiIntset ii) ts \<longleftrightarrow> intset_ok is \<and> ilen is \<le> INTSET_CAP \<and> 0 \<le> ii \<and> ii \<le> int (ilen is) \<and> ts = map idec (drop (nat ii) (ivals is))"
| "yields (OListpack lp) (SiListpack lpi) ts \<longleftrightarrow> (\<exists>all i. lp_holds lp all \<and> i \<le> length all \<and> ts = drop i all \<and>
     (case lpi of None \<Rightarrow> i = 0 | Some p \<Rightarrow> 0 < i \<and> p = lp_at all (i - 1)))"
| "yields _ _ ts = False"

lemma next_intset:
  assumes "yields (OIntset is) (SiIntset ii) ts"
  shows "\<exists>r si'. setTypeNext server (OIntset is) (SiIntset ii) = Some (r, si') \<and>
    (case ts of [] \<Rightarrow> r = None | t # ts' \<Rightarrow> \<exists>e. r = Some e \<and> elem_text e = t \<and> yields (OIntset is) si' ts')"
proof -
  have h: "intset_ok is" "ilen is \<le> INTSET_CAP" "0 \<le> ii" "ii \<le> int (ilen is)" and ts: "ts = map idec (drop (nat ii) (ivals is))" using assms by auto
  have c: "c_int (ii + 1) = Some (ii + 1)" "unat (word_of_int ii :: u32) = nat ii" "ilen is < 2 ^ 31"
    using h(2-4) by (auto simp: c_int_def INTSET_CAP_def unat_eq_nat_uint uint_word_of_int)
  have g: "intsetGet is (word_of_int ii) = Some (if nat ii < ilen is then Some (word_of_int (ivals is ! nat ii)) else None)"
    using intsetGet_correct[of "is" "word_of_int ii"] h(1) c(2,3) by (simp add: intset_ok_def)
  show ?thesis
  proof (cases "nat ii < ilen is")
    case True
    have d: "drop (nat ii) (ivals is) = ivals is ! nat ii # drop (nat (ii + 1)) (ivals is)"
      using True h(3) Cons_nth_drop_Suc[of "nat ii" "ivals is"] by (simp add: nat_add_distrib)
    have "fits (esz is) (ivals is ! nat ii)" using ivals_fits[of "is"] h(1) True by (simp add: intset_ok_def)
    moreover have "esz is \<le> 8" using h(1) by (auto simp: intset_ok_def intset_shape_def)
    ultimately have "fits 8 (ivals is ! nat ii)" by (rule fits_mono)
    then have "sint (word_of_int (ivals is ! nat ii) :: i64) = ivals is ! nat ii" by (intro sint_word_of_int_64) (auto simp: fits_def)
    then show ?thesis using True c(1) g h ts d by (simp add: setTypeNext_def)
  next
    case False
    then show ?thesis using c(1) g ts by (simp add: setTypeNext_def)
  qed
qed

lemma next_listpack:
  assumes "yields (OListpack lp) (SiListpack lpi) ts"
  shows "\<exists>r si'. setTypeNext server (OListpack lp) (SiListpack lpi) = Some (r, si') \<and>
    (case ts of [] \<Rightarrow> r = None | t # ts' \<Rightarrow> \<exists>e. r = Some e \<and> elem_text e = t \<and> yields (OListpack lp) si' ts')"
proof -
  obtain all i where h: "lp_holds lp all" "i \<le> length all" "case lpi of None \<Rightarrow> i = 0 | Some p \<Rightarrow> 0 < i \<and> p = lp_at all (i - 1)" and ts: "ts = drop i all"
    using assms by auto
  have s: "(case lpi of None \<Rightarrow> lpFirst lp | Some p \<Rightarrow> lpNext lp p) = Some (if i < length all then Some (lp_at all i) else None)"
    using first_at[OF h(1)] next_at[OF h(1), of "i - 1"] h(2,3) by (cases lpi) auto
  show ?thesis
  proof (cases "i < length all")
    case True
    obtain v where "do { v \<leftarrow> lpGetValue lp (lp_at all i); case v of Inl (off, l) \<Rightarrow> do { t \<leftarrow> rd lp off (unat l); Some (Inl t) } | Inr v \<Rightarrow> Some (Inr v) } = Some v"
      and v: "elem_text v = all ! i" using get_value_text[OF h(1) True] by blast
    then have "setTypeNext server (OListpack lp) (SiListpack lpi) = Some (Some v, SiListpack (Some (lp_at all i)))"
      using s True by (auto simp: setTypeNext_def split: bind_splits sum.splits)
    moreover have "yields (OListpack lp) (SiListpack (Some (lp_at all i))) (drop (Suc i) all)" using h(1) True
      by (auto intro!: exI[of _ all] exI[of _ "Suc i"])
    moreover have "ts = all ! i # drop (Suc i) all" using ts True by (simp add: Cons_nth_drop_Suc)
    ultimately show ?thesis using v by simp
  next
    case False
    then show ?thesis using s ts by (simp add: setTypeNext_def)
  qed
qed

lemma next_yields:
  assumes "yields setobj si ts"
  shows "\<exists>r si'. setTypeNext server setobj si = Some (r, si') \<and> (case ts of [] \<Rightarrow> r = None | t # ts' \<Rightarrow> \<exists>e. r = Some e \<and> elem_text e = t \<and> yields setobj si' ts')"
proof (cases setobj)
  case (OIntset x)
  then obtain ii where "si = SiIntset ii" using assms by (cases si) auto
  then show ?thesis using assms next_intset[of x ii ts server] OIntset by blast
next
  case (OListpack x)
  then obtain p where "si = SiListpack p" using assms by (cases si) auto
  then show ?thesis using assms next_listpack[of x p ts server] OListpack by blast
next
  case (OHT d n)
  then show ?thesis using assms by (cases si) simp_all
qed

lemma next_object:
  assumes "yields setobj si ts" "alloc_serves (mem_alloc server)" "\<forall>t \<in> set ts. length t < 2 ^ 31"
  shows "\<exists>r si'. setTypeNextObject server setobj si = Some (r, si') \<and>
    (case ts of [] \<Rightarrow> r = None | t # ts' \<Rightarrow> \<exists>s. r = Some s \<and> sds_exact s t \<and> yields setobj si' ts')"
proof (cases ts)
  case Nil
  then show ?thesis using next_yields[OF assms(1), of server] by (auto simp: setTypeNextObject_def)
next
  case (Cons t ts')
  obtain e si' where e: "setTypeNext server setobj si = Some (Some e, si')" "elem_text e = t" "yields setobj si' ts'" using next_yields[OF assms(1), of server] Cons by auto
  show ?thesis
  proof (cases e)
    case (Inl x)
    then have l: "length t < 2 ^ 60" "x = t" using assms(3) Cons e(2) by auto
    obtain s where "sdsnewlen (mem_alloc server) (Init t) (length t) = Some (Some s)" "sds_exact s t" using new_exact[OF assms(2) _ l(1), of t] by auto
    then show ?thesis using e Inl Cons l(2) by (simp add: setTypeNextObject_def)
  next
    case (Inr v)
    obtain s where "sdsfromlonglong (mem_alloc server) (mem_fresh server) v = Some (Some s)" "sds_exact s t" using fromll_exact[OF assms(2), of "mem_fresh server" v] e(2) Inr by auto
    then show ?thesis using e Inr Cons by (simp add: setTypeNextObject_def)
  qed
qed

section \<open>Conversion\<close>

fun plain :: "setTypeIterator \<Rightarrow> bool" where
  "plain (SiHT di) = False"
| "plain _ = True"

lemma next_plain: "plain si \<Longrightarrow> setTypeNext server setobj si = Some (r, si') \<Longrightarrow> plain si'"
  by (cases si; cases setobj) (auto simp: setTypeNext_def split: bind_splits option.splits sum.splits)

lemma next_object_plain: "plain si \<Longrightarrow> setTypeNextObject server setobj si = Some (r, si') \<Longrightarrow> plain si'"
  using next_plain[of si server setobj] by (auto simp: setTypeNextObject_def split: bind_splits option.splits sum.splits)

lemma reset_plain: "plain si \<Longrightarrow> setTypeResetIterator server setobj si = Some ()"
  by (cases si) (simp_all add: setTypeResetIterator_def)

lemma yields_plain: "yields setobj si ts \<Longrightarrow> plain si" by (cases setobj; cases si) simp_all

lemma add_set:
  assumes "ht_set server d sz S" "card S < 2 ^ 64" "sds_exact s t" "length t < 2 ^ 31" "t \<notin> S"
  shows "\<exists>d' sz'. dictAdd cr d s () = Some (True, d') \<and> metadata_add sz s = Some sz' \<and> ht_set server d' sz' (insert t S)"
proof -
  have p: "table (ht0 d) \<noteq> None \<or> pauseAutoResize d \<le> 0" and ty: "dtype d = setDictType (dict_hash_function_seed server)" using assms(1) by (auto simp: ht_set_def)
  have k: "keyFromStoredKey (dtype d) s = t" using ty holds_key[OF exact_holds[OF assms(3)]] by simp
  obtain ok d' where a: "dictAdd cr d s () = Some (ok, d')" "ok \<longleftrightarrow> matches (dtype d) (keyFromStoredKey (dtype d) s) (cont d) = {#}"
    "if ok then frame d d' \<and> cont d' = cont d + {# (dupKey (dtype d) s, if no_value (dtype d) then None else Some (dupVal (dtype d) ())) #} else kept d d'"
    using dictAdd_ok[OF ht_set_type[OF assms(1)] ht_set_room[OF assms(1,2)] p, of cr s "()"] by blast
  have ok: "ok" using a(2) ht_set_member[OF assms(1), of t] assms(5) k by simp
  then have "frame d d'" "cont d' = cont d + {# (s, None) #}" using a(3) ty by (simp_all add: dupKey_def)
  from ht_set_added[OF assms(1) this assms(3-5)] show ?thesis using a(1) ok by simp
qed

lemma convert_dict_ok:
  assumes "alloc_serves (mem_alloc server)"
  shows "yields setobj si ts \<Longrightarrow> distinct ts \<Longrightarrow> set ts \<inter> S = {} \<Longrightarrow> \<forall>t \<in> set ts. length t < 2 ^ 31 \<Longrightarrow> ht_set server d sz S \<Longrightarrow> card S + length ts \<le> 2 ^ 64 \<Longrightarrow>
    \<exists>d' sz' si'. convert_dict server setobj si d sz = Some (d', sz', si') \<and> ht_set server d' sz' (S \<union> set ts) \<and> plain si'"
proof (induction ts arbitrary: si d sz S)
  case Nil
  obtain si' where "setTypeNextObject server setobj si = Some (None, si')" using next_object[OF Nil.prems(1) assms] by auto
  then show ?case using Nil.prems next_object_plain[OF yields_plain[OF Nil.prems(1)]] by (auto simp: convert_dict.simps[of server setobj si])
next
  case (Cons t ts)
  obtain s si' where n: "setTypeNextObject server setobj si = Some (Some s, si')" "sds_exact s t" "yields setobj si' ts"
    using next_object[OF Cons.prems(1) assms Cons.prems(4)] by auto
  have fin: "finite S" using Cons.prems(5) by (simp add: ht_set_def)
  have t: "t \<notin> S" "length t < 2 ^ 31" "card S < 2 ^ 64" using Cons.prems by auto
  obtain d' sz' where a: "dictAdd (dict_can_resize server) d s () = Some (True, d')" "metadata_add sz s = Some sz'" "ht_set server d' sz' (insert t S)"
    using add_set[OF Cons.prems(5) t(3) n(2) t(2,1)] by blast
  have "card (insert t S) + length ts \<le> 2 ^ 64" "set ts \<inter> insert t S = {}" using Cons.prems fin t(1) by auto
  then obtain d2 sz2 si2 where "convert_dict server setobj si' d' sz' = Some (d2, sz2, si2)" "ht_set server d2 sz2 (insert t S \<union> set ts)" "plain si2"
    using Cons.IH[OF n(3) _ _ _ a(3)] Cons.prems by auto
  then show ?case using n(1) a(1,2) by (simp add: convert_dict.simps[of server setobj si])
qed

lemma fits_prefix: "lp_fits (us @ ts) \<Longrightarrow> lp_fits us" by (simp add: lp_fits_def lp_size_def)

lemma fits_served: "alloc_serves a \<Longrightarrow> lp_fits ts' \<Longrightarrow> lp_served a ts ts'"
  by (auto simp: lp_served_def lp_fits_def granted_def alloc_serves_def)

lemma append_one:
  assumes "alloc_serves a" "lp_holds lp us" "elem_text e = t" "length t < 2 ^ 31" "lp_fits (us @ [t])"
  shows "\<exists>lp'. (case e of Inl str \<Rightarrow> lpAppend a lp str | Inr v \<Rightarrow> lpAppendInteger a lp v) = Some (Some lp') \<and> lp_holds lp' (us @ [t])"
proof (cases e)
  case (Inl x)
  have "str_ok t" using assms(4) by (simp add: str_ok_def)
  then show ?thesis using lpAppend_holds[OF assms(2), of t a] fits_served[OF assms(1,5)] assms(3) Inl by (simp add: holds_or_full_def)
next
  case (Inr v)
  then show ?thesis using lpAppendInteger_holds[OF assms(2), of a v] fits_served[OF assms(1,5)] assms(3) by (simp add: holds_or_full_def)
qed

lemma convert_listpack_ok:
  assumes "alloc_serves (mem_alloc server)"
  shows "yields setobj si ts \<Longrightarrow> \<forall>t \<in> set ts. length t < 2 ^ 31 \<Longrightarrow> lp_holds lp us \<Longrightarrow> lp_fits (us @ ts) \<Longrightarrow>
    \<exists>lp' si'. convert_listpack server setobj si lp = Some (lp', si') \<and> lp_holds lp' (us @ ts) \<and> plain si'"
proof (induction ts arbitrary: si lp us)
  case Nil
  obtain si' where "setTypeNext server setobj si = Some (None, si')" using next_yields[OF Nil.prems(1), of server] by auto
  then show ?case using Nil.prems next_plain[OF yields_plain[OF Nil.prems(1)]] by (auto simp: convert_listpack.simps[of server setobj si])
next
  case (Cons t ts)
  obtain e si' where n: "setTypeNext server setobj si = Some (Some e, si')" "elem_text e = t" "yields setobj si' ts" using next_yields[OF Cons.prems(1), of server] by auto
  have "lp_fits (us @ [t])" using fits_prefix[of "us @ [t]" ts] Cons.prems(4) by simp
  then obtain lp' where a: "(case e of Inl str \<Rightarrow> lpAppend (mem_alloc server) lp str | Inr v \<Rightarrow> lpAppendInteger (mem_alloc server) lp v) = Some (Some lp')" "lp_holds lp' (us @ [t])"
    using append_one[OF assms Cons.prems(3) n(2)] Cons.prems(2) by auto
  then obtain lp2 si2 where "convert_listpack server setobj si' lp' = Some (lp2, si2)" "lp_holds lp2 (us @ t # ts)" "plain si2"
    using Cons.IH[OF n(3) _ a(2)] Cons.prems by auto
  then show ?case using n(1) a(1) by (simp add: convert_listpack.simps[of server setobj si])
qed

text \<open>The list that a fresh iterator delivers.\<close>

fun set_list :: "server \<Rightarrow> robj \<Rightarrow> mem list \<Rightarrow> bool" where
  "set_list server (OIntset is) ts \<longleftrightarrow> intset_ok is \<and> ilen is \<le> INTSET_CAP \<and> ts = map idec (ivals is)"
| "set_list server (OListpack lp) ts \<longleftrightarrow> lp_holds lp ts \<and> distinct ts \<and> (\<forall>t \<in> set ts. length t < 2 ^ 31)"
| "set_list server (OHT d sz) ts \<longleftrightarrow> False"

lemma list_yields: "set_list server setobj ts \<Longrightarrow> yields setobj (setTypeInitIterator setobj) ts"
  by (cases setobj) auto

lemma ival_word: "intset_ok is \<Longrightarrow> x \<in> set (ivals is) \<Longrightarrow> sint (word_of_int x :: i64) = x"
proof -
  assume ok: "intset_ok is" and "x \<in> set (ivals is)"
  then obtain i where i: "i < ilen is" "x = ivals is ! i" by (auto simp: in_set_conv_nth)
  have "fits (esz is) x" using ivals_fits[of "is"] ok i by (simp add: intset_ok_def)
  moreover have "esz is \<le> 8" using ok by (auto simp: intset_ok_def intset_shape_def)
  ultimately have "fits 8 x" by (rule fits_mono)
  then show ?thesis by (intro sint_word_of_int_64) (auto simp: fits_def)
qed

lemma idec_word_inj: "idec (sint (v :: i64)) = idec (sint (w :: i64)) \<Longrightarrow> v = w"
  using string2ll_is[of v "idec (sint v)"] string2ll_is[of w "idec (sint v)"] by (auto split: option.splits)

lemma ivals_inj: "intset_ok is \<Longrightarrow> inj_on idec (set (ivals is))"
proof (rule inj_onI)
  fix x y assume ok: "intset_ok is" and x: "x \<in> set (ivals is)" and y: "y \<in> set (ivals is)" and e: "idec x = idec y"
  have "(word_of_int x :: i64) = word_of_int y" using idec_word_inj ival_word[OF ok x] ival_word[OF ok y] e by metis
  then show "x = y" using ival_word[OF ok x] ival_word[OF ok y] by metis
qed

lemma idec_short: "intset_ok is \<Longrightarrow> x \<in> set (ivals is) \<Longrightarrow> length (idec x) < 2 ^ 31"
  using idec_length[of "word_of_int x"] ival_word[of "is" x] by fastforce

lemma list_facts:
  assumes "set_list server setobj ts" shows "distinct ts" "\<forall>t \<in> set ts. length t < 2 ^ 31" "length ts < 2 ^ 31"
proof -
  have "distinct ts \<and> (\<forall>t \<in> set ts. length t < 2 ^ 31) \<and> length ts < 2 ^ 31"
  proof (cases setobj)
    case (OIntset x)
    then have o: "intset_ok x" "ts = map idec (ivals x)" "ilen x \<le> INTSET_CAP" using assms by auto
    have "distinct (ivals x)" using intset_ok_strict[OF o(1)] using strict_sorted_iff by blast
    then show ?thesis using o ivals_inj[OF o(1)] idec_short[OF o(1)] by (simp add: distinct_map INTSET_CAP_def)
  next
    case (OListpack lp)
    then have "lp_holds lp ts" using assms by simp
    then have "length ts < 2 ^ 31" by (rule holdsE) (use inv_len in force)
    then show ?thesis using OListpack assms by simp
  qed (use assms in simp)
  then show "distinct ts" "\<forall>t \<in> set ts. length t < 2 ^ 31" "length ts < 2 ^ 31" by auto
qed

lemma convert_ht:
  assumes s: "server_ok server" and l: "set_list server setobj ts"
  shows "\<exists>d sz. setTypeConvertAndExpand server setobj OBJ_ENCODING_HT cap True False = Some (True, OHT d sz) \<and> ht_set server d sz (set ts)"
proof -
  note f = list_facts[OF l]
  obtain ok d where d: "dictExpand (dict_can_resize server) (dictCreate (setDictType (dict_hash_function_seed server))) (of_nat cap) = Some (ok, d)" "ht_set server d 0 {}"
    using expand_ht_set[OF create_ht_set] by fastforce
  obtain d' sz si where "convert_dict server setobj (setTypeInitIterator setobj) d 0 = Some (d', sz, si)" "ht_set server d' sz (set ts)" "plain si"
    using convert_dict_ok[OF _ list_yields[OF l] f(1) _ f(2) d(2)] s f(3) by (auto simp: server_ok_def)
  moreover have "robj_encoding setobj \<noteq> OBJ_ENCODING_HT" using l by (cases setobj) auto
  ultimately show ?thesis using d(1) by (simp add: setTypeConvertAndExpand_def Let_def reset_plain)
qed

section \<open>Sizes\<close>

lemma int_enc_len: "length (lpEncodeIntegerGetType v) \<le> 9" by (simp add: lpEncodeIntegerGetType_def Let_def)

lemma int_ent_len: "length (ent (lp_bytes (idec (sint (v :: i64))))) \<le> 10"
proof -
  have l: "length (lp_bytes (idec (sint v))) \<le> 9" using int_enc_len[of v] int_canon[of v] by simp
  then have "unat (of_nat (length (lp_bytes (idec (sint v)))) :: u64) \<le> 9" by (simp add: unat_of_nat take_bit_nat_eq_self)
  then have "lpEncodeBacklenBytes (of_nat (length (lp_bytes (idec (sint v))))) = 1" by (auto simp: lpEncodeBacklenBytes_def word_le_nat_alt)
  then show ?thesis using l by (simp add: length_ent)
qed

lemma str_ent_len: "length (ent (lp_bytes s)) \<le> length s + 14"
proof -
  have "length (lp_bytes s) \<le> length s + 9" using int_enc_len by (auto simp: lp_bytes_def lp_str_bytes_def Let_def split: option.splits intro: trans_le_add2)
  then show ?thesis using backlen_bytes_bounds(2)[of "of_nat (length (lp_bytes s))"] by (simp add: length_ent)
qed

lemma body_append: "length (body (encs (ts @ [s]))) \<le> length (body (encs ts)) + length s + 14"
  using str_ent_len[of s] by (simp add: body_def)

lemma ints_body: "intset_ok is \<Longrightarrow> length (body (encs (map idec (ivals is)))) \<le> 10 * ilen is"
proof -
  assume ok: "intset_ok is"
  have "set xs \<subseteq> set (ivals is) \<Longrightarrow> length (body (encs (map idec xs))) \<le> 10 * length xs" for xs
  proof (induction xs)
    case (Cons x xs)
    then have "length (ent (lp_bytes (idec x))) \<le> 10" using int_ent_len[of "word_of_int x"] ival_word[OF ok, of x] by auto
    then show ?case using Cons by (simp add: body_def)
  qed (simp add: body_def)
  from this[of "ivals is"] show ?thesis by simp
qed

lemma safe_to_add:
  assumes "lp_holds lp ts" "length s < 2 ^ 31"
  shows "\<exists>b. lpSafeToAdd (Some lp) (of_nat (length s)) = Some b \<and> (b \<longrightarrow> lp_fits (ts @ [s]))"
  using assms(1)
proof (rule holdsE)
  fix n sl assume h: "lp = lpk n (encs ts) sl" "lp_inv n (encs ts)"
  obtain t where t: "lpGetTotalBytes lp = Some t" "unat t = 7 + length (body (encs ts))" using lpk_bytes[OF h(2), of sl] h(1) by (auto simp: lpBytes_def)
  let ?a = "of_nat (length s) :: u64" and ?l = "ucast t :: u64"
  have a: "unat ?a = length s" using assms(2) by (simp add: unat_of_nat take_bit_nat_eq_self)
  have l: "unat ?l = unat t" by (simp add: unsigned_ucast_eq take_bit_nat_eq_self_iff order.strict_trans2[OF unsigned_less])
  have "\<not> (?a > 2 ^ 30 \<or> ?l > 2 ^ 30 - ?a) \<longrightarrow> lp_fits (ts @ [s])"
  proof
    assume n: "\<not> (?a > 2 ^ 30 \<or> ?l > 2 ^ 30 - ?a)"
    then have "length s \<le> 2 ^ 30" using a by (simp add: word_less_nat_alt)
    moreover have "unat ?l \<le> unat (2 ^ 30 - ?a)" "?a \<le> 2 ^ 30" using n by (simp_all add: word_le_nat_alt word_less_nat_alt)
    then have "unat t \<le> 2 ^ 30" using l by (simp add: unat_sub_if' word_le_nat_alt)
    ultimately show "lp_fits (ts @ [s])" using body_append[of ts s] t(2) by (simp add: lp_fits_def lp_size_def)
  qed
  then show ?thesis using t(1) by (auto simp: lpSafeToAdd_def)
qed

lemma safe_new: "k + length s < 2 ^ 63 \<Longrightarrow> \<exists>b. lpSafeToAdd None (of_nat (k + length s)) = Some b \<and> (b \<longrightarrow> length s \<le> 2 ^ 30)"
proof -
  assume k: "k + length s < 2 ^ 63"
  let ?a = "of_nat (k + length s) :: u64"
  have "unat ?a = k + length s" using k by (simp only: unat_of_nat) (simp add: take_bit_nat_eq_self)
  then have "?a > 2 ^ 30 \<or> length s \<le> 2 ^ 30" unfolding word_less_nat_alt by simp linarith
  then show ?thesis by (auto simp: lpSafeToAdd_def)
qed

lemma max_min:
  assumes "intset_ok is" "ilen is < 2 ^ 31" "ilen is \<noteq> 0"
  shows "\<exists>mx. intsetMax is = Some mx" "\<exists>mn. intsetMin is = Some mn"
proof -
  have sh: "intset_shape is" using assms(1) by (simp add: intset_ok_def)
  have "sint (ilength is - 1) = int (ilen is - 1)"
  proof -
    have "unat (ilength is - 1) = ilen is - 1" using assms(3) by (simp add: unat_sub_if' ilen_def)
    then show ?thesis using sint_small[of "ilength is - 1"] assms(2) by simp
  qed
  then show "\<exists>mx. intsetMax is = Some mx" "\<exists>mn. intsetMin is = Some mn"
    using get_val_word[OF sh, of "ilen is - 1"] get_val_word[OF sh, of 0] assms(3) by (auto simp: intsetMax_def intsetMin_def)
qed

lemma repeated_bound: "lpEstimateBytesRepeatedInteger v n \<le> 7 + 14 * n"
  using int_enc_len[of v] backlen_bytes_bounds(2)[of "of_nat (length (lpEncodeIntegerGetType v))"]
  by (simp add: lpEstimateBytesRepeatedInteger_def lpEntrySizeInteger_def LP_HDR_SIZE_def Let_def)

lemma estimate_ok:
  assumes "intset_ok is" "ilen is < INTSET_CAP"
  shows "\<exists>ml tot. intset_estimate is = Some (ml, tot) \<and> tot < 2 ^ 62"
proof (cases "ilen is = 0")
  case True
  then show ?thesis by (simp add: intset_estimate_def intsetLen_def ilen_def)
next
  case False
  have s: "ilen is < 2 ^ 31" using assms(2) by (simp add: INTSET_CAP_def)
  obtain mx mn where m: "intsetMax is = Some mx" "intsetMin is = Some mn" using max_min[OF assms(1) s False] by blast
  have "max (lpEstimateBytesRepeatedInteger mx (ilen is)) (lpEstimateBytesRepeatedInteger mn (ilen is)) < 2 ^ 62"
    using repeated_bound[of mx "ilen is"] repeated_bound[of mn "ilen is"] s by simp
  then show ?thesis using m False by (simp add: intset_estimate_def intsetLen_def ilen_def Let_def)
qed

lemma capacity_ok:
  assumes "intset_ok is" "ilen is < INTSET_CAP"
  shows "\<exists>c. estimate_capacity (OIntset is) cap = Some (c, OIntset is) \<and> c \<le> 7 + 14 * cap"
proof (cases "ilen is = 0")
  case True
  then show ?thesis by (simp add: estimate_capacity_def setTypeSize_def intsetLen_def ilen_def)
next
  case False
  have s: "ilen is < 2 ^ 31" using assms(2) by (simp add: INTSET_CAP_def)
  show ?thesis using max_min[OF assms(1) s False] False repeated_bound[of _ cap] by (auto simp: estimate_capacity_def setTypeSize_def intsetLen_def ilen_def)
qed

end
