(* ===== verification/TsetProps.thy ===== *)
theory TsetProps
  imports TsetRep Store
begin

text \<open>
  The operations of \<open>t_set.c\<close> on the sets that the objects hold, the interpretation of the contract \<open>object_store\<close>, and the properties.
\<close>

section \<open>Adding\<close>

definition set_result :: "server \<Rightarrow> (bool \<times> robj) option \<Rightarrow> bool \<Rightarrow> mem set \<Rightarrow> bool" where
  "set_result server r b S \<longleftrightarrow> (\<exists>setobj. r = Some (b, setobj) \<and> set_holds server setobj S)"

lemma resultI: "r = Some (b, setobj) \<Longrightarrow> set_holds server setobj S \<Longrightarrow> set_result server r b S" by (auto simp: set_result_def)

fun key_of :: "sds option \<Rightarrow> mem \<Rightarrow> bool" where
  "key_of None str = True"
| "key_of (Some s) str = sds_holds s str"

lemma temp_key_ok:
  assumes "server_ok server" "length str < 2 ^ 31" "key_of sdsv str"
  shows "\<exists>s. temp_key server sdsv str = Some s \<and> sds_holds s str \<and> (sdsv = None \<and> sds_exact s str \<or> sdsv = Some s)"
proof (cases sdsv)
  case None
  have "length str < 2 ^ 60" using assms(2) by simp
  then show ?thesis using new_exact[of "mem_alloc server" "length str" str] assms(1) None by (auto simp: temp_key_def server_ok_def dest: exact_holds)
qed (use assms in \<open>simp add: temp_key_def\<close>)

lemma convert_and_add_ok:
  assumes s: "server_ok server" and l: "set_list server setobj ts" and t: "length str < 2 ^ 31" "str \<notin> set ts"
  shows "set_result server (convert_and_add server setobj cap str) True (insert str (set ts))"
proof -
  obtain d sz where c: "setTypeConvertAndExpand server setobj OBJ_ENCODING_HT cap True False = Some (True, OHT d sz)" "ht_set server d sz (set ts)" using convert_ht[OF s l] by blast
  have b: "length str < 2 ^ 60" "card (set ts) < 2 ^ 64" using t(1) list_facts(3)[OF l] card_length[of ts] by auto
  obtain x where x: "sdsnewlen (mem_alloc server) (Init str) (length str) = Some (Some x)" "sds_exact x str" using new_exact[OF _ _ b(1), of "mem_alloc server" str] s by (auto simp: server_ok_def)
  obtain d' sz' where "dictAdd (dict_can_resize server) d x () = Some (True, d')" "metadata_add sz x = Some sz'" "ht_set server d' sz' (insert str (set ts))"
    using add_set[OF c(2) b(2) x(2) t] by blast
  then have "convert_and_add server setobj cap str = Some (True, OHT d' sz')" using c(1) x(1) t(1) by (simp add: convert_and_add_def)
  then show ?thesis by (rule resultI) (simp, fact)
qed

lemma add_ht_ok:
  assumes s: "server_ok server" and h: "ht_set server d sz S" "card S < 2 ^ 64" and t: "length str < 2 ^ 31" "key_of sdsv str"
  shows "set_result server (add_ht server d sz str sdsv) (str \<notin> S) (insert str S)"
proof -
  obtain x where x: "temp_key server sdsv str = Some x" "sds_holds x str" "sdsv = None \<and> sds_exact x str \<or> sdsv = Some x" using temp_key_ok[OF s t] by blast
  note k = holds_key[OF x(2)]
  obtain lk b d' where f: "dictFindLink (dict_can_resize server) d str = Some (lk, b, d')" "kept d d'"
    "case lk of None \<Rightarrow> matches (dtype d) str (cont d) = {#} \<and> (b = None \<or> b = Some (bucket_of d' str)) | Some l \<Rightarrow> matches (dtype d) str (cont d) \<noteq> {#}"
    using find_link_ok[OF ht_set_type[OF h(1)] ht_set_room[OF h]] by blast
  have h': "ht_set server d' sz S" using ht_set_kept[OF h(1) f(2)] .
  show ?thesis
  proof (cases lk)
    case None
    then have n: "str \<notin> S" "b = None \<or> b = Some (bucket_of d' str)" using f(3) ht_set_member[OF h(1), of str] by auto
    obtain y where y: "(case sdsv of Some s \<Rightarrow> do { r \<leftarrow> sdsdup (mem_alloc server) s; r } | None \<Rightarrow> Some x) = Some y" "sds_exact y str"
      using x(2,3) dup_exact[OF _ x(2), of "mem_alloc server"] s t(1) by (auto simp: server_ok_def split: option.splits)
    note ky = holds_key[OF exact_holds[OF y(2)]]
    have ty: "dtype d' = setDictType (dict_hash_function_seed server)" "pauseAutoResize d' \<le> 0" using h' by (auto simp: ht_set_def)
    have m: "matches (dtype d') (keyFromStoredKey (dtype d') y) (cont d') = {#}" using ht_set_member[OF h', of str] n(1) ty(1) ky by simp
    obtain d2 where d2: "dictSetKeyAtLink (dict_can_resize server) stored_key d' y b True = Some d2" "frame d' d2" "cont d2 = cont d' + {# (y, None) #}"
      using set_key_new[OF ht_set_type[OF h'] ht_set_room[OF h' h(2)] ty(2) m, of b "dict_can_resize server"] n(2) ty(1) ky by auto
    note a = ht_set_added[OF h' d2(2,3) y(2) t(1) n(1)]
    have "add_ht server d sz str sdsv = Some (True, OHT d2 (sz + of_nat (alloc_of y)))"
      unfolding add_ht_def x(1) bind.simps k f(1) using None y(1) d2(1) a(1) t(1) by simp
    then show ?thesis using n(1) a(2) by (auto simp: set_result_def)
  next
    case (Some l)
    then have n: "str \<in> S" using f(3) ht_set_member[OF h(1), of str] by auto
    have "add_ht server d sz str sdsv = Some (False, OHT d' sz)"
      unfolding add_ht_def x(1) bind.simps k f(1) using Some free_ok[OF x(2)] t(1) by simp
    then show ?thesis using n h' by (auto simp: set_result_def insert_absorb)
  qed
qed

lemma add_listpack_ok:
  assumes s: "server_ok server" and h: "set_list server (OListpack lp) ts" and t: "length str < 2 ^ 31" "\<forall>v. tmp = Some v \<longrightarrow> str = idec (sint v)"
  shows "set_result server (add_listpack server lp str tmp) (str \<notin> set ts) (insert str (set ts))"
proof -
  have lp: "lp_holds lp ts" "distinct ts" "\<forall>t \<in> set ts. length t < 2 ^ 31" using h by auto
  have p: "do { p \<leftarrow> lpFirst lp; p \<leftarrow> (case p of None \<Rightarrow> Some None | Some p \<Rightarrow> lpFind lp (Some p) str 0); Some p } = Some (map_option (lp_at ts) (find_text str 0 0 ts))"
    using first_at[OF lp(1)] find_at[OF lp(1)] by (cases ts) simp_all
  show ?thesis
  proof (cases "str \<in> set ts")
    case True
    then have "add_listpack server lp str tmp = Some (False, OListpack lp)" using p find_text_none[of str ts] by (auto simp: add_listpack_def split: bind_splits)
    then show ?thesis using True lp by (auto simp: set_result_def insert_absorb)
  next
    case False
    then have q: "do { p \<leftarrow> lpFirst lp; (case p of None \<Rightarrow> Some None | Some p \<Rightarrow> lpFind lp (Some p) str 0) } = Some None" using p find_text_none[of str ts] by (auto split: bind_splits)
    obtain c lp1 where c: "lpLength lp = Some (c, lp1)" "lp_holds lp1 ts" using length_holds[OF lp(1)] by blast
    obtain c' lp2 where c': "lpLength lp1 = Some (c', lp2)" "lp_holds lp2 ts" using length_holds[OF c(2)] by blast
    obtain b where b: "lpSafeToAdd (Some lp1) (of_nat (length str)) = Some b" "b \<longrightarrow> lp_fits (ts @ [str])" using safe_to_add[OF c(2) t(1)] by blast
    let ?e = "case tmp of Some v \<Rightarrow> Inr v | None \<Rightarrow> Inl str" and ?g = "unat c < set_max_listpack_entries server \<and> length str \<le> set_max_listpack_value server \<and> b"
    have e: "elem_text ?e = str" using t(2) by (cases tmp) auto
    have "add_listpack server lp str tmp = (if ?g
      then do { r \<leftarrow> (case ?e of Inl str \<Rightarrow> lpAppend (mem_alloc server) lp1 str | Inr v \<Rightarrow> lpAppendInteger (mem_alloc server) lp1 v); lp \<leftarrow> r; Some (True, OListpack lp) }
      else convert_and_add server (OListpack lp2) (unat c' + 1) str)"
      using q c(1) c'(1) b(1) by (cases tmp) (auto simp: add_listpack_def split: bind_splits)
    moreover have "set_result server (convert_and_add server (OListpack lp2) (unat c' + 1) str) True (insert str (set ts))" using convert_and_add_ok[OF s _ t(1) False] c'(2) lp by simp
    moreover have "set_result server (do { r \<leftarrow> (case ?e of Inl str \<Rightarrow> lpAppend (mem_alloc server) lp1 str | Inr v \<Rightarrow> lpAppendInteger (mem_alloc server) lp1 v); lp \<leftarrow> r; Some (True, OListpack lp) })
      True (insert str (set ts))" if ?g
    proof -
      obtain lp3 where "(case ?e of Inl str \<Rightarrow> lpAppend (mem_alloc server) lp1 str | Inr v \<Rightarrow> lpAppendInteger (mem_alloc server) lp1 v) = Some (Some lp3)" "lp_holds lp3 (ts @ [str])"
        using append_one[OF _ c(2) e t(1), of "mem_alloc server"] s b(2) \<open>?g\<close> unfolding server_ok_def by blast
      moreover have "distinct (ts @ [str]) \<and> (\<forall>t \<in> set (ts @ [str]). length t < 2 ^ 31) \<and> insert str (set ts) = set (ts @ [str])" using lp False t(1) by auto
      ultimately show ?thesis by (intro resultI[of _ _ "OListpack lp3"]) (simp, simp only: set_holds.simps, blast)
    qed
    ultimately show ?thesis using False by simp
  qed
qed

lemma texts_insert: "ivals is' = insort_insert x (ivals is) \<Longrightarrow> texts_of is' = insert (idec x) (texts_of is)"
  by (simp add: texts_of_def set_insort_insert)

lemma text_member: "intset_ok is \<Longrightarrow> idec (sint (v :: i64)) \<in> texts_of is \<longleftrightarrow> sint v \<in> set (ivals is)"
proof
  assume ok: "intset_ok is" and "idec (sint v) \<in> texts_of is"
  then obtain x where x: "x \<in> set (ivals is)" "idec (sint v) = idec x" by (auto simp: texts_of_def)
  then have "v = word_of_int x" using idec_word_inj[of v "word_of_int x"] ival_word[OF ok x(1)] by simp
  then show "sint v \<in> set (ivals is)" using x(1) ival_word[OF ok x(1)] by simp
qed (auto simp: texts_of_def)

lemma intset_small: "server_ok server \<Longrightarrow> set_holds server (OIntset is) S \<Longrightarrow> ilen is < INTSET_CAP" by (simp add: server_ok_def)

lemma intset_add_ok:
  assumes s: "server_ok server" and h: "set_holds server (OIntset is) S"
  shows "set_result server (intset_add server is v) (idec (sint v) \<notin> S) (insert (idec (sint v)) S)"
proof -
  have ok: "intset_ok is" "S = texts_of is" "ilen is < INTSET_CAP" using h intset_small[OF s h] by auto
  obtain is' where a: "intsetAdd (mem_fresh server) is v = Some (is', sint v \<notin> set (ivals is))" "intset_ok is'" "ivals is' = insort_insert (sint v) (ivals is)"
    using intsetAdd_correct[OF ok(1,3)] by blast
  note m = text_member[OF ok(1), of v] and ti = texts_insert[OF a(3)]
  have le: "ilen is' = (if sint v \<in> set (ivals is) then ilen is else Suc (ilen is))" using a(3) by (simp flip: length_ivals add: insort_insert_key_def)
  have mx: "intsetMaxEntries server = set_max_intset_entries server" using s by (simp add: intsetMaxEntries_def server_ok_def INTSET_CAP_def)
  show ?thesis
  proof (cases "sint v \<notin> set (ivals is) \<and> ilen is' > intsetMaxEntries server")
    case True
    have "set_list server (OIntset is') (map idec (ivals is'))" using a(2) le ok(3) by simp
    from convert_ht[OF s this, of "unat (intsetLen is')"] obtain d sz where
      "setTypeConvertAndExpand server (OIntset is') OBJ_ENCODING_HT (unat (intsetLen is')) True False = Some (True, OHT d sz)" "ht_set server d sz (texts_of is')" by (auto simp: texts_of_def)
    moreover have "unat (intsetLen is') > intsetMaxEntries server" using True by (simp add: intsetLen_def ilen_def)
    ultimately have "intset_add server is v = Some (True, OHT d sz)" using True a(1) by (simp add: intset_add_def maybeConvertIntset_def setTypeConvert_def setTypeSize_def)
    then show ?thesis using \<open>ht_set server d sz (texts_of is')\<close> True ti m ok(2) by (simp add: set_result_def)
  next
    case False
    then have g: "\<not> (sint v \<notin> set (ivals is) \<and> unat (intsetLen is') > intsetMaxEntries server)" by (simp add: intsetLen_def ilen_def)
    have "intset_add server is v = Some (sint v \<notin> set (ivals is), OIntset is')" using g a(1) by (auto simp: intset_add_def maybeConvertIntset_def)
    moreover have "set_holds server (OIntset is') (insert (idec (sint v)) S)" using False le h a(2) ti ok(2) mx by (auto split: if_splits)
    ultimately show ?thesis using m ok(2) by (simp add: set_result_def)
  qed
qed

lemma new_served: "alloc_serves a \<Longrightarrow> capacity < 2 ^ 62 \<Longrightarrow> \<exists>m. lpNew a capacity = Some (Some m) \<and> lp_holds m []"
  using lpNew_holds[of a capacity] by (auto simp: alloc_serves_def split: if_splits)

lemma convert_lp:
  assumes s: "server_ok server" and h: "set_holds server (OIntset is) S" and cap: "cap < 2 ^ 32"
  shows "\<exists>lp. setTypeConvertAndExpand server (OIntset is) OBJ_ENCODING_LISTPACK cap True False = Some (True, OListpack lp) \<and> lp_holds lp (map idec (ivals is))"
proof -
  have ok: "intset_ok is" "ilen is < INTSET_CAP" using h intset_small[OF s h] by auto
  let ?ts = "map idec (ivals is)"
  have l: "set_list server (OIntset is) ?ts" using ok by simp
  obtain c where c: "estimate_capacity (OIntset is) cap = Some (c, OIntset is)" "c \<le> 7 + 14 * cap" using capacity_ok[OF ok] by blast
  have al: "alloc_serves (mem_alloc server)" using s by (simp add: server_ok_def)
  obtain lp where n: "lpNew (mem_alloc server) c = Some (Some lp)" "lp_holds lp []" using new_served[OF al, of c] c(2) cap by auto
  have "lp_fits ([] @ ?ts)" using ints_body[OF ok(1)] ok(2) by (simp add: lp_fits_def lp_size_def INTSET_CAP_def)
  then obtain lp' si where "convert_listpack server (OIntset is) (setTypeInitIterator (OIntset is)) lp = Some (lp', si)" "lp_holds lp' ?ts" "plain si"
    using convert_listpack_ok[OF al list_yields[OF l] list_facts(2)[OF l] n(2)] by auto
  then show ?thesis using c(1) n(1) by (simp add: setTypeConvertAndExpand_def reset_plain)
qed

lemma add_intset_ok:
  assumes s: "server_ok server" and h: "set_holds server (OIntset is) S" and t: "length str < 2 ^ 31"
  shows "set_result server (add_intset server is str) (str \<notin> S) (insert str S)"
proof (cases "string2ll str")
  case (Some v)
  then have "str = idec (sint v)" by (simp add: string2ll_canonical)
  then show ?thesis using intset_add_ok[OF s h, of v] Some by (simp add: add_intset_def)
next
  case None
  have ok: "intset_ok is" "ilen is < INTSET_CAP" "S = texts_of is" using h intset_small[OF s h] by auto
  let ?ts = "map idec (ivals is)"
  have l: "set_list server (OIntset is) ?ts" using ok by simp
  have S: "S = set ?ts" using ok(3) by (simp add: texts_of_def)
  have n: "str \<notin> set ?ts"
  proof
    assume "str \<in> set ?ts"
    then obtain x where x: "x \<in> set (ivals is)" "str = idec x" by auto
    then have "str = idec (sint (word_of_int x :: i64))" using ival_word[OF ok(1) x(1)] by simp
    then show False using None string2ll_canonical[of str "word_of_int x"] by simp
  qed
  obtain ml tot where e: "intset_estimate is = Some (ml, tot)" "tot < 2 ^ 62" using estimate_ok[OF ok(1,2)] by blast
  have "tot + length str < 2 ^ 63" using e(2) t by simp
  then obtain b where b: "lpSafeToAdd None (of_nat (tot + length str)) = Some b" "b \<longrightarrow> length str \<le> 2 ^ 30" using safe_new by blast
  let ?g = "unat (intsetLen is) < set_max_listpack_entries server \<and> length str \<le> set_max_listpack_value server \<and> ml \<le> set_max_listpack_value server \<and> b"
  have sf: "(if unat (intsetLen is) < set_max_listpack_entries server \<and> length str \<le> set_max_listpack_value server \<and> ml \<le> set_max_listpack_value server
    then lpSafeToAdd None (of_nat (tot + length str)) else Some False) = Some ?g" using b(1) by auto
  show ?thesis
  proof (cases ?g)
    case True
    obtain lp where c: "setTypeConvertAndExpand server (OIntset is) OBJ_ENCODING_LISTPACK (unat (intsetLen is) + 1) True False = Some (True, OListpack lp)" "lp_holds lp ?ts"
      using convert_lp[OF s h, of "unat (intsetLen is) + 1"] ok(2) by (auto simp: intsetLen_def ilen_def INTSET_CAP_def)
    have "length str \<le> 2 ^ 30" using True b(2) by blast
    then have "lp_fits (?ts @ [str])" using ints_body[OF ok(1)] body_append[of ?ts str] ok(2) by (simp add: lp_fits_def lp_size_def INTSET_CAP_def)
    then obtain lp' where a: "lpAppend (mem_alloc server) lp str = Some (Some lp')" "lp_holds lp' (?ts @ [str])" using append_one[OF _ c(2), of "mem_alloc server" "Inl str" str] s t by (auto simp: server_ok_def)
    obtain bytes where "lpBytes lp' = Some bytes" using valid_holds[OF a(2), of True "()"] by blast
    then have "lpShrinkToFit (mem_alloc server) lp' = Some lp'" by (rule shrink_id)
    then have "add_intset server is str = Some (True, OListpack lp')" unfolding add_intset_def None option.case e(1) bind.simps prod.case sf if_P[OF True] c(1) using a(1) True by simp
    moreover have "distinct (?ts @ [str]) \<and> (\<forall>t \<in> set (?ts @ [str]). length t < 2 ^ 31) \<and> insert str S = set (?ts @ [str])" using list_facts[OF l] n t S by auto
    ultimately show ?thesis using n S a(2) by (intro resultI[of _ _ "OListpack lp'"]) (simp, simp only: set_holds.simps, blast)
  next
    case False
    have "add_intset server is str = convert_and_add server (OIntset is) (unat (intsetLen is) + 1) str"
      unfolding add_intset_def None option.case e(1) bind.simps prod.case sf using False by auto
    then show ?thesis using convert_and_add_ok[OF s l t n] n S by simp
  qed
qed

lemma tmp_text_ok: "tmp_text server v = Some (idec (sint v))"
  using ll_text[of "mem_fresh server" v] by (auto simp: tmp_text_def)

text \<open>The bytes of a value, and that it is well formed.\<close>

fun val_text :: "setval \<Rightarrow> mem" where
  "val_text (VSds s) = stored_key s"
| "val_text (VBuf t) = t"
| "val_text (VInt v) = idec (sint v)"

fun val_ok :: "setval \<Rightarrow> bool" where
  "val_ok (VSds s) \<longleftrightarrow> sds_holds s (stored_key s) \<and> length (stored_key s) < 2 ^ 31"
| "val_ok (VBuf t) \<longleftrightarrow> length t < 2 ^ 31"
| "val_ok (VInt v) \<longleftrightarrow> True"

lemma val_short: "val_ok v \<Longrightarrow> length (val_text v) < 2 ^ 31"
proof (cases v)
  case (VInt x)
  then show ?thesis using idec_length[of x] by simp
qed auto

lemma add_str_ok:
  assumes s: "server_ok server" and h: "set_holds server setobj S" "card S < 2 ^ 64" and t: "length str < 2 ^ 31" "key_of sdsv str" "\<forall>v. tmp = Some v \<longrightarrow> str = idec (sint v)"
  shows "set_result server (add_str server setobj str sdsv tmp) (str \<notin> S) (insert str S)"
proof (cases setobj)
  case (OIntset x)
  then show ?thesis using add_intset_ok[OF s _ t(1), of x S] h(1) by (simp add: add_str_def)
next
  case (OListpack lp)
  then obtain ts where "set_list server (OListpack lp) ts" "S = set ts" using h(1) by auto
  then show ?thesis using add_listpack_ok[OF s _ t(1,3)] OListpack by (simp add: add_str_def)
next
  case (OHT d sz)
  then show ?thesis using add_ht_ok[OF s _ h(2) t(1,2), of d sz] h(1) by (simp add: add_str_def)
qed

lemma add_ok:
  assumes s: "server_ok server" and h: "set_holds server setobj S" "card S < 2 ^ 64" and v: "val_ok v"
  shows "set_result server (setTypeAddAux server setobj v) (val_text v \<notin> S) (insert (val_text v) S)"
proof (cases v)
  case (VInt x)
  have t: "length (idec (sint x)) < 2 ^ 31" using val_short[OF v] VInt by simp
  have a: "set_result server (add_str server setobj (idec (sint x)) None (Some x)) (idec (sint x) \<notin> S) (insert (idec (sint x)) S)" using add_str_ok[OF s h t] by simp
  show ?thesis
  proof (cases "\<exists>y. setobj = OIntset y")
    case True
    then obtain y where y: "setobj = OIntset y" by blast
    show ?thesis using intset_add_ok[OF s h(1)[unfolded y], of x] VInt y by (simp add: setTypeAddAux_def)
  next
    case False
    then have "setTypeAddAux server setobj v = add_str server setobj (idec (sint x)) None (Some x)" using VInt by (auto simp: setTypeAddAux_def tmp_text_ok split: robj.splits)
    then show ?thesis using a VInt by simp
  qed
next
  case (VSds x)
  then have x: "sds_holds x (stored_key x)" "length (stored_key x) < 2 ^ 31" using v by auto
  have "setTypeAddAux server setobj v = add_str server setobj (stored_key x) (Some x) None" using VSds holds_string[OF x(1)] by (simp add: setTypeAddAux_def)
  then show ?thesis using add_str_ok[OF s h x(2), of "Some x" None] x(1) VSds by simp
next
  case (VBuf x)
  then have x: "length x < 2 ^ 31" using v by simp
  show ?thesis using add_str_ok[OF s h x, of None None] VBuf by (simp add: setTypeAddAux_def)
qed

section \<open>Removing, testing and counting\<close>

lemma remove_ht_ok:
  assumes s: "server_ok server" and h: "ht_set server d sz S" "card S < 2 ^ 64" and t: "length str < 2 ^ 31" "key_of sdsv str"
  shows "set_result server (remove_str server (OHT d sz) str sdsv) (str \<in> S) (S - {str})"
proof -
  obtain x where x: "temp_key server sdsv str = Some x" "sds_holds x str" using temp_key_ok[OF s t] by blast
  note k = holds_key[OF x(2)] and fr = free_ok[OF x(2)]
  obtain e d' where f: "dictGenericDelete (dict_can_resize server) d str = Some (e, d')"
    "case e of None \<Rightarrow> kept d d' \<and> matches (dtype d) str (cont d) = {#} | Some e \<Rightarrow> frame d d' \<and> strip e \<in># matches (dtype d) str (cont d) \<and> cont d = cont d' + {# strip e #}"
    using dictGenericDelete_ok[OF ht_set_type[OF h(1)] ht_set_room[OF h]] by blast
  show ?thesis
  proof (cases e)
    case None
    then have "str \<notin> S" "ht_set server d' sz S" using f(2) ht_set_member[OF h(1), of str] ht_set_kept[OF h(1), of d'] by auto
    moreover have "remove_str server (OHT d sz) str sdsv = Some (False, OHT d' sz)" using None f(1) x(1) k fr t(1) by (simp add: remove_str_def)
    ultimately show ?thesis by (auto simp: set_result_def)
  next
    case (Some g)
    then have "frame d d'" "strip g \<in># matches (dtype d) str (cont d)" "cont d = cont d' + {# strip g #}" using f(2) by auto
    note r = ht_set_removed[OF h(1) this]
    have "remove_str server (OHT d sz) str sdsv = Some (True, OHT d' (sz - of_nat (alloc_of (dictGetKey g))))" using Some f(1) x(1) k fr r(1) t(1) by (simp add: remove_str_def)
    then show ?thesis using r(2,3) by (auto simp: set_result_def)
  qed
qed

lemma delete_at_holds:
  assumes al: "alloc_serves a" and "lp_holds lp ts" "i < length ts"
  shows "\<exists>lp' q. lpDelete a lp (lp_at ts i) = Some (Some (lp', q)) \<and> lp_holds lp' (take i ts @ drop (Suc i) ts)"
  using assms(2)
proof (rule holdsE)
  fix n sl assume h: "lp = lpk n (encs ts) sl" "lp_inv n (encs ts)" "list_all str_ok ts"
  have "lp_fits (take i ts @ ts ! i # drop (Suc i) ts)" using inv_fits[OF h(2)] text_cut[OF assms(3)] by simp
  then have "lp_fits (take i ts @ drop (Suc i) ts)" by (simp add: lp_fits_def lp_size_def)
  from fits_served[OF al this] show ?thesis using delete_at[OF h(2,3) assms(3), of a sl] by (auto simp: h(1) lp_at_pos holds_or_full_def)
qed

lemma cut_set: "distinct ts \<Longrightarrow> i < length ts \<Longrightarrow> distinct (take i ts @ drop (Suc i) ts) \<and> set (take i ts @ drop (Suc i) ts) = set ts - {ts ! i}"
proof -
  assume d: "distinct ts" "i < length ts"
  have "distinct (take i ts @ ts ! i # drop (Suc i) ts)" "set ts = set (take i ts @ ts ! i # drop (Suc i) ts)" using text_cut[OF d(2)] d(1) by simp_all
  then show ?thesis by auto
qed

lemma remove_listpack_ok:
  assumes s: "server_ok server" and h: "set_list server (OListpack lp) ts"
  shows "set_result server (remove_str server (OListpack lp) str sdsv) (str \<in> set ts) (set ts - {str})"
proof (cases "find_text str 0 0 ts")
  case None
  then have n: "str \<notin> set ts" by (simp add: find_text_none)
  have "remove_str server (OListpack lp) str sdsv = Some (False, OListpack lp)"
    using None first_at[of lp ts] find_at[of lp ts str] h by (auto simp: remove_str_def)
  then show ?thesis using n h by (auto simp: set_result_def)
next
  case (Some i)
  have i: "i < length ts" "ts ! i = str" using find_text_some[OF Some] by auto
  have lp: "lp_holds lp ts" "distinct ts" "\<forall>t \<in> set ts. length t < 2 ^ 31" using h by auto
  obtain lp' q where d: "lpDelete (mem_alloc server) lp (lp_at ts i) = Some (Some (lp', q))" "lp_holds lp' (take i ts @ drop (Suc i) ts)" using delete_at_holds[OF _ lp(1) i(1), of "mem_alloc server"] s unfolding server_ok_def by blast
  have ne: "ts \<noteq> []" using i(1) by auto
  have "remove_str server (OListpack lp) str sdsv = Some (True, OListpack lp')"
    using Some first_at[OF lp(1)] find_at[OF lp(1) ne, of str] ne d(1) by (simp add: remove_str_def)
  moreover have "str \<in> set ts" using i by auto
  moreover have "set_holds server (OListpack lp') (set ts - {str})" unfolding set_holds.simps using d(2) cut_set[OF lp(2) i(1)] lp(3) i(2)
    by (intro exI[of _ "take i ts @ drop (Suc i) ts"]) auto
  ultimately show ?thesis by (auto simp: set_result_def)
qed

lemma intset_remove_ok:
  assumes s: "server_ok server" and h: "set_holds server (OIntset is) S"
  shows "set_result server (do { (is, success) \<leftarrow> intsetRemove (mem_fresh server) is v; Some (success, OIntset is) }) (idec (sint v) \<in> S) (S - {idec (sint v)})"
proof -
  have ok: "intset_ok is" "S = texts_of is" "ilen is < INTSET_CAP" using h intset_small[OF s h] by auto
  obtain is' where r: "intsetRemove (mem_fresh server) is v = Some (is', sint v \<in> set (ivals is))" "intset_ok is'" "ivals is' = remove1 (sint v) (ivals is)"
    using intsetRemove_correct[OF ok(1,3)] by blast
  have d: "distinct (ivals is)" using intset_ok_strict[OF ok(1)] strict_sorted_iff by blast
  have "texts_of is' = S - {idec (sint v)}"
  proof -
    have "set (ivals is') = set (ivals is) - {sint v}" using r(3) d by simp
    moreover have "x = sint v" if "x \<in> set (ivals is)" "idec x = idec (sint v)" for x
    proof -
      have "word_of_int x = v" using idec_word_inj[of "word_of_int x" v] ival_word[OF ok(1) that(1)] that(2) by simp
      then show ?thesis using ival_word[OF ok(1) that(1)] by simp
    qed
    ultimately show ?thesis unfolding ok(2) texts_of_def by auto
  qed
  moreover have "length (ivals is') \<le> length (ivals is)" unfolding r(3) length_remove1 by simp
  ultimately have "set_holds server (OIntset is') (S - {idec (sint v)})" using r(2) h unfolding set_holds.simps length_ivals by auto
  then show ?thesis using r(1) text_member[OF ok(1), of v] ok(2) by (simp add: set_result_def)
qed

lemma not_text:
  assumes "intset_ok is" "string2ll str = None" shows "str \<notin> texts_of is"
proof
  assume "str \<in> texts_of is"
  then obtain x where x: "x \<in> set (ivals is)" "str = idec x" by (auto simp: texts_of_def)
  then have "str = idec (sint (word_of_int x :: i64))" using ival_word[OF assms(1) x(1)] by simp
  then show False using assms(2) string2ll_canonical[of str "word_of_int x"] by simp
qed

lemma remove_str_ok:
  assumes s: "server_ok server" and h: "set_holds server setobj S" "card S < 2 ^ 64" and t: "length str < 2 ^ 31" "key_of sdsv str"
  shows "set_result server (remove_str server setobj str sdsv) (str \<in> S) (S - {str})"
proof (cases setobj)
  case (OIntset x)
  note hx = h(1)[unfolded OIntset]
  show ?thesis
  proof (cases "string2ll str")
    case None
    then show ?thesis using OIntset hx not_text[of x str] by (auto simp: remove_str_def set_result_def)
  next
    case (Some v)
    then have "str = idec (sint v)" by (simp add: string2ll_canonical)
    then show ?thesis using intset_remove_ok[OF s hx, of v] Some OIntset by (simp add: remove_str_def)
  qed
next
  case (OListpack lp)
  then obtain ts where "set_list server (OListpack lp) ts" "S = set ts" using h(1) by auto
  then show ?thesis using remove_listpack_ok[OF s] OListpack by simp
next
  case (OHT d sz)
  then show ?thesis using remove_ht_ok[OF s _ h(2) t, of d sz] h(1) by simp
qed

lemma member_str_ok:
  assumes s: "server_ok server" and h: "set_holds server setobj S" "card S < 2 ^ 64" and t: "length str < 2 ^ 31" "key_of sdsv str"
  shows "set_result server (member_str server setobj str sdsv) (str \<in> S) S"
proof (cases setobj)
  case (OIntset x)
  note hx = h(1)[unfolded OIntset]
  have ok: "intset_ok x" "S = texts_of x" "ilen x < 2 ^ 31" using hx intset_small[OF s hx] by (auto simp: INTSET_CAP_def)
  show ?thesis
  proof (cases "string2ll str")
    case None
    then show ?thesis using OIntset hx not_text[of x str] by (auto simp: member_str_def set_result_def)
  next
    case (Some v)
    then have "str = idec (sint v)" by (simp add: string2ll_canonical)
    then show ?thesis using intsetFind_correct[OF ok(1,3), of v] text_member[OF ok(1), of v] ok(2) Some OIntset h(1) by (simp add: member_str_def set_result_def)
  qed
next
  case (OListpack lp)
  then obtain ts where ts: "lp_holds lp ts" "S = set ts" using h(1) by auto
  have "member_str server setobj str sdsv = Some (str \<in> S, setobj)"
    using first_at[OF ts(1)] find_at[OF ts(1), of str] find_text_none[of str ts] ts(2) OListpack by (cases ts) (auto simp: member_str_def)
  then show ?thesis using h(1) by (simp add: set_result_def)
next
  case (OHT d sz)
  then have d: "ht_set server d sz S" using h(1) by simp
  obtain x where x: "temp_key server sdsv str = Some x" "sds_holds x str" using temp_key_ok[OF s t] by blast
  obtain e d' where f: "dictFind (dict_can_resize server) d str = Some (e, d')" "kept d d'"
    "case e of None \<Rightarrow> matches (dtype d) str (cont d) = {#} | Some e \<Rightarrow> strip e \<in># matches (dtype d) str (cont d)"
    using dictFind_ok[OF ht_set_type[OF d] ht_set_room[OF d h(2)]] by blast
  have "e \<noteq> None \<longleftrightarrow> str \<in> S" using f(3) ht_set_member[OF d, of str] by (auto split: option.splits)
  moreover have "member_str server setobj str sdsv = Some (e \<noteq> None, OHT d' sz)" using OHT f(1) x(1) holds_key[OF x(2)] free_ok[OF x(2)] t(1) by (simp add: member_str_def)
  ultimately show ?thesis using ht_set_kept[OF d f(2)] by (simp add: set_result_def)
qed

text \<open>The dispatch on the kind of the value is the same in both operations.\<close>

lemma remove_ok:
  assumes s: "server_ok server" and h: "set_holds server setobj S" "card S < 2 ^ 64" and v: "val_ok v"
  shows "set_result server (setTypeRemoveAux server setobj v) (val_text v \<in> S) (S - {val_text v})"
proof (cases "\<exists>x y. v = VInt x \<and> setobj = OIntset y")
  case True
  then obtain x y where v: "v = VInt x" and y: "setobj = OIntset y" by blast
  show ?thesis using intset_remove_ok[OF s h(1)[unfolded y], of x] v y by (simp add: setTypeRemoveAux_def)
next
  case False
  obtain sdsv where sd: "setTypeRemoveAux server setobj v = remove_str server setobj (val_text v) sdsv" "key_of sdsv (val_text v)"
  proof (cases v)
    case (VSds x)
    then show ?thesis using that[of "Some x"] v holds_string[of x "stored_key x"] by (simp add: setTypeRemoveAux_def)
  next
    case (VInt x)
    then have "setTypeRemoveAux server setobj v = remove_str server setobj (idec (sint x)) None" using False by (cases setobj) (simp_all add: setTypeRemoveAux_def tmp_text_ok)
    then show ?thesis using that[of None] VInt by simp
  next
    case (VBuf x)
    then show ?thesis using that[of None] by (simp add: setTypeRemoveAux_def)
  qed
  show ?thesis unfolding sd(1) by (rule remove_str_ok[OF s h val_short[OF v] sd(2)])
qed

lemma member_ok:
  assumes s: "server_ok server" and h: "set_holds server setobj S" "card S < 2 ^ 64" and v: "val_ok v"
  shows "set_result server (setTypeIsMemberAux server setobj v) (val_text v \<in> S) S"
proof (cases "\<exists>x y. v = VInt x \<and> setobj = OIntset y")
  case True
  then obtain x y where v: "v = VInt x" and y: "setobj = OIntset y" by blast
  note hx = h(1)[unfolded y]
  have ok: "intset_ok y" "S = texts_of y" "ilen y < 2 ^ 31" using hx intset_small[OF s hx] by (auto simp: INTSET_CAP_def)
  show ?thesis using intsetFind_correct[OF ok(1,3), of x] text_member[OF ok(1), of x] ok(2) v y h(1) by (simp add: setTypeIsMemberAux_def set_result_def)
next
  case False
  obtain sdsv where sd: "setTypeIsMemberAux server setobj v = member_str server setobj (val_text v) sdsv" "key_of sdsv (val_text v)"
  proof (cases v)
    case (VSds x)
    then show ?thesis using that[of "Some x"] v holds_string[of x "stored_key x"] by (simp add: setTypeIsMemberAux_def)
  next
    case (VInt x)
    then have "setTypeIsMemberAux server setobj v = member_str server setobj (idec (sint x)) None" using False by (cases setobj) (simp_all add: setTypeIsMemberAux_def tmp_text_ok)
    then show ?thesis using that[of None] VInt by simp
  next
    case (VBuf x)
    then show ?thesis using that[of None] by (simp add: setTypeIsMemberAux_def)
  qed
  show ?thesis unfolding sd(1) by (rule member_str_ok[OF s h val_short[OF v] sd(2)])
qed

lemma holds_finite: "set_holds server setobj S \<Longrightarrow> finite S"
  by (cases setobj) (auto simp: texts_of_def ht_set_def)

lemma size_ok:
  assumes s: "server_ok server" and h: "set_holds server setobj S" "card S < 2 ^ 64"
  shows "\<exists>setobj'. setTypeSize setobj = Some (card S, setobj') \<and> set_holds server setobj' S"
proof (cases setobj)
  case (OIntset x)
  have ok: "intset_ok x" "S = texts_of x" using h(1) OIntset by auto
  have "card S = ilen x" using ok ivals_inj[OF ok(1)] intset_ok_strict[OF ok(1)] by (simp add: texts_of_def card_image strict_sorted_iff distinct_card)
  then show ?thesis using h(1) OIntset by (simp add: setTypeSize_def intsetLen_def ilen_def)
next
  case (OListpack lp)
  then obtain ts where ts: "lp_holds lp ts" "distinct ts" "\<forall>t \<in> set ts. length t < 2 ^ 31" "S = set ts" using h(1) by auto
  obtain c lp' where c: "lpLength lp = Some (c, lp')" "unat c = length ts" "lp_holds lp' ts" using length_holds[OF ts(1)] by blast
  then show ?thesis using ts OListpack by (auto simp: setTypeSize_def distinct_card)
next
  case (OHT d sz)
  then have d: "ht_set server d sz S" using h(1) by simp
  have "dictSize d = of_nat (card S)" using dictSize_cont[of d] ht_set_size[OF d] d by (simp add: ht_set_def)
  then have "unat (dictSize d) = card S" using h(2) by (simp add: unat_of_nat take_bit_nat_eq_self)
  then show ?thesis using h(1) OHT by (simp add: setTypeSize_def)
qed

section \<open>Creation, conversion on a hint, and copies\<close>

lemma holds_list:
  assumes "server_ok server" "set_holds server setobj S" "robj_encoding setobj \<noteq> OBJ_ENCODING_HT"
  shows "\<exists>ts. set_list server setobj ts \<and> S = set ts"
  using assms by (cases setobj) (auto simp: texts_of_def server_ok_def)

lemma create_empty:
  assumes s: "server_ok server" and v: "sds_holds value t"
  shows "\<exists>setobj. setTypeCreate server value n = Some setobj \<and> set_holds server setobj {}"
proof -
  have i: "set_holds server createIntsetObject {}" using intsetNew_ok by (simp add: createIntsetObject_def texts_of_def ilen_def intsetNew_def ivals_def)
  obtain lp where l: "lpNew (mem_alloc server) 0 = Some (Some lp)" "lp_holds lp []" using new_served[of "mem_alloc server" 0] s by (auto simp: server_ok_def)
  obtain ok d where "dictExpand (dict_can_resize server) (dictCreate (setDictType (dict_hash_function_seed server))) (of_nat n) = Some (ok, d)" "ht_set server d 0 {}"
    using expand_ht_set[OF create_ht_set] by fastforce
  then show ?thesis using i l holds_string[OF v] by (auto simp: setTypeCreate_def isSdsRepresentableAsLongLong_def createSetListpackObject_def createSetObject_def expand_object_def)
qed

lemma hint_ok:
  assumes s: "server_ok server" and h: "set_holds server setobj S"
  shows "\<exists>setobj'. setTypeMaybeConvert server setobj n = Some setobj' \<and> set_holds server setobj' S"
proof (cases "robj_encoding setobj = OBJ_ENCODING_LISTPACK \<and> n > set_max_listpack_entries server \<or> robj_encoding setobj = OBJ_ENCODING_INTSET \<and> n > set_max_intset_entries server")
  case True
  then obtain ts where l: "set_list server setobj ts" "S = set ts" using holds_list[OF s h] by auto
  obtain d sz where "setTypeConvertAndExpand server setobj OBJ_ENCODING_HT n True False = Some (True, OHT d sz)" "ht_set server d sz S" using convert_ht[OF s l(1)] l(2) by blast
  then show ?thesis using True by (auto simp: setTypeMaybeConvert_def)
qed (use h in \<open>auto simp: setTypeMaybeConvert_def\<close>)

lemma begin_unsafe: "\<not> it_safe iter \<Longrightarrow> \<exists>i. iter_begin addr d iter = (i, d) \<and> \<not> it_safe i" by (simp add: iter_begin_def)

lemma bucket_unsafe: "\<not> it_safe iter \<Longrightarrow> iter_bucket d iter = Some (m, i) \<Longrightarrow> \<not> it_safe i"
  by (auto simp: iter_bucket_def Let_def split: if_splits bind_splits)

lemma next_unsafe:
  assumes "dictNext addr d iter = Some r" "\<not> it_safe iter" shows "snd (snd r) = d \<and> \<not> it_safe (fst (snd r))"
proof (rule dictNext.raw_induct[where P = "\<lambda>addr d iter r. \<not> it_safe iter \<longrightarrow> snd (snd r) = d \<and> \<not> it_safe (fst (snd r))", OF _ assms(1), rule_format, OF _ assms(2)], goal_cases)
  case (1 f addr d iter r)
  obtain i where i: "iter_begin addr d iter = (i, d)" "\<not> it_safe i" using begin_unsafe[OF 1(3), of addr d] by blast
  let ?s = "if it_entry iter = [] then let (iter, d) = iter_begin addr d iter in iter_bucket d iter \<bind> (\<lambda>(more, iter). Some (more, iter, d))
    else Some (True, iter\<lparr>it_entry := it_nextEntry iter\<rparr>, d)"
  obtain m j where s: "?s = Some (m, j, d)" "\<not> it_safe j"
  proof (cases "it_entry iter = []")
    case True
    then show ?thesis using that i 1(2) bucket_unsafe[OF i(2), of d] by (auto split: bind_splits)
  qed (use that 1(3) in auto)
  have "(if \<not> m then Some (None, j, d) else case it_entry j of [] \<Rightarrow> f addr d j | de # next \<Rightarrow> Some (Some de, j\<lparr>it_nextEntry := dictGetNext de next\<rparr>, d)) = Some r"
    using 1(2) unfolding s(1) by simp
  then show ?case using 1(1)[of addr d j r] s(2) by (auto split: if_splits list.splits)
qed

lemma dup_loop_ok:
  assumes s: "server_ok server"
  shows "iter_all (dict_addr server) d di = Some (es, di', d') \<Longrightarrow> \<not> it_safe di \<Longrightarrow>
    \<forall>e \<in> set es. sds_holds (dictGetKey e) (stored_key (dictGetKey e)) \<and> length (stored_key (dictGetKey e)) < 2 ^ 31 \<Longrightarrow>
    ht_set server d2 sz2 S \<Longrightarrow> card (S \<union> (\<lambda>e. stored_key (dictGetKey e)) ` set es) < 2 ^ 64 \<Longrightarrow>
    d' = d \<and> (\<exists>d3 sz3. dup_loop server (OHT d n) di (OHT d2 sz2) = Some (OHT d3 sz3, di') \<and> ht_set server d3 sz3 (S \<union> (\<lambda>e. stored_key (dictGetKey e)) ` set es))"
proof (induction es arbitrary: di d2 sz2 S)
  case Nil
  then obtain e i d1 where n: "dictNext (dict_addr server) d di = Some (e, i, d1)" "e = None" "i = di'" "d1 = d'"
    by (subst (asm) iter_all.simps) (auto split: bind_splits option.splits)
  then show ?case using next_unsafe[OF n(1)] Nil.prems by (auto simp: dup_loop.simps[of server _ di])
next
  case (Cons e es)
  obtain i d1 where n: "dictNext (dict_addr server) d di = Some (Some e, i, d1)" "iter_all (dict_addr server) d1 i = Some (es, di', d')"
    using Cons.prems(1) by (subst (asm) iter_all.simps) (auto split: bind_splits option.splits)
  have u: "d1 = d" "\<not> it_safe i" using next_unsafe[OF n(1)] Cons.prems(2) by auto
  let ?k = "stored_key (dictGetKey e)"
  have k: "sds_holds (dictGetKey e) ?k" "length ?k < 2 ^ 31" using Cons.prems(3) by auto
  have fin: "finite S" using Cons.prems(4) by (simp add: ht_set_def)
  have c: "card S < 2 ^ 64" using Cons.prems(5) card_mono[OF _ Un_upper1[of S "(\<lambda>e. stored_key (dictGetKey e)) ` set (e # es)"]] fin by simp
  have "setTypeAdd server (OHT d2 sz2) (dictGetKey e) = add_ht server d2 sz2 ?k (Some (dictGetKey e))" using holds_string[OF k(1)] by (simp add: setTypeAdd_def setTypeAddAux_def add_str_def)
  moreover obtain b d3 sz3 where "add_ht server d2 sz2 ?k (Some (dictGetKey e)) = Some (b, OHT d3 sz3)" "ht_set server d3 sz3 (insert ?k S)"
  proof -
    obtain o' where o: "add_ht server d2 sz2 ?k (Some (dictGetKey e)) = Some (?k \<notin> S, o')" "set_holds server o' (insert ?k S)"
      using add_ht_ok[OF s Cons.prems(4) c k(2), of "Some (dictGetKey e)"] k(1) by (auto simp: set_result_def)
    have "robj_encoding o' = OBJ_ENCODING_HT" using o(1) by (auto simp: add_ht_def split: bind_splits option.splits)
    then show ?thesis using that o by (cases o') auto
  qed
  moreover from this(2) have "d' = d \<and> (\<exists>d4 sz4. dup_loop server (OHT d n) i (OHT d3 sz3) = Some (OHT d4 sz4, di') \<and> ht_set server d4 sz4 (insert ?k S \<union> (\<lambda>e. stored_key (dictGetKey e)) ` set es))"
    using Cons.IH[OF _ u(2), of d3 sz3 "insert ?k S"] n(2) u(1) Cons.prems(3,5) by simp
  ultimately show ?case using n(1) u(1) by (auto simp: dup_loop.simps[of server _ di])
qed

lemma dup_intset: "intset_ok is \<Longrightarrow> setTypeDup server (OIntset is) = Some (OIntset is)"
  by (auto simp: setTypeDup_def rd_def intset_ok_def intset_shape_def ilen_def)

lemma dup_listpack:
  assumes "lp_holds lp ts" shows "\<exists>lp'. setTypeDup server (OListpack lp) = Some (OListpack lp') \<and> lp_holds lp' ts"
  using assms
proof (rule holdsE)
  fix n sl assume h: "lp = lpk n (encs ts) sl" "lp_inv n (encs ts)" "list_all str_ok ts"
  have "lp = lpk n (encs ts) [] @ sl" "length (lpk n (encs ts) []) = 7 + length (body (encs ts))" using h(1) by (simp_all add: lpk_def)
  then have "rd lp 0 (7 + length (body (encs ts))) = Some (lpk n (encs ts) [])" by (simp add: rd_def)
  then show ?thesis using lpk_bytes[OF h(2), of sl] h(1) holdsI[OF h(2,3), of "[]"] by (simp add: setTypeDup_def)
qed

lemma dup_ht:
  assumes s: "server_ok server" and h: "ht_set server d sz S" "card S < 2 ^ 64"
  shows "\<exists>d' sz'. setTypeDup server (OHT d sz) = Some (OHT d' sz') \<and> ht_set server d' sz' S"
proof -
  have wf: "dict_wf d" using h(1) by (simp add: ht_set_def)
  obtain ok d0 where e: "dictExpand (dict_can_resize server) (dictCreate (setDictType (dict_hash_function_seed server))) (of_nat (unat (dictSize d))) = Some (ok, d0)" "ht_set server d0 0 {}"
    using expand_ht_set[OF create_ht_set] by fastforce
  obtain es di' d' where a: "iter_all (dict_addr server) d dictInitIterator = Some (es, di', d')" "es = ht_entries (ht0 d) @ ht_entries (ht1 d)" "dictResetIterator (dict_addr server) d' di' = Some d"
    using iterate_complete[OF wf, of dictInitIterator "dict_addr server"] by blast
  have c: "mset (map strip es) = cont d" using a(2) by (simp add: cont_def ht_cont_def)
  then have m: "strip e \<in># cont d" if "e \<in> set es" for e using that by (metis image_eqI image_mset_def list.set_map set_mset_mset)
  have k: "\<forall>e \<in> set es. sds_holds (dictGetKey e) (stored_key (dictGetKey e)) \<and> length (stored_key (dictGetKey e)) < 2 ^ 31" using m h(1) by (force simp: ht_set_def dest: exact_holds)
  have "S = (\<lambda>x. stored_key (fst x)) ` set_mset (cont d)" using h(1) unfolding ht_set_def by (metis finite_set_mset_mset_set set_image_mset)
  then have S: "S = (\<lambda>e. stored_key (dictGetKey e)) ` set es" unfolding c[symmetric] by (simp add: image_image)
  have u: "\<not> it_safe dictInitIterator" by (simp add: dictInitIterator_def)
  obtain d3 sz3 where l: "d' = d" "dup_loop server (OHT d sz) dictInitIterator (OHT d0 0) = Some (OHT d3 sz3, di')" "ht_set server d3 sz3 S"
    using dup_loop_ok[OF s a(1) u k e(2), of sz] S h(2) by auto
  then show ?thesis using e(1) a(3) by (simp add: setTypeDup_def expand_object_def createSetObject_def setTypeResetIterator_def)
qed

lemma dup_set:
  assumes s: "server_ok server" and h: "set_holds server setobj S" "card S < 2 ^ 64"
  shows "\<exists>setobj'. setTypeDup server setobj = Some setobj' \<and> set_holds server setobj' S \<and> robj_encoding setobj' = robj_encoding setobj"
proof (cases setobj)
  case (OIntset x)
  then show ?thesis using h dup_intset[of x server] by simp
next
  case (OListpack lp)
  then obtain ts where ts: "lp_holds lp ts" "distinct ts" "\<forall>t \<in> set ts. length t < 2 ^ 31" "S = set ts" using h(1) by auto
  then show ?thesis using dup_listpack[OF ts(1), of server] OListpack by auto
next
  case (OHT d sz)
  then show ?thesis using dup_ht[OF s _ h(2), of d sz] h(1) by auto
qed

section \<open>Commands\<close>

text \<open>What a caller does to a set, and what it does to a mathematical set of byte strings. A result is the returned integer.\<close>

datatype scmd = SAdd setval | SRemove setval | SIsMember setval | SSize | SHint nat | SDup

fun set_step :: "server \<Rightarrow> scmd \<Rightarrow> robj \<Rightarrow> (nat \<times> robj) option" where
  "set_step server (SAdd v) setobj = do { (b, setobj) \<leftarrow> setTypeAddAux server setobj v; Some (of_bool b, setobj) }"
| "set_step server (SRemove v) setobj = do { (b, setobj) \<leftarrow> setTypeRemoveAux server setobj v; Some (of_bool b, setobj) }"
| "set_step server (SIsMember v) setobj = do { (b, setobj) \<leftarrow> setTypeIsMemberAux server setobj v; Some (of_bool b, setobj) }"
| "set_step server SSize setobj = setTypeSize setobj"
| "set_step server (SHint n) setobj = do { setobj \<leftarrow> setTypeMaybeConvert server setobj n; Some (0, setobj) }"
| "set_step server SDup setobj = do { setobj \<leftarrow> setTypeDup server setobj; Some (0, setobj) }"

fun set_spec :: "scmd \<Rightarrow> mem set \<Rightarrow> nat \<times> mem set" where
  "set_spec (SAdd v) S = (of_bool (val_text v \<notin> S), insert (val_text v) S)"
| "set_spec (SRemove v) S = (of_bool (val_text v \<in> S), S - {val_text v})"
| "set_spec (SIsMember v) S = (of_bool (val_text v \<in> S), S)"
| "set_spec SSize S = (card S, S)"
| "set_spec (SHint n) S = (0, S)"
| "set_spec SDup S = (0, S)"

fun scmd_ok :: "scmd \<Rightarrow> bool" where
  "scmd_ok (SAdd v) = val_ok v"
| "scmd_ok (SRemove v) = val_ok v"
| "scmd_ok (SIsMember v) = val_ok v"
| "scmd_ok _ = True"

definition set_rep :: "server \<Rightarrow> nat \<Rightarrow> robj \<Rightarrow> mem set \<Rightarrow> bool" where
  "set_rep server n setobj S \<longleftrightarrow> server_ok server \<and> set_holds server setobj S \<and> card S + n < 2 ^ 64"

lemma result_bit: "set_result server r b S \<Longrightarrow> \<exists>setobj. r \<bind> (\<lambda>(b, setobj). Some (of_bool b, setobj)) = Some (of_bool b :: nat, setobj) \<and> set_holds server setobj S"
  by (auto simp: set_result_def)

lemma set_step_ok:
  assumes "set_rep server (Suc n) setobj S" "scmd_ok c"
  shows "\<exists>setobj'. set_step server c setobj = Some (fst (set_spec c S), setobj') \<and> set_rep server n setobj' (snd (set_spec c S))"
proof -
  have s: "server_ok server" and h: "set_holds server setobj S" "card S < 2 ^ 64" and n: "card S + Suc n < 2 ^ 64" using assms(1) by (auto simp: set_rep_def)
  have fin: "finite S" using holds_finite[OF h(1)] .
  have "\<exists>setobj'. set_step server c setobj = Some (fst (set_spec c S), setobj') \<and> set_holds server setobj' (snd (set_spec c S))"
  proof (cases c)
    case (SAdd v)
    then show ?thesis using result_bit[OF add_ok[OF s h, of v]] assms(2) by simp
  next
    case (SRemove v)
    then show ?thesis using result_bit[OF remove_ok[OF s h, of v]] assms(2) by simp
  next
    case (SIsMember v)
    then show ?thesis using result_bit[OF member_ok[OF s h, of v]] assms(2) by simp
  next
    case (SHint k)
    then show ?thesis using hint_ok[OF s h(1), of k] by auto
  qed (use size_ok[OF s h] dup_set[OF s h] in auto)
  moreover have "card (snd (set_spec c S)) \<le> Suc (card S)" by (cases c) (auto simp: card_insert_if card_Diff_singleton_if fin)
  ultimately show ?thesis using s n by (auto simp: set_rep_def)
qed

interpretation set_obj: object_store "set_rep server" "set_step server" set_spec scmd_ok for server
  by unfold_locales (rule set_step_ok)

lemma run_created:
  assumes "server_ok server" "sds_holds value t" "list_all scmd_ok cmds" "length cmds < 2 ^ 64"
  shows "\<exists>setobj. do { setobj \<leftarrow> setTypeCreate server value size_hint; run_ops (set_step server) cmds setobj } = Some (fst (run_spec set_spec cmds {}), setobj) \<and>
    set_holds server setobj (snd (run_spec set_spec cmds {}))"
proof -
  obtain setobj where c: "setTypeCreate server value size_hint = Some setobj" "set_holds server setobj {}" using create_empty[OF assms(1,2)] by blast
  have "set_rep server (length cmds + 0) setobj {}" using assms(1,4) c(2) by (simp add: set_rep_def)
  from set_obj.run_refines[OF this assms(3)] show ?thesis using c(1) by (auto simp: set_rep_def)
qed

section \<open>Reaching a hash table\<close>

text \<open>The encoding never goes back, and a large enough hint leads to a hash table.\<close>

lemma run_append: "run_ops step (xs @ ys) m = do { (rs, m) \<leftarrow> run_ops step xs m; (rs', m) \<leftarrow> run_ops step ys m; Some (rs @ rs', m) }"
proof (induction xs arbitrary: m)
  case Nil
  show ?case by (cases "run_ops step ys m") auto
next
  case (Cons c xs)
  show ?case by (cases "step c m") (auto simp: Cons.IH split: bind_splits)
qed

lemma add_ht_encoding: "add_ht server d sz str sdsv = Some (b, setobj) \<Longrightarrow> robj_encoding setobj = OBJ_ENCODING_HT"
  by (auto simp: add_ht_def split: bind_splits option.splits)

lemma remove_ht_encoding: "remove_str server (OHT d sz) str sdsv = Some (b, setobj) \<Longrightarrow> robj_encoding setobj = OBJ_ENCODING_HT"
  by (auto simp: remove_str_def split: bind_splits option.splits)

lemma member_ht_encoding: "member_str server (OHT d sz) str sdsv = Some (b, setobj) \<Longrightarrow> robj_encoding setobj = OBJ_ENCODING_HT"
  by (auto simp: member_str_def split: bind_splits option.splits)

lemma step_encoding:
  assumes "set_rep server (Suc n) (OHT d sz) S" "set_step server c (OHT d sz) = Some (r, setobj)" shows "robj_encoding setobj = OBJ_ENCODING_HT"
proof (cases c)
  case (SAdd v)
  then show ?thesis using assms(2) by (cases v) (auto simp: setTypeAddAux_def add_str_def dest: add_ht_encoding split: bind_splits)
next
  case (SRemove v)
  then show ?thesis using assms(2) by (cases v) (auto simp: setTypeRemoveAux_def dest: remove_ht_encoding split: bind_splits)
next
  case (SIsMember v)
  then show ?thesis using assms(2) by (cases v) (auto simp: setTypeIsMemberAux_def dest: member_ht_encoding split: bind_splits)
next
  case SSize
  then show ?thesis using assms(2) by (auto simp: setTypeSize_def)
next
  case (SHint k)
  then show ?thesis using assms(2) by (auto simp: setTypeMaybeConvert_def)
next
  case SDup
  have "server_ok server" "set_holds server (OHT d sz) S" "card S < 2 ^ 64" using assms(1) by (auto simp: set_rep_def)
  from dup_set[OF this] show ?thesis using SDup assms(2) by auto
qed

lemma run_encoding:
  "set_rep server (length cs + n) (OHT d sz) S \<Longrightarrow> list_all scmd_ok cs \<Longrightarrow> \<exists>rs d' sz'. run_ops (set_step server) cs (OHT d sz) = Some (rs, OHT d' sz')"
proof (induction cs arbitrary: d sz S)
  case (Cons c cs)
  have r: "set_rep server (Suc (length cs + n)) (OHT d sz) S" "scmd_ok c" using Cons.prems by auto
  obtain setobj where s: "set_step server c (OHT d sz) = Some (fst (set_spec c S), setobj)" "set_rep server (length cs + n) setobj (snd (set_spec c S))" using set_step_ok[OF r] by blast
  then obtain d1 sz1 where o: "setobj = OHT d1 sz1" using step_encoding[OF r(1) s(1)] by (cases setobj) auto
  show ?case using Cons.IH[OF s(2)[unfolded o]] Cons.prems s(1) o by auto
qed simp

lemma hint_encoding:
  assumes s: "server_ok server" and h: "set_holds server setobj S" and n: "set_max_intset_entries server < n" "set_max_listpack_entries server < n"
  shows "\<exists>d sz. setTypeMaybeConvert server setobj n = Some (OHT d sz) \<and> ht_set server d sz S"
proof (cases "robj_encoding setobj = OBJ_ENCODING_HT")
  case True
  then show ?thesis using h by (cases setobj) (auto simp: setTypeMaybeConvert_def)
next
  case False
  obtain ts where l: "set_list server setobj ts" "S = set ts" using holds_list[OF s h False] by blast
  have "robj_encoding setobj = OBJ_ENCODING_LISTPACK \<or> robj_encoding setobj = OBJ_ENCODING_INTSET" using False by (cases setobj) auto
  then show ?thesis using convert_ht[OF s l(1), of n] l(2) n by (auto simp: setTypeMaybeConvert_def)
qed

lemma hint_reaches_ht:
  assumes s: "server_ok server" and v: "sds_holds value t" and c: "list_all scmd_ok (xs @ SHint n # ys)" "length (xs @ SHint n # ys) < 2 ^ 64"
    and n: "set_max_intset_entries server < n" "set_max_listpack_entries server < n"
  shows "\<exists>rs d sz. do { setobj \<leftarrow> setTypeCreate server value size_hint; run_ops (set_step server) (xs @ SHint n # ys) setobj } = Some (rs, OHT d sz)"
proof -
  obtain setobj where a: "setTypeCreate server value size_hint = Some setobj" "set_holds server setobj {}" using create_empty[OF s v] by blast
  have "set_rep server (length xs + Suc (length ys)) setobj {}" using s a(2) c(2) by (simp add: set_rep_def)
  from set_obj.run_refines[OF this] c(1) obtain rs o1 S where r: "run_ops (set_step server) xs setobj = Some (rs, o1)" "set_rep server (Suc (length ys)) o1 S" by auto
  obtain d sz where h: "setTypeMaybeConvert server o1 n = Some (OHT d sz)" "ht_set server d sz S" using hint_encoding[OF s _ n, of o1 S] r(2) by (auto simp: set_rep_def)
  have "set_rep server (length ys + 0) (OHT d sz) S" using r(2) h(2) by (simp add: set_rep_def)
  from run_encoding[OF this] c(1) obtain rs' d' sz' where "run_ops (set_step server) ys (OHT d sz) = Some (rs', OHT d' sz')" by auto
  then show ?thesis using a(1) r(1) h(1) by (simp add: run_append)
qed

section \<open>Properties\<close>

text \<open>C1: A set created for any first value and any size hint and then used by any commands (adding, removing and testing a value given as a dynamic string,
  as a buffer or as an integer, counting, converting on a hint, and continuing on a copy) returns, command by command, what a mathematical
  set of byte strings returns, and represents that set at the end, through every conversion between integer set, listpack and hash table.\<close>

theorem set_commands_refine:
  assumes "server_ok server" "sds_holds value t" "list_all scmd_ok cmds" "length cmds < 2 ^ 64"
  shows "\<exists>setobj. do { setobj \<leftarrow> setTypeCreate server value size_hint; run_ops (set_step server) cmds setobj } = Some (fst (run_spec set_spec cmds {}), setobj) \<and>
    set_holds server setobj (snd (run_spec set_spec cmds {}))"
  by (rule run_created[OF assms])

text \<open>A server with small thresholds, and commands that lead an integer set through a listpack to a hash table.\<close>

definition demo_server :: server where
  "demo_server = \<lparr>set_max_intset_entries = 3, set_max_listpack_entries = 3, set_max_listpack_value = 64, dict_can_resize = DICT_RESIZE_ENABLE,
     dict_hash_function_seed = replicate 16 7, mem_alloc = demo_alloc, mem_fresh = (\<lambda>_. 9), dict_addr = (4096, 8192)\<rparr>"

definition demo_sets :: "scmd list" where
  "demo_sets = [SAdd (VInt 5), SAdd (VBuf [55]), SAdd (VBuf [97, 98]), SAdd (VInt 7), SAdd (VBuf [99]), SIsMember (VBuf [53]), SRemove (VInt 5), SDup, SSize]"

lemma demo_server_ok: "server_ok demo_server" by (simp add: server_ok_def demo_server_def demo_serves INTSET_CAP_def)

lemma demo_sets_ok: "list_all scmd_ok demo_sets" "length demo_sets < 2 ^ 64" by (simp_all add: demo_sets_def)

lemma demo_value: "\<exists>s. sdsnewlen demo_alloc (Init [53]) 1 = Some (Some s) \<and> sds_holds s [53]"
  using new_ok[OF demo_serves, of 1 "[53]"] by auto

theorem set_commands_refine_witness:
  "\<exists>value setobj. sdsnewlen demo_alloc (Init [53]) 1 = Some (Some value) \<and>
    do { setobj \<leftarrow> setTypeCreate demo_server value 2; run_ops (set_step demo_server) demo_sets setobj } = Some ([1, 1, 1, 0, 1, 1, 1, 0, 3], setobj) \<and>
    set_holds demo_server setobj {[55], [97, 98], [99]}"
proof -
  obtain s where s: "sdsnewlen demo_alloc (Init [53]) 1 = Some (Some s)" "sds_holds s [53]" using demo_value by blast
  have "run_spec set_spec demo_sets {} = ([1, 1, 1, 0, 1, 1, 1, 0, 3], {[55], [97, 98], [99]})" by code_simp
  then show ?thesis using set_commands_refine[OF demo_server_ok s(2) demo_sets_ok, of 2] s(1) by auto
qed

text \<open>C40: The size counter that a hash table keeps for \<open>setTypeAllocSize\<close> is exact: whatever commands led to a hash table, through whatever encodings,
  the strings stored in it are those of the set that the commands make, once each, and the counter is the sum of the lengths of the blocks that
  these strings were allocated in, modulo 2 to the 64. (The other summand, \<open>dictMemUsage\<close>, is an estimate in the code too.)\<close>

theorem set_counter_exact:
  assumes "server_ok server" "sds_holds value t" "list_all scmd_ok cmds" "length cmds < 2 ^ 64"
    and "do { setobj \<leftarrow> setTypeCreate server value size_hint; run_ops (set_step server) cmds setobj } = Some (rs, OHT d sz)"
  shows "mset (map stored_key (map dictGetKey (ht_entries (ht0 d) @ ht_entries (ht1 d)))) = mset_set (snd (run_spec set_spec cmds {})) \<and>
    sz = of_nat (\<Sum>s \<leftarrow> map dictGetKey (ht_entries (ht0 d) @ ht_entries (ht1 d)). length (sblk s))"
proof -
  have h: "ht_set server d sz (snd (run_spec set_spec cmds {}))" using run_created[OF assms(1-4), of size_hint] assms(5) by auto
  let ?strings = "map dictGetKey (ht_entries (ht0 d) @ ht_entries (ht1 d))"
  have c: "cont d = mset (map strip (ht_entries (ht0 d) @ ht_entries (ht1 d)))" by (simp add: cont_def ht_cont_def)
  have "image_mset (\<lambda>x. f (fst x)) (mset (map strip es)) = mset (map f (map dictGetKey es))" for f :: "sds \<Rightarrow> 'x" and es :: "(sds, unit) dictEntry list"
    by (induction es) simp_all
  then have m: "image_mset (\<lambda>x. f (fst x)) (cont d) = mset (map f ?strings)" for f :: "sds \<Rightarrow> 'x" unfolding c .
  have "sz = of_nat (\<Sum>x \<in># cont d. alloc_of (fst x))" using h by (simp add: ht_set_def)
  then have "sz = of_nat (sum_mset (mset (map alloc_of ?strings)))" unfolding m .
  then have "sz = of_nat (\<Sum>s \<leftarrow> ?strings. length (sblk s))" by (simp only: sum_mset_sum_list alloc_of_def[abs_def])
  moreover have "mset (map stored_key ?strings) = mset_set (snd (run_spec set_spec cmds {}))" using h unfolding m[symmetric] by (simp add: ht_set_def)
  ultimately show ?thesis by blast
qed

theorem set_counter_exact_witness:
  "\<exists>value rs d sz. sdsnewlen demo_alloc (Init [53]) 1 = Some (Some value) \<and>
    do { setobj \<leftarrow> setTypeCreate demo_server value 2; run_ops (set_step demo_server) (demo_sets @ SHint 9 # demo_sets) setobj } = Some (rs, OHT d sz) \<and>
    mset (map stored_key (map dictGetKey (ht_entries (ht0 d) @ ht_entries (ht1 d)))) = mset_set {[55], [97, 98], [99]} \<and>
    sz = of_nat (\<Sum>s \<leftarrow> map dictGetKey (ht_entries (ht0 d) @ ht_entries (ht1 d)). length (sblk s))"
proof -
  let ?cs = "demo_sets @ SHint 9 # demo_sets"
  obtain s where s: "sdsnewlen demo_alloc (Init [53]) 1 = Some (Some s)" "sds_holds s [53]" using demo_value by blast
  have c: "list_all scmd_ok ?cs" "length ?cs < 2 ^ 64" "set_max_intset_entries demo_server < 9" "set_max_listpack_entries demo_server < 9"
    by (simp_all add: demo_sets_def demo_server_def)
  obtain rs d sz where r: "do { setobj \<leftarrow> setTypeCreate demo_server s 2; run_ops (set_step demo_server) ?cs setobj } = Some (rs, OHT d sz)"
    using hint_reaches_ht[OF demo_server_ok s(2) c(1,2) c(3,4)] by blast
  have "snd (run_spec set_spec ?cs {}) = {[55], [97, 98], [99]}" by code_simp
  then show ?thesis using set_counter_exact[OF demo_server_ok s(2) c(1,2) r] s(1) r by (simp del: map_map)
qed

end
