(* ===== verification/Spec2Isabelle.thy ===== *)
theory Spec2Isabelle
  imports Intset Bitops Skiplist Util ListpackProps Adlist Digest TsetProps
begin

text \<open>
  Verification of the data-structure kernels of skynetjit.

  The program. Skynetjit builds the Skynet actor framework on LuaJIT and adds C libraries to it. \<open>src/redislib-src\<close> is a port of the data
  structures of Redis: \<open>kernel\<close> holds the algorithms, \<open>facade\<close> exports them to Lua. \<open>src/luaclib-src\<close> holds further Lua modules: the ranked
  list of \<open>zset\<close>, JSON, protocol buffers and bindings of external libraries. \<open>src/compat\<close> adapts Skynet to Windows and to the
  Lua 5.1 interface. The development models the kernels and the ranked list, which carry the logic and the state; the remaining parts move
  arguments between them and the Lua stack, call the operating system, or are third-party code.

  How the parts interact. The hash tables (\<open>dict.c\<close>) call the hash function of their type, by default \<open>siphash\<close> under a seed. Listpacks and dynamic
  strings use the conversions between integers and text of \<open>util.c\<close>. Sets (\<open>t_set.c\<close>) keep their elements in an integer set, a listpack or a
  dictionary of dynamic strings and move between them; bit fields, checksums, digests and random numbers stand alone.
  Everything allocates through the port layer (\<open>redislib_port.c\<close>), in which an allocation has no usable slack. Where the code looks at the result of an
  allocation (dynamic strings, listpacks, list nodes and list headers, \<open>dictTryExpand\<close>) the model lets it fail; where it does not, memory is assumed.

  Reading the definitions. Memory is a list of bytes and a pointer into a block is an offset (\<open>Prelude\<close>); linked structures are heaps from
  addresses to records. An operation of the code is a function into \<open>'a option\<close>, in which \<^term>\<open>None\<close> stands for an access outside the
  allocated memory, a null or dangling pointer, a failed assertion and a loop that does not end. A theorem that says that an operation yields
  \<^term>\<open>Some\<close> is therefore a statement of safety and of termination. Where the code itself reports a failure (a full listpack, a failed
  allocation, a buffer that is too small) the result has a second level. Machine integers are words of their width; \<open>int\<close> variables whose
  overflow is excluded by the preconditions are integers. Definitions have the names of the C functions; a leading underscore is a prime at the end.

  The theories.
    \<^item> \<open>Prelude\<close>: bytes, little-endian integers, bounds-checked reads and writes, \<open>memmove\<close>, and the shared lemmas on them.
    \<^item> \<open>Store\<close>: the contracts. \<open>seq_store\<close> and \<open>cmd_store\<close> say what one command does to a representation of a sequence, \<open>object_store\<close> what
      it does to an object with a result, and when a command is refused; the lemmas proved in them carry this to all sequences of commands. The listpack, the linked list,
      the dynamic string, the dictionary and the set object are interpretations.
    \<^item> \<open>Intset\<close>: \<open>endianconv.c\<close> and \<open>intset.c\<close>, a sorted array of integers of the least sufficient width. Searching is binary search; adding
      and removing yield the sorted array of the new set, also through an upgrade of the width; validation accepts exactly the well-formed blocks;
      the count of bytes moved wraps at 32 bits.
    \<^item> \<open>Bitops\<close>: \<open>bitops.c\<close>. The five population counts (portable, popcnt, AVX2, AVX-512, and AArch64 below 256 KB, where its
      16-bit lanes cannot wrap) and their dispatch equal the number of bits set, \<open>redisBitpos\<close> finds the first bit, bit fields
      round-trip; the overflow rules give their result exactly where the code is defined (a subtraction of the signed rule
      overflows for 64-bit fields).
    \<^item> \<open>Skiplist\<close>: \<open>luaclib-src/zset/skiplist.c\<close> on a heap of nodes. Insertion and deletion keep the order, the links of all levels and the spans;
      ranks and positions are inverse; ranges are found.
    \<^item> \<open>Util\<close>: \<open>util.c\<close>. Glob matching against a declarative relation, integers to text and back, error results.
    \<^item> \<open>Listpack\<close>, \<open>ListpackRep\<close>, \<open>ListpackOps\<close>, \<open>ListpackProps\<close>: \<open>listpack.c\<close>: the code, what a block means, the operations on the meaning,
      and the properties: commands refine list operations and return \<open>NULL\<close> exactly when the size or the allocator does not allow them, every reachable block passes the validator, a block that passes can be walked
      safely, the validator is total on arbitrary bytes.
    \<^item> \<open>Adlist\<close>: \<open>adlist.c\<close> on a heap of nodes and a store of list headers; commands, joining included, refine list operations up to the first refused
      allocation, a failed duplication gives back every node, header and copied value, iterators visit every node also while the client deletes nodes.
    \<^item> \<open>Digest\<close>: \<open>crc16.c\<close>, \<open>sha256.c\<close>, \<open>siphash.c\<close>, \<open>mt19937-64.c\<close>, each against its defining equations; the contract \<open>stream_hash\<close> says that a
      digest does not depend on how the input is cut.
    \<^item> \<open>Dict\<close>, \<open>DictRep\<close>, \<open>DictOps\<close>, \<open>DictScan\<close>, \<open>DictProps\<close>, \<open>DictIter\<close>: \<open>dict.c\<close>: the code; the invariant and the contents; the operations on the contents;
      the reversed-bit cursor; and the properties: commands refine a map through every phase of a rehashing, a rehashing that the resize policy allows completes, a scan
      returns every element that stays, an iterator returns every entry once.
    \<^item> \<open>Sds\<close>, \<open>SdsRep\<close>, \<open>SdsProps\<close>: \<open>sds.c\<close> and \<open>sds.h\<close>: the code on blocks of bytes with the header in front of the text; the layout of the five
      header types; and the properties: commands refine operations on a list of bytes through every change of the header, splitting and
      joining are inverse, quoted arguments are read back, formats are expanded. An allocator is an argument of the operations and may refuse.

    \<^item> \<open>Tset\<close>, \<open>TsetRep\<close>, \<open>TsetProps\<close>: \<open>t_set.c\<close> with its part of \<open>redislib_port.c\<close>: sets that change between integer set, listpack and hash table,
      composed from the models above; the set of byte strings that an object holds; and the properties: commands refine a mathematical set
      through every conversion, the size counter of a hash table is the sum of the blocks of its strings.

  Bounds. A dynamic string has less than 2 to the 62 bytes, the limit below which no size computation wraps. A listpack holds less than 2 to the 32 bytes, because its header stores the size in 32 bits; lists, dictionaries and skip lists hold
  fewer elements than their counters count (2 to the 64, and 2 to the 32 for the spans of a skip list); an integer set stays below the size at
  which the byte count of a move wraps. An element of a set has less than 2 to the 31 bytes, because lengths of keys are compared as \<open>int\<close>.
  A call of \<open>dictRehash\<close> takes at most 214748364 steps, because the code multiplies the number by ten in an \<open>int\<close>. Loops are structural recursion, recursion with a measure, or \<open>partial_function (option)\<close>; no fuel is used.

  Not modelled: the facade, the Lua bindings and \<open>compat\<close> (calls of the Lua API and of the operating system, which are not in the repository);
  SQLite, curl and zlib (third-party); floating-point code; functions that only print; test drivers; of the kernels the sorted
  set, the partial quicksort, the cardinality estimator and the geographic hashes, and the random sampling and defragmentation of dictionaries.
\<close>

end
